(* ===== verification/Nt_Prelude.thy ===== *)
theory Nt_Prelude
  imports Main "HOL-Library.Word" "HOL-Library.Signed_Division" "HOL-Library.Monad_Syntax"
begin

unbundle bit_operations_syntax

text \<open>
  Shared vocabulary of the development.

  Rust machine integers. Identifiers, sequence numbers, timestamps and flag bytes are kept
  at their width (\<open>64 word\<close>, \<open>8 word\<close>). The fixed-point raw values are
  \<open>int\<close> (Rust \<open>i128\<close>) and \<open>nat\<close> (Rust \<open>u128\<close>) with every
  range check of the code written out, so that a checked operation is \<open>None\<close> exactly when
  the Rust operation reports an overflow.

  Panics. A function that can panic returns an \<open>option\<close>; \<open>None\<close> is the
  panic. A function whose Rust signature is \<open>Result\<close> returns a sum with the error on the
  left.
\<close>

type_synonym u8 = "8 word"
type_synonym u64 = "64 word"
type_synonym 'a panics = "'a option"

named_theorems rust_int_simps \<open>unfolding rules of the checked integer operations\<close>
named_theorems book_simps \<open>rewrite rules of the order book operations\<close>
named_theorems book_intros \<open>invariant preservation rules of the order book\<close>

section \<open>Ranges of the 128-bit integers\<close>

definition i128_max :: int where
  "i128_max = 170141183460469231731687303715884105727"

definition i128_min :: int where
  "i128_min = -170141183460469231731687303715884105728"

definition u128_max :: nat where
  "u128_max = 340282366920938463463374607431768211455"

definition in_i128 :: "int \<Rightarrow> bool" where
  "in_i128 x \<longleftrightarrow> i128_min \<le> x \<and> x \<le> i128_max"

definition checked_i128 :: "int \<Rightarrow> int option" where
  "checked_i128 x = (if in_i128 x then Some x else None)"

definition checked_u128 :: "nat \<Rightarrow> nat option" where
  "checked_u128 x = (if x \<le> u128_max then Some x else None)"

definition checked_sub_u128 :: "nat \<Rightarrow> nat \<Rightarrow> nat option" where
  "checked_sub_u128 x y = (if y \<le> x then Some (x - y) else None)"

lemma i128_max_eq: "i128_max = 2 ^ 127 - 1"
  by (simp add: i128_max_def)

lemma i128_min_eq: "i128_min = - (2 ^ 127)"
  by (simp add: i128_min_def)

lemma u128_max_eq: "u128_max = 2 ^ 128 - 1"
  by (simp add: u128_max_def)

lemma checked_i128_Some [simp]: "checked_i128 x = Some y \<longleftrightarrow> in_i128 x \<and> y = x"
  by (auto simp: checked_i128_def)

lemma checked_i128_None [simp]: "checked_i128 x = None \<longleftrightarrow> \<not> in_i128 x"
  by (auto simp: checked_i128_def)

lemma checked_u128_Some [simp]: "checked_u128 x = Some y \<longleftrightarrow> x \<le> u128_max \<and> y = x"
  by (auto simp: checked_u128_def)

lemma checked_u128_None [simp]: "checked_u128 x = None \<longleftrightarrow> u128_max < x"
  by (auto simp: checked_u128_def)

lemma checked_sub_u128_Some [simp]:
  "checked_sub_u128 x y = Some z \<longleftrightarrow> y \<le> x \<and> z = x - y"
  by (auto simp: checked_sub_u128_def)

lemma checked_sub_u128_None [simp]: "checked_sub_u128 x y = None \<longleftrightarrow> x < y"
  by (auto simp: checked_sub_u128_def)

text \<open>The arithmetic of a release build: overflow wraps around.\<close>

definition wrap_u :: "nat \<Rightarrow> nat \<Rightarrow> nat" where
  "wrap_u w x = x mod 2 ^ w"

definition wrap_s :: "nat \<Rightarrow> int \<Rightarrow> int" where
  "wrap_s w x = (x + 2 ^ (w - 1)) mod 2 ^ w - 2 ^ (w - 1)"

lemma wrap_u_id: "x < 2 ^ w \<Longrightarrow> wrap_u w x = x"
  by (simp add: wrap_u_def)

lemma wrap_s_id:
  assumes "0 < w" and "- (2 ^ (w - 1)) \<le> x" and "x < 2 ^ (w - 1)"
  shows "wrap_s w x = x"
proof -
  have "(2::int) ^ w = 2 * 2 ^ (w - 1)"
    using assms(1) by (cases w) simp_all
  then have "(x + 2 ^ (w - 1)) mod 2 ^ w = x + 2 ^ (w - 1)"
    using assms by (intro mod_pos_pos_trivial) simp_all
  then show ?thesis by (simp add: wrap_s_def)
qed

lemma wrap_s_128_id: "in_i128 x \<Longrightarrow> wrap_s 128 x = x"
  by (rule wrap_s_id) (simp_all add: in_i128_def i128_min_def i128_max_def)

section \<open>Saturating arithmetic on words\<close>

definition saturating_add :: "'a::len word \<Rightarrow> 'a word \<Rightarrow> 'a word" where
  "saturating_add a b = (if unat a + unat b < 2 ^ LENGTH('a) then a + b else - 1)"

definition saturating_sub :: "'a::len word \<Rightarrow> 'a word \<Rightarrow> 'a word" where
  "saturating_sub a b = (if b \<le> a then a - b else 0)"

lemma unat_saturating_add:
  "unat (saturating_add a (b::'a::len word)) = min (unat a + unat b) (2 ^ LENGTH('a) - 1)"
proof (cases "unat a + unat b < 2 ^ LENGTH('a)")
  case True
  then show ?thesis by (simp add: saturating_add_def unat_word_ariths)
next
  case False
  moreover have "unat (- 1 :: 'a word) = 2 ^ LENGTH('a) - 1"
    by (simp add: unsigned_minus_1_eq_mask mask_eq_exp_minus_1)
  ultimately show ?thesis by (simp add: saturating_add_def)
qed

lemma saturating_add_ge: "a \<le> saturating_add a (b::'a::len word)"
proof -
  have "unat a < 2 ^ LENGTH('a)" by (rule unsigned_less)
  then have "unat a \<le> 2 ^ LENGTH('a) - 1" by linarith
  then show ?thesis by (simp add: word_le_nat_alt unat_saturating_add)
qed

lemma unat_saturating_sub: "unat (saturating_sub a b) = unat a - unat b"
  by (auto simp: saturating_sub_def unat_sub word_le_nat_alt)

section \<open>Results\<close>

text \<open>Sequencing of \<open>Result\<close> values, the \<open>?\<close> operator of the source.\<close>

fun and_then :: "'e + 'a \<Rightarrow> ('a \<Rightarrow> 'e + 'b) \<Rightarrow> 'e + 'b" where
  "and_then (Inl e) f = Inl e"
| "and_then (Inr x) f = f x"

lemma and_then_Inr: "and_then r f = Inr y \<longleftrightarrow> (\<exists>x. r = Inr x \<and> f x = Inr y)"
  by (cases r) auto

lemma and_then_Inl: "and_then r f = Inl e \<longleftrightarrow> r = Inl e \<or> (\<exists>x. r = Inr x \<and> f x = Inl e)"
  by (cases r) auto

lemma bind_Some_conv: "Option.bind m f = Some y \<longleftrightarrow> (\<exists>x. m = Some x \<and> f x = Some y)"
  by (cases m) auto

lemma bind_None_conv: "Option.bind m f = None \<longleftrightarrow> m = None \<or> (\<exists>x. m = Some x \<and> f x = None)"
  by (cases m) auto

section \<open>Folding a fallible step over a list\<close>

fun fold_opt :: "('a \<Rightarrow> 's \<Rightarrow> 's option) \<Rightarrow> 'a list \<Rightarrow> 's \<Rightarrow> 's option" where
  "fold_opt f [] s = Some s"
| "fold_opt f (x # xs) s = Option.bind (f x s) (fold_opt f xs)"

lemma fold_opt_append:
  "fold_opt f (xs @ ys) s = Option.bind (fold_opt f xs s) (fold_opt f ys)"
proof (induction xs arbitrary: s)
  case Nil
  then show ?case by simp
next
  case (Cons x xs)
  then show ?case by (cases "f x s") simp_all
qed

text \<open>An invariant that every step keeps, on inputs of which every one is admissible.\<close>

lemma fold_opt_invariant:
  assumes "fold_opt f xs s = Some s'" and "I s"
    and "\<And>x s s'. x \<in> set xs \<Longrightarrow> I s \<Longrightarrow> f x s = Some s' \<Longrightarrow> I s'"
  shows "I s'"
  using assms
proof (induction xs arbitrary: s)
  case Nil
  then show ?case by simp
next
  case (Cons x xs)
  from Cons.prems(1) obtain t where t: "f x s = Some t" "fold_opt f xs t = Some s'"
    by (auto simp: bind_Some_conv)
  have "I t" using Cons.prems(2,3) t(1) by auto
  with t(2) show ?case using Cons.IH Cons.prems(3) by (metis list.set_intros(2))
qed

lemma fold_opt_total:
  assumes "I s"
    and "\<And>x s. x \<in> set xs \<Longrightarrow> I s \<Longrightarrow> \<exists>s'. f x s = Some s' \<and> I s'"
  shows "\<exists>s'. fold_opt f xs s = Some s' \<and> I s'"
  using assms
proof (induction xs arbitrary: s)
  case Nil
  then show ?case by simp
next
  case (Cons x xs)
  then obtain t where "f x s = Some t" "I t" by (metis list.set_intros(1))
  then show ?case using Cons.IH [of t] Cons.prems(2) by simp
qed

section \<open>Prefixes of sorted lists\<close>

text \<open>On a sorted list a downward closed condition holds of a prefix.\<close>

lemma while_is_filter:
  assumes "sorted_wrt R xs" and "\<And>x y. R x y \<Longrightarrow> P y \<Longrightarrow> P x"
  shows "takeWhile P xs = filter P xs" and "dropWhile P xs = filter (\<lambda>x. \<not> P x) xs"
proof -
  have "takeWhile P xs = filter P xs \<and> dropWhile P xs = filter (\<lambda>x. \<not> P x) xs"
    using assms(1)
  proof (induction xs)
    case (Cons x xs)
    have "\<not> P y" if "\<not> P x" "y \<in> set xs" for y
      using Cons.prems that assms(2) by auto
    then have "\<not> P x \<Longrightarrow> filter P xs = [] \<and> filter (\<lambda>x. \<not> P x) xs = xs"
      by (auto simp: filter_empty_conv intro!: filter_True)
    with Cons show ?case by auto
  qed simp
  then show "takeWhile P xs = filter P xs" "dropWhile P xs = filter (\<lambda>x. \<not> P x) xs" by simp_all
qed

section \<open>Indexing\<close>

text \<open>Indexing panics out of range.\<close>

definition index_get :: "'a list \<Rightarrow> nat \<Rightarrow> 'a panics" where
  "index_get xs i = (if i < length xs then Some (xs ! i) else None)"

definition index_put :: "'a list \<Rightarrow> nat \<Rightarrow> 'a \<Rightarrow> 'a list panics" where
  "index_put xs i v = (if i < length xs then Some (xs[i := v]) else None)"

definition slice :: "'a list \<Rightarrow> nat \<Rightarrow> nat \<Rightarrow> 'a list panics" where
  "slice xs a b = (if a \<le> b \<and> b \<le> length xs then Some (take (b - a) (drop a xs)) else None)"

definition usize_sub :: "nat \<Rightarrow> nat \<Rightarrow> nat" where
  "usize_sub a b = (if b \<le> a then a - b else 2 ^ 64 + a - b)"

end
