(* ===== verification/Containers.thy ===== *)
theory Containers
  imports Nt_Prelude "HOL-Library.AList"
begin

text \<open>
  The two ordered containers the order book is built on.

  \<open>IndexMap\<close> (insertion-ordered hash map): an association list with distinct keys;
  \<open>insert\<close> of a present key replaces the value in place, of an absent one appends;
  \<open>shift_remove\<close> removes and keeps the order of the rest.

  \<open>BTreeMap\<close>: an association list kept strictly ascending in the rank of its keys. The
  comparison of two keys is the comparison of their ranks, which is how the source defines
  the ordering of its keys.

  Each container has its laws stated once as a locale and is interpreted on its operations.
\<close>

section \<open>The laws of a key-value store\<close>

locale key_store =
  fixes lookup :: "'m \<Rightarrow> 'k \<Rightarrow> 'v option"
    and put :: "'k \<Rightarrow> 'v \<Rightarrow> 'm \<Rightarrow> 'm"
    and del :: "'k \<Rightarrow> 'm \<Rightarrow> 'm"
    and same :: "'k \<Rightarrow> 'k \<Rightarrow> bool"
    and invar :: "'m \<Rightarrow> bool"
  assumes lookup_put: "invar m \<Longrightarrow> lookup (put k v m) j = (if same j k then Some v else lookup m j)"
    and lookup_del: "invar m \<Longrightarrow> lookup (del k m) j = (if same j k then None else lookup m j)"
    and invar_put: "invar m \<Longrightarrow> invar (put k v m)"
    and invar_del: "invar m \<Longrightarrow> invar (del k m)"
    and same_refl: "same k k"
begin

lemma lookup_put_same: "invar m \<Longrightarrow> lookup (put k v m) k = Some v"
  by (simp add: lookup_put same_refl)

lemma lookup_del_same: "invar m \<Longrightarrow> lookup (del k m) k = None"
  by (simp add: lookup_del same_refl)

lemma put_put: "invar m \<Longrightarrow> lookup (put k v (put k w m)) = lookup (put k v m)"
  by (simp add: fun_eq_iff lookup_put invar_put)

lemma del_put: "invar m \<Longrightarrow> lookup (del k (put k v m)) = lookup (del k m)"
  by (simp add: fun_eq_iff lookup_put lookup_del invar_put)

end

section \<open>IndexMap\<close>

type_synonym ('k, 'v) index_map = "('k \<times> 'v) list"

definition im_get :: "('k, 'v) index_map \<Rightarrow> 'k \<Rightarrow> 'v option" where
  "im_get m k = map_of m k"

definition im_insert :: "'k \<Rightarrow> 'v \<Rightarrow> ('k, 'v) index_map \<Rightarrow> ('k, 'v) index_map" where
  "im_insert k v m = AList.update k v m"

definition shift_remove :: "'k \<Rightarrow> ('k, 'v) index_map \<Rightarrow> ('k, 'v) index_map" where
  "shift_remove k m = AList.delete k m"

definition im_keys :: "('k, 'v) index_map \<Rightarrow> 'k list" where
  "im_keys m = map fst m"

definition im_values :: "('k, 'v) index_map \<Rightarrow> 'v list" where
  "im_values m = map snd m"

definition im_wf :: "('k, 'v) index_map \<Rightarrow> bool" where
  "im_wf m \<longleftrightarrow> distinct (im_keys m)"

interpretation im: key_store im_get im_insert shift_remove "(=)" im_wf
  by unfold_locales
    (auto simp: im_get_def im_insert_def shift_remove_def im_wf_def im_keys_def update_conv'
       delete_conv' distinct_update distinct_delete)

lemma im_wf_Nil [simp]: "im_wf []"
  by (simp add: im_wf_def im_keys_def)

lemma im_get_Nil [simp]: "im_get [] k = None"
  by (simp add: im_get_def)

lemma im_keys_Nil [simp]: "im_keys [] = []"
  by (simp add: im_keys_def)

lemma im_values_Nil [simp]: "im_values [] = []"
  by (simp add: im_values_def)

lemma im_keys_Nil_iff [simp]: "im_keys m = [] \<longleftrightarrow> m = []"
  by (simp add: im_keys_def)

lemma im_keys_insert:
  "im_keys (im_insert k v m) = (if k \<in> set (im_keys m) then im_keys m else im_keys m @ [k])"
  by (simp add: im_keys_def im_insert_def update_keys)

lemma im_keys_remove: "im_keys (shift_remove k m) = filter (\<lambda>j. j \<noteq> k) (im_keys m)"
  by (simp add: im_keys_def shift_remove_def delete_keys removeAll_filter_not_eq eq_commute)

lemma im_get_dom: "im_get m k \<noteq> None \<longleftrightarrow> k \<in> set (im_keys m)"
  by (simp add: im_get_def im_keys_def map_of_eq_None_iff)

lemma im_get_None: "im_get m k = None \<longleftrightarrow> k \<notin> set (im_keys m)"
  by (simp add: im_get_def im_keys_def map_of_eq_None_iff)

lemma im_get_in_values: "im_get m k = Some v \<Longrightarrow> v \<in> set (im_values m)"
  by (force simp: im_get_def im_values_def dest: map_of_SomeD)

lemma im_get_pair: "im_wf m \<Longrightarrow> im_get m k = Some v \<longleftrightarrow> (k, v) \<in> set m"
  by (simp add: im_get_def im_wf_def im_keys_def)

lemma im_insert_not_Nil [simp]: "im_insert k v m \<noteq> []"
  by (cases m) (simp_all add: im_insert_def)

lemma im_insert_fresh: "k \<notin> set (im_keys m) \<Longrightarrow> im_insert k v m = m @ [(k, v)]"
  by (induction m) (auto simp: im_insert_def im_keys_def)

lemma set_im_insert:
  "im_wf m \<Longrightarrow> set (im_insert k v m) = insert (k, v) {p \<in> set m. fst p \<noteq> k}"
  by (induction m) (auto simp: im_insert_def im_wf_def im_keys_def image_iff)

lemma set_shift_remove: "set (shift_remove k m) = {p \<in> set m. fst p \<noteq> k}"
  by (auto simp: shift_remove_def AList.delete_eq)

lemma shift_remove_Nil_iff: "shift_remove k m = [] \<longleftrightarrow> set (im_keys m) \<subseteq> {k}"
  by (auto simp: shift_remove_def AList.delete_eq im_keys_def filter_empty_conv)

section \<open>BTreeMap\<close>

type_synonym ('k, 'v) btree_map = "('k \<times> 'v) list"

fun bt_get :: "('k \<Rightarrow> 'o::linorder) \<Rightarrow> ('k, 'v) btree_map \<Rightarrow> 'k \<Rightarrow> 'v option" where
  "bt_get f [] k = None"
| "bt_get f ((j, v) # m) k =
     (if f k < f j then None else if f k = f j then Some v else bt_get f m k)"

text \<open>Insertion keeps the key that is already stored, as \<open>BTreeMap::insert\<close> does.\<close>

fun bt_insert :: "('k \<Rightarrow> 'o::linorder) \<Rightarrow> 'k \<Rightarrow> 'v \<Rightarrow> ('k, 'v) btree_map \<Rightarrow> ('k, 'v) btree_map" where
  "bt_insert f k v [] = [(k, v)]"
| "bt_insert f k v ((j, w) # m) =
     (if f k < f j then (k, v) # (j, w) # m
      else if f k = f j then (j, v) # m
      else (j, w) # bt_insert f k v m)"

fun bt_remove :: "('k \<Rightarrow> 'o::linorder) \<Rightarrow> 'k \<Rightarrow> ('k, 'v) btree_map \<Rightarrow> ('k, 'v) btree_map" where
  "bt_remove f k [] = []"
| "bt_remove f k ((j, w) # m) =
     (if f k < f j then (j, w) # m
      else if f k = f j then m
      else (j, w) # bt_remove f k m)"

definition bt_keys :: "('k, 'v) btree_map \<Rightarrow> 'k list" where
  "bt_keys m = map fst m"

definition bt_values :: "('k, 'v) btree_map \<Rightarrow> 'v list" where
  "bt_values m = map snd m"

definition bt_wf :: "('k \<Rightarrow> 'o::linorder) \<Rightarrow> ('k, 'v) btree_map \<Rightarrow> bool" where
  "bt_wf f m \<longleftrightarrow> sorted_wrt (<) (map (f \<circ> fst) m)"

lemma bt_wf_Nil [simp]: "bt_wf f []"
  by (simp add: bt_wf_def)

lemma bt_wf_Cons [simp]:
  "bt_wf f ((k, v) # m) \<longleftrightarrow> (\<forall>p \<in> set m. f k < f (fst p)) \<and> bt_wf f m"
  by (simp add: bt_wf_def)

lemma bt_get_None_below: "\<forall>p \<in> set m. f k < f (fst p) \<Longrightarrow> bt_get f m k = None"
  by (cases m) auto

lemma bt_get_rank_cong: "f j = f k \<Longrightarrow> bt_get f m j = bt_get f m k"
  by (induction m) auto

lemma bt_insert_ranks:
  "(\<forall>p \<in> set (bt_insert f k v m). P (f (fst p))) \<longleftrightarrow> P (f k) \<and> (\<forall>p \<in> set m. P (f (fst p)))"
proof (induction m)
  case (Cons p m)
  obtain j w where [simp]: "p = (j, w)" by (cases p)
  show ?case using Cons by (cases "f k" "f j" rule: linorder_cases) auto
qed simp

lemma bt_wf_insert: "bt_wf f m \<Longrightarrow> bt_wf f (bt_insert f k v m)"
proof (induction m)
  case (Cons p m)
  obtain j w where [simp]: "p = (j, w)" by (cases p)
  show ?case
  proof (cases "f k" "f j" rule: linorder_cases)
    case greater
    then have "\<forall>q \<in> set (bt_insert f k v m). f j < f (fst q)"
      using Cons.prems by (simp add: bt_insert_ranks)
    with greater Cons show ?thesis by auto
  qed (use Cons in auto)
qed simp

lemma set_bt_remove: "bt_wf f m \<Longrightarrow> set (bt_remove f k m) = {p \<in> set m. f (fst p) \<noteq> f k}"
proof (induction m)
  case (Cons p m)
  obtain j w where [simp]: "p = (j, w)" by (cases p)
  show ?case using Cons by auto
qed simp

lemma bt_wf_remove: "bt_wf f m \<Longrightarrow> bt_wf f (bt_remove f k m)"
proof (induction m)
  case (Cons p m)
  obtain j w where [simp]: "p = (j, w)" by (cases p)
  show ?case using Cons by (auto simp: set_bt_remove)
qed simp

lemma bt_get_insert:
  "bt_wf f m \<Longrightarrow> bt_get f (bt_insert f k v m) j = (if f j = f k then Some v else bt_get f m j)"
proof (induction m)
  case (Cons p m)
  obtain i w where [simp]: "p = (i, w)" by (cases p)
  show ?case using Cons by auto
qed simp

lemma bt_get_remove:
  "bt_wf f m \<Longrightarrow> bt_get f (bt_remove f k m) j = (if f j = f k then None else bt_get f m j)"
proof (induction m)
  case (Cons p m)
  obtain i w where [simp]: "p = (i, w)" by (cases p)
  have "bt_get f m j = None" if "f j \<le> f i"
    using Cons.prems that by (intro bt_get_None_below) (auto intro: le_less_trans)
  then show ?case using Cons by auto
qed simp

interpretation bt: key_store "bt_get f" "bt_insert f" "bt_remove f" "\<lambda>j k. f j = f k" "bt_wf f"
  for f :: "'k \<Rightarrow> 'o::linorder"
  by unfold_locales (simp_all add: bt_get_insert bt_get_remove bt_wf_insert bt_wf_remove)

lemma bt_get_iff:
  "bt_wf f m \<Longrightarrow> bt_get f m k = Some v \<longleftrightarrow> (\<exists>k'. f k' = f k \<and> (k', v) \<in> set m)"
proof (induction m)
  case (Cons p m)
  obtain i w where [simp]: "p = (i, w)" by (cases p)
  have above: "f i < f k'" if "(k', v') \<in> set m" for k' v'
    using Cons.prems that by auto
  show ?case
  proof (cases "f k" "f i" rule: linorder_cases)
    case less
    then show ?thesis using above by (auto dest: above)
  next
    case equal
    then show ?thesis using above by (auto dest: above)
  next
    case greater
    then show ?thesis using Cons by auto
  qed
qed simp

lemma bt_get_None_iff: "bt_wf f m \<Longrightarrow> bt_get f m k = None \<longleftrightarrow> (\<forall>p \<in> set m. f (fst p) \<noteq> f k)"
proof -
  assume wf: "bt_wf f m"
  have "bt_get f m k \<noteq> None \<longleftrightarrow> (\<exists>v k'. f k' = f k \<and> (k', v) \<in> set m)"
    using bt_get_iff [OF wf, of k] by auto
  then show ?thesis by force
qed

lemma set_bt_insert_present:
  assumes "bt_wf f m" and "(k, w) \<in> set m" and "f j = f k"
  shows "set (bt_insert f j v m) = insert (k, v) {p \<in> set m. f (fst p) \<noteq> f j}"
  using assms
proof (induction m)
  case (Cons p m)
  obtain i u where [simp]: "p = (i, u)" by (cases p)
  show ?case using Cons by auto
qed simp

lemma set_bt_insert_absent:
  assumes "bt_wf f m" and "bt_get f m k = None"
  shows "set (bt_insert f k v m) = insert (k, v) (set m)"
  using assms
proof (induction m)
  case (Cons p m)
  obtain i u where [simp]: "p = (i, u)" by (cases p)
  show ?case using Cons by (auto split: if_splits)
qed simp

lemma bt_insert_not_Nil [simp]: "bt_insert f k v m \<noteq> []"
  by (cases m) (auto split: if_splits)

text \<open>Access at the end of the tree.\<close>

lemma bt_get_end:
  assumes "\<forall>p \<in> set m. f (fst p) < f k" and "f j = f k"
  shows "bt_get f (m @ [(j, v)]) k = Some v"
  using assms by (induction m) auto

lemma bt_get_above: "\<forall>p \<in> set m. f (fst p) < f k \<Longrightarrow> bt_get f m k = None"
  by (induction m) auto

lemma bt_insert_end:
  assumes "\<forall>p \<in> set m. f (fst p) < f k" and "f j = f k"
  shows "bt_insert f k v (m @ [(j, w)]) = m @ [(j, v)]"
  using assms by (induction m) auto

lemma bt_insert_above: "\<forall>p \<in> set m. f (fst p) < f k \<Longrightarrow> bt_insert f k v m = m @ [(k, v)]"
  by (induction m) auto

lemma bt_wf_append:
  "bt_wf f (m @ n) \<longleftrightarrow> bt_wf f m \<and> bt_wf f n \<and> (\<forall>p \<in> set m. \<forall>q \<in> set n. f (fst p) < f (fst q))"
  by (auto simp: bt_wf_def sorted_wrt_append)

end
