(* ===== verification/Fixed_Point.thy ===== *)
theory Fixed_Point
  imports Nt_Prelude
begin

text \<open>
  Fixed-point arithmetic of the value types (\<open>crates/model/src/types/fixed.rs\<close>).

  The model is of the high-precision build without the \<open>defi\<close> feature: 16 decimal digits,
  prices in \<open>i128\<close>, quantities in \<open>u128\<close>. Arithmetic that the source leaves unchecked
  wraps around, as the release profile compiles it. Integer division and remainder are the
  truncating ones of Rust (\<open>sdiv\<close>, \<open>smod\<close>).

  The lemmas show that the correction functions return the nearest valid multiple of the
  scale, that \<open>bankers_round\<close> is round-half-to-even division by a power of ten, and that the
  mantissa/exponent conversion is exact up to that rounding and reports every overflow.
\<close>

definition FIXED_PRECISION :: nat where
  "FIXED_PRECISION = 16"

definition POWERS_OF_10 :: "nat list" where
  "POWERS_OF_10 =
    [1, 10, 100, 1000, 10000, 100000, 1000000, 10000000, 100000000, 1000000000, 10000000000,
     100000000000, 1000000000000, 10000000000000, 100000000000000, 1000000000000000,
     10000000000000000]"

datatype fixed_error =
    PrecisionExceeded nat
  | InvalidRaw int nat int int
  | ScaleOutOfRange int int
  | ScaleOverflow

definition check_fixed_precision :: "nat \<Rightarrow> fixed_error + unit" where
  "check_fixed_precision precision =
     (if precision > FIXED_PRECISION then Inl (PrecisionExceeded precision) else Inr ())"

definition should_skip_validation :: "nat \<Rightarrow> bool" where
  "should_skip_validation precision =
     (if precision = FIXED_PRECISION then True
      else if precision > FIXED_PRECISION then True
      else False)"

definition check_fixed_raw_u128 :: "nat \<Rightarrow> nat \<Rightarrow> fixed_error + unit" where
  "check_fixed_raw_u128 raw precision =
     (if should_skip_validation precision then Inr ()
      else let scale = POWERS_OF_10 ! (FIXED_PRECISION - precision);
               remainder = raw mod scale
           in if remainder \<noteq> 0
              then Inl (InvalidRaw (int raw) precision (int remainder) (int scale))
              else Inr ())"

definition check_fixed_raw_u64 :: "u64 \<Rightarrow> nat \<Rightarrow> fixed_error + unit" where
  "check_fixed_raw_u64 raw precision =
     (if should_skip_validation precision then Inr ()
      else let scale = word_of_nat (POWERS_OF_10 ! (FIXED_PRECISION - precision));
               remainder = raw mod scale
           in if remainder \<noteq> 0
              then Inl (InvalidRaw (uint raw) precision (uint remainder) (uint scale))
              else Inr ())"

definition check_fixed_raw_i128 :: "int \<Rightarrow> nat \<Rightarrow> fixed_error + unit" where
  "check_fixed_raw_i128 raw precision =
     (if should_skip_validation precision then Inr ()
      else let scale = int (POWERS_OF_10 ! (FIXED_PRECISION - precision));
               remainder = raw smod scale
           in if remainder \<noteq> 0 then Inl (InvalidRaw raw precision remainder scale) else Inr ())"

definition check_fixed_raw_i64 :: "int \<Rightarrow> nat \<Rightarrow> fixed_error + unit" where
  "check_fixed_raw_i64 raw precision =
     (if should_skip_validation precision then Inr ()
      else let scale = wrap_s 64 (int (POWERS_OF_10 ! (FIXED_PRECISION - precision)));
               remainder = raw smod scale
           in if remainder \<noteq> 0 then Inl (InvalidRaw raw precision remainder scale) else Inr ())"

definition correct_raw_u128 :: "nat \<Rightarrow> nat \<Rightarrow> nat" where
  "correct_raw_u128 raw precision =
     (if precision \<ge> FIXED_PRECISION then raw
      else let scale = POWERS_OF_10 ! (FIXED_PRECISION - precision);
               half_scale = scale div 2;
               remainder = raw mod scale
           in if remainder = 0 then raw
              else if remainder \<ge> half_scale then wrap_u 128 (raw + (scale - remainder))
              else raw - remainder)"

definition correct_raw_u64 :: "nat \<Rightarrow> nat \<Rightarrow> nat" where
  "correct_raw_u64 raw precision =
     (if precision \<ge> FIXED_PRECISION then raw
      else let scale = POWERS_OF_10 ! (FIXED_PRECISION - precision);
               half_scale = scale div 2;
               remainder = raw mod scale
           in if remainder = 0 then raw
              else if remainder \<ge> half_scale then wrap_u 64 (raw + (scale - remainder))
              else raw - remainder)"

definition correct_raw_i128 :: "int \<Rightarrow> nat \<Rightarrow> int" where
  "correct_raw_i128 raw precision =
     (if precision \<ge> FIXED_PRECISION then raw
      else let scale = int (POWERS_OF_10 ! (FIXED_PRECISION - precision));
               half_scale = scale sdiv 2;
               remainder = raw smod scale
           in if remainder = 0 then raw
              else if raw \<ge> 0 then
                (if remainder \<ge> half_scale then wrap_s 128 (raw + (scale - remainder))
                 else raw - remainder)
              else
                (if \<bar>remainder\<bar> \<ge> half_scale then wrap_s 128 (raw - (scale + remainder))
                 else raw - remainder))"

definition correct_raw_i64 :: "int \<Rightarrow> nat \<Rightarrow> int" where
  "correct_raw_i64 raw precision =
     (if precision \<ge> FIXED_PRECISION then raw
      else let scale = wrap_s 64 (int (POWERS_OF_10 ! (FIXED_PRECISION - precision)));
               half_scale = scale sdiv 2;
               remainder = raw smod scale
           in if remainder = 0 then raw
              else if raw \<ge> 0 then
                (if remainder \<ge> half_scale then wrap_s 64 (raw + (scale - remainder))
                 else raw - remainder)
              else
                (if \<bar>remainder\<bar> \<ge> half_scale then wrap_s 64 (raw - (scale + remainder))
                 else raw - remainder))"

definition correct_price_raw :: "int \<Rightarrow> nat \<Rightarrow> int" where
  "correct_price_raw raw precision = correct_raw_i128 raw precision"

definition correct_quantity_raw :: "nat \<Rightarrow> nat \<Rightarrow> nat" where
  "correct_quantity_raw raw precision = correct_raw_u128 raw precision"

definition bankers_round :: "int \<Rightarrow> nat \<Rightarrow> int" where
  "bankers_round mantissa excess =
     (if excess = 0 then mantissa
      else if excess \<ge> 39 then 0
      else let divisor = 10 ^ excess;
               quotient = mantissa sdiv divisor;
               remainder = mantissa smod divisor;
               half = divisor sdiv 2
           in if \<bar>remainder\<bar> > half \<or> \<bar>remainder\<bar> = half \<and> quotient smod 2 \<noteq> 0
              then quotient + sgn mantissa
              else quotient)"

definition mantissa_exponent_to_fixed_i128 ::
  "int \<Rightarrow> int \<Rightarrow> nat \<Rightarrow> fixed_error + int" where
  "mantissa_exponent_to_fixed_i128 mantissa exponent precision =
     and_then (check_fixed_precision precision) (\<lambda>_.
       let precision_i16 = int precision;
           target_scale = max (int FIXED_PRECISION) precision_i16;
           frac_digits = - exponent;
           mantissa' = (if frac_digits > precision_i16
                        then bankers_round mantissa (nat (frac_digits - precision_i16))
                        else mantissa);
           scale_after_rounding = min frac_digits precision_i16;
           scale_exp = target_scale - scale_after_rounding
       in if \<not> scale_exp \<le> 38 then Inl (ScaleOutOfRange exponent scale_exp)
          else (case (if scale_exp \<ge> 0 then checked_i128 (mantissa' * 10 ^ nat scale_exp)
                      else Some (mantissa' sdiv 10 ^ nat (- scale_exp)))
                of Some r \<Rightarrow> Inr r | None \<Rightarrow> Inl ScaleOverflow))"

section \<open>The table of powers\<close>

lemma powers_of_10_nth: "i \<le> 16 \<Longrightarrow> POWERS_OF_10 ! i = 10 ^ i"
proof -
  have "POWERS_OF_10 = map (\<lambda>i. 10 ^ i) [0..<17]"
    by (simp add: POWERS_OF_10_def upt_rec)
  then show "i \<le> 16 \<Longrightarrow> POWERS_OF_10 ! i = 10 ^ i"
    using nth_map [of i "[0..<17]" "\<lambda>i. 10 ^ i :: nat"] by (simp only: length_upt nth_upt) simp
qed

lemma scale_eq [simp]: "POWERS_OF_10 ! (16 - p) = 10 ^ (16 - p)"
  by (simp add: powers_of_10_nth)

lemma pow10_le: "p \<le> 16 \<Longrightarrow> (10::'a::linordered_semidom) ^ p \<le> 10000000000000000"
  using power_increasing [of p 16 "10::'a"] by simp

lemma even_pow10: "0 < n \<Longrightarrow> even ((10::'a::semiring_parity) ^ n)"
  by (cases n) simp_all

section \<open>Rounding to a multiple, half away from zero\<close>

text \<open>The reference: the multiple of \<open>s\<close> nearest to \<open>a\<close>, a tie going away from zero.\<close>

definition nearest_multiple :: "int \<Rightarrow> int \<Rightarrow> int" where
  "nearest_multiple s a = sgn a * (s * ((\<bar>a\<bar> + s div 2) div s))"

lemma dvd_nearest_multiple [simp]: "s dvd nearest_multiple s a"
  by (simp add: nearest_multiple_def)

lemma nearest_multiple_nonneg:
  fixes a s :: int
  assumes "0 < s" and "even s" and "0 \<le> a"
  shows "s * ((a + s div 2) div s) =
    (if a mod s = 0 then a else if a mod s \<ge> s div 2 then a + (s - a mod s) else a - a mod s)"
proof -
  obtain h where s: "s = 2 * h" "0 < h" using assms by (auto elim!: evenE)
  let ?m = "a mod s"
  have a: "a = s * (a div s) + ?m" by simp
  have m: "0 \<le> ?m" "?m < s" using assms by simp_all
  have half: "s div 2 = h" using s by simp
  have q: "(a + s div 2) div s = a div s + (?m + h) div s"
  proof -
    have "a + s div 2 = (?m + h) + (a div s) * s" using a half by (simp add: algebra_simps)
    then show ?thesis using assms(1) div_mult_self1 [of s "?m + h" "a div s"] by simp
  qed
  have "(?m + h) div s = (if ?m \<ge> h then 1 else 0)"
  proof (cases "?m \<ge> h")
    case True
    have "(?m + h) div s = 1"
      using True m s by (intro int_div_pos_eq [of _ _ _ "?m - h"]) linarith+
    with True show ?thesis by simp
  next
    case False
    with m s show ?thesis using div_pos_pos_trivial [of "?m + h" s] by simp
  qed
  then show ?thesis using q a m s half by (auto simp: algebra_simps)
qed

lemma nearest_multiple_close:
  fixes a s :: int
  assumes "0 < s" and "even s"
  shows "2 * \<bar>nearest_multiple s a - a\<bar> \<le> s"
proof -
  have pos: "2 * \<bar>s * ((b + s div 2) div s) - b\<bar> \<le> s" if "0 \<le> b" for b
  proof -
    have m: "0 \<le> b mod s" "b mod s < s" using assms by simp_all
    then show ?thesis using nearest_multiple_nonneg [OF assms that] assms(2) m
      by (auto elim!: evenE split: if_splits)
  qed
  have "nearest_multiple s a - a = sgn a * (s * ((\<bar>a\<bar> + s div 2) div s) - \<bar>a\<bar>)"
    by (simp add: nearest_multiple_def right_diff_distrib sgn_mult_abs)
  then have "\<bar>nearest_multiple s a - a\<bar> \<le> \<bar>s * ((\<bar>a\<bar> + s div 2) div s) - \<bar>a\<bar>\<bar>"
    by (simp add: abs_mult mult_left_le_one_le)
  with pos [of "\<bar>a\<bar>", OF abs_ge_zero] show ?thesis by linarith
qed

lemma nearest_multiple_id: "s dvd a \<Longrightarrow> 0 < s \<Longrightarrow> even s \<Longrightarrow> nearest_multiple s a = a"
  using nearest_multiple_nonneg [of s "\<bar>a\<bar>"] by (simp add: nearest_multiple_def sgn_mult_abs)

lemma smod_zero_iff: "(a::int) smod s = 0 \<longleftrightarrow> s dvd a"
  by (auto simp: signed_modulo_int_def sgn_0_0 simp flip: dvd_eq_mod_eq_0)

section \<open>Correction of raw values\<close>

text \<open>Away from the ends of the range no step of the correction wraps around.\<close>

definition correctable :: "int \<Rightarrow> bool" where
  "correctable raw \<longleftrightarrow> \<bar>raw\<bar> \<le> i128_max - 10000000000000000"

lemma correct_raw_i128_eq:
  assumes "precision < 16" and "correctable raw"
  shows "correct_raw_i128 raw precision = nearest_multiple (10 ^ (16 - precision)) raw"
proof -
  let ?s = "10 ^ (16 - precision) :: int"
  let ?m = "\<bar>raw\<bar> mod ?s"
  have s: "0 < ?s" "even ?s" "?s \<le> 10000000000000000"
    using assms(1) even_pow10 [of "16 - precision"] pow10_le [of "16 - precision"] by simp_all
  have m: "0 \<le> ?m" "?m < ?s" using s by simp_all
  have half: "?s sdiv 2 = ?s div 2" using s(1) by (simp add: signed_divide_int_def)
  have rem: "raw smod ?s = sgn raw * ?m" by (simp add: signed_modulo_int_def)
  have wrap: "wrap_s 128 x = x" if "\<bar>x\<bar> \<le> \<bar>raw\<bar> + ?s" for x
    using that s(3) assms(2)
    by (intro wrap_s_128_id)
      (simp add: correctable_def in_i128_def i128_max_def i128_min_def, linarith)
  note nn = nearest_multiple_nonneg [OF s(1,2), of "\<bar>raw\<bar>", simplified]
  consider "raw = 0" | "0 < raw" | "raw < 0" by linarith
  then show ?thesis
  proof cases
    case 1
    then show ?thesis
      by (simp add: correct_raw_i128_def FIXED_PRECISION_def nearest_multiple_def rem)
  next
    case 2
    then have "wrap_s 128 (raw + (?s - ?m)) = raw + (?s - ?m)"
      using m by (intro wrap) linarith
    with 2 show ?thesis using assms(1) nn
      by (simp add: correct_raw_i128_def FIXED_PRECISION_def Let_def rem half nearest_multiple_def)
  next
    case 3
    then have "wrap_s 128 (raw - (?s - ?m)) = raw - (?s - ?m)"
      using m by (intro wrap) linarith
    with 3 show ?thesis using assms(1) nn m
      by (simp add: correct_raw_i128_def FIXED_PRECISION_def Let_def rem half nearest_multiple_def)
  qed
qed

lemma correct_raw_i128_valid:
  assumes "correctable raw"
  shows "check_fixed_raw_i128 (correct_raw_i128 raw precision) precision = Inr ()"
proof (cases "precision < 16")
  case True
  then show ?thesis
    by (simp add: check_fixed_raw_i128_def should_skip_validation_def FIXED_PRECISION_def Let_def
        smod_zero_iff correct_raw_i128_eq [OF True assms])
next
  case False
  then show ?thesis
    by (simp add: check_fixed_raw_i128_def should_skip_validation_def FIXED_PRECISION_def)
qed

lemma correct_raw_i128_fixpoint:
  assumes "check_fixed_raw_i128 raw precision = Inr ()"
  shows "correct_raw_i128 raw precision = raw"
  using assms
  by (auto simp: check_fixed_raw_i128_def should_skip_validation_def correct_raw_i128_def
      FIXED_PRECISION_def Let_def split: if_splits)

lemma correct_raw_u128_eq:
  assumes "precision < 16" and "raw + 10000000000000000 \<le> u128_max"
  shows "int (correct_raw_u128 raw precision) = nearest_multiple (10 ^ (16 - precision)) (int raw)"
proof -
  define s where "s = (10 ^ (16 - precision) :: nat)"
  have s: "0 < s" "even s" "s \<le> 10000000000000000"
    using assms(1) even_pow10 [of "16 - precision"] pow10_le [of "16 - precision"]
    by (simp_all add: s_def)
  define m where "m = raw mod s"
  have m: "m < s" "m \<le> raw" using s(1) by (simp_all add: m_def)
  have wrap: "wrap_u 128 (raw + (s - m)) = raw + (s - m)"
  proof (rule wrap_u_id)
    have "raw + (s - m) \<le> u128_max" using assms(2) s(3) by linarith
    then show "raw + (s - m) < 2 ^ 128" by (simp add: u128_max_def)
  qed
  have "nearest_multiple (int s) (int raw) =
    (if int raw mod int s = 0 then int raw
     else if int raw mod int s \<ge> int s div 2 then int raw + (int s - int raw mod int s)
     else int raw - int raw mod int s)"
    using nearest_multiple_nonneg [of "int s" "int raw"] s
    by (cases "raw = 0") (simp_all add: nearest_multiple_def)
  then have nm: "nearest_multiple (int s) (int raw) =
    (if m = 0 then int raw else if m \<ge> s div 2 then int raw + (int s - int m) else int raw - int m)"
    unfolding m_def zmod_int [symmetric] by (simp add: zdiv_int [of s 2, simplified, symmetric])
  have "correct_raw_u128 raw precision =
    (if m = 0 then raw else if m \<ge> s div 2 then raw + (s - m) else raw - m)"
    using assms(1) wrap by (simp add: correct_raw_u128_def FIXED_PRECISION_def Let_def m_def s_def)
  then show ?thesis using nm m by (simp add: s_def of_nat_diff)
qed

section \<open>Banker's rounding\<close>

text \<open>The reference: division rounded to the nearest integer, a tie going to the even one.\<close>

definition half_even :: "int \<Rightarrow> int \<Rightarrow> int" where
  "half_even a d = a div d + (if 2 * (a mod d) > d \<or> 2 * (a mod d) = d \<and> odd (a div d) then 1 else 0)"

lemma half_even_nearest:
  assumes "0 < d"
  shows "2 * \<bar>a - half_even a d * d\<bar> \<le> d"
proof -
  have a: "a = a div d * d + a mod d" by simp
  have m: "0 \<le> a mod d" "a mod d < d" using assms by simp_all
  let ?c = "2 * (a mod d) > d \<or> 2 * (a mod d) = d \<and> odd (a div d)"
  have "a - half_even a d * d = a mod d - (if ?c then d else 0)"
    using a unfolding half_even_def by (auto simp: algebra_simps)
  then show ?thesis using m by auto
qed

lemma half_even_tie:
  assumes "0 < d" and "2 * \<bar>a - half_even a d * d\<bar> = d"
  shows "even (half_even a d)"
proof -
  have a: "a = a div d * d + a mod d" by simp
  have m: "0 \<le> a mod d" "a mod d < d" using assms by simp_all
  let ?c = "2 * (a mod d) > d \<or> 2 * (a mod d) = d \<and> odd (a div d)"
  have "a - half_even a d * d = a mod d - (if ?c then d else 0)"
    using a unfolding half_even_def by (auto simp: algebra_simps)
  with assms m show ?thesis by (auto simp: half_even_def split: if_splits)
qed

lemma half_even_small: "0 \<le> a \<Longrightarrow> 2 * a < d \<Longrightarrow> half_even a d = 0"
  by (simp add: half_even_def)

lemma half_even_one: "half_even a 1 = a"
  by (simp add: half_even_def)

lemma sgn_mult_nonneg_smod2: "(sgn m * q) smod 2 \<noteq> 0 \<longleftrightarrow> m \<noteq> 0 \<and> odd (q::int)"
  by (cases m "0::int" rule: linorder_cases) (simp_all add: smod_zero_iff)

lemma bankers_round_eq:
  assumes "in_i128 m"
  shows "bankers_round m e = sgn m * half_even \<bar>m\<bar> (10 ^ e)"
proof -
  consider "e = 0" | "39 \<le> e" | "0 < e" "e < 39" by linarith
  then show ?thesis
  proof cases
    case 1
    then show ?thesis by (simp add: bankers_round_def half_even_one sgn_mult_abs)
  next
    case 2
    have "2 * \<bar>m\<bar> < (10::int) ^ 39"
      using assms by (simp add: in_i128_def i128_min_def i128_max_def abs_less_iff)
    also have "\<dots> \<le> 10 ^ e" using 2 by (intro power_increasing) simp_all
    finally show ?thesis using 2 by (simp add: bankers_round_def half_even_small)
  next
    case 3
    let ?d = "10 ^ e :: int"
    have d: "0 < ?d" by simp
    obtain h where h: "?d = 2 * h" using even_pow10 [OF 3(1), where 'a = int] by (rule evenE)
    have half: "?d sdiv 2 = h" using h d by (simp add: signed_divide_int_def)
    have quot: "m sdiv ?d = sgn m * (\<bar>m\<bar> div ?d)" by (simp add: signed_divide_int_def)
    have rem: "\<bar>m smod ?d\<bar> = \<bar>m\<bar> mod ?d"
      by (cases "m = 0") (simp_all add: signed_modulo_int_def abs_mult)
    show ?thesis
      using 3 unfolding bankers_round_def Let_def half quot rem half_even_def
      by (auto simp: sgn_mult_nonneg_smod2 h algebra_simps)
  qed
qed

lemma bankers_round_nearest:
  assumes "in_i128 m"
  shows "2 * \<bar>m - bankers_round m e * 10 ^ e\<bar> \<le> 10 ^ e"
    and "2 * \<bar>m - bankers_round m e * 10 ^ e\<bar> = 10 ^ e \<Longrightarrow> even (bankers_round m e)"
proof -
  have "m - bankers_round m e * 10 ^ e = sgn m * (\<bar>m\<bar> - half_even \<bar>m\<bar> (10 ^ e) * 10 ^ e)"
    by (simp add: bankers_round_eq [OF assms] right_diff_distrib sgn_mult_abs)
  then have d: "\<bar>m - bankers_round m e * 10 ^ e\<bar> =
      (if m = 0 then 0 else \<bar>\<bar>m\<bar> - half_even \<bar>m\<bar> (10 ^ e) * 10 ^ e\<bar>)"
    by (simp add: abs_mult)
  show "2 * \<bar>m - bankers_round m e * 10 ^ e\<bar> \<le> 10 ^ e"
    unfolding d using half_even_nearest [of "10 ^ e" "\<bar>m\<bar>"] by simp
  show "even (bankers_round m e)" if "2 * \<bar>m - bankers_round m e * 10 ^ e\<bar> = 10 ^ e"
    using that half_even_tie [of "10 ^ e" "\<bar>m\<bar>"] unfolding d
    by (simp add: bankers_round_eq [OF assms] split: if_splits)
qed

section \<open>Conversion from mantissa and exponent\<close>

text \<open>In this build the precision never exceeds the fixed precision, so the scaling
  exponent is never negative and the branch that divides is not taken.\<close>

lemma mantissa_exponent_cases:
  assumes "precision \<le> 16"
  shows "mantissa_exponent_to_fixed_i128 m e precision =
    (let k = min (- e) (int precision);
         m' = (if - e > int precision then bankers_round m (nat (- e - int precision)) else m)
     in if 16 - k > 38 then Inl (ScaleOutOfRange e (16 - k))
        else if in_i128 (m' * 10 ^ nat (16 - k)) then Inr (m' * 10 ^ nat (16 - k))
        else Inl ScaleOverflow)"
  using assms
  by (simp add: mantissa_exponent_to_fixed_i128_def check_fixed_precision_def FIXED_PRECISION_def
      Let_def checked_i128_def)

lemma mantissa_exponent_exact:
  assumes "precision \<le> 16" and "- e \<le> int precision"
    and "mantissa_exponent_to_fixed_i128 m e precision = Inr r"
  shows "r = m * 10 ^ nat (16 + e)"
  using assms by (simp add: mantissa_exponent_cases Let_def split: if_splits)

lemma mantissa_exponent_rounded:
  assumes "precision \<le> 16" and "int precision < - e"
    and "mantissa_exponent_to_fixed_i128 m e precision = Inr r"
  shows "r = bankers_round m (nat (- e - int precision)) * 10 ^ (16 - precision)"
  using assms by (simp add: mantissa_exponent_cases Let_def nat_diff_distrib split: if_splits)

lemma mantissa_exponent_bounds:
  assumes "precision \<le> 16" and "mantissa_exponent_to_fixed_i128 m e precision = Inr r"
  shows "in_i128 r"
  using assms by (simp add: mantissa_exponent_cases Let_def split: if_splits)

lemma mantissa_exponent_precision:
  assumes "mantissa_exponent_to_fixed_i128 m e precision = Inr r"
  shows "precision \<le> 16"
  using assms
  by (auto simp: mantissa_exponent_to_fixed_i128_def check_fixed_precision_def FIXED_PRECISION_def
      split: if_splits)

lemma mantissa_exponent_multiple:
  assumes "mantissa_exponent_to_fixed_i128 m e precision = Inr r"
  shows "10 ^ (16 - precision) dvd r"
proof (cases "- e \<le> int precision")
  case True
  note p = mantissa_exponent_precision [OF assms]
  have "16 - precision \<le> nat (16 + e)" using True p by linarith
  then have "(10::int) ^ (16 - precision) dvd 10 ^ nat (16 + e)" by (rule le_imp_power_dvd)
  then show ?thesis using mantissa_exponent_exact [OF p True assms] by simp
next
  case False
  with mantissa_exponent_rounded [OF mantissa_exponent_precision [OF assms] _ assms]
  show ?thesis by simp
qed

lemma mantissa_exponent_close:
  assumes "in_i128 m" and "mantissa_exponent_to_fixed_i128 m (- int k) precision = Inr r"
  shows "2 * \<bar>r * 10 ^ k - m * 10 ^ 16\<bar> \<le> 10 ^ (16 - precision) * 10 ^ k"
proof (cases "k \<le> precision")
  case True
  note p = mantissa_exponent_precision [OF assms(2)]
  have "r = m * 10 ^ (16 - k)"
    using mantissa_exponent_exact [OF p _ assms(2)] True p by (simp add: nat_diff_distrib)
  then have "r * 10 ^ k = m * (10 ^ (16 - k) * 10 ^ k)" by simp
  also have "\<dots> = m * 10 ^ 16" using True p by (simp only: power_add [symmetric]) simp
  finally show ?thesis by simp
next
  case False
  note p = mantissa_exponent_precision [OF assms(2)]
  define d where "d = k - precision"
  have k: "k = d + precision" using False d_def by simp
  have r: "r = bankers_round m d * 10 ^ (16 - precision)"
    using mantissa_exponent_rounded [OF p _ assms(2)] False by (simp add: d_def nat_diff_distrib)
  let ?s = "10 ^ (16 - precision) * 10 ^ precision :: int"
  have s: "?s = 10 ^ 16" using p by (simp flip: power_add)
  have eq: "r * 10 ^ k - m * 10 ^ 16 = (bankers_round m d * 10 ^ d - m) * ?s"
    unfolding r k s [symmetric] by (simp add: power_add algebra_simps)
  have "2 * \<bar>r * 10 ^ k - m * 10 ^ 16\<bar> = 2 * \<bar>m - bankers_round m d * 10 ^ d\<bar> * ?s"
    unfolding eq abs_mult by (simp add: abs_minus_commute)
  also have "\<dots> \<le> 10 ^ d * ?s"
    using bankers_round_nearest(1) [OF assms(1), of d] by (intro mult_right_mono) simp_all
  finally show ?thesis by (simp add: k power_add mult.commute mult.left_commute)
qed

section \<open>Properties\<close>

text \<open>for every raw value more than 10^16 away from the ends of the \<open>i128\<close> range,
  \<open>correct_raw_i128\<close> returns a multiple of the scale of the precision that is at most half
  a scale away from the input (a nearest valid raw value), the corrected value passes
  \<open>check_fixed_raw_i128\<close>, and correcting twice changes nothing.\<close>

theorem correct_raw_i128_nearest:
  assumes "correctable raw" and "precision < 16"
  shows "10 ^ (16 - precision) dvd correct_raw_i128 raw precision \<and>
    2 * \<bar>correct_raw_i128 raw precision - raw\<bar> \<le> 10 ^ (16 - precision) \<and>
    check_fixed_raw_i128 (correct_raw_i128 raw precision) precision = Inr () \<and>
    correct_raw_i128 (correct_raw_i128 raw precision) precision = correct_raw_i128 raw precision"
proof (intro conjI)
  have s: "(0::int) < 10 ^ (16 - precision)" "even ((10::int) ^ (16 - precision))"
    using assms(2) even_pow10 [of "16 - precision"] by simp_all
  show "10 ^ (16 - precision) dvd correct_raw_i128 raw precision"
    by (simp add: correct_raw_i128_eq [OF assms(2,1)])
  show "2 * \<bar>correct_raw_i128 raw precision - raw\<bar> \<le> 10 ^ (16 - precision)"
    unfolding correct_raw_i128_eq [OF assms(2,1)] by (rule nearest_multiple_close [OF s])
  show "check_fixed_raw_i128 (correct_raw_i128 raw precision) precision = Inr ()"
    by (rule correct_raw_i128_valid [OF assms(1)])
  then show "correct_raw_i128 (correct_raw_i128 raw precision) precision = correct_raw_i128 raw precision"
    by (rule correct_raw_i128_fixpoint)
qed

theorem correct_raw_i128_nearest_witness:
  "2 * \<bar>correct_raw_i128 (-12345678912345678901) 2 - (-12345678912345678901)\<bar> \<le> 10 ^ 14"
  using correct_raw_i128_nearest [of "-12345678912345678901" 2]
  by (simp add: correctable_def i128_max_def)

text \<open>C6: \<open>bankers_round\<close> divides any \<open>i128\<close> mantissa by \<open>10^excess\<close> and returns
  a nearest integer, the even one when two are equally near; this includes the shortcut for
  \<open>excess \<ge> 39\<close>, where the power no longer fits in \<open>i128\<close>.\<close>

theorem bankers_round_half_even:
  assumes "in_i128 m"
  shows "2 * \<bar>m - bankers_round m excess * 10 ^ excess\<bar> \<le> 10 ^ excess \<and>
    (2 * \<bar>m - bankers_round m excess * 10 ^ excess\<bar> = 10 ^ excess \<longrightarrow> even (bankers_round m excess))"
  using bankers_round_nearest [OF assms, of excess] by simp

theorem bankers_round_half_even_witness:
  "bankers_round 25 1 = 2 \<and> bankers_round 35 1 = 4 \<and> bankers_round (-15) 1 = -2 \<and>
   even (bankers_round 25 1)"
  using bankers_round_half_even [of 25 1]
  by (simp add: in_i128_def i128_min_def i128_max_def bankers_round_def signed_divide_int_def
      signed_modulo_int_def)

text \<open>When \<open>mantissa_exponent_to_fixed_i128\<close> succeeds on a mantissa with \<open>k\<close>
  fractional digits, the raw result fits in \<open>i128\<close>, is a multiple of the scale of the
  precision, and differs from the exact value \<open>m * 10^(16 - k)\<close> by at most half a unit of the
  requested precision (written without division).\<close>

theorem mantissa_exponent_to_fixed_accurate:
  assumes "in_i128 m" and "mantissa_exponent_to_fixed_i128 m (- int k) precision = Inr r"
  shows "in_i128 r \<and> 10 ^ (16 - precision) dvd r \<and>
    2 * \<bar>r * 10 ^ k - m * 10 ^ 16\<bar> \<le> 10 ^ (16 - precision) * 10 ^ k"
  using mantissa_exponent_bounds [OF mantissa_exponent_precision assms(2), OF assms(2)]
    mantissa_exponent_multiple [OF assms(2)] mantissa_exponent_close [OF assms]
  by simp

theorem mantissa_exponent_to_fixed_accurate_witness:
  "mantissa_exponent_to_fixed_i128 12345 (- int 3) 2 = Inr 123400000000000000 \<and>
   2 * \<bar>123400000000000000 * 10 ^ 3 - 12345 * 10 ^ 16\<bar> \<le> (10 ^ (16 - 2) * 10 ^ 3 :: int)"
proof -
  have r: "mantissa_exponent_to_fixed_i128 12345 (- int 3) 2 = Inr 123400000000000000"
    by (simp add: mantissa_exponent_cases Let_def in_i128_def i128_min_def i128_max_def
        bankers_round_def signed_divide_int_def signed_modulo_int_def)
  show ?thesis using r mantissa_exponent_to_fixed_accurate [OF _ r]
    by (simp add: in_i128_def i128_min_def i128_max_def)
qed

end
