(* ===== verification/Value_Types.thy ===== *)
theory Value_Types
  imports Fixed_Point
begin

text \<open>
  The value types \<open>Price\<close> and \<open>Quantity\<close> (\<open>crates/model/src/types/price.rs\<close>,
  \<open>quantity.rs\<close>): the raw fixed-point number with its display precision, the checked and
  the panicking constructors, and the arithmetic, in which every overflow is a panic.

  Equality and order of the source compare the raw number only; here they are comparisons of
  \<open>p_raw\<close> and \<open>q_raw\<close>. The \<open>f64\<close> constructors and conversions are not modelled.
  \<open>rust_decimal::Decimal\<close> is code outside the repository: a conversion from a decimal takes
  its mantissa and scale, a conversion to a decimal takes the constructor as an argument.

  \<open>PRICE_RAW_MAX\<close> and \<open>QUANTITY_RAW_MAX\<close> are the \<open>f64\<close> products that the source
  casts to an integer (they are rounded to 53 bits, so they are below the exact product).
\<close>

record price =
  p_raw :: int
  p_prec :: nat

record quantity =
  q_raw :: nat
  q_prec :: nat

definition PRICE_RAW_MAX :: int where
  "PRICE_RAW_MAX = 170141183460459988838491619328"

definition PRICE_RAW_MIN :: int where
  "PRICE_RAW_MIN = -170141183460459988838491619328"

definition PRICE_UNDEF :: int where
  "PRICE_UNDEF = i128_max"

definition PRICE_ERROR :: int where
  "PRICE_ERROR = i128_min"

definition QUANTITY_RAW_MAX :: nat where
  "QUANTITY_RAW_MAX = 340282366920929970038656466944"

definition QUANTITY_UNDEF :: nat where
  "QUANTITY_UNDEF = u128_max"

datatype value_error =
    UndefPrecision nat
  | RawOutOfRange int
  | NegativeDecimal int
  | NotPositive int
  | UndefValue
  | Fixed fixed_error

definition lift_fixed :: "fixed_error + 'a \<Rightarrow> value_error + 'a" where
  "lift_fixed r = (case r of Inl e \<Rightarrow> Inl (Fixed e) | Inr x \<Rightarrow> Inr x)"

section \<open>Price\<close>

definition price_raw_ok :: "int \<Rightarrow> bool" where
  "price_raw_ok raw \<longleftrightarrow>
     raw = PRICE_ERROR \<or> raw = PRICE_UNDEF \<or> raw \<ge> PRICE_RAW_MIN \<and> raw \<le> PRICE_RAW_MAX"

definition price_from_raw :: "int \<Rightarrow> nat \<Rightarrow> price panics" where
  "price_from_raw raw precision =
     (if \<not> price_raw_ok raw then None
      else if raw = PRICE_UNDEF \<and> \<not> precision = 0 then None
      else case check_fixed_precision precision of
        Inl _ \<Rightarrow> None
      | Inr _ \<Rightarrow> Some \<lparr>p_raw = raw, p_prec = precision\<rparr>)"

definition price_from_raw_checked :: "int \<Rightarrow> nat \<Rightarrow> value_error + price" where
  "price_from_raw_checked raw precision =
     (if raw = PRICE_UNDEF \<and> \<not> precision = 0 then Inl (UndefPrecision precision)
      else if \<not> price_raw_ok raw then Inl (RawOutOfRange raw)
      else and_then (lift_fixed (check_fixed_precision precision))
        (\<lambda>_. Inr \<lparr>p_raw = raw, p_prec = precision\<rparr>))"

definition price_zero :: "nat \<Rightarrow> price panics" where
  "price_zero precision =
     (case check_fixed_precision precision of
        Inl _ \<Rightarrow> None | Inr _ \<Rightarrow> Some \<lparr>p_raw = 0, p_prec = precision\<rparr>)"

definition price_max :: "nat \<Rightarrow> price panics" where
  "price_max precision =
     (case check_fixed_precision precision of
        Inl _ \<Rightarrow> None | Inr _ \<Rightarrow> Some \<lparr>p_raw = PRICE_RAW_MAX, p_prec = precision\<rparr>)"

definition price_min :: "nat \<Rightarrow> price panics" where
  "price_min precision =
     (case check_fixed_precision precision of
        Inl _ \<Rightarrow> None | Inr _ \<Rightarrow> Some \<lparr>p_raw = PRICE_RAW_MIN, p_prec = precision\<rparr>)"

definition price_is_undefined :: "price \<Rightarrow> bool" where
  "price_is_undefined p \<longleftrightarrow> p_raw p = PRICE_UNDEF"

definition price_is_zero :: "price \<Rightarrow> bool" where
  "price_is_zero p \<longleftrightarrow> p_raw p = 0"

definition price_is_positive :: "price \<Rightarrow> bool" where
  "price_is_positive p \<longleftrightarrow> p_raw p \<noteq> PRICE_UNDEF \<and> p_raw p > 0"

text \<open>\<open>as_decimal\<close>: the argument \<open>mk\<close> stands for \<open>Decimal::from_i128_with_scale\<close>.\<close>

definition price_as_decimal :: "(int \<Rightarrow> nat \<Rightarrow> 'd) \<Rightarrow> price \<Rightarrow> 'd" where
  "price_as_decimal mk p =
     (let precision_diff = FIXED_PRECISION - p_prec p;
          rescaled_raw = p_raw p sdiv 10 ^ precision_diff
      in mk rescaled_raw (p_prec p))"

text \<open>\<open>from_decimal_dp\<close> and \<open>from_decimal\<close>, on the mantissa and the scale of the decimal.\<close>

definition price_from_decimal_dp :: "int \<Rightarrow> nat \<Rightarrow> nat \<Rightarrow> value_error + price" where
  "price_from_decimal_dp mantissa scale precision =
     and_then (lift_fixed (mantissa_exponent_to_fixed_i128 mantissa (- int scale) precision))
       (\<lambda>raw. if raw \<ge> PRICE_RAW_MIN \<and> raw \<le> PRICE_RAW_MAX
              then Inr \<lparr>p_raw = raw, p_prec = precision\<rparr> else Inl (RawOutOfRange raw))"

definition price_from_decimal :: "int \<Rightarrow> nat \<Rightarrow> value_error + price" where
  "price_from_decimal mantissa scale = price_from_decimal_dp mantissa scale scale"

definition price_from_mantissa_exponent :: "int \<Rightarrow> int \<Rightarrow> nat \<Rightarrow> price panics" where
  "price_from_mantissa_exponent mantissa exponent precision =
     (case check_fixed_precision precision of
        Inl _ \<Rightarrow> None
      | Inr _ \<Rightarrow>
          if mantissa = 0 then Some \<lparr>p_raw = 0, p_prec = precision\<rparr>
          else (case mantissa_exponent_to_fixed_i128 mantissa exponent precision of
              Inl _ \<Rightarrow> None
            | Inr raw \<Rightarrow> if raw \<ge> PRICE_RAW_MIN \<and> raw \<le> PRICE_RAW_MAX
                then Some \<lparr>p_raw = raw, p_prec = precision\<rparr> else None))"

definition price_neg :: "price \<Rightarrow> price" where
  "price_neg p =
     (if p_raw p = PRICE_ERROR \<or> p_raw p = PRICE_UNDEF then p
      else \<lparr>p_raw = - p_raw p, p_prec = p_prec p\<rparr>)"

definition price_add :: "price \<Rightarrow> price \<Rightarrow> price panics" where
  "price_add p q =
     map_option (\<lambda>raw. \<lparr>p_raw = raw, p_prec = max (p_prec p) (p_prec q)\<rparr>)
       (checked_i128 (p_raw p + p_raw q))"

definition price_sub :: "price \<Rightarrow> price \<Rightarrow> price panics" where
  "price_sub p q =
     map_option (\<lambda>raw. \<lparr>p_raw = raw, p_prec = max (p_prec p) (p_prec q)\<rparr>)
       (checked_i128 (p_raw p - p_raw q))"

definition check_positive_price :: "price \<Rightarrow> value_error + unit" where
  "check_positive_price p =
     (if p_raw p = PRICE_UNDEF then Inl UndefValue
      else if \<not> price_is_positive p then Inl (NotPositive (p_raw p)) else Inr ())"

definition decode_raw_price_i64 :: "int \<Rightarrow> int" where
  "decode_raw_price_i64 v = wrap_s 128 (v * 10000000)"

section \<open>Quantity\<close>

definition quantity_raw_ok :: "nat \<Rightarrow> bool" where
  "quantity_raw_ok raw \<longleftrightarrow> raw = QUANTITY_UNDEF \<or> raw \<le> QUANTITY_RAW_MAX"

definition quantity_from_raw :: "nat \<Rightarrow> nat \<Rightarrow> quantity panics" where
  "quantity_from_raw raw precision =
     (if \<not> quantity_raw_ok raw then None
      else if raw = QUANTITY_UNDEF \<and> \<not> precision = 0 then None
      else case check_fixed_precision precision of
        Inl _ \<Rightarrow> None
      | Inr _ \<Rightarrow> Some \<lparr>q_raw = raw, q_prec = precision\<rparr>)"

definition quantity_from_raw_checked :: "nat \<Rightarrow> nat \<Rightarrow> value_error + quantity" where
  "quantity_from_raw_checked raw precision =
     (if raw = QUANTITY_UNDEF \<and> \<not> precision = 0 then Inl (UndefPrecision precision)
      else if \<not> quantity_raw_ok raw then Inl (RawOutOfRange (int raw))
      else and_then (lift_fixed (check_fixed_precision precision))
        (\<lambda>_. Inr \<lparr>q_raw = raw, q_prec = precision\<rparr>))"

definition quantity_saturating_sub :: "quantity \<Rightarrow> quantity \<Rightarrow> quantity" where
  "quantity_saturating_sub a b =
     \<lparr>q_raw = q_raw a - q_raw b, q_prec = max (q_prec a) (q_prec b)\<rparr>"

definition quantity_zero :: "nat \<Rightarrow> quantity panics" where
  "quantity_zero precision =
     (case check_fixed_precision precision of
        Inl _ \<Rightarrow> None | Inr _ \<Rightarrow> Some \<lparr>q_raw = 0, q_prec = precision\<rparr>)"

definition quantity_is_undefined :: "quantity \<Rightarrow> bool" where
  "quantity_is_undefined q \<longleftrightarrow> q_raw q = QUANTITY_UNDEF"

definition quantity_is_zero :: "quantity \<Rightarrow> bool" where
  "quantity_is_zero q \<longleftrightarrow> q_raw q = 0"

definition quantity_is_positive :: "quantity \<Rightarrow> bool" where
  "quantity_is_positive q \<longleftrightarrow> q_raw q \<noteq> QUANTITY_UNDEF \<and> q_raw q > 0"

text \<open>The cast of the rescaled \<open>u128\<close> to \<open>i128\<close> wraps.\<close>

definition quantity_as_decimal :: "(int \<Rightarrow> nat \<Rightarrow> 'd) \<Rightarrow> quantity \<Rightarrow> 'd" where
  "quantity_as_decimal mk q =
     (let precision_diff = FIXED_PRECISION - q_prec q;
          rescaled_raw = q_raw q div 10 ^ precision_diff
      in mk (wrap_s 128 (int rescaled_raw)) (q_prec q))"

definition quantity_from_decimal_dp :: "int \<Rightarrow> nat \<Rightarrow> nat \<Rightarrow> value_error + quantity" where
  "quantity_from_decimal_dp mantissa scale precision =
     (if \<not> mantissa \<ge> 0 then Inl (NegativeDecimal mantissa)
      else and_then (lift_fixed (mantissa_exponent_to_fixed_i128 mantissa (- int scale) precision))
        (\<lambda>raw. if \<not> raw \<ge> 0 then Inl (RawOutOfRange raw)
               else if \<not> nat raw \<le> QUANTITY_RAW_MAX then Inl (RawOutOfRange raw)
               else Inr \<lparr>q_raw = nat raw, q_prec = precision\<rparr>))"

definition quantity_from_decimal :: "int \<Rightarrow> nat \<Rightarrow> value_error + quantity" where
  "quantity_from_decimal mantissa scale = quantity_from_decimal_dp mantissa scale scale"

definition quantity_from_mantissa_exponent :: "nat \<Rightarrow> int \<Rightarrow> nat \<Rightarrow> quantity panics" where
  "quantity_from_mantissa_exponent mantissa exponent precision =
     (case check_fixed_precision precision of
        Inl _ \<Rightarrow> None
      | Inr _ \<Rightarrow>
          if mantissa = 0 then Some \<lparr>q_raw = 0, q_prec = precision\<rparr>
          else (case mantissa_exponent_to_fixed_i128 (int mantissa) exponent precision of
              Inl _ \<Rightarrow> None
            | Inr raw \<Rightarrow>
                if \<not> raw \<ge> 0 then None
                else if nat raw \<le> QUANTITY_RAW_MAX
                then Some \<lparr>q_raw = nat raw, q_prec = precision\<rparr> else None))"

definition quantity_add :: "quantity \<Rightarrow> quantity \<Rightarrow> quantity panics" where
  "quantity_add a b =
     map_option (\<lambda>raw. \<lparr>q_raw = raw, q_prec = max (q_prec a) (q_prec b)\<rparr>)
       (checked_u128 (q_raw a + q_raw b))"

definition quantity_sub :: "quantity \<Rightarrow> quantity \<Rightarrow> quantity panics" where
  "quantity_sub a b =
     map_option (\<lambda>raw. \<lparr>q_raw = raw, q_prec = max (q_prec a) (q_prec b)\<rparr>)
       (checked_sub_u128 (q_raw a) (q_raw b))"

definition quantity_mul :: "quantity \<Rightarrow> quantity \<Rightarrow> quantity panics" where
  "quantity_mul a b =
     map_option (\<lambda>raw. \<lparr>q_raw = raw div 10000000000000000, q_prec = max (q_prec a) (q_prec b)\<rparr>)
       (checked_u128 (q_raw a * q_raw b))"

definition check_positive_quantity :: "quantity \<Rightarrow> value_error + unit" where
  "check_positive_quantity q =
     (if \<not> quantity_is_positive q then Inl (NotPositive (int (q_raw q))) else Inr ())"

section \<open>Well-formed values\<close>

text \<open>What the constructors establish: a raw value in range and an allowed precision.\<close>

definition price_wf :: "price \<Rightarrow> bool" where
  "price_wf p \<longleftrightarrow> PRICE_RAW_MIN \<le> p_raw p \<and> p_raw p \<le> PRICE_RAW_MAX \<and> p_prec p \<le> FIXED_PRECISION"

definition quantity_wf :: "quantity \<Rightarrow> bool" where
  "quantity_wf q \<longleftrightarrow> q_raw q \<le> QUANTITY_RAW_MAX \<and> q_prec q \<le> FIXED_PRECISION"

lemmas raw_limits = PRICE_RAW_MAX_def PRICE_RAW_MIN_def PRICE_UNDEF_def PRICE_ERROR_def
  QUANTITY_RAW_MAX_def QUANTITY_UNDEF_def i128_max_def i128_min_def u128_max_def

lemma check_fixed_precision_Inr [simp]:
  "check_fixed_precision p = Inr u \<longleftrightarrow> p \<le> FIXED_PRECISION"
  by (auto simp: check_fixed_precision_def)

lemma lift_fixed_Inr [simp]: "lift_fixed r = Inr x \<longleftrightarrow> r = Inr x"
  by (auto simp: lift_fixed_def split: sum.splits)

lemma check_fixed_precision_case [simp]:
  "(case check_fixed_precision p of Inl _ \<Rightarrow> a | Inr _ \<Rightarrow> b) = (if p \<le> FIXED_PRECISION then b else a)"
  by (auto simp: check_fixed_precision_def)

lemma price_from_raw_agrees:
  "price_from_raw raw precision = Some p \<longleftrightarrow> price_from_raw_checked raw precision = Inr p"
  by (auto simp: price_from_raw_def price_from_raw_checked_def and_then_Inr split: if_splits)

lemma quantity_from_raw_agrees:
  "quantity_from_raw raw precision = Some q \<longleftrightarrow> quantity_from_raw_checked raw precision = Inr q"
  by (auto simp: quantity_from_raw_def quantity_from_raw_checked_def and_then_Inr split: if_splits)

lemma price_from_decimal_dp_wf: "price_from_decimal_dp m s p = Inr x \<Longrightarrow> price_wf x"
  by (auto simp: price_from_decimal_dp_def and_then_Inr price_wf_def FIXED_PRECISION_def
      dest: mantissa_exponent_precision split: if_splits)

lemma quantity_from_decimal_dp_wf: "quantity_from_decimal_dp m s p = Inr x \<Longrightarrow> quantity_wf x"
  by (auto simp: quantity_from_decimal_dp_def and_then_Inr quantity_wf_def FIXED_PRECISION_def
      dest: mantissa_exponent_precision split: if_splits)

lemma quantity_sub_add:
  "quantity_add a b = Some c \<Longrightarrow> q_prec b \<le> q_prec a \<Longrightarrow> quantity_sub c b = Some a"
  by (auto simp: quantity_add_def quantity_sub_def)

lemma price_as_decimal_mantissa:
  assumes "10 ^ (16 - p_prec p) dvd p_raw p" and "p_prec p \<le> FIXED_PRECISION"
  shows "(p_raw p sdiv 10 ^ (FIXED_PRECISION - p_prec p)) * 10 ^ (16 - p_prec p) = p_raw p"
  using assms sdiv_mult_smod_eq [of "p_raw p" "10 ^ (16 - p_prec p)"]
  by (simp add: FIXED_PRECISION_def smod_zero_iff [THEN iffD2])

section \<open>Properties\<close>

text \<open>A price survives the round trip through \<open>Decimal\<close>. For a well-formed price whose
  raw value is a multiple of its scale and whose unscaled value fits in 96 bits,
  \<open>Price::from_decimal(price.as_decimal())\<close> is that price, raw value and precision. The
  hypothesis on \<open>mk\<close>, \<open>mant\<close> and \<open>scal\<close> is the documented behaviour of
  \<open>from_i128_with_scale\<close>, \<open>mantissa\<close> and \<open>scale\<close>: mantissa and scale are stored
  unchanged when the mantissa fits in 96 bits and the scale is at most 28.\<close>

theorem price_decimal_roundtrip:
  fixes mk :: "int \<Rightarrow> nat \<Rightarrow> 'd"
  assumes decimal: "\<And>m s. \<bar>m\<bar> < 2 ^ 96 \<Longrightarrow> s \<le> 28 \<Longrightarrow> mant (mk m s) = m \<and> scal (mk m s) = s"
    and wf: "price_wf p" and mult: "10 ^ (16 - p_prec p) dvd p_raw p"
    and fits: "\<bar>p_raw p sdiv 10 ^ (16 - p_prec p)\<bar> < 2 ^ 96"
  shows "price_from_decimal (mant (price_as_decimal mk p)) (scal (price_as_decimal mk p)) = Inr p"
proof -
  have prec: "p_prec p \<le> 16" using wf by (simp add: price_wf_def FIXED_PRECISION_def)
  let ?m = "p_raw p sdiv 10 ^ (16 - p_prec p)"
  have m: "?m * 10 ^ (16 - p_prec p) = p_raw p"
    using price_as_decimal_mantissa [OF mult] prec by (simp add: FIXED_PRECISION_def)
  have "mant (mk ?m (p_prec p)) = ?m \<and> scal (mk ?m (p_prec p)) = p_prec p"
    using decimal fits prec by simp
  moreover have "mantissa_exponent_to_fixed_i128 ?m (- int (p_prec p)) (p_prec p) = Inr (p_raw p)"
  proof -
    have "in_i128 (p_raw p)" using wf by (auto simp: price_wf_def in_i128_def raw_limits)
    moreover have "nat (16 - int (p_prec p)) = 16 - p_prec p" using prec by simp
    ultimately show ?thesis using prec by (simp add: mantissa_exponent_cases Let_def m)
  qed
  ultimately show ?thesis using wf
    by (simp add: price_as_decimal_def Let_def FIXED_PRECISION_def price_from_decimal_def
        price_from_decimal_dp_def lift_fixed_def price_wf_def)
qed

theorem price_decimal_roundtrip_witness:
  "price_from_decimal (fst (price_as_decimal Pair \<lparr>p_raw = -123400000000000000, p_prec = 2\<rparr>))
     (snd (price_as_decimal Pair \<lparr>p_raw = -123400000000000000, p_prec = 2\<rparr>))
   = Inr \<lparr>p_raw = -123400000000000000, p_prec = 2\<rparr>"
  by (rule price_decimal_roundtrip)
    (simp_all add: price_wf_def raw_limits FIXED_PRECISION_def signed_divide_int_def)

text \<open>adding or subtracting two well-formed prices never panics: the raw result is the
  exact sum or difference, the precision the larger of the two, and subtraction undoes
  addition on the raw value.\<close>

theorem price_arith_exact:
  assumes "price_wf p" and "price_wf q"
  shows "\<exists>s d. price_add p q = Some s \<and> p_raw s = p_raw p + p_raw q \<and>
    price_sub p q = Some d \<and> p_raw d = p_raw p - p_raw q \<and>
    p_prec s = max (p_prec p) (p_prec q) \<and> p_prec d = max (p_prec p) (p_prec q) \<and>
    (\<exists>b. price_sub s q = Some b \<and> p_raw b = p_raw p)"
  using assms
  by (auto simp: price_add_def price_sub_def checked_i128_def in_i128_def price_wf_def raw_limits)

theorem price_arith_exact_witness:
  "\<exists>s. price_add \<lparr>p_raw = 5, p_prec = 16\<rparr> \<lparr>p_raw = -7, p_prec = 16\<rparr> = Some s \<and> p_raw s = 5 + -7"
proof -
  have "price_wf \<lparr>p_raw = 5, p_prec = 16\<rparr>" "price_wf \<lparr>p_raw = -7, p_prec = 16\<rparr>"
    by (simp_all add: price_wf_def raw_limits FIXED_PRECISION_def)
  from price_arith_exact [OF this] show ?thesis by auto
qed

text \<open>the panicking constructors \<open>from_raw\<close> and the fallible ones
  \<open>from_raw_checked\<close> accept exactly the same raw values and precisions and build the same
  value, for prices and for quantities.\<close>

theorem from_raw_agrees:
  "(price_from_raw raw precision = Some p \<longleftrightarrow> price_from_raw_checked raw precision = Inr p) \<and>
   (quantity_from_raw n precision = Some q \<longleftrightarrow> quantity_from_raw_checked n precision = Inr q)"
  by (simp add: price_from_raw_agrees quantity_from_raw_agrees)

end
