(* ===== verification/Book_Level.thy ===== *)
theory Book_Level
  imports Containers Value_Types
begin

text \<open>
  Orders and price levels of an order book: the enumerations of \<open>enums.rs\<close> the book uses,
  \<open>BookOrder\<close> (\<open>data/order.rs\<close>), \<open>BookPrice\<close> (\<open>orderbook/ladder.rs\<close>),
  \<open>BookLevel\<close> (\<open>orderbook/level.rs\<close>) and the assignment of synthetic order
  identifiers (\<open>orderbook/aggregation.rs\<close>).

  The synthetic identifier of an aggregated level is a hash of the raw price computed by the
  \<open>ahash\<close> crate: it is the argument \<open>hash\<close> of the definitions that use it.

  The lemmas give the behaviour of a level as a queue of orders: what a lookup returns after
  each operation, that an update keeps the place of an order in the queue, and that a level
  keeps its well-formedness (distinct identifiers, non-zero sizes, one price).
\<close>

datatype order_side = NoOrderSide | Buy | Sell

datatype order_side_specified = SBuy | SSell

datatype book_type = L1_MBP | L2_MBP | L3_MBO

datatype book_action = Add | Update | Delete | Clear

datatype record_flag = F_LAST | F_TOB | F_SNAPSHOT | F_MBP | RESERVED_2 | RESERVED_1

fun flag_value :: "record_flag \<Rightarrow> u8" where
  "flag_value F_LAST = 128"
| "flag_value F_TOB = 64"
| "flag_value F_SNAPSHOT = 32"
| "flag_value F_MBP = 16"
| "flag_value RESERVED_2 = 8"
| "flag_value RESERVED_1 = 4"

definition flag_matches :: "record_flag \<Rightarrow> u8 \<Rightarrow> bool" where
  "flag_matches f v \<longleftrightarrow> flag_value f AND v \<noteq> 0"

fun as_specified :: "order_side \<Rightarrow> order_side_specified panics" where
  "as_specified Buy = Some SBuy"
| "as_specified Sell = Some SSell"
| "as_specified NoOrderSide = None"

fun opposite :: "order_side_specified \<Rightarrow> order_side_specified" where
  "opposite SBuy = SSell"
| "opposite SSell = SBuy"

fun as_order_side :: "order_side_specified \<Rightarrow> order_side" where
  "as_order_side SBuy = Buy"
| "as_order_side SSell = Sell"

text \<open>The cast \<open>side as u64\<close>.\<close>

fun side_value :: "order_side \<Rightarrow> u64" where
  "side_value NoOrderSide = 0"
| "side_value Buy = 1"
| "side_value Sell = 2"

record book_order =
  bo_side :: order_side
  bo_price :: price
  bo_size :: quantity
  bo_order_id :: u64

definition NULL_ORDER :: book_order where
  "NULL_ORDER = \<lparr>bo_side = NoOrderSide, bo_price = \<lparr>p_raw = 0, p_prec = 0\<rparr>,
     bo_size = \<lparr>q_raw = 0, q_prec = 0\<rparr>, bo_order_id = 0\<rparr>"

record book_price =
  bp_value :: price
  bp_side :: order_side_specified

definition to_book_price :: "book_order \<Rightarrow> book_price panics" where
  "to_book_price ord =
     map_option (\<lambda>s. \<lparr>bp_value = bo_price ord, bp_side = s\<rparr>) (as_specified (bo_side ord))"

text \<open>
  \<open>Ord for BookPrice\<close>: comparing prices of different sides is an assertion failure; on the
  same side bids order by descending, asks by ascending raw price.
\<close>

datatype ordering = Less | Equal | Greater

definition cmp_int :: "int \<Rightarrow> int \<Rightarrow> ordering" where
  "cmp_int a b = (if a < b then Less else if a = b then Equal else Greater)"

definition book_price_cmp :: "book_price \<Rightarrow> book_price \<Rightarrow> ordering panics" where
  "book_price_cmp a b =
     (if bp_side a \<noteq> bp_side b then None
      else Some (case bp_side a of
          SBuy \<Rightarrow> cmp_int (p_raw (bp_value b)) (p_raw (bp_value a))
        | SSell \<Rightarrow> cmp_int (p_raw (bp_value a)) (p_raw (bp_value b))))"

definition book_price_eq :: "book_price \<Rightarrow> book_price \<Rightarrow> bool" where
  "book_price_eq a b \<longleftrightarrow> bp_side a = bp_side b \<and> p_raw (bp_value a) = p_raw (bp_value b)"

text \<open>The rank of a key on one side of the book: ascending rank is best price first.\<close>

definition rank :: "book_price \<Rightarrow> int" where
  "rank bp = (case bp_side bp of SBuy \<Rightarrow> - p_raw (bp_value bp) | SSell \<Rightarrow> p_raw (bp_value bp))"

lemma book_price_cmp_rank:
  "bp_side a = bp_side b \<Longrightarrow> book_price_cmp a b = Some (cmp_int (rank a) (rank b))"
  by (auto simp: rank_def book_price_cmp_def cmp_int_def split: order_side_specified.splits)

lemma book_price_eq_rank:
  "bp_side a = bp_side b \<Longrightarrow> book_price_eq a b \<longleftrightarrow> rank a = rank b"
  by (auto simp: rank_def book_price_eq_def split: order_side_specified.splits)

section \<open>Synthetic order identifiers\<close>

definition price_based_order_id :: "(int \<Rightarrow> u64) \<Rightarrow> book_order \<Rightarrow> u64" where
  "price_based_order_id hash ord = hash (p_raw (bo_price ord))"

definition pre_process_order :: "(int \<Rightarrow> u64) \<Rightarrow> book_type \<Rightarrow> book_order \<Rightarrow> u8 \<Rightarrow> book_order" where
  "pre_process_order hash bt ord flags =
     (case bt of
        L1_MBP \<Rightarrow> ord\<lparr>bo_order_id := side_value (bo_side ord)\<rparr>
      | L2_MBP \<Rightarrow> ord\<lparr>bo_order_id := price_based_order_id hash ord\<rparr>
      | L3_MBO \<Rightarrow>
          if flag_matches F_TOB flags then ord\<lparr>bo_order_id := side_value (bo_side ord)\<rparr>
          else if flag_matches F_MBP flags then ord\<lparr>bo_order_id := price_based_order_id hash ord\<rparr>
          else ord)"

lemma pre_process_order_frame [simp]:
  "bo_side (pre_process_order hash bt ord flags) = bo_side ord"
  "bo_price (pre_process_order hash bt ord flags) = bo_price ord"
  "bo_size (pre_process_order hash bt ord flags) = bo_size ord"
  by (simp_all add: pre_process_order_def split: book_type.splits)

section \<open>Levels\<close>

record book_level =
  lv_price :: book_price
  lv_orders :: "(u64, book_order) index_map"

definition level_new :: "book_price \<Rightarrow> book_level" where
  "level_new bp = \<lparr>lv_price = bp, lv_orders = []\<rparr>"

definition level_add :: "book_level \<Rightarrow> book_order \<Rightarrow> book_level" where
  "level_add l ord =
     (if \<not> quantity_is_positive (bo_size ord) then l
      else l\<lparr>lv_orders := im_insert (bo_order_id ord) ord (lv_orders l)\<rparr>)"

definition level_from_order :: "book_order \<Rightarrow> book_level panics" where
  "level_from_order ord =
     map_option (\<lambda>bp. level_add \<lparr>lv_price = bp, lv_orders = []\<rparr> ord) (to_book_price ord)"

definition level_side :: "book_level \<Rightarrow> order_side_specified" where
  "level_side l = bp_side (lv_price l)"

definition level_len :: "book_level \<Rightarrow> nat" where
  "level_len l = length (lv_orders l)"

definition level_is_empty :: "book_level \<Rightarrow> bool" where
  "level_is_empty l \<longleftrightarrow> lv_orders l = []"

definition level_first :: "book_level \<Rightarrow> book_order option" where
  "level_first l = (case lv_orders l of [] \<Rightarrow> None | (_, ord) # _ \<Rightarrow> Some ord)"

definition level_get_orders :: "book_level \<Rightarrow> book_order list" where
  "level_get_orders l = im_values (lv_orders l)"

text \<open>The sum of the sizes, in \<open>u128\<close> arithmetic.\<close>

definition level_size_raw :: "book_level \<Rightarrow> nat" where
  "level_size_raw l =
     foldl (\<lambda>acc ord. wrap_u 128 (acc + q_raw (bo_size ord))) 0 (im_values (lv_orders l))"

fun level_add_bulk :: "book_level \<Rightarrow> book_order list \<Rightarrow> book_level" where
  "level_add_bulk l [] = l"
| "level_add_bulk l (ord # ords) = level_add_bulk (level_add l ord) ords"

definition level_update :: "book_level \<Rightarrow> book_order \<Rightarrow> book_level" where
  "level_update l ord =
     (if q_raw (bo_size ord) = 0
      then l\<lparr>lv_orders := shift_remove (bo_order_id ord) (lv_orders l)\<rparr>
      else l\<lparr>lv_orders := im_insert (bo_order_id ord) ord (lv_orders l)\<rparr>)"

definition level_delete :: "book_level \<Rightarrow> book_order \<Rightarrow> book_level" where
  "level_delete l ord = l\<lparr>lv_orders := shift_remove (bo_order_id ord) (lv_orders l)\<rparr>"

definition level_remove_by_id :: "book_level \<Rightarrow> u64 \<Rightarrow> book_level panics" where
  "level_remove_by_id l oid =
     (if im_get (lv_orders l) oid = None then None
      else Some (l\<lparr>lv_orders := shift_remove oid (lv_orders l)\<rparr>))"

text \<open>Well-formed levels: the entries are keyed by their own identifiers, distinct, of the
  price and side of the level, and of non-zero size.\<close>

definition order_at :: "book_price \<Rightarrow> book_order \<Rightarrow> bool" where
  "order_at bp ord \<longleftrightarrow> p_raw (bo_price ord) = p_raw (bp_value bp) \<and>
     as_specified (bo_side ord) = Some (bp_side bp) \<and> q_raw (bo_size ord) \<noteq> 0"

definition level_wf :: "book_level \<Rightarrow> bool" where
  "level_wf l \<longleftrightarrow> im_wf (lv_orders l) \<and>
     (\<forall>(k, ord) \<in> set (lv_orders l). bo_order_id ord = k \<and> order_at (lv_price l) ord)"

abbreviation level_ids :: "book_level \<Rightarrow> u64 set" where
  "level_ids l \<equiv> set (im_keys (lv_orders l))"

lemma positive_not_zero: "quantity_is_positive q \<Longrightarrow> q_raw q \<noteq> 0"
  by (simp add: quantity_is_positive_def)

lemma level_price_frame [simp]:
  "lv_price (level_add l ord) = lv_price l"
  "lv_price (level_update l ord) = lv_price l"
  "lv_price (level_delete l ord) = lv_price l"
  by (simp_all add: level_add_def level_update_def level_delete_def)

lemma level_ids_simps [simp]:
  "level_ids (level_add l ord) =
     (if quantity_is_positive (bo_size ord) then insert (bo_order_id ord) (level_ids l) else level_ids l)"
  "level_ids (level_delete l ord) = level_ids l - {bo_order_id ord}"
  "level_ids (level_update l ord) =
     (if q_raw (bo_size ord) = 0 then level_ids l - {bo_order_id ord}
      else insert (bo_order_id ord) (level_ids l))"
  by (auto simp: level_add_def level_delete_def level_update_def im_keys_insert im_keys_remove)

lemma level_get_orders_simps:
  "im_wf (lv_orders l) \<Longrightarrow> im_get (lv_orders (level_add l ord)) j =
     (if quantity_is_positive (bo_size ord) \<and> j = bo_order_id ord then Some ord else im_get (lv_orders l) j)"
  "im_wf (lv_orders l) \<Longrightarrow> im_get (lv_orders (level_delete l ord)) j =
     (if j = bo_order_id ord then None else im_get (lv_orders l) j)"
  "im_wf (lv_orders l) \<Longrightarrow> im_get (lv_orders (level_update l ord)) j =
     (if j = bo_order_id ord then (if q_raw (bo_size ord) = 0 then None else Some ord)
      else im_get (lv_orders l) j)"
  by (auto simp: level_add_def level_delete_def level_update_def im.lookup_put im.lookup_del)

lemma level_wf_im: "level_wf l \<Longrightarrow> im_wf (lv_orders l)"
  by (simp add: level_wf_def)

lemma level_wf_insert:
  "level_wf l \<Longrightarrow> order_at (lv_price l) ord \<Longrightarrow>
     level_wf (l\<lparr>lv_orders := im_insert (bo_order_id ord) ord (lv_orders l)\<rparr>)"
  by (auto simp: level_wf_def im.invar_put set_im_insert)

lemma level_wf_remove:
  "level_wf l \<Longrightarrow> level_wf (l\<lparr>lv_orders := shift_remove k (lv_orders l)\<rparr>)"
  by (auto simp: level_wf_def im.invar_del set_shift_remove)

lemma level_wf_add [book_intros]:
  "level_wf l \<Longrightarrow> (quantity_is_positive (bo_size ord) \<Longrightarrow> order_at (lv_price l) ord) \<Longrightarrow>
     level_wf (level_add l ord)"
  by (simp add: level_add_def level_wf_insert)

lemma level_wf_update [book_intros]:
  "level_wf l \<Longrightarrow> (q_raw (bo_size ord) \<noteq> 0 \<Longrightarrow> order_at (lv_price l) ord) \<Longrightarrow>
     level_wf (level_update l ord)"
  by (simp add: level_update_def level_wf_insert level_wf_remove)

lemma level_wf_delete [book_intros]: "level_wf l \<Longrightarrow> level_wf (level_delete l ord)"
  by (simp add: level_delete_def level_wf_remove)

lemma level_wf_new [simp]: "level_wf \<lparr>lv_price = bp, lv_orders = []\<rparr>"
  by (simp add: level_wf_def)

lemma level_wf_get:
  "level_wf l \<Longrightarrow> im_get (lv_orders l) k = Some ord \<Longrightarrow> bo_order_id ord = k \<and> order_at (lv_price l) ord"
  by (auto simp: level_wf_def im_get_pair)

text \<open>Queue position: replacing an order that is already queued leaves every identifier where
  it was; a new order goes to the back.\<close>

lemma level_update_keeps_queue:
  assumes "bo_order_id ord \<in> level_ids l" and "q_raw (bo_size ord) \<noteq> 0"
  shows "im_keys (lv_orders (level_update l ord)) = im_keys (lv_orders l)"
  using assms by (simp add: level_update_def im_keys_insert)

lemma level_add_back_of_queue:
  assumes "bo_order_id ord \<notin> level_ids l" and "quantity_is_positive (bo_size ord)"
  shows "level_get_orders (level_add l ord) = level_get_orders l @ [ord]"
  using assms by (simp add: level_add_def level_get_orders_def im_insert_fresh im_values_def)

end
