(* ===== verification/Book_Ladder.thy ===== *)
theory Book_Ladder
  imports Book_Level
begin

text \<open>
  \<open>BookLadder\<close> (\<open>crates/model/src/orderbook/ladder.rs\<close>): one side of an order book, a
  \<open>BTreeMap\<close> from price to level with a cache from order identifier to price.

  Looking a key up in a non-empty tree compares it with a stored key, and that comparison
  panics when the sides differ; the keys stored in one tree all have the same side (part of
  the invariant below), so the comparison with the first stored key decides.

  \<open>ladder_inv\<close> is what the debug assertions of the source state and more: levels in
  price priority, no empty level, and a cache that maps exactly the queued identifiers to
  their levels. The lemmas show that every operation keeps it, never panics on orders of the
  ladder's own side, and acts on the map from identifiers to orders as an update, a removal
  or the identity.
\<close>

datatype l1_batch_state = BatchNone | MbpBatch | SnapshotBatch

record book_ladder =
  ld_side :: order_side_specified
  ld_book_type :: book_type
  ld_levels :: "(book_price, book_level) btree_map"
  ld_cache :: "u64 \<rightharpoonup> book_price"
  ld_batch_state :: l1_batch_state

section \<open>Access to the tree of levels\<close>

definition cross_side :: "(book_price, book_level) btree_map \<Rightarrow> book_price \<Rightarrow> bool" where
  "cross_side m k = (case m of [] \<Rightarrow> False | (j, _) # _ \<Rightarrow> book_price_cmp k j = None)"

definition levels_get :: "(book_price, book_level) btree_map \<Rightarrow> book_price \<Rightarrow> book_level option panics" where
  "levels_get m k = (if cross_side m k then None else Some (bt_get rank m k))"

definition levels_put ::
  "book_price \<Rightarrow> book_level \<Rightarrow> (book_price, book_level) btree_map \<Rightarrow> (book_price, book_level) btree_map panics" where
  "levels_put k l m = (if cross_side m k then None else Some (bt_insert rank k l m))"

definition levels_remove ::
  "book_price \<Rightarrow> (book_price, book_level) btree_map \<Rightarrow> (book_price, book_level) btree_map panics" where
  "levels_remove k m = (if cross_side m k then None else Some (bt_remove rank k m))"

section \<open>Operations\<close>

definition ladder_new :: "order_side_specified \<Rightarrow> book_type \<Rightarrow> book_ladder" where
  "ladder_new side bt = \<lparr>ld_side = side, ld_book_type = bt, ld_levels = [],
     ld_cache = Map.empty, ld_batch_state = BatchNone\<rparr>"

definition ladder_len :: "book_ladder \<Rightarrow> nat" where
  "ladder_len l = length (ld_levels l)"

definition ladder_is_empty :: "book_ladder \<Rightarrow> bool" where
  "ladder_is_empty l \<longleftrightarrow> ld_levels l = []"

definition ladder_clear :: "book_ladder \<Rightarrow> book_ladder" where
  "ladder_clear l = l\<lparr>ld_levels := [], ld_cache := Map.empty, ld_batch_state := BatchNone\<rparr>"

definition cache_level :: "(u64 \<rightharpoonup> book_price) \<Rightarrow> book_price \<times> book_level \<Rightarrow> (u64 \<rightharpoonup> book_price)" where
  "cache_level c e = foldl (\<lambda>c oid. c(oid \<mapsto> fst e)) c (im_keys (lv_orders (snd e)))"

definition retain_best_only :: "book_ladder \<Rightarrow> book_ladder" where
  "retain_best_only l =
     (if length (ld_levels l) \<le> 1 then l
      else case bt_keys (ld_levels l) of
          [] \<Rightarrow> l
        | best_price # _ \<Rightarrow>
            let kept = filter (\<lambda>(bp, _). book_price_eq bp best_price) (ld_levels l)
            in l\<lparr>ld_levels := kept, ld_cache := foldl cache_level Map.empty kept\<rparr>)"

definition handle_l1_add :: "book_ladder \<Rightarrow> book_order \<Rightarrow> u8 \<Rightarrow> bool \<times> book_ladder" where
  "handle_l1_add l ord flags =
     (if \<not> quantity_is_positive (bo_size ord) then (False, ladder_clear l)
      else let is_mbp = flag_matches F_MBP flags;
               is_snapshot = flag_matches F_SNAPSHOT flags;
               is_last = flag_matches F_LAST flags
           in (True,
               if is_snapshot \<and> is_last then
                 (if ld_batch_state l \<noteq> SnapshotBatch then ladder_clear l else l)
               else if is_snapshot then
                 (if ld_batch_state l \<noteq> SnapshotBatch
                  then (ladder_clear l)\<lparr>ld_batch_state := SnapshotBatch\<rparr> else l)
               else if is_mbp \<and> is_last then
                 (if ld_batch_state l \<noteq> MbpBatch then ladder_clear l else l)
               else if is_mbp then (ladder_clear l)\<lparr>ld_batch_state := MbpBatch\<rparr>
               else ladder_clear l))"

text \<open>The insertion of an order at its level, common to the book types.\<close>

definition ladder_place :: "book_ladder \<Rightarrow> book_order \<Rightarrow> book_ladder panics" where
  "ladder_place l ord = do {
     bp \<leftarrow> to_book_price ord;
     found \<leftarrow> levels_get (ld_levels l) bp;
     levels \<leftarrow> (case found of
         Some lev \<Rightarrow> levels_put bp (level_add lev ord) (ld_levels l)
       | None \<Rightarrow> do { lev \<leftarrow> level_from_order ord; levels_put bp lev (ld_levels l) });
     Some (l\<lparr>ld_levels := levels, ld_cache := (ld_cache l)(bo_order_id ord \<mapsto> bp)\<rparr>)
   }"

definition ladder_add :: "book_ladder \<Rightarrow> book_order \<Rightarrow> u8 \<Rightarrow> book_ladder panics" where
  "ladder_add l0 ord flags =
     (let (continue, l) =
        (if ld_book_type l0 = L1_MBP then handle_l1_add l0 ord flags else (True, l0))
      in if \<not> continue then Some l
         else if ld_book_type l \<noteq> L1_MBP \<and> \<not> quantity_is_positive (bo_size ord) then Some l
         else do {
           l' \<leftarrow> ladder_place l ord;
           let is_batch = flag_matches F_MBP flags \<or> flag_matches F_SNAPSHOT flags;
           Some (if ld_book_type l' = L1_MBP \<and> is_batch then
                   (let l'' = retain_best_only l'
                    in if flag_matches F_LAST flags then l''\<lparr>ld_batch_state := BatchNone\<rparr> else l'')
                 else l')
         })"

definition ladder_update :: "book_ladder \<Rightarrow> book_order \<Rightarrow> u8 \<Rightarrow> book_ladder panics" where
  "ladder_update l ord flags =
     (let oid = bo_order_id ord;
          add_if_positive = (\<lambda>l. if quantity_is_positive (bo_size ord) then ladder_add l ord flags else Some l)
      in case ld_cache l oid of
        None \<Rightarrow> add_if_positive l
      | Some price \<Rightarrow> do {
          found \<leftarrow> levels_get (ld_levels l) price;
          (case found of
             None \<Rightarrow> add_if_positive l
           | Some lev \<Rightarrow>
               if p_raw (bo_price ord) = p_raw (bp_value (lv_price lev)) then do {
                 let lev' = level_update lev ord;
                 let cache = (if q_raw (bo_size ord) = 0 then (ld_cache l)(oid := None) else ld_cache l);
                 levels \<leftarrow> (if level_is_empty lev' then levels_remove price (ld_levels l)
                            else levels_put price lev' (ld_levels l));
                 Some (l\<lparr>ld_levels := levels, ld_cache := cache\<rparr>)
               }
               else do {
                 let lev' = level_delete lev ord;
                 levels \<leftarrow> (if level_is_empty lev' then levels_remove price (ld_levels l)
                            else levels_put price lev' (ld_levels l));
                 add_if_positive (l\<lparr>ld_levels := levels, ld_cache := (ld_cache l)(oid := None)\<rparr>)
               })
        })"

definition ladder_remove_order :: "book_ladder \<Rightarrow> u64 \<Rightarrow> book_ladder panics" where
  "ladder_remove_order l oid =
     (case ld_cache l oid of
        None \<Rightarrow> Some l
      | Some price \<Rightarrow> do {
          found \<leftarrow> levels_get (ld_levels l) price;
          (case found of
             None \<Rightarrow> Some l
           | Some lev \<Rightarrow>
               if im_get (lv_orders lev) oid = None then Some l
               else do {
                 lev' \<leftarrow> level_remove_by_id lev oid;
                 levels \<leftarrow> (if level_is_empty lev' then levels_remove price (ld_levels l)
                            else levels_put price lev' (ld_levels l));
                 Some (l\<lparr>ld_levels := levels, ld_cache := (ld_cache l)(oid := None)\<rparr>)
               })
        })"

definition ladder_delete :: "book_ladder \<Rightarrow> book_order \<Rightarrow> book_ladder panics" where
  "ladder_delete l ord = ladder_remove_order l (bo_order_id ord)"

definition ladder_remove_level :: "book_ladder \<Rightarrow> book_price \<Rightarrow> (book_level option \<times> book_ladder) panics" where
  "ladder_remove_level l price = do {
     found \<leftarrow> levels_get (ld_levels l) price;
     (case found of
        None \<Rightarrow> Some (None, l)
      | Some lev \<Rightarrow> do {
          levels \<leftarrow> levels_remove price (ld_levels l);
          Some (Some lev, l\<lparr>ld_levels := levels,
            ld_cache := foldl (\<lambda>c oid. c(oid := None)) (ld_cache l) (im_keys (lv_orders lev))\<rparr>)
        })
   }"

definition ladder_top :: "book_ladder \<Rightarrow> book_level option" where
  "ladder_top l = (case ld_levels l of [] \<Rightarrow> None | (_, lev) # _ \<Rightarrow> Some lev)"

text \<open>
  \<open>simulate_fills\<close>: the loop over the orders of one level either returns the fills
  (\<open>Inl\<close>) or continues with the fills so far and the cumulated size (\<open>Inr\<close>).
\<close>

fun fill_orders ::
  "quantity \<Rightarrow> book_order list \<Rightarrow> (price \<times> quantity) list \<Rightarrow> quantity \<Rightarrow>
   ((price \<times> quantity) list + (price \<times> quantity) list \<times> quantity) panics" where
  "fill_orders target [] fills cum = Some (Inr (fills, cum))"
| "fill_orders target (bo # bos) fills cum = do {
     total \<leftarrow> quantity_add cum (bo_size bo);
     if q_raw total \<ge> q_raw target then do {
       remainder \<leftarrow> quantity_sub target cum;
       Some (Inl (if quantity_is_positive remainder then fills @ [(bo_price bo, remainder)] else fills))
     }
     else fill_orders target bos (fills @ [(bo_price bo, bo_size bo)]) total
   }"

fun fill_levels ::
  "bool \<Rightarrow> price \<Rightarrow> quantity \<Rightarrow> book_level list \<Rightarrow> (price \<times> quantity) list \<Rightarrow> quantity \<Rightarrow>
   (price \<times> quantity) list panics" where
  "fill_levels is_reversed limit target [] fills cum = Some fills"
| "fill_levels is_reversed limit target (lev # levs) fills cum =
     (if is_reversed \<and> p_raw (bp_value (lv_price lev)) < p_raw limit
         \<or> \<not> is_reversed \<and> p_raw (bp_value (lv_price lev)) > p_raw limit
      then Some fills
      else do {
        r \<leftarrow> fill_orders target (im_values (lv_orders lev)) fills cum;
        (case r of
           Inl done \<Rightarrow> Some done
         | Inr (fills', cum') \<Rightarrow> fill_levels is_reversed limit target levs fills' cum')
      })"

definition ladder_simulate_fills :: "book_ladder \<Rightarrow> book_order \<Rightarrow> (price \<times> quantity) list panics" where
  "ladder_simulate_fills l ord = do {
     cum \<leftarrow> quantity_zero (q_prec (bo_size ord));
     fill_levels (ld_side l = SBuy) (bo_price ord) (bo_size ord) (bt_values (ld_levels l)) [] cum
   }"

section \<open>The invariant\<close>

definition levels_wf :: "order_side_specified \<Rightarrow> (book_price, book_level) btree_map \<Rightarrow> bool" where
  "levels_wf side m \<longleftrightarrow> bt_wf rank m \<and>
     (\<forall>(k, lev) \<in> set m. bp_side k = side \<and> lv_price lev = k \<and> level_wf lev \<and> lv_orders lev \<noteq> [])"

text \<open>The identifiers queued at the level of a rank.\<close>

definition ids_at :: "(book_price, book_level) btree_map \<Rightarrow> int \<Rightarrow> u64 set" where
  "ids_at m r = {oid. \<exists>(k, lev) \<in> set m. rank k = r \<and> oid \<in> level_ids lev}"

definition cache_ok :: "order_side_specified \<Rightarrow> (book_price, book_level) btree_map \<Rightarrow> (u64 \<rightharpoonup> book_price) \<Rightarrow> bool" where
  "cache_ok side m c \<longleftrightarrow>
     (\<forall>oid r. oid \<in> ids_at m r \<longleftrightarrow> map_option rank (c oid) = Some r) \<and>
     (\<forall>oid bp. c oid = Some bp \<longrightarrow> bp_side bp = side)"

definition ladder_inv :: "book_ladder \<Rightarrow> bool" where
  "ladder_inv l \<longleftrightarrow> levels_wf (ld_side l) (ld_levels l) \<and>
     cache_ok (ld_side l) (ld_levels l) (ld_cache l) \<and>
     (ld_book_type l = L1_MBP \<longrightarrow> length (ld_levels l) \<le> 1)"

text \<open>The abstract view of a ladder: the orders by identifier, as the cache reaches them.\<close>

definition ladder_orders :: "book_ladder \<Rightarrow> u64 \<rightharpoonup> book_order" where
  "ladder_orders l oid =
     Option.bind (ld_cache l oid) (\<lambda>bp.
       Option.bind (bt_get rank (ld_levels l) bp) (\<lambda>lev. im_get (lv_orders lev) oid))"

text \<open>The order is of the ladder's side.\<close>

definition on_side :: "book_ladder \<Rightarrow> book_order \<Rightarrow> bool" where
  "on_side l ord \<longleftrightarrow> as_specified (bo_side ord) = Some (ld_side l)"

text \<open>The identifier of the order is not queued, or queued at the price of the order.\<close>

definition fresh_or_same :: "book_ladder \<Rightarrow> book_order \<Rightarrow> bool" where
  "fresh_or_same l ord \<longleftrightarrow>
     (\<forall>bp. ld_cache l (bo_order_id ord) = Some bp \<longrightarrow> p_raw (bp_value bp) = p_raw (bo_price ord))"

lemma levels_wfD:
  assumes "levels_wf side m"
  shows "bt_wf rank m"
    and "(k, lev) \<in> set m \<Longrightarrow> bp_side k = side \<and> lv_price lev = k \<and> level_wf lev \<and> lv_orders lev \<noteq> []"
  using assms by (auto simp: levels_wf_def)

lemma levels_wf_Nil [simp]: "levels_wf side []"
  by (simp add: levels_wf_def)

lemma cross_side_wf: "levels_wf side m \<Longrightarrow> bp_side k = side \<Longrightarrow> \<not> cross_side m k"
  by (auto simp: cross_side_def levels_wf_def book_price_cmp_def split: list.splits)

lemma levels_access [simp]:
  assumes "levels_wf side m" and "bp_side k = side"
  shows "levels_get m k = Some (bt_get rank m k)"
    and "levels_put k lev m = Some (bt_insert rank k lev m)"
    and "levels_remove k m = Some (bt_remove rank k m)"
  using cross_side_wf [OF assms] by (simp_all add: levels_get_def levels_put_def levels_remove_def)

lemma bt_get_level:
  assumes "levels_wf side m" and "bt_get rank m bp = Some lev"
  shows "(lv_price lev, lev) \<in> set m \<and> rank (lv_price lev) = rank bp \<and> bp_side (lv_price lev) = side \<and>
    level_wf lev \<and> lv_orders lev \<noteq> []"
  using assms bt_get_iff [OF levels_wfD(1) [OF assms(1)], of bp lev]
  by (auto dest: levels_wfD(2) [OF assms(1)])

lemma ids_at_get:
  assumes "levels_wf side m"
  shows "ids_at m (rank bp) = (case bt_get rank m bp of None \<Rightarrow> {} | Some lev \<Rightarrow> level_ids lev)"
proof -
  have "ids_at m (rank bp) = {oid. \<exists>lev. bt_get rank m bp = Some lev \<and> oid \<in> level_ids lev}"
    unfolding ids_at_def bt_get_iff [OF levels_wfD(1) [OF assms]] by blast
  then show ?thesis by (simp split: option.split)
qed

lemma rank_eq_raw: "bp_side a = bp_side b \<Longrightarrow> rank a = rank b \<longleftrightarrow> p_raw (bp_value a) = p_raw (bp_value b)"
  by (auto simp: rank_def split: order_side_specified.splits)

section \<open>Replacing one level\<close>

text \<open>Every operation replaces the level at one price, or removes it when it became empty.\<close>

definition put_level ::
  "book_price \<Rightarrow> book_level \<Rightarrow> (book_price, book_level) btree_map \<Rightarrow> (book_price, book_level) btree_map" where
  "put_level bp lev m = (if lv_orders lev = [] then bt_remove rank bp m else bt_insert rank bp lev m)"

lemma bt_get_put_level:
  "levels_wf side m \<Longrightarrow> bt_get rank (put_level bp lev m) j =
     (if rank j = rank bp then (if lv_orders lev = [] then None else Some lev) else bt_get rank m j)"
  by (simp add: put_level_def bt.lookup_put bt.lookup_del levels_wfD(1))

lemma put_level_wf:
  assumes wf: "levels_wf side m" and new: "level_wf lev" "bp_side (lv_price lev) = side"
    and key: "case bt_get rank m bp of Some old \<Rightarrow> lv_price lev = lv_price old | None \<Rightarrow> lv_price lev = bp"
  shows "levels_wf side (put_level bp lev m)"
proof -
  note bw = levels_wfD(1) [OF wf]
  have "bt_wf rank (put_level bp lev m)"
    by (simp add: put_level_def bt.invar_put bt.invar_del bw)
  moreover have "bp_side k = side \<and> lv_price lv = k \<and> level_wf lv \<and> lv_orders lv \<noteq> []"
    if "(k, lv) \<in> set (put_level bp lev m)" for k lv
  proof (cases "lv_orders lev = []")
    case True
    then have "(k, lv) \<in> set m" using that by (simp add: put_level_def set_bt_remove [OF bw])
    then show ?thesis using levels_wfD(2) [OF wf] by blast
  next
    case False
    have "(k, lv) \<in> insert (lv_price lev, lev) (set m)"
    proof (cases "bt_get rank m bp")
      case None
      with False key that show ?thesis by (simp add: put_level_def set_bt_insert_absent [OF bw])
    next
      case (Some old)
      with bt_get_level [OF wf Some] False key that show ?thesis
        by (auto simp: put_level_def set_bt_insert_present [OF bw, of "lv_price old" old])
    qed
    then show ?thesis using levels_wfD(2) [OF wf] new False by auto
  qed
  ultimately show ?thesis by (auto simp: levels_wf_def)
qed

lemma ids_at_put_level:
  assumes "levels_wf side m" and "levels_wf side (put_level bp lev m)"
  shows "ids_at (put_level bp lev m) (rank j) =
    (if rank j = rank bp then level_ids lev else ids_at m (rank j))"
  using assms by (auto simp: ids_at_get bt_get_put_level split: option.splits)

lemma rank_surj: "\<exists>bp. rank bp = r \<and> bp_side bp = side"
proof (cases side)
  case SBuy
  then show ?thesis by (intro exI [of _ "\<lparr>bp_value = \<lparr>p_raw = - r, p_prec = 0\<rparr>, bp_side = SBuy\<rparr>"]) (simp add: rank_def)
next
  case SSell
  then show ?thesis by (intro exI [of _ "\<lparr>bp_value = \<lparr>p_raw = r, p_prec = 0\<rparr>, bp_side = SSell\<rparr>"]) (simp add: rank_def)
qed

lemma ids_at_put_level':
  assumes "levels_wf side m" and "levels_wf side (put_level bp lev m)"
  shows "ids_at (put_level bp lev m) r = (if r = rank bp then level_ids lev else ids_at m r)"
  using ids_at_put_level [OF assms] rank_surj [of r side] by metis

section \<open>Placing an order\<close>

lemma to_book_price_on_side:
  "on_side l ord \<Longrightarrow> to_book_price ord = Some \<lparr>bp_value = bo_price ord, bp_side = ld_side l\<rparr>"
  by (simp add: to_book_price_def on_side_def)

text \<open>The level an order joins: the level at its price, or a new one.\<close>

definition join_level :: "book_ladder \<Rightarrow> book_price \<Rightarrow> book_order \<Rightarrow> book_level" where
  "join_level l bp ord = level_add
     (case bt_get rank (ld_levels l) bp of Some lev \<Rightarrow> lev | None \<Rightarrow> \<lparr>lv_price = bp, lv_orders = []\<rparr>) ord"

lemma ladder_place_eq:
  assumes "levels_wf (ld_side l) (ld_levels l)" and "on_side l ord"
    and "quantity_is_positive (bo_size ord)"
  defines "bp \<equiv> \<lparr>bp_value = bo_price ord, bp_side = ld_side l\<rparr>"
  shows "ladder_place l ord = Some (l\<lparr>ld_levels := put_level bp (join_level l bp ord) (ld_levels l),
    ld_cache := (ld_cache l)(bo_order_id ord \<mapsto> bp)\<rparr>)"
proof -
  have "bp_side bp = ld_side l" by (simp add: bp_def)
  moreover have "lv_orders (join_level l bp ord) \<noteq> []"
    using assms(3) by (simp add: join_level_def level_add_def)
  moreover have "to_book_price ord = Some bp"
    using to_book_price_on_side [OF assms(2)] by (simp add: bp_def)
  ultimately show ?thesis using assms(1)
    by (simp add: ladder_place_def level_from_order_def put_level_def join_level_def
        split: option.splits)
qed

lemma join_level_wf:
  assumes "levels_wf (ld_side l) (ld_levels l)" and "on_side l ord" and "quantity_is_positive (bo_size ord)"
  defines "bp \<equiv> \<lparr>bp_value = bo_price ord, bp_side = ld_side l\<rparr>"
  shows "level_wf (join_level l bp ord)" and "bp_side (lv_price (join_level l bp ord)) = ld_side l"
    and "case bt_get rank (ld_levels l) bp of
      Some old \<Rightarrow> lv_price (join_level l bp ord) = lv_price old
    | None \<Rightarrow> lv_price (join_level l bp ord) = bp"
    and "level_ids (join_level l bp ord) = insert (bo_order_id ord) (ids_at (ld_levels l) (rank bp))"
    and "lv_orders (join_level l bp ord) \<noteq> []"
proof -
  have side: "as_specified (bo_side ord) = Some (ld_side l)" using assms(2) by (simp add: on_side_def)
  have at: "order_at b ord" if "rank b = rank bp" "bp_side b = ld_side l" for b
    using that side positive_not_zero [OF assms(3)] rank_eq_raw [of b bp]
    by (auto simp: order_at_def bp_def)
  have "level_wf (join_level l bp ord) \<and> bp_side (lv_price (join_level l bp ord)) = ld_side l \<and>
    (case bt_get rank (ld_levels l) bp of
      Some old \<Rightarrow> lv_price (join_level l bp ord) = lv_price old
    | None \<Rightarrow> lv_price (join_level l bp ord) = bp)"
  proof (cases "bt_get rank (ld_levels l) bp")
    case None
    have "order_at bp ord" by (rule at) (simp_all add: bp_def)
    with None show ?thesis by (simp add: join_level_def level_wf_add bp_def)
  next
    case (Some old)
    have "order_at (lv_price old) ord"
      using bt_get_level [OF assms(1) Some] by (intro at) auto
    with Some bt_get_level [OF assms(1) Some] show ?thesis
      by (simp add: join_level_def level_wf_add)
  qed
  then show "level_wf (join_level l bp ord)" "bp_side (lv_price (join_level l bp ord)) = ld_side l"
    "case bt_get rank (ld_levels l) bp of
      Some old \<Rightarrow> lv_price (join_level l bp ord) = lv_price old
    | None \<Rightarrow> lv_price (join_level l bp ord) = bp"
    by auto
  show "level_ids (join_level l bp ord) = insert (bo_order_id ord) (ids_at (ld_levels l) (rank bp))"
    using assms(3) by (simp add: join_level_def ids_at_get [OF assms(1)] split: option.splits)
  show "lv_orders (join_level l bp ord) \<noteq> []"
    using assms(3) by (simp add: join_level_def level_add_def)
qed

lemma ladder_place_levels:
  assumes wf: "levels_wf (ld_side l) (ld_levels l)" and "on_side l ord" and "quantity_is_positive (bo_size ord)"
    and place: "ladder_place l ord = Some l'"
  shows "levels_wf (ld_side l') (ld_levels l')" and "ld_side l' = ld_side l"
    and "ld_book_type l' = ld_book_type l" and "ld_batch_state l' = ld_batch_state l"
  using place ladder_place_eq [OF assms(1-3)] put_level_wf [OF wf join_level_wf(1-3) [OF assms(1-3)]]
  by auto

lemma ladder_place_cache:
  assumes wf: "levels_wf (ld_side l) (ld_levels l)" and "on_side l ord" and "quantity_is_positive (bo_size ord)"
    and cache: "cache_ok (ld_side l) (ld_levels l) (ld_cache l)" and fresh: "fresh_or_same l ord"
    and place: "ladder_place l ord = Some l'"
  shows "cache_ok (ld_side l') (ld_levels l') (ld_cache l')"
proof -
  define bp where "bp = \<lparr>bp_value = bo_price ord, bp_side = ld_side l\<rparr>"
  let ?m = "put_level bp (join_level l bp ord) (ld_levels l)"
  have l': "l' = l\<lparr>ld_levels := ?m, ld_cache := (ld_cache l)(bo_order_id ord \<mapsto> bp)\<rparr>"
    using ladder_place_eq [OF assms(1-3)] place by (simp add: bp_def)
  have wf': "levels_wf (ld_side l) ?m"
    using ladder_place_levels [OF assms(1-3) place] l' by simp
  have same: "r = rank bp" if "bo_order_id ord \<in> ids_at (ld_levels l) r" for r
  proof -
    have "map_option rank (ld_cache l (bo_order_id ord)) = Some r"
      using that cache by (simp only: cache_ok_def)
    then obtain b where b: "ld_cache l (bo_order_id ord) = Some b" "rank b = r" by auto
    moreover have "bp_side b = ld_side l" using b(1) cache by (simp add: cache_ok_def)
    ultimately show ?thesis using fresh rank_eq_raw [of b bp] by (auto simp: fresh_or_same_def bp_def)
  qed
  have ids: "ids_at ?m r = (if r = rank bp then insert (bo_order_id ord) (ids_at (ld_levels l) r)
      else ids_at (ld_levels l) r)" for r
    using join_level_wf(4) [OF assms(1-3)] by (simp add: ids_at_put_level' [OF wf wf'] flip: bp_def)
  have "oid \<in> ids_at ?m r \<longleftrightarrow> map_option rank (((ld_cache l)(bo_order_id ord \<mapsto> bp)) oid) = Some r" for oid r
  proof (cases "oid = bo_order_id ord")
    case True
    then show ?thesis using same [of r] by (auto simp: ids)
  next
    case False
    then have "oid \<in> ids_at ?m r \<longleftrightarrow> oid \<in> ids_at (ld_levels l) r" by (simp add: ids)
    with False cache show ?thesis by (simp add: cache_ok_def)
  qed
  then show ?thesis using cache by (auto simp: cache_ok_def l' bp_def)
qed

lemma ladder_place_orders:
  assumes wf: "levels_wf (ld_side l) (ld_levels l)" and "on_side l ord" and "quantity_is_positive (bo_size ord)"
    and place: "ladder_place l ord = Some l'"
  shows "ladder_orders l' = (ladder_orders l)(bo_order_id ord \<mapsto> ord)"
proof
  fix j
  define bp where "bp = \<lparr>bp_value = bo_price ord, bp_side = ld_side l\<rparr>"
  let ?m = "put_level bp (join_level l bp ord) (ld_levels l)"
  have l': "l' = l\<lparr>ld_levels := ?m, ld_cache := (ld_cache l)(bo_order_id ord \<mapsto> bp)\<rparr>"
    using ladder_place_eq [OF assms(1-3)] place by (simp add: bp_def)
  note get = bt_get_put_level [OF wf, of bp "join_level l bp ord"]
  have join: "im_get (lv_orders (join_level l bp ord)) i =
    (if i = bo_order_id ord then Some ord
     else Option.bind (bt_get rank (ld_levels l) bp) (\<lambda>lev. im_get (lv_orders lev) i))" for i
    using assms(3) bt_get_level [OF wf, of bp]
    by (auto simp: join_level_def level_get_orders_simps level_wf_im split: option.splits)
  show "ladder_orders l' j = ((ladder_orders l)(bo_order_id ord \<mapsto> ord)) j"
  proof (cases "j = bo_order_id ord")
    case True
    then show ?thesis using join_level_wf(5) [OF assms(1-3)]
      by (simp add: ladder_orders_def l' get join flip: bp_def)
  next
    case False
    then show ?thesis
    proof (cases "ld_cache l j")
      case (Some b)
      have "bt_get rank (ld_levels l) b = bt_get rank (ld_levels l) bp" if "rank b = rank bp"
        using that by (rule bt_get_rank_cong)
      with False Some show ?thesis using join_level_wf(5) [OF assms(1-3)]
        by (simp add: ladder_orders_def l' get join flip: bp_def)
    qed (simp add: ladder_orders_def l')
  qed
qed

section \<open>Clearing and keeping the best level\<close>

lemma ladder_inv_levels: "ladder_inv l \<Longrightarrow> levels_wf (ld_side l) (ld_levels l)"
  by (simp add: ladder_inv_def)

lemma cache_ok_Nil [simp]: "cache_ok side [] Map.empty"
  by (simp add: cache_ok_def ids_at_def)

lemma ladder_inv_new [simp]: "ladder_inv (ladder_new side bt)"
  by (simp add: ladder_inv_def ladder_new_def)

lemma ladder_inv_clear [simp]: "ladder_inv (ladder_clear l)"
  by (simp add: ladder_inv_def ladder_clear_def)

lemma ladder_inv_batch [simp]: "ladder_inv (l\<lparr>ld_batch_state := b\<rparr>) = ladder_inv l"
  by (simp add: ladder_inv_def)

lemma ladder_clear_frame [simp]:
  "ld_side (ladder_clear l) = ld_side l" "ld_book_type (ladder_clear l) = ld_book_type l"
  "ld_levels (ladder_clear l) = []" "ld_cache (ladder_clear l) = Map.empty"
  by (simp_all add: ladder_clear_def)

lemma cache_level_eq:
  "cache_level c (k, lev) = (\<lambda>oid. if oid \<in> level_ids lev then Some k else c oid)"
proof -
  have "foldl (\<lambda>c oid. c(oid \<mapsto> k)) c ids = (\<lambda>oid. if oid \<in> set ids then Some k else c oid)" for ids
    by (induction ids arbitrary: c) auto
  then show ?thesis by (simp add: cache_level_def)
qed

lemma filter_best:
  assumes "levels_wf side ((k, lev) # rest)"
  shows "filter (\<lambda>(bp, _). book_price_eq bp k) ((k, lev) # rest) = [(k, lev)]"
proof -
  have "\<not> book_price_eq (fst e) k" if "e \<in> set rest" for e
  proof -
    have "rank k < rank (fst e)" "bp_side (fst e) = bp_side k"
      using assms that by (auto simp: levels_wf_def split: prod.splits)
    then show ?thesis by (simp add: book_price_eq_rank)
  qed
  then have "filter (\<lambda>(bp, _). book_price_eq bp k) rest = []"
    by (auto simp: filter_empty_conv)
  then show ?thesis by (simp add: book_price_eq_def)
qed

lemma retain_best_only_eq:
  assumes "levels_wf (ld_side l) (ld_levels l)" and "1 < length (ld_levels l)"
  shows "\<exists>k lev rest. ld_levels l = (k, lev) # rest \<and>
    retain_best_only l = l\<lparr>ld_levels := [(k, lev)], ld_cache := cache_level Map.empty (k, lev)\<rparr>"
proof -
  obtain k lev rest where m: "ld_levels l = (k, lev) # rest"
    using assms(2) by (cases "ld_levels l") auto
  with assms filter_best [of "ld_side l" k lev rest] show ?thesis
    by (auto simp: retain_best_only_def bt_keys_def Let_def)
qed

lemma retain_best_only_frame [simp]:
  "ld_side (retain_best_only l) = ld_side l" "ld_book_type (retain_best_only l) = ld_book_type l"
  by (simp_all add: retain_best_only_def Let_def split: list.split)

lemma cache_ok_single:
  assumes "levels_wf side [(k, lev)]"
  shows "cache_ok side [(k, lev)] (cache_level Map.empty (k, lev))"
  using assms by (auto simp: cache_ok_def ids_at_def cache_level_eq levels_wf_def)

lemma retain_best_only_inv:
  assumes "levels_wf (ld_side l) (ld_levels l)"
    and "length (ld_levels l) \<le> 1 \<Longrightarrow> cache_ok (ld_side l) (ld_levels l) (ld_cache l)"
  shows "ladder_inv (retain_best_only l)"
proof (cases "length (ld_levels l) \<le> 1")
  case True
  then have "retain_best_only l = l" by (simp add: retain_best_only_def)
  with True assms show ?thesis by (simp add: ladder_inv_def)
next
  case False
  then obtain k lev rest where m: "ld_levels l = (k, lev) # rest"
    and r: "retain_best_only l = l\<lparr>ld_levels := [(k, lev)], ld_cache := cache_level Map.empty (k, lev)\<rparr>"
    using retain_best_only_eq [OF assms(1)] by auto
  have "levels_wf (ld_side l) [(k, lev)]" using assms(1) m by (simp add: levels_wf_def)
  with cache_ok_single show ?thesis by (simp add: ladder_inv_def r)
qed

section \<open>Adding\<close>

lemma handle_l1_add_cases:
  assumes "handle_l1_add l ord flags = (c, l1)"
  shows "c = quantity_is_positive (bo_size ord)" and "ld_side l1 = ld_side l"
    and "ld_book_type l1 = ld_book_type l"
    and "ld_levels l1 = ld_levels l \<and> ld_cache l1 = ld_cache l \<and> c \<and>
        (flag_matches F_MBP flags \<or> flag_matches F_SNAPSHOT flags) \<or>
      ld_levels l1 = [] \<and> ld_cache l1 = Map.empty"
  using assms by (auto simp: handle_l1_add_def Let_def split: if_splits)

lemma handle_l1_add_inv:
  "ladder_inv l \<Longrightarrow> ladder_inv (snd (handle_l1_add l ord flags))"
  by (auto simp: handle_l1_add_def Let_def)

lemma single_level_fresh:
  assumes inv: "ladder_inv l" and l1: "ld_book_type l = L1_MBP" and on: "on_side l ord"
    and pos: "quantity_is_positive (bo_size ord)" and place: "ladder_place l ord = Some l'"
    and len: "length (ld_levels l') \<le> 1"
  shows "fresh_or_same l ord"
proof -
  define bp where "bp = \<lparr>bp_value = bo_price ord, bp_side = ld_side l\<rparr>"
  note wf = ladder_inv_levels [OF inv]
  have "p_raw (bp_value b) = p_raw (bo_price ord)" if b: "ld_cache l (bo_order_id ord) = Some b" for b
  proof -
    have side: "bp_side b = bp_side bp" using inv b by (simp add: ladder_inv_def cache_ok_def bp_def)
    have "bo_order_id ord \<in> ids_at (ld_levels l) (rank b)"
      using inv b by (simp add: ladder_inv_def cache_ok_def)
    then obtain k lev where k: "(k, lev) \<in> set (ld_levels l)" "rank k = rank b"
      by (auto simp: ids_at_def)
    with inv l1 have m: "ld_levels l = [(k, lev)]"
      by (auto simp: ladder_inv_def le_Suc_eq length_Suc_conv)
    have "rank bp = rank k"
    proof (rule ccontr)
      assume "rank bp \<noteq> rank k"
      then have "length (ld_levels l') = 2"
        using ladder_place_eq [OF wf on pos] place join_level_wf(5) [OF wf on pos]
        by (auto simp: put_level_def m simp flip: bp_def)
      with len show False by simp
    qed
    then have "p_raw (bp_value b) = p_raw (bp_value bp)" using k(2) side rank_eq_raw [of b bp] by simp
    then show ?thesis by (simp add: bp_def)
  qed
  then show ?thesis by (simp add: fresh_or_same_def)
qed

lemma ladder_place_inv:
  assumes inv: "ladder_inv l" and on: "on_side l ord" and pos: "quantity_is_positive (bo_size ord)"
    and fresh: "fresh_or_same l ord" and place: "ladder_place l ord = Some l'"
    and l1: "ld_book_type l = L1_MBP \<Longrightarrow> length (ld_levels l') \<le> 1"
  shows "ladder_inv l'"
  using ladder_place_levels [OF ladder_inv_levels [OF inv] on pos place] l1
    ladder_place_cache [OF ladder_inv_levels [OF inv] on pos _ fresh place] inv
  by (simp add: ladder_inv_def)

lemma on_side_cong: "ld_side l' = ld_side l \<Longrightarrow> on_side l' ord = on_side l ord"
  by (simp add: on_side_def)

lemma ladder_place_total:
  assumes "levels_wf (ld_side l) (ld_levels l)" and "on_side l ord" and "quantity_is_positive (bo_size ord)"
  shows "\<exists>l'. ladder_place l ord = Some l'"
  using ladder_place_eq [OF assms] by blast

lemma ladder_place_from_empty:
  assumes "ld_levels l = []" and "on_side l ord" and "quantity_is_positive (bo_size ord)"
    and "ladder_place l ord = Some l'"
  shows "\<exists>lev. ld_levels l' = [(\<lparr>bp_value = bo_price ord, bp_side = ld_side l\<rparr>, lev)] \<and>
    lv_orders lev = [(bo_order_id ord, ord)]"
  using assms ladder_place_eq [OF _ assms(2,3)]
  by (auto simp: put_level_def join_level_def level_add_def im_insert_def split: if_splits)

lemma ladder_add_other:
  assumes "ld_book_type l \<noteq> L1_MBP"
  shows "ladder_add l ord flags =
    (if quantity_is_positive (bo_size ord) then ladder_place l ord else Some l)"
proof -
  have "ladder_place l ord = Some l' \<Longrightarrow> ld_book_type l' = ld_book_type l" for l'
    by (auto simp: ladder_place_def bind_Some_conv)
  then show ?thesis using assms
    by (cases "ladder_place l ord") (auto simp: ladder_add_def)
qed

lemma ladder_add_l1:
  assumes "ld_book_type l = L1_MBP" and "handle_l1_add l ord flags = (c, l1)"
  shows "ladder_add l ord flags =
    (if \<not> quantity_is_positive (bo_size ord) then Some l1
     else Option.bind (ladder_place l1 ord) (\<lambda>l'.
       Some (if flag_matches F_MBP flags \<or> flag_matches F_SNAPSHOT flags
         then (if flag_matches F_LAST flags then (retain_best_only l')\<lparr>ld_batch_state := BatchNone\<rparr>
               else retain_best_only l')
         else l')))"
proof -
  have "ladder_place l1 ord = Some l' \<Longrightarrow> ld_book_type l' = ld_book_type l1" for l'
    by (auto simp: ladder_place_def bind_Some_conv)
  then show ?thesis using assms handle_l1_add_cases [OF assms(2)]
    by (cases "ladder_place l1 ord") (auto simp: ladder_add_def Let_def)
qed

lemma ladder_add_inv:
  assumes inv: "ladder_inv l" and on: "on_side l ord"
    and fresh: "ld_book_type l = L1_MBP \<or> fresh_or_same l ord"
  shows "\<exists>l'. ladder_add l ord flags = Some l' \<and> ladder_inv l' \<and>
    ld_side l' = ld_side l \<and> ld_book_type l' = ld_book_type l"
proof (cases "quantity_is_positive (bo_size ord)")
  case pos: True
  show ?thesis
  proof (cases "ld_book_type l = L1_MBP")
    case l1: True
    obtain c m where h: "handle_l1_add l ord flags = (c, m)" by fastforce
    note hc = handle_l1_add_cases [OF h]
    have inv': "ladder_inv m" using handle_l1_add_inv [OF inv, of ord flags] h by simp
    have on': "on_side m ord" using on on_side_cong hc(2) by blast
    have l1': "ld_book_type m = L1_MBP" using hc(3) l1 by simp
    note wf' = ladder_inv_levels [OF inv']
    obtain m' where place: "ladder_place m ord = Some m'"
      using ladder_place_total [OF wf' on' pos] by blast
    note pl = ladder_place_levels [OF wf' on' pos place]
    have single: "cache_ok (ld_side m') (ld_levels m') (ld_cache m')" if "length (ld_levels m') \<le> 1"
      using ladder_place_inv [OF inv' on' pos single_level_fresh [OF inv' l1' on' pos place that] place that]
      by (simp add: ladder_inv_def)
    have "ladder_inv (retain_best_only m')" using pl(1) single by (rule retain_best_only_inv)
    moreover have "ladder_inv m'" if "ld_levels m = []"
      using ladder_place_from_empty [OF that on' pos place] pl single by (auto simp: ladder_inv_def)
    ultimately show ?thesis
      using ladder_add_l1 [OF l1 h] pos place hc pl l1 by auto
  next
    case False
    with fresh have f: "fresh_or_same l ord" by simp
    note wf = ladder_inv_levels [OF inv]
    obtain l' where place: "ladder_place l ord = Some l'"
      using ladder_place_total [OF wf on pos] by blast
    have "ladder_inv l'" using ladder_place_inv [OF inv on pos f place] False by simp
    then show ?thesis
      using ladder_add_other [OF False] pos place ladder_place_levels [OF wf on pos place] by auto
  qed
next
  case False
  show ?thesis
  proof (cases "ld_book_type l = L1_MBP")
    case True
    then show ?thesis
      using False by (auto simp: ladder_add_def handle_l1_add_def)
  next
    case no: False
    then show ?thesis using False inv ladder_add_other [OF no] by auto
  qed
qed

lemma ladder_add_orders:
  assumes "ladder_inv l" and "on_side l ord" and "ld_book_type l \<noteq> L1_MBP"
    and "quantity_is_positive (bo_size ord)" and "ladder_add l ord flags = Some l'"
  shows "ladder_orders l' = (ladder_orders l)(bo_order_id ord \<mapsto> ord)"
  using assms ladder_place_orders [OF ladder_inv_levels] by (simp add: ladder_add_other)

section \<open>Removing\<close>

text \<open>Taking one identifier out of the level the cache names, and out of the cache.\<close>

definition take_out :: "book_ladder \<Rightarrow> u64 \<Rightarrow> book_price \<Rightarrow> book_level \<Rightarrow> book_ladder" where
  "take_out l oid bp lev =
     l\<lparr>ld_levels := put_level bp (lev\<lparr>lv_orders := shift_remove oid (lv_orders lev)\<rparr>) (ld_levels l),
       ld_cache := (ld_cache l)(oid := None)\<rparr>"

lemma put_level_length: "bt_get rank m bp = Some old \<Longrightarrow> length (put_level bp lev m) \<le> length m"
proof -
  have "bt_get rank m bp = Some old \<Longrightarrow> length (bt_insert rank bp lev m) = length m"
    by (induction m) (auto split: if_splits)
  moreover have "length (bt_remove rank bp m) \<le> length m"
    by (induction m) auto
  ultimately show "bt_get rank m bp = Some old \<Longrightarrow> length (put_level bp lev m) \<le> length m"
    by (simp add: put_level_def)
qed

lemma cached_level:
  assumes "ladder_inv l" and "ld_cache l oid = Some bp"
  shows "\<exists>lev. bt_get rank (ld_levels l) bp = Some lev \<and> oid \<in> level_ids lev \<and> bp_side bp = ld_side l"
proof -
  have "oid \<in> ids_at (ld_levels l) (rank bp)" "bp_side bp = ld_side l"
    using assms by (simp_all add: ladder_inv_def cache_ok_def)
  then show ?thesis
    using ids_at_get [OF ladder_inv_levels [OF assms(1)], of bp] by (auto split: option.splits)
qed

lemma replace_inv:
  assumes inv: "ladder_inv l" and lev: "bt_get rank (ld_levels l) bp = Some lev"
    and new: "level_wf lev'" "lv_price lev' = lv_price lev"
    and cache: "\<And>oid r. oid \<in> (if r = rank bp then level_ids lev' else ids_at (ld_levels l) r) \<longleftrightarrow>
        map_option rank (c oid) = Some r"
      "\<And>oid b. c oid = Some b \<Longrightarrow> bp_side b = ld_side l"
  shows "ladder_inv (l\<lparr>ld_levels := put_level bp lev' (ld_levels l), ld_cache := c\<rparr>)"
proof -
  note wf = ladder_inv_levels [OF inv]
  have wf': "levels_wf (ld_side l) (put_level bp lev' (ld_levels l))"
    using bt_get_level [OF wf lev] new lev by (intro put_level_wf [OF wf]) auto
  have "cache_ok (ld_side l) (put_level bp lev' (ld_levels l)) c"
    using cache by (auto simp: cache_ok_def ids_at_put_level' [OF wf wf'])
  with wf' inv put_level_length [OF lev, of lev'] show ?thesis
    by (auto simp: ladder_inv_def dest: le_trans)
qed

lemma take_out_inv:
  assumes inv: "ladder_inv l" and c: "ld_cache l oid = Some bp"
    and lev: "bt_get rank (ld_levels l) bp = Some lev"
  shows "ladder_inv (take_out l oid bp lev)"
proof -
  note wf = ladder_inv_levels [OF inv]
  let ?lev = "lev\<lparr>lv_orders := shift_remove oid (lv_orders lev)\<rparr>"
  have ids: "ids_at (ld_levels l) (rank bp) = level_ids lev" using ids_at_get [OF wf, of bp] lev by simp
  have ok: "i \<in> ids_at (ld_levels l) r \<longleftrightarrow> map_option rank (ld_cache l i) = Some r" for i r
    using inv by (simp only: ladder_inv_def cache_ok_def)
  have "i \<in> (if r = rank bp then level_ids ?lev else ids_at (ld_levels l) r) \<longleftrightarrow>
      map_option rank (((ld_cache l)(oid := None)) i) = Some r" for i r
  proof (cases "i = oid")
    case True
    then have "i \<notin> ids_at (ld_levels l) r" if "r \<noteq> rank bp" using ok [of i r] c that by simp
    with True show ?thesis by (simp add: im_keys_remove)
  next
    case False
    then show ?thesis using ok [of i r] ids by (auto simp: im_keys_remove)
  qed
  then show ?thesis unfolding take_out_def
    using inv lev bt_get_level [OF wf lev]
    by (intro replace_inv) (auto simp: level_wf_remove ladder_inv_def cache_ok_def split: if_splits)
qed

lemma ladder_orders_replace:
  assumes inv: "ladder_inv l" and lev: "bt_get rank (ld_levels l) bp = Some lev"
    and get: "\<And>i. i \<noteq> oid \<Longrightarrow> im_get (lv_orders lev') i = im_get (lv_orders lev) i"
    and c: "\<And>i. i \<noteq> oid \<Longrightarrow> c i = ld_cache l i" and j: "j \<noteq> oid"
  shows "ladder_orders (l\<lparr>ld_levels := put_level bp lev' (ld_levels l), ld_cache := c\<rparr>) j = ladder_orders l j"
proof (cases "ld_cache l j")
  case None
  then show ?thesis using c j by (simp add: ladder_orders_def)
next
  case (Some b)
  have "bt_get rank (ld_levels l) b = Some lev" if "rank b = rank bp"
    using bt_get_rank_cong [of rank b bp] that lev by metis
  moreover have "im_get (lv_orders lev) j = None" if "lv_orders lev' = []"
    using get [OF j] that by simp
  ultimately show ?thesis using Some c j get
    by (simp add: ladder_orders_def bt_get_put_level [OF ladder_inv_levels [OF inv]])
qed

lemma take_out_orders:
  assumes inv: "ladder_inv l" and lev: "bt_get rank (ld_levels l) bp = Some lev"
  shows "ladder_orders (take_out l oid bp lev) = (ladder_orders l)(oid := None)"
proof
  fix j
  have "im_wf (lv_orders lev)" using bt_get_level [OF ladder_inv_levels [OF inv] lev] level_wf_im by blast
  then show "ladder_orders (take_out l oid bp lev) j = ((ladder_orders l)(oid := None)) j"
    unfolding take_out_def
    using ladder_orders_replace [OF inv lev, of oid _ "(ld_cache l)(oid := None)" j]
    by (cases "j = oid") (simp_all add: ladder_orders_def im.lookup_del)
qed

lemma ladder_remove_order_eq:
  assumes "ladder_inv l"
  shows "ladder_remove_order l oid = Some (case ld_cache l oid of None \<Rightarrow> l
    | Some bp \<Rightarrow> take_out l oid bp (the (bt_get rank (ld_levels l) bp)))"
proof (cases "ld_cache l oid")
  case None
  then show ?thesis by (simp add: ladder_remove_order_def)
next
  case (Some bp)
  then obtain lev where lev: "bt_get rank (ld_levels l) bp = Some lev" "oid \<in> level_ids lev" "bp_side bp = ld_side l"
    using cached_level [OF assms] by blast
  then obtain v where "im_get (lv_orders lev) oid = Some v" using im_get_dom by fastforce
  with Some lev ladder_inv_levels [OF assms] show ?thesis
    by (simp add: ladder_remove_order_def level_remove_by_id_def level_is_empty_def take_out_def
        put_level_def)
qed

lemma ladder_remove_order_inv:
  assumes "ladder_inv l"
  shows "\<exists>l'. ladder_remove_order l oid = Some l' \<and> ladder_inv l' \<and>
    ladder_orders l' = (ladder_orders l)(oid := None) \<and>
    ld_side l' = ld_side l \<and> ld_book_type l' = ld_book_type l"
proof (cases "ld_cache l oid")
  case None
  then have "ladder_orders l = (ladder_orders l)(oid := None)" by (auto simp: ladder_orders_def)
  with None assms show ?thesis by (simp add: ladder_remove_order_eq)
next
  case (Some bp)
  then obtain lev where "bt_get rank (ld_levels l) bp = Some lev" using cached_level [OF assms] by blast
  with Some assms show ?thesis
    using take_out_inv take_out_orders
    by (simp add: ladder_remove_order_eq) (simp add: take_out_def)
qed

section \<open>Updating\<close>

lemma ladder_update_in_place:
  assumes inv: "ladder_inv l" and c: "ld_cache l (bo_order_id ord) = Some bp"
    and on: "on_side l ord" and same: "p_raw (bo_price ord) = p_raw (bp_value bp)"
    and nz: "q_raw (bo_size ord) \<noteq> 0"
  shows "\<exists>l'. ladder_update l ord flags = Some l' \<and> ladder_inv l' \<and>
    ladder_orders l' = (ladder_orders l)(bo_order_id ord \<mapsto> ord) \<and>
    ld_side l' = ld_side l \<and> ld_book_type l' = ld_book_type l"
proof -
  note wf = ladder_inv_levels [OF inv]
  obtain lev where lev: "bt_get rank (ld_levels l) bp = Some lev" "bo_order_id ord \<in> level_ids lev" "bp_side bp = ld_side l"
    using cached_level [OF inv c] by blast
  note lw = bt_get_level [OF wf lev(1)]
  have raw: "p_raw (bo_price ord) = p_raw (bp_value (lv_price lev))"
    using same lw lev(3) rank_eq_raw [of "lv_price lev" bp] by simp
  let ?lev = "level_update lev ord"
  have at: "order_at (lv_price lev) ord"
    using raw on nz lw by (simp add: order_at_def on_side_def)
  have ne: "lv_orders ?lev \<noteq> []" using nz by (simp add: level_update_def)
  have eq: "ladder_update l ord flags =
      Some (l\<lparr>ld_levels := put_level bp ?lev (ld_levels l), ld_cache := ld_cache l\<rparr>)"
    using c lev wf raw nz ne by (simp add: ladder_update_def level_is_empty_def put_level_def)
  have ids: "ids_at (ld_levels l) (rank bp) = level_ids lev" using ids_at_get [OF wf, of bp] lev by simp
  have ok: "i \<in> ids_at (ld_levels l) r \<longleftrightarrow> map_option rank (ld_cache l i) = Some r" for i r
    using inv by (simp only: ladder_inv_def cache_ok_def)
  have "level_ids ?lev = ids_at (ld_levels l) (rank bp)" using nz lev(2) ids by auto
  then have "i \<in> (if r = rank bp then level_ids ?lev else ids_at (ld_levels l) r) \<longleftrightarrow>
      map_option rank (ld_cache l i) = Some r" for i r
    using ok [of i r] by (cases "r = rank bp") (simp_all del: level_ids_simps)
  then have "ladder_inv (l\<lparr>ld_levels := put_level bp ?lev (ld_levels l), ld_cache := ld_cache l\<rparr>)"
    using inv lev lw at by (intro replace_inv) (auto simp: level_wf_update ladder_inv_def cache_ok_def)
  moreover have "ladder_orders (l\<lparr>ld_levels := put_level bp ?lev (ld_levels l), ld_cache := ld_cache l\<rparr>) j =
      ((ladder_orders l)(bo_order_id ord \<mapsto> ord)) j" for j
  proof (cases "j = bo_order_id ord")
    case True
    then show ?thesis using ne nz c lw
      by (simp add: ladder_orders_def bt_get_put_level [OF wf] level_get_orders_simps level_wf_im)
  next
    case False
    then show ?thesis
      using ladder_orders_replace [OF inv lev(1), of "bo_order_id ord" ?lev "ld_cache l" j] lw
      by (simp add: level_get_orders_simps level_wf_im)
  qed
  ultimately show ?thesis using eq by (auto simp: fun_eq_iff)
qed

text \<open>An update that changes the price, or whose size is zero, first takes the order out.\<close>

definition take_out_cached :: "book_ladder \<Rightarrow> u64 \<Rightarrow> book_ladder" where
  "take_out_cached l oid = (case ld_cache l oid of None \<Rightarrow> l
    | Some bp \<Rightarrow> take_out l oid bp (the (bt_get rank (ld_levels l) bp)))"

lemma take_out_cached_remove: "ladder_inv l \<Longrightarrow> ladder_remove_order l oid = Some (take_out_cached l oid)"
  by (simp add: ladder_remove_order_eq take_out_cached_def)

lemma take_out_cached_facts:
  assumes "ladder_inv l"
  shows "ladder_inv (take_out_cached l oid)"
    and "ladder_orders (take_out_cached l oid) = (ladder_orders l)(oid := None)"
    and "ld_side (take_out_cached l oid) = ld_side l"
    and "ld_book_type (take_out_cached l oid) = ld_book_type l"
    and "ld_cache (take_out_cached l oid) oid = None"
  using ladder_remove_order_inv [OF assms, of oid] take_out_cached_remove [OF assms, of oid]
  by (auto simp: take_out_cached_def take_out_def split: option.splits)

lemma ladder_update_moves:
  assumes inv: "ladder_inv l"
    and move: "\<And>bp. ld_cache l (bo_order_id ord) = Some bp \<Longrightarrow>
      p_raw (bo_price ord) \<noteq> p_raw (bp_value bp) \<or> q_raw (bo_size ord) = 0"
  shows "ladder_update l ord flags =
    (if quantity_is_positive (bo_size ord) then ladder_add (take_out_cached l (bo_order_id ord)) ord flags
     else Some (take_out_cached l (bo_order_id ord)))"
proof (cases "ld_cache l (bo_order_id ord)")
  case None
  then show ?thesis by (simp add: ladder_update_def take_out_cached_def)
next
  case (Some bp)
  note wf = ladder_inv_levels [OF inv]
  obtain lev where lev: "bt_get rank (ld_levels l) bp = Some lev" "bp_side bp = ld_side l"
    using cached_level [OF inv Some] by blast
  have raw: "p_raw (bp_value (lv_price lev)) = p_raw (bp_value bp)"
    using bt_get_level [OF wf lev(1)] lev(2) rank_eq_raw [of "lv_price lev" bp] by simp
  have "\<not> quantity_is_positive (bo_size ord)" if "q_raw (bo_size ord) = 0"
    using that by (simp add: quantity_is_positive_def)
  then show ?thesis using Some lev wf raw move [OF Some]
    by (auto simp: ladder_update_def level_is_empty_def take_out_cached_def take_out_def
        level_delete_def level_update_def put_level_def Let_def)
qed

lemma ladder_update_cases:
  assumes "ladder_inv l" and "on_side l ord"
  obtains (in_place) bp where "ld_cache l (bo_order_id ord) = Some bp"
      "p_raw (bo_price ord) = p_raw (bp_value bp)" "q_raw (bo_size ord) \<noteq> 0"
  | (move) "\<And>bp. ld_cache l (bo_order_id ord) = Some bp \<Longrightarrow>
      p_raw (bo_price ord) \<noteq> p_raw (bp_value bp) \<or> q_raw (bo_size ord) = 0"
  by blast

lemma ladder_update_inv:
  assumes inv: "ladder_inv l" and on: "on_side l ord"
  shows "\<exists>l'. ladder_update l ord flags = Some l' \<and> ladder_inv l' \<and>
    ld_side l' = ld_side l \<and> ld_book_type l' = ld_book_type l"
  using assms
proof (cases rule: ladder_update_cases)
  case (in_place bp)
  then show ?thesis using ladder_update_in_place [OF inv _ on] by blast
next
  case move
  let ?t = "take_out_cached l (bo_order_id ord)"
  note t = take_out_cached_facts [OF inv, of "bo_order_id ord"]
  have "on_side ?t ord" using on t(3) on_side_cong by blast
  moreover have "fresh_or_same ?t ord" using t(5) by (simp add: fresh_or_same_def)
  ultimately show ?thesis
    using ladder_add_inv [OF t(1), of ord flags] t ladder_update_moves [OF inv move] by auto
qed

lemma ladder_update_orders:
  assumes inv: "ladder_inv l" and on: "on_side l ord" and bt: "ld_book_type l \<noteq> L1_MBP"
    and pos: "quantity_is_positive (bo_size ord)" and upd: "ladder_update l ord flags = Some l'"
  shows "ladder_orders l' = (ladder_orders l)(bo_order_id ord \<mapsto> ord)"
  using inv on
proof (cases rule: ladder_update_cases)
  case (in_place bp)
  then show ?thesis using ladder_update_in_place [OF inv in_place(1) on in_place(2,3), of flags] upd by auto
next
  case move
  let ?t = "take_out_cached l (bo_order_id ord)"
  note t = take_out_cached_facts [OF inv, of "bo_order_id ord"]
  have "on_side ?t ord" using on t(3) on_side_cong by blast
  then have "ladder_orders l' = (ladder_orders ?t)(bo_order_id ord \<mapsto> ord)"
    using ladder_add_orders [OF t(1) _ _ pos] ladder_update_moves [OF inv move] upd pos bt t(4) by simp
  then show ?thesis by (simp add: t(2))
qed

lemma ladder_update_zero:
  assumes inv: "ladder_inv l" and zero: "q_raw (bo_size ord) = 0"
  shows "ladder_update l ord flags = ladder_remove_order l (bo_order_id ord)"
  using zero ladder_update_moves [OF inv, of ord flags] take_out_cached_remove [OF inv]
  by (simp add: quantity_is_positive_def)

section \<open>Removing a level\<close>

lemma foldl_forget: "foldl (\<lambda>c oid. c(oid := None)) c ids = (\<lambda>oid. if oid \<in> set ids then None else c oid)"
  by (induction ids arbitrary: c) auto

lemma ladder_remove_level_eq:
  assumes inv: "ladder_inv l" and side: "bp_side bp = ld_side l"
  shows "ladder_remove_level l bp = Some (case bt_get rank (ld_levels l) bp of
      None \<Rightarrow> (None, l)
    | Some lev \<Rightarrow> (Some lev, l\<lparr>ld_levels := bt_remove rank bp (ld_levels l),
        ld_cache := (\<lambda>oid. if oid \<in> level_ids lev then None else ld_cache l oid)\<rparr>))"
  using ladder_inv_levels [OF inv] side
  by (simp add: ladder_remove_level_def foldl_forget split: option.split)

lemma ladder_remove_level_inv:
  assumes inv: "ladder_inv l" and side: "bp_side bp = ld_side l"
  shows "\<exists>l'. ladder_remove_level l bp = Some (bt_get rank (ld_levels l) bp, l') \<and> ladder_inv l' \<and>
    ld_levels l' = bt_remove rank bp (ld_levels l) \<and>
    ld_side l' = ld_side l \<and> ld_book_type l' = ld_book_type l"
proof (cases "bt_get rank (ld_levels l) bp")
  case None
  have "bt_get rank m bp = None \<Longrightarrow> bt_remove rank bp m = m" for m :: "(book_price, book_level) btree_map"
    by (induction m) (auto split: if_splits)
  with None show ?thesis using ladder_remove_level_eq [OF assms] inv by simp
next
  case (Some lev)
  note wf = ladder_inv_levels [OF inv]
  let ?c = "\<lambda>oid. if oid \<in> level_ids lev then None else ld_cache l oid"
  let ?e = "lev\<lparr>lv_orders := []\<rparr>"
  have ids: "ids_at (ld_levels l) (rank bp) = level_ids lev" using ids_at_get [OF wf, of bp] Some by simp
  have ok: "i \<in> ids_at (ld_levels l) r \<longleftrightarrow> map_option rank (ld_cache l i) = Some r" for i r
    using inv by (simp only: ladder_inv_def cache_ok_def)
  have "i \<in> (if r = rank bp then level_ids ?e else ids_at (ld_levels l) r) \<longleftrightarrow>
      map_option rank (?c i) = Some r" for i r
  proof (cases "i \<in> level_ids lev")
    case True
    then have "map_option rank (ld_cache l i) = Some (rank bp)" using ok [of i "rank bp"] ids by simp
    then have "i \<notin> ids_at (ld_levels l) r" if "r \<noteq> rank bp" using ok [of i r] that by auto
    with True show ?thesis by simp
  next
    case False
    then show ?thesis using ok [of i r] ids by auto
  qed
  then have "ladder_inv (l\<lparr>ld_levels := put_level bp ?e (ld_levels l), ld_cache := ?c\<rparr>)"
    using inv Some by (intro replace_inv)
      (auto simp: level_wf_def ladder_inv_def cache_ok_def split: if_splits)
  then show ?thesis using ladder_remove_level_eq [OF assms] Some
    by (simp add: put_level_def)
qed

section \<open>Simulated fills\<close>

abbreviation raw_total :: "(price \<times> quantity) list \<Rightarrow> nat" where
  "raw_total fills \<equiv> sum_list (map (\<lambda>f. q_raw (snd f)) fills)"

abbreviation size_total :: "book_order list \<Rightarrow> nat" where
  "size_total ords \<equiv> sum_list (map (\<lambda>ord. q_raw (bo_size ord)) ords)"

text \<open>The orders the loop walks: those of the levels up to the limit price, in priority.\<close>

definition reachable_orders :: "bool \<Rightarrow> price \<Rightarrow> book_level list \<Rightarrow> book_order list" where
  "reachable_orders is_reversed limit levs =
     concat (map level_get_orders (takeWhile (\<lambda>lev.
       \<not> (is_reversed \<and> p_raw (bp_value (lv_price lev)) < p_raw limit
          \<or> \<not> is_reversed \<and> p_raw (bp_value (lv_price lev)) > p_raw limit)) levs))"

lemma fill_orders_append:
  "fill_orders target (xs @ ys) fills cum = Option.bind (fill_orders target xs fills cum)
     (\<lambda>r. case r of Inl d \<Rightarrow> Some (Inl d) | Inr (f, c) \<Rightarrow> fill_orders target ys f c)"
proof (induction xs arbitrary: fills cum)
  case (Cons x xs)
  then show ?case
    by (cases "quantity_add cum (bo_size x)"; cases "quantity_sub target cum") simp_all
qed simp

lemma reachable_orders_simps [simp]:
  "reachable_orders b limit [] = []"
  "reachable_orders b limit (lev # levs) =
     (if b \<and> p_raw (bp_value (lv_price lev)) < p_raw limit \<or> \<not> b \<and> p_raw (bp_value (lv_price lev)) > p_raw limit
      then [] else im_values (lv_orders lev) @ reachable_orders b limit levs)"
  by (simp_all add: reachable_orders_def level_get_orders_def)

lemma fill_levels_flat:
  "fill_levels b limit target levs fills cum =
     map_option (\<lambda>r. case r of Inl d \<Rightarrow> d | Inr (f, c) \<Rightarrow> f)
       (fill_orders target (reachable_orders b limit levs) fills cum)"
proof (induction levs arbitrary: fills cum)
  case (Cons lev levs)
  show ?case
    by (cases "fill_orders target (im_values (lv_orders lev)) fills cum")
      (auto simp: fill_orders_append Cons.IH split: sum.split prod.split)
qed simp

text \<open>Fills in price-time priority: a prefix of the orders, all but the last one whole.\<close>

definition fills_prefix :: "(price \<times> quantity) list \<Rightarrow> book_order list \<Rightarrow> bool" where
  "fills_prefix g ords \<longleftrightarrow> length g \<le> length ords \<and> map fst g = map bo_price (take (length g) ords) \<and>
     map snd (butlast g) = map bo_size (take (length g - 1) ords)"

lemma fills_prefix_Nil [simp]: "fills_prefix [] ords"
  by (simp add: fills_prefix_def)

lemma fills_prefix_last [simp]: "fills_prefix [(bo_price x, q)] (x # xs)"
  by (simp add: fills_prefix_def)

lemma fills_prefix_Cons: "fills_prefix g xs \<Longrightarrow> fills_prefix ((bo_price x, bo_size x) # g) (x # xs)"
  by (cases g) (auto simp: fills_prefix_def)

lemma fill_orders_total:
  assumes "q_raw cum \<le> q_raw target" and "q_raw target \<le> QUANTITY_RAW_MAX"
    and "q_raw cum + size_total ords \<le> u128_max"
  shows "\<exists>r g. fill_orders target ords fills cum = Some r \<and>
    (case r of Inl d \<Rightarrow> d | Inr (d, c) \<Rightarrow> d) = fills @ g \<and>
    raw_total g = min (q_raw target - q_raw cum) (size_total ords) \<and> fills_prefix g ords"
  using assms
proof (induction ords arbitrary: fills cum)
  case Nil
  then show ?case by simp
next
  case (Cons x xs)
  obtain t where t: "quantity_add cum (bo_size x) = Some t" "q_raw t = q_raw cum + q_raw (bo_size x)"
    using Cons.prems(3) by (auto simp: quantity_add_def checked_u128_def)
  show ?case
  proof (cases "q_raw t \<ge> q_raw target")
    case True
    obtain d where d: "quantity_sub target cum = Some d" "q_raw d = q_raw target - q_raw cum"
      using Cons.prems(1) by (auto simp: quantity_sub_def checked_sub_u128_def)
    have "q_raw d \<noteq> QUANTITY_UNDEF"
      using Cons.prems(2) d(2) by (simp add: raw_limits)
    with True t d show ?thesis
      by (auto simp: quantity_is_positive_def intro!: exI [of _ "[(bo_price x, d)]"])
  next
    case False
    have p: "q_raw t \<le> q_raw target" "q_raw t + size_total xs \<le> u128_max"
      using False t Cons.prems(3) by simp_all
    let ?f = "fills @ [(bo_price x, bo_size x)]"
    obtain r g where r: "fill_orders target xs ?f t = Some r"
      "(case r of Inl d \<Rightarrow> d | Inr (d, c) \<Rightarrow> d) = ?f @ g"
      "raw_total g = min (q_raw target - q_raw t) (size_total xs)" "fills_prefix g xs"
      using Cons.IH [OF p(1) Cons.prems(2) p(2), of ?f] by auto
    have "R + min (T - (c + R)) S = min (T - c) (R + S)" if "c + R < T" for R T c S :: nat
      using that by linarith
    then have "raw_total ((bo_price x, bo_size x) # g) = min (q_raw target - q_raw cum) (size_total (x # xs))"
      using r(3) False t(2) by simp
    with r(1,2) fills_prefix_Cons [OF r(4)] False t(1) show ?thesis by fastforce
  qed
qed

lemma ladder_simulate_fills_total:
  fixes l :: book_ladder and ord :: book_order
  assumes "q_prec (bo_size ord) \<le> FIXED_PRECISION" and "q_raw (bo_size ord) \<le> QUANTITY_RAW_MAX"
  defines "reach \<equiv> reachable_orders (ld_side l = SBuy) (bo_price ord) (bt_values (ld_levels l))"
  assumes "size_total reach \<le> u128_max"
  shows "\<exists>fills. ladder_simulate_fills l ord = Some fills \<and>
    raw_total fills = min (q_raw (bo_size ord)) (size_total reach) \<and> fills_prefix fills reach"
  using assms fill_orders_total [of "\<lparr>q_raw = 0, q_prec = q_prec (bo_size ord)\<rparr>" "bo_size ord" reach "[]"]
  by (auto simp: ladder_simulate_fills_def quantity_zero_def check_fixed_precision_def fill_levels_flat)

lemma reachable_orders_limit:
  assumes "levels_wf side m" and "ord \<in> set (reachable_orders b limit (bt_values m))"
  shows "if b then p_raw limit \<le> p_raw (bo_price ord) else p_raw (bo_price ord) \<le> p_raw limit"
proof -
  obtain lev where lev: "lev \<in> set (bt_values m)" "ord \<in> set (level_get_orders lev)"
    "\<not> (b \<and> p_raw (bp_value (lv_price lev)) < p_raw limit \<or> \<not> b \<and> p_raw (bp_value (lv_price lev)) > p_raw limit)"
    using assms(2) by (auto simp: reachable_orders_def dest: set_takeWhileD)
  then have "level_wf lev" using levels_wfD(2) [OF assms(1)] by (auto simp: bt_values_def)
  then have "p_raw (bo_price ord) = p_raw (bp_value (lv_price lev))"
    using lev(2) by (fastforce simp: level_wf_def level_get_orders_def im_values_def order_at_def)
  with lev(3) show ?thesis by auto
qed

section \<open>The contract of one side of a book\<close>

text \<open>
  What a client of a ladder relies on: under the invariant, updating with an accepted order
  and removing an identifier succeed, keep the invariant and act on the map of orders as
  overwriting and forgetting one entry.
\<close>

locale order_store =
  fixes inv :: "'s \<Rightarrow> bool"
    and orders :: "'s \<Rightarrow> 'i \<rightharpoonup> 'o"
    and accepts :: "'s \<Rightarrow> 'o \<Rightarrow> bool"
    and ident :: "'o \<Rightarrow> 'i"
    and upsert :: "'s \<Rightarrow> 'o \<Rightarrow> 's option"
    and forget :: "'s \<Rightarrow> 'i \<Rightarrow> 's option"
  assumes upsert_ok: "inv s \<Longrightarrow> accepts s x \<Longrightarrow> \<exists>t. upsert s x = Some t \<and> inv t \<and>
      orders t = (orders s)(ident x \<mapsto> x) \<and> (\<forall>y. accepts t y = accepts s y)"
    and forget_ok: "inv s \<Longrightarrow> \<exists>t. forget s i = Some t \<and> inv t \<and>
      orders t = (orders s)(i := None) \<and> (\<forall>y. accepts t y = accepts s y)"
begin

text \<open>Replaying a stream of changes (an order, or an identifier to forget).\<close>

lemma replay:
  assumes "inv s" and "\<forall>x. Inl x \<in> set es \<longrightarrow> accepts s x"
  shows "\<exists>t. fold_opt (\<lambda>e s. case e of Inl x \<Rightarrow> upsert s x | Inr i \<Rightarrow> forget s i) es s = Some t \<and> inv t \<and>
    orders t = fold (\<lambda>e m. case e of Inl x \<Rightarrow> m(ident x \<mapsto> x) | Inr i \<Rightarrow> m(i := None)) es (orders s)"
  using assms
proof (induction es arbitrary: s)
  case Nil
  then show ?case by simp
next
  case (Cons e es)
  obtain t where t: "(case e of Inl x \<Rightarrow> upsert s x | Inr i \<Rightarrow> forget s i) = Some t" "inv t"
    "orders t = (case e of Inl x \<Rightarrow> (orders s)(ident x \<mapsto> x) | Inr i \<Rightarrow> (orders s)(i := None))"
    "\<forall>y. accepts t y = accepts s y"
  proof (cases e)
    case (Inl x)
    with Cons.prems upsert_ok [of s x] that show ?thesis by auto
  next
    case (Inr i)
    with Cons.prems forget_ok [of s i] that show ?thesis by auto
  qed
  have "\<forall>x. Inl x \<in> set es \<longrightarrow> accepts t x" using Cons.prems(2) t(4) by simp
  then obtain u where "fold_opt (\<lambda>e s. case e of Inl x \<Rightarrow> upsert s x | Inr i \<Rightarrow> forget s i) es t = Some u"
    "inv u" "orders u = fold (\<lambda>e m. case e of Inl x \<Rightarrow> m(ident x \<mapsto> x) | Inr i \<Rightarrow> m(i := None)) es (orders t)"
    using Cons.IH [OF t(2)] by blast
  with t show ?case by (auto split: sum.splits)
qed

end

definition ladder_accepts :: "book_ladder \<Rightarrow> book_order \<Rightarrow> bool" where
  "ladder_accepts l ord \<longleftrightarrow> on_side l ord \<and> quantity_is_positive (bo_size ord)"

interpretation lad: order_store "\<lambda>l. ladder_inv l \<and> ld_book_type l \<noteq> L1_MBP" ladder_orders
    ladder_accepts bo_order_id "\<lambda>l ord. ladder_update l ord flags" ladder_remove_order
  for flags
proof unfold_locales
  fix s x
  assume "ladder_inv s \<and> ld_book_type s \<noteq> L1_MBP" and "ladder_accepts s x"
  then show "\<exists>t. ladder_update s x flags = Some t \<and> (ladder_inv t \<and> ld_book_type t \<noteq> L1_MBP) \<and>
      ladder_orders t = (ladder_orders s)(bo_order_id x \<mapsto> x) \<and> (\<forall>y. ladder_accepts t y = ladder_accepts s y)"
    using ladder_update_inv [of s x flags] ladder_update_orders [of s x flags]
    by (auto simp: ladder_accepts_def on_side_def)
next
  fix s i
  assume "ladder_inv s \<and> ld_book_type s \<noteq> L1_MBP"
  then show "\<exists>t. ladder_remove_order s i = Some t \<and> (ladder_inv t \<and> ld_book_type t \<noteq> L1_MBP) \<and>
      ladder_orders t = (ladder_orders s)(i := None) \<and> (\<forall>y. ladder_accepts t y = ladder_accepts s y)"
    using ladder_remove_order_inv [of s i] by (auto simp: ladder_accepts_def on_side_def)
qed

section \<open>Properties\<close>

text \<open>every operation of a ladder keeps the invariant and never panics on orders of the
  ladder's side. Levels stay in strict price priority and non-empty, and the cache maps exactly
  the queued identifiers to their price levels. Adding needs the identifier to be new or queued
  at the same price, except in an L1 ladder, which stays at one level at most; updating,
  deleting, clearing and removing a level need nothing.\<close>

theorem ladder_operations_keep_invariant:
  assumes "ladder_inv l" and "on_side l ord" and "ld_book_type l = L1_MBP \<or> fresh_or_same l ord"
    and "bp_side bp = ld_side l"
  shows "(\<exists>l'. ladder_add l ord flags = Some l' \<and> ladder_inv l') \<and>
    (\<exists>l'. ladder_update l ord flags = Some l' \<and> ladder_inv l') \<and>
    (\<exists>l'. ladder_delete l ord = Some l' \<and> ladder_inv l') \<and>
    (\<exists>r l'. ladder_remove_level l bp = Some (r, l') \<and> ladder_inv l') \<and>
    ladder_inv (ladder_clear l)"
  using ladder_add_inv [OF assms(1-3), of flags] ladder_update_inv [OF assms(1,2), of flags]
    ladder_remove_order_inv [OF assms(1)] ladder_remove_level_inv [OF assms(1,4)]
  by (fastforce simp: ladder_delete_def)

theorem ladder_operations_keep_invariant_witness:
  "\<exists>l'. ladder_add (ladder_new SBuy L3_MBO)
     \<lparr>bo_side = Buy, bo_price = \<lparr>p_raw = 5, p_prec = 16\<rparr>, bo_size = \<lparr>q_raw = 7, q_prec = 16\<rparr>, bo_order_id = 1\<rparr> 0
     = Some l' \<and> ladder_inv l'"
proof -
  let ?ord = "\<lparr>bo_side = Buy, bo_price = \<lparr>p_raw = 5, p_prec = 16\<rparr>, bo_size = \<lparr>q_raw = 7, q_prec = 16\<rparr>, bo_order_id = 1\<rparr>"
  have "on_side (ladder_new SBuy L3_MBO) ?ord" "fresh_or_same (ladder_new SBuy L3_MBO) ?ord"
    "bp_side \<lparr>bp_value = \<lparr>p_raw = 5, p_prec = 16\<rparr>, bp_side = SBuy\<rparr> = ld_side (ladder_new SBuy L3_MBO)"
    by (simp_all add: on_side_def fresh_or_same_def ladder_new_def)
  from ladder_operations_keep_invariant [OF ladder_inv_new this(1) _ this(3)] this(2)
  show ?thesis by blast
qed

text \<open>an L2 or L3 ladder refines a map from order identifiers to orders. Replaying any
  sequence of updates (with orders of the ladder's side and positive size) and deletions from
  an empty ladder never panics, keeps the invariant, and the orders reachable through the
  ladder are exactly those of the same sequence of overwrites and removals on a map.\<close>

theorem ladder_refines_order_map:
  assumes "bt \<noteq> L1_MBP"
    and "\<forall>ord. Inl ord \<in> set es \<longrightarrow> as_specified (bo_side ord) = Some side \<and> quantity_is_positive (bo_size ord)"
  shows "\<exists>l. fold_opt (\<lambda>e l. case e of Inl ord \<Rightarrow> ladder_update l ord flags | Inr oid \<Rightarrow> ladder_remove_order l oid)
      es (ladder_new side bt) = Some l \<and> ladder_inv l \<and>
    ladder_orders l = fold (\<lambda>e m. case e of Inl ord \<Rightarrow> m(bo_order_id ord \<mapsto> ord) | Inr oid \<Rightarrow> m(oid := None)) es Map.empty"
proof -
  have "ladder_orders (ladder_new side bt) = Map.empty"
    by (simp add: ladder_orders_def ladder_new_def fun_eq_iff)
  moreover have "\<forall>ord. Inl ord \<in> set es \<longrightarrow> ladder_accepts (ladder_new side bt) ord"
    using assms(2) by (simp add: ladder_accepts_def on_side_def ladder_new_def)
  moreover have "ladder_inv (ladder_new side bt) \<and> ld_book_type (ladder_new side bt) \<noteq> L1_MBP"
    using assms(1) by (simp add: ladder_inv_new) (simp add: ladder_new_def)
  ultimately show ?thesis using lad.replay [of "ladder_new side bt" es flags] by fastforce
qed

theorem ladder_refines_order_map_witness:
  "\<exists>l. fold_opt (\<lambda>e l. case e of Inl ord \<Rightarrow> ladder_update l ord 0 | Inr oid \<Rightarrow> ladder_remove_order l oid)
      [Inl \<lparr>bo_side = Sell, bo_price = \<lparr>p_raw = 5, p_prec = 16\<rparr>, bo_size = \<lparr>q_raw = 7, q_prec = 16\<rparr>, bo_order_id = 1\<rparr>,
       Inr 1] (ladder_new SSell L3_MBO) = Some l \<and> ladder_orders l 1 = None"
proof -
  let ?es = "[Inl \<lparr>bo_side = Sell, bo_price = \<lparr>p_raw = 5, p_prec = 16\<rparr>, bo_size = \<lparr>q_raw = 7, q_prec = 16\<rparr>, bo_order_id = 1\<rparr>,
       Inr (1::u64)] :: (book_order + u64) list"
  have "\<forall>ord. Inl ord \<in> set ?es \<longrightarrow> as_specified (bo_side ord) = Some SSell \<and> quantity_is_positive (bo_size ord)"
    by (simp add: quantity_is_positive_def raw_limits)
  from ladder_refines_order_map [OF _ this, of L3_MBO 0] show ?thesis by auto
qed

end
