(* ===== verification/Ladder_Shape.thy ===== *)
theory Ladder_Shape
  imports Book_Ladder
begin

text \<open>
  What a ladder guarantees whatever stream of operations it is given, duplicated identifiers
  included: levels in strict price priority, no empty level, every order at the price of its
  level, cached prices of the ladder's own side, one level at most in an L1 ladder. This is
  what excludes a panic. The shape carries a predicate on the queued orders, so that facts
  about all the orders of a book (identifiers that are hashes of prices, positive sizes)
  follow from the same lemmas.
\<close>

definition all_queued :: "(book_order \<Rightarrow> bool) \<Rightarrow> (book_price, book_level) btree_map \<Rightarrow> bool" where
  "all_queued P m \<longleftrightarrow> (\<forall>(k, lev) \<in> set m. \<forall>ord \<in> set (im_values (lv_orders lev)). P ord)"

definition ladder_shape :: "(book_order \<Rightarrow> bool) \<Rightarrow> book_ladder \<Rightarrow> bool" where
  "ladder_shape P l \<longleftrightarrow> levels_wf (ld_side l) (ld_levels l) \<and> all_queued P (ld_levels l) \<and>
     (\<forall>oid bp. ld_cache l oid = Some bp \<longrightarrow> bp_side bp = ld_side l) \<and>
     (ld_book_type l = L1_MBP \<longrightarrow> length (ld_levels l) \<le> 1)"

lemma ladder_shapeD:
  assumes "ladder_shape P l"
  shows "levels_wf (ld_side l) (ld_levels l)" and "all_queued P (ld_levels l)"
    and "ld_cache l oid = Some bp \<Longrightarrow> bp_side bp = ld_side l"
    and "ld_book_type l = L1_MBP \<Longrightarrow> length (ld_levels l) \<le> 1"
  using assms by (auto simp: ladder_shape_def)

lemma all_queued_Nil [simp]: "all_queued P []"
  by (simp add: all_queued_def)

lemma ladder_shape_new [simp]: "ladder_shape P (ladder_new side bt)"
  by (simp add: ladder_shape_def ladder_new_def)

lemma ladder_shape_clear [simp]: "ladder_shape P (ladder_clear l)"
  by (simp add: ladder_shape_def ladder_clear_def)

lemma ladder_shape_batch [simp]: "ladder_shape P (l\<lparr>ld_batch_state := s\<rparr>) = ladder_shape P l"
  by (simp add: ladder_shape_def)

text \<open>The invariant is the shape with an exact cache.\<close>

lemma ladder_inv_shape:
  "ladder_inv l \<longleftrightarrow> ladder_shape (\<lambda>_. True) l \<and> cache_ok (ld_side l) (ld_levels l) (ld_cache l)"
  by (auto simp: ladder_inv_def ladder_shape_def all_queued_def cache_ok_def)

lemma ladder_shape_mono: "ladder_shape P l \<Longrightarrow> (\<And>ord. P ord \<Longrightarrow> Q ord) \<Longrightarrow> ladder_shape Q l"
  by (auto simp: ladder_shape_def all_queued_def split: prod.splits)

lemma set_values_insert:
  "set (im_values (im_insert k v m)) \<subseteq> insert v (set (im_values m))"
  by (induction m) (auto simp: im_insert_def im_values_def)

lemma set_values_remove: "set (im_values (shift_remove k m)) \<subseteq> set (im_values m)"
  by (auto simp: im_values_def shift_remove_def AList.delete_eq)

lemma set_values_ops:
  "set (im_values (lv_orders (level_add lev ord))) \<subseteq> insert ord (set (im_values (lv_orders lev)))"
  "set (im_values (lv_orders (level_delete lev ord))) \<subseteq> set (im_values (lv_orders lev))"
  "q_raw (bo_size ord) = 0 \<Longrightarrow> set (im_values (lv_orders (level_update lev ord))) \<subseteq> set (im_values (lv_orders lev))"
  "set (im_values (lv_orders (level_update lev ord))) \<subseteq> insert ord (set (im_values (lv_orders lev)))"
  using set_values_insert [of "bo_order_id ord" ord "lv_orders lev"]
    set_values_remove [of "bo_order_id ord" "lv_orders lev"]
  by (auto simp: level_add_def level_delete_def level_update_def)

lemma all_queued_get:
  assumes "levels_wf side m" and "all_queued P m" and "bt_get rank m bp = Some lev"
  shows "\<forall>ord \<in> set (im_values (lv_orders lev)). P ord"
  using bt_get_level [OF assms(1,3)] assms(2) by (auto simp: all_queued_def)

lemma all_queued_put_level:
  assumes wf: "levels_wf side m" and "all_queued P m"
    and "\<forall>ord \<in> set (im_values (lv_orders lev)). P ord"
  shows "all_queued P (put_level bp lev m)"
proof -
  note bw = levels_wfD(1) [OF wf]
  have "set (put_level bp lev m) \<subseteq> insert (lv_price lev, lev) (set m) \<union> {(k, lev) | k. True}"
  proof (cases "bt_get rank m bp")
    case None
    then show ?thesis by (auto simp: put_level_def set_bt_remove [OF bw] set_bt_insert_absent [OF bw])
  next
    case (Some old)
    with bt_get_level [OF wf Some] show ?thesis
      by (auto simp: put_level_def set_bt_remove [OF bw] set_bt_insert_present [OF bw, of "lv_price old" old])
  qed
  then show ?thesis using assms(2,3) by (fastforce simp: all_queued_def)
qed

text \<open>Replacing the level at a price of the ladder's side.\<close>

lemma ladder_shape_put_level:
  assumes sh: "ladder_shape P l" and "level_wf lev" "bp_side (lv_price lev) = ld_side l"
    and "case bt_get rank (ld_levels l) bp of Some old \<Rightarrow> lv_price lev = lv_price old | None \<Rightarrow> lv_price lev = bp"
    and "\<forall>ord \<in> set (im_values (lv_orders lev)). P ord"
    and "\<And>oid b. c oid = Some b \<Longrightarrow> bp_side b = ld_side l"
    and "ld_book_type l = L1_MBP \<Longrightarrow> length (put_level bp lev (ld_levels l)) \<le> 1"
  shows "ladder_shape P (l\<lparr>ld_levels := put_level bp lev (ld_levels l), ld_cache := c\<rparr>)"
  using put_level_wf [OF ladder_shapeD(1) [OF sh] assms(2-4)]
    all_queued_put_level [OF ladder_shapeD(1,2) [OF sh] assms(5)] assms(6,7)
  by (simp add: ladder_shape_def)

section \<open>Adding\<close>

lemma ladder_place_shape:
  assumes sh: "ladder_shape P l" and on: "on_side l ord" and pos: "quantity_is_positive (bo_size ord)"
    and P: "P ord"
  shows "\<exists>l'. ladder_place l ord = Some l' \<and> ladder_shape P (l'\<lparr>ld_book_type := L3_MBO\<rparr>) \<and>
    ld_side l' = ld_side l \<and> ld_book_type l' = ld_book_type l"
proof -
  define bp where "bp = \<lparr>bp_value = bo_price ord, bp_side = ld_side l\<rparr>"
  note wf = ladder_shapeD(1) [OF sh]
  note jw = join_level_wf [OF wf on pos, folded bp_def]
  have "\<forall>x \<in> set (im_values (lv_orders (join_level l bp ord))). P x"
    using set_values_ops(1) P all_queued_get [OF wf ladder_shapeD(2) [OF sh], of bp]
    by (fastforce simp: join_level_def split: option.splits)
  then have "all_queued P (put_level bp (join_level l bp ord) (ld_levels l))"
    by (rule all_queued_put_level [OF wf ladder_shapeD(2) [OF sh]])
  moreover have "levels_wf (ld_side l) (put_level bp (join_level l bp ord) (ld_levels l))"
    by (rule put_level_wf [OF wf jw(1-3)])
  ultimately show ?thesis using ladder_place_eq [OF wf on pos, folded bp_def] ladder_shapeD(3) [OF sh]
    by (simp add: ladder_shape_def bp_def)
qed

lemma retain_best_only_shape:
  assumes "ladder_shape P (l\<lparr>ld_book_type := bt\<rparr>)"
  shows "ladder_shape P (retain_best_only l)"
proof (cases "length (ld_levels l) \<le> 1")
  case True
  then have "retain_best_only l = l" by (simp add: retain_best_only_def)
  with True assms show ?thesis by (simp add: ladder_shape_def)
next
  case False
  have wf: "levels_wf (ld_side l) (ld_levels l)" using assms by (simp add: ladder_shape_def)
  obtain k lev rest where m: "ld_levels l = (k, lev) # rest"
    and r: "retain_best_only l = l\<lparr>ld_levels := [(k, lev)], ld_cache := cache_level Map.empty (k, lev)\<rparr>"
    using retain_best_only_eq [OF wf] False by auto
  with assms wf show ?thesis
    by (auto simp: ladder_shape_def levels_wf_def all_queued_def cache_level_eq split: if_splits)
qed

lemma handle_l1_add_shape: "ladder_shape P l \<Longrightarrow> ladder_shape P (snd (handle_l1_add l ord flags))"
  by (auto simp: handle_l1_add_def Let_def)

lemma ladder_add_shape:
  assumes sh: "ladder_shape P l" and on: "on_side l ord" and P: "quantity_is_positive (bo_size ord) \<Longrightarrow> P ord"
  shows "\<exists>l'. ladder_add l ord flags = Some l' \<and> ladder_shape P l' \<and>
    ld_side l' = ld_side l \<and> ld_book_type l' = ld_book_type l"
proof (cases "ld_book_type l = L1_MBP")
  case l1: True
  obtain c m where h: "handle_l1_add l ord flags = (c, m)" by fastforce
  note hc = handle_l1_add_cases [OF h]
  have m: "ladder_shape P m" using handle_l1_add_shape [OF sh, of ord flags] h by simp
  have on': "on_side m ord" using on on_side_cong hc(2) by blast
  show ?thesis
  proof (cases "quantity_is_positive (bo_size ord)")
    case pos: True
    obtain m' where place: "ladder_place m ord = Some m'" "ladder_shape P (m'\<lparr>ld_book_type := L3_MBO\<rparr>)"
      "ld_side m' = ld_side m" "ld_book_type m' = ld_book_type m"
      using ladder_place_shape [OF m on' pos P [OF pos]] by blast
    have "ladder_shape P (retain_best_only m')" by (rule retain_best_only_shape [OF place(2)])
    moreover have "ladder_shape P m'" if "ld_levels m = []"
      using ladder_place_from_empty [OF that on' pos place(1)] place(2) by (auto simp: ladder_shape_def)
    ultimately show ?thesis using ladder_add_l1 [OF l1 h] pos place hc l1 by auto
  next
    case False
    then show ?thesis using ladder_add_l1 [OF l1 h] m hc by auto
  qed
next
  case False
  show ?thesis
  proof (cases "quantity_is_positive (bo_size ord)")
    case pos: True
    obtain l' where place: "ladder_place l ord = Some l'" "ladder_shape P (l'\<lparr>ld_book_type := L3_MBO\<rparr>)"
      "ld_side l' = ld_side l" "ld_book_type l' = ld_book_type l"
      using ladder_place_shape [OF sh on pos P [OF pos]] by blast
    then have "ladder_shape P l'" using False by (simp add: ladder_shape_def)
    then show ?thesis using ladder_add_other [OF False] pos place by auto
  qed (use ladder_add_other [OF False] sh in auto)
qed

section \<open>Removing and updating\<close>

lemma put_level_length':
  assumes "bt_get rank m bp = Some old" and "length m \<le> n"
  shows "length (put_level bp lev m) \<le> n"
  using put_level_length [OF assms(1), of lev] assms(2) by linarith

lemma ladder_shape_shrink:
  assumes sh: "ladder_shape P l" and get: "bt_get rank (ld_levels l) bp = Some old"
    and "level_wf lev" "lv_price lev = lv_price old"
    and "\<forall>ord \<in> set (im_values (lv_orders lev)). P ord"
    and "\<And>oid b. c oid = Some b \<Longrightarrow> ld_cache l oid = Some b"
  shows "ladder_shape P (l\<lparr>ld_levels := put_level bp lev (ld_levels l), ld_cache := c\<rparr>)"
proof (rule ladder_shape_put_level [OF sh])
  show "bp_side b = ld_side l" if "c oid = Some b" for oid b
    using assms(6) that ladder_shapeD(3) [OF sh] by blast
qed (use bt_get_level [OF ladder_shapeD(1) [OF sh] get] assms(3-5) get ladder_shapeD(4) [OF sh] in
    \<open>auto intro: put_level_length'\<close>)

lemma ladder_remove_order_shape:
  assumes sh: "ladder_shape P l"
  shows "\<exists>l'. ladder_remove_order l oid = Some l' \<and> ladder_shape P l' \<and>
    ld_side l' = ld_side l \<and> ld_book_type l' = ld_book_type l"
proof (cases "Option.bind (ld_cache l oid) (\<lambda>bp. bt_get rank (ld_levels l) bp)")
  case None
  then show ?thesis using sh ladder_shapeD(1,3) [OF sh]
    by (auto simp: ladder_remove_order_def bind_None_conv split: option.splits)
next
  case (Some lev)
  note wf = ladder_shapeD(1) [OF sh]
  from Some obtain bp where bp: "ld_cache l oid = Some bp" "bt_get rank (ld_levels l) bp = Some lev"
    by (auto simp: bind_Some_conv)
  let ?lev = "lev\<lparr>lv_orders := shift_remove oid (lv_orders lev)\<rparr>"
  let ?l = "l\<lparr>ld_levels := put_level bp ?lev (ld_levels l), ld_cache := (ld_cache l)(oid := None)\<rparr>"
  have "ladder_shape P ?l"
    using all_queued_get [OF wf ladder_shapeD(2) [OF sh] bp(2)] set_values_remove [of oid "lv_orders lev"]
      bt_get_level [OF wf bp(2)]
    by (intro ladder_shape_shrink [OF sh bp(2)]) (auto simp: level_wf_remove split: if_splits)
  moreover have "ladder_remove_order l oid = Some (if im_get (lv_orders lev) oid = None then l else ?l)"
    using bp wf ladder_shapeD(3) [OF sh bp(1)]
    by (auto simp: ladder_remove_order_def level_remove_by_id_def level_is_empty_def put_level_def)
  ultimately show ?thesis using sh by auto
qed

lemma ladder_update_shape:
  assumes sh: "ladder_shape P l" and on: "on_side l ord" and P: "q_raw (bo_size ord) \<noteq> 0 \<Longrightarrow> P ord"
  shows "\<exists>l'. ladder_update l ord flags = Some l' \<and> ladder_shape P l' \<and>
    ld_side l' = ld_side l \<and> ld_book_type l' = ld_book_type l"
proof -
  have add: "\<exists>l'. (if quantity_is_positive (bo_size ord) then ladder_add m ord flags else Some m) = Some l' \<and>
      ladder_shape P l' \<and> ld_side l' = ld_side l \<and> ld_book_type l' = ld_book_type l"
    if "ladder_shape P m" "ld_side m = ld_side l" "ld_book_type m = ld_book_type l" for m
    using ladder_add_shape [OF that(1), of ord flags] on on_side_cong [OF that(2), of ord] that P positive_not_zero
    by auto
  show ?thesis
  proof (cases "Option.bind (ld_cache l (bo_order_id ord)) (\<lambda>bp. bt_get rank (ld_levels l) bp)")
    case None
    then show ?thesis using add [OF sh] ladder_shapeD(1,3) [OF sh]
      by (auto simp: ladder_update_def bind_None_conv Let_def split: option.splits)
  next
    case (Some lev)
    note wf = ladder_shapeD(1) [OF sh]
    from Some obtain bp where bp: "ld_cache l (bo_order_id ord) = Some bp" "bt_get rank (ld_levels l) bp = Some lev"
      by (auto simp: bind_Some_conv)
    note lw = bt_get_level [OF wf bp(2)]
    note q = all_queued_get [OF wf ladder_shapeD(2) [OF sh] bp(2)]
    let ?c = "(ld_cache l)(bo_order_id ord := None)"
    show ?thesis
    proof (cases "p_raw (bo_price ord) = p_raw (bp_value (lv_price lev))")
      case True
      let ?lev = "level_update lev ord"
      let ?cu = "if q_raw (bo_size ord) = 0 then ?c else ld_cache l"
      have "order_at (lv_price lev) ord" if "q_raw (bo_size ord) \<noteq> 0"
        using True that on lw by (simp add: order_at_def on_side_def)
      then have "ladder_shape P (l\<lparr>ld_levels := put_level bp ?lev (ld_levels l), ld_cache := ?cu\<rparr>)"
        using q P set_values_ops(3) [of ord lev] set_values_ops(4) [of lev ord] lw
        by (intro ladder_shape_shrink [OF sh bp(2)])
          (auto simp: level_wf_update split: if_splits)
      moreover have "ladder_update l ord flags =
          Some (l\<lparr>ld_levels := put_level bp ?lev (ld_levels l), ld_cache := ?cu\<rparr>)"
        using bp wf ladder_shapeD(3) [OF sh bp(1)] True
        by (auto simp: ladder_update_def level_is_empty_def put_level_def Let_def)
      ultimately show ?thesis by auto
    next
      case False
      let ?lev = "level_delete lev ord"
      let ?l = "l\<lparr>ld_levels := put_level bp ?lev (ld_levels l), ld_cache := ?c\<rparr>"
      have "ladder_shape P ?l"
        using q set_values_ops(2) [of lev ord] lw
        by (intro ladder_shape_shrink [OF sh bp(2)]) (auto simp: level_wf_delete split: if_splits)
      moreover have "ladder_update l ord flags =
          (if quantity_is_positive (bo_size ord) then ladder_add ?l ord flags else Some ?l)"
        using bp wf ladder_shapeD(3) [OF sh bp(1)] False
        by (auto simp: ladder_update_def level_is_empty_def put_level_def Let_def)
      ultimately show ?thesis using add [of ?l] by simp
    qed
  qed
qed

lemma ladder_remove_level_shape:
  assumes sh: "ladder_shape P l" and side: "bp_side bp = ld_side l"
  shows "\<exists>l'. ladder_remove_level l bp = Some (bt_get rank (ld_levels l) bp, l') \<and> ladder_shape P l' \<and>
    ld_levels l' = bt_remove rank bp (ld_levels l) \<and>
    ld_side l' = ld_side l \<and> ld_book_type l' = ld_book_type l"
proof (cases "bt_get rank (ld_levels l) bp")
  case None
  have "bt_get rank m bp = None \<Longrightarrow> bt_remove rank bp m = m" for m :: "(book_price, book_level) btree_map"
    by (induction m) (auto split: if_splits)
  with None show ?thesis using sh side ladder_shapeD(1) [OF sh] by (simp add: ladder_remove_level_def)
next
  case (Some lev)
  let ?c = "\<lambda>oid. if oid \<in> level_ids lev then None else ld_cache l oid"
  let ?e = "lev\<lparr>lv_orders := []\<rparr>"
  have "ladder_shape P (l\<lparr>ld_levels := put_level bp ?e (ld_levels l), ld_cache := ?c\<rparr>)"
    using bt_get_level [OF ladder_shapeD(1) [OF sh] Some]
    by (intro ladder_shape_shrink [OF sh Some]) (auto simp: level_wf_def split: if_splits)
  then show ?thesis using Some side ladder_shapeD(1) [OF sh]
    by (simp add: ladder_remove_level_def foldl_forget put_level_def)
qed

end
