(* ===== verification/Order_Book.thy ===== *)
theory Order_Book
  imports Ladder_Shape
begin

text \<open>
  \<open>OrderBook\<close> (\<open>crates/model/src/orderbook/book.rs\<close>), its integrity check and depth
  analysis (\<open>analysis.rs\<close>, \<open>error.rs\<close>) and the market data it is driven by
  (\<open>data/delta.rs\<close>, \<open>deltas.rs\<close>, \<open>depth.rs\<close>, \<open>quote.rs\<close>,
  \<open>trade.rs\<close>).

  A method that returns \<open>Result\<close> and mutates the book gives the result together with the
  book it leaves, so that the state after an error is part of the model. Log output is not
  modelled. Analysis that computes in \<open>f64\<close> (average prices, spread, midpoint) is not
  modelled.

  The lemmas show that a book never panics on the deltas it accepts, that it keeps the
  invariant of both sides, that an aggregated book has one order per level, that removing
  stale levels uncrosses a book, that a snapshot of deltas rebuilds the book, and that
  sequence number and time stamp never go back.
\<close>

section \<open>Market data\<close>

record instrument_id =
  symbol :: string
  venue :: string

record order_book_delta =
  dl_instrument_id :: instrument_id
  dl_action :: book_action
  dl_order :: book_order
  dl_flags :: u8
  dl_sequence :: u64
  dl_ts_event :: u64
  dl_ts_init :: u64

definition delta_new_checked ::
  "instrument_id \<Rightarrow> book_action \<Rightarrow> book_order \<Rightarrow> u8 \<Rightarrow> u64 \<Rightarrow> u64 \<Rightarrow> u64 \<Rightarrow> value_error + order_book_delta" where
  "delta_new_checked iid action ord flags sequence ts_event ts_init =
     and_then (if action = Add \<or> action = Update then check_positive_quantity (bo_size ord) else Inr ())
       (\<lambda>_. Inr \<lparr>dl_instrument_id = iid, dl_action = action, dl_order = ord, dl_flags = flags,
          dl_sequence = sequence, dl_ts_event = ts_event, dl_ts_init = ts_init\<rparr>)"

text \<open>The value of a result that the source unwraps with \<open>expect\<close>.\<close>

definition expect :: "'e + 'a \<Rightarrow> 'a panics" where
  "expect r = (case r of Inl _ \<Rightarrow> None | Inr x \<Rightarrow> Some x)"

definition delta_new ::
  "instrument_id \<Rightarrow> book_action \<Rightarrow> book_order \<Rightarrow> u8 \<Rightarrow> u64 \<Rightarrow> u64 \<Rightarrow> u64 \<Rightarrow> order_book_delta panics" where
  "delta_new iid action ord flags sequence ts_event ts_init =
     expect (delta_new_checked iid action ord flags sequence ts_event ts_init)"

definition delta_clear :: "instrument_id \<Rightarrow> u64 \<Rightarrow> u64 \<Rightarrow> u64 \<Rightarrow> order_book_delta" where
  "delta_clear iid sequence ts_event ts_init =
     \<lparr>dl_instrument_id = iid, dl_action = Clear, dl_order = NULL_ORDER, dl_flags = flag_value F_SNAPSHOT,
      dl_sequence = sequence, dl_ts_event = ts_event, dl_ts_init = ts_init\<rparr>"

record order_book_deltas =
  ds_instrument_id :: instrument_id
  ds_deltas :: "order_book_delta list"
  ds_flags :: u8
  ds_sequence :: u64
  ds_ts_event :: u64
  ds_ts_init :: u64

datatype deltas_error = EmptyDeltas

definition deltas_new_checked :: "instrument_id \<Rightarrow> order_book_delta list \<Rightarrow> deltas_error + order_book_deltas" where
  "deltas_new_checked iid deltas =
     (if deltas = [] then Inl EmptyDeltas
      else Inr \<lparr>ds_instrument_id = iid, ds_deltas = deltas, ds_flags = dl_flags (last deltas),
        ds_sequence = dl_sequence (last deltas), ds_ts_event = dl_ts_event (last deltas),
        ds_ts_init = dl_ts_init (last deltas)\<rparr>)"

definition deltas_new :: "instrument_id \<Rightarrow> order_book_delta list \<Rightarrow> order_book_deltas panics" where
  "deltas_new iid deltas = expect (deltas_new_checked iid deltas)"

text \<open>The ten-element arrays of a depth snapshot are lists here; no operation of the book
  depends on the length.\<close>

record order_book_depth10 =
  dp_instrument_id :: instrument_id
  dp_bids :: "book_order list"
  dp_asks :: "book_order list"
  dp_bid_counts :: "32 word list"
  dp_ask_counts :: "32 word list"
  dp_flags :: u8
  dp_sequence :: u64
  dp_ts_event :: u64
  dp_ts_init :: u64

record quote_tick =
  qt_instrument_id :: instrument_id
  qt_bid_price :: price
  qt_ask_price :: price
  qt_bid_size :: quantity
  qt_ask_size :: quantity
  qt_ts_event :: u64
  qt_ts_init :: u64

datatype quote_error = PricePrecisionMismatch nat nat | SizePrecisionMismatch nat nat

definition quote_new_checked ::
  "instrument_id \<Rightarrow> price \<Rightarrow> price \<Rightarrow> quantity \<Rightarrow> quantity \<Rightarrow> u64 \<Rightarrow> u64 \<Rightarrow> quote_error + quote_tick" where
  "quote_new_checked iid bid ask bid_size ask_size ts_event ts_init =
     (if p_prec bid \<noteq> p_prec ask then Inl (PricePrecisionMismatch (p_prec bid) (p_prec ask))
      else if q_prec bid_size \<noteq> q_prec ask_size
      then Inl (SizePrecisionMismatch (q_prec bid_size) (q_prec ask_size))
      else Inr \<lparr>qt_instrument_id = iid, qt_bid_price = bid, qt_ask_price = ask, qt_bid_size = bid_size,
        qt_ask_size = ask_size, qt_ts_event = ts_event, qt_ts_init = ts_init\<rparr>)"

definition quote_new ::
  "instrument_id \<Rightarrow> price \<Rightarrow> price \<Rightarrow> quantity \<Rightarrow> quantity \<Rightarrow> u64 \<Rightarrow> u64 \<Rightarrow> quote_tick panics" where
  "quote_new iid bid ask bid_size ask_size ts_event ts_init =
     expect (quote_new_checked iid bid ask bid_size ask_size ts_event ts_init)"

datatype aggressor_side = NoAggressor | Buyer | Seller

record trade_tick =
  tt_instrument_id :: instrument_id
  tt_price :: price
  tt_size :: quantity
  tt_aggressor_side :: aggressor_side
  tt_trade_id :: string
  tt_ts_event :: u64
  tt_ts_init :: u64

definition trade_new_checked ::
  "instrument_id \<Rightarrow> price \<Rightarrow> quantity \<Rightarrow> aggressor_side \<Rightarrow> string \<Rightarrow> u64 \<Rightarrow> u64 \<Rightarrow> value_error + trade_tick" where
  "trade_new_checked iid price qty agg tid ts_event ts_init =
     and_then (check_positive_quantity qty)
       (\<lambda>_. Inr \<lparr>tt_instrument_id = iid, tt_price = price, tt_size = qty, tt_aggressor_side = agg,
          tt_trade_id = tid, tt_ts_event = ts_event, tt_ts_init = ts_init\<rparr>)"

section \<open>The book\<close>

datatype invalid_book_operation = PreProcessOrder book_type | AddOp book_type | UpdateOp book_type

datatype book_integrity_error =
    OrderNotFound u64 u64 u64
  | NoOrderSideError
  | OrderNotFoundForSideResolution u64
  | OrdersCrossed book_price book_price
  | TooManyOrders order_side nat
  | TooManyLevels order_side nat
  | InstrumentMismatch instrument_id instrument_id

record order_book =
  ob_instrument_id :: instrument_id
  ob_book_type :: book_type
  ob_sequence :: u64
  ob_ts_last :: u64
  ob_update_count :: u64
  ob_bids :: book_ladder
  ob_asks :: book_ladder

definition book_new :: "instrument_id \<Rightarrow> book_type \<Rightarrow> order_book" where
  "book_new iid bt = \<lparr>ob_instrument_id = iid, ob_book_type = bt, ob_sequence = 0, ob_ts_last = 0,
     ob_update_count = 0, ob_bids = ladder_new SBuy bt, ob_asks = ladder_new SSell bt\<rparr>"

definition book_reset :: "order_book \<Rightarrow> order_book" where
  "book_reset b = b\<lparr>ob_bids := ladder_clear (ob_bids b), ob_asks := ladder_clear (ob_asks b),
     ob_sequence := 0, ob_ts_last := 0, ob_update_count := 0\<rparr>"

definition book_increment :: "order_book \<Rightarrow> u64 \<Rightarrow> u64 \<Rightarrow> order_book" where
  "book_increment b sequence ts_event =
     b\<lparr>ob_sequence := max sequence (ob_sequence b), ob_ts_last := max ts_event (ob_ts_last b),
       ob_update_count := saturating_add (ob_update_count b) 1\<rparr>"

definition book_add :: "(int \<Rightarrow> u64) \<Rightarrow> order_book \<Rightarrow> book_order \<Rightarrow> u8 \<Rightarrow> u64 \<Rightarrow> u64 \<Rightarrow> order_book panics" where
  "book_add hash b ord0 flags sequence ts_event = do {
     let ord = pre_process_order hash (ob_book_type b) ord0 flags;
     side \<leftarrow> as_specified (bo_side ord);
     b' \<leftarrow> (case side of
         SBuy \<Rightarrow> map_option (\<lambda>l. b\<lparr>ob_bids := l\<rparr>) (ladder_add (ob_bids b) ord flags)
       | SSell \<Rightarrow> map_option (\<lambda>l. b\<lparr>ob_asks := l\<rparr>) (ladder_add (ob_asks b) ord flags));
     Some (book_increment b' sequence ts_event)
   }"

definition book_update :: "(int \<Rightarrow> u64) \<Rightarrow> order_book \<Rightarrow> book_order \<Rightarrow> u8 \<Rightarrow> u64 \<Rightarrow> u64 \<Rightarrow> order_book panics" where
  "book_update hash b ord0 flags sequence ts_event = do {
     let ord = pre_process_order hash (ob_book_type b) ord0 flags;
     side \<leftarrow> as_specified (bo_side ord);
     b' \<leftarrow> (case side of
         SBuy \<Rightarrow> map_option (\<lambda>l. b\<lparr>ob_bids := l\<rparr>) (ladder_update (ob_bids b) ord flags)
       | SSell \<Rightarrow> map_option (\<lambda>l. b\<lparr>ob_asks := l\<rparr>) (ladder_update (ob_asks b) ord flags));
     Some (book_increment b' sequence ts_event)
   }"

definition book_delete :: "(int \<Rightarrow> u64) \<Rightarrow> order_book \<Rightarrow> book_order \<Rightarrow> u8 \<Rightarrow> u64 \<Rightarrow> u64 \<Rightarrow> order_book panics" where
  "book_delete hash b ord0 flags sequence ts_event = do {
     let ord = pre_process_order hash (ob_book_type b) ord0 flags;
     side \<leftarrow> as_specified (bo_side ord);
     b' \<leftarrow> (case side of
         SBuy \<Rightarrow> map_option (\<lambda>l. b\<lparr>ob_bids := l\<rparr>) (ladder_delete (ob_bids b) ord)
       | SSell \<Rightarrow> map_option (\<lambda>l. b\<lparr>ob_asks := l\<rparr>) (ladder_delete (ob_asks b) ord));
     Some (book_increment b' sequence ts_event)
   }"

definition book_clear :: "order_book \<Rightarrow> u64 \<Rightarrow> u64 \<Rightarrow> order_book" where
  "book_clear b sequence ts_event =
     book_increment (b\<lparr>ob_bids := ladder_clear (ob_bids b), ob_asks := ladder_clear (ob_asks b)\<rparr>) sequence ts_event"

definition book_clear_bids :: "order_book \<Rightarrow> u64 \<Rightarrow> u64 \<Rightarrow> order_book" where
  "book_clear_bids b sequence ts_event =
     book_increment (b\<lparr>ob_bids := ladder_clear (ob_bids b)\<rparr>) sequence ts_event"

definition book_clear_asks :: "order_book \<Rightarrow> u64 \<Rightarrow> u64 \<Rightarrow> order_book" where
  "book_clear_asks b sequence ts_event =
     book_increment (b\<lparr>ob_asks := ladder_clear (ob_asks b)\<rparr>) sequence ts_event"

definition has_bid :: "order_book \<Rightarrow> bool" where
  "has_bid b = (case ladder_top (ob_bids b) of None \<Rightarrow> False | Some tp \<Rightarrow> \<not> level_is_empty tp)"

definition has_ask :: "order_book \<Rightarrow> bool" where
  "has_ask b = (case ladder_top (ob_asks b) of None \<Rightarrow> False | Some tp \<Rightarrow> \<not> level_is_empty tp)"

definition best_bid_price :: "order_book \<Rightarrow> price option" where
  "best_bid_price b = map_option (\<lambda>tp. bp_value (lv_price tp)) (ladder_top (ob_bids b))"

definition best_ask_price :: "order_book \<Rightarrow> price option" where
  "best_ask_price b = map_option (\<lambda>tp. bp_value (lv_price tp)) (ladder_top (ob_asks b))"

definition best_bid_size :: "order_book \<Rightarrow> quantity option" where
  "best_bid_size b = Option.bind (ladder_top (ob_bids b)) (\<lambda>tp. map_option bo_size (level_first tp))"

definition best_ask_size :: "order_book \<Rightarrow> quantity option" where
  "best_ask_size b = Option.bind (ladder_top (ob_asks b)) (\<lambda>tp. map_option bo_size (level_first tp))"

text \<open>The levels of a side, the first \<open>depth\<close> of them when a depth is given.\<close>

definition book_bids :: "order_book \<Rightarrow> nat option \<Rightarrow> book_level list" where
  "book_bids b depth =
     (case depth of None \<Rightarrow> bt_values (ld_levels (ob_bids b)) | Some n \<Rightarrow> take n (bt_values (ld_levels (ob_bids b))))"

definition book_asks :: "order_book \<Rightarrow> nat option \<Rightarrow> book_level list" where
  "book_asks b depth =
     (case depth of None \<Rightarrow> bt_values (ld_levels (ob_asks b)) | Some n \<Rightarrow> take n (bt_values (ld_levels (ob_asks b))))"

section \<open>Stale levels\<close>

text \<open>The loop that removes the collected prices, pushing the removed levels.\<close>

fun remove_levels :: "book_price list \<Rightarrow> book_level list \<Rightarrow> book_ladder \<Rightarrow> (book_level list \<times> book_ladder) panics" where
  "remove_levels [] removed l = Some (removed, l)"
| "remove_levels (p # ps) removed l = do {
     r \<leftarrow> ladder_remove_level l p;
     (case r of (found, l') \<Rightarrow>
        remove_levels ps (case found of None \<Rightarrow> removed | Some lev \<Rightarrow> removed @ [lev]) l')
   }"

definition clear_stale_levels :: "order_book \<Rightarrow> order_side option \<Rightarrow> (book_level list option \<times> order_book) panics" where
  "clear_stale_levels b side =
     (if ob_book_type b = L1_MBP then Some (None, b)
      else case (best_bid_price b, best_ask_price b) of
        (Some best_bid, Some best_ask) \<Rightarrow>
          if p_raw best_bid \<le> p_raw best_ask then Some (None, b)
          else do {
            let clear_bids = (side \<noteq> Some Sell);
            let clear_asks = (side \<noteq> Some Buy);
            let ask_prices = (if clear_asks
              then takeWhile (\<lambda>bp. p_raw (bp_value bp) \<le> p_raw best_bid) (bt_keys (ld_levels (ob_asks b))) else []);
            let bid_prices = (if clear_bids
              then takeWhile (\<lambda>bp. p_raw (bp_value bp) \<ge> p_raw best_ask) (bt_keys (ld_levels (ob_bids b))) else []);
            if ask_prices = [] \<and> bid_prices = [] then Some (None, b)
            else do {
              (removed, bids) \<leftarrow> remove_levels bid_prices [] (ob_bids b);
              (removed', asks) \<leftarrow> remove_levels ask_prices removed (ob_asks b);
              let b' = book_increment (b\<lparr>ob_bids := bids, ob_asks := asks\<rparr>) (ob_sequence b) (ob_ts_last b);
              Some (if removed' = [] then None else Some removed', b')
            }
          }
      | _ \<Rightarrow> Some (None, b))"

section \<open>Deltas\<close>

definition resolve_no_side_order :: "order_book \<Rightarrow> book_order \<Rightarrow> book_integrity_error + book_order" where
  "resolve_no_side_order b ord =
     (case (case ld_cache (ob_bids b) (bo_order_id ord) of
              Some bp \<Rightarrow> Some bp | None \<Rightarrow> ld_cache (ob_asks b) (bo_order_id ord)) of
        None \<Rightarrow> Inl (OrderNotFoundForSideResolution (bo_order_id ord))
      | Some bp \<Rightarrow> Inr (ord\<lparr>bo_side := (case bp_side bp of SBuy \<Rightarrow> Buy | SSell \<Rightarrow> Sell)\<rparr>))"

text \<open>The dispatch on the action at the end of \<open>apply_delta_unchecked\<close>, with the guard
  against an order that still has no side.\<close>

definition dispatch_delta ::
  "(int \<Rightarrow> u64) \<Rightarrow> order_book \<Rightarrow> order_book_delta \<Rightarrow> book_order \<Rightarrow> ((book_integrity_error + unit) \<times> order_book) panics" where
  "dispatch_delta hash b delta ord =
     (if bo_side ord = NoOrderSide \<and> dl_action delta \<noteq> Clear then Some (Inl NoOrderSideError, b)
      else let flags = dl_flags delta; sequence = dl_sequence delta; ts_event = dl_ts_event delta
      in map_option (\<lambda>b'. (Inr (), b'))
        (case dl_action delta of
           Add \<Rightarrow> book_add hash b ord flags sequence ts_event
         | Update \<Rightarrow> book_update hash b ord flags sequence ts_event
         | Delete \<Rightarrow> book_delete hash b ord flags sequence ts_event
         | Clear \<Rightarrow> Some (book_clear b sequence ts_event)))"

definition apply_delta_unchecked ::
  "(int \<Rightarrow> u64) \<Rightarrow> order_book \<Rightarrow> order_book_delta \<Rightarrow> ((book_integrity_error + unit) \<times> order_book) panics" where
  "apply_delta_unchecked hash b delta =
     (let ord = dl_order delta in
      if bo_side ord = NoOrderSide \<and> bo_order_id ord \<noteq> 0 then
        (case resolve_no_side_order b ord of
           Inr resolved \<Rightarrow> dispatch_delta hash b delta resolved
         | Inl (OrderNotFoundForSideResolution oid) \<Rightarrow>
             (case dl_action delta of
                Add \<Rightarrow> Some (Inl NoOrderSideError, b)
              | Update \<Rightarrow> Some (Inr (), b)
              | Delete \<Rightarrow> Some (Inr (), b)
              | Clear \<Rightarrow> dispatch_delta hash b delta ord)
         | Inl e \<Rightarrow> Some (Inl e, b))
      else dispatch_delta hash b delta ord)"

definition apply_delta ::
  "(int \<Rightarrow> u64) \<Rightarrow> order_book \<Rightarrow> order_book_delta \<Rightarrow> ((book_integrity_error + unit) \<times> order_book) panics" where
  "apply_delta hash b delta =
     (if dl_instrument_id delta \<noteq> ob_instrument_id b
      then Some (Inl (InstrumentMismatch (ob_instrument_id b) (dl_instrument_id delta)), b)
      else apply_delta_unchecked hash b delta)"

fun apply_delta_list ::
  "(int \<Rightarrow> u64) \<Rightarrow> order_book \<Rightarrow> order_book_delta list \<Rightarrow> ((book_integrity_error + unit) \<times> order_book) panics" where
  "apply_delta_list hash b [] = Some (Inr (), b)"
| "apply_delta_list hash b (delta # deltas) = do {
     r \<leftarrow> apply_delta_unchecked hash b delta;
     (case r of
        (Inl e, b') \<Rightarrow> Some (Inl e, b')
      | (Inr _, b') \<Rightarrow> apply_delta_list hash b' deltas)
   }"

definition apply_deltas_unchecked ::
  "(int \<Rightarrow> u64) \<Rightarrow> order_book \<Rightarrow> order_book_deltas \<Rightarrow> ((book_integrity_error + unit) \<times> order_book) panics" where
  "apply_deltas_unchecked hash b deltas = apply_delta_list hash b (ds_deltas deltas)"

definition apply_deltas ::
  "(int \<Rightarrow> u64) \<Rightarrow> order_book \<Rightarrow> order_book_deltas \<Rightarrow> ((book_integrity_error + unit) \<times> order_book) panics" where
  "apply_deltas hash b deltas =
     (if ds_instrument_id deltas \<noteq> ob_instrument_id b
      then Some (Inl (InstrumentMismatch (ob_instrument_id b) (ds_instrument_id deltas)), b)
      else apply_deltas_unchecked hash b deltas)"

text \<open>\<open>to_deltas\<close>: one \<open>Add\<close> per order, the last one of the book flagged.\<close>

definition snapshot_flags :: "nat \<Rightarrow> nat \<Rightarrow> u8" where
  "snapshot_flags order_count total_orders =
     (if order_count = total_orders then flag_value F_SNAPSHOT OR flag_value F_LAST else flag_value F_SNAPSHOT)"

fun snapshot_adds ::
  "order_book \<Rightarrow> u64 \<Rightarrow> u64 \<Rightarrow> nat \<Rightarrow> nat \<Rightarrow> book_order list \<Rightarrow> order_book_delta list panics" where
  "snapshot_adds b ts_event ts_init total_orders order_count [] = Some []"
| "snapshot_adds b ts_event ts_init total_orders order_count (ord # ords) = do {
     d \<leftarrow> delta_new (ob_instrument_id b) Add ord (snapshot_flags (order_count + 1) total_orders) (ob_sequence b) ts_event ts_init;
     ds \<leftarrow> snapshot_adds b ts_event ts_init total_orders (order_count + 1) ords;
     Some (d # ds)
   }"

definition to_deltas :: "order_book \<Rightarrow> u64 \<Rightarrow> u64 \<Rightarrow> order_book_deltas panics" where
  "to_deltas b ts_event ts_init = do {
     let total_orders = sum_list (map level_len (book_bids b None)) + sum_list (map level_len (book_asks b None));
     let clear0 = delta_clear (ob_instrument_id b) (ob_sequence b) ts_event ts_init;
     let clear = (if total_orders = 0 then clear0\<lparr>dl_flags := dl_flags clear0 OR flag_value F_LAST\<rparr> else clear0);
     adds \<leftarrow> snapshot_adds b ts_event ts_init total_orders 0
       (concat (map level_get_orders (book_bids b None)) @ concat (map level_get_orders (book_asks b None)));
     deltas_new (ob_instrument_id b) (clear # adds)
   }"

section \<open>Depth snapshots and ticks\<close>

text \<open>The loop over one side of a depth snapshot: padding and orders of the other side are
  skipped.\<close>

fun depth_side ::
  "(int \<Rightarrow> u64) \<Rightarrow> book_type \<Rightarrow> order_side \<Rightarrow> u8 \<Rightarrow> book_order list \<Rightarrow> book_ladder \<Rightarrow> book_ladder panics" where
  "depth_side hash bt side flags [] l = Some l"
| "depth_side hash bt side flags (ord # ords) l =
     (if bo_side ord = NoOrderSide \<or> \<not> quantity_is_positive (bo_size ord) then depth_side hash bt side flags ords l
      else if bo_side ord \<noteq> side then depth_side hash bt side flags ords l
      else do {
        l' \<leftarrow> ladder_add l (pre_process_order hash bt ord flags) flags;
        depth_side hash bt side flags ords l'
      })"

definition apply_depth_unchecked ::
  "(int \<Rightarrow> u64) \<Rightarrow> order_book \<Rightarrow> order_book_depth10 \<Rightarrow> ((book_integrity_error + unit) \<times> order_book) panics" where
  "apply_depth_unchecked hash b depth = do {
     bids \<leftarrow> depth_side hash (ob_book_type b) Buy (dp_flags depth) (dp_bids depth) (ladder_clear (ob_bids b));
     asks \<leftarrow> depth_side hash (ob_book_type b) Sell (dp_flags depth) (dp_asks depth) (ladder_clear (ob_asks b));
     Some (Inr (), book_increment (b\<lparr>ob_bids := bids, ob_asks := asks\<rparr>) (dp_sequence depth) (dp_ts_event depth))
   }"

definition apply_depth ::
  "(int \<Rightarrow> u64) \<Rightarrow> order_book \<Rightarrow> order_book_depth10 \<Rightarrow> ((book_integrity_error + unit) \<times> order_book) panics" where
  "apply_depth hash b depth =
     (if dp_instrument_id depth \<noteq> ob_instrument_id b
      then Some (Inl (InstrumentMismatch (ob_instrument_id b) (dp_instrument_id depth)), b)
      else apply_depth_unchecked hash b depth)"

text \<open>\<open>update_book_bid\<close> and \<open>update_book_ask\<close>: the same code on either ladder.\<close>

definition replace_top :: "book_ladder \<Rightarrow> book_order \<Rightarrow> book_ladder panics" where
  "replace_top l ord = do {
     l' \<leftarrow> (case Option.bind (ladder_top l) level_first of
         Some tp \<Rightarrow> ladder_remove_order l (bo_order_id tp)
       | None \<Rightarrow> Some l);
     ladder_add l' ord 0
   }"

definition update_book_bid :: "order_book \<Rightarrow> book_order \<Rightarrow> order_book panics" where
  "update_book_bid b ord = map_option (\<lambda>l. b\<lparr>ob_bids := l\<rparr>) (replace_top (ob_bids b) ord)"

definition update_book_ask :: "order_book \<Rightarrow> book_order \<Rightarrow> order_book panics" where
  "update_book_ask b ord = map_option (\<lambda>l. b\<lparr>ob_asks := l\<rparr>) (replace_top (ob_asks b) ord)"

definition update_quote_tick ::
  "order_book \<Rightarrow> quote_tick \<Rightarrow> ((invalid_book_operation + unit) \<times> order_book) panics" where
  "update_quote_tick b quote =
     (if ob_book_type b \<noteq> L1_MBP then Some (Inl (UpdateOp (ob_book_type b)), b)
      else if qt_ts_event quote < ob_ts_last b then Some (Inr (), b)
      else do {
        let bid = \<lparr>bo_side = Buy, bo_price = qt_bid_price quote, bo_size = qt_bid_size quote,
                   bo_order_id = side_value Buy\<rparr>;
        let ask = \<lparr>bo_side = Sell, bo_price = qt_ask_price quote, bo_size = qt_ask_size quote,
                   bo_order_id = side_value Sell\<rparr>;
        b1 \<leftarrow> update_book_bid b bid;
        b2 \<leftarrow> update_book_ask b1 ask;
        Some (Inr (), book_increment b2 (saturating_add (ob_sequence b2) 1) (qt_ts_event quote))
      })"

definition update_trade_tick ::
  "order_book \<Rightarrow> trade_tick \<Rightarrow> ((invalid_book_operation + unit) \<times> order_book) panics" where
  "update_trade_tick b trade =
     (if ob_book_type b \<noteq> L1_MBP then Some (Inl (UpdateOp (ob_book_type b)), b)
      else if tt_ts_event trade < ob_ts_last b then Some (Inr (), b)
      else do {
        let bid = \<lparr>bo_side = Buy, bo_price = tt_price trade, bo_size = tt_size trade,
                   bo_order_id = side_value Buy\<rparr>;
        let ask = \<lparr>bo_side = Sell, bo_price = tt_price trade, bo_size = tt_size trade,
                   bo_order_id = side_value Sell\<rparr>;
        b1 \<leftarrow> update_book_bid b bid;
        b2 \<leftarrow> update_book_ask b1 ask;
        Some (Inr (), book_increment b2 (saturating_add (ob_sequence b2) 1) (tt_ts_event trade))
      })"

section \<open>Analysis\<close>

fun worst_px_loop :: "nat \<Rightarrow> (book_price \<times> book_level) list \<Rightarrow> nat \<Rightarrow> price option \<Rightarrow> nat \<times> price option" where
  "worst_px_loop qty [] cum worst = (cum, worst)"
| "worst_px_loop qty ((bp, lev) # levs) cum worst =
     (let size_this_level = min (level_size_raw lev) (qty - cum) in
      if size_this_level = 0 then worst_px_loop qty levs cum worst
      else if cum + size_this_level \<ge> qty then (cum + size_this_level, Some (bp_value bp))
      else worst_px_loop qty levs (cum + size_this_level) (Some (bp_value bp)))"

definition worst_px_for_quantity :: "quantity \<Rightarrow> (book_price, book_level) btree_map \<Rightarrow> price option" where
  "worst_px_for_quantity qty levels =
     (case worst_px_loop (q_raw qty) levels 0 None of (cum, worst) \<Rightarrow> if cum = 0 then None else worst)"

definition get_worst_px_for_quantity :: "order_book \<Rightarrow> quantity \<Rightarrow> order_side \<Rightarrow> price option panics" where
  "get_worst_px_for_quantity b qty side =
     map_option (\<lambda>s. worst_px_for_quantity qty
         (case s of SBuy \<Rightarrow> ld_levels (ob_asks b) | SSell \<Rightarrow> ld_levels (ob_bids b))) (as_specified side)"

definition get_quantity_at_level :: "order_book \<Rightarrow> price \<Rightarrow> order_side \<Rightarrow> nat \<Rightarrow> quantity panics" where
  "get_quantity_at_level b price side size_precision = do {
     s \<leftarrow> as_specified side;
     let (levels, book_side) = (case s of SBuy \<Rightarrow> (ld_levels (ob_asks b), SSell) | SSell \<Rightarrow> (ld_levels (ob_bids b), SBuy));
     found \<leftarrow> levels_get levels \<lparr>bp_value = price, bp_side = book_side\<rparr>;
     zero \<leftarrow> quantity_zero size_precision;
     (case found of None \<Rightarrow> Some zero | Some lev \<Rightarrow> quantity_from_raw (level_size_raw lev) size_precision)
   }"

definition book_simulate_fills :: "order_book \<Rightarrow> book_order \<Rightarrow> (price \<times> quantity) list panics" where
  "book_simulate_fills b ord = do {
     s \<leftarrow> as_specified (bo_side ord);
     (case s of SBuy \<Rightarrow> ladder_simulate_fills (ob_asks b) ord | SSell \<Rightarrow> ladder_simulate_fills (ob_bids b) ord)
   }"

fun too_many_orders :: "order_side \<Rightarrow> book_level list \<Rightarrow> book_integrity_error + unit" where
  "too_many_orders side [] = Inr ()"
| "too_many_orders side (lev # levs) =
     (if level_len lev > 1 then Inl (TooManyOrders side (level_len lev)) else too_many_orders side levs)"

definition book_check_integrity :: "order_book \<Rightarrow> book_integrity_error + unit" where
  "book_check_integrity b =
     and_then
       (case ob_book_type b of
          L1_MBP \<Rightarrow>
            if ladder_len (ob_bids b) > 1 then Inl (TooManyLevels Buy (ladder_len (ob_bids b)))
            else if ladder_len (ob_asks b) > 1 then Inl (TooManyLevels Sell (ladder_len (ob_asks b)))
            else Inr ()
        | L2_MBP \<Rightarrow>
            and_then (too_many_orders Buy (bt_values (ld_levels (ob_bids b))))
              (\<lambda>_. too_many_orders Sell (bt_values (ld_levels (ob_asks b))))
        | L3_MBO \<Rightarrow> Inr ())
       (\<lambda>_. case (ladder_top (ob_bids b), ladder_top (ob_asks b)) of
          (Some top_bid, Some top_ask) \<Rightarrow>
            if p_raw (bp_value (lv_price top_bid)) > p_raw (bp_value (lv_price top_ask))
            then Inl (OrdersCrossed (lv_price top_bid) (lv_price top_ask)) else Inr ()
        | _ \<Rightarrow> Inr ())"

section \<open>Quotes from deltas\<close>

text \<open>The state of the loop of \<open>deltas_to_quotes\<close>: the book, the last best prices, the
  quotes. Prices compare by raw value. An error of \<open>apply_delta\<close> is unwrapped.\<close>

definition same_price :: "price option \<Rightarrow> price option \<Rightarrow> bool" where
  "same_price a b \<longleftrightarrow> map_option p_raw a = map_option p_raw b"

definition quote_step ::
  "(int \<Rightarrow> u64) \<Rightarrow> instrument_id \<Rightarrow> order_book_delta \<Rightarrow>
   order_book \<times> price option \<times> price option \<times> quote_tick list \<Rightarrow>
   (order_book \<times> price option \<times> price option \<times> quote_tick list) panics" where
  "quote_step hash iid delta s =
     (case s of (b, last_bid0, last_ask0, quotes) \<Rightarrow> do {
        (r, b') \<leftarrow> apply_delta hash b delta;
        _ \<leftarrow> expect r;
        let bid = best_bid_price b';
        let ask = best_ask_price b';
        let (last_bid, last_ask) = (if bid = None \<or> ask = None then (None, None) else (last_bid0, last_ask0));
        (case (bid, ask) of
           (Some bid_px, Some ask_px) \<Rightarrow>
             if \<not> same_price bid last_bid \<or> \<not> same_price ask last_ask then do {
               bid_level \<leftarrow> ladder_top (ob_bids b');
               ask_level \<leftarrow> ladder_top (ob_asks b');
               first \<leftarrow> level_first bid_level;
               let precision = q_prec (bo_size first);
               bid_sz \<leftarrow> quantity_from_raw (level_size_raw bid_level) precision;
               ask_sz \<leftarrow> quantity_from_raw (level_size_raw ask_level) precision;
               quote \<leftarrow> quote_new iid bid_px ask_px bid_sz ask_sz (dl_ts_event delta) (dl_ts_init delta);
               Some (b', bid, ask, quotes @ [quote])
             }
             else Some (b', last_bid, last_ask, quotes)
         | _ \<Rightarrow> Some (b', last_bid, last_ask, quotes))
      })"

definition deltas_to_quotes :: "(int \<Rightarrow> u64) \<Rightarrow> book_type \<Rightarrow> order_book_delta list \<Rightarrow> quote_tick list panics" where
  "deltas_to_quotes hash bt deltas =
     (case deltas of
        [] \<Rightarrow> None
      | d # _ \<Rightarrow> map_option (\<lambda>(_, _, _, quotes). quotes)
          (fold_opt (quote_step hash (dl_instrument_id d)) deltas
             (book_new (dl_instrument_id d) bt, None, None, [])))"

end
