(* ===== verification/Book_Correct.thy ===== *)
theory Book_Correct
  imports Order_Book
begin

text \<open>
  Correctness of the order book: no stream of deltas makes a book panic, the integrity errors
  about levels and orders cannot occur, the cache has as many entries as there are orders unless an
  identifier is added at a second price, a book refines two maps of orders, and its metadata never
  goes back.
\<close>

section \<open>The shape of a book under any stream of deltas\<close>

definition book_shape :: "(book_order \<Rightarrow> bool) \<Rightarrow> order_book \<Rightarrow> bool" where
  "book_shape P b \<longleftrightarrow> ladder_shape P (ob_bids b) \<and> ladder_shape P (ob_asks b) \<and>
     ld_side (ob_bids b) = SBuy \<and> ld_side (ob_asks b) = SSell \<and>
     ld_book_type (ob_bids b) = ob_book_type b \<and> ld_book_type (ob_asks b) = ob_book_type b"

text \<open>The predicate holds of every order that pre-processing lets through.\<close>

definition admits :: "(int \<Rightarrow> u64) \<Rightarrow> book_type \<Rightarrow> (book_order \<Rightarrow> bool) \<Rightarrow> bool" where
  "admits hash bt P \<longleftrightarrow> (\<forall>ord flags. P (pre_process_order hash bt ord flags))"

definition same_book :: "order_book \<Rightarrow> order_book \<Rightarrow> bool" where
  "same_book b b' \<longleftrightarrow> ob_instrument_id b' = ob_instrument_id b \<and> ob_book_type b' = ob_book_type b"

lemma same_book_refl [simp]: "same_book b b"
  by (simp add: same_book_def)

lemma book_shape_new [simp]: "book_shape P (book_new iid bt)"
  by (simp add: book_shape_def book_new_def) (simp add: ladder_new_def)

lemma book_increment_frame [simp]:
  "ob_bids (book_increment b sq ts) = ob_bids b" "ob_asks (book_increment b sq ts) = ob_asks b"
  "ob_book_type (book_increment b sq ts) = ob_book_type b"
  "ob_instrument_id (book_increment b sq ts) = ob_instrument_id b"
  by (simp_all add: book_increment_def)

lemma book_shape_increment [simp]: "book_shape P (book_increment b sq ts) = book_shape P b"
  by (simp add: book_shape_def)

lemma on_side_pre [simp]: "on_side l (pre_process_order hash bt ord flags) = on_side l ord"
  by (simp add: on_side_def)

lemma sided_cases:
  assumes "bo_side ord \<noteq> NoOrderSide"
  obtains (buy) "bo_side ord = Buy" "as_specified (bo_side ord) = Some SBuy"
  | (sell) "bo_side ord = Sell" "as_specified (bo_side ord) = Some SSell"
  using assms by (cases "bo_side ord") auto

text \<open>A sided operation on a book is the ladder operation on the ladder of that side.\<close>

lemma book_sided_shape:
  assumes sh: "book_shape P b" and sided: "bo_side ord \<noteq> NoOrderSide"
    and op: "\<And>l. ladder_shape P l \<Longrightarrow> on_side l ord \<Longrightarrow>
      \<exists>l'. f l = Some l' \<and> ladder_shape P l' \<and> ld_side l' = ld_side l \<and> ld_book_type l' = ld_book_type l"
  shows "\<exists>b'. (case the (as_specified (bo_side ord)) of
      SBuy \<Rightarrow> map_option (\<lambda>l. b\<lparr>ob_bids := l\<rparr>) (f (ob_bids b))
    | SSell \<Rightarrow> map_option (\<lambda>l. b\<lparr>ob_asks := l\<rparr>) (f (ob_asks b))) = Some b' \<and>
    book_shape P b' \<and> same_book b b'"
  using sided
proof (cases rule: sided_cases)
  case buy
  with op [of "ob_bids b"] sh show ?thesis
    by (auto simp: book_shape_def on_side_def same_book_def)
next
  case sell
  with op [of "ob_asks b"] sh show ?thesis
    by (auto simp: book_shape_def on_side_def same_book_def)
qed

lemma book_sided_ops:
  assumes "bo_side ord \<noteq> NoOrderSide"
  shows "book_add hash b ord flags sq ts = map_option (\<lambda>b'. book_increment b' sq ts)
      (case the (as_specified (bo_side ord)) of
        SBuy \<Rightarrow> map_option (\<lambda>l. b\<lparr>ob_bids := l\<rparr>) (ladder_add (ob_bids b) (pre_process_order hash (ob_book_type b) ord flags) flags)
      | SSell \<Rightarrow> map_option (\<lambda>l. b\<lparr>ob_asks := l\<rparr>) (ladder_add (ob_asks b) (pre_process_order hash (ob_book_type b) ord flags) flags))"
    and "book_update hash b ord flags sq ts = map_option (\<lambda>b'. book_increment b' sq ts)
      (case the (as_specified (bo_side ord)) of
        SBuy \<Rightarrow> map_option (\<lambda>l. b\<lparr>ob_bids := l\<rparr>) (ladder_update (ob_bids b) (pre_process_order hash (ob_book_type b) ord flags) flags)
      | SSell \<Rightarrow> map_option (\<lambda>l. b\<lparr>ob_asks := l\<rparr>) (ladder_update (ob_asks b) (pre_process_order hash (ob_book_type b) ord flags) flags))"
    and "book_delete hash b ord flags sq ts = map_option (\<lambda>b'. book_increment b' sq ts)
      (case the (as_specified (bo_side ord)) of
        SBuy \<Rightarrow> map_option (\<lambda>l. b\<lparr>ob_bids := l\<rparr>) (ladder_delete (ob_bids b) (pre_process_order hash (ob_book_type b) ord flags))
      | SSell \<Rightarrow> map_option (\<lambda>l. b\<lparr>ob_asks := l\<rparr>) (ladder_delete (ob_asks b) (pre_process_order hash (ob_book_type b) ord flags)))"
  using assms
  by (cases rule: sided_cases;
      simp add: book_add_def book_update_def book_delete_def map_option_case split: option.split)+

lemma book_ops_shape:
  assumes sh: "book_shape P b" and ad: "admits hash (ob_book_type b) P" and sided: "bo_side ord \<noteq> NoOrderSide"
  shows "\<exists>b'. book_add hash b ord flags sq ts = Some b' \<and> book_shape P b' \<and> same_book b b'"
    and "\<exists>b'. book_update hash b ord flags sq ts = Some b' \<and> book_shape P b' \<and> same_book b b'"
    and "\<exists>b'. book_delete hash b ord flags sq ts = Some b' \<and> book_shape P b' \<and> same_book b b'"
proof -
  let ?o = "pre_process_order hash (ob_book_type b) ord flags"
  have P: "P ?o" using ad by (simp add: admits_def)
  show "\<exists>b'. book_add hash b ord flags sq ts = Some b' \<and> book_shape P b' \<and> same_book b b'"
    using book_sided_shape [OF sh sided, of "\<lambda>l. ladder_add l ?o flags"] ladder_add_shape [of P _ ?o flags] P
    by (auto simp: book_sided_ops [OF sided] same_book_def)
  show "\<exists>b'. book_update hash b ord flags sq ts = Some b' \<and> book_shape P b' \<and> same_book b b'"
    using book_sided_shape [OF sh sided, of "\<lambda>l. ladder_update l ?o flags"] ladder_update_shape [of P _ ?o flags] P
    by (auto simp: book_sided_ops [OF sided] same_book_def)
  show "\<exists>b'. book_delete hash b ord flags sq ts = Some b' \<and> book_shape P b' \<and> same_book b b'"
    using book_sided_shape [OF sh sided, of "\<lambda>l. ladder_delete l ?o"] ladder_remove_order_shape [of P _ "bo_order_id ?o"]
    by (auto simp: book_sided_ops [OF sided] same_book_def ladder_delete_def)
qed

lemma book_clear_shape: "book_shape P b \<Longrightarrow> book_shape P (book_clear b sq ts) \<and> same_book b (book_clear b sq ts)"
  by (simp add: book_shape_def book_clear_def same_book_def)

lemma dispatch_delta_shape:
  assumes "book_shape P b" and "admits hash (ob_book_type b) P"
  shows "\<exists>r b'. dispatch_delta hash b delta ord = Some (r, b') \<and> book_shape P b' \<and> same_book b b' \<and>
    (r = Inr () \<or> r = Inl NoOrderSideError \<and> b' = b)"
proof (cases "bo_side ord = NoOrderSide \<and> dl_action delta \<noteq> Clear")
  case True
  then show ?thesis using assms by (simp add: dispatch_delta_def)
next
  case False
  show ?thesis
  proof (cases "dl_action delta")
    case Clear
    then show ?thesis using book_clear_shape [OF assms(1)] by (simp add: dispatch_delta_def)
  qed (use False book_ops_shape [OF assms, of ord "dl_flags delta" "dl_sequence delta" "dl_ts_event delta"]
      in \<open>auto simp: dispatch_delta_def Let_def\<close>)
qed

lemma resolve_no_side_order_cases:
  obtains (found) resolved where "resolve_no_side_order b ord = Inr resolved" "bo_side resolved \<noteq> NoOrderSide"
      "bo_order_id resolved = bo_order_id ord"
  | (unknown) "resolve_no_side_order b ord = Inl (OrderNotFoundForSideResolution (bo_order_id ord))"
proof (cases "case ld_cache (ob_bids b) (bo_order_id ord) of Some bp \<Rightarrow> Some bp | None \<Rightarrow> ld_cache (ob_asks b) (bo_order_id ord)")
  case None
  then show ?thesis using unknown by (simp add: resolve_no_side_order_def)
next
  case (Some bp)
  then show ?thesis using found by (simp add: resolve_no_side_order_def split: order_side_specified.splits)
qed

lemma apply_delta_unchecked_shape:
  assumes "book_shape P b" and "admits hash (ob_book_type b) P"
  shows "\<exists>r b'. apply_delta_unchecked hash b delta = Some (r, b') \<and> book_shape P b' \<and> same_book b b' \<and>
    (r = Inr () \<or> r = Inl NoOrderSideError \<and> b' = b)"
proof (cases "bo_side (dl_order delta) = NoOrderSide \<and> bo_order_id (dl_order delta) \<noteq> 0")
  case True
  show ?thesis
  proof (cases b "dl_order delta" rule: resolve_no_side_order_cases)
    case (found resolved)
    with True show ?thesis using dispatch_delta_shape [OF assms, of delta resolved]
      by (simp add: apply_delta_unchecked_def)
  next
    case unknown
    with True show ?thesis using dispatch_delta_shape [OF assms, of delta "dl_order delta"] assms
      by (cases "dl_action delta") (simp_all add: apply_delta_unchecked_def)
  qed
next
  case False
  then show ?thesis using dispatch_delta_shape [OF assms, of delta "dl_order delta"]
    by (auto simp: apply_delta_unchecked_def Let_def)
qed

lemma apply_delta_list_shape:
  assumes "book_shape P b" and "admits hash (ob_book_type b) P"
  shows "\<exists>r b'. apply_delta_list hash b ds = Some (r, b') \<and> book_shape P b' \<and> same_book b b' \<and>
    (r = Inr () \<or> r = Inl NoOrderSideError)"
  using assms
proof (induction ds arbitrary: b)
  case (Cons d ds)
  obtain r b1 where d: "apply_delta_unchecked hash b d = Some (r, b1)" "book_shape P b1" "same_book b b1"
    "r = Inr () \<or> r = Inl NoOrderSideError \<and> b1 = b"
    using apply_delta_unchecked_shape [OF Cons.prems] by blast
  have "admits hash (ob_book_type b1) P" using Cons.prems(2) d(3) by (simp add: same_book_def)
  with Cons.IH [OF d(2)] d show ?case by (auto simp: same_book_def)
qed simp

section \<open>Integrity\<close>

text \<open>In an aggregated book every order is identified by the hash of its price.\<close>

definition price_keyed :: "(int \<Rightarrow> u64) \<Rightarrow> book_order \<Rightarrow> bool" where
  "price_keyed hash ord \<longleftrightarrow> bo_order_id ord = hash (p_raw (bo_price ord))"

lemma admits_price_keyed: "admits hash L2_MBP (price_keyed hash)"
  by (simp add: admits_def price_keyed_def pre_process_order_def price_based_order_id_def)

lemma price_keyed_single:
  assumes wf: "level_wf lev" and key: "\<forall>ord \<in> set (im_values (lv_orders lev)). price_keyed hash ord"
  shows "level_len lev \<le> 1"
proof -
  let ?h = "hash (p_raw (bp_value (lv_price lev)))"
  have d: "distinct (im_keys (lv_orders lev))" using wf by (simp add: level_wf_def im_wf_def)
  have "set (im_keys (lv_orders lev)) \<subseteq> {?h}"
    using assms by (fastforce simp: level_wf_def im_keys_def im_values_def price_keyed_def order_at_def)
  then have "card (set (im_keys (lv_orders lev))) \<le> card {?h}" by (intro card_mono) simp_all
  moreover have "card (set (im_keys (lv_orders lev))) = level_len lev"
    unfolding distinct_card [OF d] by (simp add: level_len_def im_keys_def)
  ultimately show ?thesis by simp
qed

lemma too_many_orders_ok:
  "\<forall>lev \<in> set levs. level_len lev \<le> 1 \<Longrightarrow> too_many_orders side levs = Inr ()"
  by (induction levs) auto

lemma ladder_price_keyed_single:
  assumes "ladder_shape (price_keyed hash) l"
  shows "too_many_orders side (bt_values (ld_levels l)) = Inr ()"
proof (rule too_many_orders_ok, rule ballI)
  fix lev
  assume "lev \<in> set (bt_values (ld_levels l))"
  then obtain k where k: "(k, lev) \<in> set (ld_levels l)" by (auto simp: bt_values_def)
  with ladder_shapeD(1,2) [OF assms] show "level_len lev \<le> 1"
    by (intro price_keyed_single [of _ hash]) (auto dest: levels_wfD(2) simp: all_queued_def)
qed

lemma book_shape_integrity:
  assumes "book_shape P b" and "ob_book_type b = L2_MBP \<Longrightarrow> P = price_keyed hash"
  shows "book_check_integrity b = Inr () \<or>
    (\<exists>bid ask. best_bid_price b = Some bid \<and> best_ask_price b = Some ask \<and> p_raw ask < p_raw bid \<and>
      book_check_integrity b = Inl (OrdersCrossed \<lparr>bp_value = bid, bp_side = SBuy\<rparr> \<lparr>bp_value = ask, bp_side = SSell\<rparr>))"
proof -
  note sh = assms(1) [unfolded book_shape_def]
  let ?top = "case (ladder_top (ob_bids b), ladder_top (ob_asks b)) of
      (Some tb, Some ta) \<Rightarrow> if p_raw (bp_value (lv_price tb)) > p_raw (bp_value (lv_price ta))
        then Inl (OrdersCrossed (lv_price tb) (lv_price ta)) else Inr ()
    | _ \<Rightarrow> Inr ()"
  have "book_check_integrity b = ?top"
    using sh assms(2) ladder_shapeD(4) [of P "ob_bids b"] ladder_shapeD(4) [of P "ob_asks b"]
      ladder_price_keyed_single [of hash]
    by (cases "ob_book_type b") (simp_all add: book_check_integrity_def ladder_len_def not_less)
  moreover have "bp_side (lv_price lev) = ld_side l" if "ladder_shape P l" "ladder_top l = Some lev" for l lev
    using that ladder_shapeD(1) [OF that(1)]
    by (auto simp: ladder_top_def levels_wf_def split: list.splits)
  ultimately show ?thesis using sh
    by (auto simp: best_bid_price_def best_ask_price_def split: option.splits)
qed

section \<open>Metadata\<close>

definition advances :: "order_book \<Rightarrow> order_book \<Rightarrow> bool" where
  "advances b b' \<longleftrightarrow> ob_sequence b \<le> ob_sequence b' \<and> ob_ts_last b \<le> ob_ts_last b' \<and>
     ob_update_count b \<le> ob_update_count b'"

lemma advances_refl [simp]: "advances b b"
  by (simp add: advances_def)

lemma advances_trans: "advances a b \<Longrightarrow> advances b c \<Longrightarrow> advances a c"
  by (auto simp: advances_def)

lemma advances_increment:
  "ob_sequence b' = ob_sequence b \<Longrightarrow> ob_ts_last b' = ob_ts_last b \<Longrightarrow> ob_update_count b' = ob_update_count b \<Longrightarrow>
   advances b (book_increment b' sq ts)"
  using saturating_add_ge [of "ob_update_count b" 1] by (simp add: advances_def book_increment_def)

lemma book_ops_advance:
  "book_add hash b ord flags sq ts = Some b' \<Longrightarrow> advances b b'"
  "book_update hash b ord flags sq ts = Some b' \<Longrightarrow> advances b b'"
  "book_delete hash b ord flags sq ts = Some b' \<Longrightarrow> advances b b'"
  "advances b (book_clear b sq ts)"
  by (cases "bo_side ord"; auto simp: book_add_def book_update_def book_delete_def book_clear_def bind_Some_conv Let_def
      intro!: advances_increment)+

lemma dispatch_delta_advances: "dispatch_delta hash b delta ord = Some (r, b') \<Longrightarrow> advances b b'"
  by (cases "dl_action delta")
    (auto simp: dispatch_delta_def Let_def intro: book_ops_advance split: if_splits)

lemma apply_delta_unchecked_advances: "apply_delta_unchecked hash b delta = Some (r, b') \<Longrightarrow> advances b b'"
  by (auto simp: apply_delta_unchecked_def Let_def dispatch_delta_advances
      split: if_splits sum.splits book_integrity_error.splits book_action.splits)

lemma apply_delta_list_advances: "apply_delta_list hash b ds = Some (r, b') \<Longrightarrow> advances b b'"
proof (induction ds arbitrary: b)
  case (Cons d ds)
  then obtain r1 b1 where d: "apply_delta_unchecked hash b d = Some (r1, b1)"
    by (auto simp: bind_Some_conv)
  have "advances b1 b'" using Cons d by (cases r1) auto
  with apply_delta_unchecked_advances [OF d] show ?case by (rule advances_trans)
qed simp

section \<open>Refinement of two maps of orders\<close>

type_synonym order_maps = "(u64 \<rightharpoonup> book_order) \<times> (u64 \<rightharpoonup> book_order)"

definition book_inv :: "order_book \<Rightarrow> bool" where
  "book_inv b \<longleftrightarrow> ladder_inv (ob_bids b) \<and> ladder_inv (ob_asks b) \<and>
     ld_side (ob_bids b) = SBuy \<and> ld_side (ob_asks b) = SSell \<and>
     ld_book_type (ob_bids b) = ob_book_type b \<and> ld_book_type (ob_asks b) = ob_book_type b"

definition book_orders :: "order_book \<Rightarrow> order_maps" where
  "book_orders b = (ladder_orders (ob_bids b), ladder_orders (ob_asks b))"

text \<open>The specification of one side: what an action does to a map of orders. \<open>None\<close> marks
  what the specification does not cover: adding an identifier queued at another price, adding
  a size that is not positive, updating to an undefined size.\<close>

fun spec_change :: "book_action \<Rightarrow> book_order \<Rightarrow> (u64 \<rightharpoonup> book_order) \<Rightarrow> (u64 \<rightharpoonup> book_order) option" where
  "spec_change Add ord m =
     (if quantity_is_positive (bo_size ord) \<and>
         (case m (bo_order_id ord) of None \<Rightarrow> True | Some old \<Rightarrow> p_raw (bo_price old) = p_raw (bo_price ord))
      then Some (m(bo_order_id ord \<mapsto> ord)) else None)"
| "spec_change Update ord m =
     (if quantity_is_positive (bo_size ord) then Some (m(bo_order_id ord \<mapsto> ord))
      else if q_raw (bo_size ord) = 0 then Some (m(bo_order_id ord := None)) else None)"
| "spec_change Delete ord m = Some (m(bo_order_id ord := None))"
| "spec_change Clear ord m = Some Map.empty"

definition spec_apply :: "(int \<Rightarrow> u64) \<Rightarrow> book_type \<Rightarrow> order_book_delta \<Rightarrow> order_maps \<Rightarrow> order_maps option" where
  "spec_apply hash bt delta ms =
     (case ms of (bids, asks) \<Rightarrow>
        let ord = pre_process_order hash bt (dl_order delta) (dl_flags delta) in
        if dl_action delta = Clear then Some (Map.empty, Map.empty)
        else case bo_side ord of
          NoOrderSide \<Rightarrow> None
        | Buy \<Rightarrow> map_option (\<lambda>m. (m, asks)) (spec_change (dl_action delta) ord bids)
        | Sell \<Rightarrow> map_option (\<lambda>m. (bids, m)) (spec_change (dl_action delta) ord asks))"

definition ladder_apply :: "book_action \<Rightarrow> book_ladder \<Rightarrow> book_order \<Rightarrow> u8 \<Rightarrow> book_ladder panics" where
  "ladder_apply action l ord flags =
     (case action of Add \<Rightarrow> ladder_add l ord flags | Update \<Rightarrow> ladder_update l ord flags
      | Delete \<Rightarrow> ladder_delete l ord | Clear \<Rightarrow> Some (ladder_clear l))"

lemma cached_order:
  assumes inv: "ladder_inv l" and c: "ld_cache l oid = Some bp"
  shows "\<exists>ord. ladder_orders l oid = Some ord \<and> p_raw (bo_price ord) = p_raw (bp_value bp)"
proof -
  note wf = ladder_inv_levels [OF inv]
  obtain lev where lev: "bt_get rank (ld_levels l) bp = Some lev" "oid \<in> level_ids lev" "bp_side bp = ld_side l"
    using cached_level [OF inv c] by blast
  then obtain ord where ord: "im_get (lv_orders lev) oid = Some ord"
    using im_get_dom [of "lv_orders lev" oid] by auto
  have "p_raw (bo_price ord) = p_raw (bp_value (lv_price lev))"
    using level_wf_get [OF _ ord] bt_get_level [OF wf lev(1)] by (auto simp: order_at_def)
  with c lev ord bt_get_level [OF wf lev(1)] rank_eq_raw [of "lv_price lev" bp] show ?thesis
    by (simp add: ladder_orders_def)
qed

lemma spec_change_fresh:
  assumes "ladder_inv l" and "spec_change Add ord (ladder_orders l) = Some m"
  shows "fresh_or_same l ord"
  using assms cached_order [OF assms(1)]
  by (fastforce simp: fresh_or_same_def split: if_splits option.splits)

lemma ladder_apply_refines:
  assumes inv: "ladder_inv l" and bt: "ld_book_type l \<noteq> L1_MBP" and on: "on_side l ord"
    and spec: "spec_change action ord (ladder_orders l) = Some m"
  shows "\<exists>l'. ladder_apply action l ord flags = Some l' \<and> ladder_inv l' \<and> ladder_orders l' = m \<and>
    ld_side l' = ld_side l \<and> ld_book_type l' = ld_book_type l"
proof (cases action)
  case Add
  with spec have f: "fresh_or_same l ord" using spec_change_fresh [OF inv] by blast
  with Add spec show ?thesis
    using ladder_add_inv [OF inv on, of flags] ladder_add_orders [OF inv on bt, of flags]
    by (fastforce simp: ladder_apply_def split: if_splits)
next
  case Update
  show ?thesis
  proof (cases "quantity_is_positive (bo_size ord)")
    case True
    with Update spec show ?thesis
      using ladder_update_inv [OF inv on, of flags] ladder_update_orders [OF inv on bt True, of flags]
      by (fastforce simp: ladder_apply_def)
  next
    case False
    with Update spec show ?thesis
      using ladder_update_zero [OF inv, of ord flags] ladder_remove_order_inv [OF inv, of "bo_order_id ord"]
      by (fastforce simp: ladder_apply_def split: if_splits)
  qed
next
  case Delete
  with spec show ?thesis using ladder_remove_order_inv [OF inv, of "bo_order_id ord"]
    by (fastforce simp: ladder_apply_def ladder_delete_def)
next
  case Clear
  with spec show ?thesis by (auto simp: ladder_apply_def ladder_orders_def fun_eq_iff)
qed

lemma dispatch_delta_sided:
  fixes hash :: "int \<Rightarrow> u64" and b :: order_book
  assumes "bo_side ord \<noteq> NoOrderSide" and "dl_action delta \<noteq> Clear"
  defines "o' \<equiv> pre_process_order hash (ob_book_type b) ord (dl_flags delta)"
  shows "dispatch_delta hash b delta ord = map_option (\<lambda>b'. (Inr (), book_increment b' (dl_sequence delta) (dl_ts_event delta)))
    (if bo_side ord = Buy then map_option (\<lambda>l. b\<lparr>ob_bids := l\<rparr>) (ladder_apply (dl_action delta) (ob_bids b) o' (dl_flags delta))
     else map_option (\<lambda>l. b\<lparr>ob_asks := l\<rparr>) (ladder_apply (dl_action delta) (ob_asks b) o' (dl_flags delta)))"
  using assms
  by (cases rule: sided_cases [OF assms(1)]; cases "dl_action delta";
      simp add: dispatch_delta_def book_sided_ops ladder_apply_def Let_def option.map_comp comp_def)

lemma apply_delta_clear:
  assumes "dl_action delta = Clear"
  shows "apply_delta_unchecked hash b delta = Some (Inr (), book_clear b (dl_sequence delta) (dl_ts_event delta))"
  using assms
  by (cases b "dl_order delta" rule: resolve_no_side_order_cases)
    (simp_all add: apply_delta_unchecked_def dispatch_delta_def Let_def)

lemma apply_delta_refines:
  assumes inv: "book_inv b" and bt: "ob_book_type b \<noteq> L1_MBP"
    and spec: "spec_apply hash (ob_book_type b) delta (book_orders b) = Some ms"
  shows "\<exists>b'. apply_delta_unchecked hash b delta = Some (Inr (), b') \<and> book_inv b' \<and>
    book_orders b' = ms \<and> same_book b b'"
proof (cases "dl_action delta = Clear")
  case True
  with spec inv show ?thesis
    by (auto simp: apply_delta_clear spec_apply_def book_orders_def book_inv_def book_clear_def same_book_def
        ladder_orders_def fun_eq_iff)
next
  case False
  let ?o = "pre_process_order hash (ob_book_type b) (dl_order delta) (dl_flags delta)"
  have sided: "bo_side (dl_order delta) \<noteq> NoOrderSide"
    using spec False by (auto simp: spec_apply_def book_orders_def)
  note d = dispatch_delta_sided [OF sided False, of hash b]
  have u: "apply_delta_unchecked hash b delta = dispatch_delta hash b delta (dl_order delta)"
    using sided by (simp add: apply_delta_unchecked_def)
  from sided show ?thesis
  proof (cases rule: sided_cases)
    case buy
    with spec False obtain m where m: "spec_change (dl_action delta) ?o (ladder_orders (ob_bids b)) = Some m"
      "ms = (m, ladder_orders (ob_asks b))"
      by (auto simp: spec_apply_def book_orders_def)
    from buy inv have "on_side (ob_bids b) ?o" by (simp add: book_inv_def on_side_def)
    with m inv bt u d buy show ?thesis
      using ladder_apply_refines [of "ob_bids b" ?o "dl_action delta" m "dl_flags delta"]
      by (auto simp: book_inv_def book_orders_def same_book_def)
  next
    case sell
    with spec False obtain m where m: "spec_change (dl_action delta) ?o (ladder_orders (ob_asks b)) = Some m"
      "ms = (ladder_orders (ob_bids b), m)"
      by (auto simp: spec_apply_def book_orders_def)
    from sell inv have "on_side (ob_asks b) ?o" by (simp add: book_inv_def on_side_def)
    with m inv bt u d sell show ?thesis
      using ladder_apply_refines [of "ob_asks b" ?o "dl_action delta" m "dl_flags delta"]
      by (auto simp: book_inv_def book_orders_def same_book_def)
  qed
qed

lemma apply_delta_list_refines:
  assumes "book_inv b" and "ob_book_type b \<noteq> L1_MBP"
    and "fold_opt (spec_apply hash (ob_book_type b)) ds (book_orders b) = Some ms"
  shows "\<exists>b'. apply_delta_list hash b ds = Some (Inr (), b') \<and> book_inv b' \<and> book_orders b' = ms"
  using assms
proof (induction ds arbitrary: b)
  case (Cons d ds)
  then obtain ms1 where s: "spec_apply hash (ob_book_type b) d (book_orders b) = Some ms1"
    "fold_opt (spec_apply hash (ob_book_type b)) ds ms1 = Some ms"
    by (auto simp: bind_Some_conv)
  obtain b1 where b1: "apply_delta_unchecked hash b d = Some (Inr (), b1)" "book_inv b1"
    "book_orders b1 = ms1" "same_book b b1"
    using apply_delta_refines [OF Cons.prems(1,2) s(1)] by blast
  with Cons.IH [OF b1(2)] Cons.prems(2) s(2) show ?case by (simp add: same_book_def)
qed simp

lemma book_inv_new [simp]: "book_inv (book_new iid bt)"
  by (simp add: book_inv_def book_new_def) (simp add: ladder_new_def)

lemma book_orders_new [simp]: "book_orders (book_new iid bt) = (Map.empty, Map.empty)"
  by (simp add: book_orders_def book_new_def ladder_orders_def ladder_new_def fun_eq_iff)

section \<open>The size of the cache\<close>

text \<open>What \<open>update\<close> and \<open>remove_order\<close> assert of a ladder when debug assertions are compiled in: the
  cache has as many entries as there are orders in the levels.\<close>

definition cache_size_ok :: "book_ladder \<Rightarrow> bool" where
  "cache_size_ok l \<longleftrightarrow> card (dom (ld_cache l)) = sum_list (map level_len (bt_values (ld_levels l)))"

lemma level_len_ids: "level_wf lev \<Longrightarrow> card (level_ids lev) = level_len lev"
  using distinct_card [of "im_keys (lv_orders lev)"] by (simp add: level_wf_def im_wf_def level_len_def im_keys_def)

lemma total_orders_ids:
  assumes "bt_wf rank m" and "\<forall>(k, lev) \<in> set m. level_wf lev"
    and "\<And>oid r r'. oid \<in> ids_at m r \<Longrightarrow> oid \<in> ids_at m r' \<Longrightarrow> r = r'"
  shows "card (\<Union>p \<in> set m. level_ids (snd p)) = sum_list (map level_len (bt_values m))"
  using assms
proof (induction m)
  case (Cons p m)
  obtain k lev where p: "p = (k, lev)" by fastforce
  have "level_ids lev \<inter> level_ids (snd q) = {}" if "q \<in> set m" for q
  proof -
    have "rank k < rank (fst q)" using Cons.prems(1) that by (auto simp: p)
    then show ?thesis using Cons.prems(3) [of _ "rank k" "rank (fst q)"] that by (fastforce simp: ids_at_def p)
  qed
  then have "level_ids lev \<inter> (\<Union>q \<in> set m. level_ids (snd q)) = {}" by blast
  moreover have "r = r'" if "oid \<in> ids_at m r" "oid \<in> ids_at m r'" for oid r r'
    using Cons.prems(3) [of oid r r'] that by (auto simp: ids_at_def)
  ultimately show ?case using Cons.IH Cons.prems(1,2) by (simp add: p card_Un_disjoint level_len_ids bt_values_def)
qed (simp add: bt_values_def)

lemma ladder_inv_cache_size:
  assumes "ladder_inv l"
  shows "cache_size_ok l"
proof -
  have ids: "oid \<in> ids_at (ld_levels l) r \<longleftrightarrow> map_option rank (ld_cache l oid) = Some r" for oid r
    using assms by (simp add: ladder_inv_def cache_ok_def)
  have "dom (ld_cache l) = (\<Union>r. ids_at (ld_levels l) r)" by (auto simp: ids)
  then have "dom (ld_cache l) = (\<Union>p \<in> set (ld_levels l). level_ids (snd p))" by (auto simp: ids_at_def case_prod_beta)
  moreover have "r = r'" if "oid \<in> ids_at (ld_levels l) r" "oid \<in> ids_at (ld_levels l) r'" for oid r r'
    using that by (auto simp: ids)
  moreover have "bt_wf rank (ld_levels l)" "\<forall>(k, lev) \<in> set (ld_levels l). level_wf lev"
    using assms by (auto simp: ladder_inv_def levels_wf_def)
  ultimately show ?thesis using total_orders_ids [of "ld_levels l"] by (simp add: cache_size_ok_def)
qed

text \<open>The order that a delta stands for, and when the delta does not add an identifier that is queued at
  another price of the side; and this for the deltas of a stream up to the one that is refused.\<close>

definition effective_order :: "order_book \<Rightarrow> order_book_delta \<Rightarrow> book_order" where
  "effective_order b delta =
     (let ord = dl_order delta
      in if bo_side ord = NoOrderSide \<and> bo_order_id ord \<noteq> 0
         then (case resolve_no_side_order b ord of Inr resolved \<Rightarrow> resolved | Inl _ \<Rightarrow> ord) else ord)"

definition adds_fresh :: "(int \<Rightarrow> u64) \<Rightarrow> order_book \<Rightarrow> order_book_delta \<Rightarrow> bool" where
  "adds_fresh hash b delta \<longleftrightarrow>
     (let ord = pre_process_order hash (ob_book_type b) (effective_order b delta) (dl_flags delta)
      in dl_action delta = Add \<longrightarrow> ob_book_type b = L1_MBP \<or>
           (bo_side ord = Buy \<longrightarrow> fresh_or_same (ob_bids b) ord) \<and> (bo_side ord = Sell \<longrightarrow> fresh_or_same (ob_asks b) ord))"

fun all_adds_fresh :: "(int \<Rightarrow> u64) \<Rightarrow> order_book \<Rightarrow> order_book_delta list \<Rightarrow> bool" where
  "all_adds_fresh hash b [] = True"
| "all_adds_fresh hash b (delta # deltas) = (adds_fresh hash b delta \<and>
     (case apply_delta_unchecked hash b delta of Some (Inr _, b') \<Rightarrow> all_adds_fresh hash b' deltas | _ \<Rightarrow> True))"

lemma ladder_apply_inv:
  assumes "ladder_inv l" and "on_side l ord" and "action = Add \<Longrightarrow> ld_book_type l = L1_MBP \<or> fresh_or_same l ord"
  shows "\<exists>l'. ladder_apply action l ord flags = Some l' \<and> ladder_inv l' \<and> ld_side l' = ld_side l \<and> ld_book_type l' = ld_book_type l"
  using assms ladder_add_inv ladder_update_inv ladder_remove_order_inv [OF assms(1), of "bo_order_id ord"]
  by (cases action) (auto simp: ladder_apply_def ladder_delete_def)

lemma book_clear_inv: "book_inv b \<Longrightarrow> book_inv (book_clear b sq ts) \<and> same_book b (book_clear b sq ts)"
  by (simp add: book_inv_def book_clear_def same_book_def)

lemma dispatch_delta_inv:
  assumes inv: "book_inv b"
    and fresh: "dl_action delta = Add \<Longrightarrow> ob_book_type b = L1_MBP \<or>
      (bo_side ord = Buy \<longrightarrow> fresh_or_same (ob_bids b) (pre_process_order hash (ob_book_type b) ord (dl_flags delta))) \<and>
      (bo_side ord = Sell \<longrightarrow> fresh_or_same (ob_asks b) (pre_process_order hash (ob_book_type b) ord (dl_flags delta)))"
  shows "\<exists>r b'. dispatch_delta hash b delta ord = Some (r, b') \<and> book_inv b'"
proof (cases "bo_side ord = NoOrderSide \<or> dl_action delta = Clear")
  case True
  then show ?thesis using inv book_clear_inv [OF inv] by (auto simp: dispatch_delta_def Let_def)
next
  case False
  then have sided: "bo_side ord \<noteq> NoOrderSide" "dl_action delta \<noteq> Clear" by auto
  let ?o = "pre_process_order hash (ob_book_type b) ord (dl_flags delta)"
  from sided(1) show ?thesis
  proof (cases rule: sided_cases)
    case buy
    then have "on_side (ob_bids b) ?o" using inv by (simp add: book_inv_def on_side_def)
    then show ?thesis using ladder_apply_inv [of "ob_bids b" ?o "dl_action delta" "dl_flags delta"] inv fresh buy
      by (auto simp: dispatch_delta_sided [OF sided] book_inv_def)
  next
    case sell
    then have "on_side (ob_asks b) ?o" using inv by (simp add: book_inv_def on_side_def)
    then show ?thesis using ladder_apply_inv [of "ob_asks b" ?o "dl_action delta" "dl_flags delta"] inv fresh sell
      by (auto simp: dispatch_delta_sided [OF sided] book_inv_def)
  qed
qed

lemma apply_delta_inv:
  assumes "book_inv b" and "adds_fresh hash b delta"
  shows "\<exists>r b'. apply_delta_unchecked hash b delta = Some (r, b') \<and> book_inv b'"
proof -
  have d: "\<exists>r b'. dispatch_delta hash b delta (effective_order b delta) = Some (r, b') \<and> book_inv b'"
    using assms by (intro dispatch_delta_inv) (simp_all add: adds_fresh_def Let_def)
  show ?thesis
  proof (cases "bo_side (dl_order delta) = NoOrderSide \<and> bo_order_id (dl_order delta) \<noteq> 0")
    case True
    then show ?thesis using d assms(1)
      by (cases b "dl_order delta" rule: resolve_no_side_order_cases; cases "dl_action delta")
        (simp_all add: apply_delta_unchecked_def effective_order_def Let_def)
  next
    case False
    then show ?thesis using d by (auto simp: apply_delta_unchecked_def effective_order_def Let_def)
  qed
qed

lemma apply_delta_list_inv:
  assumes "book_inv b" and "all_adds_fresh hash b ds" and "apply_delta_list hash b ds = Some (r, b')"
  shows "book_inv b'"
  using assms
proof (induction ds arbitrary: b)
  case (Cons d ds)
  have "adds_fresh hash b d" using Cons.prems(2) by simp
  then obtain r1 b1 where "apply_delta_unchecked hash b d = Some (r1, b1)" "book_inv b1"
    using apply_delta_inv [OF Cons.prems(1)] by blast
  then show ?case using Cons by (cases r1) auto
qed simp

text \<open>Adding an identifier at a second price leaves the first order in its level, out of the cache.\<close>

definition sample_delta :: "book_action \<Rightarrow> order_side \<Rightarrow> int \<Rightarrow> u64 \<Rightarrow> order_book_delta" where
  "sample_delta action side px oid =
     \<lparr>dl_instrument_id = \<lparr>symbol = ''A'', venue = ''B''\<rparr>, dl_action = action,
      dl_order = \<lparr>bo_side = side, bo_price = \<lparr>p_raw = px, p_prec = 0\<rparr>, bo_size = \<lparr>q_raw = 7, q_prec = 0\<rparr>, bo_order_id = oid\<rparr>,
      dl_flags = 0, dl_sequence = 1, dl_ts_event = 1, dl_ts_init = 1\<rparr>"

lemmas book_eval = apply_delta_unchecked_def dispatch_delta_def book_add_def book_update_def book_delete_def book_new_def
  book_increment_def book_clear_def pre_process_order_def flag_matches_def Let_def
  ladder_new_def ladder_add_def ladder_place_def ladder_delete_def ladder_remove_order_def ladder_clear_def
  levels_get_def levels_put_def levels_remove_def cross_side_def book_price_cmp_def rank_def bt_values_def
  to_book_price_def level_from_order_def level_new_def level_add_def level_len_def level_is_empty_def
  im_get_def im_insert_def shift_remove_def level_remove_by_id_def quantity_is_positive_def raw_limits

lemma repeated_identifier:
  "\<exists>b. apply_delta_list hash (book_new iid L3_MBO) [sample_delta Add Buy 5 1, sample_delta Add Buy 6 1, sample_delta Delete Buy 0 2] =
     Some (Inr (), b) \<and> \<not> cache_size_ok (ob_bids b)"
  by (simp add: sample_delta_def book_eval cache_size_ok_def)

section \<open>Properties\<close>

text \<open>C1: no stream of deltas makes a book panic or breaks its structure, in the release profile. Whatever
  deltas are applied to a new book of any type (crossing prices, unknown or repeated identifiers,
  missing sides, zero sizes), every step returns; the only error is \<open>NoOrderSide\<close>; both sides stay
  in strict price priority with no empty level and every order at its level's price; and the
  integrity check of the result either succeeds or reports exactly that the best bid is above the
  best ask, which deltas can bring about: never too many levels in an L1 book nor too many orders
  at a level of an L2 book. Nothing is assumed of the hash. Debug assertions check in addition that
  the cache is as large as the number of orders. This holds after every stream in which no \<open>Add\<close>
  has an identifier that is queued at another price of its side (in an L1 book, after every
  stream), and fails for others: in an L3 book there is such a stream whose last delta ends with
  the assertion false.\<close>

theorem deltas_never_break_book:
  "(\<exists>r b. apply_delta_list hash (book_new iid bt) ds = Some (r, b) \<and>
     (r = Inr () \<or> r = Inl NoOrderSideError) \<and>
     levels_wf SBuy (ld_levels (ob_bids b)) \<and> levels_wf SSell (ld_levels (ob_asks b)) \<and>
     (book_check_integrity b = Inr () \<or>
      (\<exists>bid ask. best_bid_price b = Some bid \<and> best_ask_price b = Some ask \<and> p_raw ask < p_raw bid \<and>
        book_check_integrity b =
          Inl (OrdersCrossed \<lparr>bp_value = bid, bp_side = SBuy\<rparr> \<lparr>bp_value = ask, bp_side = SSell\<rparr>))) \<and>
     (all_adds_fresh hash (book_new iid bt) ds \<longrightarrow> cache_size_ok (ob_bids b) \<and> cache_size_ok (ob_asks b))) \<and>
   (\<exists>ds' b'. apply_delta_list hash (book_new iid L3_MBO) ds' = Some (Inr (), b') \<and>
     dl_action (last ds') = Delete \<and> \<not> cache_size_ok (ob_bids b'))"
proof -
  let ?P = "if bt = L2_MBP then price_keyed hash else (\<lambda>_. True)"
  have ad: "admits hash (ob_book_type (book_new iid bt)) ?P"
    using admits_price_keyed by (simp add: book_new_def admits_def)
  obtain r b where rb: "apply_delta_list hash (book_new iid bt) ds = Some (r, b)" "book_shape ?P b"
    "same_book (book_new iid bt) b" "r = Inr () \<or> r = Inl NoOrderSideError"
    using apply_delta_list_shape [OF book_shape_new ad] by blast
  have "ob_book_type b = bt" using rb(3) by (simp add: same_book_def book_new_def)
  then have "ob_book_type b = L2_MBP \<Longrightarrow> ?P = price_keyed hash" by simp
  note integrity = book_shape_integrity [OF rb(2), of hash, OF this]
  have "cache_size_ok (ob_bids b) \<and> cache_size_ok (ob_asks b)" if "all_adds_fresh hash (book_new iid bt) ds"
    using apply_delta_list_inv [OF book_inv_new that rb(1)] by (simp add: book_inv_def ladder_inv_cache_size)
  moreover have "levels_wf SBuy (ld_levels (ob_bids b)) \<and> levels_wf SSell (ld_levels (ob_asks b))"
    using rb(2) by (auto simp: book_shape_def ladder_shape_def)
  moreover obtain b' where "apply_delta_list hash (book_new iid L3_MBO) [sample_delta Add Buy 5 1, sample_delta Add Buy 6 1, sample_delta Delete Buy 0 2] =
     Some (Inr (), b')" "\<not> cache_size_ok (ob_bids b')" using repeated_identifier by blast
  moreover have "dl_action (last [sample_delta Add Buy 5 1, sample_delta Add Buy 6 1, sample_delta Delete Buy 0 2]) = Delete"
    by (simp add: sample_delta_def)
  ultimately show ?thesis using rb(1,4) integrity by blast
qed

theorem deltas_never_break_book_witness:
  "\<exists>b. apply_delta_list (\<lambda>_. 0) (book_new \<lparr>symbol = ''A'', venue = ''B''\<rparr> L3_MBO)
      [sample_delta Add Buy 5 1, sample_delta Add Buy 6 2, sample_delta Delete Buy 0 1] = Some (Inr (), b) \<and>
    levels_wf SBuy (ld_levels (ob_bids b)) \<and> cache_size_ok (ob_bids b) \<and> card (dom (ld_cache (ob_bids b))) = 1"
proof -
  let ?b = "book_new \<lparr>symbol = ''A'', venue = ''B''\<rparr> L3_MBO" and ?ds = "[sample_delta Add Buy 5 1, sample_delta Add Buy 6 2, sample_delta Delete Buy 0 1]"
  obtain b where b: "apply_delta_list (\<lambda>_. 0) ?b ?ds = Some (Inr (), b)" "card (dom (ld_cache (ob_bids b))) = 1"
    by (simp add: sample_delta_def book_eval)
  have "all_adds_fresh (\<lambda>_. 0) ?b ?ds"
    by (simp add: sample_delta_def book_eval adds_fresh_def effective_order_def fresh_or_same_def)
  with b deltas_never_break_book [of "\<lambda>_. 0" "\<lparr>symbol = ''A'', venue = ''B''\<rparr>" L3_MBO ?ds] show ?thesis by simp
qed

text \<open>the metadata of a book is a high-water mark. Applying any list of deltas, in
  whatever order and with whatever result, never lowers the sequence number, the time stamp of
  the last event or the (saturating) update count.\<close>

theorem deltas_advance_metadata:
  assumes "apply_delta_list hash b ds = Some (r, b')"
  shows "ob_sequence b \<le> ob_sequence b' \<and> ob_ts_last b \<le> ob_ts_last b' \<and> ob_update_count b \<le> ob_update_count b'"
  using apply_delta_list_advances [OF assms] by (simp add: advances_def)

theorem deltas_advance_metadata_witness:
  "5 \<le> ob_sequence (book_clear ((book_new \<lparr>symbol = ''A'', venue = ''B''\<rparr> L2_MBP)\<lparr>ob_sequence := 5\<rparr>) 3 9)"
proof -
  let ?b = "(book_new \<lparr>symbol = ''A'', venue = ''B''\<rparr> L2_MBP)\<lparr>ob_sequence := 5\<rparr>"
  let ?d = "delta_clear \<lparr>symbol = ''A'', venue = ''B''\<rparr> 3 9 9"
  have "apply_delta_list (\<lambda>_. 0) ?b [?d] = Some (Inr (), book_clear ?b 3 9)"
    by (simp add: apply_delta_clear delta_clear_def)
  from deltas_advance_metadata [OF this] show ?thesis by simp
qed

text \<open>C2: an L2 or L3 book refines two maps of orders, one per side. Whenever the
  specification covers a list of deltas (orders of a side, positive sizes on \<open>Add\<close>, no
  \<open>Add\<close> of an identifier that is queued at another price), the book applies the whole list
  without error, keeps its invariant (levels in price priority, exact cache), and holds exactly
  the orders of the specification, after the identifiers were assigned for the book type.\<close>

theorem book_refines_order_maps:
  assumes "bt \<noteq> L1_MBP" and "fold_opt (spec_apply hash bt) ds (Map.empty, Map.empty) = Some ms"
  shows "\<exists>b. apply_delta_list hash (book_new iid bt) ds = Some (Inr (), b) \<and> book_inv b \<and> book_orders b = ms"
proof -
  have "ob_book_type (book_new iid bt) = bt" by (simp add: book_new_def)
  with apply_delta_list_refines [of "book_new iid bt" hash ds ms] assms show ?thesis by simp
qed

theorem book_refines_order_maps_witness:
  "\<exists>b. apply_delta_list (\<lambda>_. 0) (book_new \<lparr>symbol = ''A'', venue = ''B''\<rparr> L3_MBO)
      [\<lparr>dl_instrument_id = \<lparr>symbol = ''A'', venue = ''B''\<rparr>, dl_action = Add,
        dl_order = \<lparr>bo_side = Buy, bo_price = \<lparr>p_raw = 5, p_prec = 0\<rparr>, bo_size = \<lparr>q_raw = 7, q_prec = 0\<rparr>, bo_order_id = 1\<rparr>,
        dl_flags = 0, dl_sequence = 1, dl_ts_event = 1, dl_ts_init = 1\<rparr>] = Some (Inr (), b) \<and>
    fst (book_orders b) 1 \<noteq> None"
proof -
  let ?o = "\<lparr>bo_side = Buy, bo_price = \<lparr>p_raw = 5, p_prec = 0\<rparr>, bo_size = \<lparr>q_raw = 7, q_prec = 0\<rparr>, bo_order_id = 1\<rparr>"
  let ?d = "\<lparr>dl_instrument_id = \<lparr>symbol = ''A'', venue = ''B''\<rparr>, dl_action = Add, dl_order = ?o,
        dl_flags = 0, dl_sequence = 1, dl_ts_event = 1, dl_ts_init = 1\<rparr>"
  have "fold_opt (spec_apply (\<lambda>_. 0) L3_MBO) [?d] (Map.empty, Map.empty) = Some ([1 \<mapsto> ?o], Map.empty)"
    by (simp add: spec_apply_def pre_process_order_def flag_matches_def quantity_is_positive_def raw_limits)
  from book_refines_order_maps [OF _ this, of "\<lparr>symbol = ''A'', venue = ''B''\<rparr>"] show ?thesis by fastforce
qed

end
