(* ===== verification/Book_Snapshot.thy ===== *)
theory Book_Snapshot
  imports Book_Correct
begin

text \<open>
  Two operations on whole books: removing the levels by which a book is crossed
  (\<open>clear_stale_levels\<close>) and the snapshot of a book as deltas (\<open>to_deltas\<close>) with its
  replay on another book.
\<close>

section \<open>Removing stale levels\<close>

lemma remove_levels_prefix:
  assumes "ladder_inv l" and "ld_levels l = pre @ rest"
  shows "\<exists>l'. remove_levels (map fst pre) removed l = Some (removed @ map snd pre, l') \<and> ladder_inv l' \<and>
    ld_levels l' = rest \<and> ld_side l' = ld_side l \<and> ld_book_type l' = ld_book_type l"
  using assms
proof (induction pre arbitrary: l removed)
  case (Cons e pre)
  obtain k lev where e: "e = (k, lev)" by (cases e)
  have side: "bp_side k = ld_side l"
    using levels_wfD(2) [OF ladder_inv_levels [OF Cons.prems(1)], of k lev] Cons.prems(2) e by simp
  obtain l1 where l1: "ladder_remove_level l k = Some (Some lev, l1)" "ladder_inv l1" "ld_levels l1 = pre @ rest"
    "ld_side l1 = ld_side l" "ld_book_type l1 = ld_book_type l"
    using ladder_remove_level_inv [OF Cons.prems(1) side] Cons.prems(2) e by auto
  show ?case using Cons.IH [OF l1(2,3), of "removed @ [lev]"] l1 e by auto
qed simp

text \<open>A book is crossed when its best bid is above its best ask.\<close>

definition crossed :: "order_book \<Rightarrow> bool" where
  "crossed b \<longleftrightarrow> (\<exists>bid ask. best_bid_price b = Some bid \<and> best_ask_price b = Some ask \<and> p_raw ask < p_raw bid)"

abbreviation key_raw :: "book_price \<times> book_level \<Rightarrow> int" where
  "key_raw e \<equiv> p_raw (bp_value (fst e))"

lemma levels_sorted:
  assumes "levels_wf side m"
  shows "sorted_wrt (\<lambda>a b. case side of SBuy \<Rightarrow> key_raw b < key_raw a | SSell \<Rightarrow> key_raw a < key_raw b) m"
proof -
  have "sorted_wrt (\<lambda>a b. rank (fst a) < rank (fst b)) m"
    using levels_wfD(1) [OF assms] by (simp add: bt_wf_def sorted_wrt_map)
  moreover have "bp_side k = side" if "(k, v) \<in> set m" for k v using assms that by (auto simp: levels_wf_def)
  ultimately show ?thesis
    by (cases side) (auto simp: rank_def elim!: sorted_wrt_mono_rel [rotated])
qed

lemma best_price_head:
  assumes "levels_wf side (ld_levels l)"
  shows "map_option (\<lambda>tp. bp_value (lv_price tp)) (ladder_top l) =
    (case ld_levels l of [] \<Rightarrow> None | e # _ \<Rightarrow> Some (bp_value (fst e)))"
  using assms by (auto simp: ladder_top_def levels_wf_def split: list.split)

lemma best_price_entry:
  assumes "levels_wf side (ld_levels l)" and "map_option (\<lambda>tp. bp_value (lv_price tp)) (ladder_top l) = Some p"
  obtains e rest where "ld_levels l = e # rest" "key_raw e = p_raw p"
  using assms best_price_head [OF assms(1)] by (auto split: list.splits)

text \<open>The levels a side keeps: all of them when the side is not cleared.\<close>

definition kept_bids :: "order_side option \<Rightarrow> int \<Rightarrow> (book_price, book_level) btree_map \<Rightarrow> (book_price, book_level) btree_map" where
  "kept_bids side ask m = (if side = Some Sell then m else filter (\<lambda>e. key_raw e < ask) m)"

definition kept_asks :: "order_side option \<Rightarrow> int \<Rightarrow> (book_price, book_level) btree_map \<Rightarrow> (book_price, book_level) btree_map" where
  "kept_asks side bid m = (if side = Some Buy then m else filter (\<lambda>e. bid < key_raw e) m)"

lemma clear_stale_levels_crossed:
  assumes inv: "book_inv b" and bt: "ob_book_type b \<noteq> L1_MBP"
    and bid: "best_bid_price b = Some bid" and ask: "best_ask_price b = Some ask" and x: "p_raw ask < p_raw bid"
  shows "\<exists>removed b'. clear_stale_levels b side = Some (Some removed, b') \<and> book_inv b' \<and>
    ld_levels (ob_bids b') = kept_bids side (p_raw ask) (ld_levels (ob_bids b)) \<and>
    ld_levels (ob_asks b') = kept_asks side (p_raw bid) (ld_levels (ob_asks b))"
proof -
  let ?mb = "ld_levels (ob_bids b)" and ?ma = "ld_levels (ob_asks b)"
  have invs: "ladder_inv (ob_bids b)" "ladder_inv (ob_asks b)" using inv by (simp_all add: book_inv_def)
  have wfb: "levels_wf SBuy ?mb" and wfa: "levels_wf SSell ?ma"
    using ladder_inv_levels [OF invs(1)] ladder_inv_levels [OF invs(2)] inv by (simp_all add: book_inv_def)
  define pb where "pb = (if side = Some Sell then [] else takeWhile (\<lambda>e. p_raw ask \<le> key_raw e) ?mb)"
  define pa where "pa = (if side = Some Buy then [] else takeWhile (\<lambda>e. key_raw e \<le> p_raw bid) ?ma)"
  have fb: "dropWhile (\<lambda>e. p_raw ask \<le> key_raw e) ?mb = filter (\<lambda>e. key_raw e < p_raw ask) ?mb"
    using while_is_filter(2) [OF levels_sorted [OF wfb], of "\<lambda>e. p_raw ask \<le> key_raw e"] by (simp add: not_le)
  have fa: "dropWhile (\<lambda>e. key_raw e \<le> p_raw bid) ?ma = filter (\<lambda>e. p_raw bid < key_raw e) ?ma"
    using while_is_filter(2) [OF levels_sorted [OF wfa], of "\<lambda>e. key_raw e \<le> p_raw bid"] by (simp add: not_le)
  have "?mb = pb @ kept_bids side (p_raw ask) ?mb" by (simp add: pb_def kept_bids_def flip: fb)
  from remove_levels_prefix [OF invs(1) this, of "[]"] obtain lb where
    lb: "remove_levels (map fst pb) [] (ob_bids b) = Some (map snd pb, lb)" "ladder_inv lb"
      "ld_levels lb = kept_bids side (p_raw ask) ?mb" "ld_side lb = ld_side (ob_bids b)"
      "ld_book_type lb = ld_book_type (ob_bids b)" by auto
  have "?ma = pa @ kept_asks side (p_raw bid) ?ma" by (simp add: pa_def kept_asks_def flip: fa)
  from remove_levels_prefix [OF invs(2) this, of "map snd pb"] obtain la where
    la: "remove_levels (map fst pa) (map snd pb) (ob_asks b) = Some (map snd pb @ map snd pa, la)" "ladder_inv la"
      "ld_levels la = kept_asks side (p_raw bid) ?ma" "ld_side la = ld_side (ob_asks b)"
      "ld_book_type la = ld_book_type (ob_asks b)" by blast
  obtain eb rb where hb: "?mb = eb # rb" "key_raw eb = p_raw bid"
    using bid best_price_head [OF wfb] by (auto simp: best_bid_price_def split: list.splits)
  obtain ea ra where ha: "?ma = ea # ra" "key_raw ea = p_raw ask"
    using ask best_price_head [OF wfa] by (auto simp: best_ask_price_def split: list.splits)
  have ne: "pb \<noteq> [] \<or> pa \<noteq> []" using hb ha x by (auto simp: pb_def pa_def)
  let ?b' = "book_increment (b\<lparr>ob_bids := lb, ob_asks := la\<rparr>) (ob_sequence b) (ob_ts_last b)"
  have keys: "(if side \<noteq> Some Sell then takeWhile (\<lambda>bp. p_raw ask \<le> p_raw (bp_value bp)) (bt_keys ?mb) else []) = map fst pb"
    "(if side \<noteq> Some Buy then takeWhile (\<lambda>bp. p_raw (bp_value bp) \<le> p_raw bid) (bt_keys ?ma) else []) = map fst pa"
    by (simp_all add: pb_def pa_def bt_keys_def takeWhile_map comp_def)
  have "clear_stale_levels b side = Some (Some (map snd pb @ map snd pa), ?b')"
    unfolding clear_stale_levels_def bid ask prod.case option.case Let_def keys
    using bt x ne lb(1) la(1) by auto
  moreover have "book_inv ?b'" using inv lb la by (simp add: book_inv_def)
  ultimately show ?thesis using lb(3) la(3) by auto
qed

lemma clear_stale_levels_calm:
  assumes "\<not> crossed b \<or> ob_book_type b = L1_MBP"
  shows "clear_stale_levels b side = Some (None, b)"
  using assms by (auto simp: clear_stale_levels_def crossed_def split: option.split)

section \<open>Replaying a snapshot\<close>

text \<open>What a client sees of one side: the price rank of each level with its queue of orders.
  The precision a level's key happens to carry is not part of it.\<close>

definition levels_view :: "(book_price, book_level) btree_map \<Rightarrow> (int \<times> (u64, book_order) index_map) list" where
  "levels_view m = map (\<lambda>(k, lev). (rank k, lv_orders lev)) m"

definition book_view :: "order_book \<Rightarrow>
    (int \<times> (u64, book_order) index_map) list \<times> (int \<times> (u64, book_order) index_map) list" where
  "book_view b = (levels_view (ld_levels (ob_bids b)), levels_view (ld_levels (ob_asks b)))"

definition side_orders :: "book_ladder \<Rightarrow> book_order list" where
  "side_orders l = concat (map level_get_orders (bt_values (ld_levels l)))"

abbreviation keyed :: "book_order list \<Rightarrow> (u64, book_order) index_map" where
  "keyed os \<equiv> map (\<lambda>ord. (bo_order_id ord, ord)) os"

definition place_all :: "book_order list \<Rightarrow> book_ladder \<Rightarrow> book_ladder panics" where
  "place_all os l = fold_opt (\<lambda>ord l. ladder_place l ord) os l"

lemma place_all_simps [simp]:
  "place_all [] l = Some l"
  "place_all (ord # os) l = Option.bind (ladder_place l ord) (place_all os)"
  by (simp_all add: place_all_def fun_eq_iff cong: bind_option_cong)

lemma place_all_append: "place_all (xs @ ys) l = Option.bind (place_all xs l) (place_all ys)"
  by (simp add: place_all_def fold_opt_append fun_eq_iff cong: bind_option_cong)

lemma levels_view_append [simp]: "levels_view (m @ n) = levels_view m @ levels_view n"
  by (simp add: levels_view_def)

lemma levels_view_snoc:
  assumes "levels_view m = v @ [(r, os)]"
  obtains m1 k lev where "m = m1 @ [(k, lev)]" "levels_view m1 = v" "rank k = r" "lv_orders lev = os"
  using assms by (cases m rule: rev_cases) (auto simp: levels_view_def)

lemma levels_view_ranks: "(\<forall>p \<in> set m. rank (fst p) < r) \<longleftrightarrow> (\<forall>p \<in> set (levels_view m). fst p < r)"
  by (auto simp: levels_view_def)

text \<open>An order that comes after everything placed so far opens a level or joins the last one.\<close>

lemma ladder_place_opens:
  assumes wf: "levels_wf (ld_side l) (ld_levels l)" and on: "on_side l ord" and pos: "quantity_is_positive (bo_size ord)"
    and r: "r = rank \<lparr>bp_value = bo_price ord, bp_side = ld_side l\<rparr>"
    and above: "\<forall>p \<in> set (levels_view (ld_levels l)). fst p < r"
  shows "\<exists>l'. ladder_place l ord = Some l' \<and> ld_side l' = ld_side l \<and> ld_book_type l' = ld_book_type l \<and>
    levels_wf (ld_side l') (ld_levels l') \<and>
    levels_view (ld_levels l') = levels_view (ld_levels l) @ [(r, [(bo_order_id ord, ord)])]"
proof -
  obtain l' where l': "ladder_place l ord = Some l'" using ladder_place_total [OF wf on pos] by blast
  note above' = above [folded levels_view_ranks, unfolded r]
  show ?thesis
    using l' ladder_place_eq [OF wf on pos] ladder_place_levels [OF wf on pos l'] pos
    by (auto simp: put_level_def join_level_def bt_get_above [OF above'] bt_insert_above [OF above'] r
        level_add_def levels_view_def im_insert_def)
qed

lemma ladder_place_joins:
  assumes wf: "levels_wf (ld_side l) (ld_levels l)" and on: "on_side l ord" and pos: "quantity_is_positive (bo_size ord)"
    and r: "r = rank \<lparr>bp_value = bo_price ord, bp_side = ld_side l\<rparr>"
    and view: "levels_view (ld_levels l) = v @ [(r, q)]" and fresh: "bo_order_id ord \<notin> set (im_keys q)"
  shows "\<exists>l'. ladder_place l ord = Some l' \<and> ld_side l' = ld_side l \<and> ld_book_type l' = ld_book_type l \<and>
    levels_wf (ld_side l') (ld_levels l') \<and>
    levels_view (ld_levels l') = v @ [(r, q @ [(bo_order_id ord, ord)])]"
proof -
  let ?bp = "\<lparr>bp_value = bo_price ord, bp_side = ld_side l\<rparr>"
  obtain l' where l': "ladder_place l ord = Some l'" using ladder_place_total [OF wf on pos] by blast
  from view obtain m k lev where m: "ld_levels l = m @ [(k, lev)]" "levels_view m = v" "rank k = r" "lv_orders lev = q"
    by (rule levels_view_snoc)
  have below: "\<forall>p \<in> set m. rank (fst p) < rank ?bp"
    using levels_wfD(1) [OF wf] m(1,3) r by (simp add: bt_wf_append)
  show ?thesis
    using l' ladder_place_eq [OF wf on pos] ladder_place_levels [OF wf on pos l'] pos m fresh
    by (auto simp: put_level_def join_level_def m(1) bt_get_end [OF below] bt_insert_end [OF below] r
        level_add_def im_insert_fresh) (simp add: levels_view_def r)
qed

lemma place_all_joins:
  assumes "levels_wf (ld_side l) (ld_levels l)"
    and "\<forall>ord \<in> set os. on_side l ord \<and> quantity_is_positive (bo_size ord) \<and>
      r = rank \<lparr>bp_value = bo_price ord, bp_side = ld_side l\<rparr>"
    and "levels_view (ld_levels l) = v @ [(r, q)]" and "distinct (im_keys (q @ keyed os))"
  shows "\<exists>l'. place_all os l = Some l' \<and> ld_side l' = ld_side l \<and> ld_book_type l' = ld_book_type l \<and>
    levels_wf (ld_side l') (ld_levels l') \<and> levels_view (ld_levels l') = v @ [(r, q @ keyed os)]"
  using assms
proof (induction os arbitrary: l q)
  case (Cons ord os)
  have "bo_order_id ord \<notin> set (im_keys q)" using Cons.prems(4) by (auto simp: im_keys_def)
  then obtain l1 where l1: "ladder_place l ord = Some l1" "ld_side l1 = ld_side l" "ld_book_type l1 = ld_book_type l"
    "levels_wf (ld_side l1) (ld_levels l1)" "levels_view (ld_levels l1) = v @ [(r, q @ [(bo_order_id ord, ord)])]"
    using ladder_place_joins [OF Cons.prems(1) _ _ _ Cons.prems(3), of ord] Cons.prems(2) by auto
  have "\<forall>x \<in> set os. on_side l1 x \<and> quantity_is_positive (bo_size x) \<and>
      r = rank \<lparr>bp_value = bo_price x, bp_side = ld_side l1\<rparr>"
    using Cons.prems(2) l1(2) by (auto simp: on_side_def)
  from Cons.IH [OF l1(4) this l1(5)] Cons.prems(4) l1 show ?case by auto
qed simp

lemma place_all_level:
  assumes "levels_wf (ld_side l) (ld_levels l)" and "os \<noteq> []"
    and "\<forall>ord \<in> set os. on_side l ord \<and> quantity_is_positive (bo_size ord) \<and>
      r = rank \<lparr>bp_value = bo_price ord, bp_side = ld_side l\<rparr>"
    and "\<forall>p \<in> set (levels_view (ld_levels l)). fst p < r" and "distinct (im_keys (keyed os))"
  shows "\<exists>l'. place_all os l = Some l' \<and> ld_side l' = ld_side l \<and> ld_book_type l' = ld_book_type l \<and>
    levels_wf (ld_side l') (ld_levels l') \<and> levels_view (ld_levels l') = levels_view (ld_levels l) @ [(r, keyed os)]"
proof -
  obtain ord os' where os: "os = ord # os'" using assms(2) by (cases os) auto
  obtain l1 where l1: "ladder_place l ord = Some l1" "ld_side l1 = ld_side l" "ld_book_type l1 = ld_book_type l"
    "levels_wf (ld_side l1) (ld_levels l1)"
    "levels_view (ld_levels l1) = levels_view (ld_levels l) @ [(r, [(bo_order_id ord, ord)])]"
    using ladder_place_opens [OF assms(1) _ _ _ assms(4), of ord] assms(3) os by auto
  have "\<forall>x \<in> set os'. on_side l1 x \<and> quantity_is_positive (bo_size x) \<and>
      r = rank \<lparr>bp_value = bo_price x, bp_side = ld_side l1\<rparr>"
    using assms(3) os l1(2) by (auto simp: on_side_def)
  from place_all_joins [OF l1(4) this l1(5)] assms(5) l1 os show ?thesis by auto
qed

text \<open>Replaying the orders of well-formed levels rebuilds the levels.\<close>

lemma level_wf_keyed:
  assumes "level_wf lev"
  shows "lv_orders lev = keyed (level_get_orders lev)" and "distinct (im_keys (keyed (level_get_orders lev)))"
proof -
  have "map (\<lambda>ord. (bo_order_id ord, ord)) (map snd (lv_orders lev)) = lv_orders lev"
    using assms by (auto simp: level_wf_def intro!: map_idI)
  then show eq: "lv_orders lev = keyed (level_get_orders lev)"
    by (simp add: level_get_orders_def im_values_def)
  show "distinct (im_keys (keyed (level_get_orders lev)))"
    using assms unfolding eq [symmetric] by (simp add: level_wf_def im_wf_def)
qed

lemma place_all_levels:
  assumes "levels_wf (ld_side l) (ld_levels l)" and "levels_wf (ld_side l) m"
    and "all_queued (\<lambda>ord. q_raw (bo_size ord) \<noteq> QUANTITY_UNDEF) m"
    and "\<forall>p \<in> set (levels_view (ld_levels l)). \<forall>q \<in> set (levels_view m). fst p < fst q"
  shows "\<exists>l'. place_all (concat (map level_get_orders (bt_values m))) l = Some l' \<and> ld_side l' = ld_side l \<and>
    ld_book_type l' = ld_book_type l \<and> levels_view (ld_levels l') = levels_view (ld_levels l) @ levels_view m"
  using assms
proof (induction m arbitrary: l)
  case Nil
  then show ?case by (simp add: bt_values_def levels_view_def)
next
  case (Cons e m)
  obtain k lev where e: "e = (k, lev)" by (cases e)
  have lw: "bp_side k = ld_side l" "lv_price lev = k" "level_wf lev" "lv_orders lev \<noteq> []"
    using levels_wfD(2) [OF Cons.prems(2), of k lev] e by auto
  have wfm: "levels_wf (ld_side l) m" using Cons.prems(2) by (auto simp: levels_wf_def e)
  note kd = level_wf_keyed [OF lw(3)]
  have ords: "on_side l ord \<and> quantity_is_positive (bo_size ord) \<and>
      rank k = rank \<lparr>bp_value = bo_price ord, bp_side = ld_side l\<rparr>" if "ord \<in> set (level_get_orders lev)" for ord
  proof -
    have at: "order_at k ord"
      using that lw(2,3) by (fastforce simp: level_wf_def level_get_orders_def im_values_def)
    have "q_raw (bo_size ord) \<noteq> QUANTITY_UNDEF"
      using Cons.prems(3) that by (auto simp: all_queued_def e level_get_orders_def)
    with at lw(1) show ?thesis
      by (auto simp: order_at_def on_side_def quantity_is_positive_def rank_eq_raw)
  qed
  have "level_get_orders lev \<noteq> []" using lw(4) kd(1) by auto
  then obtain l1 where l1: "place_all (level_get_orders lev) l = Some l1" "ld_side l1 = ld_side l"
    "ld_book_type l1 = ld_book_type l" "levels_wf (ld_side l1) (ld_levels l1)"
    "levels_view (ld_levels l1) = levels_view (ld_levels l) @ [(rank k, lv_orders lev)]"
    using place_all_level [OF Cons.prems(1), of "level_get_orders lev" "rank k"] ords Cons.prems(4) kd
    by (auto simp: levels_view_def e)
  have "\<forall>p \<in> set (levels_view (ld_levels l1)). \<forall>q \<in> set (levels_view m). fst p < fst q"
    using Cons.prems(2,4) l1(5) by (auto simp: levels_view_def e levels_wf_def)
  moreover have "all_queued (\<lambda>ord. q_raw (bo_size ord) \<noteq> QUANTITY_UNDEF) m"
    using Cons.prems(3) by (simp add: all_queued_def)
  ultimately obtain l2 where "place_all (concat (map level_get_orders (bt_values m))) l1 = Some l2"
    "ld_side l2 = ld_side l" "ld_book_type l2 = ld_book_type l1"
    "levels_view (ld_levels l2) = levels_view (ld_levels l1) @ levels_view m"
    using Cons.IH [OF l1(4), unfolded l1(2), OF wfm] by auto
  with l1 show ?case by (auto simp: bt_values_def e place_all_append levels_view_def)
qed

section \<open>The deltas of a snapshot\<close>

definition snapshot_add :: "order_book_delta \<Rightarrow> bool" where
  "snapshot_add d \<longleftrightarrow> dl_action d = Add \<and> dl_flags d \<in> {flag_value F_SNAPSHOT, flag_value F_SNAPSHOT OR flag_value F_LAST}"

lemma snapshot_adds_total:
  assumes "\<forall>ord \<in> set os. quantity_is_positive (bo_size ord)"
  shows "\<exists>ds. snapshot_adds b te ti n c os = Some ds \<and> map dl_order ds = os \<and> (\<forall>d \<in> set ds. snapshot_add d)"
  using assms
proof (induction os arbitrary: c)
  case (Cons ord os)
  obtain ds where "snapshot_adds b te ti n (Suc c) os = Some ds" "map dl_order ds = os" "\<forall>d \<in> set ds. snapshot_add d"
    using Cons.IH [of "Suc c"] Cons.prems by auto
  with Cons.prems show ?case
    by (auto simp: delta_new_def delta_new_checked_def check_positive_quantity_def expect_def snapshot_add_def
        snapshot_flags_def)
qed simp

lemma pre_process_snapshot:
  assumes "snapshot_add d" and "bt = L3_MBO \<or> bt = L2_MBP \<and> price_keyed hash ord"
  shows "pre_process_order hash bt ord (dl_flags d) = ord"
  using assms
  by (auto simp: pre_process_order_def snapshot_add_def flag_matches_def price_keyed_def price_based_order_id_def)

lemma ladder_place_book_type: "ladder_place l ord = Some l' \<Longrightarrow> ld_book_type l' = ld_book_type l"
  by (auto simp: ladder_place_def bind_Some_conv)

lemma apply_delta_list_append:
  "apply_delta_list hash b (xs @ ys) = Option.bind (apply_delta_list hash b xs)
     (\<lambda>(r, b'). case r of Inl e \<Rightarrow> Some (Inl e, b') | Inr _ \<Rightarrow> apply_delta_list hash b' ys)"
proof (induction xs arbitrary: b)
  case (Cons x xs)
  then show ?case by (cases "apply_delta_unchecked hash b x") (auto split: sum.splits)
qed simp

definition side_ladder :: "order_side \<Rightarrow> order_book \<Rightarrow> book_ladder" where
  "side_ladder s b = (if s = Buy then ob_bids b else ob_asks b)"

definition other_side :: "order_side \<Rightarrow> order_side" where
  "other_side s = (if s = Buy then Sell else Buy)"

lemma apply_snapshot_add:
  assumes d: "snapshot_add d" and s: "bo_side (dl_order d) = s" "s \<noteq> NoOrderSide"
    and pos: "quantity_is_positive (bo_size (dl_order d))"
    and pre: "pre_process_order hash (ob_book_type b) (dl_order d) (dl_flags d) = dl_order d"
    and bt: "ld_book_type (side_ladder s b) \<noteq> L1_MBP"
    and place: "ladder_place (side_ladder s b) (dl_order d) = Some l"
  shows "\<exists>b'. apply_delta_unchecked hash b d = Some (Inr (), b') \<and> side_ladder s b' = l \<and>
    side_ladder (other_side s) b' = side_ladder (other_side s) b \<and> same_book b b'"
proof -
  have sided: "bo_side (dl_order d) \<noteq> NoOrderSide" using s by simp
  have "dl_action d = Add" using d by (simp add: snapshot_add_def)
  then show ?thesis
    using dispatch_delta_sided [OF sided, of d hash b] sided s pos pre bt place
    by (cases s) (auto simp: apply_delta_unchecked_def ladder_apply_def ladder_add_other side_ladder_def
        other_side_def same_book_def)
qed

lemma apply_snapshot_side:
  assumes "\<forall>d \<in> set ds. snapshot_add d \<and> bo_side (dl_order d) = s \<and> quantity_is_positive (bo_size (dl_order d)) \<and>
      pre_process_order hash (ob_book_type b) (dl_order d) (dl_flags d) = dl_order d"
    and "s \<noteq> NoOrderSide" and "ld_book_type (side_ladder s b) \<noteq> L1_MBP"
    and "place_all (map dl_order ds) (side_ladder s b) = Some l"
  shows "\<exists>b'. apply_delta_list hash b ds = Some (Inr (), b') \<and> side_ladder s b' = l \<and>
    side_ladder (other_side s) b' = side_ladder (other_side s) b \<and> same_book b b'"
  using assms
proof (induction ds arbitrary: b)
  case (Cons d ds)
  from Cons.prems(4) obtain l1 where l1: "ladder_place (side_ladder s b) (dl_order d) = Some l1"
    "place_all (map dl_order ds) l1 = Some l" by (auto simp: bind_Some_conv)
  obtain b1 where b1: "apply_delta_unchecked hash b d = Some (Inr (), b1)" "side_ladder s b1 = l1"
    "side_ladder (other_side s) b1 = side_ladder (other_side s) b" "same_book b b1"
    using apply_snapshot_add [of d s hash b l1] Cons.prems l1(1) by auto
  have "ld_book_type l1 \<noteq> L1_MBP" using Cons.prems(3) ladder_place_book_type [OF l1(1)] by simp
  with Cons.IH [of b1] Cons.prems(1,2) b1 l1(2) show ?case by (auto simp: same_book_def)
qed simp

text \<open>The orders of one side of a book of which every size is defined.\<close>

lemma side_orders_facts:
  assumes sh: "ladder_shape P l" and def: "all_queued (\<lambda>ord. q_raw (bo_size ord) \<noteq> QUANTITY_UNDEF) (ld_levels l)"
    and "ord \<in> set (side_orders l)"
  shows "quantity_is_positive (bo_size ord)" and "as_specified (bo_side ord) = Some (ld_side l)" and "P ord"
proof -
  obtain k lev where k: "(k, lev) \<in> set (ld_levels l)" "ord \<in> set (im_values (lv_orders lev))"
    using assms(3) by (auto simp: side_orders_def bt_values_def level_get_orders_def)
  have lw: "level_wf lev" "lv_price lev = k" "bp_side k = ld_side l"
    using levels_wfD(2) [OF ladder_shapeD(1) [OF sh] k(1)] by auto
  have at: "order_at k ord" using lw k(2) by (fastforce simp: level_wf_def im_values_def)
  have "q_raw (bo_size ord) \<noteq> QUANTITY_UNDEF" "P ord"
    using def ladder_shapeD(2) [OF sh] k by (auto simp: all_queued_def)
  with at lw(3) show "quantity_is_positive (bo_size ord)" "as_specified (bo_side ord) = Some (ld_side l)" "P ord"
    by (auto simp: order_at_def quantity_is_positive_def)
qed

definition sizes_defined :: "order_book \<Rightarrow> bool" where
  "sizes_defined b \<longleftrightarrow> all_queued (\<lambda>ord. q_raw (bo_size ord) \<noteq> QUANTITY_UNDEF) (ld_levels (ob_bids b)) \<and>
     all_queued (\<lambda>ord. q_raw (bo_size ord) \<noteq> QUANTITY_UNDEF) (ld_levels (ob_asks b))"

definition stable_ids :: "(int \<Rightarrow> u64) \<Rightarrow> book_type \<Rightarrow> book_order \<Rightarrow> bool" where
  "stable_ids hash bt ord \<longleftrightarrow> bt = L3_MBO \<or> bt = L2_MBP \<and> price_keyed hash ord"

lemma to_deltas_total:
  assumes sh: "book_shape P b" and def: "sizes_defined b"
  shows "\<exists>snap c ds. to_deltas b te ti = Some snap \<and> ds_instrument_id snap = ob_instrument_id b \<and>
    ds_deltas snap = c # ds \<and> dl_action c = Clear \<and> (\<forall>d \<in> set ds. snapshot_add d) \<and>
    map dl_order ds = side_orders (ob_bids b) @ side_orders (ob_asks b)"
proof -
  have "\<forall>ord \<in> set (side_orders (ob_bids b) @ side_orders (ob_asks b)). quantity_is_positive (bo_size ord)"
    using side_orders_facts(1) [of P] sh def by (auto simp: book_shape_def sizes_defined_def)
  moreover have "concat (map level_get_orders (book_bids b None)) @ concat (map level_get_orders (book_asks b None)) =
      side_orders (ob_bids b) @ side_orders (ob_asks b)"
    by (simp add: side_orders_def book_bids_def book_asks_def)
  ultimately obtain ds where ds: "snapshot_adds b te ti
      (sum_list (map level_len (book_bids b None)) + sum_list (map level_len (book_asks b None))) 0
      (concat (map level_get_orders (book_bids b None)) @ concat (map level_get_orders (book_asks b None))) = Some ds"
    "map dl_order ds = side_orders (ob_bids b) @ side_orders (ob_asks b)" "\<forall>d \<in> set ds. snapshot_add d"
    using snapshot_adds_total by metis
  let ?c = "let c = delta_clear (ob_instrument_id b) (ob_sequence b) te ti in
    if sum_list (map level_len (book_bids b None)) + sum_list (map level_len (book_asks b None)) = 0
    then c\<lparr>dl_flags := dl_flags c OR flag_value F_LAST\<rparr> else c"
  obtain snap where snap: "deltas_new (ob_instrument_id b) (?c # ds) = Some snap"
    "ds_instrument_id snap = ob_instrument_id b" "ds_deltas snap = ?c # ds"
    by (simp add: deltas_new_def deltas_new_checked_def expect_def)
  have "to_deltas b te ti = Some snap"
    unfolding to_deltas_def Let_def using ds(1) snap(1) by (simp add: Let_def)
  moreover have "dl_action ?c = Clear" by (simp add: delta_clear_def Let_def)
  ultimately show ?thesis using snap(2,3) ds(2,3) by blast
qed

lemma rebuild_side:
  assumes sh: "ladder_shape P l" and def: "all_queued (\<lambda>ord. q_raw (bo_size ord) \<noteq> QUANTITY_UNDEF) (ld_levels l)"
    and "ld_side l0 = ld_side l" and "ld_levels l0 = []"
  shows "\<exists>l'. place_all (side_orders l) l0 = Some l' \<and> levels_view (ld_levels l') = levels_view (ld_levels l)"
  using place_all_levels [of l0 "ld_levels l"] assms ladder_shapeD(1) [OF sh]
  by (auto simp: side_orders_def levels_view_def)

lemma snapshot_rebuilds:
  assumes sh: "book_shape (stable_ids hash (ob_book_type b)) b" and bt: "ob_book_type b \<noteq> L1_MBP"
    and def: "sizes_defined b"
    and sh0: "book_shape Q b0" and same: "same_book b b0"
  shows "\<exists>snap b'. to_deltas b te ti = Some snap \<and> apply_deltas hash b0 snap = Some (Inr (), b') \<and>
    book_view b' = book_view b"
proof -
  obtain snap c ds where snap: "to_deltas b te ti = Some snap" "ds_instrument_id snap = ob_instrument_id b"
    "ds_deltas snap = c # ds" "dl_action c = Clear" "\<forall>d \<in> set ds. snapshot_add d"
    "map dl_order ds = side_orders (ob_bids b) @ side_orders (ob_asks b)"
    using to_deltas_total [OF sh def] by blast
  then obtain db da where dsplit: "ds = db @ da" "map dl_order db = side_orders (ob_bids b)"
    "map dl_order da = side_orders (ob_asks b)"
    by (auto simp: map_eq_append_conv)
  define b1 where "b1 = book_clear b0 (dl_sequence c) (dl_ts_event c)"
  have sides: "ladder_shape (stable_ids hash (ob_book_type b)) (ob_bids b)" "ladder_shape (stable_ids hash (ob_book_type b)) (ob_asks b)"
    "ld_side (ob_bids b) = SBuy" "ld_side (ob_asks b) = SSell"
    using sh by (simp_all add: book_shape_def)
  have b1: "ld_levels (ob_bids b1) = []" "ld_levels (ob_asks b1) = []" "ld_side (ob_bids b1) = SBuy"
    "ld_side (ob_asks b1) = SSell" "ob_book_type b1 = ob_book_type b" "ld_book_type (ob_bids b1) = ob_book_type b"
    "ld_book_type (ob_asks b1) = ob_book_type b"
    using sh0 same by (simp_all add: b1_def book_clear_def book_shape_def same_book_def)
  obtain lb where lb: "place_all (side_orders (ob_bids b)) (ob_bids b1) = Some lb"
    "levels_view (ld_levels lb) = levels_view (ld_levels (ob_bids b))"
    using rebuild_side [OF sides(1)] def b1 sides by (auto simp: sizes_defined_def)
  obtain la where la: "place_all (side_orders (ob_asks b)) (ob_asks b1) = Some la"
    "levels_view (ld_levels la) = levels_view (ld_levels (ob_asks b))"
    using rebuild_side [OF sides(2)] def b1 sides by (auto simp: sizes_defined_def)
  have ok: "snapshot_add d \<and> bo_side (dl_order d) = s \<and> quantity_is_positive (bo_size (dl_order d)) \<and>
      pre_process_order hash (ob_book_type b) (dl_order d) (dl_flags d) = dl_order d"
    if "d \<in> set ds" "dl_order d \<in> set (side_orders l)" "ladder_shape (stable_ids hash (ob_book_type b)) l"
      "all_queued (\<lambda>ord. q_raw (bo_size ord) \<noteq> QUANTITY_UNDEF) (ld_levels l)" "as_specified s = Some (ld_side l)"
    for d s l
    using that side_orders_facts [OF that(3,4,2)] snap(5) pre_process_snapshot [of d "ob_book_type b" hash "dl_order d"]
    by (cases s; cases "bo_side (dl_order d)") (auto simp: stable_ids_def)
  have mem: "d \<in> set db \<Longrightarrow> dl_order d \<in> set (side_orders (ob_bids b))"
    "d \<in> set da \<Longrightarrow> dl_order d \<in> set (side_orders (ob_asks b))" for d
    unfolding dsplit(2,3) [symmetric] by simp_all
  have okb: "\<forall>d \<in> set db. snapshot_add d \<and> bo_side (dl_order d) = Buy \<and> quantity_is_positive (bo_size (dl_order d)) \<and>
      pre_process_order hash (ob_book_type b1) (dl_order d) (dl_flags d) = dl_order d"
    using def dsplit(1) sides(3) ok [OF _ mem(1) sides(1), of _ Buy] unfolding b1(5) sizes_defined_def by auto
  obtain b2 where b2: "apply_delta_list hash b1 db = Some (Inr (), b2)" "ob_bids b2 = lb" "ob_asks b2 = ob_asks b1"
    "same_book b1 b2"
    using apply_snapshot_side [OF okb, of lb] dsplit(2) b1(6) lb(1) bt
    by (auto simp: side_ladder_def other_side_def)
  have bt2: "ob_book_type b2 = ob_book_type b" using b2(4) b1(5) by (simp add: same_book_def)
  have oka: "\<forall>d \<in> set da. snapshot_add d \<and> bo_side (dl_order d) = Sell \<and> quantity_is_positive (bo_size (dl_order d)) \<and>
      pre_process_order hash (ob_book_type b2) (dl_order d) (dl_flags d) = dl_order d"
    using def dsplit(1) sides(4) ok [OF _ mem(2) sides(2), of _ Sell] unfolding bt2 sizes_defined_def by auto
  obtain b3 where b3: "apply_delta_list hash b2 da = Some (Inr (), b3)" "ob_asks b3 = la" "ob_bids b3 = ob_bids b2"
    using apply_snapshot_side [OF oka, of la] dsplit(3) b1(7) b2(3) la(1) bt
    by (auto simp: side_ladder_def other_side_def)
  have "apply_deltas hash b0 snap = Some (Inr (), b3)"
    using snap(2,3,4) same b2(1) b3(1) dsplit(1)
    by (simp add: apply_deltas_def apply_deltas_unchecked_def same_book_def apply_delta_clear apply_delta_list_append
        flip: b1_def)
  with snap(1) b2(2) b3 lb(2) la(2) show ?thesis by (auto simp: book_view_def)
qed

section \<open>Properties\<close>

text \<open>C4: \<open>clear_stale_levels\<close> uncrosses a book. On any L2 or L3 book it returns, keeps the
  invariant and leaves a book that is not crossed. A book that was not crossed is untouched; from a
  crossed one exactly the bids at or above the best ask are removed (unless only asks are to be
  cleared) and exactly the asks at or below the best bid (unless only bids are to be cleared),
  and every other level stays.\<close>

theorem clear_stale_levels_uncrosses:
  assumes "book_inv b" and "ob_book_type b \<noteq> L1_MBP"
  shows "\<exists>r b'. clear_stale_levels b side = Some (r, b') \<and> book_inv b' \<and> \<not> crossed b' \<and>
    (if crossed b then
       r \<noteq> None \<and>
       ld_levels (ob_bids b') = kept_bids side (p_raw (the (best_ask_price b))) (ld_levels (ob_bids b)) \<and>
       ld_levels (ob_asks b') = kept_asks side (p_raw (the (best_bid_price b))) (ld_levels (ob_asks b))
     else r = None \<and> b' = b)"
proof (cases "crossed b")
  case True
  then obtain bid ask where ba: "best_bid_price b = Some bid" "best_ask_price b = Some ask" "p_raw ask < p_raw bid"
    by (auto simp: crossed_def)
  obtain removed b' where r: "clear_stale_levels b side = Some (Some removed, b')" "book_inv b'"
    "ld_levels (ob_bids b') = kept_bids side (p_raw ask) (ld_levels (ob_bids b))"
    "ld_levels (ob_asks b') = kept_asks side (p_raw bid) (ld_levels (ob_asks b))"
    using clear_stale_levels_crossed [OF assms ba] by blast
  have wf: "levels_wf SBuy (ld_levels (ob_bids b))" "levels_wf SSell (ld_levels (ob_asks b))"
    "levels_wf SBuy (ld_levels (ob_bids b'))" "levels_wf SSell (ld_levels (ob_asks b'))"
    using assms(1) r(2) by (auto simp: book_inv_def ladder_inv_def)
  have bound: "p_raw ask \<le> key_raw e" if "e \<in> set (ld_levels (ob_asks b))" for e
    using that ba(2) best_price_head [OF wf(2)] levels_sorted [OF wf(2)]
    by (auto simp: best_ask_price_def split: list.splits)
  have bound': "key_raw e \<le> p_raw bid" if "e \<in> set (ld_levels (ob_bids b))" for e
    using that ba(1) best_price_head [OF wf(1)] levels_sorted [OF wf(1)]
    by (auto simp: best_bid_price_def split: list.splits)
  have "p_raw bid' < p_raw ask'" if px: "best_bid_price b' = Some bid'" "best_ask_price b' = Some ask'" for bid' ask'
  proof -
    obtain eb where "eb \<in> set (ld_levels (ob_bids b'))" "key_raw eb = p_raw bid'"
      using best_price_entry [OF wf(3) px(1) [unfolded best_bid_price_def]] by (metis list.set_intros(1))
    moreover obtain ea where "ea \<in> set (ld_levels (ob_asks b'))" "key_raw ea = p_raw ask'"
      using best_price_entry [OF wf(4) px(2) [unfolded best_ask_price_def]] by (metis list.set_intros(1))
    ultimately show ?thesis using r(3,4) bound [of ea] bound' [of eb] ba(3)
      by (auto simp: kept_bids_def kept_asks_def split: if_splits)
  qed
  then have "\<not> crossed b'" by (force simp: crossed_def)
  with r True ba show ?thesis by auto
next
  case False
  then show ?thesis using clear_stale_levels_calm [of b side] assms(1) by simp
qed

theorem clear_stale_levels_uncrosses_witness:
  "\<exists>b r b'. apply_delta_list (\<lambda>_. 0) (book_new \<lparr>symbol = ''A'', venue = ''B''\<rparr> L3_MBO)
      [sample_delta Add Buy 6 1, sample_delta Add Sell 5 2, sample_delta Add Sell 8 3] = Some (Inr (), b) \<and> crossed b \<and>
    clear_stale_levels b None = Some (r, b') \<and> r \<noteq> None \<and> \<not> crossed b'"
proof -
  let ?b = "book_new \<lparr>symbol = ''A'', venue = ''B''\<rparr> L3_MBO" and ?ds = "[sample_delta Add Buy 6 1, sample_delta Add Sell 5 2, sample_delta Add Sell 8 3]"
  obtain b where b: "apply_delta_list (\<lambda>_. 0) ?b ?ds = Some (Inr (), b)" "crossed b" "ob_book_type b \<noteq> L1_MBP"
    by (simp add: sample_delta_def book_eval crossed_def best_bid_price_def best_ask_price_def ladder_top_def)
  have "all_adds_fresh (\<lambda>_. 0) ?b ?ds"
    by (simp add: sample_delta_def book_eval adds_fresh_def effective_order_def fresh_or_same_def)
  with b(1) have "book_inv b" using apply_delta_list_inv [OF book_inv_new] by blast
  from clear_stale_levels_uncrosses [OF this b(3), of None] b(1,2) show ?thesis by auto
qed

text \<open>C3: the snapshot of a book rebuilds it. Take two L2 or L3 books of the same instrument,
  each after an arbitrary stream of deltas. If no order of the first has an undefined size, its
  \<open>to_deltas\<close> returns a snapshot, applying it to the second succeeds, and the second book then
  has the same levels on both sides with the same orders in the same queue positions.\<close>

theorem snapshot_roundtrip:
  assumes "bt \<noteq> L1_MBP" and "apply_delta_list hash (book_new iid bt) ds = Some (r, b)"
    and "sizes_defined b" and "apply_delta_list hash (book_new iid bt) ds0 = Some (r0, b0)"
  shows "\<exists>snap b'. to_deltas b ts_event ts_init = Some snap \<and> apply_deltas hash b0 snap = Some (Inr (), b') \<and>
    book_view b' = book_view b"
proof -
  have "admits hash bt (stable_ids hash bt)"
    using assms(1) admits_price_keyed by (cases bt) (auto simp: admits_def stable_ids_def)
  then have ad: "admits hash (ob_book_type (book_new iid bt)) (stable_ids hash bt)" by (simp add: book_new_def)
  have b: "book_shape (stable_ids hash bt) b" "same_book (book_new iid bt) b"
    using apply_delta_list_shape [OF book_shape_new ad, of ds] assms(2) by auto
  have b0: "book_shape (stable_ids hash bt) b0" "same_book (book_new iid bt) b0"
    using apply_delta_list_shape [OF book_shape_new ad, of ds0] assms(4) by auto
  have bt: "ob_book_type b = bt" "same_book b b0"
    using b(2) b0(2) by (auto simp: same_book_def book_new_def)
  show ?thesis
    using snapshot_rebuilds [of hash b _ b0, unfolded bt(1), OF b(1) assms(1,3) b0(1) bt(2)] .
qed

theorem snapshot_roundtrip_witness:
  "\<exists>b b0 snap b'. apply_delta_list (\<lambda>_. 0) (book_new \<lparr>symbol = ''A'', venue = ''B''\<rparr> L3_MBO)
      [sample_delta Add Buy 5 1, sample_delta Add Buy 6 2, sample_delta Add Sell 8 3] = Some (Inr (), b) \<and>
    apply_delta_list (\<lambda>_. 0) (book_new \<lparr>symbol = ''A'', venue = ''B''\<rparr> L3_MBO) [sample_delta Add Sell 7 9] = Some (Inr (), b0) \<and>
    to_deltas b 1 2 = Some snap \<and> apply_deltas (\<lambda>_. 0) b0 snap = Some (Inr (), b') \<and> book_view b' = book_view b"
proof -
  let ?b = "book_new \<lparr>symbol = ''A'', venue = ''B''\<rparr> L3_MBO"
  obtain b where b: "apply_delta_list (\<lambda>_. 0) ?b [sample_delta Add Buy 5 1, sample_delta Add Buy 6 2, sample_delta Add Sell 8 3] = Some (Inr (), b)"
      "sizes_defined b"
    by (simp add: sample_delta_def book_eval sizes_defined_def all_queued_def im_values_def)
  obtain b0 where b0: "apply_delta_list (\<lambda>_. 0) ?b [sample_delta Add Sell 7 9] = Some (Inr (), b0)"
    by (simp add: sample_delta_def book_eval)
  from snapshot_roundtrip [OF _ b b0, of 1 2] b b0 show ?thesis by blast
qed

end
