(* ===== verification/Book_Fills.thy ===== *)
theory Book_Fills
  imports Book_Snapshot
begin

text \<open>
  Reading and replacing the top of a book: simulated fills and the worst price of a quantity
  (\<open>simulate_fills\<close>, \<open>analysis.rs\<close>), the replacement of an L1 book by quotes and
  trades, and what becomes of an order whose identifier is added again at another price.
\<close>

section \<open>Worst price\<close>

text \<open>The level at which a quantity is filled, walking the levels with their sizes.\<close>

fun fill_level :: "nat \<Rightarrow> (price \<times> nat) list \<Rightarrow> price option" where
  "fill_level qty [] = None"
| "fill_level qty ((p, n) # ps) =
     (if qty = 0 \<or> n = 0 then fill_level qty ps
      else case (if n < qty then fill_level (qty - n) ps else None) of None \<Rightarrow> Some p | Some w \<Rightarrow> Some w)"

lemma fill_level_zero [simp]: "fill_level 0 ps = None"
  by (induction ps) auto

lemma worst_px_loop_correct:
  "cum \<le> qty \<Longrightarrow> \<exists>cum'. worst_px_loop qty levs cum worst =
     (cum', case fill_level (qty - cum) (map (\<lambda>(bp, lev). (bp_value bp, level_size_raw lev)) levs) of
        None \<Rightarrow> worst | Some w \<Rightarrow> Some w) \<and>
     (cum' = 0 \<longleftrightarrow> cum = 0 \<and> fill_level (qty - cum) (map (\<lambda>(bp, lev). (bp_value bp, level_size_raw lev)) levs) = None)"
proof (induction levs arbitrary: cum worst)
  case (Cons e levs)
  obtain bp lev where e: "e = (bp, lev)" by (cases e)
  let ?n = "level_size_raw lev"
  consider (filled) "cum = qty" | (empty) "cum < qty" "?n = 0" | (part) "cum < qty" "0 < ?n" "cum + ?n < qty"
    | (full) "cum < qty" "0 < ?n" "qty \<le> cum + ?n"
    using Cons.prems by linarith
  then show ?case
  proof cases
    case filled
    then show ?thesis using Cons.IH [of cum worst] by (simp add: e)
  next
    case empty
    then show ?thesis using Cons.IH [of cum worst] by (simp add: e)
  next
    case part
    then have "min ?n (qty - cum) = ?n" by simp
    with part Cons.IH [of "cum + ?n" "Some (bp_value bp)"] show ?thesis
      by (auto simp: e Let_def split: option.splits)
  next
    case full
    then show ?thesis by (auto simp: e Let_def min_def)
  qed
qed simp

section \<open>Replacing the top of an L1 book\<close>

lemma l1_add_replaces:
  assumes sh: "ladder_shape P l" and l1: "ld_book_type l = L1_MBP" and on: "on_side l ord"
    and plain: "\<not> flag_matches F_MBP flags" "\<not> flag_matches F_SNAPSHOT flags"
  defines "bp \<equiv> \<lparr>bp_value = bo_price ord, bp_side = ld_side l\<rparr>"
  shows "\<exists>l'. ladder_add l ord flags = Some l' \<and> ld_side l' = ld_side l \<and> ld_book_type l' = L1_MBP \<and>
    ld_levels l' = (if quantity_is_positive (bo_size ord)
      then [(bp, \<lparr>lv_price = bp, lv_orders = [(bo_order_id ord, ord)]\<rparr>)] else [])"
proof -
  have h: "handle_l1_add l ord flags = (quantity_is_positive (bo_size ord), ladder_clear l)"
    using plain by (simp add: handle_l1_add_def)
  show ?thesis
  proof (cases "quantity_is_positive (bo_size ord)")
    case pos: True
    have "levels_wf (ld_side (ladder_clear l)) (ld_levels (ladder_clear l))" "on_side (ladder_clear l) ord"
      using on by (simp_all add: on_side_def)
    from ladder_place_eq [OF this pos] show ?thesis
      using ladder_add_l1 [OF l1 h] pos plain l1
      by (simp add: put_level_def join_level_def level_add_def im_insert_def bp_def)
  next
    case False
    then show ?thesis using ladder_add_l1 [OF l1 h] l1 by simp
  qed
qed

lemma replace_top_l1:
  assumes sh: "ladder_shape P l" and l1: "ld_book_type l = L1_MBP" and on: "on_side l ord"
  defines "bp \<equiv> \<lparr>bp_value = bo_price ord, bp_side = ld_side l\<rparr>"
  shows "\<exists>l'. replace_top l ord = Some l' \<and> ld_side l' = ld_side l \<and> ld_book_type l' = L1_MBP \<and>
    ld_levels l' = (if quantity_is_positive (bo_size ord)
      then [(bp, \<lparr>lv_price = bp, lv_orders = [(bo_order_id ord, ord)]\<rparr>)] else [])"
proof -
  have "\<exists>m. (case Option.bind (ladder_top l) level_first of
         Some tp \<Rightarrow> ladder_remove_order l (bo_order_id tp) | None \<Rightarrow> Some l) = Some m \<and>
      ladder_shape P m \<and> ld_side m = ld_side l \<and> ld_book_type m = L1_MBP"
    using sh l1 ladder_remove_order_shape [OF sh] by (auto split: option.split)
  then obtain m where m: "(case Option.bind (ladder_top l) level_first of
         Some tp \<Rightarrow> ladder_remove_order l (bo_order_id tp) | None \<Rightarrow> Some l) = Some m"
    "ladder_shape P m" "ld_side m = ld_side l" "ld_book_type m = L1_MBP" by blast
  have "on_side m ord" using on m(3) by (simp add: on_side_def)
  moreover have "\<not> flag_matches F_MBP 0" "\<not> flag_matches F_SNAPSHOT 0" by (simp_all add: flag_matches_def)
  ultimately show ?thesis using l1_add_replaces [OF m(2,4), of ord 0, unfolded m(3)] m(1)
    by (auto simp: replace_top_def bp_def)
qed

text \<open>The top of a side that holds at most the given order.\<close>

definition tops_at :: "book_ladder \<Rightarrow> price \<Rightarrow> quantity \<Rightarrow> bool" where
  "tops_at l p q \<longleftrightarrow> ladder_len l = (if quantity_is_positive q then 1 else 0) \<and>
     map_option (\<lambda>tp. bp_value (lv_price tp)) (ladder_top l) = (if quantity_is_positive q then Some p else None) \<and>
     Option.bind (ladder_top l) (\<lambda>tp. map_option bo_size (level_first tp)) = (if quantity_is_positive q then Some q else None)"

lemma replace_top_tops:
  assumes "ladder_shape P l" and "ld_book_type l = L1_MBP"
    and "as_specified s = Some (ld_side l)"
  shows "\<exists>l'. replace_top l \<lparr>bo_side = s, bo_price = p, bo_size = q, bo_order_id = i\<rparr> = Some l' \<and> tops_at l' p q"
  using replace_top_l1 [OF assms(1,2), of "\<lparr>bo_side = s, bo_price = p, bo_size = q, bo_order_id = i\<rparr>"] assms(3)
  by (auto simp: on_side_def tops_at_def ladder_len_def ladder_top_def level_first_def)

section \<open>Properties\<close>

text \<open>C5: simulated fills take liquidity in price-time priority and fill as much as there is.
  For an order with a side, a size within the quantity range and a valid precision, and a
  book whose reachable sizes fit 128 bits, \<open>simulate_fills\<close> returns fills that are a
  prefix of the orders of the opposite side up to the limit price, each but the last one in
  full, of a total that is the smaller of the order's size and the reachable size, at prices
  that respect the limit.\<close>

theorem simulate_fills_exact:
  assumes "book_shape P b" and "as_specified (bo_side ord) = Some side"
    and "q_prec (bo_size ord) \<le> FIXED_PRECISION" and "q_raw (bo_size ord) \<le> QUANTITY_RAW_MAX"
    and "l = (case side of SBuy \<Rightarrow> ob_asks b | SSell \<Rightarrow> ob_bids b)"
    and "reach = reachable_orders (side = SSell) (bo_price ord) (bt_values (ld_levels l))"
    and "size_total reach \<le> u128_max"
  shows "\<exists>fills. book_simulate_fills b ord = Some fills \<and>
    raw_total fills = min (q_raw (bo_size ord)) (size_total reach) \<and> fills_prefix fills reach \<and>
    (\<forall>f \<in> set fills. if side = SBuy then p_raw (fst f) \<le> p_raw (bo_price ord)
       else p_raw (bo_price ord) \<le> p_raw (fst f))"
proof -
  have l: "levels_wf (ld_side l) (ld_levels l)" "ld_side l = SBuy \<longleftrightarrow> side = SSell"
    using assms(1,5) by (cases side; simp add: book_shape_def ladder_shape_def)+
  obtain fills where f: "ladder_simulate_fills l ord = Some fills"
    "raw_total fills = min (q_raw (bo_size ord)) (size_total reach)" "fills_prefix fills reach"
    using ladder_simulate_fills_total [OF assms(3,4), of l] assms(6,7) l(2) by auto
  have "book_simulate_fills b ord = Some fills"
    using f(1) assms(2,5) by (cases side) (simp_all add: book_simulate_fills_def)
  moreover have "if side = SBuy then p_raw (fst x) \<le> p_raw (bo_price ord) else p_raw (bo_price ord) \<le> p_raw (fst x)"
    if "x \<in> set fills" for x
  proof -
    have "fst x \<in> set (map bo_price (take (length fills) reach))"
      using f(3) that unfolding fills_prefix_def by (metis image_eqI list.set_map)
    then obtain o' where "o' \<in> set reach" "fst x = bo_price o'" by (auto dest: in_set_takeD)
    then show ?thesis using reachable_orders_limit [OF l(1), of o' "side = SSell" "bo_price ord"] assms(6)
      by (cases side) auto
  qed
  ultimately show ?thesis using f(2,3) by blast
qed

theorem simulate_fills_exact_witness:
  "\<exists>b fills. apply_delta_list (\<lambda>_. 0) (book_new \<lparr>symbol = ''A'', venue = ''B''\<rparr> L3_MBO)
      [sample_delta Add Sell 5 1, sample_delta Add Sell 6 2, sample_delta Add Sell 8 3] = Some (Inr (), b) \<and>
    book_simulate_fills b
      \<lparr>bo_side = Buy, bo_price = \<lparr>p_raw = 6, p_prec = 0\<rparr>, bo_size = \<lparr>q_raw = 10, q_prec = 0\<rparr>, bo_order_id = 4\<rparr> = Some fills \<and>
    raw_total fills = 10"
proof -
  let ?o = "\<lparr>bo_side = Buy, bo_price = \<lparr>p_raw = 6, p_prec = 0\<rparr>, bo_size = \<lparr>q_raw = 10, q_prec = 0\<rparr>, bo_order_id = 4\<rparr>"
  let ?b = "book_new \<lparr>symbol = ''A'', venue = ''B''\<rparr> L3_MBO" and ?ds = "[sample_delta Add Sell 5 1, sample_delta Add Sell 6 2, sample_delta Add Sell 8 3]"
  obtain b where b: "apply_delta_list (\<lambda>_. 0) ?b ?ds = Some (Inr (), b)"
      "size_total (reachable_orders (SBuy = SSell) (bo_price ?o) (bt_values (ld_levels (ob_asks b)))) = 14"
    by (simp add: sample_delta_def book_eval im_values_def)
  have "book_shape (\<lambda>_. True) b"
    using apply_delta_list_shape [OF book_shape_new, of "\<lambda>_. 0" "\<lparr>symbol = ''A'', venue = ''B''\<rparr>" L3_MBO "\<lambda>_. True" ?ds] b(1) by (simp add: admits_def)
  from simulate_fills_exact [OF this _ _ _ refl refl, of ?o SBuy] b show ?thesis
    by (auto simp: FIXED_PRECISION_def raw_limits u128_max_def)
qed

text \<open>the worst price of a quantity is the price of the level at which the quantity, walked
  down the opposite side from the best price, is filled, or of the last non-empty level when the
  side is too thin; there is none exactly when the quantity or the side is empty.\<close>

theorem worst_price_is_fill_level:
  "get_worst_px_for_quantity b qty side =
     map_option (\<lambda>s. fill_level (q_raw qty) (map (\<lambda>(bp, lev). (bp_value bp, level_size_raw lev))
       (case s of SBuy \<Rightarrow> ld_levels (ob_asks b) | SSell \<Rightarrow> ld_levels (ob_bids b)))) (as_specified side)"
proof -
  have "worst_px_for_quantity qty levs =
      fill_level (q_raw qty) (map (\<lambda>(bp, lev). (bp_value bp, level_size_raw lev)) levs)" for levs
    using worst_px_loop_correct [of 0 "q_raw qty" levs None]
    by (auto simp: worst_px_for_quantity_def split: option.splits)
  then show ?thesis by (simp add: get_worst_px_for_quantity_def)
qed

text \<open>a quote replaces the top of an L1 book. A book of another type refuses it and a quote
  older than the last event is ignored, both leaving the book as it is; otherwise each side
  afterwards holds exactly the quoted price and size (nothing when that size is not positive),
  the sequence number is advanced by one, saturating, and the time stamp is the quote's.\<close>

theorem quote_replaces_top:
  assumes "book_shape P b"
  shows "\<exists>r b'. update_quote_tick b quote = Some (r, b') \<and>
    (if ob_book_type b \<noteq> L1_MBP then r = Inl (UpdateOp (ob_book_type b)) \<and> b' = b
     else if qt_ts_event quote < ob_ts_last b then r = Inr () \<and> b' = b
     else r = Inr () \<and> tops_at (ob_bids b') (qt_bid_price quote) (qt_bid_size quote) \<and>
       tops_at (ob_asks b') (qt_ask_price quote) (qt_ask_size quote) \<and>
       ob_sequence b' = saturating_add (ob_sequence b) 1 \<and> ob_ts_last b' = qt_ts_event quote)"
proof (cases "ob_book_type b = L1_MBP \<and> ob_ts_last b \<le> qt_ts_event quote")
  case True
  have bids: "ladder_shape P (ob_bids b)" "ld_book_type (ob_bids b) = L1_MBP" "as_specified Buy = Some (ld_side (ob_bids b))"
    and asks: "ladder_shape P (ob_asks b)" "ld_book_type (ob_asks b) = L1_MBP" "as_specified Sell = Some (ld_side (ob_asks b))"
    using assms True by (simp_all add: book_shape_def)
  obtain lb where lb: "replace_top (ob_bids b) \<lparr>bo_side = Buy, bo_price = qt_bid_price quote,
      bo_size = qt_bid_size quote, bo_order_id = side_value Buy\<rparr> = Some lb"
    "tops_at lb (qt_bid_price quote) (qt_bid_size quote)"
    using replace_top_tops [OF bids] by blast
  obtain la where la: "replace_top (ob_asks b) \<lparr>bo_side = Sell, bo_price = qt_ask_price quote,
      bo_size = qt_ask_size quote, bo_order_id = side_value Sell\<rparr> = Some la"
    "tops_at la (qt_ask_price quote) (qt_ask_size quote)"
    using replace_top_tops [OF asks] by blast
  have "\<not> qt_ts_event quote < ob_ts_last b" using True by auto
  then show ?thesis using True lb la saturating_add_ge [of "ob_sequence b" 1]
    by (auto simp: update_quote_tick_def update_book_bid_def update_book_ask_def book_increment_def Let_def max_absorb1)
next
  case False
  then show ?thesis by (auto simp: update_quote_tick_def)
qed

theorem quote_replaces_top_witness:
  "\<exists>r b'. update_quote_tick (book_new \<lparr>symbol = ''A'', venue = ''B''\<rparr> L1_MBP)
     \<lparr>qt_instrument_id = \<lparr>symbol = ''A'', venue = ''B''\<rparr>, qt_bid_price = \<lparr>p_raw = 5, p_prec = 0\<rparr>,
      qt_ask_price = \<lparr>p_raw = 6, p_prec = 0\<rparr>, qt_bid_size = \<lparr>q_raw = 1, q_prec = 0\<rparr>,
      qt_ask_size = \<lparr>q_raw = 2, q_prec = 0\<rparr>, qt_ts_event = 4, qt_ts_init = 4\<rparr> = Some (r, b') \<and>
    ladder_len (ob_bids b') = 1"
  using quote_replaces_top [OF book_shape_new, of "\<lparr>symbol = ''A'', venue = ''B''\<rparr>" L1_MBP
      "\<lparr>qt_instrument_id = \<lparr>symbol = ''A'', venue = ''B''\<rparr>, qt_bid_price = \<lparr>p_raw = 5, p_prec = 0\<rparr>,
      qt_ask_price = \<lparr>p_raw = 6, p_prec = 0\<rparr>, qt_bid_size = \<lparr>q_raw = 1, q_prec = 0\<rparr>,
      qt_ask_size = \<lparr>q_raw = 2, q_prec = 0\<rparr>, qt_ts_event = 4, qt_ts_init = 4\<rparr>"]
  by (auto simp: book_new_def tops_at_def quantity_is_positive_def raw_limits)

text \<open>adding an identifier that is already queued at another price leaves a ghost order.
  The new order overwrites the cached price; deleting the identifier then removes the new order
  only, while the old one stays queued at its price, its identifier is no longer cached and no
  further deletion of it has any effect.\<close>

theorem duplicate_add_leaves_ghost:
  assumes inv: "ladder_inv l" and bt: "ld_book_type l \<noteq> L1_MBP" and on: "on_side l ord"
    and pos: "quantity_is_positive (bo_size ord)"
    and old: "ld_cache l (bo_order_id ord) = Some bp" "p_raw (bp_value bp) \<noteq> p_raw (bo_price ord)"
  shows "\<exists>l1 l2. ladder_add l ord flags = Some l1 \<and> ladder_delete l1 ord = Some l2 \<and>
    bo_order_id ord \<in> ids_at (ld_levels l2) (rank bp) \<and> ld_cache l2 (bo_order_id ord) = None \<and>
    ladder_delete l2 ord = Some l2"
proof -
  note wf = ladder_inv_levels [OF inv]
  define nb where "nb = \<lparr>bp_value = bo_price ord, bp_side = ld_side l\<rparr>"
  let ?lev = "join_level l nb ord"
  let ?l1 = "l\<lparr>ld_levels := put_level nb ?lev (ld_levels l), ld_cache := (ld_cache l)(bo_order_id ord \<mapsto> nb)\<rparr>"
  have add: "ladder_add l ord flags = Some ?l1"
    using ladder_add_other [OF bt] pos ladder_place_eq [OF wf on pos] by (simp add: nb_def)
  note jw = join_level_wf [OF wf on pos, folded nb_def]
  have wf1: "levels_wf (ld_side l) (put_level nb ?lev (ld_levels l))" by (rule put_level_wf [OF wf jw(1-3)])
  have side: "bp_side bp = ld_side l" "bp_side nb = ld_side l"
    using inv old(1) by (auto simp: ladder_inv_def cache_ok_def nb_def)
  have ne: "rank bp \<noteq> rank nb" using old(2) side rank_eq_raw [of bp nb] by (simp add: nb_def)
  have in_l: "bo_order_id ord \<in> ids_at (ld_levels l) (rank bp)"
    using inv old(1) by (auto simp: ladder_inv_def cache_ok_def)
  have get1: "bt_get rank (put_level nb ?lev (ld_levels l)) nb = Some ?lev" using jw(5) by (simp add: bt_get_put_level [OF wf])
  have "im_get (lv_orders ?lev) (bo_order_id ord) \<noteq> None"
    unfolding im_get_dom jw(4) by simp
  then have del: "ladder_delete ?l1 ord = Some (?l1\<lparr>ld_levels := put_level nb (?lev\<lparr>lv_orders := shift_remove (bo_order_id ord) (lv_orders ?lev)\<rparr>) (put_level nb ?lev (ld_levels l)),
      ld_cache := (ld_cache l)(bo_order_id ord := None)\<rparr>)"
    using wf1 get1 side(2)
    by (auto simp: ladder_delete_def ladder_remove_order_def level_remove_by_id_def put_level_def level_is_empty_def)
  let ?lev2 = "?lev\<lparr>lv_orders := shift_remove (bo_order_id ord) (lv_orders ?lev)\<rparr>"
  have "levels_wf (ld_side l) (put_level nb ?lev2 (put_level nb ?lev (ld_levels l)))"
    using jw(1,2) get1 by (intro put_level_wf [OF wf1]) (simp_all add: level_wf_remove)
  then have "ids_at (put_level nb ?lev2 (put_level nb ?lev (ld_levels l))) (rank bp) = ids_at (ld_levels l) (rank bp)"
    using ne ids_at_put_level' [OF wf wf1] ids_at_put_level' [OF wf1, of nb ?lev2] by simp
  with add del in_l show ?thesis by (auto simp: ladder_delete_def ladder_remove_order_def)
qed

theorem duplicate_add_leaves_ghost_witness:
  "\<exists>l l1 l2. ladder_add (ladder_new SBuy L3_MBO)
     \<lparr>bo_side = Buy, bo_price = \<lparr>p_raw = 5, p_prec = 0\<rparr>, bo_size = \<lparr>q_raw = 7, q_prec = 0\<rparr>, bo_order_id = 1\<rparr> 0 = Some l \<and>
   ladder_add l \<lparr>bo_side = Buy, bo_price = \<lparr>p_raw = 6, p_prec = 0\<rparr>, bo_size = \<lparr>q_raw = 7, q_prec = 0\<rparr>, bo_order_id = 1\<rparr> 0 = Some l1 \<and>
   ladder_delete l1 \<lparr>bo_side = Buy, bo_price = \<lparr>p_raw = 6, p_prec = 0\<rparr>, bo_size = \<lparr>q_raw = 7, q_prec = 0\<rparr>, bo_order_id = 1\<rparr> = Some l2 \<and>
   1 \<in> ids_at (ld_levels l2) (- 5)"
proof -
  let ?o = "\<lparr>bo_side = Buy, bo_price = \<lparr>p_raw = 5, p_prec = 0\<rparr>, bo_size = \<lparr>q_raw = 7, q_prec = 0\<rparr>, bo_order_id = 1\<rparr>"
  let ?o2 = "\<lparr>bo_side = Buy, bo_price = \<lparr>p_raw = 6, p_prec = 0\<rparr>, bo_size = \<lparr>q_raw = 7, q_prec = 0\<rparr>, bo_order_id = 1\<rparr>"
  let ?bp = "\<lparr>bp_value = \<lparr>p_raw = 5, p_prec = 0\<rparr>, bp_side = SBuy\<rparr>"
  let ?l = "ladder_new SBuy L3_MBO"
  have pos: "quantity_is_positive (bo_size ?o)" "quantity_is_positive (bo_size ?o2)"
    by (simp_all add: quantity_is_positive_def raw_limits)
  have on: "on_side ?l ?o" "fresh_or_same ?l ?o" by (simp_all add: on_side_def ladder_new_def fresh_or_same_def)
  obtain l where l: "ladder_add ?l ?o 0 = Some l" "ladder_inv l" "ld_side l = SBuy" "ld_book_type l = L3_MBO"
    using ladder_add_inv [OF ladder_inv_new on(1), of 0] on(2) by (auto simp: ladder_new_def)
  have "ladder_place ?l ?o = Some l" using l(1) pos(1) ladder_add_other [of ?l ?o 0] by (simp add: ladder_new_def)
  then have "ld_cache l 1 = Some ?bp"
    using ladder_place_eq [OF ladder_inv_levels [OF ladder_inv_new] on(1) pos(1)] by (auto simp: ladder_new_def)
  with duplicate_add_leaves_ghost [OF l(2), of ?o2 ?bp 0] l pos(2) show ?thesis
    by (auto simp: on_side_def rank_def)
qed

end
