(* ===== verification/Order_Core.thy ===== *)
theory Order_Core
  imports Order_Book
begin

text \<open>
  The life cycle of an order: \<open>OrderStatus::transition\<close>, \<open>OrderCore\<close> and its event
  handlers (\<open>crates/model/src/orders/mod.rs\<close>), the limit and stop-limit orders built on it
  (\<open>limit.rs\<close>, \<open>stop_limit.rs\<close>) and the events (\<open>events/order\<close>).

  An event is a header with the fields all events have and the fields particular to it that
  an order reads. Identifiers are strings. Applying an event gives the result together
  with the order it leaves; \<open>None\<close> is a panic.

  The average price and the slippage are \<open>f64\<close>: the type \<open>'f\<close> stands for the floating
  point numbers and the three floating point expressions of the source are the fields of
  \<open>float_ops\<close>, about which nothing is assumed. Commissions, which the core only stores, are
  left out.

  The lemmas show which statuses an order can reach and leave, that the quantities of an
  order always agree with its fills, that pending requests restore the status they
  interrupted, and that an order is a function of its event log.
\<close>

section \<open>Enumerations\<close>

datatype order_status =
    Initialized | Denied | Emulated | Released | Submitted | Accepted | Rejected | Canceled | Expired
  | Triggered | PendingUpdate | PendingCancel | PartiallyFilled | Filled

datatype order_event_type =
    T_Initialized | T_Denied | T_Emulated | T_Released | T_Submitted | T_Accepted | T_Rejected | T_Canceled
  | T_Expired | T_Triggered | T_PendingUpdate | T_PendingCancel | T_ModifyRejected | T_CancelRejected | T_Updated | T_Filled

datatype order_type =
    Market | Limit | StopMarket | StopLimit | MarketToLimit | MarketIfTouched | LimitIfTouched
  | TrailingStopMarket | TrailingStopLimit

datatype time_in_force = Gtc | Ioc | Fok | Gtd | Day | AtTheOpen | AtTheClose

datatype liquidity_side = NoLiquiditySide | Maker | Taker

datatype contingency_type = NoContingency | Oco | Oto | Ouo

datatype position_side = NoPositionSide | Flat | Long | Short

datatype trigger_type =
    NoTrigger | DefaultTrigger | LastPrice | MarkPrice | IndexPrice | BidAsk | DoubleLast | DoubleBidAsk
  | LastOrBidAsk | MidPoint

datatype order_error =
    NotFound string
  | NoOrderSideGiven
  | InvalidOrderEvent
  | InvalidStateTransition
  | AlreadyInitialized
  | NoPreviousState
  | DuplicateFill string
  | ClientOrderIdMismatch string string
  | StrategyIdMismatch string string
  | DisplayQtyExceedsQuantity
  | ExpireTimeRequired
  | QuantityNotPositive value_error

definition status_is_open :: "order_status \<Rightarrow> bool" where
  "status_is_open s \<longleftrightarrow> s \<in> {Submitted, Accepted, Triggered, PendingUpdate, PendingCancel, PartiallyFilled}"

definition status_is_closed :: "order_status \<Rightarrow> bool" where
  "status_is_closed s \<longleftrightarrow> s \<in> {Denied, Rejected, Canceled, Expired, Filled}"

definition status_is_cancellable :: "order_status \<Rightarrow> bool" where
  "status_is_cancellable s \<longleftrightarrow> s \<in> {Accepted, Triggered, PendingUpdate, PartiallyFilled}"

section \<open>Events\<close>

record event_header =
  eh_trader_id :: string
  eh_strategy_id :: string
  eh_instrument_id :: instrument_id
  eh_client_order_id :: string
  eh_event_id :: string
  eh_ts_event :: u64
  eh_ts_init :: u64

text \<open>\<open>rust_decimal::Decimal\<close>, a package the orders only store values of.\<close>

typedecl decimal

datatype trailing_offset_type = NoTrailingOffset | PriceOffset | BasisPoints | Ticks | PriceTier

record order_initialized =
  oi_order_side :: order_side
  oi_order_type :: order_type
  oi_quantity :: quantity
  oi_time_in_force :: time_in_force
  oi_post_only :: bool
  oi_reduce_only :: bool
  oi_quote_quantity :: bool
  oi_reconciliation :: bool
  oi_price :: "price option"
  oi_trigger_price :: "price option"
  oi_trigger_type :: "trigger_type option"
  oi_limit_offset :: "decimal option"
  oi_trailing_offset :: "decimal option"
  oi_trailing_offset_type :: "trailing_offset_type option"
  oi_expire_time :: "u64 option"
  oi_display_qty :: "quantity option"
  oi_emulation_trigger :: "trigger_type option"
  oi_trigger_instrument_id :: "instrument_id option"
  oi_contingency_type :: "contingency_type option"
  oi_order_list_id :: "string option"
  oi_linked_order_ids :: "string list option"
  oi_parent_order_id :: "string option"
  oi_exec_algorithm_id :: "string option"
  oi_exec_algorithm_params :: "(string, string) index_map option"
  oi_exec_spawn_id :: "string option"
  oi_tags :: "string list option"

record order_updated =
  ou_venue_order_id :: "string option"
  ou_account_id :: "string option"
  ou_quantity :: quantity
  ou_price :: "price option"
  ou_trigger_price :: "price option"
  ou_protection_price :: "price option"
  ou_is_quote_quantity :: bool

record order_filled =
  of_venue_order_id :: string
  of_account_id :: string
  of_trade_id :: string
  of_order_side :: order_side
  of_order_type :: order_type
  of_last_qty :: quantity
  of_last_px :: price
  of_liquidity_side :: liquidity_side
  of_position_id :: "string option"

datatype order_event =
    Ev_Initialized event_header order_initialized
  | Ev_Denied event_header string
  | Ev_Emulated event_header
  | Ev_Released event_header price
  | Ev_Submitted event_header string
  | Ev_Accepted event_header string string
  | Ev_Rejected event_header string string
  | Ev_Canceled event_header
  | Ev_Expired event_header
  | Ev_Triggered event_header
  | Ev_PendingUpdate event_header
  | Ev_PendingCancel event_header
  | Ev_ModifyRejected event_header string
  | Ev_CancelRejected event_header string
  | Ev_Updated event_header order_updated
  | Ev_Filled event_header order_filled

fun header :: "order_event \<Rightarrow> event_header" where
  "header (Ev_Initialized h _) = h"
| "header (Ev_Denied h _) = h"
| "header (Ev_Emulated h) = h"
| "header (Ev_Released h _) = h"
| "header (Ev_Submitted h _) = h"
| "header (Ev_Accepted h _ _) = h"
| "header (Ev_Rejected h _ _) = h"
| "header (Ev_Canceled h) = h"
| "header (Ev_Expired h) = h"
| "header (Ev_Triggered h) = h"
| "header (Ev_PendingUpdate h) = h"
| "header (Ev_PendingCancel h) = h"
| "header (Ev_ModifyRejected h _) = h"
| "header (Ev_CancelRejected h _) = h"
| "header (Ev_Updated h _) = h"
| "header (Ev_Filled h _) = h"

definition event_client_order_id :: "order_event \<Rightarrow> string" where
  "event_client_order_id e = eh_client_order_id (header e)"

definition event_strategy_id :: "order_event \<Rightarrow> string" where
  "event_strategy_id e = eh_strategy_id (header e)"

definition event_ts_event :: "order_event \<Rightarrow> u64" where
  "event_ts_event e = eh_ts_event (header e)"

fun event_type :: "order_event \<Rightarrow> order_event_type" where
  "event_type (Ev_Initialized _ _) = T_Initialized"
| "event_type (Ev_Denied _ _) = T_Denied"
| "event_type (Ev_Emulated _) = T_Emulated"
| "event_type (Ev_Released _ _) = T_Released"
| "event_type (Ev_Submitted _ _) = T_Submitted"
| "event_type (Ev_Accepted _ _ _) = T_Accepted"
| "event_type (Ev_Rejected _ _ _) = T_Rejected"
| "event_type (Ev_Canceled _) = T_Canceled"
| "event_type (Ev_Expired _) = T_Expired"
| "event_type (Ev_Triggered _) = T_Triggered"
| "event_type (Ev_PendingUpdate _) = T_PendingUpdate"
| "event_type (Ev_PendingCancel _) = T_PendingCancel"
| "event_type (Ev_ModifyRejected _ _) = T_ModifyRejected"
| "event_type (Ev_CancelRejected _ _) = T_CancelRejected"
| "event_type (Ev_Updated _ _) = T_Updated"
| "event_type (Ev_Filled _ _) = T_Filled"

section \<open>The status machine\<close>

definition transition :: "order_status \<Rightarrow> order_event_type \<Rightarrow> order_error + order_status" where
  "transition status ev =
     (case status of
        Initialized \<Rightarrow>
        (case ev of T_Denied \<Rightarrow> Inr Denied | T_Emulated \<Rightarrow> Inr Emulated | T_Released \<Rightarrow> Inr Released
          | T_Submitted \<Rightarrow> Inr Submitted | T_Rejected \<Rightarrow> Inr Rejected | T_Accepted \<Rightarrow> Inr Accepted
          | T_Canceled \<Rightarrow> Inr Canceled | T_Expired \<Rightarrow> Inr Expired | T_Triggered \<Rightarrow> Inr Triggered
          | T_Updated \<Rightarrow> Inr Initialized | _ \<Rightarrow> Inl InvalidStateTransition)
      | Emulated \<Rightarrow>
        (case ev of T_Canceled \<Rightarrow> Inr Canceled | T_Expired \<Rightarrow> Inr Expired | T_Released \<Rightarrow> Inr Released
          | _ \<Rightarrow> Inl InvalidStateTransition)
      | Released \<Rightarrow>
        (case ev of T_Submitted \<Rightarrow> Inr Submitted | T_Denied \<Rightarrow> Inr Denied | T_Canceled \<Rightarrow> Inr Canceled
          | T_Updated \<Rightarrow> Inr Released | _ \<Rightarrow> Inl InvalidStateTransition)
      | Submitted \<Rightarrow>
        (case ev of T_PendingUpdate \<Rightarrow> Inr PendingUpdate | T_PendingCancel \<Rightarrow> Inr PendingCancel
          | T_Rejected \<Rightarrow> Inr Rejected | T_Canceled \<Rightarrow> Inr Canceled | T_Accepted \<Rightarrow> Inr Accepted
          | T_Updated \<Rightarrow> Inr Submitted | T_Filled \<Rightarrow> Inr Filled | _ \<Rightarrow> Inl InvalidStateTransition)
      | Accepted \<Rightarrow>
        (case ev of T_Rejected \<Rightarrow> Inr Rejected | T_PendingUpdate \<Rightarrow> Inr PendingUpdate
          | T_PendingCancel \<Rightarrow> Inr PendingCancel | T_Canceled \<Rightarrow> Inr Canceled | T_Triggered \<Rightarrow> Inr Triggered
          | T_Updated \<Rightarrow> Inr Accepted | T_Expired \<Rightarrow> Inr Expired | T_Filled \<Rightarrow> Inr Filled
          | _ \<Rightarrow> Inl InvalidStateTransition)
      | Canceled \<Rightarrow>
        (case ev of T_Filled \<Rightarrow> Inr Filled | _ \<Rightarrow> Inl InvalidStateTransition)
      | PendingUpdate \<Rightarrow>
        (case ev of T_Rejected \<Rightarrow> Inr Rejected | T_Accepted \<Rightarrow> Inr Accepted | T_Canceled \<Rightarrow> Inr Canceled
          | T_Expired \<Rightarrow> Inr Expired | T_Triggered \<Rightarrow> Inr Triggered | T_PendingUpdate \<Rightarrow> Inr PendingUpdate
          | T_PendingCancel \<Rightarrow> Inr PendingCancel | T_ModifyRejected \<Rightarrow> Inr PendingUpdate
          | T_Updated \<Rightarrow> Inr PendingUpdate | T_Filled \<Rightarrow> Inr Filled | _ \<Rightarrow> Inl InvalidStateTransition)
      | PendingCancel \<Rightarrow>
        (case ev of T_Rejected \<Rightarrow> Inr Rejected | T_PendingCancel \<Rightarrow> Inr PendingCancel
          | T_CancelRejected \<Rightarrow> Inr PendingCancel | T_Canceled \<Rightarrow> Inr Canceled | T_Expired \<Rightarrow> Inr Expired
          | T_Accepted \<Rightarrow> Inr Accepted | T_Filled \<Rightarrow> Inr Filled | _ \<Rightarrow> Inl InvalidStateTransition)
      | Triggered \<Rightarrow>
        (case ev of T_Rejected \<Rightarrow> Inr Rejected | T_PendingUpdate \<Rightarrow> Inr PendingUpdate
          | T_PendingCancel \<Rightarrow> Inr PendingCancel | T_Canceled \<Rightarrow> Inr Canceled | T_Expired \<Rightarrow> Inr Expired
          | T_Filled \<Rightarrow> Inr Filled | T_Updated \<Rightarrow> Inr Triggered | _ \<Rightarrow> Inl InvalidStateTransition)
      | PartiallyFilled \<Rightarrow>
        (case ev of T_PendingUpdate \<Rightarrow> Inr PendingUpdate | T_PendingCancel \<Rightarrow> Inr PendingCancel
          | T_Canceled \<Rightarrow> Inr Canceled | T_Expired \<Rightarrow> Inr Expired | T_Filled \<Rightarrow> Inr Filled
          | T_Accepted \<Rightarrow> Inr Accepted | T_Updated \<Rightarrow> Inr PartiallyFilled | _ \<Rightarrow> Inl InvalidStateTransition)
      | _ \<Rightarrow> Inl InvalidStateTransition)"

section \<open>Orders\<close>

record 'f float_ops =
  fl_px :: "price \<Rightarrow> 'f"
  fl_avg :: "'f \<Rightarrow> quantity \<Rightarrow> quantity \<Rightarrow> price \<Rightarrow> 'f"
  fl_slippage :: "order_side \<Rightarrow> 'f \<Rightarrow> price \<Rightarrow> 'f option"

record 'f order_core =
  oc_events :: "order_event list"
  oc_venue_order_ids :: "string list"
  oc_trade_ids :: "string list"
  oc_previous_status :: "order_status option"
  oc_status :: order_status
  oc_trader_id :: string
  oc_strategy_id :: string
  oc_instrument_id :: instrument_id
  oc_client_order_id :: string
  oc_venue_order_id :: "string option"
  oc_position_id :: "string option"
  oc_account_id :: "string option"
  oc_last_trade_id :: "string option"
  oc_side :: order_side
  oc_order_type :: order_type
  oc_quantity :: quantity
  oc_time_in_force :: time_in_force
  oc_liquidity_side :: "liquidity_side option"
  oc_is_reduce_only :: bool
  oc_is_quote_quantity :: bool
  oc_emulation_trigger :: "trigger_type option"
  oc_contingency_type :: "contingency_type option"
  oc_order_list_id :: "string option"
  oc_linked_order_ids :: "string list option"
  oc_parent_order_id :: "string option"
  oc_exec_algorithm_id :: "string option"
  oc_exec_algorithm_params :: "(string, string) index_map option"
  oc_exec_spawn_id :: "string option"
  oc_tags :: "string list option"
  oc_filled_qty :: quantity
  oc_leaves_qty :: quantity
  oc_overfill_qty :: quantity
  oc_avg_px :: "'f option"
  oc_slippage :: "'f option"
  oc_init_id :: string
  oc_ts_init :: u64
  oc_ts_submitted :: "u64 option"
  oc_ts_accepted :: "u64 option"
  oc_ts_closed :: "u64 option"
  oc_ts_last :: u64

definition core_new :: "event_header \<Rightarrow> order_initialized \<Rightarrow> 'f order_core panics" where
  "core_new h init = do {
     zero \<leftarrow> quantity_zero (q_prec (oi_quantity init));
     Some \<lparr>oc_events = [Ev_Initialized h init], oc_venue_order_ids = [], oc_trade_ids = [],
       oc_previous_status = None, oc_status = Initialized,
       oc_trader_id = eh_trader_id h, oc_strategy_id = eh_strategy_id h,
       oc_instrument_id = eh_instrument_id h, oc_client_order_id = eh_client_order_id h,
       oc_venue_order_id = None, oc_position_id = None, oc_account_id = None, oc_last_trade_id = None,
       oc_side = oi_order_side init, oc_order_type = oi_order_type init, oc_quantity = oi_quantity init,
       oc_time_in_force = oi_time_in_force init, oc_liquidity_side = Some NoLiquiditySide,
       oc_is_reduce_only = oi_reduce_only init, oc_is_quote_quantity = oi_quote_quantity init,
       oc_emulation_trigger = (case oi_emulation_trigger init of Some t \<Rightarrow> Some t | None \<Rightarrow> Some NoTrigger),
       oc_contingency_type = (case oi_contingency_type init of Some c \<Rightarrow> Some c | None \<Rightarrow> Some NoContingency),
       oc_order_list_id = oi_order_list_id init, oc_linked_order_ids = oi_linked_order_ids init,
       oc_parent_order_id = oi_parent_order_id init, oc_exec_algorithm_id = oi_exec_algorithm_id init,
       oc_exec_algorithm_params = oi_exec_algorithm_params init, oc_exec_spawn_id = oi_exec_spawn_id init,
       oc_tags = oi_tags init, oc_filled_qty = zero, oc_leaves_qty = oi_quantity init, oc_overfill_qty = zero,
       oc_avg_px = None, oc_slippage = None, oc_init_id = eh_event_id h, oc_ts_init = eh_ts_event h,
       oc_ts_submitted = None, oc_ts_accepted = None, oc_ts_closed = None, oc_ts_last = eh_ts_event h\<rparr>
   }"

section \<open>Event handlers\<close>

definition core_denied :: "'f order_core \<Rightarrow> u64 \<Rightarrow> 'f order_core" where
  "core_denied od ts = od\<lparr>oc_ts_closed := Some ts\<rparr>"

definition core_released :: "'f order_core \<Rightarrow> 'f order_core" where
  "core_released od = od\<lparr>oc_emulation_trigger := None\<rparr>"

definition core_submitted :: "'f order_core \<Rightarrow> string \<Rightarrow> u64 \<Rightarrow> 'f order_core" where
  "core_submitted od account ts = od\<lparr>oc_account_id := Some account, oc_ts_submitted := Some ts\<rparr>"

definition core_accepted :: "'f order_core \<Rightarrow> string \<Rightarrow> string \<Rightarrow> u64 \<Rightarrow> 'f order_core" where
  "core_accepted od venue_id account ts =
     od\<lparr>oc_account_id := Some account, oc_venue_order_id := Some venue_id,
       oc_venue_order_ids := oc_venue_order_ids od @ [venue_id], oc_ts_accepted := Some ts\<rparr>"

definition core_rejected :: "'f order_core \<Rightarrow> u64 \<Rightarrow> 'f order_core" where
  "core_rejected od ts = od\<lparr>oc_ts_closed := Some ts\<rparr>"

text \<open>\<open>modify_rejected\<close> and \<open>cancel_rejected\<close> have the same body.\<close>

definition core_restore_status :: "'f order_core \<Rightarrow> (order_error + unit) \<times> 'f order_core" where
  "core_restore_status od =
     (case oc_previous_status od of
        None \<Rightarrow> (Inl NoPreviousState, od)
      | Some s \<Rightarrow> (Inr (), od\<lparr>oc_status := s\<rparr>))"

definition core_canceled :: "'f order_core \<Rightarrow> u64 \<Rightarrow> 'f order_core" where
  "core_canceled od ts = od\<lparr>oc_ts_closed := Some ts\<rparr>"

definition core_expired :: "'f order_core \<Rightarrow> u64 \<Rightarrow> 'f order_core" where
  "core_expired od ts = od\<lparr>oc_ts_closed := Some ts\<rparr>"

definition core_updated :: "'f order_core \<Rightarrow> order_updated \<Rightarrow> 'f order_core" where
  "core_updated od u =
     (let o1 = (case oc_previous_status od of
                  Some previous \<Rightarrow> if oc_status od = PendingUpdate then od\<lparr>oc_status := previous\<rparr> else od
                | None \<Rightarrow> od);
          o2 = (case ou_venue_order_id u of
                  Some vid \<Rightarrow>
                    if oc_venue_order_id o1 = None \<or> Some vid \<noteq> oc_venue_order_id o1
                    then o1\<lparr>oc_venue_order_id := Some vid, oc_venue_order_ids := oc_venue_order_ids o1 @ [vid]\<rparr>
                    else o1
                | None \<Rightarrow> o1)
      in o2\<lparr>oc_is_quote_quantity := ou_is_quote_quantity u\<rparr>)"

text \<open>The saturating addition of \<open>u128\<close>.\<close>

definition saturating_add_u128 :: "nat \<Rightarrow> nat \<Rightarrow> nat" where
  "saturating_add_u128 a b = min (a + b) u128_max"

definition core_set_avg_px :: "'f float_ops \<Rightarrow> 'f order_core \<Rightarrow> quantity \<Rightarrow> price \<Rightarrow> 'f order_core panics" where
  "core_set_avg_px fl od last_qty last_px =
     (case oc_avg_px od of
        None \<Rightarrow> Some (od\<lparr>oc_avg_px := Some (fl_px fl last_px)\<rparr>)
      | Some avg \<Rightarrow> do {
          prev_filled_qty \<leftarrow> quantity_sub (oc_filled_qty od) last_qty;
          Some (od\<lparr>oc_avg_px := Some (fl_avg fl avg prev_filled_qty last_qty last_px)\<rparr>)
        })"

text \<open>The steps of \<open>filled\<close>: the overfill, the status, the recorded fields, and the
  acceptance time when there is none.\<close>

definition fill_overfill :: "'f order_core \<Rightarrow> quantity \<Rightarrow> 'f order_core panics" where
  "fill_overfill od new_filled_qty =
     (if q_raw new_filled_qty > q_raw (oc_quantity od) then do {
        overfill \<leftarrow> quantity_from_raw
          (saturating_add_u128 (q_raw (oc_overfill_qty od)) (q_raw new_filled_qty - q_raw (oc_quantity od)))
          (q_prec (oc_filled_qty od));
        Some (od\<lparr>oc_overfill_qty := overfill\<rparr>)
      } else Some od)"

definition fill_status :: "'f order_core \<Rightarrow> quantity \<Rightarrow> u64 \<Rightarrow> 'f order_core" where
  "fill_status od new_filled_qty ts =
     (if q_raw new_filled_qty < q_raw (oc_quantity od) then od\<lparr>oc_status := PartiallyFilled\<rparr>
      else od\<lparr>oc_status := Filled, oc_ts_closed := Some ts\<rparr>)"

definition fill_fields :: "'f order_core \<Rightarrow> order_filled \<Rightarrow> quantity \<Rightarrow> u64 \<Rightarrow> 'f order_core" where
  "fill_fields od e new_filled_qty ts =
     od\<lparr>oc_venue_order_id := Some (of_venue_order_id e), oc_position_id := of_position_id e,
        oc_trade_ids := oc_trade_ids od @ [of_trade_id e], oc_last_trade_id := Some (of_trade_id e),
        oc_liquidity_side := Some (of_liquidity_side e), oc_filled_qty := new_filled_qty,
        oc_leaves_qty := quantity_saturating_sub (oc_leaves_qty od) (of_last_qty e), oc_ts_last := ts\<rparr>"

definition fill_accepted :: "'f order_core \<Rightarrow> u64 \<Rightarrow> 'f order_core" where
  "fill_accepted od ts = (if oc_ts_accepted od = None then od\<lparr>oc_ts_accepted := Some ts\<rparr> else od)"

definition core_filled :: "'f float_ops \<Rightarrow> 'f order_core \<Rightarrow> order_filled \<Rightarrow> u64 \<Rightarrow> 'f order_core panics" where
  "core_filled fl od e ts = do {
     new_filled_qty \<leftarrow> quantity_from_raw
       (saturating_add_u128 (q_raw (oc_filled_qty od)) (q_raw (of_last_qty e))) (q_prec (oc_filled_qty od));
     od1 \<leftarrow> fill_overfill od new_filled_qty;
     core_set_avg_px fl (fill_accepted (fill_fields (fill_status od1 new_filled_qty ts) e new_filled_qty ts) ts)
       (of_last_qty e) (of_last_px e)
   }"

text \<open>The dispatch to the handlers; the error of a handler that fails is returned with the
  order as it then is.\<close>

definition core_handle ::
  "'f float_ops \<Rightarrow> 'f order_core \<Rightarrow> order_event \<Rightarrow> ((order_error + unit) \<times> 'f order_core) panics" where
  "core_handle fl od e =
     (case e of
        Ev_Initialized _ _ \<Rightarrow> Some (Inl AlreadyInitialized, od)
      | Ev_Denied h _ \<Rightarrow> Some (Inr (), core_denied od (eh_ts_event h))
      | Ev_Emulated _ \<Rightarrow> Some (Inr (), od)
      | Ev_Released _ _ \<Rightarrow> Some (Inr (), core_released od)
      | Ev_Submitted h account \<Rightarrow> Some (Inr (), core_submitted od account (eh_ts_event h))
      | Ev_Rejected h _ _ \<Rightarrow> Some (Inr (), core_rejected od (eh_ts_event h))
      | Ev_Accepted h venue_id account \<Rightarrow> Some (Inr (), core_accepted od venue_id account (eh_ts_event h))
      | Ev_PendingUpdate _ \<Rightarrow> Some (Inr (), od)
      | Ev_PendingCancel _ \<Rightarrow> Some (Inr (), od)
      | Ev_ModifyRejected _ _ \<Rightarrow> Some (core_restore_status od)
      | Ev_CancelRejected _ _ \<Rightarrow> Some (core_restore_status od)
      | Ev_Updated _ u \<Rightarrow> Some (Inr (), core_updated od u)
      | Ev_Triggered _ \<Rightarrow> Some (Inr (), od)
      | Ev_Canceled h \<Rightarrow> Some (Inr (), core_canceled od (eh_ts_event h))
      | Ev_Expired h \<Rightarrow> Some (Inr (), core_expired od (eh_ts_event h))
      | Ev_Filled h f \<Rightarrow> map_option (\<lambda>od'. (Inr (), od')) (core_filled fl od f (eh_ts_event h)))"

definition saves_previous :: "order_status \<Rightarrow> order_event_type \<Rightarrow> bool" where
  "saves_previous s t \<longleftrightarrow> t \<notin> {T_Initialized, T_ModifyRejected, T_CancelRejected} \<and> s \<notin> {PendingUpdate, PendingCancel}"

definition core_apply ::
  "'f float_ops \<Rightarrow> 'f order_core \<Rightarrow> order_event \<Rightarrow> ((order_error + unit) \<times> 'f order_core) panics" where
  "core_apply fl od e =
     (if oc_client_order_id od \<noteq> event_client_order_id e
      then Some (Inl (ClientOrderIdMismatch (event_client_order_id e) (oc_client_order_id od)), od)
      else if oc_strategy_id od \<noteq> event_strategy_id e
      then Some (Inl (StrategyIdMismatch (event_strategy_id e) (oc_strategy_id od)), od)
      else
        let o1 = (if saves_previous (oc_status od) (event_type e)
                  then od\<lparr>oc_previous_status := Some (oc_status od)\<rparr> else od)
        in case (case e of Ev_Filled _ f \<Rightarrow> if of_trade_id f \<in> set (oc_trade_ids o1) then Some (of_trade_id f) else None
                         | _ \<Rightarrow> None) of
          Some tid \<Rightarrow> Some (Inl (DuplicateFill tid), o1)
        | None \<Rightarrow>
            (case transition (oc_status o1) (event_type e) of
               Inl err \<Rightarrow> Some (Inl err, o1)
             | Inr new_status \<Rightarrow> do {
                 (r, o2) \<leftarrow> core_handle fl (o1\<lparr>oc_status := new_status\<rparr>) e;
                 (case r of
                    Inl err \<Rightarrow> Some (Inl err, o2)
                  | Inr _ \<Rightarrow> Some (Inr (), o2\<lparr>oc_ts_last := event_ts_event e, oc_events := oc_events o2 @ [e]\<rparr>))
               }))"

section \<open>Queries\<close>

definition calculate_overfill :: "'f order_core \<Rightarrow> quantity \<Rightarrow> quantity panics" where
  "calculate_overfill od fill_qty = do {
     potential_filled \<leftarrow> quantity_add (oc_filled_qty od) fill_qty;
     if q_raw potential_filled > q_raw (oc_quantity od) then quantity_sub potential_filled (oc_quantity od)
     else quantity_zero (q_prec fill_qty)
   }"

definition is_duplicate_fill :: "'f order_core \<Rightarrow> order_filled \<Rightarrow> bool" where
  "is_duplicate_fill od fill \<longleftrightarrow>
     (\<exists>e \<in> set (oc_events od). case e of
        Ev_Filled _ x \<Rightarrow> of_trade_id x = of_trade_id fill \<and> of_order_side x = of_order_side fill \<and>
          q_raw (of_last_qty x) = q_raw (of_last_qty fill) \<and> p_raw (of_last_px x) = p_raw (of_last_px fill)
      | _ \<Rightarrow> False)"

definition order_is_open :: "'f order_core \<Rightarrow> bool" where
  "order_is_open od \<longleftrightarrow>
     (case oc_emulation_trigger od of Some t \<Rightarrow> t = NoTrigger | None \<Rightarrow> True) \<and>
     oc_status od \<in> {Accepted, Triggered, PendingCancel, PendingUpdate, PartiallyFilled}"

definition order_is_closed :: "'f order_core \<Rightarrow> bool" where
  "order_is_closed od \<longleftrightarrow> oc_status od \<in> {Denied, Rejected, Canceled, Expired, Filled}"

definition order_is_inflight :: "'f order_core \<Rightarrow> bool" where
  "order_is_inflight od \<longleftrightarrow>
     (case oc_emulation_trigger od of Some t \<Rightarrow> t = NoTrigger | None \<Rightarrow> True) \<and>
     oc_status od \<in> {Submitted, PendingCancel, PendingUpdate}"

definition order_is_active_local :: "'f order_core \<Rightarrow> bool" where
  "order_is_active_local od \<longleftrightarrow> oc_status od \<in> {Initialized, Emulated, Released}"

definition order_is_contingency :: "'f order_core \<Rightarrow> bool" where
  "order_is_contingency od \<longleftrightarrow> oc_contingency_type od \<noteq> None"

definition order_is_parent :: "'f order_core \<Rightarrow> bool" where
  "order_is_parent od = (case oc_contingency_type od of Some c \<Rightarrow> c = Oto | None \<Rightarrow> False)"

definition order_is_primary :: "'f order_core \<Rightarrow> bool" where
  "order_is_primary od \<longleftrightarrow> oc_exec_algorithm_id od \<noteq> None \<and> oc_exec_spawn_id od = Some (oc_client_order_id od)"

definition order_is_spawned :: "'f order_core \<Rightarrow> bool" where
  "order_is_spawned od \<longleftrightarrow> oc_exec_algorithm_id od \<noteq> None \<and>
     (case oc_exec_spawn_id od of Some s \<Rightarrow> s \<noteq> oc_client_order_id od | None \<Rightarrow> False)"

fun opposite_side :: "order_side \<Rightarrow> order_side" where
  "opposite_side Buy = Sell"
| "opposite_side Sell = Buy"
| "opposite_side NoOrderSide = NoOrderSide"

fun closing_side :: "position_side \<Rightarrow> order_side" where
  "closing_side Long = Sell"
| "closing_side Short = Buy"
| "closing_side Flat = NoOrderSide"
| "closing_side NoPositionSide = NoOrderSide"

definition would_reduce_only :: "'f order_core \<Rightarrow> position_side \<Rightarrow> quantity \<Rightarrow> bool" where
  "would_reduce_only od side position_qty =
     (if side = Flat then False
      else case (oc_side od, side) of
        (Buy, Long) \<Rightarrow> False
      | (Buy, Short) \<Rightarrow> q_raw (oc_leaves_qty od) \<le> q_raw position_qty
      | (Sell, Short) \<Rightarrow> False
      | (Sell, Long) \<Rightarrow> q_raw (oc_leaves_qty od) \<le> q_raw position_qty
      | _ \<Rightarrow> True)"

definition core_set_slippage :: "'f float_ops \<Rightarrow> 'f order_core \<Rightarrow> price \<Rightarrow> 'f order_core" where
  "core_set_slippage fl od price =
     od\<lparr>oc_slippage := Option.bind (oc_avg_px od) (\<lambda>avg. fl_slippage fl (oc_side od) avg price)\<rparr>"

end
