(* ===== verification/Order_Lifecycle.thy ===== *)
theory Order_Lifecycle
  imports Order_Core
begin

text \<open>
  Correctness of the order life cycle: statuses, quantities, pending requests and the event
  log of the orders reachable by any stream of events, accepted or refused.
\<close>

section \<open>Reachable orders\<close>

text \<open>The premise on the quantity is the range of the \<open>u128\<close> it is in the source.\<close>

inductive reachable :: "'f float_ops \<Rightarrow> 'f order_core \<Rightarrow> bool" for fl where
  reachable_new: "core_new h init = Some od \<Longrightarrow> q_raw (oi_quantity init) \<le> u128_max \<Longrightarrow> reachable fl od"
| reachable_step: "reachable fl od \<Longrightarrow> core_apply fl od e = Some (r, od') \<Longrightarrow> reachable fl od'"

abbreviation pending :: "order_status \<Rightarrow> bool" where
  "pending s \<equiv> s = PendingUpdate \<or> s = PendingCancel"

definition resting :: "order_status \<Rightarrow> bool" where
  "resting s \<longleftrightarrow> s \<in> {Submitted, Accepted, Triggered, PartiallyFilled}"

lemma transition_closed:
  "transition s t = Inr s' \<Longrightarrow> status_is_closed s \<Longrightarrow> s = Canceled \<and> t = T_Filled"
  by (cases s; cases t; simp add: transition_def status_is_closed_def)

lemma transition_to_pending:
  "transition s t = Inr s' \<Longrightarrow> pending s' \<Longrightarrow> resting s \<or> pending s"
  by (cases s; cases t; simp add: transition_def resting_def)

lemma transition_initialized: "transition s T_Initialized = Inl InvalidStateTransition"
  by (cases s) (simp_all add: transition_def)

lemma transition_special:
  "transition s T_ModifyRejected = Inr s' \<Longrightarrow> s = PendingUpdate \<and> s' = PendingUpdate"
  "transition s T_CancelRejected = Inr s' \<Longrightarrow> s = PendingCancel \<and> s' = PendingCancel"
  by (cases s; simp add: transition_def)+

lemma transition_to_filled:
  "transition s t = Inr s' \<Longrightarrow> (s' = Filled \<longleftrightarrow> t = T_Filled) \<and> (s' = PartiallyFilled \<longrightarrow> s = PartiallyFilled \<and> t = T_Updated)"
  by (cases s; cases t; auto simp: transition_def)

lemma transition_to_closed:
  "transition s t = Inr s' \<Longrightarrow> status_is_closed s' \<Longrightarrow>
     t \<in> {T_Denied, T_Rejected, T_Canceled, T_Expired, T_Filled}"
  by (cases s; cases t; simp add: transition_def status_is_closed_def)

section \<open>The two outcomes of an event\<close>

definition refused :: "'f order_core \<Rightarrow> 'f order_core \<Rightarrow> bool" where
  "refused od od' \<longleftrightarrow> od' = od \<or> \<not> pending (oc_status od) \<and> od' = od\<lparr>oc_previous_status := Some (oc_status od)\<rparr>"

definition with_previous :: "'f order_core \<Rightarrow> order_event \<Rightarrow> 'f order_core" where
  "with_previous od e =
     (if saves_previous (oc_status od) (event_type e) then od\<lparr>oc_previous_status := Some (oc_status od)\<rparr> else od)"

definition log_event :: "order_event \<Rightarrow> 'f order_core \<Rightarrow> 'f order_core" where
  "log_event e od = od\<lparr>oc_ts_last := event_ts_event e, oc_events := oc_events od @ [e]\<rparr>"

lemma with_previous_frame [simp]:
  "oc_status (with_previous od e) = oc_status od" "oc_trade_ids (with_previous od e) = oc_trade_ids od"
  by (simp_all add: with_previous_def)

lemma with_previous_refused: "refused od (with_previous od e)"
  by (simp add: refused_def with_previous_def saves_previous_def)

fun fill_of :: "order_event \<Rightarrow> order_filled option" where
  "fill_of (Ev_Filled _ f) = Some f"
| "fill_of _ = None"

lemma fill_of_type: "fill_of e \<noteq> None \<longleftrightarrow> event_type e = T_Filled"
  by (cases e) auto

lemma core_apply_unfold:
  "core_apply fl od e =
     (if oc_client_order_id od \<noteq> event_client_order_id e
      then Some (Inl (ClientOrderIdMismatch (event_client_order_id e) (oc_client_order_id od)), od)
      else if oc_strategy_id od \<noteq> event_strategy_id e
      then Some (Inl (StrategyIdMismatch (event_strategy_id e) (oc_strategy_id od)), od)
      else case fill_of e of
        Some f \<Rightarrow> if of_trade_id f \<in> set (oc_trade_ids od) then Some (Inl (DuplicateFill (of_trade_id f)), with_previous od e)
          else (case transition (oc_status od) (event_type e) of
            Inl err \<Rightarrow> Some (Inl err, with_previous od e)
          | Inr s \<Rightarrow> Option.bind (core_handle fl ((with_previous od e)\<lparr>oc_status := s\<rparr>) e)
              (\<lambda>(r, o2). case r of Inl err \<Rightarrow> Some (Inl err, o2) | Inr _ \<Rightarrow> Some (Inr (), log_event e o2)))
      | None \<Rightarrow> (case transition (oc_status od) (event_type e) of
            Inl err \<Rightarrow> Some (Inl err, with_previous od e)
          | Inr s \<Rightarrow> Option.bind (core_handle fl ((with_previous od e)\<lparr>oc_status := s\<rparr>) e)
              (\<lambda>(r, o2). case r of Inl err \<Rightarrow> Some (Inl err, o2) | Inr _ \<Rightarrow> Some (Inr (), log_event e o2))))"
  unfolding core_apply_def with_previous_def log_event_def Let_def
  by (cases e; cases "saves_previous (oc_status od) (event_type e)") simp_all

text \<open>An event is refused, and then at most the saved status changes, or it is accepted.\<close>

lemma core_apply_cases:
  assumes "core_apply fl od e = Some (r, od')"
  obtains (refused) err where "r = Inl err" "refused od od'"
  | (accepted) s o2 where "r = Inr ()" "transition (oc_status od) (event_type e) = Inr s"
      "core_handle fl ((with_previous od e)\<lparr>oc_status := s\<rparr>) e = Some (Inr (), o2)" "od' = log_event e o2"
      "\<And>f. fill_of e = Some f \<Longrightarrow> of_trade_id f \<notin> set (oc_trade_ids od)"
proof -
  have handle: "(\<exists>err. r = Inl err \<and> refused od od') \<or>
      (\<exists>o2. r = Inr () \<and> core_handle fl ((with_previous od e)\<lparr>oc_status := s\<rparr>) e = Some (Inr (), o2) \<and> od' = log_event e o2)"
    if t: "transition (oc_status od) (event_type e) = Inr s"
      and b: "Option.bind (core_handle fl ((with_previous od e)\<lparr>oc_status := s\<rparr>) e)
        (\<lambda>(r, o2). case r of Inl err \<Rightarrow> Some (Inl err, o2) | Inr _ \<Rightarrow> Some (Inr (), log_event e o2)) = Some (r, od')" for s
    using b
  proof (cases e)
    case (Ev_Initialized h i)
    then show ?thesis using t by (simp add: transition_initialized)
  next
    case (Ev_ModifyRejected h x)
    then have "oc_status od = PendingUpdate" "s = PendingUpdate" using t by (auto dest: transition_special)
    with Ev_ModifyRejected b show ?thesis
      by (auto simp: core_handle_def core_restore_status_def refused_def with_previous_def saves_previous_def
          split: option.splits)
  next
    case (Ev_CancelRejected h x)
    then have "oc_status od = PendingCancel" "s = PendingCancel" using t by (auto dest: transition_special)
    with Ev_CancelRejected b show ?thesis
      by (auto simp: core_handle_def core_restore_status_def refused_def with_previous_def saves_previous_def
          split: option.splits)
  qed (auto simp: core_handle_def bind_Some_conv)
  have wp: "refused od (with_previous od e)" by (rule with_previous_refused)
  show thesis
  proof (cases "oc_client_order_id od \<noteq> event_client_order_id e \<or> oc_strategy_id od \<noteq> event_strategy_id e \<or>
      (\<exists>f. fill_of e = Some f \<and> of_trade_id f \<in> set (oc_trade_ids od)) \<or>
      (\<exists>err. transition (oc_status od) (event_type e) = Inl err)")
    case True
    then have "\<exists>err. r = Inl err \<and> refused od od'"
      using assms wp by (auto simp: core_apply_unfold refused_def split: if_splits option.splits sum.splits)
    then show thesis using refused by blast
  next
    case False
    then obtain s where t: "transition (oc_status od) (event_type e) = Inr s"
      by (cases "transition (oc_status od) (event_type e)") auto
    then have b: "Option.bind (core_handle fl ((with_previous od e)\<lparr>oc_status := s\<rparr>) e)
        (\<lambda>(r, o2). case r of Inl err \<Rightarrow> Some (Inl err, o2) | Inr _ \<Rightarrow> Some (Inr (), log_event e o2)) = Some (r, od')"
      using assms False by (auto simp: core_apply_unfold split: option.splits)
    from handle [OF t b] show thesis
    proof
      assume "\<exists>err. r = Inl err \<and> refused od od'"
      then show thesis using refused by blast
    next
      assume "\<exists>o2. r = Inr () \<and> core_handle fl ((with_previous od e)\<lparr>oc_status := s\<rparr>) e = Some (Inr (), o2) \<and> od' = log_event e o2"
      then show thesis using accepted [OF _ t] False by auto
    qed
  qed
qed

section \<open>What the handlers change\<close>

definition same_quantities :: "'f order_core \<Rightarrow> 'f order_core \<Rightarrow> bool" where
  "same_quantities od od' \<longleftrightarrow> oc_quantity od' = oc_quantity od \<and> oc_filled_qty od' = oc_filled_qty od \<and>
     oc_leaves_qty od' = oc_leaves_qty od \<and> oc_overfill_qty od' = oc_overfill_qty od \<and>
     oc_trade_ids od' = oc_trade_ids od"

text \<open>The status after the handler of an event that is not a fill, given the status and the
  saved status before it.\<close>

fun handled_status :: "order_event_type \<Rightarrow> order_status \<Rightarrow> order_status option \<Rightarrow> order_status" where
  "handled_status T_ModifyRejected s p = (case p of Some q \<Rightarrow> q | None \<Rightarrow> s)"
| "handled_status T_CancelRejected s p = (case p of Some q \<Rightarrow> q | None \<Rightarrow> s)"
| "handled_status T_Updated s p = (case p of Some q \<Rightarrow> if s = PendingUpdate then q else s | None \<Rightarrow> s)"
| "handled_status _ s p = s"

lemma core_updated_frame:
  "same_quantities od (core_updated od u)" "oc_events (core_updated od u) = oc_events od"
  "oc_previous_status (core_updated od u) = oc_previous_status od"
  "oc_status (core_updated od u) = handled_status T_Updated (oc_status od) (oc_previous_status od)"
  "oc_ts_closed (core_updated od u) = oc_ts_closed od"
  by (simp_all add: core_updated_def same_quantities_def Let_def split: option.split)

lemma core_restore_status_ok:
  "core_restore_status od = (Inr (), od') \<longleftrightarrow> (\<exists>p. oc_previous_status od = Some p \<and> od' = od\<lparr>oc_status := p\<rparr>)"
  by (auto simp: core_restore_status_def split: option.split)

lemmas handler_defs = core_denied_def core_released_def core_submitted_def core_accepted_def core_rejected_def
  core_canceled_def core_expired_def core_restore_status_ok same_quantities_def

lemma core_handle_frame_conj:
  assumes "fill_of e = None" and "core_handle fl od e = Some (Inr (), od')"
  shows "same_quantities od od' \<and> oc_events od' = oc_events od \<and> oc_previous_status od' = oc_previous_status od \<and>
    oc_status od' = handled_status (event_type e) (oc_status od) (oc_previous_status od) \<and>
    (if event_type e \<in> {T_Denied, T_Rejected, T_Canceled, T_Expired} then oc_ts_closed od' \<noteq> None
     else oc_ts_closed od' = oc_ts_closed od)"
proof (cases e)
  case (Ev_Updated h u)
  then show ?thesis using assms(2) by (auto simp: core_handle_def core_updated_frame)
next
  case (Ev_ModifyRejected h x)
  then show ?thesis using assms(2) by (auto simp: core_handle_def handler_defs)
next
  case (Ev_CancelRejected h x)
  then show ?thesis using assms(2) by (auto simp: core_handle_def handler_defs)
next
  case (Ev_Filled h x)
  then show ?thesis using assms(1) by simp
next
  case (Ev_Initialized h x)
  then show ?thesis using assms(2) by (simp add: core_handle_def)
qed (use assms(2) in \<open>simp add: core_handle_def, hypsubst, simp add: handler_defs\<close>)+

lemma core_handle_frame:
  assumes "fill_of e = None" and "core_handle fl od e = Some (Inr (), od')"
  shows "same_quantities od od'" and "oc_events od' = oc_events od"
    and "oc_previous_status od' = oc_previous_status od"
    and "oc_status od' = handled_status (event_type e) (oc_status od) (oc_previous_status od)"
    and "event_type e \<in> {T_Denied, T_Rejected, T_Canceled, T_Expired} \<Longrightarrow> oc_ts_closed od' \<noteq> None"
    and "oc_ts_closed od \<noteq> None \<Longrightarrow> oc_ts_closed od' \<noteq> None"
  using core_handle_frame_conj [OF assms] by (simp_all split: if_splits)

lemma quantity_from_raw_Some: "quantity_from_raw raw p = Some q \<Longrightarrow> q_raw q = raw \<and> q_prec q = p"
  by (auto simp: quantity_from_raw_def split: if_splits sum.splits)

lemma core_set_avg_px_frame:
  assumes "core_set_avg_px fl od q p = Some od'"
  shows "same_quantities od od'" and "oc_events od' = oc_events od"
    and "oc_previous_status od' = oc_previous_status od" and "oc_status od' = oc_status od"
    and "oc_ts_closed od' = oc_ts_closed od"
  using assms by (auto simp: core_set_avg_px_def same_quantities_def bind_Some_conv split: option.splits)

lemma fill_steps_frame:
  "oc_quantity (fill_accepted od ts) = oc_quantity od" "oc_filled_qty (fill_accepted od ts) = oc_filled_qty od"
  "oc_leaves_qty (fill_accepted od ts) = oc_leaves_qty od" "oc_overfill_qty (fill_accepted od ts) = oc_overfill_qty od"
  "oc_trade_ids (fill_accepted od ts) = oc_trade_ids od" "oc_events (fill_accepted od ts) = oc_events od"
  "oc_previous_status (fill_accepted od ts) = oc_previous_status od" "oc_status (fill_accepted od ts) = oc_status od"
  "oc_ts_closed (fill_accepted od ts) = oc_ts_closed od"
  "oc_quantity (fill_fields od f n ts) = oc_quantity od" "oc_filled_qty (fill_fields od f n ts) = n"
  "oc_leaves_qty (fill_fields od f n ts) = quantity_saturating_sub (oc_leaves_qty od) (of_last_qty f)"
  "oc_overfill_qty (fill_fields od f n ts) = oc_overfill_qty od"
  "oc_trade_ids (fill_fields od f n ts) = oc_trade_ids od @ [of_trade_id f]"
  "oc_events (fill_fields od f n ts) = oc_events od" "oc_previous_status (fill_fields od f n ts) = oc_previous_status od"
  "oc_status (fill_fields od f n ts) = oc_status od" "oc_ts_closed (fill_fields od f n ts) = oc_ts_closed od"
  by (simp_all add: fill_accepted_def fill_fields_def)

lemma fill_status_frame:
  "oc_quantity (fill_status od n ts) = oc_quantity od" "oc_filled_qty (fill_status od n ts) = oc_filled_qty od"
  "oc_leaves_qty (fill_status od n ts) = oc_leaves_qty od" "oc_overfill_qty (fill_status od n ts) = oc_overfill_qty od"
  "oc_trade_ids (fill_status od n ts) = oc_trade_ids od" "oc_events (fill_status od n ts) = oc_events od"
  "oc_previous_status (fill_status od n ts) = oc_previous_status od"
  "oc_status (fill_status od n ts) = (if q_raw n < q_raw (oc_quantity od) then PartiallyFilled else Filled)"
  "oc_ts_closed (fill_status od n ts) = (if q_raw n < q_raw (oc_quantity od) then oc_ts_closed od else Some ts)"
  by (simp_all add: fill_status_def)

lemma fill_overfill_facts:
  assumes "fill_overfill od n = Some od'"
  shows "\<exists>ov. od' = od\<lparr>oc_overfill_qty := ov\<rparr> \<and> q_raw ov = (if q_raw (oc_quantity od) < q_raw n
      then saturating_add_u128 (q_raw (oc_overfill_qty od)) (q_raw n - q_raw (oc_quantity od)) else q_raw (oc_overfill_qty od))"
proof (cases "q_raw (oc_quantity od) < q_raw n")
  case True
  with assms show ?thesis by (auto simp: fill_overfill_def bind_Some_conv dest: quantity_from_raw_Some)
next
  case False
  with assms show ?thesis by (intro exI [of _ "oc_overfill_qty od"]) (simp add: fill_overfill_def)
qed

lemma core_filled_facts:
  fixes od od' :: "'f order_core"
  assumes "core_filled fl od f ts = Some od'"
  defines "n \<equiv> saturating_add_u128 (q_raw (oc_filled_qty od)) (q_raw (of_last_qty f))"
  shows "q_raw (oc_filled_qty od') = n" and "oc_quantity od' = oc_quantity od"
    and "q_raw (oc_leaves_qty od') = q_raw (oc_leaves_qty od) - q_raw (of_last_qty f)"
    and "oc_trade_ids od' = oc_trade_ids od @ [of_trade_id f]" and "oc_events od' = oc_events od"
    and "oc_previous_status od' = oc_previous_status od"
    and "oc_status od' = (if n < q_raw (oc_quantity od) then PartiallyFilled else Filled)"
    and "oc_status od' = Filled \<Longrightarrow> oc_ts_closed od' \<noteq> None"
    and "q_raw (oc_overfill_qty od') = (if q_raw (oc_quantity od) < n
      then saturating_add_u128 (q_raw (oc_overfill_qty od)) (n - q_raw (oc_quantity od)) else q_raw (oc_overfill_qty od))"
proof -
  obtain nq o1 where nq: "quantity_from_raw n (q_prec (oc_filled_qty od)) = Some nq"
    and o1: "fill_overfill od nq = Some o1"
    and set: "core_set_avg_px fl (fill_accepted (fill_fields (fill_status o1 nq ts) f nq ts) ts) (of_last_qty f) (of_last_px f) = Some od'"
    using assms(1) unfolding core_filled_def n_def [symmetric] bind_Some_conv by blast
  have q: "q_raw nq = n" using quantity_from_raw_Some [OF nq] by simp
  obtain ov where ov: "o1 = od\<lparr>oc_overfill_qty := ov\<rparr>" "q_raw ov = (if q_raw (oc_quantity od) < n
      then saturating_add_u128 (q_raw (oc_overfill_qty od)) (n - q_raw (oc_quantity od)) else q_raw (oc_overfill_qty od))"
    using fill_overfill_facts [OF o1] unfolding q by blast
  have o1': "oc_quantity o1 = oc_quantity od" "oc_leaves_qty o1 = oc_leaves_qty od" "oc_overfill_qty o1 = ov"
    "oc_trade_ids o1 = oc_trade_ids od" "oc_events o1 = oc_events od" "oc_previous_status o1 = oc_previous_status od"
    by (simp_all add: ov(1))
  note fr = core_set_avg_px_frame [OF set, unfolded same_quantities_def fill_steps_frame fill_status_frame o1' q]
  show "q_raw (oc_filled_qty od') = n" "oc_quantity od' = oc_quantity od" "oc_events od' = oc_events od"
    "oc_trade_ids od' = oc_trade_ids od @ [of_trade_id f]" "oc_previous_status od' = oc_previous_status od"
    "oc_status od' = (if n < q_raw (oc_quantity od) then PartiallyFilled else Filled)"
    using fr q by simp_all
  show "q_raw (oc_leaves_qty od') = q_raw (oc_leaves_qty od) - q_raw (of_last_qty f)"
    using fr(1) by (simp add: quantity_saturating_sub_def)
  show "oc_status od' = Filled \<Longrightarrow> oc_ts_closed od' \<noteq> None" using fr(4,5) by (simp split: if_splits)
  show "q_raw (oc_overfill_qty od') = (if q_raw (oc_quantity od) < n
      then saturating_add_u128 (q_raw (oc_overfill_qty od)) (n - q_raw (oc_quantity od)) else q_raw (oc_overfill_qty od))"
    using fr(1) ov(2) by simp
qed

section \<open>The invariant of reachable orders\<close>

definition fills :: "'f order_core \<Rightarrow> order_filled list" where
  "fills od = List.map_filter fill_of (oc_events od)"

definition fill_total :: "'f order_core \<Rightarrow> nat" where
  "fill_total od = sum_list (map (\<lambda>f. q_raw (of_last_qty f)) (fills od))"

definition core_inv :: "'f order_core \<Rightarrow> bool" where
  "core_inv od \<longleftrightarrow>
     q_raw (oc_quantity od) \<le> u128_max \<and>
     q_raw (oc_filled_qty od) = min (fill_total od) u128_max \<and>
     q_raw (oc_leaves_qty od) = q_raw (oc_quantity od) - q_raw (oc_filled_qty od) \<and>
     oc_trade_ids od = map of_trade_id (fills od) \<and> distinct (oc_trade_ids od) \<and>
     (pending (oc_status od) \<longrightarrow> (\<exists>p. oc_previous_status od = Some p \<and> resting p)) \<and>
     (status_is_closed (oc_status od) \<longrightarrow> oc_ts_closed od \<noteq> None) \<and>
     q_raw (oc_overfill_qty od) = (if oc_status od = Filled then q_raw (oc_filled_qty od) - q_raw (oc_quantity od) else 0) \<and>
     (if oc_status od = Filled then q_raw (oc_quantity od) \<le> q_raw (oc_filled_qty od)
      else q_raw (oc_filled_qty od) = 0 \<or> q_raw (oc_filled_qty od) < q_raw (oc_quantity od))"

lemma core_invD:
  assumes "core_inv od"
  shows "q_raw (oc_quantity od) \<le> u128_max" and "q_raw (oc_filled_qty od) = min (fill_total od) u128_max"
    and "q_raw (oc_leaves_qty od) = q_raw (oc_quantity od) - q_raw (oc_filled_qty od)"
    and "oc_trade_ids od = map of_trade_id (fills od)" and "distinct (oc_trade_ids od)"
    and "pending (oc_status od) \<Longrightarrow> \<exists>p. oc_previous_status od = Some p \<and> resting p"
    and "status_is_closed (oc_status od) \<Longrightarrow> oc_ts_closed od \<noteq> None"
    and "q_raw (oc_overfill_qty od) = (if oc_status od = Filled then q_raw (oc_filled_qty od) - q_raw (oc_quantity od) else 0)"
    and "if oc_status od = Filled then q_raw (oc_quantity od) \<le> q_raw (oc_filled_qty od)
      else q_raw (oc_filled_qty od) = 0 \<or> q_raw (oc_filled_qty od) < q_raw (oc_quantity od)"
  using assms unfolding core_inv_def by blast+

text \<open>The invariant reads only these fields.\<close>

lemma core_inv_cong:
  assumes "core_inv od" and "oc_quantity od' = oc_quantity od" and "oc_filled_qty od' = oc_filled_qty od"
    and "oc_leaves_qty od' = oc_leaves_qty od" and "oc_overfill_qty od' = oc_overfill_qty od"
    and "oc_trade_ids od' = oc_trade_ids od" and "fills od' = fills od"
    and "oc_status od' = Filled \<longleftrightarrow> oc_status od = Filled"
    and "pending (oc_status od') \<Longrightarrow> \<exists>p. oc_previous_status od' = Some p \<and> resting p"
    and "status_is_closed (oc_status od') \<Longrightarrow> oc_ts_closed od' \<noteq> None"
  shows "core_inv od'"
proof -
  have ft: "fill_total od' = fill_total od" using assms(7) by (simp add: fill_total_def)
  show ?thesis using core_invD [OF assms(1)] assms(9,10) unfolding core_inv_def assms(2-8) ft by blast
qed

lemma core_inv_new: "core_new h init = Some od \<Longrightarrow> q_raw (oi_quantity init) \<le> u128_max \<Longrightarrow> core_inv od"
  by (auto simp: core_new_def core_inv_def bind_Some_conv quantity_zero_def fill_total_def fills_def
      status_is_closed_def List.map_filter_def split: sum.splits if_splits)

lemma core_inv_refused: "core_inv od \<Longrightarrow> refused od od' \<Longrightarrow> core_inv od'"
  unfolding refused_def by (elim disjE conjE; auto intro!: core_inv_cong [of od] dest: core_invD(6,7) simp: fills_def)

lemma log_event_frame:
  "oc_quantity (log_event e od) = oc_quantity od" "oc_filled_qty (log_event e od) = oc_filled_qty od"
  "oc_leaves_qty (log_event e od) = oc_leaves_qty od" "oc_overfill_qty (log_event e od) = oc_overfill_qty od"
  "oc_trade_ids (log_event e od) = oc_trade_ids od" "oc_status (log_event e od) = oc_status od"
  "oc_previous_status (log_event e od) = oc_previous_status od" "oc_ts_closed (log_event e od) = oc_ts_closed od"
  by (simp_all add: log_event_def)

lemma fills_log:
  "fills (log_event e od) = fills od @ (case fill_of e of None \<Rightarrow> [] | Some f \<Rightarrow> [f])"
  by (simp add: fills_def log_event_def List.map_filter_def split: option.split)

lemma with_previous_fields:
  "oc_quantity (with_previous od e) = oc_quantity od" "oc_filled_qty (with_previous od e) = oc_filled_qty od"
  "oc_leaves_qty (with_previous od e) = oc_leaves_qty od" "oc_overfill_qty (with_previous od e) = oc_overfill_qty od"
  "oc_events (with_previous od e) = oc_events od" "oc_ts_closed (with_previous od e) = oc_ts_closed od"
  by (simp_all add: with_previous_def)

text \<open>An accepted event that is not a fill leaves the quantities alone.\<close>

lemma transition_shape:
  assumes "transition s ty = Inr s'" and "ty \<noteq> T_Filled"
  obtains (rejected) "ty = T_ModifyRejected \<or> ty = T_CancelRejected" "pending s" "s' = s"
  | (updated) "ty = T_Updated" "s' = s" "\<not> status_is_closed s" "s \<noteq> PendingCancel"
  | (other) "ty \<notin> {T_ModifyRejected, T_CancelRejected, T_Updated, T_Initialized}" "s' \<noteq> Filled" "s \<noteq> Filled"
      "pending s' \<Longrightarrow> resting s \<or> pending s"
      "status_is_closed s' \<Longrightarrow> ty \<in> {T_Denied, T_Rejected, T_Canceled, T_Expired}"
proof -
  have "(ty = T_ModifyRejected \<or> ty = T_CancelRejected) \<and> pending s \<and> s' = s \<or>
    ty = T_Updated \<and> s' = s \<and> \<not> status_is_closed s \<and> s \<noteq> PendingCancel \<or>
    ty \<notin> {T_ModifyRejected, T_CancelRejected, T_Updated, T_Initialized} \<and> s' \<noteq> Filled \<and> s \<noteq> Filled \<and>
      (pending s' \<longrightarrow> resting s \<or> pending s) \<and>
      (status_is_closed s' \<longrightarrow> ty \<in> {T_Denied, T_Rejected, T_Canceled, T_Expired})"
    using assms by (cases s; cases ty; simp add: transition_def resting_def status_is_closed_def)
  then show thesis using rejected updated other by blast
qed

lemma handled_status_other:
  "ty \<notin> {T_ModifyRejected, T_CancelRejected, T_Updated} \<Longrightarrow> handled_status ty s p = s"
  by (cases ty) simp_all

lemma resting_facts: "resting q \<Longrightarrow> \<not> pending q \<and> q \<noteq> Filled \<and> \<not> status_is_closed q"
  by (auto simp: resting_def status_is_closed_def)

lemma handled_status_cases:
  assumes t: "transition s ty = Inr s'" and nf: "ty \<noteq> T_Filled"
    and prev: "pending s \<Longrightarrow> \<exists>q. p = Some q \<and> resting q"
    and p': "p' = (if saves_previous s ty then Some s else p)"
    and h: "h = handled_status ty s' p'"
  shows "pending h \<Longrightarrow> \<exists>q. p' = Some q \<and> resting q" and "h \<noteq> Filled" and "s \<noteq> Filled"
    and "status_is_closed h \<Longrightarrow> ty \<in> {T_Denied, T_Rejected, T_Canceled, T_Expired}"
proof -
  have pp: "pending s \<Longrightarrow> p' = p" using p' by (auto simp: saves_previous_def)
  have "(pending h \<longrightarrow> (\<exists>q. p' = Some q \<and> resting q)) \<and> h \<noteq> Filled \<and> s \<noteq> Filled \<and>
    (status_is_closed h \<longrightarrow> ty \<in> {T_Denied, T_Rejected, T_Canceled, T_Expired})"
    using t nf
  proof (cases rule: transition_shape)
    case rejected
    then obtain q where "p' = Some q" "resting q" using prev pp by auto
    moreover have "h = q" using rejected(1) h \<open>p' = Some q\<close> by auto
    ultimately show ?thesis using resting_facts [of q] rejected(2) by auto
  next
    case updated
    show ?thesis
    proof (cases "s = PendingUpdate")
      case True
      then obtain q where "p' = Some q" "resting q" using prev pp by auto
      then show ?thesis using h updated True resting_facts [of q] by auto
    next
      case False
      then have "h = s" using h updated by (simp split: option.split)
      then show ?thesis using updated False by (auto simp: status_is_closed_def)
    qed
  next
    case other
    then have h': "h = s'" using h handled_status_other by auto
    have "\<exists>q. p' = Some q \<and> resting q" if "pending s'"
      using other(1,4) that prev pp p' nf resting_facts by (cases "pending s") (auto simp: saves_previous_def)
    then show ?thesis using h' other by auto
  qed
  then show "pending h \<Longrightarrow> \<exists>q. p' = Some q \<and> resting q" "h \<noteq> Filled" "s \<noteq> Filled"
    "status_is_closed h \<Longrightarrow> ty \<in> {T_Denied, T_Rejected, T_Canceled, T_Expired}" by blast+
qed

lemma core_inv_accepted:
  assumes inv: "core_inv od" and t: "transition (oc_status od) (event_type e) = Inr s" and nf: "fill_of e = None"
    and h: "core_handle fl ((with_previous od e)\<lparr>oc_status := s\<rparr>) e = Some (Inr (), o2)"
  shows "core_inv (log_event e o2)"
proof -
  note fr = core_handle_frame [OF nf h]
  have et: "event_type e \<noteq> T_Filled" using nf fill_of_type [of e] by simp
  have prev: "oc_previous_status o2 = (if saves_previous (oc_status od) (event_type e) then Some (oc_status od)
      else oc_previous_status od)"
    using fr(3) by (simp add: with_previous_def)
  have st: "oc_status o2 = handled_status (event_type e) s (oc_previous_status o2)" using fr(3,4) by simp
  have pend: "pending (oc_status od) \<Longrightarrow> \<exists>q. oc_previous_status od = Some q \<and> resting q"
    using core_invD(6) [OF inv] .
  note hs = handled_status_cases [OF t et pend prev st]
  have q: "oc_quantity o2 = oc_quantity od" "oc_filled_qty o2 = oc_filled_qty od" "oc_leaves_qty o2 = oc_leaves_qty od"
    "oc_overfill_qty o2 = oc_overfill_qty od" "oc_trade_ids o2 = oc_trade_ids od"
    using fr(1) by (simp_all add: same_quantities_def with_previous_fields)
  have ft: "fills (log_event e o2) = fills od"
    using fr(2) nf by (simp add: fills_log) (simp add: fills_def with_previous_fields)
  have "status_is_closed (oc_status o2) \<Longrightarrow> oc_ts_closed o2 \<noteq> None" using hs(4) fr(5) by blast
  moreover have "oc_status o2 \<noteq> Filled" "oc_status od \<noteq> Filled" using hs(2,3) by blast+
  moreover have "pending (oc_status o2) \<Longrightarrow> \<exists>q. oc_previous_status o2 = Some q \<and> resting q" using hs(1) .
  ultimately show ?thesis by (intro core_inv_cong [OF inv]) (simp_all add: q ft log_event_frame)
qed

lemma saturating_add_u128_min: "saturating_add_u128 (min a u128_max) b = min (a + b) u128_max"
  by (simp add: saturating_add_u128_def)

lemma saturating_add_u128_zero: "x \<le> u128_max \<Longrightarrow> saturating_add_u128 0 x = x"
  by (simp add: saturating_add_u128_def)

lemma core_inv_filled:
  assumes inv: "core_inv od" and s: "oc_status od \<noteq> Filled"
    and new: "of_trade_id f \<notin> set (oc_trade_ids od)"
    and h: "core_filled fl ((with_previous od (Ev_Filled eh f))\<lparr>oc_status := s'\<rparr>) f ts = Some o2"
  shows "core_inv (log_event (Ev_Filled eh f) o2)"
proof -
  note fr = core_filled_facts [OF h]
  let ?n = "saturating_add_u128 (q_raw (oc_filled_qty od)) (q_raw (of_last_qty f))"
  have q: "q_raw (oc_filled_qty o2) = ?n" "oc_quantity o2 = oc_quantity od"
    "q_raw (oc_leaves_qty o2) = q_raw (oc_leaves_qty od) - q_raw (of_last_qty f)"
    "oc_trade_ids o2 = oc_trade_ids od @ [of_trade_id f]"
    "oc_status o2 = (if ?n < q_raw (oc_quantity od) then PartiallyFilled else Filled)"
    "q_raw (oc_overfill_qty o2) = (if q_raw (oc_quantity od) < ?n
      then saturating_add_u128 (q_raw (oc_overfill_qty od)) (?n - q_raw (oc_quantity od)) else q_raw (oc_overfill_qty od))"
    using fr(1-4,7,9) by (simp_all add: with_previous_fields)
  have fl: "fills (log_event (Ev_Filled eh f) o2) = fills od @ [f]"
    using fr(5) by (simp add: fills_log) (simp add: fills_def with_previous_fields)
  have n: "?n = min (fill_total od + q_raw (of_last_qty f)) u128_max"
    using core_invD(2) [OF inv] by (simp add: saturating_add_u128_min)
  have ft: "fill_total (log_event (Ev_Filled eh f) o2) = fill_total od + q_raw (of_last_qty f)"
    using fl by (simp add: fill_total_def)
  have le: "?n \<le> u128_max" "q_raw (oc_quantity od) \<le> u128_max" using n core_invD(1) [OF inv] by simp_all
  have ov: "q_raw (oc_overfill_qty od) = 0" using core_invD(8) [OF inv] s by simp
  have lv: "q_raw (oc_leaves_qty od) - q_raw (of_last_qty f) = q_raw (oc_quantity od) - ?n"
    using core_invD(3) [OF inv] le unfolding saturating_add_u128_def by linarith
  have "status_is_closed (oc_status o2) \<Longrightarrow> oc_ts_closed o2 \<noteq> None"
    using fr(8) q(5) by (simp add: status_is_closed_def split: if_splits)
  moreover have "oc_trade_ids o2 = map of_trade_id (fills od @ [f])" "distinct (oc_trade_ids o2)"
    using core_invD(4,5) [OF inv] new q(4) by simp_all
  moreover have "\<not> pending (oc_status o2)" using q(5) by simp
  moreover have "q_raw (oc_overfill_qty o2) = ?n - q_raw (oc_quantity od)"
    using q(6) ov le saturating_add_u128_zero [of "?n - q_raw (oc_quantity od)"] by auto
  moreover have "oc_status o2 = Filled \<longleftrightarrow> q_raw (oc_quantity od) \<le> ?n" using q(5) by auto
  ultimately show ?thesis unfolding core_inv_def log_event_frame ft fl q(1-3) lv n [symmetric] using le by auto
qed

lemma core_inv_apply:
  assumes "core_inv od" and "core_apply fl od e = Some (r, od')"
  shows "core_inv od'"
  using assms(2)
proof (cases rule: core_apply_cases)
  case (refused err)
  then show ?thesis using core_inv_refused assms(1) by blast
next
  case (accepted s o2)
  show ?thesis
  proof (cases "fill_of e")
    case None
    then show ?thesis using core_inv_accepted [OF assms(1) accepted(2) None accepted(3)] accepted(4) by simp
  next
    case (Some f)
    then obtain eh where e: "e = Ev_Filled eh f" by (cases e) auto
    have "oc_status od \<noteq> Filled" using accepted(2) transition_closed [of "oc_status od"] by (auto simp: status_is_closed_def)
    then show ?thesis using core_inv_filled [OF assms(1)] accepted e by (auto simp: core_handle_def)
  qed
qed

lemma reachable_inv: "reachable fl od \<Longrightarrow> core_inv od"
  by (induction rule: reachable.induct) (auto intro: core_inv_new core_inv_apply)

section \<open>Replaying the event log\<close>

definition accept :: "'f float_ops \<Rightarrow> order_event \<Rightarrow> 'f order_core \<Rightarrow> 'f order_core option" where
  "accept fl e od = (case core_apply fl od e of Some (Inr _, od') \<Rightarrow> Some od' | _ \<Rightarrow> None)"

definition attempt :: "'f float_ops \<Rightarrow> order_event \<Rightarrow> 'f order_core \<Rightarrow> 'f order_core option" where
  "attempt fl e od = map_option snd (core_apply fl od e)"

text \<open>Equal orders, up to a saved status that is of no consequence.\<close>

definition similar :: "'f order_core \<Rightarrow> 'f order_core \<Rightarrow> bool" where
  "similar od rd \<longleftrightarrow> rd = od\<lparr>oc_previous_status := oc_previous_status rd\<rparr> \<and>
     (pending (oc_status od) \<longrightarrow> oc_previous_status rd = oc_previous_status od)"

lemma similar_refl [simp]: "similar od od"
  by (simp add: similar_def)

lemma similar_accept:
  assumes "similar od rd" and "core_apply fl od e = Some (Inr (), od')"
  shows "core_apply fl rd e = Some (Inr (), od')"
proof -
  have eq: "rd = od\<lparr>oc_previous_status := oc_previous_status rd\<rparr>" using assms(1) by (simp add: similar_def)
  have "oc_status rd = oc_status od" "oc_client_order_id rd = oc_client_order_id od"
    "oc_strategy_id rd = oc_strategy_id od" "oc_trade_ids rd = oc_trade_ids od"
    by (subst eq, simp)+
  note fields = this
  have "with_previous rd e = with_previous od e"
  proof (cases "saves_previous (oc_status od) (event_type e)")
    case True
    then show ?thesis using fields(1) by (simp add: with_previous_def) (subst eq, simp)
  next
    case False
    have "pending (oc_status od)"
      using assms(2)
    proof (cases rule: core_apply_cases)
      case (accepted s o2)
      then show ?thesis using False transition_initialized transition_special
        by (auto simp: saves_previous_def)
    qed simp
    then have "rd = od" using assms(1) eq by (simp add: similar_def)
    then show ?thesis by simp
  qed
  then show ?thesis using assms(2) unfolding core_apply_unfold fields by (auto split: option.splits sum.splits if_splits)
qed

lemma similar_refused: "similar od rd \<Longrightarrow> refused od od' \<Longrightarrow> similar od' rd"
  unfolding refused_def similar_def by (elim disjE conjE) simp_all

lemma accepted_events:
  assumes "core_apply fl od e = Some (Inr (), od')"
  shows "oc_events od' = oc_events od @ [e]"
  using assms
proof (cases rule: core_apply_cases)
  case (accepted s o2)
  have "oc_events o2 = oc_events od"
  proof (cases "fill_of e")
    case None
    then show ?thesis using core_handle_frame(2) [OF None accepted(3)] by (simp add: with_previous_fields)
  next
    case (Some f)
    then obtain eh where "e = Ev_Filled eh f" by (cases e) auto
    with accepted(3) show ?thesis
      by (auto simp: core_handle_def with_previous_fields dest: core_filled_facts(5))
  qed
  then show ?thesis using accepted(4) by (simp add: log_event_def)
qed simp

lemma attempt_replay:
  assumes "fold_opt (attempt fl) es od0 = Some od"
  shows "\<exists>evs rd. oc_events od = oc_events od0 @ evs \<and> fold_opt (accept fl) evs od0 = Some rd \<and> similar od rd"
  using assms
proof (rule fold_opt_invariant)
  show "\<exists>evs rd. oc_events od0 = oc_events od0 @ evs \<and> fold_opt (accept fl) evs od0 = Some rd \<and> similar od0 rd"
    by (intro exI [of _ "[]"] exI [of _ od0]) simp
next
  fix e od od'
  assume ih: "\<exists>evs rd. oc_events od = oc_events od0 @ evs \<and> fold_opt (accept fl) evs od0 = Some rd \<and> similar od rd"
    and step: "attempt fl e od = Some od'"
  from ih obtain evs rd where r: "oc_events od = oc_events od0 @ evs" "fold_opt (accept fl) evs od0 = Some rd" "similar od rd"
    by blast
  from step obtain r0 where c: "core_apply fl od e = Some (r0, od')" by (auto simp: attempt_def)
  then show "\<exists>evs rd. oc_events od' = oc_events od0 @ evs \<and> fold_opt (accept fl) evs od0 = Some rd \<and> similar od' rd"
  proof (cases rule: core_apply_cases)
    case (refused err)
    have "oc_events od' = oc_events od" using refused(2) by (auto simp: refused_def)
    then show ?thesis using r similar_refused [OF r(3) refused(2)] by auto
  next
    case (accepted s o2)
    then have "core_apply fl rd e = Some (Inr (), od')" using similar_accept [OF r(3)] c by simp
    then have "fold_opt (accept fl) (evs @ [e]) od0 = Some od'"
      using r(2) by (simp add: fold_opt_append accept_def)
    moreover have "oc_events od' = oc_events od0 @ (evs @ [e])"
      using accepted_events c accepted(1) r(1) by fastforce
    ultimately show ?thesis by (intro exI [of _ "evs @ [e]"] exI [of _ od']) simp
  qed
qed

section \<open>Pending requests\<close>

lemma pending_accept:
  assumes "accept fl e od = Some od'" and "event_type e = T_PendingUpdate \<or> event_type e = T_PendingCancel"
  shows "pending (oc_status od')"
    and "oc_previous_status od' = (if pending (oc_status od) then oc_previous_status od else Some (oc_status od))"
proof -
  have c: "core_apply fl od e = Some (Inr (), od')"
    using assms(1) by (auto simp: accept_def split: option.splits sum.splits)
  from c have "pending (oc_status od') \<and>
    oc_previous_status od' = (if pending (oc_status od) then oc_previous_status od else Some (oc_status od))"
  proof (cases rule: core_apply_cases)
    case (accepted s o2)
    have nf: "fill_of e = None" using assms(2) fill_of_type [of e] by auto
    note fr = core_handle_frame [OF nf accepted(3)]
    have "pending s" using accepted(2) assms(2)
      by (cases "oc_status od") (auto simp: transition_def)
    then have "pending (oc_status od')" using fr(4) assms(2) accepted(4) by (auto simp: log_event_frame)
    then show ?thesis
      using fr(3) accepted(4) assms(2) by (auto simp: log_event_frame with_previous_def saves_previous_def)
  qed simp
  then show "pending (oc_status od')"
    "oc_previous_status od' = (if pending (oc_status od) then oc_previous_status od else Some (oc_status od))" by blast+
qed

lemma pending_run:
  assumes "fold_opt (accept fl) ps od = Some od'" and "pending (oc_status od)"
    and "\<forall>e \<in> set ps. event_type e = T_PendingUpdate \<or> event_type e = T_PendingCancel"
  shows "pending (oc_status od') \<and> oc_previous_status od' = oc_previous_status od"
  using assms
proof (induction ps arbitrary: od)
  case (Cons e ps)
  then obtain od1 where od1: "accept fl e od = Some od1" "fold_opt (accept fl) ps od1 = Some od'"
    by (auto simp: bind_Some_conv)
  with Cons.IH [OF od1(2)] pending_accept [OF od1(1)] Cons.prems show ?case by auto
qed simp

section \<open>A sample order\<close>

definition sample_header :: event_header where
  "sample_header = \<lparr>eh_trader_id = ''T-1'', eh_strategy_id = ''S-1'', eh_instrument_id = \<lparr>symbol = ''A'', venue = ''B''\<rparr>,
     eh_client_order_id = ''O-1'', eh_event_id = ''E-1'', eh_ts_event = 1, eh_ts_init = 1\<rparr>"

definition sample_init :: order_initialized where
  "sample_init = \<lparr>oi_order_side = Buy, oi_order_type = Limit, oi_quantity = \<lparr>q_raw = 10, q_prec = 0\<rparr>, oi_time_in_force = Gtc,
     oi_post_only = False, oi_reduce_only = False, oi_quote_quantity = False, oi_reconciliation = False, oi_price = Some \<lparr>p_raw = 5, p_prec = 0\<rparr>,
     oi_trigger_price = None, oi_trigger_type = None, oi_limit_offset = None, oi_trailing_offset = None,
     oi_trailing_offset_type = None, oi_expire_time = None, oi_display_qty = None,
     oi_emulation_trigger = None, oi_trigger_instrument_id = None, oi_contingency_type = None, oi_order_list_id = None,
     oi_linked_order_ids = None, oi_parent_order_id = None, oi_exec_algorithm_id = None, oi_exec_algorithm_params = None,
     oi_exec_spawn_id = None, oi_tags = None\<rparr>"

definition sample_core :: "unit order_core" where
  "sample_core = the (core_new sample_header sample_init)"

definition sample_fill :: order_filled where
  "sample_fill = \<lparr>of_venue_order_id = ''V-1'', of_account_id = ''A-1'', of_trade_id = ''X-1'', of_order_side = Buy,
     of_order_type = Limit, of_last_qty = \<lparr>q_raw = 4, q_prec = 0\<rparr>, of_last_px = \<lparr>p_raw = 5, p_prec = 0\<rparr>,
     of_liquidity_side = Maker, of_position_id = None\<rparr>"

definition sample_floats :: "unit float_ops" where
  "sample_floats = \<lparr>fl_px = (\<lambda>_. ()), fl_avg = (\<lambda>_ _ _ _. ()), fl_slippage = (\<lambda>_ _ _. None)\<rparr>"

lemma sample_core_new: "core_new sample_header sample_init = Some sample_core"
  by (simp add: sample_core_def core_new_def quantity_zero_def check_fixed_precision_def FIXED_PRECISION_def sample_init_def)

lemma sample_reachable: "reachable sample_floats sample_core"
  by (rule reachable_new [OF sample_core_new]) (simp add: sample_init_def u128_max_def)

lemmas sample_eval = core_apply_unfold with_previous_def saves_previous_def transition_def core_handle_def log_event_def
  sample_core_def core_new_def quantity_zero_def check_fixed_precision_def FIXED_PRECISION_def sample_init_def
  sample_header_def event_client_order_id_def event_strategy_id_def event_ts_event_def

text \<open>The sample order submitted, accepted and partly filled, with a second report of the same fill, which is refused.\<close>

definition sample_events :: "order_event list" where
  "sample_events = [Ev_Submitted sample_header ''A-1'', Ev_Accepted sample_header ''V-1'' ''A-1'',
     Ev_Filled sample_header sample_fill, Ev_Filled sample_header sample_fill]"

lemma sample_run:
  obtains od where "fold_opt (attempt sample_floats) sample_events sample_core = Some od" "oc_status od = PartiallyFilled"
    "q_raw (oc_quantity od) = 10" "fill_total od = 4"
  by (simp add: sample_events_def attempt_def sample_eval core_filled_def fill_overfill_def sample_fill_def quantity_from_raw_def quantity_raw_ok_def
      saturating_add_u128_def u128_max_def raw_limits core_set_avg_px_def fill_accepted_def fill_fields_def fill_status_def
      core_submitted_def core_accepted_def fill_total_def fills_def)

lemma attempts_reachable: "fold_opt (attempt fl) es od = Some od' \<Longrightarrow> reachable fl od \<Longrightarrow> reachable fl od'"
  by (induction es arbitrary: od) (auto simp: attempt_def bind_Some_conv intro: reachable_step)

section \<open>Properties\<close>

text \<open>C7: the quantities of an order always agree with its fills. In every order reachable
  from a new one by any stream of events, accepted or refused, the filled quantity is the sum
  of the fills in the event log (saturating at the largest 128-bit value), the leaves quantity is what remains of the order
  quantity, the trade identifiers are those of the logged fills, all different, the order is
  filled exactly when a fill brought it to its quantity, and the overfill is the excess.\<close>

theorem order_quantities_agree:
  assumes "reachable fl od"
  shows "q_raw (oc_filled_qty od) = min (fill_total od) u128_max \<and>
    q_raw (oc_leaves_qty od) = q_raw (oc_quantity od) - q_raw (oc_filled_qty od) \<and>
    oc_trade_ids od = map of_trade_id (fills od) \<and> distinct (oc_trade_ids od) \<and>
    (if oc_status od = Filled
     then q_raw (oc_quantity od) \<le> q_raw (oc_filled_qty od) \<and>
       q_raw (oc_overfill_qty od) = q_raw (oc_filled_qty od) - q_raw (oc_quantity od)
     else (q_raw (oc_filled_qty od) = 0 \<or> q_raw (oc_filled_qty od) < q_raw (oc_quantity od)) \<and>
       q_raw (oc_overfill_qty od) = 0)"
  using core_invD [OF reachable_inv [OF assms]] by (simp split: if_splits)

theorem order_quantities_agree_witness:
  "\<exists>od. fold_opt (attempt sample_floats) sample_events sample_core = Some od \<and> oc_status od = PartiallyFilled \<and>
     q_raw (oc_filled_qty od) = 4 \<and> q_raw (oc_leaves_qty od) = 6 \<and> distinct (oc_trade_ids od) \<and> q_raw (oc_overfill_qty od) = 0"
proof -
  obtain od where od: "fold_opt (attempt sample_floats) sample_events sample_core = Some od" "oc_status od = PartiallyFilled"
    "q_raw (oc_quantity od) = 10" "fill_total od = 4" by (rule sample_run)
  from order_quantities_agree [OF attempts_reachable [OF od(1) sample_reachable]] od show ?thesis by (auto simp: u128_max_def)
qed

text \<open>C8: the event log determines the order. After any stream of events, accepted and
  refused, replaying the accepted ones (the log, without its first event) on the new order is
  accepted throughout and gives the same order, up to a saved status that no later event can
  observe.\<close>

theorem event_log_replays:
  assumes "core_new h init = Some od0" and "fold_opt (attempt fl) es od0 = Some od"
  shows "\<exists>evs rd. oc_events od = Ev_Initialized h init # evs \<and> fold_opt (accept fl) evs od0 = Some rd \<and>
    rd = od\<lparr>oc_previous_status := oc_previous_status rd\<rparr> \<and>
    (pending (oc_status od) \<longrightarrow> oc_previous_status rd = oc_previous_status od)"
proof -
  have "oc_events od0 = [Ev_Initialized h init]" using assms(1) by (auto simp: core_new_def bind_Some_conv)
  with attempt_replay [OF assms(2)] show ?thesis by (auto simp: similar_def)
qed

theorem event_log_replays_witness:
  "\<exists>od evs rd. fold_opt (attempt sample_floats) sample_events sample_core = Some od \<and> fill_total od = 4 \<and>
     oc_events od = Ev_Initialized sample_header sample_init # evs \<and>
     fold_opt (accept sample_floats) evs sample_core = Some rd \<and> rd = od\<lparr>oc_previous_status := oc_previous_status rd\<rparr>"
proof -
  obtain od where od: "fold_opt (attempt sample_floats) sample_events sample_core = Some od" "fill_total od = 4"
    by (rule sample_run)
  from event_log_replays [OF sample_core_new od(1)] od show ?thesis by blast
qed

text \<open>C9: a closed order stays closed, except that a canceled order still takes fills. The only
  event a denied, rejected, canceled, expired or filled order accepts is a fill of a canceled
  order, which makes it partially filled or filled.\<close>

theorem closed_orders_are_final:
  assumes "status_is_closed (oc_status od)" and "core_apply fl od e = Some (Inr (), od')"
  shows "oc_status od = Canceled \<and> event_type e = T_Filled \<and> oc_status od' \<in> {PartiallyFilled, Filled}"
  using assms(2)
proof (cases rule: core_apply_cases)
  case (accepted s o2)
  have c: "oc_status od = Canceled" "event_type e = T_Filled"
    using transition_closed [OF accepted(2) assms(1)] by simp_all
  then obtain eh f where "e = Ev_Filled eh f" by (cases e) auto
  then have "oc_status o2 \<in> {PartiallyFilled, Filled}"
    using accepted(3) by (auto simp: core_handle_def dest!: core_filled_facts(7) split: if_splits)
  with c accepted(4) show ?thesis by (simp add: log_event_frame)
qed simp

theorem closed_orders_are_final_witness:
  "\<exists>od'. core_apply sample_floats (sample_core\<lparr>oc_status := Canceled\<rparr>) (Ev_Filled sample_header sample_fill) = Some (Inr (), od') \<and>
     oc_status od' \<in> {PartiallyFilled, Filled}"
proof -
  have "\<exists>od'. core_apply sample_floats (sample_core\<lparr>oc_status := Canceled\<rparr>) (Ev_Filled sample_header sample_fill) = Some (Inr (), od')"
    by (simp add: sample_eval core_filled_def fill_overfill_def sample_fill_def quantity_from_raw_def quantity_raw_ok_def
        saturating_add_u128_def u128_max_def raw_limits core_set_avg_px_def fill_accepted_def fill_fields_def fill_status_def)
  then obtain od' where od': "core_apply sample_floats (sample_core\<lparr>oc_status := Canceled\<rparr>) (Ev_Filled sample_header sample_fill) = Some (Inr (), od')"
    by blast
  have "status_is_closed (oc_status (sample_core\<lparr>oc_status := Canceled\<rparr>))" by (simp add: status_is_closed_def)
  from closed_orders_are_final [OF this od'] od' show ?thesis by blast
qed

text \<open>Rejecting a pending request restores the status that it interrupted. Take an order that
  is not pending, any number (at least one) of accepted requests to modify or cancel it, and then
  the rejection of the last kind of request: it is accepted and the order has the status from
  before the first request.\<close>

theorem rejected_request_restores_status:
  assumes "\<not> pending (oc_status od)" and "ps \<noteq> []"
    and "\<forall>e \<in> set ps. event_type e = T_PendingUpdate \<or> event_type e = T_PendingCancel"
    and "fold_opt (accept fl) ps od = Some od1"
    and "event_type e = (if oc_status od1 = PendingUpdate then T_ModifyRejected else T_CancelRejected)"
    and "event_client_order_id e = oc_client_order_id od1" and "event_strategy_id e = oc_strategy_id od1"
  shows "\<exists>od2. accept fl e od1 = Some od2 \<and> oc_status od2 = oc_status od"
proof -
  obtain p ps' where ps: "ps = p # ps'" using assms(2) by (cases ps) auto
  then obtain odp where odp: "accept fl p od = Some odp" "fold_opt (accept fl) ps' odp = Some od1"
    using assms(4) by (auto simp: bind_Some_conv)
  have "pending (oc_status odp)" "oc_previous_status odp = Some (oc_status od)"
    using pending_accept [OF odp(1)] assms(1,3) ps by simp_all
  then have od1: "pending (oc_status od1)" "oc_previous_status od1 = Some (oc_status od)"
    using pending_run [OF odp(2)] assms(3) ps by auto
  have tr: "transition (oc_status od1) (event_type e) = Inr (oc_status od1)"
    using od1(1) assms(5) by (auto simp: transition_def)
  have ns: "\<not> saves_previous (oc_status od1) (event_type e)" using od1(1) by (simp add: saves_previous_def)
  have nf: "fill_of e = None" using assms(5) fill_of_type [of e] by (simp split: if_splits)
  have h: "core_handle fl od1 e = Some (Inr (), od1\<lparr>oc_status := oc_status od\<rparr>)"
    using assms(5) od1(2) by (cases e) (auto simp: core_handle_def core_restore_status_def split: if_splits)
  have "core_apply fl od1 e = Some (Inr (), log_event e (od1\<lparr>oc_status := oc_status od\<rparr>))"
    using tr ns nf h assms(6,7) by (simp add: core_apply_unfold with_previous_def)
  then show ?thesis by (simp add: accept_def log_event_frame)
qed

theorem rejected_request_restores_status_witness:
  "\<exists>od1 od2. accept sample_floats (Ev_PendingUpdate sample_header) (sample_core\<lparr>oc_status := Accepted\<rparr>) = Some od1 \<and>
     accept sample_floats (Ev_ModifyRejected sample_header []) od1 = Some od2 \<and> oc_status od2 = Accepted"
proof -
  let ?od = "sample_core\<lparr>oc_status := Accepted\<rparr>"
  obtain od1 where od1: "accept sample_floats (Ev_PendingUpdate sample_header) ?od = Some od1"
    "oc_status od1 = PendingUpdate" "oc_client_order_id od1 = ''O-1''" "oc_strategy_id od1 = ''S-1''"
    by (simp add: accept_def sample_eval)
  have "fold_opt (accept sample_floats) [Ev_PendingUpdate sample_header] ?od = Some od1" using od1(1) by simp
  from rejected_request_restores_status [OF _ _ _ this, of "Ev_ModifyRejected sample_header []"] od1 show ?thesis
    by (auto simp: event_client_order_id_def event_strategy_id_def sample_header_def)
qed

text \<open>a refused event changes nothing of an order but the saved status. The saved status
  changes only outside the pending statuses, where it is not used.\<close>

theorem refused_event_keeps_order:
  assumes "core_apply fl od e = Some (Inl err, od')"
  shows "od' = od \<or> \<not> pending (oc_status od) \<and> od' = od\<lparr>oc_previous_status := Some (oc_status od)\<rparr>"
  using assms
proof (cases rule: core_apply_cases)
  case refused
  then show ?thesis by (simp add: refused_def)
qed simp

theorem refused_event_keeps_order_witness:
  "\<exists>od'. core_apply sample_floats sample_core (Ev_Initialized sample_header sample_init) = Some (Inl InvalidStateTransition, od') \<and>
     oc_status od' = Initialized"
proof -
  obtain od' where od': "core_apply sample_floats sample_core (Ev_Initialized sample_header sample_init) = Some (Inl InvalidStateTransition, od')"
    by (simp add: sample_eval)
  have "oc_status sample_core = Initialized" by (simp add: sample_eval)
  with refused_event_keeps_order [OF od'] od' show ?thesis by auto
qed

text \<open>every order reports a contingency. A new order without a contingency type is given
  \<open>NoContingency\<close>, and \<open>is_contingency\<close> only asks whether there is a type, so it holds of
  every new order.\<close>

theorem every_new_order_is_contingent:
  assumes "core_new h init = Some od"
  shows "order_is_contingency od"
  using assms by (auto simp: core_new_def order_is_contingency_def bind_Some_conv split: option.splits)

theorem every_new_order_is_contingent_witness: "order_is_contingency sample_core"
  by (rule every_new_order_is_contingent [OF sample_core_new])

end
