(* ===== verification/Order_Kinds.thy ===== *)
theory Order_Kinds
  imports Order_Lifecycle
begin

text \<open>
  The order types built on \<open>OrderCore\<close> (\<open>crates/model/src/orders\<close>: \<open>market.rs\<close>,
  \<open>limit.rs\<close>, \<open>stop_market.rs\<close>, \<open>stop_limit.rs\<close>, \<open>market_to_limit.rs\<close>,
  \<open>market_if_touched.rs\<close>, \<open>limit_if_touched.rs\<close>, \<open>trailing_stop_market.rs\<close>,
  \<open>trailing_stop_limit.rs\<close>): their constructors with the checks
  they make, \<open>update\<close> and \<open>apply\<close>.

  The arguments of a constructor are the header and the initialisation record of the event it
  builds, in which it fixes the order type and the fields the type does not have. An
  assertion of \<open>update\<close> that fails is a panic.

  What the types have in common is stated once, as the locale \<open>order_kind\<close>: applying an
  event applies it to the core, resizes the core when the event is an update, and at most sets
  the slippage on a fill. Each type interprets it.
\<close>

section \<open>Checks\<close>

definition check_display_qty :: "quantity option \<Rightarrow> quantity \<Rightarrow> order_error + unit" where
  "check_display_qty display_qty quantity =
     (case display_qty of
        Some q \<Rightarrow> if q_raw q > q_raw quantity then Inl DisplayQtyExceedsQuantity else Inr ()
      | None \<Rightarrow> Inr ())"

definition check_time_in_force :: "time_in_force \<Rightarrow> u64 option \<Rightarrow> order_error + unit" where
  "check_time_in_force tif expire_time =
     (if tif = Gtd \<and> (case expire_time of None \<Rightarrow> 0 | Some t \<Rightarrow> t) = 0 then Inl ExpireTimeRequired else Inr ())"

definition check_quantity :: "quantity \<Rightarrow> order_error + unit" where
  "check_quantity q = (case check_positive_quantity q of Inl e \<Rightarrow> Inl (QuantityNotPositive e) | Inr _ \<Rightarrow> Inr ())"

text \<open>The checks of a type that may expire and show a part of its quantity.\<close>

definition check_order :: "order_initialized \<Rightarrow> order_error + unit" where
  "check_order a =
     and_then (check_quantity (oi_quantity a)) (\<lambda>_.
     and_then (check_display_qty (oi_display_qty a) (oi_quantity a)) (\<lambda>_.
     check_time_in_force (oi_time_in_force a) (oi_expire_time a)))"

section \<open>Resizing\<close>

definition core_resize :: "'f order_core \<Rightarrow> quantity \<Rightarrow> 'f order_core" where
  "core_resize od quantity =
     od\<lparr>oc_quantity := quantity, oc_leaves_qty := quantity_saturating_sub quantity (oc_filled_qty od)\<rparr>"

section \<open>The event a constructor builds\<close>

text \<open>A constructor has the time of creation only, and gives the event that time too.\<close>

definition new_header :: "event_header \<Rightarrow> event_header" where
  "new_header h = h\<lparr>eh_ts_event := eh_ts_init h\<rparr>"

definition plain_init :: "order_initialized \<Rightarrow> order_initialized" where
  "plain_init a = a\<lparr>oi_reconciliation := False, oi_limit_offset := None, oi_trailing_offset := None,
     oi_trailing_offset_type := None\<rparr>"

section \<open>Market orders\<close>

record 'f market_order =
  mo_core :: "'f order_core"
  mo_protection_price :: "price option"

datatype market_error = MarketOrderError order_error | GtdNotSupported

definition market_new_checked :: "event_header \<Rightarrow> order_initialized \<Rightarrow> (market_error + 'f market_order) panics" where
  "market_new_checked h a =
     (case check_quantity (oi_quantity a) of
        Inl e \<Rightarrow> Some (Inl (MarketOrderError e))
      | Inr _ \<Rightarrow>
          if oi_time_in_force a = Gtd then Some (Inl GtdNotSupported)
          else map_option (\<lambda>c. Inr \<lparr>mo_core = c, mo_protection_price = None\<rparr>)
            (core_new (new_header h) (plain_init a\<lparr>oi_order_type := Market, oi_post_only := False, oi_price := None, oi_trigger_price := None,
               oi_trigger_type := Some NoTrigger, oi_expire_time := None, oi_display_qty := None,
               oi_emulation_trigger := None, oi_trigger_instrument_id := None\<rparr>)))"

definition market_update :: "'f market_order \<Rightarrow> order_updated \<Rightarrow> 'f market_order panics" where
  "market_update m u =
     (if ou_price u \<noteq> None \<or> ou_trigger_price u \<noteq> None then None
      else Some (m\<lparr>mo_protection_price := (case ou_protection_price u of Some p \<Rightarrow> Some p | None \<Rightarrow> mo_protection_price m),
                   mo_core := core_resize (mo_core m) (ou_quantity u)\<rparr>))"

definition market_apply ::
  "'f float_ops \<Rightarrow> 'f market_order \<Rightarrow> order_event \<Rightarrow> ((order_error + unit) \<times> 'f market_order) panics" where
  "market_apply fl m e = do {
     (r, c) \<leftarrow> core_apply fl (mo_core m) e;
     let m1 = m\<lparr>mo_core := c\<rparr>;
     (case r of
        Inl err \<Rightarrow> Some (Inl err, m1)
      | Inr _ \<Rightarrow> do {
          m2 \<leftarrow> (case e of Ev_Updated _ u \<Rightarrow> market_update m1 u | _ \<Rightarrow> Some m1);
          Some (Inr (), m2)
        })
   }"

section \<open>Limit orders\<close>

record 'f limit_order =
  lo_core :: "'f order_core"
  lo_price :: price
  lo_expire_time :: "u64 option"
  lo_is_post_only :: bool
  lo_display_qty :: "quantity option"
  lo_trigger_instrument_id :: "instrument_id option"

definition limit_new_checked :: "event_header \<Rightarrow> order_initialized \<Rightarrow> price \<Rightarrow> (order_error + 'f limit_order) panics" where
  "limit_new_checked h a price =
     (case check_order a of
        Inl e \<Rightarrow> Some (Inl e)
      | Inr _ \<Rightarrow> map_option (\<lambda>c. Inr \<lparr>lo_core = c, lo_price = price, lo_expire_time = oi_expire_time a,
            lo_is_post_only = oi_post_only a, lo_display_qty = oi_display_qty a,
            lo_trigger_instrument_id = oi_trigger_instrument_id a\<rparr>)
          (core_new (new_header h) (plain_init a\<lparr>oi_order_type := Limit, oi_price := Some price, oi_trigger_price := None, oi_trigger_type := None\<rparr>)))"

definition limit_update :: "'f limit_order \<Rightarrow> order_updated \<Rightarrow> 'f limit_order panics" where
  "limit_update l u =
     (if ou_trigger_price u \<noteq> None then None
      else Some (l\<lparr>lo_price := (case ou_price u of Some p \<Rightarrow> p | None \<Rightarrow> lo_price l),
                   lo_core := core_resize (lo_core l) (ou_quantity u)\<rparr>))"

definition limit_apply ::
  "'f float_ops \<Rightarrow> 'f limit_order \<Rightarrow> order_event \<Rightarrow> ((order_error + unit) \<times> 'f limit_order) panics" where
  "limit_apply fl l e = do {
     (r, c) \<leftarrow> core_apply fl (lo_core l) e;
     let l1 = l\<lparr>lo_core := c\<rparr>;
     (case r of
        Inl err \<Rightarrow> Some (Inl err, l1)
      | Inr _ \<Rightarrow> do {
          l2 \<leftarrow> (case e of Ev_Updated _ u \<Rightarrow> limit_update l1 u | _ \<Rightarrow> Some l1);
          let l3 = (if event_type e = T_Filled then l2\<lparr>lo_core := core_set_slippage fl (lo_core l2) (lo_price l2)\<rparr> else l2);
          Some (Inr (), l3)
        })
   }"

section \<open>Stop-market orders\<close>

record 'f stop_market_order =
  sm_trigger_price :: price
  sm_trigger_type :: trigger_type
  sm_expire_time :: "u64 option"
  sm_display_qty :: "quantity option"
  sm_trigger_instrument_id :: "instrument_id option"
  sm_is_triggered :: bool
  sm_ts_triggered :: "u64 option"
  sm_protection_price :: "price option"
  sm_core :: "'f order_core"

definition stop_market_new_checked ::
  "event_header \<Rightarrow> order_initialized \<Rightarrow> price \<Rightarrow> trigger_type \<Rightarrow> (order_error + 'f stop_market_order) panics" where
  "stop_market_new_checked h a trigger_price trigger =
     (case check_order a of
        Inl e \<Rightarrow> Some (Inl e)
      | Inr _ \<Rightarrow> map_option (\<lambda>c. Inr \<lparr>sm_trigger_price = trigger_price, sm_trigger_type = trigger,
            sm_expire_time = oi_expire_time a, sm_display_qty = oi_display_qty a,
            sm_trigger_instrument_id = oi_trigger_instrument_id a, sm_is_triggered = False, sm_ts_triggered = None,
            sm_protection_price = None, sm_core = c\<rparr>)
          (core_new (new_header h) (plain_init a\<lparr>oi_order_type := StopMarket, oi_post_only := False, oi_price := None,
             oi_trigger_price := Some trigger_price, oi_trigger_type := Some trigger\<rparr>)))"

definition stop_market_update :: "'f stop_market_order \<Rightarrow> order_updated \<Rightarrow> 'f stop_market_order panics" where
  "stop_market_update s u =
     (if ou_price u \<noteq> None then None
      else Some (s\<lparr>sm_trigger_price := (case ou_trigger_price u of Some p \<Rightarrow> p | None \<Rightarrow> sm_trigger_price s),
                   sm_protection_price := ou_protection_price u,
                   sm_core := core_resize (sm_core s) (ou_quantity u)\<rparr>))"

definition stop_market_apply ::
  "'f float_ops \<Rightarrow> 'f stop_market_order \<Rightarrow> order_event \<Rightarrow> ((order_error + unit) \<times> 'f stop_market_order) panics" where
  "stop_market_apply fl s e = do {
     (r, c) \<leftarrow> core_apply fl (sm_core s) e;
     let s1 = s\<lparr>sm_core := c\<rparr>;
     (case r of
        Inl err \<Rightarrow> Some (Inl err, s1)
      | Inr _ \<Rightarrow> do {
          s2 \<leftarrow> (case e of Ev_Updated _ u \<Rightarrow> stop_market_update s1 u | _ \<Rightarrow> Some s1);
          let s3 = (if event_type e = T_Triggered
                    then s2\<lparr>sm_is_triggered := True, sm_ts_triggered := Some (event_ts_event e)\<rparr> else s2);
          let s4 = (if event_type e = T_Filled
                    then s3\<lparr>sm_core := core_set_slippage fl (sm_core s3) (sm_trigger_price s3)\<rparr> else s3);
          Some (Inr (), s4)
        })
   }"

section \<open>Stop-limit orders\<close>

record 'f stop_limit_order =
  sl_price :: price
  sl_trigger_price :: price
  sl_trigger_type :: trigger_type
  sl_expire_time :: "u64 option"
  sl_is_post_only :: bool
  sl_display_qty :: "quantity option"
  sl_trigger_instrument_id :: "instrument_id option"
  sl_is_triggered :: bool
  sl_ts_triggered :: "u64 option"
  sl_core :: "'f order_core"

definition stop_limit_new_checked ::
  "event_header \<Rightarrow> order_initialized \<Rightarrow> price \<Rightarrow> price \<Rightarrow> trigger_type \<Rightarrow> (order_error + 'f stop_limit_order) panics" where
  "stop_limit_new_checked h a price trigger_price trigger =
     (case check_order a of
        Inl e \<Rightarrow> Some (Inl e)
      | Inr _ \<Rightarrow> map_option (\<lambda>c. Inr \<lparr>sl_price = price, sl_trigger_price = trigger_price, sl_trigger_type = trigger,
            sl_expire_time = oi_expire_time a, sl_is_post_only = oi_post_only a, sl_display_qty = oi_display_qty a,
            sl_trigger_instrument_id = oi_trigger_instrument_id a, sl_is_triggered = False, sl_ts_triggered = None,
            sl_core = c\<rparr>)
          (core_new (new_header h) (plain_init a\<lparr>oi_order_type := StopLimit, oi_price := Some price,
             oi_trigger_price := Some trigger_price, oi_trigger_type := Some trigger\<rparr>)))"

definition stop_limit_update :: "'f stop_limit_order \<Rightarrow> order_updated \<Rightarrow> 'f stop_limit_order panics" where
  "stop_limit_update s u =
     Some (s\<lparr>sl_price := (case ou_price u of Some p \<Rightarrow> p | None \<Rightarrow> sl_price s),
             sl_trigger_price := (case ou_trigger_price u of Some p \<Rightarrow> p | None \<Rightarrow> sl_trigger_price s),
             sl_core := core_resize (sl_core s) (ou_quantity u)\<rparr>)"

definition stop_limit_apply ::
  "'f float_ops \<Rightarrow> 'f stop_limit_order \<Rightarrow> order_event \<Rightarrow> ((order_error + unit) \<times> 'f stop_limit_order) panics" where
  "stop_limit_apply fl s e = do {
     (r, c) \<leftarrow> core_apply fl (sl_core s) e;
     let s1 = s\<lparr>sl_core := c\<rparr>;
     (case r of
        Inl err \<Rightarrow> Some (Inl err, s1)
      | Inr _ \<Rightarrow> do {
          s2 \<leftarrow> (case e of Ev_Updated _ u \<Rightarrow> stop_limit_update s1 u | _ \<Rightarrow> Some s1);
          let s3 = (if event_type e = T_Triggered
                    then s2\<lparr>sl_is_triggered := True, sl_ts_triggered := Some (event_ts_event e)\<rparr> else s2);
          let s4 = (if event_type e = T_Filled
                    then s3\<lparr>sl_core := core_set_slippage fl (sl_core s3) (sl_price s3)\<rparr> else s3);
          Some (Inr (), s4)
        })
   }"

section \<open>Market-to-limit orders\<close>

record 'f market_to_limit_order =
  ml_core :: "'f order_core"
  ml_price :: "price option"
  ml_expire_time :: "u64 option"
  ml_is_post_only :: bool
  ml_display_qty :: "quantity option"

definition market_to_limit_new_checked ::
  "event_header \<Rightarrow> order_initialized \<Rightarrow> (order_error + 'f market_to_limit_order) panics" where
  "market_to_limit_new_checked h a =
     (case check_order a of
        Inl e \<Rightarrow> Some (Inl e)
      | Inr _ \<Rightarrow> map_option (\<lambda>c. Inr \<lparr>ml_core = c, ml_price = None, ml_expire_time = oi_expire_time a,
            ml_is_post_only = oi_post_only a, ml_display_qty = oi_display_qty a\<rparr>)
          (core_new (new_header h) (plain_init a\<lparr>oi_order_type := MarketToLimit, oi_price := None, oi_trigger_price := None,
             oi_trigger_type := None, oi_emulation_trigger := Some NoTrigger, oi_trigger_instrument_id := None\<rparr>)))"

definition market_to_limit_update :: "'f market_to_limit_order \<Rightarrow> order_updated \<Rightarrow> 'f market_to_limit_order panics" where
  "market_to_limit_update m u =
     (if ou_trigger_price u \<noteq> None then None
      else Some (m\<lparr>ml_price := (case ou_price u of Some p \<Rightarrow> Some p | None \<Rightarrow> ml_price m),
                   ml_core := core_resize (ml_core m) (ou_quantity u)\<rparr>))"

definition market_to_limit_apply ::
  "'f float_ops \<Rightarrow> 'f market_to_limit_order \<Rightarrow> order_event \<Rightarrow> ((order_error + unit) \<times> 'f market_to_limit_order) panics" where
  "market_to_limit_apply fl m e = do {
     (r, c) \<leftarrow> core_apply fl (ml_core m) e;
     let m1 = m\<lparr>ml_core := c\<rparr>;
     (case r of
        Inl err \<Rightarrow> Some (Inl err, m1)
      | Inr _ \<Rightarrow> do {
          m2 \<leftarrow> (case e of Ev_Updated _ u \<Rightarrow> market_to_limit_update m1 u | _ \<Rightarrow> Some m1);
          let m3 = (case ml_price m2 of
              Some p \<Rightarrow> if event_type e = T_Filled then m2\<lparr>ml_core := core_set_slippage fl (ml_core m2) p\<rparr> else m2
            | None \<Rightarrow> m2);
          Some (Inr (), m3)
        })
   }"

section \<open>Market-if-touched orders\<close>

record 'f market_if_touched_order =
  mt_trigger_price :: price
  mt_trigger_type :: trigger_type
  mt_expire_time :: "u64 option"
  mt_trigger_instrument_id :: "instrument_id option"
  mt_is_triggered :: bool
  mt_ts_triggered :: "u64 option"
  mt_core :: "'f order_core"

definition market_if_touched_new_checked ::
  "event_header \<Rightarrow> order_initialized \<Rightarrow> price \<Rightarrow> trigger_type \<Rightarrow> (order_error + 'f market_if_touched_order) panics" where
  "market_if_touched_new_checked h a trigger_price trigger =
     (case and_then (check_quantity (oi_quantity a)) (\<lambda>_. check_time_in_force (oi_time_in_force a) (oi_expire_time a)) of
        Inl e \<Rightarrow> Some (Inl e)
      | Inr _ \<Rightarrow> map_option (\<lambda>c. Inr \<lparr>mt_trigger_price = trigger_price, mt_trigger_type = trigger,
            mt_expire_time = oi_expire_time a, mt_trigger_instrument_id = oi_trigger_instrument_id a,
            mt_is_triggered = False, mt_ts_triggered = None, mt_core = c\<rparr>)
          (core_new (new_header h) (plain_init a\<lparr>oi_order_type := MarketIfTouched, oi_post_only := False, oi_price := None,
             oi_trigger_price := Some trigger_price, oi_trigger_type := Some trigger, oi_display_qty := None\<rparr>)))"

definition market_if_touched_update :: "'f market_if_touched_order \<Rightarrow> order_updated \<Rightarrow> 'f market_if_touched_order panics" where
  "market_if_touched_update s u =
     (if ou_price u \<noteq> None then None
      else Some (s\<lparr>mt_trigger_price := (case ou_trigger_price u of Some p \<Rightarrow> p | None \<Rightarrow> mt_trigger_price s),
                   mt_core := core_resize (mt_core s) (ou_quantity u)\<rparr>))"

definition market_if_touched_apply ::
  "'f float_ops \<Rightarrow> 'f market_if_touched_order \<Rightarrow> order_event \<Rightarrow>
   ((order_error + unit) \<times> 'f market_if_touched_order) panics" where
  "market_if_touched_apply fl s e = do {
     (r, c) \<leftarrow> core_apply fl (mt_core s) e;
     let s1 = s\<lparr>mt_core := c\<rparr>;
     (case r of
        Inl err \<Rightarrow> Some (Inl err, s1)
      | Inr _ \<Rightarrow> do {
          s2 \<leftarrow> (case e of Ev_Updated _ u \<Rightarrow> market_if_touched_update s1 u | _ \<Rightarrow> Some s1);
          let s3 = (if event_type e = T_Triggered
                    then s2\<lparr>mt_is_triggered := True, mt_ts_triggered := Some (event_ts_event e)\<rparr> else s2);
          let s4 = (if event_type e = T_Filled
                    then s3\<lparr>mt_core := core_set_slippage fl (mt_core s3) (mt_trigger_price s3)\<rparr> else s3);
          Some (Inr (), s4)
        })
   }"

section \<open>Limit-if-touched orders\<close>

record 'f limit_if_touched_order =
  lt_price :: price
  lt_trigger_price :: price
  lt_trigger_type :: trigger_type
  lt_expire_time :: "u64 option"
  lt_is_post_only :: bool
  lt_display_qty :: "quantity option"
  lt_trigger_instrument_id :: "instrument_id option"
  lt_is_triggered :: bool
  lt_ts_triggered :: "u64 option"
  lt_core :: "'f order_core"

datatype limit_if_touched_error = LimitIfTouchedOrderError order_error | BuyTriggerAbovePrice | SellTriggerBelowPrice

definition limit_if_touched_new_checked ::
  "event_header \<Rightarrow> order_initialized \<Rightarrow> price \<Rightarrow> price \<Rightarrow> trigger_type \<Rightarrow>
   (limit_if_touched_error + 'f limit_if_touched_order) panics" where
  "limit_if_touched_new_checked h a price trigger_price trigger =
     (case check_order a of
        Inl e \<Rightarrow> Some (Inl (LimitIfTouchedOrderError e))
      | Inr _ \<Rightarrow>
          if oi_order_side a = Buy \<and> p_raw trigger_price > p_raw price then Some (Inl BuyTriggerAbovePrice)
          else if oi_order_side a = Sell \<and> p_raw trigger_price < p_raw price then Some (Inl SellTriggerBelowPrice)
          else map_option (\<lambda>c. Inr \<lparr>lt_price = price, lt_trigger_price = trigger_price, lt_trigger_type = trigger,
              lt_expire_time = oi_expire_time a, lt_is_post_only = oi_post_only a, lt_display_qty = oi_display_qty a,
              lt_trigger_instrument_id = oi_trigger_instrument_id a, lt_is_triggered = False, lt_ts_triggered = None,
              lt_core = c\<rparr>)
            (core_new (new_header h) (plain_init a\<lparr>oi_order_type := LimitIfTouched, oi_price := Some price,
               oi_trigger_price := Some trigger_price, oi_trigger_type := Some trigger\<rparr>)))"

definition limit_if_touched_update :: "'f limit_if_touched_order \<Rightarrow> order_updated \<Rightarrow> 'f limit_if_touched_order panics" where
  "limit_if_touched_update s u =
     Some (s\<lparr>lt_price := (case ou_price u of Some p \<Rightarrow> p | None \<Rightarrow> lt_price s),
             lt_trigger_price := (case ou_trigger_price u of Some p \<Rightarrow> p | None \<Rightarrow> lt_trigger_price s),
             lt_core := core_resize (lt_core s) (ou_quantity u)\<rparr>)"

definition limit_if_touched_apply ::
  "'f float_ops \<Rightarrow> 'f limit_if_touched_order \<Rightarrow> order_event \<Rightarrow>
   ((order_error + unit) \<times> 'f limit_if_touched_order) panics" where
  "limit_if_touched_apply fl s e = do {
     (r, c) \<leftarrow> core_apply fl (lt_core s) e;
     let s1 = s\<lparr>lt_core := c\<rparr>;
     (case r of
        Inl err \<Rightarrow> Some (Inl err, s1)
      | Inr _ \<Rightarrow> do {
          s2 \<leftarrow> (case e of Ev_Updated _ u \<Rightarrow> limit_if_touched_update s1 u | _ \<Rightarrow> Some s1);
          let s3 = (if event_type e = T_Triggered
                    then s2\<lparr>lt_is_triggered := True, lt_ts_triggered := Some (event_ts_event e)\<rparr> else s2);
          let s4 = (if event_type e = T_Filled
                    then s3\<lparr>lt_core := core_set_slippage fl (lt_core s3) (lt_price s3)\<rparr> else s3);
          Some (Inr (), s4)
        })
   }"

section \<open>Trailing stop orders\<close>

record 'f trailing_stop_market_order =
  tm_core :: "'f order_core"
  tm_activation_price :: "price option"
  tm_trigger_price :: price
  tm_trigger_type :: trigger_type
  tm_trailing_offset :: decimal
  tm_trailing_offset_type :: trailing_offset_type
  tm_expire_time :: "u64 option"
  tm_display_qty :: "quantity option"
  tm_trigger_instrument_id :: "instrument_id option"
  tm_is_activated :: bool
  tm_is_triggered :: bool
  tm_ts_triggered :: "u64 option"

definition trailing_stop_market_new_checked ::
  "event_header \<Rightarrow> order_initialized \<Rightarrow> price \<Rightarrow> trigger_type \<Rightarrow> decimal \<Rightarrow> trailing_offset_type \<Rightarrow>
   (order_error + 'f trailing_stop_market_order) panics" where
  "trailing_stop_market_new_checked h a trigger_price trigger offset offset_type =
     (case check_order a of
        Inl e \<Rightarrow> Some (Inl e)
      | Inr _ \<Rightarrow> map_option (\<lambda>c. Inr \<lparr>tm_core = c, tm_activation_price = None, tm_trigger_price = trigger_price,
            tm_trigger_type = trigger, tm_trailing_offset = offset, tm_trailing_offset_type = offset_type,
            tm_expire_time = oi_expire_time a, tm_display_qty = oi_display_qty a,
            tm_trigger_instrument_id = oi_trigger_instrument_id a, tm_is_activated = False, tm_is_triggered = False,
            tm_ts_triggered = None\<rparr>)
          (core_new (new_header h) (a\<lparr>oi_order_type := TrailingStopMarket, oi_post_only := False, oi_price := None,
             oi_reconciliation := False, oi_trigger_price := Some trigger_price, oi_trigger_type := Some trigger,
             oi_limit_offset := None, oi_trailing_offset := Some offset, oi_trailing_offset_type := Some offset_type\<rparr>)))"

definition trailing_stop_market_update ::
  "'f trailing_stop_market_order \<Rightarrow> order_updated \<Rightarrow> 'f trailing_stop_market_order panics" where
  "trailing_stop_market_update s u =
     (if ou_price u \<noteq> None then None
      else Some (s\<lparr>tm_trigger_price := (case ou_trigger_price u of Some p \<Rightarrow> p | None \<Rightarrow> tm_trigger_price s),
                   tm_core := core_resize (tm_core s) (ou_quantity u)\<rparr>))"

definition trailing_stop_market_apply ::
  "'f float_ops \<Rightarrow> 'f trailing_stop_market_order \<Rightarrow> order_event \<Rightarrow>
   ((order_error + unit) \<times> 'f trailing_stop_market_order) panics" where
  "trailing_stop_market_apply fl s e = do {
     (r, c) \<leftarrow> core_apply fl (tm_core s) e;
     let s1 = s\<lparr>tm_core := c\<rparr>;
     (case r of
        Inl err \<Rightarrow> Some (Inl err, s1)
      | Inr _ \<Rightarrow> do {
          s2 \<leftarrow> (case e of Ev_Updated _ u \<Rightarrow> trailing_stop_market_update s1 u | _ \<Rightarrow> Some s1);
          let s3 = (if event_type e = T_Triggered
                    then s2\<lparr>tm_is_triggered := True, tm_ts_triggered := Some (event_ts_event e)\<rparr> else s2);
          let s4 = (if event_type e = T_Filled
                    then s3\<lparr>tm_core := core_set_slippage fl (tm_core s3) (tm_trigger_price s3)\<rparr> else s3);
          Some (Inr (), s4)
        })
   }"

record 'f trailing_stop_limit_order =
  tl_core :: "'f order_core"
  tl_activation_price :: "price option"
  tl_price :: price
  tl_trigger_price :: price
  tl_trigger_type :: trigger_type
  tl_limit_offset :: decimal
  tl_trailing_offset :: decimal
  tl_trailing_offset_type :: trailing_offset_type
  tl_expire_time :: "u64 option"
  tl_is_post_only :: bool
  tl_display_qty :: "quantity option"
  tl_trigger_instrument_id :: "instrument_id option"
  tl_is_activated :: bool
  tl_is_triggered :: bool
  tl_ts_triggered :: "u64 option"

definition trailing_stop_limit_new_checked ::
  "event_header \<Rightarrow> order_initialized \<Rightarrow> price \<Rightarrow> price \<Rightarrow> trigger_type \<Rightarrow> decimal \<Rightarrow> decimal \<Rightarrow> trailing_offset_type \<Rightarrow>
   (order_error + 'f trailing_stop_limit_order) panics" where
  "trailing_stop_limit_new_checked h a price trigger_price trigger limit_offset offset offset_type =
     (case check_order a of
        Inl e \<Rightarrow> Some (Inl e)
      | Inr _ \<Rightarrow> map_option (\<lambda>c. Inr \<lparr>tl_core = c, tl_activation_price = None, tl_price = price,
            tl_trigger_price = trigger_price, tl_trigger_type = trigger, tl_limit_offset = limit_offset,
            tl_trailing_offset = offset, tl_trailing_offset_type = offset_type, tl_expire_time = oi_expire_time a,
            tl_is_post_only = oi_post_only a, tl_display_qty = oi_display_qty a,
            tl_trigger_instrument_id = oi_trigger_instrument_id a, tl_is_activated = False, tl_is_triggered = False,
            tl_ts_triggered = None\<rparr>)
          (core_new (new_header h) (a\<lparr>oi_order_type := TrailingStopLimit, oi_price := Some price,
             oi_reconciliation := False, oi_trigger_price := Some trigger_price, oi_trigger_type := Some trigger,
             oi_limit_offset := Some limit_offset, oi_trailing_offset := Some offset,
             oi_trailing_offset_type := Some offset_type\<rparr>)))"

definition trailing_stop_limit_update ::
  "'f trailing_stop_limit_order \<Rightarrow> order_updated \<Rightarrow> 'f trailing_stop_limit_order panics" where
  "trailing_stop_limit_update s u =
     Some (s\<lparr>tl_price := (case ou_price u of Some p \<Rightarrow> p | None \<Rightarrow> tl_price s),
             tl_trigger_price := (case ou_trigger_price u of Some p \<Rightarrow> p | None \<Rightarrow> tl_trigger_price s),
             tl_core := core_resize (tl_core s) (ou_quantity u)\<rparr>)"

definition trailing_stop_limit_apply ::
  "'f float_ops \<Rightarrow> 'f trailing_stop_limit_order \<Rightarrow> order_event \<Rightarrow>
   ((order_error + unit) \<times> 'f trailing_stop_limit_order) panics" where
  "trailing_stop_limit_apply fl s e = do {
     (r, c) \<leftarrow> core_apply fl (tl_core s) e;
     let s1 = s\<lparr>tl_core := c\<rparr>;
     (case r of
        Inl err \<Rightarrow> Some (Inl err, s1)
      | Inr _ \<Rightarrow> do {
          s2 \<leftarrow> (case e of Ev_Updated _ u \<Rightarrow> trailing_stop_limit_update s1 u | _ \<Rightarrow> Some s1);
          let s3 = (if event_type e = T_Triggered
                    then s2\<lparr>tl_is_triggered := True, tl_ts_triggered := Some (event_ts_event e)\<rparr> else s2);
          let s4 = (if event_type e = T_Filled
                    then s3\<lparr>tl_core := core_set_slippage fl (tl_core s3) (tl_price s3)\<rparr> else s3);
          Some (Inr (), s4)
        })
   }"

section \<open>Quantities under updates\<close>

text \<open>The part of the invariant that does not depend on the order quantity staying the same.\<close>

definition qty_inv :: "'f order_core \<Rightarrow> bool" where
  "qty_inv od \<longleftrightarrow> q_raw (oc_quantity od) \<le> u128_max \<and>
     q_raw (oc_filled_qty od) = min (fill_total od) u128_max \<and>
     q_raw (oc_leaves_qty od) = q_raw (oc_quantity od) - q_raw (oc_filled_qty od) \<and>
     oc_trade_ids od = map of_trade_id (fills od) \<and> distinct (map of_trade_id (fills od))"

lemma core_inv_qty: "core_inv od \<Longrightarrow> qty_inv od"
  using core_invD [of od] by (simp add: qty_inv_def)

lemma qty_inv_cong:
  assumes "qty_inv od" and "oc_quantity od' = oc_quantity od" and "oc_filled_qty od' = oc_filled_qty od"
    and "oc_leaves_qty od' = oc_leaves_qty od" and "oc_trade_ids od' = oc_trade_ids od" and "fills od' = fills od"
  shows "qty_inv od'"
  using assms by (simp add: qty_inv_def fill_total_def)

lemma qty_inv_apply:
  assumes inv: "qty_inv od" and "core_apply fl od e = Some (r, od')"
  shows "qty_inv od'"
  using assms(2)
proof (cases rule: core_apply_cases)
  case (refused err)
  then show ?thesis by (auto simp: refused_def fills_def intro: qty_inv_cong [OF inv])
next
  case (accepted s o2)
  show ?thesis
  proof (cases "fill_of e")
    case None
    note fr = core_handle_frame [OF None accepted(3)]
    have "fills od' = fills od"
      using fr(2) None accepted(4) by (simp add: fills_log) (simp add: fills_def with_previous_fields)
    then show ?thesis using fr(1) accepted(4)
      by (intro qty_inv_cong [OF inv]) (simp_all add: same_quantities_def log_event_frame with_previous_fields)
  next
    case (Some f)
    then obtain eh where e: "e = Ev_Filled eh f" by (cases e) auto
    obtain ts where h: "core_filled fl ((with_previous od e)\<lparr>oc_status := s\<rparr>) f ts = Some o2"
      using accepted(3) e by (auto simp: core_handle_def)
    note fr = core_filled_facts [OF h]
    have q: "q_raw (oc_filled_qty o2) = saturating_add_u128 (q_raw (oc_filled_qty od)) (q_raw (of_last_qty f))"
      "oc_quantity o2 = oc_quantity od" "q_raw (oc_leaves_qty o2) = q_raw (oc_leaves_qty od) - q_raw (of_last_qty f)"
      "oc_trade_ids o2 = oc_trade_ids od @ [of_trade_id f]"
      using fr(1-4) by (simp_all add: with_previous_fields)
    have fl: "fills od' = fills od @ [f]"
      using fr(5) accepted(4) Some by (simp add: fills_log) (simp add: fills_def with_previous_fields)
    have "q_raw (oc_leaves_qty o2) = q_raw (oc_quantity od) - q_raw (oc_filled_qty o2)"
      using inv q(1,3) unfolding qty_inv_def saturating_add_u128_def by linarith
    then show ?thesis using inv q fl accepted(4,5) Some
      by (simp add: qty_inv_def log_event_frame fill_total_def saturating_add_u128_min)
  qed
qed

lemma core_resize_frame:
  "oc_events (core_resize od q) = oc_events od" "oc_filled_qty (core_resize od q) = oc_filled_qty od"
  "oc_trade_ids (core_resize od q) = oc_trade_ids od" "oc_quantity (core_resize od q) = q"
  "q_raw (oc_leaves_qty (core_resize od q)) = q_raw q - q_raw (oc_filled_qty od)"
  by (simp_all add: core_resize_def quantity_saturating_sub_def)

lemma qty_inv_resize: "qty_inv od \<Longrightarrow> q_raw q \<le> u128_max \<Longrightarrow> qty_inv (core_resize od q)"
  by (simp add: qty_inv_def core_resize_frame fill_total_def fills_def)

text \<open>The quantity of an update is a \<open>u128\<close>.\<close>

definition event_in_range :: "order_event \<Rightarrow> bool" where
  "event_in_range e = (case e of Ev_Updated _ u \<Rightarrow> q_raw (ou_quantity u) \<le> u128_max | _ \<Rightarrow> True)"

definition resized :: "order_event \<Rightarrow> 'f order_core \<Rightarrow> 'f order_core" where
  "resized e c = (case e of Ev_Updated _ u \<Rightarrow> core_resize c (ou_quantity u) | _ \<Rightarrow> c)"

lemma qty_inv_resized: "qty_inv c \<Longrightarrow> event_in_range e \<Longrightarrow> qty_inv (resized e c)"
  by (simp add: resized_def event_in_range_def qty_inv_resize split: order_event.splits)

section \<open>What the order types have in common\<close>

definition slipped :: "'f order_core \<Rightarrow> 'f order_core \<Rightarrow> bool" where
  "slipped c d \<longleftrightarrow> (\<exists>sl. d = c\<lparr>oc_slippage := sl\<rparr>)"

lemma slipped_refl: "slipped c c"
  unfolding slipped_def by (rule exI [of _ "oc_slippage c"]) simp

lemma slipped_set: "slipped c (core_set_slippage fl c p)"
  unfolding slipped_def core_set_slippage_def by blast

lemma resized_slipped_events:
  assumes "slipped (resized e c) d"
  shows "oc_events d = oc_events c"
proof -
  obtain sl where "d = (resized e c)\<lparr>oc_slippage := sl\<rparr>" using assms unfolding slipped_def by blast
  then show ?thesis by (cases e) (simp_all add: resized_def core_resize_frame)
qed

lemma qty_inv_slipped:
  assumes "qty_inv c" and "slipped c d"
  shows "qty_inv d"
proof -
  obtain sl where "d = c\<lparr>oc_slippage := sl\<rparr>" using assms(2) unfolding slipped_def by blast
  then show ?thesis by (intro qty_inv_cong [OF assms(1)]) (simp_all add: fills_def)
qed

locale order_kind =
  fixes core :: "'o \<Rightarrow> 'f order_core"
    and apply_event :: "'f float_ops \<Rightarrow> 'o \<Rightarrow> order_event \<Rightarrow> ((order_error + unit) \<times> 'o) option"
  assumes refused_core: "apply_event fl x e = Some (Inl err, y) \<Longrightarrow> core_apply fl (core x) e = Some (Inl err, core y)"
    and accepted_core: "apply_event fl x e = Some (Inr (), y) \<Longrightarrow>
      \<exists>c. core_apply fl (core x) e = Some (Inr (), c) \<and> slipped (resized e c) (core y)"
begin

lemma step_core:
  assumes "apply_event fl x e = Some (r, y)"
  shows "\<exists>c. core_apply fl (core x) e = Some (r, c) \<and>
    (case r of Inl _ \<Rightarrow> core y = c | Inr _ \<Rightarrow> slipped (resized e c) (core y))"
proof (cases r)
  case (Inl err)
  then show ?thesis using refused_core assms by simp
next
  case (Inr u)
  then have "apply_event fl x e = Some (Inr (), y)" using assms by simp
  from accepted_core [OF this] show ?thesis using Inr by auto
qed

lemma step_qty_inv:
  assumes "qty_inv (core x)" and "event_in_range e" and "apply_event fl x e = Some (r, y)"
  shows "qty_inv (core y)"
proof -
  obtain c where c: "core_apply fl (core x) e = Some (r, c)"
    "case r of Inl _ \<Rightarrow> core y = c | Inr _ \<Rightarrow> slipped (resized e c) (core y)"
    using step_core [OF assms(3)] by blast
  have q: "qty_inv c" using qty_inv_apply [OF assms(1) c(1)] .
  then show ?thesis
    using c(2) qty_inv_slipped [OF qty_inv_resized [OF q assms(2)]] by (cases r) simp_all
qed

lemma accepted_log:
  assumes "apply_event fl x e = Some (Inr (), y)"
  shows "oc_events (core y) = oc_events (core x) @ [e]"
proof -
  obtain c where c: "core_apply fl (core x) e = Some (Inr (), c)" "slipped (resized e c) (core y)"
    using accepted_core [OF assms] by blast
  show ?thesis using accepted_events [OF c(1)] resized_slipped_events [OF c(2)] by simp
qed

text \<open>Any stream of events, accepted or refused.\<close>

lemma run_qty_inv:
  assumes "fold_opt (\<lambda>e x. map_option snd (apply_event fl x e)) es x0 = Some x" and "qty_inv (core x0)"
    and "\<forall>e \<in> set es. event_in_range e"
  shows "qty_inv (core x)"
  using assms(1,2)
proof (rule fold_opt_invariant)
  show "qty_inv (core t)" if "e \<in> set es" "qty_inv (core s)" "map_option snd (apply_event fl s e) = Some t" for e s t
    using that assms(3) step_qty_inv [of s e fl _ t] by auto
qed

end

lemma new_qty_inv: "core_new h a = Some c \<Longrightarrow> q_raw (oi_quantity a) \<le> u128_max \<Longrightarrow> qty_inv c"
  by (rule core_inv_qty [OF core_inv_new])

lemma bind_result:
  "Option.bind ca (\<lambda>(r, c). case r of Inl err \<Rightarrow> f err c | Inr _ \<Rightarrow> g c) = Some z \<longleftrightarrow>
     (\<exists>err c. ca = Some (Inl err, c) \<and> f err c = Some z) \<or> (\<exists>c. ca = Some (Inr (), c) \<and> g c = Some z)"
proof (cases ca)
  case (Some rc)
  obtain r c where "rc = (r, c)" by (cases rc)
  then show ?thesis using Some by (cases r) auto
qed simp

text \<open>
  The shape every \<open>apply\<close> has: the core first, then \<open>update\<close> on an update event, then what the
  type adds (\<open>fin\<close>), which leaves the core alone but for its slippage.
\<close>

lemma order_kindI:
  fixes core :: "'o \<Rightarrow> 'f order_core"
    and step :: "'f float_ops \<Rightarrow> 'o \<Rightarrow> order_event \<Rightarrow> ((order_error + unit) \<times> 'o) option"
    and fin :: "'f float_ops \<Rightarrow> order_event \<Rightarrow> 'o \<Rightarrow> 'o"
  assumes shape: "\<And>fl x e. step fl x e = Option.bind (core_apply fl (core x) e) (\<lambda>(r, c).
      case r of Inl err \<Rightarrow> Some (Inl err, put c x)
      | Inr _ \<Rightarrow> Option.bind (case e of Ev_Updated _ u \<Rightarrow> upd (put c x) u | _ \<Rightarrow> Some (put c x))
          (\<lambda>x2. Some (Inr (), fin fl e x2)))"
    and put: "\<And>c x. core (put c x) = c"
    and upd: "\<And>x u y. upd x u = Some y \<Longrightarrow> core y = core_resize (core x) (ou_quantity u)"
    and fin: "\<And>fl e x. slipped (core x) (core (fin fl e x))"
  shows "order_kind core step"
proof
  fix fl x e err y
  assume "step fl x e = Some (Inl err, y)"
  then obtain c where "core_apply fl (core x) e = Some (Inl err, c)" "y = put c x"
    unfolding shape bind_result by (auto simp: bind_Some_conv)
  then show "core_apply fl (core x) e = Some (Inl err, core y)" by (simp add: put)
next
  fix fl x e y
  assume "step fl x e = Some (Inr (), y)"
  then obtain c x2 where c: "core_apply fl (core x) e = Some (Inr (), c)" "y = fin fl e x2"
    and x2: "(case e of Ev_Updated _ u \<Rightarrow> upd (put c x) u | _ \<Rightarrow> Some (put c x)) = Some x2"
    unfolding shape bind_result by (auto simp: bind_Some_conv)
  have "core x2 = resized e c"
    using x2 upd put by (cases e) (auto simp: resized_def)
  with fin [of x2 fl e] c show "\<exists>c. core_apply fl (core x) e = Some (Inr (), c) \<and> slipped (resized e c) (core y)"
    by auto
qed

interpretation market: order_kind mo_core market_apply
proof (rule order_kindI [where put = "\<lambda>c x. x\<lparr>mo_core := c\<rparr>" and upd = market_update
    and fin = "\<lambda>fl e m. m"], goal_cases)
  case 1
  show ?case by (simp only: market_apply_def Let_def)
next
  case (4 fl e x)
  show ?case by (simp add: Let_def slipped_refl slipped_set split: option.split)
qed (auto simp: market_update_def split: if_splits option.splits)

interpretation limit: order_kind lo_core limit_apply
proof (rule order_kindI [where put = "\<lambda>c x. x\<lparr>lo_core := c\<rparr>" and upd = limit_update
    and fin = "\<lambda>fl e l. if event_type e = T_Filled then l\<lparr>lo_core := core_set_slippage fl (lo_core l) (lo_price l)\<rparr> else l"], goal_cases)
  case 1
  show ?case by (simp only: limit_apply_def Let_def)
next
  case (4 fl e x)
  show ?case by (simp add: Let_def slipped_refl slipped_set split: option.split)
qed (auto simp: limit_update_def split: if_splits option.splits)

interpretation stop_market: order_kind sm_core stop_market_apply
proof (rule order_kindI [where put = "\<lambda>c x. x\<lparr>sm_core := c\<rparr>" and upd = stop_market_update
    and fin = "\<lambda>fl e s. let s3 = (if event_type e = T_Triggered
      then s\<lparr>sm_is_triggered := True, sm_ts_triggered := Some (event_ts_event e)\<rparr> else s) in
      if event_type e = T_Filled then s3\<lparr>sm_core := core_set_slippage fl (sm_core s3) (sm_trigger_price s3)\<rparr> else s3"], goal_cases)
  case 1
  show ?case by (simp only: stop_market_apply_def Let_def)
next
  case (4 fl e x)
  show ?case by (simp add: Let_def slipped_refl slipped_set split: option.split)
qed (auto simp: stop_market_update_def split: if_splits option.splits)

interpretation stop_limit: order_kind sl_core stop_limit_apply
proof (rule order_kindI [where put = "\<lambda>c x. x\<lparr>sl_core := c\<rparr>" and upd = stop_limit_update
    and fin = "\<lambda>fl e s. let s3 = (if event_type e = T_Triggered
      then s\<lparr>sl_is_triggered := True, sl_ts_triggered := Some (event_ts_event e)\<rparr> else s) in
      if event_type e = T_Filled then s3\<lparr>sl_core := core_set_slippage fl (sl_core s3) (sl_price s3)\<rparr> else s3"], goal_cases)
  case 1
  show ?case by (simp only: stop_limit_apply_def Let_def)
next
  case (4 fl e x)
  show ?case by (simp add: Let_def slipped_refl slipped_set split: option.split)
qed (auto simp: stop_limit_update_def split: if_splits option.splits)

interpretation market_to_limit: order_kind ml_core market_to_limit_apply
proof (rule order_kindI [where put = "\<lambda>c x. x\<lparr>ml_core := c\<rparr>" and upd = market_to_limit_update
    and fin = "\<lambda>fl e m. case ml_price m of
      Some p \<Rightarrow> if event_type e = T_Filled then m\<lparr>ml_core := core_set_slippage fl (ml_core m) p\<rparr> else m
    | None \<Rightarrow> m"], goal_cases)
  case 1
  show ?case by (simp only: market_to_limit_apply_def Let_def)
next
  case (4 fl e x)
  show ?case by (simp add: Let_def slipped_refl slipped_set split: option.split)
qed (auto simp: market_to_limit_update_def split: if_splits option.splits)

interpretation market_if_touched: order_kind mt_core market_if_touched_apply
proof (rule order_kindI [where put = "\<lambda>c x. x\<lparr>mt_core := c\<rparr>" and upd = market_if_touched_update
    and fin = "\<lambda>fl e s. let s3 = (if event_type e = T_Triggered
      then s\<lparr>mt_is_triggered := True, mt_ts_triggered := Some (event_ts_event e)\<rparr> else s) in
      if event_type e = T_Filled then s3\<lparr>mt_core := core_set_slippage fl (mt_core s3) (mt_trigger_price s3)\<rparr> else s3"], goal_cases)
  case 1
  show ?case by (simp only: market_if_touched_apply_def Let_def)
next
  case (4 fl e x)
  show ?case by (simp add: Let_def slipped_refl slipped_set split: option.split)
qed (auto simp: market_if_touched_update_def split: if_splits option.splits)

interpretation limit_if_touched: order_kind lt_core limit_if_touched_apply
proof (rule order_kindI [where put = "\<lambda>c x. x\<lparr>lt_core := c\<rparr>" and upd = limit_if_touched_update
    and fin = "\<lambda>fl e s. let s3 = (if event_type e = T_Triggered
      then s\<lparr>lt_is_triggered := True, lt_ts_triggered := Some (event_ts_event e)\<rparr> else s) in
      if event_type e = T_Filled then s3\<lparr>lt_core := core_set_slippage fl (lt_core s3) (lt_price s3)\<rparr> else s3"], goal_cases)
  case 1
  show ?case by (simp only: limit_if_touched_apply_def Let_def)
next
  case (4 fl e x)
  show ?case by (simp add: Let_def slipped_refl slipped_set split: option.split)
qed (auto simp: limit_if_touched_update_def split: if_splits option.splits)

interpretation trailing_stop_market: order_kind tm_core trailing_stop_market_apply
proof (rule order_kindI [where put = "\<lambda>c x. x\<lparr>tm_core := c\<rparr>" and upd = trailing_stop_market_update
    and fin = "\<lambda>fl e s. let s3 = (if event_type e = T_Triggered
      then s\<lparr>tm_is_triggered := True, tm_ts_triggered := Some (event_ts_event e)\<rparr> else s) in
      if event_type e = T_Filled then s3\<lparr>tm_core := core_set_slippage fl (tm_core s3) (tm_trigger_price s3)\<rparr> else s3"], goal_cases)
  case 1
  show ?case by (simp only: trailing_stop_market_apply_def Let_def)
next
  case (4 fl e x)
  show ?case by (simp add: Let_def slipped_refl slipped_set split: option.split)
qed (auto simp: trailing_stop_market_update_def split: if_splits option.splits)

interpretation trailing_stop_limit: order_kind tl_core trailing_stop_limit_apply
proof (rule order_kindI [where put = "\<lambda>c x. x\<lparr>tl_core := c\<rparr>" and upd = trailing_stop_limit_update
    and fin = "\<lambda>fl e s. let s3 = (if event_type e = T_Triggered
      then s\<lparr>tl_is_triggered := True, tl_ts_triggered := Some (event_ts_event e)\<rparr> else s) in
      if event_type e = T_Filled then s3\<lparr>tl_core := core_set_slippage fl (tl_core s3) (tl_price s3)\<rparr> else s3"], goal_cases)
  case 1
  show ?case by (simp only: trailing_stop_limit_apply_def Let_def)
next
  case (4 fl e x)
  show ?case by (simp add: Let_def slipped_refl slipped_set split: option.split)
qed (auto simp: trailing_stop_limit_update_def split: if_splits option.splits)

end
