(* ===== verification/Order_Any.thy ===== *)
theory Order_Any
  imports Order_Kinds
begin

text \<open>
  Orders of any type (\<open>crates/model/src/orders/any.rs\<close>, and the conversions from
  \<open>OrderInitialized\<close> in \<open>events/order/initialized.rs\<close> and in the file of each type): the tagged
  union \<open>OrderAny\<close>, how it is made from an initialisation event and from an event log, the
  dispatch of \<open>apply\<close>, and the narrower unions of the orders with a limit price, of the orders
  with a trigger price and of the passive orders.

  The properties: an order of any type made from a log of events has the checked arguments of
  its constructor, its quantities agree with its fills through updates of the quantity,
  its own log makes the same order again, and the narrower unions
  convert back to what they came from.
\<close>

section \<open>From initialisation events\<close>

text \<open>\<open>new\<close> is \<open>new_checked\<close> with its errors as panics; \<open>from\<close> passes the time of the event on.\<close>

definition unwrapped :: "('e + 'a) panics \<Rightarrow> 'a panics" where
  "unwrapped r = Option.bind r (\<lambda>v. case v of Inl _ \<Rightarrow> None | Inr x \<Rightarrow> Some x)"

definition from_header :: "event_header \<Rightarrow> event_header" where
  "from_header h = h\<lparr>eh_ts_init := eh_ts_event h\<rparr>"

definition market_from :: "event_header \<Rightarrow> order_initialized \<Rightarrow> 'f market_order panics" where
  "market_from h a = unwrapped (market_new_checked (from_header h) a)"

definition limit_from :: "event_header \<Rightarrow> order_initialized \<Rightarrow> 'f limit_order panics" where
  "limit_from h a = do {
     price \<leftarrow> oi_price a;
     unwrapped (limit_new_checked (from_header h) a price)
   }"

definition stop_market_from :: "event_header \<Rightarrow> order_initialized \<Rightarrow> 'f stop_market_order panics" where
  "stop_market_from h a = do {
     trigger_price \<leftarrow> oi_trigger_price a;
     trigger \<leftarrow> oi_trigger_type a;
     unwrapped (stop_market_new_checked (from_header h) a trigger_price trigger)
   }"

definition stop_limit_from :: "event_header \<Rightarrow> order_initialized \<Rightarrow> 'f stop_limit_order panics" where
  "stop_limit_from h a = do {
     price \<leftarrow> oi_price a;
     trigger_price \<leftarrow> oi_trigger_price a;
     trigger \<leftarrow> oi_trigger_type a;
     unwrapped (stop_limit_new_checked (from_header h) a price trigger_price trigger)
   }"

definition market_to_limit_from :: "event_header \<Rightarrow> order_initialized \<Rightarrow> 'f market_to_limit_order panics" where
  "market_to_limit_from h a = unwrapped (market_to_limit_new_checked (from_header h) a)"

definition market_if_touched_from :: "event_header \<Rightarrow> order_initialized \<Rightarrow> 'f market_if_touched_order panics" where
  "market_if_touched_from h a = do {
     trigger_price \<leftarrow> oi_trigger_price a;
     trigger \<leftarrow> oi_trigger_type a;
     unwrapped (market_if_touched_new_checked (from_header h) a trigger_price trigger)
   }"

definition limit_if_touched_from :: "event_header \<Rightarrow> order_initialized \<Rightarrow> 'f limit_if_touched_order panics" where
  "limit_if_touched_from h a = do {
     price \<leftarrow> oi_price a;
     trigger_price \<leftarrow> oi_trigger_price a;
     trigger \<leftarrow> oi_trigger_type a;
     unwrapped (limit_if_touched_new_checked (from_header h) a price trigger_price trigger)
   }"

definition trailing_stop_market_from :: "event_header \<Rightarrow> order_initialized \<Rightarrow> 'f trailing_stop_market_order panics" where
  "trailing_stop_market_from h a = do {
     trigger_price \<leftarrow> oi_trigger_price a;
     trigger \<leftarrow> oi_trigger_type a;
     offset \<leftarrow> oi_trailing_offset a;
     offset_type \<leftarrow> oi_trailing_offset_type a;
     unwrapped (trailing_stop_market_new_checked (from_header h) a trigger_price trigger offset offset_type)
   }"

definition trailing_stop_limit_from :: "event_header \<Rightarrow> order_initialized \<Rightarrow> 'f trailing_stop_limit_order panics" where
  "trailing_stop_limit_from h a = do {
     price \<leftarrow> oi_price a;
     trigger_price \<leftarrow> oi_trigger_price a;
     trigger \<leftarrow> oi_trigger_type a;
     limit_offset \<leftarrow> oi_limit_offset a;
     offset \<leftarrow> oi_trailing_offset a;
     offset_type \<leftarrow> oi_trailing_offset_type a;
     unwrapped (trailing_stop_limit_new_checked (from_header h) a price trigger_price trigger limit_offset offset offset_type)
   }"

section \<open>Orders of any type\<close>

datatype 'f order_any =
    AnyLimit "'f limit_order"
  | AnyLimitIfTouched "'f limit_if_touched_order"
  | AnyMarket "'f market_order"
  | AnyMarketIfTouched "'f market_if_touched_order"
  | AnyMarketToLimit "'f market_to_limit_order"
  | AnyStopLimit "'f stop_limit_order"
  | AnyStopMarket "'f stop_market_order"
  | AnyTrailingStopLimit "'f trailing_stop_limit_order"
  | AnyTrailingStopMarket "'f trailing_stop_market_order"

fun any_core :: "'f order_any \<Rightarrow> 'f order_core" where
  "any_core (AnyLimit l) = lo_core l"
| "any_core (AnyLimitIfTouched l) = lt_core l"
| "any_core (AnyMarket m) = mo_core m"
| "any_core (AnyMarketIfTouched m) = mt_core m"
| "any_core (AnyMarketToLimit m) = ml_core m"
| "any_core (AnyStopLimit s) = sl_core s"
| "any_core (AnyStopMarket s) = sm_core s"
| "any_core (AnyTrailingStopLimit s) = tl_core s"
| "any_core (AnyTrailingStopMarket s) = tm_core s"

fun any_apply :: "'f float_ops \<Rightarrow> 'f order_any \<Rightarrow> order_event \<Rightarrow> ((order_error + unit) \<times> 'f order_any) panics" where
  "any_apply fl (AnyLimit l) e = map_option (apsnd AnyLimit) (limit_apply fl l e)"
| "any_apply fl (AnyLimitIfTouched l) e = map_option (apsnd AnyLimitIfTouched) (limit_if_touched_apply fl l e)"
| "any_apply fl (AnyMarket m) e = map_option (apsnd AnyMarket) (market_apply fl m e)"
| "any_apply fl (AnyMarketIfTouched m) e = map_option (apsnd AnyMarketIfTouched) (market_if_touched_apply fl m e)"
| "any_apply fl (AnyMarketToLimit m) e = map_option (apsnd AnyMarketToLimit) (market_to_limit_apply fl m e)"
| "any_apply fl (AnyStopLimit s) e = map_option (apsnd AnyStopLimit) (stop_limit_apply fl s e)"
| "any_apply fl (AnyStopMarket s) e = map_option (apsnd AnyStopMarket) (stop_market_apply fl s e)"
| "any_apply fl (AnyTrailingStopLimit s) e = map_option (apsnd AnyTrailingStopLimit) (trailing_stop_limit_apply fl s e)"
| "any_apply fl (AnyTrailingStopMarket s) e = map_option (apsnd AnyTrailingStopMarket) (trailing_stop_market_apply fl s e)"

definition any_from_init :: "event_header \<Rightarrow> order_initialized \<Rightarrow> 'f order_any panics" where
  "any_from_init h a =
     (case oi_order_type a of
        Limit \<Rightarrow> map_option AnyLimit (limit_from h a)
      | Market \<Rightarrow> map_option AnyMarket (market_from h a)
      | StopMarket \<Rightarrow> map_option AnyStopMarket (stop_market_from h a)
      | StopLimit \<Rightarrow> map_option AnyStopLimit (stop_limit_from h a)
      | LimitIfTouched \<Rightarrow> map_option AnyLimitIfTouched (limit_if_touched_from h a)
      | TrailingStopLimit \<Rightarrow> map_option AnyTrailingStopLimit (trailing_stop_limit_from h a)
      | TrailingStopMarket \<Rightarrow> map_option AnyTrailingStopMarket (trailing_stop_market_from h a)
      | MarketToLimit \<Rightarrow> map_option AnyMarketToLimit (market_to_limit_from h a)
      | MarketIfTouched \<Rightarrow> map_option AnyMarketIfTouched (market_if_touched_from h a))"

datatype from_events_error = NoEvents | FirstNotInitialized | EventRefused order_error

text \<open>The loop of \<open>from_events\<close>, left at the first event the order refuses.\<close>

fun apply_all :: "'f float_ops \<Rightarrow> 'f order_any \<Rightarrow> order_event list \<Rightarrow> (from_events_error + 'f order_any) panics" where
  "apply_all fl x [] = Some (Inr x)"
| "apply_all fl x (e # es) = do {
     (r, y) \<leftarrow> any_apply fl x e;
     (case r of
        Inl err \<Rightarrow> Some (Inl (EventRefused err))
      | Inr _ \<Rightarrow> apply_all fl y es)
   }"

fun from_events :: "'f float_ops \<Rightarrow> order_event list \<Rightarrow> (from_events_error + 'f order_any) panics" where
  "from_events fl [] = Some (Inl NoEvents)"
| "from_events fl (Ev_Initialized h a # es) = do {
     x \<leftarrow> any_from_init h a;
     apply_all fl x es
   }"
| "from_events fl (_ # _) = Some (Inl FirstNotInitialized)"

definition init_event :: "'f order_any \<Rightarrow> (event_header \<times> order_initialized) panics" where
  "init_event x =
     (case oc_events (any_core x) of Ev_Initialized h a # _ \<Rightarrow> Some (h, a) | _ \<Rightarrow> None)"

fun set_order_list_id :: "'f order_any \<Rightarrow> string \<Rightarrow> 'f order_any" where
  "set_order_list_id (AnyLimit l) i = AnyLimit (l\<lparr>lo_core := (lo_core l)\<lparr>oc_order_list_id := Some i\<rparr>\<rparr>)"
| "set_order_list_id (AnyLimitIfTouched l) i = AnyLimitIfTouched (l\<lparr>lt_core := (lt_core l)\<lparr>oc_order_list_id := Some i\<rparr>\<rparr>)"
| "set_order_list_id (AnyMarket m) i = AnyMarket (m\<lparr>mo_core := (mo_core m)\<lparr>oc_order_list_id := Some i\<rparr>\<rparr>)"
| "set_order_list_id (AnyMarketIfTouched m) i = AnyMarketIfTouched (m\<lparr>mt_core := (mt_core m)\<lparr>oc_order_list_id := Some i\<rparr>\<rparr>)"
| "set_order_list_id (AnyMarketToLimit m) i = AnyMarketToLimit (m\<lparr>ml_core := (ml_core m)\<lparr>oc_order_list_id := Some i\<rparr>\<rparr>)"
| "set_order_list_id (AnyStopLimit s) i = AnyStopLimit (s\<lparr>sl_core := (sl_core s)\<lparr>oc_order_list_id := Some i\<rparr>\<rparr>)"
| "set_order_list_id (AnyStopMarket s) i = AnyStopMarket (s\<lparr>sm_core := (sm_core s)\<lparr>oc_order_list_id := Some i\<rparr>\<rparr>)"
| "set_order_list_id (AnyTrailingStopLimit s) i = AnyTrailingStopLimit (s\<lparr>tl_core := (tl_core s)\<lparr>oc_order_list_id := Some i\<rparr>\<rparr>)"
| "set_order_list_id (AnyTrailingStopMarket s) i = AnyTrailingStopMarket (s\<lparr>tm_core := (tm_core s)\<lparr>oc_order_list_id := Some i\<rparr>\<rparr>)"

section \<open>Orders with a limit price, with a trigger price, and passive orders\<close>

datatype 'f limit_order_any =
    LLimit "'f limit_order"
  | LMarketToLimit "'f market_to_limit_order"
  | LStopLimit "'f stop_limit_order"
  | LTrailingStopLimit "'f trailing_stop_limit_order"
  | LMarketWithProtection "'f market_order"

datatype 'f stop_order_any =
    SLimitIfTouched "'f limit_if_touched_order"
  | SMarketIfTouched "'f market_if_touched_order"
  | SStopLimit "'f stop_limit_order"
  | SStopMarket "'f stop_market_order"
  | STrailingStopLimit "'f trailing_stop_limit_order"
  | STrailingStopMarket "'f trailing_stop_market_order"

datatype 'f passive_order_any = PLimit "'f limit_order_any" | PStop "'f stop_order_any"

fun limit_of_any :: "'f order_any \<Rightarrow> order_type + 'f limit_order_any" where
  "limit_of_any (AnyLimit l) = Inr (LLimit l)"
| "limit_of_any (AnyMarketToLimit m) = Inr (LMarketToLimit m)"
| "limit_of_any (AnyStopLimit s) = Inr (LStopLimit s)"
| "limit_of_any (AnyTrailingStopLimit s) = Inr (LTrailingStopLimit s)"
| "limit_of_any (AnyMarket m) = Inr (LMarketWithProtection m)"
| "limit_of_any x = Inl (oc_order_type (any_core x))"

fun any_of_limit :: "'f limit_order_any \<Rightarrow> 'f order_any" where
  "any_of_limit (LLimit l) = AnyLimit l"
| "any_of_limit (LMarketToLimit m) = AnyMarketToLimit m"
| "any_of_limit (LStopLimit s) = AnyStopLimit s"
| "any_of_limit (LTrailingStopLimit s) = AnyTrailingStopLimit s"
| "any_of_limit (LMarketWithProtection m) = AnyMarket m"

fun stop_of_any :: "'f order_any \<Rightarrow> order_type + 'f stop_order_any" where
  "stop_of_any (AnyLimitIfTouched l) = Inr (SLimitIfTouched l)"
| "stop_of_any (AnyMarketIfTouched m) = Inr (SMarketIfTouched m)"
| "stop_of_any (AnyStopLimit s) = Inr (SStopLimit s)"
| "stop_of_any (AnyStopMarket s) = Inr (SStopMarket s)"
| "stop_of_any (AnyTrailingStopLimit s) = Inr (STrailingStopLimit s)"
| "stop_of_any (AnyTrailingStopMarket s) = Inr (STrailingStopMarket s)"
| "stop_of_any x = Inl (oc_order_type (any_core x))"

fun any_of_stop :: "'f stop_order_any \<Rightarrow> 'f order_any" where
  "any_of_stop (SLimitIfTouched l) = AnyLimitIfTouched l"
| "any_of_stop (SMarketIfTouched m) = AnyMarketIfTouched m"
| "any_of_stop (SStopLimit s) = AnyStopLimit s"
| "any_of_stop (SStopMarket s) = AnyStopMarket s"
| "any_of_stop (STrailingStopLimit s) = AnyTrailingStopLimit s"
| "any_of_stop (STrailingStopMarket s) = AnyTrailingStopMarket s"

definition passive_of_any :: "'f order_any \<Rightarrow> order_type + 'f passive_order_any" where
  "passive_of_any x =
     (let as_limit = map_sum id PLimit (limit_of_any x); as_stop = map_sum id PStop (stop_of_any x)
      in case x of
        AnyLimit _ \<Rightarrow> as_limit
      | AnyLimitIfTouched _ \<Rightarrow> as_stop
      | AnyMarketIfTouched _ \<Rightarrow> as_stop
      | AnyStopLimit _ \<Rightarrow> as_stop
      | AnyStopMarket _ \<Rightarrow> as_stop
      | AnyTrailingStopLimit _ \<Rightarrow> as_stop
      | AnyTrailingStopMarket _ \<Rightarrow> as_stop
      | AnyMarketToLimit _ \<Rightarrow> as_limit
      | AnyMarket _ \<Rightarrow> as_limit)"

fun any_of_passive :: "'f passive_order_any \<Rightarrow> 'f order_any" where
  "any_of_passive (PLimit l) = any_of_limit l"
| "any_of_passive (PStop s) = any_of_stop s"

fun limit_px :: "'f limit_order_any \<Rightarrow> price panics" where
  "limit_px (LLimit l) = Some (lo_price l)"
| "limit_px (LMarketToLimit m) = ml_price m"
| "limit_px (LStopLimit s) = Some (sl_price s)"
| "limit_px (LTrailingStopLimit s) = Some (tl_price s)"
| "limit_px (LMarketWithProtection m) = mo_protection_price m"

definition unwrap_or :: "'a option \<Rightarrow> 'a \<Rightarrow> 'a" where
  "unwrap_or v d = (case v of Some x \<Rightarrow> x | None \<Rightarrow> d)"

fun stop_px :: "'f stop_order_any \<Rightarrow> price" where
  "stop_px (SLimitIfTouched l) = lt_trigger_price l"
| "stop_px (SMarketIfTouched m) = mt_trigger_price m"
| "stop_px (SStopLimit s) = sl_trigger_price s"
| "stop_px (SStopMarket s) = sm_trigger_price s"
| "stop_px (STrailingStopLimit s) = unwrap_or (tl_activation_price s) (tl_trigger_price s)"
| "stop_px (STrailingStopMarket s) = unwrap_or (tm_activation_price s) (tm_trigger_price s)"

section \<open>Every type keeps the contract of its core\<close>

interpretation any: order_kind any_core any_apply
proof (unfold_locales, goal_cases)
  case (1 fl x e err y)
  then show ?case
    by (cases x) (auto dest: limit.refused_core limit_if_touched.refused_core market.refused_core
      market_if_touched.refused_core market_to_limit.refused_core stop_limit.refused_core stop_market.refused_core
      trailing_stop_limit.refused_core trailing_stop_market.refused_core)
next
  case (2 fl x e y)
  then show ?case
    by (cases x) (auto dest: limit.accepted_core limit_if_touched.accepted_core market.accepted_core
      market_if_touched.accepted_core market_to_limit.accepted_core stop_limit.accepted_core stop_market.accepted_core
      trailing_stop_limit.accepted_core trailing_stop_market.accepted_core)
qed

section \<open>What the constructors accept\<close>

definition gtd_expires :: "order_initialized \<Rightarrow> bool" where
  "gtd_expires a \<longleftrightarrow> (oi_time_in_force a = Gtd \<longrightarrow> (\<exists>t. oi_expire_time a = Some t \<and> t \<noteq> 0))"

definition display_fits :: "order_initialized \<Rightarrow> bool" where
  "display_fits a \<longleftrightarrow> (case oi_display_qty a of Some q \<Rightarrow> q_raw q \<le> q_raw (oi_quantity a) | None \<Rightarrow> True)"

definition has_price :: "order_initialized \<Rightarrow> bool" where
  "has_price a \<longleftrightarrow> oi_price a \<noteq> None"

definition has_trigger :: "order_initialized \<Rightarrow> bool" where
  "has_trigger a \<longleftrightarrow> oi_trigger_price a \<noteq> None \<and> oi_trigger_type a \<noteq> None"

definition has_offset :: "order_initialized \<Rightarrow> bool" where
  "has_offset a \<longleftrightarrow> oi_trailing_offset a \<noteq> None \<and> oi_trailing_offset_type a \<noteq> None"

definition touch_ordered :: "order_initialized \<Rightarrow> bool" where
  "touch_ordered a \<longleftrightarrow>
     (oi_order_side a = Buy \<longrightarrow> p_raw (the (oi_trigger_price a)) \<le> p_raw (the (oi_price a))) \<and>
     (oi_order_side a = Sell \<longrightarrow> p_raw (the (oi_price a)) \<le> p_raw (the (oi_trigger_price a)))"

definition init_valid :: "order_initialized \<Rightarrow> bool" where
  "init_valid a \<longleftrightarrow> quantity_is_positive (oi_quantity a) \<and> q_prec (oi_quantity a) \<le> FIXED_PRECISION \<and>
     (case oi_order_type a of
        Market \<Rightarrow> oi_time_in_force a \<noteq> Gtd
      | Limit \<Rightarrow> has_price a \<and> display_fits a \<and> gtd_expires a
      | StopMarket \<Rightarrow> has_trigger a \<and> display_fits a \<and> gtd_expires a
      | StopLimit \<Rightarrow> has_price a \<and> has_trigger a \<and> display_fits a \<and> gtd_expires a
      | MarketToLimit \<Rightarrow> display_fits a \<and> gtd_expires a
      | MarketIfTouched \<Rightarrow> has_trigger a \<and> gtd_expires a
      | LimitIfTouched \<Rightarrow> has_price a \<and> has_trigger a \<and> display_fits a \<and> gtd_expires a \<and> touch_ordered a
      | TrailingStopMarket \<Rightarrow> has_trigger a \<and> has_offset a \<and> display_fits a \<and> gtd_expires a
      | TrailingStopLimit \<Rightarrow> has_price a \<and> has_trigger a \<and> has_offset a \<and> oi_limit_offset a \<noteq> None \<and>
          display_fits a \<and> gtd_expires a)"

lemma unwrapped_eq [simp]:
  "unwrapped (Some (Inr x)) = Some x" "unwrapped (Some (Inl e)) = None" "unwrapped None = None"
  "unwrapped (map_option (\<lambda>c. Inr (f c)) z) = map_option f z"
  by (simp_all add: unwrapped_def) (cases z; simp)

lemma check_quantity_ok: "check_quantity q = Inr () \<longleftrightarrow> quantity_is_positive q"
  by (auto simp: check_quantity_def check_positive_quantity_def split: sum.splits if_splits)

lemma check_display_qty_ok: "check_display_qty (oi_display_qty a) (oi_quantity a) = Inr () \<longleftrightarrow> display_fits a"
  by (auto simp: check_display_qty_def display_fits_def split: option.splits)

lemma check_time_in_force_ok: "check_time_in_force (oi_time_in_force a) (oi_expire_time a) = Inr () \<longleftrightarrow> gtd_expires a"
  by (auto simp: check_time_in_force_def gtd_expires_def split: option.splits)

lemma and_then_unit: "and_then r (\<lambda>_. s) = Inr () \<longleftrightarrow> r = Inr () \<and> s = Inr ()" for r s :: "'e + unit"
  by (cases r) auto

lemma check_order_ok: "check_order a = Inr () \<longleftrightarrow> quantity_is_positive (oi_quantity a) \<and> display_fits a \<and> gtd_expires a"
  by (simp add: check_order_def and_then_unit check_quantity_ok check_display_qty_ok check_time_in_force_ok)

lemma case_check:
  "unwrapped (case r of Inl e \<Rightarrow> Some (Inl (f e)) | Inr _ \<Rightarrow> z) = (if r = Inr () then unwrapped z else None)"
  by (cases r) auto

lemma core_new_None: "core_new h a = None \<longleftrightarrow> \<not> q_prec (oi_quantity a) \<le> FIXED_PRECISION"
  by (auto simp: core_new_def quantity_zero_def check_fixed_precision_def bind_eq_None_conv)

lemma if_None: "(if b then z else None) = None \<longleftrightarrow> (b \<longrightarrow> z = None)"
  by simp

lemmas from_defs = market_from_def limit_from_def stop_market_from_def stop_limit_from_def market_to_limit_from_def
  market_if_touched_from_def limit_if_touched_from_def trailing_stop_market_from_def trailing_stop_limit_from_def

lemmas new_checked_defs = market_new_checked_def limit_new_checked_def stop_market_new_checked_def
  stop_limit_new_checked_def market_to_limit_new_checked_def market_if_touched_new_checked_def
  limit_if_touched_new_checked_def trailing_stop_market_new_checked_def trailing_stop_limit_new_checked_def

lemmas init_parts = init_valid_def has_price_def has_trigger_def has_offset_def touch_ordered_def

lemma case_check_id:
  "unwrapped (case r of Inl e \<Rightarrow> Some (Inl e) | Inr _ \<Rightarrow> z) = (if r = Inr () then unwrapped z else None)"
  by (rule case_check)

lemma any_from_init_None: "any_from_init h a = None \<longleftrightarrow> \<not> init_valid a"
  by (cases "oi_order_type a")
    (auto simp: any_from_init_def init_parts case_check case_check_id check_order_ok check_quantity_ok bind_eq_None_conv
       check_time_in_force_ok and_then_unit core_new_None plain_init_def if_None from_defs new_checked_defs)

section \<open>The log of an order makes the order\<close>

lemma core_new_events: "core_new h a = Some c \<Longrightarrow> oc_events c = [Ev_Initialized h a]"
  by (auto simp: core_new_def bind_Some_conv)

lemma header_again: "new_header (from_header (new_header (from_header h))) = new_header (from_header h)"
  by (simp add: new_header_def from_header_def)

lemma if_Some: "(if b then z else None) = Some x \<longleftrightarrow> b \<and> z = Some x"
  by simp

lemma any_from_init_log:
  assumes "any_from_init h a = Some x"
  shows "\<exists>h' a'. oc_events (any_core x) = [Ev_Initialized h' a'] \<and> any_from_init h' a' = Some x"
  using assms
  by (cases "oi_order_type a")
    (auto simp: any_from_init_def case_check case_check_id bind_Some_conv plain_init_def if_Some from_defs new_checked_defs
       core_new_events header_again check_order_def split: if_splits)

lemma apply_all_log:
  "apply_all fl x es = Some (Inr y) \<Longrightarrow> oc_events (any_core y) = oc_events (any_core x) @ es"
proof (induction es arbitrary: x)
  case (Cons e es)
  from Cons.prems obtain z where z: "any_apply fl x e = Some (Inr (), z)" "apply_all fl z es = Some (Inr y)"
    unfolding apply_all.simps bind_result by auto
  then show ?case using Cons.IH [OF z(2)] any.accepted_log [OF z(1)] by simp
qed simp

lemma from_events_elim:
  assumes "from_events fl evs = Some (Inr x)"
  obtains h a es x0 where "evs = Ev_Initialized h a # es" "any_from_init h a = Some x0" "apply_all fl x0 es = Some (Inr x)"
  using assms by (cases "(fl, evs)" rule: from_events.cases) (auto simp: bind_Some_conv)

lemma new_checked_quantity: "any_from_init h a = Some x \<Longrightarrow> qty_inv (any_core x) \<or> \<not> q_raw (oi_quantity a) \<le> u128_max"
  by (cases "oi_order_type a")
    (auto simp: any_from_init_def case_check case_check_id bind_Some_conv plain_init_def if_Some from_defs new_checked_defs
       split: if_splits dest!: new_qty_inv)

definition sample_update :: order_updated where
  "sample_update = \<lparr>ou_venue_order_id = None, ou_account_id = None, ou_quantity = \<lparr>q_raw = 20, q_prec = 0\<rparr>, ou_price = None,
     ou_trigger_price = None, ou_protection_price = None, ou_is_quote_quantity = False\<rparr>"

lemma sample_init_valid: "init_valid sample_init"
  by (simp add: init_parts sample_init_def quantity_is_positive_def QUANTITY_UNDEF_def u128_max_def FIXED_PRECISION_def
    display_fits_def gtd_expires_def)

definition sample_limit :: "unit limit_order" where
  "sample_limit = \<lparr>lo_core = sample_core, lo_price = \<lparr>p_raw = 5, p_prec = 0\<rparr>, lo_expire_time = None,
     lo_is_post_only = False, lo_display_qty = None, lo_trigger_instrument_id = None\<rparr>"

lemma sample_any_new: "any_from_init sample_header sample_init = Some (AnyLimit sample_limit)"
proof -
  have "new_header (from_header sample_header) = sample_header"
    by (simp add: new_header_def from_header_def sample_header_def)
  moreover have "plain_init sample_init\<lparr>oi_order_type := Limit, oi_price := Some \<lparr>p_raw = 5, p_prec = 0\<rparr>,
      oi_trigger_price := None, oi_trigger_type := None\<rparr> = sample_init"
    by (simp add: plain_init_def sample_init_def)
  moreover have "check_order sample_init = Inr ()" using sample_init_valid
    by (simp add: check_order_ok init_valid_def) (simp add: sample_init_def)
  moreover have "oi_order_type sample_init = Limit" "oi_price sample_init = Some \<lparr>p_raw = 5, p_prec = 0\<rparr>"
    "oi_expire_time sample_init = None" "oi_post_only sample_init = False" "oi_display_qty sample_init = None"
    "oi_trigger_instrument_id sample_init = None"
    by (simp_all add: sample_init_def)
  ultimately show ?thesis
    by (simp add: any_from_init_def limit_from_def limit_new_checked_def sample_core_new sample_limit_def)
qed

lemma sample_any_update:
  obtains l where "any_apply sample_floats (AnyLimit sample_limit) (Ev_Updated sample_header sample_update) = Some (Inr (), AnyLimit l)"
    "q_raw (oc_quantity (lo_core l)) = 20"
proof -
  obtain c where c: "core_apply sample_floats sample_core (Ev_Updated sample_header sample_update) = Some (Inr (), c)"
    by (simp add: sample_eval core_updated_def sample_update_def)
  have u: "ou_trigger_price sample_update = None" "q_raw (ou_quantity sample_update) = 20"
    by (simp_all add: sample_update_def)
  show ?thesis
    by (rule that) (simp add: limit_apply_def sample_limit_def c limit_update_def u Let_def, simp add: core_resize_frame u)
qed

section \<open>Properties\<close>

text \<open>An order of any type can be made from an initialisation event exactly when the event is
  valid: the quantity is positive and its precision supported, the fields the type needs are
  there, the displayed quantity fits into the quantity, a good-till-date order expires, a
  market order is not good-till-date, and the trigger price of a limit-if-touched order is on the right
  side of its price. In every other case the construction panics.\<close>

theorem order_created_iff_valid: "(\<exists>x. any_from_init h a = Some x) \<longleftrightarrow> init_valid a"
  using any_from_init_None [of h a] by auto

text \<open>C10: the event log of an order makes the same order again. If an order of any type can be made from a list
  of events, then its own log starts with an initialisation event, goes on with the other events
  of the list, and makes an equal order.\<close>

theorem event_log_roundtrip:
  assumes "from_events fl evs = Some (Inr x)"
  shows "from_events fl (oc_events (any_core x)) = Some (Inr x) \<and> tl (oc_events (any_core x)) = tl evs"
proof -
  obtain h a es x0 where e: "evs = Ev_Initialized h a # es" "any_from_init h a = Some x0" "apply_all fl x0 es = Some (Inr x)"
    using from_events_elim [OF assms] .
  obtain h' a' where i: "oc_events (any_core x0) = [Ev_Initialized h' a']" "any_from_init h' a' = Some x0"
    using any_from_init_log [OF e(2)] by blast
  have "oc_events (any_core x) = Ev_Initialized h' a' # es" using apply_all_log [OF e(3)] i(1) by simp
  then show ?thesis using i(2) e(1,3) by simp
qed

theorem event_log_roundtrip_witness:
  "\<exists>x. from_events sample_floats [Ev_Initialized sample_header sample_init, Ev_Updated sample_header sample_update] = Some (Inr x) \<and>
     from_events sample_floats (oc_events (any_core x)) = Some (Inr x)"
proof -
  obtain l where "any_apply sample_floats (AnyLimit sample_limit) (Ev_Updated sample_header sample_update) = Some (Inr (), AnyLimit l)"
    using sample_any_update by blast
  then have "from_events sample_floats [Ev_Initialized sample_header sample_init, Ev_Updated sample_header sample_update] =
      Some (Inr (AnyLimit l))"
    by (simp add: sample_any_new)
  with event_log_roundtrip [OF this] show ?thesis by blast
qed

text \<open>C11: the quantities of an order of any type agree with its fills, also when its quantity is
  updated: after any stream of events on a new order, accepted or refused, the filled quantity is the sum of the logged fills
  (saturating), the leaves quantity is the current quantity less the filled quantity or zero, and
  no trade is counted twice.\<close>

theorem any_order_quantities:
  assumes "any_from_init h a = Some x0" and "q_raw (oi_quantity a) \<le> u128_max"
    and "fold_opt (\<lambda>e x. map_option snd (any_apply fl x e)) es x0 = Some x" and "\<forall>e \<in> set es. event_in_range e"
  shows "q_raw (oc_filled_qty (any_core x)) = min (fill_total (any_core x)) u128_max \<and>
    q_raw (oc_leaves_qty (any_core x)) = q_raw (oc_quantity (any_core x)) - q_raw (oc_filled_qty (any_core x)) \<and>
    oc_trade_ids (any_core x) = map of_trade_id (fills (any_core x)) \<and> distinct (oc_trade_ids (any_core x))"
proof -
  have "qty_inv (any_core x0)" using new_checked_quantity [OF assms(1)] assms(2) by blast
  from any.run_qty_inv [OF assms(3) this assms(4)] show ?thesis by (simp add: qty_inv_def)
qed

theorem any_order_quantities_witness:
  "\<exists>x. fold_opt (\<lambda>e x. map_option snd (any_apply sample_floats x e)) [Ev_Updated sample_header sample_update]
       (AnyLimit sample_limit) = Some x \<and>
     q_raw (oc_leaves_qty (any_core x)) = 20 - q_raw (oc_filled_qty (any_core x))"
proof -
  obtain l where l: "any_apply sample_floats (AnyLimit sample_limit) (Ev_Updated sample_header sample_update) = Some (Inr (), AnyLimit l)"
    "q_raw (oc_quantity (lo_core l)) = 20"
    using sample_any_update by blast
  have f: "fold_opt (\<lambda>e x. map_option snd (any_apply sample_floats x e)) [Ev_Updated sample_header sample_update]
      (AnyLimit sample_limit) = Some (AnyLimit l)"
    using l(1) by simp
  have "q_raw (oi_quantity sample_init) \<le> u128_max" "\<forall>e \<in> set [Ev_Updated sample_header sample_update]. event_in_range e"
    by (simp_all add: sample_init_def event_in_range_def sample_update_def u128_max_def)
  from any_order_quantities [OF sample_any_new this(1) f this(2)] f l(2) show ?thesis by auto
qed

text \<open>every order converts to a passive order and back to itself. It converts to an order with
  a limit price, or to one with a trigger price, exactly when its type has one, and back to itself; the two
  conversions of a stop-limit order name the same order.\<close>

theorem passive_conversion_roundtrip:
  "(\<exists>p. passive_of_any x = Inr p \<and> any_of_passive p = x) \<and>
   (case limit_of_any x of Inr l \<Rightarrow> any_of_limit l = x
    | Inl ty \<Rightarrow> ty = oc_order_type (any_core x) \<and> (\<exists>s. stop_of_any x = Inr s \<and> any_of_stop s = x)) \<and>
   (case stop_of_any x of Inr s \<Rightarrow> any_of_stop s = x
    | Inl ty \<Rightarrow> ty = oc_order_type (any_core x) \<and> (\<exists>l. limit_of_any x = Inr l \<and> any_of_limit l = x))"
  by (cases x) (simp_all add: passive_of_any_def)

end
