(* ===== verification/Matching_Core.thy ===== *)
theory Matching_Core
  imports Order_Any
begin

text \<open>
  The matching core of the execution engine (\<open>crates/execution/src/matching_core/mod.rs\<close>): what
  of a passive order matters for matching, the resting orders of the two sides, and which of them the
  current quotes fill or trigger. It builds on the conversions of \<open>Order_Any\<close>.

  What is shown: under additions of fresh identifiers and deletions the two vectors are a map of
  orders; an iteration reports exactly the orders that the quotes match, once each; and
  if-touched orders are matched like stop orders, that is, whenever they are not touched.
\<close>

section \<open>Match information\<close>

datatype match_action = FillLimit string | TriggerStop string

record match_info =
  mi_client_order_id :: string
  mi_order_side :: order_side_specified
  mi_order_type :: order_type
  mi_trigger_price :: "price option"
  mi_limit_price :: "price option"
  mi_is_activated :: bool

definition is_stop :: "match_info \<Rightarrow> bool" where
  "is_stop i \<longleftrightarrow> mi_trigger_price i \<noteq> None"

definition is_limit :: "match_info \<Rightarrow> bool" where
  "is_limit i \<longleftrightarrow> mi_limit_price i \<noteq> None \<and> mi_trigger_price i = None"

definition stop_limit_price :: "'f stop_order_any \<Rightarrow> price option" where
  "stop_limit_price s =
     (case s of
        SLimitIfTouched x \<Rightarrow> Some (lt_price x)
      | SStopLimit x \<Rightarrow> Some (sl_price x)
      | STrailingStopLimit x \<Rightarrow> Some (tl_price x)
      | SMarketIfTouched _ \<Rightarrow> None
      | SStopMarket _ \<Rightarrow> None
      | STrailingStopMarket _ \<Rightarrow> None)"

definition stop_is_activated :: "'f stop_order_any \<Rightarrow> bool" where
  "stop_is_activated s =
     (case s of
        STrailingStopMarket x \<Rightarrow> tm_is_activated x
      | STrailingStopLimit x \<Rightarrow> tl_is_activated x
      | _ \<Rightarrow> True)"

definition info_of_passive :: "'f passive_order_any \<Rightarrow> match_info panics" where
  "info_of_passive p =
     (case p of
        PLimit l \<Rightarrow> do {
          let c = any_core (any_of_limit l);
          side \<leftarrow> as_specified (oc_side c);
          px \<leftarrow> limit_px l;
          Some \<lparr>mi_client_order_id = oc_client_order_id c, mi_order_side = side, mi_order_type = oc_order_type c,
            mi_trigger_price = None, mi_limit_price = Some px, mi_is_activated = True\<rparr>
        }
      | PStop s \<Rightarrow> do {
          let c = any_core (any_of_stop s);
          side \<leftarrow> as_specified (oc_side c);
          Some \<lparr>mi_client_order_id = oc_client_order_id c, mi_order_side = side, mi_order_type = oc_order_type c,
            mi_trigger_price = Some (stop_px s), mi_limit_price = stop_limit_price s, mi_is_activated = stop_is_activated s\<rparr>
        })"

section \<open>The core\<close>

record matching_core =
  mc_instrument_id :: instrument_id
  mc_price_increment :: price
  mc_bid :: "price option"
  mc_ask :: "price option"
  mc_last :: "price option"
  mc_is_bid_initialized :: bool
  mc_is_ask_initialized :: bool
  mc_is_last_initialized :: bool
  mc_fill_limit_inside_spread :: bool
  mc_orders_bid :: "match_info list"
  mc_orders_ask :: "match_info list"

definition mc_new :: "instrument_id \<Rightarrow> price \<Rightarrow> matching_core" where
  "mc_new iid increment =
     \<lparr>mc_instrument_id = iid, mc_price_increment = increment, mc_bid = None, mc_ask = None, mc_last = None,
      mc_is_bid_initialized = False, mc_is_ask_initialized = False, mc_is_last_initialized = False,
      mc_fill_limit_inside_spread = False, mc_orders_bid = [], mc_orders_ask = []\<rparr>"

definition get_order :: "matching_core \<Rightarrow> string \<Rightarrow> match_info option" where
  "get_order c oid =
     (case List.find (\<lambda>i. mi_client_order_id i = oid) (mc_orders_bid c) of
        Some i \<Rightarrow> Some i
      | None \<Rightarrow> List.find (\<lambda>i. mi_client_order_id i = oid) (mc_orders_ask c))"

definition get_orders :: "matching_core \<Rightarrow> match_info list" where
  "get_orders c = mc_orders_bid c @ mc_orders_ask c"

definition order_exists :: "matching_core \<Rightarrow> string \<Rightarrow> bool" where
  "order_exists c oid \<longleftrightarrow>
     list_ex (\<lambda>i. mi_client_order_id i = oid) (mc_orders_bid c) \<or> list_ex (\<lambda>i. mi_client_order_id i = oid) (mc_orders_ask c)"

definition set_last_raw :: "matching_core \<Rightarrow> price \<Rightarrow> matching_core" where
  "set_last_raw c p = c\<lparr>mc_last := Some p, mc_is_last_initialized := True\<rparr>"

definition set_bid_raw :: "matching_core \<Rightarrow> price \<Rightarrow> matching_core" where
  "set_bid_raw c p = c\<lparr>mc_bid := Some p, mc_is_bid_initialized := True\<rparr>"

definition set_ask_raw :: "matching_core \<Rightarrow> price \<Rightarrow> matching_core" where
  "set_ask_raw c p = c\<lparr>mc_ask := Some p, mc_is_ask_initialized := True\<rparr>"

definition mc_reset :: "matching_core \<Rightarrow> matching_core" where
  "mc_reset c = c\<lparr>mc_bid := None, mc_ask := None, mc_last := None, mc_orders_bid := [], mc_orders_ask := []\<rparr>"

definition mc_add_order :: "matching_core \<Rightarrow> match_info \<Rightarrow> matching_core" where
  "mc_add_order c i =
     (case mi_order_side i of
        SBuy \<Rightarrow> c\<lparr>mc_orders_bid := mc_orders_bid c @ [i]\<rparr>
      | SSell \<Rightarrow> c\<lparr>mc_orders_ask := mc_orders_ask c @ [i]\<rparr>)"

text \<open>The index of the first order with an identifier, and removal at an index.\<close>

fun info_position :: "string \<Rightarrow> match_info list \<Rightarrow> nat option" where
  "info_position oid [] = None"
| "info_position oid (i # is) =
     (if mi_client_order_id i = oid then Some 0 else map_option Suc (info_position oid is))"

definition remove_at :: "nat \<Rightarrow> 'a list \<Rightarrow> 'a list" where
  "remove_at n xs = take n xs @ drop (n + 1) xs"

definition delete_order :: "matching_core \<Rightarrow> string \<Rightarrow> (order_error + unit) \<times> matching_core" where
  "delete_order c oid =
     (case info_position oid (mc_orders_bid c) of
        Some n \<Rightarrow> (Inr (), c\<lparr>mc_orders_bid := remove_at n (mc_orders_bid c)\<rparr>)
      | None \<Rightarrow>
          (case info_position oid (mc_orders_ask c) of
             Some n \<Rightarrow> (Inr (), c\<lparr>mc_orders_ask := remove_at n (mc_orders_ask c)\<rparr>)
           | None \<Rightarrow> (Inl (NotFound oid), c)))"

definition set_fill_limit_inside_spread :: "matching_core \<Rightarrow> bool \<Rightarrow> matching_core" where
  "set_fill_limit_inside_spread c v = c\<lparr>mc_fill_limit_inside_spread := v\<rparr>"

definition is_some_and :: "'a option \<Rightarrow> ('a \<Rightarrow> bool) \<Rightarrow> bool" where
  "is_some_and v f = (case v of Some x \<Rightarrow> f x | None \<Rightarrow> False)"

definition is_limit_matched :: "matching_core \<Rightarrow> order_side_specified \<Rightarrow> price \<Rightarrow> bool" where
  "is_limit_matched c side px =
     (case side of
        SBuy \<Rightarrow> is_some_and (mc_ask c) (\<lambda>a. p_raw a \<le> p_raw px)
      | SSell \<Rightarrow> is_some_and (mc_bid c) (\<lambda>b. p_raw b \<ge> p_raw px))"

definition is_stop_matched :: "matching_core \<Rightarrow> order_side_specified \<Rightarrow> price \<Rightarrow> bool" where
  "is_stop_matched c side px =
     (case side of
        SBuy \<Rightarrow> is_some_and (mc_ask c) (\<lambda>a. p_raw a \<ge> p_raw px)
      | SSell \<Rightarrow> is_some_and (mc_bid c) (\<lambda>b. p_raw b \<le> p_raw px))"

definition is_touch_triggered :: "matching_core \<Rightarrow> order_side_specified \<Rightarrow> price \<Rightarrow> bool" where
  "is_touch_triggered c side px =
     (case side of
        SBuy \<Rightarrow> is_some_and (mc_ask c) (\<lambda>a. p_raw a \<le> p_raw px)
      | SSell \<Rightarrow> is_some_and (mc_bid c) (\<lambda>b. p_raw b \<ge> p_raw px))"

definition is_limit_fillable :: "matching_core \<Rightarrow> order_side_specified \<Rightarrow> price \<Rightarrow> bool" where
  "is_limit_fillable c side px =
     (if is_limit_matched c side px then True
      else if \<not> mc_fill_limit_inside_spread c then False
      else case (mc_bid c, mc_ask c) of
          (Some bid, Some ask) \<Rightarrow> (case side of SBuy \<Rightarrow> p_raw px \<ge> p_raw bid | SSell \<Rightarrow> p_raw px \<le> p_raw ask)
        | _ \<Rightarrow> False)"

definition match_limit_order :: "matching_core \<Rightarrow> match_info \<Rightarrow> match_action option" where
  "match_limit_order c i =
     (case mi_limit_price i of
        Some px \<Rightarrow> if is_limit_fillable c (mi_order_side i) px then Some (FillLimit (mi_client_order_id i)) else None
      | None \<Rightarrow> None)"

definition match_stop_order :: "matching_core \<Rightarrow> match_info \<Rightarrow> match_action option" where
  "match_stop_order c i =
     (if \<not> mi_is_activated i then None
      else case mi_trigger_price i of
          Some px \<Rightarrow> if is_stop_matched c (mi_order_side i) px then Some (TriggerStop (mi_client_order_id i)) else None
        | None \<Rightarrow> None)"

definition match_order :: "matching_core \<Rightarrow> match_info \<Rightarrow> match_action option" where
  "match_order c i =
     (if is_stop i then match_stop_order c i else if is_limit i then match_limit_order c i else None)"

definition iterate_bids :: "matching_core \<Rightarrow> match_action list" where
  "iterate_bids c = List.map_filter (match_order c) (mc_orders_bid c)"

definition iterate_asks :: "matching_core \<Rightarrow> match_action list" where
  "iterate_asks c = List.map_filter (match_order c) (mc_orders_ask c)"

definition mc_iterate :: "matching_core \<Rightarrow> match_action list" where
  "mc_iterate c = iterate_bids c @ iterate_asks c"

section \<open>The map of resting orders\<close>

datatype mc_op = Mc_Add match_info | Mc_Delete string | Mc_Bid price | Mc_Ask price | Mc_Last price | Mc_Inside bool | Mc_Reset

definition mc_step :: "matching_core \<Rightarrow> mc_op \<Rightarrow> matching_core" where
  "mc_step c x =
     (case x of
        Mc_Add i \<Rightarrow> mc_add_order c i
      | Mc_Delete oid \<Rightarrow> snd (delete_order c oid)
      | Mc_Bid p \<Rightarrow> set_bid_raw c p
      | Mc_Ask p \<Rightarrow> set_ask_raw c p
      | Mc_Last p \<Rightarrow> set_last_raw c p
      | Mc_Inside b \<Rightarrow> set_fill_limit_inside_spread c b
      | Mc_Reset \<Rightarrow> mc_reset c)"

type_synonym resting = "string \<Rightarrow> match_info option"

definition resting_step :: "resting \<Rightarrow> mc_op \<Rightarrow> resting" where
  "resting_step m x =
     (case x of
        Mc_Add i \<Rightarrow> m(mi_client_order_id i \<mapsto> i)
      | Mc_Delete oid \<Rightarrow> m(oid := None)
      | Mc_Reset \<Rightarrow> (\<lambda>_. None)
      | _ \<Rightarrow> m)"

text \<open>Every identifier added is new.\<close>

fun fresh_adds :: "resting \<Rightarrow> mc_op list \<Rightarrow> bool" where
  "fresh_adds m [] = True"
| "fresh_adds m (x # xs) =
     ((case x of Mc_Add i \<Rightarrow> m (mi_client_order_id i) = None | _ \<Rightarrow> True) \<and> fresh_adds (resting_step m x) xs)"

definition holds :: "matching_core \<Rightarrow> resting \<Rightarrow> bool" where
  "holds c m \<longleftrightarrow> distinct (map mi_client_order_id (get_orders c)) \<and>
     (\<forall>oid i. m oid = Some i \<longleftrightarrow> i \<in> set (get_orders c) \<and> mi_client_order_id i = oid)"

lemma holds_None: "holds c m \<Longrightarrow> m oid = None \<longleftrightarrow> (\<forall>i \<in> set (get_orders c). mi_client_order_id i \<noteq> oid)"
  unfolding holds_def by (metis option.distinct(1) not_None_eq)

lemma info_position_remove:
  "distinct (map mi_client_order_id is) \<Longrightarrow>
   (case info_position oid is of Some n \<Rightarrow> remove_at n is | None \<Rightarrow> is) = filter (\<lambda>i. mi_client_order_id i \<noteq> oid) is"
proof (induction "is")
  case (Cons i "is")
  show ?case
  proof (cases "mi_client_order_id i = oid")
    case True
    then have "filter (\<lambda>i. mi_client_order_id i \<noteq> oid) is = is" using Cons.prems by (auto simp: filter_id_conv image_iff)
    then show ?thesis using True by (simp add: remove_at_def)
  next
    case False
    then show ?thesis using Cons by (auto simp: remove_at_def split: option.splits)
  qed
qed simp

lemma info_position_None: "info_position oid is = None \<longleftrightarrow> (\<forall>i \<in> set is. mi_client_order_id i \<noteq> oid)"
  by (induction "is") auto

lemma delete_order_filter:
  assumes "distinct (map mi_client_order_id (get_orders c))"
  shows "get_orders (snd (delete_order c oid)) = filter (\<lambda>i. mi_client_order_id i \<noteq> oid) (get_orders c)"
    and "fst (delete_order c oid) = (if \<exists>i \<in> set (get_orders c). mi_client_order_id i = oid then Inr () else Inl (NotFound oid))"
proof -
  have d: "distinct (map mi_client_order_id (mc_orders_bid c))" "distinct (map mi_client_order_id (mc_orders_ask c))"
    using assms by (simp_all add: get_orders_def)
  note r = info_position_remove [OF d(1), of oid] info_position_remove [OF d(2), of oid]
  have other: "filter (\<lambda>i. mi_client_order_id i \<noteq> oid) (mc_orders_ask c) = mc_orders_ask c"
    if s: "info_position oid (mc_orders_bid c) = Some n" for n
  proof -
    obtain i where "i \<in> set (mc_orders_bid c)" "mi_client_order_id i = oid"
      using s info_position_None [of oid "mc_orders_bid c"] by auto
    then show ?thesis using assms by (auto simp: get_orders_def filter_id_conv image_iff)
  qed
  show "get_orders (snd (delete_order c oid)) = filter (\<lambda>i. mi_client_order_id i \<noteq> oid) (get_orders c)"
    using r other by (auto simp: delete_order_def get_orders_def split: option.splits)
  show "fst (delete_order c oid) = (if \<exists>i \<in> set (get_orders c). mi_client_order_id i = oid then Inr () else Inl (NotFound oid))"
    using info_position_None [of oid "mc_orders_bid c"] info_position_None [of oid "mc_orders_ask c"]
    by (auto simp: delete_order_def get_orders_def split: option.splits)
qed

lemma get_orders_add:
  "set (get_orders (mc_add_order c i)) = insert i (set (get_orders c))"
  "distinct (map mi_client_order_id (get_orders (mc_add_order c i))) \<longleftrightarrow>
     distinct (map mi_client_order_id (get_orders c)) \<and> mi_client_order_id i \<notin> mi_client_order_id ` set (get_orders c)"
  by (auto simp: mc_add_order_def get_orders_def split: order_side_specified.splits)

lemma get_orders_quotes [simp]:
  "get_orders (set_bid_raw c p) = get_orders c" "get_orders (set_ask_raw c p) = get_orders c"
  "get_orders (set_last_raw c p) = get_orders c" "get_orders (set_fill_limit_inside_spread c b) = get_orders c"
  "get_orders (mc_reset c) = []" "get_orders (mc_new iid incr) = []"
  by (simp_all add: get_orders_def set_bid_raw_def set_ask_raw_def set_last_raw_def set_fill_limit_inside_spread_def
      mc_reset_def mc_new_def)

lemma holds_new: "holds (mc_new iid incr) Map.empty"
  by (simp add: holds_def)

lemma holds_add:
  assumes h: "holds c m" and new: "m (mi_client_order_id i) = None"
  shows "holds (mc_add_order c i) (m(mi_client_order_id i \<mapsto> i))"
proof -
  have "mi_client_order_id i \<notin> mi_client_order_id ` set (get_orders c)"
    using holds_None [OF h] new by fastforce
  then show ?thesis using h by (auto simp: holds_def get_orders_add image_iff)
qed

lemma holds_delete: "holds c m \<Longrightarrow> holds (snd (delete_order c oid)) (m(oid := None))"
  by (auto simp: holds_def delete_order_filter(1) distinct_map_filter)

lemma holds_step:
  assumes "holds c m" "case x of Mc_Add i \<Rightarrow> m (mi_client_order_id i) = None | _ \<Rightarrow> True"
  shows "holds (mc_step c x) (resting_step m x)"
  using assms
  by (cases x) (auto simp: mc_step_def resting_step_def intro: holds_add holds_delete, simp_all add: holds_def)

lemma holds_run: "holds c m \<Longrightarrow> fresh_adds m xs \<Longrightarrow> holds (foldl mc_step c xs) (foldl resting_step m xs)"
  by (induction xs arbitrary: c m) (auto intro: holds_step)

lemma find_append:
  "List.find P (xs @ ys) = (case List.find P xs of Some x \<Rightarrow> Some x | None \<Rightarrow> List.find P ys)"
  by (induction xs) auto

lemma holds_get_order:
  assumes h: "holds c m"
  shows "get_order c oid = m oid"
proof (cases "List.find (\<lambda>i. mi_client_order_id i = oid) (get_orders c)")
  case None
  then have "m oid = None" using holds_None [OF h] by (simp add: find_None_iff)
  with None show ?thesis by (simp add: get_order_def get_orders_def find_append)
next
  case (Some i)
  then have "i \<in> set (get_orders c)" "mi_client_order_id i = oid" by (auto simp: find_Some_iff)
  then have "m oid = Some i" using h by (simp add: holds_def)
  with Some show ?thesis by (simp add: get_order_def get_orders_def find_append)
qed

lemma holds_order_exists: "holds c m \<Longrightarrow> order_exists c oid \<longleftrightarrow> m oid \<noteq> None"
  by (auto simp: order_exists_def list_ex_iff holds_None get_orders_def)

lemma holds_delete_result:
  assumes h: "holds c m"
  shows "fst (delete_order c oid) = (if m oid = None then Inl (NotFound oid) else Inr ())"
proof -
  have "distinct (map mi_client_order_id (get_orders c))" using h by (simp add: holds_def)
  from delete_order_filter(2) [OF this, of oid] show ?thesis using holds_None [OF h, of oid] by auto
qed

text \<open>C18: The two vectors of resting orders implement a map of orders. After any sequence of additions (of
  identifiers not currently resting), deletions, quote changes and resets on a new core, \<open>get_order\<close> and
  \<open>order_exists\<close> answer for the map that the same sequence builds, no identifier is held twice, and
  \<open>delete_order\<close> fails with \<open>NotFound\<close> on exactly the identifiers that are absent.\<close>

theorem matching_core_is_map:
  assumes "fresh_adds Map.empty xs"
  shows "let c = foldl mc_step (mc_new iid incr) xs; m = foldl resting_step Map.empty xs in
    get_order c oid = m oid \<and> (order_exists c oid \<longleftrightarrow> m oid \<noteq> None) \<and>
    distinct (map mi_client_order_id (get_orders c)) \<and>
    fst (delete_order c oid) = (if m oid = None then Inl (NotFound oid) else Inr ())"
proof -
  have h: "holds (foldl mc_step (mc_new iid incr) xs) (foldl resting_step Map.empty xs)"
    using holds_run [OF holds_new assms] .
  then show ?thesis
    by (simp add: Let_def holds_get_order [OF h] holds_order_exists [OF h] holds_delete_result [OF h])
       (simp add: holds_def)
qed

definition sample_buy :: match_info where
  "sample_buy = \<lparr>mi_client_order_id = ''O-1'', mi_order_side = SBuy, mi_order_type = Limit, mi_trigger_price = None,
     mi_limit_price = Some \<lparr>p_raw = 10, p_prec = 0\<rparr>, mi_is_activated = True\<rparr>"

definition sample_mc :: matching_core where
  "sample_mc = mc_new \<lparr>symbol = ''S'', venue = ''V''\<rparr> \<lparr>p_raw = 1, p_prec = 0\<rparr>"

definition sample_ops :: "mc_op list" where
  "sample_ops = [Mc_Add sample_buy, Mc_Add (sample_buy\<lparr>mi_client_order_id := ''O-2'', mi_order_side := SSell\<rparr>),
     Mc_Ask \<lparr>p_raw = 9, p_prec = 0\<rparr>, Mc_Delete ''O-2'']"

lemmas sample_ops_eval = sample_ops_def sample_buy_def mc_step_def resting_step_def mc_new_def mc_add_order_def
  set_ask_raw_def delete_order_def remove_at_def get_orders_def

lemma sample_ops_fresh: "fresh_adds Map.empty sample_ops"
  by (simp add: sample_ops_eval)

theorem matching_core_is_map_witness:
  "fresh_adds Map.empty sample_ops \<and>
   get_order (foldl mc_step sample_mc sample_ops) ''O-1'' = Some sample_buy \<and>
   fst (delete_order (foldl mc_step sample_mc sample_ops) ''O-2'') = Inl (NotFound ''O-2'')"
  using matching_core_is_map [OF sample_ops_fresh, of "\<lparr>symbol = ''S'', venue = ''V''\<rparr>" "\<lparr>p_raw = 1, p_prec = 0\<rparr>" "''O-1''"]
    matching_core_is_map [OF sample_ops_fresh, of "\<lparr>symbol = ''S'', venue = ''V''\<rparr>" "\<lparr>p_raw = 1, p_prec = 0\<rparr>" "''O-2''"] sample_ops_fresh
  by (simp add: Let_def sample_mc_def [symmetric] sample_ops_def resting_step_def sample_buy_def)

section \<open>What an iteration reports\<close>

text \<open>The condition under which the quotes match an order, spelled out.\<close>

definition quotes_fill :: "price option \<Rightarrow> price option \<Rightarrow> bool \<Rightarrow> match_info \<Rightarrow> bool" where
  "quotes_fill bid ask inside i =
     (case (mi_trigger_price i, mi_limit_price i) of
        (None, Some px) \<Rightarrow>
          (case mi_order_side i of
             SBuy \<Rightarrow> (\<exists>a. ask = Some a \<and> (p_raw a \<le> p_raw px \<or> inside \<and> (\<exists>b. bid = Some b \<and> p_raw b \<le> p_raw px)))
           | SSell \<Rightarrow> (\<exists>b. bid = Some b \<and> (p_raw px \<le> p_raw b \<or> inside \<and> (\<exists>a. ask = Some a \<and> p_raw px \<le> p_raw a))))
      | _ \<Rightarrow> False)"

definition quotes_trigger :: "price option \<Rightarrow> price option \<Rightarrow> match_info \<Rightarrow> bool" where
  "quotes_trigger bid ask i \<longleftrightarrow> mi_is_activated i \<and>
     (case mi_trigger_price i of
        None \<Rightarrow> False
      | Some px \<Rightarrow>
          (case mi_order_side i of
             SBuy \<Rightarrow> (\<exists>a. ask = Some a \<and> p_raw px \<le> p_raw a)
           | SSell \<Rightarrow> (\<exists>b. bid = Some b \<and> p_raw b \<le> p_raw px)))"

lemma match_order_eq:
  "match_order c i =
     (if quotes_fill (mc_bid c) (mc_ask c) (mc_fill_limit_inside_spread c) i then Some (FillLimit (mi_client_order_id i))
      else if quotes_trigger (mc_bid c) (mc_ask c) i then Some (TriggerStop (mi_client_order_id i)) else None)"
  by (auto simp: match_order_def is_stop_def is_limit_def match_limit_order_def match_stop_order_def
      is_limit_fillable_def is_limit_matched_def is_stop_matched_def is_some_and_def quotes_fill_def quotes_trigger_def
      split: option.splits order_side_specified.splits)

lemma mc_iterate_eq: "mc_iterate c = List.map_filter (match_order c) (get_orders c)"
  by (simp add: mc_iterate_def iterate_bids_def iterate_asks_def get_orders_def List.map_filter_def)

lemma quotes_exclusive: "quotes_fill b a f i \<Longrightarrow> \<not> quotes_trigger b a' i"
  by (auto simp: quotes_fill_def quotes_trigger_def split: option.splits)

lemma distinct_map_filter_actions:
  assumes "distinct (map mi_client_order_id xs)"
  shows "distinct (List.map_filter (match_order c) xs)"
  using assms
  by (induction xs) (auto simp: List.map_filter_def match_order_eq image_iff split: if_splits)

lemma iterate_iff:
  "FillLimit oid \<in> set (mc_iterate c) \<longleftrightarrow> (\<exists>i \<in> set (get_orders c). mi_client_order_id i = oid \<and>
     quotes_fill (mc_bid c) (mc_ask c) (mc_fill_limit_inside_spread c) i)"
  "TriggerStop oid \<in> set (mc_iterate c) \<longleftrightarrow> (\<exists>i \<in> set (get_orders c). mi_client_order_id i = oid \<and>
     quotes_trigger (mc_bid c) (mc_ask c) i)"
  by (auto simp: mc_iterate_eq List.map_filter_def match_order_eq image_iff dest: quotes_exclusive split: if_splits)

text \<open>C19: An iteration reports exactly the orders that the quotes match, once each. After any
  sequence of operations with fresh identifiers, the limit orders reported as filled are the resting limit orders whose
  price crosses the opposite quote (or, when fills inside the spread are on and both quotes are known, is at
  least as good as the own side's quote), and the orders reported as triggered are the activated resting orders with
  a trigger price that the opposite quote has reached from the stop side.\<close>

theorem iteration_reports_matches:
  assumes "fresh_adds Map.empty xs"
  shows "let c = foldl mc_step (mc_new iid incr) xs; m = foldl resting_step Map.empty xs in
    distinct (mc_iterate c) \<and>
    (FillLimit oid \<in> set (mc_iterate c) \<longleftrightarrow>
       (\<exists>i. m oid = Some i \<and> quotes_fill (mc_bid c) (mc_ask c) (mc_fill_limit_inside_spread c) i)) \<and>
    (TriggerStop oid \<in> set (mc_iterate c) \<longleftrightarrow> (\<exists>i. m oid = Some i \<and> quotes_trigger (mc_bid c) (mc_ask c) i))"
proof -
  have h: "holds (foldl mc_step (mc_new iid incr) xs) (foldl resting_step Map.empty xs)"
    using holds_run [OF holds_new assms] .
  then have "distinct (mc_iterate (foldl mc_step (mc_new iid incr) xs))"
    by (simp add: holds_def mc_iterate_eq distinct_map_filter_actions)
  then show ?thesis using h unfolding Let_def iterate_iff holds_def by blast
qed

theorem iteration_reports_matches_witness:
  "FillLimit ''O-1'' \<in> set (mc_iterate (foldl mc_step sample_mc sample_ops)) \<and>
   TriggerStop ''O-1'' \<notin> set (mc_iterate (foldl mc_step sample_mc sample_ops))"
proof -
  have "foldl resting_step Map.empty sample_ops ''O-1'' = Some sample_buy"
    by (simp add: sample_ops_def resting_step_def sample_buy_def)
  moreover have "mc_ask (foldl mc_step sample_mc sample_ops) = Some \<lparr>p_raw = 9, p_prec = 0\<rparr>"
    by (simp add: sample_ops_eval sample_mc_def)
  moreover have "quotes_fill b (Some \<lparr>p_raw = 9, p_prec = 0\<rparr>) f sample_buy" "\<not> quotes_trigger b a sample_buy" for b a f
    by (simp_all add: quotes_fill_def quotes_trigger_def sample_buy_def)
  ultimately show ?thesis
    using iteration_reports_matches [OF sample_ops_fresh, of "\<lparr>symbol = ''S'', venue = ''V''\<rparr>" "\<lparr>p_raw = 1, p_prec = 0\<rparr>" "''O-1''"] by (auto simp: Let_def sample_mc_def)
qed

text \<open>C20: If-touched orders are matched as stop orders. For a market-if-touched or limit-if-touched order and quotes
  away from its trigger price, \<open>match_order\<close> triggers the order exactly when \<open>is_touch_triggered\<close> says
  that it is not touched.\<close>

theorem if_touched_matched_as_stop:
  assumes "s = SMarketIfTouched mm \<or> s = SLimitIfTouched ll" and "info_of_passive (PStop s) = Some i"
    and "mc_bid c = Some b" "mc_ask c = Some a" "p_raw b \<noteq> p_raw (stop_px s)" "p_raw a \<noteq> p_raw (stop_px s)"
  shows "match_order c i =
    (if is_touch_triggered c (mi_order_side i) (stop_px s) then None else Some (TriggerStop (mi_client_order_id i)))"
  using assms
  by (auto simp: info_of_passive_def Let_def stop_is_activated_def bind_Some_conv match_order_def is_stop_def match_stop_order_def
      is_stop_matched_def is_touch_triggered_def is_some_and_def split: order_side_specified.splits)

definition sample_touch :: "unit market_if_touched_order" where
  "sample_touch = \<lparr>mt_trigger_price = \<lparr>p_raw = 5, p_prec = 0\<rparr>, mt_trigger_type = DefaultTrigger, mt_expire_time = None,
     mt_trigger_instrument_id = None, mt_is_triggered = False, mt_ts_triggered = None, mt_core = sample_core\<rparr>"

theorem if_touched_matched_as_stop_witness:
  "\<exists>i. info_of_passive (PStop (SMarketIfTouched sample_touch)) = Some i \<and>
     match_order (sample_mc\<lparr>mc_bid := Some \<lparr>p_raw = 7, p_prec = 0\<rparr>, mc_ask := Some \<lparr>p_raw = 8, p_prec = 0\<rparr>\<rparr>) i =
       Some (TriggerStop (oc_client_order_id sample_core))"
proof -
  obtain i where i: "info_of_passive (PStop (SMarketIfTouched sample_touch)) = Some i" "mi_order_side i = SBuy"
    "mi_client_order_id i = oc_client_order_id sample_core"
    by (simp add: info_of_passive_def Let_def sample_touch_def sample_core_def core_new_def quantity_zero_def check_fixed_precision_def FIXED_PRECISION_def sample_init_def)
  show ?thesis
    using if_touched_matched_as_stop [of _ sample_touch undefined, OF _ i(1),
      of "sample_mc\<lparr>mc_bid := Some \<lparr>p_raw = 7, p_prec = 0\<rparr>, mc_ask := Some \<lparr>p_raw = 8, p_prec = 0\<rparr>\<rparr>"] i
    by (simp add: is_touch_triggered_def is_some_and_def sample_touch_def)
qed

end
