(* ===== verification/Topic_Matching.thy ===== *)
theory Topic_Matching
  imports Containers
begin

text \<open>
  Topic patterns of the message bus (\<open>crates/common/src/msgbus/matching.rs\<close> and the checks of
  \<open>mstr.rs\<close>): patterns with the wildcards \<open>*\<close> (any run of bytes) and \<open>?\<close> (one byte), matched
  by the greedy two-pointer loop of the code. Strings are their UTF-8 bytes, as in the code.

  The loop has no counter that bounds it, so it is a partial function and \<open>None\<close> would be a
  loop that never ends. It always ends, and decides the textbook meaning of a
  pattern, \<open>glob\<close>, provided that no star is in the topic, which the construction of a topic
  checks: the loop compares a byte of the topic with the pattern before it looks for a star,
  so it takes a star of the topic for a literal.
\<close>

type_synonym bytes = "u8 list"

definition STAR :: u8 where "STAR = 42"

definition QMARK :: u8 where "QMARK = 63"

lemma STAR_neq_QMARK [simp]: "STAR \<noteq> QMARK" "QMARK \<noteq> STAR"
  by (simp_all add: STAR_def QMARK_def)

section \<open>The matcher\<close>

text \<open>The main loop, with the loop variables as arguments; it returns from the function with
  \<open>Inl\<close> and leaves the loop with the final position in the pattern as \<open>Inr\<close>.\<close>

partial_function (option) match_loop ::
  "bytes \<Rightarrow> bytes \<Rightarrow> nat \<Rightarrow> nat \<Rightarrow> nat option \<Rightarrow> nat \<Rightarrow> (bool + nat) option" where
  "match_loop topic pat i j star_idx match_idx =
     (if i < length topic then
        if j < length pat \<and> (pat ! j = QMARK \<or> pat ! j = topic ! i)
        then match_loop topic pat (i + 1) (j + 1) star_idx match_idx
        else if j < length pat \<and> pat ! j = STAR
        then match_loop topic pat i (j + 1) (Some j) i
        else (case star_idx of
            Some si \<Rightarrow> match_loop topic pat (match_idx + 1) (si + 1) star_idx (match_idx + 1)
          | None \<Rightarrow> Some (Inl False))
      else Some (Inr j))"

function skip_stars :: "bytes \<Rightarrow> nat \<Rightarrow> nat" where
  "skip_stars pat j = (if j < length pat \<and> pat ! j = STAR then skip_stars pat (j + 1) else j)"
  by pat_completeness auto
termination by (relation "measure (\<lambda>(pat, j). length pat - j)") auto

declare skip_stars.simps [simp del]

definition is_matching_greedy :: "bytes \<Rightarrow> bytes \<Rightarrow> bool option" where
  "is_matching_greedy topic pat =
     map_option (\<lambda>r. case r of Inl b \<Rightarrow> b | Inr j \<Rightarrow> skip_stars pat j = length pat) (match_loop topic pat 0 0 None 0)"

definition is_matching :: "bytes \<Rightarrow> bytes \<Rightarrow> bool option" where
  "is_matching topic pat =
     (if length topic = length pat \<and> STAR \<notin> set pat \<and> QMARK \<notin> set pat then Some (topic = pat)
      else is_matching_greedy topic pat)"

text \<open>\<open>blank\<close> stands for the test of the standard library that a string is only white space.\<close>

datatype topic_error = EmptyTopic | BlankTopic | WildcardInTopic

definition check_no_wildcards :: "bytes \<Rightarrow> topic_error + unit" where
  "check_no_wildcards value = (if list_ex (\<lambda>b. b = STAR \<or> b = QMARK) value then Inl WildcardInTopic else Inr ())"

definition check_valid_string_utf8 :: "(bytes \<Rightarrow> bool) \<Rightarrow> bytes \<Rightarrow> topic_error + unit" where
  "check_valid_string_utf8 blank s = (if s = [] then Inl EmptyTopic else if blank s then Inl BlankTopic else Inr ())"

definition topic_new :: "(bytes \<Rightarrow> bool) \<Rightarrow> bytes \<Rightarrow> topic_error + bytes" where
  "topic_new blank value =
     (case check_valid_string_utf8 blank value of
        Inl e \<Rightarrow> Inl e
      | Inr _ \<Rightarrow> (case check_no_wildcards value of Inl e \<Rightarrow> Inl e | Inr _ \<Rightarrow> Inr value))"

section \<open>The meaning of a pattern\<close>

fun glob :: "bytes \<Rightarrow> bytes \<Rightarrow> bool" where
  "glob [] t = (t = [])"
| "glob (p # ps) [] = (p = STAR \<and> glob ps [])"
| "glob (p # ps) (c # t) =
     (if p = STAR then glob ps (c # t) \<or> glob (p # ps) t else (p = QMARK \<or> p = c) \<and> glob ps t)"

definition byte_ok :: "u8 \<Rightarrow> u8 \<Rightarrow> bool" where
  "byte_ok p c \<longleftrightarrow> p = QMARK \<or> p = c"

lemma glob_star: "glob (STAR # ps) t \<longleftrightarrow> (\<exists>k \<le> length t. glob ps (drop k t))"
proof (induction t)
  case (Cons c t)
  have "(\<exists>k \<le> length (c # t). glob ps (drop k (c # t))) \<longleftrightarrow>
      glob ps (c # t) \<or> (\<exists>k \<le> length t. glob ps (drop k t))" (is "?l \<longleftrightarrow> ?r")
  proof
    assume ?l
    then obtain k where "k \<le> length (c # t)" "glob ps (drop k (c # t))" by blast
    then show ?r by (cases k) auto
  next
    assume ?r
    then show ?l
    proof
      assume "\<exists>k \<le> length t. glob ps (drop k t)"
      then obtain k where "k \<le> length t" "glob ps (drop k t)" by blast
      then show ?l by (intro exI [of _ "Suc k"]) simp
    qed (intro exI [of _ 0], simp)
  qed
  then show ?case using Cons by simp
qed simp

lemma glob_seg:
  "STAR \<notin> set seg \<Longrightarrow> glob (seg @ ps) t \<longleftrightarrow>
     length seg \<le> length t \<and> list_all2 byte_ok seg (take (length seg) t) \<and> glob ps (drop (length seg) t)"
proof (induction seg arbitrary: t)
  case (Cons p seg)
  then show ?case by (cases t) (auto simp: byte_ok_def)
qed simp

lemma glob_literal: "STAR \<notin> set ps \<Longrightarrow> QMARK \<notin> set ps \<Longrightarrow> glob ps t \<longleftrightarrow> t = ps"
proof (induction ps arbitrary: t)
  case (Cons p ps)
  then show ?case by (cases t) auto
qed simp

lemma glob_skip_stars: "j \<le> length pat \<Longrightarrow> skip_stars pat j = length pat \<longleftrightarrow> glob (drop j pat) []"
proof (induction pat j rule: skip_stars.induct)
  case (1 pat j)
  show ?case
  proof (cases "j < length pat \<and> pat ! j = STAR")
    case True
    then have "drop j pat = STAR # drop (j + 1) pat" using Cons_nth_drop_Suc [of j pat] by simp
    then show ?thesis using True 1 by (simp add: skip_stars.simps [of pat j])
  next
    case False
    then have "skip_stars pat j = j" by (subst skip_stars.simps) (use False in auto)
    moreover have "drop j pat = [] \<or> drop j pat = pat ! j # drop (Suc j) pat" "j < length pat \<longleftrightarrow> drop j pat \<noteq> []"
      using Cons_nth_drop_Suc [of j pat] by (cases "j < length pat"; simp)+
    ultimately show ?thesis using 1(2) False by auto
  qed
qed

section \<open>The loop decides the meaning\<close>

text \<open>What the loop variables mean. After a star at \<open>s\<close> the bytes \<open>seg\<close> of the pattern
  have been matched with the topic from \<open>match_idx\<close> on, and the answer is whether the pattern
  after the star matches the topic from \<open>match_idx\<close> or later.\<close>

definition loop_inv :: "bytes \<Rightarrow> bytes \<Rightarrow> nat \<Rightarrow> nat \<Rightarrow> nat option \<Rightarrow> nat \<Rightarrow> bool" where
  "loop_inv topic pat i j star mi \<longleftrightarrow> j \<le> length pat \<and> i \<le> length topic \<and>
     (case star of
        None \<Rightarrow> mi \<le> i \<and> (glob pat topic \<longleftrightarrow> glob (drop j pat) (drop i topic))
      | Some s \<Rightarrow> s < j \<and> (\<exists>seg. drop (s + 1) pat = seg @ drop j pat \<and> STAR \<notin> set seg \<and> i = mi + length seg \<and>
          list_all2 byte_ok seg (take (length seg) (drop mi topic)) \<and>
          (glob pat topic \<longleftrightarrow> (\<exists>k. mi \<le> k \<and> k \<le> length topic \<and> glob (seg @ drop j pat) (drop k topic)))))"

lemma loop_inv_Some:
  assumes "loop_inv topic pat i j (Some s) mi"
  obtains seg where "s < j" "drop (s + 1) pat = seg @ drop j pat" "STAR \<notin> set seg" "i = mi + length seg"
    "list_all2 byte_ok seg (take (length seg) (drop mi topic))"
    "glob pat topic \<longleftrightarrow> (\<exists>k. mi \<le> k \<and> k \<le> length topic \<and> glob (seg @ drop j pat) (drop k topic))"
  using assms that unfolding loop_inv_def option.case by blast

lemma drop_nth: "j < length xs \<Longrightarrow> drop j xs = xs ! j # drop (j + 1) xs"
  using Cons_nth_drop_Suc [of j xs] by simp

lemma loop_match:
  assumes "loop_inv topic pat i j star mi" and "i < length topic" and "j < length pat" and "byte_ok (pat ! j) (topic ! i)"
    and "STAR \<notin> set topic"
  shows "loop_inv topic pat (i + 1) (j + 1) star mi"
proof -
  have "topic ! i \<noteq> STAR" using assms(2,5) by (metis nth_mem)
  then have ns: "pat ! j \<noteq> STAR" using assms(4) by (auto simp: byte_ok_def)
  show ?thesis
  proof (cases star)
    case None
    then show ?thesis using assms ns by (auto simp: loop_inv_def drop_nth byte_ok_def)
  next
    case (Some s)
    obtain seg where seg: "s < j" "drop (s + 1) pat = seg @ drop j pat" "STAR \<notin> set seg" "i = mi + length seg"
      "list_all2 byte_ok seg (take (length seg) (drop mi topic))"
      "glob pat topic \<longleftrightarrow> (\<exists>k. mi \<le> k \<and> k \<le> length topic \<and> glob (seg @ drop j pat) (drop k topic))"
      using loop_inv_Some [OF assms(1) [unfolded Some]] .
    have e: "seg @ drop j pat = (seg @ [pat ! j]) @ drop (j + 1) pat" using drop_nth [OF assms(3)] by simp
    have "take (length seg + 1) (drop mi topic) = take (length seg) (drop mi topic) @ [topic ! i]"
      using assms(2) seg(4) by (simp add: take_Suc_conv_app_nth)
    then have "list_all2 byte_ok (seg @ [pat ! j]) (take (length (seg @ [pat ! j])) (drop mi topic))"
      using seg(5) assms(4) by (auto intro: list_all2_appendI)
    then show ?thesis using Some assms(2,3) seg ns e
      unfolding loop_inv_def by (auto intro!: exI [of _ "seg @ [pat ! j]"])
  qed
qed

lemma loop_star:
  assumes "loop_inv topic pat i j star mi" and "i < length topic" and "j < length pat" and "pat ! j = STAR"
  shows "loop_inv topic pat i (j + 1) (Some j) i"
proof -
  have d: "drop j pat = STAR # drop (j + 1) pat" using drop_nth [OF assms(3)] assms(4) by simp
  have later: "glob (STAR # ps) (drop a topic) \<longleftrightarrow> (\<exists>k. a \<le> k \<and> k \<le> length topic \<and> glob ps (drop k topic))"
    if "a \<le> length topic" for a ps
  proof -
    have "(\<exists>k \<le> length topic - a. glob ps (drop (a + k) topic)) \<longleftrightarrow>
        (\<exists>k. a \<le> k \<and> k \<le> length topic \<and> glob ps (drop k topic))" (is "?l \<longleftrightarrow> ?r")
    proof
      assume ?r
      then obtain k where "a \<le> k" "k \<le> length topic" "glob ps (drop k topic)" by blast
      then show ?l by (intro exI [of _ "k - a"]) simp
    next
      assume ?l
      then obtain k where "k \<le> length topic - a" "glob ps (drop (a + k) topic)" by blast
      then show ?r using that by (intro exI [of _ "a + k"]) simp
    qed
    then show ?thesis by (simp add: glob_star add.commute)
  qed
  have "glob pat topic \<longleftrightarrow> (\<exists>k. i \<le> k \<and> k \<le> length topic \<and> glob (drop (j + 1) pat) (drop k topic))"
  proof (cases star)
    case None
    then show ?thesis using assms(1,2) d later [of i] by (auto simp: loop_inv_def)
  next
    case (Some s)
    obtain seg where seg: "s < j" "drop (s + 1) pat = seg @ drop j pat" "STAR \<notin> set seg" "i = mi + length seg"
      "list_all2 byte_ok seg (take (length seg) (drop mi topic))"
      "glob pat topic \<longleftrightarrow> (\<exists>k. mi \<le> k \<and> k \<le> length topic \<and> glob (seg @ drop j pat) (drop k topic))"
      using loop_inv_Some [OF assms(1) [unfolded Some]] .
    have "(\<exists>k. mi \<le> k \<and> k \<le> length topic \<and> glob (seg @ drop j pat) (drop k topic)) \<longleftrightarrow>
        (\<exists>k. i \<le> k \<and> k \<le> length topic \<and> glob (drop (j + 1) pat) (drop k topic))" (is "?l \<longleftrightarrow> ?r")
    proof
      assume ?l
      then obtain k where k: "mi \<le> k" "k \<le> length topic" "glob (seg @ drop j pat) (drop k topic)" by blast
      then have "length seg \<le> length topic - k" "glob (STAR # drop (j + 1) pat) (drop (length seg + k) topic)"
        using seg(3) d by (simp_all add: glob_seg)
      then obtain q where "length seg + k \<le> q" "q \<le> length topic" "glob (drop (j + 1) pat) (drop q topic)"
        using later [of "length seg + k" "drop (j + 1) pat"] k(2) by (auto simp: le_diff_conv2)
      then show ?r using k(1) seg(4) by (intro exI [of _ q]) simp
    next
      assume ?r
      then have "glob (STAR # drop (j + 1) pat) (drop i topic)" using later [of i] assms(2) by simp
      then have "glob (seg @ drop j pat) (drop mi topic)"
        using seg(3-5) assms(2) d by (simp add: glob_seg add.commute)
      then show ?l using seg(4) assms(2) by (intro exI [of _ mi]) simp
    qed
    then show ?thesis using seg(6) by simp
  qed
  then show ?thesis using assms(2,3) by (simp add: loop_inv_def)
qed

lemma loop_backtrack:
  assumes "loop_inv topic pat i j (Some s) mi" and "i < length topic"
    and "\<not> (j < length pat \<and> byte_ok (pat ! j) (topic ! i))" and "\<not> (j < length pat \<and> pat ! j = STAR)"
  shows "loop_inv topic pat (mi + 1) (s + 1) (Some s) (mi + 1)"
proof -
  obtain seg where seg: "s < j" "drop (s + 1) pat = seg @ drop j pat" "STAR \<notin> set seg" "i = mi + length seg"
      "list_all2 byte_ok seg (take (length seg) (drop mi topic))"
      "glob pat topic \<longleftrightarrow> (\<exists>k. mi \<le> k \<and> k \<le> length topic \<and> glob (seg @ drop j pat) (drop k topic))"
    using loop_inv_Some [OF assms(1)] .
  have "\<not> glob (drop j pat) (drop i topic)"
    using assms(2-4) drop_nth [of i topic] drop_nth [of j pat] by (cases "j < length pat") (auto simp: byte_ok_def)
  then have "\<not> glob (seg @ drop j pat) (drop mi topic)" using seg(3,4) by (simp add: glob_seg add.commute)
  then have "glob pat topic \<longleftrightarrow> (\<exists>k. mi + 1 \<le> k \<and> k \<le> length topic \<and> glob (drop (s + 1) pat) (drop k topic))"
    using seg(2,6) by (metis Suc_eq_plus1 not_less_eq_eq le_antisym Suc_leD)
  moreover have "s + 1 \<le> length pat" using assms(1) seg(1) by (simp add: loop_inv_def)
  ultimately show ?thesis using assms(2) seg(4) by (simp add: loop_inv_def)
qed

lemma loop_end:
  assumes "loop_inv topic pat i j star mi" and "\<not> i < length topic"
  shows "glob pat topic \<longleftrightarrow> glob (drop j pat) []"
proof (cases star)
  case (Some s)
  have n: "i = length topic" using assms by (simp add: loop_inv_def)
  obtain seg where seg: "s < j" "drop (s + 1) pat = seg @ drop j pat" "STAR \<notin> set seg" "i = mi + length seg"
      "list_all2 byte_ok seg (take (length seg) (drop mi topic))"
      "glob pat topic \<longleftrightarrow> (\<exists>k. mi \<le> k \<and> k \<le> length topic \<and> glob (seg @ drop j pat) (drop k topic))"
    using loop_inv_Some [OF assms(1) [unfolded Some]] .
  have "glob (seg @ drop j pat) (drop k topic) \<longleftrightarrow> k = mi \<and> glob (drop j pat) []" if "mi \<le> k" "k \<le> length topic" for k
    using that n seg(3-5) by (auto simp: glob_seg)
  moreover have "mi \<le> length topic" using n seg(4) by simp
  ultimately show ?thesis using seg(6) by blast
qed (use assms in \<open>auto simp: loop_inv_def\<close>)

lemma match_loop_correct:
  assumes "loop_inv topic pat i j star mi" and "STAR \<notin> set topic"
  shows "\<exists>r. match_loop topic pat i j star mi = Some r \<and>
    (case r of Inl b \<Rightarrow> b = glob pat topic | Inr j' \<Rightarrow> (skip_stars pat j' = length pat) = glob pat topic)"
  using assms(1)
proof (induction "(i, j, star, mi)" arbitrary: i j star mi
    rule: wf_induct_rule [OF wf_measures [of "[\<lambda>(i, j, star, mi). length pat + 1 - (case star of None \<Rightarrow> 0 | Some s \<Rightarrow> s + 1),
      \<lambda>(i, j, star, mi). length topic - mi, \<lambda>(i, j, star, mi). length topic - i]"]])
  case (1 i j star mi)
  note inv = 1(2)
  have bounds: "j \<le> length pat" "mi \<le> i" "\<And>s. star = Some s \<Longrightarrow> s < j"
    using inv by (auto simp: loop_inv_def split: option.splits)
  consider (stop) "\<not> i < length topic"
    | (match) "i < length topic" "j < length pat" "byte_ok (pat ! j) (topic ! i)"
    | (star) "i < length topic" "\<not> (j < length pat \<and> byte_ok (pat ! j) (topic ! i))" "j < length pat" "pat ! j = STAR"
    | (again) s where "i < length topic" "\<not> (j < length pat \<and> byte_ok (pat ! j) (topic ! i))"
        "\<not> (j < length pat \<and> pat ! j = STAR)" "star = Some s"
    | (fail) "i < length topic" "\<not> (j < length pat \<and> byte_ok (pat ! j) (topic ! i))"
        "\<not> (j < length pat \<and> pat ! j = STAR)" "star = None"
    by (cases star) blast+
  then show ?case
  proof cases
    case stop
    then show ?thesis using loop_end [OF inv stop] glob_skip_stars [OF bounds(1)] by (simp add: match_loop.simps)
  next
    case match
    then show ?thesis using 1(1) [OF _ loop_match [OF inv match assms(2)]]
      by (simp add: match_loop.simps [of topic pat i j] byte_ok_def)
  next
    case star
    have "length pat + 1 - (j + 1) < length pat + 1 - (case star of None \<Rightarrow> 0 | Some s \<Rightarrow> s + 1)"
      using star(3) bounds(3) by (cases star) auto
    then show ?thesis using star 1(1) [OF _ loop_star [OF inv star(1,3,4)]]
      by (simp add: match_loop.simps [of topic pat i j] byte_ok_def)
  next
    case again
    have "length topic - (mi + 1) < length topic - mi" using again(1) bounds(2) by simp
    then have "\<exists>r. match_loop topic pat (mi + 1) (s + 1) (Some s) (mi + 1) = Some r \<and>
        (case r of Inl b \<Rightarrow> b = glob pat topic | Inr j' \<Rightarrow> (skip_stars pat j' = length pat) = glob pat topic)"
      using again(4) 1(1) [OF _ loop_backtrack [OF inv [unfolded again(4)] again(1-3)]] by simp
    then show ?thesis using again by (auto simp: match_loop.simps [of topic pat i j] byte_ok_def)
  next
    case fail
    have "\<not> glob (drop j pat) (drop i topic)"
      using fail drop_nth [of i topic] drop_nth [of j pat] by (cases "j < length pat") (auto simp: byte_ok_def)
    then show ?thesis using fail inv by (auto simp: match_loop.simps [of topic pat i j] byte_ok_def loop_inv_def)
  qed
qed

lemma is_matching_glob: "STAR \<notin> set topic \<Longrightarrow> is_matching topic pat = Some (glob pat topic)"
proof -
  assume s: "STAR \<notin> set topic"
  have "loop_inv topic pat 0 0 None 0" by (simp add: loop_inv_def)
  from match_loop_correct [OF this s] have "is_matching_greedy topic pat = Some (glob pat topic)"
    by (auto simp: is_matching_greedy_def split: sum.splits)
  then show ?thesis using glob_literal [of pat topic] by (auto simp: is_matching_def)
qed

text \<open>The loop ends on every input: the last star moves to the right, and between two moves the match
  after it, and then the position in the topic, do.\<close>

lemma match_loop_ends:
  assumes "mi \<le> i" "\<forall>s. star = Some s \<longrightarrow> s < j"
  shows "match_loop topic pat i j star mi \<noteq> None"
  using assms
proof (induction "(i, j, star, mi)" arbitrary: i j star mi
    rule: wf_induct_rule [OF wf_measures [of "[\<lambda>(i, j, star, mi). length pat + 1 - (case star of None \<Rightarrow> 0 | Some s \<Rightarrow> s + 1),
      \<lambda>(i, j, star, mi). length topic - mi, \<lambda>(i, j, star, mi). length topic - i]"]])
  case (1 i j star mi)
  note IH = 1(1) and bounds = 1(2,3)
  have "match_loop topic pat (i + 1) (j + 1) star mi \<noteq> None" if "i < length topic"
    by (rule IH) (use that bounds in auto)
  moreover have "match_loop topic pat i (j + 1) (Some j) i \<noteq> None" if "j < length pat"
    by (rule IH) (use that bounds in \<open>auto split: option.splits\<close>)
  moreover have "match_loop topic pat (mi + 1) (s + 1) (Some s) (mi + 1) \<noteq> None" if "i < length topic" "star = Some s" for s
    by (rule IH) (use that bounds in auto)
  ultimately show ?case by (subst match_loop.simps) (auto split: option.splits)
qed

lemma is_matching_ends: "\<exists>r. is_matching topic pat = Some r"
  using match_loop_ends [of 0 0 None 0 topic pat] by (auto simp: is_matching_def is_matching_greedy_def)

lemma topic_new_no_star: "topic_new blank value = Inr topic \<Longrightarrow> topic = value \<and> STAR \<notin> set topic \<and> QMARK \<notin> set topic"
  by (auto simp: topic_new_def check_no_wildcards_def list_ex_iff split: sum.splits if_splits)

section \<open>Properties\<close>

text \<open>C12: the matcher ends on all bytes, and decides the meaning of the pattern on topics. It returns for
  every topic and every pattern, also for a topic that the construction of topics refuses. For a
  topic that the construction accepts it returns whether the pattern, read with a star for any run
  of bytes (the empty one as well) and a question mark for one byte, matches the whole topic. The
  documentation of the bus speaks of characters: the two differ outside of ASCII, where a question
  mark does not match a character of two bytes, and two question marks match it.\<close>

theorem matching_decides_glob:
  "(\<exists>r. is_matching topic pat = Some r) \<and>
   (topic_new blank value = Inr topic \<longrightarrow> is_matching topic pat = Some (glob pat topic)) \<and>
   (\<forall>b1 b2. 128 \<le> b1 \<and> 128 \<le> b2 \<longrightarrow>
      is_matching [b1, b2] [QMARK] = Some False \<and> is_matching [b1, b2] [QMARK, QMARK] = Some True)"
proof -
  have "is_matching [b1, b2] [QMARK] = Some False \<and> is_matching [b1, b2] [QMARK, QMARK] = Some True"
    if "128 \<le> b1 \<and> 128 \<le> b2" for b1 b2
  proof -
    have "STAR \<notin> set [b1, b2]" using that by (auto simp: STAR_def)
    then show ?thesis by (simp add: is_matching_glob)
  qed
  then show ?thesis using is_matching_ends is_matching_glob topic_new_no_star by blast
qed

theorem matching_decides_glob_witness:
  "is_matching [97, 46, 98] [97, 42] = Some True \<and> is_matching [0xC3, 0xA9] [QMARK] = Some False"
proof -
  have "topic_new (\<lambda>_. False) [97, 46, 98] = Inr [97, 46, 98]"
    by (simp add: topic_new_def check_valid_string_utf8_def check_no_wildcards_def STAR_def QMARK_def)
  then have "is_matching [97, 46, 98] [97, 42] = Some (glob [97, 42] [97, 46, 98])"
    using matching_decides_glob [of "[97, 46, 98]" "[97, 42]" "\<lambda>_. False" "[97, 46, 98]"] by blast
  moreover have "glob [97, 42] [97, 46, 98]" by (simp add: STAR_def QMARK_def)
  moreover have "is_matching [0xC3, 0xA9] [QMARK] = Some False"
    using matching_decides_glob [THEN conjunct2, THEN conjunct2, rule_format, of "0xC3" "0xA9"] by simp
  ultimately show ?thesis by simp
qed

end
