(* ===== verification/Topic_Router.thy ===== *)
theory Topic_Router
  imports Topic_Matching "HOL-Library.Multiset"
begin

text \<open>
  The typed topic router of the message bus (\<open>crates/common/src/msgbus/typed_router.rs\<close>):
  subscriptions in priority order, and a cache from topics to the indices of the matching subscriptions.
  A handler is its identifier and a body; calling handlers is the list of the
  handlers called with the message. \<open>ule\<close> is the order of interned strings (\<open>Ustr\<close>), which
  decides between subscriptions of the same priority; nothing is assumed of it.

  What is shown: after any sequence of operations, publishing to a topic calls exactly the
  handlers of the subscriptions that are active and whose patterns match, once each, in order
  of priority; the cached indices are never stale or out of range.
\<close>

section \<open>Subscriptions\<close>

record 'h typed_handler =
  th_id :: bytes
  th_body :: 'h

record 'h subscription =
  sub_handler :: "'h typed_handler"
  sub_handler_id :: bytes
  sub_pattern :: bytes
  sub_priority :: u8

definition subscription_new :: "bytes \<Rightarrow> 'h typed_handler \<Rightarrow> u8 option \<Rightarrow> 'h subscription" where
  "subscription_new pattern handler priority =
     \<lparr>sub_handler = handler, sub_handler_id = th_id handler, sub_pattern = pattern,
      sub_priority = (case priority of Some p \<Rightarrow> p | None \<Rightarrow> 0)\<rparr>"

definition sub_eq :: "'h subscription \<Rightarrow> 'h subscription \<Rightarrow> bool" where
  "sub_eq a b \<longleftrightarrow> sub_pattern a = sub_pattern b \<and> sub_handler_id a = sub_handler_id b"

text \<open>\<open>cmp\<close> is not \<open>Greater\<close>.\<close>

definition sub_le :: "(bytes \<Rightarrow> bytes \<Rightarrow> bool) \<Rightarrow> 'h subscription \<Rightarrow> 'h subscription \<Rightarrow> bool" where
  "sub_le ule a b \<longleftrightarrow>
     (if sub_priority a \<noteq> sub_priority b then sub_priority b < sub_priority a
      else if sub_pattern a \<noteq> sub_pattern b then ule (sub_pattern a) (sub_pattern b)
      else ule (sub_handler_id a) (sub_handler_id b))"

text \<open>The stable sort of a vector.\<close>

fun insert_sub :: "(bytes \<Rightarrow> bytes \<Rightarrow> bool) \<Rightarrow> 'h subscription \<Rightarrow> 'h subscription list \<Rightarrow> 'h subscription list" where
  "insert_sub ule x [] = [x]"
| "insert_sub ule x (y # ys) = (if sub_le ule x y then x # y # ys else y # insert_sub ule x ys)"

definition sort_subs :: "(bytes \<Rightarrow> bytes \<Rightarrow> bool) \<Rightarrow> 'h subscription list \<Rightarrow> 'h subscription list" where
  "sort_subs ule xs = foldr (insert_sub ule) xs []"

section \<open>The router\<close>

record 'h topic_router =
  tr_subscriptions :: "'h subscription list"
  tr_topic_cache :: "(bytes, nat list) index_map"

definition router_new :: "'h topic_router" where
  "router_new = \<lparr>tr_subscriptions = [], tr_topic_cache = []\<rparr>"

definition router_subscribe ::
  "(bytes \<Rightarrow> bytes \<Rightarrow> bool) \<Rightarrow> 'h topic_router \<Rightarrow> bytes \<Rightarrow> 'h typed_handler \<Rightarrow> u8 \<Rightarrow> 'h topic_router" where
  "router_subscribe ule r pattern handler priority =
     (let sub = subscription_new pattern handler (Some priority)
      in if list_ex (\<lambda>s. sub_eq s sub) (tr_subscriptions r) then r
         else r\<lparr>tr_subscriptions := sort_subs ule (tr_subscriptions r @ [sub]), tr_topic_cache := []\<rparr>)"

text \<open>The index of the first subscription of a pattern and handler, and removal at an index.\<close>

fun sub_position :: "bytes \<Rightarrow> bytes \<Rightarrow> 'h subscription list \<Rightarrow> nat option" where
  "sub_position pattern hid [] = None"
| "sub_position pattern hid (s # ss) =
     (if sub_pattern s = pattern \<and> sub_handler_id s = hid then Some 0
      else map_option Suc (sub_position pattern hid ss))"

definition vec_remove :: "nat \<Rightarrow> 'a list \<Rightarrow> 'a list" where
  "vec_remove i xs = take i xs @ drop (i + 1) xs"

definition remove_handler :: "'h topic_router \<Rightarrow> bytes \<Rightarrow> bytes \<Rightarrow> 'h topic_router" where
  "remove_handler r pattern hid =
     (case sub_position pattern hid (tr_subscriptions r) of
        Some idx \<Rightarrow> r\<lparr>tr_subscriptions := vec_remove idx (tr_subscriptions r), tr_topic_cache := []\<rparr>
      | None \<Rightarrow> r)"

definition router_unsubscribe :: "'h topic_router \<Rightarrow> bytes \<Rightarrow> 'h typed_handler \<Rightarrow> 'h topic_router" where
  "router_unsubscribe r pattern handler =
     (case sub_position pattern (th_id handler) (tr_subscriptions r) of
        Some idx \<Rightarrow> r\<lparr>tr_subscriptions := vec_remove idx (tr_subscriptions r), tr_topic_cache := []\<rparr>
      | None \<Rightarrow> r)"

definition is_subscribed :: "'h topic_router \<Rightarrow> bytes \<Rightarrow> 'h typed_handler \<Rightarrow> bool" where
  "is_subscribed r pattern handler =
     list_ex (\<lambda>s. sub_pattern s = pattern \<and> sub_handler_id s = th_id handler) (tr_subscriptions r)"

fun match_indices :: "bytes \<Rightarrow> nat \<Rightarrow> 'h subscription list \<Rightarrow> nat list option" where
  "match_indices topic idx [] = Some []"
| "match_indices topic idx (s # ss) = do {
     b \<leftarrow> is_matching topic (sub_pattern s);
     rest \<leftarrow> match_indices topic (idx + 1) ss;
     Some (if b then idx # rest else rest)
   }"

definition find_matches :: "'h topic_router \<Rightarrow> bytes \<Rightarrow> nat list option" where
  "find_matches r topic = match_indices topic 0 (tr_subscriptions r)"

definition get_matching_indices :: "'h topic_router \<Rightarrow> bytes \<Rightarrow> nat list option" where
  "get_matching_indices r topic = im_get (tr_topic_cache r) topic"

definition get_or_compute_matching_indices :: "'h topic_router \<Rightarrow> bytes \<Rightarrow> (nat list \<times> 'h topic_router) option" where
  "get_or_compute_matching_indices r topic =
     (case im_get (tr_topic_cache r) topic of
        Some indices \<Rightarrow> Some (indices, r)
      | None \<Rightarrow> do {
          indices \<leftarrow> find_matches r topic;
          Some (indices, r\<lparr>tr_topic_cache := im_insert topic indices (tr_topic_cache r)\<rparr>)
        })"

definition has_subscribers :: "'h topic_router \<Rightarrow> bytes \<Rightarrow> bool option" where
  "has_subscribers r topic =
     (case get_matching_indices r topic of
        Some indices \<Rightarrow> Some (indices \<noteq> [])
      | None \<Rightarrow> map_option (\<lambda>indices. indices \<noteq> []) (find_matches r topic))"

definition subscriber_count :: "'h topic_router \<Rightarrow> bytes \<Rightarrow> nat option" where
  "subscriber_count r topic =
     (case get_matching_indices r topic of
        Some indices \<Rightarrow> Some (length indices)
      | None \<Rightarrow> map_option length (find_matches r topic))"

definition exact_subscriber_count :: "'h topic_router \<Rightarrow> bytes \<Rightarrow> nat" where
  "exact_subscriber_count r topic = length (filter (\<lambda>s. sub_pattern s = topic) (tr_subscriptions r))"

text \<open>Indexing of a vector, a panic out of range, for all the indices in turn.\<close>

fun handlers_at :: "'h subscription list \<Rightarrow> nat list \<Rightarrow> 'h typed_handler list panics" where
  "handlers_at subs [] = Some []"
| "handlers_at subs (i # is) =
     (if i < length subs then map_option (\<lambda>hs. sub_handler (subs ! i) # hs) (handlers_at subs is) else None)"

definition get_matching_handlers :: "'h topic_router \<Rightarrow> bytes \<Rightarrow> ('h typed_handler list \<times> 'h topic_router) option" where
  "get_matching_handlers r topic = do {
     (indices, r') \<leftarrow> get_or_compute_matching_indices r topic;
     hs \<leftarrow> handlers_at (tr_subscriptions r') indices;
     Some (hs, r')
   }"

definition router_publish ::
  "'h topic_router \<Rightarrow> bytes \<Rightarrow> 'm \<Rightarrow> (('h typed_handler \<times> 'm) list \<times> 'h topic_router) option" where
  "router_publish r topic message = do {
     (indices, r') \<leftarrow> get_or_compute_matching_indices r topic;
     hs \<leftarrow> handlers_at (tr_subscriptions r') indices;
     Some (map (\<lambda>h. (h, message)) hs, r')
   }"

definition fill_matching_handlers ::
  "'h topic_router \<Rightarrow> bytes \<Rightarrow> 'h typed_handler list \<Rightarrow> ('h typed_handler list \<times> 'h topic_router) option" where
  "fill_matching_handlers r topic buf = do {
     (indices, r') \<leftarrow> get_or_compute_matching_indices r topic;
     hs \<leftarrow> handlers_at (tr_subscriptions r') indices;
     Some (buf @ hs, r')
   }"

definition router_clear :: "'h topic_router \<Rightarrow> 'h topic_router" where
  "router_clear r = r\<lparr>tr_subscriptions := [], tr_topic_cache := []\<rparr>"

section \<open>Runs of operations\<close>

datatype 'h router_op =
    Op_Subscribe bytes "'h typed_handler" u8
  | Op_Unsubscribe bytes "'h typed_handler"
  | Op_Remove bytes bytes
  | Op_Publish bytes
  | Op_Clear

fun router_step :: "(bytes \<Rightarrow> bytes \<Rightarrow> bool) \<Rightarrow> 'h router_op \<Rightarrow> 'h topic_router \<Rightarrow> 'h topic_router option" where
  "router_step ule (Op_Subscribe p h pri) r = Some (router_subscribe ule r p h pri)"
| "router_step ule (Op_Unsubscribe p h) r = Some (router_unsubscribe r p h)"
| "router_step ule (Op_Remove p i) r = Some (remove_handler r p i)"
| "router_step ule (Op_Publish t) r = map_option snd (router_publish r t ())"
| "router_step ule Op_Clear r = Some (router_clear r)"

text \<open>The specification: which subscriptions are active.\<close>

type_synonym 'h active = "bytes \<times> bytes \<Rightarrow> (u8 \<times> 'h typed_handler) option"

fun active_step :: "'h active \<Rightarrow> 'h router_op \<Rightarrow> 'h active" where
  "active_step m (Op_Subscribe p h pri) = (if m (p, th_id h) = None then m((p, th_id h) \<mapsto> (pri, h)) else m)"
| "active_step m (Op_Unsubscribe p h) = m((p, th_id h) := None)"
| "active_step m (Op_Remove p i) = m((p, i) := None)"
| "active_step m (Op_Publish t) = m"
| "active_step m Op_Clear = Map.empty"

definition op_valid :: "'h router_op \<Rightarrow> bool" where
  "op_valid x = (case x of Op_Publish t \<Rightarrow> STAR \<notin> set t | _ \<Rightarrow> True)"

section \<open>Lemmas\<close>

definition sub_key :: "'h subscription \<Rightarrow> bytes \<times> bytes" where
  "sub_key s = (sub_pattern s, sub_handler_id s)"

definition sub_val :: "'h subscription \<Rightarrow> u8 \<times> 'h typed_handler" where
  "sub_val s = (sub_priority s, sub_handler s)"

definition by_priority :: "'h subscription list \<Rightarrow> bool" where
  "by_priority = sorted_wrt (\<lambda>a b. sub_priority b \<le> sub_priority a)"

lemma set_insert_sub [simp]: "set (insert_sub ule x ys) = insert x (set ys)"
  by (induction ys) auto

lemma mset_insert_sub: "mset (insert_sub ule x ys) = add_mset x (mset ys)"
  by (induction ys) auto

lemma by_priority_insert: "by_priority ys \<Longrightarrow> by_priority (insert_sub ule x ys)"
proof (induction ys)
  case (Cons y ys)
  show ?case
  proof (cases "sub_le ule x y")
    case True
    then have "sub_priority y \<le> sub_priority x" by (auto simp: sub_le_def split: if_splits)
    then show ?thesis using True Cons.prems by (auto simp: by_priority_def)
  next
    case False
    then have "sub_priority x \<le> sub_priority y" by (auto simp: sub_le_def split: if_splits)
    then show ?thesis using False Cons by (auto simp: by_priority_def)
  qed
qed (simp add: by_priority_def)

lemma sort_subs_facts: "mset (sort_subs ule xs) = mset xs" "by_priority (sort_subs ule xs)"
proof -
  show "mset (sort_subs ule xs) = mset xs" by (induction xs) (simp_all add: sort_subs_def mset_insert_sub)
  show "by_priority (sort_subs ule xs)"
    by (induction xs) (simp_all add: sort_subs_def by_priority_insert, simp add: by_priority_def)
qed

lemma sub_position_remove:
  "distinct (map sub_key subs) \<Longrightarrow>
   (case sub_position p i subs of Some idx \<Rightarrow> vec_remove idx subs | None \<Rightarrow> subs) = filter (\<lambda>s. sub_key s \<noteq> (p, i)) subs"
proof (induction subs)
  case (Cons s subs)
  show ?case
  proof (cases "sub_key s = (p, i)")
    case True
    then have "filter (\<lambda>s. sub_key s \<noteq> (p, i)) subs = subs"
      using Cons.prems by (auto simp: filter_id_conv image_iff)
    then show ?thesis using True by (simp add: sub_key_def vec_remove_def)
  next
    case False
    then show ?thesis using Cons by (auto simp: sub_key_def vec_remove_def split: option.splits)
  qed
qed simp

text \<open>The matching subscriptions, by index and by name.\<close>

lemma match_indices_handlers:
  assumes "STAR \<notin> set topic"
  shows "\<exists>is. match_indices topic (length pre) subs = Some is \<and>
    handlers_at (pre @ subs) is = Some (map sub_handler (filter (\<lambda>s. glob (sub_pattern s) topic) subs))"
proof (induction subs arbitrary: pre)
  case (Cons s subs)
  obtain "is" where "match_indices topic (length (pre @ [s])) subs = Some is"
    "handlers_at ((pre @ [s]) @ subs) is = Some (map sub_handler (filter (\<lambda>s. glob (sub_pattern s) topic) subs))"
    using Cons.IH [of "pre @ [s]"] by blast
  then show ?case using is_matching_glob [OF assms] by simp
qed simp

lemma find_matches_handlers:
  assumes "STAR \<notin> set topic"
  obtains "is" where "find_matches r topic = Some is"
    "handlers_at (tr_subscriptions r) is = Some (map sub_handler (filter (\<lambda>s. glob (sub_pattern s) topic) (tr_subscriptions r)))"
  using match_indices_handlers [OF assms, of "[]" "tr_subscriptions r"] by (auto simp: find_matches_def)

section \<open>The router refines the specification\<close>

definition represents :: "'h topic_router \<Rightarrow> 'h active \<Rightarrow> bool" where
  "represents r m \<longleftrightarrow> distinct (map sub_key (tr_subscriptions r)) \<and> by_priority (tr_subscriptions r) \<and>
     im_wf (tr_topic_cache r) \<and>
     (\<forall>k v. m k = Some v \<longleftrightarrow> (\<exists>s \<in> set (tr_subscriptions r). sub_key s = k \<and> sub_val s = v)) \<and>
     (\<forall>t is. im_get (tr_topic_cache r) t = Some is \<longrightarrow> STAR \<notin> set t \<and> find_matches r t = Some is)"

lemma represents_None:
  assumes "represents r m"
  shows "m k = None \<longleftrightarrow> k \<notin> sub_key ` set (tr_subscriptions r)"
proof -
  have rep: "m k = Some v \<longleftrightarrow> (\<exists>s \<in> set (tr_subscriptions r). sub_key s = k \<and> sub_val s = v)" for v
    using assms unfolding represents_def by blast
  show ?thesis
  proof (cases "m k")
    case None
    then show ?thesis using rep by (metis imageE option.distinct(1))
  next
    case (Some v)
    then show ?thesis using rep [of v] by auto
  qed
qed

lemma represents_new: "represents router_new Map.empty"
  by (simp add: represents_def router_new_def by_priority_def)

lemma represents_fresh:
  assumes "distinct (map sub_key subs)" and "by_priority subs"
    and "\<forall>k v. m k = Some v \<longleftrightarrow> (\<exists>s \<in> set subs. sub_key s = k \<and> sub_val s = v)"
  shows "represents (r\<lparr>tr_subscriptions := subs, tr_topic_cache := []\<rparr>) m"
  using assms by (simp add: represents_def)

lemma represents_subscribe:
  assumes "represents r m"
  shows "represents (router_subscribe ule r p h pri) (active_step m (Op_Subscribe p h pri))"
proof -
  let ?sub = "subscription_new p h (Some pri)" and ?subs = "tr_subscriptions r"
  have key: "sub_key ?sub = (p, th_id h)" "sub_val ?sub = (pri, h)"
    by (simp_all add: sub_key_def sub_val_def subscription_new_def)
  have present: "list_ex (\<lambda>s. sub_eq s ?sub) ?subs \<longleftrightarrow> m (p, th_id h) \<noteq> None"
  proof -
    have "list_ex (\<lambda>s. sub_eq s ?sub) ?subs \<longleftrightarrow> (p, th_id h) \<in> sub_key ` set ?subs"
      by (auto simp: list_ex_iff sub_eq_def sub_key_def subscription_new_def image_iff)
    then show ?thesis using represents_None [OF assms, of "(p, th_id h)"] by argo
  qed
  show ?thesis
  proof (cases "m (p, th_id h)")
    case (Some v)
    then show ?thesis using assms present by (simp add: router_subscribe_def)
  next
    case None
    then have new: "(p, th_id h) \<notin> sub_key ` set ?subs" using represents_None [OF assms] by blast
    have ms: "mset (map sub_key (sort_subs ule (?subs @ [?sub]))) = mset (map sub_key (?subs @ [?sub]))"
      by (simp only: mset_map sort_subs_facts)
    have st: "set (sort_subs ule (?subs @ [?sub])) = insert ?sub (set ?subs)"
      using arg_cong [OF sort_subs_facts(1) [of ule "?subs @ [?sub]"], of set_mset] by auto
    have "represents (r\<lparr>tr_subscriptions := sort_subs ule (?subs @ [?sub]), tr_topic_cache := []\<rparr>)
        (m((p, th_id h) \<mapsto> (pri, h)))"
    proof (rule represents_fresh)
      show "distinct (map sub_key (sort_subs ule (?subs @ [?sub])))"
        unfolding mset_eq_imp_distinct_iff [OF ms] using assms new key(1) by (simp add: represents_def)
      show "\<forall>k v. (m((p, th_id h) \<mapsto> (pri, h))) k = Some v \<longleftrightarrow>
          (\<exists>s \<in> set (sort_subs ule (?subs @ [?sub])). sub_key s = k \<and> sub_val s = v)"
        using assms new key unfolding st represents_def by (auto simp: image_iff)
    qed (rule sort_subs_facts(2))
    then show ?thesis using None present by (simp add: router_subscribe_def Let_def)
  qed
qed

lemma represents_remove:
  assumes "represents r m"
  shows "represents (remove_handler r p i) (m((p, i) := None))"
proof -
  let ?subs = "tr_subscriptions r" and ?rest = "filter (\<lambda>s. sub_key s \<noteq> (p, i)) (tr_subscriptions r)"
  have d: "distinct (map sub_key ?subs)" using assms by (simp add: represents_def)
  show ?thesis
  proof (cases "sub_position p i ?subs")
    case None
    then have "?rest = ?subs" using sub_position_remove [OF d, of p i] by simp
    then have "(p, i) \<notin> sub_key ` set ?subs" by (auto simp: filter_id_conv)
    then have "m((p, i) := None) = m" using represents_None [OF assms, of "(p, i)"] by (simp add: fun_upd_idem)
    then show ?thesis using assms None by (simp add: remove_handler_def)
  next
    case (Some idx)
    then have e: "vec_remove idx ?subs = ?rest" using sub_position_remove [OF d, of p i] by simp
    have "represents (r\<lparr>tr_subscriptions := ?rest, tr_topic_cache := []\<rparr>) (m((p, i) := None))"
    proof (rule represents_fresh)
      show "distinct (map sub_key ?rest)" using d by (simp add: distinct_map_filter)
      show "by_priority ?rest" using assms by (simp add: represents_def by_priority_def sorted_wrt_filter)
      have "m k = Some v \<longleftrightarrow> (\<exists>s \<in> set ?subs. sub_key s = k \<and> sub_val s = v)" for k v
        using assms unfolding represents_def by blast
      then show "\<forall>k v. (m((p, i) := None)) k = Some v \<longleftrightarrow> (\<exists>s \<in> set ?rest. sub_key s = k \<and> sub_val s = v)"
        by auto
    qed
    then show ?thesis using Some e by (simp add: remove_handler_def)
  qed
qed

lemma unsubscribe_is_remove: "router_unsubscribe r p h = remove_handler r p (th_id h)"
  by (simp add: router_unsubscribe_def remove_handler_def)

text \<open>Looking a topic up returns the handlers of the matching subscriptions, from the cache or not.\<close>

lemma represents_lookup:
  assumes "represents r m" and "STAR \<notin> set topic"
  obtains "is" r' where "get_or_compute_matching_indices r topic = Some (is, r')" "represents r' m"
    "tr_subscriptions r' = tr_subscriptions r" "find_matches r topic = Some is"
    "handlers_at (tr_subscriptions r) is = Some (map sub_handler (filter (\<lambda>s. glob (sub_pattern s) topic) (tr_subscriptions r)))"
proof -
  obtain "is" where f: "find_matches r topic = Some is"
    "handlers_at (tr_subscriptions r) is = Some (map sub_handler (filter (\<lambda>s. glob (sub_pattern s) topic) (tr_subscriptions r)))"
    using find_matches_handlers [OF assms(2)] .
  show ?thesis
  proof (cases "im_get (tr_topic_cache r) topic")
    case None
    let ?r' = "r\<lparr>tr_topic_cache := im_insert topic is (tr_topic_cache r)\<rparr>"
    have "represents ?r' m"
      using assms f(1) by (auto simp: represents_def find_matches_def im.lookup_put im.invar_put split: if_splits)
    then show ?thesis using None f by (intro that [of "is" ?r']) (simp_all add: get_or_compute_matching_indices_def)
  next
    case (Some js)
    then have "js = is" using assms(1) f(1) by (simp add: represents_def)
    then show ?thesis using Some f assms(1) by (intro that [of "is" r]) (simp_all add: get_or_compute_matching_indices_def)
  qed
qed

lemma represents_publish:
  assumes "represents r m" and "STAR \<notin> set topic"
  shows "\<exists>r'. router_publish r topic msg =
      Some (map (\<lambda>s. (sub_handler s, msg)) (filter (\<lambda>s. glob (sub_pattern s) topic) (tr_subscriptions r)), r') \<and> represents r' m"
proof -
  obtain "is" r' where "get_or_compute_matching_indices r topic = Some (is, r')" "represents r' m"
    "tr_subscriptions r' = tr_subscriptions r"
    "handlers_at (tr_subscriptions r) is = Some (map sub_handler (filter (\<lambda>s. glob (sub_pattern s) topic) (tr_subscriptions r)))"
    by (rule represents_lookup [OF assms])
  then show ?thesis by (simp add: router_publish_def comp_def)
qed

lemma represents_step:
  assumes "represents r m" and "op_valid x"
  shows "\<exists>r'. router_step ule x r = Some r' \<and> represents r' (active_step m x)"
proof (cases x)
  case (Op_Publish t)
  then show ?thesis using represents_publish [OF assms(1), of t "()"] assms(2) by (auto simp: op_valid_def)
next
  case Op_Clear
  then show ?thesis using represents_fresh [of "[]" Map.empty r] by (simp add: router_clear_def by_priority_def)
next
  case (Op_Subscribe p h pri)
  then show ?thesis using represents_subscribe [OF assms(1)] by (simp del: active_step.simps)
qed (simp_all add: assms represents_remove unsubscribe_is_remove)

lemma represents_run:
  assumes "represents r m" and "\<forall>x \<in> set ops. op_valid x"
  shows "\<exists>r'. fold_opt (router_step ule) ops r = Some r' \<and> represents r' (foldl active_step m ops)"
  using assms
proof (induction ops arbitrary: r m)
  case (Cons x ops)
  obtain r' where "router_step ule x r = Some r'" "represents r' (active_step m x)"
    using represents_step [OF Cons.prems(1), of x ule] Cons.prems(2) by auto
  then show ?case using Cons.IH [of r' "active_step m x"] Cons.prems(2) by simp
qed simp

section \<open>Properties\<close>

text \<open>C13: publishing reaches exactly the matching subscriptions. After any sequence of
  subscriptions, unsubscriptions, removals, earlier publications and clearings, none of which fails, publishing a message to
  a valid topic succeeds and calls, once each and in order of descending priority, the handlers of the
  active subscriptions whose patterns match the topic; a subscription is active when it was
  made and not removed since, and repeating it changes nothing.\<close>

theorem publish_reaches_matching:
  assumes "\<forall>x \<in> set ops. op_valid x" and "topic_new blank value = Inr topic"
  shows "\<exists>r r' subs. fold_opt (router_step ule) ops router_new = Some r \<and>
    router_publish r topic msg = Some (map (\<lambda>s. (sub_handler s, msg)) subs, r') \<and>
    by_priority subs \<and> distinct (map sub_key subs) \<and>
    (\<forall>p i pri h. (\<exists>s \<in> set subs. sub_key s = (p, i) \<and> sub_val s = (pri, h)) \<longleftrightarrow>
       foldl active_step Map.empty ops (p, i) = Some (pri, h) \<and> glob p topic)"
proof -
  obtain r where r: "fold_opt (router_step ule) ops router_new = Some r" "represents r (foldl active_step Map.empty ops)"
    using represents_run [OF represents_new assms(1)] by blast
  let ?subs = "filter (\<lambda>s. glob (sub_pattern s) topic) (tr_subscriptions r)"
  obtain r' where "router_publish r topic msg = Some (map (\<lambda>s. (sub_handler s, msg)) ?subs, r')"
    using represents_publish [OF r(2), of topic msg] topic_new_no_star [OF assms(2)] by blast
  moreover have "by_priority ?subs" "distinct (map sub_key ?subs)"
    using r(2) by (simp_all add: represents_def by_priority_def sorted_wrt_filter distinct_map inj_on_def)
  moreover have "(\<exists>s \<in> set ?subs. sub_key s = (p, i) \<and> sub_val s = (pri, h)) \<longleftrightarrow>
      foldl active_step Map.empty ops (p, i) = Some (pri, h) \<and> glob p topic" for p i pri h
    using r(2) by (auto simp: represents_def sub_key_def)
  ultimately show ?thesis using r(1) by blast
qed

theorem publish_reaches_matching_witness:
  "\<exists>r r' subs. fold_opt (router_step (\<lambda>_ _. True)) [Op_Subscribe [97, 42] \<lparr>th_id = [1], th_body = ()\<rparr> 3] router_new = Some r \<and>
     router_publish r [97, 46] True = Some (map (\<lambda>s. (sub_handler s, True)) subs, r') \<and>
     (\<exists>s \<in> set subs. sub_key s = ([97, 42], [1]) \<and> sub_val s = (3, \<lparr>th_id = [1], th_body = ()\<rparr>))"
proof -
  have v: "\<forall>x \<in> set [Op_Subscribe [97, 42] \<lparr>th_id = [1], th_body = ()\<rparr> 3]. op_valid x" by (simp add: op_valid_def)
  have t: "topic_new (\<lambda>_. False) [97, 46] = Inr [97, 46]"
    by (simp add: topic_new_def check_valid_string_utf8_def check_no_wildcards_def STAR_def QMARK_def)
  have "glob [97, 42] [97, 46]" by (simp add: STAR_def QMARK_def)
  moreover have "foldl active_step Map.empty [Op_Subscribe [97, 42] \<lparr>th_id = [1], th_body = ()\<rparr> 3] ([97, 42], [1]) =
      Some (3, \<lparr>th_id = [1], th_body = ()\<rparr>)"
    by simp
  ultimately show ?thesis
    using publish_reaches_matching [OF v t, of "\<lambda>_ _. True" True] by blast
qed

text \<open>the queries agree with publishing whether or not the topic is cached: after any
  sequence of operations, whether a valid topic has subscribers and how many there are is
  what a publication to it would reach, and fetching the handlers returns those it would call.\<close>

theorem subscriber_queries_agree:
  assumes "\<forall>x \<in> set ops. op_valid x" and "topic_new blank value = Inr topic"
    and "fold_opt (router_step ule) ops router_new = Some r"
  shows "\<exists>hs r'. router_publish r topic msg = Some (map (\<lambda>h. (h, msg)) hs, r') \<and> get_matching_handlers r topic = Some (hs, r') \<and>
    fill_matching_handlers r topic buf = Some (buf @ hs, r') \<and>
    has_subscribers r topic = Some (hs \<noteq> []) \<and> subscriber_count r topic = Some (length hs)"
proof -
  have rep: "represents r (foldl active_step Map.empty ops)"
    using represents_run [OF represents_new assms(1), of ule] assms(3) by auto
  have ns: "STAR \<notin> set topic" using topic_new_no_star [OF assms(2)] by blast
  obtain "is" r' where l: "get_or_compute_matching_indices r topic = Some (is, r')" "tr_subscriptions r' = tr_subscriptions r"
    "find_matches r topic = Some is"
    "handlers_at (tr_subscriptions r) is = Some (map sub_handler (filter (\<lambda>s. glob (sub_pattern s) topic) (tr_subscriptions r)))"
    by (rule represents_lookup [OF rep ns])
  let ?hs = "map sub_handler (filter (\<lambda>s. glob (sub_pattern s) topic) (tr_subscriptions r))"
  have len: "length is = length hs" if "handlers_at subs is = Some hs" for subs :: "'a subscription list" and hs "is"
    using that by (induction "is" arbitrary: hs) (auto split: if_splits)
  have cached: "im_get (tr_topic_cache r) topic = None \<or> im_get (tr_topic_cache r) topic = Some is"
    using rep l(3) by (cases "im_get (tr_topic_cache r) topic") (auto simp: represents_def)
  have "is \<noteq> [] \<longleftrightarrow> ?hs \<noteq> []" "length is = length ?hs" using len [OF l(4)] by auto
  then show ?thesis
    using l cached by (intro exI [of _ ?hs] exI [of _ r'])
      (auto simp: router_publish_def get_matching_handlers_def fill_matching_handlers_def has_subscribers_def
        subscriber_count_def get_matching_indices_def)
qed

theorem subscriber_queries_agree_witness:
  "subscriber_count (router_new :: unit topic_router) [97] = Some 0"
proof -
  have t: "topic_new (\<lambda>_. False) [97] = Inr [97]"
    by (simp add: topic_new_def check_valid_string_utf8_def check_no_wildcards_def STAR_def QMARK_def)
  have "fold_opt (router_step (\<lambda>_ _. True)) [] (router_new :: unit topic_router) = Some router_new" by simp
  from subscriber_queries_agree [OF _ t this, of True "[]"] obtain hs where "subscriber_count (router_new :: unit topic_router) [97] = Some (length hs)"
    "get_matching_handlers (router_new :: unit topic_router) [97] = Some (hs, snd (the (get_matching_handlers router_new [97])))"
    by auto
  then show ?thesis
    by (simp add: subscriber_count_def get_matching_indices_def find_matches_def router_new_def)
qed

end
