(* ===== verification/Rate_Limiter.thy ===== *)
theory Rate_Limiter
  imports Nt_Prelude
begin

text \<open>
  The rate limiter of the network layer (\<open>crates/network/src/ratelimiter\<close>: \<open>quota.rs\<close>,
  \<open>nanos.rs\<close>, \<open>gcra.rs\<close>, \<open>mod.rs\<close>): quotas, the generic cell rate algorithm, and the keyed
  limiter over atomic 64-bit cells.

  Times are \<open>u64\<close> nanoseconds with the wrap-around of a release build; a \<open>Duration\<close> is its
  number of nanoseconds. The clock is an argument (the time since the start of the limiter). The lock-free update of a cell is both a function, given the values that
  failing exchanges read, and a step relation between threads that
  share the cell.

  What is shown: whatever the interleaving of the threads, the number of requests admitted
  within a window is bounded by the window and the burst; a rejected request says exactly when
  it would be admitted; and how many requests one instant admits, which is one more after a pause than the
  burst size.
\<close>

type_synonym duration = nat

section \<open>Quotas\<close>

record quota =
  q_max_burst :: nat
  q_replenish_1_per :: duration

definition per_second :: "nat \<Rightarrow> quota option" where
  "per_second max_burst =
     (let replenish_interval_ns = 1000000000 div max_burst
      in if replenish_interval_ns = 0 then None
         else Some \<lparr>q_max_burst = max_burst, q_replenish_1_per = replenish_interval_ns\<rparr>)"

definition per_minute :: "nat \<Rightarrow> quota" where
  "per_minute max_burst = \<lparr>q_max_burst = max_burst, q_replenish_1_per = 60000000000 div max_burst\<rparr>"

definition per_hour :: "nat \<Rightarrow> quota" where
  "per_hour max_burst = \<lparr>q_max_burst = max_burst, q_replenish_1_per = 3600000000000 div max_burst\<rparr>"

definition with_period :: "duration \<Rightarrow> quota option" where
  "with_period replenish_1_per =
     (if replenish_1_per = 0 then None else Some \<lparr>q_max_burst = 1, q_replenish_1_per = replenish_1_per\<rparr>)"

definition allow_burst :: "quota \<Rightarrow> nat \<Rightarrow> quota" where
  "allow_burst q max_burst = q\<lparr>q_max_burst := max_burst\<rparr>"

definition quota_new :: "nat \<Rightarrow> duration \<Rightarrow> quota option" where
  "quota_new max_burst replenish_all_per =
     (if replenish_all_per = 0 then None
      else Some \<lparr>q_max_burst = max_burst, q_replenish_1_per = replenish_all_per div max_burst\<rparr>)"

definition burst_size_replenished_in :: "quota \<Rightarrow> u64" where
  "burst_size_replenished_in q = of_nat (q_replenish_1_per q * q_max_burst q)"

definition from_gcra_parameters :: "u64 \<Rightarrow> u64 \<Rightarrow> quota panics" where
  "from_gcra_parameters t tau =
     (if t = 0 then None
      else let division_result = unat (tau div t)
           in if division_result = 0 then None
              else if division_result \<ge> 2 ^ 32 then None
              else Some \<lparr>q_max_burst = division_result, q_replenish_1_per = unat t\<rparr>)"

section \<open>The generic cell rate algorithm\<close>

text \<open>A duration of 584 years or more does not fit into \<open>Nanos\<close>.\<close>

definition nanos_from_duration :: "duration \<Rightarrow> u64 panics" where
  "nanos_from_duration d = (if d < 2 ^ 64 then Some (of_nat d) else None)"

record gcra =
  g_t :: u64
  g_tau :: u64

definition gcra_new :: "quota \<Rightarrow> gcra panics" where
  "gcra_new q = do {
     tau \<leftarrow> nanos_from_duration (q_replenish_1_per q * q_max_burst q);
     t \<leftarrow> nanos_from_duration (q_replenish_1_per q);
     Some \<lparr>g_t = t, g_tau = tau\<rparr>
   }"

record state_snapshot =
  ss_t :: u64
  ss_tau :: u64
  ss_time_of_measurement :: u64
  ss_tat :: u64

definition snapshot_quota :: "state_snapshot \<Rightarrow> quota panics" where
  "snapshot_quota s = from_gcra_parameters (ss_t s) (ss_tau s)"

definition remaining_burst_capacity :: "state_snapshot \<Rightarrow> 32 word" where
  "remaining_burst_capacity s =
     (if ss_t s = 0 then 0
      else let t0 = ss_time_of_measurement s + ss_t s
           in ucast (min (saturating_sub (t0 + ss_tau s) (ss_tat s)) (ss_tau s) div ss_t s))"

definition starting_state :: "gcra \<Rightarrow> u64 \<Rightarrow> u64" where
  "starting_state g t0 = t0 + g_t g"

text \<open>The closure of \<open>test_and_update\<close>: the decision for a request at \<open>t0\<close> in a state.\<close>

definition decide_cell :: "gcra \<Rightarrow> u64 \<Rightarrow> u64 option \<Rightarrow> state_snapshot + u64" where
  "decide_cell g t0 st =
     (let tat = (case st of Some s \<Rightarrow> s | None \<Rightarrow> starting_state g t0);
          earliest_time = saturating_sub tat (g_tau g)
      in if t0 < earliest_time
         then Inl \<lparr>ss_t = g_t g, ss_tau = g_tau g, ss_time_of_measurement = earliest_time, ss_tat = earliest_time\<rparr>
         else Inr (max tat t0 + g_t g))"

definition earliest_possible :: "u64 \<Rightarrow> state_snapshot \<Rightarrow> u64" where
  "earliest_possible start s = start + ss_tat s"

definition wait_time_from :: "u64 \<Rightarrow> state_snapshot \<Rightarrow> u64 \<Rightarrow> duration" where
  "wait_time_from start s from =
     (let earliest = earliest_possible start s in unat (saturating_sub earliest (min earliest from)))"

section \<open>Cells and keys\<close>

definition nonzero :: "u64 \<Rightarrow> u64 option" where
  "nonzero s = (if s = 0 then None else Some s)"

text \<open>The update loop of a cell that holds \<open>prev\<close> when it is loaded: \<open>reads\<close> are the values that
  the exchanges that fail read, and when they are used up the exchange succeeds. The
  result is the decision with the value left in the cell by this thread, if any.\<close>

fun measure_and_replace_one :: "(u64 option \<Rightarrow> 'e + u64) \<Rightarrow> u64 \<Rightarrow> u64 list \<Rightarrow> 'e + u64" where
  "measure_and_replace_one f prev [] = f (nonzero prev)"
| "measure_and_replace_one f prev (v # reads) =
     (case f (nonzero prev) of
        Inl e \<Rightarrow> Inl e
      | Inr _ \<Rightarrow> measure_and_replace_one f v reads)"

record 'k rate_limiter =
  rl_default_gcra :: "gcra option"
  rl_state :: "'k \<Rightarrow> u64 option"
  rl_gcra :: "'k \<Rightarrow> gcra option"

definition test_and_update :: "gcra \<Rightarrow> u64 \<Rightarrow> 'k \<Rightarrow> ('k \<Rightarrow> u64 option) \<Rightarrow> (state_snapshot + unit) \<times> ('k \<Rightarrow> u64 option)" where
  "test_and_update g t0 key state =
     (let cell = (case state key of Some v \<Rightarrow> v | None \<Rightarrow> 0)
      in case measure_and_replace_one (decide_cell g t0) cell [] of
           Inl e \<Rightarrow> (Inl e, state(key \<mapsto> cell))
         | Inr next \<Rightarrow> (Inr (), state(key \<mapsto> next)))"

fun collect_gcras :: "('k \<times> quota) list \<Rightarrow> ('k \<Rightarrow> gcra option) \<Rightarrow> ('k \<Rightarrow> gcra option) panics" where
  "collect_gcras [] m = Some m"
| "collect_gcras ((k, q) # kqs) m = do {
     g \<leftarrow> gcra_new q;
     collect_gcras kqs (m(k \<mapsto> g))
   }"

definition new_with_quota :: "quota option \<Rightarrow> ('k \<times> quota) list \<Rightarrow> 'k rate_limiter panics" where
  "new_with_quota base_quota keyed_quotas = do {
     gcra \<leftarrow> collect_gcras keyed_quotas Map.empty;
     d \<leftarrow> (case base_quota of None \<Rightarrow> Some None | Some q \<Rightarrow> map_option Some (gcra_new q));
     Some \<lparr>rl_default_gcra = d, rl_state = Map.empty, rl_gcra = gcra\<rparr>
   }"

definition add_quota_for_key :: "'k rate_limiter \<Rightarrow> 'k \<Rightarrow> quota \<Rightarrow> 'k rate_limiter panics" where
  "add_quota_for_key rl key value = do {
     g \<leftarrow> gcra_new value;
     Some (rl\<lparr>rl_gcra := (rl_gcra rl)(key \<mapsto> g)\<rparr>)
   }"

definition check_key :: "'k rate_limiter \<Rightarrow> 'k \<Rightarrow> u64 \<Rightarrow> (state_snapshot + unit) \<times> 'k rate_limiter" where
  "check_key rl key t0 =
     (let run = (\<lambda>g. case test_and_update g t0 key (rl_state rl) of (r, st) \<Rightarrow> (r, rl\<lparr>rl_state := st\<rparr>))
      in case rl_gcra rl key of
           Some g \<Rightarrow> run g
         | None \<Rightarrow> (case rl_default_gcra rl of None \<Rightarrow> (Inr (), rl) | Some g \<Rightarrow> run g))"

section \<open>Threads that share a cell\<close>

datatype phase = Start | Trying u64 | Admitted | Limited

type_synonym 'i cell_state = "u64 \<times> ('i \<Rightarrow> phase)"

text \<open>\<open>at i\<close> is the time thread \<open>i\<close> measured. An exchange may fail although the cell still holds
  the value loaded.\<close>

inductive cas_step :: "gcra \<Rightarrow> ('i \<Rightarrow> u64) \<Rightarrow> 'i cell_state \<Rightarrow> 'i cell_state \<Rightarrow> bool"
  for g :: gcra and at :: "'i \<Rightarrow> u64" where
  cas_load: "ph i = Start \<Longrightarrow> cas_step g at (c, ph) (c, ph(i := Trying c))"
| cas_limited: "ph i = Trying prev \<Longrightarrow> decide_cell g (at i) (nonzero prev) = Inl e \<Longrightarrow> cas_step g at (c, ph) (c, ph(i := Limited))"
| cas_swap: "ph i = Trying c \<Longrightarrow> decide_cell g (at i) (nonzero c) = Inr next \<Longrightarrow> cas_step g at (c, ph) (next, ph(i := Admitted))"
| cas_retry: "ph i = Trying prev \<Longrightarrow> decide_cell g (at i) (nonzero prev) = Inr next \<Longrightarrow> cas_step g at (c, ph) (c, ph(i := Trying c))"

inductive_cases cas_stepE: "cas_step g at s s'"

abbreviation cas_run :: "gcra \<Rightarrow> ('i \<Rightarrow> u64) \<Rightarrow> 'i cell_state \<Rightarrow> 'i cell_state \<Rightarrow> bool" where
  "cas_run g at \<equiv> (cas_step g at)\<^sup>*\<^sup>*"

definition admitted :: "('i \<Rightarrow> phase) \<Rightarrow> 'i set" where
  "admitted ph = {i. ph i = Admitted}"

section \<open>The decision\<close>

definition time_fits :: "gcra \<Rightarrow> u64 \<Rightarrow> bool" where
  "time_fits g t0 \<longleftrightarrow> unat t0 + unat (g_tau g) + 2 * unat (g_t g) < 2 ^ 64"

definition arrival :: "gcra \<Rightarrow> u64 \<Rightarrow> u64 option \<Rightarrow> nat" where
  "arrival g t0 st = (case st of Some s \<Rightarrow> unat s | None \<Rightarrow> unat t0 + unat (g_t g))"

lemma unat_add_fits: "unat (a::u64) + unat b < 2 ^ 64 \<Longrightarrow> unat (a + b) = unat a + unat b"
  by (simp add: unat_word_ariths)

lemma decide_cell_Inr:
  assumes "time_fits g t0"
  shows "decide_cell g t0 st = Inr n \<longleftrightarrow>
    arrival g t0 st \<le> unat t0 + unat (g_tau g) \<and> unat n = max (arrival g t0 st) (unat t0) + unat (g_t g)"
proof -
  define tat where "tat = (case st of Some s \<Rightarrow> s | None \<Rightarrow> starting_state g t0)"
  have fit: "unat t0 + unat (g_t g) < 2 ^ 64" using assms by (simp add: time_fits_def)
  have a: "arrival g t0 st = unat tat"
    using unat_add_fits [OF fit] by (simp add: arrival_def tat_def starting_state_def split: option.splits)
  have lt: "t0 < saturating_sub tat (g_tau g) \<longleftrightarrow> \<not> unat tat \<le> unat t0 + unat (g_tau g)"
    by (auto simp: word_less_nat_alt unat_saturating_sub)
  have mx: "unat (max tat t0) = max (unat tat) (unat t0)" by (simp add: max_def word_le_nat_alt)
  have "unat (max tat t0 + g_t g) = max (unat tat) (unat t0) + unat (g_t g)" if "unat tat \<le> unat t0 + unat (g_tau g)"
    using that assms unat_add_fits [of "max tat t0" "g_t g"] by (simp add: mx time_fits_def)
  then have "max tat t0 + g_t g = n \<longleftrightarrow> unat n = max (unat tat) (unat t0) + unat (g_t g)"
    if "unat tat \<le> unat t0 + unat (g_tau g)"
    using that by (auto simp: word_unat_eq_iff)
  then show ?thesis by (auto simp: decide_cell_def Let_def a lt simp flip: tat_def)
qed

lemma decide_cell_admits:
  assumes "time_fits g t0" and "arrival g t0 st \<le> unat t0 + unat (g_tau g)"
  shows "\<exists>n. decide_cell g t0 st = Inr n"
proof -
  have "max (arrival g t0 st) (unat t0) + unat (g_t g) < 2 ^ 64" using assms by (simp add: time_fits_def)
  then have "unat (word_of_nat (max (arrival g t0 st) (unat t0) + unat (g_t g)) :: u64) =
      max (arrival g t0 st) (unat t0) + unat (g_t g)"
    by (simp only: unat_of_nat take_bit_nat_eq_self_iff) simp
  then show ?thesis using decide_cell_Inr [OF assms(1)] assms(2) by blast
qed

lemma decide_cell_Inl:
  assumes "decide_cell g t0 (Some s) = Inl e"
  shows "ss_tat e = saturating_sub s (g_tau g)" "t0 < ss_tat e"
  using assms by (auto simp: decide_cell_def Let_def split: if_splits)

section \<open>The bound for threads\<close>

definition in_window :: "('i \<Rightarrow> u64) \<Rightarrow> nat \<Rightarrow> nat \<Rightarrow> ('i \<Rightarrow> phase) \<Rightarrow> 'i set" where
  "in_window at a D ph = {i \<in> admitted ph. a \<le> unat (at i) \<and> unat (at i) \<le> a + D}"

definition window_inv :: "gcra \<Rightarrow> ('i \<Rightarrow> u64) \<Rightarrow> nat \<Rightarrow> nat \<Rightarrow> 'i cell_state \<Rightarrow> bool" where
  "window_inv g at a D s \<longleftrightarrow> (case s of (c, ph) \<Rightarrow>
     finite (admitted ph) \<and>
     (let n = card (in_window at a D ph)
      in 0 < n \<longrightarrow> a + n * unat (g_t g) \<le> unat c \<and> (n - 1) * unat (g_t g) \<le> D + unat (g_tau g)))"

lemma admitted_upd: "admitted (ph(i := p)) = (if p = Admitted then insert i (admitted ph) else admitted ph - {i})"
  by (auto simp: admitted_def)

lemma window_upd_other: "ph i \<noteq> Admitted \<Longrightarrow> p \<noteq> Admitted \<Longrightarrow> admitted (ph(i := p)) = admitted ph"
  by (auto simp: admitted_def)

lemma window_inv_same: "admitted ph' = admitted ph \<Longrightarrow> window_inv g at a D (c, ph') = window_inv g at a D (c, ph)"
  by (simp add: window_inv_def in_window_def)

lemma window_inv_swap:
  assumes inv: "window_inv g at a D (c, ph)" and "ph i = Trying c" and d: "decide_cell g (at i) (nonzero c) = Inr next"
    and "0 < g_t g" and fits: "time_fits g (at i)"
  shows "window_inv g at a D (next, ph(i := Admitted))"
proof -
  let ?n = "card (in_window at a D ph)" and ?t = "unat (g_t g)"
  have t: "0 < ?t" using assms(4) by (simp add: word_less_nat_alt)
  have fin: "finite (admitted ph)" "finite (in_window at a D ph)" "i \<notin> in_window at a D ph"
    using inv assms(2) by (auto simp: window_inv_def in_window_def admitted_def)
  note dec = decide_cell_Inr [OF fits, THEN iffD1, OF d]
  have new: "unat next \<ge> unat (at i) + ?t" using dec by simp
  have old: "unat next \<ge> unat c + ?t" "unat c \<le> unat (at i) + unat (g_tau g)" if "0 < ?n"
  proof -
    have "0 < ?n * ?t" using that t by simp
    moreover have "a + ?n * ?t \<le> unat c" using that inv by (simp add: window_inv_def Let_def)
    ultimately have "0 < unat c" by linarith
    then have "nonzero c = Some c" by (auto simp: nonzero_def)
    then show "unat next \<ge> unat c + ?t" "unat c \<le> unat (at i) + unat (g_tau g)"
      using dec by (simp_all add: arrival_def)
  qed
  show ?thesis
  proof (cases "a \<le> unat (at i) \<and> unat (at i) \<le> a + D")
    case True
    then have "in_window at a D (ph(i := Admitted)) = insert i (in_window at a D ph)"
      by (auto simp: in_window_def admitted_upd)
    then have n: "card (in_window at a D (ph(i := Admitted))) = ?n + 1" using fin by simp
    have "a + (?n + 1) * ?t \<le> unat next \<and> ?n * ?t \<le> D + unat (g_tau g)"
    proof (cases "?n = 0")
      case True
      then show ?thesis using new \<open>a \<le> unat (at i) \<and> unat (at i) \<le> a + D\<close> by simp
    next
      case False
      then have "a + ?n * ?t \<le> unat c" using inv by (simp add: window_inv_def Let_def)
      then show ?thesis using old False True by (simp add: algebra_simps)
    qed
    then show ?thesis using fin(1) n by (simp add: window_inv_def admitted_upd)
  next
    case False
    then have "in_window at a D (ph(i := Admitted)) = in_window at a D ph"
      by (auto simp: in_window_def admitted_upd)
    then show ?thesis using inv old fin(1) by (auto simp: window_inv_def Let_def admitted_upd)
  qed
qed

lemma window_inv_step:
  assumes "cas_step g at s s'" and "window_inv g at a D s" and "0 < g_t g" and "\<forall>i. time_fits g (at i)"
  shows "window_inv g at a D s'"
  using assms(1,2)
proof (induction rule: cas_step.induct)
  case (cas_swap ph i c "next")
  then show ?case using window_inv_swap [OF cas_swap(3,1,2) assms(3)] assms(4) by simp
qed (simp_all add: window_inv_same [OF window_upd_other])

lemma window_inv_run:
  assumes "cas_run g at s s'" and "window_inv g at a D s" and "0 < g_t g" and "\<forall>i. time_fits g (at i)"
  shows "window_inv g at a D s'"
  using assms(1)
proof (induction rule: rtranclp_induct)
  case (step s1 s2)
  then show ?case using window_inv_step assms(3,4) by blast
qed (rule assms(2))

section \<open>Bursts\<close>

text \<open>The number of requests admitted of \<open>n\<close> that arrive at the same time, and the state after them.\<close>

fun burst :: "gcra \<Rightarrow> u64 \<Rightarrow> nat \<Rightarrow> u64 \<Rightarrow> nat \<times> u64" where
  "burst g t0 0 c = (0, c)"
| "burst g t0 (Suc n) c =
     (case measure_and_replace_one (decide_cell g t0) c [] of
        Inl _ \<Rightarrow> burst g t0 n c
      | Inr c' \<Rightarrow> (case burst g t0 n c' of (k, c'') \<Rightarrow> (Suc k, c'')))"

lemma nanos_from_duration_unat: "nanos_from_duration d = Some w \<Longrightarrow> unat w = d"
  by (auto simp: nanos_from_duration_def unat_of_nat take_bit_nat_eq_self_iff split: if_splits)

lemma gcra_new_facts:
  assumes "gcra_new q = Some g"
  shows "unat (g_t g) = q_replenish_1_per q" "unat (g_tau g) = q_replenish_1_per q * q_max_burst q"
proof -
  obtain tau t where "nanos_from_duration (q_replenish_1_per q * q_max_burst q) = Some tau"
    "nanos_from_duration (q_replenish_1_per q) = Some t" "g = \<lparr>g_t = t, g_tau = tau\<rparr>"
    using assms unfolding gcra_new_def bind_Some_conv by blast
  then show "unat (g_t g) = q_replenish_1_per q" "unat (g_tau g) = q_replenish_1_per q * q_max_burst q"
    by (simp_all add: nanos_from_duration_unat)
qed

text \<open>In a state whose arrival time is \<open>j\<close> cells ahead of the time, the burst less \<open>j\<close> cells, and one more, are admitted.\<close>

lemma burst_from:
  assumes "time_fits g t0" and "0 < g_t g" and "unat (g_tau g) = b * unat (g_t g)"
    and "0 < j" and "j \<le> b + 1" and "unat c = unat t0 + j * unat (g_t g)"
  shows "fst (burst g t0 n c) = min n (b + 1 - j)"
  using assms(4-)
proof (induction n arbitrary: c j)
  case (Suc n)
  let ?t = "unat (g_t g)"
  have t: "0 < ?t" using assms(2) by (simp add: word_less_nat_alt)
  have "0 < unat c" using Suc.prems t by simp
  then have nz: "nonzero c = Some c" by (auto simp: nonzero_def)
  have le: "unat c \<le> unat t0 + unat (g_tau g) \<longleftrightarrow> j \<le> b" using Suc.prems(3) assms(3) t by simp
  show ?case
  proof (cases "j \<le> b")
    case True
    define c' where "c' = c + g_t g"
    have "unat c' = unat t0 + (j + 1) * ?t"
      using Suc.prems(3) le True assms(1) unat_add_fits [of c "g_t g"] by (simp add: c'_def time_fits_def)
    moreover from this have "decide_cell g t0 (Some c) = Inr c'"
      using decide_cell_Inr [OF assms(1), of "Some c" c'] le True Suc.prems(3) by (simp add: arrival_def)
    ultimately show ?thesis using Suc.IH [of "j + 1" c'] True nz by (simp split: prod.splits) (metis Suc_diff_le fst_conv min_Suc_Suc)
  next
    case False
    then have "\<nexists>c'. decide_cell g t0 (Some c) = Inr c'"
      using decide_cell_Inr [OF assms(1), of "Some c"] le by (simp add: arrival_def)
    then obtain e where "decide_cell g t0 (Some c) = Inl e" by (cases "decide_cell g t0 (Some c)") auto
    then show ?thesis using Suc.IH [OF Suc.prems] nz False Suc.prems(2) by simp
  qed
qed simp

lemma burst_first:
  assumes "time_fits g t0" and "arrival g t0 (nonzero c) \<le> unat t0 + unat (g_tau g)"
  obtains c' where "unat c' = max (arrival g t0 (nonzero c)) (unat t0) + unat (g_t g)"
    "\<forall>n. fst (burst g t0 (Suc n) c) = Suc (fst (burst g t0 n c'))"
proof -
  obtain c' where c': "decide_cell g t0 (nonzero c) = Inr c'" using decide_cell_admits [OF assms] by blast
  have "unat c' = max (arrival g t0 (nonzero c)) (unat t0) + unat (g_t g)"
    using decide_cell_Inr [OF assms(1)] c' by simp
  then show ?thesis using that c' by (simp split: prod.splits)
qed

text \<open>Threads that come at one instant, one after the other, on a cell that is replenished.\<close>

lemma admit_next:
  assumes "ph i = Start" and "decide_cell g (at i) (nonzero c) = Inr c'"
  shows "cas_run g at (c, ph) (c', ph(i := Admitted))"
proof -
  have "cas_step g at (c, ph) (c, ph(i := Trying c))" using assms(1) by (rule cas_load)
  moreover have "cas_step g at (c, ph(i := Trying c)) (c', (ph(i := Trying c))(i := Admitted))"
    using assms(2) by (intro cas_swap) simp_all
  ultimately show ?thesis by simp
qed

lemma instant_run_step:
  assumes "time_fits g t0" and "0 < g_t g" and "0 < s" "s \<le> t0" and "n \<le> unat (g_tau g) div unat (g_t g) + 1"
  shows "\<exists>c'. cas_run g (\<lambda>_ :: nat. t0) (s, \<lambda>_. Start) (c', \<lambda>i. if i < n then Admitted else Start) \<and>
    (if n = 0 then c' = s else unat c' = unat t0 + n * unat (g_t g))"
  using assms(5)
proof (induction n)
  case (Suc n)
  let ?ph = "\<lambda>i :: nat. if i < n then Admitted else Start" and ?t = "unat (g_t g)"
  obtain c where c: "cas_run g (\<lambda>_ :: nat. t0) (s, \<lambda>_. Start) (c, ?ph)" "if n = 0 then c = s else unat c = unat t0 + n * ?t"
    using Suc by auto
  have nt: "n * ?t \<le> unat (g_tau g)" using Suc.prems less_eq_div_iff_mult_less_eq [of ?t n] assms(2) by (simp add: word_less_nat_alt)
  have "c \<noteq> 0" using c(2) assms(2,3) by (cases "n = 0") (auto simp: word_less_nat_alt)
  then have "arrival g t0 (nonzero c) = unat c" by (simp add: arrival_def nonzero_def)
  moreover have "unat c \<le> unat t0 + n * ?t" "max (unat c) (unat t0) = unat t0 + n * ?t"
    using c(2) assms(4) by (auto simp: word_le_nat_alt split: if_splits)
  ultimately obtain c' where c': "decide_cell g t0 (nonzero c) = Inr c'" "unat c' = unat t0 + n * ?t + ?t"
    using decide_cell_admits [OF assms(1), of "nonzero c"] decide_cell_Inr [OF assms(1), of "nonzero c"] nt by force
  have "?ph(n := Admitted) = (\<lambda>i. if i < Suc n then Admitted else Start)" by (auto simp: fun_eq_iff)
  then have "cas_run g (\<lambda>_ :: nat. t0) (s, \<lambda>_. Start) (c', \<lambda>i. if i < Suc n then Admitted else Start)"
    using rtranclp_trans [OF c(1) admit_next [of ?ph n g "\<lambda>_. t0" c c']] c'(1) by simp
  then show ?case using c'(2) by auto
qed auto

lemma instant_run:
  assumes "time_fits g t0" and "0 < g_t g" and "0 < s" "s \<le> t0"
  shows "\<exists>c' ph'. cas_run g (\<lambda>_ :: nat. t0) (s, \<lambda>_. Start) (c', ph') \<and> card (admitted ph') = unat (g_tau g) div unat (g_t g) + 1"
proof -
  let ?n = "unat (g_tau g) div unat (g_t g) + 1"
  have "admitted (\<lambda>i. if i < ?n then Admitted else Start) = {..<?n}" by (auto simp: admitted_def)
  then show ?thesis using instant_run_step [OF assms, of ?n] by (metis card_lessThan order_refl)
qed

text \<open>The limit that applies to a key, and the value in its cell.\<close>

definition limit_of :: "'k rate_limiter \<Rightarrow> 'k \<Rightarrow> gcra option" where
  "limit_of rl key = (case rl_gcra rl key of Some g \<Rightarrow> Some g | None \<Rightarrow> rl_default_gcra rl)"

definition cell_of :: "'k rate_limiter \<Rightarrow> 'k \<Rightarrow> u64" where
  "cell_of rl key = (case rl_state rl key of Some v \<Rightarrow> v | None \<Rightarrow> 0)"

lemma check_key_decide:
  assumes "limit_of rl key = Some g"
  shows "check_key rl key t0 =
    (case decide_cell g t0 (nonzero (cell_of rl key)) of
       Inl e \<Rightarrow> (Inl e, rl\<lparr>rl_state := (rl_state rl)(key \<mapsto> cell_of rl key)\<rparr>)
     | Inr next \<Rightarrow> (Inr (), rl\<lparr>rl_state := (rl_state rl)(key \<mapsto> next)\<rparr>))"
  using assms
  by (auto simp: check_key_def limit_of_def test_and_update_def cell_of_def Let_def split: option.splits sum.splits)

section \<open>Properties\<close>

text \<open>C14: the rate is bounded under every interleaving, and the bound is attained. Let any number of
  threads share a cell, each with the time it measured, taking their atomic steps in any order, with
  exchanges that lose races or fail spuriously; then among the requests of any window of \<open>D\<close>
  nanoseconds at most \<open>(D + \<tau>) / t + 1\<close> are admitted, where \<open>t\<close> is the weight of a request and \<open>\<tau>\<close>
  the burst tolerance, as long as the times stay below the largest \<open>u64\<close> by \<open>\<tau> + 2t\<close>. For the limiter
  of a quota \<open>\<tau> / t\<close> is the burst size, so this is one request more than the burst and the
  replenishment of the window, and more than the documentation of \<open>Quota\<close> promises ("the maximum
  number of cells that are ever allowed at once"). The one more is real: on a cell whose earlier
  requests are fully replenished, threads that come at the same instant are admitted until there
  are \<open>\<tau> / t + 1\<close> of them.\<close>

theorem admissions_bounded:
  assumes "cas_run g at (c0, \<lambda>_. Start) (c, ph)" and "0 < g_t g" and "\<forall>i. time_fits g (at i)"
  shows "card {i \<in> admitted ph. a \<le> unat (at i) \<and> unat (at i) \<le> a + D} \<le> (D + unat (g_tau g)) div unat (g_t g) + 1 \<and>
    (\<forall>q. gcra_new q = Some g \<longrightarrow> unat (g_tau g) div unat (g_t g) = q_max_burst q) \<and>
    (\<forall>t0 s. time_fits g t0 \<and> 0 < s \<and> s \<le> t0 \<longrightarrow>
      (\<exists>c' ph'. cas_run g (\<lambda>_ :: nat. t0) (s, \<lambda>_. Start) (c', ph') \<and>
        card (admitted ph') = unat (g_tau g) div unat (g_t g) + 1))"
proof -
  have t: "0 < unat (g_t g)" using assms(2) by (simp add: word_less_nat_alt)
  have "window_inv g at a D (c0, \<lambda>_. Start)" by (simp add: window_inv_def in_window_def admitted_def)
  from window_inv_run [OF assms(1) this assms(2,3)]
  have "(card (in_window at a D ph) - 1) * unat (g_t g) \<le> D + unat (g_tau g)"
    by (cases "0 < card (in_window at a D ph)") (simp_all add: window_inv_def Let_def)
  then have "card (in_window at a D ph) - 1 \<le> (D + unat (g_tau g)) div unat (g_t g)"
    using t by (simp add: less_eq_div_iff_mult_less_eq)
  moreover have "unat (g_tau g) div unat (g_t g) = q_max_burst q" if "gcra_new q = Some g" for q
    using gcra_new_facts [OF that] t by simp
  ultimately show ?thesis using instant_run [OF _ assms(2)] by (auto simp: in_window_def)
qed

theorem admissions_bounded_witness:
  "card {i \<in> admitted ((\<lambda>_. Start)(True := Admitted)). (0::nat) \<le> unat ((\<lambda>_. 5 :: u64) i) \<and> unat ((\<lambda>_. 5 :: u64) i) \<le> 0 + 10} \<le> 6 \<and>
   (\<exists>c' ph'. cas_run \<lparr>g_t = 5, g_tau = 15\<rparr> (\<lambda>_ :: nat. 20) (7, \<lambda>_. Start) (c', ph') \<and> card (admitted ph') = 4)"
proof -
  let ?g = "\<lparr>g_t = 5, g_tau = 15\<rparr>" and ?at = "\<lambda>_ :: bool. 5 :: u64"
  have "decide_cell ?g 5 (nonzero 0) = Inr 15"
    by (simp add: decide_cell_def nonzero_def starting_state_def saturating_sub_def)
  then have run: "cas_run ?g ?at (0, \<lambda>_. Start) (15, (\<lambda>_. Start)(True := Admitted))" by (intro admit_next) simp_all
  have fits: "0 < g_t ?g" "\<forall>i. time_fits ?g (?at i)" "time_fits ?g 20 \<and> (0 :: u64) < 7 \<and> (7 :: u64) \<le> 20" by (simp_all add: time_fits_def)
  note bound = admissions_bounded [OF run fits(1,2), of 0 10]
  then show ?thesis using bound [THEN conjunct2, THEN conjunct2, rule_format, OF fits(3)] by simp
qed

text \<open>C15: a limited key is told exactly how long to wait. If a request is limited, then another one is admitted
  after the reported waiting time when nothing else was admitted for the key, and none is
  before.\<close>

theorem wait_is_exact:
  assumes "limit_of rl key = Some g" and "g_t g \<le> g_tau g" and "check_key rl key t0 = (Inl e, rl')"
    and "time_fits g t0"
  shows "unat t0 + wait_time_from 0 e t0 = unat (ss_tat e) \<and> (\<exists>rl''. check_key rl' key (ss_tat e) = (Inr (), rl'')) \<and>
    (\<forall>t1. t1 < ss_tat e \<longrightarrow> (\<exists>e'. fst (check_key rl' key t1) = Inl e'))"
proof -
  let ?c = "cell_of rl key"
  have d: "decide_cell g t0 (nonzero ?c) = Inl e" and rl': "rl' = rl\<lparr>rl_state := (rl_state rl)(key \<mapsto> ?c)\<rparr>"
    using assms(1,3) by (auto simp: check_key_decide split: sum.splits)
  have "?c \<noteq> 0"
  proof
    assume "?c = 0"
    then have "arrival g t0 (nonzero ?c) \<le> unat t0 + unat (g_tau g)"
      using assms(2) by (simp add: arrival_def nonzero_def word_le_nat_alt)
    then show False using decide_cell_admits [OF assms(4)] d by fastforce
  qed
  then have nz: "nonzero ?c = Some ?c" by (simp add: nonzero_def)
  have tat: "ss_tat e = saturating_sub ?c (g_tau g)" "t0 < ss_tat e" using decide_cell_Inl d nz by auto
  have same: "limit_of rl' key = Some g" "cell_of rl' key = ?c" using assms(1) by (simp_all add: rl' limit_of_def cell_of_def split: option.splits)
  have "\<exists>n. decide_cell g (ss_tat e) (Some ?c) = Inr n" "t1 < ss_tat e \<Longrightarrow> \<exists>e'. decide_cell g t1 (Some ?c) = Inl e'" for t1
    by (simp_all add: decide_cell_def Let_def tat(1))
  moreover have "unat t0 + wait_time_from 0 e t0 = unat (ss_tat e)"
    using tat(2) by (simp add: wait_time_from_def earliest_possible_def unat_saturating_sub min_def word_le_nat_alt word_less_nat_alt)
  ultimately show ?thesis using check_key_decide [OF same(1)] same(2) nz by (fastforce split: sum.splits)
qed

theorem wait_is_exact_witness:
  "\<exists>rl rl' e. check_key rl ''k'' 20 = (Inl e, rl') \<and> wait_time_from 0 e 20 = 10 \<and> (\<exists>rl''. check_key rl' ''k'' 30 = (Inr (), rl''))"
proof -
  let ?g = "\<lparr>g_t = 5, g_tau = 10\<rparr>"
  let ?rl = "\<lparr>rl_default_gcra = None, rl_state = [''k'' \<mapsto> 40], rl_gcra = [''k'' \<mapsto> ?g]\<rparr>"
  have g: "limit_of ?rl ''k'' = Some ?g" by (simp add: limit_of_def)
  have "decide_cell ?g 20 (nonzero (cell_of ?rl ''k'')) = Inl \<lparr>ss_t = 5, ss_tau = 10, ss_time_of_measurement = 30, ss_tat = 30\<rparr>"
    by (simp add: decide_cell_def cell_of_def nonzero_def saturating_sub_def)
  then obtain rl' where "check_key ?rl ''k'' 20 = (Inl \<lparr>ss_t = 5, ss_tau = 10, ss_time_of_measurement = 30, ss_tat = 30\<rparr>, rl')"
    using check_key_decide [OF g] by simp
  from wait_is_exact [OF g _ this] this show ?thesis by (fastforce simp: time_fits_def)
qed

text \<open>How many requests an instant admits. On a new key a burst at one instant admits as many
  requests as the quota's burst size; on a key whose earlier requests are fully replenished it
  admits one more.\<close>

theorem burst_after_pause:
  assumes "gcra_new q = Some g" and "0 < q_replenish_1_per q" and "0 < q_max_burst q" and "time_fits g t0"
  shows "fst (burst g t0 n 0) = min n (q_max_burst q) \<and>
    (\<forall>c. 0 < c \<and> c \<le> t0 \<longrightarrow> fst (burst g t0 n c) = min n (q_max_burst q + 1))"
proof -
  let ?b = "q_max_burst q" and ?t = "unat (g_t g)"
  have g: "0 < g_t g" "unat (g_tau g) = ?b * ?t" "?t \<le> unat (g_tau g)"
    using gcra_new_facts [OF assms(1)] assms(2,3) by (simp_all add: word_less_nat_alt)
  have first: "fst (burst g t0 n c) = min n (?b + 2 - j)"
    if a: "max (arrival g t0 (nonzero c)) (unat t0) + ?t = unat t0 + j * ?t" "arrival g t0 (nonzero c) \<le> unat t0 + unat (g_tau g)"
      and j: "0 < j" "j \<le> ?b + 1" for c j
  proof -
    obtain c' where c': "unat c' = max (arrival g t0 (nonzero c)) (unat t0) + ?t"
      "\<forall>n. fst (burst g t0 (Suc n) c) = Suc (fst (burst g t0 n c'))"
      using burst_first [OF assms(4) a(2)] .
    show ?thesis
    proof (cases n)
      case (Suc m)
      have "fst (burst g t0 m c') = min m (?b + 1 - j)"
        by (rule burst_from [OF assms(4) g(1,2) j]) (simp add: c'(1) a(1))
      then show ?thesis using Suc c'(2) j(2) by auto
    qed simp
  qed
  have "fst (burst g t0 n 0) = min n (?b + 2 - 2)"
    using g(3) assms(3) by (intro first) (simp_all add: arrival_def nonzero_def)
  moreover have "fst (burst g t0 n c) = min n (?b + 2 - 1)" if "0 < c" "c \<le> t0" for c
    using that by (intro first) (auto simp: arrival_def nonzero_def word_le_nat_alt)
  ultimately show ?thesis by simp
qed

theorem burst_after_pause_witness:
  "fst (burst \<lparr>g_t = 5, g_tau = 10\<rparr> 20 9 0) = 2 \<and> fst (burst \<lparr>g_t = 5, g_tau = 10\<rparr> 20 9 7) = 3"
proof -
  have "gcra_new \<lparr>q_max_burst = 2, q_replenish_1_per = 5\<rparr> = Some \<lparr>g_t = 5, g_tau = 10\<rparr>"
    by (simp add: gcra_new_def nanos_from_duration_def)
  from burst_after_pause [OF this, of 20 9] show ?thesis by (simp add: time_fits_def)
qed

end
