(* ===== verification/Throttler.thy ===== *)
theory Throttler
  imports Nt_Prelude
begin

text \<open>
  The message throttler (\<open>crates/common/src/throttler.rs\<close>), which sends at most \<open>limit\<close>
  messages per interval and buffers or drops the others.

  The clock is an argument: every operation is given the time in nanoseconds. Of the
  timers of the clock the state keeps the alert of the throttler. The calls of the two output
  callbacks are logged, with the time for those that send. Vectors of double-ended
  queues are lists from front to back. Counters (\<open>usize\<close>) are natural numbers. The time of an
  alert is a sum of \<open>u64\<close> that the code checks: where it would panic the model wraps around, and the
  properties hold for times that stay below the largest \<open>u64\<close> by the interval, where it does neither.

  What is shown: for every sequence of messages and timer events at times that do not go back, any
  \<open>limit\<close> + 1 consecutive messages sent span at least the interval; a buffering throttler neither
  loses nor reorders messages and always has an alert set while messages wait.
\<close>

record 'm throttler =
  t_recv_count :: nat
  t_sent_count :: nat
  t_is_limiting :: bool
  t_limit :: nat
  t_buffer :: "'m list"
  t_timestamps :: "u64 list"
  t_interval :: u64
  t_drops :: bool
  t_alert :: "u64 option"
  t_sent :: "(u64 \<times> 'm) list"
  t_dropped :: "'m list"

definition throttler_new :: "nat \<Rightarrow> u64 \<Rightarrow> bool \<Rightarrow> 'm throttler" where
  "throttler_new limit interval drops =
     \<lparr>t_recv_count = 0, t_sent_count = 0, t_is_limiting = False, t_limit = limit, t_buffer = [], t_timestamps = [],
      t_interval = interval, t_drops = drops, t_alert = None, t_sent = [], t_dropped = []\<rparr>"

text \<open>The index \<open>limit - 1\<close> wraps around when the limit is zero, and is then out of range.\<close>

definition delta_next :: "u64 \<Rightarrow> 'm throttler \<Rightarrow> u64" where
  "delta_next now th =
     (if 0 < t_limit th \<and> t_limit th - 1 < length (t_timestamps th)
      then saturating_sub (t_interval th) (now - t_timestamps th ! (t_limit th - 1))
      else 0)"

definition throttler_set_timer :: "u64 \<Rightarrow> 'm throttler \<Rightarrow> 'm throttler" where
  "throttler_set_timer now th = th\<lparr>t_alert := Some (now + delta_next now th)\<rparr>"

definition throttler_reset :: "'m throttler \<Rightarrow> 'm throttler" where
  "throttler_reset th =
     th\<lparr>t_buffer := [], t_recv_count := 0, t_sent_count := 0, t_is_limiting := False, t_timestamps := []\<rparr>"

definition qsize :: "'m throttler \<Rightarrow> nat" where
  "qsize th = length (t_buffer th)"

definition send_msg :: "u64 \<Rightarrow> 'm throttler \<Rightarrow> 'm \<Rightarrow> 'm throttler" where
  "send_msg now th msg =
     (let ts = (if length (t_timestamps th) \<ge> t_limit th then butlast (t_timestamps th) else t_timestamps th)
      in th\<lparr>t_timestamps := now # ts, t_sent_count := t_sent_count th + 1, t_sent := t_sent th @ [(now, msg)]\<rparr>)"

definition limit_msg :: "u64 \<Rightarrow> 'm throttler \<Rightarrow> 'm \<Rightarrow> 'm throttler" where
  "limit_msg now th msg =
     (let th1 = (if t_drops th then th\<lparr>t_dropped := t_dropped th @ [msg]\<rparr> else th\<lparr>t_buffer := msg # t_buffer th\<rparr>)
      in if t_is_limiting th1 then th1 else (throttler_set_timer now th1)\<lparr>t_is_limiting := True\<rparr>)"

definition throttler_send :: "u64 \<Rightarrow> 'm throttler \<Rightarrow> 'm \<Rightarrow> 'm throttler" where
  "throttler_send now th0 msg =
     (let th1 = th0\<lparr>t_recv_count := t_recv_count th0 + 1\<rparr>;
          delta = delta_next now th1;
          th = (if t_is_limiting th1 \<and> delta = 0 \<and> t_buffer th1 = [] then th1\<lparr>t_is_limiting := False\<rparr> else th1)
      in if t_is_limiting th \<or> 0 < delta then limit_msg now th msg else send_msg now th msg)"

lemma send_msg_buffer [simp]: "t_buffer (send_msg now th msg) = t_buffer th"
  by (simp add: send_msg_def Let_def)

text \<open>The handler of the timer event of a buffering throttler.\<close>

function throttler_process :: "u64 \<Rightarrow> 'm throttler \<Rightarrow> 'm throttler" where
  "throttler_process now th =
     (if t_buffer th = [] then th\<lparr>t_is_limiting := False\<rparr>
      else let th1 = send_msg now (th\<lparr>t_buffer := butlast (t_buffer th)\<rparr>) (last (t_buffer th))
           in if t_buffer th1 \<noteq> [] \<and> 0 < delta_next now th1
              then throttler_set_timer now (th1\<lparr>t_is_limiting := True\<rparr>)
              else throttler_process now th1)"
  by pat_completeness auto
termination by (relation "measure (\<lambda>(now, th). length (t_buffer th))") auto

declare throttler_process.simps [simp del]

definition throttler_resume :: "'m throttler \<Rightarrow> 'm throttler" where
  "throttler_resume th = th\<lparr>t_is_limiting := False\<rparr>"

text \<open>A timer event: an alert that is due is removed and its callback called.\<close>

definition throttler_fire :: "u64 \<Rightarrow> 'm throttler \<Rightarrow> 'm throttler" where
  "throttler_fire now th =
     (case t_alert th of
        Some a \<Rightarrow>
          if a \<le> now
          then let th1 = th\<lparr>t_alert := None\<rparr>
               in if t_drops th then throttler_resume th1 else throttler_process now th1
          else th
      | None \<Rightarrow> th)"

section \<open>Runs\<close>

datatype 'm throttler_op = Op_Send 'm | Op_Timer

definition throttler_step :: "'m throttler \<Rightarrow> u64 \<times> 'm throttler_op \<Rightarrow> 'm throttler" where
  "throttler_step th x = (case x of (now, Op_Send m) \<Rightarrow> throttler_send now th m | (now, Op_Timer) \<Rightarrow> throttler_fire now th)"

definition received :: "(u64 \<times> 'm throttler_op) list \<Rightarrow> 'm list" where
  "received xs = List.map_filter (\<lambda>x. case snd x of Op_Send m \<Rightarrow> Some m | Op_Timer \<Rightarrow> None) xs"

text \<open>The times do not go back, and no alert passes the end of time.\<close>

definition clock_ok :: "u64 \<Rightarrow> (u64 \<times> 'm throttler_op) list \<Rightarrow> bool" where
  "clock_ok interval xs \<longleftrightarrow> sorted (map fst xs) \<and> (\<forall>x \<in> set xs. unat (fst x) + unat interval < 2 ^ 64)"

section \<open>Invariant\<close>

text \<open>Any \<open>n\<close> + 1 consecutive times of the list span at least \<open>d\<close>.\<close>

definition spaced :: "nat \<Rightarrow> nat \<Rightarrow> u64 list \<Rightarrow> bool" where
  "spaced n d ts \<longleftrightarrow> (\<forall>i. i + n < length ts \<longrightarrow> unat (ts ! i) + d \<le> unat (ts ! (i + n)))"

definition open_at :: "'m throttler \<Rightarrow> u64 \<Rightarrow> bool" where
  "open_at th now \<longleftrightarrow>
     (t_limit th \<le> length (t_sent th) \<longrightarrow>
      unat (fst (t_sent th ! (length (t_sent th) - t_limit th))) + unat (t_interval th) \<le> unat now)"

text \<open>What the invariant says of the messages sent, and the invariant.\<close>

definition sent_inv :: "u64 \<Rightarrow> 'm throttler \<Rightarrow> bool" where
  "sent_inv now th \<longleftrightarrow> 0 < t_limit th \<and>
     t_timestamps th = take (t_limit th) (rev (map fst (t_sent th))) \<and>
     (\<forall>x \<in> set (t_sent th). fst x \<le> now) \<and>
     spaced (t_limit th) (unat (t_interval th)) (map fst (t_sent th))"

definition throttler_inv :: "u64 \<Rightarrow> 'm throttler \<Rightarrow> bool" where
  "throttler_inv now th \<longleftrightarrow> sent_inv now th \<and>
     (\<not> t_drops th \<longrightarrow> t_is_limiting th = (t_buffer th \<noteq> []) \<and>
        (t_buffer th \<noteq> [] \<longrightarrow> (\<exists>a. t_alert th = Some a \<and> open_at th a))) \<and>
     (t_drops th \<longrightarrow> t_buffer th = [])"

lemma throttler_inv_later: "throttler_inv t0 th \<Longrightarrow> t0 \<le> now \<Longrightarrow> throttler_inv now th"
  by (auto simp: throttler_inv_def sent_inv_def)

lemma sent_inv_delta:
  assumes "sent_inv now th"
  shows "delta_next now th = 0 \<longleftrightarrow> open_at th now"
    and "unat (delta_next now th) \<le> unat (t_interval th)"
    and "t_limit th \<le> length (t_sent th) \<Longrightarrow>
      unat (delta_next now th) = unat (fst (t_sent th ! (length (t_sent th) - t_limit th))) + unat (t_interval th) - unat now"
proof -
  let ?n = "length (t_sent th)" and ?l = "t_limit th"
  have l: "0 < ?l" and ts: "t_timestamps th = take ?l (rev (map fst (t_sent th)))"
    using assms by (simp_all add: sent_inv_def)
  show *: "unat (delta_next now th) = unat (fst (t_sent th ! (?n - ?l))) + unat (t_interval th) - unat now" if "?l \<le> ?n"
  proof -
    have e: "t_timestamps th ! (?l - 1) = fst (t_sent th ! (?n - ?l))"
      using that l by (simp add: ts rev_nth)
    have "t_sent th ! (?n - ?l) \<in> set (t_sent th)" using that l by simp
    then have "fst (t_sent th ! (?n - ?l)) \<le> now" using assms by (auto simp: sent_inv_def)
    then show ?thesis using that l e
      by (simp add: delta_next_def ts unat_saturating_sub unat_sub word_le_nat_alt)
  qed
  show "unat (delta_next now th) \<le> unat (t_interval th)"
    by (simp add: delta_next_def unat_saturating_sub)
  show "delta_next now th = 0 \<longleftrightarrow> open_at th now"
  proof (cases "?l \<le> ?n")
    case True
    then show ?thesis using * by (simp add: open_at_def word_unat_eq_iff)
  next
    case False
    then have "\<not> ?l - 1 < length (t_timestamps th)" using l by (simp add: ts)
    then show ?thesis using False by (simp add: delta_next_def open_at_def)
  qed
qed

text \<open>The alert is set for the time at which the throttler opens.\<close>

lemma alert_opens:
  assumes "sent_inv now th" and "unat now + unat (t_interval th) < 2 ^ 64"
  shows "open_at th (now + delta_next now th)"
  unfolding open_at_def
proof
  assume l: "t_limit th \<le> length (t_sent th)"
  note d = sent_inv_delta [OF assms(1)]
  have "unat (now + delta_next now th) = unat now + unat (delta_next now th)"
    using d(2) assms(2) by (simp add: unat_word_ariths)
  then show "unat (fst (t_sent th ! (length (t_sent th) - t_limit th))) + unat (t_interval th) \<le> unat (now + delta_next now th)"
    using d(3) [OF l] by linarith
qed

lemma spaced_snoc:
  assumes "spaced n d ts" and "0 < n" and "n \<le> length ts \<longrightarrow> unat (ts ! (length ts - n)) + d \<le> unat t"
  shows "spaced n d (ts @ [t])"
  unfolding spaced_def
proof (intro allI impI)
  fix i
  assume i: "i + n < length (ts @ [t])"
  show "unat ((ts @ [t]) ! i) + d \<le> unat ((ts @ [t]) ! (i + n))"
  proof (cases "i + n < length ts")
    case True
    then show ?thesis using assms(1,2) by (simp add: spaced_def nth_append)
  next
    case False
    then have "i + n = length ts" using i by simp
    then have "i = length ts - n" "n \<le> length ts" "i < length ts" using assms(2) by auto
    then show ?thesis using assms(3) \<open>i + n = length ts\<close> by (simp add: nth_append)
  qed
qed

text \<open>Sending when the throttler is open keeps what the invariant says of the messages sent.\<close>

lemma sent_inv_send_msg:
  assumes "sent_inv now th" and "open_at th now"
  shows "sent_inv now (send_msg now th m)"
proof -
  let ?ts = "map fst (t_sent th)" and ?l = "t_limit th"
  have l: "0 < ?l" and ts: "t_timestamps th = take ?l (rev ?ts)" using assms(1) by (simp_all add: sent_inv_def)
  have "(if ?l \<le> length (t_timestamps th) then butlast (t_timestamps th) else t_timestamps th) = take (?l - 1) (rev ?ts)"
  proof (cases "?l \<le> length ?ts")
    case True
    then show ?thesis by (simp add: ts butlast_take)
  qed (use l in \<open>simp add: ts\<close>)
  moreover have "take ?l (rev (?ts @ [now])) = now # take (?l - 1) (rev ?ts)" using l by (cases ?l) simp_all
  moreover have "spaced ?l (unat (t_interval th)) (?ts @ [now])"
    using assms l by (intro spaced_snoc) (auto simp: sent_inv_def open_at_def)
  ultimately show ?thesis using assms(1) by (simp add: sent_inv_def send_msg_def Let_def)
qed

lemma send_msg_frame [simp]:
  "t_limit (send_msg now th m) = t_limit th" "t_interval (send_msg now th m) = t_interval th"
  "t_drops (send_msg now th m) = t_drops th" "t_is_limiting (send_msg now th m) = t_is_limiting th"
  "t_alert (send_msg now th m) = t_alert th" "t_sent (send_msg now th m) = t_sent th @ [(now, m)]"
  "t_dropped (send_msg now th m) = t_dropped th"
  by (simp_all add: send_msg_def Let_def)

lemma sent_inv_cong:
  "t_limit th' = t_limit th \<Longrightarrow> t_timestamps th' = t_timestamps th \<Longrightarrow> t_sent th' = t_sent th \<Longrightarrow>
   t_interval th' = t_interval th \<Longrightarrow> sent_inv now th' = sent_inv now th"
  by (simp add: sent_inv_def)

lemma open_at_cong:
  "t_limit th' = t_limit th \<Longrightarrow> t_sent th' = t_sent th \<Longrightarrow> t_interval th' = t_interval th \<Longrightarrow> open_at th' now = open_at th now"
  by (simp add: open_at_def)

lemma delta_next_cong:
  "t_limit th' = t_limit th \<Longrightarrow> t_timestamps th' = t_timestamps th \<Longrightarrow> t_interval th' = t_interval th \<Longrightarrow>
   delta_next now th' = delta_next now th"
  by (simp add: delta_next_def)

lemmas throttler_congs = sent_inv_cong open_at_cong delta_next_cong

lemma not_positive_word: "\<not> 0 < (x :: u64) \<longleftrightarrow> x = 0"
  by (simp add: word_less_nat_alt unat_eq_0)

lemma set_timer_limiting:
  "throttler_set_timer now (th\<lparr>t_is_limiting := b\<rparr>) = th\<lparr>t_is_limiting := b, t_alert := Some (now + delta_next now th)\<rparr>"
  by (simp add: throttler_set_timer_def delta_next_def)

section \<open>The operations keep the invariant\<close>

lemma limit_msg_inv:
  assumes "throttler_inv now th" and "unat now + unat (t_interval th) < 2 ^ 64"
  shows "throttler_inv now (limit_msg now th m)"
proof -
  have s: "sent_inv now th" using assms(1) by (simp add: throttler_inv_def)
  have o: "open_at th (now + delta_next now th)" using alert_opens [OF s assms(2)] .
  show ?thesis
  proof (cases "t_is_limiting th")
    case True
    then show ?thesis using assms(1)
      by (auto simp: throttler_inv_def limit_msg_def Let_def sent_inv_def open_at_def)
  next
    case False
    let ?th = "if t_drops th then th\<lparr>t_dropped := t_dropped th @ [m]\<rparr> else th\<lparr>t_buffer := m # t_buffer th\<rparr>"
    have c: "t_limit ?th = t_limit th" "t_timestamps ?th = t_timestamps th" "t_sent ?th = t_sent th"
      "t_interval ?th = t_interval th" "\<not> t_is_limiting ?th"
      using False by simp_all
    have "delta_next now ?th = delta_next now th" using c by (intro delta_next_cong) auto
    then show ?thesis using False s o assms(1)
      by (auto simp: throttler_inv_def limit_msg_def Let_def throttler_set_timer_def sent_inv_def open_at_def)
  qed
qed

text \<open>The state in which \<open>send\<close> decides, after the message is counted and the limit lifted if it has passed.\<close>

definition send_state :: "u64 \<Rightarrow> 'm throttler \<Rightarrow> 'm throttler" where
  "send_state now th0 =
     (let th1 = th0\<lparr>t_recv_count := t_recv_count th0 + 1\<rparr>
      in if t_is_limiting th1 \<and> delta_next now th1 = 0 \<and> t_buffer th1 = [] then th1\<lparr>t_is_limiting := False\<rparr> else th1)"

lemma send_state_frame:
  "t_limit (send_state now th) = t_limit th" "t_timestamps (send_state now th) = t_timestamps th"
  "t_sent (send_state now th) = t_sent th" "t_interval (send_state now th) = t_interval th"
  "t_buffer (send_state now th) = t_buffer th" "t_drops (send_state now th) = t_drops th"
  "t_alert (send_state now th) = t_alert th" "t_dropped (send_state now th) = t_dropped th"
  "delta_next now (send_state now th) = delta_next now th"
  by (simp_all add: send_state_def Let_def delta_next_def)

lemma throttler_send_cases:
  "throttler_send now th m =
     (if t_is_limiting (send_state now th) \<or> 0 < delta_next now (send_state now th)
      then limit_msg now (send_state now th) m else send_msg now (send_state now th) m)"
proof -
  have "delta_next now (th\<lparr>t_recv_count := t_recv_count th + 1\<rparr>) = delta_next now (send_state now th)"
    by (simp add: send_state_frame) (simp add: delta_next_def)
  then show ?thesis unfolding throttler_send_def send_state_def Let_def by (simp only:)
qed

lemma send_state_inv: "throttler_inv now th \<Longrightarrow> throttler_inv now (send_state now th)"
  by (auto simp: throttler_inv_def sent_inv_def open_at_def send_state_def Let_def)

lemma throttler_send_inv:
  assumes "throttler_inv now th" and "unat now + unat (t_interval th) < 2 ^ 64"
  shows "throttler_inv now (throttler_send now th m)"
proof -
  let ?th = "send_state now th"
  have inv: "throttler_inv now ?th" using send_state_inv assms(1) .
  then have s: "sent_inv now ?th" by (simp add: throttler_inv_def)
  show ?thesis
  proof (cases "t_is_limiting ?th \<or> 0 < delta_next now ?th")
    case True
    then show ?thesis using limit_msg_inv [OF inv] assms(2) by (simp add: throttler_send_cases send_state_frame)
  next
    case False
    then have "delta_next now ?th = 0" by (simp add: not_positive_word)
    then have "sent_inv now (send_msg now ?th m)" using sent_inv_send_msg [OF s] sent_inv_delta(1) [OF s] by simp
    moreover have "t_buffer ?th = []" using inv False by (auto simp: throttler_inv_def)
    ultimately show ?thesis using inv False by (simp add: throttler_send_cases throttler_inv_def)
  qed
qed

lemma process_inv:
  assumes "sent_inv now th" and "\<not> t_drops th" and "t_buffer th \<noteq> [] \<longrightarrow> open_at th now"
    and "unat now + unat (t_interval th) < 2 ^ 64"
  shows "throttler_inv now (throttler_process now th)"
  using assms
proof (induction now th rule: throttler_process.induct)
  case (1 now th)
  show ?case
  proof (cases "t_buffer th = []")
    case True
    then show ?thesis using 1(2-) by (simp add: throttler_process.simps [of now th] throttler_inv_def sent_inv_def)
  next
    case False
    let ?th0 = "th\<lparr>t_buffer := butlast (t_buffer th)\<rparr>"
    define th1 where "th1 = send_msg now ?th0 (last (t_buffer th))"
    have "sent_inv now ?th0" "open_at ?th0 now" using 1(2,4) False by (simp_all add: sent_inv_def open_at_def)
    then have s: "sent_inv now th1" unfolding th1_def by (rule sent_inv_send_msg)
    have f: "\<not> t_drops th1" "t_interval th1 = t_interval th" using 1(3) by (simp_all add: th1_def)
    have e: "throttler_process now th =
        (if t_buffer th1 \<noteq> [] \<and> 0 < delta_next now th1 then throttler_set_timer now (th1\<lparr>t_is_limiting := True\<rparr>)
         else throttler_process now th1)"
      using False by (subst throttler_process.simps) (simp add: th1_def Let_def)
    show ?thesis
    proof (cases "t_buffer th1 \<noteq> [] \<and> 0 < delta_next now th1")
      case True
      have "open_at th1 (now + delta_next now th1)" using alert_opens [OF s] f(2) 1(5) by simp
      then show ?thesis using True e s f(1)
        by (simp add: throttler_inv_def set_timer_limiting sent_inv_def open_at_def)
    next
      case False
      then have "t_buffer th1 \<noteq> [] \<longrightarrow> open_at th1 now" using sent_inv_delta(1) [OF s] by (auto simp: not_positive_word)
      then have "throttler_inv now (throttler_process now th1)"
        using 1(1) [OF \<open>t_buffer th \<noteq> []\<close> th1_def] False s f 1(5) by simp
      then show ?thesis using e False by simp
    qed
  qed
qed

lemma throttler_fire_inv:
  assumes "throttler_inv now th" and "unat now + unat (t_interval th) < 2 ^ 64"
  shows "throttler_inv now (throttler_fire now th)"
proof (cases "\<exists>a. t_alert th = Some a \<and> a \<le> now")
  case True
  then obtain a where a: "t_alert th = Some a" "a \<le> now" by blast
  show ?thesis
  proof (cases "t_drops th")
    case True
    then show ?thesis using a assms(1)
      by (simp add: throttler_fire_def throttler_resume_def throttler_inv_def sent_inv_def Let_def)
  next
    case False
    have "t_buffer th \<noteq> [] \<longrightarrow> open_at th now"
      using assms(1) False a by (auto simp: throttler_inv_def open_at_def word_le_nat_alt)
    then have "throttler_inv now (throttler_process now (th\<lparr>t_alert := None\<rparr>))"
      using assms False by (intro process_inv) (simp_all add: throttler_inv_def sent_inv_def open_at_def)
    then show ?thesis using a False by (simp add: throttler_fire_def Let_def)
  qed
next
  case False
  then show ?thesis using assms(1) by (auto simp: throttler_fire_def split: option.splits)
qed

lemma process_frame:
  "t_limit (throttler_process now th) = t_limit th \<and> t_interval (throttler_process now th) = t_interval th \<and>
   t_drops (throttler_process now th) = t_drops th \<and>
   map snd (t_sent (throttler_process now th)) @ rev (t_buffer (throttler_process now th)) =
     map snd (t_sent th) @ rev (t_buffer th) \<and>
   length (t_sent th) \<le> length (t_sent (throttler_process now th)) \<and>
   (t_buffer th \<noteq> [] \<longrightarrow> length (t_sent th) < length (t_sent (throttler_process now th)))"
proof (induction now th rule: throttler_process.induct)
  case (1 now th)
  show ?case
  proof (cases "t_buffer th = []")
    case False
    define th1 where "th1 = send_msg now (th\<lparr>t_buffer := butlast (t_buffer th)\<rparr>) (last (t_buffer th))"
    have e: "throttler_process now th =
        (if t_buffer th1 \<noteq> [] \<and> 0 < delta_next now th1 then throttler_set_timer now (th1\<lparr>t_is_limiting := True\<rparr>)
         else throttler_process now th1)"
      using False by (subst throttler_process.simps) (simp add: th1_def Let_def)
    have rv: "rev (t_buffer th) = last (t_buffer th) # rev (butlast (t_buffer th))"
      using False by (simp add: rev_eq_Cons_iff)
    have f: "t_limit th1 = t_limit th" "t_interval th1 = t_interval th" "t_drops th1 = t_drops th"
      "map snd (t_sent th1) @ rev (t_buffer th1) = map snd (t_sent th) @ rev (t_buffer th)"
      "length (t_sent th1) = Suc (length (t_sent th))"
      by (simp_all add: th1_def rv)
    show ?thesis using 1 [OF False th1_def] e f by (auto simp: set_timer_limiting)
  qed (simp add: throttler_process.simps [of now th])
qed

lemma fire_frame:
  "t_limit (throttler_fire now th) = t_limit th" "t_interval (throttler_fire now th) = t_interval th"
  "t_drops (throttler_fire now th) = t_drops th"
  "map snd (t_sent (throttler_fire now th)) @ rev (t_buffer (throttler_fire now th)) = map snd (t_sent th) @ rev (t_buffer th)"
  using process_frame [of now "th\<lparr>t_alert := None\<rparr>"]
  by (simp_all add: throttler_fire_def throttler_resume_def Let_def split: option.split)

lemma send_frame:
  "t_limit (throttler_send now th m) = t_limit th" "t_interval (throttler_send now th m) = t_interval th"
  "t_drops (throttler_send now th m) = t_drops th"
  by (simp_all add: throttler_send_cases limit_msg_def throttler_set_timer_def Let_def send_state_frame)

lemma send_order:
  assumes "throttler_inv now th" and "\<not> t_drops th"
  shows "map snd (t_sent (throttler_send now th m)) @ rev (t_buffer (throttler_send now th m)) =
    map snd (t_sent th) @ rev (t_buffer th) @ [m]"
proof (cases "t_is_limiting (send_state now th) \<or> 0 < delta_next now (send_state now th)")
  case True
  then show ?thesis using assms(2)
    by (simp add: throttler_send_cases limit_msg_def throttler_set_timer_def Let_def send_state_frame)
next
  case False
  then have "t_buffer (send_state now th) = []" using send_state_inv [OF assms(1)] assms(2)
    by (auto simp: throttler_inv_def send_state_frame)
  then show ?thesis using False by (simp add: throttler_send_cases send_state_frame)
qed

lemma throttler_run:
  assumes "clock_ok (t_interval th) xs" and "throttler_inv t0 th" and "\<forall>x \<in> set xs. t0 \<le> fst x"
  shows "\<exists>t1. throttler_inv t1 (foldl throttler_step th xs) \<and>
    t_limit (foldl throttler_step th xs) = t_limit th \<and> t_interval (foldl throttler_step th xs) = t_interval th \<and>
    t_drops (foldl throttler_step th xs) = t_drops th \<and>
    (\<not> t_drops th \<longrightarrow> map snd (t_sent (foldl throttler_step th xs)) @ rev (t_buffer (foldl throttler_step th xs)) =
       map snd (t_sent th) @ rev (t_buffer th) @ received xs)"
  using assms
proof (induction xs arbitrary: th t0)
  case Nil
  then show ?case by (auto simp: received_def map_filter_simps)
next
  case (Cons x xs)
  obtain now e where x: "x = (now, e)" by (cases x)
  have c: "clock_ok (t_interval th) xs" "unat now + unat (t_interval th) < 2 ^ 64" "t0 \<le> now" "\<forall>y \<in> set xs. now \<le> fst y"
    using Cons.prems by (auto simp: clock_ok_def x)
  have inv: "throttler_inv now th" using throttler_inv_later [OF Cons.prems(2) c(3)] .
  let ?th = "throttler_step th x"
  have inv': "throttler_inv now ?th"
    using throttler_send_inv [OF inv c(2)] throttler_fire_inv [OF inv c(2)]
    by (simp add: throttler_step_def x split: throttler_op.split)
  have f: "t_limit ?th = t_limit th" "t_interval ?th = t_interval th" "t_drops ?th = t_drops th"
    by (simp_all add: throttler_step_def x send_frame fire_frame split: throttler_op.split)
  have "map snd (t_sent ?th) @ rev (t_buffer ?th) @ received xs =
      map snd (t_sent th) @ rev (t_buffer th) @ received (x # xs)" if "\<not> t_drops th"
    using send_order [OF inv that] fire_frame(4) [of now th]
    by (simp add: throttler_step_def x received_def map_filter_simps split: throttler_op.split)
  then show ?case using Cons.IH [OF _ inv' c(4)] c(1) f by simp
qed

lemma throttler_new_inv: "0 < limit \<Longrightarrow> throttler_inv 0 (throttler_new limit interval drops)"
  by (simp add: throttler_new_def throttler_inv_def sent_inv_def spaced_def)

lemma throttler_new_run:
  assumes "clock_ok interval xs" and "0 < limit" and "th = foldl throttler_step (throttler_new limit interval drops) xs"
  obtains t1 where "throttler_inv t1 th" "t_limit th = limit" "t_interval th = interval" "t_drops th = drops"
    "\<not> drops \<Longrightarrow> map snd (t_sent th) @ rev (t_buffer th) = received xs"
proof -
  have new: "t_interval (throttler_new limit interval d) = interval" "t_limit (throttler_new limit interval d) = limit"
    "t_drops (throttler_new limit interval d) = d" "t_sent (throttler_new limit interval d) = []"
    "t_buffer (throttler_new limit interval d) = []" for d :: bool
    by (simp_all add: throttler_new_def)
  obtain t1 where "throttler_inv t1 th" "t_limit th = limit" "t_interval th = interval" "t_drops th = drops"
    "\<not> drops \<longrightarrow> map snd (t_sent th) @ rev (t_buffer th) = received xs"
    using throttler_run [of "throttler_new limit interval drops" xs 0] assms(1,3) throttler_new_inv [OF assms(2), of interval drops]
    by (auto simp: new)
  then show ?thesis using that by blast
qed

section \<open>Properties\<close>

text \<open>C16: the throttler keeps the rate. However messages and timer events arrive, at
  times that do not go back, of any \<open>limit\<close> + 1 messages sent in a row the last is sent at
  least the interval after the first, whether the throttler buffers or drops.\<close>

theorem throttler_keeps_rate:
  assumes "clock_ok interval xs" and "0 < limit" and "th = foldl throttler_step (throttler_new limit interval drops) xs"
    and "i + limit < length (t_sent th)"
  shows "unat (fst (t_sent th ! i)) + unat interval \<le> unat (fst (t_sent th ! (i + limit)))"
proof -
  obtain t1 where "throttler_inv t1 th" "t_limit th = limit" "t_interval th = interval"
    by (rule throttler_new_run [OF assms(1-3)])
  then show ?thesis using assms(4) by (simp add: throttler_inv_def sent_inv_def spaced_def)
qed

theorem throttler_keeps_rate_witness:
  "let th = foldl throttler_step (throttler_new 1 10 False) [(3, Op_Send True), (4, Op_Send False), (20, Op_Timer)]
   in t_sent th = [(3, True), (20, False)] \<and> unat (fst (t_sent th ! 0)) + unat (10 :: u64) \<le> unat (fst (t_sent th ! (0 + 1)))"
proof -
  let ?xs = "[(3, Op_Send True), (4, Op_Send False), (20, Op_Timer)] :: (u64 \<times> bool throttler_op) list"
  let ?th = "foldl throttler_step (throttler_new 1 10 False) ?xs"
  have s: "t_sent ?th = [(3, True), (20, False)]"
    by (simp add: throttler_step_def throttler_send_def throttler_fire_def throttler_new_def delta_next_def send_msg_def
      limit_msg_def throttler_set_timer_def saturating_sub_def throttler_process.simps)
  have "clock_ok (10 :: u64) ?xs" by (simp add: clock_ok_def)
  from throttler_keeps_rate [OF this _ refl, of 1 0 False] s show ?thesis by (simp add: Let_def)
qed

text \<open>C17: a buffering throttler loses and reorders nothing. At every moment the messages sent,
  followed by the messages that wait, are the messages received, in order; and while messages
  wait an alert is set, at which at least one of them is sent.\<close>

theorem throttler_keeps_order:
  assumes "clock_ok interval xs" and "0 < limit" and "th = foldl throttler_step (throttler_new limit interval False) xs"
  shows "map snd (t_sent th) @ rev (t_buffer th) = received xs \<and>
    (t_buffer th \<noteq> [] \<longrightarrow> (\<exists>a. t_alert th = Some a \<and>
       (\<forall>now. a \<le> now \<longrightarrow> length (t_sent th) < length (t_sent (throttler_fire now th)))))"
proof -
  obtain t1 where r: "throttler_inv t1 th" "t_drops th = False" "map snd (t_sent th) @ rev (t_buffer th) = received xs"
    using throttler_new_run [OF assms] by auto
  have "length (t_sent th) < length (t_sent (throttler_fire now th))"
    if "t_alert th = Some a" "a \<le> now" "t_buffer th \<noteq> []" for a now
    using that r(2) process_frame [of now "th\<lparr>t_alert := None\<rparr>"] by (simp add: throttler_fire_def Let_def)
  then show ?thesis using r by (auto simp: throttler_inv_def)
qed

theorem throttler_keeps_order_witness:
  "let th = foldl throttler_step (throttler_new 1 10 False) [(3, Op_Send True), (4, Op_Send False)]
   in map snd (t_sent th) @ rev (t_buffer th) = [True, False]"
proof -
  have "clock_ok (10 :: u64) [(3, Op_Send True), (4, Op_Send False)]" by (simp add: clock_ok_def)
  from throttler_keeps_order [OF this _ refl, of 1] show ?thesis by (simp add: Let_def received_def map_filter_simps)
qed

text \<open>a throttler with limit zero limits nothing: every message is sent as it arrives, the
  index of the oldest counted message being out of range.\<close>

theorem zero_limit_sends_all:
  "map snd (t_sent (foldl throttler_step (throttler_new 0 interval drops) xs)) = received xs"
proof -
  have "map snd (t_sent (foldl throttler_step th xs)) = map snd (t_sent th) @ received xs"
    if "t_limit th = 0" "\<not> t_is_limiting th" "t_alert th = None" for th :: "'a throttler"
    using that
  proof (induction xs arbitrary: th)
    case (Cons x xs)
    obtain now e where x: "x = (now, e)" by (cases x)
    have d: "delta_next now th = 0" if "t_limit th = 0" for th :: "'a throttler" using that by (simp add: delta_next_def)
    have s: "send_state now th = th\<lparr>t_recv_count := t_recv_count th + 1\<rparr>"
      using Cons.prems(2) by (simp add: send_state_def Let_def)
    show ?case using Cons
      by (cases e) (simp_all add: x throttler_step_def throttler_send_cases s d throttler_fire_def received_def map_filter_simps)
  qed (simp add: received_def map_filter_simps)
  then show ?thesis by (simp add: throttler_new_def)
qed

end
