(* ===== verification/Bar_Builder.thy ===== *)
theory Bar_Builder
  imports Order_Book
begin

text \<open>
  Bars and the bar builder (\<open>crates/model/src/data/bar.rs\<close>, \<open>crates/data/src/aggregation.rs\<close>,
  \<open>BarBuilder\<close> and \<open>BarAggregatorCore\<close>), and the prices and sizes taken from quotes
  (\<open>crates/model/src/data/quote.rs\<close>).

  A builder collects samples: a tick is a sample of one price, a bar of a finer type a sample with four. The
  relation \<open>builder_holds b ss\<close> says that the builder summarises the samples \<open>ss\<close>; the
  operations are shown to keep it, and the bar that is built to be the open, high, low, close and volume of its
  samples. The handler that receives the bars is the list of bars sent.
\<close>

section \<open>Bar types and bars\<close>

datatype bar_aggregation =
    Tick | TickImbalance | TickRuns | Volume | VolumeImbalance | VolumeRuns | Value | ValueImbalance | ValueRuns
  | Millisecond | Second | Minute | Hour | Day | Week | Month | Year | Renko

datatype aggregation_source = External | Internal

datatype price_type = Bid | Ask | Mid | Last | Mark

record bar_specification =
  bs_step :: nat
  bs_aggregation :: bar_aggregation
  bs_price_type :: price_type

datatype step_error = InvalidStep

text \<open>The step is a \<open>NonZeroUsize\<close>.\<close>

definition bar_spec_new_checked :: "nat \<Rightarrow> bar_aggregation \<Rightarrow> price_type \<Rightarrow> step_error + bar_specification" where
  "bar_spec_new_checked step aggregation ptype =
     (if step = 0 then Inl InvalidStep
      else Inr \<lparr>bs_step = step, bs_aggregation = aggregation, bs_price_type = ptype\<rparr>)"

datatype bar_type =
    Standard instrument_id bar_specification aggregation_source
  | Composite instrument_id bar_specification aggregation_source nat bar_aggregation aggregation_source

fun bt_standard :: "bar_type \<Rightarrow> bar_type" where
  "bt_standard (Standard i s a) = Standard i s a"
| "bt_standard (Composite i s a cs ca csrc) = Standard i s a"

definition bt_composite :: "bar_type \<Rightarrow> bar_type panics" where
  "bt_composite b =
     (case b of
        Standard i s a \<Rightarrow> Some b
      | Composite i s a cs ca csrc \<Rightarrow>
          (case bar_spec_new_checked cs ca (bs_price_type s) of
             Inl _ \<Rightarrow> None
           | Inr spec \<Rightarrow> Some (Standard i spec csrc)))"

fun bt_spec :: "bar_type \<Rightarrow> bar_specification" where
  "bt_spec (Standard i s a) = s"
| "bt_spec (Composite i s a cs ca csrc) = s"

fun bt_aggregation_source :: "bar_type \<Rightarrow> aggregation_source" where
  "bt_aggregation_source (Standard i s a) = a"
| "bt_aggregation_source (Composite i s a cs ca csrc) = a"

record bar =
  br_bar_type :: bar_type
  br_open :: price
  br_high :: price
  br_low :: price
  br_close :: price
  br_volume :: quantity
  br_ts_event :: u64
  br_ts_init :: u64

datatype bar_error = HighBelowOpen | HighBelowLow | HighBelowClose | LowAboveClose | LowAboveOpen

definition bar_new_checked ::
  "bar_type \<Rightarrow> price \<Rightarrow> price \<Rightarrow> price \<Rightarrow> price \<Rightarrow> quantity \<Rightarrow> u64 \<Rightarrow> u64 \<Rightarrow> bar_error + bar" where
  "bar_new_checked bt op hi lo cl vol ts_event ts_init =
     (if \<not> p_raw hi \<ge> p_raw op then Inl HighBelowOpen
      else if \<not> p_raw hi \<ge> p_raw lo then Inl HighBelowLow
      else if \<not> p_raw hi \<ge> p_raw cl then Inl HighBelowClose
      else if \<not> p_raw lo \<le> p_raw cl then Inl LowAboveClose
      else if \<not> p_raw lo \<le> p_raw op then Inl LowAboveOpen
      else Inr \<lparr>br_bar_type = bt, br_open = op, br_high = hi, br_low = lo, br_close = cl, br_volume = vol,
        br_ts_event = ts_event, br_ts_init = ts_init\<rparr>)"

definition bar_new ::
  "bar_type \<Rightarrow> price \<Rightarrow> price \<Rightarrow> price \<Rightarrow> price \<Rightarrow> quantity \<Rightarrow> u64 \<Rightarrow> u64 \<Rightarrow> bar panics" where
  "bar_new bt op hi lo cl vol ts_event ts_init =
     (case bar_new_checked bt op hi lo cl vol ts_event ts_init of Inl _ \<Rightarrow> None | Inr b \<Rightarrow> Some b)"

section \<open>Prices and sizes of quotes\<close>

definition extract_price :: "quote_tick \<Rightarrow> price_type \<Rightarrow> price panics" where
  "extract_price q t =
     (case t of
        Bid \<Rightarrow> Some (qt_bid_price q)
      | Ask \<Rightarrow> Some (qt_ask_price q)
      | Mid \<Rightarrow>
          (let a = p_raw (qt_bid_price q); b = p_raw (qt_ask_price q);
               mid_raw = a sdiv 2 + b sdiv 2 + (a smod 2 + b smod 2) sdiv 2
           in price_from_raw mid_raw (min (p_prec (qt_bid_price q) + 1) FIXED_PRECISION))
      | _ \<Rightarrow> None)"

definition extract_size :: "quote_tick \<Rightarrow> price_type \<Rightarrow> quantity panics" where
  "extract_size q t =
     (case t of
        Bid \<Rightarrow> Some (qt_bid_size q)
      | Ask \<Rightarrow> Some (qt_ask_size q)
      | Mid \<Rightarrow>
          (let a = q_raw (qt_bid_size q); b = q_raw (qt_ask_size q);
               mid_raw = a div 2 + b div 2 + (a mod 2 + b mod 2) div 2
           in quantity_from_raw mid_raw (min (q_prec (qt_bid_size q) + 1) FIXED_PRECISION))
      | _ \<Rightarrow> None)"

section \<open>The builder\<close>

record bar_builder =
  bb_bar_type :: bar_type
  bb_price_precision :: nat
  bb_size_precision :: nat
  bb_initialized :: bool
  bb_ts_last :: u64
  bb_count :: nat
  bb_last_close :: "price option"
  bb_open :: "price option"
  bb_high :: "price option"
  bb_low :: "price option"
  bb_close :: "price option"
  bb_volume :: quantity

definition builder_new :: "bar_type \<Rightarrow> nat \<Rightarrow> nat \<Rightarrow> bar_builder panics" where
  "builder_new bt price_precision size_precision =
     (if bt_aggregation_source bt \<noteq> Internal then None
      else do {
        volume \<leftarrow> quantity_zero size_precision;
        Some \<lparr>bb_bar_type = bt, bb_price_precision = price_precision, bb_size_precision = size_precision,
          bb_initialized = False, bb_ts_last = 0, bb_count = 0, bb_last_close = None, bb_open = None, bb_high = None,
          bb_low = None, bb_close = None, bb_volume = volume\<rparr>
      })"

definition builder_update :: "bar_builder \<Rightarrow> price \<Rightarrow> quantity \<Rightarrow> u64 \<Rightarrow> bar_builder panics" where
  "builder_update b price sz ts_init =
     (if ts_init < bb_ts_last b then Some b
      else do {
        b1 \<leftarrow> (case bb_open b of
            None \<Rightarrow> Some (b\<lparr>bb_open := Some price, bb_high := Some price, bb_low := Some price, bb_initialized := True\<rparr>)
          | Some _ \<Rightarrow> do {
              high \<leftarrow> bb_high b;
              low \<leftarrow> bb_low b;
              Some (b\<lparr>bb_high := Some (if p_raw price > p_raw high then price else high),
                bb_low := Some (if p_raw price < p_raw low then price else low)\<rparr>)
            });
        volume \<leftarrow> quantity_add (bb_volume b1) sz;
        Some (b1\<lparr>bb_close := Some price, bb_volume := volume, bb_count := wrap_u 64 (bb_count b1 + 1), bb_ts_last := ts_init\<rparr>)
      })"

definition builder_update_bar :: "bar_builder \<Rightarrow> bar \<Rightarrow> quantity \<Rightarrow> u64 \<Rightarrow> bar_builder panics" where
  "builder_update_bar b br vol ts_init =
     (if ts_init < bb_ts_last b then Some b
      else do {
        b1 \<leftarrow> (case bb_open b of
            None \<Rightarrow> Some (b\<lparr>bb_open := Some (br_open br), bb_high := Some (br_high br), bb_low := Some (br_low br),
                bb_initialized := True\<rparr>)
          | Some _ \<Rightarrow> do {
              high \<leftarrow> bb_high b;
              low \<leftarrow> bb_low b;
              Some (b\<lparr>bb_high := Some (if p_raw (br_high br) > p_raw high then br_high br else high),
                bb_low := Some (if p_raw (br_low br) < p_raw low then br_low br else low)\<rparr>)
            });
        volume \<leftarrow> quantity_add (bb_volume b1) vol;
        Some (b1\<lparr>bb_close := Some (br_close br), bb_volume := volume, bb_count := wrap_u 64 (bb_count b1 + 1),
          bb_ts_last := ts_init\<rparr>)
      })"

definition builder_reset :: "bar_builder \<Rightarrow> bar_builder panics" where
  "builder_reset b = do {
     volume \<leftarrow> quantity_zero (bb_size_precision b);
     Some (b\<lparr>bb_open := None, bb_high := None, bb_low := None, bb_volume := volume, bb_count := 0\<rparr>)
   }"

text \<open>\<open>build\<close>: an empty builder takes the last close; then the low and the high are widened to the close.\<close>

definition build_fill :: "bar_builder \<Rightarrow> bar_builder" where
  "build_fill b =
     (if bb_open b = None
      then b\<lparr>bb_open := bb_last_close b, bb_high := bb_last_close b, bb_low := bb_last_close b, bb_close := bb_last_close b\<rparr>
      else b)"

definition build_widen :: "bar_builder \<Rightarrow> bar_builder" where
  "build_widen b =
     (let b1 = (case (bb_close b, bb_low b) of
            (Some close, Some low) \<Rightarrow> if p_raw close < p_raw low then b\<lparr>bb_low := Some close\<rparr> else b
          | _ \<Rightarrow> b)
      in case (bb_close b1, bb_high b1) of
            (Some close, Some high) \<Rightarrow> if p_raw close > p_raw high then b1\<lparr>bb_high := Some close\<rparr> else b1
          | _ \<Rightarrow> b1)"

definition builder_build :: "bar_builder \<Rightarrow> u64 \<Rightarrow> u64 \<Rightarrow> (bar \<times> bar_builder) panics" where
  "builder_build b0 ts_event ts_init = do {
     let b = build_widen (build_fill b0);
     op \<leftarrow> bb_open b;
     hi \<leftarrow> bb_high b;
     lo \<leftarrow> bb_low b;
     cl \<leftarrow> bb_close b;
     br \<leftarrow> bar_new (bb_bar_type b) op hi lo cl (bb_volume b) ts_event ts_init;
     b' \<leftarrow> builder_reset (b\<lparr>bb_last_close := bb_close b\<rparr>);
     Some (br, b')
   }"

definition builder_build_now :: "bar_builder \<Rightarrow> (bar \<times> bar_builder) panics" where
  "builder_build_now b = builder_build b (bb_ts_last b) (bb_ts_last b)"

section \<open>The core of an aggregator\<close>

record aggregator_core =
  ac_bar_type :: bar_type
  ac_builder :: bar_builder
  ac_is_running :: bool
  ac_sent :: "bar list"

definition core_new_agg :: "bar_type \<Rightarrow> nat \<Rightarrow> nat \<Rightarrow> aggregator_core panics" where
  "core_new_agg bt price_precision size_precision = do {
     b \<leftarrow> builder_new bt price_precision size_precision;
     Some \<lparr>ac_bar_type = bt, ac_builder = b, ac_is_running = False, ac_sent = []\<rparr>
   }"

definition set_is_running :: "aggregator_core \<Rightarrow> bool \<Rightarrow> aggregator_core" where
  "set_is_running c v = c\<lparr>ac_is_running := v\<rparr>"

definition apply_update :: "aggregator_core \<Rightarrow> price \<Rightarrow> quantity \<Rightarrow> u64 \<Rightarrow> aggregator_core panics" where
  "apply_update c price sz ts_init = do {
     b \<leftarrow> builder_update (ac_builder c) price sz ts_init;
     Some (c\<lparr>ac_builder := b\<rparr>)
   }"

definition apply_update_bar :: "aggregator_core \<Rightarrow> bar \<Rightarrow> quantity \<Rightarrow> u64 \<Rightarrow> aggregator_core panics" where
  "apply_update_bar c br vol ts_init = do {
     b \<leftarrow> builder_update_bar (ac_builder c) br vol ts_init;
     Some (c\<lparr>ac_builder := b\<rparr>)
   }"

definition build_and_send :: "aggregator_core \<Rightarrow> u64 \<Rightarrow> u64 \<Rightarrow> aggregator_core panics" where
  "build_and_send c ts_event ts_init = do {
     (br, b) \<leftarrow> builder_build (ac_builder c) ts_event ts_init;
     Some (c\<lparr>ac_builder := b, ac_sent := ac_sent c @ [br]\<rparr>)
   }"

definition build_now_and_send :: "aggregator_core \<Rightarrow> aggregator_core panics" where
  "build_now_and_send c = do {
     (br, b) \<leftarrow> builder_build_now (ac_builder c);
     Some (c\<lparr>ac_builder := b, ac_sent := ac_sent c @ [br]\<rparr>)
   }"

definition core_reset :: "aggregator_core \<Rightarrow> aggregator_core panics" where
  "core_reset c = do {
     b \<leftarrow> builder_reset (ac_builder c);
     Some (c\<lparr>ac_builder := b\<rparr>)
   }"

section \<open>Feeds\<close>

text \<open>The handlers of the \<open>BarAggregator\<close> trait: a quote, a trade and a bar call \<open>update\<close> or
  \<open>update_bar\<close> of the aggregator.\<close>

datatype feed = F_Quote quote_tick | F_Trade trade_tick | F_Bar bar

definition handle_quote ::
  "('a \<Rightarrow> bar_type) \<Rightarrow> ('a \<Rightarrow> price \<Rightarrow> quantity \<Rightarrow> u64 \<Rightarrow> 'a panics) \<Rightarrow> 'a \<Rightarrow> quote_tick \<Rightarrow> 'a panics" where
  "handle_quote btype update a q = do {
     price \<leftarrow> extract_price q (bs_price_type (bt_spec (btype a)));
     sz \<leftarrow> extract_size q (bs_price_type (bt_spec (btype a)));
     update a price sz (qt_ts_init q)
   }"

definition handle_trade :: "('a \<Rightarrow> price \<Rightarrow> quantity \<Rightarrow> u64 \<Rightarrow> 'a panics) \<Rightarrow> 'a \<Rightarrow> trade_tick \<Rightarrow> 'a panics" where
  "handle_trade update a t = update a (tt_price t) (tt_size t) (tt_ts_init t)"

definition handle_bar :: "('a \<Rightarrow> bar \<Rightarrow> quantity \<Rightarrow> u64 \<Rightarrow> 'a panics) \<Rightarrow> 'a \<Rightarrow> bar \<Rightarrow> 'a panics" where
  "handle_bar update_bar a b = update_bar a b (br_volume b) (br_ts_init b)"

section \<open>What a builder holds\<close>

record sample =
  sp_open :: price
  sp_high :: price
  sp_low :: price
  sp_close :: price
  sp_size :: nat
  sp_ts :: u64

definition tick_sample :: "price \<Rightarrow> quantity \<Rightarrow> u64 \<Rightarrow> sample" where
  "tick_sample p q t = \<lparr>sp_open = p, sp_high = p, sp_low = p, sp_close = p, sp_size = q_raw q, sp_ts = t\<rparr>"

definition bar_sample :: "bar \<Rightarrow> quantity \<Rightarrow> u64 \<Rightarrow> sample" where
  "bar_sample b q t = \<lparr>sp_open = br_open b, sp_high = br_high b, sp_low = br_low b, sp_close = br_close b,
     sp_size = q_raw q, sp_ts = t\<rparr>"

definition sample_ok :: "sample \<Rightarrow> bool" where
  "sample_ok s \<longleftrightarrow> p_raw (sp_low s) \<le> p_raw (sp_open s) \<and> p_raw (sp_open s) \<le> p_raw (sp_high s) \<and>
     p_raw (sp_low s) \<le> p_raw (sp_close s) \<and> p_raw (sp_close s) \<le> p_raw (sp_high s)"

text \<open>Open, high, low, close and volume of a sequence of samples.\<close>

definition summary :: "sample list \<Rightarrow> price \<Rightarrow> price \<Rightarrow> price \<Rightarrow> price \<Rightarrow> nat \<Rightarrow> bool" where
  "summary ss op hi lo cl vol \<longleftrightarrow> ss \<noteq> [] \<and> op = sp_open (hd ss) \<and> cl = sp_close (last ss) \<and>
     hi \<in> sp_high ` set ss \<and> (\<forall>s \<in> set ss. p_raw (sp_high s) \<le> p_raw hi) \<and>
     lo \<in> sp_low ` set ss \<and> (\<forall>s \<in> set ss. p_raw lo \<le> p_raw (sp_low s)) \<and> vol = sum_list (map sp_size ss)"

definition bar_of :: "bar_type \<Rightarrow> sample list \<Rightarrow> bar \<Rightarrow> bool" where
  "bar_of bt ss b \<longleftrightarrow> br_bar_type b = bt \<and> summary ss (br_open b) (br_high b) (br_low b) (br_close b) (q_raw (br_volume b)) \<and>
     br_ts_event b = sp_ts (last ss) \<and> br_ts_init b = sp_ts (last ss)"

definition builder_holds :: "bar_builder \<Rightarrow> sample list \<Rightarrow> bool" where
  "builder_holds b ss \<longleftrightarrow> bb_size_precision b \<le> FIXED_PRECISION \<and> bb_count b = wrap_u 64 (length ss) \<and> list_all sample_ok ss \<and>
     (if ss = [] then bb_open b = None \<and> q_raw (bb_volume b) = 0
      else bb_ts_last b = sp_ts (last ss) \<and>
        (\<exists>op hi lo cl. bb_open b = Some op \<and> bb_high b = Some hi \<and> bb_low b = Some lo \<and> bb_close b = Some cl \<and>
           summary ss op hi lo cl (q_raw (bb_volume b))))"

lemma builder_holds_nil:
  "builder_holds b [] \<longleftrightarrow> bb_size_precision b \<le> FIXED_PRECISION \<and> bb_count b = 0 \<and> bb_open b = None \<and> q_raw (bb_volume b) = 0"
  by (auto simp: builder_holds_def wrap_u_def)

lemma builder_holds_volume: "builder_holds b ss \<Longrightarrow> q_raw (bb_volume b) = sum_list (map sp_size ss)"
  by (auto simp: builder_holds_def summary_def split: if_splits)

lemma quantity_zero_Some: "quantity_zero p = Some q \<longleftrightarrow> p \<le> FIXED_PRECISION \<and> q = \<lparr>q_raw = 0, q_prec = p\<rparr>"
  by (auto simp: quantity_zero_def check_fixed_precision_def)

lemma builder_new_holds: "builder_new bt pp sp = Some b \<Longrightarrow> builder_holds b [] \<and> bb_bar_type b = bt \<and> bb_ts_last b = 0"
  by (auto simp: builder_new_def bind_Some_conv quantity_zero_Some builder_holds_nil split: if_splits)

lemma summary_single: "sample_ok s \<Longrightarrow> summary [s] (sp_open s) (sp_high s) (sp_low s) (sp_close s) (sp_size s)"
  by (simp add: summary_def)

lemma summary_snoc:
  "summary ss op hi lo cl vol \<Longrightarrow>
   summary (ss @ [s]) op (if p_raw (sp_high s) > p_raw hi then sp_high s else hi)
     (if p_raw (sp_low s) < p_raw lo then sp_low s else lo) (sp_close s) (vol + sp_size s)"
  by (auto simp: summary_def intro: order.trans less_imp_le)

text \<open>Both kinds of update add a sample.\<close>

definition builder_sample :: "bar_builder \<Rightarrow> sample \<Rightarrow> nat \<Rightarrow> bar_builder panics" where
  "builder_sample b s prec = builder_update_bar b
     \<lparr>br_bar_type = bb_bar_type b, br_open = sp_open s, br_high = sp_high s, br_low = sp_low s, br_close = sp_close s,
      br_volume = \<lparr>q_raw = sp_size s, q_prec = prec\<rparr>, br_ts_event = sp_ts s, br_ts_init = sp_ts s\<rparr>
     \<lparr>q_raw = sp_size s, q_prec = prec\<rparr> (sp_ts s)"

lemma quantity_eta: "\<lparr>q_raw = q_raw q, q_prec = q_prec q\<rparr> = (q :: quantity)"
  by simp

lemma builder_update_sample: "builder_update b p q t = builder_sample b (tick_sample p q t) (q_prec q)"
  by (cases "bb_open b") (simp_all add: builder_update_def builder_sample_def builder_update_bar_def tick_sample_def quantity_eta cong: if_cong)

lemma builder_update_bar_sample: "builder_update_bar b br q t = builder_sample b (bar_sample br q t) (q_prec q)"
  by (cases "bb_open b") (simp_all add: builder_sample_def builder_update_bar_def bar_sample_def quantity_eta cong: if_cong)

lemma builder_sample_holds:
  assumes h: "builder_holds b ss" and s: "sample_ok s" "bb_ts_last b \<le> sp_ts s"
    and v: "q_raw (bb_volume b) + sp_size s \<le> u128_max"
  shows "\<exists>b'. builder_sample b s prec = Some b' \<and> builder_holds b' (ss @ [s]) \<and> bb_ts_last b' = sp_ts s \<and>
    bb_bar_type b' = bb_bar_type b"
proof -
  have w: "wrap_u 64 (Suc (wrap_u 64 n)) = wrap_u 64 (Suc n)" for n by (simp add: wrap_u_def mod_Suc_eq)
  show ?thesis
  proof (cases "ss = []")
    case True
    then show ?thesis using h s v w
      by (auto simp: builder_sample_def builder_update_bar_def builder_holds_def quantity_add_def checked_u128_def summary_def)
  next
    case False
    then obtain op hi lo cl where b: "bb_open b = Some op" "bb_high b = Some hi" "bb_low b = Some lo"
      and m: "summary ss op hi lo cl (q_raw (bb_volume b))"
      and c: "bb_size_precision b \<le> FIXED_PRECISION" "bb_count b = wrap_u 64 (length ss)" "list_all sample_ok ss"
      using h by (auto simp: builder_holds_def)
    show ?thesis using b c s v w summary_snoc [OF m, of s]
      by (auto simp: builder_sample_def builder_update_bar_def builder_holds_def quantity_add_def checked_u128_def)
  qed
qed

lemma stale_sample: "sp_ts s < bb_ts_last b \<Longrightarrow> builder_sample b s prec = Some b"
  by (simp add: builder_sample_def builder_update_bar_def)

lemma summary_bounds:
  assumes "summary ss op hi lo cl vol" "list_all sample_ok ss"
  shows "p_raw lo \<le> p_raw op" "p_raw op \<le> p_raw hi" "p_raw lo \<le> p_raw cl" "p_raw cl \<le> p_raw hi"
proof -
  have f: "hd ss \<in> set ss" "last ss \<in> set ss" "sample_ok (hd ss)" "sample_ok (last ss)"
    using assms by (auto simp: summary_def list_all_iff)
  then have m: "p_raw lo \<le> p_raw (sp_low (hd ss))" "p_raw (sp_high (hd ss)) \<le> p_raw hi"
    "p_raw lo \<le> p_raw (sp_low (last ss))" "p_raw (sp_high (last ss)) \<le> p_raw hi"
    using assms(1) by (auto simp: summary_def)
  have "op = sp_open (hd ss)" "cl = sp_close (last ss)" using assms(1) by (simp_all add: summary_def)
  with m f(3,4) show "p_raw lo \<le> p_raw op" "p_raw op \<le> p_raw hi" "p_raw lo \<le> p_raw cl" "p_raw cl \<le> p_raw hi"
    by (simp_all add: sample_ok_def)
qed

lemma builder_build_holds:
  assumes h: "builder_holds b ss" and ne: "ss \<noteq> []"
  shows "\<exists>br b'. builder_build_now b = Some (br, b') \<and> bar_of (bb_bar_type b) ss br \<and> builder_holds b' [] \<and>
    bb_ts_last b' = bb_ts_last b \<and> bb_bar_type b' = bb_bar_type b \<and> bb_last_close b' = Some (br_close br)"
proof -
  obtain op hi lo cl where b: "bb_open b = Some op" "bb_high b = Some hi" "bb_low b = Some lo" "bb_close b = Some cl"
    and m: "summary ss op hi lo cl (q_raw (bb_volume b))" and c: "bb_size_precision b \<le> FIXED_PRECISION" "list_all sample_ok ss"
    and t: "bb_ts_last b = sp_ts (last ss)"
    using h ne by (auto simp: builder_holds_def)
  note o = summary_bounds [OF m c(2)]
  have w: "build_widen (build_fill b) = b" using o b by (simp add: build_fill_def build_widen_def)
  have z: "quantity_zero (bb_size_precision b) = Some \<lparr>q_raw = 0, q_prec = bb_size_precision b\<rparr>"
    using c(1) by (simp add: quantity_zero_Some)
  show ?thesis using o b m c t w z
    by (simp add: builder_build_now_def builder_build_def bar_new_def bar_new_checked_def builder_reset_def builder_holds_nil bar_of_def)
qed

text \<open>The sample that a feed gives to an aggregator, with the precision of its size.\<close>

fun feed_sample :: "bar_type \<Rightarrow> feed \<Rightarrow> (sample \<times> nat) option" where
  "feed_sample bt (F_Quote q) = do {
     price \<leftarrow> extract_price q (bs_price_type (bt_spec bt));
     sz \<leftarrow> extract_size q (bs_price_type (bt_spec bt));
     Some (tick_sample price sz (qt_ts_init q), q_prec sz)
   }"
| "feed_sample bt (F_Trade t) = Some (tick_sample (tt_price t) (tt_size t) (tt_ts_init t), q_prec (tt_size t))"
| "feed_sample bt (F_Bar b) = Some (bar_sample b (br_volume b) (br_ts_init b), q_prec (br_volume b))"

definition core_holds :: "aggregator_core \<Rightarrow> sample list list \<Rightarrow> sample list \<Rightarrow> bool" where
  "core_holds c gs ss \<longleftrightarrow> bb_bar_type (ac_builder c) = ac_bar_type c \<and> builder_holds (ac_builder c) ss \<and>
     list_all2 (bar_of (ac_bar_type c)) gs (ac_sent c)"

definition core_ts :: "aggregator_core \<Rightarrow> u64" where
  "core_ts c = bb_ts_last (ac_builder c)"

definition core_volume :: "aggregator_core \<Rightarrow> nat" where
  "core_volume c = q_raw (bb_volume (ac_builder c))"

definition core_sample :: "aggregator_core \<Rightarrow> sample \<Rightarrow> nat \<Rightarrow> aggregator_core panics" where
  "core_sample c s prec = map_option (\<lambda>b. c\<lparr>ac_builder := b\<rparr>) (builder_sample (ac_builder c) s prec)"

lemma apply_sample:
  "apply_update c p q t = core_sample c (tick_sample p q t) (q_prec q)"
  "apply_update_bar c br q t = core_sample c (bar_sample br q t) (q_prec q)"
  by (simp_all add: apply_update_def apply_update_bar_def core_sample_def builder_update_sample builder_update_bar_sample
      map_conv_bind_option comp_def)

lemma core_new_holds:
  "core_new_agg bt pp sp = Some c \<Longrightarrow> core_holds c [] [] \<and> core_ts c = 0 \<and> ac_bar_type c = bt \<and> ac_sent c = []"
  by (auto simp: core_new_agg_def bind_Some_conv core_holds_def core_ts_def dest!: builder_new_holds)

lemma core_holds_volume: "core_holds c gs ss \<Longrightarrow> core_volume c = sum_list (map sp_size ss)"
  by (simp add: core_holds_def core_volume_def builder_holds_volume)

lemma core_sample_holds:
  assumes "core_holds c gs ss" "sample_ok s" "core_ts c \<le> sp_ts s" "core_volume c + sp_size s \<le> u128_max"
  obtains c' where "core_sample c s prec = Some c'" "core_holds c' gs (ss @ [s])" "core_ts c' = sp_ts s"
    "ac_bar_type c' = ac_bar_type c" "core_volume c' = core_volume c + sp_size s"
proof -
  obtain b' where b: "builder_sample (ac_builder c) s prec = Some b'" "builder_holds b' (ss @ [s])" "bb_ts_last b' = sp_ts s"
    "bb_bar_type b' = bb_bar_type (ac_builder c)"
    using builder_sample_holds [of "ac_builder c" ss s prec] assms by (auto simp: core_holds_def core_ts_def core_volume_def)
  let ?c = "c\<lparr>ac_builder := b'\<rparr>"
  have h: "core_holds ?c gs (ss @ [s])" using b assms(1) by (simp add: core_holds_def)
  show ?thesis
    by (rule that [OF _ h]) (use b core_holds_volume [OF h] core_holds_volume [OF assms(1)] in
      \<open>simp_all add: core_sample_def core_ts_def\<close>)
qed

lemma build_send_holds:
  assumes "core_holds c gs ss" "ss \<noteq> []"
  obtains c' where "build_now_and_send c = Some c'" "core_holds c' (gs @ [ss]) []" "core_ts c' = core_ts c"
    "ac_bar_type c' = ac_bar_type c" "core_volume c' = 0"
proof -
  obtain br b' where b: "builder_build_now (ac_builder c) = Some (br, b')" "bar_of (bb_bar_type (ac_builder c)) ss br"
    "builder_holds b' []" "bb_ts_last b' = bb_ts_last (ac_builder c)" "bb_bar_type b' = bb_bar_type (ac_builder c)"
    using builder_build_holds [of "ac_builder c" ss] assms by (auto simp: core_holds_def)
  let ?c = "c\<lparr>ac_builder := b', ac_sent := ac_sent c @ [br]\<rparr>"
  have h: "core_holds ?c (gs @ [ss]) []" using b assms(1) by (auto simp: core_holds_def intro: list_all2_appendI)
  show ?thesis
    by (rule that [OF _ h]) (use b core_holds_volume [OF h] in \<open>simp_all add: build_now_and_send_def core_ts_def\<close>)
qed

lemma core_reset_holds:
  assumes "core_holds c gs ss"
  obtains c' where "core_reset c = Some c'" "core_holds c' gs []" "core_ts c' = core_ts c" "ac_bar_type c' = ac_bar_type c"
    "core_volume c' = 0"
proof (rule that)
  have z: "bb_size_precision (ac_builder c) \<le> FIXED_PRECISION" using assms by (simp add: core_holds_def builder_holds_def)
  let ?b = "(ac_builder c)\<lparr>bb_open := None, bb_high := None, bb_low := None,
    bb_volume := \<lparr>q_raw = 0, q_prec = bb_size_precision (ac_builder c)\<rparr>, bb_count := 0\<rparr>"
  have "quantity_zero (bb_size_precision (ac_builder c)) = Some \<lparr>q_raw = 0, q_prec = bb_size_precision (ac_builder c)\<rparr>"
    using z by (simp add: quantity_zero_Some)
  then show "core_reset c = Some (c\<lparr>ac_builder := ?b\<rparr>)" by (simp add: core_reset_def builder_reset_def)
  show "core_holds (c\<lparr>ac_builder := ?b\<rparr>) gs []" using assms z by (simp add: core_holds_def builder_holds_nil)
qed (simp_all add: core_ts_def core_volume_def)

end
