(* ===== verification/Bar_Aggregators.thy ===== *)
theory Bar_Aggregators
  imports Bar_Builder
begin

text \<open>
  Aggregators of bars by number of ticks and by volume (\<open>crates/data/src/aggregation.rs\<close>): every
  \<open>step\<close> updates, every imbalance or run of \<open>step\<close> trades on one side, every \<open>step\<close> of
  traded volume, every imbalance or run of \<open>step\<close> of volume.

  The product \<open>step as f64 * FIXED_SCALAR\<close> that gives the raw volume of a step is the argument
  \<open>raw_step\<close>. The locale \<open>bar_feed\<close> states what an aggregator owes its
  feed when time does not go back: it returns, every bar sent summarises a group of consecutive samples, and no
  volume is lost; its consequence for whole streams is proved once and interpreted for the aggregators.
\<close>

section \<open>Tick bars\<close>

definition tick_check :: "aggregator_core \<Rightarrow> aggregator_core panics" where
  "tick_check c = (if bb_count (ac_builder c) \<ge> bs_step (bt_spec (ac_bar_type c)) then build_now_and_send c else Some c)"

definition tick_update :: "aggregator_core \<Rightarrow> price \<Rightarrow> quantity \<Rightarrow> u64 \<Rightarrow> aggregator_core panics" where
  "tick_update c price sz ts_init = Option.bind (apply_update c price sz ts_init) tick_check"

definition tick_update_bar :: "aggregator_core \<Rightarrow> bar \<Rightarrow> quantity \<Rightarrow> u64 \<Rightarrow> aggregator_core panics" where
  "tick_update_bar c br vol ts_init = Option.bind (apply_update_bar c br vol ts_init) tick_check"

definition tick_handle :: "feed \<Rightarrow> aggregator_core \<Rightarrow> aggregator_core panics" where
  "tick_handle f c =
     (case f of
        F_Quote q \<Rightarrow> handle_quote ac_bar_type tick_update c q
      | F_Trade t \<Rightarrow> handle_trade tick_update c t
      | F_Bar b \<Rightarrow> handle_bar tick_update_bar c b)"

section \<open>Tick imbalance and tick runs\<close>

record tick_imbalance =
  ti_core :: aggregator_core
  ti_imbalance :: int

definition tick_imbalance_new :: "bar_type \<Rightarrow> nat \<Rightarrow> nat \<Rightarrow> tick_imbalance panics" where
  "tick_imbalance_new bt pp sp = map_option (\<lambda>c. \<lparr>ti_core = c, ti_imbalance = 0\<rparr>) (core_new_agg bt pp sp)"

definition ti_update :: "tick_imbalance \<Rightarrow> price \<Rightarrow> quantity \<Rightarrow> u64 \<Rightarrow> tick_imbalance panics" where
  "ti_update a price sz ts_init = map_option (\<lambda>c. a\<lparr>ti_core := c\<rparr>) (apply_update (ti_core a) price sz ts_init)"

definition ti_update_bar :: "tick_imbalance \<Rightarrow> bar \<Rightarrow> quantity \<Rightarrow> u64 \<Rightarrow> tick_imbalance panics" where
  "ti_update_bar a br vol ts_init = map_option (\<lambda>c. a\<lparr>ti_core := c\<rparr>) (apply_update_bar (ti_core a) br vol ts_init)"

definition ti_handle_trade :: "tick_imbalance \<Rightarrow> trade_tick \<Rightarrow> tick_imbalance panics" where
  "ti_handle_trade a t = do {
     c \<leftarrow> apply_update (ti_core a) (tt_price t) (tt_size t) (tt_ts_init t);
     let delta = (case tt_aggressor_side t of Buyer \<Rightarrow> 1 | Seller \<Rightarrow> -1 | NoAggressor \<Rightarrow> (0::int));
     if delta = 0 then Some (a\<lparr>ti_core := c\<rparr>)
     else do {
       let imbalance = wrap_s 64 (ti_imbalance a + delta);
       if nat \<bar>imbalance\<bar> \<ge> bs_step (bt_spec (ac_bar_type c)) then do {
         c' \<leftarrow> build_now_and_send c;
         Some \<lparr>ti_core = c', ti_imbalance = 0\<rparr>
       }
       else Some \<lparr>ti_core = c, ti_imbalance = imbalance\<rparr>
     }
   }"

definition ti_handle :: "feed \<Rightarrow> tick_imbalance \<Rightarrow> tick_imbalance panics" where
  "ti_handle f a =
     (case f of
        F_Quote q \<Rightarrow> handle_quote (ac_bar_type \<circ> ti_core) ti_update a q
      | F_Trade t \<Rightarrow> ti_handle_trade a t
      | F_Bar b \<Rightarrow> handle_bar ti_update_bar a b)"

record tick_runs =
  tr_core :: aggregator_core
  tr_current_run_side :: "aggressor_side option"
  tr_run_count :: nat

definition tick_runs_new :: "bar_type \<Rightarrow> nat \<Rightarrow> nat \<Rightarrow> tick_runs panics" where
  "tick_runs_new bt pp sp =
     map_option (\<lambda>c. \<lparr>tr_core = c, tr_current_run_side = None, tr_run_count = 0\<rparr>) (core_new_agg bt pp sp)"

definition tr_update :: "tick_runs \<Rightarrow> price \<Rightarrow> quantity \<Rightarrow> u64 \<Rightarrow> tick_runs panics" where
  "tr_update a price sz ts_init = map_option (\<lambda>c. a\<lparr>tr_core := c\<rparr>) (apply_update (tr_core a) price sz ts_init)"

definition tr_update_bar :: "tick_runs \<Rightarrow> bar \<Rightarrow> quantity \<Rightarrow> u64 \<Rightarrow> tick_runs panics" where
  "tr_update_bar a br vol ts_init = map_option (\<lambda>c. a\<lparr>tr_core := c\<rparr>) (apply_update_bar (tr_core a) br vol ts_init)"

definition run_side :: "trade_tick \<Rightarrow> aggressor_side option" where
  "run_side t = (case tt_aggressor_side t of Buyer \<Rightarrow> Some Buyer | Seller \<Rightarrow> Some Seller | NoAggressor \<Rightarrow> None)"

definition tr_handle_trade :: "tick_runs \<Rightarrow> trade_tick \<Rightarrow> tick_runs panics" where
  "tr_handle_trade a t =
     (case run_side t of
        Some side \<Rightarrow> do {
          a1 \<leftarrow> (if tr_current_run_side a \<noteq> Some side
                then map_option (\<lambda>c. \<lparr>tr_core = c, tr_current_run_side = Some side, tr_run_count = 0\<rparr>) (core_reset (tr_core a))
                else Some a);
          c \<leftarrow> apply_update (tr_core a1) (tt_price t) (tt_size t) (tt_ts_init t);
          let run_count = wrap_u 64 (tr_run_count a1 + 1);
          if run_count \<ge> bs_step (bt_spec (ac_bar_type c)) then do {
            c' \<leftarrow> build_now_and_send c;
            Some \<lparr>tr_core = c', tr_current_run_side = None, tr_run_count = 0\<rparr>
          }
          else Some (a1\<lparr>tr_core := c, tr_run_count := run_count\<rparr>)
        }
      | None \<Rightarrow> map_option (\<lambda>c. a\<lparr>tr_core := c\<rparr>) (apply_update (tr_core a) (tt_price t) (tt_size t) (tt_ts_init t)))"

section \<open>Volume bars\<close>

definition wrap_sub :: "nat \<Rightarrow> nat \<Rightarrow> nat" where
  "wrap_sub a b = wrap_u 128 (a + 2 ^ 128 - b)"

definition volume_new :: "bar_type \<Rightarrow> nat \<Rightarrow> nat \<Rightarrow> aggregator_core panics" where
  "volume_new bt pp sp = core_new_agg (bt_standard bt) pp sp"

text \<open>The loop of \<open>update\<close> and of \<open>update_bar\<close>; \<open>upd\<close> is the call that adds a part of the
  size.\<close>

partial_function (option) volume_loop ::
  "(aggregator_core \<Rightarrow> quantity \<Rightarrow> aggregator_core panics) \<Rightarrow> nat \<Rightarrow> nat \<Rightarrow> nat \<Rightarrow> aggregator_core \<Rightarrow> aggregator_core option" where
  "volume_loop upd step prec remaining c =
     (if remaining > 0 then
        if wrap_u 128 (q_raw (bb_volume (ac_builder c)) + remaining) < step
        then do { q \<leftarrow> quantity_from_raw remaining prec; upd c q }
        else do {
          let diff = wrap_sub step (q_raw (bb_volume (ac_builder c)));
          q \<leftarrow> quantity_from_raw diff prec;
          c1 \<leftarrow> upd c q;
          c2 \<leftarrow> build_now_and_send c1;
          volume_loop upd step prec (wrap_sub remaining diff) c2
        }
      else Some c)"

definition volume_update ::
  "(nat \<Rightarrow> nat) \<Rightarrow> aggregator_core \<Rightarrow> price \<Rightarrow> quantity \<Rightarrow> u64 \<Rightarrow> aggregator_core option" where
  "volume_update raw_step c price sz ts_init =
     volume_loop (\<lambda>c q. apply_update c price q ts_init) (raw_step (bs_step (bt_spec (ac_bar_type c)))) (q_prec sz) (q_raw sz) c"

definition volume_update_bar ::
  "(nat \<Rightarrow> nat) \<Rightarrow> aggregator_core \<Rightarrow> bar \<Rightarrow> quantity \<Rightarrow> u64 \<Rightarrow> aggregator_core option" where
  "volume_update_bar raw_step c br vol ts_init =
     volume_loop (\<lambda>c q. apply_update_bar c br q ts_init) (raw_step (bs_step (bt_spec (ac_bar_type c)))) (q_prec vol) (q_raw vol) c"

definition volume_handle :: "(nat \<Rightarrow> nat) \<Rightarrow> feed \<Rightarrow> aggregator_core \<Rightarrow> aggregator_core option" where
  "volume_handle raw_step f c =
     (case f of
        F_Quote q \<Rightarrow> handle_quote ac_bar_type (volume_update raw_step) c q
      | F_Trade t \<Rightarrow> handle_trade (volume_update raw_step) c t
      | F_Bar b \<Rightarrow> handle_bar (volume_update_bar raw_step) c b)"

section \<open>Volume imbalance and volume runs\<close>

record volume_imbalance =
  vi_core :: aggregator_core
  vi_imbalance_raw :: int
  vi_raw_step :: int

definition volume_imbalance_new :: "(nat \<Rightarrow> int) \<Rightarrow> bar_type \<Rightarrow> nat \<Rightarrow> nat \<Rightarrow> volume_imbalance panics" where
  "volume_imbalance_new raw_step bt pp sp =
     map_option (\<lambda>c. \<lparr>vi_core = c, vi_imbalance_raw = 0, vi_raw_step = raw_step (bs_step (bt_spec bt))\<rparr>)
       (core_new_agg (bt_standard bt) pp sp)"

definition vi_update :: "volume_imbalance \<Rightarrow> price \<Rightarrow> quantity \<Rightarrow> u64 \<Rightarrow> volume_imbalance panics" where
  "vi_update a price sz ts_init = map_option (\<lambda>c. a\<lparr>vi_core := c\<rparr>) (apply_update (vi_core a) price sz ts_init)"

definition vi_update_bar :: "volume_imbalance \<Rightarrow> bar \<Rightarrow> quantity \<Rightarrow> u64 \<Rightarrow> volume_imbalance panics" where
  "vi_update_bar a br vol ts_init = map_option (\<lambda>c. a\<lparr>vi_core := c\<rparr>) (apply_update_bar (vi_core a) br vol ts_init)"

definition vi_settle :: "volume_imbalance \<Rightarrow> aggregator_core \<Rightarrow> int \<Rightarrow> volume_imbalance panics" where
  "vi_settle a c imbalance =
     (if \<bar>imbalance\<bar> \<ge> vi_raw_step a
      then map_option (\<lambda>c'. a\<lparr>vi_core := c', vi_imbalance_raw := 0\<rparr>) (build_now_and_send c)
      else Some (a\<lparr>vi_core := c, vi_imbalance_raw := imbalance\<rparr>))"

function vi_loop :: "trade_tick \<Rightarrow> int \<Rightarrow> int \<Rightarrow> volume_imbalance \<Rightarrow> volume_imbalance panics" where
  "vi_loop t side remaining a =
     (if remaining > 0 then do {
        let needed = max (wrap_s 128 (vi_raw_step a - \<bar>vi_imbalance_raw a\<bar>)) 1;
        let chunk = min remaining needed;
        q \<leftarrow> quantity_from_raw (nat chunk) (q_prec (tt_size t));
        c \<leftarrow> apply_update (vi_core a) (tt_price t) q (tt_ts_init t);
        let imbalance = wrap_s 128 (vi_imbalance_raw a + side * chunk);
        a' \<leftarrow> vi_settle a c imbalance;
        vi_loop t side (remaining - chunk) a'
      }
      else Some a)"
  by pat_completeness auto
termination by (relation "measure (\<lambda>(t, side, remaining, a). nat remaining)") (auto simp: Let_def)

declare vi_loop.simps [simp del]

definition vi_handle_trade :: "volume_imbalance \<Rightarrow> trade_tick \<Rightarrow> volume_imbalance panics" where
  "vi_handle_trade a t =
     (case tt_aggressor_side t of
        Buyer \<Rightarrow> vi_loop t 1 (wrap_s 128 (int (q_raw (tt_size t)))) a
      | Seller \<Rightarrow> vi_loop t (-1) (wrap_s 128 (int (q_raw (tt_size t)))) a
      | NoAggressor \<Rightarrow> vi_update a (tt_price t) (tt_size t) (tt_ts_init t))"

definition vi_handle :: "feed \<Rightarrow> volume_imbalance \<Rightarrow> volume_imbalance panics" where
  "vi_handle f a =
     (case f of
        F_Quote q \<Rightarrow> handle_quote (ac_bar_type \<circ> vi_core) vi_update a q
      | F_Trade t \<Rightarrow> vi_handle_trade a t
      | F_Bar b \<Rightarrow> handle_bar vi_update_bar a b)"

record volume_runs =
  vr_core :: aggregator_core
  vr_current_run_side :: "aggressor_side option"
  vr_run_volume_raw :: nat
  vr_raw_step :: nat

definition volume_runs_new :: "(nat \<Rightarrow> nat) \<Rightarrow> bar_type \<Rightarrow> nat \<Rightarrow> nat \<Rightarrow> volume_runs panics" where
  "volume_runs_new raw_step bt pp sp =
     map_option (\<lambda>c. \<lparr>vr_core = c, vr_current_run_side = None, vr_run_volume_raw = 0, vr_raw_step = raw_step (bs_step (bt_spec bt))\<rparr>)
       (core_new_agg (bt_standard bt) pp sp)"

definition vr_update :: "volume_runs \<Rightarrow> price \<Rightarrow> quantity \<Rightarrow> u64 \<Rightarrow> volume_runs panics" where
  "vr_update a price sz ts_init = map_option (\<lambda>c. a\<lparr>vr_core := c\<rparr>) (apply_update (vr_core a) price sz ts_init)"

definition vr_update_bar :: "volume_runs \<Rightarrow> bar \<Rightarrow> quantity \<Rightarrow> u64 \<Rightarrow> volume_runs panics" where
  "vr_update_bar a br vol ts_init = map_option (\<lambda>c. a\<lparr>vr_core := c\<rparr>) (apply_update_bar (vr_core a) br vol ts_init)"

function vr_loop :: "trade_tick \<Rightarrow> nat \<Rightarrow> volume_runs \<Rightarrow> volume_runs panics" where
  "vr_loop t remaining a =
     (if remaining > 0 then do {
        let chunk = min remaining (max (vr_raw_step a - vr_run_volume_raw a) 1);
        q \<leftarrow> quantity_from_raw chunk (q_prec (tt_size t));
        c \<leftarrow> apply_update (vr_core a) (tt_price t) q (tt_ts_init t);
        let run_volume = wrap_u 128 (vr_run_volume_raw a + chunk);
        a' \<leftarrow> (if run_volume \<ge> vr_raw_step a
              then map_option (\<lambda>c'. a\<lparr>vr_core := c', vr_run_volume_raw := 0, vr_current_run_side := None\<rparr>) (build_now_and_send c)
              else Some (a\<lparr>vr_core := c, vr_run_volume_raw := run_volume\<rparr>));
        vr_loop t (remaining - chunk) a'
      }
      else Some a)"
  by pat_completeness auto
termination by (relation "measure (\<lambda>(t, remaining, a). remaining)") (auto simp: Let_def)

declare vr_loop.simps [simp del]

definition vr_handle_trade :: "volume_runs \<Rightarrow> trade_tick \<Rightarrow> volume_runs panics" where
  "vr_handle_trade a t =
     (case run_side t of
        None \<Rightarrow> map_option (\<lambda>c. a\<lparr>vr_core := c\<rparr>) (apply_update (vr_core a) (tt_price t) (tt_size t) (tt_ts_init t))
      | Some side \<Rightarrow> do {
          a1 \<leftarrow> (if vr_current_run_side a \<noteq> Some side
                then map_option (\<lambda>c. a\<lparr>vr_core := c, vr_current_run_side := Some side, vr_run_volume_raw := 0\<rparr>) (core_reset (vr_core a))
                else Some a);
          vr_loop t (q_raw (tt_size t)) a1
        })"

section \<open>What an aggregator owes its feed\<close>

definition point_ok :: "sample \<times> nat \<Rightarrow> bool" where
  "point_ok p \<longleftrightarrow> sample_ok (fst p) \<and> sp_size (fst p) \<le> QUANTITY_RAW_MAX \<and> snd p \<le> FIXED_PRECISION"

definition total_size :: "sample list \<Rightarrow> nat" where
  "total_size ss = sum_list (map sp_size ss)"

lemma total_size_simps [simp]:
  "total_size [] = 0" "total_size (s # ss) = sp_size s + total_size ss" "total_size (ss @ ts) = total_size ss + total_size ts"
  by (simp_all add: total_size_def)

locale bar_feed =
  fixes core :: "'a \<Rightarrow> aggregator_core" and handle :: "feed \<Rightarrow> 'a \<Rightarrow> 'a option" and inv :: "'a \<Rightarrow> sample list \<Rightarrow> bool"
    and bt :: bar_type and full :: "sample list \<Rightarrow> bool" and part :: "sample \<Rightarrow> sample list \<Rightarrow> bool"
  assumes part_size: "part s parts \<Longrightarrow> total_size parts = sp_size s"
    and handle_ok: "inv a ss \<Longrightarrow> core_holds (core a) gs ss \<Longrightarrow> ac_bar_type (core a) = bt \<Longrightarrow> feed_sample bt f = Some p \<Longrightarrow>
      point_ok p \<Longrightarrow> core_ts (core a) \<le> sp_ts (fst p) \<Longrightarrow> total_size ss + sp_size (fst p) \<le> u128_max \<Longrightarrow>
      \<exists>a' gs' ss' parts. handle f a = Some a' \<and> inv a' ss' \<and> core_holds (core a') (gs @ gs') ss' \<and> ac_bar_type (core a') = bt \<and>
        core_ts (core a') \<le> sp_ts (fst p) \<and> list_all full gs' \<and> part (fst p) parts \<and> concat gs' @ ss' = ss @ parts"
begin

lemma run_ok:
  assumes "inv a ss" "core_holds (core a) gs ss" "ac_bar_type (core a) = bt" "map (feed_sample bt) fs = map Some ps"
    "list_all point_ok ps" "sorted (core_ts (core a) # map (\<lambda>p. sp_ts (fst p)) ps)"
    "total_size ss + total_size (map fst ps) \<le> u128_max"
  shows "\<exists>a' gs' ss' pss. fold_opt handle fs a = Some a' \<and> inv a' ss' \<and> core_holds (core a') (gs @ gs') ss' \<and>
    ac_bar_type (core a') = bt \<and> list_all full gs' \<and> list_all2 part (map fst ps) pss \<and> concat gs' @ ss' = ss @ concat pss"
  using assms
proof (induction fs arbitrary: a gs ss ps)
  case Nil
  then show ?case by (intro exI [of _ a] exI [of _ "[]"] exI [of _ ss] exI [of _ "[]"]) simp
next
  case (Cons f fs)
  obtain p ps' where ps: "ps = p # ps'" using Cons.prems(4) by (cases ps) auto
  obtain a1 gs1 ss1 parts where s: "handle f a = Some a1" "inv a1 ss1" "core_holds (core a1) (gs @ gs1) ss1" "ac_bar_type (core a1) = bt"
    "core_ts (core a1) \<le> sp_ts (fst p)" "list_all full gs1" "part (fst p) parts" "concat gs1 @ ss1 = ss @ parts"
    using handle_ok [OF Cons.prems(1,2,3), of f p] Cons.prems(4-7) ps by auto
  have "total_size ss1 \<le> total_size (concat gs1 @ ss1)" by simp
  then have "total_size ss1 + total_size (map fst ps') \<le> u128_max"
    using Cons.prems(7) ps s(8) part_size [OF s(7)] by simp
  moreover have "sorted (core_ts (core a1) # map (\<lambda>p. sp_ts (fst p)) ps')" using Cons.prems(6) ps s(5) by auto
  ultimately obtain a' gs' ss' pss where r: "fold_opt handle fs a1 = Some a'" "inv a' ss'" "core_holds (core a') ((gs @ gs1) @ gs') ss'"
    "ac_bar_type (core a') = bt" "list_all full gs'" "list_all2 part (map fst ps') pss" and flow: "concat gs' @ ss' = ss1 @ concat pss"
    using Cons.IH [OF s(2,3,4), of ps'] Cons.prems(4,5) ps by auto
  have "concat (gs1 @ gs') @ ss' = ss @ concat (parts # pss)" using flow s(8) by (metis append.assoc concat.simps(2) concat_append)
  then show ?case using r s ps by (intro exI [of _ a'] exI [of _ "gs1 @ gs'"] exI [of _ ss'] exI [of _ "parts # pss"]) simp
qed

text \<open>No volume is lost: the bars sent and the builder hold what the feed gave.\<close>

lemma run_conserves:
  assumes "inv a []" "core_holds (core a) [] []" "ac_bar_type (core a) = bt" "map (feed_sample bt) fs = map Some ps"
    "list_all point_ok ps" "sorted (core_ts (core a) # map (\<lambda>p. sp_ts (fst p)) ps)" "total_size (map fst ps) \<le> u128_max"
  shows "\<exists>a'. fold_opt handle fs a = Some a' \<and> (\<exists>ss. inv a' ss) \<and>
    sum_list (map (\<lambda>b. q_raw (br_volume b)) (ac_sent (core a'))) + core_volume (core a') = total_size (map fst ps)"
proof -
  obtain a' gs ss pss where r: "fold_opt handle fs a = Some a'" "inv a' ss" "core_holds (core a') gs ss"
    "list_all2 part (map fst ps) pss" "concat gs @ ss = concat pss"
    using run_ok [OF assms(1-6)] assms(7) by auto
  have p: "total_size (concat pss) = total_size (map fst ps)"
    using r(4) by (induction rule: list_all2_induct) (simp_all add: part_size)
  have v: "sum_list (map (\<lambda>b. q_raw (br_volume b)) bs) = total_size (concat gs)" if "list_all2 (bar_of b) gs bs" for b bs
    using that by (induction rule: list_all2_induct) (simp_all add: bar_of_def summary_def total_size_def)
  have "sum_list (map (\<lambda>b. q_raw (br_volume b)) (ac_sent (core a'))) = total_size (concat gs)"
    by (rule v [of "ac_bar_type (core a')"]) (use r(3) in \<open>simp add: core_holds_def\<close>)
  moreover have "core_volume (core a') = total_size ss" using core_holds_volume [OF r(3)] by (simp add: total_size_def)
  moreover have "total_size (concat gs @ ss) = total_size (map fst ps)" using r(5) p by simp
  ultimately show ?thesis using r(1,2) by auto
qed

end

section \<open>Tick bars group the samples\<close>

text \<open>A handler as the addition of a sample.\<close>

lemma tick_handle_sample:
  assumes "feed_sample (ac_bar_type c) f = Some (s, prec)"
  shows "tick_handle f c = Option.bind (core_sample c s prec) tick_check"
  using assms
  by (cases f) (auto simp: tick_handle_def handle_quote_def handle_trade_def handle_bar_def tick_update_def tick_update_bar_def
      apply_sample bind_Some_conv)

lemma tick_check_holds:
  assumes "core_holds c gs ss" "ss \<noteq> []" "length ss \<le> n" "bs_step (bt_spec (ac_bar_type c)) = n" "n < 2 ^ 64"
  shows "\<exists>c' gs' ss'. tick_check c = Some c' \<and> core_holds c' (gs @ gs') ss' \<and> ac_bar_type c' = ac_bar_type c \<and>
    core_ts c' = core_ts c \<and> length ss' < n \<and> list_all (\<lambda>g. length g = n) gs' \<and> concat gs' @ ss' = ss"
proof -
  have count: "bb_count (ac_builder c) = length ss"
    using assms by (simp add: core_holds_def builder_holds_def wrap_u_id)
  show ?thesis
  proof (cases "length ss = n")
    case True
    obtain c' where c': "build_now_and_send c = Some c'" "core_holds c' (gs @ [ss]) []" "core_ts c' = core_ts c"
      "ac_bar_type c' = ac_bar_type c"
      using build_send_holds [OF assms(1,2)] .
    then have "tick_check c = Some c'" using count True assms(4) by (simp add: tick_check_def)
    then show ?thesis using c' True assms(2) by (intro exI [of _ c'] exI [of _ "[ss]"] exI [of _ "[]"]) auto
  next
    case False
    then show ?thesis using assms count
      by (intro exI [of _ c] exI [of _ "[]"] exI [of _ ss]) (simp add: tick_check_def)
  qed
qed

definition tick_inv :: "bar_type \<Rightarrow> sample list \<Rightarrow> bool" where
  "tick_inv bt ss \<longleftrightarrow> length ss < bs_step (bt_spec bt) \<and> bs_step (bt_spec bt) < 2 ^ 64"

lemma tick_handle_ok:
  assumes a: "tick_inv bt ss" "core_holds c gs ss" "ac_bar_type c = bt" "feed_sample bt f = Some p" "point_ok p"
    "core_ts c \<le> sp_ts (fst p)" "total_size ss + sp_size (fst p) \<le> u128_max"
  shows "\<exists>c' gs' ss'. tick_handle f c = Some c' \<and> tick_inv bt ss' \<and> core_holds c' (gs @ gs') ss' \<and> ac_bar_type c' = bt \<and>
    core_ts c' \<le> sp_ts (fst p) \<and> list_all (\<lambda>g. length g = bs_step (bt_spec bt)) gs' \<and> concat gs' @ ss' = ss @ [fst p]"
proof -
  obtain c1 where c1: "core_sample c (fst p) (snd p) = Some c1" "core_holds c1 gs (ss @ [fst p])" "core_ts c1 = sp_ts (fst p)"
    "ac_bar_type c1 = ac_bar_type c"
    using core_sample_holds [OF a(2), of "fst p" "snd p"] a(5-7) core_holds_volume [OF a(2)]
    by (auto simp: point_ok_def total_size_def)
  obtain c2 gs' ss' where c2: "tick_check c1 = Some c2" "core_holds c2 (gs @ gs') ss'" "ac_bar_type c2 = ac_bar_type c1"
    "core_ts c2 = core_ts c1" "length ss' < bs_step (bt_spec bt)" "list_all (\<lambda>g. length g = bs_step (bt_spec bt)) gs'"
    "concat gs' @ ss' = ss @ [fst p]"
    using tick_check_holds [OF c1(2), of "bs_step (bt_spec bt)"] a(1,3) c1(4) by (auto simp: tick_inv_def)
  have "tick_handle f c = Some c2" using tick_handle_sample [of c f "fst p" "snd p"] a(3,4) c1(1) c2(1) by simp
  then show ?thesis using c1 c2 a(1,3) by (auto simp: tick_inv_def)
qed

interpretation tick: bar_feed "\<lambda>c. c" tick_handle "\<lambda>_. tick_inv bt" bt "\<lambda>g. length g = bs_step (bt_spec bt)" "\<lambda>s parts. parts = [s]"
  for bt
  by unfold_locales (use tick_handle_ok in simp_all)

section \<open>Volume bars\<close>

text \<open>The parts into which a sample is split: the same prices and time, together the same size.\<close>

definition split_of :: "sample \<Rightarrow> sample list \<Rightarrow> bool" where
  "split_of s parts \<longleftrightarrow> (\<forall>p \<in> set parts. p = s\<lparr>sp_size := sp_size p\<rparr>) \<and> total_size parts = sp_size s"

lemma quantity_from_raw_ok: "raw \<le> QUANTITY_RAW_MAX \<Longrightarrow> prec \<le> FIXED_PRECISION \<Longrightarrow>
  quantity_from_raw raw prec = Some \<lparr>q_raw = raw, q_prec = prec\<rparr>"
  by (auto simp: quantity_from_raw_def quantity_raw_ok_def check_fixed_precision_def QUANTITY_RAW_MAX_def QUANTITY_UNDEF_def
      u128_max_def)

lemma u128_less: "x \<le> u128_max \<Longrightarrow> x < 2 ^ 128"
  unfolding u128_max_eq by (simp only: less_eq_Suc_le Suc_eq_plus1) simp

lemma wrap_sub_le:
  assumes "b \<le> a" "a \<le> u128_max"
  shows "wrap_sub a b = a - b"
proof -
  have "a + 2 ^ 128 - b = (a - b) + 2 ^ 128" using assms(1) by (rule Nat.diff_add_assoc2)
  moreover have "a - b < 2 ^ 128" using u128_less [OF assms(2)] by (rule le_less_trans [OF diff_le_self])
  ultimately show ?thesis unfolding wrap_sub_def wrap_u_def by (simp only: mod_add_self2 mod_less)
qed

lemma wrap_u128_id: "x \<le> u128_max \<Longrightarrow> wrap_u 128 x = x"
  by (rule wrap_u_id [OF u128_less])

text \<open>The call that adds a part of the sample \<open>s\<close>.\<close>

definition adds :: "sample \<Rightarrow> (aggregator_core \<Rightarrow> quantity \<Rightarrow> aggregator_core panics) \<Rightarrow> bool" where
  "adds s upd \<longleftrightarrow> (\<forall>c q. upd c q = core_sample c (s\<lparr>sp_size := q_raw q\<rparr>) (q_prec q))"

lemma part_added:
  assumes "adds s upd" "sample_ok s" "core_holds c gs ss" "core_ts c \<le> sp_ts s" "total_size ss + k \<le> u128_max"
  obtains c' where "upd c \<lparr>q_raw = k, q_prec = prec\<rparr> = Some c'" "core_holds c' gs (ss @ [s\<lparr>sp_size := k\<rparr>])" "core_ts c' = sp_ts s"
    "ac_bar_type c' = ac_bar_type c"
proof -
  have "sample_ok (s\<lparr>sp_size := k\<rparr>)" using assms(2) by (simp add: sample_ok_def)
  then obtain c' where "core_sample c (s\<lparr>sp_size := k\<rparr>) prec = Some c'" "core_holds c' gs (ss @ [s\<lparr>sp_size := k\<rparr>])"
    "core_ts c' = sp_ts s" "ac_bar_type c' = ac_bar_type c"
    using core_sample_holds [OF assms(3), of "s\<lparr>sp_size := k\<rparr>" prec] assms(4,5) core_holds_volume [OF assms(3)]
    by (auto simp: total_size_def)
  with assms(1) that show ?thesis by (simp add: adds_def)
qed

lemma volume_loop_ok:
  assumes u: "adds s upd" and s: "sample_ok s" "prec \<le> FIXED_PRECISION" and step: "step \<le> u128_max"
    and "core_holds c gs ss" "total_size ss < step" "core_ts c \<le> sp_ts s" "r \<le> QUANTITY_RAW_MAX" "total_size ss + r \<le> u128_max"
  shows "\<exists>c' gs' ss' parts. volume_loop upd step prec r c = Some c' \<and> core_holds c' (gs @ gs') ss' \<and> ac_bar_type c' = ac_bar_type c \<and>
    core_ts c' \<le> sp_ts s \<and> total_size ss' < step \<and> list_all (\<lambda>g. total_size g = step) gs' \<and>
    split_of (s\<lparr>sp_size := r\<rparr>) parts \<and> concat gs' @ ss' = ss @ parts"
  using assms(5-)
proof (induction r arbitrary: c gs ss rule: less_induct)
  case (less r)
  have vol: "q_raw (bb_volume (ac_builder c)) = total_size ss"
    using core_holds_volume [OF less.prems(1)] by (simp add: core_volume_def total_size_def)
  consider (none) "r = 0" | (part) "0 < r" "total_size ss + r < step" | (fill) "0 < r" "step \<le> total_size ss + r" by linarith
  then show ?case
  proof cases
    case none
    then show ?thesis using less.prems
      by (intro exI [of _ c] exI [of _ "[]"] exI [of _ ss] exI [of _ "[]"]) (simp add: volume_loop.simps split_of_def)
  next
    case part
    obtain c' where c': "upd c \<lparr>q_raw = r, q_prec = prec\<rparr> = Some c'" "core_holds c' gs (ss @ [s\<lparr>sp_size := r\<rparr>])"
      "core_ts c' = sp_ts s" "ac_bar_type c' = ac_bar_type c"
      using part_added [OF u s(1) less.prems(1,3,5)] .
    have "wrap_u 128 (total_size ss + r) = total_size ss + r" using less.prems(5) by (rule wrap_u128_id)
    then have "volume_loop upd step prec r c = Some c'"
      using part c'(1) vol quantity_from_raw_ok [OF less.prems(4) s(2)] by (simp add: volume_loop.simps)
    then show ?thesis using c' part
      by (intro exI [of _ c'] exI [of _ "[]"] exI [of _ "ss @ [s\<lparr>sp_size := r\<rparr>]"] exI [of _ "[s\<lparr>sp_size := r\<rparr>]"])
         (simp add: split_of_def)
  next
    case fill
    obtain d where d_def: "d = step - total_size ss" by simp
    let ?g = "ss @ [s\<lparr>sp_size := d\<rparr>]"
    have d: "d \<le> r" "0 < d" using fill less.prems(2) d_def by auto
    obtain c1 where c1: "upd c \<lparr>q_raw = d, q_prec = prec\<rparr> = Some c1" "core_holds c1 gs ?g"
      "core_ts c1 = sp_ts s" "ac_bar_type c1 = ac_bar_type c"
      using part_added [OF u s(1) less.prems(1,3), of d] d(1) less.prems(5) by auto
    obtain c2 where c2: "build_now_and_send c1 = Some c2" "core_holds c2 (gs @ [?g]) []" "core_ts c2 = core_ts c1"
      "ac_bar_type c2 = ac_bar_type c1"
      using build_send_holds [OF c1(2)] by auto
    have lt: "r - d < r" using d by simp
    have rest: "total_size [] < step" "core_ts c2 \<le> sp_ts s" "r - d \<le> QUANTITY_RAW_MAX" "total_size [] + (r - d) \<le> u128_max"
      using less.prems(2,4,5) c2(3) c1(3) by auto
    obtain c' gs' ss' parts where r: "volume_loop upd step prec (r - d) c2 = Some c'" "core_holds c' ((gs @ [?g]) @ gs') ss'"
      "ac_bar_type c' = ac_bar_type c2" "core_ts c' \<le> sp_ts s" "total_size ss' < step" "list_all (\<lambda>g. total_size g = step) gs'"
      "split_of (s\<lparr>sp_size := r - d\<rparr>) parts" "concat gs' @ ss' = parts"
      using less.IH [OF lt c2(2) rest] by auto
    have "wrap_u 128 (total_size ss + r) = total_size ss + r" using less.prems(5) by (rule wrap_u128_id)
    moreover have "wrap_sub step (total_size ss) = d" using less.prems(2) step unfolding d_def by (intro wrap_sub_le) auto
    moreover have "wrap_sub r d = r - d" using d(1) less.prems(5) by (intro wrap_sub_le) auto
    moreover have "quantity_from_raw d prec = Some \<lparr>q_raw = d, q_prec = prec\<rparr>"
      using d(1) less.prems(4) s(2) by (intro quantity_from_raw_ok) auto
    ultimately have "volume_loop upd step prec r c = Some c'"
      using fill c1(1) c2(1) r(1) vol by (simp add: volume_loop.simps [of _ _ _ r] Let_def)
    moreover have "split_of (s\<lparr>sp_size := r\<rparr>) (s\<lparr>sp_size := d\<rparr> # parts)"
      using r(7) d by (auto simp: split_of_def)
    moreover have "total_size ?g = step" using less.prems(2) d_def by simp
    ultimately show ?thesis using r c1(4) c2(4)
      by (intro exI [of _ c'] exI [of _ "?g # gs'"] exI [of _ ss'] exI [of _ "s\<lparr>sp_size := d\<rparr> # parts"]) simp
  qed
qed

lemma adds_feed:
  assumes "feed_sample bt f = Some (s, prec)"
  shows "case f of
      F_Quote q \<Rightarrow> \<exists>p z. extract_price q (bs_price_type (bt_spec bt)) = Some p \<and> extract_size q (bs_price_type (bt_spec bt)) = Some z \<and>
        q_raw z = sp_size s \<and> q_prec z = prec \<and> adds s (\<lambda>c q'. apply_update c p q' (qt_ts_init q))
    | F_Trade t \<Rightarrow> q_raw (tt_size t) = sp_size s \<and> q_prec (tt_size t) = prec \<and>
        adds s (\<lambda>c q. apply_update c (tt_price t) q (tt_ts_init t))
    | F_Bar b \<Rightarrow> q_raw (br_volume b) = sp_size s \<and> q_prec (br_volume b) = prec \<and> adds s (\<lambda>c q. apply_update_bar c b q (br_ts_init b))"
  using assms
  by (cases f) (auto simp: bind_Some_conv adds_def apply_sample tick_sample_def bar_sample_def)

definition volume_inv :: "(nat \<Rightarrow> nat) \<Rightarrow> bar_type \<Rightarrow> sample list \<Rightarrow> bool" where
  "volume_inv raw_step bt ss \<longleftrightarrow> total_size ss < raw_step (bs_step (bt_spec bt)) \<and> raw_step (bs_step (bt_spec bt)) \<le> u128_max"

lemma volume_handle_loop:
  assumes "feed_sample (ac_bar_type c) f = Some (s, prec)"
  shows "\<exists>upd. adds s upd \<and> volume_handle raw_step f c =
    volume_loop upd (raw_step (bs_step (bt_spec (ac_bar_type c)))) prec (sp_size s) c"
  using adds_feed [OF assms]
  by (cases f) (auto simp: volume_handle_def handle_quote_def handle_trade_def handle_bar_def volume_update_def volume_update_bar_def)

lemma volume_handle_ok:
  assumes a: "volume_inv raw_step bt ss" "core_holds c gs ss" "ac_bar_type c = bt" "feed_sample bt f = Some p" "point_ok p"
    "core_ts c \<le> sp_ts (fst p)" "total_size ss + sp_size (fst p) \<le> u128_max"
  shows "\<exists>c' gs' ss' parts. volume_handle raw_step f c = Some c' \<and> volume_inv raw_step bt ss' \<and> core_holds c' (gs @ gs') ss' \<and>
    ac_bar_type c' = bt \<and> core_ts c' \<le> sp_ts (fst p) \<and> list_all (\<lambda>g. total_size g = raw_step (bs_step (bt_spec bt))) gs' \<and>
    split_of (fst p) parts \<and> concat gs' @ ss' = ss @ parts"
proof -
  obtain upd where u: "adds (fst p) upd"
    "volume_handle raw_step f c = volume_loop upd (raw_step (bs_step (bt_spec bt))) (snd p) (sp_size (fst p)) c"
    using volume_handle_loop [of c f "fst p" "snd p" raw_step] a(3,4) by auto
  show ?thesis
    using volume_loop_ok [OF u(1) _ _ _ a(2), of "snd p" "raw_step (bs_step (bt_spec bt))" "sp_size (fst p)"] a u(2)
    by (auto simp: point_ok_def volume_inv_def)
qed

interpretation volume: bar_feed "\<lambda>c. c" "volume_handle raw_step" "\<lambda>_. volume_inv raw_step bt" bt
  "\<lambda>g. total_size g = raw_step (bs_step (bt_spec bt))" split_of
  for raw_step bt
  by unfold_locales (use volume_handle_ok in \<open>simp_all add: split_of_def\<close>)

section \<open>Volume imbalance\<close>

definition vi_inv :: "volume_imbalance \<Rightarrow> bool" where
  "vi_inv a \<longleftrightarrow> \<bar>vi_imbalance_raw a\<bar> < vi_raw_step a \<and> vi_raw_step a \<le> i128_max"

lemma vi_wrap:
  assumes "vi_inv a" "side = 1 \<or> side = - 1" "0 < chunk" "chunk \<le> vi_raw_step a - \<bar>vi_imbalance_raw a\<bar>"
  shows "wrap_s 128 (vi_raw_step a - \<bar>vi_imbalance_raw a\<bar>) = vi_raw_step a - \<bar>vi_imbalance_raw a\<bar>"
    "wrap_s 128 (vi_imbalance_raw a + side * chunk) = vi_imbalance_raw a + side * chunk"
  using assms by (auto simp: vi_inv_def in_i128_def i128_min_def i128_max_def intro!: wrap_s_128_id)

lemma vi_loop_step:
  assumes "0 < remaining" "wrap_s 128 (vi_raw_step a - \<bar>vi_imbalance_raw a\<bar>) = need" "min remaining (max need 1) = int k"
    "quantity_from_raw k (q_prec (tt_size t)) = Some q" "apply_update (vi_core a) (tt_price t) q (tt_ts_init t) = Some c"
    "wrap_s 128 (vi_imbalance_raw a + side * int k) = imb"
  shows "vi_loop t side remaining a =
    Option.bind (vi_settle a c imb) (vi_loop t side (remaining - int k))"
  using assms by (subst vi_loop.simps) (simp only: Let_def if_True nat_int bind.bind_lunit)

lemma vi_settle_ok:
  assumes "vi_inv a" "core_holds c gs ss" "ss \<noteq> []"
  obtains a' gs' ss' where "vi_settle a c imb = Some a'" "vi_inv a'" "core_holds (vi_core a') (gs @ gs') ss'"
    "core_ts (vi_core a') = core_ts c" "ac_bar_type (vi_core a') = ac_bar_type c" "concat gs' @ ss' = ss"
proof (cases "\<bar>imb\<bar> \<ge> vi_raw_step a")
  case True
  obtain c2 where "build_now_and_send c = Some c2" "core_holds c2 (gs @ [ss]) []" "core_ts c2 = core_ts c"
    "ac_bar_type c2 = ac_bar_type c"
    using build_send_holds [OF assms(2,3)] .
  with True assms(1) show ?thesis
    by (intro that [of "a\<lparr>vi_core := c2, vi_imbalance_raw := 0\<rparr>" "[ss]" "[]"]) (auto simp: vi_settle_def vi_inv_def)
next
  case False
  with assms show ?thesis
    by (intro that [of "a\<lparr>vi_core := c, vi_imbalance_raw := imb\<rparr>" "[]" ss]) (auto simp: vi_settle_def vi_inv_def)
qed

lemma vi_loop_ok:
  assumes t: "prec = q_prec (tt_size t)" "prec \<le> FIXED_PRECISION" and side: "side = 1 \<or> side = - 1"
    and s: "s = tick_sample (tt_price t) (tt_size t) (tt_ts_init t)"
    and "vi_inv a" "core_holds (vi_core a) gs ss" "core_ts (vi_core a) \<le> sp_ts s" "r \<le> QUANTITY_RAW_MAX" "total_size ss + r \<le> u128_max"
  shows "\<exists>a' gs' ss' parts. vi_loop t side (int r) a = Some a' \<and> vi_inv a' \<and> core_holds (vi_core a') (gs @ gs') ss' \<and>
    ac_bar_type (vi_core a') = ac_bar_type (vi_core a) \<and> core_ts (vi_core a') \<le> sp_ts s \<and> split_of (s\<lparr>sp_size := r\<rparr>) parts \<and>
    concat gs' @ ss' = ss @ parts"
  using assms(5-)
proof (induction r arbitrary: a gs ss rule: less_induct)
  case (less r)
  show ?case
  proof (cases "r = 0")
    case True
    then show ?thesis using less.prems
      by (intro exI [of _ a] exI [of _ "[]"] exI [of _ ss] exI [of _ "[]"]) (simp add: vi_loop.simps split_of_def)
  next
    case False
    define need where "need = vi_raw_step a - \<bar>vi_imbalance_raw a\<bar>"
    define k where "k = nat (min (int r) (max need 1))"
    have need: "0 < need" "wrap_s 128 need = need" using less.prems(1) vi_wrap(1) [OF less.prems(1) side, of 1]
      by (auto simp: vi_inv_def need_def)
    have k: "0 < k" "k \<le> r" "int k = min (int r) (max need 1)" "int k \<le> need" using False need(1) by (auto simp: k_def)
    have q: "quantity_from_raw k prec = Some \<lparr>q_raw = k, q_prec = prec\<rparr>"
      using k(2) less.prems(4) t(2) by (intro quantity_from_raw_ok) auto
    have ad: "adds s (\<lambda>c q. apply_update c (tt_price t) q (tt_ts_init t))" and ok: "sample_ok s"
      using s by (simp_all add: adds_def apply_sample tick_sample_def sample_ok_def)
    obtain c1 where upd: "apply_update (vi_core a) (tt_price t) \<lparr>q_raw = k, q_prec = prec\<rparr> (tt_ts_init t) = Some c1"
      and c1: "core_holds c1 gs (ss @ [s\<lparr>sp_size := k\<rparr>])" "core_ts c1 = sp_ts s" "ac_bar_type c1 = ac_bar_type (vi_core a)"
      using part_added [OF ad ok less.prems(2,3), of k prec] less.prems(5) k(2) by auto
    define imb where "imb = vi_imbalance_raw a + side * int k"
    have imb: "wrap_s 128 imb = imb" using vi_wrap(2) [OF less.prems(1) side, of "int k"] k by (simp add: imb_def need_def)
    obtain a1 gs1 ss1 where a1: "vi_settle a c1 imb = Some a1" "vi_inv a1" "core_holds (vi_core a1) (gs @ gs1) ss1"
        "core_ts (vi_core a1) = sp_ts s" "ac_bar_type (vi_core a1) = ac_bar_type (vi_core a)" "concat gs1 @ ss1 = ss @ [s\<lparr>sp_size := k\<rparr>]"
      using vi_settle_ok [OF less.prems(1) c1(1), of imb] c1(2,3) by auto
    have pos: "0 < int r" using False by simp
    have n2: "wrap_s 128 (vi_raw_step a - \<bar>vi_imbalance_raw a\<bar>) = need" using need(2) unfolding need_def .
    have i2: "wrap_s 128 (vi_imbalance_raw a + side * int k) = imb" using imb unfolding imb_def .
    have "vi_loop t side (int r) a = vi_loop t side (int r - int k) a1"
      unfolding vi_loop_step [OF pos n2 k(3) [symmetric] q [unfolded t(1)] upd [unfolded t(1)] i2] a1(1)
      by (rule bind.bind_lunit)
    then have step: "vi_loop t side (int r) a = vi_loop t side (int (r - k)) a1" using k(2) by (simp add: of_nat_diff)
    have "total_size ss1 \<le> total_size (concat gs1 @ ss1)" by simp
    then have "total_size ss1 + (r - k) \<le> u128_max" using a1(6) less.prems(5) k(2) by simp
    moreover have "r - k < r" "r - k \<le> QUANTITY_RAW_MAX" "core_ts (vi_core a1) \<le> sp_ts s" using k less.prems(4) a1(4) by auto
    ultimately obtain a' gs' ss' parts where r: "vi_loop t side (int (r - k)) a1 = Some a'" "vi_inv a'"
      "core_holds (vi_core a') ((gs @ gs1) @ gs') ss'" "ac_bar_type (vi_core a') = ac_bar_type (vi_core a1)"
      "core_ts (vi_core a') \<le> sp_ts s" "split_of (s\<lparr>sp_size := r - k\<rparr>) parts" "concat gs' @ ss' = ss1 @ parts"
      using less.IH [of "r - k" a1 "gs @ gs1" ss1] a1(2,3) by blast
    have "split_of (s\<lparr>sp_size := r\<rparr>) (s\<lparr>sp_size := k\<rparr> # parts)" using r(6) k by (auto simp: split_of_def)
    moreover have "concat (gs1 @ gs') @ ss' = ss @ (s\<lparr>sp_size := k\<rparr> # parts)"
      using r(7) a1(6) by (metis append.assoc append_Cons append_Nil concat_append)
    ultimately show ?thesis using r a1(5) step
      by (intro exI [of _ a'] exI [of _ "gs1 @ gs'"] exI [of _ ss'] exI [of _ "s\<lparr>sp_size := k\<rparr> # parts"]) simp
  qed
qed

lemma quantity_max_i128: "r \<le> QUANTITY_RAW_MAX \<Longrightarrow> wrap_s 128 (int r) = int r"
  by (rule wrap_s_128_id) (auto simp: in_i128_def i128_min_def i128_max_def QUANTITY_RAW_MAX_def)

text \<open>A feed that adds its sample to the builder and sends nothing.\<close>

lemma plain_sample_ok:
  assumes "core_holds c gs ss" "point_ok p" "core_ts c \<le> sp_ts (fst p)" "total_size ss + sp_size (fst p) \<le> u128_max"
  obtains c' where "core_sample c (fst p) (snd p) = Some c'" "core_holds c' gs (ss @ [fst p])" "core_ts c' = sp_ts (fst p)"
    "ac_bar_type c' = ac_bar_type c"
  using core_sample_holds [OF assms(1), of "fst p" "snd p"] assms(2-4) core_holds_volume [OF assms(1)]
  by (auto simp: point_ok_def total_size_def)

lemma vi_handle_plain:
  assumes "feed_sample (ac_bar_type (vi_core a)) f = Some (s, prec)"
    "\<forall>t. f = F_Trade t \<longrightarrow> tt_aggressor_side t = NoAggressor"
  shows "vi_handle f a = map_option (\<lambda>c. a\<lparr>vi_core := c\<rparr>) (core_sample (vi_core a) s prec)"
  using assms
  by (cases f) (auto simp: vi_handle_def vi_handle_trade_def handle_quote_def handle_bar_def vi_update_def vi_update_bar_def
      apply_sample bind_Some_conv)

lemma vi_handle_ok:
  assumes a: "vi_inv a" "core_holds (vi_core a) gs ss" "ac_bar_type (vi_core a) = bt" "feed_sample bt f = Some p" "point_ok p"
    "core_ts (vi_core a) \<le> sp_ts (fst p)" "total_size ss + sp_size (fst p) \<le> u128_max"
  shows "\<exists>a' gs' ss' parts. vi_handle f a = Some a' \<and> vi_inv a' \<and> core_holds (vi_core a') (gs @ gs') ss' \<and>
    ac_bar_type (vi_core a') = bt \<and> core_ts (vi_core a') \<le> sp_ts (fst p) \<and> split_of (fst p) parts \<and> concat gs' @ ss' = ss @ parts"
proof (cases "\<forall>t. f = F_Trade t \<longrightarrow> tt_aggressor_side t = NoAggressor")
  case True
  obtain c' where c: "core_sample (vi_core a) (fst p) (snd p) = Some c'" "core_holds c' gs (ss @ [fst p])" "core_ts c' = sp_ts (fst p)"
    "ac_bar_type c' = ac_bar_type (vi_core a)"
    using plain_sample_ok [OF a(2,5-7)] .
  then have "vi_handle f a = Some (a\<lparr>vi_core := c'\<rparr>)" using vi_handle_plain [of a f "fst p" "snd p"] True a(3,4) by simp
  then show ?thesis using c a(1,3)
    by (intro exI [of _ "a\<lparr>vi_core := c'\<rparr>"] exI [of _ "[]"] exI [of _ "ss @ [fst p]"] exI [of _ "[fst p]"])
       (simp add: vi_inv_def split_of_def)
next
  case False
  then obtain t where t: "f = F_Trade t" "tt_aggressor_side t = Buyer \<or> tt_aggressor_side t = Seller"
    using aggressor_side.exhaust by metis
  let ?side = "if tt_aggressor_side t = Buyer then 1 else - 1 :: int"
  have p: "fst p = tick_sample (tt_price t) (tt_size t) (tt_ts_init t)" "snd p = q_prec (tt_size t)" "sp_size (fst p) = q_raw (tt_size t)"
    using a(4) t(1) by (auto simp: tick_sample_def)
  have size_same: "(tick_sample (tt_price t) (tt_size t) (tt_ts_init t))\<lparr>sp_size := q_raw (tt_size t)\<rparr> =
      tick_sample (tt_price t) (tt_size t) (tt_ts_init t)"
    by (simp add: tick_sample_def)
  have "vi_handle f a = vi_loop t ?side (int (q_raw (tt_size t))) a"
    using t a(5) p(3) quantity_max_i128 by (auto simp: vi_handle_def vi_handle_trade_def point_ok_def)
  then show ?thesis
    using vi_loop_ok [OF p(2) _ _ p(1) a(1,2,6), of ?side "q_raw (tt_size t)"] a(3,5,7) p
    by (simp add: point_ok_def size_same)
qed

interpretation vol_imbalance: bar_feed vi_core vi_handle "\<lambda>a _. vi_inv a" bt "\<lambda>_. True" split_of for bt
  by unfold_locales (use vi_handle_ok in \<open>simp_all add: split_of_def list.pred_True\<close>)

section \<open>Tick imbalance\<close>

lemma ti_handle_ok:
  assumes a: "core_holds (ti_core a) gs ss" "ac_bar_type (ti_core a) = bt" "feed_sample bt f = Some p" "point_ok p"
    "core_ts (ti_core a) \<le> sp_ts (fst p)" "total_size ss + sp_size (fst p) \<le> u128_max"
  shows "\<exists>a' gs' ss'. ti_handle f a = Some a' \<and> core_holds (ti_core a') (gs @ gs') ss' \<and>
    ac_bar_type (ti_core a') = bt \<and> core_ts (ti_core a') \<le> sp_ts (fst p) \<and> concat gs' @ ss' = ss @ [fst p]"
proof -
  obtain c where c: "core_sample (ti_core a) (fst p) (snd p) = Some c" "core_holds c gs (ss @ [fst p])" "core_ts c = sp_ts (fst p)"
    "ac_bar_type c = ac_bar_type (ti_core a)"
    using plain_sample_ok [OF a(1,4-6)] .
  obtain c' where c': "build_now_and_send c = Some c'" "core_holds c' (gs @ [ss @ [fst p]]) []" "core_ts c' = core_ts c"
    "ac_bar_type c' = ac_bar_type c"
    using build_send_holds [OF c(2)] by auto
  have "(\<exists>k. ti_handle f a = Some \<lparr>ti_core = c', ti_imbalance = k\<rparr>) \<or> (\<exists>k. ti_handle f a = Some \<lparr>ti_core = c, ti_imbalance = k\<rparr>)"
  proof (cases f)
    case (F_Trade t)
    then have "apply_update (ti_core a) (tt_price t) (tt_size t) (tt_ts_init t) = Some c" using a(3) c(1) by (auto simp: apply_sample)
    then show ?thesis using c'(1) F_Trade
      by (cases a) (auto simp: ti_handle_def ti_handle_trade_def Let_def split: aggressor_side.splits)
  qed (use a(2,3) c(1) in \<open>cases a; auto simp: ti_handle_def handle_quote_def handle_bar_def ti_update_def ti_update_bar_def
        apply_sample bind_Some_conv\<close>)+
  then show ?thesis
  proof
    assume "\<exists>k. ti_handle f a = Some \<lparr>ti_core = c', ti_imbalance = k\<rparr>"
    then obtain k where "ti_handle f a = Some \<lparr>ti_core = c', ti_imbalance = k\<rparr>" ..
    then show ?thesis using c c' a(2) by (intro exI [of _ "\<lparr>ti_core = c', ti_imbalance = k\<rparr>"] exI [of _ "[ss @ [fst p]]"] exI [of _ "[]"]) auto
  next
    assume "\<exists>k. ti_handle f a = Some \<lparr>ti_core = c, ti_imbalance = k\<rparr>"
    then obtain k where "ti_handle f a = Some \<lparr>ti_core = c, ti_imbalance = k\<rparr>" ..
    then show ?thesis using c a(2) by (intro exI [of _ "\<lparr>ti_core = c, ti_imbalance = k\<rparr>"] exI [of _ "[]"] exI [of _ "ss @ [fst p]"]) auto
  qed
qed

interpretation tick_imb: bar_feed ti_core ti_handle "\<lambda>_ _. True" bt "\<lambda>_. True" "\<lambda>s parts. parts = [s]" for bt
  by unfold_locales (use ti_handle_ok in \<open>simp_all add: list.pred_True\<close>)

section \<open>Properties\<close>

text \<open>A feed in the order of time, whose prices and sizes can be read and whose volume fits.\<close>

definition feed_in_order :: "bar_type \<Rightarrow> feed list \<Rightarrow> (sample \<times> nat) list \<Rightarrow> bool" where
  "feed_in_order bt fs ps \<longleftrightarrow> map (feed_sample bt) fs = map Some ps \<and> list_all point_ok ps \<and>
     sorted (map (\<lambda>p. sp_ts (fst p)) ps) \<and> total_size (map fst ps) \<le> u128_max"

lemma list_all2_single: "list_all2 (\<lambda>s parts. parts = [s]) xs yss \<longleftrightarrow> yss = map (\<lambda>s. [s]) xs"
  by (induction xs arbitrary: yss) (auto simp: list_all2_Cons1)

lemma concat_singles: "concat (map (\<lambda>s. [s]) xs) = xs"
  by (induction xs) auto

text \<open>C21: Tick bars summarise consecutive groups of ticks. On a feed of quotes, trades and bars that is in the order of
  time, the aggregator never panics, and the bars it sends are exactly the open, high, low, close and volume of the first, second,
  and every further group of \<open>step\<close> samples, stamped with the time of the last; fewer than
  \<open>step\<close> samples remain in the builder.\<close>

theorem tick_bars_group_samples:
  assumes "core_new_agg bt pp sp = Some c0" and "0 < bs_step (bt_spec bt)" "bs_step (bt_spec bt) < 2 ^ 64"
    and "feed_in_order bt fs ps"
  shows "\<exists>c groups rest. fold_opt tick_handle fs c0 = Some c \<and> concat groups @ rest = map fst ps \<and>
    list_all (\<lambda>g. length g = bs_step (bt_spec bt)) groups \<and> length rest < bs_step (bt_spec bt) \<and>
    list_all2 (bar_of bt) groups (ac_sent c) \<and> builder_holds (ac_builder c) rest"
proof -
  have c0: "core_holds c0 [] []" "core_ts c0 = 0" "ac_bar_type c0 = bt" using core_new_holds [OF assms(1)] by auto
  have "sorted (core_ts c0 # map (\<lambda>p. sp_ts (fst p)) ps)" using assms(4) c0(2) by (simp add: feed_in_order_def)
  then obtain c gs ss pss where r: "fold_opt tick_handle fs c0 = Some c" "tick_inv bt ss" "core_holds c gs ss" "ac_bar_type c = bt"
    "list_all (\<lambda>g. length g = bs_step (bt_spec bt)) gs" "list_all2 (\<lambda>s parts. parts = [s]) (map fst ps) pss" "concat gs @ ss = concat pss"
    using tick.run_ok [of bt "[]" c0 "[]" fs ps] assms(2-4) c0 by (auto simp: feed_in_order_def tick_inv_def)
  have "concat gs @ ss = map fst ps" using r(6,7) concat_singles by (simp only: list_all2_single)
  with r show ?thesis by (auto simp: core_holds_def tick_inv_def)
qed

definition sample_bar_type :: "bar_aggregation \<Rightarrow> bar_type" where
  "sample_bar_type ag = Standard \<lparr>symbol = ''S'', venue = ''V''\<rparr> \<lparr>bs_step = 2, bs_aggregation = ag, bs_price_type = Last\<rparr> Internal"

definition sample_trade :: "int \<Rightarrow> nat \<Rightarrow> u64 \<Rightarrow> trade_tick" where
  "sample_trade px sz ts = \<lparr>tt_instrument_id = \<lparr>symbol = ''S'', venue = ''V''\<rparr>, tt_price = \<lparr>p_raw = px, p_prec = 0\<rparr>,
     tt_size = \<lparr>q_raw = sz, q_prec = 0\<rparr>, tt_aggressor_side = Buyer, tt_trade_id = ''T'', tt_ts_event = ts, tt_ts_init = ts\<rparr>"

definition sample_point :: "int \<Rightarrow> nat \<Rightarrow> u64 \<Rightarrow> sample \<times> nat" where
  "sample_point px sz ts = (tick_sample \<lparr>p_raw = px, p_prec = 0\<rparr> \<lparr>q_raw = sz, q_prec = 0\<rparr> ts, 0)"

definition sample_feed :: "feed list" where
  "sample_feed = [F_Trade (sample_trade 5 1 1), F_Trade (sample_trade 7 2 2), F_Trade (sample_trade 6 4 3)]"

definition sample_points :: "(sample \<times> nat) list" where
  "sample_points = [sample_point 5 1 1, sample_point 7 2 2, sample_point 6 4 3]"

lemma sample_feed_in_order: "feed_in_order bt sample_feed sample_points"
  by (simp add: feed_in_order_def sample_feed_def sample_points_def sample_trade_def sample_point_def point_ok_def sample_ok_def
      tick_sample_def QUANTITY_RAW_MAX_def u128_max_def)

lemma sample_total: "total_size (map fst sample_points) = 7"
  by (simp add: sample_points_def sample_point_def tick_sample_def)

lemma sample_core: "\<exists>c. core_new_agg (sample_bar_type ag) 0 0 = Some c"
  by (simp add: core_new_agg_def builder_new_def sample_bar_type_def quantity_zero_def check_fixed_precision_def)

lemma sample_step [simp]: "bs_step (bt_spec (sample_bar_type ag)) = 2" "bt_standard (sample_bar_type ag) = sample_bar_type ag"
  by (simp_all add: sample_bar_type_def)

theorem tick_bars_group_samples_witness:
  "\<exists>c0 c groups rest. core_new_agg (sample_bar_type Tick) 0 0 = Some c0 \<and>
     fold_opt tick_handle sample_feed c0 = Some c \<and>
     concat groups @ rest = map fst sample_points \<and>
     list_all (\<lambda>g. length g = 2) groups \<and> length rest < 2 \<and> list_all2 (bar_of (sample_bar_type Tick)) groups (ac_sent c)"
proof -
  obtain c0 where "core_new_agg (sample_bar_type Tick) 0 0 = Some c0" using sample_core by blast
  from this tick_bars_group_samples [OF this _ _ sample_feed_in_order] show ?thesis by auto
qed

lemma list_all_total: "list_all (\<lambda>g. total_size g = k) gs \<Longrightarrow> total_size (concat gs) = length gs * k"
  by (induction gs) auto

lemma bars_total: "list_all2 (bar_of bt) gs bs \<Longrightarrow> list_all (\<lambda>g. total_size g = k) gs \<Longrightarrow> \<forall>b \<in> set bs. q_raw (br_volume b) = k"
  by (induction rule: list_all2_induct) (auto simp: bar_of_def summary_def total_size_def)

lemma split_total: "list_all2 split_of xs pss \<Longrightarrow> total_size (concat pss) = total_size xs"
  by (induction rule: list_all2_induct) (auto simp: split_of_def)

text \<open>C22: Volume bars have exactly the volume of a step, and no volume is lost. On a feed in the order of time the loop returns and nothing
  panics, every bar sent has the raw volume of the step, their number is the total volume divided by the step,
  the remainder is in the builder, and the bars summarise consecutive groups of the samples, of which some are
  split so that a bar is full.\<close>

theorem volume_bars_exact:
  assumes "volume_new bt pp sp = Some c0" and "feed_in_order (bt_standard bt) fs ps"
    and "step = raw_step (bs_step (bt_spec (bt_standard bt)))" "0 < step" "step \<le> u128_max"
  shows "\<exists>c groups rest parts. fold_opt (volume_handle raw_step) fs c0 = Some c \<and>
    (\<forall>b \<in> set (ac_sent c). q_raw (br_volume b) = step) \<and> length (ac_sent c) = total_size (map fst ps) div step \<and>
    core_volume c = total_size (map fst ps) mod step \<and> list_all2 (bar_of (bt_standard bt)) groups (ac_sent c) \<and>
    builder_holds (ac_builder c) rest \<and> list_all2 split_of (map fst ps) parts \<and> concat groups @ rest = concat parts"
proof -
  have c0: "core_holds c0 [] []" "core_ts c0 = 0" "ac_bar_type c0 = bt_standard bt"
    using core_new_holds assms(1) by (auto simp: volume_new_def)
  have "sorted (core_ts c0 # map (\<lambda>p. sp_ts (fst p)) ps)" using assms(2) c0(2) by (simp add: feed_in_order_def)
  then obtain c gs ss pss where r: "fold_opt (volume_handle raw_step) fs c0 = Some c" "volume_inv raw_step (bt_standard bt) ss"
    "core_holds c gs ss" "ac_bar_type c = bt_standard bt" "list_all (\<lambda>g. total_size g = step) gs" "list_all2 split_of (map fst ps) pss"
    "concat gs @ ss = concat pss"
    using volume.run_ok [of raw_step "bt_standard bt" "[]" c0 "[]" fs ps] assms(2-5) c0 by (auto simp: feed_in_order_def volume_inv_def)
  have total: "total_size (map fst ps) = length gs * step + total_size ss"
    using r(7) split_total [OF r(6)] list_all_total [OF r(5)] by (metis total_size_simps(3))
  have bars: "list_all2 (bar_of (bt_standard bt)) gs (ac_sent c)" and vol: "core_volume c = total_size ss"
    using r(3,4) core_holds_volume [OF r(3)] by (simp_all add: core_holds_def total_size_def)
  have "total_size ss < step" using r(2) assms(3) by (simp add: volume_inv_def)
  then have "length (ac_sent c) = total_size (map fst ps) div step" "core_volume c = total_size (map fst ps) mod step"
    using total vol list_all2_lengthD [OF bars] by simp_all
  then show ?thesis using r bars bars_total [OF bars r(5)] by (auto simp: core_holds_def)
qed

theorem volume_bars_exact_witness:
  "\<exists>c0 c. volume_new (sample_bar_type Volume) 0 0 = Some c0 \<and>
     fold_opt (volume_handle (\<lambda>n. n)) sample_feed c0 = Some c \<and>
     length (ac_sent c) = 3 \<and> core_volume c = 1"
proof -
  obtain c0 where "core_new_agg (sample_bar_type Volume) 0 0 = Some c0" using sample_core by blast
  then have "volume_new (sample_bar_type Volume) 0 0 = Some c0" by (simp add: volume_new_def)
  from this volume_bars_exact [OF this, of sample_feed sample_points 2 "\<lambda>n. n"] sample_feed_in_order [of "sample_bar_type Volume"]
    sample_total
  show ?thesis by (auto simp: u128_max_def)
qed

text \<open>Imbalance bars lose no volume. On a feed in the order of time the loop over a trade returns and nothing panics; the
  volumes of the bars sent and of the builder sum up to the volume of the feed, and the imbalance stays below the
  step.\<close>

theorem imbalance_bars_conserve_volume:
  assumes "volume_imbalance_new raw_step bt pp sp = Some a0" and "feed_in_order (bt_standard bt) fs ps"
    and "0 < raw_step (bs_step (bt_spec bt))" "raw_step (bs_step (bt_spec bt)) \<le> i128_max"
  shows "\<exists>a. fold_opt vi_handle fs a0 = Some a \<and> \<bar>vi_imbalance_raw a\<bar> < vi_raw_step a \<and>
    sum_list (map (\<lambda>b. q_raw (br_volume b)) (ac_sent (vi_core a))) + core_volume (vi_core a) = total_size (map fst ps)"
proof -
  obtain c0 where a0: "core_new_agg (bt_standard bt) pp sp = Some c0"
    "a0 = \<lparr>vi_core = c0, vi_imbalance_raw = 0, vi_raw_step = raw_step (bs_step (bt_spec bt))\<rparr>"
    using assms(1) by (auto simp: volume_imbalance_new_def)
  have c0: "core_holds c0 [] []" "core_ts c0 = 0" "ac_bar_type c0 = bt_standard bt" using core_new_holds [OF a0(1)] by auto
  have "vi_inv a0" using a0(2) assms(3,4) by (simp add: vi_inv_def)
  then show ?thesis
    using vol_imbalance.run_conserves [of a0 "bt_standard bt" fs ps] assms(2) c0 a0(2) by (auto simp: feed_in_order_def vi_inv_def)
qed

theorem imbalance_bars_conserve_volume_witness:
  "\<exists>a0 a. volume_imbalance_new int (sample_bar_type VolumeImbalance) 0 0 = Some a0 \<and>
     fold_opt vi_handle sample_feed a0 = Some a \<and>
     sum_list (map (\<lambda>b. q_raw (br_volume b)) (ac_sent (vi_core a))) + core_volume (vi_core a) = 7"
proof -
  obtain c0 where "core_new_agg (sample_bar_type VolumeImbalance) 0 0 = Some c0" using sample_core by blast
  then obtain a0 where a0: "volume_imbalance_new int (sample_bar_type VolumeImbalance) 0 0 = Some a0"
    by (simp add: volume_imbalance_new_def)
  with imbalance_bars_conserve_volume [OF a0, of sample_feed sample_points] sample_feed_in_order [of "sample_bar_type VolumeImbalance"]
    sample_total
  show ?thesis by (auto simp: i128_max_def)
qed

lemma stale_add:
  assumes "adds s upd" "sp_ts s < core_ts c"
  shows "upd c q = Some c"
  using assms stale_sample [of "s\<lparr>sp_size := q_raw q\<rparr>" "ac_builder c"] by (simp add: adds_def core_sample_def core_ts_def)

text \<open>A trade that is out of order makes a volume bar that is short. The builder ignores a trade older than the last, but
  the aggregator still counts its size: when the held volume and the size reach the step, a bar with only the
  held volume is sent.\<close>

theorem stale_trade_sends_short_bar:
  assumes "core_holds c gs ss" "ss \<noteq> []" and "step = raw_step (bs_step (bt_spec (ac_bar_type c)))" "step \<le> u128_max"
    and "tt_ts_init t < core_ts c" "q_prec (tt_size t) \<le> FIXED_PRECISION" "q_raw (tt_size t) \<le> QUANTITY_RAW_MAX"
    and "total_size ss < step" "step \<le> total_size ss + q_raw (tt_size t)" "total_size ss + q_raw (tt_size t) < step + step"
      "total_size ss + q_raw (tt_size t) \<le> u128_max"
  shows "\<exists>c' b. volume_handle raw_step (F_Trade t) c = Some c' \<and> ac_sent c' = ac_sent c @ [b] \<and>
    q_raw (br_volume b) = total_size ss \<and> q_raw (br_volume b) \<noteq> step"
proof -
  let ?n = "q_raw (tt_size t)" and ?p = "q_prec (tt_size t)" and ?v = "total_size ss"
  obtain upd where u: "adds (tick_sample (tt_price t) (tt_size t) (tt_ts_init t)) upd"
    "volume_handle raw_step (F_Trade t) c = volume_loop upd step ?p ?n c"
    using volume_handle_loop [of c "F_Trade t" "tick_sample (tt_price t) (tt_size t) (tt_ts_init t)" ?p raw_step] assms(3)
    by (auto simp: tick_sample_def)
  have old: "upd c' q = Some c'" if "core_ts c' = core_ts c" for c' q
    using stale_add [OF u(1)] assms(5) that by (simp add: tick_sample_def)
  obtain c1 where c1: "build_now_and_send c = Some c1" "core_holds c1 (gs @ [ss]) []" "core_ts c1 = core_ts c" "core_volume c1 = 0"
    using build_send_holds [OF assms(1,2)] .
  have vol: "q_raw (bb_volume (ac_builder c)) = ?v" "q_raw (bb_volume (ac_builder c1)) = 0"
    using core_holds_volume [OF assms(1)] c1(4) by (simp_all add: core_volume_def total_size_def)
  obtain d m where dm: "d = step - ?v" "m = ?n - d" by simp
  then have d: "d \<le> ?n" "0 < d" "m < step" "m \<le> ?n" "0 < ?n" using assms(8-10) by auto
  have w: "wrap_u 128 (?v + ?n) = ?v + ?n" using assms(11) by (rule wrap_u128_id)
  have w': "wrap_u 128 m = m" using d(4) assms(11) by (intro wrap_u128_id) linarith
  have sd: "wrap_sub step ?v = d" using assms(4,8) unfolding dm(1) by (intro wrap_sub_le) auto
  have sm: "wrap_sub ?n d = m" using d(1) assms(11) unfolding dm(2) by (intro wrap_sub_le) auto
  have q: "quantity_from_raw k ?p = Some \<lparr>q_raw = k, q_prec = ?p\<rparr>" if "k \<le> ?n" for k
    using that assms(6,7) by (intro quantity_from_raw_ok) auto
  have rest: "volume_loop upd step ?p m c1 = Some c1"
    using d(3) q [OF d(4)] old [OF c1(3)] vol(2) w' by (simp add: volume_loop.simps [of upd step ?p m c1])
  have "volume_loop upd step ?p ?n c = volume_loop upd step ?p m c1"
    using d(5) assms(9) q [OF d(1)] old [of c] vol(1) w sd sm c1(1) by (simp add: volume_loop.simps [of upd step ?p ?n c] Let_def)
  then have "volume_handle raw_step (F_Trade t) c = Some c1" using u(2) rest by simp
  moreover obtain b where "ac_sent c1 = ac_sent c @ [b]" using c1(1) by (auto simp: build_now_and_send_def bind_Some_conv)
  moreover have "length gs = length (ac_sent c)" using assms(1) by (auto simp: core_holds_def dest: list_all2_lengthD)
  ultimately have "bar_of (ac_bar_type c1) ss b" "ac_sent c1 = ac_sent c @ [b]" "volume_handle raw_step (F_Trade t) c = Some c1"
    using c1(2) by (auto simp: core_holds_def list_all2_append)
  then show ?thesis using assms(8) by (auto simp: bar_of_def summary_def total_size_def)
qed

theorem stale_trade_sends_short_bar_witness:
  "\<exists>c c' b. core_holds c [] [fst (sample_point 5 1 2)] \<and> core_ts c = 2 \<and> volume_handle (\<lambda>n. n) (F_Trade (sample_trade 7 2 1)) c = Some c' \<and>
     ac_sent c' = ac_sent c @ [b] \<and> q_raw (br_volume b) = 1"
proof -
  obtain c0 where "core_new_agg (sample_bar_type Volume) 0 0 = Some c0" using sample_core by blast
  then have c0: "core_holds c0 [] []" "core_ts c0 = 0" "ac_bar_type c0 = sample_bar_type Volume" using core_new_holds by auto
  have p: "point_ok (sample_point 5 1 2)" "sp_ts (fst (sample_point 5 1 2)) = 2" "sp_size (fst (sample_point 5 1 2)) = 1"
    by (simp_all add: sample_point_def point_ok_def sample_ok_def tick_sample_def QUANTITY_RAW_MAX_def)
  obtain c where c: "core_holds c [] [fst (sample_point 5 1 2)]" "core_ts c = 2" "ac_bar_type c = sample_bar_type Volume"
    using plain_sample_ok [OF c0(1) p(1)] c0(2,3) p(2,3) by (auto simp: u128_max_def)
  have "q_raw (tt_size (sample_trade 7 2 1)) = 2" "q_prec (tt_size (sample_trade 7 2 1)) = 0" "tt_ts_init (sample_trade 7 2 1) = 1"
    by (simp_all add: sample_trade_def)
  with stale_trade_sends_short_bar [OF c(1), of 2 "\<lambda>n. n" "sample_trade 7 2 1"] c p(3) show ?thesis
    by (fastforce simp: u128_max_def QUANTITY_RAW_MAX_def)
qed

section \<open>Volume runs\<close>

lemma vr_loop_step:
  assumes "0 < remaining" "k = min remaining (max (vr_raw_step a - vr_run_volume_raw a) 1)"
    "quantity_from_raw k (q_prec (tt_size t)) = Some q" "apply_update (vr_core a) (tt_price t) q (tt_ts_init t) = Some c"
    "wrap_u 128 (vr_run_volume_raw a + k) = v"
  shows "vr_loop t remaining a =
    Option.bind (if v \<ge> vr_raw_step a
      then map_option (\<lambda>c'. a\<lparr>vr_core := c', vr_run_volume_raw := 0, vr_current_run_side := None\<rparr>) (build_now_and_send c)
      else Some (a\<lparr>vr_core := c, vr_run_volume_raw := v\<rparr>)) (vr_loop t (remaining - k))"
  using assms by (subst vr_loop.simps) (simp only: Let_def if_True bind.bind_lunit)

text \<open>A part of a trade that does not end the run, and one that does.\<close>

lemma vr_part:
  assumes h: "core_holds (vr_core a) gs ss" "core_ts (vr_core a) \<le> tt_ts_init t" and step: "vr_raw_step a \<le> u128_max"
    and k: "0 < k" "vr_run_volume_raw a + k < vr_raw_step a" "k \<le> QUANTITY_RAW_MAX" "q_prec (tt_size t) \<le> FIXED_PRECISION"
      "total_size ss + k \<le> u128_max"
  obtains c where "vr_loop t k a = Some (a\<lparr>vr_core := c, vr_run_volume_raw := vr_run_volume_raw a + k\<rparr>)"
    "core_holds c gs (ss @ [(tick_sample (tt_price t) (tt_size t) (tt_ts_init t))\<lparr>sp_size := k\<rparr>])" "core_ts c = tt_ts_init t"
    "ac_bar_type c = ac_bar_type (vr_core a)"
proof -
  let ?s = "tick_sample (tt_price t) (tt_size t) (tt_ts_init t)"
  have ad: "adds ?s (\<lambda>c q. apply_update c (tt_price t) q (tt_ts_init t))" "sample_ok ?s"
    by (simp_all add: adds_def apply_sample tick_sample_def sample_ok_def)
  obtain c where c: "apply_update (vr_core a) (tt_price t) \<lparr>q_raw = k, q_prec = q_prec (tt_size t)\<rparr> (tt_ts_init t) = Some c"
    "core_holds c gs (ss @ [?s\<lparr>sp_size := k\<rparr>])" "core_ts c = sp_ts ?s" "ac_bar_type c = ac_bar_type (vr_core a)"
    using part_added [OF ad h(1), of k "q_prec (tt_size t)"] h(2) k(5) by (auto simp: tick_sample_def)
  have "wrap_u 128 (vr_run_volume_raw a + k) = vr_run_volume_raw a + k" using k(2) step by (intro wrap_u128_id) auto
  then have "vr_loop t k a = Some (a\<lparr>vr_core := c, vr_run_volume_raw := vr_run_volume_raw a + k\<rparr>)"
    using vr_loop_step [OF k(1) _ quantity_from_raw_ok [OF k(3,4)] c(1)] k(1,2) by (simp add: vr_loop.simps [of t 0])
  then show ?thesis using that c by (simp add: tick_sample_def)
qed

lemma vr_full:
  assumes h: "core_holds (vr_core a) gs ss" "core_ts (vr_core a) \<le> tt_ts_init t" and step: "vr_raw_step a \<le> QUANTITY_RAW_MAX"
    and k: "vr_run_volume_raw a = 0" "0 < vr_raw_step a" "vr_raw_step a \<le> n" "q_prec (tt_size t) \<le> FIXED_PRECISION"
      "total_size ss + n \<le> u128_max"
  obtains c where
    "vr_loop t n a = vr_loop t (n - vr_raw_step a) (a\<lparr>vr_core := c, vr_run_volume_raw := 0, vr_current_run_side := None\<rparr>)"
    "core_holds c (gs @ [ss @ [(tick_sample (tt_price t) (tt_size t) (tt_ts_init t))\<lparr>sp_size := vr_raw_step a\<rparr>]]) []"
    "core_ts c = tt_ts_init t"
proof -
  let ?s = "tick_sample (tt_price t) (tt_size t) (tt_ts_init t)" and ?k = "vr_raw_step a"
  have ad: "adds ?s (\<lambda>c q. apply_update c (tt_price t) q (tt_ts_init t))" "sample_ok ?s"
    by (simp_all add: adds_def apply_sample tick_sample_def sample_ok_def)
  obtain c where c: "apply_update (vr_core a) (tt_price t) \<lparr>q_raw = ?k, q_prec = q_prec (tt_size t)\<rparr> (tt_ts_init t) = Some c"
    "core_holds c gs (ss @ [?s\<lparr>sp_size := ?k\<rparr>])" "core_ts c = sp_ts ?s"
    using part_added [OF ad h(1), of ?k "q_prec (tt_size t)"] h(2) k(3,5) by (auto simp: tick_sample_def)
  obtain c' where c': "build_now_and_send c = Some c'" "core_holds c' (gs @ [ss @ [?s\<lparr>sp_size := ?k\<rparr>]]) []" "core_ts c' = core_ts c"
    using build_send_holds [OF c(2)] by auto
  have w: "wrap_u 128 (vr_run_volume_raw a + ?k) = ?k" using k(1,3,5) by (simp add: wrap_u128_id)
  have "0 < n" "?k = min n (max (?k - vr_run_volume_raw a) 1)" using k(1-3) by auto
  from vr_loop_step [OF this quantity_from_raw_ok [OF step k(4)] c(1) w] c'(1)
  have "vr_loop t n a = vr_loop t (n - ?k) (a\<lparr>vr_core := c', vr_run_volume_raw := 0, vr_current_run_side := None\<rparr>)" by simp
  then show ?thesis using that c' c(3) by (simp add: tick_sample_def)
qed

text \<open>The first trade of a run forgets what the builder holds.\<close>

lemma vr_first:
  assumes "run_side t = Some side" "vr_current_run_side a \<noteq> Some side" "core_holds (vr_core a) gs ss"
  obtains c where "vr_handle_trade a t =
      vr_loop t (q_raw (tt_size t)) (a\<lparr>vr_core := c, vr_current_run_side := Some side, vr_run_volume_raw := 0\<rparr>)"
    "core_holds c gs []" "core_ts c = core_ts (vr_core a)"
proof -
  obtain c where "core_reset (vr_core a) = Some c" "core_holds c gs []" "core_ts c = core_ts (vr_core a)"
    using core_reset_holds [OF assms(3)] .
  with assms(1,2) that show ?thesis by (simp add: vr_handle_trade_def)
qed

text \<open>Volume runs lose the remainder of a trade that ends a run. A trade of the size of a step and a remainder sends a bar and leaves the
  remainder in the builder; the next trade on the same side starts a new run, and the
  remainder is in neither the bars nor the builder.\<close>

theorem volume_runs_lose_remainder:
  assumes "volume_runs_new raw_step bt pp sp = Some a0" "step = raw_step (bs_step (bt_spec bt))" "step \<le> QUANTITY_RAW_MAX"
    and "tt_aggressor_side t1 = Buyer" "q_raw (tt_size t1) = step + r" "q_prec (tt_size t1) \<le> FIXED_PRECISION"
    and "tt_aggressor_side t2 = Buyer" "q_raw (tt_size t2) = x" "q_prec (tt_size t2) \<le> FIXED_PRECISION"
    and "0 < r" "r < step" "0 < x" "x < step" "tt_ts_init t1 \<le> tt_ts_init t2"
  shows "\<exists>a1 a2 b. vr_handle_trade a0 t1 = Some a1 \<and> vr_handle_trade a1 t2 = Some a2 \<and> ac_sent (vr_core a2) = [b] \<and>
    q_raw (br_volume b) = step \<and> core_volume (vr_core a1) = r \<and> core_volume (vr_core a2) = x"
proof -
  note lim = QUANTITY_RAW_MAX_def u128_max_def
  obtain c0 where c0: "core_holds c0 [] []" "core_ts c0 = 0"
    "a0 = \<lparr>vr_core = c0, vr_current_run_side = None, vr_run_volume_raw = 0, vr_raw_step = step\<rparr>"
    using assms(1,2) by (auto simp: volume_runs_new_def dest: core_new_holds)
  have s: "run_side t1 = Some Buyer" "run_side t2 = Some Buyer" using assms(4,7) by (simp_all add: run_side_def)
  obtain c1 where c1: "vr_handle_trade a0 t1 = vr_loop t1 (step + r) (a0\<lparr>vr_core := c1, vr_current_run_side := Some Buyer, vr_run_volume_raw := 0\<rparr>)"
    "core_holds c1 [] []" "core_ts c1 = 0"
    using vr_first [OF s(1), of a0] c0 assms(5) by auto
  let ?p = "\<lambda>t k. (tick_sample (tt_price t) (tt_size t) (tt_ts_init t))\<lparr>sp_size := k\<rparr>"
  obtain c2 where c2: "vr_handle_trade a0 t1 = vr_loop t1 r (a0\<lparr>vr_core := c2, vr_current_run_side := None, vr_run_volume_raw := 0\<rparr>)"
    "core_holds c2 [[?p t1 step]] []" "core_ts c2 = tt_ts_init t1"
    using vr_full [of "a0\<lparr>vr_core := c1, vr_current_run_side := Some Buyer, vr_run_volume_raw := 0\<rparr>" "[]" "[]" t1 "step + r"]
      c0(3) c1 assms(3,6,10,11) by (auto simp: lim)
  obtain c3 where c3: "vr_handle_trade a0 t1 = Some (a0\<lparr>vr_core := c3, vr_current_run_side := None, vr_run_volume_raw := r\<rparr>)"
    "core_holds c3 [[?p t1 step]] [?p t1 r]" "core_ts c3 = tt_ts_init t1"
    using vr_part [of "a0\<lparr>vr_core := c2, vr_current_run_side := None, vr_run_volume_raw := 0\<rparr>" "[[?p t1 step]]" "[]" t1 r]
      c0(3) c2 assms(3,6,10,11) by (auto simp: lim)
  obtain c4 where c4: "vr_handle_trade (a0\<lparr>vr_core := c3, vr_current_run_side := None, vr_run_volume_raw := r\<rparr>) t2 =
      vr_loop t2 x (a0\<lparr>vr_core := c4, vr_current_run_side := Some Buyer, vr_run_volume_raw := 0\<rparr>)" "core_holds c4 [[?p t1 step]] []"
    "core_ts c4 = tt_ts_init t1"
    using vr_first [OF s(2), of "a0\<lparr>vr_core := c3, vr_current_run_side := None, vr_run_volume_raw := r\<rparr>"] c3 assms(8) by auto
  obtain c5 where c5: "vr_loop t2 x (a0\<lparr>vr_core := c4, vr_current_run_side := Some Buyer, vr_run_volume_raw := 0\<rparr>) =
      Some (a0\<lparr>vr_core := c5, vr_current_run_side := Some Buyer, vr_run_volume_raw := x\<rparr>)" "core_holds c5 [[?p t1 step]] [?p t2 x]"
    using vr_part [of "a0\<lparr>vr_core := c4, vr_current_run_side := Some Buyer, vr_run_volume_raw := 0\<rparr>" "[[?p t1 step]]" "[]" t2 x]
      c0(3) c4 assms(3,9,12-14) by (auto simp: lim)
  obtain b where "ac_sent c5 = [b]" "bar_of (ac_bar_type c5) [?p t1 step] b" using c5(2) by (auto simp: core_holds_def list_all2_Cons1)
  then show ?thesis
    using c3(1) c4(1) c5(1) core_holds_volume [OF c3(2)] core_holds_volume [OF c5(2)] by (auto simp: bar_of_def summary_def)
qed

theorem volume_runs_lose_remainder_witness:
  "\<exists>a0 a1 a2 b. volume_runs_new (\<lambda>n. n) (sample_bar_type VolumeRuns) 0 0 = Some a0 \<and> vr_handle_trade a0 (sample_trade 5 3 1) = Some a1 \<and>
     vr_handle_trade a1 (sample_trade 6 1 2) = Some a2 \<and> ac_sent (vr_core a2) = [b] \<and> q_raw (br_volume b) = 2 \<and>
     core_volume (vr_core a1) = 1 \<and> core_volume (vr_core a2) = 1"
proof -
  obtain c0 where "core_new_agg (sample_bar_type VolumeRuns) 0 0 = Some c0" using sample_core by blast
  then obtain a0 where a0: "volume_runs_new (\<lambda>n. n) (sample_bar_type VolumeRuns) 0 0 = Some a0" by (simp add: volume_runs_new_def)
  with volume_runs_lose_remainder [OF a0, of 2 "sample_trade 5 3 1" 1 "sample_trade 6 1 2" 1] show ?thesis
    by (auto simp: sample_trade_def QUANTITY_RAW_MAX_def)
qed

end
