(* ===== verification/Renko_Bars.thy ===== *)
theory Renko_Bars
  imports Bar_Aggregators
begin

text \<open>
  Renko bars (\<open>crates/data/src/aggregation.rs\<close>, \<open>RenkoBarAggregator\<close>): a brick for every movement
  of the price by the brick size from the close of the last brick.

  What is shown: on any feed, also out of order, the bricks are a chain that starts at the first price, each one
  brick size up or down, and the last price is less than a brick from the end of the chain.
\<close>

record renko =
  rk_core :: aggregator_core
  rk_brick_size :: int
  rk_last_close :: "price option"

definition renko_new :: "bar_type \<Rightarrow> nat \<Rightarrow> nat \<Rightarrow> price \<Rightarrow> renko panics" where
  "renko_new bt pp sp price_increment =
     map_option (\<lambda>c. \<lparr>rk_core = c, rk_brick_size = wrap_s 128 (int (bs_step (bt_spec bt)) * p_raw price_increment), rk_last_close = None\<rparr>)
       (core_new_agg (bt_standard bt) pp sp)"

text \<open>The builder of a brick, and the bricks from \<open>current_close\<close> on.\<close>

definition brick_builder :: "bar_builder \<Rightarrow> price \<Rightarrow> price \<Rightarrow> price \<Rightarrow> price \<Rightarrow> quantity \<Rightarrow> u64 \<Rightarrow> bar_builder panics" where
  "brick_builder b op hi lo cl total_volume ts_init = do {
     b1 \<leftarrow> builder_reset b;
     Some (b1\<lparr>bb_open := Some op, bb_high := Some hi, bb_low := Some lo, bb_close := Some cl, bb_volume := total_volume,
       bb_count := 1, bb_ts_last := ts_init, bb_initialized := True\<rparr>)
   }"

fun renko_bricks :: "nat \<Rightarrow> int \<Rightarrow> nat \<Rightarrow> u64 \<Rightarrow> quantity \<Rightarrow> price \<Rightarrow> renko \<Rightarrow> renko panics" where
  "renko_bricks 0 direction prec ts_init total_volume current_close a = Some a"
| "renko_bricks (Suc n) direction prec ts_init total_volume current_close a = do {
     brick_close \<leftarrow> price_from_raw (wrap_s 128 (p_raw current_close + wrap_s 128 (direction * rk_brick_size a))) prec;
     let (brick_high, brick_low) = (if direction > 0 then (brick_close, current_close) else (current_close, brick_close));
     b \<leftarrow> brick_builder (ac_builder (rk_core a)) current_close brick_high brick_low brick_close total_volume ts_init;
     c \<leftarrow> build_and_send ((rk_core a)\<lparr>ac_builder := b\<rparr>) ts_init ts_init;
     renko_bricks n direction prec ts_init total_volume brick_close (a\<lparr>rk_core := c, rk_last_close := Some brick_close\<rparr>)
   }"

text \<open>The part of \<open>update\<close> and \<open>update_bar\<close> after the builder is updated, for the price or the close of
  the bar.\<close>

definition renko_move :: "renko \<Rightarrow> price \<Rightarrow> u64 \<Rightarrow> renko panics" where
  "renko_move a price ts_init =
     (case rk_last_close a of
        None \<Rightarrow> Some (a\<lparr>rk_last_close := Some price\<rparr>)
      | Some last_close \<Rightarrow>
          (let price_diff_raw = wrap_s 128 (p_raw price - p_raw last_close);
               abs_price_diff_raw = wrap_s 128 \<bar>price_diff_raw\<bar>
           in if abs_price_diff_raw \<ge> rk_brick_size a then
                if rk_brick_size a = 0 \<or> abs_price_diff_raw = i128_min \<and> rk_brick_size a = - 1 then None
                else let num_bricks = nat ((abs_price_diff_raw sdiv rk_brick_size a) mod 2 ^ 64);
                         direction = (if price_diff_raw > 0 then 1 else - 1)
                     in renko_bricks num_bricks direction (p_prec price) ts_init (bb_volume (ac_builder (rk_core a))) last_close a
              else Some a))"

definition renko_update :: "renko \<Rightarrow> price \<Rightarrow> quantity \<Rightarrow> u64 \<Rightarrow> renko panics" where
  "renko_update a price sz ts_init = do {
     c \<leftarrow> apply_update (rk_core a) price sz ts_init;
     renko_move (a\<lparr>rk_core := c\<rparr>) price ts_init
   }"

definition renko_update_bar :: "renko \<Rightarrow> bar \<Rightarrow> quantity \<Rightarrow> u64 \<Rightarrow> renko panics" where
  "renko_update_bar a br vol ts_init = do {
     c \<leftarrow> apply_update_bar (rk_core a) br vol ts_init;
     renko_move (a\<lparr>rk_core := c\<rparr>) (br_close br) ts_init
   }"

definition renko_handle :: "feed \<Rightarrow> renko \<Rightarrow> renko panics" where
  "renko_handle f a =
     (case f of
        F_Quote q \<Rightarrow> handle_quote (ac_bar_type \<circ> rk_core) renko_update a q
      | F_Trade t \<Rightarrow> handle_trade renko_update a t
      | F_Bar b \<Rightarrow> handle_bar renko_update_bar a b)"

section \<open>Chains of bricks\<close>

text \<open>A brick opens where the previous one closed, and closes one brick size away; its high and low are the two.\<close>

definition brick :: "int \<Rightarrow> price \<Rightarrow> bar \<Rightarrow> bool" where
  "brick sz p b \<longleftrightarrow> br_open b = p \<and>
     (p_raw (br_close b) = p_raw p + sz \<and> br_high b = br_close b \<and> br_low b = p \<or>
      p_raw (br_close b) = p_raw p - sz \<and> br_high b = p \<and> br_low b = br_close b)"

fun brick_chain :: "int \<Rightarrow> price \<Rightarrow> bar list \<Rightarrow> price \<Rightarrow> bool" where
  "brick_chain sz p [] q \<longleftrightarrow> p = q"
| "brick_chain sz p (b # bs) q \<longleftrightarrow> brick sz p b \<and> brick_chain sz (br_close b) bs q"

lemma brick_chain_append: "brick_chain sz p (bs @ cs) q \<longleftrightarrow> (\<exists>r. brick_chain sz p bs r \<and> brick_chain sz r cs q)"
  by (induction bs arbitrary: p) auto

text \<open>The builder accepts samples.\<close>

definition renko_ready :: "renko \<Rightarrow> bool" where
  "renko_ready a \<longleftrightarrow> (\<exists>ss. builder_holds (ac_builder (rk_core a)) ss)"

lemma builder_sample_any:
  assumes "builder_holds b ss" "sample_ok s" "q_raw (bb_volume b) + sp_size s \<le> u128_max"
  obtains b' ss' where "builder_sample b s prec = Some b'" "builder_holds b' ss'" "q_raw (bb_volume b') \<le> q_raw (bb_volume b) + sp_size s"
proof (cases "sp_ts s < bb_ts_last b")
  case True
  then show ?thesis using that [of b ss] stale_sample assms(1) by simp
next
  case False
  then obtain b' where b': "builder_sample b s prec = Some b'" "builder_holds b' (ss @ [s])"
    using builder_sample_holds [OF assms(1,2) _ assms(3), of prec] by (auto simp: not_less)
  then show ?thesis using that [OF b'] builder_holds_volume [OF assms(1)] builder_holds_volume [OF b'(2)] by simp
qed

lemma brick_sent:
  assumes h: "builder_holds (ac_builder c) ss" and o: "p_raw lo \<le> p_raw op" "p_raw op \<le> p_raw hi" "p_raw lo \<le> p_raw cl" "p_raw cl \<le> p_raw hi"
  shows "\<exists>b c' br. brick_builder (ac_builder c) op hi lo cl v ts = Some b \<and> build_and_send (c\<lparr>ac_builder := b\<rparr>) ts ts = Some c' \<and>
    builder_holds (ac_builder c') [] \<and> ac_sent c' = ac_sent c @ [br] \<and> ac_bar_type c' = ac_bar_type c \<and>
    br_open br = op \<and> br_high br = hi \<and> br_low br = lo \<and> br_close br = cl"
proof -
  have z: "quantity_zero (bb_size_precision (ac_builder c)) = Some \<lparr>q_raw = 0, q_prec = bb_size_precision (ac_builder c)\<rparr>"
    using h by (simp add: quantity_zero_Some builder_holds_def)
  have p: "bb_size_precision (ac_builder c) \<le> FIXED_PRECISION" using h by (simp add: builder_holds_def)
  show ?thesis
    using o z p
    by (simp add: brick_builder_def builder_reset_def build_and_send_def builder_build_def build_fill_def build_widen_def
        bar_new_def bar_new_checked_def builder_holds_nil)
qed

lemma price_from_raw_ok: "PRICE_RAW_MIN \<le> raw \<Longrightarrow> raw \<le> PRICE_RAW_MAX \<Longrightarrow> prec \<le> FIXED_PRECISION \<Longrightarrow>
  price_from_raw raw prec = Some \<lparr>p_raw = raw, p_prec = prec\<rparr>"
  by (auto simp: price_from_raw_def price_raw_ok_def check_fixed_precision_def raw_limits)

lemma price_in_i128: "PRICE_RAW_MIN \<le> x \<Longrightarrow> x \<le> PRICE_RAW_MAX \<Longrightarrow> wrap_s 128 x = x"
  by (rule wrap_s_128_id) (simp add: in_i128_def i128_min_def i128_max_def PRICE_RAW_MIN_def PRICE_RAW_MAX_def)

lemma renko_bricks_ok:
  assumes "builder_holds (ac_builder (rk_core a)) ss" and "0 < rk_brick_size a" "rk_brick_size a \<le> i128_max" and "d = 1 \<or> d = - 1"
    and "prec \<le> FIXED_PRECISION" "PRICE_RAW_MIN \<le> p_raw cur" "p_raw cur \<le> PRICE_RAW_MAX"
    and "PRICE_RAW_MIN \<le> p_raw cur + d * (int n * rk_brick_size a)" "p_raw cur + d * (int n * rk_brick_size a) \<le> PRICE_RAW_MAX"
  shows "\<exists>a' bs q ss'. renko_bricks n d prec ts v cur a = Some a' \<and> builder_holds (ac_builder (rk_core a')) ss' \<and> (0 < n \<longrightarrow> ss' = []) \<and>
    ac_sent (rk_core a') = ac_sent (rk_core a) @ bs \<and> brick_chain (rk_brick_size a) cur bs q \<and> length bs = n \<and>
    p_raw q = p_raw cur + d * (int n * rk_brick_size a) \<and> (0 < n \<longrightarrow> rk_last_close a' = Some q) \<and> (n = 0 \<longrightarrow> a' = a) \<and>
    rk_brick_size a' = rk_brick_size a \<and> ac_bar_type (rk_core a') = ac_bar_type (rk_core a)"
  using assms
proof (induction n arbitrary: a cur ss)
  case 0
  then show ?case by (intro exI [of _ a] exI [of _ "[]"] exI [of _ cur] exI [of _ ss]) simp
next
  case (Suc n)
  let ?k = "rk_brick_size a"
  define x where "x = p_raw cur + d * ?k"
  define m where "m = int n * ?k"
  have m: "0 \<le> m" "int (Suc n) * ?k = ?k + m" using Suc.prems(2) by (simp_all add: m_def algebra_simps)
  have x: "PRICE_RAW_MIN \<le> x" "x \<le> PRICE_RAW_MAX"
    using Suc.prems(4) Suc.prems(2,6,7) Suc.prems(8,9) [unfolded m(2)] m(1) by (elim disjE; simp add: x_def)+
  have w: "wrap_s 128 (d * ?k) = d * ?k"
    using Suc.prems(2-4) by (intro wrap_s_128_id) (auto simp: in_i128_def i128_min_def i128_max_def)
  have cl: "price_from_raw (wrap_s 128 (p_raw cur + wrap_s 128 (d * ?k))) prec = Some \<lparr>p_raw = x, p_prec = prec\<rparr>"
    using price_from_raw_ok [OF x Suc.prems(5)] price_in_i128 [OF x] w by (simp add: x_def)
  define q1 where "q1 = \<lparr>p_raw = x, p_prec = prec\<rparr>"
  define hl where "hl = (if d > 0 then (q1, cur) else (cur, q1))"
  have o: "p_raw (snd hl) \<le> p_raw cur" "p_raw cur \<le> p_raw (fst hl)" "p_raw (snd hl) \<le> p_raw q1" "p_raw q1 \<le> p_raw (fst hl)"
    using Suc.prems(2,4) by (auto simp: hl_def q1_def x_def)
  obtain b c br where c: "brick_builder (ac_builder (rk_core a)) cur (fst hl) (snd hl) q1 v ts = Some b"
    "build_and_send ((rk_core a)\<lparr>ac_builder := b\<rparr>) ts ts = Some c" "builder_holds (ac_builder c) []" "ac_sent c = ac_sent (rk_core a) @ [br]"
    "ac_bar_type c = ac_bar_type (rk_core a)" "br_open br = cur" "br_high br = fst hl" "br_low br = snd hl" "br_close br = q1"
    using brick_sent [OF Suc.prems(1) o, of v ts] by blast
  have step: "renko_bricks (Suc n) d prec ts v cur a = renko_bricks n d prec ts v q1 (a\<lparr>rk_core := c, rk_last_close := Some q1\<rparr>)"
    using cl c(1,2) by (simp add: q1_def [symmetric] hl_def Let_def split: if_splits)
  have br: "brick ?k cur br" using c(6-9) Suc.prems(4) by (auto simp: brick_def hl_def q1_def x_def)
  have "p_raw q1 + d * (int n * ?k) = p_raw cur + d * (int (Suc n) * ?k)" by (simp add: q1_def x_def algebra_simps)
  then obtain a' bs q ss' where r: "renko_bricks n d prec ts v q1 (a\<lparr>rk_core := c, rk_last_close := Some q1\<rparr>) = Some a'"
    "builder_holds (ac_builder (rk_core a')) ss'" "0 < n \<longrightarrow> ss' = []" "ac_sent (rk_core a') = ac_sent c @ bs" "brick_chain ?k q1 bs q" "length bs = n"
    "p_raw q = p_raw cur + d * (int (Suc n) * ?k)" "0 < n \<longrightarrow> rk_last_close a' = Some q" "n = 0 \<longrightarrow> a' = a\<lparr>rk_core := c, rk_last_close := Some q1\<rparr>"
    "rk_brick_size a' = ?k" "ac_bar_type (rk_core a') = ac_bar_type (rk_core a)"
    using Suc.IH [of "a\<lparr>rk_core := c, rk_last_close := Some q1\<rparr>" "[]" q1] Suc.prems(2-5,8,9) c(3,5) x by (auto simp: q1_def)
  have "rk_last_close a' = Some q" using r(5,6,8,9) by (cases n) auto
  moreover have "builder_holds (ac_builder (rk_core a')) []" using r(2,3,9) c(3) by (cases n) auto
  ultimately show ?case using r step br c(4,9) by (intro exI [of _ a'] exI [of _ "br # bs"] exI [of _ q] exI [of _ "[]"]) simp
qed

lemma sdiv_pos: "0 \<le> x \<Longrightarrow> 0 < k \<Longrightarrow> x sdiv k = x div (k::int)"
  by (simp add: signed_divide_int_def sgn_if)

text \<open>The bricks that fit between two prices, and what is left.\<close>

lemma brick_count:
  fixes x y k :: int
  assumes k: "0 < k" and lim: "lo \<le> x" "x \<le> hi" "lo \<le> y" "y \<le> hi" "hi - lo < k * 2 ^ 64"
  defines "n \<equiv> nat (\<bar>y - x\<bar> div k)" and "d \<equiv> (if y - x > 0 then 1 else - 1)"
  shows "\<bar>y - (x + d * (int n * k))\<bar> < k" "lo \<le> x + d * (int n * k)" "x + d * (int n * k) \<le> hi" "\<bar>y - x\<bar> div k < 2 ^ 64"
proof -
  define r where "r = \<bar>y - x\<bar> mod k"
  have n: "int n = \<bar>y - x\<bar> div k" using k by (simp add: n_def pos_imp_zdiv_nonneg_iff)
  have r: "0 \<le> r" "r < k" "\<bar>y - x\<bar> = int n * k + r" using k by (simp_all add: r_def n)
  define m where "m = int n * k"
  have m: "0 \<le> m" "\<bar>y - x\<bar> = m + r" using k r(3) by (simp_all add: m_def)
  show "\<bar>y - (x + d * (int n * k))\<bar> < k" "lo \<le> x + d * (int n * k)" "x + d * (int n * k) \<le> hi"
    using m r(1,2) lim unfolding m_def [symmetric] d_def by (auto simp: abs_if split: if_splits)
  have "\<bar>y - x\<bar> < k * 2 ^ 64" using lim by linarith
  then have "int n * k < 2 ^ 64 * k" using r(1,3) by (simp add: mult.commute)
  then have "int n < 2 ^ 64" using k by (simp only: mult_less_cancel_right_pos)
  then show "\<bar>y - x\<bar> div k < 2 ^ 64" unfolding n .
qed

lemma renko_move_ok:
  assumes h: "builder_holds (ac_builder (rk_core a)) ss" and k: "0 < rk_brick_size a" "rk_brick_size a \<le> i128_max"
    and lc: "rk_last_close a = Some lc" "lo \<le> p_raw lc" "p_raw lc \<le> hi"
    and p: "lo \<le> p_raw p" "p_raw p \<le> hi" "p_prec p \<le> FIXED_PRECISION"
    and lim: "PRICE_RAW_MIN \<le> lo" "hi \<le> PRICE_RAW_MAX" "hi - lo < rk_brick_size a * 2 ^ 64"
  shows "\<exists>a' bs q ss'. renko_move a p ts = Some a' \<and> builder_holds (ac_builder (rk_core a')) ss' \<and>
    (ss' = [] \<or> ac_builder (rk_core a') = ac_builder (rk_core a)) \<and>
    ac_sent (rk_core a') = ac_sent (rk_core a) @ bs \<and> brick_chain (rk_brick_size a) lc bs q \<and> rk_last_close a' = Some q \<and>
    lo \<le> p_raw q \<and> p_raw q \<le> hi \<and> \<bar>p_raw p - p_raw q\<bar> < rk_brick_size a \<and> rk_brick_size a' = rk_brick_size a \<and>
    ac_bar_type (rk_core a') = ac_bar_type (rk_core a)"
proof -
  let ?k = "rk_brick_size a" and ?d = "p_raw p - p_raw lc"
  define n where "n = nat (\<bar>?d\<bar> div ?k)"
  define s where "s = (if ?d > 0 then 1 else - 1 :: int)"
  note c = brick_count [OF k(1) lc(2,3) p(1,2) lim(3), folded n_def s_def]
  have w: "wrap_s 128 ?d = ?d" "wrap_s 128 \<bar>?d\<bar> = \<bar>?d\<bar>"
    using lc p lim by (auto simp: in_i128_def i128_min_def i128_max_def PRICE_RAW_MIN_def PRICE_RAW_MAX_def intro!: wrap_s_128_id)
  have quot: "\<bar>?d\<bar> sdiv ?k = \<bar>?d\<bar> div ?k" "0 \<le> \<bar>?d\<bar> div ?k" using k(1) by (simp_all add: sdiv_pos pos_imp_zdiv_nonneg_iff)
  have nb: "nat ((\<bar>?d\<bar> sdiv ?k) mod 2 ^ 64) = n" unfolding quot(1) n_def using quot(2) c(4) by (simp add: mod_pos_pos_trivial)
  have ni: "\<bar>?d\<bar> \<noteq> i128_min" by (simp add: i128_min_def)
  show ?thesis
  proof (cases "\<bar>?d\<bar> \<ge> ?k")
    case False
    then show ?thesis using h lc w
      by (intro exI [of _ a] exI [of _ "[]"] exI [of _ lc] exI [of _ ss]) (auto simp: renko_move_def Let_def)
  next
    case True
    have mv: "renko_move a p ts = renko_bricks n s (p_prec p) ts (bb_volume (ac_builder (rk_core a))) lc a"
      using True lc(1) w k(1) ni nb unfolding renko_move_def Let_def s_def by simp
    have "0 < \<bar>?d\<bar> div ?k" using True k(1) by (simp add: pos_imp_zdiv_pos_iff)
    then have "0 < n" by (simp add: n_def)
    moreover have "PRICE_RAW_MIN \<le> p_raw lc + s * (int n * ?k)" "p_raw lc + s * (int n * ?k) \<le> PRICE_RAW_MAX"
      "PRICE_RAW_MIN \<le> p_raw lc" "p_raw lc \<le> PRICE_RAW_MAX" using c(2,3) lim(1,2) lc(2,3) by linarith+
    moreover have "s = 1 \<or> s = - 1" by (simp add: s_def)
    ultimately show ?thesis
      using renko_bricks_ok [OF h k(1,2), of s "p_prec p" lc n ts "bb_volume (ac_builder (rk_core a))"] p(3) mv c(1-3) by metis
  qed
qed

section \<open>Streams\<close>

lemma renko_handle_sample:
  assumes "feed_sample (ac_bar_type (rk_core a)) f = Some (s, prec)"
  shows "renko_handle f a = Option.bind (core_sample (rk_core a) s prec) (\<lambda>c. renko_move (a\<lparr>rk_core := c\<rparr>) (sp_close s) (sp_ts s))"
  using assms
  by (cases f) (auto simp: renko_handle_def handle_quote_def handle_trade_def handle_bar_def renko_update_def renko_update_bar_def
      apply_sample bind_Some_conv tick_sample_def bar_sample_def)

text \<open>The chain from the first price \<open>p0\<close> to the last close, with the volume that the builder can hold so far.\<close>

definition renko_inv :: "int \<Rightarrow> int \<Rightarrow> bar_type \<Rightarrow> price \<Rightarrow> nat \<Rightarrow> renko \<Rightarrow> bool" where
  "renko_inv lo hi bt p0 tot a \<longleftrightarrow> ac_bar_type (rk_core a) = bt \<and> 0 < rk_brick_size a \<and> rk_brick_size a \<le> i128_max \<and>
     hi - lo < rk_brick_size a * 2 ^ 64 \<and> (\<exists>ss. builder_holds (ac_builder (rk_core a)) ss) \<and> core_volume (rk_core a) \<le> tot \<and>
     (\<exists>q. rk_last_close a = Some q \<and> lo \<le> p_raw q \<and> p_raw q \<le> hi \<and> brick_chain (rk_brick_size a) p0 (ac_sent (rk_core a)) q)"

definition renko_point :: "int \<Rightarrow> int \<Rightarrow> sample \<times> nat \<Rightarrow> bool" where
  "renko_point lo hi p \<longleftrightarrow> sample_ok (fst p) \<and> lo \<le> p_raw (sp_close (fst p)) \<and> p_raw (sp_close (fst p)) \<le> hi \<and>
     p_prec (sp_close (fst p)) \<le> FIXED_PRECISION"

lemma renko_sample:
  assumes "builder_holds (ac_builder c) ss" "sample_ok s" "core_volume c + sp_size s \<le> u128_max"
  obtains c' ss' where "core_sample c s prec = Some c'" "builder_holds (ac_builder c') ss'" "core_volume c' \<le> core_volume c + sp_size s"
    "ac_sent c' = ac_sent c" "ac_bar_type c' = ac_bar_type c"
proof -
  obtain b' ss' where "builder_sample (ac_builder c) s prec = Some b'" "builder_holds b' ss'"
    "q_raw (bb_volume b') \<le> q_raw (bb_volume (ac_builder c)) + sp_size s"
    using builder_sample_any [OF assms(1,2), of prec] assms(3) by (auto simp: core_volume_def)
  then show ?thesis by (intro that [of "c\<lparr>ac_builder := b'\<rparr>" ss']) (simp_all add: core_sample_def core_volume_def)
qed

lemma renko_handle_ok:
  assumes inv: "renko_inv lo hi bt p0 tot a" and f: "feed_sample bt f = Some p" "renko_point lo hi p"
    and lim: "PRICE_RAW_MIN \<le> lo" "hi \<le> PRICE_RAW_MAX" and v: "tot + sp_size (fst p) \<le> u128_max"
  shows "\<exists>a' q. renko_handle f a = Some a' \<and> renko_inv lo hi bt p0 (tot + sp_size (fst p)) a' \<and> rk_brick_size a' = rk_brick_size a \<and>
    rk_last_close a' = Some q \<and> \<bar>p_raw (sp_close (fst p)) - p_raw q\<bar> < rk_brick_size a"
proof -
  obtain ss q where i: "ac_bar_type (rk_core a) = bt" "0 < rk_brick_size a" "rk_brick_size a \<le> i128_max" "hi - lo < rk_brick_size a * 2 ^ 64"
    "builder_holds (ac_builder (rk_core a)) ss" "core_volume (rk_core a) \<le> tot" "rk_last_close a = Some q" "lo \<le> p_raw q" "p_raw q \<le> hi"
    "brick_chain (rk_brick_size a) p0 (ac_sent (rk_core a)) q"
    using inv by (auto simp: renko_inv_def)
  obtain c ss1 where c: "core_sample (rk_core a) (fst p) (snd p) = Some c" "builder_holds (ac_builder c) ss1"
    "core_volume c \<le> core_volume (rk_core a) + sp_size (fst p)" "ac_sent c = ac_sent (rk_core a)" "ac_bar_type c = ac_bar_type (rk_core a)"
    using renko_sample [OF i(5), of "fst p" "snd p"] f(2) i(6) v by (auto simp: renko_point_def)
  obtain a' bs q' ss' where m: "renko_move (a\<lparr>rk_core := c\<rparr>) (sp_close (fst p)) (sp_ts (fst p)) = Some a'"
    "builder_holds (ac_builder (rk_core a')) ss'" "ss' = [] \<or> ac_builder (rk_core a') = ac_builder c"
    "ac_sent (rk_core a') = ac_sent c @ bs" "brick_chain (rk_brick_size a) q bs q'" "rk_last_close a' = Some q'" "lo \<le> p_raw q'" "p_raw q' \<le> hi"
    "\<bar>p_raw (sp_close (fst p)) - p_raw q'\<bar> < rk_brick_size a" "rk_brick_size a' = rk_brick_size a" "ac_bar_type (rk_core a') = ac_bar_type c"
    using renko_move_ok [of "a\<lparr>rk_core := c\<rparr>" ss1 q lo hi "sp_close (fst p)" "sp_ts (fst p)"] c(2) i(2-4,7-9) f(2) lim
    by (auto simp: renko_point_def)
  have "core_volume (rk_core a') \<le> tot + sp_size (fst p)"
    using m(2,3) c(3) i(6) builder_holds_volume [of "ac_builder (rk_core a')" "[]"] by (auto simp: core_volume_def)
  moreover have "renko_handle f a = Some a'" using renko_handle_sample [of a f "fst p" "snd p"] f(1) i(1) c(1) m(1) by simp
  ultimately show ?thesis using m i c by (auto simp: renko_inv_def brick_chain_append)
qed

lemma renko_run_ok:
  assumes "renko_inv lo hi bt p0 tot a" "map (feed_sample bt) fs = map Some ps" "list_all (renko_point lo hi) ps"
    "PRICE_RAW_MIN \<le> lo" "hi \<le> PRICE_RAW_MAX" "tot + total_size (map fst ps) \<le> u128_max" "ps \<noteq> []"
  shows "\<exists>a' q. fold_opt renko_handle fs a = Some a' \<and> rk_last_close a' = Some q \<and>
    brick_chain (rk_brick_size a) p0 (ac_sent (rk_core a')) q \<and> \<bar>p_raw (sp_close (fst (last ps))) - p_raw q\<bar> < rk_brick_size a"
  using assms
proof (induction fs arbitrary: a tot ps)
  case (Cons f fs)
  obtain p ps' where ps: "ps = p # ps'" using Cons.prems(2) by (cases ps) auto
  obtain a1 q where s: "renko_handle f a = Some a1" "renko_inv lo hi bt p0 (tot + sp_size (fst p)) a1" "rk_brick_size a1 = rk_brick_size a"
    "rk_last_close a1 = Some q" "\<bar>p_raw (sp_close (fst p)) - p_raw q\<bar> < rk_brick_size a"
    using renko_handle_ok [OF Cons.prems(1), of f p] Cons.prems(2-6) ps by auto
  show ?case
  proof (cases "ps' = []")
    case True
    then show ?thesis using s ps Cons.prems(2) by (auto simp: renko_inv_def)
  next
    case False
    then show ?thesis using Cons.IH [OF s(2), of ps'] s(1,3) ps Cons.prems(2-6) by (simp add: add.assoc)
  qed
qed simp

lemma wrap_s_128_le: "wrap_s 128 x \<le> i128_max"
proof -
  have "(x + 2 ^ 127) mod 2 ^ 128 < 2 ^ 128" by (rule pos_mod_bound) simp
  then show ?thesis by (simp add: wrap_s_def i128_max_def)
qed

lemma renko_first:
  assumes "renko_new bt pp sp incr = Some a0" and k: "0 < rk_brick_size a0" "hi - lo < rk_brick_size a0 * 2 ^ 64"
    and f: "feed_sample (bt_standard bt) f = Some p" "renko_point lo hi p" and v: "sp_size (fst p) \<le> u128_max"
  shows "\<exists>a. renko_handle f a0 = Some a \<and> renko_inv lo hi (bt_standard bt) (sp_close (fst p)) (sp_size (fst p)) a \<and>
    rk_brick_size a = rk_brick_size a0 \<and> rk_last_close a = Some (sp_close (fst p)) \<and> ac_sent (rk_core a) = []"
proof -
  obtain c0 where c0: "core_new_agg (bt_standard bt) pp sp = Some c0" and
    a0: "a0 = \<lparr>rk_core = c0, rk_brick_size = wrap_s 128 (int (bs_step (bt_spec bt)) * p_raw incr), rk_last_close = None\<rparr>"
    using assms(1) by (auto simp: renko_new_def)
  note h = core_new_holds [OF c0]
  have vol: "core_volume c0 = 0" using core_holds_volume [of c0 "[]" "[]"] h by simp
  obtain c ss where c: "core_sample c0 (fst p) (snd p) = Some c" "builder_holds (ac_builder c) ss" "core_volume c \<le> sp_size (fst p)"
    "ac_sent c = ac_sent c0" "ac_bar_type c = ac_bar_type c0"
    using renko_sample [of c0 "[]" "fst p" "snd p"] h vol f(2) v by (auto simp: core_holds_def renko_point_def)
  have "renko_handle f a0 = Some (a0\<lparr>rk_core := c, rk_last_close := Some (sp_close (fst p))\<rparr>)"
    using renko_handle_sample [of a0 f "fst p" "snd p"] f(1) c(1) a0 h by (simp add: renko_move_def)
  moreover have "rk_brick_size a0 \<le> i128_max" using a0 wrap_s_128_le by simp
  ultimately show ?thesis using c h k f(2) by (auto simp: renko_inv_def renko_point_def)
qed

text \<open>C23: Renko bars are a chain of bricks that follows the price. On any feed of prices in a range, in the order of time or not, the aggregator
  does not panic; its bars are a chain that starts at the first price, each opening where the one before
  closed and closing exactly a brick size above or below, with these two as its high and low; and the last price is
  less than a brick size away from the end of the chain.\<close>

theorem renko_bars_follow_price:
  assumes "renko_new bt pp sp incr = Some a0" and "0 < rk_brick_size a0"
    and "map (feed_sample (bt_standard bt)) fs = map Some ps" "ps \<noteq> []" "list_all (renko_point lo hi) ps"
    and "PRICE_RAW_MIN \<le> lo" "hi \<le> PRICE_RAW_MAX" "hi - lo < rk_brick_size a0 * 2 ^ 64" "total_size (map fst ps) \<le> u128_max"
  shows "\<exists>a q. fold_opt renko_handle fs a0 = Some a \<and> rk_last_close a = Some q \<and>
    brick_chain (rk_brick_size a0) (sp_close (fst (hd ps))) (ac_sent (rk_core a)) q \<and>
    \<bar>p_raw (sp_close (fst (last ps))) - p_raw q\<bar> < rk_brick_size a0"
proof -
  obtain p ps' where ps: "ps = p # ps'" using assms(4) by (cases ps) auto
  then obtain f fs' where fs: "fs = f # fs'" "feed_sample (bt_standard bt) f = Some p" "map (feed_sample (bt_standard bt)) fs' = map Some ps'"
    using assms(3) by (cases fs) auto
  obtain a1 where a1: "renko_handle f a0 = Some a1" "renko_inv lo hi (bt_standard bt) (sp_close (fst p)) (sp_size (fst p)) a1"
    "rk_brick_size a1 = rk_brick_size a0" "rk_last_close a1 = Some (sp_close (fst p))" "ac_sent (rk_core a1) = []"
    using renko_first [OF assms(1,2,8) fs(2)] assms(5,9) ps by auto
  show ?thesis
  proof (cases "ps' = []")
    case True
    then show ?thesis using a1 fs ps assms(2) by auto
  next
    case False
    then show ?thesis using renko_run_ok [OF a1(2) fs(3) _ assms(6,7)] a1 fs(1) ps assms(5,9) by simp
  qed
qed

theorem renko_bars_follow_price_witness:
  "\<exists>a0 a q. renko_new (sample_bar_type Renko) 0 0 \<lparr>p_raw = 1, p_prec = 0\<rparr> = Some a0 \<and> rk_brick_size a0 = 2 \<and>
     fold_opt renko_handle sample_feed a0 = Some a \<and> rk_last_close a = Some q \<and>
     brick_chain 2 \<lparr>p_raw = 5, p_prec = 0\<rparr> (ac_sent (rk_core a)) q \<and> \<bar>6 - p_raw q\<bar> < 2"
proof -
  obtain c0 where "core_new_agg (sample_bar_type Renko) 0 0 = Some c0" using sample_core by blast
  then obtain a0 where a0: "renko_new (sample_bar_type Renko) 0 0 \<lparr>p_raw = 1, p_prec = 0\<rparr> = Some a0" "rk_brick_size a0 = 2"
    by (simp add: renko_new_def wrap_s_def)
  have "map (feed_sample (sample_bar_type Renko)) sample_feed = map Some sample_points"
    using sample_feed_in_order [of "sample_bar_type Renko"] by (simp add: feed_in_order_def)
  moreover have "list_all (renko_point 5 7) sample_points" "sample_points \<noteq> []"
    "sp_close (fst (hd sample_points)) = \<lparr>p_raw = 5, p_prec = 0\<rparr>" "p_raw (sp_close (fst (last sample_points))) = 6"
    by (simp_all add: sample_points_def sample_point_def renko_point_def sample_ok_def tick_sample_def)
  moreover have "PRICE_RAW_MIN \<le> 5" "7 \<le> PRICE_RAW_MAX" "total_size (map fst sample_points) \<le> u128_max"
    by (simp_all add: PRICE_RAW_MIN_def PRICE_RAW_MAX_def sample_total u128_max_def)
  ultimately show ?thesis
    using renko_bars_follow_price [OF a0(1), of sample_feed sample_points 5 7] a0 by auto
qed

end
