(* ===== verification/Own_Book.thy ===== *)
theory Own_Book
  imports Order_Any
begin

text \<open>
  The book of own orders (\<open>crates/model/src/orderbook/own.rs\<close>), and the way the cache keeps it in step
  with the orders (\<open>crates/common/src/cache/mod.rs\<close>, \<open>update_own_order_book\<close>).

  A side is a tree from price to level with a cache from client order identifier to price, like the ladder of a
  market book; but its operations report a missing order as an error, and adding does not look at the size.
  \<open>own_inv\<close> is kept by every operation, and one side of the book meets the contract \<open>order_store\<close>.
\<close>

record own_order =
  oo_trader_id :: string
  oo_client_order_id :: string
  oo_venue_order_id :: "string option"
  oo_side :: order_side_specified
  oo_price :: price
  oo_size :: quantity
  oo_order_type :: order_type
  oo_time_in_force :: time_in_force
  oo_status :: order_status
  oo_ts_last :: u64
  oo_ts_accepted :: u64
  oo_ts_submitted :: u64
  oo_ts_init :: u64

definition oo_book_price :: "own_order \<Rightarrow> book_price" where
  "oo_book_price ord = \<lparr>bp_value = oo_price ord, bp_side = oo_side ord\<rparr>"

section \<open>Levels\<close>

record own_level =
  ol_price :: book_price
  ol_orders :: "(string, own_order) index_map"

definition ol_from_order :: "own_order \<Rightarrow> own_level" where
  "ol_from_order ord = \<lparr>ol_price = oo_book_price ord, ol_orders = im_insert (oo_client_order_id ord) ord []\<rparr>"

definition ol_add :: "own_level \<Rightarrow> own_order \<Rightarrow> own_level" where
  "ol_add lev ord = lev\<lparr>ol_orders := im_insert (oo_client_order_id ord) ord (ol_orders lev)\<rparr>"

text \<open>Assigning to an index of an absent key is a panic.\<close>

definition ol_update :: "own_level \<Rightarrow> own_order \<Rightarrow> own_level panics" where
  "ol_update lev ord =
     (if quantity_is_zero (oo_size ord) then Some (lev\<lparr>ol_orders := shift_remove (oo_client_order_id ord) (ol_orders lev)\<rparr>)
      else if im_get (ol_orders lev) (oo_client_order_id ord) = None then None
      else Some (lev\<lparr>ol_orders := im_insert (oo_client_order_id ord) ord (ol_orders lev)\<rparr>))"

datatype own_error = NotInCache string | NotInLevel string | NotForDelete string

definition ol_delete :: "own_level \<Rightarrow> string \<Rightarrow> (own_error + unit) \<times> own_level" where
  "ol_delete lev oid =
     (if im_get (ol_orders lev) oid = None then (Inl (NotForDelete oid), lev)
      else (Inr (), lev\<lparr>ol_orders := shift_remove oid (ol_orders lev)\<rparr>))"

section \<open>One side\<close>

record own_ladder =
  od_side :: order_side_specified
  od_levels :: "(book_price, own_level) btree_map"
  od_cache :: "string \<rightharpoonup> book_price"

text \<open>Access to the tree, with the panic of a comparison of two sides.\<close>

definition own_cross :: "(book_price, own_level) btree_map \<Rightarrow> book_price \<Rightarrow> bool" where
  "own_cross m k = (case m of [] \<Rightarrow> False | (j, _) # _ \<Rightarrow> book_price_cmp k j = None)"

definition own_get :: "(book_price, own_level) btree_map \<Rightarrow> book_price \<Rightarrow> own_level option panics" where
  "own_get m k = (if own_cross m k then None else Some (bt_get rank m k))"

definition own_put ::
  "book_price \<Rightarrow> own_level \<Rightarrow> (book_price, own_level) btree_map \<Rightarrow> (book_price, own_level) btree_map panics" where
  "own_put k l m = (if own_cross m k then None else Some (bt_insert rank k l m))"

definition own_del :: "book_price \<Rightarrow> (book_price, own_level) btree_map \<Rightarrow> (book_price, own_level) btree_map panics" where
  "own_del k m = (if own_cross m k then None else Some (bt_remove rank k m))"

definition own_ladder_new :: "order_side_specified \<Rightarrow> own_ladder" where
  "own_ladder_new side = \<lparr>od_side = side, od_levels = [], od_cache = Map.empty\<rparr>"

definition own_ladder_clear :: "own_ladder \<Rightarrow> own_ladder" where
  "own_ladder_clear l = l\<lparr>od_levels := [], od_cache := Map.empty\<rparr>"

definition own_ladder_add :: "own_ladder \<Rightarrow> own_order \<Rightarrow> own_ladder panics" where
  "own_ladder_add l ord = do {
     let bp = oo_book_price ord;
     found \<leftarrow> own_get (od_levels l) bp;
     levels \<leftarrow> (case found of
         Some lev \<Rightarrow> own_put bp (ol_add lev ord) (od_levels l)
       | None \<Rightarrow> own_put bp (ol_from_order ord) (od_levels l));
     Some (l\<lparr>od_levels := levels, od_cache := (od_cache l)(oo_client_order_id ord \<mapsto> bp)\<rparr>)
   }"

text \<open>The level at \<open>price\<close> after it changed to \<open>lev\<close>: removed when it is empty.\<close>

definition own_settle :: "book_price \<Rightarrow> own_level \<Rightarrow> (book_price, own_level) btree_map \<Rightarrow> (book_price, own_level) btree_map panics" where
  "own_settle bp lev m = (if ol_orders lev = [] then own_del bp m else own_put bp lev m)"

definition own_ladder_update :: "own_ladder \<Rightarrow> own_order \<Rightarrow> ((own_error + unit) \<times> own_ladder) panics" where
  "own_ladder_update l ord =
     (let oid = oo_client_order_id ord
      in case od_cache l oid of
        None \<Rightarrow> Some (Inl (NotInCache oid), l)
      | Some bp \<Rightarrow> do {
          found \<leftarrow> own_get (od_levels l) bp;
          (case found of
             None \<Rightarrow> Some (Inl (NotInLevel oid), l)
           | Some lev \<Rightarrow>
               if p_raw (oo_price ord) = p_raw (bp_value (ol_price lev)) then do {
                 lev' \<leftarrow> ol_update lev ord;
                 if quantity_is_zero (oo_size ord) then do {
                   levels \<leftarrow> own_settle bp lev' (od_levels l);
                   Some (Inr (), l\<lparr>od_levels := levels, od_cache := (od_cache l)(oid := None)\<rparr>)
                 }
                 else do {
                   levels \<leftarrow> own_put bp lev' (od_levels l);
                   Some (Inr (), l\<lparr>od_levels := levels\<rparr>)
                 }
               }
               else (case ol_delete lev oid of
                   (Inl e, _) \<Rightarrow> Some (Inl e, l)
                 | (Inr _, lev') \<Rightarrow> do {
                     levels \<leftarrow> own_settle bp lev' (od_levels l);
                     l' \<leftarrow> own_ladder_add (l\<lparr>od_levels := levels, od_cache := (od_cache l)(oid := None)\<rparr>) ord;
                     Some (Inr (), l')
                   }))
        })"

definition own_ladder_remove :: "own_ladder \<Rightarrow> string \<Rightarrow> ((own_error + unit) \<times> own_ladder) panics" where
  "own_ladder_remove l oid =
     (case od_cache l oid of
        None \<Rightarrow> Some (Inl (NotInCache oid), l)
      | Some bp \<Rightarrow> do {
          found \<leftarrow> own_get (od_levels l) bp;
          (case found of
             None \<Rightarrow> Some (Inl (NotInLevel oid), l)
           | Some lev \<Rightarrow>
               (case ol_delete lev oid of
                  (Inl e, _) \<Rightarrow> Some (Inl e, l)
                | (Inr _, lev') \<Rightarrow> do {
                    levels \<leftarrow> own_settle bp lev' (od_levels l);
                    Some (Inr (), l\<lparr>od_levels := levels, od_cache := (od_cache l)(oid := None)\<rparr>)
                  }))
        })"

definition own_ladder_delete :: "own_ladder \<Rightarrow> own_order \<Rightarrow> ((own_error + unit) \<times> own_ladder) panics" where
  "own_ladder_delete l ord = own_ladder_remove l (oo_client_order_id ord)"

section \<open>The invariant of a side\<close>

text \<open>The order of an identifier at a price.\<close>

definition at_price :: "(book_price, own_level) btree_map \<Rightarrow> book_price \<Rightarrow> string \<Rightarrow> own_order option" where
  "at_price m bp oid = Option.bind (bt_get rank m bp) (\<lambda>lev. im_get (ol_orders lev) oid)"

definition own_level_ok :: "order_side_specified \<Rightarrow> book_price \<Rightarrow> own_level \<Rightarrow> bool" where
  "own_level_ok side k lev \<longleftrightarrow> bp_side k = side \<and> ol_price lev = k \<and> im_wf (ol_orders lev) \<and> ol_orders lev \<noteq> [] \<and>
     (\<forall>(oid, ord) \<in> set (ol_orders lev). oo_client_order_id ord = oid \<and> oo_side ord = side \<and> p_raw (oo_price ord) = p_raw (bp_value k))"

definition own_levels_ok :: "order_side_specified \<Rightarrow> (book_price, own_level) btree_map \<Rightarrow> bool" where
  "own_levels_ok side m \<longleftrightarrow> bt_wf rank m \<and> (\<forall>(k, lev) \<in> set m. own_level_ok side k lev)"

definition own_inv :: "own_ladder \<Rightarrow> bool" where
  "own_inv l \<longleftrightarrow> own_levels_ok (od_side l) (od_levels l) \<and>
     (\<forall>oid bp. od_cache l oid = Some bp \<longrightarrow> bp_side bp = od_side l) \<and>
     (\<forall>oid bp. bp_side bp = od_side l \<longrightarrow>
        (at_price (od_levels l) bp oid \<noteq> None \<longleftrightarrow> map_option rank (od_cache l oid) = Some (rank bp)))"

definition own_orders :: "own_ladder \<Rightarrow> string \<rightharpoonup> own_order" where
  "own_orders l oid = Option.bind (od_cache l oid) (\<lambda>bp. at_price (od_levels l) bp oid)"

lemma own_levels_okD:
  assumes "own_levels_ok side m"
  shows "bt_wf rank m" "(k, lev) \<in> set m \<Longrightarrow> own_level_ok side k lev"
  using assms by (auto simp: own_levels_ok_def)

lemma own_access [simp]:
  assumes "own_levels_ok side m" "bp_side k = side"
  shows "own_get m k = Some (bt_get rank m k)" "own_put k lev m = Some (bt_insert rank k lev m)" "own_del k m = Some (bt_remove rank k m)"
proof -
  have "\<not> own_cross m k"
    using assms by (auto simp: own_cross_def own_levels_ok_def own_level_ok_def book_price_cmp_def split: list.splits)
  then show "own_get m k = Some (bt_get rank m k)" "own_put k lev m = Some (bt_insert rank k lev m)" "own_del k m = Some (bt_remove rank k m)"
    by (simp_all add: own_get_def own_put_def own_del_def)
qed

lemma own_get_level:
  assumes "own_levels_ok side m" "bt_get rank m bp = Some lev"
  shows "own_level_ok side (ol_price lev) lev" "rank (ol_price lev) = rank bp" "(ol_price lev, lev) \<in> set m"
proof -
  obtain k where k: "rank k = rank bp" "(k, lev) \<in> set m"
    using assms bt_get_iff [OF own_levels_okD(1) [OF assms(1)], of bp lev] by auto
  then have "own_level_ok side k lev" using own_levels_okD(2) [OF assms(1)] by blast
  with k show "own_level_ok side (ol_price lev) lev" "rank (ol_price lev) = rank bp" "(ol_price lev, lev) \<in> set m"
    by (auto simp: own_level_ok_def)
qed

text \<open>Replacing the level at a price, or removing it when it is empty.\<close>

definition own_replace :: "book_price \<Rightarrow> own_level \<Rightarrow> (book_price, own_level) btree_map \<Rightarrow> (book_price, own_level) btree_map" where
  "own_replace bp lev m = (if ol_orders lev = [] then bt_remove rank bp m else bt_insert rank bp lev m)"

lemma own_settle_replace: "own_levels_ok side m \<Longrightarrow> bp_side bp = side \<Longrightarrow> own_settle bp lev m = Some (own_replace bp lev m)"
  by (simp add: own_settle_def own_replace_def)

lemma at_price_replace:
  assumes "own_levels_ok side m"
  shows "at_price (own_replace bp lev m) bp' oid =
    (if rank bp' = rank bp then im_get (ol_orders lev) oid else at_price m bp' oid)"
  using assms by (auto simp: at_price_def own_replace_def bt.lookup_put bt.lookup_del own_levels_okD(1))

lemma own_replace_ok:
  assumes m: "own_levels_ok side m" and lev: "ol_orders lev \<noteq> [] \<Longrightarrow> own_level_ok side (ol_price lev) lev"
    and key: "case bt_get rank m bp of Some old \<Rightarrow> ol_price lev = ol_price old | None \<Rightarrow> ol_price lev = bp"
  shows "own_levels_ok side (own_replace bp lev m)"
proof (cases "ol_orders lev = []")
  case True
  then show ?thesis using m by (auto simp: own_replace_def own_levels_ok_def bt.invar_del set_bt_remove)
next
  case False
  note bw = own_levels_okD(1) [OF m]
  have "set (bt_insert rank bp lev m) \<subseteq> insert (ol_price lev, lev) (set m)"
  proof (cases "bt_get rank m bp")
    case None
    then show ?thesis using key set_bt_insert_absent [OF bw None] by auto
  next
    case (Some old)
    then show ?thesis using key own_get_level [OF m Some] set_bt_insert_present [OF bw, of "ol_price old" old bp lev] by auto
  qed
  then show ?thesis using False m lev bw by (fastforce simp: own_replace_def own_levels_ok_def bt.invar_put)
qed

lemma at_price_rank: "rank a = rank b \<Longrightarrow> at_price m a oid = at_price m b oid"
  by (simp add: at_price_def bt_get_rank_cong [of rank a b])

text \<open>One entry of the side changes: the order of \<open>oid\<close>, at the price of \<open>bp\<close>.\<close>

lemma own_change:
  assumes inv: "own_inv l" and bp: "bp_side bp = od_side l" and lev: "ol_orders lev \<noteq> [] \<Longrightarrow> own_level_ok (od_side l) (ol_price lev) lev"
    and key: "case bt_get rank (od_levels l) bp of Some old \<Rightarrow> ol_price lev = ol_price old | None \<Rightarrow> ol_price lev = bp"
    and others: "\<forall>i. i \<noteq> oid \<longrightarrow> im_get (ol_orders lev) i = at_price (od_levels l) bp i"
    and here: "od_cache l oid = None \<or> map_option rank (od_cache l oid) = Some (rank bp)"
    and c: "c = (od_cache l)(oid := (if im_get (ol_orders lev) oid = None then None else Some bp'))" "rank bp' = rank bp" "bp_side bp' = od_side l"
  defines "l' \<equiv> l\<lparr>od_levels := own_replace bp lev (od_levels l), od_cache := c\<rparr>"
  shows "own_inv l'" "own_orders l' = (own_orders l)(oid := im_get (ol_orders lev) oid)"
proof -
  have ok: "own_levels_ok (od_side l) (od_levels l)" and side: "\<And>i b. od_cache l i = Some b \<Longrightarrow> bp_side b = od_side l"
    and held: "\<And>i b. bp_side b = od_side l \<Longrightarrow> at_price (od_levels l) b i \<noteq> None \<longleftrightarrow> map_option rank (od_cache l i) = Some (rank b)"
    using inv by (auto simp: own_inv_def)
  note at = at_price_replace [OF ok, of bp lev]
  have "own_levels_ok (od_side l) (own_replace bp lev (od_levels l))" using own_replace_ok [OF ok lev key] .
  moreover have "at_price (own_replace bp lev (od_levels l)) b i \<noteq> None \<longleftrightarrow> map_option rank (c i) = Some (rank b)"
    if "bp_side b = od_side l" for b i
  proof (cases "i = oid")
    case True
    then show ?thesis using held [OF that, of oid] here c(1,2) by (simp add: at) auto
  next
    case False
    then have "im_get (ol_orders lev) i = at_price (od_levels l) bp i" "c i = od_cache l i" using others c(1) by simp_all
    then show ?thesis using held [OF that, of i] held [OF bp, of i] by (cases "rank b = rank bp") (simp_all only: at if_True if_False refl)
  qed
  moreover have "bp_side b = od_side l" if "c i = Some b" for i b using that side c(1,3) by (auto split: if_splits)
  ultimately show "own_inv l'" by (simp add: l'_def own_inv_def)
  show "own_orders l' = (own_orders l)(oid := im_get (ol_orders lev) oid)"
  proof
    fix i
    show "own_orders l' i = ((own_orders l)(oid := im_get (ol_orders lev) oid)) i"
    proof (cases "i = oid")
      case True
      then show ?thesis using c(1,2) by (simp add: own_orders_def l'_def at)
    next
      case False
      then have i: "im_get (ol_orders lev) i = at_price (od_levels l) bp i" "c i = od_cache l i" using others c(1) by simp_all
      show ?thesis
      proof (cases "od_cache l i")
        case (Some b)
        then show ?thesis using False i at_price_rank [of b bp "od_levels l" i]
          by (cases "rank b = rank bp") (simp_all add: own_orders_def l'_def at)
      qed (use False i in \<open>simp add: own_orders_def l'_def\<close>)
    qed
  qed
qed

lemma own_cached:
  assumes "own_inv l" "od_cache l oid = Some bp"
  obtains lev ord where "bt_get rank (od_levels l) bp = Some lev" "im_get (ol_orders lev) oid = Some ord" "own_orders l oid = Some ord"
    "own_level_ok (od_side l) (ol_price lev) lev" "rank (ol_price lev) = rank bp" "bp_side bp = od_side l" "ol_price lev = ol_price lev"
proof -
  have bp: "bp_side bp = od_side l" using assms by (auto simp: own_inv_def)
  then have "at_price (od_levels l) bp oid \<noteq> None" using assms by (auto simp: own_inv_def)
  then obtain lev ord where "bt_get rank (od_levels l) bp = Some lev" "im_get (ol_orders lev) oid = Some ord"
    by (auto simp: at_price_def bind_eq_None_conv split: bind_splits)
  moreover have "own_levels_ok (od_side l) (od_levels l)" using assms(1) by (simp add: own_inv_def)
  ultimately show ?thesis using that own_get_level assms(2) bp by (auto simp: own_orders_def at_price_def)
qed

lemma own_orders_dom: "own_inv l \<Longrightarrow> own_orders l oid = None \<longleftrightarrow> od_cache l oid = None"
  by (cases "od_cache l oid") (auto simp: own_orders_def elim: own_cached)

lemma own_level_insert:
  assumes "ol_orders lev = [] \<or> own_level_ok side (ol_price lev) lev" "bp_side (ol_price lev) = side"
    "oo_side ord = side" "p_raw (oo_price ord) = p_raw (bp_value (ol_price lev))"
  shows "own_level_ok side (ol_price lev) (ol_add lev ord)"
  using assms by (auto simp: own_level_ok_def ol_add_def im.invar_put set_im_insert)

lemma own_level_remove:
  assumes "own_level_ok side (ol_price lev) lev" "shift_remove oid (ol_orders lev) \<noteq> []"
  shows "own_level_ok side (ol_price lev) (lev\<lparr>ol_orders := shift_remove oid (ol_orders lev)\<rparr>)"
  using assms by (auto simp: own_level_ok_def im.invar_del set_shift_remove)

lemma own_ladder_add_ok:
  assumes inv: "own_inv l" and side: "oo_side ord = od_side l"
    and fresh: "\<forall>bp. od_cache l (oo_client_order_id ord) = Some bp \<longrightarrow> p_raw (bp_value bp) = p_raw (oo_price ord)"
  shows "\<exists>l'. own_ladder_add l ord = Some l' \<and> own_inv l' \<and> od_side l' = od_side l \<and>
    own_orders l' = (own_orders l)(oo_client_order_id ord \<mapsto> ord)"
proof -
  let ?bp = "oo_book_price ord" and ?oid = "oo_client_order_id ord"
  have ok: "own_levels_ok (od_side l) (od_levels l)" using inv by (simp add: own_inv_def)
  have bp: "bp_side ?bp = od_side l" using side by (simp add: oo_book_price_def)
  define lev where "lev = (case bt_get rank (od_levels l) ?bp of Some lev \<Rightarrow> ol_add lev ord | None \<Rightarrow> ol_from_order ord)"
  have get: "im_get (ol_orders lev) i = (if i = ?oid then Some ord else at_price (od_levels l) ?bp i)" for i
  proof (cases "bt_get rank (od_levels l) ?bp")
    case None
    then show ?thesis by (simp add: lev_def ol_from_order_def at_price_def im.lookup_put)
  next
    case (Some old)
    then have "im_wf (ol_orders old)" using own_get_level(1) [OF ok Some] by (simp add: own_level_ok_def)
    then show ?thesis using Some by (simp add: lev_def ol_add_def at_price_def im.lookup_put)
  qed
  have lv: "own_level_ok (od_side l) (ol_price lev) lev \<and> ol_orders lev \<noteq> [] \<and>
    (case bt_get rank (od_levels l) ?bp of Some old \<Rightarrow> ol_price lev = ol_price old | None \<Rightarrow> ol_price lev = ?bp)"
  proof (cases "bt_get rank (od_levels l) ?bp")
    case None
    have "own_level_ok (od_side l) (ol_price \<lparr>ol_price = ?bp, ol_orders = []\<rparr>) (ol_add \<lparr>ol_price = ?bp, ol_orders = []\<rparr> ord)"
      by (rule own_level_insert) (use bp side in \<open>simp_all add: oo_book_price_def\<close>)
    then show ?thesis using None by (simp_all add: lev_def ol_from_order_def ol_add_def)
  next
    case (Some old)
    note g = own_get_level [OF ok Some]
    have s: "bp_side (ol_price old) = od_side l" using g(1) by (simp add: own_level_ok_def)
    then have "p_raw (oo_price ord) = p_raw (bp_value (ol_price old))" using g(2) bp rank_eq_raw [of "ol_price old" ?bp] by (simp add: oo_book_price_def)
    then have "own_level_ok (od_side l) (ol_price old) (ol_add old ord)" using g(1) s side by (intro own_level_insert) auto
    then show ?thesis using Some by (simp_all add: lev_def ol_add_def)
  qed
  have here: "od_cache l ?oid = None \<or> map_option rank (od_cache l ?oid) = Some (rank ?bp)"
    using fresh inv bp by (auto simp: own_inv_def rank_eq_raw oo_book_price_def)
  have "own_ladder_add l ord = Some (l\<lparr>od_levels := own_replace ?bp lev (od_levels l), od_cache := (od_cache l)(?oid \<mapsto> ?bp)\<rparr>)"
    using ok bp lv by (auto simp: own_ladder_add_def Let_def own_replace_def lev_def split: option.splits)
  moreover note own_change [OF inv bp _ conjunct2 [OF conjunct2 [OF lv]] _ here, where c = "(od_cache l)(?oid \<mapsto> ?bp)" and bp' = ?bp]
  ultimately show ?thesis using get bp lv by simp
qed

text \<open>Taking the order of an identifier out of its level.\<close>

lemma own_take_out:
  assumes inv: "own_inv l" and c: "od_cache l oid = Some bp" and lev: "bt_get rank (od_levels l) bp = Some lev"
  defines "l' \<equiv> l\<lparr>od_levels := own_replace bp (lev\<lparr>ol_orders := shift_remove oid (ol_orders lev)\<rparr>) (od_levels l),
    od_cache := (od_cache l)(oid := None)\<rparr>"
  shows "own_inv l'" "own_orders l' = (own_orders l)(oid := None)"
proof -
  let ?lev = "lev\<lparr>ol_orders := shift_remove oid (ol_orders lev)\<rparr>"
  have ok: "own_levels_ok (od_side l) (od_levels l)" and bp: "bp_side bp = od_side l" using inv c by (auto simp: own_inv_def)
  note g = own_get_level [OF ok lev]
  have wf: "im_wf (ol_orders lev)" using g(1) by (simp add: own_level_ok_def)
  have get: "im_get (ol_orders ?lev) i = (if i = oid then None else at_price (od_levels l) bp i)" for i
    using lev wf by (simp add: at_price_def im.lookup_del)
  have "own_inv l' \<and> own_orders l' = (own_orders l)(oid := im_get (ol_orders ?lev) oid)"
    unfolding l'_def
    by (intro conjI; rule own_change [OF inv bp, where oid = oid and bp' = bp])
       (use g lev get c bp own_level_remove [OF g(1), of oid] in \<open>simp_all cong: if_cong\<close>)
  then show "own_inv l'" "own_orders l' = (own_orders l)(oid := None)" using get by simp_all
qed

lemma own_ladder_remove_ok:
  assumes inv: "own_inv l"
  shows "\<exists>l'. own_ladder_remove l oid = Some (if own_orders l oid = None then Inl (NotInCache oid) else Inr (), l') \<and>
    own_inv l' \<and> od_side l' = od_side l \<and> own_orders l' = (own_orders l)(oid := None)"
proof (cases "od_cache l oid")
  case None
  then show ?thesis using inv own_orders_dom [OF inv, of oid] by (auto simp: own_ladder_remove_def)
next
  case (Some bp)
  obtain lev ord where lev: "bt_get rank (od_levels l) bp = Some lev" "im_get (ol_orders lev) oid = Some ord" "own_orders l oid = Some ord"
    "bp_side bp = od_side l"
    using own_cached [OF inv Some] by metis
  have ok: "own_levels_ok (od_side l) (od_levels l)" using inv by (simp add: own_inv_def)
  show ?thesis
    using own_take_out [OF inv Some lev(1)] lev Some ok own_settle_replace [OF ok lev(4)]
    by (simp add: own_ladder_remove_def ol_delete_def)
qed

text \<open>What an update with a positive size does: the order is in the side afterwards, if its identifier was; otherwise an error.\<close>

lemma own_ladder_update_ok:
  assumes inv: "own_inv l" and side: "oo_side ord = od_side l" and size: "\<not> quantity_is_zero (oo_size ord)"
  shows "\<exists>l'. own_ladder_update l ord =
      Some (if own_orders l (oo_client_order_id ord) = None then Inl (NotInCache (oo_client_order_id ord)) else Inr (), l') \<and>
    own_inv l' \<and> od_side l' = od_side l \<and>
    own_orders l' = (if own_orders l (oo_client_order_id ord) = None then own_orders l else (own_orders l)(oo_client_order_id ord \<mapsto> ord))"
proof (cases "od_cache l (oo_client_order_id ord)")
  case None
  then show ?thesis using inv own_orders_dom [OF inv] by (auto simp: own_ladder_update_def)
next
  case (Some bp)
  let ?oid = "oo_client_order_id ord"
  obtain lev old where lev: "bt_get rank (od_levels l) bp = Some lev" "im_get (ol_orders lev) ?oid = Some old" "own_orders l ?oid = Some old"
    "own_level_ok (od_side l) (ol_price lev) lev" "rank (ol_price lev) = rank bp" "bp_side bp = od_side l"
    using own_cached [OF inv Some] by metis
  have ok: "own_levels_ok (od_side l) (od_levels l)" using inv by (simp add: own_inv_def)
  show ?thesis
  proof (cases "p_raw (oo_price ord) = p_raw (bp_value (ol_price lev))")
    case True
    let ?lev = "ol_add lev ord"
    have lv: "own_level_ok (od_side l) (ol_price lev) ?lev"
      using lev(4) side True by (intro own_level_insert) (auto simp: own_level_ok_def)
    have wf: "im_wf (ol_orders lev)" using lev(4) by (simp add: own_level_ok_def)
    have get: "im_get (ol_orders ?lev) i = (if i = ?oid then Some ord else at_price (od_levels l) bp i)" for i
      using lev(1) wf by (simp add: at_price_def ol_add_def im.lookup_put)
    have "own_inv (l\<lparr>od_levels := own_replace bp ?lev (od_levels l), od_cache := od_cache l\<rparr>) \<and>
        own_orders (l\<lparr>od_levels := own_replace bp ?lev (od_levels l), od_cache := od_cache l\<rparr>) = (own_orders l)(?oid := im_get (ol_orders ?lev) ?oid)"
      by (intro conjI; rule own_change [OF inv lev(6), where bp' = bp])
         (use lv lev get Some in \<open>auto simp: ol_add_def fun_upd_idem\<close>)
    moreover have "own_ladder_update l ord = Some (Inr (), l\<lparr>od_levels := own_replace bp ?lev (od_levels l), od_cache := od_cache l\<rparr>)"
      using Some lev True size ok by (simp add: own_ladder_update_def Let_def ol_update_def own_replace_def ol_add_def)
    ultimately show ?thesis using get lev(3) by simp
  next
    case False
    note out = own_take_out [OF inv Some lev(1)]
    have "\<exists>l'. own_ladder_add (l\<lparr>od_levels := own_replace bp (lev\<lparr>ol_orders := shift_remove ?oid (ol_orders lev)\<rparr>) (od_levels l),
        od_cache := (od_cache l)(?oid := None)\<rparr>) ord = Some l' \<and> own_inv l' \<and> od_side l' = od_side l \<and>
        own_orders l' = (own_orders l)(?oid \<mapsto> ord)"
      using own_ladder_add_ok [OF out(1), of ord] side out(2) by simp
    then show ?thesis using Some lev False ok own_settle_replace [OF ok lev(6)]
      by (auto simp: own_ladder_update_def Let_def ol_delete_def)
  qed
qed

section \<open>The contract of a side\<close>

text \<open>The cache of the platform updates an order and adds it when that fails, and ignores the error of a removal.\<close>

definition own_upsert :: "own_ladder \<Rightarrow> own_order \<Rightarrow> own_ladder panics" where
  "own_upsert l ord = do {
     (r, l') \<leftarrow> own_ladder_update l ord;
     (case r of Inr _ \<Rightarrow> Some l' | Inl _ \<Rightarrow> own_ladder_add l' ord)
   }"

definition own_forget :: "own_ladder \<Rightarrow> string \<Rightarrow> own_ladder panics" where
  "own_forget l oid = map_option snd (own_ladder_remove l oid)"

lemma own_upsert_ok:
  assumes "own_inv l" "oo_side ord = od_side l" "\<not> quantity_is_zero (oo_size ord)"
  shows "\<exists>l'. own_upsert l ord = Some l' \<and> own_inv l' \<and> od_side l' = od_side l \<and> own_orders l' = (own_orders l)(oo_client_order_id ord \<mapsto> ord)"
proof -
  obtain l' where l': "own_ladder_update l ord =
      Some (if own_orders l (oo_client_order_id ord) = None then Inl (NotInCache (oo_client_order_id ord)) else Inr (), l')" "own_inv l'"
    "od_side l' = od_side l"
    "own_orders l' = (if own_orders l (oo_client_order_id ord) = None then own_orders l else (own_orders l)(oo_client_order_id ord \<mapsto> ord))"
    using own_ladder_update_ok [OF assms] by blast
  show ?thesis
  proof (cases "own_orders l (oo_client_order_id ord) = None")
    case True
    then have "od_cache l' (oo_client_order_id ord) = None" using own_orders_dom [OF l'(2)] l'(4) by simp
    then show ?thesis using own_ladder_add_ok [OF l'(2), of ord] assms(2) l' True by (simp add: own_upsert_def)
  next
    case False
    then obtain y where "own_orders l (oo_client_order_id ord) = Some y" by auto
    then show ?thesis using l' by (simp add: own_upsert_def)
  qed
qed

interpretation own: order_store own_inv own_orders "\<lambda>l (ord :: own_order). oo_side ord = od_side l \<and> \<not> quantity_is_zero (oo_size ord)"
    oo_client_order_id own_upsert own_forget
proof unfold_locales
  fix s and x :: own_order
  assume "own_inv s" "oo_side x = od_side s \<and> \<not> quantity_is_zero (oo_size x)"
  then show "\<exists>t. own_upsert s x = Some t \<and> own_inv t \<and> own_orders t = (own_orders s)(oo_client_order_id x \<mapsto> x) \<and>
      (\<forall>y :: own_order. (oo_side y = od_side t \<and> \<not> quantity_is_zero (oo_size y)) = (oo_side y = od_side s \<and> \<not> quantity_is_zero (oo_size y)))"
    using own_upsert_ok [of s x] by auto
next
  fix s i
  assume "own_inv s"
  then show "\<exists>t. own_forget s i = Some t \<and> own_inv t \<and> own_orders t = (own_orders s)(i := None) \<and>
      (\<forall>y :: own_order. (oo_side y = od_side t \<and> \<not> quantity_is_zero (oo_size y)) = (oo_side y = od_side s \<and> \<not> quantity_is_zero (oo_size y)))"
    using own_ladder_remove_ok [of s i] by (auto simp: own_forget_def)
qed

section \<open>The book\<close>

record own_book =
  ob_own_instrument_id :: instrument_id
  ob_own_ts_last :: u64
  ob_own_update_count :: u64
  ob_own_bids :: own_ladder
  ob_own_asks :: own_ladder

definition own_book_new :: "instrument_id \<Rightarrow> own_book" where
  "own_book_new iid = \<lparr>ob_own_instrument_id = iid, ob_own_ts_last = 0, ob_own_update_count = 0,
     ob_own_bids = own_ladder_new SBuy, ob_own_asks = own_ladder_new SSell\<rparr>"

definition own_increment :: "own_book \<Rightarrow> own_order \<Rightarrow> own_book" where
  "own_increment b ord = b\<lparr>ob_own_ts_last := oo_ts_last ord, ob_own_update_count := ob_own_update_count b + 1\<rparr>"

definition own_reset :: "own_book \<Rightarrow> own_book" where
  "own_reset b = b\<lparr>ob_own_bids := own_ladder_clear (ob_own_bids b), ob_own_asks := own_ladder_clear (ob_own_asks b),
     ob_own_ts_last := 0, ob_own_update_count := 0\<rparr>"

definition own_clear :: "own_book \<Rightarrow> own_book" where
  "own_clear b = b\<lparr>ob_own_bids := own_ladder_clear (ob_own_bids b), ob_own_asks := own_ladder_clear (ob_own_asks b)\<rparr>"

definition own_add :: "own_book \<Rightarrow> own_order \<Rightarrow> own_book panics" where
  "own_add b0 ord =
     (let b = own_increment b0 ord
      in case oo_side ord of
           SBuy \<Rightarrow> map_option (\<lambda>l. b\<lparr>ob_own_bids := l\<rparr>) (own_ladder_add (ob_own_bids b) ord)
         | SSell \<Rightarrow> map_option (\<lambda>l. b\<lparr>ob_own_asks := l\<rparr>) (own_ladder_add (ob_own_asks b) ord))"

text \<open>The result of an operation on a side, with the count of updates when it is a success.\<close>

definition own_on_side ::
  "(own_ladder \<Rightarrow> own_order \<Rightarrow> ((own_error + unit) \<times> own_ladder) panics) \<Rightarrow> own_book \<Rightarrow> own_order \<Rightarrow> ((own_error + unit) \<times> own_book) panics" where
  "own_on_side f b ord = do {
     (r, b') \<leftarrow> (case oo_side ord of
         SBuy \<Rightarrow> map_option (\<lambda>(r, l). (r, b\<lparr>ob_own_bids := l\<rparr>)) (f (ob_own_bids b) ord)
       | SSell \<Rightarrow> map_option (\<lambda>(r, l). (r, b\<lparr>ob_own_asks := l\<rparr>)) (f (ob_own_asks b) ord));
     Some (r, case r of Inr _ \<Rightarrow> own_increment b' ord | Inl _ \<Rightarrow> b')
   }"

definition own_update :: "own_book \<Rightarrow> own_order \<Rightarrow> ((own_error + unit) \<times> own_book) panics" where
  "own_update b ord = own_on_side own_ladder_update b ord"

definition own_delete :: "own_book \<Rightarrow> own_order \<Rightarrow> ((own_error + unit) \<times> own_book) panics" where
  "own_delete b ord = own_on_side own_ladder_delete b ord"

definition is_order_in_book :: "own_book \<Rightarrow> string \<Rightarrow> bool" where
  "is_order_in_book b oid \<longleftrightarrow> od_cache (ob_own_asks b) oid \<noteq> None \<or> od_cache (ob_own_bids b) oid \<noteq> None"

text \<open>The audit removes the identifiers that are not open; \<open>bid_keys\<close> and \<open>ask_keys\<close> are the keys of the two caches in
  the order in which the hash maps iterate.\<close>

definition remove_closed :: "string set \<Rightarrow> string list \<Rightarrow> own_ladder \<Rightarrow> own_ladder panics" where
  "remove_closed open_ids keys l = fold_opt (\<lambda>oid l. map_option snd (own_ladder_remove l oid)) (filter (\<lambda>oid. oid \<notin> open_ids) keys) l"

definition audit_open_orders :: "string set \<Rightarrow> string list \<Rightarrow> string list \<Rightarrow> own_book \<Rightarrow> own_book panics" where
  "audit_open_orders open_ids bid_keys ask_keys b = do {
     bids \<leftarrow> remove_closed open_ids bid_keys (ob_own_bids b);
     asks \<leftarrow> remove_closed open_ids ask_keys (ob_own_asks b);
     Some (b\<lparr>ob_own_bids := bids, ob_own_asks := asks\<rparr>)
   }"

section \<open>The cache of own books\<close>

text \<open>The price of an order of each type; an order has a price when this is not \<open>None\<close>.\<close>

definition market_order_price :: "'f market_order \<Rightarrow> price option" where
  "market_order_price o1 = mo_protection_price o1"

definition limit_order_price :: "'f limit_order \<Rightarrow> price option" where
  "limit_order_price o1 = Some (lo_price o1)"

definition stop_market_order_price :: "'f stop_market_order \<Rightarrow> price option" where
  "stop_market_order_price o1 = sm_protection_price o1"

definition stop_limit_order_price :: "'f stop_limit_order \<Rightarrow> price option" where
  "stop_limit_order_price o1 = Some (sl_price o1)"

definition market_to_limit_order_price :: "'f market_to_limit_order \<Rightarrow> price option" where
  "market_to_limit_order_price o1 = ml_price o1"

definition market_if_touched_order_price :: "'f market_if_touched_order \<Rightarrow> price option" where
  "market_if_touched_order_price o1 = None"

definition limit_if_touched_order_price :: "'f limit_if_touched_order \<Rightarrow> price option" where
  "limit_if_touched_order_price o1 = Some (lt_price o1)"

definition trailing_stop_market_order_price :: "'f trailing_stop_market_order \<Rightarrow> price option" where
  "trailing_stop_market_order_price o1 = None"

definition trailing_stop_limit_order_price :: "'f trailing_stop_limit_order \<Rightarrow> price option" where
  "trailing_stop_limit_order_price o1 = Some (tl_price o1)"

lemmas order_price_defs [simp] = market_order_price_def limit_order_price_def stop_market_order_price_def stop_limit_order_price_def market_to_limit_order_price_def
  market_if_touched_order_price_def limit_if_touched_order_price_def trailing_stop_market_order_price_def trailing_stop_limit_order_price_def

fun any_price :: "'f order_any \<Rightarrow> price option" where
  "any_price (AnyMarket o1) = market_order_price o1"
| "any_price (AnyLimit o1) = limit_order_price o1"
| "any_price (AnyStopMarket o1) = stop_market_order_price o1"
| "any_price (AnyStopLimit o1) = stop_limit_order_price o1"
| "any_price (AnyMarketToLimit o1) = market_to_limit_order_price o1"
| "any_price (AnyMarketIfTouched o1) = market_if_touched_order_price o1"
| "any_price (AnyLimitIfTouched o1) = limit_if_touched_order_price o1"
| "any_price (AnyTrailingStopMarket o1) = trailing_stop_market_order_price o1"
| "any_price (AnyTrailingStopLimit o1) = trailing_stop_limit_order_price o1"

definition to_own_book_order :: "'f order_any \<Rightarrow> own_order panics" where
  "to_own_book_order x = do {
     let c = any_core x;
     side \<leftarrow> as_specified (oc_side c);
     price \<leftarrow> any_price x;
     Some \<lparr>oo_trader_id = oc_trader_id c, oo_client_order_id = oc_client_order_id c, oo_venue_order_id = oc_venue_order_id c,
       oo_side = side, oo_price = price, oo_size = oc_quantity c, oo_order_type = oc_order_type c,
       oo_time_in_force = oc_time_in_force c, oo_status = oc_status c, oo_ts_last = oc_ts_last c,
       oo_ts_accepted = (case oc_ts_accepted c of Some t \<Rightarrow> t | None \<Rightarrow> 0),
       oo_ts_submitted = (case oc_ts_submitted c of Some t \<Rightarrow> t | None \<Rightarrow> 0), oo_ts_init = oc_ts_init c\<rparr>
   }"

definition should_handle_own_book_order :: "'f order_any \<Rightarrow> bool" where
  "should_handle_own_book_order x \<longleftrightarrow> any_price x \<noteq> None \<and> oc_time_in_force (any_core x) \<noteq> Ioc \<and> oc_time_in_force (any_core x) \<noteq> Fok"

type_synonym own_books = "instrument_id \<rightharpoonup> own_book"

definition update_own_order_book :: "'f order_any \<Rightarrow> own_books \<Rightarrow> own_books panics" where
  "update_own_order_book x books =
     (if any_price x = None then Some books
      else do {
        let iid = oc_instrument_id (any_core x);
        let b = (case books iid of Some b \<Rightarrow> b | None \<Rightarrow> own_book_new iid);
        ord \<leftarrow> to_own_book_order x;
        b' \<leftarrow> (if order_is_closed (any_core x) then map_option snd (own_delete b ord)
              else do {
                (r, b1) \<leftarrow> own_update b ord;
                (case r of Inr _ \<Rightarrow> Some b1 | Inl _ \<Rightarrow> own_add b1 ord)
              });
        Some (books(iid \<mapsto> b'))
      })"

section \<open>The book as two maps\<close>

definition side_of :: "own_book \<Rightarrow> order_side_specified \<Rightarrow> own_ladder" where
  "side_of b s = (case s of SBuy \<Rightarrow> ob_own_bids b | SSell \<Rightarrow> ob_own_asks b)"

definition own_book_inv :: "own_book \<Rightarrow> bool" where
  "own_book_inv b \<longleftrightarrow> (\<forall>s. own_inv (side_of b s) \<and> od_side (side_of b s) = s)"

lemma own_inv_new: "own_inv (own_ladder_new s)" "own_orders (own_ladder_new s) = Map.empty"
  by (auto simp: own_inv_def own_ladder_new_def own_levels_ok_def at_price_def own_orders_def)

lemma own_book_new_inv: "own_book_inv (own_book_new iid)"
  by (auto simp: own_book_inv_def side_of_def own_book_new_def own_inv_new split: order_side_specified.splits)
     (simp_all add: own_ladder_new_def)

definition put_side :: "own_book \<Rightarrow> order_side_specified \<Rightarrow> own_ladder \<Rightarrow> own_book" where
  "put_side b s l = (case s of SBuy \<Rightarrow> b\<lparr>ob_own_bids := l\<rparr> | SSell \<Rightarrow> b\<lparr>ob_own_asks := l\<rparr>)"

lemma side_of_put [simp]: "side_of (put_side b s l) s' = (if s' = s then l else side_of b s')"
  by (cases s; cases s') (simp_all add: side_of_def put_side_def)

lemma side_of_increment [simp]: "side_of (own_increment b ord) s = side_of b s"
  by (cases s) (simp_all add: side_of_def own_increment_def)

lemma own_on_side_eq:
  "own_on_side f b ord = map_option (\<lambda>(r, l). (r, case r of Inr _ \<Rightarrow> own_increment (put_side b (oo_side ord) l) ord
     | Inl _ \<Rightarrow> put_side b (oo_side ord) l)) (f (side_of b (oo_side ord)) ord)"
  by (cases "oo_side ord"; cases "f (side_of b (oo_side ord)) ord")
     (auto simp: own_on_side_def side_of_def put_side_def split: sum.splits)

lemma own_add_eq:
  "own_add b ord = map_option (put_side (own_increment b ord) (oo_side ord)) (own_ladder_add (side_of b (oo_side ord)) ord)"
  by (cases "oo_side ord"; cases "own_ladder_add (side_of b (oo_side ord)) ord")
     (simp_all add: own_add_def Let_def side_of_def put_side_def own_increment_def)

text \<open>Update or else add, and delete, on the book.\<close>

lemma own_book_upsert:
  assumes "own_book_inv b" "\<not> quantity_is_zero (oo_size ord)"
  shows "\<exists>b'. Option.bind (own_update b ord) (\<lambda>(r, b1). case r of Inr _ \<Rightarrow> Some b1 | Inl _ \<Rightarrow> own_add b1 ord) = Some b' \<and>
    own_book_inv b' \<and> (\<forall>s. own_orders (side_of b' s) =
      (if s = oo_side ord then (own_orders (side_of b s))(oo_client_order_id ord \<mapsto> ord) else own_orders (side_of b s)))"
proof -
  let ?s = "oo_side ord"
  have l: "own_inv (side_of b ?s)" "?s = od_side (side_of b ?s)" using assms(1) by (auto simp: own_book_inv_def)
  obtain l' where l': "own_upsert (side_of b ?s) ord = Some l'" "own_inv l'" "od_side l' = ?s"
    "own_orders l' = (own_orders (side_of b ?s))(oo_client_order_id ord \<mapsto> ord)"
    using own_upsert_ok [OF l assms(2)] l(2) by auto
  then obtain r l1 where r: "own_ladder_update (side_of b ?s) ord = Some (r, l1)" "(case r of Inr _ \<Rightarrow> Some l1 | Inl _ \<Rightarrow> own_ladder_add l1 ord) = Some l'"
    by (auto simp: own_upsert_def bind_Some_conv)
  have "\<exists>b'. Option.bind (own_update b ord) (\<lambda>(r, b1). case r of Inr _ \<Rightarrow> Some b1 | Inl _ \<Rightarrow> own_add b1 ord) = Some b' \<and>
      (\<forall>s. side_of b' s = (if s = ?s then l' else side_of b s))"
    using r by (cases r) (auto simp: own_update_def own_on_side_eq own_add_eq)
  then show ?thesis using l' assms(1) by (auto simp: own_book_inv_def)
qed

lemma own_book_delete:
  assumes "own_book_inv b"
  shows "\<exists>r b'. own_delete b ord = Some (r, b') \<and> own_book_inv b' \<and> (\<forall>s. own_orders (side_of b' s) =
      (if s = oo_side ord then (own_orders (side_of b s))(oo_client_order_id ord := None) else own_orders (side_of b s)))"
proof -
  let ?s = "oo_side ord"
  have l: "own_inv (side_of b ?s)" "od_side (side_of b ?s) = ?s" using assms(1) by (auto simp: own_book_inv_def)
  obtain r l' where l': "own_ladder_remove (side_of b ?s) (oo_client_order_id ord) = Some (r, l')" "own_inv l'" "od_side l' = ?s"
    "own_orders l' = (own_orders (side_of b ?s))(oo_client_order_id ord := None)"
    using own_ladder_remove_ok [OF l(1), of "oo_client_order_id ord"] l(2) by auto
  have "\<exists>b'. own_delete b ord = Some (r, b') \<and> (\<forall>s. side_of b' s = (if s = ?s then l' else side_of b s))"
    using l'(1) by (cases r) (auto simp: own_delete_def own_on_side_eq own_ladder_delete_def)
  then show ?thesis using l' assms(1) by (auto simp: own_book_inv_def)
qed

section \<open>Properties\<close>

text \<open>The own orders of an instrument and side, as the cache has them.\<close>

definition own_view :: "own_books \<Rightarrow> instrument_id \<times> order_side_specified \<Rightarrow> string \<rightharpoonup> own_order" where
  "own_view books k = (case books (fst k) of None \<Rightarrow> Map.empty | Some b \<Rightarrow> own_orders (side_of b (snd k)))"

definition mirror_step ::
  "(instrument_id \<times> order_side_specified \<Rightarrow> string \<rightharpoonup> own_order) \<Rightarrow> 'f order_any \<Rightarrow> (instrument_id \<times> order_side_specified \<Rightarrow> string \<rightharpoonup> own_order)" where
  "mirror_step m x =
     (case to_own_book_order x of
        None \<Rightarrow> m
      | Some ord \<Rightarrow>
          let k = (oc_instrument_id (any_core x), oo_side ord)
          in m(k := (m k)(oo_client_order_id ord := (if order_is_closed (any_core x) then None else Some ord))))"

text \<open>An order that can be in a book: with a side, and with a quantity.\<close>

definition bookable :: "'f order_any \<Rightarrow> bool" where
  "bookable x \<longleftrightarrow> oc_side (any_core x) \<noteq> NoOrderSide \<and> \<not> quantity_is_zero (oc_quantity (any_core x))"

definition books_inv :: "own_books \<Rightarrow> bool" where
  "books_inv books \<longleftrightarrow> (\<forall>iid b. books iid = Some b \<longrightarrow> own_book_inv b)"

lemma to_own_book_order_Some:
  assumes "bookable x" "any_price x \<noteq> None"
  shows "\<exists>ord. to_own_book_order x = Some ord \<and> \<not> quantity_is_zero (oo_size ord)"
  using assms by (cases "oc_side (any_core x)") (auto simp: to_own_book_order_def Let_def bookable_def)

lemma update_own_order_book_ok:
  assumes inv: "books_inv books" and x: "any_price x \<noteq> None \<longrightarrow> bookable x"
  shows "\<exists>books'. update_own_order_book x books = Some books' \<and> books_inv books' \<and> own_view books' = mirror_step (own_view books) x"
proof (cases "any_price x")
  case None
  then have "to_own_book_order x = None" by (auto simp: to_own_book_order_def Let_def bind_eq_None_conv)
  then show ?thesis using None inv by (simp add: update_own_order_book_def mirror_step_def)
next
  case (Some p)
  let ?iid = "oc_instrument_id (any_core x)"
  define b where "b = (case books ?iid of Some b \<Rightarrow> b | None \<Rightarrow> own_book_new ?iid)"
  have b1: "own_book_inv b" using inv by (auto simp: b_def books_inv_def own_book_new_inv split: option.splits)
  have b2: "own_orders (side_of b s) = own_view books (?iid, s)" for s
    by (cases "books ?iid"; cases s) (auto simp: b_def own_view_def own_inv_new side_of_def own_book_new_def)
  obtain ord where ord: "to_own_book_order x = Some ord" "\<not> quantity_is_zero (oo_size ord)" using to_own_book_order_Some x Some by auto
  let ?v = "if order_is_closed (any_core x) then None else Some ord"
  have "\<exists>b'. (if order_is_closed (any_core x) then map_option snd (own_delete b ord)
        else Option.bind (own_update b ord) (\<lambda>(r, b1). case r of Inr _ \<Rightarrow> Some b1 | Inl _ \<Rightarrow> own_add b1 ord)) = Some b' \<and> own_book_inv b' \<and>
      (\<forall>s. own_orders (side_of b' s) = (if s = oo_side ord then (own_orders (side_of b s))(oo_client_order_id ord := ?v) else own_orders (side_of b s)))"
    using own_book_upsert [OF b1 ord(2)] own_book_delete [OF b1, of ord] by auto
  then obtain b' where b': "(if order_is_closed (any_core x) then map_option snd (own_delete b ord)
        else Option.bind (own_update b ord) (\<lambda>(r, b1). case r of Inr _ \<Rightarrow> Some b1 | Inl _ \<Rightarrow> own_add b1 ord)) = Some b'" "own_book_inv b'"
      "\<And>s. own_orders (side_of b' s) = (if s = oo_side ord then (own_orders (side_of b s))(oo_client_order_id ord := ?v) else own_orders (side_of b s))"
    by blast
  have "update_own_order_book x books = Some (books(?iid \<mapsto> b'))"
    using Some ord(1) b'(1) by (auto simp: update_own_order_book_def Let_def b_def [symmetric] bind_eq_Some_conv split: if_splits)
  moreover have "own_view (books(?iid \<mapsto> b')) = mirror_step (own_view books) x"
    using b'(3) b2 ord(1) by (auto simp: fun_eq_iff mirror_step_def own_view_def Let_def)
  ultimately show ?thesis using inv b'(2) by (auto simp: books_inv_def)
qed

text \<open>C24: The own books mirror the orders. Whatever sequence of order states the cache is given (each with a side and a quantity
  when it has a price), updating the own books does not panic, and afterwards the bids and asks of every
  instrument hold exactly the orders whose last state is not closed (\<open>is_closed\<close>), each in that state; closed orders are gone.\<close>

theorem own_books_mirror_orders:
  assumes "\<forall>x \<in> set xs. any_price x \<noteq> None \<longrightarrow> bookable x"
  shows "\<exists>books. fold_opt update_own_order_book xs Map.empty = Some books \<and> books_inv books \<and>
    own_view books = foldl mirror_step (\<lambda>_. Map.empty) xs"
proof -
  have "\<exists>books. fold_opt update_own_order_book xs bs = Some books \<and> books_inv books \<and> own_view books = foldl mirror_step (own_view bs) xs"
    if "books_inv bs" for bs
    using that assms
  proof (induction xs arbitrary: bs)
    case (Cons x xs)
    obtain bs' where s: "update_own_order_book x bs = Some bs'" "books_inv bs'" "own_view bs' = mirror_step (own_view bs) x"
      using update_own_order_book_ok [OF Cons.prems(1), of x] Cons.prems(2) by auto
    then show ?case using Cons.IH [OF s(2)] Cons.prems(2) by simp
  qed simp
  moreover have "own_view Map.empty = (\<lambda>_. Map.empty)" by (simp add: own_view_def fun_eq_iff)
  moreover have "books_inv Map.empty" by (simp add: books_inv_def)
  ultimately show ?thesis by metis
qed

theorem own_books_mirror_orders_witness:
  "\<exists>books. fold_opt update_own_order_book [AnyLimit sample_limit] Map.empty = Some books \<and> books_inv books \<and>
    own_view books = foldl mirror_step (\<lambda>_. Map.empty) [AnyLimit sample_limit]"
proof (rule own_books_mirror_orders)
  show "\<forall>x \<in> set [AnyLimit sample_limit]. any_price x \<noteq> None \<longrightarrow> bookable x"
    by (simp add: bookable_def sample_limit_def sample_core_def sample_init_def core_new_def quantity_is_zero_def
        quantity_zero_def check_fixed_precision_def FIXED_PRECISION_def)
qed

section \<open>The audit\<close>

lemma remove_closed_ok:
  assumes "own_inv l"
  shows "\<exists>l'. remove_closed open_ids keys l = Some l' \<and> own_inv l' \<and> od_side l' = od_side l \<and>
    own_orders l' = own_orders l |` (open_ids \<union> - set keys)"
  using assms
proof (induction keys arbitrary: l)
  case (Cons oid keys)
  show ?case
  proof (cases "oid \<in> open_ids")
    case True
    moreover have "open_ids \<union> - set (oid # keys) = open_ids \<union> - set keys" using True by auto
    ultimately show ?thesis using Cons.IH [OF Cons.prems] by (simp add: remove_closed_def)
  next
    case False
    obtain l1 where l1: "map_option snd (own_ladder_remove l oid) = Some l1" "own_inv l1" "od_side l1 = od_side l"
      "own_orders l1 = (own_orders l)(oid := None)"
      using own_ladder_remove_ok [OF Cons.prems, of oid] by auto
    have "(own_orders l)(oid := None) |` (open_ids \<union> - set keys) = own_orders l |` (open_ids \<union> - set (oid # keys))"
      using False by (auto simp: restrict_map_def fun_eq_iff)
    moreover have "remove_closed open_ids (oid # keys) l = remove_closed open_ids keys l1"
      using False l1(1) by (auto simp: remove_closed_def)
    ultimately show ?thesis using Cons.IH [OF l1(2)] l1(3,4) by metis
  qed
qed (auto simp: remove_closed_def restrict_map_def)

text \<open>The audit of an own book against the identifiers of the open orders succeeds, and leaves exactly the open orders of
  the book; in whatever order the hash maps list their keys.\<close>

theorem audit_keeps_open_orders:
  assumes "own_book_inv b"
    and "set bid_keys = dom (od_cache (ob_own_bids b))" "set ask_keys = dom (od_cache (ob_own_asks b))"
  shows "\<exists>b'. audit_open_orders open_ids bid_keys ask_keys b = Some b' \<and> own_book_inv b' \<and>
    (\<forall>s. own_orders (side_of b' s) = own_orders (side_of b s) |` open_ids) \<and> (\<forall>oid. is_order_in_book b' oid \<longleftrightarrow> oid \<in> open_ids \<and> is_order_in_book b oid)"
proof -
  have keep: "own_orders l |` (open_ids \<union> - dom (od_cache l)) = own_orders l |` open_ids" for l
    by (auto simp: restrict_map_def fun_eq_iff own_orders_def)
  have i: "own_inv (ob_own_bids b)" "own_inv (ob_own_asks b)" "od_side (ob_own_bids b) = SBuy" "od_side (ob_own_asks b) = SSell"
    using assms(1) by (auto simp: own_book_inv_def side_of_def split: order_side_specified.splits)
  obtain l1 l2 where l1: "remove_closed open_ids bid_keys (ob_own_bids b) = Some l1" "own_inv l1" "od_side l1 = SBuy"
      "own_orders l1 = own_orders (ob_own_bids b) |` open_ids"
    and l2: "remove_closed open_ids ask_keys (ob_own_asks b) = Some l2" "own_inv l2" "od_side l2 = SSell"
      "own_orders l2 = own_orders (ob_own_asks b) |` open_ids"
    using remove_closed_ok [OF i(1), of open_ids bid_keys] remove_closed_ok [OF i(2), of open_ids ask_keys] i(3,4) assms(2,3)
    by (auto simp: keep)
  let ?b = "b\<lparr>ob_own_bids := l1, ob_own_asks := l2\<rparr>"
  have b: "own_book_inv ?b" "\<forall>s. own_orders (side_of ?b s) = own_orders (side_of b s) |` open_ids"
    using l1 l2 by (auto simp: own_book_inv_def side_of_def split: order_side_specified.splits)
  have dom: "od_cache l oid \<noteq> None \<longleftrightarrow> own_orders l oid \<noteq> None" if "own_inv l" for l oid using own_orders_dom [OF that, of oid] by auto
  have "is_order_in_book ?b oid \<longleftrightarrow> oid \<in> open_ids \<and> is_order_in_book b oid" for oid
    using dom [OF l1(2), of oid] dom [OF l2(2), of oid] dom [OF i(1), of oid] dom [OF i(2), of oid] l1(4) l2(4)
    by (auto simp: is_order_in_book_def restrict_map_def split: if_splits)
  then show ?thesis using l1(1) l2(1) b by (intro exI [of _ ?b]) (simp add: audit_open_orders_def)
qed

theorem audit_keeps_open_orders_witness:
  "\<exists>b'. audit_open_orders {''O-1''} [] [] (own_book_new (oc_instrument_id sample_core)) = Some b' \<and> own_book_inv b' \<and>
    (\<forall>s. own_orders (side_of b' s) = own_orders (side_of (own_book_new (oc_instrument_id sample_core)) s) |` {''O-1''}) \<and>
    (\<forall>oid. is_order_in_book b' oid \<longleftrightarrow> oid \<in> {''O-1''} \<and> is_order_in_book (own_book_new (oc_instrument_id sample_core)) oid)"
  by (rule audit_keeps_open_orders [OF own_book_new_inv]) (simp_all add: own_book_new_def own_ladder_new_def)

end
