(* ===== verification/Formula_Syntax.thy ===== *)
theory Formula_Syntax
  imports Nt_Prelude "HOL-Library.Multiset"
begin

text \<open>
  The vocabulary of the formula engine of synthetic instruments (\<open>crates/model/src/expressions\<close>): value
  types and errors (\<open>mod.rs\<close>, \<open>error.rs\<close>), the names bound to input slots (\<open>mod.rs\<close>), tokens
  (\<open>lexer.rs\<close>) and syntax trees (\<open>parser.rs\<close>).

  \<open>f64\<close> is a type variable with a record of the operations that the engine uses; what is needed of them is
  \<open>f64_laws\<close>. A source text is a list of ASCII characters, in which the byte index and the index of
  a character are the same. \<open>usize\<close> values that count characters, tokens, instructions and arguments are natural numbers.
\<close>

record 'f f64_ops =
  f_zero :: 'f
  f_one :: 'f
  f_infinity :: 'f
  f_neg_infinity :: 'f
  f_neg :: "'f \<Rightarrow> 'f"
  f_add :: "'f \<Rightarrow> 'f \<Rightarrow> 'f"
  f_sub :: "'f \<Rightarrow> 'f \<Rightarrow> 'f"
  f_mul :: "'f \<Rightarrow> 'f \<Rightarrow> 'f"
  f_div :: "'f \<Rightarrow> 'f \<Rightarrow> 'f"
  f_rem :: "'f \<Rightarrow> 'f \<Rightarrow> 'f"
  f_powf :: "'f \<Rightarrow> 'f \<Rightarrow> 'f"
  f_eq :: "'f \<Rightarrow> 'f \<Rightarrow> bool"
  f_lt :: "'f \<Rightarrow> 'f \<Rightarrow> bool"
  f_le :: "'f \<Rightarrow> 'f \<Rightarrow> bool"
  f_gt :: "'f \<Rightarrow> 'f \<Rightarrow> bool"
  f_ge :: "'f \<Rightarrow> 'f \<Rightarrow> bool"
  f_abs :: "'f \<Rightarrow> 'f"
  f_ceil :: "'f \<Rightarrow> 'f"
  f_floor :: "'f \<Rightarrow> 'f"
  f_round :: "'f \<Rightarrow> 'f"
  f_min :: "'f \<Rightarrow> 'f \<Rightarrow> 'f"
  f_max :: "'f \<Rightarrow> 'f \<Rightarrow> 'f"
  f_parse :: "string \<Rightarrow> 'f option"
  f_show :: "'f \<Rightarrow> string"

text \<open>What the encoding of booleans relies on: the comparison of the two constants 0.0 and 1.0.\<close>

definition f64_laws :: "'f f64_ops \<Rightarrow> bool" where
  "f64_laws F \<longleftrightarrow> f_eq F (f_zero F) (f_zero F) \<and> f_eq F (f_one F) (f_one F) \<and>
     \<not> f_eq F (f_zero F) (f_one F) \<and> \<not> f_eq F (f_one F) (f_zero F)"

lemma f64_lawsD:
  assumes "f64_laws F"
  shows "f_eq F (f_zero F) (f_zero F)" "f_eq F (f_one F) (f_one F)" "\<not> f_eq F (f_zero F) (f_one F)" "\<not> f_eq F (f_one F) (f_zero F)"
  using assms by (simp_all add: f64_laws_def)

section \<open>Value types and errors\<close>

datatype value_type = TyNumber | TyBool | TyEmpty

datatype expression_error =
    EmptyExpression
  | EmptyBindingName
  | UnexpectedCharacter char nat
  | UnexpectedToken string string nat
  | UnterminatedBlockComment nat
  | MissingClosingParen nat
  | UnknownSymbol string
  | UnknownFunction string
  | DuplicateBinding string nat nat
  | InvalidArgumentCount string string nat
  | TypeMismatch string value_type value_type
  | BinaryTypeMismatch string value_type value_type
  | InputCountMismatch nat nat
  | StackOverflow nat nat
  | TooManyLocals nat nat
  | EmptyResult
  | NonNumericResult value_type

text \<open>Decimal digits of a number (\<open>to_string\<close>).\<close>

fun show_nat :: "nat \<Rightarrow> string" where
  "show_nat n = (if n < 10 then [char_of (48 + n)] else show_nat (n div 10) @ [char_of (48 + n mod 10)])"

declare show_nat.simps [simp del]

section \<open>Characters\<close>

definition is_ascii_digit :: "char \<Rightarrow> bool" where
  "is_ascii_digit c \<longleftrightarrow> 48 \<le> (of_char c :: nat) \<and> (of_char c :: nat) \<le> 57"

definition is_ascii_alphabetic :: "char \<Rightarrow> bool" where
  "is_ascii_alphabetic c \<longleftrightarrow> 65 \<le> (of_char c :: nat) \<and> (of_char c :: nat) \<le> 90 \<or> 97 \<le> (of_char c :: nat) \<and> (of_char c :: nat) \<le> 122"

definition is_whitespace :: "char \<Rightarrow> bool" where
  "is_whitespace c \<longleftrightarrow> 9 \<le> (of_char c :: nat) \<and> (of_char c :: nat) \<le> 13 \<or> (of_char c :: nat) = 32"

definition is_ident_start :: "char \<Rightarrow> bool" where
  "is_ident_start c \<longleftrightarrow> c = CHR ''_'' \<or> is_ascii_alphabetic c"

definition is_ident_continue :: "char \<Rightarrow> bool" where
  "is_ident_continue c \<longleftrightarrow> c = CHR ''_'' \<or> is_ascii_alphabetic c \<or> is_ascii_digit c"

fun is_plain_identifier :: "string \<Rightarrow> bool" where
  "is_plain_identifier [] = False"
| "is_plain_identifier (c # cs) = (is_ident_start c \<and> list_all is_ident_continue cs)"

section \<open>Bindings\<close>

record special_binding =
  sb_name :: string
  sb_slot :: nat

record bindings =
  b_plain :: "string \<rightharpoonup> nat"
  b_special :: "char \<rightharpoonup> special_binding list"
  b_max_slot_plus_one :: nat

definition bindings_new :: bindings where
  "bindings_new = \<lparr>b_plain = Map.empty, b_special = Map.empty, b_max_slot_plus_one = 0\<rparr>"

definition resolve_plain :: "bindings \<Rightarrow> string \<Rightarrow> nat option" where
  "resolve_plain b name = b_plain b name"

definition special_candidates :: "bindings \<Rightarrow> char \<Rightarrow> special_binding list option" where
  "special_candidates b c = b_special b c"

definition input_len :: "bindings \<Rightarrow> nat" where
  "input_len b = b_max_slot_plus_one b"

text \<open>The order of the special names: longer ones first, and by their bytes among those of a length.\<close>

fun bytes_le :: "string \<Rightarrow> string \<Rightarrow> bool" where
  "bytes_le [] _ = True"
| "bytes_le (_ # _) [] = False"
| "bytes_le (a # as) (b # bs) \<longleftrightarrow> (of_char a :: nat) < of_char b \<or> a = b \<and> bytes_le as bs"

definition special_before :: "special_binding \<Rightarrow> special_binding \<Rightarrow> bool" where
  "special_before x y \<longleftrightarrow> length (sb_name y) < length (sb_name x) \<or>
     length (sb_name x) = length (sb_name y) \<and> bytes_le (sb_name x) (sb_name y)"

fun insert_special :: "special_binding \<Rightarrow> special_binding list \<Rightarrow> special_binding list" where
  "insert_special x [] = [x]"
| "insert_special x (y # ys) = (if special_before x y then x # y # ys else y # insert_special x ys)"

definition sort_specials :: "special_binding list \<Rightarrow> special_binding list" where
  "sort_specials xs = foldr insert_special xs []"

definition add_name :: "bindings \<Rightarrow> nat \<Rightarrow> string \<Rightarrow> (expression_error + unit) \<times> bindings" where
  "add_name b0 slot name =
     (let b = b0\<lparr>b_max_slot_plus_one := max (b_max_slot_plus_one b0) (wrap_u 64 (slot + 1))\<rparr>
      in if is_plain_identifier name then
           (case b_plain b name of
              Some existing \<Rightarrow> (if existing \<noteq> slot then Inl (DuplicateBinding name existing slot) else Inr (), b)
            | None \<Rightarrow> (Inr (), b\<lparr>b_plain := (b_plain b)(name \<mapsto> slot)\<rparr>))
         else (case name of
              [] \<Rightarrow> (Inl EmptyBindingName, b)
            | first # _ \<Rightarrow>
                let entries = (case b_special b first of None \<Rightarrow> [] | Some es \<Rightarrow> es)
                in case find (\<lambda>entry. sb_name entry = name) entries of
                     Some existing \<Rightarrow>
                       (if sb_slot existing \<noteq> slot then Inl (DuplicateBinding name (sb_slot existing) slot) else Inr (), b\<lparr>b_special := (b_special b)(first \<mapsto> entries)\<rparr>)
                   | None \<Rightarrow> (Inr (), b\<lparr>b_special := (b_special b)(first \<mapsto> sort_specials (entries @ [\<lparr>sb_name = name, sb_slot = slot\<rparr>]))\<rparr>)))"

definition bindings_add :: "bindings \<Rightarrow> nat \<Rightarrow> string \<Rightarrow> (expression_error + unit) \<times> bindings" where
  "bindings_add b slot name = add_name b slot name"

definition add_alias :: "bindings \<Rightarrow> nat \<Rightarrow> string \<Rightarrow> (expression_error + unit) \<times> bindings" where
  "add_alias b slot alias = add_name b slot alias"

section \<open>Tokens and syntax trees\<close>

datatype 'f token_kind =
    TNumber 'f | TBool bool | TIdent string | TBinding nat
  | TLeftParen | TRightParen | TComma | TSemicolon | TAssign
  | TPlus | TMinus | TStar | TSlash | TPercent | TCaret | TBang
  | TEqualEqual | TBangEqual | TLess | TLessEqual | TGreater | TGreaterEqual | TAndAnd | TOrOr | TEof

record 'f token =
  t_kind :: "'f token_kind"
  t_position :: nat

fun description :: "'f f64_ops \<Rightarrow> 'f token_kind \<Rightarrow> string" where
  "description F (TNumber v) = f_show F v"
| "description F (TBool v) = (if v then ''true'' else ''false'')"
| "description F (TIdent name) = name"
| "description F (TBinding slot) = ''binding['' @ show_nat slot @ '']''"
| "description F TLeftParen = ''(''"
| "description F TRightParen = '')''"
| "description F TComma = '',''"
| "description F TSemicolon = '';''"
| "description F TAssign = ''=''"
| "description F TPlus = ''+''"
| "description F TMinus = ''-''"
| "description F TStar = ''*''"
| "description F TSlash = ''/''"
| "description F TPercent = ''%''"
| "description F TCaret = ''^''"
| "description F TBang = ''!''"
| "description F TEqualEqual = ''==''"
| "description F TBangEqual = ''!=''"
| "description F TLess = ''<''"
| "description F TLessEqual = ''<=''"
| "description F TGreater = ''>''"
| "description F TGreaterEqual = ''>=''"
| "description F TAndAnd = ''&&''"
| "description F TOrOr = ''||''"
| "description F TEof = ''end of input''"

datatype unary_op = UNeg | UNot

datatype binary_op = OAdd | OSub | OMul | ODiv | OMod | OPow | OEq | ONeq | OLt | OLe | OGt | OGe | OAnd | OOr

datatype 'f expr =
    ENumber 'f
  | EBool bool
  | EName string
  | EInput nat
  | EUnary unary_op "'f expr"
  | EBinary "'f expr" binary_op "'f expr"
  | ECall string "'f expr list"

datatype 'f statement = SAssign string "'f expr" | SExpr "'f expr"

record 'f program =
  pr_statements :: "'f statement list"
  pr_trailing_semicolon :: bool

section \<open>The invariant of the bindings\<close>

text \<open>Every slot is below the length of the inputs; a special name is listed under its first character, with the
  longest names first.\<close>

definition specials_ok :: "nat \<Rightarrow> char \<Rightarrow> special_binding list \<Rightarrow> bool" where
  "specials_ok n c es \<longleftrightarrow> sorted_wrt (\<lambda>x y. length (sb_name y) \<le> length (sb_name x)) es \<and>
     (\<forall>e \<in> set es. sb_slot e < n \<and> sb_name e \<noteq> [] \<and> hd (sb_name e) = c)"

definition bindings_ok :: "bindings \<Rightarrow> bool" where
  "bindings_ok b \<longleftrightarrow> (\<forall>name slot. b_plain b name = Some slot \<longrightarrow> slot < b_max_slot_plus_one b) \<and>
     (\<forall>c es. b_special b c = Some es \<longrightarrow> specials_ok (b_max_slot_plus_one b) c es)"

lemma mset_insert_special: "mset (insert_special x ys) = add_mset x (mset ys)"
  by (induction ys) auto

lemma mset_sort_specials: "mset (sort_specials xs) = mset xs"
  by (induction xs) (simp_all add: sort_specials_def mset_insert_special)

lemma set_sort_specials [simp]: "set (sort_specials xs) = set xs"
  using mset_sort_specials [of xs] by (metis set_mset_mset)

lemma set_insert_special [simp]: "set (insert_special x ys) = insert x (set ys)"
  using mset_insert_special [of x ys] by (metis set_mset_add_mset_insert set_mset_mset)

lemma sort_specials_by_length: "sorted_wrt (\<lambda>x y. length (sb_name y) \<le> length (sb_name x)) (sort_specials xs)"
proof -
  have "sorted_wrt (\<lambda>x y. length (sb_name y) \<le> length (sb_name x)) (insert_special x ys)"
    if "sorted_wrt (\<lambda>x y. length (sb_name y) \<le> length (sb_name x)) ys" for x ys
    using that by (induction ys) (fastforce simp: special_before_def)+
  then show ?thesis by (induction xs) (simp_all add: sort_specials_def)
qed

lemma specials_ok_mono: "specials_ok n c es \<Longrightarrow> n \<le> m \<Longrightarrow> specials_ok m c es"
  by (fastforce simp: specials_ok_def)

lemma bindings_new_ok: "bindings_ok bindings_new"
  by (simp add: bindings_ok_def bindings_new_def)

lemma add_name_ok:
  assumes ok: "bindings_ok b" and slot: "slot + 1 < 2 ^ 64"
  shows "bindings_ok (snd (add_name b slot name))"
proof -
  define n where "n = max (b_max_slot_plus_one b) (Suc slot)"
  have w: "max (b_max_slot_plus_one b) (wrap_u 64 (Suc slot)) = n" "slot < n" using slot by (simp_all add: wrap_u_id n_def)
  have sp: "specials_ok n c es" if "b_special b c = Some es" for c es
    using ok that specials_ok_mono unfolding bindings_ok_def n_def by (metis max.cobounded1)
  have pl: "s < n" if "b_plain b x = Some s" for x s
    using ok that by (auto simp: bindings_ok_def less_max_iff_disj n_def)
  have ins: "specials_ok n c (sort_specials (es @ [\<lparr>sb_name = c # cs, sb_slot = slot\<rparr>]))" if "specials_ok n c es" for c cs es
    using that sort_specials_by_length w(2) by (auto simp: specials_ok_def)
  have nil: "specials_ok n c []" for c by (simp add: specials_ok_def)
  show ?thesis
    using sp pl ins ins [OF nil] nil w(2)
    by (auto simp: add_name_def bindings_ok_def Let_def w(1) split: option.splits list.splits if_splits)
qed

text \<open>The bindings that a sequence of additions makes, with or without errors.\<close>

inductive bindings_made :: "bindings \<Rightarrow> bool" where
  made_new: "bindings_made bindings_new"
| made_add: "bindings_made b \<Longrightarrow> slot + 1 < 2 ^ 64 \<Longrightarrow> bindings_made (snd (bindings_add b slot name))"
| made_alias: "bindings_made b \<Longrightarrow> slot + 1 < 2 ^ 64 \<Longrightarrow> bindings_made (snd (add_alias b slot name))"

lemma bindings_made_ok: "bindings_made b \<Longrightarrow> bindings_ok b"
  by (induction rule: bindings_made.induct) (simp_all add: bindings_new_ok bindings_add_def add_alias_def add_name_ok)

end
