(* ===== verification/Formula_Machine.thy ===== *)
theory Formula_Machine
  imports Formula_Syntax
begin

text \<open>
  The compiler of formulas and the machine that runs the code (\<open>crates/model/src/expressions/eval.rs\<close>).

  The machine has a stack of 32 and locals of 16 cells, and a program counter that jumps. A cell out of range is a
  panic (\<open>None\<close>); whether the loop returns is not taken for granted: \<open>vm_run\<close> is a partial
  function of which the outer \<open>None\<close> is a run that does not end. The counters wrap around at 64 bits when they are decreased.

  Every method of the compiler takes the compilation of its subexpressions as an argument, so that the functions have the
  cut of the source; \<open>compile_expr\<close> ties the knot.
\<close>

section \<open>Instructions\<close>

definition MAX_STACK :: nat where "MAX_STACK = 32"
definition MAX_LOCALS :: nat where "MAX_LOCALS = 16"

datatype unary_instruction = INeg | INot

datatype binary_instruction = IAdd | ISub | IMul | IDiv | IMod | IPow | IEq | INeq | ILt | ILe | IGt | IGe | IAnd | IOr

datatype builtin = BAbs | BCeil | BFloor | BRound | BMin | BMax | BIf

datatype 'f instruction =
    PushNumber 'f
  | PushBool bool
  | LoadInput nat
  | LoadLocal nat
  | StoreLocal nat
  | IPop
  | IUnary unary_instruction
  | IBinary binary_instruction
  | Jump nat
  | JumpIfFalse nat
  | JumpIfFalsePeek nat
  | JumpIfTruePeek nat
  | ICall builtin nat

definition builtin_from_name :: "string \<Rightarrow> builtin option" where
  "builtin_from_name name =
     (if name = ''abs'' then Some BAbs else if name = ''ceil'' then Some BCeil else if name = ''floor'' then Some BFloor
      else if name = ''round'' then Some BRound else if name = ''min'' then Some BMin else if name = ''max'' then Some BMax
      else if name = ''if'' then Some BIf else None)"

fun builtin_name :: "builtin \<Rightarrow> string" where
  "builtin_name BAbs = ''abs''"
| "builtin_name BCeil = ''ceil''"
| "builtin_name BFloor = ''floor''"
| "builtin_name BRound = ''round''"
| "builtin_name BMin = ''min''"
| "builtin_name BMax = ''max''"
| "builtin_name BIf = ''if''"

definition f_of_bool :: "'f f64_ops \<Rightarrow> bool \<Rightarrow> 'f" where
  "f_of_bool F v = (if v then f_one F else f_zero F)"

fun eval_unary_fast :: "'f f64_ops \<Rightarrow> unary_instruction \<Rightarrow> 'f \<Rightarrow> 'f" where
  "eval_unary_fast F INeg v = f_neg F v"
| "eval_unary_fast F INot v = f_of_bool F (f_eq F v (f_zero F))"

fun eval_binary_fast :: "'f f64_ops \<Rightarrow> binary_instruction \<Rightarrow> 'f \<Rightarrow> 'f \<Rightarrow> 'f" where
  "eval_binary_fast F IAdd l r = f_add F l r"
| "eval_binary_fast F ISub l r = f_sub F l r"
| "eval_binary_fast F IMul l r = f_mul F l r"
| "eval_binary_fast F IDiv l r = f_div F l r"
| "eval_binary_fast F IMod l r = f_rem F l r"
| "eval_binary_fast F IPow l r = f_powf F l r"
| "eval_binary_fast F IEq l r = f_of_bool F (f_eq F l r)"
| "eval_binary_fast F INeq l r = f_of_bool F (\<not> f_eq F l r)"
| "eval_binary_fast F ILt l r = f_of_bool F (f_lt F l r)"
| "eval_binary_fast F ILe l r = f_of_bool F (f_le F l r)"
| "eval_binary_fast F IGt l r = f_of_bool F (f_gt F l r)"
| "eval_binary_fast F IGe l r = f_of_bool F (f_ge F l r)"
| "eval_binary_fast F IAnd l r = f_of_bool F (\<not> f_eq F l (f_zero F) \<and> \<not> f_eq F r (f_zero F))"
| "eval_binary_fast F IOr l r = f_of_bool F (\<not> f_eq F l (f_zero F) \<or> \<not> f_eq F r (f_zero F))"

fun eval_builtin_fast :: "'f f64_ops \<Rightarrow> builtin \<Rightarrow> 'f list \<Rightarrow> 'f panics" where
  "eval_builtin_fast F BAbs args = map_option (f_abs F) (index_get args 0)"
| "eval_builtin_fast F BCeil args = map_option (f_ceil F) (index_get args 0)"
| "eval_builtin_fast F BFloor args = map_option (f_floor F) (index_get args 0)"
| "eval_builtin_fast F BRound args = map_option (f_round F) (index_get args 0)"
| "eval_builtin_fast F BMin args = Some (foldl (f_min F) (f_infinity F) args)"
| "eval_builtin_fast F BMax args = Some (foldl (f_max F) (f_neg_infinity F) args)"
| "eval_builtin_fast F BIf args = do {
     c \<leftarrow> index_get args 0;
     if f_eq F c (f_zero F) then index_get args 2 else index_get args 1
   }"

section \<open>The machine\<close>

record 'f vm =
  vm_stack :: "'f list"
  vm_sp :: nat
  vm_locals :: "'f list"
  vm_pc :: nat

record 'f compiled_expression =
  ce_code :: "'f instruction list"
  ce_input_len :: nat
  ce_result_type :: value_type

definition vm_next :: "'f vm \<Rightarrow> 'f vm" where
  "vm_next m = m\<lparr>vm_pc := vm_pc m + 1\<rparr>"

definition vm_push :: "'f vm \<Rightarrow> 'f \<Rightarrow> 'f vm panics" where
  "vm_push m v = map_option (\<lambda>s. m\<lparr>vm_stack := s, vm_sp := vm_sp m + 1\<rparr>) (index_put (vm_stack m) (vm_sp m) v)"

fun vm_exec :: "'f f64_ops \<Rightarrow> 'f list \<Rightarrow> 'f instruction \<Rightarrow> 'f vm \<Rightarrow> 'f vm panics" where
  "vm_exec F inputs (PushNumber v) m = map_option vm_next (vm_push m v)"
| "vm_exec F inputs (PushBool v) m = map_option vm_next (vm_push m (f_of_bool F v))"
| "vm_exec F inputs (LoadInput slot) m = do { v \<leftarrow> index_get inputs slot; map_option vm_next (vm_push m v) }"
| "vm_exec F inputs (LoadLocal slot) m = do { v \<leftarrow> index_get (vm_locals m) slot; map_option vm_next (vm_push m v) }"
| "vm_exec F inputs (StoreLocal slot) m = do {
     let sp = usize_sub (vm_sp m) 1;
     v \<leftarrow> index_get (vm_stack m) sp;
     ls \<leftarrow> index_put (vm_locals m) slot v;
     Some (vm_next (m\<lparr>vm_sp := sp, vm_locals := ls\<rparr>))
   }"
| "vm_exec F inputs IPop m = Some (vm_next (m\<lparr>vm_sp := usize_sub (vm_sp m) 1\<rparr>))"
| "vm_exec F inputs (IUnary u) m = do {
     top \<leftarrow> index_get (vm_stack m) (usize_sub (vm_sp m) 1);
     s \<leftarrow> index_put (vm_stack m) (usize_sub (vm_sp m) 1) (eval_unary_fast F u top);
     Some (vm_next (m\<lparr>vm_stack := s\<rparr>))
   }"
| "vm_exec F inputs (IBinary bo) m = do {
     let sp = usize_sub (vm_sp m) 1;
     right \<leftarrow> index_get (vm_stack m) sp;
     left \<leftarrow> index_get (vm_stack m) (usize_sub sp 1);
     s \<leftarrow> index_put (vm_stack m) (usize_sub sp 1) (eval_binary_fast F bo left right);
     Some (vm_next (m\<lparr>vm_stack := s, vm_sp := sp\<rparr>))
   }"
| "vm_exec F inputs (Jump target) m = Some (m\<lparr>vm_pc := target\<rparr>)"
| "vm_exec F inputs (JumpIfFalse target) m = do {
     let sp = usize_sub (vm_sp m) 1;
     v \<leftarrow> index_get (vm_stack m) sp;
     Some (if f_eq F v (f_zero F) then m\<lparr>vm_sp := sp, vm_pc := target\<rparr> else vm_next (m\<lparr>vm_sp := sp\<rparr>))
   }"
| "vm_exec F inputs (JumpIfFalsePeek target) m = do {
     v \<leftarrow> index_get (vm_stack m) (usize_sub (vm_sp m) 1);
     Some (if f_eq F v (f_zero F) then m\<lparr>vm_pc := target\<rparr> else vm_next m)
   }"
| "vm_exec F inputs (JumpIfTruePeek target) m = do {
     v \<leftarrow> index_get (vm_stack m) (usize_sub (vm_sp m) 1);
     Some (if \<not> f_eq F v (f_zero F) then m\<lparr>vm_pc := target\<rparr> else vm_next m)
   }"
| "vm_exec F inputs (ICall bi argc) m = do {
     let sp = usize_sub (vm_sp m) argc;
     args \<leftarrow> slice (vm_stack m) sp (wrap_u 64 (sp + argc));
     result \<leftarrow> eval_builtin_fast F bi args;
     s \<leftarrow> index_put (vm_stack m) sp result;
     Some (vm_next (m\<lparr>vm_stack := s, vm_sp := sp + 1\<rparr>))
   }"

partial_function (option) vm_run :: "'f f64_ops \<Rightarrow> 'f instruction list \<Rightarrow> 'f list \<Rightarrow> 'f vm \<Rightarrow> 'f vm panics option" where
  "vm_run F code inputs m =
     (if vm_pc m < length code then
        (case vm_exec F inputs (code ! vm_pc m) m of
           None \<Rightarrow> Some None
         | Some m' \<Rightarrow> vm_run F code inputs m')
      else Some (Some m))"

definition vm_init :: "'f f64_ops \<Rightarrow> 'f vm" where
  "vm_init F = \<lparr>vm_stack = replicate MAX_STACK (f_zero F), vm_sp = 0, vm_locals = replicate MAX_LOCALS (f_zero F), vm_pc = 0\<rparr>"

definition eval_core :: "'f f64_ops \<Rightarrow> 'f compiled_expression \<Rightarrow> 'f list \<Rightarrow> (expression_error + 'f) panics option" where
  "eval_core F ce inputs =
     (if ce_result_type ce = TyEmpty then Some (Some (Inl EmptyResult))
      else if length inputs < ce_input_len ce then Some (Some (Inl (InputCountMismatch (ce_input_len ce) (length inputs))))
      else map_option (\<lambda>r. do {
        m \<leftarrow> r;
        if vm_sp m = 0 then Some (Inl EmptyResult)
        else map_option Inr (index_get (vm_stack m) (usize_sub (vm_sp m) 1))
      }) (vm_run F (ce_code ce) inputs (vm_init F)))"

definition eval_number :: "'f f64_ops \<Rightarrow> 'f compiled_expression \<Rightarrow> 'f list \<Rightarrow> (expression_error + 'f) panics option" where
  "eval_number F ce inputs = eval_core F ce inputs"

section \<open>The compiler\<close>

record local_info =
  li_slot :: nat
  li_value_type :: value_type

record 'f compiler =
  c_code :: "'f instruction list"
  c_locals :: "string \<rightharpoonup> local_info"
  c_next_local_slot :: nat
  c_stack_depth :: nat
  c_max_stack_depth :: nat

type_synonym 'a compile_result = "(expression_error + 'a) panics"
type_synonym 'f gen = "'f compiler \<Rightarrow> (value_type \<times> 'f compiler) compile_result"

text \<open>Sequencing: the \<open>?\<close> operator, in the presence of panics.\<close>

definition cbind :: "'a compile_result \<Rightarrow> ('a \<Rightarrow> 'b compile_result) \<Rightarrow> 'b compile_result" where
  "cbind r f = Option.bind r (\<lambda>s. case s of Inl e \<Rightarrow> Some (Inl e) | Inr x \<Rightarrow> f x)"

definition compiler_new :: "'f compiler" where
  "compiler_new = \<lparr>c_code = [], c_locals = Map.empty, c_next_local_slot = 0, c_stack_depth = 0, c_max_stack_depth = 0\<rparr>"

definition emit :: "'f instruction \<Rightarrow> 'f compiler \<Rightarrow> 'f compiler" where
  "emit i c = c\<lparr>c_code := c_code c @ [i]\<rparr>"

definition emit_jump :: "'f instruction \<Rightarrow> 'f compiler \<Rightarrow> nat \<times> 'f compiler" where
  "emit_jump i c = (length (c_code c), emit i c)"

definition patch_jump_target :: "nat \<Rightarrow> nat \<Rightarrow> 'f compiler \<Rightarrow> 'f compiler panics" where
  "patch_jump_target i target c = do {
     instr \<leftarrow> index_get (c_code c) i;
     new \<leftarrow> (case instr of
         Jump _ \<Rightarrow> Some (Jump target)
       | JumpIfFalse _ \<Rightarrow> Some (JumpIfFalse target)
       | JumpIfFalsePeek _ \<Rightarrow> Some (JumpIfFalsePeek target)
       | JumpIfTruePeek _ \<Rightarrow> Some (JumpIfTruePeek target)
       | _ \<Rightarrow> None);
     Some (c\<lparr>c_code := (c_code c)[i := new]\<rparr>)
   }"

definition c_push :: "'f compiler \<Rightarrow> 'f compiler" where
  "c_push c = c\<lparr>c_stack_depth := c_stack_depth c + 1, c_max_stack_depth := max (c_max_stack_depth c) (c_stack_depth c + 1)\<rparr>"

definition pop_n :: "nat \<Rightarrow> 'f compiler \<Rightarrow> 'f compiler" where
  "pop_n n c = c\<lparr>c_stack_depth := usize_sub (c_stack_depth c) n\<rparr>"

definition ensure_type :: "value_type \<Rightarrow> value_type \<Rightarrow> string \<Rightarrow> unit compile_result" where
  "ensure_type actual expected context = Some (if actual = expected then Inr () else Inl (TypeMismatch context expected actual))"

definition ensure_arg_count :: "string \<Rightarrow> nat \<Rightarrow> nat \<Rightarrow> unit compile_result" where
  "ensure_arg_count name actual expected = Some (if actual = expected then Inr () else Inl (InvalidArgumentCount name (show_nat expected) actual))"

definition ensure_min_arg_count :: "string \<Rightarrow> nat \<Rightarrow> nat \<Rightarrow> unit compile_result" where
  "ensure_min_arg_count name actual minimum =
     Some (if minimum \<le> actual then Inr () else Inl (InvalidArgumentCount name (''at least '' @ show_nat minimum) actual))"

fun op_context :: "binary_op \<Rightarrow> string" where
  "op_context OAdd = ''`+`''"
| "op_context OSub = ''`-`''"
| "op_context OMul = ''`*`''"
| "op_context ODiv = ''`/`''"
| "op_context OMod = ''`%`''"
| "op_context OPow = ''`^`''"
| "op_context OEq = ''`==`''"
| "op_context ONeq = ''`!=`''"
| "op_context OLt = ''`<`''"
| "op_context OLe = ''`<=`''"
| "op_context OGt = ''`>`''"
| "op_context OGe = ''`>=`''"
| "op_context OAnd = ''`&&`''"
| "op_context OOr = ''`||`''"

fun to_binary_instruction :: "binary_op \<Rightarrow> binary_instruction" where
  "to_binary_instruction OAdd = IAdd"
| "to_binary_instruction OSub = ISub"
| "to_binary_instruction OMul = IMul"
| "to_binary_instruction ODiv = IDiv"
| "to_binary_instruction OMod = IMod"
| "to_binary_instruction OPow = IPow"
| "to_binary_instruction OEq = IEq"
| "to_binary_instruction ONeq = INeq"
| "to_binary_instruction OLt = ILt"
| "to_binary_instruction OLe = ILe"
| "to_binary_instruction OGt = IGt"
| "to_binary_instruction OGe = IGe"
| "to_binary_instruction OAnd = IAnd"
| "to_binary_instruction OOr = IOr"

definition compile_leaf :: "'f instruction \<Rightarrow> value_type \<Rightarrow> 'f gen" where
  "compile_leaf i ty c = Some (Inr (ty, c_push (emit i c)))"

definition compile_name :: "bindings \<Rightarrow> string \<Rightarrow> 'f gen" where
  "compile_name b name c =
     (case c_locals c name of
        Some li \<Rightarrow> compile_leaf (LoadLocal (li_slot li)) (li_value_type li) c
      | None \<Rightarrow>
          (case resolve_plain b name of
             Some slot \<Rightarrow> compile_leaf (LoadInput slot) TyNumber c
           | None \<Rightarrow> Some (Inl (UnknownSymbol name))))"

definition compile_unary :: "unary_op \<Rightarrow> 'f gen \<Rightarrow> 'f gen" where
  "compile_unary op expr c =
     cbind (expr c) (\<lambda>(expr_type, c).
       case op of
         UNeg \<Rightarrow> cbind (ensure_type expr_type TyNumber ''unary `-`'') (\<lambda>_. Some (Inr (TyNumber, emit (IUnary INeg) c)))
       | UNot \<Rightarrow> cbind (ensure_type expr_type TyBool ''unary `!`'') (\<lambda>_. Some (Inr (TyBool, emit (IUnary INot) c))))"

definition is_arith :: "binary_op \<Rightarrow> bool" where
  "is_arith op \<longleftrightarrow> op \<in> {OAdd, OSub, OMul, ODiv, OMod, OPow}"

definition is_order :: "binary_op \<Rightarrow> bool" where
  "is_order op \<longleftrightarrow> op \<in> {OLt, OLe, OGt, OGe}"

text \<open>Operators on two numbers, with the type of the result.\<close>

definition compile_numbers :: "value_type \<Rightarrow> 'f gen \<Rightarrow> binary_op \<Rightarrow> 'f gen \<Rightarrow> 'f gen" where
  "compile_numbers ty left op right c =
     cbind (left c) (\<lambda>(left_type, c).
     cbind (right c) (\<lambda>(right_type, c).
     cbind (ensure_type left_type TyNumber (op_context op)) (\<lambda>_.
     cbind (ensure_type right_type TyNumber (op_context op)) (\<lambda>_.
       Some (Inr (ty, pop_n 1 (emit (IBinary (to_binary_instruction op)) c)))))))"

definition compile_equality :: "'f gen \<Rightarrow> binary_op \<Rightarrow> 'f gen \<Rightarrow> 'f gen" where
  "compile_equality left op right c =
     cbind (left c) (\<lambda>(left_type, c).
     cbind (right c) (\<lambda>(right_type, c).
       if left_type \<noteq> right_type then Some (Inl (BinaryTypeMismatch (op_context op) left_type right_type))
       else Some (Inr (TyBool, pop_n 1 (emit (IBinary (to_binary_instruction op)) c)))))"

text \<open>The operators that skip their right operand; \<open>jump\<close> is the instruction that skips.\<close>

definition compile_lazy :: "(nat \<Rightarrow> 'f instruction) \<Rightarrow> 'f gen \<Rightarrow> binary_op \<Rightarrow> 'f gen \<Rightarrow> 'f gen" where
  "compile_lazy jump left op right c =
     cbind (left c) (\<lambda>(left_type, c).
     cbind (ensure_type left_type TyBool (op_context op)) (\<lambda>_.
       let (jump_index, c) = emit_jump (jump (2 ^ 64 - 1)) c; c = pop_n 1 (emit IPop c) in
     cbind (right c) (\<lambda>(right_type, c).
     cbind (ensure_type right_type TyBool (op_context op)) (\<lambda>_.
       map_option (\<lambda>c. Inr (TyBool, c)) (patch_jump_target jump_index (length (c_code c)) c)))))"

definition compile_binary :: "'f gen \<Rightarrow> binary_op \<Rightarrow> 'f gen \<Rightarrow> 'f gen" where
  "compile_binary left op right =
     (if is_arith op then compile_numbers TyNumber left op right
      else if is_order op then compile_numbers TyBool left op right
      else if op = OEq \<or> op = ONeq then compile_equality left op right
      else if op = OAnd then compile_lazy JumpIfFalsePeek left op right
      else compile_lazy JumpIfTruePeek left op right)"

text \<open>The arguments of a call, from left to right, up to the first error.\<close>

fun compile_args :: "'f gen list \<Rightarrow> 'f compiler \<Rightarrow> (value_type list \<times> 'f compiler) compile_result" where
  "compile_args [] c = Some (Inr ([], c))"
| "compile_args (g # gs) c = cbind (g c) (\<lambda>(ty, c). cbind (compile_args gs c) (\<lambda>(tys, c). Some (Inr (ty # tys, c))))"

fun ensure_types :: "value_type list \<Rightarrow> value_type \<Rightarrow> string \<Rightarrow> unit compile_result" where
  "ensure_types [] expected context = Some (Inr ())"
| "ensure_types (ty # tys) expected context = cbind (ensure_type ty expected context) (\<lambda>_. ensure_types tys expected context)"

definition compile_if :: "'f gen list \<Rightarrow> 'f gen" where
  "compile_if args c =
     cbind (ensure_arg_count ''if'' (length args) 3) (\<lambda>_.
     cbind ((args ! 0) c) (\<lambda>(condition_type, c).
     cbind (ensure_type condition_type TyBool ''if'') (\<lambda>_.
       let (jump_if_false, c) = emit_jump (JumpIfFalse (2 ^ 64 - 1)) c; c = pop_n 1 c; branch_base = c_stack_depth c in
     cbind ((args ! 1) c) (\<lambda>(then_type, c).
       let (jump_end, c) = emit_jump (Jump (2 ^ 64 - 1)) c;
           c = c\<lparr>c_stack_depth := branch_base\<rparr>;
           else_start = length (c_code c) in
     cbind (map_option Inr (patch_jump_target jump_if_false else_start c)) (\<lambda>c.
     cbind ((args ! 2) c) (\<lambda>(else_type, c).
       if then_type \<noteq> else_type then Some (Inl (BinaryTypeMismatch ''if'' then_type else_type))
       else map_option (\<lambda>c. Inr (then_type, c)) (patch_jump_target jump_end (length (c_code c)) c)))))))"

definition compile_call :: "string \<Rightarrow> 'f gen list \<Rightarrow> 'f gen" where
  "compile_call name args c =
     (case builtin_from_name name of
        None \<Rightarrow> Some (Inl (UnknownFunction name))
      | Some bi \<Rightarrow>
          if bi = BIf then compile_if args c
          else cbind (compile_args args c) (\<lambda>(arg_types, c).
               cbind (if bi = BMin \<or> bi = BMax then
                        cbind (ensure_min_arg_count (builtin_name bi) (length args) 1) (\<lambda>_. ensure_types arg_types TyNumber (builtin_name bi))
                      else
                        cbind (ensure_arg_count (builtin_name bi) (length args) 1) (\<lambda>_.
                        cbind (map_option Inr (index_get arg_types 0)) (\<lambda>ty. ensure_type ty TyNumber (builtin_name bi)))) (\<lambda>_.
                 let c = emit (ICall bi (length args)) c in
                 Some (Inr (TyNumber, if 1 < length args then pop_n (length args - 1) c else c)))))"

fun compile_expr :: "bindings \<Rightarrow> 'f expr \<Rightarrow> 'f gen" where
  "compile_expr b (ENumber v) c = compile_leaf (PushNumber v) TyNumber c"
| "compile_expr b (EBool v) c = compile_leaf (PushBool v) TyBool c"
| "compile_expr b (EInput slot) c = compile_leaf (LoadInput slot) TyNumber c"
| "compile_expr b (EName name) c = compile_name b name c"
| "compile_expr b (EUnary op e) c = compile_unary op (\<lambda>c. compile_expr b e c) c"
| "compile_expr b (EBinary left op right) c = compile_binary (\<lambda>c. compile_expr b left c) op (\<lambda>c. compile_expr b right c) c"
| "compile_expr b (ECall name args) c = compile_call name (map (\<lambda>e c. compile_expr b e c) args) c"

definition local_slot :: "string \<Rightarrow> value_type \<Rightarrow> 'f compiler \<Rightarrow> (nat \<times> 'f compiler) compile_result" where
  "local_slot name ty c =
     (case c_locals c name of
        Some li \<Rightarrow>
          Some (if li_value_type li \<noteq> ty then Inl (BinaryTypeMismatch ''assignment'' (li_value_type li) ty) else Inr (li_slot li, c))
      | None \<Rightarrow>
          let slot = c_next_local_slot c
          in Some (Inr (slot, c\<lparr>c_next_local_slot := slot + 1, c_locals := (c_locals c)(name \<mapsto> \<lparr>li_slot = slot, li_value_type = ty\<rparr>)\<rparr>)))"

text \<open>The statements of a program; the last one is in value position when no semicolon follows it.\<close>

fun compile_statements ::
  "bindings \<Rightarrow> bool \<Rightarrow> 'f statement list \<Rightarrow> value_type \<Rightarrow> 'f compiler \<Rightarrow> (value_type \<times> 'f compiler) compile_result" where
  "compile_statements b trailing [] result_type c = Some (Inr (result_type, c))"
| "compile_statements b trailing (SAssign name e # sts) result_type c =
     cbind (compile_expr b e c) (\<lambda>(expr_type, c).
     cbind (local_slot name expr_type c) (\<lambda>(slot, c).
       let c = pop_n 1 (emit (StoreLocal slot) c)
       in compile_statements b trailing sts (if sts = [] \<and> \<not> trailing then TyEmpty else result_type) c))"
| "compile_statements b trailing (SExpr e # sts) result_type c =
     cbind (compile_expr b e c) (\<lambda>(expr_type, c).
       if sts = [] \<and> \<not> trailing then compile_statements b trailing sts expr_type c
       else compile_statements b trailing sts result_type (pop_n 1 (emit IPop c)))"

definition compile_program :: "bindings \<Rightarrow> 'f program \<Rightarrow> 'f compiled_expression compile_result" where
  "compile_program b p =
     cbind (compile_statements b (pr_trailing_semicolon p) (pr_statements p) TyEmpty compiler_new) (\<lambda>(result_type, c).
       Some (if MAX_STACK < c_max_stack_depth c then Inl (StackOverflow (c_max_stack_depth c) MAX_STACK)
             else if MAX_LOCALS < c_next_local_slot c then Inl (TooManyLocals (c_next_local_slot c) MAX_LOCALS)
             else Inr \<lparr>ce_code = c_code c, ce_input_len = input_len b, ce_result_type = result_type\<rparr>))"

end
