(* ===== verification/Formula_Correct.thy ===== *)
theory Formula_Correct
  imports Formula_Machine
begin

text \<open>
  Correctness of the formula compiler and its machine.

  The reference is an evaluation of syntax trees to typed values, with short-circuit operators and lazy conditionals.
  A generator \<open>g\<close> of code is correct for a meaning \<open>ev\<close> (\<open>gen_ok\<close>) when its code, embedded in any
  program and run from any state that fits, pushes the encoding of what \<open>ev\<close> says, and when the depths that
  the compiler counts bound the stack. Every method of the compiler keeps \<open>gen_ok\<close>.
\<close>

section \<open>The meaning of formulas\<close>

datatype 'f fvalue = VNum 'f | VBool bool

type_synonym 'f fenv = "string \<rightharpoonup> 'f fvalue"

fun fvalue_type :: "'f fvalue \<Rightarrow> value_type" where
  "fvalue_type (VNum _) = TyNumber"
| "fvalue_type (VBool _) = TyBool"

fun encode :: "'f f64_ops \<Rightarrow> 'f fvalue \<Rightarrow> 'f" where
  "encode F (VNum x) = x"
| "encode F (VBool v) = f_of_bool F v"

fun arith_meaning :: "'f f64_ops \<Rightarrow> binary_op \<Rightarrow> 'f \<Rightarrow> 'f \<Rightarrow> 'f fvalue option" where
  "arith_meaning F OAdd x y = Some (VNum (f_add F x y))"
| "arith_meaning F OSub x y = Some (VNum (f_sub F x y))"
| "arith_meaning F OMul x y = Some (VNum (f_mul F x y))"
| "arith_meaning F ODiv x y = Some (VNum (f_div F x y))"
| "arith_meaning F OMod x y = Some (VNum (f_rem F x y))"
| "arith_meaning F OPow x y = Some (VNum (f_powf F x y))"
| "arith_meaning F OEq x y = Some (VBool (f_eq F x y))"
| "arith_meaning F ONeq x y = Some (VBool (\<not> f_eq F x y))"
| "arith_meaning F OLt x y = Some (VBool (f_lt F x y))"
| "arith_meaning F OLe x y = Some (VBool (f_le F x y))"
| "arith_meaning F OGt x y = Some (VBool (f_gt F x y))"
| "arith_meaning F OGe x y = Some (VBool (f_ge F x y))"
| "arith_meaning F _ x y = None"

text \<open>Operators on values; \<open>right\<close> is only looked at when it is needed.\<close>

fun binary_meaning :: "'f f64_ops \<Rightarrow> binary_op \<Rightarrow> 'f fvalue option \<Rightarrow> 'f fvalue option \<Rightarrow> 'f fvalue option" where
  "binary_meaning F OAnd (Some (VBool l)) right = (if l then right else Some (VBool False))"
| "binary_meaning F OOr (Some (VBool l)) right = (if l then Some (VBool True) else right)"
| "binary_meaning F op (Some (VNum x)) (Some (VNum y)) = arith_meaning F op x y"
| "binary_meaning F OEq (Some (VBool x)) (Some (VBool y)) = Some (VBool (x = y))"
| "binary_meaning F ONeq (Some (VBool x)) (Some (VBool y)) = Some (VBool (x \<noteq> y))"
| "binary_meaning F _ _ _ = None"

fun unary_meaning :: "'f f64_ops \<Rightarrow> unary_op \<Rightarrow> 'f fvalue option \<Rightarrow> 'f fvalue option" where
  "unary_meaning F UNeg (Some (VNum x)) = Some (VNum (f_neg F x))"
| "unary_meaning F UNot (Some (VBool v)) = Some (VBool (\<not> v))"
| "unary_meaning F _ _ = None"

fun numbers :: "'f fvalue option list \<Rightarrow> 'f list option" where
  "numbers [] = Some []"
| "numbers (Some (VNum x) # vs) = map_option (\<lambda>xs. x # xs) (numbers vs)"
| "numbers _ = None"

definition call_meaning :: "'f f64_ops \<Rightarrow> string \<Rightarrow> 'f fvalue option list \<Rightarrow> 'f fvalue option" where
  "call_meaning F name args =
     (if name = ''if'' then
        (case args of
           [Some (VBool c), t, e] \<Rightarrow> if c then t else e
         | _ \<Rightarrow> None)
      else Option.bind (numbers args) (\<lambda>xs.
        if name = ''min'' then Some (VNum (foldl (f_min F) (f_infinity F) xs))
        else if name = ''max'' then Some (VNum (foldl (f_max F) (f_neg_infinity F) xs))
        else (case xs of
            [x] \<Rightarrow> (if name = ''abs'' then Some (VNum (f_abs F x)) else if name = ''ceil'' then Some (VNum (f_ceil F x))
                     else if name = ''floor'' then Some (VNum (f_floor F x)) else if name = ''round'' then Some (VNum (f_round F x)) else None)
          | _ \<Rightarrow> None)))"

definition input_value :: "'f list \<Rightarrow> nat \<Rightarrow> 'f fvalue option" where
  "input_value inputs slot = (if slot < length inputs then Some (VNum (inputs ! slot)) else None)"

fun meaning :: "'f f64_ops \<Rightarrow> bindings \<Rightarrow> 'f list \<Rightarrow> 'f fenv \<Rightarrow> 'f expr \<Rightarrow> 'f fvalue option" where
  "meaning F b inputs env (ENumber v) = Some (VNum v)"
| "meaning F b inputs env (EBool v) = Some (VBool v)"
| "meaning F b inputs env (EInput slot) = input_value inputs slot"
| "meaning F b inputs env (EName name) =
     (case env name of Some v \<Rightarrow> Some v | None \<Rightarrow> Option.bind (resolve_plain b name) (input_value inputs))"
| "meaning F b inputs env (EUnary op e) = unary_meaning F op (meaning F b inputs env e)"
| "meaning F b inputs env (EBinary l op r) = binary_meaning F op (meaning F b inputs env l) (meaning F b inputs env r)"
| "meaning F b inputs env (ECall name args) = call_meaning F name (map (meaning F b inputs env) args)"

text \<open>The last value of a program without a final semicolon.\<close>

fun run_meaning :: "'f f64_ops \<Rightarrow> bindings \<Rightarrow> 'f list \<Rightarrow> 'f fenv \<Rightarrow> 'f statement list \<Rightarrow> 'f fvalue option" where
  "run_meaning F b inputs env [] = None"
| "run_meaning F b inputs env (SAssign name e # sts) =
     Option.bind (meaning F b inputs env e) (\<lambda>v. run_meaning F b inputs (env(name \<mapsto> v)) sts)"
| "run_meaning F b inputs env (SExpr e # sts) =
     Option.bind (meaning F b inputs env e) (\<lambda>v. if sts = [] then Some v else run_meaning F b inputs env sts)"

section \<open>Running embedded code\<close>

lemma vm_run_step:
  assumes "vm_pc m = length pre"
  shows "vm_run F (pre @ i # post) inputs m =
    (case vm_exec F inputs i m of None \<Rightarrow> Some None | Some m' \<Rightarrow> vm_run F (pre @ i # post) inputs m')"
  using assms by (subst vm_run.simps) simp

lemma vm_run_end: "length code \<le> vm_pc m \<Longrightarrow> vm_run F code inputs m = Some (Some m)"
  by (subst vm_run.simps) simp

lemma cbind_simps [simp]:
  "cbind None f = None" "cbind (Some (Inl e)) f = Some (Inl e)" "cbind (Some (Inr x)) f = f x"
  by (simp_all add: cbind_def)

lemma cbind_Inr: "cbind r f = Some (Inr y) \<longleftrightarrow> (\<exists>x. r = Some (Inr x) \<and> f x = Some (Inr y))"
  by (cases r; cases "the r") (auto simp: cbind_def)

lemma cbind_not_None: "r \<noteq> None \<Longrightarrow> (\<And>x. r = Some (Inr x) \<Longrightarrow> f x \<noteq> None) \<Longrightarrow> cbind r f \<noteq> None"
  by (cases r; cases "the r") (auto simp: cbind_def)

lemma cbind_None: "cbind r f = None \<longleftrightarrow> r = None \<or> (\<exists>x. r = Some (Inr x) \<and> f x = None)"
  by (cases r; cases "the r") (auto simp: cbind_def)

lemma ensure_type_Inr [simp]: "ensure_type a b x = Some (Inr u) \<longleftrightarrow> a = b"
  by (simp add: ensure_type_def)

lemma ensure_no_panic [simp]: "ensure_type a b x \<noteq> None" "ensure_arg_count n k e \<noteq> None" "ensure_min_arg_count n k e \<noteq> None"
  by (simp_all add: ensure_type_def ensure_arg_count_def ensure_min_arg_count_def)

lemma cbind_ensure [simp]:
  "cbind (ensure_type a b x) f = (if a = b then f () else Some (Inl (TypeMismatch x b a)))"
  "cbind (ensure_arg_count n k e) f = (if k = e then f () else Some (Inl (InvalidArgumentCount n (show_nat e) k)))"
  "cbind (ensure_min_arg_count n k e) f = (if e \<le> k then f () else Some (Inl (InvalidArgumentCount n (''at least '' @ show_nat e) k)))"
  by (simp_all add: ensure_type_def ensure_arg_count_def ensure_min_arg_count_def)

text \<open>A state of the machine that fits a state of the compiler.\<close>

definition env_fits :: "'f f64_ops \<Rightarrow> 'f compiler \<Rightarrow> 'f fenv \<Rightarrow> 'f list \<Rightarrow> bool" where
  "env_fits F c env ls \<longleftrightarrow> length ls = MAX_LOCALS \<and> dom (c_locals c) = dom env \<and>
     (\<forall>name li. c_locals c name = Some li \<longrightarrow> li_slot li < length ls \<and>
        (\<exists>v. env name = Some v \<and> fvalue_type v = li_value_type li \<and> ls ! li_slot li = encode F v))"

text \<open>The stack with \<open>d\<close> cells in use, and a value on top of them.\<close>

definition vm_at :: "'f vm \<Rightarrow> nat \<Rightarrow> nat \<Rightarrow> bool" where
  "vm_at m pc d \<longleftrightarrow> vm_pc m = pc \<and> vm_sp m = d \<and> length (vm_stack m) = MAX_STACK"

definition pushed :: "'f vm \<Rightarrow> 'f list \<Rightarrow> nat \<Rightarrow> 'f vm \<Rightarrow> bool" where
  "pushed m xs pc m' \<longleftrightarrow> vm_pc m' = pc \<and> vm_sp m' = vm_sp m + length xs \<and> length (vm_stack m') = MAX_STACK \<and>
     vm_sp m + length xs \<le> MAX_STACK \<and> (\<forall>i < vm_sp m. vm_stack m' ! i = vm_stack m ! i) \<and>
     (\<forall>i < length xs. vm_stack m' ! (vm_sp m + i) = xs ! i) \<and> vm_locals m' = vm_locals m"

text \<open>In a program with the segment \<open>seg\<close> at \<open>base\<close>, a run from \<open>m\<close> is a run from \<open>m'\<close>.\<close>

definition moves :: "'f f64_ops \<Rightarrow> 'f list \<Rightarrow> nat \<Rightarrow> 'f instruction list \<Rightarrow> 'f vm \<Rightarrow> 'f vm \<Rightarrow> bool" where
  "moves F inputs base seg m m' \<longleftrightarrow>
     (\<forall>pre post. length pre = base \<longrightarrow> vm_run F (pre @ seg @ post) inputs m = vm_run F (pre @ seg @ post) inputs m')"

lemma moves_refl: "moves F inputs base seg m m"
  by (simp add: moves_def)

lemma moves_trans: "moves F inputs base seg a b \<Longrightarrow> moves F inputs base seg b c \<Longrightarrow> moves F inputs base seg a c"
  by (simp add: moves_def)

lemma moves_step:
  assumes "vm_exec F inputs i m = Some m'" "vm_pc m = base + length sa"
  shows "moves F inputs base (sa @ i # sb) m m'"
  unfolding moves_def
proof (intro allI impI)
  fix pre post :: "'a instruction list"
  assume "length pre = base"
  then show "vm_run F (pre @ (sa @ i # sb) @ post) inputs m = vm_run F (pre @ (sa @ i # sb) @ post) inputs m'"
    using vm_run_step [of m "pre @ sa" F i "sb @ post" inputs] assms by simp
qed

lemma moves_part: "moves F inputs (base + length sa) s m m' \<Longrightarrow> moves F inputs base (sa @ s @ sb) m m'"
proof -
  assume a: "moves F inputs (base + length sa) s m m'"
  have "vm_run F (pre @ (sa @ s @ sb) @ post) inputs m = vm_run F (pre @ (sa @ s @ sb) @ post) inputs m'" if "length pre = base" for pre post
    using a [unfolded moves_def, rule_format, of "pre @ sa" "sb @ post"] that by simp
  then show ?thesis by (simp add: moves_def)
qed

lemmas moves_first = moves_step [where sa = "[]", simplified] moves_part [where sa = "[]", simplified]

text \<open>What a generator does to the state of the compiler: it adds a segment of code, and needs \<open>k\<close> more cells in the end.\<close>

definition grows :: "nat \<Rightarrow> 'f compiler \<Rightarrow> 'f instruction list \<Rightarrow> 'f compiler \<Rightarrow> bool" where
  "grows k c seg c' \<longleftrightarrow> c_code c' = c_code c @ seg \<and>
     c_locals c' = c_locals c \<and> c_next_local_slot c' = c_next_local_slot c \<and> c_stack_depth c' = c_stack_depth c + k \<and>
     c_max_stack_depth c \<le> c_max_stack_depth c' \<and> c_stack_depth c' \<le> c_max_stack_depth c'"

definition compiler_ok :: "'f compiler \<Rightarrow> bool" where
  "compiler_ok c \<longleftrightarrow> c_stack_depth c \<le> c_max_stack_depth c"

definition fits :: "'f f64_ops \<Rightarrow> 'f compiler \<Rightarrow> 'f fenv \<Rightarrow> 'f vm \<Rightarrow> bool" where
  "fits F c env m \<longleftrightarrow> vm_at m (length (c_code c)) (c_stack_depth c) \<and> env_fits F c env (vm_locals m)"

text \<open>A run of the segment, wherever the program counter is, pushes the values \<open>xs\<close>.\<close>

definition seg_pushes :: "'f f64_ops \<Rightarrow> 'f list \<Rightarrow> 'f instruction list \<Rightarrow> 'f vm \<Rightarrow> 'f list \<Rightarrow> bool" where
  "seg_pushes F inputs seg m xs \<longleftrightarrow> (\<exists>m'. pushed m xs (vm_pc m + length seg) m' \<and> moves F inputs (vm_pc m) seg m m')"

definition gen_ok :: "'f f64_ops \<Rightarrow> 'f list \<Rightarrow> 'f gen \<Rightarrow> ('f fenv \<Rightarrow> 'f fvalue option) \<Rightarrow> bool" where
  "gen_ok F inputs g ev \<longleftrightarrow>
     (\<forall>c. compiler_ok c \<longrightarrow> g c \<noteq> None \<and>
       (\<forall>ty c'. g c = Some (Inr (ty, c')) \<longrightarrow> (\<exists>seg. grows 1 c seg c' \<and>
         (\<forall>env m. fits F c env m \<longrightarrow> c_max_stack_depth c' \<le> MAX_STACK \<longrightarrow>
           (\<exists>v. ev env = Some v \<and> fvalue_type v = ty \<and> seg_pushes F inputs seg m [encode F v])))))"

lemma gen_okE:
  assumes "gen_ok F inputs g ev" "compiler_ok c" "g c = Some (Inr (ty, c'))"
  obtains seg where "grows 1 c seg c'"
    and "\<And>env m. fits F c env m \<Longrightarrow> c_max_stack_depth c' \<le> MAX_STACK \<Longrightarrow>
      \<exists>v. ev env = Some v \<and> fvalue_type v = ty \<and> seg_pushes F inputs seg m [encode F v]"
  using assms unfolding gen_ok_def by metis

lemma gen_okI:
  assumes "\<And>c. compiler_ok c \<Longrightarrow> g c \<noteq> None"
    and "\<And>c ty c'. compiler_ok c \<Longrightarrow> g c = Some (Inr (ty, c')) \<Longrightarrow> \<exists>seg. grows 1 c seg c' \<and>
         (\<forall>env m. fits F c env m \<longrightarrow> c_max_stack_depth c' \<le> MAX_STACK \<longrightarrow>
           (\<exists>v. ev env = Some v \<and> fvalue_type v = ty \<and> seg_pushes F inputs seg m [encode F v]))"
  shows "gen_ok F inputs g ev"
  unfolding gen_ok_def using assms by blast

lemma gen_ok_no_panic: "gen_ok F inputs g ev \<Longrightarrow> compiler_ok c \<Longrightarrow> g c \<noteq> None"
  by (simp add: gen_ok_def)

lemma growsD:
  assumes "grows k c seg c'"
  shows "c_code c' = c_code c @ seg" "c_locals c' = c_locals c" "c_next_local_slot c' = c_next_local_slot c"
    "c_stack_depth c' = c_stack_depth c + k" "c_max_stack_depth c \<le> c_max_stack_depth c'" "compiler_ok c'"
  using assms by (auto simp: grows_def compiler_ok_def)

lemma grows_trans: "grows j a xs b \<Longrightarrow> grows k b ys c \<Longrightarrow> grows (j + k) a (xs @ ys) c"
  by (auto simp: grows_def)

section \<open>Pushing values\<close>

lemma pushed_trans:
  assumes "pushed m xs p m1" "pushed m1 ys q m2"
  shows "pushed m (xs @ ys) q m2"
proof -
  have "vm_stack m2 ! (vm_sp m + i) = (xs @ ys) ! i" if "i < length (xs @ ys)" for i
  proof (cases "i < length xs")
    case True
    then show ?thesis using assms by (simp add: pushed_def nth_append)
  next
    case False
    then have "i - length xs < length ys" "vm_sp m + i = vm_sp m1 + (i - length xs)" using that assms(1) by (simp_all add: pushed_def)
    moreover have "vm_stack m2 ! (vm_sp m1 + (i - length xs)) = ys ! (i - length xs)"
      using assms(2) calculation(1) by (simp add: pushed_def)
    ultimately show ?thesis using False by (simp add: nth_append)
  qed
  then show ?thesis using assms by (simp add: pushed_def)
qed

lemma seg_pushes_append:
  assumes "seg_pushes F inputs seg1 m xs"
    and "\<And>m'. pushed m xs (vm_pc m + length seg1) m' \<Longrightarrow> seg_pushes F inputs seg2 m' ys"
  shows "seg_pushes F inputs (seg1 @ seg2) m (xs @ ys)"
proof -
  obtain m1 where m1: "pushed m xs (vm_pc m + length seg1) m1" "moves F inputs (vm_pc m) seg1 m m1"
    using assms(1) by (auto simp: seg_pushes_def)
  have pc: "vm_pc m1 = vm_pc m + length seg1" using m1(1) by (simp add: pushed_def)
  obtain m2 where m2: "pushed m1 ys (vm_pc m1 + length seg2) m2" "moves F inputs (vm_pc m1) seg2 m1 m2"
    using assms(2) [OF m1(1)] by (auto simp: seg_pushes_def)
  have "moves F inputs (vm_pc m) (seg1 @ seg2) m m2"
    using moves_first(2) [OF m1(2), of seg2] moves_part [of F inputs "vm_pc m" seg1 seg2 m1 m2 "[]"] m2(2) pc
    by (auto intro: moves_trans)
  moreover have "pushed m (xs @ ys) (vm_pc m + length (seg1 @ seg2)) m2"
    using pushed_trans [OF m1(1) m2(1)] pc by (simp add: add.assoc)
  ultimately show ?thesis unfolding seg_pushes_def by blast
qed

text \<open>A segment, and one more instruction that turns the values \<open>xs\<close> on the stack into \<open>y\<close>.\<close>

lemma seg_pushes_then:
  assumes "seg_pushes F inputs seg m xs"
    and "\<And>m'. pushed m xs (vm_pc m + length seg) m' \<Longrightarrow> \<exists>m''. vm_exec F inputs i m' = Some m'' \<and> pushed m [y] (vm_pc m' + 1) m''"
  shows "seg_pushes F inputs (seg @ [i]) m [y]"
proof -
  obtain m1 where m1: "pushed m xs (vm_pc m + length seg) m1" "moves F inputs (vm_pc m) seg m m1"
    using assms(1) by (auto simp: seg_pushes_def)
  have pc: "vm_pc m1 = vm_pc m + length seg" using m1(1) by (simp add: pushed_def)
  obtain m2 where m2: "vm_exec F inputs i m1 = Some m2" "pushed m [y] (vm_pc m1 + 1) m2" using assms(2) [OF m1(1)] by blast
  have "moves F inputs (vm_pc m) (seg @ [i]) m m2"
    using moves_first(2) [OF m1(2), of "[i]"] moves_step [OF m2(1) pc, of "[]"] by (auto intro: moves_trans)
  then show ?thesis using m2(2) pc by (auto simp: seg_pushes_def)
qed

section \<open>Instructions on what was pushed\<close>

lemma usize_sub_add [simp]: "usize_sub (a + b) b = a"
  by (simp add: usize_sub_def)

lemma usize_sub_Suc [simp]: "usize_sub (Suc a) (Suc 0) = a" "usize_sub (Suc (Suc a)) (Suc 0) = Suc a"
  by (simp_all add: usize_sub_def)

lemma push_pushes:
  assumes "vm_exec F inputs i m = map_option vm_next (vm_push m x)" "length (vm_stack m) = MAX_STACK" "vm_sp m < MAX_STACK"
  shows "seg_pushes F inputs [i] m [x]"
proof -
  let ?m = "vm_next (m\<lparr>vm_stack := (vm_stack m)[vm_sp m := x], vm_sp := vm_sp m + 1\<rparr>)"
  have "vm_exec F inputs i m = Some ?m" using assms by (simp add: vm_push_def index_put_def)
  then have "moves F inputs (vm_pc m) [i] m ?m" using moves_first(1) [of F inputs i m ?m "vm_pc m" "[]"] by simp
  moreover have "pushed m [x] (vm_pc m + 1) ?m" using assms by (simp add: pushed_def vm_next_def)
  ultimately show ?thesis by (auto simp: seg_pushes_def)
qed

lemma unary_exec:
  assumes "pushed m [x] pc m'"
  shows "\<exists>m''. vm_exec F inputs (IUnary u) m' = Some m'' \<and> pushed m [eval_unary_fast F u x] (vm_pc m' + 1) m''"
  using assms by (auto simp: pushed_def index_get_def index_put_def vm_next_def)

lemma binary_exec:
  assumes "pushed m [x, y] pc m'"
  shows "\<exists>m''. vm_exec F inputs (IBinary bo) m' = Some m'' \<and> pushed m [eval_binary_fast F bo x y] (vm_pc m' + 1) m''"
proof -
  have "vm_stack m' ! vm_sp m = x" "vm_stack m' ! Suc (vm_sp m) = y"
    using assms by (auto simp: pushed_def dest: spec [of _ 0] spec [of _ "Suc 0"])
  then show ?thesis using assms by (auto simp: pushed_def index_get_def index_put_def vm_next_def Let_def)
qed

lemma call_exec:
  assumes "pushed m xs pc m'" "eval_builtin_fast F bi xs = Some y" "xs \<noteq> []"
  shows "\<exists>m''. vm_exec F inputs (ICall bi (length xs)) m' = Some m'' \<and> pushed m [y] (vm_pc m' + 1) m''"
proof -
  have len: "vm_sp m + length xs \<le> MAX_STACK" "length (vm_stack m') = MAX_STACK" "vm_sp m' = vm_sp m + length xs" using assms(1) by (auto simp: pushed_def)
  have "take (length xs) (drop (vm_sp m) (vm_stack m')) = xs"
    by (rule nth_equalityI) (use assms(1) len in \<open>auto simp: pushed_def\<close>)
  moreover have "wrap_u 64 (vm_sp m + length xs) = vm_sp m + length xs" using len by (intro wrap_u_id) (simp add: MAX_STACK_def)
  ultimately have "slice (vm_stack m') (vm_sp m) (wrap_u 64 (vm_sp m + length xs)) = Some xs" using len by (simp add: slice_def)
  moreover have "vm_sp m < length (vm_stack m')" using len assms(3) by (cases xs) auto
  ultimately show ?thesis using assms(1,2) by (auto simp: pushed_def index_put_def vm_next_def Let_def)
qed

text \<open>The state after a push fits the state of the compiler after the segment.\<close>

lemma fits_pushed:
  assumes "fits F c env m" "grows k c seg c'" "length xs = k" "pushed m xs (vm_pc m + length seg) m'"
  shows "fits F c' env m'"
  using assms by (auto simp: fits_def vm_at_def env_fits_def pushed_def grows_def)

section \<open>Every method of the compiler is correct\<close>

text \<open>What a generator that ran from \<open>c\<close> to \<open>c'\<close> has to show.\<close>

definition gen_result :: "'f f64_ops \<Rightarrow> 'f list \<Rightarrow> ('f fenv \<Rightarrow> 'f fvalue option) \<Rightarrow> 'f compiler \<Rightarrow> value_type \<Rightarrow> 'f compiler \<Rightarrow> bool" where
  "gen_result F inputs ev c ty c' \<longleftrightarrow> (\<exists>seg. grows 1 c seg c' \<and>
     (\<forall>env m. fits F c env m \<longrightarrow> c_max_stack_depth c' \<le> MAX_STACK \<longrightarrow>
       (\<exists>v. ev env = Some v \<and> fvalue_type v = ty \<and> seg_pushes F inputs seg m [encode F v])))"

lemma gen_ok_iff:
  "gen_ok F inputs g ev \<longleftrightarrow> (\<forall>c. compiler_ok c \<longrightarrow> g c \<noteq> None \<and> (\<forall>ty c'. g c = Some (Inr (ty, c')) \<longrightarrow> gen_result F inputs ev c ty c'))"
  by (simp add: gen_ok_def gen_result_def)

lemma gen_resultI:
  assumes "grows 1 c seg c'"
    and "\<And>env m. fits F c env m \<Longrightarrow> c_max_stack_depth c' \<le> MAX_STACK \<Longrightarrow>
      \<exists>v. ev env = Some v \<and> fvalue_type v = ty \<and> seg_pushes F inputs seg m [encode F v]"
  shows "gen_result F inputs ev c ty c'"
  using assms unfolding gen_result_def by blast

lemma fits_room: "fits F c env m \<Longrightarrow> grows k c seg c' \<Longrightarrow> c_max_stack_depth c' \<le> MAX_STACK \<Longrightarrow> vm_sp m + k \<le> MAX_STACK"
  by (auto simp: fits_def vm_at_def grows_def)

lemma leaf_result:
  assumes "compiler_ok c" "compile_leaf i ty c = Some (Inr (ty', c'))"
    and "\<And>env m. env_fits F c env (vm_locals m) \<Longrightarrow>
      \<exists>v. ev env = Some v \<and> fvalue_type v = ty \<and> vm_exec F inputs i m = map_option vm_next (vm_push m (encode F v))"
  shows "gen_result F inputs ev c ty' c'"
proof (rule gen_resultI)
  show g: "grows 1 c [i] c'" using assms(1,2) by (auto simp: compile_leaf_def grows_def c_push_def emit_def compiler_ok_def)
  show "\<exists>v. ev env = Some v \<and> fvalue_type v = ty' \<and> seg_pushes F inputs [i] m [encode F v]"
    if "fits F c env m" "c_max_stack_depth c' \<le> MAX_STACK" for env m
    using assms(2,3) fits_room [OF that(1) g that(2)] that(1)
    by (fastforce simp: compile_leaf_def fits_def vm_at_def intro: push_pushes)
qed

lemma leaf_ok:
  assumes "\<And>env m. \<exists>v. ev env = Some v \<and> fvalue_type v = ty \<and> vm_exec F inputs i m = map_option vm_next (vm_push m (encode F v))"
  shows "gen_ok F inputs (compile_leaf i ty) ev"
  unfolding gen_ok_iff using leaf_result assms by (metis compile_leaf_def option.distinct(1))

lemma unary_ok:
  assumes g: "gen_ok F inputs g ev" and laws: "f64_laws F"
  shows "gen_ok F inputs (compile_unary op g) (\<lambda>env. unary_meaning F op (ev env))"
  unfolding gen_ok_iff
proof (intro allI impI conjI)
  fix c :: "'a compiler" assume c: "compiler_ok c"
  show "compile_unary op g c \<noteq> None"
    unfolding compile_unary_def using gen_ok_no_panic [OF g c]
    by (intro cbind_not_None) (auto split: unary_op.splits)
  fix ty c' assume r: "compile_unary op g c = Some (Inr (ty, c'))"
  define u where "u = (case op of UNeg \<Rightarrow> INeg | UNot \<Rightarrow> INot)"
  obtain c1 where c1: "g c = Some (Inr (ty, c1))" "c' = emit (IUnary u) c1" "ty = (case op of UNeg \<Rightarrow> TyNumber | UNot \<Rightarrow> TyBool)"
    using r by (auto simp: compile_unary_def cbind_Inr u_def split: unary_op.splits if_splits)
  obtain seg where s: "grows 1 c seg c1" and e: "\<And>env m. fits F c env m \<Longrightarrow> c_max_stack_depth c1 \<le> MAX_STACK \<Longrightarrow>
      \<exists>v. ev env = Some v \<and> fvalue_type v = ty \<and> seg_pushes F inputs seg m [encode F v]"
    using gen_okE [OF g c c1(1)] by blast
  show "gen_result F inputs (\<lambda>env. unary_meaning F op (ev env)) c ty c'"
  proof (rule gen_resultI)
    show "grows 1 c (seg @ [IUnary u]) c'" using s c1(2) by (simp add: grows_def emit_def)
    fix env m assume "fits F c env m" "c_max_stack_depth c' \<le> MAX_STACK"
    then obtain v where v: "ev env = Some v" "fvalue_type v = ty" "seg_pushes F inputs seg m [encode F v]"
      using e [of env m] c1(2) by (auto simp: emit_def)
    have "seg_pushes F inputs (seg @ [IUnary u]) m [eval_unary_fast F u (encode F v)]"
      using seg_pushes_then [OF v(3) unary_exec] .
    then show "\<exists>v. unary_meaning F op (ev env) = Some v \<and> fvalue_type v = ty \<and> seg_pushes F inputs (seg @ [IUnary u]) m [encode F v]"
      using v(1,2) c1(3) f64_lawsD [OF laws] by (cases v; cases op) (auto simp: u_def f_of_bool_def split: if_splits)
  qed
qed

text \<open>Two operands.\<close>

lemma pair_pushes:
  assumes l: "gen_ok F inputs l evl" and r: "gen_ok F inputs r evr" and c: "compiler_ok c"
    and "l c = Some (Inr (tyl, c1))" "r c1 = Some (Inr (tyr, c2))"
  obtains seg where "grows 2 c seg c2"
    and "\<And>env m. fits F c env m \<Longrightarrow> c_max_stack_depth c2 \<le> MAX_STACK \<Longrightarrow>
      \<exists>x y. evl env = Some x \<and> fvalue_type x = tyl \<and> evr env = Some y \<and> fvalue_type y = tyr \<and> seg_pushes F inputs seg m [encode F x, encode F y]"
proof -
  obtain sa where sa: "grows 1 c sa c1" "\<And>env m. fits F c env m \<Longrightarrow> c_max_stack_depth c1 \<le> MAX_STACK \<Longrightarrow>
      \<exists>v. evl env = Some v \<and> fvalue_type v = tyl \<and> seg_pushes F inputs sa m [encode F v]"
    using gen_okE [OF l c assms(4)] by blast
  obtain sb where sb: "grows 1 c1 sb c2" "\<And>env m. fits F c1 env m \<Longrightarrow> c_max_stack_depth c2 \<le> MAX_STACK \<Longrightarrow>
      \<exists>v. evr env = Some v \<and> fvalue_type v = tyr \<and> seg_pushes F inputs sb m [encode F v]"
    using gen_okE [OF r growsD(6) [OF sa(1)] assms(5)] by blast
  show thesis
  proof (rule that)
    show "grows 2 c (sa @ sb) c2" using grows_trans [OF sa(1) sb(1)] by (simp add: numeral_2_eq_2)
    fix env m assume a: "fits F c env m" "c_max_stack_depth c2 \<le> MAX_STACK"
    obtain x where x: "evl env = Some x" "fvalue_type x = tyl" "seg_pushes F inputs sa m [encode F x]"
      using sa(2) [OF a(1)] growsD(5) [OF sb(1)] a(2) by auto
    have "\<exists>y. evr env = Some y \<and> fvalue_type y = tyr \<and> seg_pushes F inputs sb m' [encode F y]"
      if "pushed m [encode F x] (vm_pc m + length sa) m'" for m'
      using sb(2) [OF fits_pushed [OF a(1) sa(1) _ that] a(2)] by simp
    moreover obtain m1 where "pushed m [encode F x] (vm_pc m + length sa) m1" using x(3) by (auto simp: seg_pushes_def)
    ultimately obtain y where y: "evr env = Some y" "fvalue_type y = tyr"
      "\<And>m'. pushed m [encode F x] (vm_pc m + length sa) m' \<Longrightarrow> seg_pushes F inputs sb m' [encode F y]"
      by (metis option.inject)
    show "\<exists>x y. evl env = Some x \<and> fvalue_type x = tyl \<and> evr env = Some y \<and> fvalue_type y = tyr \<and> seg_pushes F inputs (sa @ sb) m [encode F x, encode F y]"
      using x(1,2) y(1,2) seg_pushes_append [OF x(3) y(3)] by simp
  qed
qed

lemma pop_n_grows:
  assumes "grows (Suc k) c seg c2" "compiler_ok c"
  shows "grows 1 c (seg @ [i]) (pop_n k (emit i c2))"
  using assms by (auto simp: grows_def pop_n_def emit_def usize_sub_def compiler_ok_def)

text \<open>An operator on two operands of the types \<open>ok\<close> allows, with the instruction for it.\<close>

lemma binary_result:
  assumes "gen_ok F inputs l evl" "gen_ok F inputs r evr" and c: "compiler_ok c"
    and "l c = Some (Inr (tyl, c1))" "r c1 = Some (Inr (tyr, c2))" "c' = pop_n 1 (emit (IBinary (to_binary_instruction op)) c2)"
    and sem: "\<And>x y. fvalue_type x = tyl \<Longrightarrow> fvalue_type y = tyr \<Longrightarrow> \<exists>v. binary_meaning F op (Some x) (Some y) = Some v \<and>
      fvalue_type v = ty \<and> encode F v = eval_binary_fast F (to_binary_instruction op) (encode F x) (encode F y)"
  shows "gen_result F inputs (\<lambda>env. binary_meaning F op (evl env) (evr env)) c ty c'"
proof -
  obtain seg where s: "grows 2 c seg c2" and e: "\<And>env m. fits F c env m \<Longrightarrow> c_max_stack_depth c2 \<le> MAX_STACK \<Longrightarrow>
      \<exists>x y. evl env = Some x \<and> fvalue_type x = tyl \<and> evr env = Some y \<and> fvalue_type y = tyr \<and> seg_pushes F inputs seg m [encode F x, encode F y]"
    using pair_pushes [OF assms(1-5)] by blast
  show ?thesis
  proof (rule gen_resultI)
    show "grows 1 c (seg @ [IBinary (to_binary_instruction op)]) c'"
      unfolding assms(6) using s c by (intro pop_n_grows) (simp_all add: numeral_2_eq_2)
    fix env m assume "fits F c env m" "c_max_stack_depth c' \<le> MAX_STACK"
    then obtain x y where v: "evl env = Some x" "fvalue_type x = tyl" "evr env = Some y" "fvalue_type y = tyr" "seg_pushes F inputs seg m [encode F x, encode F y]"
      using e [of env m] assms(6) by (auto simp: emit_def pop_n_def)
    show "\<exists>v. binary_meaning F op (evl env) (evr env) = Some v \<and> fvalue_type v = ty \<and>
        seg_pushes F inputs (seg @ [IBinary (to_binary_instruction op)]) m [encode F v]"
      using seg_pushes_then [OF v(5) binary_exec [where bo = "to_binary_instruction op"]] sem [OF v(2,4)] v(1,3) by auto
  qed
qed

lemma fvalue_type_iff: "fvalue_type v = TyNumber \<longleftrightarrow> (\<exists>x. v = VNum x)" "fvalue_type v = TyBool \<longleftrightarrow> (\<exists>x. v = VBool x)" "fvalue_type v \<noteq> TyEmpty"
  by (cases v; simp)+

lemma gen_ok_step: "gen_ok F inputs g ev \<Longrightarrow> compiler_ok c \<Longrightarrow> g c = Some (Inr (ty, c')) \<Longrightarrow> compiler_ok c'"
  by (meson gen_okE growsD(6))

lemma numbers_ok:
  assumes "gen_ok F inputs l evl" "gen_ok F inputs r evr" and op: "is_arith op \<and> ty = TyNumber \<or> is_order op \<and> ty = TyBool"
  shows "gen_ok F inputs (compile_numbers ty l op r) (\<lambda>env. binary_meaning F op (evl env) (evr env))"
  unfolding gen_ok_iff
proof (intro allI impI conjI)
  fix c :: "'a compiler" assume c: "compiler_ok c"
  show "compile_numbers ty l op r c \<noteq> None"
    using gen_ok_no_panic [OF assms(1) c] gen_ok_no_panic [OF assms(2) gen_ok_step [OF assms(1) c]]
    by (auto simp: compile_numbers_def cbind_None simp del: not_None_eq split: if_splits)
  fix ty' c' assume "compile_numbers ty l op r c = Some (Inr (ty', c'))"
  then obtain c1 c2 where r: "l c = Some (Inr (TyNumber, c1))" "r c1 = Some (Inr (TyNumber, c2))"
      "c' = pop_n 1 (emit (IBinary (to_binary_instruction op)) c2)" "ty' = ty"
    by (auto simp: compile_numbers_def cbind_Inr split: if_splits)
  show "gen_result F inputs (\<lambda>env. binary_meaning F op (evl env) (evr env)) c ty' c'"
    using binary_result [OF assms(1,2) c r(1-3)] op r(4) by (fastforce simp: fvalue_type_iff is_arith_def is_order_def)
qed

lemma equality_ok:
  assumes "gen_ok F inputs l evl" "gen_ok F inputs r evr" and op: "op = OEq \<or> op = ONeq" and laws: "f64_laws F"
  shows "gen_ok F inputs (compile_equality l op r) (\<lambda>env. binary_meaning F op (evl env) (evr env))"
  unfolding gen_ok_iff
proof (intro allI impI conjI)
  fix c :: "'a compiler" assume c: "compiler_ok c"
  show "compile_equality l op r c \<noteq> None"
    using gen_ok_no_panic [OF assms(1) c] gen_ok_no_panic [OF assms(2) gen_ok_step [OF assms(1) c]]
    by (auto simp: compile_equality_def cbind_None simp del: not_None_eq split: if_splits)
  fix ty' c' assume "compile_equality l op r c = Some (Inr (ty', c'))"
  then obtain c1 c2 ty where r: "l c = Some (Inr (ty, c1))" "r c1 = Some (Inr (ty, c2))"
      "c' = pop_n 1 (emit (IBinary (to_binary_instruction op)) c2)" "ty' = TyBool"
    by (auto simp: compile_equality_def cbind_Inr split: if_splits)
  have "\<exists>v. binary_meaning F op (Some x) (Some y) = Some v \<and> fvalue_type v = TyBool \<and>
      encode F v = eval_binary_fast F (to_binary_instruction op) (encode F x) (encode F y)" if "fvalue_type x = ty" "fvalue_type y = ty" for x y
    using that op f64_lawsD [OF laws] by (cases x; cases y) (auto simp: f_of_bool_def)
  then show "gen_result F inputs (\<lambda>env. binary_meaning F op (evl env) (evr env)) c ty' c'"
    using binary_result [OF assms(1,2) c r(1-3)] r(4) by simp
qed

section \<open>Jumps\<close>

fun is_jump :: "'f instruction \<Rightarrow> bool" where
  "is_jump (Jump _) = True"
| "is_jump (JumpIfFalse _) = True"
| "is_jump (JumpIfFalsePeek _) = True"
| "is_jump (JumpIfTruePeek _) = True"
| "is_jump _ = False"

fun retarget :: "nat \<Rightarrow> 'f instruction \<Rightarrow> 'f instruction" where
  "retarget t (Jump _) = Jump t"
| "retarget t (JumpIfFalse _) = JumpIfFalse t"
| "retarget t (JumpIfFalsePeek _) = JumpIfFalsePeek t"
| "retarget t (JumpIfTruePeek _) = JumpIfTruePeek t"
| "retarget t i = i"

lemma patch_middle:
  assumes "c_code c = xs @ i # ys" "is_jump i"
  shows "patch_jump_target (length xs) t c = Some (c\<lparr>c_code := xs @ retarget t i # ys\<rparr>)"
  using assms by (cases i) (simp_all add: patch_jump_target_def index_get_def)

definition lazy_jump :: "binary_op \<Rightarrow> nat \<Rightarrow> 'f instruction" where
  "lazy_jump op = (if op = OAnd then JumpIfFalsePeek else JumpIfTruePeek)"

lemma is_jump_lazy [simp]: "is_jump (lazy_jump op t)" "retarget t (lazy_jump op t') = lazy_jump op t"
  by (simp_all add: lazy_jump_def)

lemma pushed_top: "pushed m [x] pc m' \<Longrightarrow> index_get (vm_stack m') (usize_sub (vm_sp m') 1) = Some x \<and> usize_sub (vm_sp m') 1 = vm_sp m"
  by (auto simp: pushed_def index_get_def)

lemma lazy_exec:
  assumes "f64_laws F" "pushed m [f_of_bool F v] pc m'"
  shows "vm_exec F inputs (lazy_jump op t) m' = Some (if v = (op \<noteq> OAnd) then m'\<lparr>vm_pc := t\<rparr> else vm_next m')"
  using pushed_top [OF assms(2)] f64_lawsD [OF assms(1)] by (auto simp: lazy_jump_def f_of_bool_def)

text \<open>After a value was popped again, the machine fits as before, further on in the code.\<close>

lemma fits_popped:
  assumes "fits F c env m" "pushed m [x] pc m'" "c_locals c1 = c_locals c" "c_stack_depth c1 = c_stack_depth c" "length (c_code c1) = p"
  shows "fits F c1 env (m'\<lparr>vm_sp := vm_sp m, vm_pc := p\<rparr>)"
  using assms by (auto simp: fits_def vm_at_def env_fits_def pushed_def)

lemma pushed_over:
  assumes "pushed m xs pc m'" "pushed (m'\<lparr>vm_sp := vm_sp m, vm_pc := p\<rparr>) ys q m''"
  shows "pushed m ys q m''"
  using assms by (auto simp: pushed_def)

text \<open>The code of a lazy operator: the left operand, the jump over the right one, the right operand.\<close>

lemma lazy_pushes:
  assumes laws: "f64_laws F" and left: "seg_pushes F inputs sa m [f_of_bool F v]" and T: "t = vm_pc m + length sa + 2 + length sb"
    and skip: "v = (op \<noteq> OAnd) \<Longrightarrow> x = f_of_bool F v"
    and right: "\<And>m1. v \<noteq> (op \<noteq> OAnd) \<Longrightarrow> pushed m [f_of_bool F v] (vm_pc m + length sa) m1 \<Longrightarrow>
      seg_pushes F inputs sb (m1\<lparr>vm_sp := vm_sp m, vm_pc := vm_pc m + length sa + 2\<rparr>) [x]"
  shows "seg_pushes F inputs (sa @ [lazy_jump op t, IPop] @ sb) m [x]"
proof -
  let ?seg = "sa @ [lazy_jump op t, IPop] @ sb"
  obtain m1 where m1: "pushed m [f_of_bool F v] (vm_pc m + length sa) m1" "moves F inputs (vm_pc m) sa m m1"
    using left by (auto simp: seg_pushes_def)
  have pc1: "vm_pc m1 = vm_pc m + length sa" using m1(1) by (simp add: pushed_def)
  have to1: "moves F inputs (vm_pc m) ?seg m m1" using moves_first(2) [OF m1(2)] by simp
  note ex = lazy_exec [OF laws m1(1), of inputs op t]
  show ?thesis
  proof (cases "v = (op \<noteq> OAnd)")
    case True
    let ?m = "m1\<lparr>vm_pc := t\<rparr>"
    have "moves F inputs (vm_pc m) ?seg m1 ?m" using moves_step [of F inputs "lazy_jump op t" m1 ?m "vm_pc m" sa "IPop # sb"] ex True pc1 by simp
    moreover have "pushed m [x] (vm_pc m + length ?seg) ?m" using m1(1) T skip True by (simp add: pushed_def)
    ultimately show ?thesis using to1 moves_trans unfolding seg_pushes_def by blast
  next
    case False
    let ?m = "m1\<lparr>vm_sp := vm_sp m, vm_pc := vm_pc m + length sa + 2\<rparr>"
    have "moves F inputs (vm_pc m) ?seg m1 (vm_next m1)"
      using moves_step [of F inputs "lazy_jump op t" m1 "vm_next m1" "vm_pc m" sa "IPop # sb"] ex False pc1 by simp
    moreover have "moves F inputs (vm_pc m) ?seg (vm_next m1) ?m"
      using moves_step [of F inputs IPop "vm_next m1" ?m "vm_pc m" "sa @ [lazy_jump op t]" sb] pushed_top [OF m1(1)] pc1
      by (simp add: vm_next_def)
    moreover obtain m2 where m2: "pushed ?m [x] (vm_pc m + length ?seg) m2" "moves F inputs (vm_pc m + length sa + 2) sb ?m m2"
      using right [OF False m1(1)] by (auto simp: seg_pushes_def add.assoc)
    moreover have "moves F inputs (vm_pc m) ?seg ?m m2"
      using moves_part [of F inputs "vm_pc m" "sa @ [lazy_jump op t, IPop]" sb ?m m2 "[]"] m2(2) by (simp add: add.assoc)
    ultimately have "moves F inputs (vm_pc m) ?seg m m2" using to1 moves_trans by blast
    then show ?thesis using pushed_over [OF m1(1) m2(1)] by (auto simp: seg_pushes_def)
  qed
qed

text \<open>The compiler between the two operands.\<close>

definition lazy_mid :: "binary_op \<Rightarrow> 'f compiler \<Rightarrow> 'f compiler" where
  "lazy_mid op c1 = pop_n 1 (emit IPop (emit (lazy_jump op (2 ^ 64 - 1)) c1))"

lemma lazy_mid_simps [simp]:
  "c_code (lazy_mid op c1) = c_code c1 @ [lazy_jump op (2 ^ 64 - 1), IPop]" "c_locals (lazy_mid op c1) = c_locals c1"
  "c_next_local_slot (lazy_mid op c1) = c_next_local_slot c1" "c_stack_depth (lazy_mid op c1) = usize_sub (c_stack_depth c1) 1"
  "c_max_stack_depth (lazy_mid op c1) = c_max_stack_depth c1"
  by (simp_all add: lazy_mid_def pop_n_def emit_def)

lemma compile_lazy_unfold:
  "compile_lazy (lazy_jump op) l op r c = cbind (l c) (\<lambda>(left_type, c1). if left_type = TyBool then
      cbind (r (lazy_mid op c1)) (\<lambda>(right_type, c2). if right_type = TyBool then
        map_option (\<lambda>c. Inr (TyBool, c)) (patch_jump_target (length (c_code c1)) (length (c_code c2)) c2)
        else Some (Inl (TypeMismatch (op_context op) TyBool right_type))) else Some (Inl (TypeMismatch (op_context op) TyBool left_type)))"
  by (simp add: compile_lazy_def emit_jump_def Let_def lazy_mid_def cong: if_cong)

lemma lazy_mid_grows: "compiler_ok c \<Longrightarrow> grows 1 c sa c1 \<Longrightarrow> grows 0 c (sa @ [lazy_jump op (2 ^ 64 - 1), IPop]) (lazy_mid op c1)"
  by (auto simp: grows_def compiler_ok_def)

lemma lazy_patch:
  assumes "grows 1 (lazy_mid op c1) sb c2"
  shows "patch_jump_target (length (c_code c1)) (length (c_code c2)) c2 =
    Some (c2\<lparr>c_code := c_code c1 @ [lazy_jump op (length (c_code c2)), IPop] @ sb\<rparr>)"
  using patch_middle [of c2 "c_code c1" "lazy_jump op (2 ^ 64 - 1)" "IPop # sb" "length (c_code c2)"] growsD(1) [OF assms] by simp

lemma lazy_ok:
  assumes l: "gen_ok F inputs l evl" and r: "gen_ok F inputs r evr" and laws: "f64_laws F" and op: "op = OAnd \<or> op = OOr"
  shows "gen_ok F inputs (compile_lazy (lazy_jump op) l op r) (\<lambda>env. binary_meaning F op (evl env) (evr env))"
  unfolding gen_ok_iff
proof (intro allI impI conjI)
  fix c :: "'a compiler" assume c: "compiler_ok c"
  have mid: "compiler_ok (lazy_mid op c1)" if "l c = Some (Inr (ty, c1))" for ty c1
    using gen_okE [OF l c that] lazy_mid_grows [OF c] growsD(6) by metis
  have "patch_jump_target (length (c_code c1)) (length (c_code c2)) c2 \<noteq> None"
    if "l c = Some (Inr (ty, c1))" "r (lazy_mid op c1) = Some (Inr (ty2, c2))" for ty ty2 c1 c2
    using gen_okE [OF r mid [OF that(1)] that(2)] lazy_patch by (metis option.distinct(1))
  then show "compile_lazy (lazy_jump op) l op r c \<noteq> None"
    using gen_ok_no_panic [OF l c] gen_ok_no_panic [OF r mid]
    by (auto simp: compile_lazy_unfold cbind_None simp del: not_None_eq split: if_splits)
  fix ty c' assume "compile_lazy (lazy_jump op) l op r c = Some (Inr (ty, c'))"
  then obtain c1 c2 where run: "ty = TyBool" "l c = Some (Inr (TyBool, c1))" "r (lazy_mid op c1) = Some (Inr (TyBool, c2))"
    "patch_jump_target (length (c_code c1)) (length (c_code c2)) c2 = Some c'"
    by (auto simp: compile_lazy_unfold cbind_Inr split: if_splits)
  obtain sa where sa: "grows 1 c sa c1" "\<And>env m. fits F c env m \<Longrightarrow> c_max_stack_depth c1 \<le> MAX_STACK \<Longrightarrow>
      \<exists>v. evl env = Some v \<and> fvalue_type v = TyBool \<and> seg_pushes F inputs sa m [encode F v]"
    using gen_okE [OF l c run(2)] by blast
  obtain sb where sb: "grows 1 (lazy_mid op c1) sb c2" "\<And>env m. fits F (lazy_mid op c1) env m \<Longrightarrow> c_max_stack_depth c2 \<le> MAX_STACK \<Longrightarrow>
        \<exists>v. evr env = Some v \<and> fvalue_type v = TyBool \<and> seg_pushes F inputs sb m [encode F v]"
    using gen_okE [OF r mid [OF run(2)] run(3)] by blast
  have c': "c' = c2\<lparr>c_code := c_code c1 @ [lazy_jump op (length (c_code c2)), IPop] @ sb\<rparr>" using lazy_patch [OF sb(1)] run(4) by simp
  let ?T = "length (c_code c2)"
  show "gen_result F inputs (\<lambda>env. binary_meaning F op (evl env) (evr env)) c ty c'"
  proof (rule gen_resultI)
    show "grows 1 c (sa @ [lazy_jump op ?T, IPop] @ sb) c'" using sa(1) sb(1) c' by (auto simp: grows_def)
    fix env m assume a: "fits F c env m" "c_max_stack_depth c' \<le> MAX_STACK"
    have max: "c_max_stack_depth c2 \<le> MAX_STACK" "c_max_stack_depth c1 \<le> MAX_STACK"
      using a(2) c' growsD(5) [OF sb(1)] by simp_all
    have pc: "vm_pc m = length (c_code c)" using a(1) by (simp add: fits_def vm_at_def)
    obtain v where v: "evl env = Some (VBool v)" "seg_pushes F inputs sa m [f_of_bool F v]"
      using sa(2) [OF a(1) max(2)] by (auto simp: fvalue_type_iff)
    have T: "?T = vm_pc m + length sa + 2 + length sb" using growsD(1) [OF sa(1)] growsD(1) [OF sb(1)] pc by simp
    have "fits F (lazy_mid op c1) env (m1\<lparr>vm_sp := vm_sp m, vm_pc := vm_pc m + length sa + 2\<rparr>)"
      if "pushed m [f_of_bool F v] (vm_pc m + length sa) m1" for m1
      by (rule fits_popped [OF a(1) that]) (use growsD [OF sa(1)] pc in auto)
    note right = sb(2) [OF this max(1)]
    obtain m1 where "pushed m [f_of_bool F v] (vm_pc m + length sa) m1" using v(2) by (auto simp: seg_pushes_def)
    then obtain w where w: "evr env = Some (VBool w)" using right by (auto simp: fvalue_type_iff)
    let ?x = "if v = (op \<noteq> OAnd) then v else w"
    have "seg_pushes F inputs (sa @ [lazy_jump op ?T, IPop] @ sb) m [f_of_bool F ?x]"
      by (rule lazy_pushes [OF laws v(2) T]) (use right w in auto)
    then show "\<exists>v. binary_meaning F op (evl env) (evr env) = Some v \<and> fvalue_type v = ty \<and> seg_pushes F inputs (sa @ [lazy_jump op ?T, IPop] @ sb) m [encode F v]"
      using v(1) w op run(1) by (intro exI [of _ "VBool ?x"]) auto
  qed
qed

section \<open>Conditionals\<close>

lemma cond_exec:
  assumes "f64_laws F" "pushed m [f_of_bool F v] pc m'"
  shows "vm_exec F inputs (JumpIfFalse t) m' =
    Some (if v then m'\<lparr>vm_sp := vm_sp m, vm_pc := vm_pc m' + 1\<rparr> else m'\<lparr>vm_sp := vm_sp m, vm_pc := t\<rparr>)"
  using pushed_top [OF assms(2)] f64_lawsD [OF assms(1)] by (auto simp: f_of_bool_def Let_def vm_next_def)

text \<open>The code of a conditional: the condition, the jump to the other branch at \<open>e\<close>, one branch and the jump to the end \<open>t\<close>, the other branch.\<close>

lemma if_pushes:
  assumes laws: "f64_laws F" and cond: "seg_pushes F inputs sa m [f_of_bool F v]"
    and e: "e = vm_pc m + length sa + 1 + length st + 1" and t: "t = e + length se"
    and yes: "\<And>m1. v \<Longrightarrow> pushed m [f_of_bool F v] (vm_pc m + length sa) m1 \<Longrightarrow>
      seg_pushes F inputs st (m1\<lparr>vm_sp := vm_sp m, vm_pc := vm_pc m + length sa + 1\<rparr>) [x]"
    and no: "\<And>m1. \<not> v \<Longrightarrow> pushed m [f_of_bool F v] (vm_pc m + length sa) m1 \<Longrightarrow> seg_pushes F inputs se (m1\<lparr>vm_sp := vm_sp m, vm_pc := e\<rparr>) [x]"
  shows "seg_pushes F inputs (sa @ [JumpIfFalse e] @ st @ [Jump t] @ se) m [x]"
proof -
  let ?seg = "sa @ [JumpIfFalse e] @ st @ [Jump t] @ se"
  obtain m1 where m1: "pushed m [f_of_bool F v] (vm_pc m + length sa) m1" "moves F inputs (vm_pc m) sa m m1"
    using cond by (auto simp: seg_pushes_def)
  have pc1: "vm_pc m1 = vm_pc m + length sa" using m1(1) by (simp add: pushed_def)
  define m2 where "m2 = m1\<lparr>vm_sp := vm_sp m, vm_pc := if v then vm_pc m + length sa + 1 else e\<rparr>"
  have to2: "moves F inputs (vm_pc m) ?seg m m2"
    using moves_trans [OF moves_first(2) [OF m1(2)] moves_step [where i = "JumpIfFalse e" and sa = sa and sb = "st @ [Jump t] @ se" and m' = m2]]
      cond_exec [OF laws m1(1), of inputs e] pc1 by (simp add: m2_def)
  show ?thesis
  proof (cases v)
    case True
    obtain m3 where m3: "pushed m2 [x] (vm_pc m2 + length st) m3" "moves F inputs (vm_pc m2) st m2 m3"
      using yes [OF True m1(1)] True by (auto simp: seg_pushes_def m2_def)
    let ?m = "m3\<lparr>vm_pc := t\<rparr>"
    have "moves F inputs (vm_pc m) ?seg m2 m3"
      using moves_part [of F inputs "vm_pc m" "sa @ [JumpIfFalse e]" st m2 m3 "[Jump t] @ se"] m3(2) True by (simp add: m2_def)
    moreover have "moves F inputs (vm_pc m) ?seg m3 ?m"
      using moves_step [of F inputs "Jump t" m3 ?m "vm_pc m" "sa @ [JumpIfFalse e] @ st" se] m3(1) True by (simp add: pushed_def m2_def)
    moreover have "pushed m [x] (vm_pc m + length ?seg) ?m"
      using m3(1) m1(1) e t True by (simp add: pushed_def m2_def)
    ultimately show ?thesis using to2 moves_trans unfolding seg_pushes_def by blast
  next
    case False
    obtain m3 where m3: "pushed m2 [x] (vm_pc m2 + length se) m3" "moves F inputs (vm_pc m2) se m2 m3"
      using no [OF False m1(1)] False by (auto simp: seg_pushes_def m2_def)
    have "moves F inputs (vm_pc m) ?seg m2 m3"
      using moves_part [of F inputs "vm_pc m" "sa @ [JumpIfFalse e] @ st @ [Jump t]" se m2 m3 "[]"] m3(2) False e by (simp add: m2_def add.assoc)
    moreover have "pushed m [x] (vm_pc m + length ?seg) m3" using m3(1) m1(1) e t False by (simp add: pushed_def m2_def)
    ultimately show ?thesis using to2 moves_trans unfolding seg_pushes_def by blast
  qed
qed

text \<open>The compiler before the first and before the second branch.\<close>

definition then_mid :: "'f compiler \<Rightarrow> 'f compiler" where
  "then_mid c1 = pop_n 1 (emit (JumpIfFalse (2 ^ 64 - 1)) c1)"

definition else_mid :: "'f compiler \<Rightarrow> 'f compiler \<Rightarrow> 'f compiler panics" where
  "else_mid c1 c2 = patch_jump_target (length (c_code c1)) (length (c_code c2) + 1)
     ((emit (Jump (2 ^ 64 - 1)) c2)\<lparr>c_stack_depth := c_stack_depth (then_mid c1)\<rparr>)"

lemma compile_if_unfold:
  "compile_if [g1, g2, g3] c = cbind (g1 c) (\<lambda>(ty1, c1). if ty1 = TyBool then
     cbind (g2 (then_mid c1)) (\<lambda>(ty2, c2). cbind (map_option Inr (else_mid c1 c2)) (\<lambda>c3. cbind (g3 c3) (\<lambda>(ty3, c4).
       if ty2 \<noteq> ty3 then Some (Inl (BinaryTypeMismatch ''if'' ty2 ty3))
       else map_option (\<lambda>c. Inr (ty2, c)) (patch_jump_target (length (c_code c2)) (length (c_code c4)) c4))))
     else Some (Inl (TypeMismatch ''if'' TyBool ty1)))"
  by (simp add: compile_if_def emit_jump_def Let_def then_mid_def else_mid_def emit_def numeral_2_eq_2 cong: if_cong)

lemma then_mid_simps [simp]:
  "c_code (then_mid c1) = c_code c1 @ [JumpIfFalse (2 ^ 64 - 1)]" "c_locals (then_mid c1) = c_locals c1"
  "c_next_local_slot (then_mid c1) = c_next_local_slot c1" "c_stack_depth (then_mid c1) = usize_sub (c_stack_depth c1) 1"
  "c_max_stack_depth (then_mid c1) = c_max_stack_depth c1"
  by (simp_all add: then_mid_def pop_n_def emit_def)

lemma then_mid_ok: "compiler_ok c \<Longrightarrow> grows 1 c sa c1 \<Longrightarrow> compiler_ok (then_mid c1)"
  by (auto simp: grows_def compiler_ok_def)

lemma else_mid_eq:
  assumes "grows 1 (then_mid c1) st c2"
  shows "else_mid c1 c2 = Some (c2\<lparr>c_code := c_code c1 @ [JumpIfFalse (length (c_code c2) + 1)] @ st @ [Jump (2 ^ 64 - 1)],
    c_stack_depth := c_stack_depth (then_mid c1)\<rparr>)"
  using growsD(1) [OF assms] unfolding else_mid_def
  by (subst patch_middle [where xs = "c_code c1" and i = "JumpIfFalse (2 ^ 64 - 1)" and ys = "st @ [Jump (2 ^ 64 - 1)]"]) (simp_all add: emit_def)

lemma if_patch:
  assumes "grows 1 (then_mid c1) st c2" "else_mid c1 c2 = Some c3" "grows 1 c3 se c4"
  shows "patch_jump_target (length (c_code c2)) (length (c_code c4)) c4 =
    Some (c4\<lparr>c_code := c_code c1 @ [JumpIfFalse (length (c_code c2) + 1)] @ st @ [Jump (length (c_code c4))] @ se\<rparr>)"
proof -
  have "c_code c4 = (c_code c1 @ [JumpIfFalse (length (c_code c2) + 1)] @ st) @ Jump (2 ^ 64 - 1) # se"
    using growsD(1) [OF assms(3)] else_mid_eq [OF assms(1)] assms(2) by auto
  from patch_middle [OF this, of "length (c_code c4)"] show ?thesis using growsD(1) [OF assms(1)] by simp
qed

lemma else_mid_ok: "grows 1 (then_mid c1) st c2 \<Longrightarrow> else_mid c1 c2 = Some c3 \<Longrightarrow> compiler_ok c3"
  using else_mid_eq by (fastforce simp: grows_def compiler_ok_def)

lemma if_ok:
  assumes g1: "gen_ok F inputs g1 ev1" and g2: "gen_ok F inputs g2 ev2" and g3: "gen_ok F inputs g3 ev3" and laws: "f64_laws F"
  shows "gen_ok F inputs (compile_if [g1, g2, g3]) (\<lambda>env. call_meaning F ''if'' [ev1 env, ev2 env, ev3 env])"
  unfolding gen_ok_iff
proof (intro allI impI conjI)
  fix c :: "'a compiler" assume c: "compiler_ok c"
  have ok1: "compiler_ok (then_mid c1)" if "g1 c = Some (Inr (ty, c1))" for ty c1
    using gen_okE [OF g1 c that] then_mid_ok [OF c] by metis
  have ok2: "else_mid c1 c2 \<noteq> None \<and> compiler_ok (the (else_mid c1 c2))"
    if "g1 c = Some (Inr (ty, c1))" "g2 (then_mid c1) = Some (Inr (ty2, c2))" for ty ty2 c1 c2
    using gen_okE [OF g2 ok1 [OF that(1)] that(2)] else_mid_eq else_mid_ok by (metis option.distinct(1) option.sel)
  have ok3: "patch_jump_target (length (c_code c2)) (length (c_code c4)) c4 \<noteq> None"
    if "g1 c = Some (Inr (ty, c1))" "g2 (then_mid c1) = Some (Inr (ty2, c2))" "else_mid c1 c2 = Some c3" "g3 c3 = Some (Inr (ty3, c4))"
    for ty ty2 ty3 c1 c2 c3 c4
    using gen_okE [OF g2 ok1 [OF that(1)] that(2)] gen_okE [OF g3 _ that(4)] ok2 [OF that(1,2)] if_patch [OF _ that(3)] that(3)
    by (metis option.distinct(1) option.sel)
  show "compile_if [g1, g2, g3] c \<noteq> None"
  proof
    assume "compile_if [g1, g2, g3] c = None"
    then show False
      using gen_ok_no_panic [OF g1 c] gen_ok_no_panic [OF g2 ok1] ok2 ok3 gen_ok_no_panic [OF g3]
      unfolding compile_if_unfold by (fastforce simp: cbind_None simp del: not_None_eq split: if_splits)
  qed
  fix ty c' assume "compile_if [g1, g2, g3] c = Some (Inr (ty, c'))"
  then obtain c1 c2 c3 c4 where run: "g1 c = Some (Inr (TyBool, c1))" "g2 (then_mid c1) = Some (Inr (ty, c2))" "else_mid c1 c2 = Some c3"
      "g3 c3 = Some (Inr (ty, c4))" "patch_jump_target (length (c_code c2)) (length (c_code c4)) c4 = Some c'"
    by (auto simp: compile_if_unfold cbind_Inr split: if_splits)
  have c3ok: "compiler_ok c3" using ok2 [OF run(1,2)] run(3) by simp
  obtain sa where sa: "grows 1 c sa c1" "\<And>env m. fits F c env m \<Longrightarrow> c_max_stack_depth c1 \<le> MAX_STACK \<Longrightarrow>
      \<exists>v. ev1 env = Some v \<and> fvalue_type v = TyBool \<and> seg_pushes F inputs sa m [encode F v]"
    using gen_okE [OF g1 c run(1)] by blast
  obtain st where st: "grows 1 (then_mid c1) st c2" "\<And>env m. fits F (then_mid c1) env m \<Longrightarrow> c_max_stack_depth c2 \<le> MAX_STACK \<Longrightarrow>
      \<exists>v. ev2 env = Some v \<and> fvalue_type v = ty \<and> seg_pushes F inputs st m [encode F v]"
    using gen_okE [OF g2 ok1 [OF run(1)] run(2)] by blast
  obtain se where se: "grows 1 c3 se c4" "\<And>env m. fits F c3 env m \<Longrightarrow> c_max_stack_depth c4 \<le> MAX_STACK \<Longrightarrow>
      \<exists>v. ev3 env = Some v \<and> fvalue_type v = ty \<and> seg_pushes F inputs se m [encode F v]"
    using gen_okE [OF g3 c3ok run(4)] by blast
  note c3 = else_mid_eq [OF st(1), unfolded run(3), simplified] and c' = if_patch [OF st(1) run(3) se(1), unfolded run(5), simplified]
  let ?e = "Suc (length (c_code c2))" and ?t = "length (c_code c4)"
  show "gen_result F inputs (\<lambda>env. call_meaning F ''if'' [ev1 env, ev2 env, ev3 env]) c ty c'"
  proof (rule gen_resultI)
    show "grows 1 c (sa @ [JumpIfFalse ?e] @ st @ [Jump ?t] @ se) c'" using sa(1) st(1) se(1) c3 c' by (auto simp: grows_def)
    fix env m assume a: "fits F c env m" "c_max_stack_depth c' \<le> MAX_STACK"
    have max: "c_max_stack_depth c4 \<le> MAX_STACK" "c_max_stack_depth c2 \<le> MAX_STACK" "c_max_stack_depth c1 \<le> MAX_STACK"
      using a(2) c' c3 growsD(5) [OF se(1)] growsD(5) [OF st(1)] by simp_all
    have pc: "vm_pc m = length (c_code c)" using a(1) by (simp add: fits_def vm_at_def)
    obtain v where v: "ev1 env = Some (VBool v)" "seg_pushes F inputs sa m [f_of_bool F v]"
      using sa(2) [OF a(1) max(3)] by (auto simp: fvalue_type_iff)
    have e: "?e = vm_pc m + length sa + 1 + length st + 1" "?t = ?e + length se"
      using growsD(1) [OF sa(1)] growsD(1) [OF st(1)] growsD(1) [OF se(1)] c3 pc by simp_all
    have "fits F (then_mid c1) env (m1\<lparr>vm_sp := vm_sp m, vm_pc := vm_pc m + length sa + 1\<rparr>)"
      "fits F c3 env (m1\<lparr>vm_sp := vm_sp m, vm_pc := ?e\<rparr>)"
      if "pushed m [f_of_bool F v] (vm_pc m + length sa) m1" for m1
      using fits_popped [OF a(1) that, of "then_mid c1"] fits_popped [OF a(1) that, of c3] growsD [OF sa(1)] growsD [OF st(1)] pc c3
      by simp_all
    note branches = st(2) [OF this(1) max(2)] se(2) [OF this(2) max(1)]
    obtain m1 where "pushed m [f_of_bool F v] (vm_pc m + length sa) m1" using v(2) by (auto simp: seg_pushes_def)
    then obtain x y where xy: "ev2 env = Some x" "fvalue_type x = ty" "ev3 env = Some y" "fvalue_type y = ty" using branches by meson
    let ?x = "if v then x else y"
    have "seg_pushes F inputs (sa @ [JumpIfFalse ?e] @ st @ [Jump ?t] @ se) m [encode F ?x]"
      by (rule if_pushes [OF laws v(2) e]) (use branches xy in auto)
    then show "\<exists>v. call_meaning F ''if'' [ev1 env, ev2 env, ev3 env] = Some v \<and> fvalue_type v = ty \<and>
        seg_pushes F inputs (sa @ [JumpIfFalse ?e] @ st @ [Jump ?t] @ se) m [encode F v]"
      using v(1) xy by (intro exI [of _ ?x]) (simp add: call_meaning_def)
  qed
qed

section \<open>Calls\<close>

lemma args_push:
  assumes "list_all2 (gen_ok F inputs) gs evs" "compiler_ok c"
  shows "compile_args gs c \<noteq> None"
    and "compile_args gs c = Some (Inr (tys, c')) \<Longrightarrow> \<exists>seg. grows (length gs) c seg c' \<and> length tys = length gs \<and>
      (\<forall>env m. fits F c env m \<longrightarrow> c_max_stack_depth c' \<le> MAX_STACK \<longrightarrow>
        (\<exists>vs. map (\<lambda>ev. ev env) evs = map Some vs \<and> map fvalue_type vs = tys \<and> seg_pushes F inputs seg m (map (encode F) vs)))"
proof -
  have "compile_args gs c \<noteq> None \<and> (\<forall>tys c'. compile_args gs c = Some (Inr (tys, c')) \<longrightarrow> (\<exists>seg. grows (length gs) c seg c' \<and> length tys = length gs \<and>
      (\<forall>env m. fits F c env m \<longrightarrow> c_max_stack_depth c' \<le> MAX_STACK \<longrightarrow>
        (\<exists>vs. map (\<lambda>ev. ev env) evs = map Some vs \<and> map fvalue_type vs = tys \<and> seg_pushes F inputs seg m (map (encode F) vs)))))"
    using assms
  proof (induction gs evs arbitrary: c rule: list_all2_induct)
    case Nil
    have "seg_pushes F inputs [] m []" if "fits F c env m" "c_max_stack_depth c \<le> MAX_STACK" for env m
      using that Nil by (auto simp: seg_pushes_def fits_def vm_at_def compiler_ok_def pushed_def intro!: exI [of _ m] moves_refl)
    then show ?case using Nil by (auto simp: grows_def compiler_ok_def)
  next
    case (Cons g gs ev evs)
    have np: "g c \<noteq> None" using gen_ok_no_panic [OF Cons.hyps(1) Cons.prems] .
    show ?case
    proof (intro conjI allI impI)
      show "compile_args (g # gs) c \<noteq> None"
        using np Cons.IH gen_ok_step [OF Cons.hyps(1) Cons.prems] by (auto simp: cbind_None simp del: not_None_eq)
      fix tys c' assume "compile_args (g # gs) c = Some (Inr (tys, c'))"
      then obtain ty c1 tys1 where r: "g c = Some (Inr (ty, c1))" "compile_args gs c1 = Some (Inr (tys1, c'))" "tys = ty # tys1"
        by (auto simp: cbind_Inr)
      obtain sa where sa: "grows 1 c sa c1" "\<And>env m. fits F c env m \<Longrightarrow> c_max_stack_depth c1 \<le> MAX_STACK \<Longrightarrow>
          \<exists>v. ev env = Some v \<and> fvalue_type v = ty \<and> seg_pushes F inputs sa m [encode F v]"
        using gen_okE [OF Cons.hyps(1) Cons.prems r(1)] by blast
      obtain sb where sb: "grows (length gs) c1 sb c'" "length tys1 = length gs" "\<And>env m. fits F c1 env m \<Longrightarrow> c_max_stack_depth c' \<le> MAX_STACK \<Longrightarrow>
          \<exists>vs. map (\<lambda>ev. ev env) evs = map Some vs \<and> map fvalue_type vs = tys1 \<and> seg_pushes F inputs sb m (map (encode F) vs)"
        using Cons.IH [OF growsD(6) [OF sa(1)]] r(2) by blast
      have "\<exists>vs. map (\<lambda>ev. ev env) (ev # evs) = map Some vs \<and> map fvalue_type vs = tys \<and> seg_pushes F inputs (sa @ sb) m (map (encode F) vs)"
        if a: "fits F c env m" "c_max_stack_depth c' \<le> MAX_STACK" for env m
      proof -
        obtain v where v: "ev env = Some v" "fvalue_type v = ty" "seg_pushes F inputs sa m [encode F v]"
          using sa(2) [OF a(1)] growsD(5) [OF sb(1)] a(2) by auto
        note rest = sb(3) [OF fits_pushed [OF a(1) sa(1)] a(2), of "[encode F v]"]
        obtain m1 where "pushed m [encode F v] (vm_pc m + length sa) m1" using v(3) by (auto simp: seg_pushes_def)
        then obtain vs where vs: "map (\<lambda>ev. ev env) evs = map Some vs" "map fvalue_type vs = tys1" using rest by fastforce
        have "seg_pushes F inputs sb m' (map (encode F) vs)" if "pushed m [encode F v] (vm_pc m + length sa) m'" for m'
          using rest [OF _ that] vs(1) by (auto simp: inj_map_eq_map)
        from seg_pushes_append [OF v(3) this] show ?thesis using v(1,2) vs r(3) by (intro exI [of _ "v # vs"]) simp
      qed
      then show "\<exists>seg. grows (length (g # gs)) c seg c' \<and> length tys = length (g # gs) \<and> (\<forall>env m. fits F c env m \<longrightarrow> c_max_stack_depth c' \<le> MAX_STACK \<longrightarrow>
          (\<exists>vs. map (\<lambda>ev. ev env) (ev # evs) = map Some vs \<and> map fvalue_type vs = tys \<and> seg_pushes F inputs seg m (map (encode F) vs)))"
        using grows_trans [OF sa(1) sb(1)] sb(2) r(3) by auto
    qed
  qed
  then show "compile_args gs c \<noteq> None" "compile_args gs c = Some (Inr (tys, c')) \<Longrightarrow> \<exists>seg. grows (length gs) c seg c' \<and> length tys = length gs \<and>
      (\<forall>env m. fits F c env m \<longrightarrow> c_max_stack_depth c' \<le> MAX_STACK \<longrightarrow>
        (\<exists>vs. map (\<lambda>ev. ev env) evs = map Some vs \<and> map fvalue_type vs = tys \<and> seg_pushes F inputs seg m (map (encode F) vs)))"
    by blast+
qed

lemma ensure_types_Inr: "ensure_types tys ty x = Some (Inr u) \<longleftrightarrow> (\<forall>t \<in> set tys. t = ty)" and ensure_types_no_panic [simp]: "ensure_types tys ty x \<noteq> None"
  by (induction tys) auto

lemma numbers_of_typed: "\<forall>t \<in> set (map fvalue_type vs). t = TyNumber \<Longrightarrow> numbers (map Some vs) = Some (map (encode F) vs)"
  by (induction vs) (auto simp: fvalue_type_iff)

text \<open>What is checked of the arguments of a function other than \<open>if\<close>.\<close>

definition arg_check :: "builtin \<Rightarrow> nat \<Rightarrow> value_type list \<Rightarrow> unit compile_result" where
  "arg_check bi n tys =
     (if bi = BMin \<or> bi = BMax then cbind (ensure_min_arg_count (builtin_name bi) n 1) (\<lambda>_. ensure_types tys TyNumber (builtin_name bi))
      else cbind (ensure_arg_count (builtin_name bi) n 1) (\<lambda>_. cbind (map_option Inr (index_get tys 0)) (\<lambda>ty. ensure_type ty TyNumber (builtin_name bi))))"

lemma arg_check_no_panic: "length tys = n \<Longrightarrow> arg_check bi n tys \<noteq> None"
  by (auto simp: arg_check_def cbind_None index_get_def simp del: not_None_eq split: if_splits)

lemma arg_check_Inr:
  assumes "arg_check bi n tys = Some (Inr u)" "length tys = n"
  shows "\<forall>t \<in> set tys. t = TyNumber" "0 < n" "bi \<noteq> BMin \<Longrightarrow> bi \<noteq> BMax \<Longrightarrow> n = 1"
proof -
  show "0 < n" "bi \<noteq> BMin \<Longrightarrow> bi \<noteq> BMax \<Longrightarrow> n = 1" using assms(1) by (auto simp: arg_check_def split: if_splits)
  show "\<forall>t \<in> set tys. t = TyNumber"
  proof (cases "bi = BMin \<or> bi = BMax")
    case True
    then show ?thesis using assms(1) by (auto simp: arg_check_def ensure_types_Inr split: if_splits)
  next
    case False
    then obtain ty where "tys = [ty]" using assms by (cases tys) (auto simp: arg_check_def split: if_splits)
    then show ?thesis using assms(1) False by (auto simp: arg_check_def index_get_def cbind_Inr split: if_splits)
  qed
qed

lemma compile_call_builtin:
  assumes "builtin_from_name name = Some bi" "bi \<noteq> BIf"
  shows "compile_call name gs c = cbind (compile_args gs c) (\<lambda>(tys, c). cbind (arg_check bi (length gs) tys) (\<lambda>_.
    Some (Inr (TyNumber, if 1 < length gs then pop_n (length gs - 1) (emit (ICall bi (length gs)) c) else emit (ICall bi (length gs)) c))))"
  using assms by (simp add: compile_call_def arg_check_def Let_def cong: if_cong)

lemma builtin_meaning:
  assumes "builtin_from_name name = Some bi" "bi \<noteq> BIf" "numbers args = Some xs" "xs \<noteq> []" "bi \<noteq> BMin \<Longrightarrow> bi \<noteq> BMax \<Longrightarrow> length xs = 1"
  obtains y where "eval_builtin_fast F bi xs = Some y" "call_meaning F name args = Some (VNum y)"
proof -
  obtain x xs' where "xs = x # xs'" using assms(4) by (cases xs) auto
  with assms that show thesis
    by (auto simp: builtin_from_name_def call_meaning_def index_get_def split: if_splits)
qed

lemma call_builtin_ok:
  assumes gs: "list_all2 (gen_ok F inputs) gs evs" and bi: "builtin_from_name name = Some bi" "bi \<noteq> BIf"
  shows "gen_ok F inputs (compile_call name gs) (\<lambda>env. call_meaning F name (map (\<lambda>ev. ev env) evs))"
  unfolding gen_ok_iff
proof (intro allI impI conjI)
  fix c :: "'a compiler" assume c: "compiler_ok c"
  have "arg_check bi (length gs) tys \<noteq> None" if "compile_args gs c = Some (Inr (tys, c1))" for tys c1
    using args_push(2) [OF gs c that] arg_check_no_panic by blast
  then show "compile_call name gs c \<noteq> None"
    using args_push(1) [OF gs c] by (auto simp: compile_call_builtin [OF bi] cbind_None simp del: not_None_eq)
  fix ty c' assume "compile_call name gs c = Some (Inr (ty, c'))"
  then obtain tys c1 u where r: "compile_args gs c = Some (Inr (tys, c1))" "arg_check bi (length gs) tys = Some (Inr u)" "ty = TyNumber"
      "c' = (if 1 < length gs then pop_n (length gs - 1) (emit (ICall bi (length gs)) c1) else emit (ICall bi (length gs)) c1)"
    by (auto simp: compile_call_builtin [OF bi] cbind_Inr)
  obtain seg where s: "grows (length gs) c seg c1" "length tys = length gs" and e: "\<And>env m. fits F c env m \<Longrightarrow> c_max_stack_depth c1 \<le> MAX_STACK \<Longrightarrow>
      \<exists>vs. map (\<lambda>ev. ev env) evs = map Some vs \<and> map fvalue_type vs = tys \<and> seg_pushes F inputs seg m (map (encode F) vs)"
    using args_push(2) [OF gs c r(1)] by blast
  note chk = arg_check_Inr [OF r(2) s(2)]
  have c'_pop: "c' = pop_n (length gs - 1) (emit (ICall bi (length gs)) c1)"
    using r(4) chk(2) by (auto simp: pop_n_def usize_sub_def)
  show "gen_result F inputs (\<lambda>env. call_meaning F name (map (\<lambda>ev. ev env) evs)) c ty c'"
  proof (rule gen_resultI)
    show "grows 1 c (seg @ [ICall bi (length gs)]) c'" unfolding c'_pop using s(1) chk(2) c by (intro pop_n_grows) simp_all
    fix env m assume "fits F c env m" "c_max_stack_depth c' \<le> MAX_STACK"
    then obtain vs where vs: "map (\<lambda>ev. ev env) evs = map Some vs" "map fvalue_type vs = tys" "seg_pushes F inputs seg m (map (encode F) vs)"
      using e [of env m] by (auto simp: c'_pop emit_def pop_n_def)
    have n: "length vs = length gs" using vs(2) s(2) by (metis length_map)
    have num: "numbers (map (\<lambda>ev. ev env) evs) = Some (map (encode F) vs)" "map (encode F) vs \<noteq> []"
      "bi \<noteq> BMin \<Longrightarrow> bi \<noteq> BMax \<Longrightarrow> length (map (encode F) vs) = 1"
      using numbers_of_typed [of vs F] chk n vs(1,2) by auto
    obtain y where y: "eval_builtin_fast F bi (map (encode F) vs) = Some y" "call_meaning F name (map (\<lambda>ev. ev env) evs) = Some (VNum y)"
      using builtin_meaning [OF bi num] .
    have "seg_pushes F inputs (seg @ [ICall bi (length (map (encode F) vs))]) m [y]"
      by (rule seg_pushes_then [OF vs(3)]) (rule call_exec [OF _ y(1) num(2)])
    then show "\<exists>v. call_meaning F name (map (\<lambda>ev. ev env) evs) = Some v \<and> fvalue_type v = ty \<and>
        seg_pushes F inputs (seg @ [ICall bi (length gs)]) m [encode F v]"
      using y(2) r(3) n by auto
  qed
qed

lemma only_errors_ok: "(\<And>c. \<exists>e. g c = Some (Inl e)) \<Longrightarrow> gen_ok F inputs g ev"
  unfolding gen_ok_iff by (metis Inl_Inr_False option.distinct(1) option.inject)

lemma call_ok:
  assumes gs: "list_all2 (gen_ok F inputs) gs evs" and laws: "f64_laws F"
  shows "gen_ok F inputs (compile_call name gs) (\<lambda>env. call_meaning F name (map (\<lambda>ev. ev env) evs))"
proof (cases "builtin_from_name name")
  case None
  then show ?thesis by (intro only_errors_ok) (simp add: compile_call_def)
next
  case (Some bi)
  show ?thesis
  proof (cases "bi = BIf")
    case True
    then have name: "name = ''if''" using Some by (auto simp: builtin_from_name_def split: if_splits)
    have eq: "compile_call name gs = compile_if gs" using Some True by (simp add: compile_call_def fun_eq_iff)
    show ?thesis
    proof (cases "length gs = 3")
      case False
      then show ?thesis unfolding eq by (intro only_errors_ok) (simp add: compile_if_def)
    next
      case True
      then obtain g1 g2 g3 where g: "gs = [g1, g2, g3]" by (auto simp: numeral_3_eq_3 length_Suc_conv)
      then obtain e1 e2 e3 where "evs = [e1, e2, e3]" "gen_ok F inputs g1 e1" "gen_ok F inputs g2 e2" "gen_ok F inputs g3 e3"
        using gs by (auto simp: list_all2_Cons1)
      then show ?thesis unfolding eq unfolding name g using if_ok laws by force
    qed
  qed (use call_builtin_ok [OF gs Some] in blast)
qed

section \<open>Expressions\<close>

text \<open>The input slots that a formula reads directly are in range.\<close>

fun slots_ok :: "nat \<Rightarrow> 'f expr \<Rightarrow> bool" where
  "slots_ok n (EInput slot) = (slot < n)"
| "slots_ok n (EUnary op e) = slots_ok n e"
| "slots_ok n (EBinary l op r) = (slots_ok n l \<and> slots_ok n r)"
| "slots_ok n (ECall name args) = (\<forall>e \<in> set args. slots_ok n e)"
| "slots_ok n _ = True"

lemma name_ok:
  assumes "bindings_ok b" "input_len b \<le> length inputs"
  shows "gen_ok F inputs (compile_name b name)
    (\<lambda>env. case env name of Some v \<Rightarrow> Some v | None \<Rightarrow> Option.bind (resolve_plain b name) (input_value inputs))" (is "gen_ok F inputs _ ?ev")
  unfolding gen_ok_iff
proof (intro allI impI conjI)
  fix c :: "'a compiler" assume c: "compiler_ok c"
  show "compile_name b name c \<noteq> None" by (simp add: compile_name_def compile_leaf_def split: option.splits)
  fix ty c' assume r: "compile_name b name c = Some (Inr (ty, c'))"
  show "gen_result F inputs ?ev c ty c'"
  proof (cases "c_locals c name")
    case (Some li)
    show ?thesis
    proof (rule leaf_result [OF c])
      show "compile_leaf (LoadLocal (li_slot li)) (li_value_type li) c = Some (Inr (ty, c'))" using r Some by (simp add: compile_name_def)
      show "\<exists>v. ?ev env = Some v \<and> fvalue_type v = li_value_type li \<and>
          vm_exec F inputs (LoadLocal (li_slot li)) m = map_option vm_next (vm_push m (encode F v))" if "env_fits F c env (vm_locals m)" for env m
        using that Some unfolding env_fits_def by (auto simp: index_get_def dest!: spec [of _ name] spec [of _ li])
    qed
  next
    case None
    then obtain slot where slot: "resolve_plain b name = Some slot" "compile_leaf (LoadInput slot) TyNumber c = Some (Inr (ty, c'))"
      using r by (auto simp: compile_name_def split: option.splits)
    have in_range: "slot < length inputs" using assms slot(1) by (fastforce simp: bindings_ok_def resolve_plain_def input_len_def)
    show ?thesis
    proof (rule leaf_result [OF c slot(2)])
      show "\<exists>v. ?ev env = Some v \<and> fvalue_type v = TyNumber \<and>
          vm_exec F inputs (LoadInput slot) m = map_option vm_next (vm_push m (encode F v))" if "env_fits F c env (vm_locals m)" for env m
      proof -
        have "env name = None" using that None unfolding env_fits_def by (metis domIff)
        then show ?thesis using slot(1) in_range by (simp add: input_value_def index_get_def)
      qed
    qed
  qed
qed

lemma compile_binary_ok:
  assumes "gen_ok F inputs l evl" "gen_ok F inputs r evr" "f64_laws F"
  shows "gen_ok F inputs (compile_binary l op r) (\<lambda>env. binary_meaning F op (evl env) (evr env))"
  using numbers_ok [OF assms(1,2), of op] equality_ok [OF assms(1,2) _ assms(3), of op] lazy_ok [OF assms, of op]
  by (cases op) (simp_all add: compile_binary_def is_arith_def is_order_def lazy_jump_def)

lemma compile_expr_fun:
  "compile_expr b (ENumber v) = compile_leaf (PushNumber v) TyNumber" "compile_expr b (EBool v') = compile_leaf (PushBool v') TyBool"
  "compile_expr b (EInput slot) = compile_leaf (LoadInput slot) TyNumber" "compile_expr b (EName name) = compile_name b name"
  "compile_expr b (EUnary op1 e) = compile_unary op1 (compile_expr b e)"
  "compile_expr b (EBinary l op r) = compile_binary (compile_expr b l) op (compile_expr b r)"
  "compile_expr b (ECall name args) = compile_call name (map (compile_expr b) args)"
  by (simp_all add: fun_eq_iff)

theorem compile_expr_ok:
  assumes "bindings_ok b" "input_len b \<le> length inputs" "f64_laws F" "slots_ok (length inputs) e"
  shows "gen_ok F inputs (compile_expr b e) (\<lambda>env. meaning F b inputs env e)"
  using assms(4)
proof (induction e)
  case (ECall name args)
  have "list_all2 (gen_ok F inputs) (map (compile_expr b) args) (map (\<lambda>e env. meaning F b inputs env e) args)"
    using ECall by (auto simp: list_all2_conv_all_nth)
  from call_ok [OF this assms(3), of name] show ?case by (simp add: compile_expr_fun comp_def)
qed (use assms in \<open>auto simp: compile_expr_fun name_ok input_value_def index_get_def unary_ok compile_binary_ok intro!: leaf_ok\<close>)

section \<open>Programs\<close>

text \<open>Names have slots of their own, below the next one.\<close>

definition locals_ok :: "'f compiler \<Rightarrow> bool" where
  "locals_ok c \<longleftrightarrow> c_stack_depth c = 0 \<and> (\<forall>name li. c_locals c name = Some li \<longrightarrow> li_slot li < c_next_local_slot c) \<and>
     (\<forall>n1 n2 l1 l2. c_locals c n1 = Some l1 \<longrightarrow> c_locals c n2 = Some l2 \<longrightarrow> li_slot l1 = li_slot l2 \<longrightarrow> n1 = n2)"

definition after_pop :: "'f instruction \<Rightarrow> 'f compiler \<Rightarrow> 'f compiler" where
  "after_pop i c = pop_n 1 (emit i c)"

lemma after_pop_simps [simp]:
  "c_code (after_pop i c) = c_code c @ [i]" "c_locals (after_pop i c) = c_locals c" "c_next_local_slot (after_pop i c) = c_next_local_slot c"
  "c_stack_depth (after_pop i c) = usize_sub (c_stack_depth c) 1" "c_max_stack_depth (after_pop i c) = c_max_stack_depth c"
  by (simp_all add: after_pop_def pop_n_def emit_def)

lemma local_slot_ok:
  assumes "locals_ok c" "grows 1 c seg c1" "local_slot name ty c1 = Some (Inr (slot, c2))"
  shows "locals_ok (after_pop (StoreLocal slot) c2)" "compiler_ok (after_pop (StoreLocal slot) c2)" "c_code c2 = c_code c1"
    "c_max_stack_depth c2 = c_max_stack_depth c1" "c_next_local_slot c1 \<le> c_next_local_slot c2" "slot < c_next_local_slot c2"
    "c_locals c2 = (c_locals c)(name \<mapsto> \<lparr>li_slot = slot, li_value_type = ty\<rparr>)"
    "\<And>n li. c_locals c n = Some li \<Longrightarrow> n \<noteq> name \<Longrightarrow> li_slot li \<noteq> slot"
  using assms by (auto simp: locals_ok_def local_slot_def compiler_ok_def grows_def Let_def fun_eq_iff split: option.splits if_splits)
     (metis less_SucI less_irrefl)+

text \<open>Storing the value on top of an otherwise empty stack.\<close>

lemma store_fits:
  assumes fit: "fits F c env m" and c: "locals_ok c" "grows 1 c seg c1" "local_slot name (fvalue_type v) c1 = Some (Inr (slot, c2))"
    and max: "c_next_local_slot c2 \<le> MAX_LOCALS" and m1: "pushed m [encode F v] (vm_pc m + length seg) m1"
  shows "\<exists>m2. vm_exec F inputs (StoreLocal slot) m1 = Some m2 \<and> fits F (after_pop (StoreLocal slot) c2) (env(name \<mapsto> v)) m2"
proof -
  note ls = local_slot_ok [OF c]
  let ?ls = "(vm_locals m1)[slot := encode F v]"
  let ?m = "m1\<lparr>vm_sp := vm_sp m, vm_locals := ?ls, vm_pc := vm_pc m1 + 1\<rparr>"
  have len: "length (vm_locals m1) = MAX_LOCALS" "slot < MAX_LOCALS" using fit m1 ls(6) max by (auto simp: fits_def env_fits_def pushed_def)
  have "vm_exec F inputs (StoreLocal slot) m1 = Some ?m" using pushed_top [OF m1] len by (auto simp: index_put_def vm_next_def Let_def)
  moreover have "env_fits F (after_pop (StoreLocal slot) c2) (env(name \<mapsto> v)) ?ls"
    using fit m1 len ls(7,8) by (auto simp: fits_def env_fits_def pushed_def) (metis nth_list_update_neq)
  moreover have "vm_at ?m (length (c_code (after_pop (StoreLocal slot) c2))) (c_stack_depth (after_pop (StoreLocal slot) c2))"
    using fit m1 ls(1,3) growsD(1) [OF c(2)] c(1) by (auto simp: fits_def vm_at_def pushed_def locals_ok_def)
  ultimately show ?thesis by (auto simp: fits_def)
qed

text \<open>Dropping the value of an expression statement.\<close>

lemma drop_fits:
  assumes "fits F c env m" "locals_ok c" "grows 1 c seg c1" "pushed m [x] (vm_pc m + length seg) m1"
  shows "\<exists>m2. vm_exec F inputs IPop m1 = Some m2 \<and> fits F (after_pop IPop c1) env m2"
  using assms pushed_top [OF assms(4)]
  by (auto simp: fits_def vm_at_def env_fits_def pushed_def grows_def vm_next_def locals_ok_def)

definition sts_done :: "'f f64_ops \<Rightarrow> 'f list \<Rightarrow> 'f instruction list \<Rightarrow> 'f vm \<Rightarrow> 'f \<Rightarrow> bool" where
  "sts_done F inputs seg m x \<longleftrightarrow> (\<exists>m'. moves F inputs (vm_pc m) seg m m' \<and> vm_pc m' = vm_pc m + length seg \<and>
     vm_sp m' = 1 \<and> length (vm_stack m') = MAX_STACK \<and> vm_stack m' ! 0 = x)"

lemma sts_done_step:
  assumes "seg_pushes F inputs sa m [y]"
    and "\<And>m1. pushed m [y] (vm_pc m + length sa) m1 \<Longrightarrow> \<exists>m2. vm_exec F inputs i m1 = Some m2 \<and> vm_pc m2 = vm_pc m1 + 1 \<and> sts_done F inputs sb m2 x"
  shows "sts_done F inputs (sa @ [i] @ sb) m x"
proof -
  obtain m1 where m1: "pushed m [y] (vm_pc m + length sa) m1" "moves F inputs (vm_pc m) sa m m1" using assms(1) by (auto simp: seg_pushes_def)
  have pc: "vm_pc m1 = vm_pc m + length sa" using m1(1) by (simp add: pushed_def)
  obtain m2 m3 where m2: "vm_exec F inputs i m1 = Some m2" "vm_pc m2 = vm_pc m1 + 1" and m3: "moves F inputs (vm_pc m2) sb m2 m3" "vm_pc m3 = vm_pc m2 + length sb"
      "vm_sp m3 = 1" "length (vm_stack m3) = MAX_STACK" "vm_stack m3 ! 0 = x"
    using assms(2) [OF m1(1)] by (auto simp: sts_done_def)
  have "moves F inputs (vm_pc m) (sa @ [i] @ sb) m m1" using moves_first(2) [OF m1(2)] .
  moreover have "moves F inputs (vm_pc m) (sa @ [i] @ sb) m1 m2" using moves_step [OF m2(1) pc] by simp
  moreover have "moves F inputs (vm_pc m) (sa @ [i] @ sb) m2 m3"
    using moves_part [of F inputs "vm_pc m" "sa @ [i]" sb m2 m3 "[]"] m3(1) m2(2) pc by (simp add: add.assoc)
  moreover have "vm_pc m3 = vm_pc m + length (sa @ [i] @ sb)" using m3(2) m2(2) pc by simp
  ultimately show ?thesis using m3(3-5) moves_trans unfolding sts_done_def by blast
qed

fun statement_expr :: "'f statement \<Rightarrow> 'f expr" where
  "statement_expr (SAssign _ e) = e"
| "statement_expr (SExpr e) = e"

definition sts_result :: "'f f64_ops \<Rightarrow> bindings \<Rightarrow> 'f list \<Rightarrow> 'f statement list \<Rightarrow> 'f compiler \<Rightarrow> value_type \<Rightarrow> 'f compiler \<Rightarrow> bool" where
  "sts_result F b inputs sts c ty c' \<longleftrightarrow> (\<exists>seg. c_code c' = c_code c @ seg \<and> c_max_stack_depth c \<le> c_max_stack_depth c' \<and>
     c_next_local_slot c \<le> c_next_local_slot c' \<and> (\<forall>env m. fits F c env m \<longrightarrow> ty \<noteq> TyEmpty \<longrightarrow> c_max_stack_depth c' \<le> MAX_STACK \<longrightarrow>
       c_next_local_slot c' \<le> MAX_LOCALS \<longrightarrow> (\<exists>v. run_meaning F b inputs env sts = Some v \<and> fvalue_type v = ty \<and> sts_done F inputs seg m (encode F v))))"

lemma statements_no_panic:
  fixes F :: "'f f64_ops" and inputs :: "'f list" and sts :: "'f statement list"
  assumes "bindings_ok b" "input_len b \<le> length inputs" "f64_laws F" "\<forall>st \<in> set sts. slots_ok (length inputs) (statement_expr st)"
    and "compiler_ok c"
  shows "compile_statements b trailing sts rt c \<noteq> None"
  using assms(4,5)
proof (induction sts arbitrary: rt c)
  case (Cons st sts)
  have g: "gen_ok F inputs (compile_expr b (statement_expr st)) (\<lambda>env. meaning F b inputs env (statement_expr st))"
    using compile_expr_ok [OF assms(1-3)] Cons.prems(1) by simp
  have np: "compile_expr b (statement_expr st) c \<noteq> None" using gen_ok_no_panic [OF g Cons.prems(2)] .
  have ok: "compiler_ok c1 \<and> 0 < c_stack_depth c1" if "compile_expr b (statement_expr st) c = Some (Inr (ty, c1))" for ty c1
    using gen_okE [OF g Cons.prems(2) that] growsD(4,6) by (metis add_gr_0 less_numeral_extra(1))
  have pop: "compiler_ok (after_pop i c2)" if "compiler_ok c1 \<and> 0 < c_stack_depth c1" "local_slot name ty c1 = Some (Inr (slot, c2)) \<or> c2 = c1"
    for i c1 c2 name ty slot
    using that by (auto simp: compiler_ok_def usize_sub_def local_slot_def Let_def split: option.splits if_splits)
  have ls: "local_slot name ty c1 \<noteq> None" for name ty and c1 :: "'f compiler" by (simp add: local_slot_def Let_def split: option.splits)
  have IH: "compile_statements b trailing sts rt' c2 \<noteq> None" if "compiler_ok c2" for rt' c2 using Cons.IH [OF _ that] Cons.prems(1) by simp
  show ?case
  proof (cases st)
    case (SAssign name e)
    have "local_slot name ty c1 \<noteq> None \<and> (\<forall>slot c2 rt'. local_slot name ty c1 = Some (Inr (slot, c2)) \<longrightarrow>
        compile_statements b trailing sts rt' (after_pop (StoreLocal slot) c2) \<noteq> None)" if "compile_expr b e c = Some (Inr (ty, c1))" for ty c1
      using ls IH pop ok that SAssign by (metis statement_expr.simps(1))
    then show ?thesis using np SAssign by (auto simp: cbind_None after_pop_def Let_def simp del: not_None_eq)
  next
    case (SExpr e)
    have "compile_statements b trailing sts rt' (after_pop IPop c1) \<noteq> None" "sts = [] \<longrightarrow> compile_statements b trailing sts rt' c1 \<noteq> None"
      if "compile_expr b e c = Some (Inr (ty, c1))" for ty c1 rt'
      using IH pop ok that SExpr by (metis statement_expr.simps(2), simp)
    then show ?thesis using np SExpr by (auto simp: cbind_None after_pop_def simp del: not_None_eq split: if_splits)
  qed
qed simp

text \<open>What compiling an expression gives, and what the statements make of it.\<close>

definition expr_result :: "'f f64_ops \<Rightarrow> bindings \<Rightarrow> 'f list \<Rightarrow> 'f expr \<Rightarrow> 'f compiler \<Rightarrow> 'f instruction list \<Rightarrow> value_type \<Rightarrow> 'f compiler \<Rightarrow> bool" where
  "expr_result F b inputs e c sa ty c1 \<longleftrightarrow> grows 1 c sa c1 \<and> (\<forall>env m. fits F c env m \<longrightarrow> c_max_stack_depth c1 \<le> MAX_STACK \<longrightarrow>
     (\<exists>v. meaning F b inputs env e = Some v \<and> fvalue_type v = ty \<and> seg_pushes F inputs sa m [encode F v]))"

lemma fits_pc: "fits F c env m \<Longrightarrow> vm_pc m = length (c_code c)"
  by (simp add: fits_def vm_at_def)

lemma assign_result:
  assumes c: "locals_ok c" and e: "expr_result F b inputs e c sa ty1 c1" and slot: "local_slot name ty1 c1 = Some (Inr (slot, c2))"
    and rest: "sts_result F b inputs sts (after_pop (StoreLocal slot) c2) ty c'"
  shows "sts_result F b inputs (SAssign name e # sts) c ty c'"
proof -
  have g: "grows 1 c sa c1" using e by (simp add: expr_result_def)
  note ls = local_slot_ok [OF c g slot]
  obtain sb where sb: "c_code c' = c_code c1 @ [StoreLocal slot] @ sb" "c_max_stack_depth c1 \<le> c_max_stack_depth c'" "c_next_local_slot c2 \<le> c_next_local_slot c'"
    and fin: "\<And>env m. fits F (after_pop (StoreLocal slot) c2) env m \<Longrightarrow> ty \<noteq> TyEmpty \<Longrightarrow> c_max_stack_depth c' \<le> MAX_STACK \<Longrightarrow> c_next_local_slot c' \<le> MAX_LOCALS \<Longrightarrow>
      \<exists>v. run_meaning F b inputs env sts = Some v \<and> fvalue_type v = ty \<and> sts_done F inputs sb m (encode F v)"
    using rest ls(3,4) by (auto simp: sts_result_def)
  have "\<exists>w. run_meaning F b inputs env (SAssign name e # sts) = Some w \<and> fvalue_type w = ty \<and> sts_done F inputs (sa @ [StoreLocal slot] @ sb) m (encode F w)"
    if a: "fits F c env m" "ty \<noteq> TyEmpty" "c_max_stack_depth c' \<le> MAX_STACK" "c_next_local_slot c' \<le> MAX_LOCALS" for env m
  proof -
    obtain v where v: "meaning F b inputs env e = Some v" "fvalue_type v = ty1" "seg_pushes F inputs sa m [encode F v]"
      using e a(1,3) sb(2) unfolding expr_result_def by (meson le_trans)
    have store: "\<exists>m2. vm_exec F inputs (StoreLocal slot) m1 = Some m2 \<and> fits F (after_pop (StoreLocal slot) c2) (env(name \<mapsto> v)) m2"
      if "pushed m [encode F v] (vm_pc m + length sa) m1" for m1
      using store_fits [OF a(1) c g _ _ that] slot v(2) sb(3) a(4) by auto
    obtain m1 where "pushed m [encode F v] (vm_pc m + length sa) m1" using v(3) by (auto simp: seg_pushes_def)
    then obtain w where w: "run_meaning F b inputs (env(name \<mapsto> v)) sts = Some w" "fvalue_type w = ty" using store fin a(2-4) by blast
    have "sts_done F inputs (sa @ [StoreLocal slot] @ sb) m (encode F w)"
    proof (rule sts_done_step [OF v(3)])
      fix m1 assume m1: "pushed m [encode F v] (vm_pc m + length sa) m1"
      then obtain m2 where m2: "vm_exec F inputs (StoreLocal slot) m1 = Some m2" "fits F (after_pop (StoreLocal slot) c2) (env(name \<mapsto> v)) m2"
        using store by blast
      then show "\<exists>m2. vm_exec F inputs (StoreLocal slot) m1 = Some m2 \<and> vm_pc m2 = vm_pc m1 + 1 \<and> sts_done F inputs sb m2 (encode F w)"
        using fin [OF m2(2) a(2-4)] w fits_pc [OF m2(2)] m1 fits_pc [OF a(1)] growsD(1) [OF g] ls(3) by (auto simp: pushed_def)
    qed
    then show ?thesis using v(1) w by auto
  qed
  then show ?thesis
    using sb growsD(1,3,5) [OF g] ls(5) unfolding sts_result_def by (intro exI [of _ "sa @ [StoreLocal slot] @ sb"]) auto
qed

lemma drop_result:
  assumes c: "locals_ok c" and e: "expr_result F b inputs e c sa ty1 c1"
    and rest: "sts_result F b inputs sts (after_pop IPop c1) ty c'" and nonempty: "sts = [] \<longrightarrow> ty = TyEmpty"
  shows "sts_result F b inputs (SExpr e # sts) c ty c'"
proof -
  have g: "grows 1 c sa c1" using e by (simp add: expr_result_def)
  obtain sb where sb: "c_code c' = c_code c1 @ [IPop] @ sb" "c_max_stack_depth c1 \<le> c_max_stack_depth c'" "c_next_local_slot c1 \<le> c_next_local_slot c'"
    and fin: "\<And>env m. fits F (after_pop IPop c1) env m \<Longrightarrow> ty \<noteq> TyEmpty \<Longrightarrow> c_max_stack_depth c' \<le> MAX_STACK \<Longrightarrow> c_next_local_slot c' \<le> MAX_LOCALS \<Longrightarrow>
      \<exists>v. run_meaning F b inputs env sts = Some v \<and> fvalue_type v = ty \<and> sts_done F inputs sb m (encode F v)"
    using rest by (auto simp: sts_result_def)
  have "\<exists>w. run_meaning F b inputs env (SExpr e # sts) = Some w \<and> fvalue_type w = ty \<and> sts_done F inputs (sa @ [IPop] @ sb) m (encode F w)"
    if a: "fits F c env m" "ty \<noteq> TyEmpty" "c_max_stack_depth c' \<le> MAX_STACK" "c_next_local_slot c' \<le> MAX_LOCALS" for env m
  proof -
    obtain v where v: "meaning F b inputs env e = Some v" "fvalue_type v = ty1" "seg_pushes F inputs sa m [encode F v]"
      using e a(1,3) sb(2) unfolding expr_result_def by (meson le_trans)
    note pop = drop_fits [OF a(1) c g]
    obtain m1 where "pushed m [encode F v] (vm_pc m + length sa) m1" using v(3) by (auto simp: seg_pushes_def)
    then obtain w where w: "run_meaning F b inputs env sts = Some w" "fvalue_type w = ty" using pop fin a(2-4) by blast
    have "sts_done F inputs (sa @ [IPop] @ sb) m (encode F w)"
    proof (rule sts_done_step [OF v(3)])
      fix m1 assume m1: "pushed m [encode F v] (vm_pc m + length sa) m1"
      then obtain m2 where m2: "vm_exec F inputs IPop m1 = Some m2" "fits F (after_pop IPop c1) env m2" using pop by blast
      then show "\<exists>m2. vm_exec F inputs IPop m1 = Some m2 \<and> vm_pc m2 = vm_pc m1 + 1 \<and> sts_done F inputs sb m2 (encode F w)"
        using fin [OF m2(2) a(2-4)] w by (auto simp: vm_next_def)
    qed
    then show ?thesis using v(1) w nonempty a(2) by auto
  qed
  then show ?thesis
    using sb growsD(1,3,5) [OF g] unfolding sts_result_def by (intro exI [of _ "sa @ [IPop] @ sb"]) auto
qed

lemma last_result:
  assumes c: "locals_ok c" and e: "expr_result F b inputs e c sa ty c1"
  shows "sts_result F b inputs [SExpr e] c ty c1"
proof -
  have "sts_done F inputs sa m x" if "fits F c env m" "seg_pushes F inputs sa m [x]" for env m x
    using that c by (auto simp: sts_done_def seg_pushes_def pushed_def fits_def vm_at_def locals_ok_def)
  moreover have g: "grows 1 c sa c1" using e by (simp add: expr_result_def)
  ultimately show ?thesis using e growsD(1,3,5) [OF g] unfolding sts_result_def expr_result_def
    by (intro exI [of _ sa] conjI) (simp_all, blast)
qed

lemma statements_result:
  assumes "bindings_ok b" "input_len b \<le> length inputs" "f64_laws F" "\<forall>st \<in> set sts. slots_ok (length inputs) (statement_expr st)"
    and "locals_ok c" "compile_statements b trailing sts TyEmpty c = Some (Inr (ty, c'))"
  shows "sts_result F b inputs sts c ty c'"
  using assms(4-6)
proof (induction sts arbitrary: c)
  case Nil
  then show ?case by (simp add: sts_result_def)
next
  case (Cons st sts)
  let ?e = "statement_expr st"
  have c: "compiler_ok c" using Cons.prems(2) by (simp add: locals_ok_def compiler_ok_def)
  have g: "gen_ok F inputs (compile_expr b ?e) (\<lambda>env. meaning F b inputs env ?e)"
    using compile_expr_ok [OF assms(1-3)] Cons.prems(1) by simp
  obtain ty1 c1 where e: "compile_expr b ?e c = Some (Inr (ty1, c1))" using Cons.prems(3) by (cases st) (auto simp: cbind_Inr)
  obtain sa where sa: "expr_result F b inputs ?e c sa ty1 c1"
    using gen_okE [OF g c e] unfolding expr_result_def by metis
  show ?case
  proof (cases st)
    case (SAssign name e')
    then obtain slot c2 where r: "local_slot name ty1 c1 = Some (Inr (slot, c2))"
        "compile_statements b trailing sts TyEmpty (after_pop (StoreLocal slot) c2) = Some (Inr (ty, c'))"
      using Cons.prems(3) e by (auto simp: cbind_Inr after_pop_def Let_def split: if_splits)
    have g1: "grows 1 c sa c1" using sa by (simp add: expr_result_def)
    show ?thesis
      using assign_result [OF Cons.prems(2) _ r(1) Cons.IH [OF _ local_slot_ok(1) [OF Cons.prems(2) g1 r(1)] r(2)]] sa Cons.prems(1) SAssign by simp
  next
    case (SExpr e')
    have lo: "locals_ok (after_pop IPop c1)" using sa Cons.prems(2) by (auto simp: expr_result_def grows_def locals_ok_def)
    show ?thesis
    proof (cases "sts = [] \<and> \<not> trailing")
      case True
      then show ?thesis using last_result [OF Cons.prems(2)] sa Cons.prems(3) e SExpr by auto
    next
      case False
      then have r: "compile_statements b trailing sts TyEmpty (after_pop IPop c1) = Some (Inr (ty, c'))"
        using Cons.prems(3) e SExpr by (auto simp: after_pop_def)
      have ty: "sts = [] \<longrightarrow> ty = TyEmpty" using r by auto
      have "sts_result F b inputs sts (after_pop IPop c1) ty c'" using Cons.IH [OF _ lo r] Cons.prems(1) by simp
      from drop_result [OF Cons.prems(2) _ this ty] show ?thesis using sa SExpr by simp
    qed
  qed
qed

definition program_slots_ok :: "nat \<Rightarrow> 'f program \<Rightarrow> bool" where
  "program_slots_ok n p \<longleftrightarrow> (\<forall>st \<in> set (pr_statements p). slots_ok n (statement_expr st))"

lemma slots_ok_mono: "slots_ok n e \<Longrightarrow> n \<le> k \<Longrightarrow> slots_ok k e"
  by (induction e) auto

theorem compile_program_total:
  fixes F :: "'f f64_ops" and p :: "'f program"
  assumes "bindings_ok b" "f64_laws F" "program_slots_ok (input_len b) p"
  shows "compile_program b p \<noteq> None"
proof -
  have "compile_statements b (pr_trailing_semicolon p) (pr_statements p) TyEmpty compiler_new \<noteq> None"
    using assms by (intro statements_no_panic [of b "replicate (input_len b) (f_zero F)" F])
      (auto simp: program_slots_ok_def compiler_ok_def compiler_new_def)
  then show ?thesis by (auto simp: compile_program_def cbind_None simp del: not_None_eq)
qed

theorem compile_program_correct:
  assumes "bindings_ok b" "f64_laws F" "program_slots_ok (input_len b) p"
    and comp: "compile_program b p = Some (Inr ce)" and ty: "ce_result_type ce \<noteq> TyEmpty" and len: "input_len b \<le> length inputs"
  shows "\<exists>v. run_meaning F b inputs Map.empty (pr_statements p) = Some v \<and> fvalue_type v = ce_result_type ce \<and>
    eval_number F ce inputs = Some (Some (Inr (encode F v)))"
proof -
  obtain c where c: "compile_statements b (pr_trailing_semicolon p) (pr_statements p) TyEmpty compiler_new = Some (Inr (ce_result_type ce, c))"
    "c_max_stack_depth c \<le> MAX_STACK" "c_next_local_slot c \<le> MAX_LOCALS" "ce_code ce = c_code c" "ce_input_len ce = input_len b"
    using comp by (auto simp: compile_program_def cbind_Inr split: if_splits)
  have slots: "\<forall>st \<in> set (pr_statements p). slots_ok (length inputs) (statement_expr st)"
    using assms(3) len slots_ok_mono by (auto simp: program_slots_ok_def)
  have "sts_result F b inputs (pr_statements p) compiler_new (ce_result_type ce) c"
    by (rule statements_result [OF assms(1) len assms(2) slots _ c(1)]) (simp add: locals_ok_def compiler_new_def)
  moreover have "fits F compiler_new Map.empty (vm_init F)"
    by (simp add: fits_def vm_at_def env_fits_def compiler_new_def vm_init_def)
  ultimately obtain v where v: "run_meaning F b inputs Map.empty (pr_statements p) = Some v" "fvalue_type v = ce_result_type ce"
      "sts_done F inputs (c_code c) (vm_init F) (encode F v)"
    using ty c(2,3) unfolding sts_result_def by (auto simp: compiler_new_def)
  then obtain m where m: "moves F inputs 0 (c_code c) (vm_init F) m" "vm_pc m = length (c_code c)" "vm_sp m = 1" "length (vm_stack m) = MAX_STACK" "vm_stack m ! 0 = encode F v"
    by (auto simp: sts_done_def vm_init_def)
  have "vm_run F (ce_code ce) inputs (vm_init F) = Some (Some m)"
    using m(1) [unfolded moves_def, rule_format, of "[]" "[]"] vm_run_end [of "c_code c" m] m(2) c(4) by simp
  then have "eval_number F ce inputs = Some (Some (Inr (encode F v)))"
    using ty len c(5) m(3-5) by (simp add: eval_number_def eval_core_def index_get_def MAX_STACK_def)
  then show ?thesis using v(1,2) by auto
qed

end
