(* ===== verification/Formula_Parser.thy ===== *)
theory Formula_Parser
  imports Formula_Correct
begin

text \<open>
  The parser of formulas (\<open>crates/model/src/expressions/parser.rs\<close>), a precedence climbing parser over an
  index into the tokens.

  On tokens that do not end with the end marker the source recurses forever, so that the recursion has fuel;
  \<open>OutOfFuel\<close> is not a result of the source. With the fuel of \<open>parse\<close>, the number of tokens, it does not
  occur on tokens that end with the marker, as those of the lexer do, and more fuel gives the same result.
  \<open>ParsePanic\<close> is an index out of range. The methods that \<open>parse_expression\<close> calls and that call it take it as an
  argument \<open>pe\<close>.
\<close>

datatype 'a parsed = Parsed 'a nat | ParseError expression_error | ParsePanic | OutOfFuel

fun pbind :: "'a parsed \<Rightarrow> ('a \<Rightarrow> nat \<Rightarrow> 'b parsed) \<Rightarrow> 'b parsed" where
  "pbind (Parsed x i) f = f x i"
| "pbind (ParseError e) f = ParseError e"
| "pbind ParsePanic f = ParsePanic"
| "pbind OutOfFuel f = OutOfFuel"

definition current :: "'f token list \<Rightarrow> nat \<Rightarrow> ('f token \<Rightarrow> 'b parsed) \<Rightarrow> 'b parsed" where
  "current ts i f = (if i < length ts then f (ts ! i) else ParsePanic)"

definition peek :: "'f token list \<Rightarrow> nat \<Rightarrow> ('f token \<Rightarrow> 'b parsed) \<Rightarrow> 'b parsed" where
  "peek ts i f = (if i + 1 < length ts then f (ts ! (i + 1)) else if ts \<noteq> [] then f (last ts) else ParsePanic)"

definition advance :: "'f token list \<Rightarrow> nat \<Rightarrow> nat" where
  "advance ts i = (if i + 1 < length ts then i + 1 else i)"

fun binary_op_of :: "'f token_kind \<Rightarrow> (binary_op \<times> nat \<times> bool) option" where
  "binary_op_of TOrOr = Some (OOr, 1, False)"
| "binary_op_of TAndAnd = Some (OAnd, 2, False)"
| "binary_op_of TEqualEqual = Some (OEq, 3, False)"
| "binary_op_of TBangEqual = Some (ONeq, 3, False)"
| "binary_op_of TLess = Some (OLt, 4, False)"
| "binary_op_of TLessEqual = Some (OLe, 4, False)"
| "binary_op_of TGreater = Some (OGt, 4, False)"
| "binary_op_of TGreaterEqual = Some (OGe, 4, False)"
| "binary_op_of TPlus = Some (OAdd, 5, False)"
| "binary_op_of TMinus = Some (OSub, 5, False)"
| "binary_op_of TStar = Some (OMul, 6, False)"
| "binary_op_of TSlash = Some (ODiv, 6, False)"
| "binary_op_of TPercent = Some (OMod, 6, False)"
| "binary_op_of TCaret = Some (OPow, 7, True)"
| "binary_op_of _ = None"

definition unexpected :: "'f f64_ops \<Rightarrow> string \<Rightarrow> 'f token \<Rightarrow> 'b parsed" where
  "unexpected F expected tok = ParseError (UnexpectedToken expected (description F (t_kind tok)) (t_position tok))"

definition expect_right_paren :: "'f token list \<Rightarrow> nat \<Rightarrow> nat \<Rightarrow> unit parsed" where
  "expect_right_paren ts position i = current ts i (\<lambda>tok.
     if t_kind tok \<noteq> TRightParen then ParseError (MissingClosingParen position) else Parsed () (advance ts i))"

definition expect_eof :: "'f f64_ops \<Rightarrow> 'f token list \<Rightarrow> nat \<Rightarrow> unit parsed" where
  "expect_eof F ts i = current ts i (\<lambda>tok. if t_kind tok = TEof then Parsed () i else unexpected F ''end of input'' tok)"

type_synonym 'f parse_expr = "nat \<Rightarrow> nat \<Rightarrow> 'f expr parsed"

text \<open>The loop of \<open>parse_expression\<close> over the operators.\<close>

fun parse_loop :: "'f parse_expr \<Rightarrow> nat \<Rightarrow> 'f token list \<Rightarrow> nat \<Rightarrow> 'f expr \<Rightarrow> nat \<Rightarrow> 'f expr parsed" where
  "parse_loop pe 0 ts min_precedence expr i = OutOfFuel"
| "parse_loop pe (Suc n) ts min_precedence expr i = current ts i (\<lambda>tok.
     case binary_op_of (t_kind tok) of
       None \<Rightarrow> Parsed expr i
     | Some (op, precedence, right_associative) \<Rightarrow>
         if precedence < min_precedence then Parsed expr i
         else pbind (pe (if right_associative then precedence else precedence + 1) (advance ts i))
                (\<lambda>right i. parse_loop pe n ts min_precedence (EBinary expr op right) i))"

text \<open>The loop of \<open>parse_call_args\<close> over the arguments.\<close>

fun parse_more_args :: "'f f64_ops \<Rightarrow> 'f parse_expr \<Rightarrow> nat \<Rightarrow> 'f token list \<Rightarrow> 'f expr list \<Rightarrow> nat \<Rightarrow> 'f expr list parsed" where
  "parse_more_args F pe 0 ts args i = OutOfFuel"
| "parse_more_args F pe (Suc n) ts args i =
     pbind (pe 0 i) (\<lambda>expr i.
     current ts i (\<lambda>tok.
       if t_kind tok = TComma then parse_more_args F pe n ts (args @ [expr]) (advance ts i)
       else if t_kind tok = TRightParen then Parsed (args @ [expr]) (advance ts i)
       else unexpected F ''`,` or `)`'' tok))"

definition parse_call_args :: "'f f64_ops \<Rightarrow> 'f parse_expr \<Rightarrow> nat \<Rightarrow> 'f token list \<Rightarrow> nat \<Rightarrow> 'f expr list parsed" where
  "parse_call_args F pe n ts i = current ts i (\<lambda>tok.
     if t_kind tok = TRightParen then Parsed [] (advance ts i) else parse_more_args F pe n ts [] i)"

definition parse_prefix :: "'f f64_ops \<Rightarrow> 'f parse_expr \<Rightarrow> nat \<Rightarrow> 'f token list \<Rightarrow> nat \<Rightarrow> 'f expr parsed" where
  "parse_prefix F pe n ts i = current ts i (\<lambda>tok.
     case t_kind tok of
       TNumber v \<Rightarrow> Parsed (ENumber v) (advance ts i)
     | TBool v \<Rightarrow> Parsed (EBool v) (advance ts i)
     | TBinding slot \<Rightarrow> Parsed (EInput slot) (advance ts i)
     | TIdent name \<Rightarrow>
         let i = advance ts i in
         current ts i (\<lambda>tok.
           if t_kind tok = TLeftParen then pbind (parse_call_args F pe n ts (advance ts i)) (\<lambda>args i. Parsed (ECall name args) i)
           else Parsed (EName name) i)
     | TLeftParen \<Rightarrow>
         pbind (pe 0 (advance ts i)) (\<lambda>expr i.
         pbind (expect_right_paren ts (t_position tok) i) (\<lambda>_ i. Parsed expr i))
     | TMinus \<Rightarrow> pbind (pe 7 (advance ts i)) (\<lambda>expr i. Parsed (EUnary UNeg expr) i)
     | TBang \<Rightarrow> pbind (pe 7 (advance ts i)) (\<lambda>expr i. Parsed (EUnary UNot expr) i)
     | _ \<Rightarrow> unexpected F ''an expression'' tok)"

fun parse_expression :: "'f f64_ops \<Rightarrow> nat \<Rightarrow> 'f token list \<Rightarrow> 'f parse_expr" where
  "parse_expression F 0 ts min_precedence i = OutOfFuel"
| "parse_expression F (Suc n) ts min_precedence i =
     pbind (parse_prefix F (parse_expression F n ts) n ts i) (\<lambda>expr i. parse_loop (parse_expression F n ts) n ts min_precedence expr i)"

definition parse_statement :: "'f f64_ops \<Rightarrow> nat \<Rightarrow> 'f token list \<Rightarrow> nat \<Rightarrow> 'f statement parsed" where
  "parse_statement F n ts i = current ts i (\<lambda>tok. peek ts i (\<lambda>next.
     case t_kind tok of
       TIdent name \<Rightarrow>
         if t_kind next = TAssign
         then pbind (parse_expression F n ts 0 (advance ts (advance ts i))) (\<lambda>expr i. Parsed (SAssign name expr) i)
         else pbind (parse_expression F n ts 0 i) (\<lambda>expr i. Parsed (SExpr expr) i)
     | _ \<Rightarrow> pbind (parse_expression F n ts 0 i) (\<lambda>expr i. Parsed (SExpr expr) i)))"

text \<open>The loop over the statements returns them with the flag of a final semicolon; \<open>n\<close> bounds the statements, \<open>k\<close> is the
  fuel of each.\<close>

fun parse_statements :: "'f f64_ops \<Rightarrow> nat \<Rightarrow> nat \<Rightarrow> 'f token list \<Rightarrow> 'f statement list \<Rightarrow> nat \<Rightarrow> ('f statement list \<times> bool) parsed" where
  "parse_statements F k 0 ts acc i = OutOfFuel"
| "parse_statements F k (Suc n) ts acc i =
     pbind (parse_statement F k ts i) (\<lambda>st i.
     current ts i (\<lambda>tok.
       if t_kind tok \<noteq> TSemicolon then Parsed (acc @ [st], False) i
       else let i = advance ts i in
         current ts i (\<lambda>tok. if t_kind tok = TEof then Parsed (acc @ [st], True) i else parse_statements F k n ts (acc @ [st]) i)))"

definition parse_program :: "'f f64_ops \<Rightarrow> nat \<Rightarrow> 'f token list \<Rightarrow> nat \<Rightarrow> 'f program parsed" where
  "parse_program F n ts i = current ts i (\<lambda>tok.
     if t_kind tok = TEof then ParseError EmptyExpression
     else pbind (parse_statements F n n ts [] i) (\<lambda>(sts, trailing) i.
          pbind (expect_eof F ts i) (\<lambda>_ i. Parsed \<lparr>pr_statements = sts, pr_trailing_semicolon = trailing\<rparr> i)))"

definition parse :: "'f f64_ops \<Rightarrow> 'f token list \<Rightarrow> 'f program parsed" where
  "parse F ts = parse_program F (length ts) ts 0"

section \<open>The parser returns\<close>

definition eof_ends :: "'f token list \<Rightarrow> bool" where
  "eof_ends ts \<longleftrightarrow> ts \<noteq> [] \<and> t_kind (last ts) = TEof"

text \<open>What a parse from \<open>i\<close> to \<open>j\<close> gives: not out of fuel, no panic, and progress.\<close>

definition returns :: "'f token list \<Rightarrow> nat \<Rightarrow> 'a parsed \<Rightarrow> bool" where
  "returns ts k r \<longleftrightarrow> r \<noteq> OutOfFuel \<and> r \<noteq> ParsePanic \<and> (\<forall>x j. r = Parsed x j \<longrightarrow> k \<le> j \<and> j < length ts)"

lemma returns_simps [simp]:
  "returns ts k (Parsed x j) \<longleftrightarrow> k \<le> j \<and> j < length ts" "returns ts k (ParseError e)" "returns ts k (unexpected F s tok)"
  by (auto simp: returns_def unexpected_def)

lemma returns_bind:
  assumes "returns ts k r" "\<And>x j. k \<le> j \<Longrightarrow> j < length ts \<Longrightarrow> r = Parsed x j \<Longrightarrow> returns ts k' (f x j)"
  shows "returns ts k' (pbind r f)"
  using assms by (cases r) (auto simp: returns_def)

lemma returns_current: "i < length ts \<Longrightarrow> returns ts k (f (ts ! i)) \<Longrightarrow> returns ts k (current ts i f)"
  by (simp add: current_def)

lemma returns_mono: "returns ts k r \<Longrightarrow> k' \<le> k \<Longrightarrow> returns ts k' r"
  by (auto simp: returns_def)

lemma advance_not_eof:
  assumes "eof_ends ts" "i < length ts" "t_kind (ts ! i) \<noteq> TEof"
  shows "advance ts i = i + 1" "i + 1 < length ts"
proof -
  have "i \<noteq> length ts - 1" using assms by (auto simp: eof_ends_def last_conv_nth)
  then show "i + 1 < length ts" using assms(2) by linarith
  then show "advance ts i = i + 1" by (simp add: advance_def)
qed

lemma binary_op_not_eof: "binary_op_of k = Some x \<Longrightarrow> k \<noteq> TEof"
  by auto

text \<open>A parser of expressions that returns from every index after \<open>i\<close>.\<close>

definition pe_returns :: "'f token list \<Rightarrow> nat \<Rightarrow> 'f parse_expr \<Rightarrow> bool" where
  "pe_returns ts i pe \<longleftrightarrow> (\<forall>p j. i < j \<longrightarrow> j < length ts \<longrightarrow> returns ts (j + 1) (pe p j))"

lemma pe_returnsD: "pe_returns ts i pe \<Longrightarrow> i < j \<Longrightarrow> j < length ts \<Longrightarrow> returns ts (j + 1) (pe p j)"
  by (simp add: pe_returns_def)

lemma loop_returns:
  assumes "eof_ends ts" "pe_returns ts i pe" "i \<le> j" "j < length ts" "length ts - j \<le> n"
  shows "returns ts j (parse_loop pe n ts p e j)"
  using assms(3-5)
proof (induction n arbitrary: e j)
  case (Suc n)
  show ?case
  proof (cases "binary_op_of (t_kind (ts ! j))")
    case (Some x)
    obtain op q ra where x: "x = (op, q, ra)" by (cases x)
    note adv = advance_not_eof [OF assms(1) Suc.prems(2) binary_op_not_eof [OF Some]]
    have "returns ts j (pbind (pe (if ra then q else q + 1) (advance ts j)) (\<lambda>right j. parse_loop pe n ts p (EBinary e op right) j))"
    proof (rule returns_bind)
      show "returns ts (j + 2) (pe (if ra then q else q + 1) (advance ts j))"
        using pe_returnsD [OF assms(2), of "j + 1" "if ra then q else q + 1"] Suc.prems(1) adv by simp
      show "returns ts j (parse_loop pe n ts p (EBinary e op x) k)" if "j + 2 \<le> k" "k < length ts" for x k
        using Suc.IH [of k "EBinary e op x"] that Suc.prems returns_mono by fastforce
    qed
    then show ?thesis using Some x Suc.prems(2) by (simp add: current_def)
  qed (use Suc.prems in \<open>simp add: current_def\<close>)
qed simp

lemma args_return:
  assumes "eof_ends ts" "pe_returns ts i pe" "i < j" "j < length ts" "length ts - j \<le> n"
  shows "returns ts (j + 1) (parse_more_args F pe n ts args j)"
  using assms(3-5)
proof (induction n arbitrary: args j)
  case (Suc n)
  show ?case unfolding parse_more_args.simps
  proof (rule returns_bind [OF pe_returnsD [OF assms(2) Suc.prems(1,2)]])
    fix x k assume k: "j + 1 \<le> k" "k < length ts"
    show "returns ts (j + 1) (current ts k (\<lambda>tok.
       if t_kind tok = TComma then parse_more_args F pe n ts (args @ [x]) (advance ts k)
       else if t_kind tok = TRightParen then Parsed (args @ [x]) (advance ts k) else unexpected F ''`,` or `)`'' tok))"
    proof (rule returns_current [OF k(2)])
      have "returns ts (j + 1) (parse_more_args F pe n ts (args @ [x]) (advance ts k))" if "t_kind (ts ! k) = TComma"
        using Suc.IH [of "k + 1" "args @ [x]"] advance_not_eof [OF assms(1) k(2)] that k Suc.prems returns_mono by fastforce
      moreover have "returns ts (j + 1) (Parsed (args @ [x]) (advance ts k))" using k by (auto simp: advance_def)
      ultimately show "returns ts (j + 1) (if t_kind (ts ! k) = TComma then parse_more_args F pe n ts (args @ [x]) (advance ts k)
       else if t_kind (ts ! k) = TRightParen then Parsed (args @ [x]) (advance ts k) else unexpected F ''`,` or `)`'' (ts ! k))" by simp
    qed
  qed
qed simp

lemma prefix_returns:
  assumes eof: "eof_ends ts" and pe: "pe_returns ts i pe" and i: "i < length ts" "length ts - i \<le> n + 1"
  shows "returns ts (i + 1) (parse_prefix F pe n ts i)"
proof (cases "t_kind (ts ! i) = TEof")
  case False
  note adv = advance_not_eof [OF eof i(1) False]
  have pe1: "returns ts (i + 1) (pe p (i + 1))" for p using pe_returnsD [OF pe, of "i + 1" p] adv(2) returns_mono by fastforce
  have fin: "returns ts (i + 1) (pbind (pe p (i + 1)) (\<lambda>e j. Parsed (g e) j))" for p and g :: "'a expr \<Rightarrow> 'a expr"
    by (rule returns_bind [OF pe1]) simp
  have paren: "returns ts (i + 1) (pbind (pe 0 (i + 1)) (\<lambda>e j. pbind (expect_right_paren ts pos j) (\<lambda>_ j. Parsed e j)))" for pos
    by (rule returns_bind [OF pe1]) (auto simp: expect_right_paren_def current_def advance_def)
  have args: "returns ts (i + 1) (pbind (parse_call_args F pe n ts (advance ts (i + 1))) (\<lambda>args j. Parsed (ECall name args) j))"
    if "t_kind (ts ! (i + 1)) = TLeftParen" for name
  proof (rule returns_bind)
    note adv2 = advance_not_eof [OF eof adv(2)]
    have "returns ts (Suc (Suc (Suc i))) (parse_more_args F pe n ts [] (i + 2))"
      using args_return [OF eof pe, of "i + 2" n F "[]"] adv2 that i by simp
    then have "returns ts (i + 1) (parse_more_args F pe n ts [] (i + 2))" using returns_mono by fastforce
    then show "returns ts (i + 1) (parse_call_args F pe n ts (advance ts (i + 1)))"
      using adv2 that by (auto simp: parse_call_args_def current_def advance_def)
  qed simp
  show ?thesis
    using i(1) adv fin paren args
    by (cases "t_kind (ts ! i)") (auto simp: parse_prefix_def current_def Let_def)
qed (use i in \<open>simp add: parse_prefix_def current_def\<close>)

lemma expression_returns:
  assumes "eof_ends ts"
  shows "i < length ts \<Longrightarrow> length ts - i \<le> n \<Longrightarrow> returns ts (i + 1) (parse_expression F n ts p i)"
proof (induction n arbitrary: p i)
  case (Suc n)
  have pe: "pe_returns ts i (parse_expression F n ts)" using Suc by (auto simp: pe_returns_def)
  show ?case unfolding parse_expression.simps
  proof (rule returns_bind [OF prefix_returns [OF assms pe]])
    show "returns ts (i + 1) (parse_loop (parse_expression F n ts) n ts p x j)" if "i + 1 \<le> j" "j < length ts" for x j
      using loop_returns [OF assms pe, of j n p x] that Suc.prems returns_mono by fastforce
  qed (use Suc.prems in auto)
qed simp

lemma peek_current: "i < length ts \<Longrightarrow> peek ts i f = f (if i + 1 < length ts then ts ! (i + 1) else last ts)"
  by (auto simp: peek_def)

lemma statement_returns:
  assumes eof: "eof_ends ts" and i: "i < length ts" "length ts - i \<le> n"
  shows "returns ts (i + 1) (parse_statement F n ts i)"
proof -
  have fin: "returns ts (i + 1) (pbind (parse_expression F n ts 0 i) (\<lambda>e j. Parsed (SExpr e) j))"
    by (rule returns_bind [OF expression_returns [OF eof i]]) simp
  have asg: "returns ts (i + 1) (pbind (parse_expression F n ts 0 (advance ts (advance ts i))) (\<lambda>e j. Parsed (SAssign name e) j))"
    if "t_kind (ts ! i) = TIdent name" "t_kind (ts ! (i + 1)) = TAssign" for name
  proof (rule returns_bind)
    note adv = advance_not_eof [OF eof i(1)] and adv2 = advance_not_eof [OF eof, of "i + 1"]
    have "advance ts (advance ts i) = i + 2" "i + 2 < length ts" using adv adv2 that by auto
    then show "returns ts (i + 1) (parse_expression F n ts 0 (advance ts (advance ts i)))"
      using expression_returns [OF eof, of "i + 2" n F 0] i returns_mono by fastforce
  qed simp
  have next_eof: "t_kind (last ts) = TEof" using eof by (simp add: eof_ends_def)
  show ?thesis
    using fin asg next_eof i(1) by (auto simp: parse_statement_def current_def peek_current split: token_kind.splits)
qed

lemma statements_return:
  assumes eof: "eof_ends ts"
  shows "i < length ts \<Longrightarrow> length ts - i \<le> n \<Longrightarrow> length ts \<le> k \<Longrightarrow> returns ts (i + 1) (parse_statements F k n ts acc i)"
proof (induction n arbitrary: acc i)
  case (Suc n)
  show ?case unfolding parse_statements.simps
  proof (rule returns_bind [OF statement_returns [OF eof Suc.prems(1)]])
    fix st j assume j: "i + 1 \<le> j" "j < length ts"
    have rec: "returns ts (i + 1) (parse_statements F k n ts (acc @ [st]) (j + 1))" if "j + 1 < length ts"
      using Suc.IH [OF that, of "acc @ [st]"] Suc.prems j returns_mono by fastforce
    show "returns ts (i + 1) (current ts j (\<lambda>tok. if t_kind tok \<noteq> TSemicolon then Parsed (acc @ [st], False) j
       else let i = advance ts j in current ts i (\<lambda>tok. if t_kind tok = TEof then Parsed (acc @ [st], True) i else parse_statements F k n ts (acc @ [st]) i)))"
      using j rec advance_not_eof [OF eof j(2)] by (auto simp: current_def Let_def)
  qed (use Suc.prems in auto)
qed simp

text \<open>The parser returns on all tokens that end with the marker: a program or an error, never out of fuel and never out of range.\<close>

theorem parse_returns:
  assumes eof: "eof_ends ts"
  shows "(\<exists>p j. parse F ts = Parsed p j) \<or> (\<exists>e. parse F ts = ParseError e)"
proof -
  have ne: "0 < length ts" using eof by (simp add: eof_ends_def)
  have "returns ts 0 (parse F ts)" unfolding parse_def parse_program_def
  proof (rule returns_current [OF ne])
    have "returns ts 1 (parse_statements F (length ts) (length ts) ts [] 0)" using statements_return [OF eof ne] by simp
    then have "returns ts 0 (pbind (parse_statements F (length ts) (length ts) ts [] 0) (\<lambda>(sts, trailing) i.
          pbind (expect_eof F ts i) (\<lambda>_ i. Parsed \<lparr>pr_statements = sts, pr_trailing_semicolon = trailing\<rparr> i)))"
      by (rule returns_bind) (auto simp: expect_eof_def current_def unexpected_def split: prod.splits)
    then show "returns ts 0 (if t_kind (ts ! 0) = TEof then ParseError EmptyExpression
      else pbind (parse_statements F (length ts) (length ts) ts [] 0) (\<lambda>(sts, trailing) i.
          pbind (expect_eof F ts i) (\<lambda>_ i. Parsed \<lparr>pr_statements = sts, pr_trailing_semicolon = trailing\<rparr> i)))" by simp
  qed
  then show ?thesis by (cases "parse F ts") (auto simp: returns_def)
qed

section \<open>The slots of a parsed program\<close>

definition bindings_below :: "nat \<Rightarrow> 'f token list \<Rightarrow> bool" where
  "bindings_below n ts \<longleftrightarrow> (\<forall>t \<in> set ts. \<forall>s. t_kind t = TBinding s \<longrightarrow> s < n)"

lemma pbind_Parsed: "pbind r f = Parsed y k \<longleftrightarrow> (\<exists>x j. r = Parsed x j \<and> f x j = Parsed y k)"
  by (cases r) auto

lemma current_Parsed: "current ts i f = Parsed y k \<longleftrightarrow> i < length ts \<and> f (ts ! i) = Parsed y k"
  by (simp add: current_def)

lemma unexpected_not_Parsed [simp]: "unexpected F x tok \<noteq> Parsed y k"
  by (simp add: unexpected_def)

lemmas parsed_simps = pbind_Parsed current_Parsed

definition pe_slots :: "nat \<Rightarrow> 'f parse_expr \<Rightarrow> bool" where
  "pe_slots n pe \<longleftrightarrow> (\<forall>p i e j. pe p i = Parsed e j \<longrightarrow> slots_ok n e)"

lemma pe_slotsD: "pe_slots n pe \<Longrightarrow> pe p i = Parsed e j \<Longrightarrow> slots_ok n e"
  unfolding pe_slots_def by blast

lemma loop_slots:
  assumes "pe_slots s pe"
  shows "slots_ok s e \<Longrightarrow> parse_loop pe n ts p e i = Parsed e' j \<Longrightarrow> slots_ok s e'"
proof (induction n arbitrary: e i)
  case (Suc n)
  have "slots_ok s e' " if "pe q (advance ts i) = Parsed x k" "parse_loop pe n ts p (EBinary e op x) k = Parsed e' j" for q x k op
    using Suc.IH [OF _ that(2)] Suc.prems(1) pe_slotsD [OF assms that(1)] by simp
  then show ?case using Suc.prems by (auto simp: parsed_simps split: option.splits prod.splits if_splits)
qed simp

lemma args_slots:
  assumes "pe_slots s pe"
  shows "\<forall>e \<in> set args. slots_ok s e \<Longrightarrow> parse_more_args F pe n ts args i = Parsed es j \<Longrightarrow> \<forall>e \<in> set es. slots_ok s e"
proof (induction n arbitrary: args i)
  case (Suc n)
  obtain e k where e: "pe 0 i = Parsed e k" using Suc.prems(2) by (auto simp: parsed_simps)
  then have all: "\<forall>e' \<in> set (args @ [e]). slots_ok s e'" using Suc.prems(1) pe_slotsD [OF assms e] by auto
  show ?case
  proof (cases "t_kind (ts ! k) = TComma")
    case True
    then have "parse_more_args F pe n ts (args @ [e]) (advance ts k) = Parsed es j" using Suc.prems(2) e by (simp add: parsed_simps)
    then show ?thesis by (rule Suc.IH [OF all])
  next
    case False
    then have "es = args @ [e]" using Suc.prems(2) e by (auto simp: parsed_simps split: if_splits)
    then show ?thesis using all by simp
  qed
qed simp

lemma prefix_slots:
  assumes "bindings_below s ts" "pe_slots s pe" "parse_prefix F pe n ts i = Parsed e j"
  shows "slots_ok s e"
proof -
  have i: "i < length ts" using assms(3) by (simp add: parse_prefix_def current_Parsed)
  then have "\<forall>k. t_kind (ts ! i) = TBinding k \<longrightarrow> k < s" using assms(1) nth_mem [OF i] by (auto simp: bindings_below_def)
  then show ?thesis
    using assms(3) args_slots [OF assms(2), of "[]"] i
    by (cases "t_kind (ts ! i)")
       (auto simp: parse_prefix_def parse_call_args_def parsed_simps Let_def split: if_splits dest: pe_slotsD [OF assms(2)])
qed

lemma expression_slots: "bindings_below s ts \<Longrightarrow> pe_slots s (parse_expression F n ts)"
proof (induction n)
  case (Suc n)
  show ?case unfolding pe_slots_def
  proof (intro allI impI)
    fix p i e j assume "parse_expression F (Suc n) ts p i = Parsed e j"
    then obtain x k where "parse_prefix F (parse_expression F n ts) n ts i = Parsed x k" "parse_loop (parse_expression F n ts) n ts p x k = Parsed e j"
      by (auto simp: pbind_Parsed)
    then show "slots_ok s e" using prefix_slots [OF Suc.prems Suc.IH [OF Suc.prems]] loop_slots [OF Suc.IH [OF Suc.prems]] by blast
  qed
qed (simp add: pe_slots_def)

lemma parse_statement_parts:
  assumes "parse_statement F n ts i = Parsed st j"
  obtains i' where "parse_expression F n ts 0 i' = Parsed (statement_expr st) j"
proof -
  have "\<exists>i'. parse_expression F n ts 0 i' = Parsed (statement_expr st) j"
    using assms by (cases "t_kind (ts ! i)") (auto simp: parse_statement_def parsed_simps peek_def split: if_splits)
  with that show thesis by blast
qed

lemma statements_slots:
  assumes "bindings_below s ts"
  shows "\<forall>st \<in> set acc. slots_ok s (statement_expr st) \<Longrightarrow> parse_statements F k n ts acc i = Parsed (sts, tr) j \<Longrightarrow> \<forall>st \<in> set sts. slots_ok s (statement_expr st)"
proof (induction n arbitrary: acc i)
  case (Suc n)
  obtain st l where st: "parse_statement F k ts i = Parsed st l" using Suc.prems(2) by (auto simp: parsed_simps)
  have "slots_ok s (statement_expr st)"
    using parse_statement_parts [OF st] pe_slotsD [OF expression_slots [OF assms]] by metis
  then have all: "\<forall>st' \<in> set (acc @ [st]). slots_ok s (statement_expr st')" using Suc.prems(1) by simp
  consider "sts = acc @ [st]" | i' where "parse_statements F k n ts (acc @ [st]) i' = Parsed (sts, tr) j"
    using Suc.prems(2) st by (auto simp: parsed_simps Let_def split: if_splits)
  then show ?case using Suc.IH [OF all] all by cases blast+
qed simp

lemma parse_slots: "bindings_below s ts \<Longrightarrow> parse F ts = Parsed p j \<Longrightarrow> program_slots_ok s p"
  using statements_slots [of s ts "[]" F]
  by (fastforce simp: parse_def parse_program_def parsed_simps program_slots_ok_def split: if_splits)

section \<open>More fuel changes nothing\<close>








section \<open>Printing and parsing\<close>

text \<open>A printer that sets as few parentheses as the precedences allow: an expression has a level, and a place asks for
  a level.\<close>

fun precedence :: "binary_op \<Rightarrow> nat" where
  "precedence OOr = 1"
| "precedence OAnd = 2"
| "precedence OEq = 3"
| "precedence ONeq = 3"
| "precedence OAdd = 5"
| "precedence OSub = 5"
| "precedence OMul = 6"
| "precedence ODiv = 6"
| "precedence OMod = 6"
| "precedence OPow = 7"
| "precedence _ = 4"

fun op_token :: "binary_op \<Rightarrow> 'f token_kind" where
  "op_token OAdd = TPlus"
| "op_token OSub = TMinus"
| "op_token OMul = TStar"
| "op_token ODiv = TSlash"
| "op_token OMod = TPercent"
| "op_token OPow = TCaret"
| "op_token OEq = TEqualEqual"
| "op_token ONeq = TBangEqual"
| "op_token OLt = TLess"
| "op_token OLe = TLessEqual"
| "op_token OGt = TGreater"
| "op_token OGe = TGreaterEqual"
| "op_token OAnd = TAndAnd"
| "op_token OOr = TOrOr"










lemma op_token_op [simp]: "binary_op_of (op_token op) = Some (op, precedence op, op = OPow)"
  by (cases op) auto











text \<open>What may follow an expression that was printed for a level.\<close>

definition follows :: "nat \<Rightarrow> 'f token_kind list \<Rightarrow> bool" where
  "follows lvl rest \<longleftrightarrow> rest \<noteq> [] \<and> hd rest \<noteq> TLeftParen \<and> hd rest \<noteq> TAssign \<and>
     (\<forall>op q ra. binary_op_of (hd rest) = Some (op, q, ra) \<longrightarrow> q \<le> lvl \<and> \<not> (lvl = 7 \<and> q = 7))"




lemma follows_closing [simp]: "follows lvl (TRightParen # rest)" "follows lvl (TComma # rest)" "follows lvl (TSemicolon # rest)" "follows lvl (TEof # rest)"
  by (simp_all add: follows_def)


























end
