(* ===== verification/Formula_Lexer.thy ===== *)
theory Formula_Lexer
  imports Formula_Parser
begin

text \<open>
  The lexer of formulas (\<open>crates/model/src/expressions/lexer.rs\<close>) and the engine from source text to value
  (\<open>mod.rs\<close>, \<open>compile\<close> and \<open>compile_numeric\<close>).

  A token is the longest of a special name, a number and an identifier at a position, or else an operator. The loop over the source is
  a partial function: with a special name of length zero it would not end. It returns for the bindings that
  \<open>add\<close> and \<open>add_alias\<close> make.
\<close>

definition starts_with :: "string \<Rightarrow> string \<Rightarrow> bool" where
  "starts_with s p \<longleftrightarrow> take (length p) s = p"

definition is_binding_boundary :: "char \<Rightarrow> bool" where
  "is_binding_boundary c \<longleftrightarrow> is_whitespace c \<or> c \<in> set ''(),;+-*/%^!=<>&|''"

text \<open>A candidate is the kind of a token and its length.\<close>

type_synonym 'f candidate = "'f token_kind \<times> nat"

definition special_matches :: "string \<Rightarrow> special_binding \<Rightarrow> bool" where
  "special_matches rest sb \<longleftrightarrow> starts_with rest (sb_name sb) \<and>
     (case drop (length (sb_name sb)) rest of [] \<Rightarrow> True | next # _ \<Rightarrow> is_binding_boundary next)"

definition best_special_match :: "string \<Rightarrow> nat \<Rightarrow> bindings \<Rightarrow> 'f candidate option" where
  "best_special_match source position b =
     (case drop position source of
        [] \<Rightarrow> None
      | first # _ \<Rightarrow> do {
          candidates \<leftarrow> special_candidates b first;
          sb \<leftarrow> find (special_matches (drop position source)) candidates;
          Some (TBinding (sb_slot sb), length (sb_name sb))
        })"

definition ident_kind :: "string \<Rightarrow> 'f token_kind" where
  "ident_kind ident = (if ident = ''true'' then TBool True else if ident = ''false'' then TBool False else TIdent ident)"

definition scan_ident :: "string \<Rightarrow> nat \<Rightarrow> 'f candidate option" where
  "scan_ident source position =
     (case drop position source of
        [] \<Rightarrow> None
      | first # rest \<Rightarrow>
          if \<not> is_ident_start first then None
          else let ident = first # takeWhile is_ident_continue rest
               in Some (ident_kind ident, length ident))"

definition skip_digits :: "string \<Rightarrow> nat \<Rightarrow> nat" where
  "skip_digits source i = i + length (takeWhile is_ascii_digit (drop i source))"

definition char_at :: "string \<Rightarrow> nat \<Rightarrow> char list \<Rightarrow> bool" where
  "char_at source i cs \<longleftrightarrow> i < length source \<and> source ! i \<in> set cs"

text \<open>The end of a number with an exponent, when there are digits after it.\<close>

definition exponent_end :: "string \<Rightarrow> nat \<Rightarrow> nat" where
  "exponent_end source i =
     (if char_at source i ''eE'' then
        let sign = (if char_at source (i + 1) ''+-'' then i + 2 else i + 1);
            e = skip_digits source sign
        in if e = sign then i else e
      else i)"

definition scan_number :: "'f f64_ops \<Rightarrow> string \<Rightarrow> nat \<Rightarrow> 'f candidate option" where
  "scan_number F source position =
     (let i1 = skip_digits source position;
          dot = char_at source i1 ''.'';
          i2 = (if dot then skip_digits source (i1 + 1) else i1);
          saw_digit = (position < i1 \<or> dot \<and> i1 + 1 < i2)
      in if \<not> saw_digit then None
         else let i3 = exponent_end source i2
              in map_option (\<lambda>number. (TNumber number, i3 - position)) (f_parse F (take (i3 - position) (drop position source))))"

text \<open>The last of the longest candidates, as \<open>max_by_key\<close> gives it.\<close>

fun max_by_len :: "'f candidate option \<Rightarrow> 'f candidate option list \<Rightarrow> 'f candidate option" where
  "max_by_len best [] = best"
| "max_by_len best (None # cs) = max_by_len best cs"
| "max_by_len None (Some c # cs) = max_by_len (Some c) cs"
| "max_by_len (Some d) (Some c # cs) = max_by_len (Some (if snd d \<le> snd c then c else d)) cs"

definition two_char :: "string \<Rightarrow> char \<Rightarrow> 'f token_kind \<Rightarrow> 'f token_kind \<Rightarrow> expression_error + 'f candidate" where
  "two_char rest c two one = Inr (if starts_with rest [c] then (two, 2) else (one, 1))"

definition doubled :: "string \<Rightarrow> char \<Rightarrow> 'f token_kind \<Rightarrow> string \<Rightarrow> nat \<Rightarrow> expression_error + 'f candidate" where
  "doubled rest c two expected position =
     (if starts_with rest [c] then Inr (two, 2) else Inl (UnexpectedToken expected [c] position))"

definition operator_token :: "char \<Rightarrow> string \<Rightarrow> nat \<Rightarrow> expression_error + 'f candidate" where
  "operator_token ch rest position =
     (if ch = CHR ''('' then Inr (TLeftParen, 1)
      else if ch = CHR '')'' then Inr (TRightParen, 1)
      else if ch = CHR '','' then Inr (TComma, 1)
      else if ch = CHR '';'' then Inr (TSemicolon, 1)
      else if ch = CHR ''+'' then Inr (TPlus, 1)
      else if ch = CHR ''-'' then Inr (TMinus, 1)
      else if ch = CHR ''*'' then Inr (TStar, 1)
      else if ch = CHR ''/'' then Inr (TSlash, 1)
      else if ch = CHR ''%'' then Inr (TPercent, 1)
      else if ch = CHR ''^'' then Inr (TCaret, 1)
      else if ch = CHR ''!'' then two_char rest CHR ''='' TBangEqual TBang
      else if ch = CHR ''='' then two_char rest CHR ''='' TEqualEqual TAssign
      else if ch = CHR ''<'' then two_char rest CHR ''='' TLessEqual TLess
      else if ch = CHR ''>'' then two_char rest CHR ''='' TGreaterEqual TGreater
      else if ch = CHR ''&'' then doubled rest CHR ''&'' TAndAnd ''`&&`'' position
      else if ch = CHR ''|'' then doubled rest CHR ''|'' TOrOr ''`||`'' position
      else Inl (UnexpectedCharacter ch position))"

definition next_token :: "'f f64_ops \<Rightarrow> string \<Rightarrow> nat \<Rightarrow> bindings \<Rightarrow> expression_error + 'f candidate" where
  "next_token F source position b =
     (case drop position source of
        [] \<Rightarrow> Inl EmptyExpression
      | ch # rest \<Rightarrow>
          (case max_by_len None [best_special_match source position b, scan_number F source position, scan_ident source position] of
             Some candidate \<Rightarrow> Inr candidate
           | None \<Rightarrow> operator_token ch rest position))"

text \<open>Comments: the characters up to the end of a line, and the offset of the end of a block.\<close>

fun line_rest :: "string \<Rightarrow> nat" where
  "line_rest [] = 0"
| "line_rest (c # cs) = (if c = CHR 0x0A then 1 else 1 + line_rest cs)"

fun find_str :: "string \<Rightarrow> string \<Rightarrow> nat option" where
  "find_str p [] = (if p = [] then Some 0 else None)"
| "find_str p (c # cs) = (if starts_with (c # cs) p then Some 0 else map_option Suc (find_str p cs))"

function skip_whitespace_and_comments :: "string \<Rightarrow> nat \<Rightarrow> expression_error + nat" where
  "skip_whitespace_and_comments source position =
     (if position < length source then
        let remaining = drop position source in
        if starts_with remaining ''//'' then skip_whitespace_and_comments source (position + 2 + line_rest (drop (position + 2) source))
        else if starts_with remaining ''/*'' then
          (case find_str ''*/'' (drop (position + 2) source) of
             None \<Rightarrow> Inl (UnterminatedBlockComment position)
           | Some offset \<Rightarrow> skip_whitespace_and_comments source (position + 2 + offset + 2))
        else if is_whitespace (hd remaining) then skip_whitespace_and_comments source (position + 1)
        else Inr position
      else Inr position)"
  by pat_completeness auto
termination
  by (relation "measure (\<lambda>(source, position). length source - position)") auto

declare skip_whitespace_and_comments.simps [simp del]

partial_function (option) tokenize_loop ::
  "'f f64_ops \<Rightarrow> string \<Rightarrow> bindings \<Rightarrow> nat \<Rightarrow> 'f token list \<Rightarrow> (expression_error + 'f token list) option" where
  "tokenize_loop F source b position tokens =
     (if position < length source then
        (case skip_whitespace_and_comments source position of
           Inl e \<Rightarrow> Some (Inl e)
         | Inr position \<Rightarrow>
             if length source \<le> position then Some (Inr (tokens @ [\<lparr>t_kind = TEof, t_position = length source\<rparr>]))
             else (case next_token F source position b of
                 Inl e \<Rightarrow> Some (Inl e)
               | Inr (kind, len) \<Rightarrow> tokenize_loop F source b (position + len) (tokens @ [\<lparr>t_kind = kind, t_position = position\<rparr>])))
      else Some (Inr (tokens @ [\<lparr>t_kind = TEof, t_position = length source\<rparr>])))"

definition tokenize :: "'f f64_ops \<Rightarrow> string \<Rightarrow> bindings \<Rightarrow> (expression_error + 'f token list) option" where
  "tokenize F source b = tokenize_loop F source b 0 []"

section \<open>The engine\<close>

text \<open>The outer \<open>None\<close> is a run that does not end, the inner one a panic.\<close>

definition compile :: "'f f64_ops \<Rightarrow> string \<Rightarrow> bindings \<Rightarrow> 'f compiled_expression compile_result option" where
  "compile F source b =
     (case tokenize F source b of
        None \<Rightarrow> None
      | Some (Inl e) \<Rightarrow> Some (Some (Inl e))
      | Some (Inr tokens) \<Rightarrow>
          (case parse F tokens of
             OutOfFuel \<Rightarrow> None
           | ParsePanic \<Rightarrow> Some None
           | ParseError e \<Rightarrow> Some (Some (Inl e))
           | Parsed program _ \<Rightarrow> Some (compile_program b program)))"

definition compile_numeric :: "'f f64_ops \<Rightarrow> string \<Rightarrow> bindings \<Rightarrow> 'f compiled_expression compile_result option" where
  "compile_numeric F source b =
     map_option (\<lambda>r. cbind r (\<lambda>compiled.
       Some (if ce_result_type compiled \<noteq> TyNumber then Inl (NonNumericResult (ce_result_type compiled)) else Inr compiled))) (compile F source b)"

section \<open>Progress\<close>

lemma skip_position: "skip_whitespace_and_comments source i = Inr j \<Longrightarrow> i \<le> j"
proof (induction source i rule: skip_whitespace_and_comments.induct)
  case (1 source i)
  let ?rest = "drop i source" and ?skip = "skip_whitespace_and_comments source"
  note unf = 1(4) [unfolded skip_whitespace_and_comments.simps [of source i], simplified Let_def]
  consider "j = i" | "i < length source" "starts_with ?rest ''//''" "?skip (i + 2 + line_rest (drop (i + 2) source)) = Inr j"
    | n where "i < length source" "\<not> starts_with ?rest ''//''" "starts_with ?rest ''/*''" "find_str ''*/'' (drop (i + 2) source) = Some n" "?skip (i + 2 + n + 2) = Inr j"
    | "i < length source" "\<not> starts_with ?rest ''//''" "\<not> starts_with ?rest ''/*''" "is_whitespace (hd ?rest)" "?skip (i + 1) = Inr j"
    using unf by (simp split: if_splits option.splits)
  then show ?case
  proof cases
    case 2
    then show ?thesis using 1(1) [OF 2(1) refl 2(2,3)] by simp
  next
    case (3 n)
    then show ?thesis using 1(2) [OF 3(1) refl 3(2-5)] by simp
  next
    case 4
    then show ?thesis using 1(3) [OF 4(1) refl 4(2-5)] by simp
  qed simp
qed

lemma special_match_ok:
  assumes "bindings_ok b" "best_special_match source i b = Some (k, n)"
  shows "0 < n \<and> (\<exists>s < input_len b. k = TBinding s)"
proof -
  obtain c cs es sb where e: "drop i source = c # cs" "b_special b c = Some es" "find (special_matches (drop i source)) es = Some sb"
      "k = TBinding (sb_slot sb)" "n = length (sb_name sb)"
    using assms(2) by (auto simp: best_special_match_def special_candidates_def bind_Some_conv split: list.splits)
  then have "sb \<in> set es" using find_Some_iff [of _ es sb] by (auto simp: in_set_conv_nth)
  then show ?thesis using assms(1) e by (auto simp: bindings_ok_def specials_ok_def input_len_def)
qed

lemma scan_ident_ok: "scan_ident source i = Some (k, n) \<Longrightarrow> 0 < n \<and> (\<forall>s. k \<noteq> TBinding s)"
proof -
  have "ident_kind x \<noteq> TBinding s" for x s by (simp add: ident_kind_def)
  then show "scan_ident source i = Some (k, n) \<Longrightarrow> 0 < n \<and> (\<forall>s. k \<noteq> TBinding s)"
    by (auto simp: scan_ident_def Let_def split: list.splits if_splits)
qed

lemma exponent_end_ge: "i \<le> exponent_end source i"
  by (simp add: exponent_end_def skip_digits_def Let_def)

lemma scan_number_ok:
  assumes "scan_number F source i = Some (k, n)"
  shows "0 < n \<and> (\<forall>s. k \<noteq> TBinding s)"
proof -
  define i1 where "i1 = skip_digits source i"
  define i2 where "i2 = (if char_at source i1 ''.'' then skip_digits source (i1 + 1) else i1)"
  have r: "i < i1 \<or> i1 + 1 < i2" "\<exists>number. k = TNumber number" "n = exponent_end source i2 - i"
    using assms by (auto simp: scan_number_def Let_def i1_def i2_def split: if_split_asm)
  have "i \<le> i1" "i1 \<le> i2" by (simp_all add: i1_def i2_def skip_digits_def)
  then show ?thesis using r exponent_end_ge [of i2 source] by auto
qed

lemma max_by_len_mem: "max_by_len best cs = Some c \<Longrightarrow> best = Some c \<or> Some c \<in> set cs"
  by (induction best cs rule: max_by_len.induct) (auto split: if_splits)

definition plain_token :: "expression_error + 'f candidate \<Rightarrow> bool" where
  "plain_token r \<longleftrightarrow> (\<forall>k n. r = Inr (k, n) \<longrightarrow> 0 < n \<and> (\<forall>s. k \<noteq> TBinding s))"

lemma plain_if: "plain_token x \<Longrightarrow> plain_token y \<Longrightarrow> plain_token (if c then x else y)"
  by simp

lemma operator_token_ok:
  assumes "operator_token ch rest i = Inr (k, n)"
  shows "0 < n \<and> (\<forall>s. k \<noteq> TBinding s)"
proof -
  have "plain_token (operator_token ch rest i)"
    unfolding operator_token_def two_char_def doubled_def by (intro plain_if) (simp_all add: plain_token_def)
  then show ?thesis using assms unfolding plain_token_def by blast
qed

lemma next_token_ok:
  assumes "bindings_ok b" "next_token F source i b = Inr (k, n)"
  shows "0 < n \<and> (\<forall>s. k = TBinding s \<longrightarrow> s < input_len b)"
proof -
  obtain ch rest where d: "drop i source = ch # rest" using assms(2) by (auto simp: next_token_def split: list.splits)
  let ?m = "max_by_len None [best_special_match source i b, scan_number F source i, scan_ident source i]"
  show ?thesis
  proof (cases ?m)
    case None
    then show ?thesis using assms(2) d operator_token_ok [of ch rest i k n] by (simp add: next_token_def)
  next
    case (Some c)
    then have "c = (k, n)" using assms(2) d by (simp add: next_token_def)
    then consider "best_special_match source i b = Some (k, n)" | "scan_number F source i = Some (k, n)" | "scan_ident source i = Some (k, n)"
      using max_by_len_mem [OF Some] by auto
    then show ?thesis
    proof cases
      case 1
      then show ?thesis using special_match_ok [OF assms(1) 1] by auto
    next
      case 2
      then show ?thesis using scan_number_ok [OF 2] by auto
    next
      case 3
      then show ?thesis using scan_ident_ok [OF 3] by auto
    qed
  qed
qed

theorem tokenize_loop_returns:
  assumes ok: "bindings_ok b"
  shows "bindings_below (input_len b) tokens \<Longrightarrow>
    \<exists>r. tokenize_loop F source b i tokens = Some r \<and> (\<forall>ts. r = Inr ts \<longrightarrow> eof_ends ts \<and> bindings_below (input_len b) ts)"
proof (induction "length source - i" arbitrary: i tokens rule: less_induct)
  case less
  have eof: "eof_ends (tokens @ [\<lparr>t_kind = TEof, t_position = p\<rparr>]) \<and> bindings_below (input_len b) (tokens @ [\<lparr>t_kind = TEof, t_position = p\<rparr>])" for p
    using less.prems by (auto simp: eof_ends_def bindings_below_def)
  have rec: "\<exists>r. tokenize_loop F source b (j + n) (tokens @ [\<lparr>t_kind = k, t_position = j\<rparr>]) = Some r \<and>
      (\<forall>ts. r = Inr ts \<longrightarrow> eof_ends ts \<and> bindings_below (input_len b) ts)"
    if "skip_whitespace_and_comments source i = Inr j" "j < length source" "next_token F source j b = Inr (k, n)" for j k n
    using skip_position [OF that(1)] next_token_ok [OF ok that(3)] that(2) less.prems
    by (intro less.hyps) (auto simp: bindings_below_def)
  show ?case
    by (subst tokenize_loop.simps) (use eof rec in \<open>auto split: sum.splits\<close>)
qed

lemma tokenize_returns:
  assumes "bindings_ok b"
  obtains r where "tokenize F source b = Some r" "\<And>ts. r = Inr ts \<Longrightarrow> eof_ends ts \<and> bindings_below (input_len b) ts"
  using tokenize_loop_returns [OF assms, of "[]" F source 0] that by (auto simp: tokenize_def bindings_below_def)

text \<open>A special name is matched by the longest one that fits.\<close>

lemma find_first_longest:
  assumes "sorted_wrt (\<lambda>x y. length (sb_name y) \<le> length (sb_name x)) es" "find P es = Some x" "y \<in> set es" "P y"
  shows "length (sb_name y) \<le> length (sb_name x)"
  using assms by (induction es) (auto split: if_splits)

theorem special_match_longest:
  assumes "bindings_made b" "best_special_match source i b = Some (k, n)" "drop i source = c # cs"
    and "special_candidates b c = Some es" "sb \<in> set es" "special_matches (c # cs) sb"
  shows "length (sb_name sb) \<le> n"
proof -
  have "sorted_wrt (\<lambda>x y. length (sb_name y) \<le> length (sb_name x)) es"
    using bindings_made_ok [OF assms(1)] assms(4) by (auto simp: bindings_ok_def specials_ok_def special_candidates_def)
  moreover obtain x where "find (special_matches (c # cs)) es = Some x" "n = length (sb_name x)"
    using assms(2-4) by (auto simp: best_special_match_def bind_Some_conv)
  ultimately show ?thesis using find_first_longest assms(5,6) by blast
qed

section \<open>The engine is correct\<close>

text \<open>What the compilation of a source text gives, for bindings that were made by additions.\<close>

lemma compile_cases:
  assumes b: "bindings_made b" and laws: "f64_laws F"
  obtains (error) e where "compile F source b = Some (Some (Inl e))"
    | (code) ce tokens p j where "compile F source b = Some (Some (Inr ce))" "tokenize F source b = Some (Inr tokens)" "parse F tokens = Parsed p j"
        "program_slots_ok (input_len b) p" "compile_program b p = Some (Inr ce)"
proof -
  note ok = bindings_made_ok [OF b]
  obtain r where r: "tokenize F source b = Some r" "\<And>ts. r = Inr ts \<Longrightarrow> eof_ends ts \<and> bindings_below (input_len b) ts"
    using tokenize_returns [OF ok, of F source] by blast
  show thesis
  proof (cases r)
    case (Inl e)
    then show thesis using error r(1) by (simp add: compile_def)
  next
    case (Inr ts)
    consider p j where "parse F ts = Parsed p j" | e where "parse F ts = ParseError e" using parse_returns [of ts F] r(2) [OF Inr] by blast
    then show thesis
    proof cases
      case (1 p j)
      have slots: "program_slots_ok (input_len b) p" using parse_slots [OF _ 1] r(2) [OF Inr] by blast
      then obtain s where "compile_program b p = Some s" using compile_program_total [OF ok laws] by blast
      then show thesis using 1 slots error code r(1) Inr by (cases s) (auto simp: compile_def)
    next
      case (2 e)
      then show thesis using error r(1) Inr by (simp add: compile_def)
    qed
  qed
qed

text \<open>What a run of numeric code is, for inputs of any length.\<close>

definition runs_as :: "'f f64_ops \<Rightarrow> bindings \<Rightarrow> 'f program \<Rightarrow> 'f compiled_expression \<Rightarrow> 'f list \<Rightarrow> bool" where
  "runs_as F b p ce inputs \<longleftrightarrow>
     (if input_len b \<le> length inputs
      then \<exists>v. run_meaning F b inputs Map.empty (pr_statements p) = Some (VNum v) \<and> eval_number F ce inputs = Some (Some (Inr v))
      else eval_number F ce inputs = Some (Some (Inl (InputCountMismatch (input_len b) (length inputs)))))"

lemma compile_numeric_cases:
  assumes b: "bindings_made b" and laws: "f64_laws F"
  obtains (refused) e where "compile_numeric F source b = Some (Some (Inl e))"
    | (numeric) ce tokens p j where "compile_numeric F source b = Some (Some (Inr ce))" "tokenize F source b = Some (Inr tokens)"
        "parse F tokens = Parsed p j" "\<And>inputs. runs_as F b p ce inputs"
  using assms
proof (cases rule: compile_cases [where source = source])
  case error
  then show thesis using refused by (simp add: compile_numeric_def)
next
  case (code ce tokens p j)
  have len: "ce_input_len ce = input_len b" using code(5) by (auto simp: compile_program_def cbind_Inr split: if_splits)
  show thesis
  proof (cases "ce_result_type ce = TyNumber")
    case True
    have "\<exists>v. run_meaning F b inputs Map.empty (pr_statements p) = Some (VNum v) \<and> eval_number F ce inputs = Some (Some (Inr v))"
      if n: "input_len b \<le> length inputs" for inputs
    proof -
      obtain v where v: "run_meaning F b inputs Map.empty (pr_statements p) = Some v" "fvalue_type v = TyNumber"
          "eval_number F ce inputs = Some (Some (Inr (encode F v)))"
        using compile_program_correct [OF bindings_made_ok [OF b] laws code(4,5) _ n] True by auto
      then show ?thesis by (cases v) auto
    qed
    then have "runs_as F b p ce inputs" for inputs using len True by (simp add: runs_as_def eval_number_def eval_core_def)
    moreover have "compile_numeric F source b = Some (Some (Inr ce))" using code(1) True by (simp add: compile_numeric_def)
    ultimately show thesis using numeric code(2,3) by blast
  qed (use refused code(1) in \<open>simp add: compile_numeric_def\<close>)
qed

text \<open>C25: The formula engine on any source text and any bindings made by additions: compiling a numeric formula
  always returns, with an error or with code; the source of the code has tokens and a program, and running the
  code on enough inputs returns the number that is the meaning of the program, while too few inputs are refused.\<close>

theorem formula_engine_correct:
  assumes "bindings_made b" "f64_laws F"
  shows "\<exists>r. compile_numeric F source b = Some (Some r) \<and>
    (\<forall>ce. r = Inr ce \<longrightarrow> (\<exists>tokens p j. tokenize F source b = Some (Inr tokens) \<and> parse F tokens = Parsed p j \<and>
       (\<forall>inputs. if input_len b \<le> length inputs
          then \<exists>v. run_meaning F b inputs Map.empty (pr_statements p) = Some (VNum v) \<and> eval_number F ce inputs = Some (Some (Inr v))
          else eval_number F ce inputs = Some (Some (Inl (InputCountMismatch (input_len b) (length inputs)))))))"
  using assms
proof (cases rule: compile_numeric_cases [where source = source])
  case (numeric ce tokens p j)
  then show ?thesis unfolding runs_as_def by blast
qed simp

text \<open>A sample of the operations, on integers, and a formula over two inputs.\<close>

definition int_ops :: "int f64_ops" where
  "int_ops = \<lparr>f_zero = 0, f_one = 1, f_infinity = 1000, f_neg_infinity = - 1000, f_neg = uminus, f_add = (+), f_sub = (-), f_mul = (*),
     f_div = (div), f_rem = (mod), f_powf = (\<lambda>x y. x ^ nat y), f_eq = (=), f_lt = (<), f_le = (\<le>), f_gt = (>), f_ge = (\<ge>),
     f_abs = abs, f_ceil = (\<lambda>x. x), f_floor = (\<lambda>x. x), f_round = (\<lambda>x. x), f_min = min, f_max = max,
     f_parse = (\<lambda>s. Some (foldl (\<lambda>n c. 10 * n + (of_char c - 48)) 0 s)), f_show = (\<lambda>_. '''')\<rparr>"

definition sample_bindings :: bindings where
  "sample_bindings = snd (bindings_add (snd (bindings_add bindings_new 0 ''a'')) 1 ''B-1'')"

definition sample_formula :: string where
  "sample_formula = ''a*2+B-1''"

lemma int_ops_laws: "f64_laws int_ops"
  by (simp add: f64_laws_def int_ops_def)

lemma sample_bindings_made: "bindings_made sample_bindings"
  unfolding sample_bindings_def by (intro bindings_made.intros) simp_all



lemmas lexing = tokenize_def tokenize_loop.simps skip_whitespace_and_comments.simps next_token_def starts_with_def is_whitespace_def
  best_special_match_def special_matches_def special_candidates_def is_binding_boundary_def scan_ident_def ident_kind_def scan_number_def
  skip_digits_def char_at_def exponent_end_def operator_token_def two_char_def doubled_def is_ident_start_def is_ident_continue_def
  is_ascii_alphabetic_def is_ascii_digit_def of_char_def


lemma sample_bindings_eq: "sample_bindings = \<lparr>b_plain = [''a'' \<mapsto> 0], b_special = [CHR ''B'' \<mapsto> [\<lparr>sb_name = ''B-1'', sb_slot = 1\<rparr>]], b_max_slot_plus_one = 2\<rparr>" 
 by (simp add: sample_bindings_def bindings_add_def add_name_def bindings_new_def is_ident_start_def is_ident_continue_def is_ascii_alphabetic_def is_ascii_digit_def wrap_u_def sort_specials_def) 

definition sample_tokens :: "int token list" where
  "sample_tokens = [\<lparr>t_kind = TIdent ''a'', t_position = 0\<rparr>, \<lparr>t_kind = TStar, t_position = 1\<rparr>, \<lparr>t_kind = TNumber 2, t_position = 2\<rparr>,
     \<lparr>t_kind = TPlus, t_position = 3\<rparr>, \<lparr>t_kind = TBinding 1, t_position = 4\<rparr>, \<lparr>t_kind = TEof, t_position = 7\<rparr>]"

lemma sample_tokenize: "tokenize int_ops sample_formula sample_bindings = Some (Inr sample_tokens)"
  by (simp add: lexing sample_bindings_eq sample_formula_def int_ops_def sample_tokens_def) 

definition sample_program :: "int program" where
  "sample_program = \<lparr>pr_statements = [SExpr (EBinary (EBinary (EName ''a'') OMul (ENumber 2)) OAdd (EInput 1))], pr_trailing_semicolon = False\<rparr>"

lemma sample_parse: "parse int_ops sample_tokens = Parsed sample_program 5"
  by (simp add: parse_def parse_program_def sample_tokens_def sample_program_def parse_statement_def parse_prefix_def current_def peek_def
      advance_def expect_eof_def parse_call_args_def numeral_eq_Suc)

lemma sample_compile: "\<exists>ce. compile_numeric int_ops sample_formula sample_bindings = Some (Some (Inr ce))"
proof -
  have "compile int_ops sample_formula sample_bindings = Some (compile_program sample_bindings sample_program)"
    by (simp add: compile_def sample_tokenize sample_parse)
  then show ?thesis
    by (simp add: compile_numeric_def sample_program_def compile_program_def compiler_new_def compile_binary_def compile_numbers_def compile_name_def
        sample_bindings_eq resolve_plain_def is_order_def is_arith_def compile_leaf_def c_push_def emit_def pop_n_def MAX_STACK_def MAX_LOCALS_def)
qed

theorem formula_engine_correct_witness:
  "\<exists>ce. compile_numeric int_ops sample_formula sample_bindings = Some (Some (Inr ce)) \<and>
     eval_number int_ops ce [5, 30] = Some (Some (Inr 40))"
proof -
  obtain ce where ce: "compile_numeric int_ops sample_formula sample_bindings = Some (Some (Inr ce))" using sample_compile by blast
  then have "\<forall>inputs. if input_len sample_bindings \<le> length inputs
      then \<exists>v. run_meaning int_ops sample_bindings inputs Map.empty (pr_statements sample_program) = Some (VNum v) \<and> eval_number int_ops ce inputs = Some (Some (Inr v))
      else eval_number int_ops ce inputs = Some (Some (Inl (InputCountMismatch (input_len sample_bindings) (length inputs))))"
    using formula_engine_correct [OF sample_bindings_made int_ops_laws, of sample_formula] by (auto simp: sample_tokenize sample_parse)
  from spec [OF this, of "[5, 30]"] show ?thesis
    using ce by (simp add: input_len_def sample_bindings_eq sample_program_def resolve_plain_def input_value_def int_ops_def)
qed

end
