(* ===== verification/Formula_Types.thy ===== *)
theory Formula_Types
  imports Formula_Lexer
begin

text \<open>
  A type system for formulas, stated on the syntax alone, and that the compiler of
  \<open>crates/model/src/expressions/eval.rs\<close> accepts exactly the programs that have a type in it and
  keep to the limits of the machine, which are stated on the syntax as well, gives them this type and never panics.
\<close>

section \<open>The type system\<close>

type_synonym tenv = "string \<rightharpoonup> value_type"

definition unary_type :: "unary_op \<Rightarrow> value_type" where
  "unary_type op = (case op of UNeg \<Rightarrow> TyNumber | UNot \<Rightarrow> TyBool)"

definition binary_type :: "binary_op \<Rightarrow> value_type \<Rightarrow> value_type \<Rightarrow> value_type option" where
  "binary_type op l r =
     (if is_arith op then if l = TyNumber \<and> r = TyNumber then Some TyNumber else None
      else if is_order op then if l = TyNumber \<and> r = TyNumber then Some TyBool else None
      else if op = OEq \<or> op = ONeq then if l = r then Some TyBool else None
      else if l = TyBool \<and> r = TyBool then Some TyBool else None)"

definition call_type :: "string \<Rightarrow> value_type option list \<Rightarrow> value_type option" where
  "call_type name tys =
     (case builtin_from_name name of
        None \<Rightarrow> None
      | Some BIf \<Rightarrow> (case tys of [Some TyBool, Some t, Some e] \<Rightarrow> if t = e then Some t else None | _ \<Rightarrow> None)
      | Some bi \<Rightarrow> if (\<forall>ty \<in> set tys. ty = Some TyNumber) \<and> (if bi = BMin \<or> bi = BMax then tys \<noteq> [] else length tys = 1)
                    then Some TyNumber else None)"

fun type_of :: "bindings \<Rightarrow> tenv \<Rightarrow> 'f expr \<Rightarrow> value_type option" where
  "type_of b \<Gamma> (ENumber v) = Some TyNumber"
| "type_of b \<Gamma> (EBool v) = Some TyBool"
| "type_of b \<Gamma> (EInput slot) = Some TyNumber"
| "type_of b \<Gamma> (EName name) = (case \<Gamma> name of Some ty \<Rightarrow> Some ty | None \<Rightarrow> map_option (\<lambda>_. TyNumber) (resolve_plain b name))"
| "type_of b \<Gamma> (EUnary op e) = (if type_of b \<Gamma> e = Some (unary_type op) then Some (unary_type op) else None)"
| "type_of b \<Gamma> (EBinary l op r) = Option.bind (type_of b \<Gamma> l) (\<lambda>tl. Option.bind (type_of b \<Gamma> r) (binary_type op tl))"
| "type_of b \<Gamma> (ECall name args) = call_type name (map (type_of b \<Gamma>) args)"

text \<open>A program: a name keeps the type of its first assignment, and the type of the last expression counts when no semicolon
  follows it.\<close>

fun type_of_program :: "bindings \<Rightarrow> bool \<Rightarrow> tenv \<Rightarrow> 'f statement list \<Rightarrow> value_type option" where
  "type_of_program b trailing \<Gamma> [] = Some TyEmpty"
| "type_of_program b trailing \<Gamma> (SAssign name e # sts) =
     Option.bind (type_of b \<Gamma> e) (\<lambda>ty.
       if \<Gamma> name = None \<or> \<Gamma> name = Some ty then type_of_program b trailing (\<Gamma>(name \<mapsto> ty)) sts else None)"
| "type_of_program b trailing \<Gamma> (SExpr e # sts) =
     Option.bind (type_of b \<Gamma> e) (\<lambda>ty. if sts = [] \<and> \<not> trailing then Some ty else type_of_program b trailing \<Gamma> sts)"

section \<open>Generators and their types\<close>

definition local_types :: "'f compiler \<Rightarrow> tenv" where
  "local_types c = map_option li_value_type \<circ> c_locals c"

definition keeps :: "'f compiler \<Rightarrow> 'f compiler \<Rightarrow> bool" where
  "keeps c c' \<longleftrightarrow> c_locals c' = c_locals c \<and> (\<exists>seg. c_code c' = c_code c @ seg)"

definition typed_at :: "'f compiler \<Rightarrow> (value_type \<times> 'f compiler) compile_result \<Rightarrow> value_type option \<Rightarrow> bool" where
  "typed_at c r t = (case t of Some ty \<Rightarrow> \<exists>c'. r = Some (Inr (ty, c')) \<and> keeps c c' | None \<Rightarrow> \<exists>e. r = Some (Inl e))"

definition typed :: "'f gen \<Rightarrow> (tenv \<Rightarrow> value_type option) \<Rightarrow> bool" where
  "typed g t \<longleftrightarrow> (\<forall>c. typed_at c (g c) (t (local_types c)))"

lemma keeps_refl [simp]: "keeps c c"
  by (simp add: keeps_def)

lemma keeps_trans: "keeps a b \<Longrightarrow> keeps b c \<Longrightarrow> keeps a c"
  by (auto simp: keeps_def)

lemma keeps_types: "keeps c c' \<Longrightarrow> local_types c' = local_types c"
  by (simp add: keeps_def local_types_def)

lemma keeps_steps [simp]:
  "keeps c (c_push c') \<longleftrightarrow> keeps c c'" "keeps c (pop_n n c') \<longleftrightarrow> keeps c c'" "keeps c (c'\<lparr>c_stack_depth := d\<rparr>) \<longleftrightarrow> keeps c c'"
  by (simp_all add: keeps_def c_push_def pop_n_def)

lemma keeps_emit [simp]: "keeps c c' \<Longrightarrow> keeps c (emit i c')"
  by (auto simp: keeps_def emit_def)

lemma typed_at_simps [simp]:
  "typed_at c (Some (Inl e)) t \<longleftrightarrow> t = None" "typed_at c (Some (Inr (ty, c'))) t \<longleftrightarrow> t = Some ty \<and> keeps c c'"
  by (auto simp: typed_at_def split: option.splits)

text \<open>The type of a generator in front of another.\<close>

lemma typed_bind:
  assumes g: "typed_at c r t" and k: "\<And>ty c'. t = Some ty \<Longrightarrow> keeps c c' \<Longrightarrow> typed_at c' (k (ty, c')) (s ty)"
  shows "typed_at c (cbind r k) (Option.bind t s)"
proof (cases t)
  case None
  then show ?thesis using g by (auto simp: typed_at_def)
next
  case (Some ty)
  then obtain c' where "r = Some (Inr (ty, c'))" "keeps c c'" using g by (auto simp: typed_at_def)
  then show ?thesis using k [OF Some, of c'] Some by (auto simp: typed_at_def split: option.splits intro: keeps_trans)
qed

lemma typed_later: "typed g t \<Longrightarrow> keeps c c' \<Longrightarrow> typed_at c' (g c') (t (local_types c))"
  by (metis typed_def keeps_types)

lemma bind_if: "(if t = Some x then Some y else None) = Option.bind t (\<lambda>ty. if ty = x then Some y else None)"
  by (cases t) auto

section \<open>The generators of the compiler\<close>

lemma leaf_typed: "typed (compile_leaf i ty) (\<lambda>_. Some ty)"
  by (simp add: typed_def compile_leaf_def)

lemma name_typed: "typed (compile_name b name) (\<lambda>\<Gamma>. type_of b \<Gamma> (EName name))"
  by (simp add: typed_def compile_name_def compile_leaf_def local_types_def split: option.splits)

lemma unary_typed:
  assumes "typed g t"
  shows "typed (compile_unary op g) (\<lambda>\<Gamma>. if t \<Gamma> = Some (unary_type op) then Some (unary_type op) else None)"
  unfolding typed_def bind_if compile_unary_def
  by (intro allI typed_bind [OF typed_later [OF assms]]) (auto simp: unary_type_def split: unary_op.splits)

lemma operands_typed:
  assumes "typed g t" "typed h s"
    and "\<And>tl tr c c'. keeps c c' \<Longrightarrow> typed_at c' (k tl tr c') (u tl tr)"
  shows "typed (\<lambda>c. cbind (g c) (\<lambda>(tl, c). cbind (h c) (\<lambda>(tr, c). k tl tr c)))
    (\<lambda>\<Gamma>. Option.bind (t \<Gamma>) (\<lambda>tl. Option.bind (s \<Gamma>) (u tl)))"
  unfolding typed_def
proof
  fix c :: "'a compiler"
  show "typed_at c (cbind (g c) (\<lambda>(tl, c). cbind (h c) (\<lambda>(tr, c). k tl tr c))) (Option.bind (t (local_types c)) (\<lambda>tl. Option.bind (s (local_types c)) (u tl)))"
  proof (rule typed_bind [OF typed_later [OF assms(1)]])
    fix tl c1 assume "keeps c c1"
    then have "typed_at c1 (cbind (h c1) (\<lambda>(tr, c). k tl tr c)) (Option.bind (s (local_types c)) (u tl))"
      by (intro typed_bind [OF typed_later [OF assms(2)]]) (auto intro: assms(3))
    then show "typed_at c1 (case (tl, c1) of (tl, c) \<Rightarrow> cbind (h c) (\<lambda>(tr, c). k tl tr c)) (Option.bind (s (local_types c)) (u tl))" by simp
  qed simp
qed

lemma patched:
  assumes "keeps (emit i c) c'" "is_jump i"
  obtains c'' where "patch_jump_target (length (c_code c)) target c' = Some c''" "keeps c c''" "c_locals c'' = c_locals c'"
proof -
  obtain seg where "c_code c' = c_code c @ i # seg" using assms(1) by (auto simp: keeps_def emit_def)
  from patch_middle [OF this assms(2), of target] show thesis using that assms(1) by (auto simp: keeps_def emit_def)
qed

lemma lazy_typed:
  assumes "typed g t" "typed h s"
  shows "typed (compile_lazy (lazy_jump op) g op h)
    (\<lambda>\<Gamma>. Option.bind (t \<Gamma>) (\<lambda>tl. Option.bind (s \<Gamma>) (\<lambda>tr. if tl = TyBool \<and> tr = TyBool then Some TyBool else None)))"
  unfolding typed_def compile_lazy_unfold
proof
  fix c :: "'a compiler"
  let ?k = "\<lambda>c1. cbind (h (lazy_mid op c1)) (\<lambda>(tr, c2). if tr = TyBool
      then map_option (\<lambda>c. Inr (TyBool, c)) (patch_jump_target (length (c_code c1)) (length (c_code c2)) c2)
      else Some (Inl (TypeMismatch (op_context op) TyBool tr)))"
  have k: "typed_at c1 (?k c1) (Option.bind (s (local_types c)) (\<lambda>tr. if tr = TyBool then Some TyBool else None))" if "keeps c c1" for c1
  proof (cases "s (local_types c)")
    case None
    have "local_types (lazy_mid op c1) = local_types c" using keeps_types [OF that] by (simp add: local_types_def)
    then show ?thesis using assms(2) None unfolding typed_def by (auto simp: typed_at_def dest!: spec [of _ "lazy_mid op c1"])
  next
    case (Some tr)
    have "local_types (lazy_mid op c1) = local_types c" using keeps_types [OF that] by (simp add: local_types_def)
    then obtain c2 where c2: "h (lazy_mid op c1) = Some (Inr (tr, c2))" "keeps (lazy_mid op c1) c2"
      using assms(2) Some unfolding typed_def by (auto simp: typed_at_def dest!: spec [of _ "lazy_mid op c1"])
    then have "keeps (emit (lazy_jump op (2 ^ 64 - 1)) c1) c2" by (auto simp: keeps_def emit_def)
    from patched [OF this, of "length (c_code c2)"] obtain c3 where "patch_jump_target (length (c_code c1)) (length (c_code c2)) c2 = Some c3" "keeps c1 c3"
      by auto
    then show ?thesis using c2 Some by simp
  qed
  show "typed_at c (cbind (g c) (\<lambda>(tl, c1). if tl = TyBool then ?k c1 else Some (Inl (TypeMismatch (op_context op) TyBool tl))))
      (Option.bind (t (local_types c)) (\<lambda>tl. Option.bind (s (local_types c)) (\<lambda>tr. if tl = TyBool \<and> tr = TyBool then Some TyBool else None)))"
    by (rule typed_bind [OF typed_later [OF assms(1)]]) (use k in auto)
qed

lemma binary_typed:
  assumes "typed g t" "typed h s"
  shows "typed (compile_binary g op h) (\<lambda>\<Gamma>. Option.bind (t \<Gamma>) (\<lambda>tl. Option.bind (s \<Gamma>) (binary_type op tl)))"
proof -
  have num: "typed (compile_numbers ty g op h)
      (\<lambda>\<Gamma>. Option.bind (t \<Gamma>) (\<lambda>tl. Option.bind (s \<Gamma>) (\<lambda>tr. if tl = TyNumber \<and> tr = TyNumber then Some ty else None)))" for ty
    unfolding compile_numbers_def [abs_def] by (rule operands_typed [OF assms]) auto
  have eq: "typed (compile_equality g op h)
      (\<lambda>\<Gamma>. Option.bind (t \<Gamma>) (\<lambda>tl. Option.bind (s \<Gamma>) (\<lambda>tr. if tl = tr then Some TyBool else None)))"
    unfolding compile_equality_def [abs_def] by (rule operands_typed [OF assms]) auto
  show ?thesis
    using num eq lazy_typed [OF assms, of op] unfolding compile_binary_def binary_type_def [abs_def]
    by (cases op) (simp_all add: is_arith_def is_order_def lazy_jump_def)
qed


lemma if_typed:
  assumes "typed g1 t1" "typed g2 t2" "typed g3 t3"
  shows "typed (compile_if [g1, g2, g3]) (\<lambda>\<Gamma>. call_type ''if'' [t1 \<Gamma>, t2 \<Gamma>, t3 \<Gamma>])"
  unfolding typed_def compile_if_unfold
proof
  fix c :: "'a compiler"
  let ?\<Gamma> = "local_types c"
  let ?k = "\<lambda>c1. cbind (g2 (then_mid c1)) (\<lambda>(ty2, c2). cbind (map_option Inr (else_mid c1 c2)) (\<lambda>c3. cbind (g3 c3) (\<lambda>(ty3, c4).
       if ty2 \<noteq> ty3 then Some (Inl (BinaryTypeMismatch ''if'' ty2 ty3))
       else map_option (\<lambda>c. Inr (ty2, c)) (patch_jump_target (length (c_code c2)) (length (c_code c4)) c4))))"
  let ?t = "Option.bind (t2 ?\<Gamma>) (\<lambda>t. Option.bind (t3 ?\<Gamma>) (\<lambda>e. if t = e then Some t else None))"
  have at: "typed_at c' (g c') (t ?\<Gamma>)" if "typed g t" "c_locals c' = c_locals c" for g t and c' :: "'a compiler"
    using that unfolding typed_def local_types_def by metis
  have k: "typed_at c1 (?k c1) ?t" if c1: "keeps c c1" for c1
  proof (cases "t2 ?\<Gamma>")
    case None
    then show ?thesis using at [OF assms(2), of "then_mid c1"] c1 by (auto simp: typed_at_def keeps_def)
  next
    case (Some ty2)
    then obtain c2 where c2: "g2 (then_mid c1) = Some (Inr (ty2, c2))" "keeps (then_mid c1) c2"
      using at [OF assms(2), of "then_mid c1"] c1 by (auto simp: typed_at_def keeps_def)
    obtain st where st: "c_code c2 = c_code c1 @ JumpIfFalse (2 ^ 64 - 1) # st" using c2(2) by (auto simp: keeps_def)
    obtain c3 xs where c3: "else_mid c1 c2 = Some c3" "c_locals c3 = c_locals c"
        "c_code c3 = (c_code c1 @ xs) @ [Jump (2 ^ 64 - 1)]" "length (c_code c1 @ xs) = length (c_code c2)"
      using patch_middle [of "(emit (Jump (2 ^ 64 - 1)) c2)\<lparr>c_stack_depth := c_stack_depth (then_mid c1)\<rparr>" "c_code c1" "JumpIfFalse (2 ^ 64 - 1)"
          "st @ [Jump (2 ^ 64 - 1)]"] st c1 c2(2) by (auto simp: else_mid_def emit_def keeps_def)
    show ?thesis
    proof (cases "t3 ?\<Gamma>")
      case None
      then show ?thesis using at [OF assms(3) c3(2)] c2 c3(1) Some by (auto simp: typed_at_def)
    next
      case (Some ty3)
      then obtain c4 where c4: "g3 c3 = Some (Inr (ty3, c4))" "keeps c3 c4" using at [OF assms(3) c3(2)] by (auto simp: typed_at_def)
      then obtain se where se: "c_code c4 = (c_code c1 @ xs) @ Jump (2 ^ 64 - 1) # se" using c3(3) by (auto simp: keeps_def)
      from patch_middle [OF this] have "patch_jump_target (length (c_code c2)) tgt c4 = Some (c4\<lparr>c_code := (c_code c1 @ xs) @ Jump tgt # se\<rparr>)" for tgt
        using c3(4) by simp
      then show ?thesis using c2 c3 c4 Some \<open>t2 ?\<Gamma> = Some ty2\<close> c1 by (simp add: keeps_def)
    qed
  qed
  have "call_type ''if'' [t1 ?\<Gamma>, t2 ?\<Gamma>, t3 ?\<Gamma>] = Option.bind (t1 ?\<Gamma>) (\<lambda>ty. if ty = TyBool then ?t else None)"
    by (simp add: call_type_def builtin_from_name_def split: option.splits value_type.splits)
  then show "typed_at c (cbind (g1 c) (\<lambda>(ty1, c1). if ty1 = TyBool then ?k c1 else Some (Inl (TypeMismatch ''if'' TyBool ty1))))
      (call_type ''if'' [t1 ?\<Gamma>, t2 ?\<Gamma>, t3 ?\<Gamma>])"
    by (simp only:) (rule typed_bind [OF typed_later [OF assms(1)]], use k in auto)
qed


lemma args_typed:
  assumes "list_all2 typed gs ts"
  shows "case those (map (\<lambda>t. t (local_types c)) ts) of
      Some tys \<Rightarrow> \<exists>c'. compile_args gs c = Some (Inr (tys, c')) \<and> keeps c c'
    | None \<Rightarrow> \<exists>e. compile_args gs c = Some (Inl e)"
  using assms
proof (induction gs ts arbitrary: c rule: list_all2_induct)
  case (Cons g gs t ts)
  show ?case
  proof (cases "t (local_types c)")
    case None
    then show ?thesis using Cons(1) unfolding typed_def by (auto simp: typed_at_def dest!: spec [of _ c])
  next
    case (Some ty)
    then obtain c1 where c1: "g c = Some (Inr (ty, c1))" "keeps c c1" using Cons(1) unfolding typed_def by (auto simp: typed_at_def dest!: spec [of _ c])
    then show ?thesis using Cons(3) [of c1] Some keeps_types [OF c1(2)] by (auto split: option.splits intro: keeps_trans)
  qed
qed simp

lemma those_None: "those xs = None \<longleftrightarrow> None \<in> set xs"
  by (induction xs) (auto split: option.splits)

lemma those_Some: "those xs = Some ys \<longleftrightarrow> xs = map Some ys"
  by (induction xs arbitrary: ys) (auto split: option.splits)

lemma arg_check_cases:
  assumes n: "length tys = n"
  obtains "arg_check bi n tys = Some (Inr ())" "(\<forall>ty \<in> set tys. ty = TyNumber) \<and> (if bi = BMin \<or> bi = BMax then tys \<noteq> [] else length tys = 1)"
  | e where "arg_check bi n tys = Some (Inl e)" "\<not> ((\<forall>ty \<in> set tys. ty = TyNumber) \<and> (if bi = BMin \<or> bi = BMax then tys \<noteq> [] else length tys = 1))"
proof (cases "arg_check bi n tys")
  case None
  then show thesis using arg_check_no_panic [OF n] by blast
next
  case (Some r)
  show thesis
  proof (cases r)
    case (Inr u)
    then show thesis using that(1) arg_check_Inr [OF _ n, of bi u] Some n by auto
  next
    case (Inl e)
    have "arg_check bi n tys = Some (Inr ())"
      if a: "\<forall>ty \<in> set tys. ty = TyNumber" "if bi = BMin \<or> bi = BMax then tys \<noteq> [] else length tys = 1"
    proof (cases "bi = BMin \<or> bi = BMax")
      case True
      then show ?thesis using a n ensure_types_Inr [of tys TyNumber "builtin_name bi" "()"] by (cases tys) (auto simp: arg_check_def)
    next
      case False
      then obtain ty where "tys = [ty]" using a(2) by (cases tys) auto
      then show ?thesis using a False n by (simp add: arg_check_def index_get_def ensure_type_def)
    qed
    then show thesis using that(2) Some Inl by (metis Inl_Inr_False option.inject)
  qed
qed

lemma call_type_builtin:
  assumes "builtin_from_name name = Some bi" "bi \<noteq> BIf"
  shows "call_type name ts = (case those ts of None \<Rightarrow> None | Some tys \<Rightarrow>
    if (\<forall>ty \<in> set tys. ty = TyNumber) \<and> (if bi = BMin \<or> bi = BMax then tys \<noteq> [] else length tys = 1) then Some TyNumber else None)"
proof (cases "those ts")
  case None
  then have "None \<in> set ts" by (simp add: those_None)
  then show ?thesis using assms None by (cases bi) (auto simp: call_type_def)
next
  case (Some tys)
  then have "ts = map Some tys" by (simp add: those_Some)
  then show ?thesis using assms Some by (cases bi) (auto simp: call_type_def)
qed

lemma call_typed:
  assumes gs: "list_all2 typed gs ts"
  shows "typed (compile_call name gs) (\<lambda>\<Gamma>. call_type name (map (\<lambda>t. t \<Gamma>) ts))"
proof (cases "builtin_from_name name")
  case None
  then show ?thesis by (simp add: typed_def compile_call_def call_type_def)
next
  case (Some bi)
  show ?thesis
  proof (cases "bi = BIf")
    case True
    then have name: "name = ''if''" using Some by (auto simp: builtin_from_name_def split: if_splits)
    have eq: "compile_call name gs = compile_if gs" using Some True by (simp add: compile_call_def fun_eq_iff)
    show ?thesis
    proof (cases "length gs = 3")
      case False
      then have "call_type ''if'' (map (\<lambda>t. t \<Gamma>) ts) = None" for \<Gamma>
        using list_all2_lengthD [OF gs] by (auto simp: call_type_def builtin_from_name_def map_eq_Cons_conv split: list.splits option.splits value_type.splits)
      then show ?thesis unfolding eq unfolding name using False by (simp add: compile_if_def typed_def)
    next
      case True
      then obtain g1 g2 g3 where g: "gs = [g1, g2, g3]" by (auto simp: numeral_3_eq_3 length_Suc_conv)
      then obtain t1 t2 t3 where "ts = [t1, t2, t3]" "typed g1 t1" "typed g2 t2" "typed g3 t3"
        using gs by (auto simp: list_all2_Cons1)
      then show ?thesis unfolding eq unfolding name g using if_typed by force
    qed
  next
    case False
    show ?thesis unfolding typed_def
    proof
      fix c :: "'a compiler"
      let ?ts = "map (\<lambda>t. t (local_types c)) ts"
      note eq = compile_call_builtin [OF Some False, of gs c] call_type_builtin [OF Some False, of ?ts]
      show "typed_at c (compile_call name gs c) (call_type name ?ts)"
      proof (cases "those ?ts")
        case None
        then show ?thesis using args_typed [OF gs, of c] unfolding eq by auto
      next
        case (Some tys)
        then obtain c' where c': "compile_args gs c = Some (Inr (tys, c'))" "keeps c c'" using args_typed [OF gs, of c] by auto
        have "length tys = length gs" using Some list_all2_lengthD [OF gs] by (metis length_map those_Some)
        then show ?thesis
          by (cases rule: arg_check_cases [of tys "length gs" bi]) (use eq c' Some in auto)
      qed
    qed
  qed
qed

lemma expr_typed: "typed (compile_expr b e) (\<lambda>\<Gamma>. type_of b \<Gamma> e)"
proof (induction e)
  case (ECall name args)
  have "list_all2 typed (map (compile_expr b) args) (map (\<lambda>e \<Gamma>. type_of b \<Gamma> e) args)"
    using ECall by (auto simp: list_all2_conv_all_nth)
  from call_typed [OF this, of name] show ?case by (simp add: compile_expr_fun comp_def)
qed (use name_typed in \<open>simp_all add: compile_expr_fun leaf_typed unary_typed binary_typed\<close>)


section \<open>Programs\<close>

lemma local_slot_typed:
  assumes "c_locals c = ls" "\<Gamma> = map_option li_value_type \<circ> ls"
  shows "if \<Gamma> name = None \<or> \<Gamma> name = Some ty
    then \<exists>slot c'. local_slot name ty c = Some (Inr (slot, c')) \<and> local_types c' = \<Gamma>(name \<mapsto> ty)
    else \<exists>e. local_slot name ty c = Some (Inl e)"
  using assms by (auto simp: local_slot_def local_types_def Let_def fun_eq_iff split: option.splits)

lemma local_types_steps [simp]: "local_types (emit i c) = local_types c" "local_types (pop_n n c) = local_types c"
  by (simp_all add: local_types_def emit_def pop_n_def)

lemma statements_typed:
  "case type_of_program b trailing (local_types c) sts of
     Some ty \<Rightarrow> \<exists>c'. compile_statements b trailing sts TyEmpty c = Some (Inr (ty, c'))
   | None \<Rightarrow> \<exists>e. compile_statements b trailing sts TyEmpty c = Some (Inl e)"
proof (induction sts arbitrary: c)
  case (Cons st sts)
  have at: "typed_at c (compile_expr b e c) (type_of b (local_types c) e)" for e using expr_typed unfolding typed_def by blast
  show ?case
  proof (cases st)
    case (SAssign name e)
    show ?thesis
    proof (cases "type_of b (local_types c) e")
      case None
      then show ?thesis using at [of e] SAssign by (auto simp: typed_at_def)
    next
      case (Some ty)
      then obtain c1 where c1: "compile_expr b e c = Some (Inr (ty, c1))" "keeps c c1" using at [of e] by (auto simp: typed_at_def)
      have eq: "local_types c = map_option li_value_type \<circ> c_locals c1" using keeps_types [OF c1(2)] by (simp add: local_types_def)
      show ?thesis
      proof (cases "local_types c name = None \<or> local_types c name = Some ty")
        case True
        then obtain slot c2 where c2: "local_slot name ty c1 = Some (Inr (slot, c2))" "local_types c2 = (local_types c)(name \<mapsto> ty)"
          using local_slot_typed [OF refl eq, of name ty] by auto
        then show ?thesis using Cons.IH [of "pop_n 1 (emit (StoreLocal slot) c2)"] True Some c1(1) unfolding SAssign
          by (auto simp: Let_def simp del: fun_upd_apply split: option.splits)
      next
        case False
        then show ?thesis using local_slot_typed [OF refl eq, of name ty] Some c1(1) SAssign by auto
      qed
    qed
  next
    case (SExpr e)
    show ?thesis
    proof (cases "type_of b (local_types c) e")
      case None
      then show ?thesis using at [of e] SExpr by (auto simp: typed_at_def)
    next
      case (Some ty)
      then obtain c1 where c1: "compile_expr b e c = Some (Inr (ty, c1))" "keeps c c1" using at [of e] by (auto simp: typed_at_def)
      then show ?thesis using Cons.IH [of "pop_n 1 (emit IPop c1)"] Some keeps_types [OF c1(2)] unfolding SExpr by (auto split: option.splits)
    qed
  qed
qed simp

section \<open>Stack and locals\<close>

text \<open>What a formula needs of the machine, stated on the syntax: the deepest stack while its parts are
  computed from left to right, and the number of names that are assigned. The lazy operators drop their left operand
  before the right one, and \<open>if\<close> drops the condition and computes one branch.\<close>

fun args_need :: "nat list \<Rightarrow> nat" where
  "args_need [] = 0"
| "args_need (n # ns) = max n (1 + args_need ns)"

fun stack_need :: "'f expr \<Rightarrow> nat" where
  "stack_need (EUnary op e) = stack_need e"
| "stack_need (EBinary l op r) = (if op = OAnd \<or> op = OOr then max (stack_need l) (stack_need r) else max (stack_need l) (1 + stack_need r))"
| "stack_need (ECall name args) = (if name = ''if'' then foldr max (map stack_need args) 0 else args_need (map stack_need args))"
| "stack_need _ = 1"

definition program_stack :: "'f statement list \<Rightarrow> nat" where
  "program_stack sts = foldr max (map (\<lambda>st. stack_need (statement_expr st)) sts) 0"

fun assigned :: "'f statement list \<Rightarrow> string list" where
  "assigned [] = []"
| "assigned (SAssign name e # sts) = name # assigned sts"
| "assigned (SExpr e # sts) = assigned sts"

definition program_locals :: "'f statement list \<Rightarrow> nat" where
  "program_locals sts = length (remdups (assigned sts))"

text \<open>What a generator does to the counters of the compiler.\<close>

definition costs :: "nat \<Rightarrow> nat \<Rightarrow> 'f compiler \<Rightarrow> 'f compiler \<Rightarrow> bool" where
  "costs k n c c' \<longleftrightarrow> c_stack_depth c' = c_stack_depth c + k \<and> c_max_stack_depth c' = max (c_max_stack_depth c) (c_stack_depth c + n) \<and>
     compiler_ok c' \<and> c_next_local_slot c' = c_next_local_slot c \<and> c_locals c' = c_locals c"

definition uses :: "'f gen \<Rightarrow> nat \<Rightarrow> bool" where
  "uses g n \<longleftrightarrow> (\<forall>c ty c'. compiler_ok c \<longrightarrow> g c = Some (Inr (ty, c')) \<longrightarrow> costs 1 n c c')"

lemma usesD: "uses g n \<Longrightarrow> g c = Some (Inr (ty, c')) \<Longrightarrow> compiler_ok c \<Longrightarrow> costs 1 n c c'"
  by (simp add: uses_def)

lemma patch_frame:
  assumes "patch_jump_target i t c = Some c'"
  shows "c_stack_depth c' = c_stack_depth c" "c_max_stack_depth c' = c_max_stack_depth c"
    "c_next_local_slot c' = c_next_local_slot c" "c_locals c' = c_locals c"
  using assms by (auto simp: patch_jump_target_def bind_Some_conv)

lemma costs_patch: "patch_jump_target i t c' = Some c'' \<Longrightarrow> costs k n c c'' \<longleftrightarrow> costs k n c c'"
  by (auto simp: costs_def compiler_ok_def patch_frame)

lemma costs_emit [simp]: "costs k n c (emit i c') \<longleftrightarrow> costs k n c c'"
  by (simp add: costs_def emit_def compiler_ok_def)

lemma costs_then: "costs j n c c1 \<Longrightarrow> costs k m c1 c2 \<Longrightarrow> costs (j + k) (max n (j + m)) c c2"
  by (auto simp: costs_def)

lemma costs_pop: "costs (Suc k) n c c' \<Longrightarrow> costs k n c (pop_n (Suc 0) c')"
  by (auto simp: costs_def pop_n_def compiler_ok_def usize_sub_def)

lemma costs_ok: "costs k n c c' \<Longrightarrow> compiler_ok c'"
  by (simp add: costs_def)

lemma leaf_uses: "uses (compile_leaf i ty) 1"
  by (auto simp: uses_def compile_leaf_def costs_def c_push_def emit_def compiler_ok_def)

lemma name_uses: "uses (compile_name b name) 1"
  unfolding uses_def compile_name_def by (auto split: option.splits dest: usesD [OF leaf_uses])

lemma unary_uses: "uses g n \<Longrightarrow> uses (compile_unary op g) n"
  by (cases op) (auto simp: uses_def compile_unary_def cbind_Inr)

lemma operands_use:
  assumes "uses g n" "uses h m" "compiler_ok c" "g c = Some (Inr (ty1, c1))" "h c1 = Some (Inr (ty2, c2))"
  shows "costs 1 (max n (1 + m)) c (pop_n (Suc 0) (emit i c2))"
  using costs_then [OF usesD [OF assms(1,4,3)] usesD [OF assms(2,5)]] costs_ok [OF usesD [OF assms(1,4,3)]]
  by (intro costs_pop) (simp add: numeral_2_eq_2)

lemma lazy_uses:
  assumes "uses g n" "uses h m"
  shows "uses (compile_lazy (lazy_jump op) g op h) (max n m)"
  unfolding uses_def compile_lazy_unfold
proof (intro allI impI)
  fix c c' :: "'a compiler" and ty assume ok: "compiler_ok c"
  assume "cbind (g c) (\<lambda>(left_type, c1). if left_type = TyBool then
      cbind (h (lazy_mid op c1)) (\<lambda>(right_type, c2). if right_type = TyBool then
        map_option (\<lambda>c. Inr (TyBool, c)) (patch_jump_target (length (c_code c1)) (length (c_code c2)) c2)
        else Some (Inl (TypeMismatch (op_context op) TyBool right_type))) else Some (Inl (TypeMismatch (op_context op) TyBool left_type))) =
      Some (Inr (ty, c'))"
  then obtain c1 c2 where g: "g c = Some (Inr (TyBool, c1))" and h: "h (lazy_mid op c1) = Some (Inr (TyBool, c2))"
    and p: "patch_jump_target (length (c_code c1)) (length (c_code c2)) c2 = Some c'"
    by (auto simp: cbind_Inr split: if_splits)
  have mid: "costs 0 n c (lazy_mid op c1)" using usesD [OF assms(1) g ok] by (auto simp: lazy_mid_def intro: costs_pop)
  from costs_then [OF mid usesD [OF assms(2) h costs_ok [OF mid]]] show "costs 1 (max n m) c c'" by (simp add: costs_patch [OF p])
qed

lemma binary_uses:
  assumes "uses g n" "uses h m"
  shows "uses (compile_binary g op h) (if op = OAnd \<or> op = OOr then max n m else max n (1 + m))"
proof -
  have "uses (compile_numbers ty g op h) (max n (1 + m))" "uses (compile_equality g op h) (max n (1 + m))" for ty
    using operands_use [OF assms] unfolding uses_def by (auto simp: compile_numbers_def compile_equality_def cbind_Inr split: if_splits)
  then show ?thesis using lazy_uses [OF assms, of op] by (cases op) (simp_all add: compile_binary_def is_arith_def is_order_def lazy_jump_def)
qed

lemma if_uses:
  assumes "uses g1 n1" "uses g2 n2" "uses g3 n3"
  shows "uses (compile_if [g1, g2, g3]) (max n1 (max n2 n3))"
  unfolding uses_def compile_if_unfold
proof (intro allI impI)
  fix c c' :: "'a compiler" and ty assume ok: "compiler_ok c"
  assume "cbind (g1 c) (\<lambda>(ty1, c1). if ty1 = TyBool then
     cbind (g2 (then_mid c1)) (\<lambda>(ty2, c2). cbind (map_option Inr (else_mid c1 c2)) (\<lambda>c3. cbind (g3 c3) (\<lambda>(ty3, c4).
       if ty2 \<noteq> ty3 then Some (Inl (BinaryTypeMismatch ''if'' ty2 ty3))
       else map_option (\<lambda>c. Inr (ty2, c)) (patch_jump_target (length (c_code c2)) (length (c_code c4)) c4))))
     else Some (Inl (TypeMismatch ''if'' TyBool ty1))) = Some (Inr (ty, c'))"
  then obtain c1 c2 c3 c4 where run: "g1 c = Some (Inr (TyBool, c1))" "g2 (then_mid c1) = Some (Inr (ty, c2))"
    "else_mid c1 c2 = Some c3" "g3 c3 = Some (Inr (ty, c4))" "patch_jump_target (length (c_code c2)) (length (c_code c4)) c4 = Some c'"
    by (auto simp: cbind_Inr split: if_splits)
  have c1: "costs 0 n1 c (then_mid c1)" using usesD [OF assms(1) run(1) ok] by (auto simp: then_mid_def intro: costs_pop)
  have "costs 1 n2 (then_mid c1) c2" by (rule usesD [OF assms(2) run(2) costs_ok [OF c1]])
  then have "costs 0 n2 (then_mid c1) ((emit (Jump (2 ^ 64 - 1)) c2)\<lparr>c_stack_depth := c_stack_depth (then_mid c1)\<rparr>)"
    by (auto simp: costs_def compiler_ok_def emit_def)
  then have c3: "costs 0 n2 (then_mid c1) c3" using run(3) costs_patch unfolding else_mid_def by blast
  have "costs 1 (max n1 (max n2 n3)) c c4"
    using costs_then [OF c1 costs_then [OF c3 usesD [OF assms(3) run(4) costs_ok [OF c3]]]] by simp
  then show "costs 1 (max n1 (max n2 n3)) c c'" by (simp add: costs_patch [OF run(5)])
qed

lemma args_use:
  assumes "list_all2 uses gs ns" "compile_args gs c = Some (Inr (tys, c'))" "compiler_ok c"
  shows "costs (length gs) (args_need ns) c c'"
  using assms
proof (induction gs ns arbitrary: c tys rule: list_all2_induct)
  case Nil
  then show ?case by (auto simp: costs_def compiler_ok_def)
next
  case (Cons g gs n ns)
  then obtain ty c1 tys' where g: "g c = Some (Inr (ty, c1))" and gs: "compile_args gs c1 = Some (Inr (tys', c'))" by (auto simp: cbind_Inr)
  note c1 = usesD [OF Cons(1) g Cons.prems(2)]
  from costs_then [OF c1 Cons.IH [OF gs costs_ok [OF c1]]] show ?case by simp
qed

lemma call_uses:
  assumes "list_all2 uses gs ns"
  shows "uses (compile_call name gs) (if name = ''if'' then foldr max ns 0 else args_need ns)"
proof (cases "name = ''if''")
  case True
  then have eq: "compile_call name gs = compile_if gs" by (simp add: compile_call_def builtin_from_name_def fun_eq_iff)
  show ?thesis
  proof (cases "length gs = 3")
    case False
    then show ?thesis unfolding eq by (simp add: uses_def compile_if_def ensure_arg_count_def)
  next
    case l: True
    then obtain g1 g2 g3 where g: "gs = [g1, g2, g3]" by (auto simp: numeral_3_eq_3 length_Suc_conv)
    then obtain n1 n2 n3 where "ns = [n1, n2, n3]" "uses g1 n1" "uses g2 n2" "uses g3 n3" using assms by (auto simp: list_all2_Cons1)
    then show ?thesis unfolding eq using True g if_uses by simp
  qed
next
  case False
  have "costs 1 (args_need ns) c c'" if r: "compile_call name gs c = Some (Inr (ty, c'))" and ok: "compiler_ok c" for c ty c'
  proof -
    obtain bi where bi: "builtin_from_name name = Some bi" "bi \<noteq> BIf"
      using r False by (auto simp: compile_call_def builtin_from_name_def split: option.splits if_splits)
    obtain tys c1 where c1: "compile_args gs c = Some (Inr (tys, c1))" "arg_check bi (length gs) tys = Some (Inr ())"
      "c' = (if 1 < length gs then pop_n (length gs - 1) (emit (ICall bi (length gs)) c1) else emit (ICall bi (length gs)) c1)"
      using r by (auto simp: compile_call_builtin [OF bi] cbind_Inr)
    have "gs \<noteq> []" using c1(2) by (auto simp: arg_check_def ensure_min_arg_count_def ensure_arg_count_def cbind_Inr split: if_splits)
    then show ?thesis using args_use [OF assms c1(1) ok] c1(3)
      by (cases gs) (auto simp: costs_def pop_n_def emit_def usize_sub_def compiler_ok_def)
  qed
  then show ?thesis using False by (simp add: uses_def)
qed

lemma expr_uses: "uses (compile_expr b e) (stack_need e)"
proof (induction e)
  case (ECall name args)
  have "list_all2 uses (map (compile_expr b) args) (map stack_need args)" using ECall by (auto simp: list_all2_conv_all_nth)
  from call_uses [OF this, of name] show ?case by (simp only: compile_expr_fun stack_need.simps)
next
  case (EBinary l op r)
  from binary_uses [OF this, of op] show ?case by (simp only: compile_expr_fun stack_need.simps)
qed (use leaf_uses name_uses in \<open>simp_all add: compile_expr_fun unary_uses\<close>)

lemma local_slot_counts:
  assumes "local_slot name ty c = Some (Inr (slot, c'))" "finite (dom (c_locals c))" "c_next_local_slot c = card (dom (c_locals c))"
  shows "dom (c_locals c') = insert name (dom (c_locals c)) \<and> c_next_local_slot c' = card (insert name (dom (c_locals c))) \<and>
    c_stack_depth c' = c_stack_depth c \<and> c_max_stack_depth c' = c_max_stack_depth c"
  using assms by (auto simp: local_slot_def Let_def insert_absorb domI card_insert_if domIff split: option.splits if_splits)

lemma statements_use:
  assumes "compile_statements b trailing sts ty0 c = Some (Inr (ty, c'))" "c_stack_depth c = 0"
    "finite (dom (c_locals c))" "c_next_local_slot c = card (dom (c_locals c))"
  shows "c_max_stack_depth c' = max (c_max_stack_depth c) (program_stack sts) \<and>
    c_next_local_slot c' = card (dom (c_locals c) \<union> set (assigned sts))"
  using assms
proof (induction sts arbitrary: c ty0)
  case (Cons st sts)
  have ok: "compiler_ok c" using Cons.prems(2) by (simp add: compiler_ok_def)
  show ?case
  proof (cases st)
    case (SAssign name e)
    then obtain ty1 c1 slot c2 ty2 where e: "compile_expr b e c = Some (Inr (ty1, c1))" and l: "local_slot name ty1 c1 = Some (Inr (slot, c2))"
      and r: "compile_statements b trailing sts ty2 (after_pop (StoreLocal slot) c2) = Some (Inr (ty, c'))"
      using Cons.prems(1) by (auto simp: cbind_Inr Let_def after_pop_def)
    have c1: "costs 1 (stack_need e) c c1" by (rule usesD [OF expr_uses e ok])
    have c2: "dom (c_locals c2) = insert name (dom (c_locals c))" "c_next_local_slot c2 = card (insert name (dom (c_locals c)))"
      "c_stack_depth c2 = 1" "c_max_stack_depth c2 = max (c_max_stack_depth c) (stack_need e)"
      using local_slot_counts [OF l] c1 Cons.prems(2-4) by (auto simp: costs_def)
    then show ?thesis using Cons.IH [OF r] Cons.prems(3) SAssign by (simp add: program_stack_def usize_sub_def max.assoc)
  next
    case (SExpr e)
    show ?thesis
    proof (cases "sts = [] \<and> \<not> trailing")
      case True
      then have "compile_expr b e c = Some (Inr (ty, c'))" using Cons.prems(1) SExpr by (auto simp: cbind_Inr)
      from usesD [OF expr_uses this ok] True SExpr Cons.prems(2,4) show ?thesis by (simp add: costs_def program_stack_def)
    next
      case False
      then obtain ty1 c1 where e: "compile_expr b e c = Some (Inr (ty1, c1))"
        and r: "compile_statements b trailing sts ty0 (after_pop IPop c1) = Some (Inr (ty, c'))"
        using Cons.prems(1) SExpr by (auto simp: cbind_Inr after_pop_def)
      have c1: "costs 1 (stack_need e) c c1" by (rule usesD [OF expr_uses e ok])
      then show ?thesis using Cons.IH [OF r] Cons.prems(2-4) SExpr by (simp add: costs_def program_stack_def usize_sub_def max.assoc)
    qed
  qed
qed (simp add: program_stack_def)

text \<open>The errors of a program without a type are never about the limits.\<close>

fun limit_error :: "expression_error \<Rightarrow> bool" where
  "limit_error (StackOverflow _ _) = True"
| "limit_error (TooManyLocals _ _) = True"
| "limit_error _ = False"

definition no_limit :: "(expression_error + 'a) option \<Rightarrow> bool" where
  "no_limit r \<longleftrightarrow> (\<forall>e. r = Some (Inl e) \<longrightarrow> \<not> limit_error e)"

lemma no_limit_simps [simp]: "no_limit None" "no_limit (Some (Inr x))" "no_limit (Some (Inl e)) \<longleftrightarrow> \<not> limit_error e"
  "no_limit (map_option (\<lambda>c. Inr (f c)) r)"
  by (auto simp: no_limit_def)

lemma no_limit_bind: "no_limit r \<Longrightarrow> (\<And>x. no_limit (k x)) \<Longrightarrow> no_limit (cbind r k)"
  by (cases r; cases "the r") (auto simp: no_limit_def)

lemma no_limit_ensure [simp]: "no_limit (ensure_type a b x)" "no_limit (ensure_arg_count s k n)" "no_limit (ensure_min_arg_count s k n)"
  by (simp_all add: ensure_type_def ensure_arg_count_def ensure_min_arg_count_def)

lemma no_limit_types [simp]: "no_limit (ensure_types tys ty x)"
  by (induction tys) (simp_all add: no_limit_bind)

lemma no_limit_args: "\<forall>g \<in> set gs. \<forall>c. no_limit (g c) \<Longrightarrow> no_limit (compile_args gs c)"
  by (induction gs arbitrary: c) (auto intro!: no_limit_bind)

lemma no_limit_if: "\<forall>g \<in> set gs. \<forall>c. no_limit (g c) \<Longrightarrow> no_limit (compile_if gs c)"
  by (cases "length gs = 3") (auto simp: compile_if_def ensure_arg_count_def Let_def split: prod.splits intro!: no_limit_bind)

lemma no_limit_expr: "no_limit (compile_expr b e c)"
proof (induction e arbitrary: c)
  case (EName name)
  show ?case by (simp add: compile_name_def compile_leaf_def split: option.splits)
next
  case (EUnary op e)
  then show ?case by (cases op) (auto simp: compile_unary_def intro!: no_limit_bind)
next
  case (EBinary l op r)
  then show ?case by (cases op) (auto simp: compile_binary_def is_arith_def is_order_def compile_numbers_def compile_equality_def
        compile_lazy_def Let_def split: prod.splits intro!: no_limit_bind)
next
  case (ECall name args)
  then have gs: "\<forall>g \<in> set (map (compile_expr b) args). \<forall>c. no_limit (g c)" by auto
  show ?case unfolding compile_expr_fun
    using no_limit_if [OF gs] no_limit_args [OF gs] by (auto simp: compile_call_def Let_def split: option.splits intro!: no_limit_bind)
qed (simp_all add: compile_leaf_def)

lemma no_limit_statements: "no_limit (compile_statements b trailing sts ty c)"
  by (induction sts arbitrary: ty c rule: assigned.induct)
    (auto simp: Let_def local_slot_def split: option.splits intro!: no_limit_bind no_limit_expr)

section \<open>Properties\<close>

text \<open>C26: the compiler of formulas returns on every program and never panics, and its answer is fixed by the
  syntax. A program without a type is refused with an error that is not about the limits. A program with a type is compiled, to code of this type and
  of the inputs bound, exactly when its stack needs at most \<open>MAX_STACK\<close> values and it assigns at most \<open>MAX_LOCALS\<close> names;
  otherwise it is refused with the number needed, that of the stack first.\<close>

theorem compiler_accepts_typed:
  "case type_of_program b (pr_trailing_semicolon p) Map.empty (pr_statements p) of
     None \<Rightarrow> \<exists>e. compile_program b p = Some (Inl e) \<and> \<not> limit_error e
   | Some ty \<Rightarrow>
       if MAX_STACK < program_stack (pr_statements p)
       then compile_program b p = Some (Inl (StackOverflow (program_stack (pr_statements p)) MAX_STACK))
       else if MAX_LOCALS < program_locals (pr_statements p)
       then compile_program b p = Some (Inl (TooManyLocals (program_locals (pr_statements p)) MAX_LOCALS))
       else \<exists>ce. compile_program b p = Some (Inr ce) \<and> ce_result_type ce = ty \<and> ce_input_len ce = input_len b"
proof -
  have "local_types (compiler_new :: 'a compiler) = Map.empty" by (simp add: local_types_def compiler_new_def fun_eq_iff)
  note st = statements_typed [where b = b and trailing = "pr_trailing_semicolon p" and c = compiler_new and sts = "pr_statements p", unfolded this]
  show ?thesis
  proof (cases "type_of_program b (pr_trailing_semicolon p) Map.empty (pr_statements p)")
    case None
    then show ?thesis using st no_limit_statements [of b "pr_trailing_semicolon p" "pr_statements p" TyEmpty compiler_new]
      by (auto simp: compile_program_def)
  next
    case (Some ty)
    then obtain c where c: "compile_statements b (pr_trailing_semicolon p) (pr_statements p) TyEmpty compiler_new = Some (Inr (ty, c))" using st by auto
    have "c_max_stack_depth c = program_stack (pr_statements p)" "c_next_local_slot c = program_locals (pr_statements p)"
      using statements_use [OF c] by (simp_all add: compiler_new_def program_locals_def length_remdups_card_conv)
    then show ?thesis using Some c by (simp add: compile_program_def)
  qed
qed

end
