(* ===== verification/Synthetic.thy ===== *)
theory Synthetic
  imports Formula_Types Order_Book
begin

text \<open>
  Synthetic instruments (\<open>crates/model/src/instruments/synthetic.rs\<close>): a price that a formula computes from the
  prices of component instruments, with the construction of a \<open>Price\<close> from an \<open>f64\<close>
  (\<open>crates/model/src/types/price.rs\<close>, \<open>fixed.rs\<close>, \<open>crates/core/src/correctness.rs\<close>).

  The conversions of \<open>f64\<close> are a second record of operations. The outer \<open>option\<close> of a result is a run that does
  not end, the inner one a panic, as in the formula engine. Shown: the formula text and the code of an
  instrument never disagree, also after refused changes; a price is the meaning of the formula; the two ways in which prices
  are looked up by name are one.
\<close>

section \<open>Prices from floating point numbers\<close>

record 'f f64_conv =
  fc_is_nan :: "'f \<Rightarrow> bool"
  fc_is_infinite :: "'f \<Rightarrow> bool"
  fc_is_finite :: "'f \<Rightarrow> bool"
  fc_of_int :: "int \<Rightarrow> 'f"
  fc_as_i128 :: "'f \<Rightarrow> int"
  fc_powi :: "'f \<Rightarrow> int \<Rightarrow> 'f"
  fc_epsilon :: 'f
  fc_price_min :: 'f
  fc_price_max :: 'f

datatype 'f price_error = InvalidF64 'f | F64OutOfRange 'f 'f 'f | PricePrecision fixed_error

definition check_in_range_inclusive_f64 :: "'f f64_ops \<Rightarrow> 'f f64_conv \<Rightarrow> 'f \<Rightarrow> 'f \<Rightarrow> 'f \<Rightarrow> 'f price_error + unit" where
  "check_in_range_inclusive_f64 F C v l r =
     (if fc_is_nan C v \<or> fc_is_infinite C v then Inl (InvalidF64 v)
      else if f_lt F v (f_sub F l (fc_epsilon C)) \<or> f_gt F v (f_add F r (fc_epsilon C)) then Inl (F64OutOfRange v l r)
      else Inr ())"

definition f64_to_fixed_i128 :: "'f f64_ops \<Rightarrow> 'f f64_conv \<Rightarrow> 'f \<Rightarrow> nat \<Rightarrow> int panics" where
  "f64_to_fixed_i128 F C v precision =
     (case check_fixed_precision precision of
        Inl _ \<Rightarrow> None
      | Inr _ \<Rightarrow>
          let pow1 = 10 ^ precision; pow2 = 10 ^ (FIXED_PRECISION - precision);
              rounded = fc_as_i128 C (f_round F (f_mul F v (fc_of_int C pow1)))
          in Some (wrap_s 128 (rounded * pow2)))"

definition price_new_checked :: "'f f64_ops \<Rightarrow> 'f f64_conv \<Rightarrow> 'f \<Rightarrow> nat \<Rightarrow> ('f price_error + price) panics" where
  "price_new_checked F C v precision =
     (case check_in_range_inclusive_f64 F C v (fc_price_min C) (fc_price_max C) of
        Inl e \<Rightarrow> Some (Inl e)
      | Inr _ \<Rightarrow>
          (case check_fixed_precision precision of
             Inl e \<Rightarrow> Some (Inl (PricePrecision e))
           | Inr _ \<Rightarrow> map_option (\<lambda>raw. Inr \<lparr>p_raw = raw, p_prec = precision\<rparr>) (f64_to_fixed_i128 F C v precision)))"

section \<open>Bindings of the components\<close>

definition show_instrument_id :: "instrument_id \<Rightarrow> string" where
  "show_instrument_id i = symbol i @ ''.'' @ venue i"

definition component_names_from_components :: "instrument_id list \<Rightarrow> string list" where
  "component_names_from_components components = map show_instrument_id components"

fun bind_names :: "nat \<Rightarrow> string list \<Rightarrow> bindings \<Rightarrow> expression_error + bindings" where
  "bind_names slot [] b = Inr b"
| "bind_names slot (name # names) b =
     (case bindings_add b slot name of (Inl e, _) \<Rightarrow> Inl e | (Inr _, b') \<Rightarrow> bind_names (slot + 1) names b')"

definition legacy_name :: "string \<Rightarrow> string" where
  "legacy_name name = map (\<lambda>c. if c = CHR ''-'' then CHR ''_'' else c) name"

fun bind_aliases :: "nat \<Rightarrow> string list \<Rightarrow> bindings \<Rightarrow> bindings" where
  "bind_aliases slot [] b = b"
| "bind_aliases slot (name # names) b =
     bind_aliases (slot + 1) names (if legacy_name name \<noteq> name then snd (add_alias b slot (legacy_name name)) else b)"

definition build_bindings :: "string list \<Rightarrow> expression_error + bindings" where
  "build_bindings names = and_then (bind_names 0 names bindings_new) (\<lambda>b. Inr (bind_aliases 0 names b))"

definition compile_formula :: "'f f64_ops \<Rightarrow> string \<Rightarrow> string list \<Rightarrow> 'f compiled_expression compile_result option" where
  "compile_formula F formula names =
     (case build_bindings names of Inl e \<Rightarrow> Some (Some (Inl e)) | Inr b \<Rightarrow> compile_numeric F formula b)"

section \<open>The instrument\<close>

record 'f synthetic_instrument =
  si_id :: instrument_id
  si_price_precision :: nat
  si_price_increment :: price
  si_components :: "instrument_id list"
  si_formula :: string
  si_ts_event :: nat
  si_ts_init :: nat
  si_component_names :: "string list"
  si_compiled_formula :: "'f compiled_expression"

datatype 'f synthetic_error =
    FormulaError expression_error
  | IncrementError "'f price_error"
  | MissingPrice string
  | InputLength nat nat
  | NonFinitePrice string 'f
  | InvalidPrice "'f price_error"

definition synthetic_new_checked ::
  "'f f64_ops \<Rightarrow> 'f f64_conv \<Rightarrow> string \<Rightarrow> nat \<Rightarrow> instrument_id list \<Rightarrow> string \<Rightarrow> nat \<Rightarrow> nat \<Rightarrow>
    ('f synthetic_error + 'f synthetic_instrument) panics option" where
  "synthetic_new_checked F C sy price_precision components formula ts_event ts_init =
     (case price_new_checked F C (fc_powi C (fc_of_int C 10) (- int price_precision)) price_precision of
        None \<Rightarrow> Some None
      | Some (Inl e) \<Rightarrow> Some (Some (Inl (IncrementError e)))
      | Some (Inr price_increment) \<Rightarrow>
          let component_names = component_names_from_components components in
          (case compile_formula F formula component_names of
             None \<Rightarrow> None
           | Some None \<Rightarrow> Some None
           | Some (Some (Inl e)) \<Rightarrow> Some (Some (Inl (FormulaError e)))
           | Some (Some (Inr compiled_formula)) \<Rightarrow>
               Some (Some (Inr \<lparr>si_id = \<lparr>symbol = sy, venue = ''SYNTH''\<rparr>, si_price_precision = price_precision,
                 si_price_increment = price_increment, si_components = components, si_formula = formula, si_ts_event = ts_event,
                 si_ts_init = ts_init, si_component_names = component_names, si_compiled_formula = compiled_formula\<rparr>))))"

definition is_valid_formula_for_components :: "'f f64_ops \<Rightarrow> string \<Rightarrow> instrument_id list \<Rightarrow> bool panics option" where
  "is_valid_formula_for_components F formula components =
     map_option (map_option (\<lambda>r. \<not> isl r)) (compile_formula F formula (component_names_from_components components))"

definition is_valid_formula :: "'f f64_ops \<Rightarrow> 'f synthetic_instrument \<Rightarrow> string \<Rightarrow> bool panics option" where
  "is_valid_formula F si formula = is_valid_formula_for_components F formula (si_components si)"

definition change_formula ::
  "'f f64_ops \<Rightarrow> 'f synthetic_instrument \<Rightarrow> string \<Rightarrow> (expression_error option \<times> 'f synthetic_instrument) panics option" where
  "change_formula F si formula =
     map_option (map_option (\<lambda>r. case r of
         Inl e \<Rightarrow> (Some e, si)
       | Inr compiled_formula \<Rightarrow> (None, si\<lparr>si_formula := formula, si_compiled_formula := compiled_formula\<rparr>)))
       (compile_formula F formula (si_component_names si))"

text \<open>The first value that is not finite, with the name of its component.\<close>

fun first_non_finite :: "'f f64_conv \<Rightarrow> string list \<Rightarrow> nat \<Rightarrow> 'f list \<Rightarrow> 'f synthetic_error option panics" where
  "first_non_finite C names i [] = Some None"
| "first_non_finite C names i (v # vs) =
     (if \<not> fc_is_finite C v then map_option (\<lambda>name. Some (NonFinitePrice name v)) (index_get names i)
      else first_non_finite C names (i + 1) vs)"

definition calculate :: "'f f64_ops \<Rightarrow> 'f f64_conv \<Rightarrow> 'f synthetic_instrument \<Rightarrow> 'f list \<Rightarrow> ('f synthetic_error + price) panics option" where
  "calculate F C si inputs =
     (if length inputs \<noteq> length (si_component_names si) then Some (Some (Inl (InputLength (length (si_component_names si)) (length inputs))))
      else case first_non_finite C (si_component_names si) 0 inputs of
        None \<Rightarrow> Some None
      | Some (Some e) \<Rightarrow> Some (Some (Inl e))
      | Some None \<Rightarrow>
          (case eval_number F (si_compiled_formula si) inputs of
             None \<Rightarrow> None
           | Some None \<Rightarrow> Some None
           | Some (Some (Inl e)) \<Rightarrow> Some (Some (Inl (FormulaError e)))
           | Some (Some (Inr v)) \<Rightarrow>
               Some (map_option (\<lambda>r. case r of Inl e \<Rightarrow> Inl (InvalidPrice e) | Inr p \<Rightarrow> Inr p)
                 (price_new_checked F C v (si_price_precision si)))))"

definition MAX_INLINE_COMPONENTS :: nat where
  "MAX_INLINE_COMPONENTS = 8"

text \<open>The buffer of the values of up to eight components, and the vector of the values of more.\<close>

fun fill_buffer :: "(string \<rightharpoonup> 'f) \<Rightarrow> string list \<Rightarrow> nat \<Rightarrow> 'f list \<Rightarrow> ('f synthetic_error + 'f list) panics" where
  "fill_buffer inputs [] i buf = Some (Inr buf)"
| "fill_buffer inputs (name # names) i buf =
     (case inputs name of
        None \<Rightarrow> Some (Inl (MissingPrice name))
      | Some v \<Rightarrow> Option.bind (index_put buf i v) (fill_buffer inputs names (i + 1)))"

fun collect_inputs :: "(string \<rightharpoonup> 'f) \<Rightarrow> string list \<Rightarrow> 'f synthetic_error + 'f list" where
  "collect_inputs inputs [] = Inr []"
| "collect_inputs inputs (name # names) =
     (case inputs name of
        None \<Rightarrow> Inl (MissingPrice name)
      | Some v \<Rightarrow> and_then (collect_inputs inputs names) (\<lambda>vs. Inr (v # vs)))"

definition calculate_from_map ::
  "'f f64_ops \<Rightarrow> 'f f64_conv \<Rightarrow> 'f synthetic_instrument \<Rightarrow> (string \<rightharpoonup> 'f) \<Rightarrow> ('f synthetic_error + price) panics option" where
  "calculate_from_map F C si inputs =
     (let n = length (si_component_names si) in
      if n \<le> MAX_INLINE_COMPONENTS then
        (case fill_buffer inputs (si_component_names si) 0 (replicate MAX_INLINE_COMPONENTS (f_zero F)) of
           None \<Rightarrow> Some None
         | Some (Inl e) \<Rightarrow> Some (Some (Inl e))
         | Some (Inr buf) \<Rightarrow> (case slice buf 0 n of None \<Rightarrow> Some None | Some vs \<Rightarrow> calculate F C si vs))
      else (case collect_inputs inputs (si_component_names si) of Inl e \<Rightarrow> Some (Some (Inl e)) | Inr vs \<Rightarrow> calculate F C si vs))"

section \<open>Bindings\<close>

lemma add_name_len: "slot + 1 < 2 ^ 64 \<Longrightarrow> b_max_slot_plus_one (snd (add_name b slot name)) = max (b_max_slot_plus_one b) (slot + 1)"
  by (auto simp: add_name_def Let_def wrap_u_id split: option.splits list.splits)

lemma bind_names_made:
  assumes "bind_names slot names b = Inr b'" "bindings_made b" "slot + length names < 2 ^ 64" "input_len b \<le> slot"
  shows "bindings_made b' \<and> input_len b' \<le> slot + length names"
  using assms
proof (induction slot names b rule: bind_names.induct)
  case (2 slot name names b)
  obtain r b1 where r: "bindings_add b slot name = (r, b1)" by (cases "bindings_add b slot name")
  then have "bind_names (slot + 1) names b1 = Inr b'" "\<exists>u. r = Inr u" using 2(2) by (auto split: sum.splits)
  moreover have "bindings_made b1" using made_add [OF 2(3), of slot name] 2(4) r by simp
  moreover have "input_len b1 = slot + 1"
    using add_name_len [of slot b name] 2(4,5) r by (simp add: bindings_add_def input_len_def)
  ultimately show ?case using 2(1) [OF r [symmetric]] 2(4) by auto
qed simp

lemma bind_aliases_made:
  assumes "bindings_made b" "slot + length names < 2 ^ 64"
  shows "bindings_made (bind_aliases slot names b) \<and> input_len (bind_aliases slot names b) \<le> max (input_len b) (slot + length names)"
  using assms
proof (induction slot names b rule: bind_aliases.induct)
  case (2 slot name names b)
  let ?b = "if legacy_name name \<noteq> name then snd (add_alias b slot (legacy_name name)) else b"
  have "bindings_made ?b" using made_alias [OF 2(2), of slot] 2(2,3) by simp
  moreover have "input_len ?b \<le> max (input_len b) (slot + 1)"
    using add_name_len [of slot b "legacy_name name"] 2(3) by (simp add: add_alias_def input_len_def)
  ultimately show ?case using 2(1) 2(3) by fastforce
qed simp

lemma build_bindings_made:
  assumes "build_bindings names = Inr b" "length names < 2 ^ 64"
  shows "bindings_made b" "input_len b \<le> length names"
proof -
  obtain b1 where b1: "bind_names 0 names bindings_new = Inr b1" "b = bind_aliases 0 names b1"
    using assms(1) by (auto simp: build_bindings_def and_then_Inr)
  then have "bindings_made b1 \<and> input_len b1 \<le> length names"
    using bind_names_made [OF b1(1)] assms(2) made_new by (simp add: input_len_def bindings_new_def)
  then show "bindings_made b" "input_len b \<le> length names" using bind_aliases_made [of b1 0 names] b1(2) assms(2) by auto
qed


section \<open>The formula and the code\<close>

inductive synthetic_made :: "'f f64_ops \<Rightarrow> 'f f64_conv \<Rightarrow> 'f synthetic_instrument \<Rightarrow> bool" for F C where
  made_synthetic: "synthetic_new_checked F C sy precision components formula ts_event ts_init = Some (Some (Inr si)) \<Longrightarrow> synthetic_made F C si"
| made_change: "synthetic_made F C si \<Longrightarrow> change_formula F si formula = Some (Some (r, si')) \<Longrightarrow> synthetic_made F C si'"

definition formula_current :: "'f f64_ops \<Rightarrow> 'f synthetic_instrument \<Rightarrow> bool" where
  "formula_current F si \<longleftrightarrow> si_component_names si = component_names_from_components (si_components si) \<and>
     compile_formula F (si_formula si) (si_component_names si) = Some (Some (Inr (si_compiled_formula si)))"

lemma synthetic_made_current: "synthetic_made F C si \<Longrightarrow> formula_current F si"
proof (induction rule: synthetic_made.induct)
  case (made_synthetic sy precision components formula ts_event ts_init si)
  then show ?case
    by (auto simp: synthetic_new_checked_def formula_current_def Let_def split: option.splits sum.splits)
next
  case (made_change si formula r si')
  then obtain x where "compile_formula F formula (si_component_names si) = Some (Some x)" by (auto simp: change_formula_def)
  then show ?case using made_change by (cases x) (auto simp: change_formula_def formula_current_def)
qed

lemma price_new_checked_returns: "\<exists>r. price_new_checked F C v precision = Some r"
  by (auto simp: price_new_checked_def f64_to_fixed_i128_def Let_def split: sum.splits)

lemma finite_inputs: "(\<forall>v \<in> set inputs. fc_is_finite C v) \<Longrightarrow> first_non_finite C names i inputs = Some None"
  by (induction inputs arbitrary: i) auto

lemma current_code:
  assumes "formula_current F si" "f64_laws F" "length (si_components si) < 2 ^ 64"
  obtains b tokens p j where "build_bindings (si_component_names si) = Inr b" "tokenize F (si_formula si) b = Some (Inr tokens)"
    "parse F tokens = Parsed p j" "input_len b \<le> length (si_component_names si)" "\<And>inputs. runs_as F b p (si_compiled_formula si) inputs"
proof -
  obtain b where b: "build_bindings (si_component_names si) = Inr b" "compile_numeric F (si_formula si) b = Some (Some (Inr (si_compiled_formula si)))"
    using assms(1) by (auto simp: formula_current_def compile_formula_def split: sum.splits)
  have "length (si_component_names si) < 2 ^ 64" using assms(1,3) by (simp add: formula_current_def component_names_from_components_def)
  note made = build_bindings_made [OF b(1) this]
  show thesis
    by (rule compile_numeric_cases [OF made(1) assms(2), of "si_formula si"]) (use b made(2) that in auto)
qed

text \<open>C28: A synthetic instrument prices by its formula: whatever changes of the formula were accepted or refused, on as many finite
  input prices as there are components \<open>calculate\<close> does not panic, and its result is the price (or the error of making the
  price) of the number that is the meaning of the stored formula text.\<close>

theorem synthetic_price_is_formula:
  assumes "synthetic_made F C si" "f64_laws F" "length (si_components si) < 2 ^ 64"
    and "length inputs = length (si_components si)" "\<forall>v \<in> set inputs. fc_is_finite C v"
  shows "\<exists>b tokens p j v r. build_bindings (component_names_from_components (si_components si)) = Inr b \<and>
    tokenize F (si_formula si) b = Some (Inr tokens) \<and> parse F tokens = Parsed p j \<and>
    run_meaning F b inputs Map.empty (pr_statements p) = Some (VNum v) \<and>
    price_new_checked F C v (si_price_precision si) = Some r \<and>
    calculate F C si inputs = Some (Some (case r of Inl e \<Rightarrow> Inl (InvalidPrice e) | Inr px \<Rightarrow> Inr px))"
proof -
  note cur = synthetic_made_current [OF assms(1)]
  have names: "si_component_names si = component_names_from_components (si_components si)" "length (si_component_names si) = length (si_components si)"
    using cur by (simp_all add: formula_current_def component_names_from_components_def)
  obtain b tokens p j where code: "build_bindings (si_component_names si) = Inr b" "tokenize F (si_formula si) b = Some (Inr tokens)"
    "parse F tokens = Parsed p j" "input_len b \<le> length (si_component_names si)" "\<And>inputs. runs_as F b p (si_compiled_formula si) inputs"
    using current_code [OF cur assms(2,3)] by blast
  obtain v where v: "run_meaning F b inputs Map.empty (pr_statements p) = Some (VNum v)" "eval_number F (si_compiled_formula si) inputs = Some (Some (Inr v))"
    using code(5) [of inputs] code(4) names(2) assms(4) by (auto simp: runs_as_def)
  obtain r where r: "price_new_checked F C v (si_price_precision si) = Some r" using price_new_checked_returns [of F C v] by blast
  have "calculate F C si inputs = Some (Some (case r of Inl e \<Rightarrow> Inl (InvalidPrice e) | Inr px \<Rightarrow> Inr px))"
    using v(2) r finite_inputs [OF assms(5)] names(2) assms(4) by (simp add: calculate_def)
  then show ?thesis using code(1-3) v(1) r names(1) by auto
qed

section \<open>Prices by name\<close>

lemma collect_inputs_those:
  "collect_inputs inputs names = (case those (map inputs names) of
     Some vs \<Rightarrow> Inr vs | None \<Rightarrow> Inl (MissingPrice (hd (filter (\<lambda>n. inputs n = None) names))))"
  by (induction names) (auto split: option.splits)

lemma fill_buffer_collects:
  assumes "i + length names \<le> length buf"
  shows "fill_buffer inputs names i buf = Some (and_then (collect_inputs inputs names) (\<lambda>vs. Inr (take i buf @ vs @ drop (i + length vs) buf)))"
  using assms
proof (induction inputs names i buf rule: fill_buffer.induct)
  case (2 inputs name names i buf)
  show ?case
  proof (cases "inputs name")
    case (Some v)
    have "take (i + 1) (buf[i := v]) = take i buf @ [v]" using 2(2) by (simp add: take_Suc_conv_app_nth)
    then show ?thesis using 2 Some by (cases "collect_inputs inputs names") (auto simp: index_put_def)
  qed simp
qed simp

lemma collect_length: "collect_inputs inputs names = Inr vs \<Longrightarrow> length vs = length names"
  by (induction names arbitrary: vs) (auto simp: and_then_Inr split: option.splits)

text \<open>Prices that are given by name are looked up for the components in their order, in the buffer for few components as in the
  vector for many: the result is that of \<open>calculate\<close> on these prices, or an error for the first component without one.\<close>

theorem calculate_from_map_uniform:
  "calculate_from_map F C si inputs = (case those (map inputs (si_component_names si)) of
     Some vs \<Rightarrow> calculate F C si vs
   | None \<Rightarrow> Some (Some (Inl (MissingPrice (hd (filter (\<lambda>n. inputs n = None) (si_component_names si)))))))"
proof (cases "length (si_component_names si) \<le> MAX_INLINE_COMPONENTS")
  case True
  then show ?thesis
    using collect_length [of inputs "si_component_names si"] collect_inputs_those [of inputs "si_component_names si"]
    by (auto simp: calculate_from_map_def Let_def fill_buffer_collects slice_def split: option.splits)
next
  case False
  then show ?thesis by (auto simp: calculate_from_map_def Let_def collect_inputs_those split: option.splits)
qed

section \<open>A sample\<close>

definition int_conv :: "int f64_conv" where
  "int_conv = \<lparr>fc_is_nan = (\<lambda>_. False), fc_is_infinite = (\<lambda>_. False), fc_is_finite = (\<lambda>_. True), fc_of_int = (\<lambda>x. x), fc_as_i128 = (\<lambda>x. x),
     fc_powi = (\<lambda>x n. x ^ nat n), fc_epsilon = 0, fc_price_min = - 1000, fc_price_max = 1000\<rparr>"

definition sample_component :: instrument_id where
  "sample_component = \<lparr>symbol = ''A'', venue = ''V''\<rparr>"

definition sample_synthetic_bindings :: bindings where
  "sample_synthetic_bindings = \<lparr>b_plain = Map.empty, b_special = [CHR ''A'' \<mapsto> [\<lparr>sb_name = ''A.V'', sb_slot = 0\<rparr>]], b_max_slot_plus_one = 1\<rparr>"

lemma sample_build: "build_bindings (component_names_from_components [sample_component]) = Inr sample_synthetic_bindings"
  by (simp add: build_bindings_def component_names_from_components_def sample_component_def show_instrument_id_def sample_synthetic_bindings_def
      bindings_add_def add_name_def bindings_new_def is_ident_start_def is_ident_continue_def is_ascii_alphabetic_def is_ascii_digit_def wrap_u_def
      sort_specials_def legacy_name_def)

lemma sample_synthetic_tokens: "tokenize int_ops ''A.V*2'' sample_synthetic_bindings = Some (Inr [\<lparr>t_kind = TBinding 0, t_position = 0\<rparr>,
    \<lparr>t_kind = TStar, t_position = 3\<rparr>, \<lparr>t_kind = TNumber 2, t_position = 4\<rparr>, \<lparr>t_kind = TEof, t_position = 5\<rparr>])"
  by (simp add: lexing sample_synthetic_bindings_def int_ops_def)

lemma sample_synthetic_compiles: "\<exists>ce. compile_formula int_ops ''A.V*2'' (component_names_from_components [sample_component]) = Some (Some (Inr ce))"
  by (simp add: compile_formula_def sample_build compile_numeric_def compile_def sample_synthetic_tokens parse_def parse_program_def parse_statement_def
      parse_prefix_def current_def peek_def advance_def expect_eof_def compile_program_def compiler_new_def compile_binary_def compile_numbers_def
      is_order_def is_arith_def compile_leaf_def c_push_def emit_def pop_n_def MAX_STACK_def MAX_LOCALS_def numeral_eq_Suc)

theorem synthetic_price_is_formula_witness:
  "\<exists>si. synthetic_made int_ops int_conv si \<and> si_formula si = ''A.V*2'' \<and> (\<exists>r. calculate int_ops int_conv si [5] = Some (Some r))"
proof -
  obtain si where si: "synthetic_new_checked int_ops int_conv ''S'' 0 [sample_component] ''A.V*2'' 0 0 = Some (Some (Inr si))"
      "si_components si = [sample_component]" "si_formula si = ''A.V*2''"
    using sample_synthetic_compiles
    by (auto simp: synthetic_new_checked_def price_new_checked_def check_in_range_inclusive_f64_def check_fixed_precision_def
        f64_to_fixed_i128_def int_conv_def int_ops_def)
  have made: "synthetic_made int_ops int_conv si" using si(1) by (rule made_synthetic)
  show ?thesis
    using synthetic_price_is_formula [OF made int_ops_laws, of "[5]"] si(2,3) made by (auto simp: int_conv_def)
qed

end
