(* ===== verification/Binary_Heap.thy ===== *)
theory Binary_Heap
  imports Nt_Prelude "HOL-Library.Multiset"
begin

text \<open>
  The binary heap of \<open>crates/persistence/src/backend/binary_heap.rs\<close> with the comparators of \<open>compare.rs\<close>.

  A heap is the vector of its items with the comparator. The source moves items with unchecked
  accesses around a hole; here an access is checked and \<open>None\<close> is an access out of range, so that the results that
  are \<open>Some\<close> show the accesses safe. Loops are recursive functions with a termination proof.

  For a comparator that imposes a total order, every operation returns, keeps the heap order and the multiset of
  items, and the item that \<open>peek_mut\<close> and \<open>pop\<close> see is a greatest one.
\<close>

section \<open>Comparators\<close>

datatype ordering = Less | Equal | Greater

type_synonym 'a compare = "'a \<Rightarrow> 'a \<Rightarrow> ordering"

definition compares_lt :: "'a compare \<Rightarrow> 'a \<Rightarrow> 'a \<Rightarrow> bool" where
  "compares_lt cmp l r \<longleftrightarrow> cmp l r = Less"

definition compares_le :: "'a compare \<Rightarrow> 'a \<Rightarrow> 'a \<Rightarrow> bool" where
  "compares_le cmp l r \<longleftrightarrow> cmp l r \<noteq> Greater"

definition compares_ge :: "'a compare \<Rightarrow> 'a \<Rightarrow> 'a \<Rightarrow> bool" where
  "compares_ge cmp l r \<longleftrightarrow> cmp l r \<noteq> Less"

text \<open>A comparator imposes a total order, as its documentation says.\<close>

definition total_comparator :: "'a compare \<Rightarrow> bool" where
  "total_comparator cmp \<longleftrightarrow> (\<forall>a b. cmp a b = Greater \<longleftrightarrow> cmp b a = Less) \<and>
     (\<forall>a b c. compares_le cmp a b \<longrightarrow> compares_le cmp b c \<longrightarrow> compares_le cmp a c)"

section \<open>The heap\<close>

record 'a binary_heap =
  bh_data :: "'a list"
  bh_cmp :: "'a compare"

text \<open>A hole is its position and the item taken out of it.\<close>

definition move_to :: "'a list \<Rightarrow> nat \<Rightarrow> nat \<Rightarrow> 'a list option" where
  "move_to data pos index = Option.bind (index_get data index) (index_put data pos)"

function sift_up_loop :: "'a compare \<Rightarrow> nat \<Rightarrow> 'a \<Rightarrow> 'a list \<Rightarrow> nat \<Rightarrow> ('a list \<times> nat) option" where
  "sift_up_loop cmp start elt data pos =
     (if start < pos then
        let parent = (pos - 1) div 2 in
        Option.bind (index_get data parent) (\<lambda>p.
          if compares_le cmp elt p then Some (data, pos)
          else Option.bind (move_to data pos parent) (\<lambda>data. sift_up_loop cmp start elt data parent))
      else Some (data, pos))"
  by pat_completeness auto
termination
  by (relation "measure (\<lambda>(cmp, start, elt, data, pos). pos)") auto

definition sift_up :: "'a compare \<Rightarrow> nat \<Rightarrow> nat \<Rightarrow> 'a list \<Rightarrow> ('a list \<times> nat) option" where
  "sift_up cmp start pos data =
     Option.bind (index_get data pos) (\<lambda>elt.
     Option.bind (sift_up_loop cmp start elt data pos) (\<lambda>(data, pos).
       map_option (\<lambda>data. (data, pos)) (index_put data pos elt)))"

text \<open>The greater of two children.\<close>

definition greater_child :: "'a compare \<Rightarrow> 'a list \<Rightarrow> nat \<Rightarrow> nat option" where
  "greater_child cmp data child =
     Option.bind (index_get data child) (\<lambda>l. map_option (\<lambda>r. child + (if compares_le cmp l r then 1 else 0)) (index_get data (child + 1)))"

lemma greater_child_bounds: "greater_child cmp data child = Some c \<Longrightarrow> child \<le> c \<and> c \<le> child + 1 \<and> c < length data"
  by (auto simp: greater_child_def index_get_def bind_eq_Some_conv split: if_splits)

text \<open>The loop of \<open>sift_down_range\<close>; the flag tells an early return.\<close>

function sift_down_loop :: "'a compare \<Rightarrow> 'a \<Rightarrow> nat \<Rightarrow> 'a list \<Rightarrow> nat \<Rightarrow> ('a list \<times> nat \<times> bool) option" where
  "sift_down_loop cmp elt end data pos =
     (let child = 2 * pos + 1 in
      if child \<le> end - 2 then
        (case greater_child cmp data child of
           None \<Rightarrow> None
         | Some child \<Rightarrow>
             Option.bind (index_get data child) (\<lambda>c.
               if compares_ge cmp elt c then Some (data, pos, True)
               else Option.bind (move_to data pos child) (\<lambda>data. sift_down_loop cmp elt end data child)))
      else Some (data, pos, False))"
  by pat_completeness auto
termination
  by (relation "measure (\<lambda>(cmp, elt, end, data, pos). end - pos)") (auto dest!: greater_child_bounds)

definition sift_down_range :: "'a compare \<Rightarrow> nat \<Rightarrow> nat \<Rightarrow> 'a list \<Rightarrow> 'a list option" where
  "sift_down_range cmp pos end data =
     Option.bind (index_get data pos) (\<lambda>elt.
     Option.bind (sift_down_loop cmp elt end data pos) (\<lambda>(data, pos, returned).
       if returned then index_put data pos elt
       else let child = 2 * pos + 1 in
         if child = usize_sub end 1 then
           Option.bind (index_get data child) (\<lambda>c.
             if compares_lt cmp elt c then Option.bind (move_to data pos child) (\<lambda>data. index_put data child elt)
             else index_put data pos elt)
         else index_put data pos elt))"

definition sift_down :: "'a compare \<Rightarrow> nat \<Rightarrow> 'a list \<Rightarrow> 'a list option" where
  "sift_down cmp pos data = sift_down_range cmp pos (length data) data"

text \<open>The hole goes to the bottom, along the greater children.\<close>

function to_bottom_loop :: "'a compare \<Rightarrow> nat \<Rightarrow> 'a list \<Rightarrow> nat \<Rightarrow> ('a list \<times> nat) option" where
  "to_bottom_loop cmp end data pos =
     (let child = 2 * pos + 1 in
      if child \<le> end - 2 then
        (case greater_child cmp data child of
           None \<Rightarrow> None
         | Some child \<Rightarrow> Option.bind (move_to data pos child) (\<lambda>data. to_bottom_loop cmp end data child))
      else Some (data, pos))"
  by pat_completeness auto
termination
  by (relation "measure (\<lambda>(cmp, end, data, pos). end - pos)") (auto dest!: greater_child_bounds)

definition sift_down_to_bottom :: "'a compare \<Rightarrow> nat \<Rightarrow> 'a list \<Rightarrow> 'a list option" where
  "sift_down_to_bottom cmp pos data =
     (let end = length data; start = pos in
      Option.bind (index_get data pos) (\<lambda>elt.
      Option.bind (to_bottom_loop cmp end data pos) (\<lambda>(data, pos).
      Option.bind (let child = 2 * pos + 1 in
          if child = usize_sub end 1 then map_option (\<lambda>data. (data, child)) (move_to data pos child) else Some (data, pos)) (\<lambda>(data, pos).
      Option.bind (index_put data pos elt) (\<lambda>data.
        map_option fst (sift_up cmp start pos data))))))"

fun rebuild_loop :: "'a compare \<Rightarrow> nat \<Rightarrow> 'a list \<Rightarrow> 'a list option" where
  "rebuild_loop cmp 0 data = Some data"
| "rebuild_loop cmp (Suc n) data = Option.bind (sift_down cmp n data) (rebuild_loop cmp n)"

definition heap_rebuild :: "'a binary_heap \<Rightarrow> 'a binary_heap option" where
  "heap_rebuild h = map_option (\<lambda>data. h\<lparr>bh_data := data\<rparr>) (rebuild_loop (bh_cmp h) (length (bh_data h) div 2) (bh_data h))"

definition from_vec_cmp :: "'a list \<Rightarrow> 'a compare \<Rightarrow> 'a binary_heap option" where
  "from_vec_cmp vec cmp =
     (let heap = \<lparr>bh_data = vec, bh_cmp = cmp\<rparr> in if bh_data heap \<noteq> [] then heap_rebuild heap else Some heap)"

text \<open>\<open>pop\<close> returns the item (if there is one) and the heap.\<close>

definition heap_pop :: "'a binary_heap \<Rightarrow> ('a option \<times> 'a binary_heap) option" where
  "heap_pop h =
     (if bh_data h = [] then Some (None, h)
      else let item = last (bh_data h); data = butlast (bh_data h) in
        if data = [] then Some (Some item, h\<lparr>bh_data := data\<rparr>)
        else map_option (\<lambda>d. (Some (data ! 0), h\<lparr>bh_data := d\<rparr>)) (sift_down_to_bottom (bh_cmp h) 0 (data[0 := item])))"

definition heap_push :: "'a \<Rightarrow> 'a binary_heap \<Rightarrow> 'a binary_heap option" where
  "heap_push item h =
     (let old_len = length (bh_data h) in
      map_option (\<lambda>(data, _). h\<lparr>bh_data := data\<rparr>) (sift_up (bh_cmp h) 0 old_len (bh_data h @ [item])))"

definition heap_clear :: "'a binary_heap \<Rightarrow> 'a binary_heap" where
  "heap_clear h = h\<lparr>bh_data := []\<rparr>"

text \<open>\<open>peek_mut\<close> shows the first item; when it was written, the drop of the reference sifts it down.\<close>

definition heap_peek :: "'a binary_heap \<Rightarrow> 'a option" where
  "heap_peek h = (case bh_data h of [] \<Rightarrow> None | x # _ \<Rightarrow> Some x)"

definition heap_write_top :: "'a \<Rightarrow> 'a binary_heap \<Rightarrow> 'a binary_heap option" where
  "heap_write_top item h =
     Option.bind (index_put (bh_data h) 0 item) (\<lambda>data. map_option (\<lambda>data. h\<lparr>bh_data := data\<rparr>) (sift_down (bh_cmp h) 0 data))"

declare sift_up_loop.simps [simp del] sift_down_loop.simps [simp del] to_bottom_loop.simps [simp del]

section \<open>Total comparators\<close>

lemma comparator_trans: "total_comparator cmp \<Longrightarrow> compares_le cmp a b \<Longrightarrow> compares_le cmp b c \<Longrightarrow> compares_le cmp a c"
  unfolding total_comparator_def by blast

lemma comparator_linear: "total_comparator cmp \<Longrightarrow> \<not> compares_le cmp a b \<Longrightarrow> compares_le cmp b a"
  by (auto simp: total_comparator_def compares_le_def)

lemma comparator_refl: "total_comparator cmp \<Longrightarrow> compares_le cmp a a"
  using comparator_linear [of cmp a a] by blast

lemma compares_ge_le: "total_comparator cmp \<Longrightarrow> compares_ge cmp a b \<longleftrightarrow> compares_le cmp b a"
  unfolding total_comparator_def compares_ge_def compares_le_def by blast

lemma compares_lt_le: "total_comparator cmp \<Longrightarrow> compares_lt cmp a b \<longleftrightarrow> \<not> compares_le cmp b a"
  unfolding total_comparator_def compares_lt_def compares_le_def by blast

section \<open>Holes\<close>

definition parent :: "nat \<Rightarrow> nat" where
  "parent i = (i - 1) div 2"

lemma parent_less: "0 < i \<Longrightarrow> parent i < i"
  by (auto simp: parent_def)

lemma sift_up_loop_unfold:
  "pos < length data \<Longrightarrow> sift_up_loop cmp start elt data pos =
     (if start < pos \<and> \<not> compares_le cmp elt (data ! parent pos)
      then Option.bind (move_to data pos (parent pos)) (\<lambda>data. sift_up_loop cmp start elt data (parent pos)) else Some (data, pos))"
  by (subst sift_up_loop.simps) (auto simp: parent_def index_get_def Let_def)

text \<open>Moving a hole is a swap in the vector with the item put back.\<close>

lemma move_to_swap:
  assumes "pos < length data" "i < length data" "i \<noteq> pos" "v = data[pos := elt]"
  obtains data' where "move_to data pos i = Some data'" "length data' = length data" "mset (data'[i := elt]) = mset v"
    "\<And>k. k < length data \<Longrightarrow> data'[i := elt] ! k = (if k = i then elt else if k = pos then v ! i else v ! k)"
proof -
  have m: "move_to data pos i = Some (data[pos := data ! i])" using assms by (simp add: move_to_def index_get_def index_put_def)
  have "data[pos := data ! i, i := elt] = v[pos := v ! i, i := v ! pos]" using assms by (simp add: list_update_swap)
  then have "mset (data[pos := data ! i, i := elt]) = mset v" using assms mset_swap [of i v pos] by (simp add: list_update_swap)
  moreover have "data[pos := data ! i, i := elt] ! k = (if k = i then elt else if k = pos then v ! i else v ! k)" if "k < length data" for k
    using assms that by (auto simp: nth_list_update)
  ultimately show thesis using that m by simp
qed

definition heap_order :: "nat \<Rightarrow> 'a compare \<Rightarrow> 'a list \<Rightarrow> bool" where
  "heap_order lo cmp v \<longleftrightarrow> (\<forall>i < length v. 0 < i \<longrightarrow> lo \<le> parent i \<longrightarrow> compares_le cmp (v ! i) (v ! parent i))"

text \<open>The order around a hole: of the items elsewhere, and of the children of the hole below its parent.\<close>

definition hole_order :: "nat \<Rightarrow> 'a compare \<Rightarrow> nat \<Rightarrow> 'a list \<Rightarrow> bool" where
  "hole_order lo cmp pos v \<longleftrightarrow>
     (\<forall>i < length v. 0 < i \<longrightarrow> lo \<le> parent i \<longrightarrow> i \<noteq> pos \<longrightarrow> parent i \<noteq> pos \<longrightarrow> compares_le cmp (v ! i) (v ! parent i)) \<and>
     (\<forall>i < length v. 0 < i \<longrightarrow> parent i = pos \<longrightarrow> 0 < pos \<longrightarrow> lo \<le> parent pos \<longrightarrow> compares_le cmp (v ! i) (v ! parent pos))"

definition below_hole :: "'a compare \<Rightarrow> nat \<Rightarrow> 'a list \<Rightarrow> bool" where
  "below_hole cmp pos v \<longleftrightarrow> (\<forall>i < length v. 0 < i \<longrightarrow> parent i = pos \<longrightarrow> compares_le cmp (v ! i) (v ! pos))"

definition above_hole :: "nat \<Rightarrow> 'a compare \<Rightarrow> nat \<Rightarrow> 'a list \<Rightarrow> bool" where
  "above_hole lo cmp pos v \<longleftrightarrow> (0 < pos \<longrightarrow> lo \<le> parent pos \<longrightarrow> compares_le cmp (v ! pos) (v ! parent pos))"

lemma heap_orderI: "hole_order lo cmp pos v \<Longrightarrow> below_hole cmp pos v \<Longrightarrow> above_hole lo cmp pos v \<Longrightarrow> heap_order lo cmp v"
  unfolding heap_order_def hole_order_def below_hole_def above_hole_def by metis

lemma hole_orderD:
  assumes "hole_order lo cmp pos v" "i < length v" "0 < i"
  shows "lo \<le> parent i \<Longrightarrow> i \<noteq> pos \<Longrightarrow> parent i \<noteq> pos \<Longrightarrow> compares_le cmp (v ! i) (v ! parent i)"
    and "parent i = pos \<Longrightarrow> 0 < pos \<Longrightarrow> lo \<le> parent pos \<Longrightarrow> compares_le cmp (v ! i) (v ! parent pos)"
  using assms unfolding hole_order_def by blast+

lemma below_holeD: "below_hole cmp pos v \<Longrightarrow> i < length v \<Longrightarrow> 0 < i \<Longrightarrow> parent i = pos \<Longrightarrow> compares_le cmp (v ! i) (v ! pos)"
  unfolding below_hole_def by blast

lemma sift_up_returns:
  assumes tc: "total_comparator cmp" and "pos < length data" "hole_order 0 cmp pos (data[pos := elt])" "below_hole cmp pos (data[pos := elt])"
  shows "\<exists>d p. sift_up_loop cmp 0 elt data pos = Some (d, p) \<and> p < length d \<and> length d = length data \<and>
    heap_order 0 cmp (d[p := elt]) \<and> mset (d[p := elt]) = mset (data[pos := elt])"
  using assms(2-4)
proof (induction pos arbitrary: data rule: less_induct)
  case (less pos)
  let ?v = "data[pos := elt]" and ?p = "parent pos"
  show ?case
  proof (cases "0 < pos \<and> \<not> compares_le cmp elt (data ! ?p)")
    case False
    then have "above_hole 0 cmp pos ?v" using less.prems(1) parent_less [of pos] by (auto simp: above_hole_def)
    then have "heap_order 0 cmp ?v" using less.prems(2,3) heap_orderI by blast
    then show ?thesis using False less.prems(1) by (auto simp: sift_up_loop_unfold)
  next
    case True
    then have pos: "0 < pos" "?p < pos" "?p < length data" "?p \<noteq> pos" using less.prems(1) parent_less [of pos] by auto
    have le: "compares_le cmp (?v ! ?p) elt" using True pos(4) comparator_linear [OF tc] by simp
    obtain data' where d: "move_to data pos ?p = Some data'" "length data' = length data" "mset (data'[?p := elt]) = mset ?v"
      and w: "\<And>k. k < length data \<Longrightarrow> data'[?p := elt] ! k = (if k = ?p then elt else if k = pos then ?v ! ?p else ?v ! k)"
      using move_to_swap [OF less.prems(1) pos(3,4) refl, of elt] by blast
    note ord = hole_orderD [OF less.prems(2)] and tr = comparator_trans [OF tc]
    have sib: "compares_le cmp (?v ! i) (?v ! ?p)" if "i < length data" "0 < i" "i \<noteq> pos" "parent i = ?p" for i
      using ord(1) [of i] that pos(4) by simp
    have up: "compares_le cmp (?v ! ?p) (?v ! parent ?p)" if "0 < ?p" using ord(1) [of ?p] that pos parent_less [OF that] by simp
    have "hole_order 0 cmp ?p (data'[?p := elt])"
      unfolding hole_order_def
    proof (intro conjI allI impI)
      fix i assume i: "i < length (data'[?p := elt])" "0 < i" "i \<noteq> ?p" "parent i \<noteq> ?p"
      have "i \<noteq> pos" using i(4) by blast
      have p: "parent i < length data" using i(1,2) d(2) parent_less [OF i(2)] by simp
      show "compares_le cmp (data'[?p := elt] ! i) (data'[?p := elt] ! parent i)"
        using w [of i] w [OF p] i \<open>i \<noteq> pos\<close> d(2) ord [of i] pos(1) by (cases "parent i = pos") simp_all
    next
      fix i assume i: "i < length (data'[?p := elt])" "0 < i" "parent i = ?p" "0 < ?p"
      have p: "parent ?p < length data" "parent ?p \<noteq> ?p" "parent ?p \<noteq> pos" using pos i(4) parent_less [OF i(4)] by linarith+
      have "i \<noteq> ?p" using i(2,3) parent_less [OF i(2)] by linarith
      then show "compares_le cmp (data'[?p := elt] ! i) (data'[?p := elt] ! parent ?p)"
        using w [of i] w [OF p(1)] p i d(2) up [OF i(4)] tr [OF sib [of i] up] by (cases "i = pos") simp_all
    qed
    moreover have "below_hole cmp ?p (data'[?p := elt])"
      unfolding below_hole_def
    proof (intro allI impI)
      fix i assume i: "i < length (data'[?p := elt])" "0 < i" "parent i = ?p"
      have "i \<noteq> ?p" using i(2,3) parent_less [OF i(2)] by linarith
      then show "compares_le cmp (data'[?p := elt] ! i) (data'[?p := elt] ! ?p)"
        using w [of i] w [OF pos(3)] i d(2) le tr [OF sib [of i] le] by (cases "i = pos") simp_all
    qed
    moreover have "sift_up_loop cmp 0 elt data pos = sift_up_loop cmp 0 elt data' ?p"
      using True d(1) less.prems(1) by (simp add: sift_up_loop_unfold)
    ultimately show ?thesis using less.IH [OF pos(2), of data'] pos(3) d(2,3) by simp
  qed
qed

section \<open>Moving down\<close>

definition greatest_child :: "'a compare \<Rightarrow> 'a list \<Rightarrow> nat \<Rightarrow> nat \<Rightarrow> bool" where
  "greatest_child cmp v pos c \<longleftrightarrow> c < length v \<and> 0 < c \<and> parent c = pos \<and>
     (\<forall>i < length v. 0 < i \<longrightarrow> parent i = pos \<longrightarrow> compares_le cmp (v ! i) (v ! c))"

lemma parent_eq_iff: "0 < i \<Longrightarrow> parent i = pos \<longleftrightarrow> i = 2 * pos + 1 \<or> i = 2 * pos + 2"
  by (auto simp: parent_def)

lemma greater_child_greatest:
  assumes tc: "total_comparator cmp" and "2 * pos + 1 \<le> length data - 2"
  obtains c where "greater_child cmp data (2 * pos + 1) = Some c" "greatest_child cmp (data[pos := elt]) pos c" "pos < c"
proof -
  let ?l = "2 * pos + 1"
  have len: "?l + 1 < length data" using assms(2) by linarith
  have "greatest_child cmp (data[pos := elt]) pos (if compares_le cmp (data ! ?l) (data ! (?l + 1)) then ?l + 1 else ?l)"
    using len comparator_linear [OF tc] comparator_refl [OF tc] by (auto simp: greatest_child_def parent_eq_iff)
  then show thesis using that [of "if compares_le cmp (data ! ?l) (data ! (?l + 1)) then ?l + 1 else ?l"] len
    by (auto simp: greater_child_def index_get_def)
qed

lemma hole_step:
  assumes tc: "total_comparator cmp" and h: "hole_order lo cmp pos v" and c: "greatest_child cmp v pos c" and lo: "lo \<le> pos" and len: "length w = length v"
    and w: "\<And>k. k < length v \<Longrightarrow> w ! k = (if k = c then elt else if k = pos then v ! c else v ! k)"
  shows "hole_order lo cmp c w"
  unfolding hole_order_def len
proof (intro conjI allI impI)
  note cs = c [unfolded greatest_child_def]
  have pc: "pos < c" using cs parent_less [of c] by auto
  note ord = hole_orderD [OF h]
  {
    fix i assume i: "i < length v" "0 < i" "lo \<le> parent i" "i \<noteq> c" "parent i \<noteq> c"
    have p: "parent i < length v" using parent_less [OF i(2)] i(1) by simp
    show "compares_le cmp (w ! i) (w ! parent i)"
    proof (cases "i = pos")
      case True
      then have "parent i \<noteq> pos" using parent_less [OF i(2)] by simp
      then show ?thesis using True w [OF i(1)] w [OF p] i(3-5) i(2) ord(2) [of c] cs by simp
    next
      case False
      then show ?thesis using w [OF i(1)] w [OF p] i ord(1) [OF i(1,2)] cs by (cases "parent i = pos") simp_all
    qed
  }
  fix i assume i: "i < length v" "0 < i" "parent i = c" "0 < c"
  have "i \<noteq> pos" "i \<noteq> c" using parent_less [OF i(2)] i(3) pc by auto
  then show "compares_le cmp (w ! i) (w ! parent c)"
    using w [OF i(1)] w [of pos] cs pc i ord(1) [OF i(1,2)] lo by simp
qed

text \<open>What a hole at \<open>p\<close> in \<open>d\<close> has of a hole at \<open>pos\<close> in \<open>data\<close> from which it was moved.\<close>

definition moved :: "'a \<Rightarrow> 'a list \<Rightarrow> nat \<Rightarrow> 'a list \<Rightarrow> nat \<Rightarrow> bool" where
  "moved elt data pos d p \<longleftrightarrow> pos \<le> p \<and> p < length d \<and> length d = length data \<and> mset (d[p := elt]) = mset (data[pos := elt])"

lemma moved_refl: "pos < length data \<Longrightarrow> moved elt data pos data pos"
  by (simp add: moved_def)

lemma moved_trans: "moved elt data pos d p \<Longrightarrow> moved elt d p e q \<Longrightarrow> moved elt data pos e q"
  by (simp add: moved_def)

lemma down_step:
  assumes tc: "total_comparator cmp" and pos: "pos < length data" and h: "hole_order lo cmp pos (data[pos := elt])"
    and c: "greatest_child cmp (data[pos := elt]) pos c" and lo: "lo \<le> pos"
  obtains d where "move_to data pos c = Some d" "moved elt data pos d c" "hole_order lo cmp c (d[c := elt])" "d[c := elt] ! parent c = data ! c"
proof -
  have cs: "c < length data" "pos < c" "parent c = pos" using c parent_less [of c] by (auto simp: greatest_child_def)
  obtain d where d: "move_to data pos c = Some d" "length d = length data" "mset (d[c := elt]) = mset (data[pos := elt])"
    and w: "\<And>k. k < length data \<Longrightarrow> d[c := elt] ! k = (if k = c then elt else if k = pos then data[pos := elt] ! c else data[pos := elt] ! k)"
    using move_to_swap [OF pos cs(1) _ refl, of elt] cs(2) by blast
  have "hole_order lo cmp c (d[c := elt])" by (rule hole_step [OF tc h c lo]) (use d w in simp_all)
  then show thesis using that d cs w [OF pos] by (simp add: moved_def)
qed

lemma sift_down_loop_stop: "\<not> 2 * pos + 1 \<le> end - 2 \<Longrightarrow> sift_down_loop cmp elt end data pos = Some (data, pos, False)"
  by (subst sift_down_loop.simps) (simp only: Let_def if_False)

lemma sift_down_loop_step:
  assumes "2 * pos + 1 \<le> end - 2" "greater_child cmp data (2 * pos + 1) = Some c" "c < length data"
  shows "sift_down_loop cmp elt end data pos = (if compares_ge cmp elt (data ! c) then Some (data, pos, True)
    else Option.bind (move_to data pos c) (\<lambda>data. sift_down_loop cmp elt end data c))"
  by (subst sift_down_loop.simps) (use assms in \<open>simp only: Let_def if_True option.case index_get_def Option.bind_lunit\<close>)

lemma sift_down_loop_returns:
  assumes tc: "total_comparator cmp" and "pos < length data" "hole_order lo cmp pos (data[pos := elt])" "above_hole lo cmp pos (data[pos := elt])" "lo \<le> pos"
  shows "\<exists>d p r. sift_down_loop cmp elt (length data) data pos = Some (d, p, r) \<and> moved elt data pos d p \<and> hole_order lo cmp p (d[p := elt]) \<and>
    above_hole lo cmp p (d[p := elt]) \<and> (if r then below_hole cmp p (d[p := elt]) else length data - 2 < 2 * p + 1)"
  using assms(2-5)
proof (induction "length data - pos" arbitrary: data pos rule: less_induct)
  case less
  let ?v = "data[pos := elt]"
  show ?case
  proof (cases "2 * pos + 1 \<le> length data - 2")
    case False
    then have "length data - 2 < 2 * pos + 1" by linarith
    then show ?thesis using less.prems moved_refl [of pos data elt] unfolding sift_down_loop_stop [OF False] by auto
  next
    case True
    obtain c where c: "greater_child cmp data (2 * pos + 1) = Some c" "greatest_child cmp ?v pos c" "pos < c"
      using greater_child_greatest [OF tc True] by blast
    have cl: "c < length data" "?v ! c = data ! c" using c(2,3) by (auto simp: greatest_child_def)
    show ?thesis
    proof (cases "compares_ge cmp elt (data ! c)")
      case ge: True
      have "below_hole cmp pos ?v"
        unfolding below_hole_def
      proof (intro allI impI)
        fix i assume "i < length ?v" "0 < i" "parent i = pos"
        then have "compares_le cmp (?v ! i) (?v ! c)" using c(2) unfolding greatest_child_def by blast
        then show "compares_le cmp (?v ! i) (?v ! pos)"
          using ge comparator_trans [OF tc] cl(2) less.prems(1) by (auto simp: compares_ge_le [OF tc])
      qed
      moreover have "sift_down_loop cmp elt (length data) data pos = Some (data, pos, True)"
        unfolding sift_down_loop_step [OF True c(1) cl(1)] using ge by simp
      ultimately show ?thesis using less.prems(2,3) moved_refl [OF less.prems(1), of elt] by auto
    next
      case lt: False
      obtain d where d: "move_to data pos c = Some d" "moved elt data pos d c" "hole_order lo cmp c (d[c := elt])" "d[c := elt] ! parent c = data ! c"
        using down_step [OF tc less.prems(1,2) c(2) less.prems(4)] by blast
      have ab: "above_hole lo cmp c (d[c := elt])"
        using lt d(2,4) comparator_linear [OF tc] by (auto simp: above_hole_def compares_ge_le [OF tc] moved_def)
      have len: "length d = length data" using d(2) by (simp add: moved_def)
      have eq: "sift_down_loop cmp elt (length data) data pos = sift_down_loop cmp elt (length d) d c"
        unfolding sift_down_loop_step [OF True c(1) cl(1)] using lt d(1) len by simp
      have "length d - c < length data - pos" "c < length d" "lo \<le> c" using len c(3) cl(1) less.prems(4) by simp_all
      from less.hyps [OF this(1,2) d(3) ab this(3)] obtain e p r where "sift_down_loop cmp elt (length d) d c = Some (e, p, r)" "moved elt d c e p"
          "hole_order lo cmp p (e[p := elt])" "above_hole lo cmp p (e[p := elt])" "if r then below_hole cmp p (e[p := elt]) else length d - 2 < 2 * p + 1"
        by blast
      then show ?thesis unfolding eq len using moved_trans [OF d(2)] by blast
    qed
  qed
qed

text \<open>A hole that has at most the child in the last position.\<close>

lemma below_hole_last:
  assumes "length v - 2 < 2 * p + 1" "2 * p + 1 \<noteq> length v - 1 \<or> compares_le cmp (v ! (2 * p + 1)) (v ! p)" "p < length v"
  shows "below_hole cmp p v"
  unfolding below_hole_def
proof (intro allI impI)
  fix i assume "i < length v" "0 < i" "parent i = p"
  then have "i = 2 * p + 1" "2 * p + 1 = length v - 1" using assms(1) parent_eq_iff [of i p] by linarith+
  then show "compares_le cmp (v ! i) (v ! p)" using assms(2) by simp
qed

lemma last_child_greatest:
  assumes "total_comparator cmp" "2 * p + 1 = length v - 1" "p < length v"
  shows "greatest_child cmp v p (2 * p + 1)"
  using assms comparator_refl [OF assms(1)] by (auto simp: greatest_child_def parent_eq_iff)

lemma sift_down_returns:
  assumes tc: "total_comparator cmp" and pos: "pos < length data" and h: "heap_order (pos + 1) cmp data"
  obtains d where "sift_down cmp pos data = Some d" "heap_order pos cmp d" "mset d = mset data" "length d = length data"
proof -
  let ?elt = "data ! pos" and ?n = "length data"
  have ho: "hole_order pos cmp pos (data[pos := ?elt])"
    unfolding hole_order_def list_update_id
  proof (intro conjI allI impI)
    fix i assume "i < ?n" "0 < i" "pos \<le> parent i" "i \<noteq> pos" "parent i \<noteq> pos"
    then show "compares_le cmp (data ! i) (data ! parent i)" using h unfolding heap_order_def by (metis Suc_eq_plus1 Suc_leI le_neq_implies_less)
  qed (use parent_less [of pos] in auto)
  have "above_hole pos cmp pos (data[pos := ?elt])" using parent_less [of pos] by (auto simp: above_hole_def)
  from sift_down_loop_returns [OF tc pos ho this] obtain e p r where loop: "sift_down_loop cmp ?elt ?n data pos = Some (e, p, r)"
      and m: "moved ?elt data pos e p" and o1: "hole_order pos cmp p (e[p := ?elt])" "above_hole pos cmp p (e[p := ?elt])"
      and r: "if r then below_hole cmp p (e[p := ?elt]) else ?n - 2 < 2 * p + 1"
    by auto
  have ms: "pos \<le> p" "p < length e" "length e = ?n" "mset (e[p := ?elt]) = mset data" using m by (simp_all add: moved_def)
  have one: "usize_sub ?n (Suc 0) = ?n - Suc 0" using pos by (simp add: usize_sub_def)
  show thesis
  proof (cases "\<not> r \<and> 2 * p + 1 = ?n - 1 \<and> compares_lt cmp ?elt (e ! (2 * p + 1))")
    case False
    have "below_hole cmp p (e[p := ?elt])"
    proof (cases r)
      case nr: False
      then show ?thesis using False r ms by (intro below_hole_last) (auto simp: compares_lt_le [OF tc])
    qed (use r in simp)
    then have "heap_order pos cmp (e[p := ?elt])" using o1 heap_orderI by blast
    moreover have "sift_down cmp pos data = Some (e[p := ?elt])"
      using False loop ms pos by (auto simp: sift_down_def sift_down_range_def index_get_def index_put_def one Let_def)
    ultimately show thesis using that ms by simp
  next
    case True
    let ?c = "2 * p + 1"
    have gc: "greatest_child cmp (e[p := ?elt]) p ?c" using True ms by (intro last_child_greatest [OF tc]) simp_all
    then obtain d where d: "move_to e p ?c = Some d" "moved ?elt e p d ?c" "hole_order pos cmp ?c (d[?c := ?elt])" "d[?c := ?elt] ! parent ?c = e ! ?c"
      using down_step [OF tc ms(2) o1(1) gc ms(1)] by blast
    have dl: "?c < length d" "length d = ?n" "mset (d[?c := ?elt]) = mset data" using d(2) ms by (simp_all add: moved_def)
    have "above_hole pos cmp ?c (d[?c := ?elt])"
      unfolding above_hole_def d(4) using True dl(1) comparator_linear [OF tc] by (auto simp: compares_lt_le [OF tc])
    moreover have "below_hole cmp ?c (d[?c := ?elt])" using True dl by (intro below_hole_last) auto
    ultimately have "heap_order pos cmp (d[?c := ?elt])" using d(3) heap_orderI by blast
    moreover have "sift_down cmp pos data = Some (d[?c := ?elt])"
      using True loop ms pos d(1) dl by (auto simp: sift_down_def sift_down_range_def index_get_def index_put_def one Let_def)
    ultimately show thesis using that dl by simp
  qed
qed

text \<open>The hole that goes to the bottom.\<close>

lemma to_bottom_step:
  assumes "2 * pos + 1 \<le> end - 2" "greater_child cmp data (2 * pos + 1) = Some c" "move_to data pos c = Some d"
  shows "to_bottom_loop cmp end data pos = to_bottom_loop cmp end d c"
  by (subst to_bottom_loop.simps) (use assms in \<open>simp only: Let_def if_True option.case Option.bind_lunit\<close>)

lemma to_bottom_loop_returns:
  assumes tc: "total_comparator cmp" and "pos < length data" "hole_order 0 cmp pos (data[pos := elt])"
  shows "\<exists>d p. to_bottom_loop cmp (length data) data pos = Some (d, p) \<and> moved elt data pos d p \<and> hole_order 0 cmp p (d[p := elt]) \<and>
    length data - 2 < 2 * p + 1"
  using assms(2,3)
proof (induction "length data - pos" arbitrary: data pos rule: less_induct)
  case less
  show ?case
  proof (cases "2 * pos + 1 \<le> length data - 2")
    case False
    have "to_bottom_loop cmp (length data) data pos = Some (data, pos)"
      by (subst to_bottom_loop.simps) (use False in \<open>simp only: Let_def if_False\<close>)
    then show ?thesis using less.prems moved_refl [of pos data elt] False by auto
  next
    case True
    obtain c where c: "greater_child cmp data (2 * pos + 1) = Some c" "greatest_child cmp (data[pos := elt]) pos c" "pos < c"
      using greater_child_greatest [OF tc True] by blast
    obtain d where d: "move_to data pos c = Some d" "moved elt data pos d c" "hole_order 0 cmp c (d[c := elt])"
      using down_step [OF tc less.prems(1,2) c(2)] by blast
    have len: "length d = length data" "c < length d" using d(2) by (simp_all add: moved_def)
    then have "length d - c < length data - pos" using c(3) by simp
    from less.hyps [OF this len(2) d(3)] obtain e p where "to_bottom_loop cmp (length d) d c = Some (e, p)" "moved elt d c e p"
        "hole_order 0 cmp p (e[p := elt])" "length d - 2 < 2 * p + 1"
      by blast
    then show ?thesis using to_bottom_step [OF True c(1) d(1)] moved_trans [OF d(2)] len(1) by auto
  qed
qed

lemma sift_up_at_hole:
  assumes tc: "total_comparator cmp" and pos: "pos < length data" and h: "hole_order 0 cmp pos data" "below_hole cmp pos data"
  obtains d p where "sift_up cmp 0 pos data = Some (d, p)" "heap_order 0 cmp d" "mset d = mset data"
proof -
  obtain e p where "sift_up_loop cmp 0 (data ! pos) data pos = Some (e, p)" "p < length e" "heap_order 0 cmp (e[p := data ! pos])"
      "mset (e[p := data ! pos]) = mset data"
    using sift_up_returns [OF tc pos, of "data ! pos"] h by auto
  then show thesis using that pos by (simp add: sift_up_def index_get_def index_put_def)
qed

lemma root_hole_order:
  assumes "heap_order 0 cmp v" "0 < length v"
  shows "hole_order 0 cmp 0 (v[0 := x])"
  using assms parent_less unfolding hole_order_def heap_order_def
  by (metis (no_types, lifting) bot_nat_0.extremum length_list_update less_irrefl nth_list_update_neq)

lemma sift_down_to_bottom_returns:
  assumes tc: "total_comparator cmp" and n: "0 < length data" and h: "hole_order 0 cmp 0 data"
  obtains d where "sift_down_to_bottom cmp 0 data = Some d" "heap_order 0 cmp d" "mset d = mset data"
proof -
  let ?elt = "data ! 0" and ?n = "length data"
  obtain e p where e: "to_bottom_loop cmp ?n data 0 = Some (e, p)" "moved ?elt data 0 e p" "hole_order 0 cmp p (e[p := ?elt])" "?n - 2 < 2 * p + 1"
    using to_bottom_loop_returns [OF tc n, of ?elt] h by auto
  have ms: "p < length e" "length e = ?n" "mset (e[p := ?elt]) = mset data" using e(2) by (simp_all add: moved_def)
  have one: "usize_sub ?n (Suc 0) = ?n - Suc 0" using n by (simp add: usize_sub_def Suc_le_eq)
  define last where "last = (if 2 * p + 1 = ?n - 1 then map_option (\<lambda>d. (d, 2 * p + 1)) (move_to e p (2 * p + 1)) else Some (e, p))"
  have "\<exists>d q. last = Some (d, q) \<and> q < length d \<and> hole_order 0 cmp q (d[q := ?elt]) \<and> below_hole cmp q (d[q := ?elt]) \<and> mset (d[q := ?elt]) = mset data"
  proof (cases "2 * p + 1 = ?n - 1")
    case False
    then have "below_hole cmp p (e[p := ?elt])" using e(4) ms by (intro below_hole_last) auto
    then show ?thesis using False e(3) ms by (simp add: last_def)
  next
    case True
    let ?c = "2 * p + 1"
    have "greatest_child cmp (e[p := ?elt]) p ?c" using True ms by (intro last_child_greatest [OF tc]) simp_all
    then obtain d where d: "move_to e p ?c = Some d" "moved ?elt e p d ?c" "hole_order 0 cmp ?c (d[?c := ?elt])"
      using down_step [OF tc ms(1) e(3)] by blast
    moreover have "below_hole cmp ?c (d[?c := ?elt])" using True d(2) ms by (intro below_hole_last) (auto simp: moved_def)
    ultimately show ?thesis using True ms by (auto simp: last_def moved_def)
  qed
  then obtain d q where d: "last = Some (d, q)" "q < length d" "hole_order 0 cmp q (d[q := ?elt])" "below_hole cmp q (d[q := ?elt])"
      "mset (d[q := ?elt]) = mset data" by blast
  obtain f k where "sift_up cmp 0 q (d[q := ?elt]) = Some (f, k)" "heap_order 0 cmp f" "mset f = mset data"
    using sift_up_at_hole [OF tc _ d(3,4)] d(2,5) by auto
  moreover have "(if Suc (2 * p) = ?n - Suc 0 then map_option (\<lambda>d. (d, Suc (2 * p))) (move_to e p (Suc (2 * p))) else Some (e, p)) = Some (d, q)"
    using d(1) by (auto simp: last_def split: if_splits)
  ultimately show thesis
    using that e(1) d(2) n by (simp add: sift_down_to_bottom_def Let_def index_get_def index_put_def one)
qed

section \<open>The operations\<close>

definition heap_ok :: "'a binary_heap \<Rightarrow> bool" where
  "heap_ok h \<longleftrightarrow> total_comparator (bh_cmp h) \<and> heap_order 0 (bh_cmp h) (bh_data h)"

lemma root_greatest:
  assumes "heap_ok h" "x \<in> set (bh_data h)"
  shows "compares_le (bh_cmp h) x (bh_data h ! 0)"
proof -
  have tc: "total_comparator (bh_cmp h)" and ho: "heap_order 0 (bh_cmp h) (bh_data h)" using assms(1) by (simp_all add: heap_ok_def)
  have "compares_le (bh_cmp h) (bh_data h ! i) (bh_data h ! 0)" if "i < length (bh_data h)" for i
    using that
  proof (induction i rule: less_induct)
    case (less i)
    show ?case
    proof (cases "i = 0")
      case False
      then have p: "parent i < i" using parent_less by simp
      have "compares_le (bh_cmp h) (bh_data h ! i) (bh_data h ! parent i)" using ho False less.prems by (simp add: heap_order_def)
      then show ?thesis using less.IH [OF p] p less.prems comparator_trans [OF tc] by simp
    qed (simp add: comparator_refl [OF tc])
  qed
  then show ?thesis using assms(2) by (metis in_set_conv_nth)
qed

lemma heap_pop_returns:
  assumes ok: "heap_ok h" and ne: "bh_data h \<noteq> []"
  obtains h' where "heap_pop h = Some (Some (bh_data h ! 0), h')" "heap_ok h'" "bh_cmp h' = bh_cmp h"
    "add_mset (bh_data h ! 0) (mset (bh_data h')) = mset (bh_data h)"
proof -
  have tc: "total_comparator (bh_cmp h)" and ho: "heap_order 0 (bh_cmp h) (bh_data h)" using ok by (simp_all add: heap_ok_def)
  obtain ds x where ds: "bh_data h = ds @ [x]" using ne rev_exhaust by blast
  show thesis
  proof (cases "ds = []")
    case True
    show thesis by (rule that [of "h\<lparr>bh_data := []\<rparr>"]) (use True ds tc in \<open>simp_all add: heap_pop_def heap_ok_def heap_order_def\<close>)
  next
    case False
    have ord: "heap_order 0 (bh_cmp h) ds"
      unfolding heap_order_def
    proof (intro allI impI)
      fix i assume i: "i < length ds" "0 < i"
      have "parent i < length ds" using i parent_less [of i] by simp
      then show "compares_le (bh_cmp h) (ds ! i) (ds ! parent i)" using ho [unfolded heap_order_def, rule_format, of i] i unfolding ds by (simp add: nth_append)
    qed
    have n: "0 < length ds" "0 < length (ds[0 := x])" using False by simp_all
    obtain d where d: "sift_down_to_bottom (bh_cmp h) 0 (ds[0 := x]) = Some d" "heap_order 0 (bh_cmp h) d" "mset d = mset (ds[0 := x])"
      by (rule sift_down_to_bottom_returns [OF tc n(2) root_hole_order [OF ord n(1)]])
    have m: "add_mset (ds ! 0) (mset (ds[0 := x])) = mset (ds @ [x])" using False by (cases ds) auto
    have top: "bh_data h ! 0 = ds ! 0" using False ds by (simp add: nth_append)
    show thesis
    proof (rule that [of "h\<lparr>bh_data := d\<rparr>"])
      show "heap_pop h = Some (Some (bh_data h ! 0), h\<lparr>bh_data := d\<rparr>)" unfolding top using ds d(1) False by (simp add: heap_pop_def Let_def)
      show "add_mset (bh_data h ! 0) (mset (bh_data (h\<lparr>bh_data := d\<rparr>))) = mset (bh_data h)" unfolding top using m ds d(3) by simp
    qed (use tc d(2) in \<open>simp_all add: heap_ok_def\<close>)
  qed
qed

lemma heap_push_returns:
  assumes ok: "heap_ok h"
  obtains h' where "heap_push x h = Some h'" "heap_ok h'" "bh_cmp h' = bh_cmp h" "mset (bh_data h') = add_mset x (mset (bh_data h))"
proof -
  have tc: "total_comparator (bh_cmp h)" and ho: "heap_order 0 (bh_cmp h) (bh_data h)" using ok by (simp_all add: heap_ok_def)
  let ?n = "length (bh_data h)" and ?v = "bh_data h @ [x]"
  have top: "parent i \<noteq> ?n" if "i < length ?v" "0 < i" for i using that parent_less [of i] by simp
  then have "below_hole (bh_cmp h) ?n ?v" unfolding below_hole_def by blast
  moreover have "hole_order 0 (bh_cmp h) ?n ?v"
    unfolding hole_order_def
  proof (intro conjI allI impI)
    fix i assume i: "i < length ?v" "0 < i" "i \<noteq> ?n"
    then have "i < ?n" "parent i < ?n" using parent_less [of i] by auto
    then show "compares_le (bh_cmp h) (?v ! i) (?v ! parent i)"
      using ho [unfolded heap_order_def, rule_format, of i] i by (simp add: nth_append)
  qed (use top in blast)
  ultimately obtain d p where "sift_up (bh_cmp h) 0 ?n ?v = Some (d, p)" "heap_order 0 (bh_cmp h) d" "mset d = mset ?v"
    using sift_up_at_hole [OF tc, of ?n ?v] by auto
  then show thesis using that [of "h\<lparr>bh_data := d\<rparr>"] tc by (simp add: heap_push_def heap_ok_def)
qed

lemma heap_write_top_returns:
  assumes ok: "heap_ok h" and ne: "bh_data h \<noteq> []"
  obtains h' where "heap_write_top x h = Some h'" "heap_ok h'" "bh_cmp h' = bh_cmp h"
    "add_mset (bh_data h ! 0) (mset (bh_data h')) = add_mset x (mset (bh_data h))"
proof -
  have tc: "total_comparator (bh_cmp h)" and ho: "heap_order 0 (bh_cmp h) (bh_data h)" using ok by (simp_all add: heap_ok_def)
  have "heap_order (0 + 1) (bh_cmp h) ((bh_data h)[0 := x])"
    unfolding heap_order_def
  proof (intro allI impI)
    fix i assume i: "i < length ((bh_data h)[0 := x])" "0 < i" "0 + 1 \<le> parent i"
    then show "compares_le (bh_cmp h) ((bh_data h)[0 := x] ! i) ((bh_data h)[0 := x] ! parent i)" using ho by (simp add: heap_order_def)
  qed
  from sift_down_returns [OF tc _ this] ne obtain d where d: "sift_down (bh_cmp h) 0 ((bh_data h)[0 := x]) = Some d" "heap_order 0 (bh_cmp h) d"
      "mset d = mset ((bh_data h)[0 := x])"
    by auto
  moreover have "add_mset (bh_data h ! 0) (mset ((bh_data h)[0 := x])) = add_mset x (mset (bh_data h))" using ne by (cases "bh_data h") auto
  ultimately show thesis using that [of "h\<lparr>bh_data := d\<rparr>"] ne tc by (simp add: heap_write_top_def heap_ok_def index_put_def)
qed

lemma rebuild_loop_returns:
  assumes tc: "total_comparator cmp" and "heap_order n cmp data" "n \<le> length data"
  shows "\<exists>d. rebuild_loop cmp n data = Some d \<and> heap_order 0 cmp d \<and> mset d = mset data"
  using assms(2,3)
proof (induction n arbitrary: data)
  case (Suc n)
  obtain d where d: "sift_down cmp n data = Some d" "heap_order n cmp d" "mset d = mset data" "length d = length data"
    using sift_down_returns [OF tc, of n data] Suc.prems by auto
  show ?case using Suc.IH [OF d(2)] d Suc.prems(2) by auto
qed simp

lemma from_vec_cmp_returns:
  assumes tc: "total_comparator cmp"
  obtains h where "from_vec_cmp vec cmp = Some h" "heap_ok h" "bh_cmp h = cmp" "mset (bh_data h) = mset vec"
proof -
  have "heap_order (length vec div 2) cmp vec" by (auto simp: heap_order_def parent_def)
  from rebuild_loop_returns [OF tc this] obtain d where d: "rebuild_loop cmp (length vec div 2) vec = Some d" "heap_order 0 cmp d" "mset d = mset vec" by auto
  show thesis
  proof (rule that)
    show "from_vec_cmp vec cmp = Some \<lparr>bh_data = d, bh_cmp = cmp\<rparr>" using d by (auto simp: from_vec_cmp_def heap_rebuild_def Let_def)
  qed (use d tc in \<open>simp_all add: heap_ok_def\<close>)
qed

end
