(* ===== verification/Kmerge.thy ===== *)
theory Kmerge
  imports Binary_Heap
begin

text \<open>
  The merge of batched streams of \<open>crates/persistence/src/backend/kmerge_batch.rs\<close>, with the comparator by
  initialisation time and the query result of \<open>session.rs\<close>.

  A stream is the list of the batches that it delivers, a batch a list of items; the asynchronous task that reads ahead
  (\<open>EagerStream\<close>) delivers the same batches and is not modelled. An item has a time \<open>ts\<close> (\<open>ts_init\<close>), which is a parameter.
  Shown: a merge of streams that are sorted returns every item, once and in the order of time.
\<close>

section \<open>Elements\<close>

record 'd element_batch_iter =
  eb_item :: 'd
  eb_batch :: "'d list"
  eb_iter :: "'d list list"

text \<open>The first item of the first batch that is not empty.\<close>

fun new_from_iter :: "'d list list \<Rightarrow> 'd element_batch_iter option" where
  "new_from_iter [] = None"
| "new_from_iter ([] # iter) = new_from_iter iter"
| "new_from_iter ((x # batch) # iter) = Some \<lparr>eb_item = x, eb_batch = batch, eb_iter = iter\<rparr>"

definition compare_nat :: "nat compare" where
  "compare_nat a b = (if a < b then Less else if a = b then Equal else Greater)"

fun ordering_reverse :: "ordering \<Rightarrow> ordering" where
  "ordering_reverse Less = Greater"
| "ordering_reverse Equal = Equal"
| "ordering_reverse Greater = Less"

definition ts_init_compare :: "('d \<Rightarrow> nat) \<Rightarrow> 'd element_batch_iter compare" where
  "ts_init_compare ts l r = ordering_reverse (compare_nat (ts (eb_item l)) (ts (eb_item r)))"

section \<open>The merge\<close>

type_synonym 'd kmerge = "'d element_batch_iter binary_heap"

definition kmerge_new :: "'d element_batch_iter compare \<Rightarrow> 'd kmerge option" where
  "kmerge_new cmp = from_vec_cmp [] cmp"

definition push_iter :: "'d list list \<Rightarrow> 'd kmerge \<Rightarrow> 'd kmerge option" where
  "push_iter s heap = (case new_from_iter s of None \<Rightarrow> Some heap | Some heap_elem \<Rightarrow> heap_push heap_elem heap)"

definition kmerge_clear :: "'d kmerge \<Rightarrow> 'd kmerge" where
  "kmerge_clear heap = heap_clear heap"

text \<open>\<open>next\<close>: the item of the first element, which is replaced by its successor; an element without one is popped. The
  source writes through \<open>peek_mut\<close>, whose drop sifts the element down.\<close>

definition kmerge_next :: "'d kmerge \<Rightarrow> ('d option \<times> 'd kmerge) option" where
  "kmerge_next heap =
     (case heap_peek heap of
        None \<Rightarrow> Some (None, heap)
      | Some heap_elem \<Rightarrow>
          (case eb_batch heap_elem of
             item # batch \<Rightarrow>
               map_option (\<lambda>heap. (Some (eb_item heap_elem), heap)) (heap_write_top (heap_elem\<lparr>eb_item := item, eb_batch := batch\<rparr>) heap)
           | [] \<Rightarrow>
               (case new_from_iter (eb_iter heap_elem) of
                  None \<Rightarrow> map_option (\<lambda>(popped, heap). (map_option eb_item popped, heap)) (heap_pop heap)
                | Some heap_elem' \<Rightarrow> map_option (\<lambda>heap. (Some (eb_item heap_elem), heap)) (heap_write_top heap_elem' heap))))"

text \<open>The merge of the streams of a query, and all that it delivers.\<close>

fun push_all :: "'d list list list \<Rightarrow> 'd kmerge \<Rightarrow> 'd kmerge option" where
  "push_all [] heap = Some heap"
| "push_all (s # streams) heap = Option.bind (push_iter s heap) (push_all streams)"

definition get_query_result :: "('d \<Rightarrow> nat) \<Rightarrow> 'd list list list \<Rightarrow> 'd kmerge option" where
  "get_query_result ts batch_streams = Option.bind (kmerge_new (ts_init_compare ts)) (push_all batch_streams)"

partial_function (option) kmerge_collect :: "'d kmerge \<Rightarrow> 'd list option" where
  "kmerge_collect heap =
     (case kmerge_next heap of
        None \<Rightarrow> None
      | Some (None, heap) \<Rightarrow> Some []
      | Some (Some item, heap) \<Rightarrow> Option.bind (kmerge_collect heap) (\<lambda>items. Some (item # items)))"

section \<open>Every item once\<close>

lemma ts_init_compare_total: "total_comparator (ts_init_compare ts)"
  by (auto simp: total_comparator_def compares_le_def ts_init_compare_def compare_nat_def split: if_splits)

lemma ts_init_compare_le: "compares_le (ts_init_compare ts) l r \<longleftrightarrow> ts (eb_item r) \<le> ts (eb_item l)"
  by (auto simp: compares_le_def ts_init_compare_def compare_nat_def)

definition remaining :: "'d element_batch_iter \<Rightarrow> 'd list" where
  "remaining e = eb_item e # eb_batch e @ concat (eb_iter e)"

definition all_remaining :: "'d kmerge \<Rightarrow> 'd multiset" where
  "all_remaining heap = (\<Sum>e \<in># mset (bh_data heap). mset (remaining e))"

definition merge_ok :: "('d \<Rightarrow> nat) \<Rightarrow> 'd kmerge \<Rightarrow> bool" where
  "merge_ok ts heap \<longleftrightarrow> heap_ok heap \<and> bh_cmp heap = ts_init_compare ts \<and> (\<forall>e \<in> set (bh_data heap). sorted (map ts (remaining e)))"

lemma new_from_iter_remaining:
  "new_from_iter iter = Some e \<Longrightarrow> remaining e = concat iter" "new_from_iter iter = None \<Longrightarrow> concat iter = []"
  by (induction iter rule: new_from_iter.induct) (auto simp: remaining_def)

lemma push_iter_ok:
  assumes ok: "merge_ok ts heap" and s: "sorted (map ts (concat s))"
  obtains heap' where "push_iter s heap = Some heap'" "merge_ok ts heap'" "all_remaining heap' = all_remaining heap + mset (concat s)"
proof (cases "new_from_iter s")
  case None
  then show thesis using that [of heap] ok new_from_iter_remaining(2) [OF None] by (simp add: push_iter_def)
next
  case (Some e)
  have "heap_ok heap" using ok by (simp add: merge_ok_def)
  from heap_push_returns [OF this, of e] obtain heap' where h: "heap_push e heap = Some heap'" "heap_ok heap'" "bh_cmp heap' = bh_cmp heap"
      "mset (bh_data heap') = add_mset e (mset (bh_data heap))" .
  have set: "set (bh_data heap') = insert e (set (bh_data heap))" using h(4) by (metis set_mset_add_mset_insert set_mset_mset)
  show thesis
  proof (rule that)
    show "push_iter s heap = Some heap'" using Some h(1) by (simp add: push_iter_def)
    show "merge_ok ts heap'" using ok h(2,3) set s new_from_iter_remaining(1) [OF Some] by (auto simp: merge_ok_def)
    show "all_remaining heap' = all_remaining heap + mset (concat s)" using h(4) new_from_iter_remaining(1) [OF Some] by (simp add: all_remaining_def)
  qed
qed

lemma push_all_ok:
  assumes "merge_ok ts heap" "\<forall>s \<in> set streams. sorted (map ts (concat s))"
  shows "\<exists>heap'. push_all streams heap = Some heap' \<and> merge_ok ts heap' \<and> all_remaining heap' = all_remaining heap + mset (concat (concat streams))"
  using assms
proof (induction streams arbitrary: heap)
  case (Cons s streams)
  obtain h1 where h1: "push_iter s heap = Some h1" "merge_ok ts h1" "all_remaining h1 = all_remaining heap + mset (concat s)"
    using push_iter_ok [OF Cons.prems(1), of s] Cons.prems(2) by auto
  obtain h2 where "push_all streams h1 = Some h2" "merge_ok ts h2" "all_remaining h2 = all_remaining h1 + mset (concat (concat streams))"
    using Cons.IH [OF h1(2)] Cons.prems(2) by auto
  then show ?case using h1 by (simp add: add.assoc)
qed simp

text \<open>A step delivers an item of the least time.\<close>

lemma kmerge_next_ok:
  assumes ok: "merge_ok ts heap" and ne: "bh_data heap \<noteq> []"
  obtains item heap' where "kmerge_next heap = Some (Some item, heap')" "merge_ok ts heap'"
    "all_remaining heap = add_mset item (all_remaining heap')" "\<forall>x \<in># all_remaining heap. ts item \<le> ts x"
proof -
  have hok: "heap_ok heap" using ok by (simp add: merge_ok_def)
  obtain e es where e: "bh_data heap = e # es" using ne by (cases "bh_data heap") auto
  have peek: "heap_peek heap = Some e" and top: "bh_data heap ! 0 = e" using e by (simp_all add: heap_peek_def)
  have least: "ts (eb_item e) \<le> ts x" if x: "x \<in># all_remaining heap" for x
  proof -
    obtain f where f: "f \<in> set (bh_data heap)" "x \<in> set (remaining f)" using x by (auto simp: all_remaining_def)
    have "ts (eb_item e) \<le> ts (eb_item f)"
      using root_greatest [OF hok f(1)] ok unfolding top by (simp add: merge_ok_def ts_init_compare_le)
    also have "\<dots> \<le> ts x" using ok f unfolding merge_ok_def remaining_def by fastforce
    finally show ?thesis .
  qed
  note found = that
  have put: "thesis" if w: "kmerge_next heap = map_option (\<lambda>heap. (Some (eb_item e), heap)) (heap_write_top e' heap)"
      and r: "remaining e = eb_item e # remaining e'" for e'
  proof -
    obtain h' where h: "heap_write_top e' heap = Some h'" "heap_ok h'" "bh_cmp h' = bh_cmp heap"
        "add_mset e (mset (bh_data h')) = add_mset e' (mset (bh_data heap))"
      using heap_write_top_returns [OF hok ne, of e'] top by auto
    have m: "mset (bh_data h') = add_mset e' (mset es)" using h(4) e by simp
    then have set: "set (bh_data h') = insert e' (set es)" by (metis set_mset_add_mset_insert set_mset_mset)
    have "sorted (map ts (remaining e'))" using ok e r by (auto simp: merge_ok_def)
    then have "merge_ok ts h'" using ok h(2,3) set e by (simp add: merge_ok_def)
    moreover have "all_remaining heap = add_mset (eb_item e) (all_remaining h')" using m e r by (simp add: all_remaining_def)
    ultimately show thesis using found [of "eb_item e" h'] w h(1) least by simp
  qed
  show thesis
  proof (cases "eb_batch e")
    case (Cons x xs)
    then show thesis using peek by (intro put [of "e\<lparr>eb_item := x, eb_batch := xs\<rparr>"]) (simp_all add: kmerge_next_def remaining_def)
  next
    case Nil
    show thesis
    proof (cases "new_from_iter (eb_iter e)")
      case (Some e')
      then show thesis using peek Nil new_from_iter_remaining(1) [OF Some] by (intro put [of e']) (simp_all add: kmerge_next_def remaining_def)
    next
      case None
      have r: "remaining e = [eb_item e]" using Nil new_from_iter_remaining(2) [OF None] by (simp add: remaining_def)
      obtain h' where h: "heap_pop heap = Some (Some e, h')" "heap_ok h'" "bh_cmp h' = bh_cmp heap" "add_mset e (mset (bh_data h')) = mset (bh_data heap)"
        using heap_pop_returns [OF hok ne] top by auto
      have m: "mset (bh_data h') = mset es" using h(4) e by simp
      then have "set (bh_data h') = set es" by (metis set_mset_mset)
      then have "merge_ok ts h'" using ok h(2,3) e by (simp add: merge_ok_def)
      moreover have "all_remaining heap = add_mset (eb_item e) (all_remaining h')" using m e r by (simp add: all_remaining_def)
      ultimately show thesis using found [of "eb_item e" h'] h(1) least peek Nil None by (simp add: kmerge_next_def)
    qed
  qed
qed

lemma kmerge_collect_ok:
  assumes "merge_ok ts heap"
  shows "\<exists>items. kmerge_collect heap = Some items \<and> sorted (map ts items) \<and> mset items = all_remaining heap"
  using assms
proof (induction "size (all_remaining heap)" arbitrary: heap rule: less_induct)
  case less
  show ?case
  proof (cases "bh_data heap = []")
    case True
    then show ?thesis by (subst kmerge_collect.simps) (simp add: kmerge_next_def heap_peek_def all_remaining_def)
  next
    case False
    obtain item h' where n: "kmerge_next heap = Some (Some item, h')" "merge_ok ts h'" "all_remaining heap = add_mset item (all_remaining h')"
        "\<forall>x \<in># all_remaining heap. ts item \<le> ts x"
      using kmerge_next_ok [OF less.prems False] by blast
    have "size (all_remaining h') < size (all_remaining heap)" using n(3) by simp
    from less.hyps [OF this n(2)] obtain items where i: "kmerge_collect h' = Some items" "sorted (map ts items)" "mset items = all_remaining h'"
      by blast
    have "set items = set_mset (all_remaining h')" using i(3) by (metis set_mset_mset)
    then have "sorted (map ts (item # items))" using i(2) n(3,4) by simp
    then show ?thesis using n(1,3) i by (subst kmerge_collect.simps) simp
  qed
qed

text \<open>C38: A query over streams that are each sorted by time returns, and the items that it delivers are exactly the items of the
  streams, each as often as it occurs, sorted by time; no access of the heap is out of range.\<close>

theorem query_merges_sorted:
  assumes "\<forall>s \<in> set streams. sorted (map ts (concat s))"
  shows "\<exists>items. Option.bind (get_query_result ts streams) kmerge_collect = Some items \<and>
    sorted (map ts items) \<and> mset items = mset (concat (concat streams))"
proof -
  obtain h0 where new: "from_vec_cmp [] (ts_init_compare ts) = Some h0" "heap_ok h0" "bh_cmp h0 = ts_init_compare ts" "mset (bh_data h0) = mset []"
    by (rule from_vec_cmp_returns [OF ts_init_compare_total])
  have h0: "kmerge_new (ts_init_compare ts) = Some h0" "merge_ok ts h0" "all_remaining h0 = {#}"
    using new by (simp_all add: kmerge_new_def merge_ok_def all_remaining_def)
  obtain h where h: "push_all streams h0 = Some h" "merge_ok ts h" "all_remaining h = mset (concat (concat streams))"
    using push_all_ok [OF h0(2) assms] h0(3) by auto
  show ?thesis using kmerge_collect_ok [OF h(2)] h h0(1) by (auto simp: get_query_result_def)
qed

theorem query_merges_sorted_witness:
  "\<exists>items. Option.bind (get_query_result (\<lambda>x. x) [[[1, 4], [], [6]], [[2, 2], [5]]]) kmerge_collect = Some items \<and>
     sorted items \<and> mset items = mset [1, 4, 6, 2, 2, 5 :: nat]"
  using query_merges_sorted [of "[[[1, 4], [], [6]], [[2, 2], [5]]]" "\<lambda>x. x :: nat"] by simp

end
