(* ===== verification/Data_Replay.thy ===== *)
theory Data_Replay
  imports Nt_Prelude "HOL-Library.AList" "HOL-Library.Multiset" "HOL-Library.Product_Lexorder"
begin

text \<open>
  The iterator over several streams of market data that drives a backtest
  (\<open>crates/backtest/src/data_iterator.rs\<close>).

  Hash maps are association lists (where the code iterates over them or counts their keys) or functions; the
  priority queue of the standard library is the bag of its entries, of which \<open>pop\<close> takes the one that comes first by
  time, priority and index. \<open>i32\<close> counters wrap around. \<open>None\<close> is a panic. The time of an element is a parameter.

  Shown: whatever streams were added, replaced, removed and set to other positions, the elements that are delivered next are all the
  pending ones, sorted by time, priority and position.
\<close>

section \<open>The iterator\<close>

record heap_entry =
  he_ts :: nat
  he_priority :: int
  he_index :: nat

record 'd data_iterator =
  di_streams :: "(int \<times> 'd list) list"
  di_names :: "int \<rightharpoonup> string"
  di_priorities :: "string \<rightharpoonup> int"
  di_indices :: "(int \<times> nat) list"
  di_heap :: "heap_entry list"
  di_single_priority :: "int option"
  di_next_priority_counter :: int

text \<open>The order of the entries, and the first of them.\<close>

definition entry_key :: "heap_entry \<Rightarrow> nat \<times> int \<times> nat" where
  "entry_key e = (he_ts e, he_priority e, he_index e)"

fun first_entry :: "heap_entry list \<Rightarrow> heap_entry option" where
  "first_entry [] = None"
| "first_entry (e # es) = (case first_entry es of None \<Rightarrow> Some e | Some f \<Rightarrow> Some (if entry_key e \<le> entry_key f then e else f))"

definition di_new :: "'d data_iterator" where
  "di_new = \<lparr>di_streams = [], di_names = Map.empty, di_priorities = Map.empty, di_indices = [], di_heap = [],
     di_single_priority = None, di_next_priority_counter = 0\<rparr>"

definition rebuild_heap :: "('d \<Rightarrow> nat) \<Rightarrow> 'd data_iterator \<Rightarrow> 'd data_iterator" where
  "rebuild_heap ts it =
     (let it = it\<lparr>di_heap := []\<rparr> in
      if length (di_streams it) = 1 then it\<lparr>di_single_priority := map_option fst (find (\<lambda>_. True) (di_streams it))\<rparr>
      else it\<lparr>di_single_priority := None,
             di_heap := concat (map (\<lambda>(priority, vec).
               let idx = (case map_of (di_indices it) priority of None \<Rightarrow> 0 | Some i \<Rightarrow> i) in
               if idx < length vec then [\<lparr>he_ts = ts (vec ! idx), he_priority = priority, he_index = idx\<rparr>] else []) (di_streams it))\<rparr>)"

definition remove_data :: "string \<Rightarrow> 'd data_iterator \<Rightarrow> 'd data_iterator" where
  "remove_data name it =
     (case di_priorities it name of
        None \<Rightarrow> it
      | Some priority \<Rightarrow>
          let heap = filter (\<lambda>e. he_priority e \<noteq> priority) (di_heap it) in
          it\<lparr>di_priorities := (di_priorities it)(name := None), di_streams := AList.delete priority (di_streams it),
             di_indices := AList.delete priority (di_indices it), di_names := (di_names it)(priority := None), di_heap := heap,
             di_single_priority := (if heap = [] then None else di_single_priority it)\<rparr>)"

definition add_data :: "('d \<Rightarrow> nat) \<Rightarrow> string \<Rightarrow> 'd list \<Rightarrow> bool \<Rightarrow> 'd data_iterator \<Rightarrow> 'd data_iterator" where
  "add_data ts name data append_data it =
     (if data = [] then it
      else
        let data = sort_key ts data;
            counter = (case di_priorities it name of Some _ \<Rightarrow> di_next_priority_counter it
                       | None \<Rightarrow> wrap_s 32 (di_next_priority_counter it + 1));
            priority = (case di_priorities it name of Some p \<Rightarrow> p
                        | None \<Rightarrow> wrap_s 32 ((if append_data then 1 else - 1) * counter));
            it = remove_data name (it\<lparr>di_next_priority_counter := counter\<rparr>)
        in rebuild_heap ts (it\<lparr>di_streams := AList.update priority data (di_streams it), di_names := (di_names it)(priority \<mapsto> name),
             di_priorities := (di_priorities it)(name \<mapsto> priority), di_indices := AList.update priority 0 (di_indices it)\<rparr>))"

definition set_index :: "('d \<Rightarrow> nat) \<Rightarrow> string \<Rightarrow> nat \<Rightarrow> 'd data_iterator \<Rightarrow> 'd data_iterator" where
  "set_index ts name index it =
     (case di_priorities it name of
        None \<Rightarrow> it
      | Some priority \<Rightarrow> rebuild_heap ts (it\<lparr>di_indices := AList.update priority index (di_indices it)\<rparr>))"

definition reset_all_cursors :: "('d \<Rightarrow> nat) \<Rightarrow> 'd data_iterator \<Rightarrow> 'd data_iterator" where
  "reset_all_cursors ts it = rebuild_heap ts (it\<lparr>di_indices := map (\<lambda>(p, _). (p, 0)) (di_indices it)\<rparr>)"

definition di_next :: "('d \<Rightarrow> nat) \<Rightarrow> 'd data_iterator \<Rightarrow> ('d option \<times> 'd data_iterator) panics" where
  "di_next ts it =
     (case di_single_priority it of
        Some p \<Rightarrow>
          (case (map_of (di_streams it) p, map_of (di_indices it) p) of
             (Some data, Some idx) \<Rightarrow>
               if length data \<le> idx then Some (None, it)
               else map_option (\<lambda>element. (Some element, it\<lparr>di_indices := AList.update p (idx + 1) (di_indices it)\<rparr>)) (index_get data idx)
           | _ \<Rightarrow> Some (None, it))
      | None \<Rightarrow>
          (case first_entry (di_heap it) of
             None \<Rightarrow> Some (None, it)
           | Some entry \<Rightarrow>
               let it = it\<lparr>di_heap := remove1 entry (di_heap it)\<rparr> in
               (case map_of (di_streams it) (he_priority entry) of
                  None \<Rightarrow> Some (None, it)
                | Some stream_vec \<Rightarrow>
                    map_option (\<lambda>element.
                      let next_index = he_index entry + 1;
                          it = it\<lparr>di_indices := AList.update (he_priority entry) next_index (di_indices it)\<rparr> in
                      (Some element,
                       if next_index < length stream_vec
                       then it\<lparr>di_heap := \<lparr>he_ts = ts (stream_vec ! next_index), he_priority = he_priority entry, he_index = next_index\<rparr> # di_heap it\<rparr>
                       else it)) (index_get stream_vec (he_index entry)))))"

definition is_done :: "'d data_iterator \<Rightarrow> bool" where
  "is_done it =
     (case di_single_priority it of
        Some p \<Rightarrow>
          (case (map_of (di_indices it) p, map_of (di_streams it) p) of (Some idx, Some vec) \<Rightarrow> length vec \<le> idx | _ \<Rightarrow> True)
      | None \<Rightarrow> di_heap it = [])"

text \<open>All that the iterator delivers.\<close>

partial_function (option) di_collect :: "('d \<Rightarrow> nat) \<Rightarrow> 'd data_iterator \<Rightarrow> 'd list option" where
  "di_collect ts it =
     (case di_next ts it of
        None \<Rightarrow> None
      | Some (None, it) \<Rightarrow> Some []
      | Some (Some element, it) \<Rightarrow> Option.bind (di_collect ts it) (\<lambda>elements. Some (element # elements)))"

section \<open>The states of the iterator\<close>

inductive di_reachable :: "('d \<Rightarrow> nat) \<Rightarrow> 'd data_iterator \<Rightarrow> bool" for ts where
  reach_new: "di_reachable ts di_new"
| reach_add: "di_reachable ts it \<Longrightarrow> di_next_priority_counter it < 2 ^ 31 - 1 \<Longrightarrow> di_reachable ts (add_data ts name data append_data it)"
| reach_remove: "di_reachable ts it \<Longrightarrow> di_reachable ts (remove_data name it)"
| reach_index: "di_reachable ts it \<Longrightarrow> di_reachable ts (set_index ts name index it)"
| reach_reset: "di_reachable ts it \<Longrightarrow> di_reachable ts (reset_all_cursors ts it)"
| reach_next: "di_reachable ts it \<Longrightarrow> di_next ts it = Some (r, it') \<Longrightarrow> di_reachable ts it'"

definition cursor :: "'d data_iterator \<Rightarrow> int \<Rightarrow> nat" where
  "cursor it p = the (map_of (di_indices it) p)"

definition heads_of :: "('d \<Rightarrow> nat) \<Rightarrow> (int \<Rightarrow> nat) \<Rightarrow> (int \<times> 'd list) list \<Rightarrow> heap_entry list" where
  "heads_of ts cur streams = concat (map (\<lambda>(p, vec). if cur p < length vec
     then [\<lparr>he_ts = ts (vec ! cur p), he_priority = p, he_index = cur p\<rparr>] else []) streams)"

text \<open>The pending elements, by time, priority and position.\<close>

definition pending_of :: "('d \<Rightarrow> nat) \<Rightarrow> (int \<Rightarrow> nat) \<Rightarrow> (int \<times> 'd list) list \<Rightarrow> (nat \<times> int \<times> nat) list" where
  "pending_of ts cur streams = concat (map (\<lambda>(p, vec). map (\<lambda>i. (ts (vec ! i), p, i)) [cur p ..< length vec]) streams)"

definition pending :: "('d \<Rightarrow> nat) \<Rightarrow> 'd data_iterator \<Rightarrow> (nat \<times> int \<times> nat) list" where
  "pending ts it = pending_of ts (cursor it) (di_streams it)"

definition element_at :: "'d data_iterator \<Rightarrow> nat \<times> int \<times> nat \<Rightarrow> 'd" where
  "element_at it k = the (map_of (di_streams it) (fst (snd k))) ! snd (snd k)"

definition di_base :: "('d \<Rightarrow> nat) \<Rightarrow> 'd data_iterator \<Rightarrow> bool" where
  "di_base ts it \<longleftrightarrow> distinct (map fst (di_streams it)) \<and> fst ` set (di_indices it) = fst ` set (di_streams it) \<and>
     (\<forall>x \<in> set (di_streams it). sorted (map ts (snd x))) \<and>
     (\<forall>name p. di_priorities it name = Some p \<longrightarrow> p \<in> fst ` set (di_streams it) \<and> di_names it p = Some name) \<and>
     (\<forall>p \<in> fst ` set (di_streams it). \<bar>p\<bar> \<le> di_next_priority_counter it) \<and> 0 \<le> di_next_priority_counter it"

definition di_queue :: "('d \<Rightarrow> nat) \<Rightarrow> 'd data_iterator \<Rightarrow> bool" where
  "di_queue ts it = (case di_single_priority it of
      Some p \<Rightarrow> map fst (di_streams it) = [p] \<and> di_heap it = []
    | None \<Rightarrow> mset (di_heap it) = mset (heads_of ts (cursor it) (di_streams it)))"

lemma cursor_cong: "di_indices it = di_indices it' \<Longrightarrow> cursor it = cursor it'"
  by (simp add: cursor_def fun_eq_iff)

lemma heads_of_cong: "(\<And>x. x \<in> set ss \<Longrightarrow> cur (fst x) = cur' (fst x)) \<Longrightarrow> heads_of ts cur ss = heads_of ts cur' ss"
  unfolding heads_of_def by (intro arg_cong [where f = concat] map_cong) (auto simp: split_beta)

lemma heads_of_Cons: "heads_of ts cur ((p, vec) # ss) =
    (if cur p < length vec then [\<lparr>he_ts = ts (vec ! cur p), he_priority = p, he_index = cur p\<rparr>] else []) @ heads_of ts cur ss"
  by (simp add: heads_of_def)

lemma heads_of_delete: "filter (\<lambda>e. he_priority e \<noteq> p) (heads_of ts cur ss) = heads_of ts cur (AList.delete p ss)"
  by (induction ss) (auto simp: heads_of_def)

lemma di_base_cong:
  assumes "di_base ts it" "di_streams it' = di_streams it" "fst ` set (di_indices it') = fst ` set (di_indices it)" "di_priorities it' = di_priorities it"
    "di_names it' = di_names it" "di_next_priority_counter it' = di_next_priority_counter it"
  shows "di_base ts it'"
  using assms by (simp add: di_base_def)

lemma rebuild_heap_ok:
  assumes "di_base ts it"
  shows "di_base ts (rebuild_heap ts it) \<and> di_queue ts (rebuild_heap ts it)"
proof
  show "di_base ts (rebuild_heap ts it)" by (rule di_base_cong [OF assms]) (simp_all add: rebuild_heap_def Let_def)
  have cur: "cursor (rebuild_heap ts it) = cursor it" by (rule cursor_cong) (simp add: rebuild_heap_def Let_def)
  have "(case map_of (di_indices it) (fst x) of None \<Rightarrow> 0 | Some i \<Rightarrow> i) = cursor it (fst x)" if "x \<in> set (di_streams it)" for x
  proof -
    have "fst x \<in> fst ` set (di_indices it)" using assms that by (simp add: di_base_def)
    then have "map_of (di_indices it) (fst x) \<noteq> None" by (simp add: map_of_eq_None_iff)
    then show ?thesis by (auto simp: cursor_def)
  qed
  then have "concat (map (\<lambda>(priority, vec). let idx = (case map_of (di_indices it) priority of None \<Rightarrow> 0 | Some i \<Rightarrow> i) in
      if idx < length vec then [\<lparr>he_ts = ts (vec ! idx), he_priority = priority, he_index = idx\<rparr>] else []) (di_streams it)) = heads_of ts (cursor it) (di_streams it)"
    unfolding heads_of_def by (intro arg_cong [where f = concat] map_cong) (auto simp: Let_def)
  then have "length (di_streams it) \<noteq> 1 \<Longrightarrow> di_queue ts (rebuild_heap ts it)"
    unfolding di_queue_def cur by (simp add: rebuild_heap_def Let_def)
  moreover have "length (di_streams it) = 1 \<Longrightarrow> di_queue ts (rebuild_heap ts it)"
    by (cases "di_streams it") (simp_all add: di_queue_def rebuild_heap_def Let_def)
  ultimately show "di_queue ts (rebuild_heap ts it)" by blast
qed

lemma delete_dom: "fst ` set (AList.delete p xs) = fst ` set xs - {p}"
  by (induction xs) auto

lemma update_subset: "set (AList.update p v xs) \<subseteq> insert (p, v) (set xs)"
  by (induction xs) auto

lemma remove_data_ok:
  assumes base: "di_base ts it" and q: "di_queue ts it"
  shows "di_base ts (remove_data name it) \<and> di_queue ts (remove_data name it)"
proof (cases "di_priorities it name")
  case (Some p)
  let ?it = "remove_data name it"
  have names: "n = name" if "di_priorities it n = Some p" for n using base Some that unfolding di_base_def by (metis option.inject)
  have pin: "p \<in> fst ` set (di_streams it)" using base Some unfolding di_base_def by blast
  have it: "di_streams ?it = AList.delete p (di_streams it)" "di_indices ?it = AList.delete p (di_indices it)" "di_heap ?it = filter (\<lambda>e. he_priority e \<noteq> p) (di_heap it)"
      "di_single_priority ?it = (if di_heap ?it = [] then None else di_single_priority it)" "di_next_priority_counter ?it = di_next_priority_counter it"
      "di_priorities ?it = (di_priorities it)(name := None)" "di_names ?it = (di_names it)(p := None)"
    using Some by (simp_all add: remove_data_def Let_def)
  have "di_base ts ?it"
    unfolding di_base_def it delete_dom
  proof (intro conjI)
    show "distinct (map fst (AList.delete p (di_streams it)))" using base by (simp add: di_base_def AList.distinct_delete)
    show "\<forall>x \<in> set (AList.delete p (di_streams it)). sorted (map ts (snd x))" using base by (auto simp: di_base_def AList.delete_eq)
    show "\<forall>n q. ((di_priorities it)(name := None)) n = Some q \<longrightarrow> q \<in> fst ` set (di_streams it) - {p} \<and> ((di_names it)(p := None)) q = Some n"
      using base names unfolding di_base_def by (metis (no_types, lifting) DiffI fun_upd_apply option.distinct(1) singletonD)
  qed (use base in \<open>auto simp: di_base_def\<close>)
  moreover have "di_queue ts ?it"
  proof (cases "di_single_priority it")
    case None
    have "heads_of ts (cursor ?it) (di_streams ?it) = heads_of ts (cursor it) (di_streams ?it)"
      unfolding it by (rule heads_of_cong) (metis AList.delete_notin_dom AList.map_of_delete cursor_def imageI it(2))
    also have "\<dots> = filter (\<lambda>e. he_priority e \<noteq> p) (heads_of ts (cursor it) (di_streams it))" unfolding it heads_of_delete ..
    also have "mset \<dots> = mset (di_heap ?it)" using q None by (simp add: di_queue_def it(3))
    finally show ?thesis using None it(4) by (simp add: di_queue_def)
  next
    case (Some r)
    then have "map fst (di_streams it) = [r]" "di_heap it = []" using q by (simp_all add: di_queue_def)
    moreover from this pin have "di_streams ?it = []" unfolding it by (cases "di_streams it") auto
    ultimately show ?thesis using it(3,4) by (simp add: di_queue_def heads_of_def)
  qed
  ultimately show ?thesis ..
qed (use assms in \<open>simp add: remove_data_def\<close>)

lemma add_data_ok:
  assumes base: "di_base ts it" and q: "di_queue ts it" and c: "di_next_priority_counter it < 2 ^ 31 - 1"
  shows "di_base ts (add_data ts name data app it) \<and> di_queue ts (add_data ts name data app it)"
proof (cases "data = []")
  case False
  define counter where "counter = (case di_priorities it name of Some _ \<Rightarrow> di_next_priority_counter it | None \<Rightarrow> wrap_s 32 (di_next_priority_counter it + 1))"
  define p where "p = (case di_priorities it name of Some p \<Rightarrow> p | None \<Rightarrow> wrap_s 32 ((if app then 1 else - 1) * counter))"
  let ?r = "remove_data name (it\<lparr>di_next_priority_counter := counter\<rparr>)"
  define it' where "it' = ?r\<lparr>di_streams := AList.update p (sort_key ts data) (di_streams ?r), di_names := (di_names ?r)(p \<mapsto> name),
             di_priorities := (di_priorities ?r)(name \<mapsto> p), di_indices := AList.update p 0 (di_indices ?r)\<rparr>"
  have eq: "add_data ts name data app it = rebuild_heap ts it'"
    using False unfolding add_data_def it'_def Let_def counter_def p_def by simp
  have "0 \<le> di_next_priority_counter it" using base by (simp add: di_base_def)
  then have cs: "di_next_priority_counter it \<le> counter" "0 \<le> counter" "di_priorities it name = None \<Longrightarrow> counter = di_next_priority_counter it + 1 \<and> \<bar>p\<bar> = counter"
    using c by (auto simp: counter_def p_def wrap_s_def split: option.splits)
  have "di_base ts (it\<lparr>di_next_priority_counter := counter\<rparr>)" using base cs(1,2) by (fastforce simp: di_base_def)
  moreover have "di_queue ts (it\<lparr>di_next_priority_counter := counter\<rparr>)"
    using q cursor_cong [of "it\<lparr>di_next_priority_counter := counter\<rparr>" it] by (simp add: di_queue_def split: option.splits)
  ultimately have br: "di_base ts ?r" using remove_data_ok by blast
  have r: "di_next_priority_counter ?r = counter" "di_priorities ?r name = None"
    by (auto simp: remove_data_def Let_def split: option.splits)
  have pn: "p \<notin> fst ` set (di_streams ?r) \<and> \<bar>p\<bar> \<le> counter"
  proof (cases "di_priorities it name")
    case None
    have "p \<notin> fst ` set (di_streams it)" using base cs(3) [OF None] unfolding di_base_def by force
    then show ?thesis using None cs(3) by (simp add: remove_data_def)
  next
    case (Some k)
    then have "p = k" by (simp add: p_def)
    moreover have "\<bar>k\<bar> \<le> counter" using base Some cs(1) unfolding di_base_def by force
    moreover have "p \<notin> fst ` set (di_streams ?r)" using Some \<open>p = k\<close> AList.delete_notin_dom by (simp add: remove_data_def Let_def)
    ultimately show ?thesis by simp
  qed
  have "di_base ts it'"
    unfolding di_base_def
  proof (intro conjI)
    show "distinct (map fst (di_streams it'))" using br by (simp add: it'_def di_base_def AList.distinct_update)
    show "fst ` set (di_indices it') = fst ` set (di_streams it')" using br by (simp add: it'_def di_base_def AList.dom_update)
    show "\<forall>x \<in> set (di_streams it'). sorted (map ts (snd x))"
      using br update_subset [of p "sort_key ts data" "di_streams ?r"] by (auto simp: it'_def di_base_def)
    show "\<forall>n q. di_priorities it' n = Some q \<longrightarrow> q \<in> fst ` set (di_streams it') \<and> di_names it' q = Some n"
      using br pn r(2) by (auto simp: it'_def di_base_def AList.dom_update)
    show "\<forall>q \<in> fst ` set (di_streams it'). \<bar>q\<bar> \<le> di_next_priority_counter it'" "0 \<le> di_next_priority_counter it'"
      using br pn r(1) cs(2) by (auto simp: it'_def di_base_def AList.dom_update)
  qed
  then show ?thesis using eq rebuild_heap_ok by metis
qed (use assms in \<open>simp add: add_data_def\<close>)

lemma set_index_ok:
  assumes "di_base ts it" "di_queue ts it"
  shows "di_base ts (set_index ts name index it) \<and> di_queue ts (set_index ts name index it)"
proof (cases "di_priorities it name")
  case (Some p)
  then have "p \<in> fst ` set (di_streams it)" using assms(1) unfolding di_base_def by blast
  then have "di_base ts (it\<lparr>di_indices := AList.update p index (di_indices it)\<rparr>)"
    using assms(1) by (auto simp: di_base_def AList.dom_update)
  from rebuild_heap_ok [OF this] show ?thesis using Some by (simp add: set_index_def)
qed (use assms in \<open>simp add: set_index_def\<close>)

lemma reset_ok:
  assumes "di_base ts it"
  shows "di_base ts (reset_all_cursors ts it) \<and> di_queue ts (reset_all_cursors ts it)"
  unfolding reset_all_cursors_def by (intro rebuild_heap_ok di_base_cong [OF assms]) (force simp: image_image split_beta)+

section \<open>Delivery\<close>

text \<open>The pending elements after the cursor of a stream was advanced.\<close>

lemma pending_of_advance:
  assumes "distinct (map fst ss)" "(p, vec) \<in> set ss" "cur p < length vec"
  shows "mset (pending_of ts cur ss) = add_mset (ts (vec ! cur p), p, cur p) (mset (pending_of ts (cur(p := cur p + 1)) ss))"
  using assms
proof (induction ss)
  case (Cons x ss)
  show ?case
  proof (cases "x = (p, vec)")
    case True
    have "pending_of ts (cur(p := cur p + 1)) ss = pending_of ts cur ss"
      using Cons.prems(1) True unfolding pending_of_def by (intro arg_cong [where f = concat] map_cong) (auto simp: image_iff)
    moreover have "[cur p ..< length vec] = cur p # [cur p + 1 ..< length vec]" using Cons.prems(3) by (simp add: upt_conv_Cons)
    ultimately show ?thesis using True by (simp add: pending_of_def)
  next
    case False
    then have "fst x \<noteq> p" "(p, vec) \<in> set ss" using Cons.prems by (auto simp: image_iff)
    then show ?thesis using Cons.IH Cons.prems by (cases x) (simp add: pending_of_def)
  qed
qed simp

lemma heads_of_advance:
  assumes "distinct (map fst ss)" "(p, vec) \<in> set ss" "cur p < length vec"
  shows "mset (heads_of ts cur ss) + (if cur p + 1 < length vec then {#\<lparr>he_ts = ts (vec ! (cur p + 1)), he_priority = p, he_index = cur p + 1\<rparr>#} else {#}) =
    add_mset \<lparr>he_ts = ts (vec ! cur p), he_priority = p, he_index = cur p\<rparr> (mset (heads_of ts (cur(p := cur p + 1)) ss))"
  using assms
proof (induction ss)
  case (Cons x ss)
  show ?case
  proof (cases "x = (p, vec)")
    case True
    have "heads_of ts (cur(p := cur p + 1)) ss = heads_of ts cur ss"
      using Cons.prems(1) True by (intro heads_of_cong) (auto simp: image_iff)
    then show ?thesis using True Cons.prems(3) by (simp add: heads_of_Cons fun_upd_def)
  next
    case False
    then have "fst x \<noteq> p" "(p, vec) \<in> set ss" using Cons.prems by (auto simp: image_iff)
    then show ?thesis using Cons.IH Cons.prems by (cases x; cases "cur p + 1 < length vec") (simp_all add: heads_of_Cons fun_upd_def)
  qed
qed simp

lemma first_entry_min: "first_entry es = Some e \<Longrightarrow> e \<in> set es \<and> (\<forall>f \<in> set es. entry_key e \<le> entry_key f)"
proof (induction es arbitrary: e)
  case (Cons x es)
  show ?case
  proof (cases "first_entry es")
    case None
    then have "es = []" by (cases es) (auto split: option.splits if_splits)
    then show ?thesis using Cons.prems by simp
  next
    case (Some f)
    then show ?thesis using Cons.IH [OF Some] Cons.prems by (auto split: if_splits intro: order_trans)
  qed
qed simp

lemma first_entry_None: "first_entry es = None \<longleftrightarrow> es = []"
  by (cases es) (auto split: option.splits)

text \<open>Every pending element comes after the head of its stream.\<close>

lemma pending_after_head:
  assumes "k \<in> set (pending_of ts cur ss)" "\<forall>x \<in> set ss. sorted (map ts (snd x))"
  obtains e where "e \<in> set (heads_of ts cur ss)" "entry_key e \<le> k"
proof -
  obtain p vec i where x: "(p, vec) \<in> set ss" "cur p \<le> i" "i < length vec" "k = (ts (vec ! i), p, i)" using assms(1) by (auto simp: pending_of_def)
  have "ts (vec ! cur p) \<le> ts (vec ! i)" using assms(2) x sorted_nth_mono [of "map ts vec" "cur p" i] by force
  moreover have "\<lparr>he_ts = ts (vec ! cur p), he_priority = p, he_index = cur p\<rparr> \<in> set (heads_of ts cur ss)"
    using x by (force simp: heads_of_def)
  ultimately show thesis using that x by (fastforce simp: entry_key_def)
qed

lemma sort_least:
  fixes m :: "'k :: linorder"
  assumes "mset xs = add_mset m (mset ys)" "\<forall>x \<in> set xs. m \<le> x"
  shows "sort xs = m # sort ys"
proof (rule properties_for_sort)
  show "mset (m # sort ys) = mset xs" using assms(1) by simp
  have "set ys \<subseteq> set xs" using arg_cong [OF assms(1), of set_mset] by auto
  then show "sorted (m # sort ys)" using assms(2) by auto
qed


definition di_ok :: "('d \<Rightarrow> nat) \<Rightarrow> 'd data_iterator \<Rightarrow> bool" where
  "di_ok ts it \<longleftrightarrow> di_base ts it \<and> di_queue ts it"

lemma cursor_update: "cursor (it\<lparr>di_indices := AList.update p i (di_indices it)\<rparr>) = (cursor it)(p := i)"
  by (simp add: cursor_def fun_eq_iff AList.update_conv')

lemma stream_facts:
  assumes "di_base ts it" "map_of (di_streams it) p = Some vec"
  shows "distinct (map fst (di_streams it))" "(p, vec) \<in> set (di_streams it)" "\<forall>x \<in> set (di_streams it). sorted (map ts (snd x))"
    "p \<in> fst ` set (di_streams it)"
  using assms(1) map_of_SomeD [OF assms(2)] by (simp_all add: di_base_def image_iff) (metis fst_conv)

text \<open>A state in which the cursor of a stream was advanced.\<close>

definition advanced :: "('d \<Rightarrow> nat) \<Rightarrow> 'd data_iterator \<Rightarrow> int \<Rightarrow> 'd data_iterator \<Rightarrow> bool" where
  "advanced ts it p it' \<longleftrightarrow> di_streams it' = di_streams it \<and> di_indices it' = AList.update p (cursor it p + 1) (di_indices it) \<and>
     di_priorities it' = di_priorities it \<and> di_names it' = di_names it \<and> di_next_priority_counter it' = di_next_priority_counter it"

lemma advanced_base: "di_base ts it \<Longrightarrow> p \<in> fst ` set (di_streams it) \<Longrightarrow> advanced ts it p it' \<Longrightarrow> di_base ts it'"
  by (auto simp: di_base_def advanced_def AList.dom_update)

lemma advanced_cursor: "advanced ts it p it' \<Longrightarrow> cursor it' = (cursor it)(p := cursor it p + 1)"
  using cursor_update [where it = it and p = p and i = "cursor it p + 1"] cursor_cong [of it' "it\<lparr>di_indices := AList.update p (cursor it p + 1) (di_indices it)\<rparr>"]
  by (simp add: advanced_def)

lemma single_next:
  assumes ok: "di_ok ts it" and s: "di_single_priority it = Some p"
  shows "if pending ts it = [] then di_next ts it = Some (None, it)
    else \<exists>it'. di_next ts it = Some (Some (element_at it (hd (sort (pending ts it)))), it') \<and> di_ok ts it' \<and>
      di_streams it' = di_streams it \<and> sort (pending ts it) = hd (sort (pending ts it)) # sort (pending ts it')"
proof -
  have base: "di_base ts it" and q: "map fst (di_streams it) = [p]" "di_heap it = []" using ok s by (simp_all add: di_ok_def di_queue_def)
  then obtain vec where vec: "di_streams it = [(p, vec)]" by (cases "di_streams it") auto
  have "p \<in> fst ` set (di_indices it)" using base vec by (simp add: di_base_def)
  then obtain i where "map_of (di_indices it) p = Some i" by (metis map_of_eq_None_iff not_None_eq)
  then have idx: "map_of (di_indices it) p = Some (cursor it p)" by (simp add: cursor_def)
  have pen: "pending ts it = map (\<lambda>i. (ts (vec ! i), p, i)) [cursor it p ..< length vec]" by (simp add: pending_def pending_of_def vec)
  show ?thesis
  proof (cases "cursor it p < length vec")
    case False
    then show ?thesis using s idx vec pen by (simp add: di_next_def)
  next
    case True
    let ?it = "it\<lparr>di_indices := AList.update p (cursor it p + 1) (di_indices it)\<rparr>" and ?k = "(ts (vec ! cursor it p), p, cursor it p)"
    have adv: "advanced ts it p ?it" by (simp add: advanced_def)
    have m: "mset (pending ts it) = add_mset ?k (mset (pending ts ?it))"
      using pending_of_advance [of "di_streams it" p vec "cursor it" ts] vec True advanced_cursor [OF adv] by (simp add: pending_def)
    have le: "ts (vec ! cursor it p) \<le> ts (vec ! i)" if "cursor it p \<le> i" "i < length vec" for i
      using base vec that sorted_nth_mono [of "map ts vec" "cursor it p" i] by (simp add: di_base_def)
    have "sort (pending ts it) = ?k # sort (pending ts ?it)"
      by (rule sort_least [OF m]) (use pen le in \<open>auto simp: less_eq_prod_def order_le_less\<close>)
    moreover have "di_ok ts ?it" using ok s vec advanced_base [OF base _ adv] by (simp add: di_ok_def di_queue_def)
    moreover have "di_next ts it = Some (Some (vec ! cursor it p), ?it)" using s idx vec True by (simp add: di_next_def index_get_def)
    ultimately show ?thesis using True pen vec by (auto simp: element_at_def)
  qed
qed

lemma bag_advance:
  assumes "add_mset e R = H" "H + N = add_mset e H'"
  shows "R + N = H'"
  using assms by (metis add_mset_add_mset_same_iff union_mset_add_mset_left)

lemma heap_pop_next:
  assumes ok: "di_ok ts it" and s: "di_single_priority it = None" and x: "(p, vec) \<in> set (di_streams it)" "cursor it p < length vec"
    and e: "e = \<lparr>he_ts = ts (vec ! cursor it p), he_priority = p, he_index = cursor it p\<rparr>" and first: "first_entry (di_heap it) = Some e"
  obtains it' where "di_next ts it = Some (Some (element_at it (entry_key e)), it')" "di_ok ts it'" "di_streams it' = di_streams it"
    "mset (pending ts it) = add_mset (entry_key e) (mset (pending ts it'))"
proof -
  let ?heads = "heads_of ts (cursor it) (di_streams it)"
  let ?next = "\<lparr>he_ts = ts (vec ! (cursor it p + 1)), he_priority = p, he_index = cursor it p + 1\<rparr>"
  let ?N = "if cursor it p + 1 < length vec then {#?next#} else {#}"
  have base: "di_base ts it" and q: "mset (di_heap it) = mset ?heads" using ok s by (simp_all add: di_ok_def di_queue_def)
  have dis: "distinct (map fst (di_streams it))" using base by (simp add: di_base_def)
  have lookup: "map_of (di_streams it) p = Some vec" using dis x(1) by simp
  define it' where "it' = it\<lparr>di_heap := (if cursor it p + 1 < length vec then ?next # remove1 e (di_heap it) else remove1 e (di_heap it)),
    di_indices := AList.update p (cursor it p + 1) (di_indices it)\<rparr>"
  have adv: "advanced ts it p it'" by (simp add: advanced_def it'_def)
  have nx: "di_next ts it = Some (Some (vec ! cursor it p), it')"
    using s first lookup x(2) e by (simp add: di_next_def Let_def index_get_def it'_def)
  have "add_mset e (mset (remove1 e (di_heap it))) = mset (di_heap it)" using first_entry_min [OF first] by simp
  then have "add_mset e (mset (remove1 e (di_heap it))) = mset ?heads" using q by simp
  moreover have "mset ?heads + ?N = add_mset e (mset (heads_of ts ((cursor it)(p := cursor it p + 1)) (di_streams it)))"
    unfolding e by (rule heads_of_advance [OF dis x(1)]) (rule x(2))
  ultimately have "mset (remove1 e (di_heap it)) + ?N = mset (heads_of ts ((cursor it)(p := cursor it p + 1)) (di_streams it))" by (rule bag_advance)
  moreover have "mset (di_heap it') = mset (remove1 e (di_heap it)) + ?N" by (simp add: it'_def)
  ultimately have "mset (di_heap it') = mset (heads_of ts (cursor it') (di_streams it'))"
    unfolding advanced_cursor [OF adv] by (simp add: it'_def)
  moreover have "p \<in> fst ` set (di_streams it)" using x(1) by force
  moreover have "di_single_priority it' = None" using s by (simp add: it'_def)
  ultimately have ok': "di_ok ts it'" using advanced_base [OF base _ adv] by (simp add: di_ok_def di_queue_def)
  have "mset (pending ts it) = add_mset (ts (vec ! cursor it p), p, cursor it p) (mset (pending_of ts ((cursor it)(p := cursor it p + 1)) (di_streams it)))"
    unfolding pending_def by (rule pending_of_advance [OF dis x(1)]) (rule x(2))
  then have "mset (pending ts it) = add_mset (entry_key e) (mset (pending ts it'))"
    unfolding pending_def advanced_cursor [OF adv] by (simp add: e entry_key_def it'_def)
  then show thesis using that [of it'] nx ok' lookup by (simp add: e element_at_def entry_key_def it'_def)
qed

lemma heap_next:
  assumes ok: "di_ok ts it" and s: "di_single_priority it = None"
  shows "if pending ts it = [] then di_next ts it = Some (None, it)
    else \<exists>it'. di_next ts it = Some (Some (element_at it (hd (sort (pending ts it)))), it') \<and> di_ok ts it' \<and>
      di_streams it' = di_streams it \<and> sort (pending ts it) = hd (sort (pending ts it)) # sort (pending ts it')"
proof -
  let ?heads = "heads_of ts (cursor it) (di_streams it)"
  have "mset (di_heap it) = mset ?heads" using ok s by (simp add: di_ok_def di_queue_def)
  then have qs: "set (di_heap it) = set ?heads" by (metis set_mset_mset)
  have srt: "\<forall>x \<in> set (di_streams it). sorted (map ts (snd x))" using ok by (simp add: di_ok_def di_base_def)
  show ?thesis
  proof (cases "first_entry (di_heap it)")
    case None
    then have "set ?heads = {}" using qs first_entry_None by auto
    then have "pending ts it = []" using pending_after_head [OF _ srt] unfolding pending_def by (metis equals0D last_in_set)
    then show ?thesis using s None by (simp add: di_next_def)
  next
    case (Some e)
    have e: "e \<in> set ?heads" and least: "\<forall>f \<in> set ?heads. entry_key e \<le> entry_key f" using first_entry_min [OF Some] qs by auto
    obtain p vec where x: "(p, vec) \<in> set (di_streams it)" "cursor it p < length vec"
        "e = \<lparr>he_ts = ts (vec ! cursor it p), he_priority = p, he_index = cursor it p\<rparr>"
      using e by (auto simp: heads_of_def split: if_splits)
    obtain it' where n: "di_next ts it = Some (Some (element_at it (entry_key e)), it')" "di_ok ts it'" "di_streams it' = di_streams it"
        "mset (pending ts it) = add_mset (entry_key e) (mset (pending ts it'))"
      using heap_pop_next [OF ok s x Some] .
    have "sort (pending ts it) = entry_key e # sort (pending ts it')"
    proof (rule sort_least [OF n(4)], rule ballI)
      fix k assume "k \<in> set (pending ts it)"
      then obtain f where "f \<in> set ?heads" "entry_key f \<le> k" using pending_after_head [OF _ srt] unfolding pending_def by blast
      then show "entry_key e \<le> k" using least order_trans by blast
    qed
    moreover have "pending ts it \<noteq> []" using n(4) by auto
    ultimately show ?thesis using n(1-3) by simp
  qed
qed

lemma next_delivers:
  assumes "di_ok ts it"
  shows "if pending ts it = [] then di_next ts it = Some (None, it)
    else \<exists>it'. di_next ts it = Some (Some (element_at it (hd (sort (pending ts it)))), it') \<and> di_ok ts it' \<and>
      di_streams it' = di_streams it \<and> sort (pending ts it) = hd (sort (pending ts it)) # sort (pending ts it')"
  using single_next [OF assms] heap_next [OF assms] by (cases "di_single_priority it") blast+

lemma done_iff:
  assumes "di_ok ts it"
  shows "is_done it \<longleftrightarrow> pending ts it = []"
proof (cases "di_single_priority it")
  case None
  let ?heads = "heads_of ts (cursor it) (di_streams it)"
  have "mset (di_heap it) = mset ?heads" using assms None by (simp add: di_ok_def di_queue_def)
  then have "di_heap it = [] \<longleftrightarrow> ?heads = []" by (metis mset_zero_iff)
  moreover have "heads_of ts cur ss = [] \<longleftrightarrow> pending_of ts cur ss = []" for cur and ss :: "(int \<times> 'a list) list"
    by (induction ss) (auto simp: heads_of_def pending_of_def)
  ultimately show ?thesis using None by (simp add: is_done_def pending_def)
next
  case (Some p)
  then obtain vec where vec: "di_streams it = [(p, vec)]" using assms by (cases "di_streams it") (auto simp: di_ok_def di_queue_def)
  then have "p \<in> fst ` set (di_indices it)" using assms by (simp add: di_ok_def di_base_def)
  then obtain i where "map_of (di_indices it) p = Some i" by (metis map_of_eq_None_iff not_None_eq)
  then show ?thesis using Some vec by (auto simp: is_done_def pending_def pending_of_def cursor_def)
qed

lemma reachable_ok: "di_reachable ts it \<Longrightarrow> di_ok ts it"
proof (induction rule: di_reachable.induct)
  case reach_new
  show ?case by (simp add: di_ok_def di_new_def di_base_def di_queue_def heads_of_def)
next
  case (reach_add it name data append_data)
  then show ?case using add_data_ok [of ts it name data append_data] by (simp add: di_ok_def)
next
  case (reach_remove it name)
  then show ?case using remove_data_ok [of ts it name] by (simp add: di_ok_def)
next
  case (reach_index it name index)
  then show ?case using set_index_ok [of ts it name index] by (simp add: di_ok_def)
next
  case (reach_reset it)
  then show ?case using reset_ok [of ts it] by (simp add: di_ok_def)
next
  case (reach_next it r it')
  then show ?case using next_delivers [of ts it] by (auto split: if_splits)
qed

text \<open>C39: Replay of market data: in every state that additions, replacements, removals, repositioning and deliveries of streams lead to,
  the iterator does not panic and delivers exactly the pending elements of its streams, sorted by time, on equal times by priority and
  then by position; it reports that it is done exactly when none is pending.\<close>

theorem replay_in_order:
  assumes "di_reachable ts it"
  shows "di_collect ts it = Some (map (element_at it) (sort (pending ts it))) \<and> (is_done it \<longleftrightarrow> pending ts it = [])"
proof
  have "di_ok ts it \<Longrightarrow> di_collect ts it = Some (map (element_at it) (sort (pending ts it)))" for it :: "'a data_iterator"
  proof (induction "length (pending ts it)" arbitrary: it rule: less_induct)
    case less
    show ?case
    proof (cases "pending ts it = []")
      case True
      then show ?thesis using next_delivers [OF less.prems] by (subst di_collect.simps) simp
    next
      case False
      define k where "k = hd (sort (pending ts it))"
      obtain it' where n: "di_next ts it = Some (Some (element_at it k), it')" "di_ok ts it'" "di_streams it' = di_streams it"
          "sort (pending ts it) = k # sort (pending ts it')"
        using next_delivers [OF less.prems] False unfolding k_def by auto
      have "length (sort (pending ts it)) = Suc (length (sort (pending ts it')))" using n(4) by (metis length_Cons)
      then have "di_collect ts it' = Some (map (element_at it') (sort (pending ts it')))" using less.hyps n(2) by simp
      moreover have "element_at it' = element_at it" using n(3) by (simp add: element_at_def fun_eq_iff)
      ultimately show ?thesis using n(1,4) by (subst di_collect.simps) simp
    qed
  qed
  then show "di_collect ts it = Some (map (element_at it) (sort (pending ts it)))" using reachable_ok [OF assms] by blast
  show "is_done it \<longleftrightarrow> pending ts it = []" using done_iff [OF reachable_ok [OF assms]] .
qed

theorem replay_in_order_witness:
  "di_collect fst (add_data fst ''b'' [(3, 1), (1, 2)] False (add_data fst ''a'' [(1, 3), (2 :: nat, 4 :: nat)] True di_new)) =
     Some [(1, 2), (1, 3), (2, 4), (3, 1)]"
proof -
  let ?it = "add_data fst ''b'' [(3, 1), (1, 2)] False (add_data fst ''a'' [(1, 3), (2 :: nat, 4 :: nat)] True di_new)"
  have "di_reachable fst ?it"
    by (intro reach_add reach_new) (simp_all add: add_data_def di_new_def remove_data_def rebuild_heap_def Let_def wrap_s_def)
  from replay_in_order [OF this] show ?thesis
    by (simp add: pending_def pending_of_def cursor_def element_at_def add_data_def di_new_def remove_data_def rebuild_heap_def Let_def wrap_s_def
        numeral_2_eq_2 upt_rec)
qed

end
