(* ===== verification/Test_Clock.thy ===== *)
theory Test_Clock
  imports Containers Formula_Syntax
begin

text \<open>
  Timers and the test clock that drives backtests (\<open>crates/common/src/timer.rs\<close>, \<open>clock.rs\<close>).

  Times are nanoseconds in 64 bits; \<open>UnixNanos\<close> addition panics on overflow, and \<open>None\<close> is the panic. Names are ASCII strings;
  the timers are a \<open>BTreeMap\<close> by name, for which \<open>rk\<close> is the rank of an interned string in its order (a parameter). A callback is
  an opaque value. The random identifiers of events and the log are not modelled; the error messages show a time as a date, which
  panics above \<open>i64::MAX\<close>.

  Shown: an advance of the clock fires exactly the due events, in order of time, and each has a handler; advancing in two
  steps is advancing once; an alert fires once, at its time.
\<close>

section \<open>Timers\<close>

definition nanos_add :: "nat \<Rightarrow> nat \<Rightarrow> nat panics" where
  "nanos_add a b = (if a + b < 2 ^ 64 then Some (a + b) else None)"

definition nanos_sub :: "nat \<Rightarrow> nat \<Rightarrow> nat panics" where
  "nanos_sub a b = (if b \<le> a then Some (a - b) else None)"

text \<open>\<open>to_rfc3339\<close>, of which only the panic matters.\<close>

definition to_rfc3339 :: "nat \<Rightarrow> unit panics" where
  "to_rfc3339 t = (if t < 2 ^ 63 then Some () else None)"

definition create_valid_interval :: "nat \<Rightarrow> nat" where
  "create_valid_interval interval_ns = max interval_ns 1"

record time_event =
  te_name :: string
  te_ts_event :: nat
  te_ts_init :: nat

record test_timer =
  tm_name :: string
  tm_interval_ns :: nat
  tm_start_time_ns :: nat
  tm_stop_time_ns :: "nat option"
  tm_fire_immediately :: bool
  tm_next_time_ns :: nat
  tm_is_expired :: bool

definition valid_name :: "string \<Rightarrow> bool" where
  "valid_name name \<longleftrightarrow> name \<noteq> [] \<and> list_ex (\<lambda>c. \<not> is_whitespace c) name"

definition timer_new :: "string \<Rightarrow> nat \<Rightarrow> nat \<Rightarrow> nat option \<Rightarrow> bool \<Rightarrow> test_timer panics" where
  "timer_new name interval_ns start_time_ns stop_time_ns fire_immediately =
     (if \<not> valid_name name then None
      else map_option (\<lambda>next_time_ns. \<lparr>tm_name = name, tm_interval_ns = interval_ns, tm_start_time_ns = start_time_ns,
             tm_stop_time_ns = stop_time_ns, tm_fire_immediately = fire_immediately, tm_next_time_ns = next_time_ns, tm_is_expired = False\<rparr>)
           (if fire_immediately then Some start_time_ns else nanos_add start_time_ns interval_ns))"

definition timer_cancel :: "test_timer \<Rightarrow> test_timer" where
  "timer_cancel t = t\<lparr>tm_is_expired := True\<rparr>"

definition timer_next :: "test_timer \<Rightarrow> (time_event option \<times> test_timer) panics" where
  "timer_next t =
     (if tm_is_expired t then Some (None, t)
      else if (case tm_stop_time_ns t of Some stop \<Rightarrow> stop < tm_next_time_ns t | None \<Rightarrow> False) then Some (None, t\<lparr>tm_is_expired := True\<rparr>)
      else
        let item = \<lparr>te_name = tm_name t, te_ts_event = tm_next_time_ns t, te_ts_init = tm_next_time_ns t\<rparr>;
            t = (if tm_stop_time_ns t = Some (tm_next_time_ns t) then t\<lparr>tm_is_expired := True\<rparr> else t)
        in map_option (\<lambda>n. (Some item, t\<lparr>tm_next_time_ns := n\<rparr>)) (nanos_add (tm_next_time_ns t) (tm_interval_ns t)))"

text \<open>At most \<open>n\<close> events (\<open>take\<close>), up to the first \<open>None\<close>.\<close>

fun timer_take :: "nat \<Rightarrow> test_timer \<Rightarrow> (time_event list \<times> test_timer) panics" where
  "timer_take 0 t = Some ([], t)"
| "timer_take (Suc n) t =
     (case timer_next t of
        None \<Rightarrow> None
      | Some (None, t) \<Rightarrow> Some ([], t)
      | Some (Some e, t) \<Rightarrow> map_option (\<lambda>(es, t). (e # es, t)) (timer_take n t))"

definition timer_advance :: "nat \<Rightarrow> test_timer \<Rightarrow> (time_event list \<times> test_timer) panics" where
  "timer_advance to_time_ns t =
     (let advances = (if tm_next_time_ns t \<le> to_time_ns
          then min ((to_time_ns - tm_next_time_ns t) div tm_interval_ns t + 1) (2 ^ 64 - 1) else 0)
      in timer_take advances t)"

section \<open>Callbacks\<close>

record 'c callback_registry =
  cr_default_callback :: "'c option"
  cr_callbacks :: "string \<rightharpoonup> 'c"

definition has_any_callback :: "'c callback_registry \<Rightarrow> string \<Rightarrow> bool" where
  "has_any_callback r name \<longleftrightarrow> cr_callbacks r name \<noteq> None \<or> cr_default_callback r \<noteq> None"

definition get_callback :: "'c callback_registry \<Rightarrow> string \<Rightarrow> 'c option" where
  "get_callback r name = (case cr_callbacks r name of Some c \<Rightarrow> Some c | None \<Rightarrow> cr_default_callback r)"

definition registry_get_handler :: "'c callback_registry \<Rightarrow> time_event \<Rightarrow> (time_event \<times> 'c) panics" where
  "registry_get_handler r event = map_option (\<lambda>callback. (event, callback)) (get_callback r (te_name event))"

definition register_callback :: "string \<Rightarrow> 'c \<Rightarrow> 'c callback_registry \<Rightarrow> 'c callback_registry" where
  "register_callback name callback r = r\<lparr>cr_callbacks := (cr_callbacks r)(name \<mapsto> callback)\<rparr>"

definition registry_clear :: "'c callback_registry \<Rightarrow> 'c callback_registry" where
  "registry_clear r = r\<lparr>cr_callbacks := Map.empty\<rparr>"

section \<open>The clock\<close>

datatype clock_error = InvalidName | InvalidInterval | AlertInPast | NextEventInPast | StopBeforeStart | StopInPast | NoCallbacks

record 'c test_clock =
  tc_time :: nat
  tc_timers :: "(string, test_timer) btree_map"
  tc_callbacks :: "'c callback_registry"

definition clock_new :: "'c test_clock" where
  "clock_new = \<lparr>tc_time = 0, tc_timers = [], tc_callbacks = \<lparr>cr_default_callback = None, cr_callbacks = Map.empty\<rparr>\<rparr>"

definition validate_and_prepare_time_alert :: "string \<Rightarrow> nat \<Rightarrow> bool option \<Rightarrow> nat \<Rightarrow> (clock_error + nat) panics" where
  "validate_and_prepare_time_alert name alert_time_ns allow_past ts_now =
     (if \<not> valid_name name then Some (Inl InvalidName)
      else
        let allow_past = (case allow_past of Some a \<Rightarrow> a | None \<Rightarrow> True) in
        if alert_time_ns < ts_now then
          if allow_past then Some (Inr ts_now) else map_option (\<lambda>_. Inl AlertInPast) (to_rfc3339 alert_time_ns)
        else Some (Inr alert_time_ns))"

definition validate_and_prepare_timer ::
  "string \<Rightarrow> nat \<Rightarrow> nat option \<Rightarrow> nat option \<Rightarrow> bool option \<Rightarrow> bool option \<Rightarrow> nat \<Rightarrow> (clock_error + nat \<times> nat option \<times> bool \<times> bool) panics" where
  "validate_and_prepare_timer name interval_ns start_time_ns stop_time_ns allow_past fire_immediately ts_now =
     (if \<not> valid_name name then Some (Inl InvalidName)
      else if interval_ns = 0 then Some (Inl InvalidInterval)
      else
        let allow_past = (case allow_past of Some a \<Rightarrow> a | None \<Rightarrow> True);
            fire_immediately = (case fire_immediately of Some f \<Rightarrow> f | None \<Rightarrow> False);
            start = (case start_time_ns of Some s \<Rightarrow> s | None \<Rightarrow> 0);
            start_time_ns = (if start = 0 then ts_now else start) in
        Option.bind (if start \<noteq> 0 \<and> \<not> allow_past then
              Option.bind (if fire_immediately then Some start_time_ns else nanos_add start_time_ns interval_ns) (\<lambda>next_event_time.
                if next_event_time < ts_now then map_option (\<lambda>_. Inl NextEventInPast) (to_rfc3339 next_event_time) else Some (Inr ()))
            else Some (Inr ())) (\<lambda>past.
        case past of
          Inl e \<Rightarrow> Some (Inl e)
        | Inr _ \<Rightarrow>
            (case stop_time_ns of
               None \<Rightarrow> Some (Inr (start_time_ns, stop_time_ns, allow_past, fire_immediately))
             | Some stop_time \<Rightarrow>
                 if stop_time \<le> start_time_ns then
                   Option.bind (to_rfc3339 stop_time) (\<lambda>_. map_option (\<lambda>_. Inl StopBeforeStart) (to_rfc3339 start_time_ns))
                 else if \<not> allow_past \<and> stop_time \<le> ts_now then map_option (\<lambda>_. Inl StopInPast) (to_rfc3339 stop_time)
                 else Some (Inr (start_time_ns, stop_time_ns, allow_past, fire_immediately)))))"

text \<open>\<open>replace_existing_timer\<close>: the timer is removed, cancelled or not.\<close>

definition replace_existing_timer :: "(string \<Rightarrow> 'o::linorder) \<Rightarrow> string \<Rightarrow> (string, test_timer) btree_map \<Rightarrow> (string, test_timer) btree_map" where
  "replace_existing_timer rk name timers = (case bt_get rk timers name of Some _ \<Rightarrow> bt_remove rk name timers | None \<Rightarrow> timers)"

definition set_time_alert_ns ::
  "(string \<Rightarrow> 'o::linorder) \<Rightarrow> string \<Rightarrow> nat \<Rightarrow> 'c option \<Rightarrow> bool option \<Rightarrow> 'c test_clock \<Rightarrow> (clock_error option \<times> 'c test_clock) panics" where
  "set_time_alert_ns rk name alert_time_ns callback allow_past c =
     (let ts_now = tc_time c in
      Option.bind (validate_and_prepare_time_alert name alert_time_ns allow_past ts_now) (\<lambda>r.
      case r of
        Inl e \<Rightarrow> Some (Some e, c)
      | Inr alert_time_ns \<Rightarrow>
          let c = c\<lparr>tc_timers := replace_existing_timer rk name (tc_timers c)\<rparr> in
          if \<not> (callback \<noteq> None \<or> has_any_callback (tc_callbacks c) name) then Some (Some NoCallbacks, c)
          else
            let c = (case callback of Some cb \<Rightarrow> c\<lparr>tc_callbacks := register_callback name cb (tc_callbacks c)\<rparr> | None \<Rightarrow> c) in
            Option.bind (nanos_sub alert_time_ns ts_now) (\<lambda>d.
            let interval_ns = create_valid_interval d; fire_immediately = (alert_time_ns = ts_now) in
            map_option (\<lambda>timer. (None, c\<lparr>tc_timers := bt_insert rk name timer (tc_timers c)\<rparr>))
              (timer_new name interval_ns ts_now (Some alert_time_ns) fire_immediately))))"

definition set_timer_ns ::
  "(string \<Rightarrow> 'o::linorder) \<Rightarrow> string \<Rightarrow> nat \<Rightarrow> nat option \<Rightarrow> nat option \<Rightarrow> 'c option \<Rightarrow> bool option \<Rightarrow> bool option \<Rightarrow> 'c test_clock \<Rightarrow>
    (clock_error option \<times> 'c test_clock) panics" where
  "set_timer_ns rk name interval_ns start_time_ns stop_time_ns callback allow_past fire_immediately c =
     (let ts_now = tc_time c in
      Option.bind (validate_and_prepare_timer name interval_ns start_time_ns stop_time_ns allow_past fire_immediately ts_now) (\<lambda>r.
      case r of
        Inl e \<Rightarrow> Some (Some e, c)
      | Inr (start_time_ns, stop_time_ns, _, fire_immediately) \<Rightarrow>
          if \<not> (callback \<noteq> None \<or> has_any_callback (tc_callbacks c) name) then Some (Some NoCallbacks, c)
          else
            let c = c\<lparr>tc_timers := replace_existing_timer rk name (tc_timers c)\<rparr>;
                c = (case callback of Some cb \<Rightarrow> c\<lparr>tc_callbacks := register_callback name cb (tc_callbacks c)\<rparr> | None \<Rightarrow> c);
                interval_ns = create_valid_interval interval_ns in
            map_option (\<lambda>timer. (None, c\<lparr>tc_timers := bt_insert rk name timer (tc_timers c)\<rparr>))
              (timer_new name interval_ns start_time_ns stop_time_ns fire_immediately)))"

text \<open>The timers in order, each advanced; the expired ones are removed.\<close>

fun advance_timers :: "nat \<Rightarrow> (string, test_timer) btree_map \<Rightarrow> (time_event list \<times> (string, test_timer) btree_map) panics" where
  "advance_timers to_time_ns [] = Some ([], [])"
| "advance_timers to_time_ns ((name, timer) # timers) =
     Option.bind (timer_advance to_time_ns timer) (\<lambda>(events, timer).
       map_option (\<lambda>(more, rest). (events @ more, (if tm_is_expired timer then [] else [(name, timer)]) @ rest)) (advance_timers to_time_ns timers))"

definition advance_time :: "nat \<Rightarrow> bool \<Rightarrow> 'c test_clock \<Rightarrow> (time_event list \<times> 'c test_clock) panics" where
  "advance_time to_time_ns set_time c =
     (if to_time_ns < tc_time c then None
      else map_option (\<lambda>(events, timers). (sort_key te_ts_event events,
               c\<lparr>tc_time := (if set_time then to_time_ns else tc_time c), tc_timers := timers\<rparr>)) (advance_timers to_time_ns (tc_timers c)))"

fun match_handlers :: "'c test_clock \<Rightarrow> time_event list \<Rightarrow> (time_event \<times> 'c) list panics" where
  "match_handlers c [] = Some []"
| "match_handlers c (event # events) =
     Option.bind (registry_get_handler (tc_callbacks c) event) (\<lambda>h. map_option (Cons h) (match_handlers c events))"

definition timer_names :: "'c test_clock \<Rightarrow> string list" where
  "timer_names c = map fst (filter (\<lambda>(_, timer). \<not> tm_is_expired timer) (tc_timers c))"

definition timer_count :: "'c test_clock \<Rightarrow> nat" where
  "timer_count c = length (filter (\<lambda>(_, timer). \<not> tm_is_expired timer) (tc_timers c))"

definition timer_exists :: "(string \<Rightarrow> 'o::linorder) \<Rightarrow> 'c test_clock \<Rightarrow> string \<Rightarrow> bool" where
  "timer_exists rk c name \<longleftrightarrow> bt_get rk (tc_timers c) name \<noteq> None"

definition clock_next_time_ns :: "(string \<Rightarrow> 'o::linorder) \<Rightarrow> 'c test_clock \<Rightarrow> string \<Rightarrow> nat option" where
  "clock_next_time_ns rk c name = map_option tm_next_time_ns (bt_get rk (tc_timers c) name)"

definition register_default_handler :: "'c \<Rightarrow> 'c test_clock \<Rightarrow> 'c test_clock" where
  "register_default_handler callback c = c\<lparr>tc_callbacks := (tc_callbacks c)\<lparr>cr_default_callback := Some callback\<rparr>\<rparr>"

definition cancel_timer :: "(string \<Rightarrow> 'o::linorder) \<Rightarrow> string \<Rightarrow> 'c test_clock \<Rightarrow> 'c test_clock" where
  "cancel_timer rk name c = c\<lparr>tc_timers := bt_remove rk name (tc_timers c)\<rparr>"

definition cancel_timers :: "'c test_clock \<Rightarrow> 'c test_clock" where
  "cancel_timers c = c\<lparr>tc_timers := []\<rparr>"

definition clock_reset :: "'c test_clock \<Rightarrow> 'c test_clock" where
  "clock_reset c = c\<lparr>tc_time := 0, tc_timers := [], tc_callbacks := registry_clear (tc_callbacks c)\<rparr>"

section \<open>One timer\<close>

definition within :: "test_timer \<Rightarrow> nat \<Rightarrow> bool" where
  "within t x \<longleftrightarrow> (case tm_stop_time_ns t of None \<Rightarrow> True | Some stop \<Rightarrow> x \<le> stop)"

definition fire_time :: "test_timer \<Rightarrow> nat \<Rightarrow> nat" where
  "fire_time t k = tm_next_time_ns t + k * tm_interval_ns t"

definition event_at :: "test_timer \<Rightarrow> nat \<Rightarrow> time_event" where
  "event_at t x = \<lparr>te_name = tm_name t, te_ts_event = x, te_ts_init = x\<rparr>"

text \<open>The events of a timer that are due: one at each of its times up to \<open>to_time\<close> and to its stop time.\<close>

definition due :: "nat \<Rightarrow> test_timer \<Rightarrow> time_event list" where
  "due to_time t = map (event_at t) (filter (\<lambda>x. x \<le> to_time \<and> within t x) (map (fire_time t) [0 ..< to_time + 1]))"

definition timer_ok :: "test_timer \<Rightarrow> bool" where
  "timer_ok t \<longleftrightarrow> \<not> tm_is_expired t \<and> 0 < tm_interval_ns t"

lemma timer_take_expired: "tm_is_expired t \<Longrightarrow> timer_take n t = Some ([], t)"
  by (cases n) (simp_all add: timer_next_def)

lemma timer_next_None: "timer_next t = Some (None, t') \<Longrightarrow> tm_is_expired t'"
  by (auto simp: timer_next_def Let_def split: if_splits)

lemma timer_take_add:
  "timer_take (m + n) t = Option.bind (timer_take m t) (\<lambda>(es, t). map_option (\<lambda>(es', t). (es @ es', t)) (timer_take n t))"
proof (induction m arbitrary: t)
  case 0
  show ?case by (cases "timer_take n t") auto
next
  case (Suc m)
  show ?case
  proof (cases "timer_next t")
    case (Some r)
    obtain e t1 where r: "r = (e, t1)" by (cases r)
    show ?thesis
    proof (cases e)
      case None
      then show ?thesis using Some r timer_take_expired [OF timer_next_None] by simp
    next
      case (Some e1)
      show ?thesis using \<open>timer_next t = Some r\<close> r Some Suc.IH [of t1]
        by (cases "timer_take m t1") (auto simp: option.map_comp comp_def split_beta)
    qed
  qed simp
qed

lemma timer_next_ok:
  assumes "timer_ok t" "tm_next_time_ns t + tm_interval_ns t < 2 ^ 64"
  shows "timer_next t = (if within t (tm_next_time_ns t)
    then Some (Some (event_at t (tm_next_time_ns t)),
      t\<lparr>tm_next_time_ns := tm_next_time_ns t + tm_interval_ns t, tm_is_expired := tm_stop_time_ns t = Some (tm_next_time_ns t)\<rparr>)
    else Some (None, t\<lparr>tm_is_expired := True\<rparr>))"
  using assms by (cases t) (auto simp: timer_next_def timer_ok_def within_def event_at_def nanos_add_def Let_def split: option.splits)

lemma timer_take_exact:
  assumes "timer_ok t" "tm_next_time_ns t + n * tm_interval_ns t < 2 ^ 64"
  shows "\<exists>t'. timer_take n t = Some (map (event_at t) (takeWhile (within t) (map (fire_time t) [0 ..< n])), t') \<and>
    (tm_is_expired t' \<or> t' = t\<lparr>tm_next_time_ns := fire_time t n\<rparr>)"
  using assms
proof (induction n arbitrary: t)
  case 0
  then show ?case by (simp add: fire_time_def)
next
  case (Suc n)
  have one: "tm_next_time_ns t + tm_interval_ns t < 2 ^ 64" using Suc.prems(2) by simp
  have times: "map (fire_time t) [0 ..< Suc n] = tm_next_time_ns t # map (\<lambda>k. fire_time t (Suc k)) [0 ..< n]"
    by (simp add: upt_conv_Cons map_Suc_upt [symmetric] comp_def fire_time_def del: upt_Suc)
  show ?case
  proof (cases "within t (tm_next_time_ns t)")
    case False
    then show ?thesis using timer_next_ok [OF Suc.prems(1) one] unfolding times by simp
  next
    case True
    let ?t = "t\<lparr>tm_next_time_ns := tm_next_time_ns t + tm_interval_ns t, tm_is_expired := tm_stop_time_ns t = Some (tm_next_time_ns t)\<rparr>"
    note nx = timer_next_ok [OF Suc.prems(1) one]
    show ?thesis
    proof (cases "tm_stop_time_ns t = Some (tm_next_time_ns t)")
      case stop: True
      have "takeWhile (within t) (map (\<lambda>k. fire_time t (Suc k)) [0 ..< n]) = []"
        using stop Suc.prems(1) by (cases n) (auto simp: within_def fire_time_def timer_ok_def upt_conv_Cons simp del: upt_Suc)
      then show ?thesis using nx True stop timer_take_expired [of ?t n] unfolding times by simp
    next
      case go: False
      have t: "?t = t\<lparr>tm_next_time_ns := tm_next_time_ns t + tm_interval_ns t\<rparr>" using go Suc.prems(1) by (cases t) (simp add: timer_ok_def)
      have "timer_ok ?t" "tm_next_time_ns ?t + n * tm_interval_ns ?t < 2 ^ 64" using Suc.prems go by (simp_all add: timer_ok_def algebra_simps)
      from Suc.IH [OF this] obtain t' where t': "timer_take n ?t = Some (map (event_at ?t) (takeWhile (within ?t) (map (fire_time ?t) [0 ..< n])), t')"
          "tm_is_expired t' \<or> t' = ?t\<lparr>tm_next_time_ns := fire_time ?t n\<rparr>" by blast
      have eqs: "event_at ?t = event_at t" "within ?t = within t" "fire_time ?t = (\<lambda>k. fire_time t (Suc k))"
        by (auto simp: event_at_def within_def fire_time_def fun_eq_iff algebra_simps)
      have "t' = t\<lparr>tm_next_time_ns := fire_time t (Suc n)\<rparr>" if "\<not> tm_is_expired t'"
        using t'(2) that unfolding t eqs(3) by (simp add: eqs(3) [unfolded t])
      then show ?thesis using nx True t'(1) unfolding times eqs by auto
    qed
  qed
qed

definition advances :: "nat \<Rightarrow> test_timer \<Rightarrow> nat" where
  "advances to_time t = (if tm_next_time_ns t \<le> to_time then (to_time - tm_next_time_ns t) div tm_interval_ns t + 1 else 0)"

lemma advances_iff:
  assumes "timer_ok t"
  shows "k < advances T t \<longleftrightarrow> fire_time t k \<le> T"
proof (cases "tm_next_time_ns t \<le> T")
  case True
  have "k < advances T t \<longleftrightarrow> k \<le> (T - tm_next_time_ns t) div tm_interval_ns t" using True by (auto simp: advances_def)
  also have "\<dots> \<longleftrightarrow> k * tm_interval_ns t \<le> T - tm_next_time_ns t" using assms by (simp add: timer_ok_def less_eq_div_iff_mult_less_eq)
  finally show ?thesis using True by (auto simp: fire_time_def)
qed (simp add: advances_def fire_time_def)

lemma advances_le: "advances T t \<le> T + 1"
  by (auto simp: advances_def intro: le_trans [OF div_le_dividend])

lemma timer_advance_take:
  assumes "timer_ok t" "T + tm_interval_ns t < 2 ^ 64"
  shows "timer_advance T t = timer_take (advances T t) t"
proof -
  have "advances T t \<le> 2 ^ 64 - 1" using advances_le [of T t] assms by (simp add: timer_ok_def)
  then have "min (advances T t) (2 ^ 64 - 1) = advances T t" by simp
  then show ?thesis by (cases "tm_next_time_ns t \<le> T") (simp_all add: timer_advance_def advances_def)
qed

lemma fire_time_mono: "i \<le> j \<Longrightarrow> fire_time t i \<le> fire_time t j"
  by (simp add: fire_time_def)

lemma due_exact:
  assumes "timer_ok t"
  shows "due T t = map (event_at t) (takeWhile (within t) (map (fire_time t) [0 ..< advances T t]))"
proof -
  let ?n = "advances T t"
  have "?n \<le> T + 1" by (rule advances_le)
  then have "[0 ..< T + 1] = [0 ..< ?n] @ [?n ..< T + 1]" using upt_add_eq_append [of 0 ?n "T + 1 - ?n"] by simp
  moreover have "filter (\<lambda>x. x \<le> T \<and> within t x) (map (fire_time t) [?n ..< T + 1]) = []"
  proof -
    have "\<not> fire_time t k \<le> T" if "?n \<le> k" for k using advances_iff [OF assms, of k T] that by simp
    then show ?thesis by (auto simp: filter_empty_conv simp del: upt_Suc)
  qed
  moreover have "filter (\<lambda>x. x \<le> T \<and> within t x) (map (fire_time t) [0 ..< ?n]) = filter (within t) (map (fire_time t) [0 ..< ?n])"
    using advances_iff [OF assms] by (intro filter_cong refl) auto
  moreover have "sorted_wrt (\<le>) (map (fire_time t) [0 ..< ?n])" using fire_time_mono by (auto simp: sorted_wrt_iff_nth_less)
  moreover have "within t y \<Longrightarrow> x \<le> y \<Longrightarrow> within t x" for x y by (auto simp: within_def split: option.splits)
  ultimately show ?thesis using while_is_filter(1) [of "(\<le>)" "map (fire_time t) [0 ..< ?n]" "within t"] unfolding due_def by simp
qed

lemma timer_advance_exact:
  assumes ok: "timer_ok t" and bound: "T + tm_interval_ns t < 2 ^ 64"
  obtains t' where "timer_advance T t = Some (due T t, t')" "tm_is_expired t' \<or> t' = t\<lparr>tm_next_time_ns := fire_time t (advances T t)\<rparr>"
proof -
  note timer_advance_take [OF ok bound]
  moreover have "\<exists>t'. timer_take (advances T t) t = Some (due T t, t') \<and> (tm_is_expired t' \<or> t' = t\<lparr>tm_next_time_ns := fire_time t (advances T t)\<rparr>)"
  proof (cases "advances T t")
    case 0
    then show ?thesis using due_exact [OF ok, of T] by (simp add: fire_time_def)
  next
    case (Suc n)
    then have "fire_time t n \<le> T" using advances_iff [OF ok, of n T] by simp
    then have "tm_next_time_ns t + advances T t * tm_interval_ns t < 2 ^ 64" using bound Suc by (simp add: fire_time_def)
    from timer_take_exact [OF ok this] show ?thesis unfolding due_exact [OF ok] .
  qed
  ultimately show thesis using that by metis
qed

lemma advances_add:
  assumes ok: "timer_ok t" and le: "T1 \<le> T2"
  shows "advances T2 t = advances T1 t + advances T2 (t\<lparr>tm_next_time_ns := fire_time t (advances T1 t)\<rparr>)"
proof -
  let ?t = "t\<lparr>tm_next_time_ns := fire_time t (advances T1 t)\<rparr>"
  have ok': "timer_ok ?t" using ok by (simp add: timer_ok_def)
  have "k < advances T2 t \<longleftrightarrow> k < advances T1 t + advances T2 ?t" for k
  proof (cases "k < advances T1 t")
    case True
    then show ?thesis using advances_iff [OF ok, of k T1] advances_iff [OF ok, of k T2] le by simp
  next
    case False
    then obtain j where j: "k = advances T1 t + j" using le_Suc_ex not_less by blast
    have "fire_time ?t j = fire_time t k" using j by (simp add: fire_time_def algebra_simps)
    then show ?thesis using advances_iff [OF ok, of k T2] advances_iff [OF ok', of j T2] j by simp
  qed
  then show ?thesis by (metis less_irrefl linorder_neqE_nat)
qed

text \<open>Two advances of a timer are one.\<close>

lemma timer_advance_steps:
  assumes ok: "timer_ok t" and le: "T1 \<le> T2" and bound: "T2 + tm_interval_ns t < 2 ^ 64"
  obtains t1 t2 where "timer_advance T1 t = Some (due T1 t, t1)"
    "timer_advance T2 t = Some (due T1 t @ (if tm_is_expired t1 then [] else due T2 t1), t2)"
    "if tm_is_expired t1 then t2 = t1 else timer_ok t1 \<and> tm_interval_ns t1 = tm_interval_ns t \<and> T1 < tm_next_time_ns t1 \<and> timer_advance T2 t1 = Some (due T2 t1, t2)"
proof -
  have b1: "T1 + tm_interval_ns t < 2 ^ 64" using le bound by simp
  obtain t1 where t1: "timer_advance T1 t = Some (due T1 t, t1)" "tm_is_expired t1 \<or> t1 = t\<lparr>tm_next_time_ns := fire_time t (advances T1 t)\<rparr>"
    using timer_advance_exact [OF ok b1] by blast
  let ?n = "advances T2 (t\<lparr>tm_next_time_ns := fire_time t (advances T1 t)\<rparr>)"
  have split: "timer_advance T2 t = map_option (\<lambda>(es', t2). (due T1 t @ es', t2)) (timer_take ?n t1)"
  proof -
    have "timer_take (advances T1 t) t = Some (due T1 t, t1)" using timer_advance_take [OF ok b1] t1(1) by simp
    then show ?thesis using timer_advance_take [OF ok bound] timer_take_add [of "advances T1 t" ?n t] advances_add [OF ok le] by simp
  qed
  show thesis
  proof (cases "tm_is_expired t1")
    case True
    then show thesis using that [of t1 t1] t1(1) split timer_take_expired [OF True] by simp
  next
    case False
    then have e: "t1 = t\<lparr>tm_next_time_ns := fire_time t (advances T1 t)\<rparr>" using t1(2) by simp
    have ok1: "timer_ok t1" "tm_interval_ns t1 = tm_interval_ns t" using ok e by (simp_all add: timer_ok_def)
    obtain t2 where t2: "timer_advance T2 t1 = Some (due T2 t1, t2)" using timer_advance_exact [OF ok1(1), of T2] bound ok1(2) by auto
    then have "timer_take ?n t1 = Some (due T2 t1, t2)" using timer_advance_take [OF ok1(1), of T2] bound ok1(2) e by simp
    moreover have "T1 < tm_next_time_ns t1" using advances_iff [OF ok, of "advances T1 t" T1] e by simp
    ultimately show thesis using that [of t1 t2] t1(1) split False ok1 t2 by simp
  qed
qed

section \<open>All timers\<close>

definition timers_ok :: "nat \<Rightarrow> (string, test_timer) btree_map \<Rightarrow> bool" where
  "timers_ok T ts \<longleftrightarrow> (\<forall>x \<in> set ts. timer_ok (snd x) \<and> T + tm_interval_ns (snd x) < 2 ^ 64)"

text \<open>A timer that is kept goes on under its name, beyond the time.\<close>

definition continues :: "nat \<Rightarrow> test_timer \<Rightarrow> test_timer \<Rightarrow> bool" where
  "continues T t t' \<longleftrightarrow> timer_ok t' \<and> tm_name t' = tm_name t \<and> tm_interval_ns t' = tm_interval_ns t \<and> T < tm_next_time_ns t'"

lemma advance_timers_exact:
  assumes "timers_ok T ts"
  shows "\<exists>rest. advance_timers T ts = Some (concat (map (\<lambda>x. due T (snd x)) ts), rest) \<and>
    (\<forall>x \<in> set rest. \<exists>t. (fst x, t) \<in> set ts \<and> continues T t (snd x)) \<and> (bt_wf rk ts \<longrightarrow> bt_wf rk rest)"
  using assms
proof (induction ts)
  case (Cons x ts)
  obtain name t where x: "x = (name, t)" by (cases x)
  have ok: "timer_ok t" "T + tm_interval_ns t < 2 ^ 64" "timers_ok T ts" using Cons.prems x by (simp_all add: timers_ok_def)
  obtain rest where r: "advance_timers T ts = Some (concat (map (\<lambda>x. due T (snd x)) ts), rest)"
      "\<forall>x \<in> set rest. \<exists>t. (fst x, t) \<in> set ts \<and> continues T t (snd x)" "bt_wf rk ts \<longrightarrow> bt_wf rk rest"
    using Cons.IH [OF ok(3)] by blast
  obtain t' where t': "timer_advance T t = Some (due T t, t')" "tm_is_expired t' \<or> t' = t\<lparr>tm_next_time_ns := fire_time t (advances T t)\<rparr>"
    using timer_advance_exact [OF ok(1,2)] by blast
  have "continues T t t'" if "\<not> tm_is_expired t'"
    using t'(2) that ok(1) advances_iff [OF ok(1), of "advances T t" T] by (simp add: continues_def timer_ok_def)
  moreover have "\<forall>p \<in> set rest. rk name < rk (fst p)" if "bt_wf rk ((name, t) # ts)" using that r(2) by fastforce
  ultimately show ?case using x r t'(1) by (cases "tm_is_expired t'") auto
qed simp

lemma due_times: "e \<in> set (due T t) \<Longrightarrow> tm_next_time_ns t \<le> te_ts_event e \<and> te_ts_event e \<le> T \<and> te_name e = tm_name t"
  by (auto simp: due_def event_at_def fire_time_def simp del: upt_Suc)

text \<open>Two advances are one; the events of the first are those up to its time.\<close>

lemma advance_timers_steps:
  assumes "timers_ok T2 ts" "T1 \<le> T2"
  shows "\<exists>rest1 es rest. advance_timers T1 ts = Some (filter (\<lambda>e. te_ts_event e \<le> T1) es, rest1) \<and>
    advance_timers T2 rest1 = Some (filter (\<lambda>e. \<not> te_ts_event e \<le> T1) es, rest) \<and> advance_timers T2 ts = Some (es, rest)"
  using assms(1)
proof (induction ts)
  case (Cons x ts)
  obtain name t where x: "x = (name, t)" by (cases x)
  have ok: "timer_ok t" "T2 + tm_interval_ns t < 2 ^ 64" "timers_ok T2 ts" using Cons.prems x by (simp_all add: timers_ok_def)
  obtain rest1 es rest where r: "advance_timers T1 ts = Some (filter (\<lambda>e. te_ts_event e \<le> T1) es, rest1)"
      "advance_timers T2 rest1 = Some (filter (\<lambda>e. \<not> te_ts_event e \<le> T1) es, rest)" "advance_timers T2 ts = Some (es, rest)"
    using Cons.IH [OF ok(3)] by blast
  obtain t1 t2 where t: "timer_advance T1 t = Some (due T1 t, t1)"
      "timer_advance T2 t = Some (due T1 t @ (if tm_is_expired t1 then [] else due T2 t1), t2)"
      "if tm_is_expired t1 then t2 = t1 else timer_ok t1 \<and> tm_interval_ns t1 = tm_interval_ns t \<and> T1 < tm_next_time_ns t1 \<and> timer_advance T2 t1 = Some (due T2 t1, t2)"
    using timer_advance_steps [OF ok(1) assms(2) ok(2)] by blast
  let ?later = "if tm_is_expired t1 then [] else due T2 t1"
  have "filter (\<lambda>e. te_ts_event e \<le> T1) (due T1 t @ ?later) = due T1 t"
    using t(3) due_times [of _ T1 t] due_times [of _ T2 t1] by (fastforce simp: filter_empty_conv filter_id_conv split: if_splits)
  moreover have "filter (\<lambda>e. \<not> te_ts_event e \<le> T1) (due T1 t @ ?later) = ?later"
    using t(3) due_times [of _ T1 t] due_times [of _ T2 t1] by (fastforce simp: filter_empty_conv filter_id_conv split: if_splits)
  ultimately show ?case using x r t
    by (intro exI [of _ "(if tm_is_expired t1 then [] else [(name, t1)]) @ rest1"] exI [of _ "due T1 t @ ?later @ es"]
        exI [of _ "(if tm_is_expired t2 then [] else [(name, t2)]) @ rest"]) (auto simp del: filter_append simp: filter_append [of _ "_ @ _", simplified])
qed simp

lemma sort_key_threshold:
  fixes f :: "'a \<Rightarrow> nat"
  shows "sort_key f xs = sort_key f (filter (\<lambda>x. f x \<le> T) xs) @ sort_key f (filter (\<lambda>x. \<not> f x \<le> T) xs)"
proof (rule properties_for_sort_key)
  show "mset (sort_key f (filter (\<lambda>x. f x \<le> T) xs) @ sort_key f (filter (\<lambda>x. \<not> f x \<le> T) xs)) = mset xs" by simp
  show "sorted (map f (sort_key f (filter (\<lambda>x. f x \<le> T) xs) @ sort_key f (filter (\<lambda>x. \<not> f x \<le> T) xs)))"
    by (auto simp: sorted_append)
  fix k
  show "filter (\<lambda>x. f k = f x) (sort_key f (filter (\<lambda>x. f x \<le> T) xs) @ sort_key f (filter (\<lambda>x. \<not> f x \<le> T) xs)) = filter (\<lambda>x. f k = f x) xs"
  proof -
    have st: "filter (\<lambda>x. f k = f x) (sort_key f ys) = filter (\<lambda>x. f k = f x) ys" for ys using sort_key_stable [of f "f k" ys] by (simp add: eq_commute)
    have "filter (\<lambda>x. f k = f x) (filter (\<lambda>x. f x \<le> T) xs) @ filter (\<lambda>x. f k = f x) (filter (\<lambda>x. \<not> f x \<le> T) xs) = filter (\<lambda>x. f k = f x) xs"
      by (induction xs) (auto simp: filter_empty_conv)
    then show ?thesis by (simp add: st)
  qed
qed

section \<open>The clock\<close>

definition clock_ok :: "(string \<Rightarrow> 'o::linorder) \<Rightarrow> 'c test_clock \<Rightarrow> bool" where
  "clock_ok rk c \<longleftrightarrow> bt_wf rk (tc_timers c) \<and>
     (\<forall>x \<in> set (tc_timers c). timer_ok (snd x) \<and> tm_name (snd x) = fst x \<and> has_any_callback (tc_callbacks c) (fst x))"

inductive clock_reachable :: "(string \<Rightarrow> 'o::linorder) \<Rightarrow> 'c test_clock \<Rightarrow> bool" for rk where
  clock_start: "clock_reachable rk clock_new"
| clock_alert: "clock_reachable rk c \<Longrightarrow> set_time_alert_ns rk name alert_time callback allow_past c = Some (r, c') \<Longrightarrow> clock_reachable rk c'"
| clock_timer: "clock_reachable rk c \<Longrightarrow> set_timer_ns rk name interval start stop callback allow_past fire c = Some (r, c') \<Longrightarrow> clock_reachable rk c'"
| clock_advance: "clock_reachable rk c \<Longrightarrow> \<forall>x \<in> set (tc_timers c). T + tm_interval_ns (snd x) < 2 ^ 64 \<Longrightarrow>
    advance_time T set_time c = Some (events, c') \<Longrightarrow> clock_reachable rk c'"
| clock_default: "clock_reachable rk c \<Longrightarrow> clock_reachable rk (register_default_handler callback c)"
| clock_cancel: "clock_reachable rk c \<Longrightarrow> clock_reachable rk (cancel_timer rk name c)"
| clock_cancel_all: "clock_reachable rk c \<Longrightarrow> clock_reachable rk (cancel_timers c)"
| clock_restart: "clock_reachable rk c \<Longrightarrow> clock_reachable rk (clock_reset c)"

lemma advance_clock:
  assumes ok: "clock_ok rk c" and T: "tc_time c \<le> T" and bound: "\<forall>x \<in> set (tc_timers c). T + tm_interval_ns (snd x) < 2 ^ 64"
  obtains c' where "advance_time T set_time c = Some (sort_key te_ts_event (concat (map (\<lambda>x. due T (snd x)) (tc_timers c))), c')"
    "clock_ok rk c'" "tc_callbacks c' = tc_callbacks c" "\<forall>x \<in> set (tc_timers c'). \<exists>t. (fst x, t) \<in> set (tc_timers c) \<and> continues T t (snd x)"
    "tc_time c' = (if set_time then T else tc_time c)"
proof -
  have "timers_ok T (tc_timers c)" using ok bound by (simp add: timers_ok_def clock_ok_def)
  from advance_timers_exact [OF this, of rk] obtain rest where r: "advance_timers T (tc_timers c) = Some (concat (map (\<lambda>x. due T (snd x)) (tc_timers c)), rest)"
      "\<forall>x \<in> set rest. \<exists>t. (fst x, t) \<in> set (tc_timers c) \<and> continues T t (snd x)" "bt_wf rk (tc_timers c) \<longrightarrow> bt_wf rk rest" by blast
  let ?c = "c\<lparr>tc_time := (if set_time then T else tc_time c), tc_timers := rest\<rparr>"
  have "clock_ok rk ?c" using ok r(2,3) by (fastforce simp: clock_ok_def continues_def)
  then show thesis using that [of ?c] r(1,2) T by (simp add: advance_time_def)
qed

lemma timer_new_ok: "timer_new name (create_valid_interval i) start stop fire = Some t \<Longrightarrow> timer_ok t \<and> tm_name t = name"
  by (auto simp: timer_new_def timer_ok_def create_valid_interval_def split: if_splits)

lemma replace_facts:
  assumes "bt_wf rk ts"
  shows "bt_wf rk (replace_existing_timer rk name ts)" "bt_get rk (replace_existing_timer rk name ts) name = None"
    "set (replace_existing_timer rk name ts) \<subseteq> set ts"
  using assms by (auto simp: replace_existing_timer_def bt_wf_remove bt_get_remove set_bt_remove split: option.splits)

lemma insert_timer_ok:
  assumes "clock_ok rk c" "timer_ok t" "tm_name t = name" "has_any_callback cbs name" "\<And>n. has_any_callback (tc_callbacks c) n \<Longrightarrow> has_any_callback cbs n"
    "tc_callbacks c' = cbs" "tc_timers c' = bt_insert rk name t (replace_existing_timer rk name (tc_timers c))"
  shows "clock_ok rk c'"
proof -
  have wf: "bt_wf rk (tc_timers c)" using assms(1) by (simp add: clock_ok_def)
  note rep = replace_facts [OF wf, of name]
  have "set (tc_timers c') = insert (name, t) (set (replace_existing_timer rk name (tc_timers c)))"
    unfolding assms(7) by (rule set_bt_insert_absent [OF rep(1,2)])
  then show ?thesis using assms rep by (auto simp: clock_ok_def bt_wf_insert)
qed

lemma registered: "has_any_callback (register_callback name cb r) n \<longleftrightarrow> n = name \<or> has_any_callback r n"
  by (auto simp: has_any_callback_def register_callback_def)

lemma set_alert_ok:
  assumes ok: "clock_ok rk c" and r: "set_time_alert_ns rk name alert_time callback allow_past c = Some (r, c')"
  shows "clock_ok rk c'"
proof -
  let ?ts = "replace_existing_timer rk name (tc_timers c)"
  have base: "clock_ok rk (c\<lparr>tc_timers := ?ts\<rparr>)"
    using ok replace_facts [of rk "tc_timers c" name] by (auto simp: clock_ok_def)
  let ?cbs = "case callback of None \<Rightarrow> tc_callbacks c | Some cb \<Rightarrow> register_callback name cb (tc_callbacks c)"
  obtain v where v: "validate_and_prepare_time_alert name alert_time allow_past (tc_time c) = Some v"
    using r by (auto simp: set_time_alert_ns_def Let_def bind_eq_Some_conv)
  show ?thesis
  proof (cases v)
    case (Inl e)
    then show ?thesis using r v ok by (simp add: set_time_alert_ns_def)
  next
    case (Inr a)
    show ?thesis
    proof (cases "callback \<noteq> None \<or> has_any_callback (tc_callbacks c) name")
      case False
      then show ?thesis using r v Inr base by (simp add: set_time_alert_ns_def)
    next
      case True
      obtain i t where t: "timer_new name (create_valid_interval i) (tc_time c) (Some a) (a = tc_time c) = Some t" "tc_timers c' = bt_insert rk name t ?ts" "tc_callbacks c' = ?cbs"
        using r v Inr True by (cases callback) (auto simp: set_time_alert_ns_def Let_def bind_eq_Some_conv)
      show ?thesis
        by (rule insert_timer_ok [OF ok _ _ _ _ t(3,2)]) (use timer_new_ok [OF t(1)] True in \<open>auto simp: registered split: option.splits\<close>)
    qed
  qed
qed

lemma set_timer_ok:
  assumes ok: "clock_ok rk c" and r: "set_timer_ns rk name interval start stop callback allow_past fire c = Some (r, c')"
  shows "clock_ok rk c'"
proof -
  let ?ts = "replace_existing_timer rk name (tc_timers c)"
  let ?cbs = "case callback of None \<Rightarrow> tc_callbacks c | Some cb \<Rightarrow> register_callback name cb (tc_callbacks c)"
  obtain v where v: "validate_and_prepare_timer name interval start stop allow_past fire (tc_time c) = Some v"
    using r by (auto simp: set_timer_ns_def Let_def bind_eq_Some_conv)
  show ?thesis
  proof (cases v)
    case (Inl e)
    then show ?thesis using r v ok by (simp add: set_timer_ns_def)
  next
    case (Inr a)
    obtain st sp ap f where a: "a = (st, sp, ap, f)" by (cases a)
    show ?thesis
    proof (cases "callback \<noteq> None \<or> has_any_callback (tc_callbacks c) name")
      case False
      then show ?thesis using r v Inr a ok by (simp add: set_timer_ns_def)
    next
      case True
      obtain t where t: "timer_new name (create_valid_interval interval) st sp f = Some t" "tc_timers c' = bt_insert rk name t ?ts" "tc_callbacks c' = ?cbs"
        using r v Inr a True by (cases callback) (auto simp: set_timer_ns_def Let_def bind_eq_Some_conv)
      show ?thesis
        by (rule insert_timer_ok [OF ok _ _ _ _ t(3,2)]) (use timer_new_ok [OF t(1)] True in \<open>auto simp: registered split: option.splits\<close>)
    qed
  qed
qed

lemma clock_reachable_ok: "clock_reachable rk c \<Longrightarrow> clock_ok rk c"
proof (induction rule: clock_reachable.induct)
  case (clock_advance c T set_time events c')
  then have "tc_time c \<le> T" by (auto simp: advance_time_def split: if_splits)
  from advance_clock [OF clock_advance.IH this clock_advance.hyps(2), of set_time] show ?case using clock_advance.hyps(3) by auto
next
  case (clock_cancel c name)
  then show ?case by (auto simp: clock_ok_def cancel_timer_def bt_wf_remove set_bt_remove)
next
  case (clock_alert c name alert_time callback allow_past r c')
  then show ?case using set_alert_ok by blast
next
  case (clock_timer c name interval start stop callback allow_past fire r c')
  then show ?case using set_timer_ok by blast
qed (auto simp: clock_ok_def clock_new_def register_default_handler_def cancel_timers_def clock_reset_def has_any_callback_def)

lemma match_handlers_found:
  assumes "\<forall>e \<in> set events. has_any_callback (tc_callbacks c) (te_name e)"
  shows "\<exists>hs. match_handlers c events = Some hs \<and> map fst hs = events"
  using assms
proof (induction events)
  case (Cons e events)
  then have "get_callback (tc_callbacks c) (te_name e) \<noteq> None"
    by (auto simp: get_callback_def has_any_callback_def split: option.splits)
  then show ?case using Cons by (auto simp: registry_get_handler_def)
qed simp

text \<open>C40: An advance of the clock to a time that is not before its own does not panic and returns exactly the due events of its timers, one at each
  interval from the next time of the timer to its stop time and the time of the advance, sorted by time; every event has a handler,
  and the timers that are left are next due after the time of the advance. The intervals must not overflow 64 bits.\<close>

theorem advance_fires_due_events:
  assumes "clock_reachable rk c" "tc_time c \<le> T" "\<forall>x \<in> set (tc_timers c). T + tm_interval_ns (snd x) < 2 ^ 64"
  shows "\<exists>events c'. advance_time T set_time c = Some (events, c') \<and> events = sort_key te_ts_event (concat (map (\<lambda>x. due T (snd x)) (tc_timers c))) \<and>
    (\<exists>handlers. match_handlers c' events = Some handlers \<and> map fst handlers = events) \<and>
    (\<forall>x \<in> set (tc_timers c'). T < tm_next_time_ns (snd x))"
proof -
  note ok = clock_reachable_ok [OF assms(1)]
  let ?events = "sort_key te_ts_event (concat (map (\<lambda>x. due T (snd x)) (tc_timers c)))"
  obtain c' where c': "advance_time T set_time c = Some (?events, c')" "tc_callbacks c' = tc_callbacks c"
      "\<forall>x \<in> set (tc_timers c'). \<exists>t. (fst x, t) \<in> set (tc_timers c) \<and> continues T t (snd x)"
    using advance_clock [OF ok assms(2,3), of set_time] by metis
  have "has_any_callback (tc_callbacks c') (te_name e)" if e: "e \<in> set ?events" for e
  proof -
    obtain x where "x \<in> set (tc_timers c)" "e \<in> set (due T (snd x))" using e by auto
    then show ?thesis using ok c'(2) due_times [of e T "snd x"] by (auto simp: clock_ok_def)
  qed
  then show ?thesis using match_handlers_found [of ?events c'] c'(1,3) by (force simp: continues_def)
qed

text \<open>Advancing the clock in two steps returns the same events in the same order, and the same clock, as advancing it once.\<close>

theorem advance_in_steps:
  assumes "clock_reachable rk c" "tc_time c \<le> T1" "T1 \<le> T2" "\<forall>x \<in> set (tc_timers c). T2 + tm_interval_ns (snd x) < 2 ^ 64"
  shows "\<exists>events1 c1 events2 c2. advance_time T1 set_time c = Some (events1, c1) \<and> advance_time T2 set_time c1 = Some (events2, c2) \<and>
    advance_time T2 set_time c = Some (events1 @ events2, c2)"
proof -
  have "timers_ok T2 (tc_timers c)" using clock_reachable_ok [OF assms(1)] assms(4) by (simp add: timers_ok_def clock_ok_def)
  from advance_timers_steps [OF this assms(3)] obtain rest1 es rest where
      "advance_timers T1 (tc_timers c) = Some (filter (\<lambda>e. te_ts_event e \<le> T1) es, rest1)"
      "advance_timers T2 rest1 = Some (filter (\<lambda>e. \<not> te_ts_event e \<le> T1) es, rest)" "advance_timers T2 (tc_timers c) = Some (es, rest)"
    by blast
  then show ?thesis using assms(2,3) sort_key_threshold [of te_ts_event es T1] by (auto simp: advance_time_def)
qed

lemma set_alert_timer:
  assumes ok: "clock_ok rk c" and r: "set_time_alert_ns rk name alert_time callback allow_past c = Some (None, c')"
  obtains t where "(name, t) \<in> set (tc_timers c')" "tm_name t = name" "tm_next_time_ns t = max alert_time (tc_time c)"
    "tm_stop_time_ns t = Some (max alert_time (tc_time c))" "timer_ok t" "tc_time c' = tc_time c"
proof -
  let ?ts = "replace_existing_timer rk name (tc_timers c)"
  have "bt_wf rk (tc_timers c)" using ok by (simp add: clock_ok_def)
  note rep = replace_facts [OF this, of name]
  obtain v where "validate_and_prepare_time_alert name alert_time allow_past (tc_time c) = Some v"
    using r by (auto simp: set_time_alert_ns_def Let_def bind_eq_Some_conv)
  then obtain a where v: "validate_and_prepare_time_alert name alert_time allow_past (tc_time c) = Some (Inr a)"
    using r by (cases v) (auto simp: set_time_alert_ns_def)
  then have a: "a = max alert_time (tc_time c)" by (auto simp: validate_and_prepare_time_alert_def Let_def split: if_splits)
  obtain t where t: "timer_new name (create_valid_interval (a - tc_time c)) (tc_time c) (Some a) (a = tc_time c) = Some t" "tc_timers c' = bt_insert rk name t ?ts"
      "tc_time c' = tc_time c"
    using r v by (cases callback) (auto simp: set_time_alert_ns_def nanos_sub_def Let_def bind_eq_Some_conv split: if_splits)
  have "tm_next_time_ns t = a" "tm_stop_time_ns t = Some a"
    using t(1) a by (auto simp: timer_new_def nanos_add_def create_valid_interval_def split: if_splits)
  then show thesis using that [of t] timer_new_ok [OF t(1)] t(2,3) a set_bt_insert_absent [OF rep(1,2), of t] by simp
qed

lemma due_at_stop:
  assumes "timer_ok t" "tm_stop_time_ns t = Some (tm_next_time_ns t)"
  shows "due T t = (if tm_next_time_ns t \<le> T then [event_at t (tm_next_time_ns t)] else [])"
proof (cases "advances T t")
  case 0
  then show ?thesis using due_exact [OF assms(1), of T] advances_iff [OF assms(1), of 0 T] by (simp add: fire_time_def)
next
  case (Suc n)
  have "takeWhile (within t) (map (fire_time t) [1 ..< Suc n]) = []"
    using assms by (cases n) (auto simp: within_def fire_time_def timer_ok_def upt_conv_Cons simp del: upt_Suc)
  then show ?thesis using due_exact [OF assms(1), of T] advances_iff [OF assms(1), of 0 T] Suc assms(2)
    by (simp add: upt_conv_Cons fire_time_def within_def del: upt_Suc)
qed

lemma bt_wf_unique: "bt_wf rk ts \<Longrightarrow> x \<in> set ts \<Longrightarrow> y \<in> set ts \<Longrightarrow> fst x = fst y \<Longrightarrow> x = y"
  by (induction ts) auto

lemma events_of_name:
  assumes "bt_wf rk ts" "\<forall>x \<in> set ts. tm_name (snd x) = fst x" "(name, t) \<in> set ts"
  shows "filter (\<lambda>e. te_name e = name) (concat (map (\<lambda>x. due T (snd x)) ts)) = due T t"
  using assms
proof (induction ts)
  case (Cons x ts)
  have own: "filter (\<lambda>e. te_name e = name) (due T (snd y)) = (if fst y = name then due T (snd y) else [])" if "tm_name (snd y) = fst y" for y
    using that due_times [of _ T "snd y"] by (auto simp: filter_empty_conv filter_id_conv)
  show ?case
  proof (cases "fst x = name")
    case True
    then have "snd x = t" using bt_wf_unique [OF Cons.prems(1), of x "(name, t)"] Cons.prems(3) by auto
    have "rk (fst x) < rk (fst y)" if "y \<in> set ts" for y using Cons.prems(1) that by (cases x) auto
    then have "name \<noteq> fst y" if "y \<in> set ts" for y using that True by fastforce
    then have "filter (\<lambda>e. te_name e = name) (concat (map (\<lambda>x. due T (snd x)) ts)) = []"
      using Cons.prems(2) due_times by (fastforce simp: filter_empty_conv)
    then show ?thesis using own [of x] Cons.prems(2) True \<open>snd x = t\<close> by simp
  next
    case False
    then show ?thesis using Cons.IH Cons.prems own [of x] by (cases x) auto
  qed
qed simp

text \<open>An alert that was set without an error fires once: an advance to any later time has exactly one event of its name, at the time of
  the alert (or at the time of the clock, for an alert in the past), and none before that time.\<close>

theorem alert_fires_once:
  assumes "clock_reachable rk c" "set_time_alert_ns rk name alert_time callback allow_past c = Some (None, c')"
    and "tc_time c' \<le> T" "\<forall>x \<in> set (tc_timers c'). T + tm_interval_ns (snd x) < 2 ^ 64"
  shows "\<exists>events c''. advance_time T set_time c' = Some (events, c'') \<and> filter (\<lambda>e. te_name e = name) events =
    (let fires = max alert_time (tc_time c) in if fires \<le> T then [\<lparr>te_name = name, te_ts_event = fires, te_ts_init = fires\<rparr>] else [])"
proof -
  have ok': "clock_ok rk c'" using clock_reachable_ok [OF clock_alert [OF assms(1,2)]] .
  obtain t where t: "(name, t) \<in> set (tc_timers c')" "tm_name t = name" "tm_next_time_ns t = max alert_time (tc_time c)"
      "tm_stop_time_ns t = Some (max alert_time (tc_time c))" "timer_ok t"
    using set_alert_timer [OF clock_reachable_ok [OF assms(1)] assms(2)] by metis
  obtain c'' where "advance_time T set_time c' = Some (sort_key te_ts_event (concat (map (\<lambda>x. due T (snd x)) (tc_timers c'))), c'')"
    using advance_clock [OF ok' assms(3,4), of set_time] by metis
  moreover have "filter (\<lambda>e. te_name e = name) (concat (map (\<lambda>x. due T (snd x)) (tc_timers c'))) = due T t"
    by (rule events_of_name [OF _ _ t(1), of rk]) (use ok' in \<open>simp_all add: clock_ok_def\<close>)
  ultimately show ?thesis using due_at_stop [OF t(5), of T] t(2-4) by (simp add: filter_sort event_at_def Let_def)
qed

text \<open>A sample clock with a timer of three nanoseconds and an alert.\<close>

definition sample_clock :: "nat test_clock" where
  "sample_clock = snd (the (set_time_alert_ns length ''al'' 7 None None (snd (the (set_timer_ns length ''t'' 3 None None None None None
     (register_default_handler 0 clock_new))))))"

lemmas clock_evaluation = set_time_alert_ns_def set_timer_ns_def register_default_handler_def clock_new_def validate_and_prepare_timer_def
  validate_and_prepare_time_alert_def valid_name_def is_whitespace_def replace_existing_timer_def has_any_callback_def timer_new_def nanos_add_def
  nanos_sub_def create_valid_interval_def

lemma sample_clock_eq: "sample_clock = \<lparr>tc_time = 0,
    tc_timers = [(''t'', \<lparr>tm_name = ''t'', tm_interval_ns = 3, tm_start_time_ns = 0, tm_stop_time_ns = None, tm_fire_immediately = False, tm_next_time_ns = 3, tm_is_expired = False\<rparr>),
      (''al'', \<lparr>tm_name = ''al'', tm_interval_ns = 7, tm_start_time_ns = 0, tm_stop_time_ns = Some 7, tm_fire_immediately = False, tm_next_time_ns = 7, tm_is_expired = False\<rparr>)],
    tc_callbacks = \<lparr>cr_default_callback = Some 0, cr_callbacks = Map.empty\<rparr>\<rparr>"
  by (simp add: sample_clock_def clock_evaluation Let_def)

lemma reach_by_timer:
  "clock_reachable rk c \<Longrightarrow> set_timer_ns rk name interval start stop cb ap fire c \<noteq> None \<Longrightarrow>
    clock_reachable rk (snd (the (set_timer_ns rk name interval start stop cb ap fire c)))"
  by (metis clock_timer option.collapse prod.collapse)

lemma reach_by_alert:
  "clock_reachable rk c \<Longrightarrow> set_time_alert_ns rk name time cb ap c \<noteq> None \<Longrightarrow> clock_reachable rk (snd (the (set_time_alert_ns rk name time cb ap c)))"
  by (metis clock_alert option.collapse prod.collapse)

lemma sample_clock_reachable: "clock_reachable length sample_clock"
  unfolding sample_clock_def
  by (intro reach_by_alert reach_by_timer clock_default clock_start) (simp_all add: clock_evaluation Let_def)

theorem advance_fires_due_events_witness:
  "\<exists>events c'. advance_time 9 True sample_clock = Some (events, c') \<and> map te_ts_event events = [3, 6, 7, 9]"
  using advance_fires_due_events [OF sample_clock_reachable, of 9 True]
  by (auto simp: sample_clock_eq due_def within_def fire_time_def event_at_def upt_rec)

theorem advance_in_steps_witness:
  "\<exists>events1 c1 events2 c2. advance_time 6 True sample_clock = Some (events1, c1) \<and> advance_time 9 True c1 = Some (events2, c2) \<and>
    advance_time 9 True sample_clock = Some (events1 @ events2, c2)"
  using advance_in_steps [OF sample_clock_reachable, of 6 9 True] by (simp add: sample_clock_eq)

theorem alert_fires_once_witness:
  "\<exists>c' events c''. set_time_alert_ns length ''xyz'' 5 (Some 1) None sample_clock = Some (None, c') \<and> advance_time 8 True c' = Some (events, c'') \<and>
    filter (\<lambda>e. te_name e = ''xyz'') events = [\<lparr>te_name = ''xyz'', te_ts_event = 5, te_ts_init = 5\<rparr>]"
proof -
  obtain c' where c': "set_time_alert_ns length ''xyz'' 5 (Some 1) None sample_clock = Some (None, c')" "tc_time c' = 0"
      "\<forall>x \<in> set (tc_timers c'). tm_interval_ns (snd x) \<le> 7"
    by (simp add: sample_clock_eq clock_evaluation Let_def)
  have "\<forall>x \<in> set (tc_timers c'). 8 + tm_interval_ns (snd x) < 2 ^ 64" using c'(3) by fastforce
  from alert_fires_once [OF sample_clock_reachable c'(1) _ this, of True] show ?thesis using c'(1,2) by (auto simp: sample_clock_eq)
qed

end
