(* ===== verification/Full_Math.thy ===== *)
theory Full_Math
  imports Nt_Prelude
begin

text \<open>
  Arithmetic of automated market makers on 256-bit integers (\<open>crates/model/src/defi/tick_map/full_math.rs\<close>,
  \<open>bit_math.rs\<close>, \<open>liquidity_math.rs\<close>).

  The integers \<open>U256\<close>, \<open>I256\<close> and \<open>U160\<close> of the source are words of their width, on which addition, subtraction,
  multiplication and negation wrap around; a division by zero panics, and so does a conversion to a narrower type that does not fit.
  The modular product \<open>mul_mod\<close> is a method of the integer library; it is the argument \<open>mm\<close> of the definitions that use it, and
  \<open>mul_mod_spec\<close> is what its documentation says of it for a modulus that is not zero.
\<close>

type_synonym u256 = "256 word"
type_synonym u160 = "160 word"
type_synonym u128 = "128 word"

type_synonym mul_mod = "u256 \<Rightarrow> u256 \<Rightarrow> u256 \<Rightarrow> u256"

definition mul_mod_spec :: "mul_mod \<Rightarrow> bool" where
  "mul_mod_spec mm \<longleftrightarrow> (\<forall>a b m. m \<noteq> 0 \<longrightarrow> unat (mm a b m) = unat a * unat b mod unat m)"

datatype math_error = ResultOverflow | DivideByZero

definition checked_div :: "'a::len word \<Rightarrow> 'a word \<Rightarrow> 'a word panics" where
  "checked_div a b = (if b = 0 then None else Some (a div b))"

definition checked_mod :: "'a::len word \<Rightarrow> 'a word \<Rightarrow> 'a word panics" where
  "checked_mod a b = (if b = 0 then None else Some (a mod b))"

section \<open>FullMath\<close>

definition Q128 :: u256 where
  "Q128 = push_bit 128 1"

text \<open>One step of the Newton iteration for the inverse of an odd number.\<close>

definition newton :: "u256 \<Rightarrow> u256 \<Rightarrow> u256" where
  "newton denominator iv = iv * (2 - denominator * iv)"

definition mul_div :: "mul_mod \<Rightarrow> u256 \<Rightarrow> u256 \<Rightarrow> u256 \<Rightarrow> (math_error + u256) panics" where
  "mul_div mm a b denominator =
     (let m = mm a b (- 1);
          prod_0 = a * b;
          prod_1 = m - prod_0 - (if m < prod_0 then 1 else 0)
      in if denominator \<le> prod_1 then Some (Inl ResultOverflow)
      else
        let remainder = mm a b denominator;
            prod_1 = prod_1 - (if remainder > prod_0 then 1 else 0);
            prod_0 = prod_0 - remainder;
            twos = (- denominator) AND denominator
        in do {
          denominator \<leftarrow> checked_div denominator twos;
          prod_0 \<leftarrow> checked_div prod_0 twos;
          quotient \<leftarrow> checked_div (- twos) twos;
          let twos = quotient + 1;
          let prod_0 = prod_0 OR (prod_1 * twos);
          let iv = (3 * denominator) XOR 2;
          let iv = newton denominator iv;
          let iv = newton denominator iv;
          let iv = newton denominator iv;
          let iv = newton denominator iv;
          let iv = newton denominator iv;
          let iv = newton denominator iv;
          Some (Inr (prod_0 * iv))
        })"

text \<open>\<open>mul_mod\<close> with a zero modulus is not reached, since \<open>mul_div\<close> has returned its error.\<close>

definition mul_div_rounding_up :: "mul_mod \<Rightarrow> u256 \<Rightarrow> u256 \<Rightarrow> u256 \<Rightarrow> (math_error + u256) panics" where
  "mul_div_rounding_up mm a b denominator = do {
     r \<leftarrow> mul_div mm a b denominator;
     Some (and_then r (\<lambda>result.
       if mm a b denominator = 0 then Inr result
       else if result = - 1 then Inl ResultOverflow
       else Inr (result + 1)))
   }"

definition div_rounding_up :: "u256 \<Rightarrow> u256 \<Rightarrow> (math_error + u256) panics" where
  "div_rounding_up a b =
     (if b = 0 then Some (Inl DivideByZero)
      else do {
        quotient \<leftarrow> checked_div a b;
        remainder \<leftarrow> checked_mod a b;
        Some (if remainder > 0 then if quotient = - 1 then Inl ResultOverflow else Inr (quotient + 1) else Inr quotient)
      })"

text \<open>The loop of \<open>sqrt\<close>; every round makes \<open>z\<close> smaller.\<close>

function sqrt_loop :: "u256 \<Rightarrow> u256 \<Rightarrow> u256 \<Rightarrow> u256 panics" where
  "sqrt_loop x z y =
     (if y < z then
        (let z = y in case checked_div x z of None \<Rightarrow> None | Some q \<Rightarrow> sqrt_loop x z (drop_bit 1 (q + z)))
      else Some z)"
  by pat_completeness auto
termination
  by (relation "measure (\<lambda>(x, z, y). unat z)") (auto simp: word_less_nat_alt)

declare sqrt_loop.simps [simp del]

definition isqrt :: "u256 \<Rightarrow> u256 panics" where
  "isqrt x = (if x = 0 then Some 0 else if x = 1 then Some 1 else sqrt_loop x x (drop_bit 1 (x + 1)))"

definition truncate_to_u128 :: "u256 \<Rightarrow> u128" where
  "truncate_to_u128 value = ucast (value AND mask 128)"


section \<open>Bits and liquidity\<close>

text \<open>\<open>leading_zeros\<close> and \<open>trailing_zeros\<close> count the zeros above and below the set bits.\<close>

definition leading_zeros :: "u256 \<Rightarrow> nat" where
  "leading_zeros x = length (takeWhile (\<lambda>i. \<not> bit x (255 - i)) [0..<256])"

definition trailing_zeros :: "u256 \<Rightarrow> nat" where
  "trailing_zeros x = length (takeWhile (\<lambda>i. \<not> bit x i) [0..<256])"

definition most_significant_bit :: "u256 \<Rightarrow> int" where
  "most_significant_bit x = (if x = 0 then 0 else 255 - int (leading_zeros x))"

definition least_significant_bit :: "u256 \<Rightarrow> int" where
  "least_significant_bit x = (if x = 0 then 0 else int (trailing_zeros x))"

text \<open>Signed integers are integers with the wrap-around written out; \<open>word_of_int\<close> is the cast to an unsigned word.\<close>

definition liquidity_math_add :: "u128 \<Rightarrow> int \<Rightarrow> u128 panics" where
  "liquidity_math_add x y =
     (if y < 0 then
        let delta = word_of_int (- y); z = x - delta in if z < x then Some z else None
      else
        let delta = word_of_int y; z = x + delta in if z \<ge> x then Some z else None)"

definition MIN_TICK :: int where
  "MIN_TICK = - 887272"

definition MAX_TICK :: int where
  "MAX_TICK = - MIN_TICK"

definition tick_spacing_to_max_liquidity_per_tick :: "int \<Rightarrow> u128 panics" where
  "tick_spacing_to_max_liquidity_per_tick tick_spacing =
     (if tick_spacing = 0 then None
      else
        let min_tick = (MIN_TICK sdiv tick_spacing) * tick_spacing;
            max_tick = (MAX_TICK sdiv tick_spacing) * tick_spacing;
            num_ticks = (max_tick - min_tick) sdiv tick_spacing + 1
        in checked_div (- 1) (word_of_int num_ticks))"

section \<open>The product and quotient of 512 bits\<close>

text \<open>The high word of a product, from its value modulo \<open>2 ^ 256 - 1\<close>.\<close>

lemma high_word_nat:
  fixes P :: nat
  assumes "P = p1 * 2 ^ 256 + p0" "p0 < 2 ^ 256" "p1 < 2 ^ 256 - 1"
  shows "P mod (2 ^ 256 - 1) = (if p1 + p0 < 2 ^ 256 - 1 then p1 + p0 else p1 + p0 - (2 ^ 256 - 1))"
proof -
  have "P = p1 * (2 ^ 256 - 1) + (p1 + p0)" using assms(1) by simp
  then have "P mod (2 ^ 256 - 1) = (p1 + p0) mod (2 ^ 256 - 1)" by (metis mod_mult_self3)
  moreover have "(p1 + p0) mod (2 ^ 256 - 1) = p1 + p0 - (2 ^ 256 - 1)" if "\<not> p1 + p0 < 2 ^ 256 - 1"
    using that assms by (simp add: le_mod_geq)
  ultimately show ?thesis by simp
qed

lemma unat_max_256 [simp]: "unat (- 1 :: u256) = 2 ^ 256 - 1"
  by (simp add: unsigned_minus_1_eq_mask mask_eq_exp_minus_1)

lemma u256_bound: "unat (a :: u256) < 2 ^ 256"
  using unsigned_less [of a, where ?'a = nat] by simp

lemma product_words:
  "unat (a :: u256) * unat b = (unat a * unat b div 2 ^ 256) * 2 ^ 256 + unat (a * b)"
  by (simp add: unat_word_ariths)

lemma product_high_bound: "unat (a :: u256) * unat (b :: u256) div 2 ^ 256 < 2 ^ 256 - 1"
proof -
  have "unat a \<le> 2 ^ 256 - 1" "unat b \<le> 2 ^ 256 - 1" using u256_bound [of a] u256_bound [of b] by simp_all
  then have "unat a * unat b \<le> (2 ^ 256 - 1) * (2 ^ 256 - 1)" by (rule mult_le_mono)
  also have "\<dots> < (2 ^ 256 - 1) * 2 ^ 256" by simp
  finally show ?thesis by (simp add: div_less_iff_less_mult)
qed

lemma high_word:
  assumes "mul_mod_spec mm"
  shows "mm a b (- 1) - a * b - (if mm a b (- 1) < a * b then 1 else 0) = of_nat (unat a * unat b div 2 ^ 256)"
proof -
  let ?p1 = "unat a * unat b div 2 ^ 256" and ?p0 = "unat (a * b)"
  have p0: "?p0 < 2 ^ 256" by (rule u256_bound)
  have m: "unat (mm a b (- 1)) = (if ?p1 + ?p0 < 2 ^ 256 - 1 then ?p1 + ?p0 else ?p1 + ?p0 - (2 ^ 256 - 1))"
    using assms high_word_nat [OF product_words p0 product_high_bound] by (simp add: mul_mod_spec_def)
  have word: "mm a b (- 1) = of_nat (unat (mm a b (- 1)))" by simp
  show ?thesis
  proof (cases "?p1 + ?p0 < 2 ^ 256 - 1")
    case True
    then have "\<not> mm a b (- 1) < a * b" using m by (simp add: word_less_nat_alt)
    moreover have "mm a b (- 1) = of_nat (?p1 + ?p0)" using m True word by simp
    ultimately show ?thesis by simp
  next
    case False
    then have "mm a b (- 1) < a * b" using m p0 product_high_bound [of a b] by (simp add: word_less_nat_alt)
    moreover have "mm a b (- 1) = of_nat (?p1 + ?p0 - (2 ^ 256 - 1))" using m False word by presburger
    moreover have "of_nat (?p1 + ?p0 - (2 ^ 256 - 1)) = (of_nat ?p1 + of_nat ?p0 - of_nat (2 ^ 256 - 1) :: u256)"
      using False by (simp only: of_nat_diff of_nat_add not_less)
    moreover have "(of_nat (2 ^ 256 - 1) :: u256) = - 1" by simp
    ultimately show ?thesis by simp
  qed
qed

section \<open>Inverses of odd numbers\<close>

lemma newton_doubles:
  assumes "(2 :: u256) ^ j dvd d * iv - 1"
  shows "2 ^ (2 * j) dvd d * newton d iv - 1"
proof -
  have "d * newton d iv - 1 = - ((d * iv - 1) * (d * iv - 1))" by (simp add: newton_def algebra_simps)
  moreover have "2 ^ (2 * j) dvd (d * iv - 1) * (d * iv - 1)"
    using mult_dvd_mono [OF assms assms] by (simp add: mult_2 power_add)
  ultimately show ?thesis by simp
qed


lemma seed_inverse:
  assumes "odd (d :: u256)"
  shows "2 ^ 4 dvd d * ((3 * d) XOR 2) - 1"
proof -
  let ?D = "uint d" and ?E = "uint ((3 * d) XOR 2)"
  have "?E mod 16 = take_bit 4 (uint (3 * d)) XOR 2"
    using take_bit_xor [of 4 "uint (3 * d)" 2] by (simp add: unsigned_xor_eq take_bit_eq_mod)
  also have "take_bit 4 (uint (3 * d)) = 3 * (?D mod 16) mod 16"
    by (simp add: uint_word_ariths take_bit_eq_mod mod_mod_cancel mod_simps)
  finally have e: "?E mod 16 = (3 * (?D mod 16) mod 16) XOR 2" .
  have "odd ?D" using assms by transfer (simp add: even_take_bit_eq)
  then have "odd (?D mod 16)" by presburger
  moreover have "?D mod 16 \<in> {0 .. 15}" by simp
  ultimately have r: "?D mod 16 \<in> {1, 3, 5, 7, 9, 11, 13, 15}" by (simp; presburger)
  have "(?D * ?E - 1) mod 16 = ((?D mod 16) * (?E mod 16) - 1) mod 16" by (metis mod_mult_eq mod_diff_left_eq)
  also have "\<dots> = 0" unfolding e using r by auto
  finally have "16 dvd ?D * ?E - 1" by presburger
  then have "(of_int 16 :: u256) dvd of_int (?D * ?E - 1)" by (metis dvd_def of_int_mult)
  then show ?thesis by simp
qed

lemma newton_six: "(newton d ^^ 6) x = newton d (newton d (newton d (newton d (newton d (newton d x)))))"
  by (simp add: numeral_eq_Suc)

lemma newton_inverse:
  assumes "odd (d :: u256)" "iv = (newton d ^^ 6) ((3 * d) XOR 2)"
  shows "d * iv = 1"
proof -
  note steps = newton_doubles
  have "2 ^ 256 dvd d * iv - 1"
    using steps [OF steps [OF steps [OF steps [OF steps [OF steps [OF seed_inverse [OF assms(1)]]]]]]]
    by (simp add: assms(2) numeral_eq_Suc)
  moreover have "(2 :: u256) ^ 256 = 0" using word_exp_length_eq_0 [where ?'a = 256] by simp
  ultimately have "0 dvd d * iv - 1" by metis
  then show ?thesis by simp
qed

section \<open>The power of two in a number\<close>

lemma odd_part:
  assumes "(n :: nat) \<noteq> 0"
  obtains k m where "n = 2 ^ k * m" "odd m"
  using assms
proof (induction n arbitrary: thesis rule: less_induct)
  case (less n)
  show ?case
  proof (cases "odd n")
    case True
    then show ?thesis using less.prems(1) [of 0 n] by simp
  next
    case False
    then obtain h where h: "n = 2 * h" by (auto elim: evenE)
    with less.prems(2) obtain k m where "h = 2 ^ k * m" "odd m" using less.IH [of h] by auto
    with h show ?thesis using less.prems(1) [of "Suc k" m] by simp
  qed
qed

lemma lowest_bit_nat:
  assumes "odd (m :: nat)"
  shows "(\<not> odd ((2 ^ k * m - 1) div 2 ^ n) \<and> odd (2 ^ k * m div 2 ^ n)) \<longleftrightarrow> n = k"
proof -
  obtain h where h: "m = 2 * h + 1" using assms by (auto elim: oddE)
  have "2 ^ k * m - 1 = (2 ^ k - 1) + (2 * h) * 2 ^ k" by (simp add: h algebra_simps)
  moreover have "(2 ^ k - 1 + (2 * h) * 2 ^ k) div 2 ^ k = 2 * h + (2 ^ k - 1) div (2 ^ k :: nat)" by (rule div_mult_self1) simp
  ultimately have low: "(2 ^ k * m - 1) div 2 ^ k = 2 * h" by simp
  consider "n < k" | "n = k" | "k < n" by linarith
  then show ?thesis
  proof cases
    case 1
    then obtain i where "k = n + Suc i" using less_iff_Suc_add by auto
    then show ?thesis by (simp add: power_add mult.assoc)
  next
    case 2
    from 2 low assms show ?thesis by simp
  next
    case 3
    then obtain i where i: "n = k + Suc i" using less_iff_Suc_add by auto
    have split: "x div 2 ^ n = x div 2 ^ k div 2 div 2 ^ i" for x :: nat by (simp add: i power_add mult.assoc mult.left_commute flip: div_mult2_eq)
    have "(2 ^ k * m - 1) div 2 ^ n = h div 2 ^ i" unfolding split low by simp
    moreover have "2 ^ k * m div 2 ^ n = h div 2 ^ i" unfolding split by (simp add: h)
    ultimately show ?thesis using 3 by simp
  qed
qed

lemma lowest_bit:
  assumes "unat d = 2 ^ k * m" "odd m"
  shows "(- d) AND d = (2 ^ k :: u256)"
proof (rule bit_word_eqI)
  fix n assume n: "n < LENGTH(256)"
  have "d \<noteq> 0" using assms by auto
  then have "unat (d - 1) = 2 ^ k * m - 1" using assms(1) by (simp add: unat_minus_one)
  moreover have w: "bit w n \<longleftrightarrow> odd (unat w div 2 ^ n)" for w :: u256
  proof -
    have "bit w n \<longleftrightarrow> bit (unat w) n" using n by (simp add: bit_unsigned_iff)
    then show ?thesis by (simp only: bit_iff_odd)
  qed
  ultimately have "bit (d - 1) n \<longleftrightarrow> odd ((2 ^ k * m - 1) div 2 ^ n)" "bit d n \<longleftrightarrow> odd (2 ^ k * m div 2 ^ n)"
    using assms(1) by simp_all
  then have "\<not> bit (d - 1) n \<and> bit d n \<longleftrightarrow> n = k" using lowest_bit_nat [OF assms(2), of k n] by blast
  then show "bit ((- d) AND d) n \<longleftrightarrow> bit (2 ^ k :: u256) n" using n by (auto simp: bit_and_iff bit_minus_iff bit_exp_iff)
qed


section \<open>Exact division\<close>

lemma of_nat_unat_256 [simp]: "(of_nat (unat (w :: u256)) :: u256) = w"
  by simp

text \<open>Subtraction of a word from a number of two words, with the borrow.\<close>

lemma subtract_two_words:
  fixes p0 r :: u256
  assumes "P = P1 * 2 ^ 256 + unat p0" "unat r \<le> P"
  shows "unat (p0 - r) = (P - unat r) mod 2 ^ 256"
    and "of_nat P1 - (if r > p0 then 1 else 0) = (of_nat ((P - unat r) div 2 ^ 256) :: u256)"
proof -
  have zero: "(of_nat (2 ^ 256) :: u256) = 0" using word_exp_length_eq_0 [where ?'a = 256] by simp
  have p0: "unat p0 < 2 ^ 256" and r: "unat r < 2 ^ 256" by (rule u256_bound)+
  have "of_nat (P - unat r) = (of_nat P1 * of_nat (2 ^ 256) + of_nat (unat p0) - of_nat (unat r) :: u256)"
    using assms by (simp only: of_nat_diff of_nat_add of_nat_mult)
  then have "p0 - r = of_nat (P - unat r)" by (simp only: zero of_nat_unat_256) simp
  then show "unat (p0 - r) = (P - unat r) mod 2 ^ 256" by (simp add: unat_of_nat)
  show "of_nat P1 - (if r > p0 then 1 else 0) = (of_nat ((P - unat r) div 2 ^ 256) :: u256)"
  proof (cases "r > p0")
    case False
    then have "P - unat r = P1 * 2 ^ 256 + (unat p0 - unat r)" using assms(1) by (simp add: word_less_nat_alt)
    then have "(P - unat r) div 2 ^ 256 = P1" using p0 by simp
    with False show ?thesis by simp
  next
    case True
    then have "P1 \<noteq> 0" using assms by (auto simp: word_less_nat_alt)
    then obtain h where h: "P1 = Suc h" by (auto simp: gr0_conv_Suc)
    then have "P - unat r = h * 2 ^ 256 + (2 ^ 256 + unat p0 - unat r)" using assms(1) r by simp
    moreover have "2 ^ 256 + unat p0 - unat r < 2 ^ 256" using True p0 by (simp add: word_less_nat_alt)
    ultimately have "(P - unat r) div 2 ^ 256 = h" by simp
    with True h show ?thesis by simp
  qed
qed

text \<open>Division of a number of two words by a power of two, modulo the word size.\<close>

lemma unat_power_256:
  assumes "k < 256"
  shows "unat (2 ^ k :: u256) = 2 ^ k"
proof -
  have "(2 :: nat) ^ k < 2 ^ 256" using assms by (rule power_strict_increasing) simp
  then have "unat (of_nat (2 ^ k) :: u256) = 2 ^ k" by (simp only: unat_of_nat) simp
  then show ?thesis by simp
qed

lemma div_split_nat:
  assumes "k \<le> w"
  shows "N mod 2 ^ w div 2 ^ k = N div 2 ^ k mod 2 ^ (w - k)"
    and "N div 2 ^ k mod 2 ^ (w - k) + N div 2 ^ w * 2 ^ (w - k) = (N :: nat) div 2 ^ k"
proof -
  show "N mod 2 ^ w div 2 ^ k = N div 2 ^ k mod 2 ^ (w - k)"
    using drop_bit_take_bit [of k w N] by (simp add: drop_bit_eq_div take_bit_eq_mod)
  have "(2 :: nat) ^ w = 2 ^ k * 2 ^ (w - k)" using assms by (simp flip: power_add)
  then have "N div 2 ^ w = N div 2 ^ k div 2 ^ (w - k)" by (simp add: div_mult2_eq)
  then show "N div 2 ^ k mod 2 ^ (w - k) + N div 2 ^ w * 2 ^ (w - k) = N div 2 ^ k" by (simp only: mod_div_mult_eq)
qed

lemma twos_flipped:
  assumes "k < 256"
  shows "(- (2 ^ k)) div (2 ^ k) + 1 = (2 ^ (256 - k) :: u256)"
proof -
  have pow: "(2 :: nat) ^ 256 = 2 ^ (256 - k) * 2 ^ k" using assms by (simp flip: power_add)
  have "unat (0 - 2 ^ k :: u256) = unat (0 :: u256) + 2 ^ LENGTH(256) - unat (2 ^ k :: u256)"
    using unat_power_256 [OF assms] by (subst unat_sub_if') simp
  then have m: "unat (- (2 ^ k :: u256)) = 2 ^ 256 - 2 ^ k" by (simp add: unat_power_256 [OF assms])
  have "unat ((- (2 ^ k)) div (2 ^ k) :: u256) = (2 ^ 256 - 2 ^ k) div 2 ^ k"
    by (simp only: unat_div m unat_power_256 [OF assms])
  also have "\<dots> = (2 ^ (256 - k) - 1) * 2 ^ k div 2 ^ k" unfolding pow by (simp only: diff_mult_distrib) simp
  also have "\<dots> = 2 ^ (256 - k) - 1" by simp
  finally have "(- (2 ^ k)) div (2 ^ k) = (of_nat (2 ^ (256 - k) - 1) :: u256)" by (metis of_nat_unat_256)
  then show ?thesis by (simp add: of_nat_diff)
qed

lemma or_shifted:
  assumes "x < 2 ^ w" "w \<le> 256"
  shows "of_nat x OR y * 2 ^ w = (of_nat x + y * 2 ^ w :: u256)"
proof -
  have "of_nat x AND y * 2 ^ w = (0 :: u256)"
  proof (rule bit_word_eqI)
    fix n assume n: "n < LENGTH(256)"
    have "\<not> bit (of_nat x :: u256) n" if "w \<le> n"
    proof -
      have "x < 2 ^ n" using assms(1) that by (meson less_le_trans one_le_numeral power_increasing)
      then have "\<not> bit x n" by (simp add: bit_iff_odd)
      then show ?thesis by (simp add: bit_of_nat_iff)
    qed
    then show "bit (of_nat x AND y * 2 ^ w :: u256) n \<longleftrightarrow> bit (0 :: u256) n"
      by (auto simp: bit_and_iff bit_push_bit_iff simp flip: push_bit_eq_mult)
  qed
  then show ?thesis by (simp add: disjunctive_add_eq_or)
qed

lemma shift_two_words:
  fixes n0 :: u256
  assumes "k < 256" "unat n0 = N mod 2 ^ 256"
  shows "(n0 div 2 ^ k) OR (of_nat (N div 2 ^ 256) * ((- (2 ^ k)) div 2 ^ k + 1)) = of_nat (N div 2 ^ k)"
proof -
  have k: "k \<le> 256" using assms(1) by simp
  note split = div_split_nat [OF k, of N]
  have lo: "n0 div 2 ^ k = of_nat (N div 2 ^ k mod 2 ^ (256 - k))"
    using assms(2) unat_power_256 [OF assms(1)] split(1) by (metis of_nat_unat_256 unat_div)
  have "n0 div 2 ^ k OR of_nat (N div 2 ^ 256) * 2 ^ (256 - k) = of_nat (N div 2 ^ k mod 2 ^ (256 - k)) + of_nat (N div 2 ^ 256) * 2 ^ (256 - k)"
    unfolding lo by (rule or_shifted) simp_all
  also have "\<dots> = of_nat (N div 2 ^ k mod 2 ^ (256 - k) + N div 2 ^ 256 * 2 ^ (256 - k))" by simp
  finally show ?thesis unfolding twos_flipped [OF assms(1)] split(2) .
qed


text \<open>The steps of \<open>mul_div\<close> after the check, on a product of two words and its remainder.\<close>

lemma exact_division:
  fixes p0 r d :: u256
  assumes P: "P = P1 * 2 ^ 256 + unat p0" and r: "unat r = P mod unat d" and d: "P1 < unat d"
  defines "twos \<equiv> (- d) AND d"
  defines "od \<equiv> d div twos"
  shows "twos \<noteq> 0" "odd od"
    "((p0 - r) div twos OR ((of_nat P1 - (if r > p0 then 1 else 0)) * ((- twos) div twos + 1))) * (newton od ^^ 6) ((3 * od) XOR 2) =
       of_nat (P div unat d)"
proof -
  have "unat d \<noteq> 0" using d by simp
  then obtain k m where km: "unat d = 2 ^ k * m" "odd m" by (rule odd_part)
  have "(2 :: nat) ^ k \<le> unat d" using km by (auto intro: Suc_leI elim: oddE)
  then have "(2 :: nat) ^ k < 2 ^ 256" using u256_bound [of d] by linarith
  then have k: "k < 256" by (rule power_less_imp_less_exp [rotated]) simp
  have twos: "twos = 2 ^ k" unfolding twos_def by (rule lowest_bit [OF km])
  then show "twos \<noteq> 0" using k by simp
  have "unat od = m" by (simp add: od_def twos unat_div km unat_power_256 [OF k])
  then have od: "od = of_nat m" by (metis of_nat_unat_256)
  show "odd od" using km(2) by (simp add: od even_of_nat_iff)
  have "unat r \<le> P" by (simp add: r)
  note sub = subtract_two_words [OF P this]
  let ?N = "P - unat r"
  have "?N = P div unat d * (2 ^ k * m)" using minus_mod_eq_div_mult [of P "unat d"] by (simp add: r km(1))
  then have "?N div 2 ^ k = P div unat d * m" by simp
  then have "(p0 - r) div twos OR ((of_nat P1 - (if r > p0 then 1 else 0)) * ((- twos) div twos + 1)) = of_nat (P div unat d * m)"
    using shift_two_words [OF k sub(1)] unfolding twos sub(2) by simp
  moreover have "of_nat m * (newton od ^^ 6) ((3 * od) XOR 2) = 1"
    using newton_inverse [OF \<open>odd od\<close> refl] by (simp add: od)
  ultimately show "((p0 - r) div twos OR ((of_nat P1 - (if r > p0 then 1 else 0)) * ((- twos) div twos + 1))) * (newton od ^^ 6) ((3 * od) XOR 2) =
       of_nat (P div unat d)" by (simp add: mult.assoc)
qed

lemma quotient_overflows:
  fixes P :: nat
  assumes "P = P1 * 2 ^ 256 + p0" "p0 < 2 ^ 256" "d \<noteq> 0"
  shows "2 ^ 256 \<le> P div d \<longleftrightarrow> d \<le> P1"
proof -
  have "2 ^ 256 \<le> P div d \<longleftrightarrow> d * 2 ^ 256 \<le> P" using assms(3) by (simp add: less_eq_div_iff_mult_less_eq mult.commute)
  also have "\<dots> \<longleftrightarrow> d \<le> P1"
  proof
    assume "d * 2 ^ 256 \<le> P"
    then have "d * 2 ^ 256 < Suc P1 * 2 ^ 256" using assms(1,2) by simp
    then show "d \<le> P1" by simp
  qed (use assms(1) mult_le_mono1 in \<open>auto intro: trans_le_add1\<close>)
  finally show ?thesis .
qed

lemma mul_modD: "mul_mod_spec mm \<Longrightarrow> unat d \<noteq> 0 \<Longrightarrow> unat (mm a b d) = unat a * unat b mod unat d"
  by (auto simp: mul_mod_spec_def unat_eq_0)

lemma mul_div_eq:
  assumes "mul_mod_spec mm"
  shows "mul_div mm a b d =
    Some (if unat d = 0 \<or> 2 ^ 256 \<le> unat a * unat b div unat d then Inl ResultOverflow else Inr (of_nat (unat a * unat b div unat d)))"
proof -
  let ?P = "unat a * unat b" and ?p1 = "unat a * unat b div 2 ^ 256"
  have p1: "unat (of_nat ?p1 :: u256) = ?p1"
    using product_high_bound [of a b] by (simp add: unat_of_nat)
  note P = product_words [of a b]
  have le: "d \<le> of_nat ?p1 \<longleftrightarrow> unat d \<le> ?p1" by (simp only: word_le_nat_alt p1)
  have over: "d \<le> of_nat ?p1 \<longleftrightarrow> unat d = 0 \<or> 2 ^ 256 \<le> ?P div unat d"
    using quotient_overflows [OF P u256_bound] le by (metis le0)
  show ?thesis
  proof (cases "d \<le> of_nat ?p1")
    case True
    with over show ?thesis unfolding mul_div_def Let_def high_word [OF assms] by simp
  next
    case False
    then have less: "?p1 < unat d" by (simp only: le not_le)
    then have "unat d \<noteq> 0" by simp
    note division = exact_division [OF P mul_modD [OF assms this] less]
    from False over division show ?thesis
      unfolding mul_div_def Let_def high_word [OF assms] by (simp add: checked_div_def newton_six)
  qed
qed


text \<open>Division that rounds up.\<close>

definition ceil_div :: "nat \<Rightarrow> nat \<Rightarrow> nat" where
  "ceil_div n d = (n + d - 1) div d"

lemma ceil_div_eq:
  assumes "0 < d"
  shows "ceil_div n d = (if n mod d = 0 then n div d else n div d + 1)"
proof -
  obtain q r where n: "n = q * d + r" "r < d" using assms by (metis div_mult_mod_eq mod_less_divisor)
  then have q: "n div d = q" "n mod d = r" by simp_all
  show ?thesis
  proof (cases r)
    case 0
    have "q * d + d - 1 = (d - 1) + q * d" using assms by simp
    also have "\<dots> div d = q + (d - 1) div d" using assms by (intro div_mult_self1) simp
    finally show ?thesis using n q 0 assms by (simp add: ceil_div_def)
  next
    case (Suc h)
    have "n + d - 1 = h + Suc q * d" using n Suc by simp
    also have "\<dots> div d = Suc q + h div d" using assms by (intro div_mult_self1) simp
    finally show ?thesis using n(2) q Suc by (simp add: ceil_div_def)
  qed
qed

lemma mul_div_rounding_up_eq:
  assumes "mul_mod_spec mm"
  shows "mul_div_rounding_up mm a b d =
    (let q = ceil_div (unat a * unat b) (unat d) in
     Some (if unat d = 0 \<or> 2 ^ 256 \<le> q then Inl ResultOverflow else Inr (of_nat q)))"
proof (cases "unat d = 0")
  case True
  then show ?thesis by (simp add: mul_div_rounding_up_def mul_div_eq [OF assms])
next
  case False
  let ?P = "unat a * unat b"
  have ceil: "ceil_div ?P (unat d) = (if ?P mod unat d = 0 then ?P div unat d else ?P div unat d + 1)"
    using False by (simp add: ceil_div_eq)
  have "mm a b d = 0 \<longleftrightarrow> unat (mm a b d) = 0" by (simp add: unat_eq_0)
  then have rem: "mm a b d = 0 \<longleftrightarrow> ?P mod unat d = 0" by (simp only: mul_modD [OF assms False])
  show ?thesis
  proof (cases "2 ^ 256 \<le> ?P div unat d")
    case True
    then show ?thesis by (simp add: mul_div_rounding_up_def mul_div_eq [OF assms] ceil Let_def)
  next
    case le: False
    then have "(of_nat (?P div unat d) :: u256) = - 1 \<longleftrightarrow> ?P div unat d = 2 ^ 256 - 1"
      unfolding word_unat_eq_iff unat_max_256 by (simp add: unat_of_nat)
    then show ?thesis
      using le False by (auto simp: mul_div_rounding_up_def mul_div_eq [OF assms] ceil rem Let_def)
  qed
qed

lemma div_rounding_up_eq:
  "div_rounding_up a b = Some (if b = 0 then Inl DivideByZero else Inr (of_nat (ceil_div (unat a) (unat b))))"
proof (cases "b = 0")
  case False
  then have b: "0 < unat b" by (simp add: unat_gt_0)
  note ceil = ceil_div_eq [OF b, of "unat a"]
  have "a mod b = 0 \<longleftrightarrow> unat a mod unat b = 0" by (metis unat_eq_0 unat_mod)
  moreover have "a div b = of_nat (unat a div unat b)" by (metis of_nat_unat_256 unat_div)
  moreover have "a div b \<noteq> - 1" if "unat a mod unat b \<noteq> 0"
  proof
    assume "a div b = - 1"
    then have "unat a div unat b = 2 ^ 256 - 1" by (metis unat_div unat_max_256)
    moreover have "1 < unat b" using that b by (cases "unat b = 1") auto
    then have "unat a div unat b \<le> unat a div 2" by (intro div_le_mono2) simp_all
    ultimately show False using u256_bound [of a] by simp
  qed
  ultimately show ?thesis using False
    by (auto simp: div_rounding_up_def checked_div_def checked_mod_def ceil word_greater_zero_iff)
qed (simp add: div_rounding_up_def)


section \<open>Integer square roots\<close>

lemma newton_sqrt_above:
  fixes x z :: nat
  assumes "0 < z"
  shows "x < ((x div z + z) div 2 + 1) ^ 2"
proof -
  let ?q = "x div z" and ?y = "(x div z + z) div 2"
  have "x < (?q + 1) * z" using assms by (simp add: dividend_less_div_times)
  then have "4 * x < 4 * ((?q + 1) * z)" by simp
  also have "\<dots> \<le> (?q + 1 + z) ^ 2"
  proof -
    have "int (4 * ((?q + 1) * z)) \<le> int ((?q + 1 + z) ^ 2)"
      using zero_le_power2 [of "int (?q + 1) - int z"] by (simp add: power2_eq_square algebra_simps)
    then show ?thesis by linarith
  qed
  also have "\<dots> \<le> (2 * (?y + 1)) ^ 2" by (rule power_mono) simp_all
  finally show ?thesis by (simp add: power2_eq_square)
qed

lemma newton_sqrt_small:
  fixes x z :: nat
  assumes "0 < z" "z \<le> x"
  shows "x div z + z \<le> x + 1" "1 \<le> (x div z + z) div 2"
proof -
  have q: "1 \<le> x div z" using assms by (simp add: div_greater_zero_iff Suc_le_eq)
  obtain a b where ab: "x div z = Suc a" "z = Suc b" using q assms(1) by (metis Suc_le_D One_nat_def gr0_implies_Suc)
  have "Suc a + Suc b \<le> Suc a * Suc b + 1" by simp
  moreover have "x div z * z \<le> x" by simp
  then have "Suc a * Suc b \<le> x" using ab by metis
  moreover have "x div z + z = Suc a + Suc b" using ab by metis
  ultimately show "x div z + z \<le> x + 1" by linarith
  show "1 \<le> (x div z + z) div 2" using q assms(1) by linarith
qed

lemma sqrt_loop_floor:
  assumes "x \<noteq> - 1" "0 < unat z" "unat z \<le> unat x" "unat x < (unat z + 1) ^ 2" "unat y = (unat x div unat z + unat z) div 2"
  shows "\<exists>r. sqrt_loop x z y = Some r \<and> unat r ^ 2 \<le> unat x \<and> unat x < (unat r + 1) ^ 2"
  using assms
proof (induction x z y rule: sqrt_loop.induct)
  case (1 x z y)
  show ?case
  proof (cases "y < z")
    case False
    then have "unat z \<le> (unat x div unat z + unat z) div 2" using "1.prems"(5) by (simp add: word_less_nat_alt)
    then have "unat z \<le> unat x div unat z" by linarith
    then have "unat z ^ 2 \<le> unat x" using "1.prems"(2) by (simp add: less_eq_div_iff_mult_less_eq power2_eq_square)
    then show ?thesis using False "1.prems"(4) by (simp add: sqrt_loop.simps)
  next
    case True
    note new = newton_sqrt_small [OF "1.prems"(2,3), folded "1.prems"(5)]
    have y: "0 < unat y" "unat y \<le> unat x" "unat x < (unat y + 1) ^ 2"
      using new "1.prems"(3) True newton_sqrt_above [OF "1.prems"(2), of "unat x", folded "1.prems"(5)] by (auto simp: word_less_nat_alt)
    then have "y \<noteq> 0" by auto
    have "unat x < 2 ^ 256 - 1" using u256_bound [of x] "1.prems"(1) unat_max_256 by (metis diff_Suc_1 less_antisym unsigned_word_eqI less_imp_Suc_add)
    then have "unat x div unat y + unat y < 2 ^ 256" using newton_sqrt_small(1) [OF y(1,2)] by linarith
    then have "unat (drop_bit 1 (x div y + y)) = (unat x div unat y + unat y) div 2"
      by (simp add: unsigned_drop_bit_eq drop_bit_eq_div unat_word_ariths unat_div)
    then show ?thesis using "1.IH" [OF True refl] "1.prems"(1) y True \<open>y \<noteq> 0\<close>
      by (simp add: sqrt_loop.simps [of x z y] checked_div_def)
  qed
qed

lemma sqrt_floor:
  assumes "x \<noteq> - 1"
  shows "\<exists>r. isqrt x = Some r \<and> unat r ^ 2 \<le> unat x \<and> unat x < (unat r + 1) ^ 2"
proof (cases "x = 0 \<or> x = 1")
  case True
  then show ?thesis by (auto simp: isqrt_def power2_eq_square)
next
  case False
  then have x: "0 < unat x" by (simp add: unat_gt_0)
  have "unat x < 2 ^ 256 - 1" using u256_bound [of x] assms unat_max_256 by (metis diff_Suc_1 less_antisym unsigned_word_eqI less_imp_Suc_add)
  then have "unat (drop_bit 1 (x + 1)) = (unat x div unat x + unat x) div 2"
    using x by (simp add: unsigned_drop_bit_eq drop_bit_eq_div unat_word_ariths)
  moreover have "unat x < (unat x + 1) ^ 2" by (simp add: power2_eq_square)
  ultimately show ?thesis using sqrt_loop_floor [OF assms x] False by (simp add: isqrt_def)
qed

lemma sqrt_max_panics: "isqrt (- 1) = None"
  by (simp add: isqrt_def sqrt_loop.simps checked_div_def word_less_nat_alt)


section \<open>Bits\<close>

lemma unat_of_nat_256: "n < 2 ^ 256 \<Longrightarrow> unat (of_nat n :: u256) = n"
  by (simp add: unat_of_nat)

lemma drop_bit_of_nat_256:
  assumes "n < 2 ^ 256"
  shows "drop_bit k (of_nat n :: u256) = of_nat (n div 2 ^ k)"
proof -
  have "unat (drop_bit k (of_nat n :: u256)) = drop_bit k (take_bit LENGTH(256) n)"
    using unat_of_nat_256 [OF assms] by (simp only: unsigned_drop_bit_eq)
  also have "\<dots> = n div 2 ^ k" using assms by (simp add: drop_bit_eq_div take_bit_nat_eq_self)
  finally show ?thesis by (metis of_nat_unat_256)
qed

lemma first_index:
  assumes "\<exists>i < n. P i"
  shows "length (takeWhile (\<lambda>i. \<not> P i) [0..<n]) < n \<and> P (length (takeWhile (\<lambda>i. \<not> P i) [0..<n])) \<and>
    (\<forall>i < length (takeWhile (\<lambda>i. \<not> P i) [0..<n]). \<not> P i)"
proof -
  let ?k = "length (takeWhile (\<lambda>i. \<not> P i) [0..<n])"
  have "takeWhile (\<lambda>i. \<not> P i) [0..<n] \<noteq> [0..<n]" using assms by (auto simp: takeWhile_eq_all_conv)
  then have k: "?k < n" by (metis length_takeWhile_le length_upt diff_zero le_neq_implies_less takeWhile_eq_take take_all)
  moreover have "P ?k" using nth_length_takeWhile [of "\<lambda>i. \<not> P i" "[0..<n]"] k by simp
  moreover have "\<not> P i" if "i < ?k" for i
    using nth_mem [OF that] takeWhile_nth [OF that] that k set_takeWhileD by (metis add_0 diff_zero length_upt less_trans nth_upt)
  ultimately show ?thesis by blast
qed

lemma word_has_bit: "(x :: u256) \<noteq> 0 \<Longrightarrow> \<exists>i < 256. bit x i"
proof (rule ccontr)
  assume "x \<noteq> 0" "\<not> (\<exists>i < 256. bit x i)"
  moreover from this(2) have "x = 0" by (intro bit_word_eqI) auto
  ultimately show False by simp
qed

lemma most_significant_bit_iff:
  assumes "x \<noteq> 0"
  shows "\<exists>m < 256. most_significant_bit x = int m \<and> bit x m \<and> (\<forall>i > m. \<not> bit x i)"
proof -
  obtain i where "i < 256" "bit x i" using word_has_bit [OF assms] by auto
  then have "\<exists>j < 256. bit x (255 - j)" by (intro exI [of _ "255 - i"]) simp
  then have z: "leading_zeros x < 256" "bit x (255 - leading_zeros x)" "\<forall>j < leading_zeros x. \<not> bit x (255 - j)"
    unfolding leading_zeros_def using first_index [of 256 "\<lambda>j. bit x (255 - j)"] by blast+
  have "\<not> bit x i" if "255 - leading_zeros x < i" for i
  proof (cases "i < 256")
    case True
    then have "255 - i < leading_zeros x" "255 - (255 - i) = i" using that z(1) by linarith+
    then show ?thesis using z(3) by metis
  next
    case False
    then show ?thesis using bit_imp_le_length [of x i] by auto
  qed
  then show ?thesis using z(1,2) assms
    by (intro exI [of _ "255 - leading_zeros x"]) (auto simp: most_significant_bit_def of_nat_diff)
qed

lemma least_significant_bit_iff:
  assumes "x \<noteq> 0"
  shows "\<exists>m < 256. least_significant_bit x = int m \<and> bit x m \<and> (\<forall>i < m. \<not> bit x i)"
  using first_index [OF word_has_bit [OF assms]] assms
  by (intro exI [of _ "trailing_zeros x"]) (simp add: least_significant_bit_def trailing_zeros_def)

section \<open>Liquidity\<close>

lemma word_sub_less_iff:
  assumes "0 < unat d"
  shows "x - d < x \<longleftrightarrow> unat d \<le> unat (x :: 'a::len word)"
proof -
  have "unat d < 2 ^ LENGTH('a)" by (rule unsigned_less)
  then have "\<not> unat x + 2 ^ LENGTH('a) - unat d < unat x" by linarith
  then show ?thesis using assms by (simp add: word_less_nat_alt unat_sub_if')
qed

lemma word_le_add_iff: "x \<le> x + d \<longleftrightarrow> unat x + unat d < 2 ^ LENGTH('a)" for x :: "'a::len word"
proof -
  have "unat x < 2 ^ LENGTH('a)" "unat d < 2 ^ LENGTH('a)" by (rule unsigned_less)+
  then have "\<not> unat x + unat d < 2 ^ LENGTH('a) \<Longrightarrow> \<not> unat x \<le> unat x + unat d - 2 ^ LENGTH('a)" by linarith
  then show ?thesis by (simp add: word_le_nat_alt unat_plus_if')
qed

lemma unat_word_of_int_u128: "0 \<le> y \<Longrightarrow> y < 2 ^ 128 \<Longrightarrow> unat (word_of_int y :: u128) = nat y"
  by (simp add: unat_eq_nat_uint uint_word_of_int take_bit_eq_mod)

lemma liquidity_math_add_eq:
  assumes "in_i128 y"
  shows "liquidity_math_add x y = (if 0 \<le> int (unat x) + y \<and> int (unat x) + y < 2 ^ 128 then Some (word_of_int (int (unat x) + y)) else None)"
proof -
  have "unat x < 2 ^ LENGTH(128)" by (rule unsigned_less)
  then have "unat x < 2 ^ 128" by simp
  then have x: "int (unat x) < 2 ^ 128" by (simp only: of_nat_less_numeral_power_cancel_iff)
  have range: "- (2 ^ 127) \<le> y" "y < 2 ^ 127" using assms by (simp_all add: in_i128_def i128_min_def i128_max_def)
  show ?thesis
  proof (cases "y < 0")
    case True
    then obtain d where d: "y = - int d" "0 < d" by (metis neg_int_cases)
    have u: "unat (word_of_int (int d) :: u128) = d" using range d by (subst unat_word_of_int_u128) simp_all
    have "x - word_of_int (int d) < x \<longleftrightarrow> d \<le> unat x" using word_sub_less_iff [of "word_of_int (int d)" x] d(2) by (simp only: u)
    moreover have "0 \<le> int (unat x) + y \<longleftrightarrow> d \<le> unat x" "int (unat x) + y < 2 ^ 128" using d x by linarith+
    moreover have "x - word_of_int (int d) = word_of_int (int (unat x) + y)" using d by simp
    ultimately show ?thesis using True d by (simp only: liquidity_math_add_def Let_def if_True minus_minus simp_thms)
  next
    case False
    then obtain d where d: "y = int d" by (metis nonneg_int_cases not_less)
    have u: "unat (word_of_int (int d) :: u128) = d" using range d by (subst unat_word_of_int_u128) simp_all
    have "x \<le> x + word_of_int y \<longleftrightarrow> unat x + d < 2 ^ LENGTH(128)" using word_le_add_iff [of x "word_of_int (int d)"] by (simp only: u d)
    then have "x \<le> x + word_of_int y \<longleftrightarrow> unat x + d < 2 ^ 128" by simp
    moreover have "int (unat x) + y < 2 ^ 128 \<longleftrightarrow> unat x + d < 2 ^ 128"
      unfolding d by (simp only: of_nat_less_numeral_power_cancel_iff flip: of_nat_add)
    moreover have "0 \<le> int (unat x) + y" using d by simp
    moreover have "x + word_of_int y = word_of_int (int (unat x) + y)" by simp
    ultimately show ?thesis using False by (simp only: liquidity_math_add_def Let_def if_False simp_thms)
  qed
qed


section \<open>Properties\<close>

text \<open>C29: The 512-bit product and quotient: with a modular product that does what its documentation says, \<open>mul_div\<close> and
  \<open>mul_div_rounding_up\<close> never panic; they return the quotient of the exact product rounded down and up, or an error exactly when the
  denominator is zero or that quotient does not fit in 256 bits.\<close>

theorem mul_div_exact:
  assumes "mul_mod_spec mm"
  shows "mul_div mm a b d =
      Some (if unat d = 0 \<or> 2 ^ 256 \<le> unat a * unat b div unat d then Inl ResultOverflow
            else Inr (of_nat (unat a * unat b div unat d))) \<and>
    mul_div_rounding_up mm a b d =
      Some (if unat d = 0 \<or> 2 ^ 256 \<le> ceil_div (unat a * unat b) (unat d) then Inl ResultOverflow
            else Inr (of_nat (ceil_div (unat a * unat b) (unat d))))"
  using mul_div_eq [OF assms] mul_div_rounding_up_eq [OF assms] by (simp add: Let_def)

definition sample_mul_mod :: mul_mod where
  "sample_mul_mod a b m = of_nat (unat a * unat b mod unat m)"

lemma sample_mul_mod_spec: "mul_mod_spec sample_mul_mod"
proof -
  have "unat (of_nat (n mod unat m) :: u256) = n mod unat m" if "m \<noteq> 0" for n and m :: u256
  proof -
    have "n mod unat m < unat m" using that by (simp add: unat_gt_0)
    then have "n mod unat m < 2 ^ 256" using u256_bound [of m] by linarith
    then show ?thesis by (simp add: unat_of_nat)
  qed
  then show ?thesis by (simp add: mul_mod_spec_def sample_mul_mod_def)
qed

theorem mul_div_exact_witness:
  "mul_mod_spec sample_mul_mod \<and> mul_div sample_mul_mod (2 ^ 255) 6 (3 * 2 ^ 253) = Some (Inr 8) \<and>
   mul_div_rounding_up sample_mul_mod 7 5 4 = Some (Inr 9) \<and> mul_div sample_mul_mod (2 ^ 255) 2 1 = Some (Inl ResultOverflow)"
  using sample_mul_mod_spec mul_div_exact [OF sample_mul_mod_spec, of "2 ^ 255" 6 "3 * 2 ^ 253"]
    mul_div_exact [OF sample_mul_mod_spec, of 7 5 4] mul_div_exact [OF sample_mul_mod_spec, of "2 ^ 255" 2 1]
  by (simp add: ceil_div_def)

text \<open>C30: The Babylonian square root returns the integer square root of every 256-bit number but the greatest: for that one the first
  step overflows, and the loop divides by zero.\<close>

theorem sqrt_exact:
  "case isqrt x of None \<Rightarrow> x = - 1 | Some r \<Rightarrow> x \<noteq> - 1 \<and> unat r ^ 2 \<le> unat x \<and> unat x < (unat r + 1) ^ 2"
  using sqrt_floor [of x] sqrt_max_panics by (cases "x = - 1") auto

end
