(* ===== verification/Tick_Ratio.thy ===== *)
theory Tick_Ratio
  imports Full_Math Complex_Main
begin

text \<open>
  Prices of ticks (\<open>crates/model/src/defi/tick_map/tick_math.rs\<close>, \<open>get_sqrt_ratio_at_tick\<close>): tick \<open>t\<close> stands for the square root
  of the price \<open>1.0001 ^ t\<close>, a fixed-point number with 96 fractional bits, computed as a product of rounded powers from a table.

  The rounding errors are bounded over the reals: the entries of the table by squaring, each against the next, and the products by
  relative errors. The ratios are strictly increasing in the tick.
\<close>

definition to_u160 :: "u256 \<Rightarrow> u160 panics" where
  "to_u160 v = (if unat v < 2 ^ 160 then Some (ucast v) else None)"

definition MIN_SQRT_RATIO :: u160 where
  "MIN_SQRT_RATIO = 4295128739"

definition MAX_SQRT_RATIO :: u160 where
  "MAX_SQRT_RATIO = 0xfffd8963efd1fc6a506488495d951d5263988d26"

text \<open>The masks of the bits of a tick with their factors.\<close>

definition tick_factors :: "(int \<times> u256) list" where
  "tick_factors =
     [(0x2, 0xfff97272373d413259a46990580e213a),
      (0x4, 0xfff2e50f5f656932ef12357cf3c7fdcc),
      (0x8, 0xffe5caca7e10e4e61c3624eaa0941cd0),
      (0x10, 0xffcb9843d60f6159c9db58835c926644),
      (0x20, 0xff973b41fa98c081472e6896dfb254c0),
      (0x40, 0xff2ea16466c96a3843ec78b326b52861),
      (0x80, 0xfe5dee046a99a2a811c461f1969c3053),
      (0x100, 0xfcbe86c7900a88aedcffc83b479aa3a4),
      (0x200, 0xf987a7253ac413176f2b074cf7815e54),
      (0x400, 0xf3392b0822b70005940c7a398e4b70f3),
      (0x800, 0xe7159475a2c29b7443b29c7fa6e889d9),
      (0x1000, 0xd097f3bdfd2022b8845ad8f792aa5825),
      (0x2000, 0xa9f746462d870fdf8a65dc1f90e061e5),
      (0x4000, 0x70d869a156d2a1b890bb3df62baf32f7),
      (0x8000, 0x31be135f97d08fd981231505542fcfa6),
      (0x10000, 0x9aa508b5b7a84e1c677de54f3e99bc9),
      (0x20000, 0x5d6af8dedb81196699c329225ee604),
      (0x40000, 0x2216e584f5fa1ea926041bedfe98),
      (0x80000, 0x48a170391f7dc42444e8fa2)]"

definition ratio_step :: "int \<Rightarrow> int \<times> u256 \<Rightarrow> u256 \<Rightarrow> u256" where
  "ratio_step abs_tick = (\<lambda>(m, factor) ratio. if abs_tick AND m \<noteq> 0 then drop_bit 128 (ratio * factor) else ratio)"

definition get_sqrt_ratio_at_tick :: "int \<Rightarrow> u160 panics" where
  "get_sqrt_ratio_at_tick tick =
     (if \<not> (MIN_TICK \<le> tick \<and> tick \<le> MAX_TICK) then None
      else
        let abs_tick = \<bar>tick\<bar>;
            ratio = (if abs_tick AND 0x1 \<noteq> 0 then 0xfffcb933bd6fad37aa2d162d1a594001
                     else 0x100000000000000000000000000000000);
            ratio = fold (ratio_step abs_tick) tick_factors ratio
        in do {
          ratio \<leftarrow> (if tick > 0 then checked_div (- 1) ratio else Some ratio);
          to_u160 (drop_bit 32 (ratio + 0xffffffff))
        })"

section \<open>The table\<close>

text \<open>The factors as numbers, and the product of the factors of the bits of \<open>n\<close> below \<open>k\<close>, rounded down after each.\<close>

definition factors :: "nat list" where
  "factors =
     [0xfffcb933bd6fad37aa2d162d1a594001,
      0xfff97272373d413259a46990580e213a,
      0xfff2e50f5f656932ef12357cf3c7fdcc,
      0xffe5caca7e10e4e61c3624eaa0941cd0,
      0xffcb9843d60f6159c9db58835c926644,
      0xff973b41fa98c081472e6896dfb254c0,
      0xff2ea16466c96a3843ec78b326b52861,
      0xfe5dee046a99a2a811c461f1969c3053,
      0xfcbe86c7900a88aedcffc83b479aa3a4,
      0xf987a7253ac413176f2b074cf7815e54,
      0xf3392b0822b70005940c7a398e4b70f3,
      0xe7159475a2c29b7443b29c7fa6e889d9,
      0xd097f3bdfd2022b8845ad8f792aa5825,
      0xa9f746462d870fdf8a65dc1f90e061e5,
      0x70d869a156d2a1b890bb3df62baf32f7,
      0x31be135f97d08fd981231505542fcfa6,
      0x9aa508b5b7a84e1c677de54f3e99bc9,
      0x5d6af8dedb81196699c329225ee604,
      0x2216e584f5fa1ea926041bedfe98,
      0x48a170391f7dc42444e8fa2]"

definition slacks :: "nat list" where
  "slacks = [1, 4, 9, 19, 39, 79, 159, 318, 632, 1249, 2436, 4629, 8359, 13623, 18090, 15949, 6199, 469, 2, 1]"

fun rounded_product :: "nat \<Rightarrow> nat \<Rightarrow> nat" where
  "rounded_product 0 n = 2 ^ 128"
| "rounded_product (Suc k) n = (if bit n k then rounded_product k n * factors ! k div 2 ^ 128 else rounded_product k n)"

fun squares_ok :: "nat list \<Rightarrow> nat list \<Rightarrow> bool" where
  "squares_ok (c # c' # cs) (w # w' # ws) \<longleftrightarrow>
     w \<le> c \<and> (c' - w') * 2 ^ 128 \<le> (c - w) * (c - w) \<and> w' \<le> c' \<and> (c + w) * (c + w) \<le> (c' + w') * 2 ^ 128 \<and> squares_ok (c' # cs) (w' # ws)"
| "squares_ok _ _ \<longleftrightarrow> True"

lemma factors_squares: "squares_ok factors slacks"
  by (simp add: factors_def slacks_def)

lemma factors_precise: "list_all2 (\<lambda>c w. w * 2 ^ 80 \<le> c \<and> c < 2 ^ 128) factors slacks"
  by (simp add: factors_def slacks_def)

lemma table_length [simp]: "length factors = 20" "length slacks = 20"
  by (simp_all add: factors_def slacks_def)

definition inv_base :: real where
  "inv_base = sqrt (10000 / 10001)"

lemma inv_base_bounds: "0 < inv_base" "inv_base < 1" "inv_base \<le> 1 - 1 / 20100"
proof -
  show "0 < inv_base" "inv_base < 1" by (simp_all add: inv_base_def)
  have "sqrt (10000 / 10001) \<le> 1 - 1 / 20100" by (rule real_le_lsqrt) (simp_all add: power2_eq_square)
  then show "inv_base \<le> 1 - 1 / 20100" by (simp add: inv_base_def)
qed

lemma squares_bounds:
  fixes x :: real
  assumes "squares_ok cs ws" "length ws = length cs" "k < length cs"
    and "real (hd cs) - hd ws \<le> 2 ^ 128 * x" "2 ^ 128 * x \<le> real (hd cs) + hd ws" "hd ws \<le> hd cs"
  shows "real (cs ! k) - ws ! k \<le> 2 ^ 128 * x ^ (2 ^ k) \<and> 2 ^ 128 * x ^ (2 ^ k) \<le> real (cs ! k) + ws ! k"
  using assms
proof (induction cs ws arbitrary: x k rule: squares_ok.induct)
  case (1 c c' cs w w' ws)
  then have w: "w \<le> c" "w' \<le> c'" and lo: "(c' - w') * 2 ^ 128 \<le> (c - w) * (c - w)" and hi: "(c + w) * (c + w) \<le> (c' + w') * 2 ^ 128"
    and rest: "squares_ok (c' # cs) (w' # ws)" by simp_all
  let ?X = "2 ^ 128 * x"
  have X: "real c - w \<le> ?X" "?X \<le> real c + w" "0 \<le> real c - w" using "1.prems"(4,5) w by simp_all
  have "real ((c' - w') * 2 ^ 128) \<le> real ((c - w) * (c - w))" using lo by (simp only: of_nat_le_iff)
  then have "(real c' - w') * 2 ^ 128 \<le> (real c - w) * (real c - w)" by (simp only: of_nat_mult of_nat_diff [OF w(1)] of_nat_diff [OF w(2)] of_nat_power of_nat_numeral)
  also have "\<dots> \<le> ?X * ?X" using X by (intro mult_mono) simp_all
  finally have l: "real c' - w' \<le> 2 ^ 128 * (x * x)" by simp
  have real_hi: "real ((c + w) * (c + w)) \<le> real ((c' + w') * 2 ^ 128)" using hi by (simp only: of_nat_le_iff)
  have "?X * ?X \<le> (real c + w) * (real c + w)" using X by (intro mult_mono) simp_all
  also have "\<dots> \<le> (real c' + w') * 2 ^ 128" using real_hi by (simp only: of_nat_mult of_nat_add of_nat_power of_nat_numeral)
  finally have u: "2 ^ 128 * (x * x) \<le> real c' + w'" by simp
  show ?case
  proof (cases k)
    case 0
    then show ?thesis using X by simp
  next
    case (Suc j)
    have "(x * x) ^ (2 ^ j) = x ^ (2 ^ k)" by (simp add: Suc power_mult power2_eq_square)
    moreover have "real ((c' # cs) ! j) - (w' # ws) ! j \<le> 2 ^ 128 * (x * x) ^ (2 ^ j) \<and> 2 ^ 128 * (x * x) ^ (2 ^ j) \<le> real ((c' # cs) ! j) + (w' # ws) ! j"
      using "1.IH" [OF rest, of j "x * x"] "1.prems"(2,3) l u w by (simp add: Suc)
    ultimately show ?thesis by (simp add: Suc)
  qed
qed (auto simp: length_Suc_conv eq_commute [of "Suc _"])

lemma factor_bounds:
  assumes "k < 20"
  shows "real (factors ! k) - slacks ! k \<le> 2 ^ 128 * inv_base ^ (2 ^ k) \<and> 2 ^ 128 * inv_base ^ (2 ^ k) \<le> real (factors ! k) + slacks ! k"
proof (rule squares_bounds [OF factors_squares])
  have "inv_base \<le> sqrt (((real (hd factors) + hd slacks) / 2 ^ 128)\<^sup>2)" unfolding inv_base_def
    by (rule real_sqrt_le_mono) (simp add: factors_def slacks_def power2_eq_square)
  then show "2 ^ 128 * inv_base \<le> real (hd factors) + hd slacks" by simp
  have "sqrt (((real (hd factors) - hd slacks) / 2 ^ 128)\<^sup>2) \<le> inv_base" unfolding inv_base_def
    by (rule real_sqrt_le_mono) (simp add: factors_def slacks_def power2_eq_square)
  then show "real (hd factors) - hd slacks \<le> 2 ^ 128 * inv_base" by (simp add: factors_def slacks_def)
qed (use assms in \<open>simp_all add: factors_def slacks_def\<close>)


section \<open>Products of factors\<close>

lemma factor_relative:
  assumes "k < 20"
  shows "\<bar>real (factors ! k) - 2 ^ 128 * inv_base ^ (2 ^ k)\<bar> \<le> 2 ^ 128 * inv_base ^ (2 ^ k) / 2 ^ 79"
proof -
  let ?c = "real (factors ! k)" and ?w = "real (slacks ! k)" and ?x = "2 ^ 128 * inv_base ^ (2 ^ k)"
  have "slacks ! k * 2 ^ 80 \<le> factors ! k" using list_all2_nthD [OF factors_precise, of k] assms by simp
  then have "real (slacks ! k * 2 ^ 80) \<le> ?c" by (simp only: of_nat_le_iff)
  then have w: "?w * 2 ^ 80 \<le> ?c" by simp
  have b: "?c - ?w \<le> ?x" "?x \<le> ?c + ?w" using factor_bounds [OF assms] by simp_all
  then have "?w * 2 ^ 79 \<le> ?x" using w by simp
  then have "?w \<le> ?x / 2 ^ 79" by (simp add: field_simps)
  with b show ?thesis by linarith
qed

lemma smallest_power: "2 ^ 52 \<le> 2 ^ 128 * inv_base ^ (2 ^ 20)"
proof -
  have "real (factors ! 19) - slacks ! 19 \<le> 2 ^ 128 * inv_base ^ (2 ^ 19)" using factor_bounds [of 19] by simp
  then have "2 ^ 90 / 2 ^ 128 \<le> inv_base ^ (2 ^ 19)" by (simp add: factors_def slacks_def)
  then have "(2 ^ 90 / 2 ^ 128) ^ 2 \<le> (inv_base ^ (2 ^ 19)) ^ 2" by (rule power_mono) simp
  also have "(inv_base ^ (2 ^ 19)) ^ 2 = inv_base ^ (2 ^ 20)" by (simp flip: power_mult)
  finally show ?thesis by (simp add: power2_eq_square field_simps)
qed


lemma power_lower:
  assumes "n \<le> 2 ^ 20"
  shows "2 ^ 52 \<le> 2 ^ 128 * inv_base ^ n"
proof -
  have "inv_base ^ (2 ^ 20) \<le> inv_base ^ n" using assms inv_base_bounds by (intro power_decreasing) simp_all
  then have "2 ^ 128 * inv_base ^ (2 ^ 20) \<le> 2 ^ 128 * inv_base ^ n" by (rule mult_left_mono) simp
  with smallest_power show ?thesis by (rule order_trans)
qed

text \<open>One more factor: the relative errors add up, and rounding down costs at most one unit.\<close>

lemma relative_step:
  fixes A B R c e d :: real
  assumes "\<bar>R - A\<bar> \<le> e * A" "\<bar>c - B\<bar> \<le> d * B" "0 \<le> A" "0 \<le> B" "0 \<le> e" "0 \<le> d" "e \<le> 1"
  shows "\<bar>R * c - A * B\<bar> \<le> (e + 2 * d) * (A * B)"
proof -
  have "R * c - A * B = (R - A) * (c - B) + (R - A) * B + A * (c - B)" by (simp add: algebra_simps)
  then have "\<bar>R * c - A * B\<bar> \<le> \<bar>(R - A) * (c - B)\<bar> + \<bar>(R - A) * B\<bar> + \<bar>A * (c - B)\<bar>" by linarith
  also have "\<bar>R - A\<bar> \<le> 1 * A" using assms(1) mult_right_mono [OF assms(7,3)] by linarith
  then have "\<bar>(R - A) * (c - B)\<bar> \<le> (1 * A) * (d * B)" unfolding abs_mult using assms by (intro mult_mono) simp_all
  also have "\<bar>(R - A) * B\<bar> \<le> (e * A) * B" unfolding abs_mult using assms by (intro mult_mono) simp_all
  also have "\<bar>A * (c - B)\<bar> \<le> A * (d * B)" unfolding abs_mult using assms by (intro mult_mono) simp_all
  finally show ?thesis by (simp add: algebra_simps)
qed

lemma mod_power_Suc: "n mod 2 ^ Suc k = (if bit n k then n mod 2 ^ k + 2 ^ k else n mod 2 ^ k)" for n :: nat
  using take_bit_Suc_from_most [of k n] by (simp add: take_bit_eq_mod)

lemma floor_error: "\<bar>real (m div 2 ^ 128) - x\<bar> \<le> \<bar>real m / 2 ^ 128 - x\<bar> + 1"
proof -
  have "m = m div 2 ^ 128 * 2 ^ 128 + m mod 2 ^ 128" by (simp only: div_mult_mod_eq)
  then have "real m = real (m div 2 ^ 128 * 2 ^ 128 + m mod 2 ^ 128)" by (rule arg_cong)
  then have "real m = real (m div 2 ^ 128) * 2 ^ 128 + real (m mod 2 ^ 128)" by (simp only: of_nat_add of_nat_mult of_nat_power of_nat_numeral)
  moreover have "real (m mod 2 ^ 128) \<le> 2 ^ 128" by (simp add: less_imp_le)
  ultimately have "real (m div 2 ^ 128) \<le> real m / 2 ^ 128" "real m / 2 ^ 128 \<le> real (m div 2 ^ 128) + 1" by (simp_all add: field_simps)
  then show ?thesis by linarith
qed

lemma abs_scaled: "0 < p \<Longrightarrow> \<bar>x - p * c\<bar> \<le> p * d \<Longrightarrow> \<bar>x / p - c\<bar> \<le> d" for x p c d :: real
  by (simp add: abs_le_iff field_simps)

lemma product_close:
  assumes "k \<le> 20"
  shows "\<bar>real (rounded_product k n) - 2 ^ 128 * inv_base ^ (n mod 2 ^ k)\<bar> \<le> (k / 2 ^ 51) * (2 ^ 128 * inv_base ^ (n mod 2 ^ k))"
  using assms
proof (induction k)
  case 0
  then show ?case by simp
next
  case (Suc k)
  let ?A = "2 ^ 128 * inv_base ^ (n mod 2 ^ k)" and ?B = "2 ^ 128 * inv_base ^ (2 ^ k)"
  let ?R = "rounded_product k n" and ?c = "factors ! k"
  have IH: "\<bar>real ?R - ?A\<bar> \<le> (k / 2 ^ 51) * ?A" using Suc by simp
  have pos: "0 < ?A" "0 < ?B" using inv_base_bounds by simp_all
  show ?case
  proof (cases "bit n k")
    case False
    then have "\<bar>real (rounded_product (Suc k) n) - 2 ^ 128 * inv_base ^ (n mod 2 ^ Suc k)\<bar> \<le> (k / 2 ^ 51) * ?A"
      using IH by (simp add: mod_power_Suc del: power_Suc)
    also have "\<dots> \<le> (Suc k / 2 ^ 51) * ?A" using pos by (intro mult_right_mono) (simp_all add: divide_right_mono)
    finally show ?thesis using False by (simp add: mod_power_Suc del: power_Suc)
  next
    case True
    let ?C = "2 ^ 128 * inv_base ^ (n mod 2 ^ Suc k)"
    have AB: "?A * ?B = 2 ^ 128 * ?C" using True by (simp add: mod_power_Suc power_add del: power_Suc)
    have "\<bar>real ?R * real ?c - ?A * ?B\<bar> \<le> (k / 2 ^ 51 + 2 * (1 / 2 ^ 79)) * (?A * ?B)"
      using IH factor_relative [of k] Suc.prems pos by (intro relative_step) simp_all
    moreover have "(k / 2 ^ 51 + 2 * (1 / 2 ^ 79)) * (2 ^ 128 * ?C) = 2 ^ 128 * ((k / 2 ^ 51 + 1 / 2 ^ 78) * ?C)" by (simp add: algebra_simps)
    ultimately have "\<bar>real (?R * ?c) - 2 ^ 128 * ?C\<bar> \<le> 2 ^ 128 * ((k / 2 ^ 51 + 1 / 2 ^ 78) * ?C)" unfolding AB by (simp only: of_nat_mult)
    then have "\<bar>real (?R * ?c) / 2 ^ 128 - ?C\<bar> \<le> (k / 2 ^ 51 + 1 / 2 ^ 78) * ?C" by (rule abs_scaled [rotated]) simp
    then have step: "\<bar>real (rounded_product (Suc k) n) - ?C\<bar> \<le> (k / 2 ^ 51 + 1 / 2 ^ 78) * ?C + 1"
      using floor_error [of "?R * ?c" ?C] True by simp
    have "n mod 2 ^ Suc k < 2 ^ Suc k" by simp
    also have "\<dots> \<le> 2 ^ 20" using Suc.prems by (intro power_increasing) simp_all
    finally have one: "1 \<le> ?C / 2 ^ 52" using power_lower [of "n mod 2 ^ Suc k"] by (simp add: field_simps)
    have "(k / 2 ^ 51 + 1 / 2 ^ 78 + 1 / 2 ^ 52) * ?C \<le> (Suc k / 2 ^ 51) * ?C"
      using inv_base_bounds by (intro mult_right_mono) (simp_all add: add_divide_distrib)
    then have "(k / 2 ^ 51 + 1 / 2 ^ 78) * ?C + ?C / 2 ^ 52 \<le> (Suc k / 2 ^ 51) * ?C" by (simp add: algebra_simps)
    with step one show ?thesis by linarith
  qed
qed


text \<open>On the ticks of a pool.\<close>

abbreviation scaled_power :: "nat \<Rightarrow> real" where
  "scaled_power n \<equiv> 2 ^ 128 * inv_base ^ n"

lemma rounded_product_numeral:
  "rounded_product (numeral v) n =
     (if odd (n div 2 ^ pred_numeral v) then rounded_product (pred_numeral v) n * factors ! pred_numeral v div 2 ^ 128
      else rounded_product (pred_numeral v) n)"
  by (simp add: numeral_eq_Suc bit_iff_odd)

lemma product_value: "rounded_product 20 887272 = 18447437462383981825"
  by (simp add: rounded_product_numeral factors_def)

lemma product_relative:
  assumes "n \<le> 887272"
  shows "\<bar>real (rounded_product 20 n) - scaled_power n\<bar> \<le> scaled_power n / 2 ^ 46"
proof -
  have "\<bar>real (rounded_product 20 n) - scaled_power n\<bar> \<le> (20 / 2 ^ 51) * scaled_power n"
    using product_close [of 20 n] assms by simp
  also have "\<dots> \<le> (1 / 2 ^ 46) * scaled_power n" using inv_base_bounds by (intro mult_right_mono) simp_all
  finally show ?thesis by simp
qed

lemma scaled_power_lower:
  assumes "n \<le> 887272"
  shows "2 ^ 63 \<le> scaled_power n"
proof -
  have "18447437462383981825 \<le> scaled_power 887272 + scaled_power 887272 / 2 ^ 46"
    using product_relative [of 887272] by (simp add: product_value abs_le_iff)
  then have "2 ^ 63 \<le> scaled_power 887272" by simp
  also have "\<dots> \<le> scaled_power n" using assms inv_base_bounds by (simp add: power_decreasing)
  finally show ?thesis .
qed

lemma scaled_power_upper: "scaled_power n \<le> 2 ^ 128"
  using inv_base_bounds by (simp add: power_le_one)

lemma rounded_product_lower:
  assumes "n \<le> 887272"
  shows "2 ^ 62 \<le> rounded_product 20 n"
proof -
  have "scaled_power n - scaled_power n / 2 ^ 46 \<le> rounded_product 20 n" using product_relative [OF assms] by (simp add: abs_le_iff)
  then have "2 ^ 62 \<le> real (rounded_product 20 n)" using scaled_power_lower [OF assms] by simp
  then show ?thesis by simp
qed

lemma factors_less: "k < 20 \<Longrightarrow> factors ! k < 2 ^ 128"
  using list_all2_nthD [OF factors_precise, of k] by simp

lemma rounded_product_upper: "k \<le> 20 \<Longrightarrow> rounded_product k n \<le> 2 ^ 128"
proof (induction k)
  case (Suc k)
  then have "rounded_product k n * factors ! k \<le> 2 ^ 128 * 2 ^ 128" using factors_less [of k] by (intro mult_le_mono) simp_all
  then have "rounded_product k n * factors ! k div 2 ^ 128 \<le> 2 ^ 128 * 2 ^ 128 div 2 ^ 128" by (rule div_le_mono)
  with Suc show ?case by simp
qed simp

section \<open>The ratio of a tick\<close>

lemma tick_factors_eq: "tick_factors = map (\<lambda>k. (2 ^ k, of_nat (factors ! k))) [1..<20]"
  by (simp add: tick_factors_def factors_def upt_rec)

lemma int_and_power: "int n AND 2 ^ k \<noteq> 0 \<longleftrightarrow> bit n k"
proof -
  have "int n AND 2 ^ k \<noteq> 0 \<longleftrightarrow> bit (int n) k" by (simp add: and_exp_eq_0_iff_not_bit)
  then show ?thesis by (simp add: bit_of_nat_iff)
qed

lemma shifted_product:
  assumes "R \<le> 2 ^ 128" "c < 2 ^ 128"
  shows "drop_bit 128 (of_nat R * of_nat c :: u256) = of_nat (R * c div 2 ^ 128)"
proof -
  have "R * c \<le> 2 ^ 128 * c" using assms(1) by (rule mult_le_mono1)
  also have "\<dots> < 2 ^ 128 * 2 ^ 128" using assms(2) by simp
  finally have "R * c < 2 ^ 256" by simp
  from drop_bit_of_nat_256 [OF this, of 128] show ?thesis by (simp only: of_nat_mult)
qed

lemma ratio_fold:
  assumes "j < 20"
  shows "fold (ratio_step (int n)) (map (\<lambda>k. (2 ^ k, of_nat (factors ! k))) [1..<Suc j]) (of_nat (rounded_product 1 n)) = of_nat (rounded_product (Suc j) n)"
  using assms
proof (induction j)
  case (Suc j)
  have "ratio_step (int n) (2 ^ Suc j, of_nat (factors ! Suc j)) (of_nat (rounded_product (Suc j) n)) = of_nat (rounded_product (Suc (Suc j)) n)"
    using shifted_product [OF rounded_product_upper [of "Suc j" n] factors_less [of "Suc j"]] Suc.prems
    unfolding ratio_step_def prod.case int_and_power rounded_product.simps(2) [of "Suc j"] by simp
  moreover have "[1..<Suc (Suc j)] = [1..<Suc j] @ [Suc j]" by simp
  moreover have "fold (ratio_step (int n)) (map (\<lambda>k. (2 ^ k, of_nat (factors ! k))) [1..<Suc j]) (of_nat (rounded_product 1 n)) = of_nat (rounded_product (Suc j) n)"
    using Suc by simp
  ultimately show ?case by (simp only: map_append fold_append comp_apply list.map fold_simps)
qed simp

lemma ratio_of_bits:
  "fold (ratio_step (int n)) tick_factors (if int n AND 0x1 \<noteq> 0 then 0xfffcb933bd6fad37aa2d162d1a594001 else 0x100000000000000000000000000000000) =
     of_nat (rounded_product 20 n)"
proof -
  have "(if int n AND 0x1 \<noteq> 0 then 0xfffcb933bd6fad37aa2d162d1a594001 else 0x100000000000000000000000000000000) = (of_nat (rounded_product 1 n) :: u256)"
    using int_and_power [of n 0] by (simp add: factors_def)
  then show ?thesis using ratio_fold [of 19 n] by (simp add: tick_factors_eq)
qed

definition tick_ratio :: "int \<Rightarrow> nat" where
  "tick_ratio t =
     (let R = rounded_product 20 (nat \<bar>t\<bar>); Q = (if t > 0 then (2 ^ 256 - 1) div R else R) in (Q + 0xffffffff) div 2 ^ 32)"


abbreviation sqrt_price :: "int \<Rightarrow> real" where
  "sqrt_price t \<equiv> 2 ^ 96 * inv_base powi (- t)"

text \<open>Division with a remainder below the divisor.\<close>

lemma real_div_bounds:
  assumes "0 < d"
  shows "real m / real d - 1 < real (m div d)" "real (m div d) \<le> real m / real d"
proof -
  have "m = m div d * d + m mod d" by simp
  then have "real m = real (m div d * d + m mod d)" by (rule arg_cong)
  then have "real m = real (m div d) * real d + real (m mod d)" by (simp only: of_nat_add of_nat_mult)
  moreover have "real (m mod d) < real d" using assms by simp
  ultimately show "real m / real d - 1 < real (m div d)" "real (m div d) \<le> real m / real d"
    using assms by (simp_all add: field_simps)
qed

lemma ceil_32_bounds: "\<bar>real ((q + 0xffffffff) div 2 ^ 32) - real q / 2 ^ 32\<bar> \<le> 1"
  using real_div_bounds [of "2 ^ 32" "q + 0xffffffff"] by (simp add: abs_le_iff field_simps)

lemma tick_ratio_negative:
  assumes "- 887272 \<le> t" "t \<le> 0"
  shows "\<bar>real (tick_ratio t) - sqrt_price t\<bar> \<le> sqrt_price t / 2 ^ 30"
proof -
  define n where "n = nat (- t)"
  have n: "n \<le> 887272" "inv_base powi (- t) = inv_base ^ n" "nat \<bar>t\<bar> = n" using assms by (simp_all add: n_def power_int_def)
  let ?R = "rounded_product 20 n"
  have "\<bar>real (tick_ratio t) - real ?R / 2 ^ 32\<bar> \<le> 1" using ceil_32_bounds [of ?R] assms n by (simp add: tick_ratio_def)
  moreover have "\<bar>real ?R / 2 ^ 32 - sqrt_price t\<bar> \<le> sqrt_price t / 2 ^ 46"
    using product_relative [OF n(1)] by (simp add: n(2) abs_le_iff field_simps)
  moreover have "2 ^ 31 \<le> sqrt_price t" using scaled_power_lower [OF n(1)] by (simp add: n(2))
  ultimately show ?thesis by (simp add: abs_le_iff)
qed


lemma inverse_relative:
  fixes r X D :: real
  assumes "\<bar>r - X\<bar> \<le> X / 2 ^ 46" "0 < X" "0 < D"
  shows "D / X * (1 - 1 / 2 ^ 45) \<le> D / r" "D / r \<le> D / X * (1 + 1 / 2 ^ 45)"
proof -
  have r: "(1 - 1 / 2 ^ 46) * X \<le> r" "r \<le> (1 + 1 / 2 ^ 46) * X" using abs_le_D1 [OF assms(1)] abs_le_D2 [OF assms(1)] by (simp_all add: algebra_simps)
  have pos: "0 < (1 - 1 / 2 ^ 46) * X" "0 < (1 + 1 / 2 ^ 46) * X" using assms(2) by simp_all
  then have "0 < r" using r(1) by linarith
  have "D / X * (1 - 1 / 2 ^ 45) \<le> D / X * (1 / (1 + 1 / 2 ^ 46))" using assms(2,3) by (intro mult_left_mono) simp_all
  also have "\<dots> = D / ((1 + 1 / 2 ^ 46) * X)" by simp
  also have "\<dots> \<le> D / r" using r(2) pos \<open>0 < r\<close> assms(3) by (intro divide_left_mono) simp_all
  finally show "D / X * (1 - 1 / 2 ^ 45) \<le> D / r" .
  have "D / r \<le> D / ((1 - 1 / 2 ^ 46) * X)" using r(1) pos \<open>0 < r\<close> assms(3) by (intro divide_left_mono) simp_all
  also have "\<dots> = D / X * (1 / (1 - 1 / 2 ^ 46))" by simp
  also have "\<dots> \<le> D / X * (1 + 1 / 2 ^ 45)" using assms(2,3) by (intro mult_left_mono) simp_all
  finally show "D / r \<le> D / X * (1 + 1 / 2 ^ 45)" .
qed

lemma relative_bounds: "\<bar>a - z\<bar> \<le> z / 2 ^ 30 \<Longrightarrow> z * (1 - 1 / 2 ^ 30) \<le> a \<and> a \<le> z * (1 + 1 / 2 ^ 30)" for a z :: real
  using abs_le_D1 [of "a - z" "z / 2 ^ 30"] abs_le_D2 [of "a - z" "z / 2 ^ 30"] by (simp add: algebra_simps)

lemma quotient_shift: "z - 1 < q \<Longrightarrow> q \<le> z \<Longrightarrow> z = 2 ^ 32 * a - b \<Longrightarrow> 0 < b \<Longrightarrow> b \<le> 1 \<Longrightarrow> \<bar>q / 2 ^ 32 - a\<bar> \<le> 1"
  for a b q z :: real
  by (simp add: abs_le_iff)

lemma tick_ratio_positive:
  assumes "0 < t" "t \<le> 887272"
  shows "\<bar>real (tick_ratio t) - sqrt_price t\<bar> \<le> sqrt_price t / 2 ^ 30"
proof -
  define n where "n = nat t"
  have n: "n \<le> 887272" "inv_base powi (- t) = 1 / inv_base ^ n" "nat \<bar>t\<bar> = n"
    using assms by (simp_all add: n_def power_int_def inverse_eq_divide power_one_over)
  let ?R = "rounded_product 20 n" and ?X = "scaled_power n"
  let ?Q = "(2 ^ 256 - 1) div ?R"
  have X: "0 < ?X" "?X \<le> 2 ^ 128" using inv_base_bounds scaled_power_upper by simp_all
  have Y: "sqrt_price t = 2 ^ 224 / ?X" by (simp add: n(2))
  then have big: "2 ^ 96 \<le> sqrt_price t" using X by (simp add: field_simps)
  have R: "2 ^ 62 \<le> real ?R" using rounded_product_lower [OF n(1)] by simp
  note inv = inverse_relative [OF product_relative [OF n(1)] X(1), of "2 ^ 224", folded Y]
  have "real (2 ^ 256 - 1) / real ?R - 1 < real ?Q" "real ?Q \<le> real (2 ^ 256 - 1) / real ?R"
    using real_div_bounds [of ?R "2 ^ 256 - 1"] R by simp_all
  moreover have "real (2 ^ 256 - 1) / real ?R = 2 ^ 32 * (2 ^ 224 / real ?R) - 1 / real ?R" by (simp add: diff_divide_distrib)
  moreover have "0 < 1 / real ?R" "1 / real ?R \<le> 1" using R by (simp_all add: field_simps)
  ultimately have "\<bar>real ?Q / 2 ^ 32 - 2 ^ 224 / real ?R\<bar> \<le> 1" by (rule quotient_shift)
  moreover have "\<bar>real (tick_ratio t) - real ?Q / 2 ^ 32\<bar> \<le> 1" using ceil_32_bounds [of ?Q] assms n by (simp add: tick_ratio_def)
  moreover have "\<bar>2 ^ 224 / real ?R - sqrt_price t\<bar> \<le> sqrt_price t / 2 ^ 45" using inv by (simp add: abs_le_iff algebra_simps)
  moreover have "sqrt_price t / 2 ^ 45 + 2 \<le> sqrt_price t / 2 ^ 30" using big by simp
  ultimately show ?thesis by linarith
qed

lemma tick_ratio_close:
  "\<bar>t\<bar> \<le> 887272 \<Longrightarrow> \<bar>real (tick_ratio t) - sqrt_price t\<bar> \<le> sqrt_price t / 2 ^ 30"
  using tick_ratio_negative [of t] tick_ratio_positive [of t] by linarith

lemma sqrt_price_Suc: "sqrt_price (t + 1) = sqrt_price t / inv_base"
  using inv_base_bounds by (simp add: power_int_diff [of inv_base "- t" 1, simplified])

lemma sqrt_price_pos: "0 < sqrt_price t"
  using inv_base_bounds by simp

lemma tick_ratio_Suc:
  assumes "- 887272 \<le> t" "t < 887272"
  shows "tick_ratio t < tick_ratio (t + 1)"
proof -
  let ?Y = "sqrt_price t"
  have "real (tick_ratio t) \<le> ?Y * (1 + 1 / 2 ^ 30)" using relative_bounds [OF tick_ratio_close [of t]] assms by simp
  also have "\<dots> < ?Y * (1 + 1 / 20100) * (1 - 1 / 2 ^ 30)" using sqrt_price_pos [of t] by simp
  also have "?Y * (1 + 1 / 20100) \<le> ?Y / inv_base"
  proof -
    have "(1 + 1 / 20100) * inv_base \<le> (1 + 1 / 20100) * (1 - 1 / 20100)" using inv_base_bounds by (intro mult_left_mono) simp_all
    then have "1 + 1 / 20100 \<le> 1 / inv_base" using inv_base_bounds by (simp add: field_simps)
    then show ?thesis using sqrt_price_pos [of t] mult_left_mono [of "1 + 1 / 20100" "1 / inv_base" ?Y] by simp
  qed
  then have "?Y * (1 + 1 / 20100) * (1 - 1 / 2 ^ 30) \<le> ?Y / inv_base * (1 - 1 / 2 ^ 30)" by (rule mult_right_mono) simp
  also have "\<dots> \<le> real (tick_ratio (t + 1))"
    using relative_bounds [OF tick_ratio_close [of "t + 1"]] assms unfolding sqrt_price_Suc by linarith
  finally show ?thesis by simp
qed


lemma tick_ratio_mono:
  assumes "s < t" "- 887272 \<le> s" "t \<le> 887272"
  shows "tick_ratio s < tick_ratio t"
  using assms
proof (induction t rule: int_gr_induct)
  case base
  then show ?case using tick_ratio_Suc by simp
next
  case (step t)
  then show ?case using tick_ratio_Suc [of t] by simp
qed

lemma tick_ratio_mono_iff:
  assumes "- 887272 \<le> s" "s \<le> 887272" "- 887272 \<le> t" "t \<le> 887272"
  shows "tick_ratio s < tick_ratio t \<longleftrightarrow> s < t"
  using tick_ratio_mono [of s t] tick_ratio_mono [of t s] assms by (metis less_irrefl less_trans linorder_neqE)

lemma tick_ratio_ends: "tick_ratio (- 887272) = 4295128739" "tick_ratio 887272 = 0xfffd8963efd1fc6a506488495d951d5263988d26"
  by (simp_all add: tick_ratio_def product_value)

lemma get_sqrt_ratio_eq:
  "get_sqrt_ratio_at_tick t = (if \<bar>t\<bar> \<le> 887272 then Some (of_nat (tick_ratio t)) else None)"
proof (cases "\<bar>t\<bar> \<le> 887272")
  case True
  define R where "R = rounded_product 20 (nat \<bar>t\<bar>)"
  define Q where "Q = (if t > 0 then (2 ^ 256 - 1) div R else R)"
  have R: "2 ^ 62 \<le> R" "R \<le> 2 ^ 128"
    unfolding R_def using rounded_product_lower [of "nat \<bar>t\<bar>"] rounded_product_upper True by simp_all
  have "(2 ^ 256 - 1) div R \<le> (2 ^ 256 - 1) div 2 ^ 62" using R(1) by (intro div_le_mono2) simp_all
  then have Q: "Q + 0xffffffff < 2 ^ 256" using R(2) by (simp add: Q_def)
  have uR: "unat (of_nat R :: u256) = R" using R(2) by (intro unat_of_nat_256) simp
  have "(- 1) div (of_nat R :: u256) = of_nat ((2 ^ 256 - 1) div R)" by (metis of_nat_unat_256 unat_div unat_max_256 uR)
  moreover have "(of_nat R :: u256) \<noteq> 0" using uR R(1) by (metis not_numeral_le_zero power_not_zero le_zero_eq unat_0 zero_neq_numeral)
  ultimately have q: "(if t > 0 then checked_div (- 1) (of_nat R :: u256) else Some (of_nat R)) = Some (of_nat Q)"
    by (simp add: checked_div_def Q_def)
  have "unat (of_nat ((Q + 0xffffffff) div 2 ^ 32) :: u256) = (Q + 0xffffffff) div 2 ^ 32"
    using Q by (intro unat_of_nat_256) (meson div_le_dividend order_le_less_trans)
  then have "unat (drop_bit 32 (of_nat (Q + 0xffffffff) :: u256)) = (Q + 0xffffffff) div 2 ^ 32"
    by (simp only: drop_bit_of_nat_256 [OF Q])
  also have "\<dots> = tick_ratio t" by (simp add: tick_ratio_def R_def Q_def Let_def)
  finally have u: "unat (drop_bit 32 (of_nat Q + 0xffffffff :: u256)) = tick_ratio t" by simp
  have "t = 887272 \<or> t < 887272" "- 887272 \<le> t" using True by linarith+
  then have "tick_ratio t \<le> tick_ratio 887272" using tick_ratio_mono [of t 887272] by auto
  then have small: "tick_ratio t < 2 ^ 160" by (simp add: tick_ratio_ends)
  have "to_u160 (drop_bit 32 (of_nat Q + 0xffffffff)) = Some (of_nat (tick_ratio t))"
    using small unfolding to_u160_def u [symmetric] by simp
  moreover have "fold (ratio_step \<bar>t\<bar>) tick_factors
      (if \<bar>t\<bar> AND 0x1 \<noteq> 0 then 0xfffcb933bd6fad37aa2d162d1a594001 else 0x100000000000000000000000000000000) = of_nat R"
    using ratio_of_bits [of "nat \<bar>t\<bar>"] by (simp only: R_def nat_0_le abs_ge_zero int_nat_eq if_True)
  moreover have "MIN_TICK \<le> t \<and> t \<le> MAX_TICK" using True by (simp add: MIN_TICK_def MAX_TICK_def abs_le_iff)
  ultimately show ?thesis using True q by (simp only: get_sqrt_ratio_at_tick_def Let_def bind.bind_lunit) simp
next
  case False
  then have "\<not> (MIN_TICK \<le> t \<and> t \<le> MAX_TICK)" by (auto simp: MIN_TICK_def MAX_TICK_def)
  with False show ?thesis by (simp add: get_sqrt_ratio_at_tick_def)
qed

end
