(* ===== verification/Tick_Math.thy ===== *)
theory Tick_Math
  imports Tick_Ratio
begin

text \<open>
  The tick of a price (\<open>crates/model/src/defi/tick_map/tick_math.rs\<close>, \<open>get_tick_at_sqrt_ratio\<close>): a binary logarithm by repeated
  squaring, its multiple by the constant of the base, and one comparison that corrects the result.

  The bits of the logarithm are bounded round by round, and the constant of the base by 48 squarings of 1.0001.
\<close>

text \<open>One round of the binary logarithm, for bit \<open>i\<close> of the result.\<close>

definition log_step :: "nat \<Rightarrow> u256 \<times> u256 \<Rightarrow> u256 \<times> u256" where
  "log_step i = (\<lambda>(r, decimals).
     let r = drop_bit 127 (r * r);
         f = drop_bit 128 r
     in if f > 0 then (drop_bit 1 r, decimals OR push_bit i 1) else (r, decimals))"

text \<open>The four low bytes of a word, read as an \<open>i32\<close>.\<close>

definition low_i32 :: "u256 \<Rightarrow> int" where
  "low_i32 x = wrap_s 32 (uint (take_bit 32 x))"

definition get_tick_at_sqrt_ratio :: "u160 \<Rightarrow> int panics" where
  "get_tick_at_sqrt_ratio sqrt_price_x96 =
     (if \<not> (MIN_SQRT_RATIO \<le> sqrt_price_x96 \<and> sqrt_price_x96 < MAX_SQRT_RATIO) then None
      else
        let ratio = push_bit 32 (ucast sqrt_price_x96 :: u256);
            msb = most_significant_bit ratio;
            log_2_x64 = (if msb \<ge> 128 then push_bit 64 (word_of_int (msb - 128)) else - 1 - push_bit 64 (word_of_int (128 - msb)) + 1);
            r = (if msb \<ge> 128 then drop_bit (nat (msb - 127)) ratio else push_bit (nat (127 - msb)) ratio);
            (r, decimals) = fold log_step (rev [50..<64]) (r, 0);
            log_2_x64 = log_2_x64 OR decimals;
            log_sqrt10001 = log_2_x64 * 255738958999603826347141;
            tick_low = low_i32 (drop_bit 128 (log_sqrt10001 - 3402992956809132418596140100660247210));
            tick_hi = low_i32 (drop_bit 128 (log_sqrt10001 + 291339464771989622907027621153398088495))
        in if tick_low = tick_hi then Some tick_low
        else do {
          sqrt_ratio_hi \<leftarrow> get_sqrt_ratio_at_tick tick_hi;
          Some (if sqrt_ratio_hi \<le> sqrt_price_x96 then tick_hi else tick_low)
        })"

section \<open>The binary logarithm\<close>

text \<open>One round on numbers: the bit and the next mantissa.\<close>

definition log_round :: "nat \<Rightarrow> nat \<times> nat" where
  "log_round r = (let s = r * r div 2 ^ 127 in if s < 2 ^ 128 then (0, s) else (1, s div 2))"

abbreviation mantissa :: "nat \<Rightarrow> bool" where
  "mantissa r \<equiv> 2 ^ 127 \<le> r \<and> r < 2 ^ 128"

abbreviation lg :: "nat \<Rightarrow> real" where
  "lg r \<equiv> log 2 (real r / 2 ^ 127)"

lemma log_round_mantissa:
  assumes "mantissa r" "log_round r = (f, r')"
  shows "mantissa r'" "f \<le> 1" "r' * 2 ^ f * 2 ^ 127 \<le> r * r" "r * r < (r' + 1) * 2 ^ f * 2 ^ 127"
proof -
  let ?s = "r * r div 2 ^ 127"
  have "2 ^ 127 * 2 ^ 127 \<le> r * r" using assms(1) by (intro mult_le_mono) simp_all
  then have lo: "2 ^ 127 \<le> ?s" by (simp add: less_eq_div_iff_mult_less_eq)
  have "r * r < 2 ^ 128 * 2 ^ 128" using assms(1) by (intro mult_strict_mono) simp_all
  then have hi: "?s < 2 ^ 129" by (simp add: div_less_iff_less_mult)
  have s: "?s * 2 ^ 127 \<le> r * r" "r * r < (?s + 1) * 2 ^ 127" by (simp_all add: dividend_less_div_times)
  consider "?s < 2 ^ 128" "f = 0" "r' = ?s" | "2 ^ 128 \<le> ?s" "f = 1" "r' = ?s div 2"
    using assms(2) by (auto simp: log_round_def Let_def split: if_splits)
  then have "mantissa r' \<and> f \<le> 1 \<and> r' * 2 ^ f * 2 ^ 127 \<le> r * r \<and> r * r < (r' + 1) * 2 ^ f * 2 ^ 127"
  proof cases
    case 1
    then show ?thesis using lo s by simp
  next
    case 2
    have half: "x div 2 * 2 \<le> x \<and> x + 1 \<le> (x div 2 + 1) * 2" for x :: nat by presburger
    then have "?s div 2 * 2 \<le> ?s" "?s + 1 \<le> (?s div 2 + 1) * 2" by blast+
    then have "?s div 2 * 2 * 2 ^ 127 \<le> ?s * 2 ^ 127" "(?s + 1) * 2 ^ 127 \<le> (?s div 2 + 1) * 2 * 2 ^ 127" by (simp_all only: mult_le_mono1)
    then have "?s div 2 * 2 * 2 ^ 127 \<le> r * r" "r * r < (?s div 2 + 1) * 2 * 2 ^ 127" using s by linarith+
    moreover have "mantissa (x div 2)" if "2 ^ 128 \<le> x" "x < 2 ^ 129" for x
      using that by (simp add: less_eq_div_iff_mult_less_eq div_less_iff_less_mult)
    then have "mantissa (?s div 2)" using 2(1) hi by blast
    ultimately show ?thesis using 2 by simp
  qed
  then show "mantissa r'" "f \<le> 1" "r' * 2 ^ f * 2 ^ 127 \<le> r * r" "r * r < (r' + 1) * 2 ^ f * 2 ^ 127" by blast+
qed

lemma ln2_lower: "1 / 2 \<le> ln (2 :: real)"
proof -
  have "exp (1 / 2 :: real) \<le> 1 + 1 / 2 + (1 / 2)\<^sup>2" by (rule exp_bound) simp_all
  then have "exp (1 / 2 :: real) \<le> 2" by (simp add: power2_eq_square)
  then have "ln (exp (1 / 2 :: real)) \<le> ln 2" by (rule ln_mono) simp
  then show ?thesis by simp
qed

lemma log_Suc_le:
  assumes "mantissa r"
  shows "log 2 (real (r + 1) / 2 ^ 127) \<le> lg r + 1 / 2 ^ 126"
proof -
  have r: "0 < real r" using assms by (simp add: order_less_le_trans [of 0 "2 ^ 127"])
  have "ln (1 + 1 / real r) \<le> 1 / real r" using r by (intro ln_add_one_self_le_self) simp
  also have "\<dots> \<le> 1 / 2 ^ 127" using assms by (intro divide_left_mono) (use r in \<open>simp_all\<close>)
  finally have "ln (1 + 1 / real r) / ln 2 \<le> (1 / 2 ^ 127) / ln 2" by (intro divide_right_mono) simp_all
  also have "\<dots> \<le> (1 / 2 ^ 127) / (1 / 2)" using ln2_lower by (intro divide_left_mono) simp_all
  finally have "log 2 (1 + 1 / real r) \<le> 1 / 2 ^ 126" by (simp add: log_def)
  moreover have "log 2 (real (r + 1) / 2 ^ 127) = lg r + log 2 (1 + 1 / real r)"
  proof -
    have "real r * (1 + 1 / real r) = real (r + 1)" using r by (simp add: distrib_left)
    then have "real (r + 1) / 2 ^ 127 = (real r / 2 ^ 127) * (1 + 1 / real r)" by simp
    moreover have "log 2 ((real r / 2 ^ 127) * (1 + 1 / real r)) = lg r + log 2 (1 + 1 / real r)"
      using r by (intro log_mult_pos) (simp_all add: add_pos_pos)
    ultimately show ?thesis by (simp only:)
  qed
  ultimately show ?thesis by simp
qed


lemma log_round_step:
  assumes "mantissa r" "log_round r = (f, r')"
  shows "lg r' + f \<le> 2 * lg r" "2 * lg r \<le> lg r' + f + 1 / 2 ^ 126"
proof -
  note m = log_round_mantissa [OF assms]
  have pos: "0 < real r" "0 < real r'" using assms(1) m(1) by (simp_all add: order_less_le_trans [of 0 "2 ^ 127"])
  have "log 2 ((real r / 2 ^ 127) * (real r / 2 ^ 127)) = lg r + lg r" using pos by (intro log_mult_pos) simp_all
  then have sq: "2 * lg r = log 2 ((real r / 2 ^ 127) * (real r / 2 ^ 127))" by linarith
  have bits: "log 2 (x * 2 ^ f) = log 2 x + f" if "0 < x" for x :: real using that by (simp add: log_mult_pos log_nat_power)
  have "real (r' * 2 ^ f * 2 ^ 127) \<le> real (r * r)" using m(3) by (simp only: of_nat_le_iff)
  then have lo: "real r' / 2 ^ 127 * 2 ^ f \<le> (real r / 2 ^ 127) * (real r / 2 ^ 127)" by (simp add: field_simps)
  have "lg r' + f = log 2 (real r' / 2 ^ 127 * 2 ^ f)" using pos by (intro bits [symmetric]) simp
  also have "\<dots> \<le> 2 * lg r" unfolding sq using lo pos by (intro log_mono) simp_all
  finally show "lg r' + f \<le> 2 * lg r" .
  have "real (r * r) \<le> real ((r' + 1) * 2 ^ f * 2 ^ 127)" using m(4) by (simp only: of_nat_le_iff less_imp_le)
  then have hi: "(real r / 2 ^ 127) * (real r / 2 ^ 127) \<le> real (r' + 1) / 2 ^ 127 * 2 ^ f" by (simp add: field_simps)
  have "2 * lg r \<le> log 2 (real (r' + 1) / 2 ^ 127 * 2 ^ f)" unfolding sq using hi pos by (intro log_mono) simp_all
  also have "\<dots> = log 2 (real (r' + 1) / 2 ^ 127) + f" by (rule bits) simp
  also have "\<dots> \<le> lg r' + 1 / 2 ^ 126 + f" using log_Suc_le [OF m(1)] by simp
  finally show "2 * lg r \<le> lg r' + f + 1 / 2 ^ 126" by simp
qed

text \<open>Several rounds: the bits as a number and the last mantissa.\<close>

fun log_rounds :: "nat \<Rightarrow> nat \<Rightarrow> nat \<times> nat" where
  "log_rounds 0 r = (0, r)"
| "log_rounds (Suc n) r = (let (D, s) = log_rounds n r; (f, s') = log_round s in (2 * D + f, s'))"

lemma log_rounds_close:
  assumes "mantissa r" "log_rounds n r = (D, s)"
  shows "mantissa s \<and> D < 2 ^ n \<and> lg s + D \<le> 2 ^ n * lg r \<and> 2 ^ n * lg r \<le> lg s + D + (2 ^ n - 1) / 2 ^ 126"
  using assms(2)
proof (induction n arbitrary: D s)
  case 0
  then show ?case using assms(1) by simp
next
  case (Suc n)
  obtain D' s' where D': "log_rounds n r = (D', s')" by fastforce
  obtain f t where f: "log_round s' = (f, t)" by fastforce
  have eq: "D = 2 * D' + f" "s = t" using Suc.prems D' f by simp_all
  have IH: "mantissa s'" "D' < 2 ^ n" "lg s' + D' \<le> 2 ^ n * lg r" "2 ^ n * lg r \<le> lg s' + D' + (2 ^ n - 1) / 2 ^ 126"
    using Suc.IH [OF D'] by blast+
  note m = log_round_mantissa(1,2) [OF IH(1) f] and st = log_round_step [OF IH(1) f]
  have "lg s + D \<le> 2 ^ Suc n * lg r" using st(1) IH(3) by (simp add: eq)
  moreover have "2 ^ Suc n * lg r \<le> lg s + D + (2 ^ Suc n - 1) / 2 ^ 126" using st(2) IH(4) by (simp add: eq diff_divide_distrib)
  ultimately show ?case using m IH(2) by (simp add: eq)
qed


section \<open>The base of the logarithm\<close>

text \<open>Bounds of \<open>1.0001 ^ 2 ^ n\<close> by squaring: each row has the next bit of the logarithm, the lower bound of the mantissa and the
  width of its interval.\<close>

fun chain_ok :: "nat \<Rightarrow> nat \<Rightarrow> (nat \<times> nat \<times> nat) list \<Rightarrow> bool" where
  "chain_ok c w [] \<longleftrightarrow> 2 ^ 127 \<le> c \<and> c + w \<le> 2 ^ 128"
| "chain_ok c w ((f, c', w') # rows) \<longleftrightarrow>
     c' * 2 ^ f * 2 ^ 127 \<le> c * c \<and> (c + w) * (c + w) \<le> (c' + w') * 2 ^ f * 2 ^ 127 \<and> chain_ok c' w' rows"

fun chain_bits :: "nat \<Rightarrow> (nat \<times> nat \<times> nat) list \<Rightarrow> nat" where
  "chain_bits e [] = e"
| "chain_bits e ((f, _) # rows) = chain_bits (2 * e + f) rows"

lemma chain_log:
  fixes x :: real
  assumes "chain_ok c w rows" "real c \<le> 2 ^ 127 * x" "2 ^ 127 * x \<le> real (c + w)" "0 < x"
  shows "chain_bits e rows \<le> 2 ^ length rows * (e + log 2 x) \<and> 2 ^ length rows * (e + log 2 x) \<le> chain_bits e rows + 1"
  using assms
proof (induction c w rows arbitrary: x e rule: chain_ok.induct)
  case (1 c w)
  then have "2 ^ 127 \<le> real c" "real (c + w) \<le> 2 ^ 128" by simp_all
  then have "1 \<le> x" "x \<le> 2" using "1.prems" by simp_all
  then have "0 \<le> log 2 x" "log 2 x \<le> log 2 2" by (simp, intro log_mono) simp_all
  then show ?case by simp
next
  case (2 c w f c' w' rows)
  let ?y = "x * x / 2 ^ f"
  have ok: "chain_ok c' w' rows" and "c' * 2 ^ f * 2 ^ 127 \<le> c * c" "(c + w) * (c + w) \<le> (c' + w') * 2 ^ f * 2 ^ 127"
    using "2.prems"(1) by simp_all
  then have lo: "real (c' * 2 ^ f * 2 ^ 127) \<le> real (c * c)" and hi: "real ((c + w) * (c + w)) \<le> real ((c' + w') * 2 ^ f * 2 ^ 127)"
    by (simp_all only: of_nat_le_iff)
  have "real (c * c) \<le> (2 ^ 127 * x) * (2 ^ 127 * x)" unfolding of_nat_mult using "2.prems" by (intro mult_mono) simp_all
  then have l: "real c' \<le> 2 ^ 127 * ?y" using lo by (simp add: field_simps)
  have "(2 ^ 127 * x) * (2 ^ 127 * x) \<le> real ((c + w) * (c + w))" unfolding of_nat_mult using "2.prems" by (intro mult_mono) simp_all
  then have u: "2 ^ 127 * ?y \<le> real (c' + w')" using hi by (simp add: field_simps)
  have eq: "log 2 ?y = 2 * log 2 x - f" using "2.prems"(4) by (simp add: log_divide_pos log_mult_pos log_nat_power)
  have "2 ^ length rows * (real (2 * e + f) + log 2 ?y) = 2 ^ length ((f, c', w') # rows) * (e + log 2 x)" unfolding eq by (simp add: algebra_simps)
  moreover have "0 < ?y" using "2.prems"(4) by simp
  ultimately show ?case using "2.IH" [OF ok l u, of "2 * e + f"] by (simp only: chain_bits.simps)
qed

definition base_chain :: "(nat \<times> nat \<times> nat) list" where
  "base_chain =
     [(0, 0x80068dce3455f2fbb5987dbac0dba7da, 0x3),
      (0, 0x800d1bf2511a65841828b728ca28509e, 0x7),
      (0, 0x801a393c55874956d12d5a300c93cfbd, 0xf),
      (0, 0x803477d805292a4052ebfee1667accb2, 0x1f),
      (0, 0x80690531da0b9c1cefced552b4221647, 0x3f),
      (0, 0x80d2608e3a16ebb94b9c6faf4b31cb20, 0x7f),
      (0, 0x81a61ae18fb267d36e06b6f21e844038, 0x101),
      (0, 0x8351a5bc64557fdfc0df6ad19587e5d2, 0x209),
      (0, 0x86b953523666c5e74d73b8d8b14a5112, 0x42e),
      (0, 0x8dcd12c731c942cb6e3abfd5198aa0e6, 0x8ce),
      (0, 0x9d1715ed027c1bcf9e68bdf2e1a1dcae, 0x1383),
      (0, 0xc0caa5f34f06d47f3bf955a1743e5971, 0x2fe6),
      (1, 0x91309957461680a420094a1dc2415604, 0x4826),
      (0, 0xa4b02ddd73f26b638c2cef3d00fbdb80, 0xa3ae),
      (0, 0xd3e46805aa8b427fa698d703280c9dfc, 0x1a532),
      (1, 0xaf624f42cb7df25e21164319b37712a7, 0x2b941),
      (0, 0xf04f1c3c33c8919f172ba42a5b94c002, 0x776be),
      (1, 0xe1946d63515d40505bfab78c64ded86c, 0xe0342),
      (1, 0xc6c63e573e99b8b10f5961ae4c9ba21b, 0x18b1fa),
      (1, 0x9a5741f372f8ff89a6e21ee87e82b5c1, 0x26598f),
      (0, 0xba1a322d9592812a6ce66d722338767f, 0x5c7bca),
      (1, 0x874a139878711bff0a36cf7f5a747e8e, 0x8676d0),
      (0, 0x8efe6c344959d3366ab61a42bd695146, 0x11c3e42),
      (0, 0x9fbe79c9cdbaba42542bb1397350f64c, 0x27b141b),
      (0, 0xc75c52035e1770342f45fa76a6be2c58, 0x6312810),
      (1, 0x9b40a8cc48fa399c22040dbe19e0f9bd, 0x9a4e396),
      (0, 0xbc4eb9786ba083595cf0ba45ffdccbba, 0x17651584),
      (1, 0x8a83b89e69d49aee5c8812d488260021, 0x226adb1a),
      (0, 0x95e48da282bb418ff136c4ed77932e57, 0x4a7d3e72),
      (0, 0xaf87b1d788068614aa53587bb8fb27a2, 0xae75986a),
      (0, 0xf0b59a2371ac4380e69c9f7cabd0b92a, 0x1de7b7199),
      (1, 0xe25501d5c81065d4ad76d6b959c0cc02, 0x383ce4fbf),
      (1, 0xc81a3377ad372cc5c9efc176a11da549, 0x6370dd8b6),
      (1, 0x9c68f3197d4e4c209e09afbb8391937d, 0x9b74b512d),
      (0, 0xbf20269af88d45a3ec851d75ce1f8be0, 0x17beb65813),
      (1, 0x8eb0fda4eb7350d5efe03b909fb33fb6, 0x23748aee61),
      (0, 0x9f11a781668e1fb9dcb3ddfaca606f41, 0x4f0ca1430a),
      (0, 0xc5adde94d45c7efe11198a26db28993b, 0xc4792ee22c),
      (1, 0x98a50ea7a583d74d51113a50e8e17de2, 0x12f6d639816),
      (0, 0xb608d7a5f2fd5f064503114540ce1307, 0x2d3b25808ba),
      (1, 0x817092ee25879cab9161b52c79938225, 0x405339391bc),
      (0, 0x82e54b29cd1005ccf5fe5416a53f8660, 0x8218e4a875b),
      (0, 0x85db5b6c063d531282a208fc799c28bf, 0x10a14aa527ea),
      (0, 0x8bfb51e793e8be8474b81b4962ac855f, 0x22c82ecc0c07),
      (0, 0x9915c35661de4cbdf51323e8a8f8c9ab, 0x4c135b3de884),
      (0, 0xb7160aadc468f8e46b948079e7c920f7, 0xb5f824ab9886),
      (1, 0x82f0852a451ddf2c9913f27e4f62b834, 0x104481a420d07),
      (0, 0x85f25271c571c2ef12e3ee548e4c2b9f, 0x21484a14a6121)]"

lemma base_chain_ok: "chain_ok 0x800346dc5d63886594af4f0d844d013a 1 base_chain"
  by (simp add: base_chain_def)

lemma base_chain_bits: "chain_bits 0 base_chain = 40606225026" "length base_chain = 48"
  by (simp_all add: base_chain_def)

definition lg_base :: real where
  "lg_base = log 2 (1 / inv_base)"

lemma lg_base_bounds: "40606225026 / 2 ^ 49 \<le> lg_base" "lg_base \<le> 40606225027 / 2 ^ 49"
proof -
  have "40606225026 \<le> 2 ^ 48 * log 2 (10001 / 10000) \<and> 2 ^ 48 * log 2 (10001 / 10000) \<le> 40606225027"
    using chain_log [OF base_chain_ok, of "10001 / 10000" 0] by (simp add: base_chain_bits)
  moreover have "log 2 (10001 / 10000) = 2 * lg_base"
  proof -
    have "(1 / inv_base) ^ 2 = 10001 / 10000" by (simp add: inv_base_def power_divide)
    then have "log 2 (10001 / 10000) = log 2 ((1 / inv_base) ^ 2)" by (simp only:)
    also have "\<dots> = 2 * log 2 (1 / inv_base)" using inv_base_bounds by (subst log_nat_power) simp_all
    finally show ?thesis by (simp only: lg_base_def)
  qed
  ultimately show "40606225026 / 2 ^ 49 \<le> lg_base" "lg_base \<le> 40606225027 / 2 ^ 49" by simp_all
qed


section \<open>Ratios and logarithms\<close>

lemma log_near_one:
  assumes "\<bar>x\<bar> \<le> 1 / 2 ^ 30"
  shows "\<bar>log 2 (1 + x)\<bar> \<le> 1 / 2 ^ 28"
proof -
  have x: "- (1 / 2 ^ 30) \<le> x" "x \<le> 1 / 2 ^ 30" using assms by (simp_all add: abs_le_iff)
  have pos: "0 < 1 + x" using x by simp
  have up: "ln (1 + x) \<le> x" using x by (intro ln_add_one_self_le_self2) simp
  have "ln (1 / (1 + x)) \<le> 1 / (1 + x) - 1" using pos by (intro ln_le_minus_one) simp
  then have "- ln (1 + x) \<le> 1 / (1 + x) - 1" using pos by (simp add: ln_div)
  also have "1 / (1 + x) \<le> 1 / (1 - 1 / 2 ^ 30)" using x pos by (intro divide_left_mono) simp_all
  then have "1 / (1 + x) - 1 \<le> 1 / (1 - 1 / 2 ^ 30) - 1" by simp
  also have "\<dots> \<le> 1 / 2 ^ 29" by simp
  finally have "\<bar>ln (1 + x)\<bar> \<le> 1 / 2 ^ 29" using up x by (simp add: abs_le_iff)
  then have "\<bar>ln (1 + x)\<bar> / ln 2 \<le> (1 / 2 ^ 29) / (1 / 2)" using ln2_lower by (intro frac_le) simp_all
  then show ?thesis by (simp add: log_def abs_divide)
qed

lemma relative_abs: "0 < y \<Longrightarrow> \<bar>a / y - 1\<bar> = \<bar>a - y\<bar> / y" for a y :: real
  by (simp add: divide_simps abs_if)

lemma relative_factor: "0 < y \<Longrightarrow> a = y * (1 + (a / y - 1))" for a y :: real
  by simp

lemma scaled_self: "0 < y \<Longrightarrow> (y / c) / y = 1 / c" for c y :: real
  by simp

lemma log_power_int: "0 < a \<Longrightarrow> log b (a powi n) = n * log b a" for a b :: real
  by (cases "0 \<le> n") (simp_all add: power_int_def log_nat_power log_inverse power_inverse)

lemma tick_ratio_log:
  assumes "\<bar>t\<bar> \<le> 887272"
  shows "\<bar>log 2 (real (tick_ratio t)) - (96 + t * lg_base)\<bar> \<le> 1 / 2 ^ 28"
proof -
  let ?Y = "sqrt_price t"
  define x where "x = real (tick_ratio t) / ?Y - 1"
  have Y: "0 < ?Y" by (rule sqrt_price_pos)
  have "\<bar>x\<bar> = \<bar>real (tick_ratio t) - ?Y\<bar> / ?Y" unfolding x_def by (rule relative_abs [OF Y])
  also have "\<dots> \<le> (?Y / 2 ^ 30) / ?Y" using tick_ratio_close [OF assms] Y by (intro divide_right_mono) simp_all
  also have "(?Y / 2 ^ 30) / ?Y = 1 / 2 ^ 30" using scaled_self [OF Y] .
  finally have x: "\<bar>x\<bar> \<le> 1 / 2 ^ 30" .
  then have pos: "0 < 1 + x" by (simp add: abs_le_iff)
  have "real (tick_ratio t) = ?Y * (1 + x)" unfolding x_def by (rule relative_factor [OF Y])
  then have "log 2 (real (tick_ratio t)) = log 2 ?Y + log 2 (1 + x)" using log_mult_pos [OF Y pos] by metis
  moreover have "log 2 ?Y = 96 + t * lg_base"
  proof -
    have "log 2 ?Y = log 2 (2 ^ 96) + log 2 (inv_base powi (- t))" using inv_base_bounds by (intro log_mult_pos) simp_all
    moreover have "log 2 (inv_base powi (- t)) = - t * log 2 inv_base"
      using log_power_int [OF inv_base_bounds(1), of 2 "- t"] by simp
    moreover have lgb: "lg_base = - log 2 inv_base" using inv_base_bounds by (simp add: lg_base_def log_divide_pos)
    moreover have "log 2 (2 ^ 96 :: real) = 96" by (subst log_nat_power) simp_all
    ultimately have "log 2 ?Y = 96 + - t * log 2 inv_base" by (simp only:)
    then show ?thesis by (simp only: lgb)
  qed
  ultimately show ?thesis using log_near_one [OF x] by simp
qed


section \<open>The rounds of the code\<close>

lemma log_step_eq:
  assumes "mantissa r" "log_round r = (f, r')"
  shows "log_step i (of_nat r, d) = (of_nat r', if f = 1 then d OR push_bit i 1 else d)"
proof -
  let ?s = "r * r div 2 ^ 127"
  have sq: "r * r < 2 ^ 128 * 2 ^ 128" using assms(1) by (intro mult_strict_mono) simp_all
  then have "r * r < 2 ^ 256" by simp
  from drop_bit_of_nat_256 [OF this, of 127] have s: "drop_bit 127 (of_nat r * of_nat r :: u256) = of_nat ?s" by (simp only: of_nat_mult)
  have "?s \<le> r * r" by simp
  then have small: "?s < 2 ^ 256" using \<open>r * r < 2 ^ 256\<close> by linarith
  have "unat (of_nat (?s div 2 ^ 128) :: u256) = ?s div 2 ^ 128"
    using small by (intro unat_of_nat_256) (meson div_le_dividend order_le_less_trans)
  then have f: "drop_bit 128 (of_nat ?s :: u256) > 0 \<longleftrightarrow> 0 < ?s div 2 ^ 128"
    unfolding drop_bit_of_nat_256 [OF small] word_less_nat_alt by (simp only: unat_0)
  have "0 < ?s div 2 ^ 128 \<longleftrightarrow> \<not> ?s < 2 ^ 128" by (simp only: div_greater_zero_iff not_less) simp
  with f have "drop_bit 128 (of_nat ?s :: u256) > 0 \<longleftrightarrow> \<not> ?s < 2 ^ 128" by (rule trans)
  moreover have "drop_bit 1 (of_nat ?s :: u256) = of_nat (?s div 2)" using drop_bit_of_nat_256 [OF small, of 1] by (simp only: power_one_right)
  ultimately show ?thesis
    using assms(2) unfolding log_step_def log_round_def Let_def prod.case s by (cases "?s < 2 ^ 128") (simp_all only: if_True if_False not_True_eq_False not_False_eq_True prod.inject, auto)
qed


lemma log_steps_eq:
  assumes "mantissa r" "n \<le> 14" "log_rounds n r = (D, s)"
  shows "fold log_step (map (\<lambda>j. 63 - j) [0..<n]) (of_nat r, 0) = (of_nat s, of_nat (D * 2 ^ (64 - n)))"
  using assms(2,3)
proof (induction n arbitrary: D s)
  case 0
  then show ?case by simp
next
  case (Suc n)
  obtain D' s' where D': "log_rounds n r = (D', s')" by fastforce
  obtain f t where f: "log_round s' = (f, t)" by fastforce
  have eq: "D = 2 * D' + f" "s = t" using Suc.prems D' f by simp_all
  have m: "mantissa s'" using log_rounds_close [OF assms(1) D'] by blast
  have f01: "f = 0 \<or> f = 1" using log_round_mantissa(2) [OF m f] by linarith
  obtain k where k: "63 - n = k" "64 - n = Suc k" "64 - Suc n = k" "Suc k \<le> 256" using Suc.prems(1) by fastforce
  have "of_nat (D' * 2 ^ Suc k) OR push_bit k 1 = (of_nat (D' * 2 ^ Suc k) + push_bit k 1 :: u256)"
    using or_shifted [of "2 ^ k" "Suc k" "of_nat D'"] k(4) by (simp add: push_bit_eq_mult or.commute add.commute)
  also have "\<dots> = of_nat ((2 * D' + 1) * 2 ^ k)" by (simp add: push_bit_eq_mult algebra_simps)
  finally have set: "of_nat (D' * 2 ^ Suc k) OR push_bit k 1 = (of_nat ((2 * D' + 1) * 2 ^ k) :: u256)" .
  have "(if f = 1 then of_nat (D' * 2 ^ Suc k) OR push_bit k 1 else of_nat (D' * 2 ^ Suc k)) = (of_nat (D * 2 ^ k) :: u256)"
    using f01 unfolding set eq(1) by (auto simp: algebra_simps)
  then have "log_step (63 - n) (of_nat s', of_nat (D' * 2 ^ (64 - n))) = (of_nat s, of_nat (D * 2 ^ (64 - Suc n)))"
    using log_step_eq [OF m f, of k "of_nat (D' * 2 ^ Suc k)"] unfolding k eq(2) by (simp only: prod.inject)
  moreover have "fold log_step (map (\<lambda>j. 63 - j) [0..<n]) (of_nat r, 0) = (of_nat s', of_nat (D' * 2 ^ (64 - n)))"
    using Suc.IH [OF _ D'] Suc.prems(1) by simp
  ultimately show ?case by (simp only: upt_Suc le0 if_True map_append fold_append list.map fold_simps comp_apply)
qed

lemma log_indices: "rev [50..<64] = map (\<lambda>j. 63 - j) [0..<14]"
  by (simp add: upt_rec)


text \<open>The low bytes of a shifted number are its quotient.\<close>

lemma low_i32_drop:
  assumes "- (2 ^ 31) \<le> V div 2 ^ 128" "V div 2 ^ 128 < 2 ^ 31"
  shows "low_i32 (drop_bit 128 (word_of_int V)) = V div 2 ^ 128"
proof -
  have v: "uint (word_of_int V :: u256) = take_bit 256 V" by (simp add: uint_word_of_int take_bit_eq_mod)
  have "uint (take_bit 32 (drop_bit 128 (word_of_int V :: u256))) = take_bit 32 (drop_bit 128 (take_bit 256 V))"
    by (simp add: unsigned_take_bit_eq unsigned_drop_bit_eq v)
  also have "\<dots> = take_bit 32 (drop_bit 128 V)" by (simp add: drop_bit_take_bit)
  also have "\<dots> = (V div 2 ^ 128) mod 2 ^ 32" by (simp add: take_bit_eq_mod drop_bit_eq_div)
  finally have u: "uint (take_bit 32 (drop_bit 128 (word_of_int V :: u256))) = (V div 2 ^ 128) mod 2 ^ 32" .
  have "wrap_s 32 ((V div 2 ^ 128) mod 2 ^ 32) = wrap_s 32 (V div 2 ^ 128)" by (simp add: wrap_s_def mod_simps)
  also have "\<dots> = V div 2 ^ 128" using assms by (intro wrap_s_id) simp_all
  finally show ?thesis unfolding low_i32_def u .
qed

text \<open>The position of the highest bit and the mantissa.\<close>

lemma highest_bit:
  assumes "x \<noteq> 0"
  obtains m where "most_significant_bit x = int m" "m < 256" "2 ^ m \<le> unat x" "unat x < 2 ^ Suc m"
proof -
  obtain m where m: "m < 256" "most_significant_bit x = int m" "bit x m" "\<forall>i > m. \<not> bit x i"
    using most_significant_bit_iff [OF assms] by blast
  have bits: "bit (unat x) i \<longleftrightarrow> bit x i" for i by (simp add: bit_unsigned_iff)
  have "odd (unat x div 2 ^ m)" using m(3) bits by (simp add: bit_iff_odd)
  then have "0 < unat x div 2 ^ m" by (cases "unat x div 2 ^ m") auto
  then have lo: "2 ^ m \<le> unat x" by (simp add: div_greater_zero_iff)
  have "take_bit (Suc m) (unat x) = unat x"
    by (rule bit_eqI) (use m(4) bits not_less_eq in \<open>auto simp: bit_take_bit_iff\<close>)
  then have "unat x < 2 ^ Suc m" by (metis take_bit_nat_less_exp)
  with m lo show ?thesis using that by blast
qed

lemma mantissa_of:
  fixes N :: nat
  assumes "2 ^ m \<le> N" "N < 2 ^ Suc m" "N < 2 ^ 192"
  defines "r \<equiv> (if m \<ge> 128 then N div 2 ^ (m - 127) else N * 2 ^ (127 - m))"
  shows "mantissa r" "lg r \<le> log 2 (N / 2 ^ m)" "log 2 (N / 2 ^ m) \<le> lg r + 1 / 2 ^ 126"
proof -
  have N: "0 < real N" using assms(1) by (simp add: order_less_le_trans [of 0 "2 ^ m"])
  have "mantissa r \<and> real r \<le> real N * 2 ^ 127 / 2 ^ m \<and> real N * 2 ^ 127 / 2 ^ m \<le> real (r + 1)"
  proof (cases "128 \<le> m")
    case True
    define k where "k = m - 127"
    have k: "m = k + 127" using True by (simp add: k_def)
    have r: "r = N div 2 ^ k" using True by (simp add: r_def k)
    have "mantissa r" using assms(1,2) unfolding r by (simp add: k power_add less_eq_div_iff_mult_less_eq div_less_iff_less_mult mult.commute mult.left_commute)
    moreover have "real N * 2 ^ 127 / 2 ^ m = real N / real (2 ^ k)" by (simp add: k power_add)
    ultimately show ?thesis using real_div_bounds [of "2 ^ k" N] unfolding r by simp
  next
    case False
    define k where "k = 127 - m"
    have k: "m + k = 127" and r: "r = N * 2 ^ k" using False by (simp_all add: k_def r_def)
    have p: "(2 :: nat) ^ m * 2 ^ k = 2 ^ 127" "(2 :: real) ^ 127 = 2 ^ m * 2 ^ k" by (simp_all only: k flip: power_add)
    have "2 ^ m * 2 ^ k \<le> r" "r < 2 * (2 ^ m * 2 ^ k)" using assms(1,2) by (simp_all add: r)
    then have "mantissa r" unfolding p by simp
    moreover have "real N * 2 ^ 127 / 2 ^ m = real r" unfolding p(2) r by simp
    ultimately show ?thesis by simp
  qed
  then have r: "mantissa r" "real r / 2 ^ 127 \<le> real N / 2 ^ m" "real N / 2 ^ m \<le> real (r + 1) / 2 ^ 127" by (simp_all add: field_simps)
  have "0 < real r" using r(1) by (simp add: order_less_le_trans [of 0 "2 ^ 127"])
  show "mantissa r" using r(1) .
  show "lg r \<le> log 2 (N / 2 ^ m)" using r(2) \<open>0 < real r\<close> by (intro log_mono) simp_all
  have "log 2 (N / 2 ^ m) \<le> log 2 (real (r + 1) / 2 ^ 127)" using r(3) N by (intro log_mono) simp_all
  then show "log 2 (N / 2 ^ m) \<le> lg r + 1 / 2 ^ 126" using log_Suc_le [OF r(1)] by linarith
qed


section \<open>The tick of a price\<close>

abbreviation tick_base :: int where
  "tick_base \<equiv> 255738958999603826347141"

abbreviation tick_low_offset :: int where
  "tick_low_offset \<equiv> 3402992956809132418596140100660247210"

abbreviation tick_hi_offset :: int where
  "tick_hi_offset \<equiv> 291339464771989622907027621153398088495"

text \<open>The word that the code has for the logarithm.\<close>

lemma log_word:
  assumes "D < 2 ^ 14" "m < 256"
  shows "(if int m \<ge> 128 then push_bit 64 (word_of_int (int m - 128)) else - 1 - push_bit 64 (word_of_int (128 - int m)) + 1) OR
      of_nat (D * 2 ^ 50) = (word_of_int ((int m - 128) * 2 ^ 64 + int D * 2 ^ 50) :: u256)"
proof -
  have "(if int m \<ge> 128 then push_bit 64 (word_of_int (int m - 128)) else - 1 - push_bit 64 (word_of_int (128 - int m)) + 1) =
      (word_of_int (int m - 128) * 2 ^ 64 :: u256)"
    by (simp add: push_bit_eq_mult algebra_simps)
  moreover have "D * 2 ^ 50 < 2 ^ 64" using assms(1) by simp
  ultimately show ?thesis using or_shifted [of "D * 2 ^ 50" 64 "word_of_int (int m - 128)"] by (simp add: or.commute add.commute)
qed

lemma shifted_log:
  assumes "0 < P"
  shows "log 2 (real P / 2 ^ 96) = (real m - 128) + log 2 (real (P * 2 ^ 32) / 2 ^ m)"
proof -
  have "real (P * 2 ^ 32) / 2 ^ m = (real P / 2 ^ 96) * (2 ^ 128 / 2 ^ m)" by simp
  then have "log 2 (real (P * 2 ^ 32) / 2 ^ m) = log 2 (real P / 2 ^ 96) + log 2 (2 ^ 128 / 2 ^ m)"
    using assms by (simp only:) (intro log_mult_pos, simp_all)
  moreover have "log 2 (2 ^ 128 / 2 ^ m :: real) = 128 - real m"
    using log_divide_pos [of "2 ^ 128" "2 ^ m" 2] log_nat_power [of 2 2 128] log_nat_power [of 2 2 m] by simp
  ultimately show ?thesis by simp
qed

lemma code_log:
  assumes "MIN_SQRT_RATIO \<le> p" "p < MAX_SQRT_RATIO"
  obtains L :: int where "\<bar>L\<bar> \<le> 129 * 2 ^ 64"
    and "L / 2 ^ 64 \<le> log 2 (real (unat p) / 2 ^ 96)" "log 2 (real (unat p) / 2 ^ 96) \<le> L / 2 ^ 64 + 1 / 2 ^ 14 + 1 / 2 ^ 125"
    and "get_tick_at_sqrt_ratio p =
      (let tick_low = (L * tick_base - tick_low_offset) div 2 ^ 128; tick_hi = (L * tick_base + tick_hi_offset) div 2 ^ 128
       in if tick_low = tick_hi then Some tick_low
          else do { h \<leftarrow> get_sqrt_ratio_at_tick tick_hi; Some (if h \<le> p then tick_hi else tick_low) })"
proof -
  let ?N = "unat p * 2 ^ 32" and ?w = "push_bit 32 (ucast p :: u256)"
  have p: "unat p < 2 ^ 160" using unsigned_less [of p, where ?'a = nat] by simp
  then have N: "?N < 2 ^ 192" by simp
  have "unat (MIN_SQRT_RATIO :: u160) \<le> unat p" using assms(1) by (simp add: word_le_nat_alt)
  then have p0: "0 < unat p" by (simp add: MIN_SQRT_RATIO_def)
  have w: "?w = of_nat ?N" by (simp add: push_bit_eq_mult)
  have "?N < 2 ^ 256" using N by (rule order_less_trans) simp
  then have uw: "unat ?w = ?N" unfolding w by (rule unat_of_nat_256)
  then have "?w \<noteq> 0" using p0 by (metis mult_eq_0_iff not_less_zero power_not_zero unat_0 zero_neq_numeral)
  then obtain m where m: "most_significant_bit ?w = int m" "m < 256" "2 ^ m \<le> ?N" "?N < 2 ^ Suc m"
    by (rule highest_bit) (simp add: uw)
  define r where "r = (if m \<ge> 128 then ?N div 2 ^ (m - 127) else ?N * 2 ^ (127 - m))"
  note r = mantissa_of [OF m(3,4) N, folded r_def]
  obtain D s where D: "log_rounds 14 r = (D, s)" by fastforce
  have close: "mantissa s" "D < 2 ^ 14" "lg s + D \<le> 2 ^ 14 * lg r" "2 ^ 14 * lg r \<le> lg s + D + (2 ^ 14 - 1) / 2 ^ 126"
    using log_rounds_close [OF r(1) D] by blast+
  define L where "L = (int m - 128) * 2 ^ 64 + int D * 2 ^ 50"
  have LR: "L / 2 ^ 64 = (real m - 128) + D / 2 ^ 14" by (simp add: L_def field_simps)
  have "log 2 (real (unat p) / 2 ^ 96) = (real m - 128) + log 2 (?N / 2 ^ m)" by (rule shifted_log [OF p0])
  moreover have "0 \<le> lg s" using close(1) by simp
  moreover have "lg s \<le> 1"
  proof -
    have "lg s \<le> log 2 2" using close(1) by (intro log_mono) (simp_all add: order_less_le_trans [of 0 "2 ^ 127"])
    then show ?thesis by simp
  qed
  ultimately have y: "L / 2 ^ 64 \<le> log 2 (real (unat p) / 2 ^ 96)" "log 2 (real (unat p) / 2 ^ 96) \<le> L / 2 ^ 64 + 1 / 2 ^ 14 + 1 / 2 ^ 125"
    unfolding LR using r(2,3) close(3,4) by (simp_all add: field_simps)
  have "int D * 2 ^ 50 < 2 ^ 64" "0 \<le> int D * 2 ^ 50" "- 128 * 2 ^ 64 \<le> (int m - 128) * 2 ^ 64" "(int m - 128) * 2 ^ 64 \<le> 127 * 2 ^ 64"
    using m(2) close(2) by simp_all
  then have Lb: "\<bar>L\<bar> \<le> 129 * 2 ^ 64" unfolding L_def by linarith
  show thesis
  proof (rule that [OF Lb y])
    have range: "- (2 ^ 31) \<le> V div 2 ^ 128 \<and> V div 2 ^ 128 < 2 ^ 31" if "\<bar>V\<bar> \<le> 2 ^ 150" for V :: int
    proof -
      have "- (2 ^ 150) \<le> V" "V \<le> 2 ^ 150" using that by (simp_all add: abs_le_iff)
      then have "(- (2 ^ 150)) div 2 ^ 128 \<le> V div 2 ^ 128" "V div 2 ^ 128 \<le> 2 ^ 150 div 2 ^ 128" by (simp_all only: zdiv_mono1 zero_less_power zero_less_numeral)
      then show ?thesis by simp
    qed
    have V: "\<bar>L * tick_base - tick_low_offset\<bar> \<le> 2 ^ 150" "\<bar>L * tick_base + tick_hi_offset\<bar> \<le> 2 ^ 150"
      using Lb by (simp_all add: abs_le_iff)
    show "get_tick_at_sqrt_ratio p =
      (let tick_low = (L * tick_base - tick_low_offset) div 2 ^ 128; tick_hi = (L * tick_base + tick_hi_offset) div 2 ^ 128
       in if tick_low = tick_hi then Some tick_low
          else do { h \<leftarrow> get_sqrt_ratio_at_tick tick_hi; Some (if h \<le> p then tick_hi else tick_low) })"
    proof -
      have rw: "(if int m \<ge> 128 then drop_bit (nat (int m - 127)) ?w else push_bit (nat (127 - int m)) ?w) = of_nat r"
      proof (cases "128 \<le> m")
        case True
        then show ?thesis using drop_bit_of_nat_256 [OF \<open>?N < 2 ^ 256\<close>, of "m - 127"] unfolding w r_def by (simp add: nat_diff_distrib of_nat_diff)
      next
        case False
        then show ?thesis unfolding w r_def by (simp add: push_bit_eq_mult nat_diff_distrib)
      qed
      have logs: "fold log_step (rev [50..<64]) (of_nat r, 0) = (of_nat s, of_nat (D * 2 ^ 50))"
        unfolding log_indices using log_steps_eq [OF r(1) order_refl D] by simp
      have e: "low_i32 (drop_bit 128 (word_of_int L * 255738958999603826347141 - 3402992956809132418596140100660247210)) = (L * tick_base - tick_low_offset) div 2 ^ 128"
        "low_i32 (drop_bit 128 (word_of_int L * 255738958999603826347141 + 291339464771989622907027621153398088495)) = (L * tick_base + tick_hi_offset) div 2 ^ 128"
        using low_i32_drop [of "L * tick_base - tick_low_offset"] low_i32_drop [of "L * tick_base + tick_hi_offset"] range [OF V(1)] range [OF V(2)] by simp_all
      show ?thesis
        using assms unfolding get_tick_at_sqrt_ratio_def Let_def m(1) rw logs prod.case log_word [OF close(2) m(2)] L_def [symmetric] e
        by (simp only: simp_thms if_False)
    qed
  qed
qed


lemma int_div_bounds: "real_of_int V / 2 ^ 128 - 1 < real_of_int (V div 2 ^ 128)" "real_of_int (V div 2 ^ 128) \<le> real_of_int V / 2 ^ 128"
proof -
  have "real_of_int (V div 2 ^ 128) = of_int \<lfloor>real_of_int V / real_of_int (2 ^ 128)\<rfloor>" by (simp only: floor_divide_of_int_eq)
  then have "real_of_int (V div 2 ^ 128) = of_int \<lfloor>real_of_int V / 2 ^ 128\<rfloor>" by simp
  then show "real_of_int V / 2 ^ 128 - 1 < real_of_int (V div 2 ^ 128)" "real_of_int (V div 2 ^ 128) \<le> real_of_int V / 2 ^ 128" by linarith+
qed

text \<open>The approximation of the tick, as multiples of the logarithm of the base.\<close>

lemma base_constant: "\<bar>real_of_int tick_base / 2 ^ 64 * lg_base - 1\<bar> \<le> 1 / 2 ^ 35"
  using lg_base_bounds by (intro abs_leI) simp_all

lemma scaled_log:
  assumes "\<bar>L\<bar> \<le> 129 * 2 ^ 64"
  shows "\<bar>real_of_int (L * tick_base) / 2 ^ 128 * lg_base - L / 2 ^ 64\<bar> \<le> 129 / 2 ^ 35"
proof -
  have L: "\<bar>L / 2 ^ 64\<bar> \<le> (129 :: real)" using assms by (simp add: abs_le_iff)
  have "real_of_int (L * tick_base) / 2 ^ 128 * lg_base - L / 2 ^ 64 = L / 2 ^ 64 * (real_of_int tick_base / 2 ^ 64 * lg_base - 1)"
    by (simp add: algebra_simps)
  then have "\<bar>real_of_int (L * tick_base) / 2 ^ 128 * lg_base - L / 2 ^ 64\<bar> = \<bar>L / 2 ^ 64\<bar> * \<bar>real_of_int tick_base / 2 ^ 64 * lg_base - 1\<bar>"
    by (simp only: abs_mult)
  also have "\<dots> \<le> 129 * (1 / 2 ^ 35)" using L base_constant by (intro mult_mono) simp_all
  finally show ?thesis by simp
qed

lemma tick_bounds:
  fixes y :: real and L tick_low tick_hi :: int
  assumes "\<bar>L\<bar> \<le> 129 * 2 ^ 64" "L / 2 ^ 64 \<le> y" "y \<le> L / 2 ^ 64 + 1 / 2 ^ 14 + 1 / 2 ^ 125"
    and "tick_low = (L * tick_base - tick_low_offset) div 2 ^ 128" "tick_hi = (L * tick_base + tick_hi_offset) div 2 ^ 128"
  shows "tick_low * lg_base \<le> y - 1 / 2 ^ 21" "y + 1 / 2 ^ 21 \<le> (tick_hi + 1) * lg_base" "tick_hi * lg_base \<le> y + 0.9 * lg_base"
    "tick_low \<le> tick_hi" "tick_hi \<le> tick_low + 1"
proof -
  let ?v = "real_of_int (L * tick_base) / 2 ^ 128"
  have b: "0 < lg_base" using lg_base_bounds by simp
  have lo: "real_of_int tick_low \<le> ?v - 1 / 100" "?v - 0.0101 - 1 < real_of_int tick_low"
    using int_div_bounds [of "L * tick_base - tick_low_offset"] unfolding assms(4) by (simp_all add: diff_divide_distrib)
  have hi: "real_of_int tick_hi \<le> ?v + 0.8562" "?v + 0.85616 < real_of_int tick_hi + 1"
    using int_div_bounds [of "L * tick_base + tick_hi_offset"] unfolding assms(5) by (simp_all add: add_divide_distrib)
  have "real_of_int tick_low < real_of_int (tick_hi + 1)" "real_of_int tick_hi < real_of_int (tick_low + 2)" using lo hi by simp_all
  then show "tick_low \<le> tick_hi" "tick_hi \<le> tick_low + 1" unfolding of_int_less_iff by linarith+
  have v: "\<bar>?v * lg_base - L / 2 ^ 64\<bar> \<le> 129 / 2 ^ 35" by (rule scaled_log [OF assms(1)])
  have "tick_low * lg_base \<le> (?v - 1 / 100) * lg_base" "(?v + 0.85616) * lg_base \<le> (tick_hi + 1) * lg_base" "tick_hi * lg_base \<le> (?v + 0.8562) * lg_base"
    using lo(1) hi b by (simp_all add: mult_right_mono)
  then have m: "tick_low * lg_base \<le> ?v * lg_base - 1 / 100 * lg_base" "?v * lg_base + 0.85616 * lg_base \<le> (tick_hi + 1) * lg_base"
    "tick_hi * lg_base \<le> ?v * lg_base + 0.8562 * lg_base" by (simp_all only: distrib_right left_diff_distrib)
  have bb: "40606225026 / 2 ^ 49 \<le> lg_base" by (rule lg_base_bounds)
  define w where "w = ?v * lg_base"
  have w: "w \<le> L / 2 ^ 64 + 129 / 2 ^ 35" "L / 2 ^ 64 - 129 / 2 ^ 35 \<le> w" using abs_le_D1 [OF v] abs_le_D2 [OF v] unfolding w_def by linarith+
  show "tick_low * lg_base \<le> y - 1 / 2 ^ 21" using m(1) w(1) bb assms(2) unfolding w_def [symmetric] by simp
  show "y + 1 / 2 ^ 21 \<le> (tick_hi + 1) * lg_base" using m(2) w(2) bb assms(3) unfolding w_def [symmetric] by simp
  show "tick_hi * lg_base \<le> y + 0.9 * lg_base" using m(3) w(1) bb assms(2) unfolding w_def [symmetric] by simp
qed


lemma tick_ratio_pos:
  assumes "\<bar>t\<bar> \<le> 887272"
  shows "0 < tick_ratio t"
proof -
  have "0 < sqrt_price t * (1 - 1 / 2 ^ 30)" using sqrt_price_pos [of t] by (rule mult_pos_pos) simp
  also have "\<dots> \<le> real (tick_ratio t)" using relative_bounds [OF tick_ratio_close [OF assms]] by blast
  finally show ?thesis by simp
qed

lemma log_price: "0 < P \<Longrightarrow> log 2 (real P) = 96 + log 2 (real P / 2 ^ 96)"
  using log_divide_pos [of "real P" "2 ^ 96" 2] log_nat_power [of 2 2 96] by simp

lemma ratio_le_price:
  assumes "\<bar>t\<bar> \<le> 887272" "t * lg_base \<le> log 2 (real P / 2 ^ 96) - 1 / 2 ^ 21" "0 < P"
  shows "tick_ratio t \<le> P"
proof -
  have "log 2 (real (tick_ratio t)) \<le> log 2 (real P)"
    using abs_le_D1 [OF tick_ratio_log [OF assms(1)]] assms(2) unfolding log_price [OF assms(3)] by simp
  then show ?thesis using tick_ratio_pos [OF assms(1)] assms(3) by simp
qed

lemma price_less_ratio:
  assumes "\<bar>t\<bar> \<le> 887272" "log 2 (real P / 2 ^ 96) + 1 / 2 ^ 21 \<le> t * lg_base" "0 < P"
  shows "P < tick_ratio t"
proof -
  have "log 2 (real P) < log 2 (real (tick_ratio t))"
    using abs_le_D2 [OF tick_ratio_log [OF assms(1)]] assms(2) unfolding log_price [OF assms(3)] by simp
  then show ?thesis using tick_ratio_pos [OF assms(1)] assms(3) by simp
qed

lemma price_log_bounds:
  assumes "\<bar>t\<bar> \<le> 887272" "0 < P"
  shows "tick_ratio t \<le> P \<Longrightarrow> t * lg_base - 1 / 2 ^ 28 \<le> log 2 (real P / 2 ^ 96)"
    and "P < tick_ratio t \<Longrightarrow> log 2 (real P / 2 ^ 96) \<le> t * lg_base + 1 / 2 ^ 28"
proof -
  note r = tick_ratio_log [OF assms(1)] and pos = tick_ratio_pos [OF assms(1)]
  show "t * lg_base - 1 / 2 ^ 28 \<le> log 2 (real P / 2 ^ 96)" if "tick_ratio t \<le> P"
  proof -
    have "log 2 (real (tick_ratio t)) \<le> log 2 (real P)" using that pos by simp
    then show ?thesis using abs_le_D2 [OF r] unfolding log_price [OF assms(2)] by linarith
  qed
  show "log 2 (real P / 2 ^ 96) \<le> t * lg_base + 1 / 2 ^ 28" if "P < tick_ratio t"
  proof -
    have "log 2 (real P) \<le> log 2 (real (tick_ratio t))" using that assms(2) by simp
    then show ?thesis using abs_le_D1 [OF r] unfolding log_price [OF assms(2)] by linarith
  qed
qed

lemma get_tick_inverts:
  assumes "MIN_SQRT_RATIO \<le> p" "p < MAX_SQRT_RATIO"
  obtains t where "get_tick_at_sqrt_ratio p = Some t" "- 887272 \<le> t" "t < 887272" "tick_ratio t \<le> unat p" "unat p < tick_ratio (t + 1)"
proof -
  let ?P = "unat p" and ?y = "log 2 (real (unat p) / 2 ^ 96)"
  have P: "tick_ratio (- 887272) \<le> ?P" "?P < tick_ratio 887272"
    using assms by (simp_all add: tick_ratio_ends word_le_nat_alt word_less_nat_alt MIN_SQRT_RATIO_def MAX_SQRT_RATIO_def)
  then have pos: "0 < ?P" by (simp add: tick_ratio_ends)
  have b: "0 < lg_base" using lg_base_bounds by simp
  obtain L where L: "\<bar>L\<bar> \<le> 129 * 2 ^ 64" "L / 2 ^ 64 \<le> ?y" "?y \<le> L / 2 ^ 64 + 1 / 2 ^ 14 + 1 / 2 ^ 125"
    and eq: "get_tick_at_sqrt_ratio p =
      (let tick_low = (L * tick_base - tick_low_offset) div 2 ^ 128; tick_hi = (L * tick_base + tick_hi_offset) div 2 ^ 128
       in if tick_low = tick_hi then Some tick_low
          else do { h \<leftarrow> get_sqrt_ratio_at_tick tick_hi; Some (if h \<le> p then tick_hi else tick_low) })"
    by (rule code_log [OF assms])
  define tick_low where "tick_low = (L * tick_base - tick_low_offset) div 2 ^ 128"
  define tick_hi where "tick_hi = (L * tick_base + tick_hi_offset) div 2 ^ 128"
  note bounds = tick_bounds [OF L tick_low_def tick_hi_def]
  have y: "- 887272 * lg_base - 1 / 2 ^ 28 \<le> ?y" "?y \<le> 887272 * lg_base + 1 / 2 ^ 28"
    using price_log_bounds(1) [of "- 887272" ?P] price_log_bounds(2) [of 887272 ?P] P pos by simp_all
  have "real_of_int (- 887272) * lg_base < real_of_int (tick_hi + 1) * lg_base" using y(1) bounds(2) by simp
  then have "real_of_int (- 887272) < real_of_int (tick_hi + 1)" using b by (rule mult_right_less_imp_less [OF _ less_imp_le])
  then have hi: "- 887272 \<le> tick_hi" by (simp only: of_int_less_iff)
  have "1 / 2 ^ 28 < 0.1 * lg_base" using lg_base_bounds(1) by simp
  then have "real_of_int tick_hi * lg_base < 887273 * lg_base" using y(2) bounds(3) by linarith
  then have "real_of_int tick_hi * lg_base < real_of_int 887273 * lg_base" by (simp only: of_int_numeral)
  then have "real_of_int tick_hi < real_of_int 887273" using b by (rule mult_right_less_imp_less [OF _ less_imp_le])
  then have hi': "tick_hi \<le> 887272" by (simp only: of_int_less_iff)
  have low: "tick_ratio tick_low \<le> ?P" if "- 887272 \<le> tick_low"
    using ratio_le_price [OF _ bounds(1) pos] that bounds(4) hi' by simp
  have high: "?P < tick_ratio (tick_hi + 1)" if "tick_hi < 887272"
    using price_less_ratio [of "tick_hi + 1" ?P] bounds(2) pos that hi by simp
  have small: "tick_ratio tick_hi < 2 ^ 160"
    using tick_ratio_mono [of tick_hi 887272] hi hi' by (cases "tick_hi = 887272") (simp_all add: tick_ratio_ends)
  have "(of_nat (tick_ratio tick_hi) :: u160) \<le> p \<longleftrightarrow> tick_ratio tick_hi \<le> ?P"
    using small by (simp add: word_le_nat_alt unat_of_nat)
  moreover have "get_sqrt_ratio_at_tick tick_hi = Some (of_nat (tick_ratio tick_hi))" using hi hi' by (simp add: get_sqrt_ratio_eq abs_le_iff)
  ultimately have code: "get_tick_at_sqrt_ratio p = Some (if tick_low = tick_hi \<or> \<not> tick_ratio tick_hi \<le> ?P then tick_low else tick_hi)"
    unfolding eq Let_def tick_low_def [symmetric] tick_hi_def [symmetric] by simp
  show thesis
  proof (cases "tick_low = tick_hi \<or> \<not> tick_ratio tick_hi \<le> ?P")
    case True
    have "- 887272 \<le> tick_low"
    proof (rule ccontr)
      assume "\<not> - 887272 \<le> tick_low"
      then have "tick_hi = - 887272" "tick_low \<noteq> tick_hi" using hi bounds(5) by linarith+
      then show False using True P(1) by simp
    qed
    moreover from low [OF this] have "tick_low < 887272"
      using P(2) bounds(4) hi' by (cases "tick_low = 887272") simp_all
    moreover have "?P < tick_ratio (tick_low + 1)"
    proof (cases "tick_low = tick_hi")
      case True
      then show ?thesis using high \<open>tick_low < 887272\<close> by simp
    next
      case False
      then have "tick_hi = tick_low + 1" using bounds(4,5) by linarith
      then show ?thesis using True False by simp
    qed
    ultimately show ?thesis using that code True low by simp
  next
    case False
    then have "tick_hi < 887272" using P(2) hi' by (cases "tick_hi = 887272") simp_all
    then show ?thesis using that code False hi high by simp
  qed
qed


lemma sqrt_ratio_value:
  assumes "- 887272 \<le> t" "t \<le> 887272"
  obtains a where "get_sqrt_ratio_at_tick t = Some a" "unat a = tick_ratio t"
proof -
  have "tick_ratio t \<le> tick_ratio 887272" using tick_ratio_mono [of t 887272] assms by (cases "t = 887272") simp_all
  then have "tick_ratio t < 2 ^ 160" by (simp add: tick_ratio_ends)
  then have "unat (of_nat (tick_ratio t) :: u160) = tick_ratio t" by (simp add: unat_of_nat)
  then show ?thesis using that assms by (simp add: get_sqrt_ratio_eq abs_le_iff)
qed

section \<open>Properties\<close>

text \<open>C31: On the ticks of a pool \<open>get_sqrt_ratio_at_tick\<close> does not panic, its values are strictly increasing between the least and the greatest
  ratio, which it reaches, and each is the square root of \<open>1.0001 ^ tick\<close> with 96 fractional bits up to a relative error of
  \<open>2 ^ -30\<close>.\<close>

theorem sqrt_ratio_increasing:
  assumes "MIN_TICK \<le> s" "s < t" "t \<le> MAX_TICK"
  shows "\<exists>a b. get_sqrt_ratio_at_tick s = Some a \<and> get_sqrt_ratio_at_tick t = Some b \<and> MIN_SQRT_RATIO \<le> a \<and> a < b \<and> b \<le> MAX_SQRT_RATIO \<and>
    (a = MIN_SQRT_RATIO \<longleftrightarrow> s = MIN_TICK) \<and> (b = MAX_SQRT_RATIO \<longleftrightarrow> t = MAX_TICK) \<and>
    \<bar>real (unat a) - 2 ^ 96 * sqrt 1.0001 powi s\<bar> \<le> 2 ^ 96 * sqrt 1.0001 powi s / 2 ^ 30"
proof -
  have r: "- 887272 \<le> s" "s \<le> 887272" "- 887272 \<le> t" "t \<le> 887272" using assms by (simp_all add: MIN_TICK_def MAX_TICK_def)
  obtain a where a: "get_sqrt_ratio_at_tick s = Some a" "unat a = tick_ratio s" by (rule sqrt_ratio_value [OF r(1,2)])
  obtain b where b: "get_sqrt_ratio_at_tick t = Some b" "unat b = tick_ratio t" by (rule sqrt_ratio_value [OF r(3,4)])
  have ends: "unat MIN_SQRT_RATIO = tick_ratio (- 887272)" "unat MAX_SQRT_RATIO = tick_ratio 887272"
    by (simp_all add: tick_ratio_ends MIN_SQRT_RATIO_def MAX_SQRT_RATIO_def)
  note iff = tick_ratio_mono_iff
  have "MIN_SQRT_RATIO \<le> a" "b \<le> MAX_SQRT_RATIO" "a < b"
    using iff [of s "- 887272"] iff [of 887272 t] iff [of s t] r assms(2)
    by (simp_all add: word_le_nat_alt word_less_nat_alt ends a(2) b(2) not_less [symmetric])
  moreover have "tick_ratio s = tick_ratio (- 887272) \<longleftrightarrow> s = - 887272"
    using iff [of "- 887272" s] r by (cases "s = - 887272") auto
  then have "a = MIN_SQRT_RATIO \<longleftrightarrow> s = MIN_TICK" by (simp only: word_unat_eq_iff a(2) ends MIN_TICK_def)
  moreover have "tick_ratio t = tick_ratio 887272 \<longleftrightarrow> t = 887272"
    using iff [of t 887272] r by (cases "t = 887272") auto
  then have "b = MAX_SQRT_RATIO \<longleftrightarrow> t = MAX_TICK" by (simp only: word_unat_eq_iff b(2) ends MAX_TICK_def MIN_TICK_def minus_minus)
  moreover have "inv_base powi (- s) = sqrt 1.0001 powi s"
    by (simp add: inv_base_def power_int_minus real_sqrt_divide power_int_divide_distrib field_simps flip: power_int_inverse)
  then have "\<bar>real (unat a) - 2 ^ 96 * sqrt 1.0001 powi s\<bar> \<le> 2 ^ 96 * sqrt 1.0001 powi s / 2 ^ 30"
    unfolding a(2) using tick_ratio_close [of s] r by (simp only: abs_le_iff) simp
  ultimately show ?thesis using a(1) b(1) by blast
qed

theorem sqrt_ratio_increasing_witness:
  "get_sqrt_ratio_at_tick (- 887272) = Some MIN_SQRT_RATIO \<and> get_sqrt_ratio_at_tick 887272 = Some MAX_SQRT_RATIO"
  using sqrt_ratio_increasing [of "- 887272" 887272] by (auto simp: MIN_TICK_def MAX_TICK_def)

text \<open>C32: \<open>get_tick_at_sqrt_ratio\<close> inverts \<open>get_sqrt_ratio_at_tick\<close>: for every price of a pool it returns the greatest tick whose ratio is not above
  the price, and for the ratio of a tick below the greatest that tick; it panics on exactly the prices outside the range.\<close>

theorem tick_of_ratio_inverse:
  "case get_tick_at_sqrt_ratio p of
     None \<Rightarrow> p < MIN_SQRT_RATIO \<or> MAX_SQRT_RATIO \<le> p
   | Some t \<Rightarrow> MIN_TICK \<le> t \<and> t < MAX_TICK \<and>
       (\<exists>a b. get_sqrt_ratio_at_tick t = Some a \<and> get_sqrt_ratio_at_tick (t + 1) = Some b \<and> a \<le> p \<and> p < b) \<and>
       (get_sqrt_ratio_at_tick u = Some p \<longrightarrow> u = t)"
proof (cases "MIN_SQRT_RATIO \<le> p \<and> p < MAX_SQRT_RATIO")
  case True
  then obtain t where t: "get_tick_at_sqrt_ratio p = Some t" "- 887272 \<le> t" "t < 887272" "tick_ratio t \<le> unat p" "unat p < tick_ratio (t + 1)"
    using get_tick_inverts by metis
  obtain a where a: "get_sqrt_ratio_at_tick t = Some a" "unat a = tick_ratio t" using sqrt_ratio_value [of t] t by auto
  obtain b where b: "get_sqrt_ratio_at_tick (t + 1) = Some b" "unat b = tick_ratio (t + 1)" using sqrt_ratio_value [of "t + 1"] t by auto
  have "u = t" if u: "get_sqrt_ratio_at_tick u = Some p"
  proof -
    have range: "- 887272 \<le> u" "u \<le> 887272" using u by (auto simp: get_sqrt_ratio_eq split: if_splits)
    then have "unat p = tick_ratio u" using u sqrt_ratio_value [of u] by auto
    then have "\<not> tick_ratio u < tick_ratio t" "tick_ratio u < tick_ratio (t + 1)" using t(4,5) by simp_all
    then show ?thesis using tick_ratio_mono_iff [of u t] tick_ratio_mono_iff [of u "t + 1"] t(2,3) range by simp
  qed
  with t a b show ?thesis by (auto simp: word_le_nat_alt word_less_nat_alt MIN_TICK_def MAX_TICK_def)
next
  case False
  then show ?thesis by (auto simp: get_tick_at_sqrt_ratio_def)
qed

theorem tick_of_ratio_inverse_witness:
  "\<exists>a. get_sqrt_ratio_at_tick 42 = Some a \<and> get_tick_at_sqrt_ratio a = Some 42"
proof -
  obtain a where a: "get_sqrt_ratio_at_tick 42 = Some a" "unat a = tick_ratio 42" by (rule sqrt_ratio_value [of 42]) simp_all
  have "MIN_SQRT_RATIO \<le> a \<and> a < MAX_SQRT_RATIO"
    using a(2) tick_ratio_mono [of "- 887272" 42] tick_ratio_mono [of 42 887272]
    by (simp add: word_le_nat_alt word_less_nat_alt tick_ratio_ends MIN_SQRT_RATIO_def MAX_SQRT_RATIO_def)
  with a tick_of_ratio_inverse [of a 42] show ?thesis by (auto split: option.splits)
qed

end
