(* ===== verification/Sqrt_Price.thy ===== *)
theory Sqrt_Price
  imports Tick_Math Value_Types
begin

text \<open>
  Prices and amounts of a pool (\<open>crates/model/src/defi/tick_map/sqrt_price_math.rs\<close>): the amounts of the two tokens between two prices, and
  the price after an amount was traded, both with the rounding that favours the pool.

  The operations panic where the source does: a conversion to 160 bits that does not fit, an unsatisfied assertion, a division by zero.
  Where the source replaces an error by zero (\<open>unwrap_or(U256::ZERO)\<close>), so does the model; the lemmas show that this does not
  happen for the arguments of a pool.
\<close>

section \<open>Operations\<close>

fun expect :: "(math_error + 'a) panics \<Rightarrow> 'a panics" where
  "expect (Some (Inr x)) = Some x"
| "expect _ = None"

fun or_zero :: "(math_error + u256) panics \<Rightarrow> u256 panics" where
  "or_zero (Some (Inr x)) = Some x"
| "or_zero (Some (Inl _)) = Some 0"
| "or_zero None = None"

definition U160_MAX :: u256 where
  "U160_MAX = ucast (- 1 :: u160)"

definition encode_sqrt_ratio_x96 :: "mul_mod \<Rightarrow> u128 \<Rightarrow> u128 \<Rightarrow> u160 panics" where
  "encode_sqrt_ratio_x96 mm amount0 amount1 =
     (let amount0_u256 = ucast amount0; amount1_u256 = ucast amount1 :: u256 in
      if amount1_u256 = 0 then None
      else if amount0_u256 = 0 then Some 0
      else let q192 = push_bit 192 1 in do {
        bound \<leftarrow> checked_div (- 1) q192;
        if amount0_u256 > bound then do {
          sqrt_amount0 \<leftarrow> isqrt amount0_u256;
          sqrt_amount1 \<leftarrow> isqrt amount1_u256;
          if sqrt_amount1 = 0 then None
          else do {
            result \<leftarrow> expect (mul_div mm sqrt_amount0 (push_bit 96 1) sqrt_amount1);
            if result > U160_MAX then Some (- 1) else to_u160 result
          }
        }
        else do {
          ratio_q192 \<leftarrow> expect (mul_div mm amount0_u256 q192 amount1_u256);
          sqrt_result \<leftarrow> isqrt ratio_q192;
          if sqrt_result > U160_MAX then Some (- 1) else to_u160 sqrt_result
        }
      })"

definition get_next_sqrt_price_from_amount0_rounding_up :: "mul_mod \<Rightarrow> u160 \<Rightarrow> u128 \<Rightarrow> u256 \<Rightarrow> bool \<Rightarrow> u160 panics" where
  "get_next_sqrt_price_from_amount0_rounding_up mm sqrt_price_x96 liquidity amount add =
     (if amount = 0 then Some sqrt_price_x96
      else
        let numerator = push_bit 96 (ucast liquidity) :: u256;
            sqrt_price = ucast sqrt_price_x96 :: u256;
            product = amount * sqrt_price
        in do {
          back \<leftarrow> checked_div product amount;
          if add then
            (if back = sqrt_price \<and> numerator + product \<ge> numerator
             then do { result \<leftarrow> expect (mul_div_rounding_up mm numerator sqrt_price (numerator + product)); to_u160 result }
             else do {
               q \<leftarrow> checked_div numerator sqrt_price;
               result \<leftarrow> expect (div_rounding_up numerator (q + amount));
               if result \<le> U160_MAX then to_u160 result else None
             })
          else if back = sqrt_price \<and> numerator > product
          then do { result \<leftarrow> expect (mul_div_rounding_up mm numerator sqrt_price (numerator - product)); to_u160 result }
          else None
        })"

definition get_next_sqrt_price_from_amount1_rounding_down :: "mul_mod \<Rightarrow> u160 \<Rightarrow> u128 \<Rightarrow> u256 \<Rightarrow> bool \<Rightarrow> u160 panics" where
  "get_next_sqrt_price_from_amount1_rounding_down mm sqrt_price_x96 liquidity amount add =
     (if add then do {
        quotient \<leftarrow> (if amount \<le> U160_MAX then checked_div (push_bit 96 amount) (ucast liquidity)
                     else or_zero (mul_div mm amount (push_bit 96 1) (ucast liquidity)));
        to_u160 (ucast sqrt_price_x96 + quotient)
      }
      else do {
        quotient \<leftarrow> (if amount \<le> U160_MAX then or_zero (div_rounding_up (push_bit 96 amount) (ucast liquidity))
                     else or_zero (mul_div_rounding_up mm amount (push_bit 96 1) (ucast liquidity)));
        if ucast sqrt_price_x96 > quotient then to_u160 (ucast sqrt_price_x96 - quotient) else None
      })"

definition get_next_sqrt_price_from_input :: "mul_mod \<Rightarrow> u160 \<Rightarrow> u128 \<Rightarrow> u256 \<Rightarrow> bool \<Rightarrow> u160 panics" where
  "get_next_sqrt_price_from_input mm sqrt_price_x96 liquidity amount_in zero_for_one =
     (if \<not> sqrt_price_x96 > 0 then None
      else if \<not> liquidity > 0 then None
      else if zero_for_one then get_next_sqrt_price_from_amount0_rounding_up mm sqrt_price_x96 liquidity amount_in True
      else get_next_sqrt_price_from_amount1_rounding_down mm sqrt_price_x96 liquidity amount_in True)"

definition get_next_sqrt_price_from_output :: "mul_mod \<Rightarrow> u160 \<Rightarrow> u128 \<Rightarrow> u256 \<Rightarrow> bool \<Rightarrow> u160 panics" where
  "get_next_sqrt_price_from_output mm sqrt_price_x96 liquidity amount_out zero_for_one =
     (if \<not> sqrt_price_x96 > 0 then None
      else if \<not> liquidity > 0 then None
      else if zero_for_one then get_next_sqrt_price_from_amount1_rounding_down mm sqrt_price_x96 liquidity amount_out False
      else get_next_sqrt_price_from_amount0_rounding_up mm sqrt_price_x96 liquidity amount_out False)"

definition sort_ratios :: "u160 \<Rightarrow> u160 \<Rightarrow> u160 \<times> u160" where
  "sort_ratios sqrt_ratio_ax96 sqrt_ratio_bx96 =
     (if sqrt_ratio_ax96 > sqrt_ratio_bx96 then (sqrt_ratio_bx96, sqrt_ratio_ax96) else (sqrt_ratio_ax96, sqrt_ratio_bx96))"

definition get_amount0_delta :: "mul_mod \<Rightarrow> u160 \<Rightarrow> u160 \<Rightarrow> u128 \<Rightarrow> bool \<Rightarrow> u256 panics" where
  "get_amount0_delta mm sqrt_ratio_ax96 sqrt_ratio_bx96 liquidity round_up =
     (let (sqrt_ratio_a, sqrt_ratio_b) = sort_ratios sqrt_ratio_ax96 sqrt_ratio_bx96;
          numerator1 = push_bit 96 (ucast liquidity) :: u256;
          numerator2 = ucast (sqrt_ratio_b - sqrt_ratio_a) :: u256
      in if round_up then do {
           result \<leftarrow> or_zero (mul_div_rounding_up mm numerator1 numerator2 (ucast sqrt_ratio_b));
           or_zero (div_rounding_up result (ucast sqrt_ratio_a))
         }
         else do {
           result \<leftarrow> or_zero (mul_div mm numerator1 numerator2 (ucast sqrt_ratio_b));
           checked_div result (ucast sqrt_ratio_a)
         })"

definition get_amount1_delta :: "mul_mod \<Rightarrow> u160 \<Rightarrow> u160 \<Rightarrow> u128 \<Rightarrow> bool \<Rightarrow> u256 panics" where
  "get_amount1_delta mm sqrt_ratio_ax96 sqrt_ratio_bx96 liquidity round_up =
     (let (sqrt_ratio_a, sqrt_ratio_b) = sort_ratios sqrt_ratio_ax96 sqrt_ratio_bx96;
          liquidity_u256 = ucast liquidity :: u256;
          sqrt_ratio_diff = ucast (sqrt_ratio_b - sqrt_ratio_a) :: u256;
          q96 = push_bit 96 1
      in if round_up then or_zero (mul_div_rounding_up mm liquidity_u256 sqrt_ratio_diff q96)
         else or_zero (mul_div mm liquidity_u256 sqrt_ratio_diff q96))"

definition get_amounts_for_liquidity :: "mul_mod \<Rightarrow> u160 \<Rightarrow> int \<Rightarrow> int \<Rightarrow> u128 \<Rightarrow> bool \<Rightarrow> (u256 \<times> u256) panics" where
  "get_amounts_for_liquidity mm sqrt_ratio_x96 tick_lower tick_upper liquidity round_up = do {
     sqrt_ratio_lower_x96 \<leftarrow> get_sqrt_ratio_at_tick tick_lower;
     sqrt_ratio_upper_x96 \<leftarrow> get_sqrt_ratio_at_tick tick_upper;
     let (sqrt_ratio_a, sqrt_ratio_b) = sort_ratios sqrt_ratio_lower_x96 sqrt_ratio_upper_x96;
     amount0 \<leftarrow> (if sqrt_ratio_x96 \<le> sqrt_ratio_a then get_amount0_delta mm sqrt_ratio_a sqrt_ratio_b liquidity round_up
       else if sqrt_ratio_x96 < sqrt_ratio_b then get_amount0_delta mm sqrt_ratio_x96 sqrt_ratio_b liquidity round_up
       else Some 0);
     amount1 \<leftarrow> (if sqrt_ratio_x96 < sqrt_ratio_a then Some 0
       else if sqrt_ratio_x96 < sqrt_ratio_b then get_amount1_delta mm sqrt_ratio_a sqrt_ratio_x96 liquidity round_up
       else get_amount1_delta mm sqrt_ratio_a sqrt_ratio_b liquidity round_up);
     Some (amount0, amount1)
   }"

definition expand_to_18_decimals :: "u64 \<Rightarrow> u128" where
  "expand_to_18_decimals amount = ucast amount * 10 ^ 18"

datatype price_error = MathError math_error | PriceOverflow u256 | AboveMaximum int | BelowMinimum int

text \<open>The operator \<open>?\<close> on a result of the 512-bit arithmetic.\<close>

definition try_math :: "(math_error + 'a) panics \<Rightarrow> ('a \<Rightarrow> (price_error + 'b) panics) \<Rightarrow> (price_error + 'b) panics" where
  "try_math m f = do { r \<leftarrow> m; case r of Inl e \<Rightarrow> Some (Inl (MathError e)) | Inr x \<Rightarrow> f x }"

definition to_price_raw :: "u256 \<Rightarrow> price_error + int" where
  "to_price_raw v = (if int (unat v) \<le> i128_max then Inr (int (unat v)) else Inl (PriceOverflow v))"

definition decode_sqrt_price_x96_to_price :: "mul_mod \<Rightarrow> u160 \<Rightarrow> (price_error + price) panics" where
  "decode_sqrt_price_x96_to_price mm sqrt_price_x96 =
     (let sqrt_price = ucast sqrt_price_x96 :: u256;
          price_x192 = sqrt_price * sqrt_price;
          fixed_scalar = ucast (10 ^ FIXED_PRECISION :: u128);
          divisor = push_bit 192 1
      in try_math (mul_div mm price_x192 fixed_scalar divisor) (\<lambda>price_raw_u256.
           case to_price_raw price_raw_u256 of
             Inl e \<Rightarrow> Some (Inl e)
           | Inr price_raw \<Rightarrow> map_option Inr (price_from_raw price_raw FIXED_PRECISION)))"

definition decode_sqrt_price_x96_to_price_tokens_adjusted :: "mul_mod \<Rightarrow> u160 \<Rightarrow> 8 word \<Rightarrow> 8 word \<Rightarrow> bool \<Rightarrow> (price_error + price) panics" where
  "decode_sqrt_price_x96_to_price_tokens_adjusted mm sqrt_price_x96 token0_decimals token1_decimals invert =
     (let sqrt_price = ucast sqrt_price_x96 :: u256;
          price_x192 = sqrt_price * sqrt_price;
          decimal_diff = int (unat token0_decimals) - int (unat token1_decimals);
          fixed_scalar = ucast (10 ^ FIXED_PRECISION :: u128);
          divisor_base = push_bit 192 1;
          decimal_adjustment = ucast (10 ^ nat \<bar>decimal_diff\<bar> :: u128);
          finish = (\<lambda>numerator. case to_price_raw numerator of
             Inl e \<Rightarrow> Some (Inl e)
           | Inr price_raw \<Rightarrow>
               if price_raw > PRICE_RAW_MAX then Some (Inl (AboveMaximum price_raw))
               else if price_raw < PRICE_RAW_MIN then Some (Inl (BelowMinimum price_raw))
               else map_option Inr (price_from_raw price_raw FIXED_PRECISION))
      in if invert then
           (if decimal_diff \<ge> 0 then
              try_math (mul_div mm price_x192 decimal_adjustment 1) (\<lambda>denominator.
                try_math (mul_div mm divisor_base fixed_scalar denominator) finish)
            else
              try_math (mul_div mm divisor_base decimal_adjustment 1) (\<lambda>numerator_adjusted.
                try_math (mul_div mm numerator_adjusted fixed_scalar price_x192) finish))
         else if decimal_diff \<ge> 0 then
           try_math (mul_div mm price_x192 decimal_adjustment 1) (\<lambda>temp.
             try_math (mul_div mm temp fixed_scalar divisor_base) finish)
         else try_math (mul_div mm price_x192 fixed_scalar (divisor_base * decimal_adjustment)) finish)"

section \<open>Rounded quotients\<close>

lemma ceil_div_le_iff:
  assumes "0 < d"
  shows "ceil_div n d \<le> k \<longleftrightarrow> n \<le> k * d"
proof -
  have "ceil_div n d \<le> k \<longleftrightarrow> n + d - 1 < (k + 1) * d"
    using assms div_less_iff_less_mult [of d "n + d - 1" "k + 1"] by (simp add: ceil_div_def less_Suc_eq_le)
  then show ?thesis using assms by auto
qed

lemma less_ceil_div_iff:
  assumes "0 < d"
  shows "k < ceil_div n d \<longleftrightarrow> k * d < n"
  using ceil_div_le_iff [OF assms, of n k] by linarith

lemma ceil_div_le_self:
  assumes "0 < d"
  shows "ceil_div n d \<le> n"
  using assms by (simp add: ceil_div_le_iff)

lemma ceil_div_ceil_div:
  assumes "0 < a" "0 < b"
  shows "ceil_div (ceil_div n b) a = ceil_div n (a * b)"
proof -
  have "ceil_div (ceil_div n b) a \<le> k \<longleftrightarrow> ceil_div n (a * b) \<le> k" for k
    using assms by (simp add: ceil_div_le_iff mult.assoc)
  then show ?thesis by (metis order.antisym order.refl)
qed

lemma ceil_div_eqI:
  assumes "0 < d" "n \<le> q * d" "\<And>k. k < q \<Longrightarrow> k * d < n"
  shows "ceil_div n d = q"
  using assms less_ceil_div_iff [of d _ n] ceil_div_le_iff [of d n q] by (metis nat_neq_iff not_less)

text \<open>The amounts of the two tokens between prices \<open>a \<le> b\<close>, rounded up or down.\<close>

definition rounded :: "bool \<Rightarrow> nat \<Rightarrow> nat \<Rightarrow> nat" where
  "rounded up n d = (if up then ceil_div n d else n div d)"

definition amount0 :: "nat \<Rightarrow> nat \<Rightarrow> nat \<Rightarrow> bool \<Rightarrow> nat" where
  "amount0 l a b up = rounded up (l * 2 ^ 96 * (b - a)) (a * b)"

definition amount1 :: "nat \<Rightarrow> nat \<Rightarrow> nat \<Rightarrow> bool \<Rightarrow> nat" where
  "amount1 l a b up = rounded up (l * (b - a)) (2 ^ 96)"

lemma rounded_rounded: "0 < a \<Longrightarrow> 0 < b \<Longrightarrow> rounded up (rounded up n b) a = rounded up n (a * b)"
  by (simp add: rounded_def ceil_div_ceil_div mult.commute [of a] flip: div_mult2_eq)

lemma rounded_le: "0 < d \<Longrightarrow> n \<le> k * d \<Longrightarrow> rounded up n d \<le> k"
  by (auto simp: rounded_def ceil_div_le_iff div_le_mono2 dest: div_le_mono [of _ _ d])

lemma rounded_0 [simp]: "rounded up 0 d = 0"
  by (cases d) (simp_all add: rounded_def ceil_div_def)

section \<open>Words\<close>

lemma u160_bound: "unat (x :: u160) < 2 ^ 160"
  using unsigned_less [of x, where ?'a = nat] by simp

lemma u128_bound: "unat (x :: u128) < 2 ^ 128"
  using unsigned_less [of x, where ?'a = nat] by simp

lemma below_256: "n < 2 ^ k \<Longrightarrow> k \<le> 256 \<Longrightarrow> n < (2 :: nat) ^ 256"
  by (metis order.strict_trans2 one_le_numeral power_increasing)

lemma unat_ucast_160 [simp]: "unat (ucast (x :: u160) :: u256) = unat x"
  using below_256 [OF u160_bound, of x] by (simp add: unsigned_ucast_eq take_bit_nat_eq_self_iff)

lemma unat_ucast_128 [simp]: "unat (ucast (x :: u128) :: u256) = unat x"
  using below_256 [OF u128_bound, of x] by (simp add: unsigned_ucast_eq take_bit_nat_eq_self_iff)

lemma push_bit_unat_256: "unat (x :: u256) * 2 ^ k < 2 ^ 256 \<Longrightarrow> push_bit k x = of_nat (unat x * 2 ^ k)"
  by (simp add: push_bit_eq_mult)

lemma unat_push_bit_256: "unat (x :: u256) * 2 ^ k < 2 ^ 256 \<Longrightarrow> unat (push_bit k x) = unat x * 2 ^ k"
  by (simp only: push_bit_unat_256 unat_of_nat_256)

lemma shifted_bound:
  assumes "x < 2 ^ m"
  shows "x * 2 ^ k < (2 :: nat) ^ (m + k)"
  using assms by (simp add: power_add)

lemma unat_numerator: "unat (push_bit 96 (ucast (l :: u128)) :: u256) = unat l * 2 ^ 96"
  and numerator_bound: "unat l * 2 ^ 96 < 2 ^ 224"
proof -
  show *: "unat l * 2 ^ 96 < 2 ^ 224" using shifted_bound [OF u128_bound, of l 96] by simp
  have "unat (ucast l :: u256) * 2 ^ 96 < 2 ^ 256" unfolding unat_ucast_128 by (rule below_256 [OF *]) simp
  then show "unat (push_bit 96 (ucast l) :: u256) = unat l * 2 ^ 96" by (simp only: unat_push_bit_256 unat_ucast_128)
qed

lemma to_u160_of_nat:
  assumes "n < 2 ^ 160"
  shows "to_u160 (of_nat n) = Some (of_nat n)"
proof -
  have u: "unat (of_nat n :: u256) = n" using below_256 [OF assms] by (simp add: unat_of_nat_256)
  moreover have "ucast (of_nat n :: u256) = (of_nat n :: u160)" by (metis u of_nat_unat)
  ultimately show ?thesis using assms by (simp only: to_u160_def if_True)
qed

section \<open>Amounts between two prices\<close>

lemma sort_ratios_eq: "sort_ratios a b = (min a b, max a b)"
  by (auto simp: sort_ratios_def min_def max_def)

lemma rounded_fits:
  assumes "n < 2 ^ 224" "k \<le> d" "0 < d"
  shows "rounded up (n * k) d \<le> n" "rounded up (n * k) d < 2 ^ 256"
proof -
  show "rounded up (n * k) d \<le> n" using assms by (intro rounded_le) simp_all
  then have "rounded up (n * k) d < 2 ^ 224" using assms(1) by (rule order.strict_trans1)
  then show "rounded up (n * k) d < 2 ^ 256" by (rule below_256) simp
qed

lemma mul_div_rounded:
  assumes "mul_mod_spec mm" "unat d \<noteq> 0" "rounded up (unat a * unat b) (unat d) < 2 ^ 256"
  shows "(if up then mul_div_rounding_up mm a b d else mul_div mm a b d) = Some (Inr (of_nat (rounded up (unat a * unat b) (unat d))))"
  using assms(2,3) by (auto simp only: rounded_def mul_div_eq [OF assms(1)] mul_div_rounding_up_eq [OF assms(1)] Let_def not_le [symmetric] split: if_splits)

lemma div_rounded:
  assumes "d \<noteq> 0"
  shows "(if up then or_zero (div_rounding_up a d) else checked_div a d) = Some (of_nat (rounded up (unat a) (unat d)))"
proof -
  have "a div d = of_nat (unat a div unat d)" by (metis of_nat_unat_256 unat_div)
  then show ?thesis using assms by (simp add: rounded_def div_rounding_up_eq checked_div_def)
qed

lemma get_amount0_delta_sorted:
  assumes "mul_mod_spec mm" "0 < a" "a \<le> b"
  shows "get_amount0_delta mm a b l up = Some (of_nat (amount0 (unat l) (unat a) (unat b) up))"
    and "get_amount0_delta mm b a l up = Some (of_nat (amount0 (unat l) (unat a) (unat b) up))"
proof -
  let ?n = "unat l * 2 ^ 96" and ?a = "unat a" and ?b = "unat b"
  have pos: "0 < ?a" "?a \<le> ?b" using assms by (simp_all add: word_le_nat_alt unat_gt_0)
  then have b: "0 < ?b" by simp
  note sub = unat_sub [OF assms(3)]
  have fits: "rounded up (?n * (?b - ?a)) ?b < 2 ^ 256"
    by (rule rounded_fits) (use numerator_bound [of l] b in simp_all)
  then have r: "unat (of_nat (rounded up (?n * (?b - ?a)) ?b) :: u256) = rounded up (?n * (?b - ?a)) ?b" by (rule unat_of_nat_256)
  have first: "(if up then mul_div_rounding_up mm (push_bit 96 (ucast l)) (ucast (b - a)) (ucast b)
      else mul_div mm (push_bit 96 (ucast l)) (ucast (b - a)) (ucast b)) = Some (Inr (of_nat (rounded up (?n * (?b - ?a)) ?b)))"
    using mul_div_rounded [OF assms(1), of "ucast b" up "push_bit 96 (ucast l)" "ucast (b - a)"] b fits
    by (simp only: unat_numerator unat_ucast_160 sub)
  have second: "(if up then or_zero (div_rounding_up x (ucast a)) else checked_div x (ucast a)) = Some (of_nat (rounded up (unat x) ?a))" for x :: u256
    using div_rounded [of "ucast a :: u256" up x] pos by (simp add: word_unat_eq_iff)
  have "sort_ratios a b = (a, b)" "sort_ratios b a = (a, b)" using assms(3) by (auto simp: sort_ratios_eq min_def max_def)
  then show "get_amount0_delta mm a b l up = Some (of_nat (amount0 (unat l) ?a ?b up))"
    "get_amount0_delta mm b a l up = Some (of_nat (amount0 (unat l) ?a ?b up))"
    using first second [of "of_nat (rounded up (?n * (?b - ?a)) ?b)"] pos(1) b
    by (auto simp only: get_amount0_delta_def Let_def prod.case r rounded_rounded amount0_def or_zero.simps Option.bind.simps split: if_splits)
qed

lemma get_amount1_delta_sorted:
  assumes "mul_mod_spec mm" "a \<le> b"
  shows "get_amount1_delta mm a b l up = Some (of_nat (amount1 (unat l) (unat a) (unat b) up))"
    and "get_amount1_delta mm b a l up = Some (of_nat (amount1 (unat l) (unat a) (unat b) up))"
proof -
  note sub = unat_sub [OF assms(2)]
  have q: "unat (push_bit 96 1 :: u256) = 2 ^ 96" by simp
  have "unat l * (unat b - unat a) < 2 ^ 128 * 2 ^ 160"
    using u128_bound [of l] u160_bound [of b] by (intro mult_strict_mono') simp_all
  also have "\<dots> = 2 ^ 192 * (2 :: nat) ^ 96" by (simp only: flip: power_add) simp
  finally have "rounded up (unat l * (unat b - unat a)) (2 ^ 96) \<le> 2 ^ 192" by (intro rounded_le) simp_all
  then have "rounded up (unat l * (unat b - unat a)) (2 ^ 96) < 2 ^ 193" by (rule order.strict_trans1) simp
  then have fits: "rounded up (unat l * (unat b - unat a)) (2 ^ 96) < 2 ^ 256" by (rule below_256) simp
  have mul: "(if up then mul_div_rounding_up mm (ucast l) (ucast (b - a)) (push_bit 96 1) else mul_div mm (ucast l) (ucast (b - a)) (push_bit 96 1)) =
      Some (Inr (of_nat (rounded up (unat l * (unat b - unat a)) (2 ^ 96))))"
    using mul_div_rounded [OF assms(1), of "push_bit 96 1" up "ucast l" "ucast (b - a)"] fits
    by (simp only: q unat_ucast_128 unat_ucast_160 sub) simp
  have "sort_ratios a b = (a, b)" "sort_ratios b a = (a, b)" using assms(2) by (auto simp: sort_ratios_eq min_def max_def)
  then show "get_amount1_delta mm a b l up = Some (of_nat (amount1 (unat l) (unat a) (unat b) up))"
    "get_amount1_delta mm b a l up = Some (of_nat (amount1 (unat l) (unat a) (unat b) up))"
    using mul by (auto simp only: get_amount1_delta_def Let_def prod.case amount1_def or_zero.simps split: if_splits)
qed

section \<open>The price after a trade\<close>

text \<open>Token 0 comes in: the price \<open>q\<close> after it is between the target \<open>t\<close> and the price \<open>p\<close>, and moving there costs no more than what came in.\<close>

lemma amount0_at_most:
  assumes "0 < q" "q \<le> p" "n * p \<le> q * (n + a * p)"
  shows "ceil_div (n * (p - q)) (q * p) \<le> a"
  using assms by (auto simp: ceil_div_le_iff diff_mult_distrib2 distrib_left mult_ac)

lemma target_not_reached:
  fixes a t p n :: nat
  assumes "a * (t * p) < n * (p - t)" "t \<le> p"
  shows "t * (n + a * p) < n * p"
proof -
  have "n * (p - t) + n * t = n * p" by (simp only: assms(2) le_add_diff_inverse2 flip: distrib_left)
  moreover have "t * (n + a * p) = n * t + a * (t * p)" by (simp add: algebra_simps)
  ultimately show ?thesis using assms(1) by linarith
qed

lemma input0_exact:
  assumes "0 < n + a * p" "t * (n + a * p) < n * p"
  defines "q \<equiv> ceil_div (n * p) (n + a * p)"
  shows "t < q" "q \<le> p" "n * p \<le> q * (n + a * p)"
proof -
  show "t < q" unfolding q_def less_ceil_div_iff [OF assms(1)] by (rule assms(2))
  show "q \<le> p" unfolding q_def ceil_div_le_iff [OF assms(1)] by (simp add: algebra_simps)
  show "n * p \<le> q * (n + a * p)" unfolding q_def ceil_div_le_iff [OF assms(1), symmetric] ..
qed

lemma input0_fallback:
  assumes "0 < a" "0 < p" "t * (n + a * p) < n * p"
  defines "q \<equiv> ceil_div n (n div p + a)"
  shows "t < q" "q \<le> p" "n * p \<le> q * (n + a * p)"
proof -
  have d: "0 < n div p + a" and floor: "(n div p + a) * p \<le> n + a * p" using assms(1) by (simp_all add: distrib_right)
  have "t * (n div p + a) * p \<le> t * (n + a * p)" using floor by (simp add: mult.assoc)
  then have "t * (n div p + a) * p < n * p" using assms(3) by (rule order.strict_trans1)
  then have "t * (n div p + a) < n" by simp
  then show "t < q" using d by (simp add: q_def less_ceil_div_iff)
  have "n < (n div p + 1) * p" using assms(2) by (simp add: dividend_less_div_times)
  also have "\<dots> \<le> p * (n div p + a)" using assms(1) by (simp add: algebra_simps)
  finally show "q \<le> p" using d by (simp add: q_def ceil_div_le_iff)
  have "n \<le> q * (n div p + a)" using d by (simp add: q_def flip: ceil_div_le_iff)
  then have "n * p \<le> q * (n div p + a) * p" by simp
  also have "\<dots> \<le> q * (n + a * p)" using floor by (simp add: mult.assoc)
  finally show "n * p \<le> q * (n + a * p)" .
qed

lemma mult_div_back:
  fixes a p :: "'a::len word"
  assumes "a \<noteq> 0"
  shows "a * p div a = p \<longleftrightarrow> unat a * unat p < 2 ^ LENGTH('a)"
proof
  assume "unat a * unat p < 2 ^ LENGTH('a)"
  then show "a * p div a = p" using assms by (simp add: word_unat_eq_iff unat_div unat_word_ariths)
next
  assume "a * p div a = p"
  then have "unat (a * p) div unat a = unat p" by (metis unat_div)
  then have "unat p * unat a \<le> unat (a * p)" by (metis div_times_less_eq_dividend)
  also have "\<dots> < 2 ^ LENGTH('a)" by (rule unsigned_less)
  finally show "unat a * unat p < 2 ^ LENGTH('a)" by (simp add: mult.commute)
qed

lemma unat_mult_256: "unat a * unat b < 2 ^ 256 \<Longrightarrow> unat (a * b :: u256) = unat a * unat b"
  using unat_of_nat_256 [of "unat a * unat b"] by (simp add: unat_word_ariths)

lemma unat_add_256: "unat a + unat b < 2 ^ 256 \<Longrightarrow> unat (a + b :: u256) = unat a + unat b"
  using unat_of_nat_256 [of "unat a + unat b"] by (simp add: unat_word_ariths)

lemma unat_U160_MAX: "unat U160_MAX = 2 ^ 160 - 1"
  unfolding U160_MAX_def unat_ucast_160 by (simp add: unsigned_minus_1_eq_mask mask_eq_exp_minus_1)

lemma amount0_rounding_up_add:
  assumes "mul_mod_spec mm" "0 < l" "0 < p" "unat a \<le> 2 ^ 255"
  shows "get_next_sqrt_price_from_amount0_rounding_up mm p l a True = to_u160 (of_nat (
    let n = unat l * 2 ^ 96 in
    if a = 0 then unat p
    else if n + unat a * unat p < 2 ^ 256 then ceil_div (n * unat p) (n + unat a * unat p)
    else ceil_div n (n div unat p + unat a)))"
proof (cases "a = 0")
  case True
  then show ?thesis using to_u160_of_nat [OF u160_bound, of p] by (simp add: get_next_sqrt_price_from_amount0_rounding_up_def)
next
  case False
  define N where "N = unat l * 2 ^ 96"
  let ?n = "push_bit 96 (ucast l) :: u256" and ?p = "ucast p :: u256"
  have n: "unat ?n = N" "N < 2 ^ 224" "0 < N"
    using unat_numerator [of l] numerator_bound [of l] assms(2) by (simp_all add: N_def unat_gt_0)
  have pos: "0 < unat p" using assms(3) by (simp add: unat_gt_0)
  have bk: "a * ?p div a = ?p \<longleftrightarrow> unat a * unat p < 2 ^ 256" using mult_div_back [OF False, of ?p] by simp
  show ?thesis
  proof (cases "N + unat a * unat p < 2 ^ 256")
    case True
    then have prod: "unat (a * ?p) = unat a * unat p" using unat_mult_256 [of a ?p] by simp
    then have den: "unat (?n + a * ?p) = N + unat a * unat p" using unat_add_256 [of ?n "a * ?p"] True n by simp
    have le: "?n \<le> ?n + a * ?p" using word_le_add_iff [of ?n "a * ?p"] True prod n by simp
    have "ceil_div (N * unat p) (N + unat a * unat p) \<le> unat p"
      using n(3) by (subst ceil_div_le_iff) (simp_all add: algebra_simps)
    then have "ceil_div (N * unat p) (N + unat a * unat p) < 2 ^ 256" using below_256 [OF u160_bound, of p] by (rule order.strict_trans1) simp
    then have "mul_div_rounding_up mm ?n ?p (?n + a * ?p) = Some (Inr (of_nat (ceil_div (N * unat p) (N + unat a * unat p))))"
      using n(3) by (simp only: mul_div_rounding_up_eq [OF assms(1)] den n(1) unat_ucast_160 Let_def not_le [symmetric] if_False) simp
    then show ?thesis using False True le bk
      by (simp only: get_next_sqrt_price_from_amount0_rounding_up_def Let_def checked_div_def if_False if_True Option.bind.simps expect.simps N_def simp_thms)
        (simp add: N_def)
  next
    case over: False
    have no: "\<not> (a * ?p div a = ?p \<and> ?n \<le> ?n + a * ?p)"
    proof
      assume *: "a * ?p div a = ?p \<and> ?n \<le> ?n + a * ?p"
      then have "unat (a * ?p) = unat a * unat p" using bk unat_mult_256 [of a ?p] by simp
      with * show False using over word_le_add_iff [of ?n "a * ?p"] n(1) by simp
    qed
    have quot: "unat (?n div ?p) = N div unat p" by (simp only: unat_div n unat_ucast_160)
    have "N div unat p < 2 ^ 224" using n(2) by (metis div_le_dividend order.strict_trans1)
    then have "N div unat p + unat a < 2 ^ 256" using assms(4) by simp
    then have den: "unat (?n div ?p + a) = N div unat p + unat a" using unat_add_256 [of "?n div ?p" a] quot by simp
    then have nz: "?n div ?p + a \<noteq> 0" using False by (metis add_is_0 unat_eq_0)
    let ?q = "ceil_div N (N div unat p + unat a)"
    have "?q \<le> unat p" using input0_fallback(2) [of "unat a" "unat p" 0 N] False pos n(3) by (simp add: unat_gt_0)
    then have small: "?q < 2 ^ 160" using u160_bound [of p] by (rule order.strict_trans1)
    have "div_rounding_up ?n (?n div ?p + a) = Some (Inr (of_nat ?q))" using nz by (simp only: div_rounding_up_eq den n(1) if_False)
    moreover have "(of_nat ?q :: u256) \<le> U160_MAX" using small below_256 [OF small] by (simp add: word_le_nat_alt unat_U160_MAX unat_of_nat_256)
    moreover have "?p \<noteq> 0" using pos by (simp add: word_unat_eq_iff)
    ultimately show ?thesis using no False over
      by (simp only: get_next_sqrt_price_from_amount0_rounding_up_def Let_def checked_div_def if_False if_True Option.bind.simps expect.simps simp_thms)
        (simp add: N_def)
  qed
qed

lemma to_u160_obtain:
  assumes "f = to_u160 (of_nat n)" "n < 2 ^ 160"
  obtains q where "f = Some q" "unat q = n"
  using assms by (simp add: to_u160_of_nat unat_of_nat)

lemma next_price_input0:
  assumes "mul_mod_spec mm" "0 < t" "t \<le> p" "unat a \<le> 2 ^ 255" "unat a < amount0 (unat l) (unat t) (unat p) True"
  shows "\<exists>q. get_next_sqrt_price_from_input mm p l a True = Some q \<and> t < q \<and> q \<le> p \<and>
    amount0 (unat l) (unat q) (unat p) True \<le> unat a"
proof -
  define N A P T where "N = unat l * 2 ^ 96" "A = unat a" "P = unat p" "T = unat t"
  note d = this
  have pos: "0 < T" "T \<le> P" using assms(2,3) by (simp_all add: d word_le_nat_alt word_less_nat_alt)
  then have P: "0 < P" by simp
  have am: "amount0 (unat l) x P True = ceil_div (N * (P - x)) (x * P)" for x by (simp only: amount0_def rounded_def if_True d)
  have "A * (T * P) < N * (P - T)"
    using pos P assms(5) by (simp only: am less_ceil_div_iff nat_0_less_mult_iff simp_thms flip: d(2,3,4))
  then have lt: "T * (N + A * P) < N * P" by (rule target_not_reached) fact
  then have N: "0 < N" by (cases N) auto
  define q where "q = (if a = 0 then P else if N + A * P < 2 ^ 256 then ceil_div (N * P) (N + A * P) else ceil_div N (N div P + A))"
  have "T < q \<and> q \<le> P \<and> N * P \<le> q * (N + A * P)"
  proof (cases "a = 0")
    case True
    then have "A = 0" by (simp add: d)
    with lt have "T < P" by (metis mult.commute mult_less_cancel1 mult_zero_left add.right_neutral)
    then show ?thesis using True \<open>A = 0\<close> by (simp add: q_def)
  next
    case False
    then have "0 < A" by (simp add: d unat_gt_0)
    then show ?thesis using False N input0_exact [of N A P T] input0_fallback [of A P T N] lt P by (simp add: q_def)
  qed
  then have q: "T < q" "q \<le> P" "N * P \<le> q * (N + A * P)" by simp_all
  have "0 < l" using N by (simp add: d word_less_nat_alt)
  moreover have "0 < p" using P by (simp add: d word_less_nat_alt)
  ultimately have "get_next_sqrt_price_from_input mm p l a True = to_u160 (of_nat q)"
    using amount0_rounding_up_add [OF assms(1) _ _ assms(4)] by (simp add: get_next_sqrt_price_from_input_def Let_def q_def d)
  moreover have "q < 2 ^ 160" using q(2) u160_bound [of p] unfolding d(3) by (rule order.strict_trans1)
  ultimately obtain r where "get_next_sqrt_price_from_input mm p l a True = Some r" "unat r = q" by (rule to_u160_obtain)
  moreover have "amount0 (unat l) q P True \<le> A"
    using amount0_at_most [OF _ q(2,3)] q(1) by (simp add: am)
  ultimately show ?thesis using q by (auto simp: word_le_nat_alt word_less_nat_alt d)
qed

text \<open>Token 1 comes in or goes out: the price moves by the quotient of the amount and the liquidity.\<close>

lemma le_U160_MAX: "a \<le> U160_MAX \<longleftrightarrow> unat a < 2 ^ 160"
  by (simp add: word_le_nat_alt unat_U160_MAX less_Suc_eq_le [symmetric])

lemma shifted_quotient:
  fixes l :: u128
  assumes "mul_mod_spec mm" "0 < l" "rounded up (unat a * 2 ^ 96) (unat l) < 2 ^ 160"
  shows "(if a \<le> U160_MAX then (if up then or_zero (div_rounding_up (push_bit 96 a) (ucast l)) else checked_div (push_bit 96 a) (ucast l))
    else or_zero (if up then mul_div_rounding_up mm a (push_bit 96 1) (ucast l) else mul_div mm a (push_bit 96 1) (ucast l))) =
    Some (of_nat (rounded up (unat a * 2 ^ 96) (unat l)))"
proof (cases "a \<le> U160_MAX")
  case True
  then have "unat a * 2 ^ 96 < 2 ^ 256" using shifted_bound [of "unat a" 160 96] by (simp add: le_U160_MAX)
  then have "unat (push_bit 96 a) = unat a * 2 ^ 96" by (rule unat_push_bit_256)
  moreover have "(ucast l :: u256) \<noteq> 0" using assms(2) by (simp add: word_unat_eq_iff word_less_nat_alt)
  ultimately show ?thesis using True div_rounded [of "ucast l" up "push_bit 96 a"] by (simp only: if_True unat_ucast_128 not_False_eq_True)
next
  case False
  have q: "unat (push_bit 96 1 :: u256) = 2 ^ 96" by simp
  have "unat l \<noteq> 0" using assms(2) by (simp add: word_less_nat_alt)
  then show ?thesis using False mul_div_rounded [OF assms(1), of "ucast l" up a "push_bit 96 1"] below_256 [OF assms(3)]
    by (simp only: q unat_ucast_128 if_False or_zero.simps simp_thms not_False_eq_True)
qed

lemma next_price_input1:
  assumes "mul_mod_spec mm" "0 < p" "p \<le> t" "unat a < amount1 (unat l) (unat p) (unat t) True"
  shows "\<exists>q. get_next_sqrt_price_from_input mm p l a False = Some q \<and> p \<le> q \<and> q < t \<and>
    amount1 (unat l) (unat p) (unat q) True \<le> unat a"
proof -
  define L A P T where "L = unat l" "A = unat a * 2 ^ 96" "P = unat p" "T = unat t"
  note d = this
  have lt: "A < L * (T - P)" using assms(4) by (simp only: d amount1_def rounded_def if_True less_ceil_div_iff zero_less_power zero_less_numeral)
  then have L: "0 < L" by (cases L) auto
  then have "A div L < T - P" using lt by (simp add: div_less_iff_less_mult mult.commute)
  then have q: "P + A div L < T" by simp
  then have small: "P + A div L < 2 ^ 160" using u160_bound [of t] unfolding d(4) by (rule order.strict_trans)
  have l: "0 < l" using L by (simp add: d word_less_nat_alt)
  have quot: "(if a \<le> U160_MAX then checked_div (push_bit 96 a) (ucast l) else or_zero (mul_div mm a (push_bit 96 1) (ucast l))) = Some (of_nat (A div L))"
    using shifted_quotient [OF assms(1) l, of False a] small by (simp only: rounded_def if_False flip: d)
  have "(ucast p + of_nat (A div L) :: u256) = of_nat (P + A div L)" by (simp add: d)
  then have "get_next_sqrt_price_from_input mm p l a False = to_u160 (of_nat (P + A div L))"
    using quot assms(2) l by (simp only: get_next_sqrt_price_from_input_def get_next_sqrt_price_from_amount1_rounding_down_def
        if_True if_False simp_thms Option.bind.simps)
  then obtain r where r: "get_next_sqrt_price_from_input mm p l a False = Some r" "unat r = P + A div L"
    using small by (rule to_u160_obtain)
  have "L * (A div L) \<le> A" by simp
  then have "amount1 L P (P + A div L) True \<le> unat a"
    by (simp only: amount1_def rounded_def if_True ceil_div_le_iff zero_less_power zero_less_numeral diff_add_inverse d(2))
  then show ?thesis using r q by (auto simp: word_le_nat_alt word_less_nat_alt d(1,3,4))
qed

lemma next_price_output1:
  assumes "mul_mod_spec mm" "0 < t" "t \<le> p" "unat a < amount1 (unat l) (unat t) (unat p) False"
  shows "\<exists>q. get_next_sqrt_price_from_output mm p l a True = Some q \<and> t \<le> q \<and> q \<le> p \<and>
    unat a \<le> amount1 (unat l) (unat q) (unat p) False"
proof -
  define L A P T where "L = unat l" "A = unat a * 2 ^ 96" "P = unat p" "T = unat t"
  note d = this
  have pos: "0 < T" "T \<le> P" using assms(2,3) by (simp_all add: d word_le_nat_alt word_less_nat_alt)
  have "unat a + 1 \<le> L * (P - T) div 2 ^ 96" using assms(4) by (simp only: amount1_def rounded_def if_False flip: d)
  then have "(unat a + 1) * 2 ^ 96 \<le> L * (P - T)" by (meson div_times_less_eq_dividend mult_le_mono1 order.trans)
  then have lt: "A < L * (P - T)" by (simp add: d)
  then have L: "0 < L" by (cases L) auto
  let ?c = "ceil_div A L"
  have le: "?c \<le> P - T" using lt L by (simp add: ceil_div_le_iff mult.commute)
  then have small: "?c < 2 ^ 160" using u160_bound [of p] unfolding d by linarith
  have l: "0 < l" using L by (simp add: d word_less_nat_alt)
  have p: "0 < p" using pos by (simp add: d word_less_nat_alt)
  have quot: "(if a \<le> U160_MAX then or_zero (div_rounding_up (push_bit 96 a) (ucast l)) else or_zero (mul_div_rounding_up mm a (push_bit 96 1) (ucast l))) = Some (of_nat ?c)"
    using shifted_quotient [OF assms(1) l, of True a] small by (simp only: rounded_def if_True flip: d)
  have c: "unat (of_nat ?c :: u256) = ?c" using below_256 [OF small] by (simp add: unat_of_nat_256)
  have less: "(of_nat ?c :: u256) < ucast p" using le pos c by (simp add: word_less_nat_alt d)
  have "unat (ucast p - of_nat ?c :: u256) = P - ?c" using unat_sub [OF order.strict_implies_order [OF less]] c by (simp add: d)
  then have sub: "(ucast p - of_nat ?c :: u256) = of_nat (P - ?c)" by (metis of_nat_unat_256)
  have "get_next_sqrt_price_from_output mm p l a True = to_u160 (of_nat (P - ?c))"
    using quot p l less sub by (simp only: get_next_sqrt_price_from_output_def get_next_sqrt_price_from_amount1_rounding_down_def
        if_True if_False simp_thms Option.bind.simps)
  moreover have "P - ?c < 2 ^ 160" using u160_bound [of p] unfolding d by linarith
  ultimately obtain r where r: "get_next_sqrt_price_from_output mm p l a True = Some r" "unat r = P - ?c" by (rule to_u160_obtain)
  have "P - (P - ?c) = ?c" using le by simp
  moreover have "unat a * 2 ^ 96 \<le> L * ?c" using L by (simp only: mult.commute [of L] flip: d(2) ceil_div_le_iff)
  then have "unat a \<le> L * ?c div 2 ^ 96" by (simp add: less_eq_div_iff_mult_less_eq)
  ultimately have "unat a \<le> amount1 L (P - ?c) P False" by (simp only: amount1_def rounded_def if_False)
  then show ?thesis using r le pos by (auto simp: word_le_nat_alt word_less_nat_alt d(1,3,4))
qed

text \<open>Token 0 goes out.\<close>

lemma output0_price:
  fixes n a p t :: nat
  assumes "a * (p * t) < n * (t - p)" "p \<le> t" "0 < p"
  defines "q \<equiv> ceil_div (n * p) (n - a * p)"
  shows "a * p < n" "p \<le> q" "q \<le> t" "a * (p * q) \<le> n * (q - p)"
proof -
  have t: "n * (t - p) + n * p = n * t" by (simp only: assms(2) le_add_diff_inverse2 flip: distrib_left)
  have "(a * p) * t < n * t" using assms(1) t unfolding mult.assoc by linarith
  then show less: "a * p < n" by simp
  then have d: "0 < n - a * p" by simp
  define m where "m = n - a * p"
  have n: "n = m + a * p" using less by (simp add: m_def)
  have m: "0 < m" using d by (simp add: m_def)
  have q: "n * p \<le> q * m" using m by (simp only: q_def flip: m_def ceil_div_le_iff)
  have "p * m \<le> n * p" by (simp add: n algebra_simps)
  then have "p * m \<le> q * m" using q by (rule order.trans)
  then show pq: "p \<le> q" using m by simp
  have "n * p \<le> t * m" using assms(1) t by (simp add: n algebra_simps)
  then show "q \<le> t" using m by (simp only: q_def ceil_div_le_iff flip: m_def)
  have "n * (q - p) + n * p = n * q" by (simp only: pq le_add_diff_inverse2 flip: distrib_left)
  moreover have "n * q = q * m + a * (p * q)" by (simp add: n algebra_simps)
  ultimately show "a * (p * q) \<le> n * (q - p)" using q by linarith
qed

lemma next_price_output0:
  assumes "mul_mod_spec mm" "0 < p" "p \<le> t" "unat a < amount0 (unat l) (unat p) (unat t) False"
  shows "\<exists>q. get_next_sqrt_price_from_output mm p l a False = Some q \<and> p \<le> q \<and> q \<le> t \<and>
    unat a \<le> amount0 (unat l) (unat p) (unat q) False"
proof -
  define N A P T where "N = unat l * 2 ^ 96" "A = unat a" "P = unat p" "T = unat t"
  note d = this
  have pos: "0 < P" "P \<le> T" using assms(2,3) by (simp_all add: d word_le_nat_alt word_less_nat_alt)
  have am: "amount0 (unat l) P x False = N * (x - P) div (P * x)" for x by (simp only: amount0_def rounded_def if_False d)
  have "A + 1 \<le> N * (T - P) div (P * T)" using assms(4) by (simp only: am flip: d(2,3,4))
  then have "(A + 1) * (P * T) \<le> N * (T - P)" by (meson div_times_less_eq_dividend mult_le_mono1 order.trans)
  moreover have "0 < P * T" using pos by simp
  ultimately have "A * (P * T) < N * (T - P)" unfolding distrib_right mult_1 by linarith
  note price = output0_price [OF this pos(2,1)]
  let ?q = "ceil_div (N * P) (N - A * P)" and ?n = "push_bit 96 (ucast l) :: u256" and ?p = "ucast p :: u256"
  have n: "unat ?n = N" using unat_numerator [of l] by (simp only: d)
  have N: "N < 2 ^ 256" using below_256 [OF numerator_bound, of l] by (simp add: d)
  then have prod: "unat (a * ?p) = A * P" using unat_mult_256 [of a ?p] price(1) by (simp add: d)
  have less: "a * ?p < ?n" using prod n price(1) by (simp add: word_less_nat_alt)
  then have den: "unat (?n - a * ?p) = N - A * P" using unat_sub [of "a * ?p" ?n] prod n by simp
  have small: "?q < 2 ^ 160" using price(3) u160_bound [of t] unfolding d(4) by (rule order.strict_trans1)
  have mul: "mul_div_rounding_up mm ?n ?p (?n - a * ?p) = Some (Inr (of_nat ?q))"
    using price(1) below_256 [OF small] by (simp only: mul_div_rounding_up_eq [OF assms(1)] den n unat_ucast_160 Let_def not_le [symmetric] flip: d(3)) simp
  have "0 < N" using price(1) by simp
  then have l: "0 < l" by (simp add: d word_less_nat_alt)
  have next': "get_next_sqrt_price_from_output mm p l a False = (if a = 0 then Some p else to_u160 (of_nat ?q))"
  proof (cases "a = 0")
    case False
    have "a * ?p div a = ?p" using mult_div_back [OF False, of ?p] price(1) N by (simp add: d)
    then show ?thesis using False mul less l assms(2)
      by (simp only: get_next_sqrt_price_from_output_def get_next_sqrt_price_from_amount0_rounding_up_def checked_div_def Let_def
          if_True if_False simp_thms Option.bind.simps expect.simps)
  qed (simp add: get_next_sqrt_price_from_output_def get_next_sqrt_price_from_amount0_rounding_up_def l assms(2) less_imp_neq [OF l, symmetric])
  have "?q = P" if "a = 0" using that price(2) \<open>0 < N\<close> by (intro order.antisym) (simp_all add: d(2) ceil_div_le_iff mult.commute)
  then have "get_next_sqrt_price_from_output mm p l a False = to_u160 (of_nat ?q)"
    using next' to_u160_of_nat [OF u160_bound, of p] by (cases "a = 0") (simp_all add: d(3))
  then obtain r where r: "get_next_sqrt_price_from_output mm p l a False = Some r" "unat r = ?q" using small by (rule to_u160_obtain)
  have "A \<le> amount0 (unat l) P ?q False"
    using price(2,4) pos by (simp add: am less_eq_div_iff_mult_less_eq)
  then show ?thesis using r price(2,3) by (auto simp: word_le_nat_alt d(2,3,4))
qed

section \<open>The amounts of a position\<close>

lemma amount_same [simp]: "amount0 l a a up = 0" "amount1 l a a up = 0"
  by (simp_all add: amount0_def amount1_def)

lemma amount_bounds:
  "0 < a \<Longrightarrow> a \<le> b \<Longrightarrow> amount0 (unat (l :: u128)) (unat (a :: u160)) (unat (b :: u160)) up < 2 ^ 224"
  "amount1 (unat (l :: u128)) (unat (a :: u160)) (unat (b :: u160)) up < 2 ^ 224"
proof -
  assume "0 < a" "a \<le> b"
  then have pos: "0 < unat a" "unat a \<le> unat b" by (simp_all add: word_le_nat_alt word_less_nat_alt)
  then have "unat b - unat a \<le> unat a * unat b" by (cases "unat a") simp_all
  then have "amount0 (unat l) (unat a) (unat b) up \<le> unat l * 2 ^ 96"
    unfolding amount0_def using pos by (intro rounded_fits(1) [OF numerator_bound]) simp_all
  then show "amount0 (unat l) (unat a) (unat b) up < 2 ^ 224" using numerator_bound by (rule order.strict_trans1)
next
  have "unat l * (unat b - unat a) < 2 ^ 128 * 2 ^ 160"
    using u128_bound [of l] u160_bound [of b] by (intro mult_strict_mono') simp_all
  also have "\<dots> = 2 ^ 192 * (2 :: nat) ^ 96" by (simp only: flip: power_add) simp
  finally have "amount1 (unat l) (unat a) (unat b) up \<le> 2 ^ 192" unfolding amount1_def by (intro rounded_le) simp_all
  then show "amount1 (unat l) (unat a) (unat b) up < 2 ^ 224" by (rule order.strict_trans1) simp
qed

lemma tick_prices:
  assumes "MIN_TICK \<le> s" "s \<le> t" "t \<le> MAX_TICK"
  obtains a b where "get_sqrt_ratio_at_tick s = Some a" "get_sqrt_ratio_at_tick t = Some b" "0 < a" "a \<le> b"
proof -
  have r: "- 887272 \<le> s" "s \<le> 887272" "- 887272 \<le> t" "t \<le> 887272" using assms by (simp_all add: MIN_TICK_def MAX_TICK_def)
  obtain a where a: "get_sqrt_ratio_at_tick s = Some a" "unat a = tick_ratio s" by (rule sqrt_ratio_value [OF r(1,2)])
  obtain b where b: "get_sqrt_ratio_at_tick t = Some b" "unat b = tick_ratio t" by (rule sqrt_ratio_value [OF r(3,4)])
  have "a \<le> b" using tick_ratio_mono_iff [of t s] r assms(2) by (simp add: word_le_nat_alt a(2) b(2) not_less [symmetric])
  moreover have "0 < a" using tick_ratio_pos [of s] r by (simp add: word_less_nat_alt a(2))
  ultimately show thesis using that a(1) b(1) by blast
qed

text \<open>C33: The amounts of a position with liquidity \<open>l\<close> between two ticks are the exact amounts of the two tokens between the prices of the ticks
  and the price of the pool, kept between them: token 0 above it and token 1 below it, rounded in the direction that is asked for. None of the
  divisions overflows or panics.\<close>

theorem amounts_for_liquidity_exact:
  assumes "mul_mod_spec mm" "MIN_TICK \<le> lower" "lower \<le> upper" "upper \<le> MAX_TICK"
  shows "\<exists>a b x y. get_sqrt_ratio_at_tick lower = Some a \<and> get_sqrt_ratio_at_tick upper = Some b \<and>
    get_amounts_for_liquidity mm p lower upper l up = Some (x, y) \<and>
    (let c = max a (min p b) in
     unat x = rounded up (unat l * 2 ^ 96 * (unat b - unat c)) (unat c * unat b) \<and>
     unat y = rounded up (unat l * (unat c - unat a)) (2 ^ 96))"
proof -
  obtain a b where t: "get_sqrt_ratio_at_tick lower = Some a" "get_sqrt_ratio_at_tick upper = Some b" "0 < a" "a \<le> b"
    by (rule tick_prices [OF assms(2-4)])
  let ?c = "max a (min p b)"
  have c: "a \<le> ?c" "?c \<le> b" "0 < ?c" using t(3,4) by (auto simp: less_max_iff_disj)
  have "(if p \<le> a then get_amount0_delta mm a b l up else if p < b then get_amount0_delta mm p b l up else Some 0) =
      Some (of_nat (amount0 (unat l) (unat ?c) (unat b) up))"
    using t(3,4) c(2,3) get_amount0_delta_sorted(1) [OF assms(1) c(3,2)] by (auto simp: max_def min_def split: if_splits)
  moreover have "(if p < a then Some 0 else if p < b then get_amount1_delta mm a p l up else get_amount1_delta mm a b l up) =
      Some (of_nat (amount1 (unat l) (unat a) (unat ?c) up))"
    using t(4) get_amount1_delta_sorted(1) [OF assms(1) c(1)] by (auto simp: max_def min_def split: if_splits)
  ultimately have "get_amounts_for_liquidity mm p lower upper l up =
      Some (of_nat (amount0 (unat l) (unat ?c) (unat b) up), of_nat (amount1 (unat l) (unat a) (unat ?c) up))"
    using t(4) by (simp only: get_amounts_for_liquidity_def t(1,2) Option.bind.simps sort_ratios_eq min_absorb1 max_absorb2 Let_def prod.case)
  moreover have "unat (of_nat (amount0 (unat l) (unat ?c) (unat b) up) :: u256) = amount0 (unat l) (unat ?c) (unat b) up"
    by (rule unat_of_nat_256, rule below_256, rule amount_bounds(1) [OF c(3,2)]) simp
  moreover have "unat (of_nat (amount1 (unat l) (unat a) (unat ?c) up) :: u256) = amount1 (unat l) (unat a) (unat ?c) up"
    by (rule unat_of_nat_256, rule below_256, rule amount_bounds(2)) simp
  ultimately show ?thesis using t(1,2) unfolding Let_def amount0_def amount1_def by blast
qed

theorem amounts_for_liquidity_exact_witness:
  "mul_mod_spec sample_mul_mod \<and> (\<exists>x y. get_amounts_for_liquidity sample_mul_mod (2 ^ 96) (- 60) 60 1000000 True = Some (x, y))"
  using sample_mul_mod_spec amounts_for_liquidity_exact [OF sample_mul_mod_spec, of "- 60" 60 "2 ^ 96" 1000000 True]
  by (auto simp: MIN_TICK_def MAX_TICK_def)

end
