(* ===== verification/Swap_Math.thy ===== *)
theory Swap_Math
  imports Sqrt_Price
begin

text \<open>
  One step of a swap (\<open>crates/model/src/defi/pool_analysis/swap_math.rs\<close>): within a range of constant liquidity the price moves towards a
  target until the target or the amount is reached, and the step returns what is paid in, what is paid out and the fee.

  The amount that remains is an \<open>I256\<close>, an integer here: at least zero for a swap of an exact input, below zero for one of an exact
  output. \<open>into_raw\<close> and \<open>unsigned_abs\<close> are the words of the amount and of its absolute value.
\<close>

section \<open>Operations\<close>

record swap_step_result =
  sqrt_ratio_next_x96 :: u160
  amount_in :: u256
  amount_out :: u256
  fee_amount :: u256

definition MAX_FEE :: u256 where
  "MAX_FEE = 1000000"

text \<open>The operator \<open>?\<close> of the source.\<close>

definition attempt_math :: "(math_error + 'a) panics \<Rightarrow> ('a \<Rightarrow> (math_error + 'b) panics) \<Rightarrow> (math_error + 'b) panics" where
  "attempt_math m f = do { r \<leftarrow> m; case r of Inl e \<Rightarrow> Some (Inl e) | Inr x \<Rightarrow> f x }"

text \<open>The next price, with the amount in or out that reaches the target.\<close>

definition exact_in_price :: "mul_mod \<Rightarrow> u160 \<Rightarrow> u160 \<Rightarrow> u128 \<Rightarrow> int \<Rightarrow> u256 \<Rightarrow> (math_error + u160 \<times> u256) panics" where
  "exact_in_price mm sqrt_ratio_current_x96 sqrt_ratio_target_x96 liquidity amount_remaining fee_complement =
     (let zero_for_one = sqrt_ratio_current_x96 \<ge> sqrt_ratio_target_x96 in
      attempt_math (mul_div mm (word_of_int amount_remaining) fee_complement MAX_FEE) (\<lambda>amount_remaining_less_fee. do {
        amount_in \<leftarrow> (if zero_for_one then get_amount0_delta mm sqrt_ratio_target_x96 sqrt_ratio_current_x96 liquidity True
                     else get_amount1_delta mm sqrt_ratio_current_x96 sqrt_ratio_target_x96 liquidity True);
        sqrt_ratio_next \<leftarrow> (if amount_remaining_less_fee \<ge> amount_in then Some sqrt_ratio_target_x96
                     else get_next_sqrt_price_from_input mm sqrt_ratio_current_x96 liquidity amount_remaining_less_fee zero_for_one);
        Some (Inr (sqrt_ratio_next, amount_in))
      }))"

definition exact_out_price :: "mul_mod \<Rightarrow> u160 \<Rightarrow> u160 \<Rightarrow> u128 \<Rightarrow> int \<Rightarrow> (u160 \<times> u256) panics" where
  "exact_out_price mm sqrt_ratio_current_x96 sqrt_ratio_target_x96 liquidity amount_remaining =
     (let zero_for_one = sqrt_ratio_current_x96 \<ge> sqrt_ratio_target_x96 in do {
        amount_out \<leftarrow> (if zero_for_one then get_amount1_delta mm sqrt_ratio_target_x96 sqrt_ratio_current_x96 liquidity False
                      else get_amount0_delta mm sqrt_ratio_current_x96 sqrt_ratio_target_x96 liquidity False);
        sqrt_ratio_next \<leftarrow> (if word_of_int \<bar>amount_remaining\<bar> \<ge> amount_out then Some sqrt_ratio_target_x96
                      else get_next_sqrt_price_from_output mm sqrt_ratio_current_x96 liquidity (word_of_int \<bar>amount_remaining\<bar>) zero_for_one);
        Some (sqrt_ratio_next, amount_out)
      })"

definition compute_swap_step :: "mul_mod \<Rightarrow> u160 \<Rightarrow> u160 \<Rightarrow> u128 \<Rightarrow> int \<Rightarrow> 32 word \<Rightarrow> (math_error + swap_step_result) panics" where
  "compute_swap_step mm sqrt_ratio_current_x96 sqrt_ratio_target_x96 liquidity amount_remaining fee_pips =
     (let fee_pips = ucast fee_pips :: u256;
          fee_complement = MAX_FEE - fee_pips;
          zero_for_one = sqrt_ratio_current_x96 \<ge> sqrt_ratio_target_x96;
          exact_in = amount_remaining > 0 \<or> amount_remaining = 0
      in attempt_math
        (if exact_in then
           attempt_math (exact_in_price mm sqrt_ratio_current_x96 sqrt_ratio_target_x96 liquidity amount_remaining fee_complement)
             (\<lambda>(sqrt_ratio_next, amount_in). Some (Inr (sqrt_ratio_next, amount_in, 0)))
         else do {
           (sqrt_ratio_next, amount_out) \<leftarrow> exact_out_price mm sqrt_ratio_current_x96 sqrt_ratio_target_x96 liquidity amount_remaining;
           Some (Inr (sqrt_ratio_next, 0, amount_out))
         })
        (\<lambda>(sqrt_ratio_next, amount_in, amount_out).
          let max = sqrt_ratio_target_x96 = sqrt_ratio_next in do {
            amount_in \<leftarrow> (if max \<and> exact_in then Some amount_in
              else if zero_for_one then get_amount0_delta mm sqrt_ratio_next sqrt_ratio_current_x96 liquidity True
              else get_amount1_delta mm sqrt_ratio_current_x96 sqrt_ratio_next liquidity True);
            amount_out \<leftarrow> (if max \<and> \<not> exact_in then Some amount_out
              else if zero_for_one then get_amount1_delta mm sqrt_ratio_next sqrt_ratio_current_x96 liquidity False
              else get_amount0_delta mm sqrt_ratio_current_x96 sqrt_ratio_next liquidity False);
            let amount_out = (if \<not> exact_in \<and> amount_out > word_of_int \<bar>amount_remaining\<bar> then word_of_int \<bar>amount_remaining\<bar> else amount_out);
            attempt_math
              (if exact_in \<and> sqrt_ratio_next \<noteq> sqrt_ratio_target_x96 then Some (Inr (word_of_int \<bar>amount_remaining\<bar> - amount_in))
               else mul_div_rounding_up mm amount_in fee_pips fee_complement)
              (\<lambda>fee_amount. Some (Inr \<lparr>sqrt_ratio_next_x96 = sqrt_ratio_next, amount_in = amount_in, amount_out = amount_out, fee_amount = fee_amount\<rparr>))
          }))"

section \<open>The step\<close>

text \<open>What a move of the price from \<open>p\<close> to \<open>q\<close> costs and what it yields, rounded in favour of the pool.\<close>

definition move_cost :: "u128 \<Rightarrow> u160 \<Rightarrow> u160 \<Rightarrow> nat" where
  "move_cost l p q = (if q \<le> p then amount0 (unat l) (unat q) (unat p) True else amount1 (unat l) (unat p) (unat q) True)"

definition move_yield :: "u128 \<Rightarrow> u160 \<Rightarrow> u160 \<Rightarrow> nat" where
  "move_yield l p q = (if q \<le> p then amount1 (unat l) (unat q) (unat p) False else amount0 (unat l) (unat p) (unat q) False)"

definition towards :: "u160 \<Rightarrow> u160 \<Rightarrow> u160 \<Rightarrow> bool" where
  "towards p t q \<longleftrightarrow> (if t \<le> p then t \<le> q \<and> q \<le> p else p \<le> q \<and> q \<le> t)"

lemma towards_target [simp]: "towards p t t"
  by (auto simp: towards_def)

lemma towards_pos: "towards p t q \<Longrightarrow> 0 < p \<Longrightarrow> 0 < t \<Longrightarrow> 0 < q"
  by (auto simp: towards_def split: if_splits)

lemma move_fits:
  assumes "0 < p" "0 < q"
  shows "move_cost l p q < 2 ^ 224" "move_yield l p q < 2 ^ 224"
  using assms amount_bounds [where l = l and a = q and b = p] amount_bounds [where l = l and a = p and b = q]
  by (simp_all only: move_cost_def move_yield_def split: if_split) auto

lemma unat_move:
  assumes "0 < p" "0 < q"
  shows "unat (of_nat (move_cost l p q) :: u256) = move_cost l p q" "unat (of_nat (move_yield l p q) :: u256) = move_yield l p q"
  using move_fits [OF assms, of l] by (auto intro!: unat_of_nat_256 elim!: below_256)

lemma delta_move:
  assumes "mul_mod_spec mm" "0 < p" "0 < t" "towards p t q"
  shows "(if p \<ge> t then get_amount0_delta mm q p l True else get_amount1_delta mm p q l True) = Some (of_nat (move_cost l p q))"
    and "(if p \<ge> t then get_amount1_delta mm q p l False else get_amount0_delta mm p q l False) = Some (of_nat (move_yield l p q))"
proof -
  have q: "0 < q" using towards_pos assms(2-4) by blast
  consider "t \<le> p" "q \<le> p" | "p < t" "p < q" | "p < t" "p = q" using assms(4) by (fastforce simp: towards_def split: if_splits)
  then have "(if p \<ge> t then get_amount0_delta mm q p l True else get_amount1_delta mm p q l True) = Some (of_nat (move_cost l p q)) \<and>
    (if p \<ge> t then get_amount1_delta mm q p l False else get_amount0_delta mm p q l False) = Some (of_nat (move_yield l p q))"
    by cases (use assms(2) q in \<open>auto simp: move_cost_def move_yield_def get_amount0_delta_sorted [OF assms(1)] get_amount1_delta_sorted [OF assms(1)]\<close>)
  then show "(if p \<ge> t then get_amount0_delta mm q p l True else get_amount1_delta mm p q l True) = Some (of_nat (move_cost l p q))"
    "(if p \<ge> t then get_amount1_delta mm q p l False else get_amount0_delta mm p q l False) = Some (of_nat (move_yield l p q))" by blast+
qed

text \<open>An exact input.\<close>

lemma unat_word_of_int_256: "0 \<le> x \<Longrightarrow> x < 2 ^ 256 \<Longrightarrow> unat (word_of_int x :: u256) = nat x"
  by (simp add: unsigned_of_int take_bit_int_eq_self)

lemma less_fee:
  assumes "mul_mod_spec mm" "0 \<le> amt" "amt < 2 ^ 255" "unat c \<le> 1000000"
  shows "mul_div mm (word_of_int amt) c MAX_FEE = Some (Inr (of_nat (nat amt * unat c div 1000000)))"
    and "nat amt * unat c div 1000000 \<le> nat amt"
proof -
  have fee: "unat MAX_FEE = 1000000" by (simp add: MAX_FEE_def)
  have amt: "nat amt < 2 ^ 255" "unat (word_of_int amt :: u256) = nat amt" using assms(2,3) by (simp_all add: nat_less_iff unat_word_of_int_256)
  have "nat amt * unat c \<le> nat amt * 1000000" using assms(4) by (rule mult_le_mono2)
  then show le: "nat amt * unat c div 1000000 \<le> nat amt" by (metis div_le_mono div_mult_self_is_m zero_less_numeral)
  then have "nat amt * unat c div 1000000 < 2 ^ 255" using amt(1) by (rule order.strict_trans1)
  then have "nat amt * unat c div 1000000 < 2 ^ 256" by (rule below_256) simp
  then show "mul_div mm (word_of_int amt) c MAX_FEE = Some (Inr (of_nat (nat amt * unat c div 1000000)))"
    by (simp only: mul_div_eq [OF assms(1)] fee amt(2) not_le [symmetric] if_False zero_neq_numeral [symmetric] simp_thms)
qed

lemma exact_in_price_ok:
  assumes "mul_mod_spec mm" "0 < p" "0 < t" "0 \<le> amt" "amt < 2 ^ 255" "unat c \<le> 1000000"
  shows "\<exists>q. exact_in_price mm p t l amt c = Some (Inr (q, of_nat (move_cost l p t))) \<and> towards p t q \<and>
    move_cost l p q \<le> nat amt * unat c div 1000000"
proof -
  define A where "A = nat amt * unat c div 1000000"
  note fee = less_fee [OF assms(1,4-6), folded A_def]
  have "nat amt < 2 ^ 255" using assms(4,5) by (simp add: nat_less_iff)
  then have bound: "A < 2 ^ 255" using fee(2) by linarith
  then have A: "unat (of_nat A :: u256) = A" using below_256 [of A 255] unat_of_nat_256 [of A] by simp
  let ?price = "if (of_nat A :: u256) \<ge> of_nat (move_cost l p t) then Some t else get_next_sqrt_price_from_input mm p l (of_nat A) (p \<ge> t)"
  have "exact_in_price mm p t l amt c = do { q \<leftarrow> ?price; Some (Inr (q, of_nat (move_cost l p t))) }"
    using delta_move(1) [OF assms(1-3) towards_target] by (simp only: exact_in_price_def attempt_math_def fee(1) Let_def Option.bind.simps sum.case)
  moreover have "\<exists>q. ?price = Some q \<and> towards p t q \<and> move_cost l p q \<le> A"
  proof (cases "move_cost l p t \<le> A")
    case True
    then show ?thesis using A unat_move(1) [OF assms(2,3), of l] by (simp add: word_le_nat_alt)
  next
    case False
    then have less: "A < move_cost l p t" by simp
    then have not: "\<not> (of_nat A :: u256) \<ge> of_nat (move_cost l p t)" using A unat_move(1) [OF assms(2,3), of l] by (simp add: word_le_nat_alt)
    show ?thesis
    proof (cases "t \<le> p")
      case True
      then show ?thesis using next_price_input0 [OF assms(1,3) True, of "of_nat A" l] not less A bound
        by (auto simp: towards_def move_cost_def)
    next
      case False
      then have "p \<le> t" by simp
      then obtain q where q: "get_next_sqrt_price_from_input mm p l (of_nat A) False = Some q" "p \<le> q" "q < t"
          "amount1 (unat l) (unat p) (unat q) True \<le> A"
        using next_price_input1 [OF assms(1,2), of t "of_nat A" l] less A False by (auto simp: move_cost_def)
      then have "move_cost l p q \<le> A" by (cases "p = q") (auto simp: move_cost_def)
      then show ?thesis using q not False by (auto simp: towards_def)
    qed
  qed
  ultimately show ?thesis by (auto simp: A_def)
qed

text \<open>An exact output.\<close>

lemma exact_out_price_ok:
  assumes "mul_mod_spec mm" "0 < p" "0 < t" "\<bar>amt\<bar> \<le> 2 ^ 255"
  shows "\<exists>q. exact_out_price mm p t l amt = Some (q, of_nat (move_yield l p t)) \<and> towards p t q \<and>
    (q = t \<or> nat \<bar>amt\<bar> \<le> move_yield l p q)"
proof -
  define R where "R = (word_of_int \<bar>amt\<bar> :: u256)"
  have R: "unat R = nat \<bar>amt\<bar>" using assms(4) by (simp add: R_def unat_word_of_int_256)
  let ?price = "if R \<ge> of_nat (move_yield l p t) then Some t else get_next_sqrt_price_from_output mm p l R (p \<ge> t)"
  have "exact_out_price mm p t l amt = do { q \<leftarrow> ?price; Some (q, of_nat (move_yield l p t)) }"
    using delta_move(2) [OF assms(1-3) towards_target] by (simp only: exact_out_price_def Let_def Option.bind.simps R_def)
  moreover have "\<exists>q. ?price = Some q \<and> towards p t q \<and> (q = t \<or> unat R \<le> move_yield l p q)"
  proof (cases "of_nat (move_yield l p t) \<le> R")
    case False
    then have less: "unat R < move_yield l p t" using unat_move(2) [OF assms(2,3), of l] by (simp add: word_le_nat_alt)
    show ?thesis
    proof (cases "t \<le> p")
      case True
      then show ?thesis using next_price_output1 [OF assms(1,3) True, of R l] False less
        by (auto simp: towards_def move_yield_def)
    next
      case pt: False
      then have "p \<le> t" by simp
      then obtain q where q: "get_next_sqrt_price_from_output mm p l R False = Some q" "p \<le> q" "q \<le> t"
          "unat R \<le> amount0 (unat l) (unat p) (unat q) False"
        using next_price_output0 [OF assms(1,2), of t R l] less pt by (auto simp: move_yield_def)
      then have "unat R \<le> move_yield l p q" by (cases "p = q") (auto simp: move_yield_def)
      then show ?thesis using q False pt by (auto simp: towards_def)
    qed
  qed simp
  ultimately show ?thesis by (auto simp: R)
qed

text \<open>The fee that a payment owes.\<close>

lemma fee_within:
  fixes x f a :: nat
  assumes "f < m" "x \<le> a * (m - f) div m"
  shows "x + ceil_div (x * f) (m - f) \<le> a"
proof -
  have "x * m \<le> a * (m - f)" using assms by (metis div_times_less_eq_dividend mult_le_mono1 order.trans)
  moreover have "x * m = x * (m - f) + x * f" using assms(1) by (simp flip: distrib_left)
  ultimately have le: "x * (m - f) + x * f \<le> a * (m - f)" by simp
  then have "x * (m - f) \<le> a * (m - f)" by linarith
  then have "x \<le> a" using assms(1) by simp
  moreover have "x * f \<le> (a - x) * (m - f)" using le by (simp add: diff_mult_distrib)
  then have "ceil_div (x * f) (m - f) \<le> a - x" using assms(1) by (simp add: ceil_div_le_iff)
  ultimately show ?thesis by simp
qed

lemma step_fee:
  assumes "mul_mod_spec mm" "x < 2 ^ 224" "fee < 1000000"
  shows "mul_div_rounding_up mm (of_nat x) (ucast (fee :: 32 word)) (MAX_FEE - ucast fee) =
    Some (Inr (of_nat (ceil_div (x * unat fee) (1000000 - unat fee))))"
    and "ceil_div (x * unat fee) (1000000 - unat fee) < 2 ^ 256"
    and "unat (MAX_FEE - ucast fee) = 1000000 - unat fee"
proof -
  have f: "unat fee < 1000000" "unat (ucast fee :: u256) = unat fee"
    using assms(3) unsigned_less [of fee, where ?'a = nat] by (simp_all add: word_less_nat_alt unsigned_ucast_eq take_bit_nat_eq_self_iff)
  then have "ucast fee \<le> MAX_FEE" by (simp add: MAX_FEE_def word_le_nat_alt)
  then show c: "unat (MAX_FEE - ucast fee) = 1000000 - unat fee" using f(2) by (simp add: unat_sub MAX_FEE_def)
  have "x * unat fee \<le> x * 1000000 * (1000000 - unat fee)" using f(1) by (simp add: mult.assoc) linarith
  then have "ceil_div (x * unat fee) (1000000 - unat fee) \<le> x * 1000000" using f(1) by (simp add: ceil_div_le_iff)
  also have "\<dots> < 2 ^ 256" using assms(2) by simp
  finally show small: "ceil_div (x * unat fee) (1000000 - unat fee) < 2 ^ 256" .
  have x: "unat (of_nat x :: u256) = x" using assms(2) by (intro unat_of_nat_256) (erule below_256, simp)
  show "mul_div_rounding_up mm (of_nat x) (ucast fee) (MAX_FEE - ucast fee) = Some (Inr (of_nat (ceil_div (x * unat fee) (1000000 - unat fee))))"
    using small f(1) by (simp only: mul_div_rounding_up_eq [OF assms(1)] x f(2) c Let_def not_le [symmetric]) simp
qed

lemma step_exact_in:
  assumes "mul_mod_spec mm" "0 < p" "0 < t" "fee < 1000000" "0 \<le> amt" "amt < 2 ^ 255"
  shows "\<exists>q. towards p t q \<and> move_cost l p q \<le> nat amt * (1000000 - unat fee) div 1000000 \<and>
    compute_swap_step mm p t l amt fee = Some (Inr
      \<lparr>sqrt_ratio_next_x96 = q, amount_in = of_nat (move_cost l p q), amount_out = of_nat (move_yield l p q),
       fee_amount = of_nat (if q = t then ceil_div (move_cost l p q * unat fee) (1000000 - unat fee) else nat amt - move_cost l p q)\<rparr>)"
proof -
  let ?c = "MAX_FEE - ucast fee"
  have c: "unat ?c = 1000000 - unat fee" using step_fee(3) [OF assms(1) _ assms(4), of 0] by simp
  obtain q where price: "exact_in_price mm p t l amt ?c = Some (Inr (q, of_nat (move_cost l p t)))" and q: "towards p t q"
      and cost: "move_cost l p q \<le> nat amt * (1000000 - unat fee) div 1000000"
    using exact_in_price_ok [OF assms(1,2,3,5,6), of ?c l] c by auto
  have qpos: "0 < q" using towards_pos q assms(2,3) by blast
  have "nat amt * (1000000 - unat fee) div 1000000 \<le> nat amt" using less_fee(2) [OF assms(1,5,6), of ?c] c by simp
  then have le: "move_cost l p q \<le> nat amt" using cost by simp
  have "unat (word_of_int \<bar>amt\<bar> - of_nat (move_cost l p q) :: u256) = nat amt - move_cost l p q"
    using le assms(5,6) unat_move(1) [OF assms(2) qpos, of l] by (subst unat_sub) (simp_all add: word_le_nat_alt unat_word_of_int_256)
  then have rest: "word_of_int \<bar>amt\<bar> - of_nat (move_cost l p q) = (of_nat (nat amt - move_cost l p q) :: u256)" by (metis of_nat_unat_256)
  note fee = step_fee(1) [OF assms(1) move_fits(1) [OF assms(2) qpos] assms(4)]
  have exact: "(amt > 0 \<or> amt = 0) = True" using assms(5) by auto
  have "(if t = q then Some (of_nat (move_cost l p t))
      else if p \<ge> t then get_amount0_delta mm q p l True else get_amount1_delta mm p q l True) = Some (of_nat (move_cost l p q))"
    using delta_move(1) [OF assms(1-3) q, of l] by simp
  then have "compute_swap_step mm p t l amt fee = Some (Inr
      \<lparr>sqrt_ratio_next_x96 = q, amount_in = of_nat (move_cost l p q), amount_out = of_nat (move_yield l p q),
       fee_amount = of_nat (if q = t then ceil_div (move_cost l p q * unat fee) (1000000 - unat fee) else nat amt - move_cost l p q)\<rparr>)"
    using delta_move(2) [OF assms(1-3) q, of l] rest fee [of l]
    by (auto simp: compute_swap_step_def Let_def exact price attempt_math_def)
  with q cost show ?thesis by blast
qed

lemma step_exact_out:
  assumes "mul_mod_spec mm" "0 < p" "0 < t" "fee < 1000000" "amt < 0" "- (2 ^ 255) \<le> amt"
  shows "\<exists>q. towards p t q \<and> (q = t \<or> nat (- amt) \<le> move_yield l p q) \<and>
    compute_swap_step mm p t l amt fee = Some (Inr
      \<lparr>sqrt_ratio_next_x96 = q, amount_in = of_nat (move_cost l p q), amount_out = of_nat (min (nat (- amt)) (move_yield l p q)),
       fee_amount = of_nat (ceil_div (move_cost l p q * unat fee) (1000000 - unat fee))\<rparr>)"
proof -
  have amt: "\<bar>amt\<bar> = - amt" "\<bar>amt\<bar> \<le> 2 ^ 255" using assms(5,6) by auto
  obtain q where price: "exact_out_price mm p t l amt = Some (q, of_nat (move_yield l p t))" and q: "towards p t q"
      and yield: "q = t \<or> nat (- amt) \<le> move_yield l p q"
    using exact_out_price_ok [OF assms(1-3) amt(2)] amt(1) by auto
  have qpos: "0 < q" using towards_pos q assms(2,3) by blast
  have R: "unat (word_of_int (- amt) :: u256) = nat (- amt)" using assms(5,6) by (intro unat_word_of_int_256) simp_all
  have cap: "(if of_nat (move_yield l p q) > (word_of_int (- amt) :: u256) then word_of_int (- amt) else of_nat (move_yield l p q)) =
      (of_nat (min (nat (- amt)) (move_yield l p q)) :: u256)"
  proof -
    have "word_of_int (- amt) = (of_nat (nat (- amt)) :: u256)" using R by (metis of_nat_unat_256)
    then show ?thesis using R unat_move(2) [OF assms(2) qpos, of l]
      by (cases "nat (- amt) < move_yield l p q") (simp_all only: word_less_nat_alt if_True if_False min.absorb3 min_absorb2 leI)
  qed
  note fee = step_fee(1) [OF assms(1) move_fits(1) [OF assms(2) qpos] assms(4)]
  have exact: "(amt > 0 \<or> amt = 0) = False" using assms(5) by auto
  have "(if t = q then Some (of_nat (move_yield l p t))
      else if p \<ge> t then get_amount1_delta mm q p l False else get_amount0_delta mm p q l False) = Some (of_nat (move_yield l p q))"
    using delta_move(2) [OF assms(1-3) q, of l] by simp
  then have "compute_swap_step mm p t l amt fee = Some (Inr
      \<lparr>sqrt_ratio_next_x96 = q, amount_in = of_nat (move_cost l p q), amount_out = of_nat (min (nat (- amt)) (move_yield l p q)),
       fee_amount = of_nat (ceil_div (move_cost l p q * unat fee) (1000000 - unat fee))\<rparr>)"
    using delta_move(1) [OF assms(1-3) q, of l] cap fee [of l]
    by (simp only: compute_swap_step_def Let_def exact price attempt_math_def amt(1) if_False if_True simp_thms Option.bind.simps prod.case sum.case)
  with q yield show ?thesis by blast
qed

section \<open>Properties\<close>

text \<open>C34: A step of a swap returns a result for every positive prices, liquidity and amount and every fee below a million. The price moves towards the
  target and not past it. The amount in is the least that covers the move and the amount out is not more than what the move yields, so that rounding
  favours the pool, and the fee is at least the rate on the amount in. A swap of an exact input pays in what remains and no more,
  a swap of an exact output pays out what remains and no more, and all of it unless the target is reached.\<close>

theorem swap_step_exact:
  assumes "mul_mod_spec mm" "0 < p" "0 < t" "fee < 1000000" "- (2 ^ 255) \<le> amt" "amt < 2 ^ 255"
  shows "\<exists>r. compute_swap_step mm p t l amt fee = Some (Inr r) \<and>
    (let q = sqrt_ratio_next_x96 r; paid = unat (amount_in r); got = unat (amount_out r); charged = unat (fee_amount r);
         rate = ceil_div (paid * unat fee) (1000000 - unat fee)
     in towards p t q \<and> paid = move_cost l p q \<and> got \<le> move_yield l p q \<and> rate \<le> charged \<and>
       (if 0 \<le> amt
        then got = move_yield l p q \<and> paid + charged \<le> nat amt \<and> (q \<noteq> t \<longrightarrow> paid + charged = nat amt) \<and> (q = t \<longrightarrow> charged = rate)
        else charged = rate \<and> got \<le> nat (- amt) \<and> (q \<noteq> t \<longrightarrow> got = nat (- amt))))"
proof (cases "0 \<le> amt")
  case True
  define C Y F where "C q = move_cost l p q" "Y q = move_yield l p q"
    "F q = (if q = t then ceil_div (C q * unat fee) (1000000 - unat fee) else nat amt - C q)" for q
  note d = this
  obtain q where q: "towards p t q" "C q \<le> nat amt * (1000000 - unat fee) div 1000000"
    "compute_swap_step mm p t l amt fee = Some (Inr
      \<lparr>sqrt_ratio_next_x96 = q, amount_in = of_nat (C q), amount_out = of_nat (Y q), fee_amount = of_nat (F q)\<rparr>)"
    using step_exact_in [OF assms(1-4) True assms(6), of l] unfolding d by blast
  have qpos: "0 < q" using towards_pos q(1) assms(2,3) by blast
  have "unat fee < 1000000" using assms(4) by (simp add: word_less_nat_alt)
  then have within: "C q + ceil_div (C q * unat fee) (1000000 - unat fee) \<le> nat amt" using q(2) by (rule fee_within)
  then have "F q \<le> nat amt" by (auto simp: d(3))
  moreover have "nat amt < 2 ^ 256" using assms(6) True by (simp add: nat_less_iff)
  ultimately have "F q < 2 ^ 256" by (rule order.strict_trans1)
  then have "unat (of_nat (F q) :: u256) = F q" by (rule unat_of_nat_256)
  then show ?thesis using True q(1) within unat_move [OF assms(2) qpos, of l, folded d(1,2)]
    by (simp only: q(3) Let_def option.inject sum.inject swap_step_result.simps ex_simps simp_thms if_True flip: d(1,2)) (auto simp: d(3))
next
  case False
  define C Y F where "C q = move_cost l p q" "Y q = min (nat (- amt)) (move_yield l p q)"
    "F q = ceil_div (C q * unat fee) (1000000 - unat fee)" for q
  note d = this
  obtain q where q: "towards p t q" "q = t \<or> nat (- amt) \<le> move_yield l p q"
    "compute_swap_step mm p t l amt fee = Some (Inr
      \<lparr>sqrt_ratio_next_x96 = q, amount_in = of_nat (C q), amount_out = of_nat (Y q), fee_amount = of_nat (F q)\<rparr>)"
    using step_exact_out [OF assms(1-4) _ assms(5), of l] False unfolding d not_le by blast
  have qpos: "0 < q" using towards_pos q(1) assms(2,3) by blast
  have "Y q < 2 ^ 256" using below_256 [OF move_fits(2) [OF assms(2) qpos, of l]] by (simp add: d(2))
  then have Y: "unat (of_nat (Y q) :: u256) = Y q" by (rule unat_of_nat_256)
  have "F q < 2 ^ 256" using step_fee(2) [OF assms(1) move_fits(1) [OF assms(2) qpos, of l] assms(4)] by (simp only: d)
  then have "unat (of_nat (F q) :: u256) = F q" by (rule unat_of_nat_256)
  then show ?thesis using False q(1,2) Y unat_move(1) [OF assms(2) qpos, of l, folded d(1)]
    by (simp only: q(3) Let_def option.inject sum.inject swap_step_result.simps ex_simps simp_thms if_False flip: d(1)) (auto simp: d(2,3))
qed

theorem swap_step_exact_witness:
  "\<exists>r. compute_swap_step sample_mul_mod (2 ^ 96) (2 ^ 95) 1000000 1000 3000 = Some (Inr r) \<and>
     towards (2 ^ 96) (2 ^ 95) (sqrt_ratio_next_x96 r) \<and> unat (amount_in r) + unat (fee_amount r) \<le> 1000"
  using swap_step_exact [OF sample_mul_mod_spec, of "2 ^ 96" "2 ^ 95" 3000 1000 1000000] by (fastforce simp: Let_def)

end
