(* ===== verification/Tick_Bitmap.thy ===== *)
theory Tick_Bitmap
  imports Full_Math Fixed_Point
begin

text \<open>
  The bitmap of initialised ticks (\<open>crates/model/src/defi/tick_map/tick_bitmap.rs\<close>): words of 256 bits under the index of the word, one bit
  for each multiple of the tick spacing.

  The locale \<open>tick_index\<close> is what the swap loop relies on: a set of ticks in which one tick can be flipped, and a search that
  stops at the next tick of the set or at the end of a word. The bitmap interprets it.
\<close>

unbundle bit_operations_syntax

section \<open>Operations\<close>

text \<open>Division and remainder of \<open>i32\<close>, which panic on a zero divisor and on the one quotient that does not fit.\<close>

definition i32_div :: "int \<Rightarrow> int \<Rightarrow> int panics" where
  "i32_div a b = (if b = 0 \<or> a = - (2 ^ 31) \<and> b = - 1 then None else Some (a sdiv b))"

definition i32_rem :: "int \<Rightarrow> int \<Rightarrow> int panics" where
  "i32_rem a b = (if b = 0 \<or> a = - (2 ^ 31) \<and> b = - 1 then None else Some (a smod b))"

definition tick_position :: "int \<Rightarrow> int \<times> nat" where
  "tick_position tick = (wrap_s 16 (drop_bit 8 tick), nat (tick AND 0xFF))"

record tick_bitmap =
  bm_words :: "int \<rightharpoonup> u256"
  bm_tick_spacing :: int

definition bitmap_new :: "32 word \<Rightarrow> tick_bitmap panics" where
  "bitmap_new tick_spacing =
     (if tick_spacing > 0 then Some \<lparr>bm_words = Map.empty, bm_tick_spacing = wrap_s 32 (int (unat tick_spacing))\<rparr> else None)"

definition compress_tick :: "tick_bitmap \<Rightarrow> int \<Rightarrow> int panics" where
  "compress_tick bm tick = i32_div tick (bm_tick_spacing bm)"

definition flip_tick :: "tick_bitmap \<Rightarrow> int \<Rightarrow> tick_bitmap panics" where
  "flip_tick bm tick = do {
     remainder \<leftarrow> i32_rem tick (bm_tick_spacing bm);
     if remainder \<noteq> 0 then None
     else do {
       compressed_tick \<leftarrow> compress_tick bm tick;
       let (word_position, bit_position) = tick_position compressed_tick;
       let word = (case bm_words bm word_position of None \<Rightarrow> 0 | Some word \<Rightarrow> word) XOR push_bit bit_position 1;
       Some (bm\<lparr>bm_words := (bm_words bm)(word_position := (if word = 0 then None else Some word))\<rparr>)
     }
   }"

definition is_initialized :: "tick_bitmap \<Rightarrow> int \<Rightarrow> bool panics" where
  "is_initialized bm tick = do {
     compressed_tick \<leftarrow> compress_tick bm tick;
     let (word_position, bit_position) = tick_position compressed_tick;
     Some (case bm_words bm word_position of
       Some word \<Rightarrow> word AND push_bit bit_position 1 \<noteq> 0
     | None \<Rightarrow> False)
   }"

definition next_initialized_tick_within_one_word :: "tick_bitmap \<Rightarrow> int \<Rightarrow> bool \<Rightarrow> (int \<times> bool) panics" where
  "next_initialized_tick_within_one_word bm tick less_than_or_equal = do {
     compressed_tick \<leftarrow> compress_tick bm tick;
     remainder \<leftarrow> (if tick < 0 then i32_rem tick (bm_tick_spacing bm) else Some 0);
     let compressed_tick = (if tick < 0 \<and> remainder \<noteq> 0 then wrap_s 32 (compressed_tick - 1) else compressed_tick);
     if less_than_or_equal then do {
       let (word_pos, bit_pos) = tick_position compressed_tick;
       let mask = push_bit bit_pos 1 - 1 + push_bit bit_pos 1;
       let word = (case bm_words bm word_pos of None \<Rightarrow> 0 | Some word \<Rightarrow> word);
       let masked = word AND mask;
       let initialized = (masked \<noteq> 0);
       let next = (if initialized then (compressed_tick - int bit_pos + most_significant_bit masked) * bm_tick_spacing bm
                   else (compressed_tick - int bit_pos) * bm_tick_spacing bm);
       Some (wrap_s 32 next, initialized)
     }
     else do {
       let (word_pos, bit_pos) = tick_position (wrap_s 32 (compressed_tick + 1));
       let mask = NOT (push_bit bit_pos 1 - 1);
       let word = (case bm_words bm word_pos of None \<Rightarrow> 0 | Some word \<Rightarrow> word);
       let masked = word AND mask;
       let initialized = (masked \<noteq> 0);
       let next = (if initialized then (compressed_tick + 1 + least_significant_bit masked - int bit_pos) * bm_tick_spacing bm
                   else (compressed_tick + 1 + 255 - int bit_pos) * bm_tick_spacing bm);
       Some (wrap_s 32 next, initialized)
     }
   }"

section \<open>The interface\<close>

locale tick_index =
  fixes ok :: "'b \<Rightarrow> bool"
    and spacing :: "'b \<Rightarrow> int"
    and ticks :: "'b \<Rightarrow> int set"
    and flip :: "'b \<Rightarrow> int \<Rightarrow> 'b panics"
    and next_tick :: "'b \<Rightarrow> int \<Rightarrow> bool \<Rightarrow> (int \<times> bool) panics"
  assumes flip_law: "ok b \<Longrightarrow> MIN_TICK \<le> t \<Longrightarrow> t \<le> MAX_TICK \<Longrightarrow> spacing b dvd t \<Longrightarrow>
      \<exists>b'. flip b t = Some b' \<and> ok b' \<and> spacing b' = spacing b \<and> ticks b' = (if t \<in> ticks b then ticks b - {t} else insert t (ticks b))"
    and next_below_law: "ok b \<Longrightarrow> MIN_TICK - 1 \<le> t \<Longrightarrow> t \<le> MAX_TICK \<Longrightarrow>
      \<exists>n. next_tick b t True = Some (n, n \<in> ticks b) \<and> n \<le> t \<and> ticks b \<inter> {n <.. t} = {}"
    and next_above_law: "ok b \<Longrightarrow> MIN_TICK - 1 \<le> t \<Longrightarrow> t \<le> MAX_TICK \<Longrightarrow>
      \<exists>n. next_tick b t False = Some (n, n \<in> ticks b) \<and> t < n \<and> ticks b \<inter> {t <..< n} = {}"
begin

text \<open>Moving to the tick that the search returns passes no other tick of the set, so a quantity that changes only at ticks of the set
  changes by what the returned tick contributes.\<close>

lemma below_sum:
  assumes "ok b" "MIN_TICK - 1 \<le> t" "t \<le> MAX_TICK" "next_tick b t True = Some (n, i)"
  shows "n \<le> t" "i \<longleftrightarrow> n \<in> ticks b" "sum f (ticks b \<inter> {n..t}) = (if i then f n else 0)"
proof -
  obtain m where "next_tick b t True = Some (m, m \<in> ticks b)" and m: "m \<le> t" "ticks b \<inter> {m <.. t} = {}"
    using next_below_law [OF assms(1-3)] by blast
  then have n: "n = m" "i \<longleftrightarrow> n \<in> ticks b" using assms(4) by simp_all
  then show "n \<le> t" "i \<longleftrightarrow> n \<in> ticks b" using m(1) by simp_all
  have "ticks b \<inter> {n..t} = ticks b \<inter> ({n} \<union> {n <.. t})" using m(1) n(1) by auto
  then have "ticks b \<inter> {n..t} = (if i then {n} else {})" using m(2) n by auto
  then show "sum f (ticks b \<inter> {n..t}) = (if i then f n else 0)" by simp
qed

lemma above_sum:
  assumes "ok b" "MIN_TICK - 1 \<le> t" "t \<le> MAX_TICK" "next_tick b t False = Some (n, i)"
  shows "t < n" "i \<longleftrightarrow> n \<in> ticks b" "sum f (ticks b \<inter> {t <.. n}) = (if i then f n else 0)"
proof -
  obtain m where "next_tick b t False = Some (m, m \<in> ticks b)" and m: "t < m" "ticks b \<inter> {t <..< m} = {}"
    using next_above_law [OF assms(1-3)] by blast
  then have n: "n = m" "i \<longleftrightarrow> n \<in> ticks b" using assms(4) by simp_all
  then show "t < n" "i \<longleftrightarrow> n \<in> ticks b" using m(1) by simp_all
  have "ticks b \<inter> {t <.. n} = ticks b \<inter> ({n} \<union> {t <..< n})" using m(1) n(1) by auto
  then have "ticks b \<inter> {t <.. n} = (if i then {n} else {})" using m(2) n by auto
  then show "sum f (ticks b \<inter> {t <.. n}) = (if i then f n else 0)" by simp
qed

end

section \<open>Positions of ticks\<close>

definition bm_word :: "tick_bitmap \<Rightarrow> int \<Rightarrow> u256" where
  "bm_word bm w = (case bm_words bm w of None \<Rightarrow> 0 | Some word \<Rightarrow> word)"

definition bm_has :: "tick_bitmap \<Rightarrow> int \<Rightarrow> bool" where
  "bm_has bm k \<longleftrightarrow> bit (bm_word bm (k div 256)) (nat (k mod 256))"

definition bm_ticks :: "tick_bitmap \<Rightarrow> int set" where
  "bm_ticks bm = {t. bm_tick_spacing bm dvd t \<and> bm_has bm (t div bm_tick_spacing bm)}"

definition bm_ok :: "tick_bitmap \<Rightarrow> bool" where
  "bm_ok bm \<longleftrightarrow> 0 < bm_tick_spacing bm \<and> bm_tick_spacing bm \<le> 16384 \<and> (\<forall>w. bm_words bm w \<noteq> Some 0)"

lemma wrap_s_32_id: "- (2 ^ 31) \<le> x \<Longrightarrow> x < 2 ^ 31 \<Longrightarrow> wrap_s 32 x = x"
  by (rule wrap_s_id) simp_all

lemma tick_position_eq:
  assumes "\<bar>k\<bar> \<le> 2 ^ 20"
  shows "tick_position k = (k div 256, nat (k mod 256))"
proof -
  have "k AND mask 8 = k mod 2 ^ 8" by (simp only: take_bit_eq_mod flip: take_bit_eq_mask)
  then have "k AND 0xFF = k mod 256" by (simp add: mask_eq_exp_minus_1)
  moreover have "drop_bit 8 k = k div 256" by (simp add: drop_bit_eq_div)
  moreover have "- (2 ^ 15) \<le> k div 256" "k div 256 < 2 ^ 15" using assms by simp_all
  then have "wrap_s 16 (k div 256) = k div 256" by (intro wrap_s_id) simp_all
  ultimately show ?thesis by (simp add: tick_position_def)
qed

lemma sdiv_floor:
  fixes t s :: int
  assumes "0 < s"
  shows "(if t < 0 \<and> t smod s \<noteq> 0 then t sdiv s - 1 else t sdiv s) = t div s"
proof (cases "t < 0")
  case True
  have "t div s = (- (- t)) div s" by simp
  also have "\<dots> = (if - t mod s = 0 then - (- t div s) else - (- t div s) - 1)" using assms by (intro zdiv_zminus1_eq_if) simp
  also have "- t mod s = 0 \<longleftrightarrow> t smod s = 0" by (simp add: smod_zero_iff flip: dvd_eq_mod_eq_0)
  finally show ?thesis using True assms by (simp add: signed_divide_int_def sgn_mult)
qed (use assms in \<open>simp add: signed_divide_int_def sgn_mult zsgn_def\<close>)

lemma compressed_bounds:
  fixes s t :: int
  assumes "0 < s" "MIN_TICK - 1 \<le> t" "t \<le> MAX_TICK"
  shows "- 887273 \<le> t div s" "t div s \<le> 887273"
proof -
  have t: "- 887273 \<le> t" "t \<le> 887273" using assms(2,3) by (simp_all add: MIN_TICK_def MAX_TICK_def)
  have "- 887273 * s \<le> t" using mult_mono [of 887273 887273 1 s] assms(1) t(1) by linarith
  then have "- 887273 * s div s \<le> t div s" using assms(1) by (rule zdiv_mono1)
  moreover have "- 887273 * s div s = - 887273" using assms(1) by (intro nonzero_mult_div_cancel_right) simp
  ultimately show "- 887273 \<le> t div s" by simp
  have "t \<le> 887273 * s" using mult_mono [of 887273 887273 1 s] assms(1) t(2) by linarith
  then have "t div s \<le> 887273 * s div s" using assms(1) by (rule zdiv_mono1)
  moreover have "887273 * s div s = 887273" using assms(1) by (intro nonzero_mult_div_cancel_right) simp
  ultimately show "t div s \<le> 887273" by simp
qed

lemma tick_code:
  assumes "bm_ok bm" "MIN_TICK - 1 \<le> t" "t \<le> MAX_TICK"
  defines "s \<equiv> bm_tick_spacing bm"
  shows "compress_tick bm t = Some (t sdiv s)" "i32_rem t s = Some (t smod s)"
    "s dvd t \<Longrightarrow> t sdiv s = t div s" "\<bar>t div s\<bar> \<le> 887273"
proof -
  have s: "0 < s" "s \<noteq> - 1" "s \<noteq> 0" using assms(1) by (simp_all add: s_def bm_ok_def)
  then show "compress_tick bm t = Some (t sdiv s)" "i32_rem t s = Some (t smod s)"
    by (simp_all add: compress_tick_def i32_div_def i32_rem_def flip: s_def)
  show "t sdiv s = t div s" if "s dvd t" using sdiv_floor [OF s(1), of t] that by (simp add: smod_zero_iff)
  show "\<bar>t div s\<bar> \<le> 887273" using compressed_bounds [OF s(1) assms(2,3)] by simp
qed

section \<open>Flipping a tick\<close>

lemma bit_flipped: "n < 256 \<Longrightarrow> bit (w XOR push_bit n 1 :: u256) i \<longleftrightarrow> bit w i \<noteq> (i = n)"
  by (auto simp: bit_simps dest: bit_imp_le_length)

lemma split_256: "k = j \<longleftrightarrow> k div 256 = j div 256 \<and> nat (k mod 256) = nat (j mod 256)" for k j :: int
  by (metis div_mult_mod_eq eq_nat_nat_iff pos_mod_sign zero_less_numeral)

lemma flip_tick_ok:
  assumes "bm_ok bm" "MIN_TICK \<le> t" "t \<le> MAX_TICK" "bm_tick_spacing bm dvd t"
  shows "\<exists>bm'. flip_tick bm t = Some bm' \<and> bm_ok bm' \<and> bm_tick_spacing bm' = bm_tick_spacing bm \<and>
    bm_ticks bm' = (if t \<in> bm_ticks bm then bm_ticks bm - {t} else insert t (bm_ticks bm))"
proof -
  let ?s = "bm_tick_spacing bm"
  define k where "k = t div ?s"
  have range: "MIN_TICK - 1 \<le> t" using assms(2) by simp
  note code = tick_code [OF assms(1) range assms(3)]
  have s: "0 < ?s" using assms(1) by (simp add: bm_ok_def)
  have t: "t = k * ?s" using assms(4) by (simp add: k_def)
  have pos: "tick_position k = (k div 256, nat (k mod 256))" using code(4) by (intro tick_position_eq) (simp add: k_def)
  define w where "w = bm_word bm (k div 256) XOR push_bit (nat (k mod 256)) 1"
  define bm' where "bm' = bm\<lparr>bm_words := (bm_words bm)(k div 256 := (if w = 0 then None else Some w))\<rparr>"
  have "flip_tick bm t = Some bm'"
    using code(1,2) code(3) [OF assms(4)] assms(4) pos
    by (simp add: flip_tick_def bm'_def w_def bm_word_def smod_zero_iff flip: k_def)
  moreover have "bm_ok bm'" using assms(1) by (auto simp: bm_ok_def bm'_def)
  moreover have word: "bm_word bm' v = (if v = k div 256 then w else bm_word bm v)" for v by (auto simp: bm_word_def bm'_def)
  have "nat (k mod 256) < 256" by (simp add: nat_less_iff)
  then have "bit w i \<longleftrightarrow> bit (bm_word bm (k div 256)) i \<noteq> (i = nat (k mod 256))" for i unfolding w_def by (rule bit_flipped)
  then have has: "bm_has bm' j \<longleftrightarrow> bm_has bm j \<noteq> (j = k)" for j
    using split_256 [of j k] by (cases "j div 256 = k div 256") (simp_all add: bm_has_def word)
  have sp: "bm_tick_spacing bm' = ?s" by (simp add: bm'_def)
  have "u \<in> bm_ticks bm' \<longleftrightarrow> (u \<in> bm_ticks bm) \<noteq> (u = t)" for u
  proof -
    have "u div ?s = k \<longleftrightarrow> u = t" if "?s dvd u" using that s by (auto simp: t)
    then show ?thesis using assms(4) by (auto simp: bm_ticks_def has sp)
  qed
  then have "bm_ticks bm' = (if t \<in> bm_ticks bm then bm_ticks bm - {t} else insert t (bm_ticks bm))" by auto
  ultimately show ?thesis by (auto simp: bm'_def)
qed

lemma is_initialized_ok:
  assumes "bm_ok bm" "MIN_TICK \<le> t" "t \<le> MAX_TICK" "bm_tick_spacing bm dvd t"
  shows "is_initialized bm t = Some (t \<in> bm_ticks bm)"
proof -
  define k where "k = t div bm_tick_spacing bm"
  have range: "MIN_TICK - 1 \<le> t" using assms(2) by simp
  note code = tick_code [OF assms(1) range assms(3)]
  have pos: "tick_position k = (k div 256, nat (k mod 256))" using code(4) by (intro tick_position_eq) (simp add: k_def)
  show ?thesis using code(1) code(3) [OF assms(4)] pos assms(4)
    by (simp add: is_initialized_def bm_ticks_def bm_has_def bm_word_def bit_iff_and_push_bit_not_eq_0 del: push_bit_of_1 split: option.splits flip: k_def)
qed

section \<open>Searching a tick\<close>

lemma bit_mask_below: "b < 256 \<Longrightarrow> bit (w AND (push_bit b 1 - 1 + push_bit b 1) :: u256) i \<longleftrightarrow> bit w i \<and> i \<le> b"
proof -
  assume "b < 256"
  moreover have "push_bit b 1 - 1 + push_bit b 1 = (mask (Suc b) :: u256)" by (simp add: mask_eq_exp_minus_1)
  ultimately show ?thesis by (auto simp del: push_bit_of_1 simp: bit_and_iff bit_mask_iff dest: bit_imp_le_length)
qed

lemma bit_mask_above: "b < 256 \<Longrightarrow> bit (w AND NOT (push_bit b 1 - 1) :: u256) i \<longleftrightarrow> bit w i \<and> b \<le> i"
proof -
  assume "b < 256"
  moreover have "push_bit b 1 - 1 = (mask b :: u256)" by (simp add: mask_eq_exp_minus_1)
  ultimately show ?thesis by (auto simp del: push_bit_of_1 simp: bit_and_iff bit_not_iff bit_mask_iff dest: bit_imp_le_length)
qed

text \<open>The search in the word of a compressed tick.\<close>

lemma same_word:
  fixes c j :: int
  assumes "256 * (c div 256) \<le> j" "j < 256 * (c div 256) + 256"
  shows "j div 256 = c div 256" "j mod 256 = j - 256 * (c div 256)"
  using assms by (auto simp: minus_mult_div_eq_mod [symmetric])

lemma search_below:
  fixes c :: int and bm :: tick_bitmap
  defines "masked \<equiv> bm_word bm (c div 256) AND (push_bit (nat (c mod 256)) 1 - 1 + push_bit (nat (c mod 256)) 1)"
  defines "n \<equiv> 256 * (c div 256) + (if masked = 0 then 0 else most_significant_bit masked)"
  shows "n \<le> c" "c - 255 \<le> n" "bm_has bm n \<longleftrightarrow> masked \<noteq> 0" "bm_has bm j \<Longrightarrow> j \<le> c \<Longrightarrow> j \<le> n"
proof -
  let ?v = "256 * (c div 256)" and ?b = "nat (c mod 256)"
  have b: "?b < 256" "?v + int ?b = c" by (simp_all add: nat_less_iff)
  have bits: "bit masked i \<longleftrightarrow> bit (bm_word bm (c div 256)) i \<and> i \<le> ?b" for i unfolding masked_def by (rule bit_mask_below [OF b(1)])
  have has: "bm_has bm j \<longleftrightarrow> bit masked (nat (j - ?v))" if "?v \<le> j" "j \<le> c" for j
  proof -
    have "j < ?v + 256" "nat (j - ?v) \<le> ?b" using that(2) b by linarith+
    then show ?thesis using same_word [OF that(1)] by (simp add: bm_has_def bits)
  qed
  have n: "?v \<le> n \<and> n \<le> c \<and> (bit masked (nat (n - ?v)) \<longleftrightarrow> masked \<noteq> 0) \<and> (\<forall>i > nat (n - ?v). \<not> bit masked i)"
  proof (cases "masked = 0")
    case True
    then show ?thesis using b by (simp add: n_def)
  next
    case False
    obtain m where m: "most_significant_bit masked = int m" "bit masked m" "\<forall>i > m. \<not> bit masked i"
      using most_significant_bit_iff [OF False] by blast
    then have "m \<le> ?b" using bits by blast
    then have "int m \<le> c - ?v" using b by linarith
    then show ?thesis using False m by (simp add: n_def)
  qed
  then show "n \<le> c" "c - 255 \<le> n" using b by linarith+
  show "bm_has bm n \<longleftrightarrow> masked \<noteq> 0" using has [of n] n by simp
  show "j \<le> n" if j: "bm_has bm j" "j \<le> c"
  proof (rule ccontr)
    assume no: "\<not> j \<le> n"
    then have "bit masked (nat (j - ?v))" using has [of j] j n by simp
    moreover have "nat (n - ?v) < nat (j - ?v)" using no n by simp
    ultimately show False using n by blast
  qed
qed

lemma search_above:
  fixes c :: int and bm :: tick_bitmap
  defines "masked \<equiv> bm_word bm (c div 256) AND NOT (push_bit (nat (c mod 256)) 1 - 1)"
  defines "n \<equiv> 256 * (c div 256) + (if masked = 0 then 255 else least_significant_bit masked)"
  shows "c \<le> n" "n \<le> c + 255" "bm_has bm n \<longleftrightarrow> masked \<noteq> 0" "bm_has bm j \<Longrightarrow> c \<le> j \<Longrightarrow> n \<le> j"
proof -
  let ?v = "256 * (c div 256)" and ?b = "nat (c mod 256)"
  have b: "?b < 256" "?v + int ?b = c" by (simp_all add: nat_less_iff)
  have bits: "bit masked i \<longleftrightarrow> bit (bm_word bm (c div 256)) i \<and> ?b \<le> i" for i unfolding masked_def by (rule bit_mask_above [OF b(1)])
  have has: "bm_has bm j \<longleftrightarrow> bit masked (nat (j - ?v))" if "c \<le> j" "j < ?v + 256" for j
  proof -
    have "?v \<le> j" "?b \<le> nat (j - ?v)" using that(1) b by linarith+
    then show ?thesis using same_word [OF _ that(2)] by (simp add: bm_has_def bits)
  qed
  have n: "c \<le> n \<and> n < ?v + 256 \<and> (bit masked (nat (n - ?v)) \<longleftrightarrow> masked \<noteq> 0) \<and> (\<forall>i < nat (n - ?v). \<not> bit masked i)"
  proof (cases "masked = 0")
    case True
    then show ?thesis using b by (simp add: n_def)
  next
    case False
    obtain m where m: "m < 256" "least_significant_bit masked = int m" "bit masked m" "\<forall>i < m. \<not> bit masked i"
      using least_significant_bit_iff [OF False] by blast
    then have "?b \<le> m" using bits by blast
    then have "c - ?v \<le> int m" using b by linarith
    then show ?thesis using False m by (simp add: n_def)
  qed
  then show "c \<le> n" "n \<le> c + 255" using b by linarith+
  show "bm_has bm n \<longleftrightarrow> masked \<noteq> 0" using has [of n] n by simp
  show "n \<le> j" if j: "bm_has bm j" "c \<le> j"
  proof (rule ccontr)
    assume no: "\<not> n \<le> j"
    then have "bit masked (nat (j - ?v))" using has [of j] j n by simp
    moreover have "nat (j - ?v) < nat (n - ?v)" using no n j(2) b by simp
    ultimately show False using n by blast
  qed
qed

text \<open>The code around the search: the compressed tick is the quotient rounded down, and nothing overflows.\<close>

lemma scaled_bounds:
  fixes s t n c :: int
  assumes "0 < s" "s \<le> 16384" "\<bar>t\<bar> \<le> 887273" "c = t div s" "c - 255 \<le> n" "n \<le> c + 256"
  shows "wrap_s 32 (n * s) = n * s"
proof -
  have c: "c * s \<le> t" "t < c * s + s" using assms(1,4) by (simp_all add: minus_mod_eq_div_mult [symmetric] )
  have "(c - 255) * s \<le> n * s" "n * s \<le> (c + 256) * s" using assms(1,5,6) by (simp_all add: mult_right_mono)
  then have "c * s - 255 * s \<le> n * s" "n * s \<le> c * s + 256 * s" by (simp_all add: algebra_simps)
  then have "- 2147483648 \<le> n * s" "n * s < 2147483648" using c assms(2,3) by linarith+
  then show ?thesis by (intro wrap_s_32_id) simp_all
qed

lemma tick_of_index:
  assumes "0 < bm_tick_spacing bm"
  shows "n * bm_tick_spacing bm \<in> bm_ticks bm \<longleftrightarrow> bm_has bm n"
  using assms by (simp add: bm_ticks_def)

lemma next_tick_code:
  assumes "bm_ok bm" "MIN_TICK - 1 \<le> t" "t \<le> MAX_TICK"
  defines "s \<equiv> bm_tick_spacing bm" and "c \<equiv> t div bm_tick_spacing bm"
  shows "\<exists>n. next_initialized_tick_within_one_word bm t True = Some (n * s, bm_has bm n) \<and> n \<le> c \<and> (\<forall>j. bm_has bm j \<longrightarrow> j \<le> c \<longrightarrow> j \<le> n)"
    and "\<exists>n. next_initialized_tick_within_one_word bm t False = Some (n * s, bm_has bm n) \<and> c < n \<and> (\<forall>j. bm_has bm j \<longrightarrow> c < j \<longrightarrow> n \<le> j)"
proof -
  have s: "0 < s" "s \<le> 16384" using assms(1) by (simp_all add: bm_ok_def s_def)
  have c: "c = t div s" "\<bar>c\<bar> \<le> 887273" using tick_code(4) [OF assms(1-3)] by (simp_all add: c_def s_def)
  have t: "\<bar>t\<bar> \<le> 887273" using assms(2,3) by (simp add: MIN_TICK_def MAX_TICK_def)
  have floor: "(if t < 0 \<and> t smod s \<noteq> 0 then t sdiv s - 1 else t sdiv s) = c" using sdiv_floor [OF s(1), of t] c(1) by simp
  let ?r = "if t < 0 then t smod s else 0"
  have code: "compress_tick bm t = Some (t sdiv s)" "(if t < 0 then i32_rem t s else Some 0) = Some ?r"
    using tick_code(1,2) [OF assms(1-3)] by (simp_all add: s_def)
  have comp: "(if t < 0 \<and> ?r \<noteq> 0 then wrap_s 32 (t sdiv s - 1) else t sdiv s) = c" "wrap_s 32 (c + 1) = c + 1"
    using floor c(2) wrap_s_32_id [of c] wrap_s_32_id [of "c + 1"] by (auto split: if_splits)
  have start: "next_initialized_tick_within_one_word bm t lte =
    (if lte then
       (let (word_pos, bit_pos) = tick_position c;
            masked = bm_word bm word_pos AND (push_bit bit_pos 1 - 1 + push_bit bit_pos 1)
        in Some (wrap_s 32 (if masked \<noteq> 0 then (c - int bit_pos + most_significant_bit masked) * s else (c - int bit_pos) * s), masked \<noteq> 0))
     else
       (let (word_pos, bit_pos) = tick_position (c + 1);
            masked = bm_word bm word_pos AND NOT (push_bit bit_pos 1 - 1)
        in Some (wrap_s 32 (if masked \<noteq> 0 then (c + 1 + least_significant_bit masked - int bit_pos) * s else (c + 1 + 255 - int bit_pos) * s), masked \<noteq> 0)))" for lte
    by (simp only: next_initialized_tick_within_one_word_def code Option.bind.simps Let_def comp bm_word_def [symmetric] flip: s_def)
  show "\<exists>n. next_initialized_tick_within_one_word bm t True = Some (n * s, bm_has bm n) \<and> n \<le> c \<and> (\<forall>j. bm_has bm j \<longrightarrow> j \<le> c \<longrightarrow> j \<le> n)"
  proof -
    let ?m = "bm_word bm (c div 256) AND (push_bit (nat (c mod 256)) 1 - 1 + push_bit (nat (c mod 256)) 1)"
    let ?n = "256 * (c div 256) + (if ?m = 0 then 0 else most_significant_bit ?m)"
    note search = search_below [where bm = bm and c = c]
    have "(if ?m \<noteq> 0 then (c - int (nat (c mod 256)) + most_significant_bit ?m) * s else (c - int (nat (c mod 256))) * s) = ?n * s"
      by (simp add: minus_mod_eq_mult_div del: push_bit_of_1)
    moreover have "tick_position c = (c div 256, nat (c mod 256))" using c(2) by (intro tick_position_eq) simp
    moreover have "wrap_s 32 (?n * s) = ?n * s" using search(1,2) by (intro scaled_bounds [OF s t c(1)]) linarith+
    ultimately have "next_initialized_tick_within_one_word bm t True = Some (?n * s, bm_has bm ?n)"
      by (simp only: start if_True Let_def prod.case search(3))
    then show ?thesis using search(1,4) by blast
  qed
  show "\<exists>n. next_initialized_tick_within_one_word bm t False = Some (n * s, bm_has bm n) \<and> c < n \<and> (\<forall>j. bm_has bm j \<longrightarrow> c < j \<longrightarrow> n \<le> j)"
  proof -
    define d where "d = c + 1"
    let ?m = "bm_word bm (d div 256) AND NOT (push_bit (nat (d mod 256)) 1 - 1)"
    let ?n = "256 * (d div 256) + (if ?m = 0 then 255 else least_significant_bit ?m)"
    note search = search_above [where bm = bm and c = d]
    have *: "d + x - int (nat (d mod 256)) = 256 * (d div 256) + x" for x using minus_mod_eq_mult_div [of d 256] by simp
    have "(if ?m \<noteq> 0 then (d + least_significant_bit ?m - int (nat (d mod 256))) * s else (d + 255 - int (nat (d mod 256))) * s) = ?n * s"
      by (simp only: * split: if_split) simp
    moreover have "tick_position d = (d div 256, nat (d mod 256))" using c(2) by (intro tick_position_eq) (simp add: d_def)
    moreover have "wrap_s 32 (?n * s) = ?n * s" using search(1,2) d_def by (intro scaled_bounds [OF s t c(1)]) linarith+
    ultimately have "next_initialized_tick_within_one_word bm t False = Some (?n * s, bm_has bm ?n)"
      by (simp only: start if_False Let_def prod.case search(3) flip: d_def)
    moreover have "c < ?n" "\<And>j. bm_has bm j \<Longrightarrow> c < j \<Longrightarrow> ?n \<le> j" using search(1,4) by (simp_all add: d_def)
    ultimately show ?thesis by blast
  qed
qed

lemma next_below_ok:
  assumes "bm_ok bm" "MIN_TICK - 1 \<le> t" "t \<le> MAX_TICK"
  shows "\<exists>n. next_initialized_tick_within_one_word bm t True = Some (n, n \<in> bm_ticks bm) \<and> n \<le> t \<and> bm_ticks bm \<inter> {n <.. t} = {}"
proof -
  let ?s = "bm_tick_spacing bm"
  have s: "0 < ?s" using assms(1) by (simp add: bm_ok_def)
  obtain n where n: "next_initialized_tick_within_one_word bm t True = Some (n * ?s, bm_has bm n)" "n \<le> t div ?s"
      "\<forall>j. bm_has bm j \<longrightarrow> j \<le> t div ?s \<longrightarrow> j \<le> n"
    using next_tick_code(1) [OF assms] by blast
  have "n * ?s \<le> t div ?s * ?s" using n(2) s by simp
  also have "\<dots> \<le> t" using s by (simp add: minus_mod_eq_div_mult [symmetric])
  finally have le: "n * ?s \<le> t" .
  have False if u: "u \<in> bm_ticks bm" "n * ?s < u" "u \<le> t" for u
  proof -
    obtain j where j: "u = j * ?s" "bm_has bm j" using u(1) s by (auto simp: bm_ticks_def)
    then have "n < j" using u(2) s by simp
    moreover have "j \<le> t div ?s" using zdiv_mono1 [OF u(3) s] j(1) s by simp
    ultimately show False using n(3) j(2) by fastforce
  qed
  then show ?thesis using n(1) le tick_of_index [OF s, of n] by auto
qed

lemma next_above_ok:
  assumes "bm_ok bm" "MIN_TICK - 1 \<le> t" "t \<le> MAX_TICK"
  shows "\<exists>n. next_initialized_tick_within_one_word bm t False = Some (n, n \<in> bm_ticks bm) \<and> t < n \<and> bm_ticks bm \<inter> {t <..< n} = {}"
proof -
  let ?s = "bm_tick_spacing bm"
  have s: "0 < ?s" using assms(1) by (simp add: bm_ok_def)
  obtain n where n: "next_initialized_tick_within_one_word bm t False = Some (n * ?s, bm_has bm n)" "t div ?s < n"
      "\<forall>j. bm_has bm j \<longrightarrow> t div ?s < j \<longrightarrow> n \<le> j"
    using next_tick_code(2) [OF assms] by blast
  have "t < (t div ?s + 1) * ?s" using s by (simp add: distrib_right) (metis add.commute mod_div_mult_eq pos_mod_bound add_less_cancel_right)
  also have "\<dots> \<le> n * ?s" using n(2) s by (intro mult_right_mono) simp_all
  finally have less: "t < n * ?s" .
  have False if u: "u \<in> bm_ticks bm" "u < n * ?s" "t < u" for u
  proof -
    obtain j where j: "u = j * ?s" "bm_has bm j" using u(1) s by (auto simp: bm_ticks_def)
    then have "j < n" using u(2) s by simp
    moreover have "t div ?s * ?s \<le> t" using s by (simp add: minus_mod_eq_div_mult [symmetric])
    then have "t div ?s * ?s < j * ?s" using u(3) j(1) by simp
    then have "t div ?s < j" using s by simp
    ultimately show False using n(3) j(2) by fastforce
  qed
  then show ?thesis using n(1) less tick_of_index [OF s, of n] by auto
qed

interpretation bitmap: tick_index bm_ok bm_tick_spacing bm_ticks flip_tick next_initialized_tick_within_one_word
  by unfold_locales (fact flip_tick_ok next_below_ok next_above_ok)+

section \<open>Properties\<close>

lemma bitmap_new_ok:
  assumes "0 < s" "s \<le> 16384"
  obtains bm where "bitmap_new s = Some bm" "bm_ok bm" "bm_tick_spacing bm = int (unat s)" "bm_ticks bm = {}"
proof -
  define n where "n = int (unat s)"
  have "unat s \<le> 16384" "0 < unat s" using assms by (simp_all add: word_le_nat_alt word_less_nat_alt)
  then have n: "n \<le> 16384" "0 < n" unfolding n_def by linarith+
  then have "wrap_s 32 n = n" by (intro wrap_s_32_id) simp_all
  then show thesis using that assms(1) n
    by (simp only: bitmap_new_def if_True flip: n_def) (simp add: bm_ok_def bm_ticks_def bm_has_def bm_word_def)
qed

lemma flips_ok:
  assumes "bm_ok bm" "\<forall>t \<in> set ts. MIN_TICK \<le> t \<and> t \<le> MAX_TICK \<and> bm_tick_spacing bm dvd t"
  shows "\<exists>bm'. fold_opt (\<lambda>t bm. flip_tick bm t) ts bm = Some bm' \<and> bm_ok bm' \<and> bm_tick_spacing bm' = bm_tick_spacing bm \<and>
    bm_ticks bm' = {t. (t \<in> bm_ticks bm) \<noteq> odd (count_list ts t)}"
  using assms
proof (induction ts arbitrary: bm)
  case (Cons t ts)
  obtain b where b: "flip_tick bm t = Some b" "bm_ok b" "bm_tick_spacing b = bm_tick_spacing bm"
      "bm_ticks b = (if t \<in> bm_ticks bm then bm_ticks bm - {t} else insert t (bm_ticks bm))"
    using bitmap.flip_law [OF Cons.prems(1), of t] Cons.prems(2) by auto
  moreover have "{u. (u \<in> bm_ticks b) \<noteq> odd (count_list ts u)} = {u. (u \<in> bm_ticks bm) \<noteq> odd (count_list (t # ts) u)}"
    unfolding b(4) by auto
  ultimately show ?case using Cons.IH [OF b(2)] Cons.prems(2) by simp
qed auto

text \<open>C35: The bitmap is the set of the ticks that were flipped an odd number of times. Below a tick the search returns the nearest tick of the set or a
  tick with none of the set in between, above it likewise, and it says which; \<open>is_initialized\<close> is membership on the multiples of the
  spacing. Nothing panics or overflows for the ticks of a pool and a spacing of at most 16384.\<close>

theorem bitmap_refines_tick_set:
  assumes "0 < s" "s \<le> 16384" "\<forall>t \<in> set ts. MIN_TICK \<le> t \<and> t \<le> MAX_TICK \<and> int (unat s) dvd t" "MIN_TICK \<le> u" "u \<le> MAX_TICK"
  defines "T \<equiv> {t. odd (count_list ts t)}"
  shows "\<exists>bm below above. Option.bind (bitmap_new s) (fold_opt (\<lambda>t bm. flip_tick bm t) ts) = Some bm \<and>
    next_initialized_tick_within_one_word bm u True = Some (below, below \<in> T) \<and> below \<le> u \<and> T \<inter> {below <.. u} = {} \<and>
    next_initialized_tick_within_one_word bm u False = Some (above, above \<in> T) \<and> u < above \<and> T \<inter> {u <..< above} = {} \<and>
    (int (unat s) dvd u \<longrightarrow> is_initialized bm u = Some (u \<in> T))"
proof -
  obtain b where b: "bitmap_new s = Some b" "bm_ok b" "bm_tick_spacing b = int (unat s)" "bm_ticks b = {}"
    by (rule bitmap_new_ok [OF assms(1,2)])
  obtain bm where bm: "fold_opt (\<lambda>t bm. flip_tick bm t) ts b = Some bm" "bm_ok bm" "bm_tick_spacing bm = int (unat s)" "bm_ticks bm = T"
    using flips_ok [OF b(2), of ts] b(3,4) assms(3) by (auto simp: T_def)
  have "int (unat s) dvd u \<longrightarrow> is_initialized bm u = Some (u \<in> T)" using is_initialized_ok [OF bm(2) assms(4,5)] bm(3,4) by simp
  then show ?thesis
    using b(1) bm(1) bitmap.next_below_law [OF bm(2) _ assms(5)] bitmap.next_above_law [OF bm(2) _ assms(5)] assms(4) by (fastforce simp: bm(4))
qed

theorem bitmap_refines_tick_set_witness:
  "\<exists>bm. Option.bind (bitmap_new 60) (fold_opt (\<lambda>t bm. flip_tick bm t) [- 120, 60, 60]) = Some bm \<and> is_initialized bm (- 120) = Some True"
  using bitmap_refines_tick_set [of 60 "[- 120, 60, 60]" "- 120"] by (auto simp: MIN_TICK_def MAX_TICK_def)

end
