(* ===== verification/Pool_Ticks.thy ===== *)
theory Pool_Ticks
  imports Tick_Bitmap "HOL-Library.AList"
begin

text \<open>
  Ticks and the tick map of a pool (\<open>crates/model/src/defi/tick_map/tick.rs\<close>, \<open>mod.rs\<close>): for each tick the liquidity that refers to it, the change of
  the active liquidity when the price crosses it and the fee growth on its other side; beside them the bitmap of initialised ticks.

  The hash map of ticks is an association list, whose order stands for the unspecified order of iteration. \<open>liquidity_net\<close> is an \<open>i128\<close> and wraps
  around; counters are words.
\<close>

section \<open>Ticks\<close>

record pool_tick =
  pt_value :: int
  pt_liquidity_gross :: u128
  pt_liquidity_net :: int
  pt_fee_growth_outside_0 :: u256
  pt_fee_growth_outside_1 :: u256
  pt_initialized :: bool
  pt_last_updated_block :: u64
  pt_updates_count :: u64

definition pool_tick_new :: "int \<Rightarrow> u128 \<Rightarrow> int \<Rightarrow> u256 \<Rightarrow> u256 \<Rightarrow> bool \<Rightarrow> u64 \<Rightarrow> pool_tick" where
  "pool_tick_new tick gross net growth_0 growth_1 initialized block =
     \<lparr>pt_value = tick, pt_liquidity_gross = gross, pt_liquidity_net = net, pt_fee_growth_outside_0 = growth_0,
      pt_fee_growth_outside_1 = growth_1, pt_initialized = initialized, pt_last_updated_block = block, pt_updates_count = 0\<rparr>"

definition from_tick :: "int \<Rightarrow> pool_tick" where
  "from_tick tick = pool_tick_new tick 0 0 0 0 False 0"

definition tick_update_liquidity :: "int \<Rightarrow> bool \<Rightarrow> pool_tick \<Rightarrow> (u128 \<times> pool_tick) panics" where
  "tick_update_liquidity liquidity_delta upper t = do {
     gross \<leftarrow> liquidity_math_add (pt_liquidity_gross t) liquidity_delta;
     Some (pt_liquidity_gross t,
       t\<lparr>pt_liquidity_gross := gross,
         pt_liquidity_net := wrap_s 128 (if upper then pt_liquidity_net t - liquidity_delta else pt_liquidity_net t + liquidity_delta),
         pt_updates_count := pt_updates_count t + 1\<rparr>)
   }"

definition tick_clear :: "pool_tick \<Rightarrow> pool_tick" where
  "tick_clear t = t\<lparr>pt_liquidity_gross := 0, pt_liquidity_net := 0, pt_fee_growth_outside_0 := 0, pt_fee_growth_outside_1 := 0,
     pt_initialized := False\<rparr>"

definition tick_is_active :: "pool_tick \<Rightarrow> bool" where
  "tick_is_active t \<longleftrightarrow> pt_initialized t \<and> pt_liquidity_gross t > 0"

definition tick_update_fee_growth :: "u256 \<Rightarrow> u256 \<Rightarrow> pool_tick \<Rightarrow> pool_tick" where
  "tick_update_fee_growth global_0 global_1 t =
     t\<lparr>pt_fee_growth_outside_0 := global_0 - pt_fee_growth_outside_0 t, pt_fee_growth_outside_1 := global_1 - pt_fee_growth_outside_1 t\<rparr>"

definition get_max_tick :: "int \<Rightarrow> int panics" where
  "get_max_tick tick_spacing = do { q \<leftarrow> i32_div MAX_TICK tick_spacing; Some (wrap_s 32 (q * tick_spacing)) }"

definition get_min_tick :: "int \<Rightarrow> int panics" where
  "get_min_tick tick_spacing = do { q \<leftarrow> i32_div MIN_TICK tick_spacing; Some (wrap_s 32 (q * tick_spacing)) }"

section \<open>The tick map\<close>

record tick_map =
  tm_ticks :: "(int \<times> pool_tick) list"
  tm_bitmap :: tick_bitmap
  tm_liquidity :: u128
  tm_max_liquidity_per_tick :: u128

definition tick_map_new :: "32 word \<Rightarrow> tick_map panics" where
  "tick_map_new tick_spacing =
     (if \<not> tick_spacing > 0 then None
      else do {
        bitmap \<leftarrow> bitmap_new tick_spacing;
        max_liquidity \<leftarrow> tick_spacing_to_max_liquidity_per_tick (wrap_s 32 (int (unat tick_spacing)));
        Some \<lparr>tm_ticks = [], tm_bitmap = bitmap, tm_liquidity = 0, tm_max_liquidity_per_tick = max_liquidity\<rparr>
      })"

definition tm_get_tick :: "tick_map \<Rightarrow> int \<Rightarrow> pool_tick option" where
  "tm_get_tick m tick = map_of (tm_ticks m) tick"

definition get_tick_or_init :: "tick_map \<Rightarrow> int \<Rightarrow> pool_tick" where
  "get_tick_or_init m tick = (case map_of (tm_ticks m) tick of Some t \<Rightarrow> t | None \<Rightarrow> from_tick tick)"

definition put_tick :: "int \<Rightarrow> pool_tick \<Rightarrow> tick_map \<Rightarrow> tick_map" where
  "put_tick tick t m = m\<lparr>tm_ticks := AList.update tick t (tm_ticks m)\<rparr>"

definition get_fee_growth_inside :: "int \<Rightarrow> int \<Rightarrow> int \<Rightarrow> u256 \<Rightarrow> u256 \<Rightarrow> tick_map \<Rightarrow> (u256 \<times> u256) \<times> tick_map" where
  "get_fee_growth_inside lower upper current_tick global_0 global_1 m =
     (let m = put_tick lower (get_tick_or_init m lower) m;
          m = put_tick upper (get_tick_or_init m upper) m;
          lower_tick = get_tick_or_init m lower;
          upper_tick = get_tick_or_init m upper;
          below_0 = (if current_tick \<ge> pt_value lower_tick then pt_fee_growth_outside_0 lower_tick
                     else global_0 - pt_fee_growth_outside_0 lower_tick);
          below_1 = (if current_tick \<ge> pt_value lower_tick then pt_fee_growth_outside_1 lower_tick
                     else global_1 - pt_fee_growth_outside_1 lower_tick);
          above_0 = (if current_tick < pt_value upper_tick then pt_fee_growth_outside_0 upper_tick
                     else global_0 - pt_fee_growth_outside_0 upper_tick);
          above_1 = (if current_tick < pt_value upper_tick then pt_fee_growth_outside_1 upper_tick
                     else global_1 - pt_fee_growth_outside_1 upper_tick)
      in ((global_0 - below_0 - above_0, global_1 - below_1 - above_1), m))"

definition update_tick_data :: "int \<Rightarrow> int \<Rightarrow> int \<Rightarrow> bool \<Rightarrow> u256 \<Rightarrow> u256 \<Rightarrow> tick_map \<Rightarrow> (bool \<times> tick_map) panics" where
  "update_tick_data tick tick_current liquidity_delta upper global_0 global_1 m = do {
     (gross_before, t) \<leftarrow> tick_update_liquidity liquidity_delta upper (get_tick_or_init m tick);
     let gross_after = pt_liquidity_gross t;
     if \<not> gross_after \<le> tm_max_liquidity_per_tick m then None
     else do {
       let t = (if gross_before = 0 then
                  (let t = (if pt_value t \<le> tick_current
                            then t\<lparr>pt_fee_growth_outside_0 := global_0, pt_fee_growth_outside_1 := global_1\<rparr> else t)
                   in t\<lparr>pt_initialized := True\<rparr>)
                else t);
       Some ((gross_after = 0) \<noteq> (gross_before = 0), put_tick tick t m)
     }
   }"

definition tm_update :: "int \<Rightarrow> int \<Rightarrow> int \<Rightarrow> bool \<Rightarrow> u256 \<Rightarrow> u256 \<Rightarrow> tick_map \<Rightarrow> (bool \<times> tick_map) panics" where
  "tm_update tick tick_current liquidity_delta upper global_0 global_1 m = do {
     (flipped, m) \<leftarrow> update_tick_data tick tick_current liquidity_delta upper global_0 global_1 m;
     if flipped then do {
       bitmap \<leftarrow> flip_tick (tm_bitmap m) tick;
       Some (flipped, m\<lparr>tm_bitmap := bitmap\<rparr>)
     }
     else Some (flipped, m)
   }"

definition cross_tick :: "int \<Rightarrow> u256 \<Rightarrow> u256 \<Rightarrow> tick_map \<Rightarrow> int \<times> tick_map" where
  "cross_tick tick global_0 global_1 m =
     (let t = tick_update_fee_growth global_0 global_1 (get_tick_or_init m tick) in (pt_liquidity_net t, put_tick tick t m))"

definition tm_is_tick_initialized :: "tick_map \<Rightarrow> int \<Rightarrow> bool panics" where
  "tm_is_tick_initialized m tick = is_initialized (tm_bitmap m) tick"

definition active_tick_count :: "tick_map \<Rightarrow> nat panics" where
  "active_tick_count m = fold_opt (\<lambda>(_, t) n. do { i \<leftarrow> tm_is_tick_initialized m (pt_value t); Some (if i then n + 1 else n) }) (tm_ticks m) 0"

definition total_tick_count :: "tick_map \<Rightarrow> nat" where
  "total_tick_count m = length (tm_ticks m)"

definition get_all_ticks :: "tick_map \<Rightarrow> (int \<times> pool_tick) list" where
  "get_all_ticks m = tm_ticks m"

definition set_tick :: "pool_tick \<Rightarrow> tick_map \<Rightarrow> tick_map" where
  "set_tick t m = put_tick (pt_value t) t m"

definition restore_tick :: "pool_tick \<Rightarrow> tick_map \<Rightarrow> tick_map panics" where
  "restore_tick t m =
     (let m = set_tick t m in
      if pt_initialized t then do { bitmap \<leftarrow> flip_tick (tm_bitmap m) (pt_value t); Some (m\<lparr>tm_bitmap := bitmap\<rparr>) }
      else Some m)"

definition tm_clear :: "int \<Rightarrow> tick_map \<Rightarrow> tick_map" where
  "tm_clear tick m = m\<lparr>tm_ticks := AList.delete tick (tm_ticks m)\<rparr>"

definition next_initialized_tick :: "tick_map \<Rightarrow> int \<Rightarrow> bool \<Rightarrow> (int \<times> bool) panics" where
  "next_initialized_tick m tick lte = next_initialized_tick_within_one_word (tm_bitmap m) tick lte"

end
