(* ===== verification/Pool_Swap.thy ===== *)
theory Pool_Swap
  imports Swap_Math Pool_Ticks
begin

text \<open>
  Swaps through the ticks of a pool (\<open>crates/model/src/defi/pool_analysis/profiler.rs\<close>, \<open>simulate_swap_through_ticks\<close> and the quotes built on it,
  \<open>quote.rs\<close>, the state of \<open>snapshot.rs\<close>). The loop moves the price from tick to tick until the amount is used up or the price limit is
  reached; the active liquidity changes at the initialised ticks that it crosses.

  The loop is a partial function: its result \<open>None\<close> means that it does not return. Inside, \<open>None\<close> is a panic and \<open>Inl\<close> an error. Amounts are
  \<open>I256\<close> and wrap around, ticks are \<open>i32\<close>.
\<close>

section \<open>State and quotes\<close>

record pool_state =
  ps_current_tick :: int
  ps_price_sqrt_ratio_x96 :: u160
  ps_liquidity :: u128
  ps_protocol_fees_token0 :: u256
  ps_protocol_fees_token1 :: u256
  ps_fee_protocol :: "8 word"
  ps_fee_growth_global_0 :: u256
  ps_fee_growth_global_1 :: u256

definition pool_state_default :: pool_state where
  "pool_state_default = \<lparr>ps_current_tick = 0, ps_price_sqrt_ratio_x96 = 0, ps_liquidity = 0, ps_protocol_fees_token0 = 0,
     ps_protocol_fees_token1 = 0, ps_fee_protocol = 0, ps_fee_growth_global_0 = 0, ps_fee_growth_global_1 = 0\<rparr>"

record crossed_tick =
  ct_tick :: int
  ct_zero_for_one :: bool
  ct_fee_growth_0 :: u256
  ct_fee_growth_1 :: u256

record swap_quote =
  sq_amount0 :: int
  sq_amount1 :: int
  sq_sqrt_price_before_x96 :: u160
  sq_sqrt_price_after_x96 :: u160
  sq_tick_before :: int
  sq_tick_after :: int
  sq_liquidity_after :: u128
  sq_fee_growth_global_after :: u256
  sq_lp_fee :: u256
  sq_protocol_fee :: u256
  sq_crossed_ticks :: "crossed_tick list"

definition quote_zero_for_one :: "swap_quote \<Rightarrow> bool" where
  "quote_zero_for_one q \<longleftrightarrow> sq_amount0 q > 0"

definition total_fee :: "swap_quote \<Rightarrow> u256" where
  "total_fee q = sq_lp_fee q + sq_protocol_fee q"

definition get_output_amount :: "swap_quote \<Rightarrow> u256" where
  "get_output_amount q = word_of_int \<bar>if quote_zero_for_one q then sq_amount1 q else sq_amount0 q\<bar>"

definition get_input_amount :: "swap_quote \<Rightarrow> u256" where
  "get_input_amount q = word_of_int \<bar>if quote_zero_for_one q then sq_amount0 q else sq_amount1 q\<bar>"

definition get_effective_fee_bps :: "mul_mod \<Rightarrow> swap_quote \<Rightarrow> 32 word panics" where
  "get_effective_fee_bps mm q =
     (let input_amount = get_input_amount q in
      if input_amount = 0 then Some 0
      else do {
        fee_bps \<leftarrow> or_zero (mul_div mm (sq_lp_fee q + sq_protocol_fee q) 10000 input_amount);
        if unat fee_bps < 2 ^ 32 then Some (ucast fee_bps) else None
      })"

definition total_crossed_ticks :: "swap_quote \<Rightarrow> 32 word" where
  "total_crossed_ticks q = of_nat (length (sq_crossed_ticks q))"

section \<open>The loop\<close>

datatype pool_error = Arithmetic math_error | ZeroAmount | LimitNotBelow | LimitNotAbove | InsufficientLiquidity u256 u256

text \<open>The local variables of the simulation.\<close>

record swap_run =
  sr_price :: u160
  sr_tick :: int
  sr_liquidity :: u128
  sr_remaining :: int
  sr_calculated :: int
  sr_protocol_fee :: u256
  sr_lp_fee :: u256
  sr_fee_growth :: u256
  sr_crossed :: "crossed_tick list"

definition truncate_to_i256 :: "u256 \<Rightarrow> int" where
  "truncate_to_i256 v = wrap_s 256 (uint v)"

text \<open>The amounts, fees and fee growth of a step.\<close>

definition account_step :: "mul_mod \<Rightarrow> bool \<Rightarrow> 8 word \<Rightarrow> swap_step_result \<Rightarrow> swap_run \<Rightarrow> (math_error + swap_run) panics" where
  "account_step mm exact_input fee_protocol step r =
     (let paid = truncate_to_i256 (amount_in step + fee_amount step);
          got = truncate_to_i256 (amount_out step);
          r = r\<lparr>sr_price := sqrt_ratio_next_x96 step,
                sr_remaining := wrap_s 256 (if exact_input then sr_remaining r - paid else sr_remaining r + got),
                sr_calculated := wrap_s 256 (if exact_input then sr_calculated r - got else sr_calculated r + paid)\<rparr>
      in do {
        delta \<leftarrow> (if fee_protocol > 0 then checked_div (fee_amount step) (ucast fee_protocol) else Some 0);
        let step_fee_amount = fee_amount step - delta;
        let r = r\<lparr>sr_protocol_fee := sr_protocol_fee r + delta, sr_lp_fee := sr_lp_fee r + step_fee_amount\<rparr>;
        if sr_liquidity r > 0
        then attempt_math (mul_div mm step_fee_amount Q128 (ucast (sr_liquidity r)))
               (\<lambda>growth. Some (Inr (r\<lparr>sr_fee_growth := sr_fee_growth r + growth\<rparr>)))
        else Some (Inr r)
      })"

text \<open>Crossing the tick whose price was reached.\<close>

definition cross_run :: "pool_state \<Rightarrow> tick_map \<Rightarrow> bool \<Rightarrow> int \<Rightarrow> bool \<Rightarrow> swap_run \<Rightarrow> swap_run panics" where
  "cross_run st m zero_for_one tick_next initialized r = do {
     r \<leftarrow> (if initialized then do {
        let crossed = \<lparr>ct_tick = tick_next, ct_zero_for_one = zero_for_one,
          ct_fee_growth_0 = (if zero_for_one then sr_fee_growth r else ps_fee_growth_global_0 st),
          ct_fee_growth_1 = (if zero_for_one then ps_fee_growth_global_1 st else sr_fee_growth r)\<rparr>;
        liquidity \<leftarrow> (case tm_get_tick m tick_next of
            Some tick_data \<Rightarrow> liquidity_math_add (sr_liquidity r)
              (if zero_for_one then wrap_s 128 (- pt_liquidity_net tick_data) else pt_liquidity_net tick_data)
          | None \<Rightarrow> Some (sr_liquidity r));
        Some (r\<lparr>sr_crossed := sr_crossed r @ [crossed], sr_liquidity := liquidity\<rparr>)
      } else Some r);
     Some (r\<lparr>sr_tick := (if zero_for_one then wrap_s 32 (tick_next - 1) else tick_next)\<rparr>)
   }"

definition swap_iteration :: "mul_mod \<Rightarrow> pool_state \<Rightarrow> tick_map \<Rightarrow> 32 word \<Rightarrow> bool \<Rightarrow> bool \<Rightarrow> u160 \<Rightarrow> swap_run \<Rightarrow> (math_error + swap_run) panics" where
  "swap_iteration mm st m fee_tier zero_for_one exact_input limit r = do {
     let fee_protocol = (if zero_for_one then ps_fee_protocol st mod 16 else drop_bit 4 (ps_fee_protocol st));
     let sqrt_price_start = sr_price r;
     (tick_next, initialized) \<leftarrow> next_initialized_tick m (sr_tick r) zero_for_one;
     let tick_next = max MIN_TICK (min tick_next MAX_TICK);
     sqrt_price_next \<leftarrow> get_sqrt_ratio_at_tick tick_next;
     let sqrt_price_target =
       (if (zero_for_one \<and> sqrt_price_next < limit) \<or> (\<not> zero_for_one \<and> sqrt_price_next > limit) then limit else sqrt_price_next);
     attempt_math (compute_swap_step mm (sr_price r) sqrt_price_target (sr_liquidity r) (sr_remaining r) fee_tier) (\<lambda>step.
     attempt_math (account_step mm exact_input fee_protocol step r) (\<lambda>r.
       if sqrt_ratio_next_x96 step = sqrt_price_next
       then map_option Inr (cross_run st m zero_for_one tick_next initialized r)
       else if sqrt_ratio_next_x96 step \<noteq> sqrt_price_start
       then do { tick \<leftarrow> get_tick_at_sqrt_ratio (sr_price r); Some (Inr (r\<lparr>sr_tick := tick\<rparr>)) }
       else Some (Inr r)))
   }"

partial_function (option) swap_loop ::
  "mul_mod \<Rightarrow> pool_state \<Rightarrow> tick_map \<Rightarrow> 32 word \<Rightarrow> bool \<Rightarrow> bool \<Rightarrow> u160 \<Rightarrow> swap_run \<Rightarrow> (math_error + swap_run) panics option" where
  "swap_loop mm st m fee_tier zero_for_one exact_input limit r =
     (if sr_remaining r \<noteq> 0 \<and> limit \<noteq> sr_price r then
        (case swap_iteration mm st m fee_tier zero_for_one exact_input limit r of
           None \<Rightarrow> Some None
         | Some (Inl e) \<Rightarrow> Some (Some (Inl e))
         | Some (Inr r) \<Rightarrow> swap_loop mm st m fee_tier zero_for_one exact_input limit r)
      else Some (Some (Inr r)))"

definition start_run :: "pool_state \<Rightarrow> tick_map \<Rightarrow> bool \<Rightarrow> int \<Rightarrow> swap_run" where
  "start_run st m zero_for_one amount_specified =
     \<lparr>sr_price = ps_price_sqrt_ratio_x96 st, sr_tick = ps_current_tick st, sr_liquidity = tm_liquidity m, sr_remaining = amount_specified,
      sr_calculated = 0, sr_protocol_fee = 0, sr_lp_fee = 0,
      sr_fee_growth = (if zero_for_one then ps_fee_growth_global_0 st else ps_fee_growth_global_1 st), sr_crossed = []\<rparr>"

definition quote_of_run :: "pool_state \<Rightarrow> bool \<Rightarrow> int \<Rightarrow> swap_run \<Rightarrow> swap_quote" where
  "quote_of_run st zero_for_one amount_specified r =
     (let exact_input = amount_specified > 0;
          used = wrap_s 256 (amount_specified - sr_remaining r)
      in \<lparr>sq_amount0 = (if zero_for_one = exact_input then used else sr_calculated r),
          sq_amount1 = (if zero_for_one = exact_input then sr_calculated r else used),
          sq_sqrt_price_before_x96 = ps_price_sqrt_ratio_x96 st, sq_sqrt_price_after_x96 = sr_price r,
          sq_tick_before = ps_current_tick st, sq_tick_after = sr_tick r, sq_liquidity_after = sr_liquidity r,
          sq_fee_growth_global_after = sr_fee_growth r, sq_lp_fee = sr_lp_fee r, sq_protocol_fee = sr_protocol_fee r,
          sq_crossed_ticks = sr_crossed r\<rparr>)"

definition simulate_swap_through_ticks ::
  "mul_mod \<Rightarrow> 32 word option \<Rightarrow> pool_state \<Rightarrow> tick_map \<Rightarrow> int \<Rightarrow> bool \<Rightarrow> u160 \<Rightarrow> (pool_error + swap_quote) panics option" where
  "simulate_swap_through_ticks mm fee st m amount_specified zero_for_one limit =
     (case fee of
        None \<Rightarrow> Some None
      | Some fee_tier \<Rightarrow>
          map_option (map_option (map_sum Arithmetic (quote_of_run st zero_for_one amount_specified)))
            (swap_loop mm st m fee_tier zero_for_one (amount_specified > 0) limit (start_run st m zero_for_one amount_specified)))"

section \<open>Quotes\<close>

definition validate_price_limit :: "pool_state \<Rightarrow> u160 \<Rightarrow> bool \<Rightarrow> pool_error + unit" where
  "validate_price_limit st limit zero_for_one =
     (if zero_for_one then (if limit \<ge> ps_price_sqrt_ratio_x96 st then Inl LimitNotBelow else Inr ())
      else if limit \<le> ps_price_sqrt_ratio_x96 st then Inl LimitNotAbove else Inr ())"

definition quote_swap ::
  "mul_mod \<Rightarrow> 32 word option \<Rightarrow> bool \<Rightarrow> pool_state \<Rightarrow> tick_map \<Rightarrow> int \<Rightarrow> bool \<Rightarrow> u160 option \<Rightarrow> (pool_error + swap_quote) panics option" where
  "quote_swap mm fee initialized st m amount_specified zero_for_one price_limit =
     (if \<not> initialized then Some None
      else if amount_specified = 0 then Some (Some (Inl ZeroAmount))
      else case (case price_limit of Some limit \<Rightarrow> validate_price_limit st limit zero_for_one | None \<Rightarrow> Inr ()) of
        Inl e \<Rightarrow> Some (Some (Inl e))
      | Inr _ \<Rightarrow>
          simulate_swap_through_ticks mm fee st m amount_specified zero_for_one
            (case price_limit of Some limit \<Rightarrow> limit | None \<Rightarrow> if zero_for_one then MIN_SQRT_RATIO + 1 else MAX_SQRT_RATIO - 1))"

definition validate_exact_output :: "u256 \<Rightarrow> swap_quote \<Rightarrow> pool_error + unit" where
  "validate_exact_output amount_out_requested q =
     (if get_output_amount q < amount_out_requested then Inl (InsufficientLiquidity amount_out_requested (get_output_amount q)) else Inr ())"

definition I256_MAX :: int where
  "I256_MAX = 2 ^ 255 - 1"

definition swap_to_lower_sqrt_price ::
  "mul_mod \<Rightarrow> 32 word option \<Rightarrow> bool \<Rightarrow> pool_state \<Rightarrow> tick_map \<Rightarrow> u160 \<Rightarrow> (pool_error + swap_quote) panics option" where
  "swap_to_lower_sqrt_price mm fee initialized st m limit = quote_swap mm fee initialized st m I256_MAX True (Some limit)"

definition swap_to_higher_sqrt_price ::
  "mul_mod \<Rightarrow> 32 word option \<Rightarrow> bool \<Rightarrow> pool_state \<Rightarrow> tick_map \<Rightarrow> u160 \<Rightarrow> (pool_error + swap_quote) panics option" where
  "swap_to_higher_sqrt_price mm fee initialized st m limit = quote_swap mm fee initialized st m I256_MAX False (Some limit)"

section \<open>The loop returns\<close>

text \<open>The price lies between the prices of the current tick and the next, on the side of the limit that the swap comes from; what remains
  has the sign of the amount.\<close>

definition run_ok :: "tick_map \<Rightarrow> bool \<Rightarrow> bool \<Rightarrow> u160 \<Rightarrow> swap_run \<Rightarrow> bool" where
  "run_ok m zero_for_one exact_input limit r \<longleftrightarrow>
     bm_ok (tm_bitmap m) \<and> MIN_SQRT_RATIO < limit \<and> limit < MAX_SQRT_RATIO \<and>
     MIN_TICK \<le> sr_tick r \<and> sr_tick r < MAX_TICK \<and>
     tick_ratio (sr_tick r) \<le> unat (sr_price r) \<and> unat (sr_price r) \<le> tick_ratio (sr_tick r + 1) \<and>
     (if zero_for_one then limit \<le> sr_price r else sr_price r \<le> limit) \<and>
     (if exact_input then 0 \<le> sr_remaining r \<and> sr_remaining r < 2 ^ 255 else - (2 ^ 255) \<le> sr_remaining r \<and> sr_remaining r \<le> 0)"

definition ticks_left :: "bool \<Rightarrow> swap_run \<Rightarrow> nat" where
  "ticks_left zero_for_one r = nat (if zero_for_one then sr_tick r - MIN_TICK else MAX_TICK - sr_tick r)"

lemma truncate_of_nat: "n < 2 ^ 255 \<Longrightarrow> truncate_to_i256 (of_nat n) = int n"
proof -
  assume n: "n < 2 ^ 255"
  then have "uint (of_nat n :: u256) = int n" using unat_of_nat_256 [OF below_256 [OF n]] by (simp add: uint_nat)
  moreover have "int n < 2 ^ 255" using n by (simp only: of_nat_less_numeral_power_cancel_iff)
  ultimately show ?thesis unfolding truncate_to_i256_def by (simp only:) (rule wrap_s_id, simp_all)
qed

lemma wrap_s_256_id: "- (2 ^ 255) \<le> x \<Longrightarrow> x < 2 ^ 255 \<Longrightarrow> wrap_s 256 x = x"
  by (rule wrap_s_id) simp_all

text \<open>What a step leaves of the amount.\<close>

lemma step_remaining:
  assumes "mul_mod_spec mm" "0 < p" "0 < t" "fee < 1000000" "- (2 ^ 255) \<le> amt" "amt < 2 ^ 255"
  shows "\<exists>step. compute_swap_step mm p t l amt fee = Some (Inr step) \<and> towards p t (sqrt_ratio_next_x96 step) \<and>
    (let rest = wrap_s 256 (if 0 \<le> amt then amt - truncate_to_i256 (amount_in step + fee_amount step) else amt + truncate_to_i256 (amount_out step))
     in (if 0 \<le> amt then 0 \<le> rest \<and> rest \<le> amt else amt \<le> rest \<and> rest \<le> 0) \<and> (sqrt_ratio_next_x96 step \<noteq> t \<longrightarrow> rest = 0))"
proof (cases "0 \<le> amt")
  case True
  then obtain q where q: "towards p t q" "move_cost l p q \<le> nat amt * (1000000 - unat fee) div 1000000"
    "compute_swap_step mm p t l amt fee = Some (Inr
      \<lparr>sqrt_ratio_next_x96 = q, amount_in = of_nat (move_cost l p q), amount_out = of_nat (move_yield l p q),
       fee_amount = of_nat (if q = t then ceil_div (move_cost l p q * unat fee) (1000000 - unat fee) else nat amt - move_cost l p q)\<rparr>)"
    using step_exact_in [OF assms(1-4) True assms(6)] by blast
  define F where "F = (if q = t then ceil_div (move_cost l p q * unat fee) (1000000 - unat fee) else nat amt - move_cost l p q)"
  have "unat fee < 1000000" using assms(4) by (simp add: word_less_nat_alt)
  then have "move_cost l p q + ceil_div (move_cost l p q * unat fee) (1000000 - unat fee) \<le> nat amt" using q(2) by (rule fee_within)
  then have le: "move_cost l p q + F \<le> nat amt" and all: "q \<noteq> t \<longrightarrow> move_cost l p q + F = nat amt" by (auto simp: F_def)
  have amt: "nat amt < 2 ^ 255" using assms(6) True by (simp add: nat_less_iff)
  have paid: "truncate_to_i256 (of_nat (move_cost l p q) + of_nat F) = int (move_cost l p q + F)"
    using truncate_of_nat [of "move_cost l p q + F"] le amt by simp
  have rest: "0 \<le> amt - int (move_cost l p q + F)" "amt - int (move_cost l p q + F) \<le> amt" using le True by linarith+
  then have wrap: "wrap_s 256 (amt - int (move_cost l p q + F)) = amt - int (move_cost l p q + F)" using assms(6) by (intro wrap_s_256_id) linarith+
  show ?thesis using True q(1) rest all
    by (simp only: q(3) F_def [symmetric] option.inject sum.inject swap_step_result.simps ex_simps simp_thms if_True Let_def paid wrap) auto
next
  case False
  then obtain q where q: "towards p t q" "q = t \<or> nat (- amt) \<le> move_yield l p q"
    "compute_swap_step mm p t l amt fee = Some (Inr
      \<lparr>sqrt_ratio_next_x96 = q, amount_in = of_nat (move_cost l p q), amount_out = of_nat (min (nat (- amt)) (move_yield l p q)),
       fee_amount = of_nat (ceil_div (move_cost l p q * unat fee) (1000000 - unat fee))\<rparr>)"
    using step_exact_out [OF assms(1-4) _ assms(5), of l] unfolding not_le by blast
  define Y where "Y = min (nat (- amt)) (move_yield l p q)"
  have "0 < q" using towards_pos q(1) assms(2,3) by blast
  then have "move_yield l p q < 2 ^ 224" by (rule move_fits(2) [OF assms(2)])
  then have "Y < 2 ^ 255" by (simp add: Y_def)
  then have got: "truncate_to_i256 (of_nat Y) = int Y" by (rule truncate_of_nat)
  have Y: "amt \<le> amt + int Y" "amt + int Y \<le> 0" "q \<noteq> t \<longrightarrow> amt + int Y = 0" using False q(2) by (auto simp: Y_def)
  then have wrap: "wrap_s 256 (amt + int Y) = amt + int Y" using assms(5) by (intro wrap_s_256_id) (linarith, simp)
  show ?thesis using False q(1) Y
    by (simp only: q(3) Y_def [symmetric] option.inject sum.inject swap_step_result.simps ex_simps simp_thms if_False Let_def got wrap)
qed

lemma attempt_math_Inr: "attempt_math m f = Some (Inr y) \<longleftrightarrow> (\<exists>x. m = Some (Inr x) \<and> f x = Some (Inr y))"
  by (cases m; cases "the m") (auto simp: attempt_math_def)

lemma account_step_frame:
  assumes "account_step mm exact_input fee_protocol step r = Some (Inr r')"
  shows "sr_price r' = sqrt_ratio_next_x96 step" "sr_tick r' = sr_tick r" "sr_liquidity r' = sr_liquidity r" "sr_crossed r' = sr_crossed r"
    "sr_remaining r' = wrap_s 256 (if exact_input then sr_remaining r - truncate_to_i256 (amount_in step + fee_amount step)
       else sr_remaining r + truncate_to_i256 (amount_out step))"
proof -
  let ?rest = "wrap_s 256 (if exact_input then sr_remaining r - truncate_to_i256 (amount_in step + fee_amount step)
       else sr_remaining r + truncate_to_i256 (amount_out step))"
  define R where "R = r\<lparr>sr_price := sqrt_ratio_next_x96 step, sr_remaining := ?rest,
      sr_calculated := wrap_s 256 (if exact_input then sr_calculated r - truncate_to_i256 (amount_out step)
        else sr_calculated r + truncate_to_i256 (amount_in step + fee_amount step))\<rparr>"
  define D where "D = (if fee_protocol > 0 then checked_div (fee_amount step) (ucast fee_protocol) else Some 0)"
  define S where "S delta = R\<lparr>sr_protocol_fee := sr_protocol_fee R + delta, sr_lp_fee := sr_lp_fee R + (fee_amount step - delta)\<rparr>" for delta
  have eq: "account_step mm exact_input fee_protocol step r = do {
      delta \<leftarrow> D;
      if sr_liquidity (S delta) > 0 then attempt_math (mul_div mm (fee_amount step - delta) Q128 (ucast (sr_liquidity (S delta))))
        (\<lambda>growth. Some (Inr (S delta\<lparr>sr_fee_growth := sr_fee_growth (S delta) + growth\<rparr>)))
      else Some (Inr (S delta)) }"
    by (simp only: account_step_def Let_def R_def D_def S_def)
  obtain delta growth where "r' = S delta \<or> r' = S delta\<lparr>sr_fee_growth := growth\<rparr>"
    using assms [unfolded eq] by (auto simp: bind_Some_conv attempt_math_Inr split: if_splits)
  then show "sr_price r' = sqrt_ratio_next_x96 step" "sr_tick r' = sr_tick r" "sr_liquidity r' = sr_liquidity r" "sr_crossed r' = sr_crossed r"
    "sr_remaining r' = ?rest" by (auto simp: S_def R_def)
qed

lemma cross_run_frame:
  assumes "cross_run st m zero_for_one tick_next initialized r = Some r'"
  shows "sr_price r' = sr_price r" "sr_remaining r' = sr_remaining r"
    "sr_tick r' = (if zero_for_one then wrap_s 32 (tick_next - 1) else tick_next)"
  using assms by (auto simp: cross_run_def Let_def bind_Some_conv split: if_splits)

lemma tick_range: "MIN_TICK \<le> t \<longleftrightarrow> - 887272 \<le> t" "t \<le> MAX_TICK \<longleftrightarrow> t \<le> 887272" "t < MAX_TICK \<longleftrightarrow> t < 887272"
  by (simp_all add: MIN_TICK_def MAX_TICK_def)

lemma ratio_ends: "unat MIN_SQRT_RATIO = tick_ratio MIN_TICK" "unat MAX_SQRT_RATIO = tick_ratio MAX_TICK"
  by (simp_all add: tick_ratio_ends MIN_SQRT_RATIO_def MAX_SQRT_RATIO_def MIN_TICK_def MAX_TICK_def)

lemma tick_ratio_le:
  assumes "MIN_TICK \<le> s" "s \<le> t" "t \<le> MAX_TICK"
  shows "tick_ratio s \<le> tick_ratio t"
  using tick_ratio_mono [of s t] assms by (cases "s = t") (simp_all add: tick_range)

text \<open>The target of a step lies between the price and the limit.\<close>

lemma next_target:
  assumes "run_ok m zfo ex limit r" "next_initialized_tick m (sr_tick r) zfo = Some (n, i)"
  defines "n' \<equiv> max MIN_TICK (min n MAX_TICK)"
  obtains a where "get_sqrt_ratio_at_tick n' = Some a" "unat a = tick_ratio n'" "MIN_TICK \<le> n'" "n' \<le> MAX_TICK"
    "if zfo then n' \<le> sr_tick r \<and> a \<le> sr_price r else sr_tick r < n' \<and> sr_price r \<le> a"
proof -
  have ok: "bm_ok (tm_bitmap m)" "MIN_TICK \<le> sr_tick r" "sr_tick r < MAX_TICK" "tick_ratio (sr_tick r) \<le> unat (sr_price r)"
      "unat (sr_price r) \<le> tick_ratio (sr_tick r + 1)" using assms(1) by (simp_all add: run_ok_def)
  have "if zfo then n \<le> sr_tick r else sr_tick r < n"
    using bitmap.below_sum(1) [OF ok(1)] bitmap.above_sum(1) [OF ok(1)] ok(2,3) assms(2)
    by (cases zfo) (auto simp: next_initialized_tick_def)
  then have dir: "if zfo then n' \<le> sr_tick r else sr_tick r < n'" using ok(2,3) by (auto simp: n'_def)
  have range: "MIN_TICK \<le> n'" "n' \<le> MAX_TICK" by (simp_all add: n'_def MIN_TICK_def MAX_TICK_def)
  obtain a where a: "get_sqrt_ratio_at_tick n' = Some a" "unat a = tick_ratio n'"
    using sqrt_ratio_value [of n'] range by (auto simp: tick_range)
  have "if zfo then a \<le> sr_price r else sr_price r \<le> a"
    using dir ok range tick_ratio_le [of n' "sr_tick r"] tick_ratio_le [of "sr_tick r + 1" n'] by (auto simp: word_le_nat_alt a(2) split: if_splits)
  then show thesis using that a range dir by presburger
qed

text \<open>An iteration in parts.\<close>

lemma iteration_elim:
  assumes "swap_iteration mm st m fee zfo ex limit r = Some (Inr r')"
  obtains n i a step u where "next_initialized_tick m (sr_tick r) zfo = Some (n, i)"
    "get_sqrt_ratio_at_tick (max MIN_TICK (min n MAX_TICK)) = Some a"
    "compute_swap_step mm (sr_price r) (if (zfo \<and> a < limit) \<or> (\<not> zfo \<and> a > limit) then limit else a) (sr_liquidity r) (sr_remaining r) fee =
       Some (Inr step)"
    "account_step mm ex (if zfo then ps_fee_protocol st mod 16 else drop_bit 4 (ps_fee_protocol st)) step r = Some (Inr u)"
    "if sqrt_ratio_next_x96 step = a then cross_run st m zfo (max MIN_TICK (min n MAX_TICK)) i u = Some r'
     else if sqrt_ratio_next_x96 step \<noteq> sr_price r then \<exists>t. get_tick_at_sqrt_ratio (sr_price u) = Some t \<and> r' = u\<lparr>sr_tick := t\<rparr>
     else r' = u"
proof -
  let ?fee = "if zfo then ps_fee_protocol st mod 16 else drop_bit 4 (ps_fee_protocol st)"
  from assms obtain x where next': "next_initialized_tick m (sr_tick r) zfo = Some x"
    unfolding swap_iteration_def Let_def by (cases "next_initialized_tick m (sr_tick r) zfo") simp_all
  obtain n i where x: "x = (n, i)" by (cases x)
  let ?n = "max MIN_TICK (min n MAX_TICK)"
  from assms obtain a where a: "get_sqrt_ratio_at_tick ?n = Some a"
    unfolding swap_iteration_def Let_def next' x by (cases "get_sqrt_ratio_at_tick ?n") simp_all
  let ?t = "if (zfo \<and> a < limit) \<or> (\<not> zfo \<and> a > limit) then limit else a"
  from assms obtain step u where step: "compute_swap_step mm (sr_price r) ?t (sr_liquidity r) (sr_remaining r) fee = Some (Inr step)"
    and u: "account_step mm ex ?fee step r = Some (Inr u)"
    and last': "(if sqrt_ratio_next_x96 step = a then map_option Inr (cross_run st m zfo ?n i u)
      else if sqrt_ratio_next_x96 step \<noteq> sr_price r then do { tick \<leftarrow> get_tick_at_sqrt_ratio (sr_price u); Some (Inr (u\<lparr>sr_tick := tick\<rparr>)) }
      else Some (Inr u)) = (Some (Inr r') :: (math_error + swap_run) panics)"
    unfolding swap_iteration_def Let_def next' x Option.bind.simps prod.case a attempt_math_Inr by blast
  show thesis by (rule that [OF next' [unfolded x] a step u]) (use last' in \<open>auto simp: bind_Some_conv split: if_splits\<close>)
qed

lemma target_between:
  assumes "if zfo then limit \<le> (p :: u160) \<and> a \<le> p else p \<le> limit \<and> p \<le> a"
  defines "t \<equiv> if (zfo \<and> a < limit) \<or> (\<not> zfo \<and> a > limit) then limit else a"
  assumes "towards p t q"
  shows "if zfo then limit \<le> q \<and> a \<le> q \<and> q \<le> p else q \<le> limit \<and> q \<le> a \<and> p \<le> q"
  using assms by (auto simp: towards_def t_def split: if_splits)

lemma run_okD:
  assumes "run_ok m zfo ex limit r"
  shows "bm_ok (tm_bitmap m)" "MIN_SQRT_RATIO < limit" "limit < MAX_SQRT_RATIO" "MIN_TICK \<le> sr_tick r" "sr_tick r < MAX_TICK"
    "tick_ratio (sr_tick r) \<le> unat (sr_price r)" "unat (sr_price r) \<le> tick_ratio (sr_tick r + 1)"
    "if zfo then limit \<le> sr_price r else sr_price r \<le> limit"
    "if ex then 0 \<le> sr_remaining r \<and> sr_remaining r < 2 ^ 255 else - (2 ^ 255) \<le> sr_remaining r \<and> sr_remaining r \<le> 0"
  using assms unfolding run_ok_def by blast+

text \<open>The target, the next price \<open>q\<close> and what remains after an iteration, before the tick is updated.\<close>

lemma iteration_step:
  assumes "mul_mod_spec mm" "fee < 1000000" "run_ok m zfo ex limit r" "sr_remaining r \<noteq> 0" "0 < a"
    "if zfo then a \<le> sr_price r else sr_price r \<le> a"
    "compute_swap_step mm (sr_price r) (if (zfo \<and> a < limit) \<or> (\<not> zfo \<and> a > limit) then limit else a) (sr_liquidity r) (sr_remaining r) fee =
       Some (Inr step)"
    "account_step mm ex protocol step r = Some (Inr u)"
  shows "if zfo then limit \<le> sr_price u \<and> a \<le> sr_price u \<and> sr_price u \<le> sr_price r else sr_price u \<le> limit \<and> sr_price u \<le> a \<and> sr_price r \<le> sr_price u"
    "if ex then 0 \<le> sr_remaining u \<and> sr_remaining u < 2 ^ 255 else - (2 ^ 255) \<le> sr_remaining u \<and> sr_remaining u \<le> 0"
    "sr_remaining u = 0 \<or> sr_price u = limit \<or> sr_price u = a"
proof -
  define t where "t = (if (zfo \<and> a < limit) \<or> (\<not> zfo \<and> a > limit) then limit else a)"
  note ok = run_okD [OF assms(3)] and u = account_step_frame [OF assms(8)]
  have "0 < tick_ratio (sr_tick r)" using ok(4,5) by (simp add: tick_ratio_pos tick_range)
  moreover have "0 < limit" using ok(2) by (rule order.strict_trans1 [OF word_zero_le])
  ultimately have pos: "0 < sr_price r" "0 < t" using ok(6) assms(5) by (simp_all add: word_less_nat_alt t_def)
  have amt: "- (2 ^ 255) \<le> sr_remaining r" "sr_remaining r < 2 ^ 255" using ok(9) by (auto split: if_splits)
  obtain step' where step': "compute_swap_step mm (sr_price r) t (sr_liquidity r) (sr_remaining r) fee = Some (Inr step')"
      "towards (sr_price r) t (sqrt_ratio_next_x96 step')"
      "let rest = wrap_s 256 (if 0 \<le> sr_remaining r then sr_remaining r - truncate_to_i256 (amount_in step' + fee_amount step')
         else sr_remaining r + truncate_to_i256 (amount_out step'))
       in (if 0 \<le> sr_remaining r then 0 \<le> rest \<and> rest \<le> sr_remaining r else sr_remaining r \<le> rest \<and> rest \<le> 0) \<and>
         (sqrt_ratio_next_x96 step' \<noteq> t \<longrightarrow> rest = 0)"
    using step_remaining [OF assms(1) pos assms(2) amt] by blast
  then have step: "step' = step" using assms(7) by (simp add: t_def)
  then have "towards (sr_price r) t (sr_price u)" using step'(2) u(1) by simp
  then show "if zfo then limit \<le> sr_price u \<and> a \<le> sr_price u \<and> sr_price u \<le> sr_price r else sr_price u \<le> limit \<and> sr_price u \<le> a \<and> sr_price r \<le> sr_price u"
    using target_between [of zfo limit "sr_price r" a "sr_price u"] ok(8) assms(6) unfolding t_def by (cases zfo) simp_all
  have ex: "ex = (0 \<le> sr_remaining r)" using ok(9) assms(4) by (auto split: if_splits)
  then have u5: "sr_remaining u = wrap_s 256 (if 0 \<le> sr_remaining r then sr_remaining r - truncate_to_i256 (amount_in step + fee_amount step)
         else sr_remaining r + truncate_to_i256 (amount_out step))" using u(5) by simp
  then show "if ex then 0 \<le> sr_remaining u \<and> sr_remaining u < 2 ^ 255 else - (2 ^ 255) \<le> sr_remaining u \<and> sr_remaining u \<le> 0"
    using step'(3) ok(9) ex unfolding step Let_def by (auto split: if_splits)
  show "sr_remaining u = 0 \<or> sr_price u = limit \<or> sr_price u = a"
    using step'(3) u5 u(1) unfolding step Let_def t_def by (auto split: if_splits)
qed

text \<open>Crossing the next tick.\<close>

lemma crossed_run_ok:
  assumes "run_ok m zfo ex limit r" "MIN_TICK \<le> n" "n \<le> MAX_TICK" "unat (sr_price u) = tick_ratio n"
    "if zfo then n \<le> sr_tick r \<and> limit \<le> sr_price u else sr_tick r < n \<and> sr_price u \<le> limit"
    "if ex then 0 \<le> sr_remaining u \<and> sr_remaining u < 2 ^ 255 else - (2 ^ 255) \<le> sr_remaining u \<and> sr_remaining u \<le> 0"
    "cross_run st m zfo n i u = Some r'"
  shows "run_ok m zfo ex limit r'" "ticks_left zfo r' < ticks_left zfo r"
proof -
  note ok = run_okD [OF assms(1)] and frame = cross_run_frame [OF assms(7)]
  have "if zfo then tick_ratio MIN_TICK < tick_ratio n else tick_ratio n < tick_ratio MAX_TICK"
    using ok(2,3) assms(5) by (auto simp: word_less_nat_alt word_le_nat_alt assms(4) ratio_ends split: if_splits)
  then have inner: "if zfo then MIN_TICK < n else n < MAX_TICK" using assms(2,3) by (auto simp: order.order_iff_strict split: if_splits)
  have "wrap_s 32 (n - 1) = n - 1" using assms(2,3) by (intro wrap_s_32_id) (simp_all add: tick_range)
  then have tick: "sr_tick r' = (if zfo then n - 1 else n)" using frame(3) by simp
  have between: "MIN_TICK \<le> sr_tick r'" "sr_tick r' < MAX_TICK" "sr_tick r' \<le> n" "n \<le> sr_tick r' + 1"
    using inner assms(2,3) tick by (auto split: if_splits)
  then have "tick_ratio (sr_tick r') \<le> tick_ratio n" "tick_ratio n \<le> tick_ratio (sr_tick r' + 1)"
    using assms(2,3) by (auto intro!: tick_ratio_le)
  then show "run_ok m zfo ex limit r'"
    unfolding run_ok_def frame(1,2) using ok(1-3) between(1,2) assms(4-6) by (auto split: if_splits)
  show "ticks_left zfo r' < ticks_left zfo r"
    using tick assms(5) between(1,2) ok(4,5) by (auto simp: ticks_left_def split: if_splits)
qed

text \<open>Stopping between two ticks.\<close>

lemma stopped_run_ok:
  assumes "run_ok m zfo ex limit r"
    "if zfo then limit \<le> sr_price u \<and> sr_price u \<le> sr_price r else sr_price u \<le> limit \<and> sr_price r \<le> sr_price u"
    "if ex then 0 \<le> sr_remaining u \<and> sr_remaining u < 2 ^ 255 else - (2 ^ 255) \<le> sr_remaining u \<and> sr_remaining u \<le> 0"
    "if sr_price u \<noteq> sr_price r then \<exists>t. get_tick_at_sqrt_ratio (sr_price u) = Some t \<and> r' = u\<lparr>sr_tick := t\<rparr> else r' = u \<and> sr_tick u = sr_tick r"
  shows "run_ok m zfo ex limit r'" "sr_price r' = sr_price u" "sr_remaining r' = sr_remaining u"
proof -
  show frame: "sr_price r' = sr_price u" "sr_remaining r' = sr_remaining u" using assms(4) by (auto split: if_splits)
  note ok = run_okD [OF assms(1)]
  have "MIN_TICK \<le> sr_tick r' \<and> sr_tick r' < MAX_TICK \<and> tick_ratio (sr_tick r') \<le> unat (sr_price u) \<and> unat (sr_price u) \<le> tick_ratio (sr_tick r' + 1)"
  proof (cases "sr_price u = sr_price r")
    case True
    then show ?thesis using ok(4-7) assms(4) by simp
  next
    case False
    then obtain t where t: "get_tick_at_sqrt_ratio (sr_price u) = Some t" "r' = u\<lparr>sr_tick := t\<rparr>" using assms(4) by auto
    have "tick_ratio MIN_TICK \<le> tick_ratio (sr_tick r)" using ok(4,5) by (intro tick_ratio_le) simp_all
    moreover have "tick_ratio (sr_tick r + 1) \<le> tick_ratio MAX_TICK" using ok(4,5) by (intro tick_ratio_le) simp_all
    ultimately have "MIN_SQRT_RATIO \<le> sr_price u" "sr_price u < MAX_SQRT_RATIO"
      using False ok(2,3,6,7) assms(2) by (auto simp: word_less_nat_alt word_le_nat_alt ratio_ends unat_arith_simps split: if_splits)
    then obtain v where "get_tick_at_sqrt_ratio (sr_price u) = Some v" "- 887272 \<le> v" "v < 887272"
        "tick_ratio v \<le> unat (sr_price u)" "unat (sr_price u) < tick_ratio (v + 1)"
      by (rule get_tick_inverts)
    then show ?thesis using t by (simp add: tick_range)
  qed
  then show "run_ok m zfo ex limit r'" unfolding run_ok_def frame using ok(1-3) assms(2,3) by (auto split: if_splits)
qed

lemma iteration_ok:
  assumes "mul_mod_spec mm" "fee < 1000000" "run_ok m zfo ex limit r" "sr_remaining r \<noteq> 0"
    "swap_iteration mm st m fee zfo ex limit r = Some (Inr r')"
  shows "run_ok m zfo ex limit r' \<and> (sr_remaining r' = 0 \<or> sr_price r' = limit \<or> ticks_left zfo r' < ticks_left zfo r) \<and>
    (if zfo then sr_price r' \<le> sr_price r else sr_price r \<le> sr_price r')"
proof -
  obtain n i a step u where it: "next_initialized_tick m (sr_tick r) zfo = Some (n, i)"
    "get_sqrt_ratio_at_tick (max MIN_TICK (min n MAX_TICK)) = Some a"
    "compute_swap_step mm (sr_price r) (if (zfo \<and> a < limit) \<or> (\<not> zfo \<and> a > limit) then limit else a) (sr_liquidity r) (sr_remaining r) fee =
       Some (Inr step)"
    "account_step mm ex (if zfo then ps_fee_protocol st mod 16 else drop_bit 4 (ps_fee_protocol st)) step r = Some (Inr u)"
    "if sqrt_ratio_next_x96 step = a then cross_run st m zfo (max MIN_TICK (min n MAX_TICK)) i u = Some r'
     else if sqrt_ratio_next_x96 step \<noteq> sr_price r then \<exists>t. get_tick_at_sqrt_ratio (sr_price u) = Some t \<and> r' = u\<lparr>sr_tick := t\<rparr>
     else r' = u"
    by (rule iteration_elim [OF assms(5)])
  define n' where "n' = max MIN_TICK (min n MAX_TICK)"
  have a: "unat a = tick_ratio n'" "MIN_TICK \<le> n'" "n' \<le> MAX_TICK" "if zfo then n' \<le> sr_tick r \<and> a \<le> sr_price r else sr_tick r < n' \<and> sr_price r \<le> a"
    using next_target [OF assms(3) it(1)] it(2) unfolding n'_def by (metis option.inject)+
  then have "0 < a" using tick_ratio_pos [of n'] by (simp add: word_less_nat_alt tick_range)
  note step = iteration_step [OF assms(1-4) this _ it(3,4)] and u = account_step_frame [OF it(4)]
  have dir: "if zfo then a \<le> sr_price r else sr_price r \<le> a" using a(4) by (cases zfo) simp_all
  show ?thesis
  proof (cases "sr_price u = a")
    case True
    then have cross: "cross_run st m zfo n' i u = Some r'" using it(5) u(1) by (simp add: n'_def)
    from True show ?thesis using crossed_run_ok [OF assms(3) a(2,3) _ _ _ cross] cross_run_frame(1) [OF cross] step [OF dir] a(1,4)
      by (auto split: if_splits)
  next
    case False
    then show ?thesis using stopped_run_ok [OF assms(3), where u = u and r' = r'] step [OF dir] it(5) u(1,2) by (auto split: if_splits)
  qed
qed

lemma swap_loop_ends:
  assumes "mul_mod_spec mm" "fee < 1000000" "run_ok m zfo ex limit r"
  shows "\<exists>x. swap_loop mm st m fee zfo ex limit r = Some x \<and>
    (\<forall>r'. x = Some (Inr r') \<longrightarrow> run_ok m zfo ex limit r' \<and> (sr_remaining r' = 0 \<or> sr_price r' = limit) \<and>
      (if zfo then sr_price r' \<le> sr_price r else sr_price r \<le> sr_price r'))"
  using assms(3)
proof (induction r rule: measure_induct_rule [where f = "ticks_left zfo"])
  case (less r)
  note unfold = swap_loop.simps [of mm st m fee zfo ex limit]
  show ?case
  proof (cases "sr_remaining r \<noteq> 0 \<and> limit \<noteq> sr_price r")
    case True
    show ?thesis
    proof (cases "swap_iteration mm st m fee zfo ex limit r")
      case (Some x)
      show ?thesis
      proof (cases x)
        case (Inr r')
        then have "run_ok m zfo ex limit r'" "sr_remaining r' = 0 \<or> sr_price r' = limit \<or> ticks_left zfo r' < ticks_left zfo r"
          "if zfo then sr_price r' \<le> sr_price r else sr_price r \<le> sr_price r'"
          using iteration_ok [OF assms(1,2) less.prems] True Some by auto
        moreover have "swap_loop mm st m fee zfo ex limit r = swap_loop mm st m fee zfo ex limit r'" using True Some Inr by (simp add: unfold [of r])
        moreover have "swap_loop mm st m fee zfo ex limit r' = Some (Some (Inr r'))" if "sr_remaining r' = 0 \<or> sr_price r' = limit"
          using that by (auto simp: unfold [of r'])
        ultimately show ?thesis using less.IH [of r'] by (fastforce split: if_splits)
      qed (use True Some in \<open>simp add: unfold [of r]\<close>)
    qed (use True in \<open>simp add: unfold [of r]\<close>)
  qed (use less.prems in \<open>auto simp: unfold [of r]\<close>)
qed

section \<open>A limit below the least price\<close>

text \<open>In a pool without liquidity a step reaches its target and leaves the amount as it is.\<close>

lemma no_liquidity [simp]: "move_cost 0 p q = 0" "move_yield 0 p q = 0"
  by (simp_all add: move_cost_def move_yield_def amount0_def amount1_def)

lemma ceil_div_0 [simp]: "ceil_div 0 d = 0"
  by (cases d) (simp_all add: ceil_div_def)

lemma empty_step:
  assumes "mul_mod_spec mm" "0 < p" "0 < t" "fee < 1000000" "- (2 ^ 255) \<le> amt" "amt < 2 ^ 255"
  shows "compute_swap_step mm p t 0 amt fee = Some (Inr \<lparr>sqrt_ratio_next_x96 = t, amount_in = 0, amount_out = 0, fee_amount = 0\<rparr>)"
proof -
  let ?c = "MAX_FEE - ucast fee"
  have fee: "mul_div_rounding_up mm 0 (ucast fee) ?c = Some (Inr 0)"
    using step_fee(1) [OF assms(1) _ assms(4), of 0] by simp
  have c: "unat ?c \<le> 1000000" using step_fee(3) [OF assms(1) _ assms(4), of 0] by simp
  note delta = delta_move [OF assms(1-3) towards_target, of 0, unfolded no_liquidity of_nat_0]
  have out: "exact_out_price mm p t 0 amt = Some (t, 0)" using delta(2) by (simp add: exact_out_price_def Let_def)
  have in': "exact_in_price mm p t 0 amt ?c = Some (Inr (t, 0))" if "0 \<le> amt"
    using delta(1) less_fee(1) [OF assms(1) that assms(6) c] by (simp add: exact_in_price_def Let_def attempt_math_def)
  show ?thesis
  proof (cases "0 \<le> amt")
    case True
    then have "amt > 0 \<or> amt = 0" by auto
    then show ?thesis using in' [OF True] delta(2) fee by (auto simp: compute_swap_step_def Let_def attempt_math_def)
  next
    case False
    then show ?thesis using out delta(1) fee by (auto simp: compute_swap_step_def Let_def attempt_math_def)
  qed
qed

lemma unat_ucast_8: "unat (ucast (x :: 8 word) :: u256) = unat x"
  using unsigned_less [of x, where ?'a = nat] by (simp add: unsigned_ucast_eq take_bit_nat_eq_self_iff)

definition stuck :: "int \<Rightarrow> swap_run \<Rightarrow> bool" where
  "stuck amt r \<longleftrightarrow> sr_remaining r = amt \<and> sr_liquidity r = 0 \<and> MIN_SQRT_RATIO \<le> sr_price r \<and>
     MIN_TICK - 1 \<le> sr_tick r \<and> sr_tick r < MAX_TICK \<and> tick_ratio (max MIN_TICK (sr_tick r)) \<le> unat (sr_price r)"

lemma stuck_iteration:
  assumes "mul_mod_spec mm" "fee < 1000000" "- (2 ^ 255) \<le> amt" "amt < 2 ^ 255" "bm_ok (tm_bitmap m)" "bm_ticks (tm_bitmap m) = {}"
    "limit < MIN_SQRT_RATIO" "stuck amt r"
  shows "\<exists>r'. swap_iteration mm st m fee True ex limit r = Some (Inr r') \<and> stuck amt r'"
proof -
  have r: "sr_remaining r = amt" "sr_liquidity r = 0" "MIN_SQRT_RATIO \<le> sr_price r" "MIN_TICK - 1 \<le> sr_tick r" "sr_tick r < MAX_TICK"
    "tick_ratio (max MIN_TICK (sr_tick r)) \<le> unat (sr_price r)" using assms(8) by (simp_all add: stuck_def)
  obtain n where n: "next_initialized_tick m (sr_tick r) True = Some (n, False)" "n \<le> sr_tick r"
    using bitmap.next_below_law [OF assms(5) r(4)] r(5) assms(6) by (auto simp: next_initialized_tick_def)
  define n' where "n' = max MIN_TICK (min n MAX_TICK)"
  have n': "MIN_TICK \<le> n'" "n' \<le> max MIN_TICK (sr_tick r)" "n' < MAX_TICK" using n(2) r(5) by (auto simp: n'_def MIN_TICK_def MAX_TICK_def)
  then obtain a where a: "get_sqrt_ratio_at_tick n' = Some a" "unat a = tick_ratio n'"
    using sqrt_ratio_value [of n'] by (auto simp: tick_range)
  have "tick_ratio MIN_TICK \<le> unat a" using n' tick_ratio_le [of MIN_TICK n'] by (simp add: a(2))
  then have min: "MIN_SQRT_RATIO \<le> a" by (simp add: word_le_nat_alt ratio_ends)
  then have bound: "\<not> a < limit" using assms(7) by auto
  have pos: "0 < sr_price r" "0 < a" using r(3) min assms(7) by (auto simp: word_gt_0 intro: order.strict_trans1 [OF word_zero_le] order.strict_trans2)
  let ?step = "\<lparr>sqrt_ratio_next_x96 = a, amount_in = 0, amount_out = 0, fee_amount = 0\<rparr>" and ?p = "ps_fee_protocol st mod 16"
  have step: "compute_swap_step mm (sr_price r) a (sr_liquidity r) (sr_remaining r) fee = Some (Inr ?step)"
    unfolding r(1,2) by (rule empty_step [OF assms(1) pos assms(2-4)])
  have "(ucast ?p :: u256) \<noteq> 0" if "?p > 0" using that unat_ucast_8 [of ?p] by (simp add: word_unat_eq_iff word_less_nat_alt)
  then obtain u where u: "account_step mm ex ?p ?step r = Some (Inr u)"
    using r(2) by (auto simp: account_step_def Let_def checked_div_def)
  note frame = account_step_frame [OF u]
  have rest: "sr_remaining u = amt" using frame(5) r(1) wrap_s_256_id [OF assms(3,4)] by (simp add: truncate_to_i256_def wrap_s_def)
  let ?r = "u\<lparr>sr_tick := wrap_s 32 (n' - 1)\<rparr>"
  have "swap_iteration mm st m fee True ex limit r = Some (Inr ?r)"
    using n(1) a(1) bound step u by (simp add: swap_iteration_def attempt_math_def cross_run_def flip: n'_def)
  moreover have "wrap_s 32 (n' - 1) = n' - 1" using n' by (intro wrap_s_32_id) (simp_all add: tick_range)
  then have "stuck amt ?r" using frame rest min r(2) n' a(2) tick_ratio_le [of "max MIN_TICK (n' - 1)" n'] by (simp add: stuck_def)
  ultimately show ?thesis by blast
qed

lemma stuck_diverges:
  assumes "mul_mod_spec mm" "fee < 1000000" "- (2 ^ 255) \<le> amt" "amt < 2 ^ 255" "amt \<noteq> 0" "bm_ok (tm_bitmap m)" "bm_ticks (tm_bitmap m) = {}"
    "limit < MIN_SQRT_RATIO" "stuck amt r"
  shows "swap_loop mm st m fee True ex limit r = None"
proof -
  let ?P = "\<lambda>mm' st' m' fee' zfo' ex' limit' r x. (mm', st', m', fee', zfo', ex', limit') = (mm, st, m, fee, True, ex, limit) \<longrightarrow> \<not> stuck amt r"
  have "\<not> stuck amt r" if loop: "swap_loop mm st m fee True ex limit r = Some x" for x
  proof -
    have "?P mm st m fee True ex limit r x"
    proof (rule swap_loop.raw_induct [where P = ?P, OF _ loop])
      fix loop mm' st' m' fee' zfo' ex' limit' r x
      assume IH: "\<And>mm st m fee zfo ex limit r x. loop mm st m fee zfo ex limit r = Some x \<Longrightarrow> ?P mm st m fee zfo ex limit r x"
        and body: "(if sr_remaining r \<noteq> 0 \<and> limit' \<noteq> sr_price r then case swap_iteration mm' st' m' fee' zfo' ex' limit' r of
             None \<Rightarrow> Some None | Some (Inl e) \<Rightarrow> Some (Some (Inl e)) | Some (Inr r) \<Rightarrow> loop mm' st' m' fee' zfo' ex' limit' r
           else Some (Some (Inr r))) = Some x"
      show "?P mm' st' m' fee' zfo' ex' limit' r x"
      proof (intro impI notI)
        assume same: "(mm', st', m', fee', zfo', ex', limit') = (mm, st, m, fee, True, ex, limit)" and r: "stuck amt r"
        obtain r' where r': "swap_iteration mm st m fee True ex limit r = Some (Inr r')" "stuck amt r'"
          using stuck_iteration [OF assms(1-4,6-8) r] by blast
        have "sr_remaining r \<noteq> 0 \<and> limit \<noteq> sr_price r" using r assms(5,8) by (auto simp: stuck_def)
        then have "loop mm st m fee True ex limit r' = Some x" using body same r'(1) by simp
        then show False using IH r'(2) by blast
      qed
    qed
    then show ?thesis by simp
  qed
  then show ?thesis using assms(9) by (cases "swap_loop mm st m fee True ex limit r") auto
qed

section \<open>Properties\<close>

text \<open>The price lies between the prices of a tick and the next.\<close>

definition tick_matches :: "int \<Rightarrow> u160 \<Rightarrow> bool" where
  "tick_matches t p \<longleftrightarrow> (case (get_sqrt_ratio_at_tick t, get_sqrt_ratio_at_tick (t + 1)) of (Some a, Some b) \<Rightarrow> a \<le> p \<and> p \<le> b | _ \<Rightarrow> False)"

lemma tick_matches_iff:
  "tick_matches t p \<longleftrightarrow> MIN_TICK \<le> t \<and> t < MAX_TICK \<and> tick_ratio t \<le> unat p \<and> unat p \<le> tick_ratio (t + 1)"
proof (cases "MIN_TICK \<le> t \<and> t < MAX_TICK")
  case True
  then have range: "- 887272 \<le> t" "t \<le> 887272" "- 887272 \<le> t + 1" "t + 1 \<le> 887272" by (simp_all add: tick_range)
  obtain a where a: "get_sqrt_ratio_at_tick t = Some a" "unat a = tick_ratio t" by (rule sqrt_ratio_value [OF range(1,2)])
  obtain b where b: "get_sqrt_ratio_at_tick (t + 1) = Some b" "unat b = tick_ratio (t + 1)" by (rule sqrt_ratio_value [OF range(3,4)])
  show ?thesis using True a b by (simp add: tick_matches_def word_le_nat_alt)
next
  case False
  then have "get_sqrt_ratio_at_tick t = None \<or> get_sqrt_ratio_at_tick (t + 1) = None" by (auto simp: get_sqrt_ratio_eq tick_range)
  then show ?thesis using False by (auto simp: tick_matches_def split: option.splits)
qed

lemma quote_limit:
  assumes "MIN_SQRT_RATIO < ps_price_sqrt_ratio_x96 st" "ps_price_sqrt_ratio_x96 st < MAX_SQRT_RATIO"
    "case limit of Some l \<Rightarrow> MIN_SQRT_RATIO < l \<and> l < MAX_SQRT_RATIO | None \<Rightarrow> True"
    "(case limit of Some l \<Rightarrow> validate_price_limit st l zfo | None \<Rightarrow> Inr ()) = Inr ()"
  defines "bound \<equiv> case limit of Some l \<Rightarrow> l | None \<Rightarrow> if zfo then MIN_SQRT_RATIO + 1 else MAX_SQRT_RATIO - 1"
  shows "MIN_SQRT_RATIO < bound" "bound < MAX_SQRT_RATIO" "if zfo then bound \<le> ps_price_sqrt_ratio_x96 st else ps_price_sqrt_ratio_x96 st \<le> bound"
proof -
  have ends: "unat (MIN_SQRT_RATIO + 1) = unat MIN_SQRT_RATIO + 1" "unat (MAX_SQRT_RATIO - 1) = unat MAX_SQRT_RATIO - 1" "unat MIN_SQRT_RATIO + 1 < unat MAX_SQRT_RATIO - 1"
    by (simp_all add: MIN_SQRT_RATIO_def MAX_SQRT_RATIO_def)
  have none: "MIN_SQRT_RATIO < MIN_SQRT_RATIO + 1" "MIN_SQRT_RATIO + 1 < MAX_SQRT_RATIO" "MIN_SQRT_RATIO + 1 \<le> ps_price_sqrt_ratio_x96 st"
    "MIN_SQRT_RATIO < MAX_SQRT_RATIO - 1" "MAX_SQRT_RATIO - 1 < MAX_SQRT_RATIO" "ps_price_sqrt_ratio_x96 st \<le> MAX_SQRT_RATIO - 1"
    using assms(1,2) ends unfolding word_less_nat_alt word_le_nat_alt by linarith+
  show "MIN_SQRT_RATIO < bound" "bound < MAX_SQRT_RATIO" using assms(3) none by (auto simp only: bound_def option.case split: option.splits if_split)
  show "if zfo then bound \<le> ps_price_sqrt_ratio_x96 st else ps_price_sqrt_ratio_x96 st \<le> bound"
  proof (cases limit)
    case None
    then show ?thesis using none by (simp only: bound_def option.case split: if_split) simp
  next
    case (Some l)
    then show ?thesis using assms(4) by (auto simp: bound_def validate_price_limit_def split: if_splits)
  qed
qed

lemma quote_of_run_ok:
  assumes "- (2 ^ 255) \<le> amt" "amt < 2 ^ 255" "run_ok m zfo (0 < amt) bound r \<and> (sr_remaining r = 0 \<or> sr_price r = bound) \<and> (if zfo then sr_price r \<le> p else p \<le> sr_price r)"
  shows "tick_matches (sq_tick_after (quote_of_run st zfo amt r)) (sq_sqrt_price_after_x96 (quote_of_run st zfo amt r)) \<and>
    (if zfo then sq_sqrt_price_after_x96 (quote_of_run st zfo amt r) \<le> p else p \<le> sq_sqrt_price_after_x96 (quote_of_run st zfo amt r)) \<and>
    ((if zfo = (0 < amt) then sq_amount0 (quote_of_run st zfo amt r) else sq_amount1 (quote_of_run st zfo amt r)) = amt \<or>
     sq_sqrt_price_after_x96 (quote_of_run st zfo amt r) = bound)"
proof -
  have "tick_matches (sr_tick r) (sr_price r)" using run_okD(4-7) [OF conjunct1 [OF assms(3)]] by (simp add: tick_matches_iff)
  moreover have "wrap_s 256 amt = amt" using assms(1,2) by (rule wrap_s_256_id)
  ultimately show ?thesis using assms(3) by (auto simp: quote_of_run_def Let_def)
qed

text \<open>C36: With a price limit strictly between the least and the greatest price, or none, a quote always returns: the loop over the ticks ends. A quote that succeeds
  leaves a tick that matches the price, has moved the price in the direction of the swap only, and has used the whole amount unless the price is at the limit.\<close>

theorem quote_swap_returns:
  assumes "mul_mod_spec mm" "fee < 1000000" "bm_ok (tm_bitmap m)" "- (2 ^ 255) \<le> amt" "amt < 2 ^ 255"
    "tick_matches (ps_current_tick st) (ps_price_sqrt_ratio_x96 st)" "MIN_SQRT_RATIO < ps_price_sqrt_ratio_x96 st" "ps_price_sqrt_ratio_x96 st < MAX_SQRT_RATIO"
    "case limit of Some l \<Rightarrow> MIN_SQRT_RATIO < l \<and> l < MAX_SQRT_RATIO | None \<Rightarrow> True"
  shows "\<exists>x. quote_swap mm (Some fee) True st m amt zero_for_one limit = Some x \<and>
    (\<forall>q. x = Some (Inr q) \<longrightarrow>
      tick_matches (sq_tick_after q) (sq_sqrt_price_after_x96 q) \<and>
      (if zero_for_one then sq_sqrt_price_after_x96 q \<le> ps_price_sqrt_ratio_x96 st else ps_price_sqrt_ratio_x96 st \<le> sq_sqrt_price_after_x96 q) \<and>
      ((if zero_for_one = (0 < amt) then sq_amount0 q else sq_amount1 q) = amt \<or>
       sq_sqrt_price_after_x96 q = (case limit of Some l \<Rightarrow> l | None \<Rightarrow> if zero_for_one then MIN_SQRT_RATIO + 1 else MAX_SQRT_RATIO - 1)))"
proof (cases "amt = 0 \<or> (case limit of Some l \<Rightarrow> validate_price_limit st l zero_for_one \<noteq> Inr () | None \<Rightarrow> False)")
  case True
  then show ?thesis by (auto simp: quote_swap_def validate_price_limit_def split: option.splits if_splits)
next
  case False
  define bound where "bound = (case limit of Some l \<Rightarrow> l | None \<Rightarrow> if zero_for_one then MIN_SQRT_RATIO + 1 else MAX_SQRT_RATIO - 1)"
  let ?r = "start_run st m zero_for_one amt"
  have valid: "(case limit of Some l \<Rightarrow> validate_price_limit st l zero_for_one | None \<Rightarrow> Inr ()) = Inr ()" "amt \<noteq> 0"
    using False by (auto split: option.splits)
  have bound: "MIN_SQRT_RATIO < bound" "bound < MAX_SQRT_RATIO"
      "if zero_for_one then bound \<le> ps_price_sqrt_ratio_x96 st else ps_price_sqrt_ratio_x96 st \<le> bound"
    unfolding bound_def by (rule quote_limit [OF assms(7-9) valid(1)])+
  have run: "run_ok m zero_for_one (0 < amt) bound ?r"
    using assms(3-6) bound valid(2) by (auto simp: run_ok_def start_run_def tick_matches_iff)
  obtain y where y: "swap_loop mm st m fee zero_for_one (0 < amt) bound ?r = Some y"
    "\<And>r'. y = Some (Inr r') \<Longrightarrow> run_ok m zero_for_one (0 < amt) bound r' \<and> (sr_remaining r' = 0 \<or> sr_price r' = bound) \<and>
      (if zero_for_one then sr_price r' \<le> sr_price ?r else sr_price ?r \<le> sr_price r')"
    using swap_loop_ends [OF assms(1,2) run] by blast
  have "quote_swap mm (Some fee) True st m amt zero_for_one limit = Some (map_option (map_sum Arithmetic (quote_of_run st zero_for_one amt)) y)"
    using valid y(1) by (simp add: quote_swap_def simulate_swap_through_ticks_def bound_def)
  moreover have "tick_matches (sq_tick_after q) (sq_sqrt_price_after_x96 q) \<and>
      (if zero_for_one then sq_sqrt_price_after_x96 q \<le> ps_price_sqrt_ratio_x96 st else ps_price_sqrt_ratio_x96 st \<le> sq_sqrt_price_after_x96 q) \<and>
      ((if zero_for_one = (0 < amt) then sq_amount0 q else sq_amount1 q) = amt \<or> sq_sqrt_price_after_x96 q = bound)"
    if success: "map_option (map_sum Arithmetic (quote_of_run st zero_for_one amt)) y = Some (Inr q)" for q
  proof -
    obtain r' where r': "y = Some (Inr r')" "q = quote_of_run st zero_for_one amt r'" using success by (cases y; cases "the y") auto
    show ?thesis using y(2) [OF r'(1)] unfolding r'(2) by (intro quote_of_run_ok [OF assms(4,5), of m]) (simp add: start_run_def split: if_splits)
  qed
  ultimately show ?thesis unfolding bound_def by blast
qed

lemma sample_pool:
  obtains m where "tick_map_new 60 = Some m" "bm_ok (tm_bitmap m)"
proof -
  obtain bm where bm: "bitmap_new 60 = Some bm" "bm_ok bm" by (rule bitmap_new_ok [of 60]) simp_all
  have "\<exists>x. tick_spacing_to_max_liquidity_per_tick (wrap_s 32 60) = Some x"
    by (simp add: tick_spacing_to_max_liquidity_per_tick_def wrap_s_def MIN_TICK_def MAX_TICK_def checked_div_def signed_divide_int_def)
  then show thesis using that bm by (auto simp: tick_map_new_def)
qed

definition sample_state :: pool_state where
  "sample_state = pool_state_default\<lparr>ps_price_sqrt_ratio_x96 := 2 ^ 96\<rparr>"

lemma sample_state_matches: "tick_matches (ps_current_tick sample_state) (ps_price_sqrt_ratio_x96 sample_state)"
  by (simp add: tick_matches_iff sample_state_def pool_state_default_def tick_range tick_ratio_def rounded_product_numeral factors_def)

theorem quote_swap_returns_witness:
  "\<exists>m x. tick_map_new 60 = Some m \<and>
     quote_swap sample_mul_mod (Some 3000) True sample_state (m\<lparr>tm_liquidity := 10 ^ 18\<rparr>) 1000 True (Some (2 ^ 95)) = Some x \<and>
     (\<forall>q. x = Some (Inr q) \<longrightarrow> tick_matches (sq_tick_after q) (sq_sqrt_price_after_x96 q) \<and> sq_sqrt_price_after_x96 q \<le> 2 ^ 96 \<and>
       (sq_amount0 q = 1000 \<or> sq_sqrt_price_after_x96 q = 2 ^ 95))"
proof -
  obtain m where m: "tick_map_new 60 = Some m" "bm_ok (tm_bitmap m)" by (rule sample_pool)
  have "MIN_SQRT_RATIO < ps_price_sqrt_ratio_x96 sample_state" "ps_price_sqrt_ratio_x96 sample_state < MAX_SQRT_RATIO"
    "MIN_SQRT_RATIO < 2 ^ 95" "2 ^ 95 < MAX_SQRT_RATIO" "ps_price_sqrt_ratio_x96 sample_state = 2 ^ 96"
    by (simp_all add: sample_state_def MIN_SQRT_RATIO_def MAX_SQRT_RATIO_def)
  then show ?thesis
    using quote_swap_returns [OF sample_mul_mod_spec _ _ _ _ sample_state_matches, of 3000 "m\<lparr>tm_liquidity := 10 ^ 18\<rparr>" 1000 "Some (2 ^ 95)" True] m by simp
qed

text \<open>C37: A limit below the least price is accepted and the loop does not end: in a pool that has no liquidity, a quote of any amount of token 0 with such a limit
  never returns.\<close>

theorem quote_below_least_price_diverges:
  assumes "mul_mod_spec mm" "fee < 1000000" "- (2 ^ 255) \<le> amt" "amt < 2 ^ 255" "amt \<noteq> 0"
    "0 < spacing" "spacing \<le> 16384" "tick_map_new spacing = Some m"
    "tick_matches (ps_current_tick st) (ps_price_sqrt_ratio_x96 st)" "limit < MIN_SQRT_RATIO"
  shows "quote_swap mm (Some fee) True st m amt True (Some limit) = None"
proof -
  obtain bm where bm: "bitmap_new spacing = Some bm" "bm_ok bm" "bm_ticks bm = {}" by (rule bitmap_new_ok [OF assms(6,7)])
  then have m: "tm_bitmap m = bm" "tm_liquidity m = 0" using assms(6,8) by (auto simp: tick_map_new_def bind_Some_conv)
  have tick: "MIN_TICK \<le> ps_current_tick st" "ps_current_tick st < MAX_TICK" "tick_ratio (ps_current_tick st) \<le> unat (ps_price_sqrt_ratio_x96 st)"
    using assms(9) by (simp_all add: tick_matches_iff)
  have "tick_ratio MIN_TICK \<le> tick_ratio (ps_current_tick st)" using tick by (intro tick_ratio_le) simp_all
  then have min: "MIN_SQRT_RATIO \<le> ps_price_sqrt_ratio_x96 st" using tick(3) by (simp add: word_le_nat_alt ratio_ends)
  have "stuck amt (start_run st m True amt)" using tick m(2) min by (simp add: stuck_def start_run_def max_absorb2)
  then have "swap_loop mm st m fee True (0 < amt) limit (start_run st m True amt) = None"
    using bm(2,3) m(1) by (intro stuck_diverges [OF assms(1-5) _ _ assms(10)]) simp_all
  moreover have "validate_price_limit st limit True = Inr ()" using assms(10) min by (auto simp: validate_price_limit_def)
  ultimately show ?thesis using assms(5) by (simp add: quote_swap_def simulate_swap_through_ticks_def)
qed

theorem quote_below_least_price_diverges_witness:
  "\<exists>m. tick_map_new 60 = Some m \<and> quote_swap sample_mul_mod (Some 3000) True sample_state m 1000 True (Some 0) = None"
proof -
  obtain m where m: "tick_map_new 60 = Some m" by (rule sample_pool)
  have "0 < MIN_SQRT_RATIO" by (simp add: MIN_SQRT_RATIO_def)
  then show ?thesis
    using quote_below_least_price_diverges [OF sample_mul_mod_spec _ _ _ _ _ _ m sample_state_matches, of 3000 1000 0] m by auto
qed

end
