(* ===== verification/Spec2Isabelle.thy ===== *)
theory Spec2Isabelle
  imports Book_Fills Matching_Core Topic_Router Rate_Limiter Throttler Renko_Bars Own_Book Synthetic
    Kmerge Data_Replay Test_Clock Pool_Swap
begin

text \<open>
  A verification library for the trading engine of TradeOS: the Rust crates under
  \<open>src/nautilus_trader/crates\<close>. File names below are relative to that directory.

  \<^bold>\<open>The program.\<close> A venue sends market data. Order books (\<open>model/src/orderbook\<close>) collect it, bar
  aggregators (\<open>data/src/aggregation.rs\<close>) condense it, synthetic instruments
  (\<open>model/src/instruments/synthetic.rs\<close>) compute further prices from it, and the message bus
  (\<open>common/src/msgbus\<close>) carries all of it to the subscribers. Strategies submit orders
  (\<open>model/src/orders\<close>), whose state follows the events that the venue sends back; the matching core
  (\<open>execution/src/matching_core\<close>) matches resting orders against the quotes, and own books mirror the orders that are not closed for
  the cache. Throttlers and rate limiters bound what is sent. In a backtest the data iterator replays recorded streams, which queries of
  the catalog merge by time, and a test clock fires timers between the data.

  \<^bold>\<open>Conventions.\<close> The model is of the build with high precision (raw prices and quantities of 128 bits), in the
  release profile: debug assertions are left out of the operations, and where one is part of a claim it is a predicate of its own
  (\<open>cache_size_ok\<close>). A panic is the value \<open>None\<close> of type \<open>'a panics\<close>; an error that the
  source returns is \<open>Inl\<close> of a sum; a result that is both is a sum inside \<open>panics\<close>. Identifiers, times, flags
  and sequence numbers that wrap are words; raw values and
  times that the source checks for overflow are integers with the bound in the operation. A loop whose end is part of a claim is either a
  \<open>function\<close> with a termination proof or a \<open>partial_function (option)\<close>, where the theorems show that the result is not \<open>None\<close>.
  Only the parser of formulas takes fuel, the number of tokens: it is proved to be enough for every token list of the lexer, and more
  fuel gives the same result.
  Code outside the repository is a parameter: operations on f64, \<open>rust_decimal\<close>, the hash of
  \<open>ahash\<close>, the order of interned strings and the modular product of 256-bit integers; what a theorem needs of such a parameter is a
  hypothesis of it.

  \<^bold>\<open>Foundations.\<close>
  \<^item> \<open>Nt_Prelude\<close>: panics, results, wrap-around, checked indexing, lists.
  \<^item> \<open>Containers\<close>: the insertion-ordered and the key-ordered map, both interpretations of the locale
    \<open>key_store\<close> (what a lookup returns after an insertion or a removal).
  \<^item> \<open>Fixed_Point\<close> (\<open>model/src/types/fixed.rs\<close>) and \<open>Value_Types\<close> (\<open>price.rs\<close>, \<open>quantity.rs\<close>):
    scaling, banker's rounding, decoding of mantissa and exponent, checked arithmetic, decimal round trip.

  \<^bold>\<open>Order book.\<close> \<open>Book_Level\<close> (\<open>level.rs\<close>, \<open>aggregation.rs\<close>, \<open>data/order.rs\<close>), \<open>Book_Ladder\<close> and
  \<open>Ladder_Shape\<close> (\<open>ladder.rs\<close>), \<open>Order_Book\<close> (\<open>book.rs\<close>, \<open>data/delta.rs\<close>, \<open>deltas.rs\<close>, \<open>depth.rs\<close>). The locale \<open>order_store\<close> is the contract of one side of a book, a
  map of orders by identifier; the ladder and the own ladder interpret it. \<open>Book_Correct\<close> shows that no stream of deltas panics, when
  the cache of a ladder agrees with its levels, and that a book refines two maps of orders, \<open>Book_Snapshot\<close> that a snapshot rebuilds a book and that stale levels are
  removed exactly, \<open>Book_Fills\<close> that simulated fills are exact, and how quotes and trades replace an L1 book.
  \<open>Own_Book\<close> (\<open>own.rs\<close>, \<open>common/src/cache/mod.rs\<close>): own books hold exactly the orders that are not closed.

  \<^bold>\<open>Orders.\<close> \<open>Order_Core\<close> has the status machine and the event handlers (\<open>orders/mod.rs\<close>), \<open>Order_Kinds\<close> the nine order types, whose common
  contract is the locale \<open>order_kind\<close>, \<open>Order_Any\<close> their union. \<open>Order_Lifecycle\<close> shows the invariants of
  quantities and statuses by rule induction over accepted and refused events, that the log replays, that
  closed orders are final. \<open>Matching_Core\<close>: the resting orders are a map, an iteration reports exactly the matches.

  \<^bold>\<open>Messages and limits.\<close> \<open>Topic_Matching\<close> (\<open>matching.rs\<close>: the backtracking loop ends on all bytes and decides
  the wildcard relation on the bytes of valid topics), \<open>Topic_Router\<close> (\<open>typed_router.rs\<close>: a publication reaches exactly the active matching
  subscriptions, through the cache of indices), \<open>Rate_Limiter\<close> (\<open>network/src/ratelimiter\<close>: interleaved
  compare-and-swap loops admit a bounded number of requests, one more than burst and replenishment, and this bound is attained), \<open>Throttler\<close> (\<open>throttler.rs\<close>: rate and order of messages).

  \<^bold>\<open>Bars.\<close> \<open>Bar_Builder\<close>, \<open>Bar_Aggregators\<close>, \<open>Renko_Bars\<close> (\<open>data/src/aggregation.rs\<close>). The locale
  \<open>bar_feed\<close> states what an aggregator does with one sample; its interpretations for tick, volume and imbalance bars
  give that bars summarise consecutive samples and that volume is conserved.

  \<^bold>\<open>Formulas.\<close> \<open>Formula_Syntax\<close>, \<open>Formula_Lexer\<close>, \<open>Formula_Parser\<close>, \<open>Formula_Machine\<close>
  (\<open>model/src/expressions\<close>) and \<open>Synthetic\<close>. \<open>Formula_Correct\<close> shows that compiled code computes the meaning of the
  syntax tree, \<open>Formula_Types\<close> that the compiler accepts exactly the typed programs that keep to the limits of stack and locals, both stated on the syntax, \<open>Formula_Parser\<close> that printing and parsing is the
  identity.

  \<^bold>\<open>Time and replay.\<close> \<open>Binary_Heap\<close> and \<open>Kmerge\<close> (\<open>persistence/src/backend\<close>): the heap keeps its
  order with every unchecked access in range, and a query delivers the items of its streams sorted by time. \<open>Data_Replay\<close>
  (\<open>backtest/src/data_iterator.rs\<close>): the iterator delivers exactly the pending elements in order. \<open>Test_Clock\<close>
  (\<open>common/src/timer.rs\<close>, \<open>clock.rs\<close>): an advance fires exactly the due events.

  \<^bold>\<open>Pools.\<close> Pools with concentrated liquidity (\<open>model/src/defi\<close>) on words of 256, 160 and
  128 bits. \<open>Full_Math\<close> (\<open>tick_map/full_math.rs\<close>, \<open>bit_math.rs\<close>, \<open>liquidity_math.rs\<close>): the 512-bit quotient by modular inverse is exact, and the
  square root loop returns. \<open>Tick_Ratio\<close> and \<open>Tick_Math\<close> (\<open>tick_math.rs\<close>): prices of ticks are
  increasing and close to the powers of 1.0001, and the logarithm inverts them on every price. \<open>Sqrt_Price\<close> (\<open>sqrt_price_math.rs\<close>) and \<open>Swap_Math\<close>
  (\<open>pool_analysis/swap_math.rs\<close>): amounts are exact up to the rounding in favour of the pool, and a swap step uses exactly its amount.
  \<open>Tick_Bitmap\<close> (\<open>tick_bitmap.rs\<close>): the bitmap is a set of ticks, and an interpretation of the locale \<open>tick_index\<close>. \<open>Pool_Ticks\<close>
  (\<open>tick.rs\<close>, \<open>mod.rs\<close>) and \<open>Pool_Swap\<close> (\<open>pool_analysis/profiler.rs\<close>, \<open>quote.rs\<close>): the loop of a swap ends for
  limits inside the price range, and does not for limits below it.

  \<^bold>\<open>Not modelled.\<close> Arithmetic on f64 (value bars, indicators, statistics, positions) and on decimals (margins, grouped book
  views) beyond parameters; engines that share state through reference cells and the message bus (execution, risk, portfolio, data);
  input and output, threads and asynchronous tasks (network clients, live trading,
  logging, persistence of files, adapters); generated code, bindings and serialisation; the Python and Cython
  packages beside the crates. The manifest lists each part with its reason.

  \<^bold>\<open>Plan.\<close> Money and balances, the state machine of components, the bounded caches of identifiers, the
  contingency handling of the order manager, time bars on the test clock.
\<close>

end
